(* ===== verification/Prelude.thy ===== *)
theory Prelude
  imports Main "HOL-Library.Word"
begin

text \<open>
  What every component shares: the outcomes of kernel code, the combinators the translated
  functions are written with, C integers, and the collections of rules the component proofs
  feed to the simplifier.

  A kernel function is a function from a state to an outcome. \<open>Ok a s\<close> is a normal return.
  \<open>Panic msg\<close> is a call of \<open>panic\<close> (the machine stops). \<open>Sleep c s\<close> means that the call has
  gone to sleep on channel \<open>c\<close> and the CPU is back in the scheduler with state \<open>s\<close>. \<open>Hang\<close> is a
  loop that never ends. \<open>Undef\<close> is an access the C language gives no meaning to.
\<close>

named_theorems kdefs \<open>definitions of the kernel operations, for symbolic execution\<close>
named_theorems frame \<open>what an operation leaves alone\<close>

section \<open>Outcomes and the kernel monad\<close>

text \<open>
  Sleep channels are addresses in the C code: of a buffer, an in-memory inode, the log, the
  tick counter, a field of a pipe (the page the pipe lives in), a process, or the console input.
\<close>

datatype chan =
    ChBuf nat
  | ChInode nat
  | ChLog
  | ChTicks
  | ChPipeRead "32 word"
  | ChPipeWrite "32 word"
  | ChProc nat
  | ChInput

datatype ('a, 's) res =
    Ok 'a 's
  | Panic string
  | Sleep chan 's
  | Hang
  | Undef

type_synonym ('a, 's) K = "'s \<Rightarrow> ('a, 's) res"

abbreviation kret :: "'a \<Rightarrow> ('a, 's) K" where
  "kret \<equiv> Ok"

definition kbind :: "('a, 's) K \<Rightarrow> ('a \<Rightarrow> ('b, 's) K) \<Rightarrow> ('b, 's) K" where
  "kbind m f = (\<lambda>s. case m s of
      Ok a t \<Rightarrow> f a t
    | Panic p \<Rightarrow> Panic p
    | Sleep c t \<Rightarrow> Sleep c t
    | Hang \<Rightarrow> Hang
    | Undef \<Rightarrow> Undef)"

definition kseq :: "('a, 's) K \<Rightarrow> ('b, 's) K \<Rightarrow> ('b, 's) K" where
  "kseq m n = kbind m (\<lambda>_. n)"

definition kget :: "('s \<Rightarrow> 'a) \<Rightarrow> ('a, 's) K" where
  "kget f = (\<lambda>s. Ok (f s) s)"

definition kmod :: "('s \<Rightarrow> 's) \<Rightarrow> (unit, 's) K" where
  "kmod f = (\<lambda>s. Ok () (f s))"

definition kpanic :: "string \<Rightarrow> ('a, 's) K" where
  "kpanic msg = (\<lambda>s. Panic msg)"

definition kundef :: "('a, 's) K" where
  "kundef = (\<lambda>s. Undef)"

definition khang :: "('a, 's) K" where
  "khang = (\<lambda>s. Hang)"

definition kwhen :: "bool \<Rightarrow> (unit, 's) K \<Rightarrow> (unit, 's) K" where
  "kwhen b m = (if b then m else kret ())"

text \<open>A statement list run in order, and a loop over a list of values.\<close>

fun kblock :: "(unit, 's) K list \<Rightarrow> (unit, 's) K" where
  "kblock [] = kret ()"
| "kblock [m] = m"
| "kblock (m # n # ms) = kseq m (kblock (n # ms))"

fun kfor :: "'x list \<Rightarrow> ('x \<Rightarrow> (unit, 's) K) \<Rightarrow> (unit, 's) K" where
  "kfor [] body = kret ()"
| "kfor (x # xs) body = kseq (body x) (kfor xs body)"

text \<open>A search over a list of values that stops at the first turn with a result.\<close>

fun kfirst :: "'x list \<Rightarrow> ('x \<Rightarrow> ('y option, 's) K) \<Rightarrow> ('y option, 's) K" where
  "kfirst [] f = kret None"
| "kfirst (x # xs) f =
     kbind (f x) (\<lambda>r. case r of Some y \<Rightarrow> kret (Some y) | None \<Rightarrow> kfirst xs f)"

text \<open>
  A loop with at most \<open>n\<close> turns: a turn goes on with \<open>Inl\<close> of the next loop variables or leaves
  with \<open>Inr\<close> of the result. Running out of turns is \<open>Hang\<close>; the component says why its bound is
  never reached by a loop that ends.
\<close>

fun kloop :: "nat \<Rightarrow> ('x \<Rightarrow> ('x + 'y, 's) K) \<Rightarrow> 'x \<Rightarrow> ('y, 's) K" where
  "kloop 0 body x = khang"
| "kloop (Suc n) body x =
     kbind (body x) (\<lambda>r. case r of Inl x' \<Rightarrow> kloop n body x' | Inr y \<Rightarrow> kret y)"

lemma kloop_unfold:
  "0 < n \<Longrightarrow> kloop n body x =
     kbind (body x) (\<lambda>r. case r of Inl x' \<Rightarrow> kloop (n - 1) body x' | Inr y \<Rightarrow> kret y)"
  by (cases n) simp_all

lemma kget_apply [simp]: "kget f s = Ok (f s) s"
  by (simp add: kget_def)

lemma kmod_apply [simp]: "kmod f s = Ok () (f s)"
  by (simp add: kmod_def)

lemma kpanic_apply [simp]: "kpanic msg s = Panic msg"
  by (simp add: kpanic_def)

lemma kundef_apply [simp]: "kundef s = Undef"
  by (simp add: kundef_def)

lemma khang_apply [simp]: "khang s = Hang"
  by (simp add: khang_def)

lemma kbind_kret [simp]: "kbind (kret x) f = f x"
  by (rule ext) (simp add: kbind_def)

lemma kbind_ret_right [simp]: "kbind m Ok = m"
  by (rule ext) (simp add: kbind_def split: res.splits)

lemma kseq_ret_right [simp]: "kseq m (kret ()) = m"
  by (rule ext) (simp add: kseq_def kbind_def split: res.splits)

lemma kbind_Ok: "m s = Ok a t \<Longrightarrow> kbind m f s = f a t"
  by (simp add: kbind_def)

lemma kbind_kget [simp]: "kbind (kget g) f s = f (g s) s"
  by (simp add: kbind_def)

lemma kbind_kmod [simp]: "kbind (kmod g) f s = f () (g s)"
  by (simp add: kbind_def)

lemma kseq_Ok: "m s = Ok a t \<Longrightarrow> kseq m n s = n t"
  by (simp add: kseq_def kbind_def)

lemma kseq_kmod [simp]: "kseq (kmod g) n s = n (g s)"
  by (simp add: kseq_def)

lemma kseq_kret [simp]: "kseq (kret x) n = n"
  by (simp add: kseq_def)

lemma kbind_panic [simp]: "kbind (kpanic p) f s = Panic p"
  by (simp add: kbind_def)

lemma kseq_panic [simp]: "kseq (kpanic p) f s = Panic p"
  by (simp add: kseq_def)

lemma kbind_assoc: "kbind (kbind m f) g = kbind m (\<lambda>x. kbind (f x) g)"
  by (rule ext) (simp add: kbind_def split: res.splits)

lemma kbind_seq: "kbind (kseq m n) f = kseq m (kbind n f)"
  by (simp add: kseq_def kbind_assoc)

lemma kseq_seq: "kseq (kseq m n) k = kseq m (kseq n k)"
  by (simp add: kseq_def kbind_assoc)

lemma kseq_bind: "kseq (kbind m f) n = kbind m (\<lambda>x. kseq (f x) n)"
  by (simp add: kseq_def kbind_assoc)

lemma kwhen_apply [simp]: "kwhen b m s = (if b then m s else Ok () s)"
  by (simp add: kwhen_def)

lemma kseq_kwhen [simp]: "kseq (kwhen b m) n s = (if b then kseq m n s else n s)"
  by (simp add: kwhen_def)

lemma kbind_if [simp]: "kbind (if b then m else n) f s = (if b then kbind m f s else kbind n f s)"
  by simp

lemma kseq_if [simp]: "kseq (if b then m else n) k s = (if b then kseq m k s else kseq n k s)"
  by simp

lemmas kassoc = kbind_assoc kbind_seq kseq_seq kseq_bind

section \<open>Total-correctness predicate transformer\<close>

text \<open>\<open>wp m Q s\<close>: \<open>m\<close> started in \<open>s\<close> returns, and \<open>Q\<close> holds of its value and final state.\<close>

definition wp :: "('a, 's) K \<Rightarrow> ('a \<Rightarrow> 's \<Rightarrow> bool) \<Rightarrow> 's \<Rightarrow> bool" where
  "wp m Q s = (case m s of Ok a t \<Rightarrow> Q a t | _ \<Rightarrow> False)"

lemma wp_iff: "wp m Q s \<longleftrightarrow> (\<exists>a t. m s = Ok a t \<and> Q a t)"
  by (auto simp: wp_def split: res.splits)

lemma wp_kret [simp]: "wp (kret x) Q s = Q x s"
  by (simp add: wp_def)

lemma wp_kget [simp]: "wp (kget f) Q s = Q (f s) s"
  by (simp add: wp_def)

lemma wp_kmod [simp]: "wp (kmod f) Q s = Q () (f s)"
  by (simp add: wp_def)

lemma wp_kbind [simp]: "wp (kbind m f) Q s = wp m (\<lambda>a. wp (f a) Q) s"
  by (simp add: wp_def kbind_def split: res.splits)

lemma wp_kseq [simp]: "wp (kseq m n) Q s = wp m (\<lambda>_. wp n Q) s"
  by (simp add: kseq_def)

lemma wp_kpanic [simp]: "wp (kpanic p) Q s = False"
  by (simp add: wp_def)

lemma wp_kwhen [simp]: "wp (kwhen b m) Q s = (if b then wp m Q s else Q () s)"
  by (simp add: wp_def)

lemma wp_if [simp]: "wp (if b then m else n) Q s = (if b then wp m Q s else wp n Q s)"
  by simp

lemma wp_mono: "wp m Q s \<Longrightarrow> (\<And>a t. Q a t \<Longrightarrow> R a t) \<Longrightarrow> wp m R s"
  by (auto simp: wp_def split: res.splits)

lemma wp_kfor:
  assumes "I xs s"
    and "\<And>y ys t. I (y # ys) t \<Longrightarrow> wp (body y) (\<lambda>_. I ys) t"
  shows "wp (kfor xs body) (\<lambda>_. I []) s"
  using assms(1)
proof (induction xs arbitrary: s)
  case Nil
  then show ?case by simp
next
  case (Cons y ys)
  from assms(2) [OF Cons.prems] show ?case
    by (auto intro: wp_mono Cons.IH)
qed

lemma wp_conj: "wp m Q s \<Longrightarrow> wp m R s \<Longrightarrow> wp m (\<lambda>a t. Q a t \<and> R a t) s"
  by (auto simp: wp_def split: res.splits)

text \<open>A loop whose measure falls stays within its bound.\<close>

lemma wp_kloop:
  assumes "I x s" and "measure_of x s < n"
    and step: "\<And>x s. I x s \<Longrightarrow> wp (body x)
      (\<lambda>r t. case r of Inl x' \<Rightarrow> I x' t \<and> measure_of x' t < (measure_of x s :: nat) | Inr y \<Rightarrow> Q y t) s"
  shows "wp (kloop n body x) Q s"
  using assms(1,2)
proof (induction n arbitrary: x s)
  case 0
  then show ?case by simp
next
  case (Suc n)
  show ?case
    by (simp, rule wp_mono [OF step [OF Suc.prems(1)]])
      (use Suc in \<open>auto split: sum.splits\<close>)
qed

section \<open>Frames: what every outcome of an operation leaves alone\<close>

text \<open>
  \<open>keeps f m\<close>: whether \<open>m\<close> returns or goes to sleep, the part \<open>f\<close> of the state is what it was.
\<close>

definition keeps :: "('s \<Rightarrow> 'b) \<Rightarrow> ('a, 's) K \<Rightarrow> bool" where
  "keeps f m \<longleftrightarrow> (\<forall>s. case m s of Ok a t \<Rightarrow> f t = f s | Sleep c t \<Rightarrow> f t = f s | _ \<Rightarrow> True)"

lemma keeps_kret [intro, frame]: "keeps f (kret x)"
  by (simp add: keeps_def)

lemma keeps_kget [intro, frame]: "keeps f (kget g)"
  by (simp add: keeps_def)

lemma keeps_kpanic [intro, frame]: "keeps f (kpanic p)"
  by (simp add: keeps_def)

lemma keeps_kundef [intro, frame]: "keeps f kundef"
  by (simp add: keeps_def)

lemma keeps_khang [intro, frame]: "keeps f khang"
  by (simp add: keeps_def)

lemma keeps_kmod [frame]: "(\<And>s. f (g s) = f s) \<Longrightarrow> keeps f (kmod g)"
  by (simp add: keeps_def)

lemma keeps_kbind [frame]:
  assumes "keeps f m" and "\<And>x. keeps f (n x)"
  shows "keeps f (kbind m n)"
  unfolding keeps_def
proof
  fix s
  show "case kbind m n s of Ok a t \<Rightarrow> f t = f s | Sleep c t \<Rightarrow> f t = f s | _ \<Rightarrow> True"
  proof (cases "m s")
    case (Ok a t)
    from assms(1) have "f t = f s" by (auto simp: keeps_def Ok dest: spec [of _ s])
    moreover from assms(2) have
      "case n a t of Ok a u \<Rightarrow> f u = f t | Sleep c u \<Rightarrow> f u = f t | _ \<Rightarrow> True"
      by (simp add: keeps_def)
    ultimately show ?thesis by (simp add: kbind_def Ok split: res.splits)
  next
    case (Sleep c t)
    with assms(1) show ?thesis by (auto simp: keeps_def kbind_def dest: spec [of _ s])
  qed (simp_all add: kbind_def)
qed

lemma keeps_kseq [frame]: "keeps f m \<Longrightarrow> keeps f n \<Longrightarrow> keeps f (kseq m n)"
  by (simp add: kseq_def keeps_kbind)

lemma keeps_kwhen [frame]: "keeps f m \<Longrightarrow> keeps f (kwhen b m)"
  by (simp add: kwhen_def) (auto simp: keeps_def)

lemma keeps_kblock [frame]: "\<forall>m \<in> set ms. keeps f m \<Longrightarrow> keeps f (kblock ms)"
  by (induction ms rule: kblock.induct) (auto intro: keeps_kseq)

lemma keeps_kfor [frame]: "(\<And>x. keeps f (b x)) \<Longrightarrow> keeps f (kfor xs b)"
  by (induction xs) (auto intro: keeps_kseq)

lemma keeps_kloop [frame]: "(\<And>x. keeps f (b x)) \<Longrightarrow> keeps f (kloop n b x)"
  by (induction n arbitrary: x) (auto intro!: keeps_kbind keeps_khang keeps_kret split: sum.splits)

lemma keeps_kfirst [frame]: "(\<And>x. keeps f (b x)) \<Longrightarrow> keeps f (kfirst xs b)"
  by (induction xs) (auto intro!: keeps_kbind split: option.split)

lemma kfor_map: "kfor (map f xs) b = kfor xs (\<lambda>x. b (f x))"
  by (induction xs) simp_all

lemma kfor_append: "kfor (xs @ ys) b = kseq (kfor xs b) (kfor ys b)"
  by (induction xs) (simp_all add: kseq_seq)

lemma keeps_if [frame]: "keeps f m \<Longrightarrow> keeps f n \<Longrightarrow> keeps f (if b then m else n)"
  by simp

lemma keepsD: "keeps f m \<Longrightarrow> m s = Ok a t \<Longrightarrow> f t = f s"
  by (auto simp: keeps_def dest: spec [of _ s])

lemma keepsD_sleep: "keeps f m \<Longrightarrow> m s = Sleep c t \<Longrightarrow> f t = f s"
  by (auto simp: keeps_def dest: spec [of _ s])

lemma keeps_comp: "keeps f m \<Longrightarrow> keeps (\<lambda>s. g (f s)) m"
  by (auto simp: keeps_def split: res.splits dest: spec)

section \<open>C integers\<close>

type_synonym u8 = "8 word"
type_synonym u16 = "16 word"
type_synonym u32 = "32 word"

text \<open>
  \<open>int\<close> and \<open>short\<close> in two's complement. Where a quantity is kept as \<open>nat\<close> (an unsigned
  quantity) or \<open>int\<close> (a signed one), these write the wrap-around of a store out.
\<close>

definition s32 :: "int \<Rightarrow> int" where
  "s32 x = (x + 2147483648) mod 4294967296 - 2147483648"

definition s16 :: "int \<Rightarrow> int" where
  "s16 x = (x + 32768) mod 65536 - 32768"

definition u32n :: "nat \<Rightarrow> nat" where
  "u32n x = x mod 4294967296"

definition u32i :: "int \<Rightarrow> nat" where
  "u32i x = nat (x mod 4294967296)"

lemma s32_range: "- 2147483648 \<le> s32 x \<and> s32 x < 2147483648"
  by (simp add: s32_def)

lemma s32_id: "- 2147483648 \<le> x \<Longrightarrow> x < 2147483648 \<Longrightarrow> s32 x = x"
  by (simp add: s32_def)

lemma s16_id: "- 32768 \<le> x \<Longrightarrow> x < 32768 \<Longrightarrow> s16 x = x"
  by (simp add: s16_def)

lemma u32n_id [simp]: "x < 4294967296 \<Longrightarrow> u32n x = x"
  by (simp add: u32n_def)

lemma u32n_less [simp]: "u32n x < 4294967296"
  by (simp add: u32n_def)

lemma u32i_id [simp]: "0 \<le> x \<Longrightarrow> x < 4294967296 \<Longrightarrow> u32i x = nat x"
  by (simp add: u32i_def)

text \<open>C division truncates towards zero, and the remainder has the sign of the dividend.\<close>

definition cdiv :: "int \<Rightarrow> int \<Rightarrow> int" where
  "cdiv a b = sgn a * sgn b * (\<bar>a\<bar> div \<bar>b\<bar>)"

definition cmod :: "int \<Rightarrow> int \<Rightarrow> int" where
  "cmod a b = sgn a * (\<bar>a\<bar> mod \<bar>b\<bar>)"

lemma cdiv_pos [simp]: "0 \<le> a \<Longrightarrow> 0 < b \<Longrightarrow> cdiv a b = a div b"
  by (cases "a = 0") (simp_all add: cdiv_def)

lemma cmod_pos [simp]: "0 \<le> a \<Longrightarrow> 0 < b \<Longrightarrow> cmod a b = a mod b"
  by (cases "a = 0") (simp_all add: cmod_def)

lemma unat_u32: "unat (x :: u32) < 4294967296"
  by (rule order.strict_trans2 [OF unsigned_less]) simp

lemma uint_u32: "0 \<le> uint (x :: u32) \<and> uint x < 4294967296"
  by (metis of_nat_less_iff of_nat_numeral of_nat_0_le_iff uint_nat unat_u32)

section \<open>Table scans\<close>

text \<open>The index of the first entry of a table that satisfies a test: \<open>for (p = table; ...)\<close>.\<close>

fun first_idx :: "('a \<Rightarrow> bool) \<Rightarrow> 'a list \<Rightarrow> nat option" where
  "first_idx P [] = None"
| "first_idx P (x # xs) = (if P x then Some 0 else map_option Suc (first_idx P xs))"

lemma first_idx_None: "first_idx P xs = None \<longleftrightarrow> (\<forall>x \<in> set xs. \<not> P x)"
  by (induction xs) auto

lemma first_idx_Some:
  "first_idx P xs = Some i \<longleftrightarrow> i < length xs \<and> P (xs ! i) \<and> (\<forall>j < i. \<not> P (xs ! j))"
proof (induction xs arbitrary: i)
  case Nil
  then show ?case by simp
next
  case (Cons x xs)
  show ?case
  proof (cases i)
    case 0
    then show ?thesis by auto
  next
    case (Suc k)
    then show ?thesis
      by (auto simp: Cons.IH All_less_Suc2)
  qed
qed

lemma first_idx_less: "first_idx P xs = Some i \<Longrightarrow> i < length xs"
  by (simp add: first_idx_Some)

lemma first_idx_holds: "first_idx P xs = Some i \<Longrightarrow> P (xs ! i)"
  by (simp add: first_idx_Some)

lemma first_idx_map: "first_idx P xs = first_idx id (map P xs)"
  by (induction xs) simp_all

lemma first_idx_upd_same: "P y = P (xs ! i) \<Longrightarrow> first_idx P (xs[i := y]) = first_idx P xs"
proof (cases "i < length xs")
  case True
  assume "P y = P (xs ! i)"
  with True have "map P (xs[i := y]) = map P xs" by (simp add: map_update list_update_same_conv)
  then show ?thesis by (metis first_idx_map)
qed (simp add: list_update_beyond)

section \<open>Transition systems\<close>

text \<open>
  The interface of a component seen as a state machine: where it starts, how it moves, and a
  property that its steps keep. The one client lemma is that the property holds in every
  reachable state; each component that has interleavings provides an instance.
\<close>

locale transition_system =
  fixes start :: "'s \<Rightarrow> bool"
    and step :: "'s \<Rightarrow> 's \<Rightarrow> bool"
    and inv :: "'s \<Rightarrow> bool"
  assumes start_inv: "start s \<Longrightarrow> inv s"
    and step_inv: "inv s \<Longrightarrow> step s t \<Longrightarrow> inv t"
begin

lemma run_inv: "step\<^sup>*\<^sup>* s t \<Longrightarrow> inv s \<Longrightarrow> inv t"
  by (induction rule: rtranclp_induct) (auto intro: step_inv)

lemma reachable_inv: "start s \<Longrightarrow> step\<^sup>*\<^sup>* s t \<Longrightarrow> inv t"
  by (rule run_inv) (auto intro: start_inv)

end

end
