(* ===== verification/Spinlock.thy ===== *)
theory Spinlock
  imports Prelude
begin

text \<open>
  kernel/spinlock.c: the machine as the lock code sees it. Each CPU has its interrupt flag and
  the two fields of \<open>struct cpu\<close> that \<open>pushcli\<close> and \<open>popcli\<close> keep; each lock is a
  \<open>struct spinlock\<close>. The operations are first given as one CPU runs them with nobody else
  moving; then the four atomic points of \<open>acquire\<close> and \<open>release\<close> become the steps of a machine
  with any number of CPUs. The last part is the contract the rest of the kernel is written
  against: the list of the locks this CPU holds.
\<close>

unbundle bit_operations_syntax

section \<open>State\<close>

datatype lockid =
    LPtable
  | LKmem
  | LIde
  | LBcache
  | LLog
  | LIcache
  | LFtable
  | LTicks
  | LCons
  | LPipe u32

text \<open>\<open>ncli\<close> is an \<open>int\<close>: it wraps around, see \<open>pushcli\<close>.\<close>

record cpu =
  ncli :: int
  intena :: bool
  ifl :: bool

record spinlock =
  locked :: u32
  lk_name :: string
  lk_cpu :: "nat option"
  pcs :: "u32 list"

record smp =
  cpus :: "nat \<Rightarrow> cpu"
  locks :: "lockid \<Rightarrow> spinlock"

definition upd_cpu :: "nat \<Rightarrow> (cpu \<Rightarrow> cpu) \<Rightarrow> smp \<Rightarrow> smp" where
  "upd_cpu c f s = s\<lparr>cpus := (cpus s)(c := f (cpus s c))\<rparr>"

definition upd_lock :: "lockid \<Rightarrow> (spinlock \<Rightarrow> spinlock) \<Rightarrow> smp \<Rightarrow> smp" where
  "upd_lock l f s = s\<lparr>locks := (locks s)(l := f (locks s l))\<rparr>"

lemma upd_cpu_sel [simp]:
  "cpus (upd_cpu c f s) = (cpus s)(c := f (cpus s c))"
  "locks (upd_cpu c f s) = locks s"
  by (simp_all add: upd_cpu_def)

lemma upd_lock_sel [simp]:
  "locks (upd_lock l f s) = (locks s)(l := f (locks s l))"
  "cpus (upd_lock l f s) = cpus s"
  by (simp_all add: upd_lock_def)

section \<open>Operations\<close>

definition initlock :: "lockid \<Rightarrow> string \<Rightarrow> (unit, smp) K" where
  "initlock l nm = kmod (upd_lock l (\<lambda>k. k\<lparr>lk_name := nm, locked := 0, lk_cpu := None\<rparr>))"

text \<open>The IF bit of \<open>eflags\<close>, and the instructions that clear and set it.\<close>

definition cli :: "nat \<Rightarrow> (unit, smp) K" where
  "cli c = kmod (upd_cpu c (\<lambda>p. p\<lparr>ifl := False\<rparr>))"

definition sti :: "nat \<Rightarrow> (unit, smp) K" where
  "sti c = kmod (upd_cpu c (\<lambda>p. p\<lparr>ifl := True\<rparr>))"

definition pushcli :: "nat \<Rightarrow> (unit, smp) K" where
  "pushcli c =
     kbind (kget (\<lambda>s. ifl (cpus s c))) (\<lambda>eflags.
     kseq (cli c)
     (kbind (kget (\<lambda>s. ncli (cpus s c))) (\<lambda>n.
      kseq (kmod (upd_cpu c (\<lambda>p. p\<lparr>ncli := s32 (n + 1)\<rparr>)))
           (kwhen (n = 0) (kmod (upd_cpu c (\<lambda>p. p\<lparr>intena := eflags\<rparr>)))))))"

definition popcli :: "nat \<Rightarrow> (unit, smp) K" where
  "popcli c =
     kbind (kget (\<lambda>s. ifl (cpus s c))) (\<lambda>eflags.
     if eflags then kpanic ''popcli - interruptible''
     else kseq (kmod (upd_cpu c (\<lambda>p. p\<lparr>ncli := s32 (ncli p - 1)\<rparr>)))
     (kbind (kget (\<lambda>s. cpus s c)) (\<lambda>p.
      if ncli p < 0 then kpanic ''popcli''
      else kwhen (ncli p = 0 \<and> intena p) (sti c))))"

definition holding :: "nat \<Rightarrow> lockid \<Rightarrow> smp \<Rightarrow> bool" where
  "holding c l s \<longleftrightarrow> locked (locks s l) \<noteq> 0 \<and> lk_cpu (locks s l) = Some c"

text \<open>
  \<open>getcallerpcs\<close> follows the saved frame pointers through the stack \<open>m\<close> (word-addressed by
  byte address), stopping at a pointer below the kernel or at \<open>0xffffffff\<close>; the entries it did
  not reach are zero.
\<close>

definition KERNBASE :: u32 where
  "KERNBASE = 0x80000000"

fun walk_frames :: "(u32 \<Rightarrow> u32) \<Rightarrow> u32 \<Rightarrow> nat \<Rightarrow> u32 list" where
  "walk_frames m ebp 0 = []"
| "walk_frames m ebp (Suc n) =
     (if ebp = 0 \<or> ebp < KERNBASE \<or> ebp = 0xffffffff then replicate (Suc n) 0
      else m (ebp + 4) # walk_frames m (m ebp) n)"

definition getcallerpcs :: "(u32 \<Rightarrow> u32) \<Rightarrow> u32 \<Rightarrow> u32 list" where
  "getcallerpcs m v = walk_frames m (v - 8) 10"

text \<open>\<open>xchg\<close> on the lock word: the old value comes back, the new one is stored.\<close>

definition xchg_locked :: "lockid \<Rightarrow> u32 \<Rightarrow> (u32, smp) K" where
  "xchg_locked l v =
     kbind (kget (\<lambda>s. locked (locks s l))) (\<lambda>old.
     kseq (kmod (upd_lock l (\<lambda>k. k\<lparr>locked := v\<rparr>))) (kret old))"

text \<open>
  With no other CPU moving, the loop on \<open>xchg\<close> ends at its first test or never: it stores 1
  over the value it is waiting to see change.
\<close>

definition acquire :: "(u32 \<Rightarrow> u32) \<Rightarrow> u32 \<Rightarrow> nat \<Rightarrow> lockid \<Rightarrow> (unit, smp) K" where
  "acquire m v c l =
     kseq (pushcli c)
     (kbind (kget (holding c l)) (\<lambda>h.
      if h then kpanic ''acquire''
      else kbind (xchg_locked l 1) (\<lambda>old.
        if old \<noteq> 0 then khang
        else kmod (upd_lock l (\<lambda>k. k\<lparr>lk_cpu := Some c, pcs := getcallerpcs m v\<rparr>)))))"

definition release :: "nat \<Rightarrow> lockid \<Rightarrow> (unit, smp) K" where
  "release c l =
     kbind (kget (holding c l)) (\<lambda>h.
     if \<not> h then kpanic ''release''
     else kseq (kmod (upd_lock l (\<lambda>k. k\<lparr>pcs := (pcs k)[0 := 0], lk_cpu := None\<rparr>)))
       (kbind (xchg_locked l 0) (\<lambda>_. popcli c)))"

lemmas spin_defs = initlock_def cli_def sti_def pushcli_def popcli_def xchg_locked_def
  acquire_def release_def holding_def

lemma length_walk_frames [simp]: "length (walk_frames m ebp n) = n"
  by (induction n arbitrary: ebp) auto

text \<open>Every recorded frame lies in the kernel half of the address space until the chain ends.\<close>

lemma walk_frames_user_end: "ebp < KERNBASE \<Longrightarrow> walk_frames m ebp n = replicate n 0"
  by (cases n) auto

section \<open>Nesting of interrupt-disabled sections\<close>

primrec iterK :: "nat \<Rightarrow> (unit, 's) K \<Rightarrow> (unit, 's) K" where
  "iterK 0 m = kret ()"
| "iterK (Suc n) m = kseq m (iterK n m)"

lemma iterK_comm: "kseq m (iterK n m) = kseq (iterK n m) m"
proof (induction n)
  case 0
  show ?case by (rule ext) simp
next
  case (Suc n)
  have "kseq m (iterK (Suc n) m) = kseq m (kseq (iterK n m) m)" by (simp add: Suc)
  also have "\<dots> = kseq (iterK (Suc n) m) m" by (simp add: kseq_seq)
  finally show ?case .
qed

lemma pushcli_apply:
  "pushcli c s = Ok () (upd_cpu c (\<lambda>p. p\<lparr>ifl := False, ncli := s32 (ncli p + 1),
     intena := (if ncli p = 0 then ifl p else intena p)\<rparr>) s)"
  by (simp add: spin_defs upd_cpu_def kseq_def kbind_def)

lemma popcli_apply:
  assumes "\<not> ifl (cpus s c)" and "0 < ncli (cpus s c)" "ncli (cpus s c) < 2147483648"
  shows "popcli c s = Ok () (upd_cpu c (\<lambda>p. p\<lparr>ncli := ncli p - 1,
     ifl := (ncli p = 1 \<and> intena p)\<rparr>) s)"
  using assms
  by (cases "cpus s c") (auto simp: spin_defs upd_cpu_def kseq_def kbind_def s32_id)

lemma push_n:
  assumes "0 \<le> ncli (cpus s c)" and "0 < n" and "ncli (cpus s c) + int n < 2147483648"
  shows "iterK n (pushcli c) s = Ok () (upd_cpu c (\<lambda>p. p\<lparr>ifl := False, ncli := ncli p + int n,
     intena := (if ncli p = 0 then ifl p else intena p)\<rparr>) s)"
  using assms
proof (induction n arbitrary: s)
  case 0
  then show ?case by simp
next
  case (Suc n)
  have w: "s32 (ncli (cpus s c) + 1) = ncli (cpus s c) + 1" using Suc.prems by (intro s32_id) simp_all
  show ?case
  proof (cases "n = 0")
    case True
    then show ?thesis by (simp add: kseq_def kbind_def pushcli_apply upd_cpu_def w)
  next
    case False
    let ?t = "upd_cpu c (\<lambda>p. p\<lparr>ifl := False, ncli := s32 (ncli p + 1),
       intena := (if ncli p = 0 then ifl p else intena p)\<rparr>) s"
    have "0 \<le> ncli (cpus ?t c)" "ncli (cpus ?t c) + int n < 2147483648" using Suc.prems by (simp_all add: w)
    from Suc.IH [OF this(1) _ this(2)] False Suc.prems(1) show ?thesis
      by (simp add: kseq_def kbind_def pushcli_apply upd_cpu_def w add.assoc)
  qed
qed

lemma pop_n:
  assumes "\<not> ifl (cpus s c)" and "int n < ncli (cpus s c)" "ncli (cpus s c) < 2147483648"
  shows "iterK n (popcli c) s = Ok () (upd_cpu c (\<lambda>p. p\<lparr>ncli := ncli p - int n\<rparr>) s)"
  using assms
proof (induction n arbitrary: s)
  case 0
  then show ?case by (simp add: upd_cpu_def)
next
  case (Suc n)
  have eq: "popcli c s = Ok () (upd_cpu c (\<lambda>p. p\<lparr>ncli := ncli p - 1, ifl := False\<rparr>) s)"
    using popcli_apply [of s c] Suc.prems by (auto simp: upd_cpu_def)
  have same: "(cpus s c)\<lparr>ncli := x, ifl := False\<rparr> = (cpus s c)\<lparr>ncli := x\<rparr>" for x
    using Suc.prems(1) by (cases "cpus s c") simp
  show ?case
    using Suc.IH [of "upd_cpu c (\<lambda>p. p\<lparr>ncli := ncli p - 1, ifl := False\<rparr>) s"] Suc.prems
    by (simp add: kseq_def kbind_def eq upd_cpu_def same algebra_simps)
qed

text \<open>The interrupt flag that the outermost \<open>pushcli\<close> found: it is the flag itself outside, \<open>intena\<close> inside.\<close>

definition saved_flag :: "cpu \<Rightarrow> bool" where
  "saved_flag p = (if ncli p = 0 then ifl p else intena p)"

text \<open>
  C40. The promise of the comment in spinlock.c, for any depth that an \<open>int\<close> counts: \<open>n\<close> calls of
  \<open>pushcli\<close> leave interrupts off, the depth \<open>n\<close> higher, and in \<open>intena\<close> the flag that the outermost
  of all open \<open>pushcli\<close> found; after fewer than \<open>n\<close> calls of \<open>popcli\<close> interrupts are still off; after \<open>n\<close> of them
  the depth and the interrupt flag are what they were. Only \<open>intena\<close> may differ: at depth 0 it
  still has the flag found by the first \<open>pushcli\<close>, which overwrote it.
\<close>

lemma push_pop_balanced:
  assumes depth: "0 \<le> ncli (cpus s c)" "ncli (cpus s c) + int n < 2147483648"
    and outer: "0 < ncli (cpus s c) \<Longrightarrow> \<not> ifl (cpus s c)" and "0 < n"
  shows "\<exists>u. iterK n (pushcli c) s = Ok () u \<and> \<not> ifl (cpus u c) \<and> ncli (cpus u c) = ncli (cpus s c) + int n \<and>
      intena (cpus u c) = saved_flag (cpus s c) \<and> locks u = locks s \<and>
    (\<forall>k < n. \<exists>v. iterK k (popcli c) u = Ok () v \<and> \<not> ifl (cpus v c) \<and> ncli (cpus v c) = ncli (cpus u c) - int k) \<and>
    (\<exists>t. iterK n (popcli c) u = Ok () t \<and> ifl (cpus t c) = ifl (cpus s c) \<and> ncli (cpus t c) = ncli (cpus s c) \<and>
      intena (cpus t c) = saved_flag (cpus s c) \<and> locks t = locks s)"
proof -
  obtain m where n: "n = Suc m" using \<open>0 < n\<close> by (cases n) auto
  let ?u = "upd_cpu c (\<lambda>p. p\<lparr>ifl := False, ncli := ncli p + int n,
     intena := (if ncli p = 0 then ifl p else intena p)\<rparr>) s"
  let ?v = "\<lambda>k. upd_cpu c (\<lambda>p. p\<lparr>ncli := ncli p - int k\<rparr>) ?u"
  let ?t = "upd_cpu c (\<lambda>p. p\<lparr>ncli := ncli p - 1, ifl := (ncli p = 1 \<and> intena p)\<rparr>) (?v m)"
  have push: "iterK n (pushcli c) s = Ok () ?u"
    by (rule push_n [OF depth(1) \<open>0 < n\<close> depth(2)])
  have pop: "iterK k (popcli c) ?u = Ok () (?v k)" if "k < n" for k
    by (rule pop_n) (use depth that in auto)
  have fin: "popcli c (?v m) = Ok () ?t"
    by (rule popcli_apply) (use depth n in auto)
  have "iterK n (popcli c) = kseq (iterK m (popcli c)) (popcli c)" by (simp add: n iterK_comm)
  moreover have "iterK m (popcli c) ?u = Ok () (?v m)" by (rule pop) (simp add: n)
  ultimately have pops: "iterK n (popcli c) ?u = Ok () ?t"
    by (simp only: kseq_def kbind_def fin res.case)
  show ?thesis
    by (rule exI [of _ ?u]) (use push pop pops depth outer n in \<open>auto simp: saved_flag_def\<close>)
qed

lemma push_pop_balanced_witness:
  "\<exists>u t. iterK 3 (pushcli 0) \<lparr>cpus = (\<lambda>_. \<lparr>ncli = 0, intena = False, ifl = True\<rparr>),
        locks = (\<lambda>_. \<lparr>locked = 0, lk_name = [], lk_cpu = None, pcs = []\<rparr>)\<rparr> = Ok () u \<and> \<not> ifl (cpus u 0) \<and>
     iterK 3 (popcli 0) u = Ok () t \<and> ifl (cpus t 0) \<and> ncli (cpus t 0) = 0"
  using push_pop_balanced [of "\<lparr>cpus = (\<lambda>_. \<lparr>ncli = 0, intena = False, ifl = True\<rparr>),
    locks = (\<lambda>_. \<lparr>locked = 0, lk_name = [], lk_cpu = None, pcs = []\<rparr>)\<rparr>" 0 3]
  by auto

section \<open>Many CPUs: the atomic points of acquire and release\<close>

text \<open>
  \<open>acquire\<close> is: switch interrupts off and check; exchange until the old value is 0; record the
  owner. \<open>release\<close> is: check and clear the owner; exchange and switch interrupts back. Where
  a CPU is in this code is its program point; between the two halves of each routine the lock
  word is already (still) 1 while \<open>lk->cpu\<close> names nobody.
\<close>

datatype point = Running | Spinning lockid | Taken lockid | Leaving lockid

record world =
  mach :: smp
  points :: "nat \<Rightarrow> point"

inductive lock_step :: "world \<Rightarrow> world \<Rightarrow> bool" where
  enter: "points w c = Running \<Longrightarrow> pushcli c (mach w) = Ok () m \<Longrightarrow> \<not> holding c l m \<Longrightarrow>
    lock_step w (w\<lparr>mach := m, points := (points w)(c := Spinning l)\<rparr>)"
| spin: "points w c = Spinning l \<Longrightarrow> xchg_locked l 1 (mach w) = Ok old m \<Longrightarrow> old \<noteq> 0 \<Longrightarrow>
    lock_step w (w\<lparr>mach := m\<rparr>)"
| win: "points w c = Spinning l \<Longrightarrow> xchg_locked l 1 (mach w) = Ok old m \<Longrightarrow> old = 0 \<Longrightarrow>
    lock_step w (w\<lparr>mach := m, points := (points w)(c := Taken l)\<rparr>)"
| record_owner: "points w c = Taken l \<Longrightarrow>
    lock_step w (w\<lparr>mach := upd_lock l (\<lambda>k. k\<lparr>lk_cpu := Some c, pcs := trace\<rparr>) (mach w),
      points := (points w)(c := Running)\<rparr>)"
| clear_owner: "points w c = Running \<Longrightarrow> holding c l (mach w) \<Longrightarrow>
    lock_step w (w\<lparr>mach := upd_lock l (\<lambda>k. k\<lparr>pcs := (pcs k)[0 := 0], lk_cpu := None\<rparr>) (mach w),
      points := (points w)(c := Leaving l)\<rparr>)"
| leave: "points w c = Leaving l \<Longrightarrow> xchg_locked l 0 (mach w) = Ok old m \<Longrightarrow>
    popcli c m = Ok () m' \<Longrightarrow>
    lock_step w (w\<lparr>mach := m', points := (points w)(c := Running)\<rparr>)"

definition owns :: "world \<Rightarrow> nat \<Rightarrow> lockid \<Rightarrow> bool" where
  "owns w c l \<longleftrightarrow> lk_cpu (locks (mach w) l) = Some c \<or> points w c = Taken l \<or> points w c = Leaving l"

definition lock_start :: "world \<Rightarrow> bool" where
  "lock_start w \<longleftrightarrow> (\<forall>l. locked (locks (mach w) l) = 0 \<and> lk_cpu (locks (mach w) l) = None) \<and>
     (\<forall>c. points w c = Running)"

definition lock_inv :: "world \<Rightarrow> bool" where
  "lock_inv w \<longleftrightarrow>
     (\<forall>l c d. owns w c l \<longrightarrow> owns w d l \<longrightarrow> c = d) \<and>
     (\<forall>l c. owns w c l \<longrightarrow> locked (locks (mach w) l) = 1) \<and>
     (\<forall>l c d. lk_cpu (locks (mach w) l) = Some c \<longrightarrow> points w d \<noteq> Taken l \<and> points w d \<noteq> Leaving l)"

lemma xchg_locked_apply:
  "xchg_locked l v s = Ok (locked (locks s l)) (upd_lock l (\<lambda>k. k\<lparr>locked := v\<rparr>) s)"
  by (simp add: xchg_locked_def)

lemma popcli_locks: "popcli c s = Ok () t \<Longrightarrow> locks t = locks s"
  by (auto simp: spin_defs kseq_def kbind_def split: if_splits)

lemma pushcli_locks: "pushcli c s = Ok () t \<Longrightarrow> locks t = locks s"
  by (auto simp: pushcli_apply)

lemma lock_inv_cong:
  assumes "lock_inv w"
    and "\<And>c l. owns w' c l = owns w c l"
    and "\<And>c l. owns w c l \<Longrightarrow> locked (locks (mach w) l) = 1 \<Longrightarrow> locked (locks (mach w') l) = 1"
    and "\<And>l. lk_cpu (locks (mach w') l) = lk_cpu (locks (mach w) l)"
    and "\<And>d l. (points w' d = Taken l \<or> points w' d = Leaving l) =
               (points w d = Taken l \<or> points w d = Leaving l)"
  shows "lock_inv w'"
  using assms(1) assms(3,5) unfolding lock_inv_def assms(2,4) by blast

lemma lock_inv_owner:
  assumes inv: "lock_inv w"
    and own: "\<And>d k. owns w' d k = (if k = l then d = c \<and> b else owns w d k)"
    and lck: "\<And>k. locked (locks (mach w') k) =
      (if k = l then (if b then 1 else 0) else locked (locks (mach w) k))"
    and half: "\<And>k d e. lk_cpu (locks (mach w') k) = Some d \<Longrightarrow>
      points w' e = Taken k \<or> points w' e = Leaving k \<Longrightarrow>
      k \<noteq> l \<and> lk_cpu (locks (mach w) k) = Some d \<and> (points w e = Taken k \<or> points w e = Leaving k)"
  shows "lock_inv w'"
  unfolding lock_inv_def
proof (intro conjI allI impI)
  fix k d e assume "owns w' d k" "owns w' e k"
  then show "d = e" using inv by (auto simp: own lock_inv_def split: if_splits)
next
  fix k d assume "owns w' d k"
  then show "locked (locks (mach w') k) = 1"
    using inv by (auto simp: own lck lock_inv_def split: if_splits)
next
  fix k d e assume cp: "lk_cpu (locks (mach w') k) = Some d"
  from half [OF this, of e] inv show "points w' e \<noteq> Taken k" "points w' e \<noteq> Leaving k"
    unfolding lock_inv_def by blast+
qed

text \<open>What the owner of a lock excludes, in a state that satisfies the invariant.\<close>

lemma lock_inv_sole:
  assumes "lock_inv w" and "owns w c l"
  shows "locked (locks (mach w) l) = 1" and "owns w d l \<longleftrightarrow> d = c"
  using assms by (auto simp: lock_inv_def)

lemma lock_inv_half:
  assumes "lock_inv w" and "lk_cpu (locks (mach w) l) = Some c"
  shows "points w d \<noteq> Taken l" and "points w d \<noteq> Leaving l"
  using assms unfolding lock_inv_def by blast+

lemma lock_inv_pt:
  assumes "lock_inv w" and "points w d = Taken l \<or> points w d = Leaving l"
  shows "lk_cpu (locks (mach w) l) = None"
  using lock_inv_half [OF assms(1), of l] assms(2) by (cases "lk_cpu (locks (mach w) l)") auto

lemma lock_step_inv:
  assumes inv: "lock_inv w" and "lock_step w w'"
  shows "lock_inv w'"
  using assms(2)
proof (cases rule: lock_step.cases)
  case (enter c m l)
  show ?thesis
    by (rule lock_inv_cong [OF inv])
      (use pushcli_locks [OF enter(3)] in \<open>auto simp: enter(1,2) owns_def\<close>)
next
  case (spin c l old m)
  then have m: "m = upd_lock l (\<lambda>k. k\<lparr>locked := 1\<rparr>) (mach w)" by (simp add: xchg_locked_apply)
  show ?thesis
    by (rule lock_inv_cong [OF inv]) (auto simp: spin(1) m owns_def)
next
  case (win c l old m)
  then have m: "m = upd_lock l (\<lambda>k. k\<lparr>locked := 1\<rparr>) (mach w)"
    and free: "locked (locks (mach w) l) = 0" by (simp_all add: xchg_locked_apply)
  have nobody: "lk_cpu (locks (mach w) l) = None" "points w d \<noteq> Taken l" "points w d \<noteq> Leaving l" for d
    by (cases "lk_cpu (locks (mach w) l)"; use lock_inv_sole(1) [OF inv, of _ l] free in \<open>force simp: owns_def\<close>)+
  show ?thesis
    by (rule lock_inv_owner [OF inv, of _ l c True])
      (use nobody in \<open>auto simp: win(1,2) m owns_def split: if_splits\<close>)
next
  case (record_owner c l trace)
  have o: "owns w c l" using record_owner by (simp add: owns_def)
  have "points w d \<noteq> Taken l \<and> points w d \<noteq> Leaving l" if "d \<noteq> c" for d
    using lock_inv_sole(2) [OF inv o, of d] that by (auto simp: owns_def)
  then show ?thesis
    by (intro lock_inv_owner [OF inv, of _ l c True])
      (use lock_inv_sole(1) [OF inv o] record_owner(2) in
        \<open>auto simp: record_owner(1) owns_def split: if_splits\<close>)
next
  case (clear_owner c l)
  have o: "owns w c l" using clear_owner by (simp add: owns_def holding_def)
  have cpu: "lk_cpu (locks (mach w) l) = Some c" using clear_owner by (simp add: holding_def)
  show ?thesis
    by (intro lock_inv_owner [OF inv, of _ l c True])
      (use lock_inv_sole(1) [OF inv o] lock_inv_half [OF inv cpu] clear_owner(2) in
        \<open>auto simp: clear_owner(1) owns_def split: if_splits\<close>)
next
  case (leave c l old m m')
  then have m: "m = upd_lock l (\<lambda>k. k\<lparr>locked := 0\<rparr>) (mach w)" by (simp add: xchg_locked_apply)
  have o: "owns w c l" using leave by (simp add: owns_def)
  have "points w d \<noteq> Taken l \<and> points w d \<noteq> Leaving l" if "d \<noteq> c" for d
    using lock_inv_sole(2) [OF inv o, of d] that by (auto simp: owns_def)
  moreover have "lk_cpu (locks (mach w) l) = None"
    using lock_inv_pt [OF inv] leave(2) by blast
  ultimately show ?thesis
    by (intro lock_inv_owner [OF inv, of _ l c False])
      (use leave(2) popcli_locks [OF leave(4)] in
        \<open>auto simp: leave(1) m owns_def split: if_splits\<close>)
qed

interpretation locks: transition_system lock_start lock_step lock_inv
proof
  fix s assume "lock_start s"
  then show "lock_inv s" by (simp add: lock_start_def lock_inv_def owns_def)
qed (rule lock_step_inv)


text \<open>
  C2. Mutual exclusion for any number of CPUs: in every state reachable from free locks, two CPUs
  that own a lock (recorded, or between the two halves of \<open>acquire\<close> or \<open>release\<close>) are the same.
\<close>

lemma lock_owner_unique:
  "lock_start w \<Longrightarrow> lock_step\<^sup>*\<^sup>* w v \<Longrightarrow> owns v c l \<Longrightarrow> owns v d l \<Longrightarrow> c = d"
  by (drule (1) locks.reachable_inv) (auto simp: lock_inv_def)

definition free_world :: world where
  "free_world = \<lparr>mach = \<lparr>cpus = (\<lambda>_. \<lparr>ncli = 0, intena = False, ifl = True\<rparr>),
       locks = (\<lambda>_. \<lparr>locked = 0, lk_name = [], lk_cpu = None, pcs = replicate 10 0\<rparr>)\<rparr>,
     points = (\<lambda>_. Running)\<rparr>"

text \<open>CPU 0 takes a free lock in two steps; no other CPU owns it then.\<close>

lemma lock_owner_unique_witness:
  "\<exists>v. lock_step\<^sup>*\<^sup>* free_world v \<and> owns v 0 LKmem \<and> \<not> owns v 1 LKmem"
proof -
  let ?m = "upd_cpu 0 (\<lambda>p. p\<lparr>ifl := False, ncli := 1, intena := True\<rparr>) (mach free_world)"
  let ?u = "free_world\<lparr>mach := ?m, points := (points free_world)(0 := Spinning LKmem)\<rparr>"
  let ?k = "upd_lock LKmem (\<lambda>k. k\<lparr>locked := 1\<rparr>) ?m"
  let ?v = "?u\<lparr>mach := ?k, points := (points ?u)(0 := Taken LKmem)\<rparr>"
  have "lock_step free_world ?u"
    by (rule lock_step.enter) (simp_all add: free_world_def pushcli_apply holding_def s32_id)
  moreover have "lock_step ?u ?v"
    by (rule lock_step.win) (simp_all add: free_world_def xchg_locked_apply)
  ultimately have r: "lock_step\<^sup>*\<^sup>* free_world ?v"
    by (meson converse_rtranclp_into_rtranclp r_into_rtranclp)
  moreover have o: "owns ?v 0 LKmem" by (simp add: owns_def)
  moreover have "lock_start free_world" by (simp add: lock_start_def free_world_def)
  ultimately show ?thesis
    using lock_owner_unique [OF \<open>lock_start free_world\<close> r o, of 1] by auto
qed

section \<open>The contract: the locks this CPU holds\<close>

text \<open>
  The rest of the kernel relies on three facts about a lock: taking one that is held panics,
  giving one back that is not held panics, and otherwise the set of held locks changes by
  exactly that lock. The client lemma is the critical section.
\<close>

locale mutex =
  fixes lock :: "lockid \<Rightarrow> bool"
    and get :: "lockid \<Rightarrow> (unit, 's) K"
    and put :: "lockid \<Rightarrow> (unit, 's) K"
    and holds :: "'s \<Rightarrow> lockid set"
    and ok :: "'s \<Rightarrow> bool"
  assumes get_free: "lock l \<Longrightarrow> ok s \<Longrightarrow> l \<notin> holds s \<Longrightarrow>
      \<exists>t. get l s = Ok () t \<and> ok t \<and> holds t = insert l (holds s)"
    and get_held: "ok s \<Longrightarrow> l \<in> holds s \<Longrightarrow> get l s = Panic ''acquire''"
    and put_held: "ok s \<Longrightarrow> l \<in> holds s \<Longrightarrow>
      \<exists>t. put l s = Ok () t \<and> ok t \<and> holds t = holds s - {l}"
    and put_free: "ok s \<Longrightarrow> l \<notin> holds s \<Longrightarrow> put l s = Panic ''release''"
begin

lemma section_balanced:
  assumes "lock l" "ok s" and "l \<notin> holds s"
    and body: "\<And>t. ok t \<Longrightarrow> holds t = insert l (holds s) \<Longrightarrow>
      \<exists>u. body t = Ok () u \<and> ok u \<and> holds u = insert l (holds s)"
  shows "\<exists>t. kseq (get l) (kseq body (put l)) s = Ok () t \<and> ok t \<and> holds t = holds s"
proof -
  obtain t where t: "get l s = Ok () t" "ok t" "holds t = insert l (holds s)"
    using get_free [OF assms(1-3)] by auto
  obtain u where u: "body t = Ok () u" "ok u" "holds u = insert l (holds s)"
    using body [OF t(2,3)] by auto
  obtain v where v: "put l u = Ok () v" "ok v" "holds v = holds u - {l}"
    using put_held [OF u(2), of l] u(3) by auto
  have "holds v = holds s" using v(3) u(3) assms(3) by auto
  with t(1) u(1) v(1,2) show ?thesis by (simp add: kseq_def kbind_def)
qed

lemma section_reentry: "lock l \<Longrightarrow> ok s \<Longrightarrow> l \<notin> holds s \<Longrightarrow> kseq (get l) (get l) s = Panic ''acquire''"
  using get_free [of l s] get_held [of _ l] by (auto simp: kseq_def kbind_def)

end

record kst =
  held :: "lockid list"

definition acq :: "lockid \<Rightarrow> (unit, 'z kst_scheme) K" where
  "acq l = kbind (kget held) (\<lambda>h.
     if l \<in> set h then kpanic ''acquire'' else kmod (held_update (\<lambda>h. l # h)))"

definition rel :: "lockid \<Rightarrow> (unit, 'z kst_scheme) K" where
  "rel l = kbind (kget held) (\<lambda>h.
     if l \<notin> set h then kpanic ''release'' else kmod (held_update (remove1 l)))"

lemma acq_apply: "acq l s = (if l \<in> set (held s) then Panic ''acquire'' else Ok () (s\<lparr>held := l # held s\<rparr>))"
  by (simp add: acq_def)

lemma rel_apply: "rel l s = (if l \<in> set (held s) then Ok () (s\<lparr>held := remove1 l (held s)\<rparr>) else Panic ''release'')"
  by (simp add: rel_def)

interpretation heldlist: mutex "\<lambda>_. True" acq rel "\<lambda>s. set (held s)" "\<lambda>s. distinct (held s)"
  by unfold_locales (auto simp: acq_apply rel_apply)

text \<open>One CPU of the real machine, everybody else off the locks.\<close>

text \<open>The lock of a pipe lies at the start of a page, so there are fewer locks than an \<open>int\<close> counts.\<close>

definition real_lock :: "lockid \<Rightarrow> bool" where
  "real_lock l \<longleftrightarrow> (case l of LPipe p \<Rightarrow> p mod 4096 = 0 | _ \<Rightarrow> True)"

lemma real_locks: "finite {l. real_lock l}" "card {l. real_lock l} \<le> 1048585"
proof -
  let ?P = "(\<lambda>k. LPipe (of_nat (4096 * k))) ` {..<1048576 :: nat}"
  let ?F = "{LPtable, LKmem, LIde, LBcache, LLog, LIcache, LFtable, LTicks, LCons}"
  have "LPipe p \<in> ?P" if "p mod 4096 = 0" for p
  proof -
    have "unat p mod 4096 = 0" using arg_cong [OF that, of unat] by (simp add: unat_mod_distrib)
    then obtain k where k: "unat p = 4096 * k" by auto
    then have "4096 * k < 4096 * 1048576" using unsigned_less [of p, where 'a = nat] by simp
    then have "k < 1048576" by simp
    moreover have "of_nat (unat p) = p" by simp
    then have "p = of_nat (4096 * k)" by (simp only: k)
    ultimately show ?thesis by blast
  qed
  note pipe = this
  have sub: "{l. real_lock l} \<subseteq> ?F \<union> ?P"
  proof
    fix l assume "l \<in> {l. real_lock l}"
    then show "l \<in> ?F \<union> ?P" using pipe by (cases l) (simp_all add: real_lock_def)
  qed
  then show "finite {l. real_lock l}" by (rule finite_subset) simp
  have "card ?P \<le> 1048576" by (rule order_trans [OF card_image_le]) simp_all
  moreover have "card (?F \<union> ?P) \<le> card ?F + card ?P" by (rule card_Un_le)
  moreover have "card ?F = 9" by simp
  moreover have "card {l. real_lock l} \<le> card (?F \<union> ?P)" by (rule card_mono [OF _ sub]) simp
  ultimately show "card {l. real_lock l} \<le> 1048585" by linarith
qed

definition held_by :: "nat \<Rightarrow> smp \<Rightarrow> lockid set" where
  "held_by c s = {l. locked (locks s l) \<noteq> 0}"

definition sole_cpu :: "nat \<Rightarrow> smp \<Rightarrow> bool" where
  "sole_cpu c s \<longleftrightarrow>
     held_by c s \<subseteq> {l. real_lock l} \<and>
     (\<forall>l. locked (locks s l) = (if lk_cpu (locks s l) = Some c then 1 else 0)) \<and>
     ncli (cpus s c) = int (card (held_by c s)) \<and>
     (0 < ncli (cpus s c) \<longrightarrow> \<not> ifl (cpus s c))"

lemma sole_holding: "sole_cpu c s \<Longrightarrow> holding c l s \<longleftrightarrow> l \<in> held_by c s"
  by (auto simp: sole_cpu_def holding_def held_by_def split: if_splits)

lemma sole_finite: "sole_cpu c s \<Longrightarrow> finite (held_by c s)"
  unfolding sole_cpu_def using finite_subset [OF _ real_locks(1)] by blast

lemma sole_few: "sole_cpu c s \<Longrightarrow> 0 \<le> ncli (cpus s c) \<and> ncli (cpus s c) \<le> 1048585"
  using card_mono [OF real_locks(1), of "held_by c s"] real_locks(2) by (simp add: sole_cpu_def)

lemma acquire_free:
  assumes "real_lock l" "sole_cpu c s" and "l \<notin> held_by c s"
  shows "\<exists>t. acquire m v c l s = Ok () t \<and> sole_cpu c t \<and> held_by c t = insert l (held_by c s)"
proof -
  let ?p = "upd_cpu c (\<lambda>p. p\<lparr>ifl := False, ncli := s32 (ncli p + 1),
     intena := (if ncli p = 0 then ifl p else intena p)\<rparr>) s"
  have w: "s32 (ncli (cpus s c) + 1) = ncli (cpus s c) + 1"
    using sole_few [OF assms(2)] by (intro s32_id) simp_all
  have w': "s32 (int (card (held_by c s)) + 1) = int (card (held_by c s)) + 1" "s32 1 = 1"
    using w assms(2) by (simp_all add: sole_cpu_def s32_id)
  let ?t = "upd_lock l (\<lambda>k. k\<lparr>lk_cpu := Some c, pcs := getcallerpcs m v\<rparr>)
    (upd_lock l (\<lambda>k. k\<lparr>locked := 1\<rparr>) ?p)"
  have "\<not> holding c l ?p" and free: "locked (locks s l) = 0"
    using assms by (auto simp: holding_def held_by_def)
  then have "acquire m v c l s = Ok () ?t"
    by (simp add: acquire_def kseq_def kbind_def pushcli_apply xchg_locked_apply)
  moreover have held: "held_by c ?t = insert l (held_by c s)"
    by (auto simp: held_by_def)
  moreover have "sole_cpu c ?t"
    unfolding sole_cpu_def held using assms sole_finite [OF assms(2)] by (auto simp: sole_cpu_def w')
  ultimately show ?thesis by blast
qed

lemma release_held:
  assumes "sole_cpu c s" and "l \<in> held_by c s"
  shows "\<exists>t. release c l s = Ok () t \<and> sole_cpu c t \<and> held_by c t = held_by c s - {l}"
proof -
  let ?u = "upd_lock l (\<lambda>k. k\<lparr>locked := 0\<rparr>)
    (upd_lock l (\<lambda>k. k\<lparr>pcs := (pcs k)[0 := 0], lk_cpu := None\<rparr>) s)"
  let ?t = "upd_cpu c (\<lambda>p. p\<lparr>ncli := ncli p - 1, ifl := (ncli p = 1 \<and> intena p)\<rparr>) ?u"
  have h: "holding c l s" using assms sole_holding by blast
  have pos: "0 < ncli (cpus s c)"
    using assms sole_finite [OF assms(1)] by (auto simp: sole_cpu_def card_gt_0_iff)
  have "popcli c ?u = Ok () ?t"
    by (rule popcli_apply) (use assms pos sole_few [OF assms(1)] in \<open>auto simp: sole_cpu_def\<close>)
  then have "release c l s = Ok () ?t"
    using h by (simp add: release_def kseq_def kbind_def xchg_locked_apply)
  moreover have held: "held_by c ?t = held_by c s - {l}"
    by (auto simp: held_by_def)
  moreover have "sole_cpu c ?t"
    unfolding sole_cpu_def held using assms pos sole_finite [OF assms(1)]
    by (auto simp: sole_cpu_def card_Diff_singleton)
  ultimately show ?thesis by blast
qed

interpretation spin: mutex real_lock "acquire m v c" "release c" "held_by c" "sole_cpu c"
proof
  fix s l assume "sole_cpu c s" "l \<in> held_by c s"
  then have "holding c l s" by (simp add: sole_holding)
  then show "acquire m v c l s = Panic ''acquire''"
    by (simp add: acquire_def kseq_def kbind_def pushcli_apply holding_def)
next
  fix s l assume "sole_cpu c s" "l \<notin> held_by c s"
  then show "release c l s = Panic ''release''"
    by (simp add: release_def sole_holding)
qed (use acquire_free release_held in auto)

end
