(* ===== verification/Irq.thy ===== *)
theory Irq
  imports Spinlock
begin

text \<open>
  The interrupt hardware as the drivers program it: kernel/picirq.c, kernel/timer.c, the register
  windows of kernel/ioapic.c and kernel/lapic.c. What a device has been told is part of the state:
  the bytes written to the I/O ports, oldest first, the registers of the I/O APIC behind its
  index/data window, and the memory-mapped registers of the local APIC. The globals of kernel/mp.c
  that the drivers look at are here too.
\<close>

unbundle bit_operations_syntax

record irqc = kst +
  irqmask :: u16
  ports :: "(nat \<times> u8) list"
  ismp :: bool
  ncpu :: nat
  ioapicid :: u8
  bcpu :: nat
  cpu_ids :: "nat \<Rightarrow> nat"
  ioapic_reg :: "nat \<Rightarrow> u32"
  lapic_ptr :: u32
  lapic_reg :: "nat \<Rightarrow> u32"

definition outb :: "nat \<Rightarrow> u8 \<Rightarrow> (unit, 'z irqc_scheme) K" where
  "outb port data = kmod (ports_update (\<lambda>l. l @ [(port, data)]))"

definition T_IRQ0 :: nat where "T_IRQ0 = 32"
definition IRQ_TIMER :: nat where "IRQ_TIMER = 0"
definition IRQ_KBD :: nat where "IRQ_KBD = 1"
definition IRQ_COM1 :: nat where "IRQ_COM1 = 4"
definition IRQ_IDE :: nat where "IRQ_IDE = 14"
definition IRQ_ERROR :: nat where "IRQ_ERROR = 19"
definition IRQ_SPURIOUS :: nat where "IRQ_SPURIOUS = 31"

section \<open>The 8259A controllers\<close>

definition picsetmask :: "u16 \<Rightarrow> (unit, 'z irqc_scheme) K" where
  "picsetmask m = kblock
     [kmod (irqmask_update (\<lambda>_. m)), outb 0x21 (ucast m), outb 0xA1 (ucast (drop_bit 8 m))]"

definition picenable :: "nat \<Rightarrow> (unit, 'z irqc_scheme) K" where
  "picenable irq = kbind (kget irqmask) (\<lambda>m. picsetmask (m AND NOT (push_bit irq 1)))"

definition picinit :: "(unit, 'z irqc_scheme) K" where
  "picinit = kblock
     [outb 0x21 0xFF, outb 0xA1 0xFF,
      outb 0x20 0x11, outb 0x21 (of_nat T_IRQ0), outb 0x21 (push_bit 2 1), outb 0x21 0x3,
      outb 0xA0 0x11, outb 0xA1 (of_nat (T_IRQ0 + 8)), outb 0xA1 2, outb 0xA1 0x3,
      outb 0x20 0x68, outb 0x20 0x0a, outb 0xA0 0x68, outb 0xA0 0x0a,
      kbind (kget irqmask) (\<lambda>m. kwhen (m \<noteq> 0xFFFF) (picsetmask m))]"

section \<open>The interval timer\<close>

definition TIMER_DIV :: "nat \<Rightarrow> nat" where
  "TIMER_DIV x = (1193182 + x div 2) div x"

definition timerinit :: "(unit, 'z irqc_scheme) K" where
  "timerinit = kblock
     [outb 0x43 (0x00 OR 0x04 OR 0x30),
      outb 0x40 (of_nat (TIMER_DIV 100 mod 256)),
      outb 0x40 (of_nat (TIMER_DIV 100 div 256)),
      picenable IRQ_TIMER]"

section \<open>The I/O APIC\<close>

text \<open>Writing the index register and then the data register stores into the register selected.\<close>

definition ioapicread :: "nat \<Rightarrow> (u32, 'z irqc_scheme) K" where
  "ioapicread reg = kget (\<lambda>s. ioapic_reg s reg)"

definition ioapicwrite :: "nat \<Rightarrow> u32 \<Rightarrow> (unit, 'z irqc_scheme) K" where
  "ioapicwrite reg data = kmod (\<lambda>s. s\<lparr>ioapic_reg := (ioapic_reg s)(reg := data)\<rparr>)"

definition ioapicenable :: "nat \<Rightarrow> int \<Rightarrow> (unit, 'z irqc_scheme) K" where
  "ioapicenable irq cpunum = kbind (kget ismp) (\<lambda>mp. kwhen mp (kblock
     [ioapicwrite (0x10 + 2 * irq) (of_nat (T_IRQ0 + irq)),
      ioapicwrite (0x10 + 2 * irq + 1) (push_bit 24 (word_of_int cpunum))]))"

section \<open>The local APIC\<close>

text \<open>Register indices are byte offsets over 4, as in the code.\<close>

definition lapicw :: "nat \<Rightarrow> u32 \<Rightarrow> (unit, 'z irqc_scheme) K" where
  "lapicw index v = kmod (\<lambda>s. s\<lparr>lapic_reg := (lapic_reg s)(index := v)\<rparr>)"

text \<open>A delivery that never finishes is polled for ever.\<close>

definition lapicinit :: "(unit, 'z irqc_scheme) K" where
  "lapicinit = kbind (kget lapic_ptr) (\<lambda>p. if p = 0 then kret () else kblock
     [lapicw (0x0F0 div 4) (0x100 OR of_nat (T_IRQ0 + IRQ_SPURIOUS)),
      lapicw (0x3E0 div 4) 0xB,
      lapicw (0x320 div 4) (0x20000 OR of_nat (T_IRQ0 + IRQ_TIMER)),
      lapicw (0x380 div 4) 10000000,
      lapicw (0x350 div 4) 0x10000,
      lapicw (0x360 div 4) 0x10000,
      kbind (kget (\<lambda>s. lapic_reg s (0x030 div 4))) (\<lambda>ver.
        kwhen (4 \<le> drop_bit 16 ver AND 0xFF) (lapicw (0x340 div 4) 0x10000)),
      lapicw (0x370 div 4) (of_nat (T_IRQ0 + IRQ_ERROR)),
      lapicw (0x280 div 4) 0,
      lapicw (0x280 div 4) 0,
      lapicw (0x0B0 div 4) 0,
      lapicw (0x310 div 4) 0,
      lapicw (0x300 div 4) (0x80000 OR 0x500 OR 0x8000),
      kbind (kget (\<lambda>s. lapic_reg s (0x300 div 4))) (\<lambda>r. if r AND 0x1000 \<noteq> 0 then khang else kret ()),
      lapicw (0x080 div 4) 0])"

definition lapiceoi :: "(unit, 'z irqc_scheme) K" where
  "lapiceoi = kbind (kget lapic_ptr) (\<lambda>p. kwhen (p \<noteq> 0) (lapicw (0x0B0 div 4) 0))"

section \<open>What the controllers mask\<close>

text \<open>The last byte written to a port.\<close>

definition last_out :: "nat \<Rightarrow> (nat \<times> u8) list \<Rightarrow> u8 option" where
  "last_out port l = map_option snd (find (\<lambda>x. fst x = port) (rev l))"

lemma last_out_snoc: "last_out p (l @ [(q, v)]) = (if q = p then Some v else last_out p l)"
  by (simp add: last_out_def)

text \<open>The two controllers mask what the driver believes they mask.\<close>

definition pic_in_step :: "'z irqc_scheme \<Rightarrow> bool" where
  "pic_in_step s \<longleftrightarrow> last_out 0x21 (ports s) = Some (ucast (irqmask s)) \<and>
     last_out 0xA1 (ports s) = Some (ucast (drop_bit 8 (irqmask s)))"

lemma picsetmask_apply:
  "picsetmask m s = Ok () (s\<lparr>irqmask := m, ports := ports s @ [(0x21, ucast m), (0xA1, ucast (drop_bit 8 m))]\<rparr>)"
  by (simp add: picsetmask_def outb_def kseq_def)

lemma picenable_apply:
  "picenable irq s = Ok () (s\<lparr>irqmask := irqmask s AND NOT (push_bit irq 1), ports := ports s @
     [(0x21, ucast (irqmask s AND NOT (push_bit irq 1))), (0xA1, ucast (drop_bit 8 (irqmask s AND NOT (push_bit irq 1))))]\<rparr>)"
  by (simp add: picenable_def picsetmask_apply)

lemma picenable_step:
  "\<exists>t. picenable irq s = Ok () t \<and> pic_in_step t \<and>
     (\<forall>n < 16. bit (irqmask t) n \<longleftrightarrow> bit (irqmask s) n \<and> n \<noteq> irq)"
  unfolding picenable_apply
  by (auto simp: pic_in_step_def last_out_def bit_and_iff bit_not_iff bit_exp_iff)

text \<open>
  The interrupt lines that are open are those the drivers asked for: after \<open>picinit\<close> from the
  initial mask and any calls of \<open>picenable\<close>, the bytes in the two controllers' mask registers are
  \<open>irqmask\<close>, and line \<open>n\<close> is masked there unless it is the cascade line 2 or was enabled.
\<close>

lemma irq_lines:
  assumes "irqmask s = 0xFFFB"
  shows "\<exists>t. kseq picinit (kfor irqs picenable) s = Ok () t \<and> pic_in_step t \<and>
     (\<forall>n < 16. bit (irqmask t) n \<longleftrightarrow> n \<noteq> 2 \<and> n \<notin> set irqs)"
proof -
  have loop: "\<exists>t. kfor irqs picenable u = Ok () t \<and> pic_in_step t \<and>
      (\<forall>n < 16. bit (irqmask t) n \<longleftrightarrow> bit (irqmask u) n \<and> n \<notin> set irqs)" if "pic_in_step u" for u :: "'a irqc_scheme"
    using that
  proof (induction irqs arbitrary: u)
    case Nil
    then show ?case by simp
  next
    case (Cons irq irqs)
    obtain v where v: "picenable irq u = Ok () v" "pic_in_step v"
      "\<forall>n < 16. bit (irqmask v) n \<longleftrightarrow> bit (irqmask u) n \<and> n \<noteq> irq"
      using picenable_step [of irq u] by blast
    obtain t where "kfor irqs picenable v = Ok () t" "pic_in_step t"
      "\<forall>n < 16. bit (irqmask t) n \<longleftrightarrow> bit (irqmask v) n \<and> n \<notin> set irqs"
      using Cons.IH [OF v(2)] by blast
    then show ?case using v by (auto simp: kseq_def kbind_def)
  qed
  obtain u where u: "picinit s = Ok () u" "pic_in_step u" "irqmask u = 0xFFFB"
    using assms by (auto simp: picinit_def outb_def picsetmask_apply kseq_def pic_in_step_def last_out_def)
  have "bit (0xFFFB :: u16) n \<longleftrightarrow> n \<noteq> 2" if "n < 16" for n
  proof -
    have "(0xFFFB :: u16) = NOT (push_bit 2 1)" by simp
    then show ?thesis using that by (simp only: bit_not_iff bit_push_bit_iff bit_1_iff) auto
  qed
  then show ?thesis using loop [OF u(2)] u by (auto simp: kseq_def kbind_def)
qed

definition reset_irqc :: irqc where
  "reset_irqc = \<lparr>held = [], irqmask = 0xFFFB, ports = [], ismp = False, ncpu = 0, ioapicid = 0, bcpu = 0,
     cpu_ids = (\<lambda>_. 0), ioapic_reg = (\<lambda>_. 0), lapic_ptr = 0, lapic_reg = (\<lambda>_. 0)\<rparr>"

lemma irq_lines_witness:
  "\<exists>t. kseq picinit (kfor [IRQ_KBD, IRQ_IDE] picenable) reset_irqc = Ok () t \<and> pic_in_step t \<and>
     \<not> bit (irqmask t) 14 \<and> bit (irqmask t) 4"
  using irq_lines [of reset_irqc "[IRQ_KBD, IRQ_IDE]"] by (auto simp: reset_irqc_def IRQ_KBD_def IRQ_IDE_def)

end
