(* ===== verification/Cprintf.thy ===== *)
theory Cprintf
  imports Irq
begin

text \<open>
  The output half of kernel/console.c, with the character devices it drives: the UART's
  transmit side (kernel/uart.c) and the CGA text screen. The state extends the lock state with
  what these routines keep; what the UART has sent is the list \<open>uart_out\<close>, oldest first. The
  digit conversion \<open>digits_rev\<close> is the one loop of \<open>printint\<close>, shared by the kernel's
  and the user library's printing.
\<close>

unbundle bit_operations_syntax

section \<open>State\<close>

record con = irqc +
  con_locking :: bool
  panicked :: bool
  uart :: bool
  uart_out :: "int list"
  crt :: "nat \<Rightarrow> u16"
  crt_hi :: u8
  crt_lo :: u8

definition BACKSPACE :: int where
  "BACKSPACE = 0x100"

section \<open>Devices\<close>

text \<open>
  \<open>uartputc\<close> polls the line status at most 128 times and sends the character in any case, so
  the polling has no effect on what is sent; \<open>outb\<close> takes the low byte.
\<close>

definition uartputc :: "int \<Rightarrow> (unit, 'z con_scheme) K" where
  "uartputc c = kbind (kget uart) (\<lambda>on.
     if \<not> on then kret () else kmod (uart_out_update (\<lambda>w. w @ [c mod 256])))"

text \<open>The cursor position is in two registers of the CRT controller, high byte first.\<close>

definition crt_pos :: "'z con_scheme \<Rightarrow> int" where
  "crt_pos s = uint (crt_hi s) * 256 + uint (crt_lo s)"

definition set_crt_pos :: "int \<Rightarrow> 'z con_scheme \<Rightarrow> 'z con_scheme" where
  "set_crt_pos p s = s\<lparr>crt_hi := word_of_int (p div 256), crt_lo := word_of_int p\<rparr>"

definition cga_scroll :: "int \<Rightarrow> (nat \<Rightarrow> u16) \<Rightarrow> nat \<Rightarrow> u16" where
  "cga_scroll pos m = (\<lambda>i.
     if nat pos \<le> i \<and> i < 24 * 80 then 0
     else if i < 23 * 80 then m (i + 80) else m i)"

definition cga_move :: "int \<Rightarrow> int \<Rightarrow> int" where
  "cga_move c pos =
     (if c = 10 then pos + 80 - pos mod 80
      else if c = BACKSPACE then (if 0 < pos then pos - 1 else pos)
      else pos + 1)"

definition cga_draw :: "int \<Rightarrow> int \<Rightarrow> (nat \<Rightarrow> u16) \<Rightarrow> nat \<Rightarrow> u16" where
  "cga_draw c pos m =
     (if c = 10 \<or> c = BACKSPACE then m
      else m(nat pos := word_of_int (c mod 256) OR 0x0700))"

definition cgaputc :: "int \<Rightarrow> (unit, 'z con_scheme) K" where
  "cgaputc c =
     kbind (kget (\<lambda>s. (crt_pos s, crt s))) (\<lambda>(pos0, m0).
     let pos = cga_move c pos0; m = cga_draw c pos0 m0
     in if pos < 0 \<or> 25 * 80 < pos then kpanic ''pos under/overflow''
     else let (pos, m) =
       (if 24 \<le> pos div 80 then (pos - 80, cga_scroll (pos - 80) m) else (pos, m))
     in kmod (\<lambda>s. (set_crt_pos pos s)\<lparr>crt := m(nat pos := 0x20 OR 0x0700)\<rparr>))"

definition consputc :: "int \<Rightarrow> (unit, 'z con_scheme) K" where
  "consputc c = kbind (kget panicked) (\<lambda>p.
     if p then khang
     else kseq (if c = BACKSPACE then kblock [uartputc 8, uartputc 32, uartputc 8] else uartputc c)
       (cgaputc c))"

section \<open>Numbers\<close>

text \<open>The digits of \<open>x\<close>, lowest first, as the do-while loop stores them in \<open>buf\<close>.\<close>

function digits_rev :: "nat \<Rightarrow> nat \<Rightarrow> nat list" where
  "digits_rev base x =
     (if base < 2 then [] else x mod base # (if x div base = 0 then [] else digits_rev base (x div base)))"
  by pat_completeness auto
termination
proof (relation "measure snd")
  fix base x :: nat
  assume "\<not> base < 2" "x div base \<noteq> 0"
  then have "0 < x" "1 < base" by (auto intro: Nat.gr0I)
  then show "((base, x div base), base, x) \<in> measure snd"
    by (simp add: div_less_dividend)
qed simp

declare digits_rev.simps [simp del]

definition digit_char :: "nat \<Rightarrow> char" where
  "digit_char d = ''0123456789abcdef'' ! d"

definition int_chars :: "(nat \<Rightarrow> char) \<Rightarrow> int \<Rightarrow> nat \<Rightarrow> bool \<Rightarrow> char list" where
  "int_chars dig xx base sg =
     (let neg = (sg \<and> xx < 0);
          x = (if neg then u32i (- xx) else u32i xx)
      in rev (map dig (digits_rev base x) @ (if neg then [CHR ''-''] else [])))"

definition putchar :: "char \<Rightarrow> (unit, 'z con_scheme) K" where
  "putchar ch = consputc (of_char ch)"

definition printint :: "int \<Rightarrow> nat \<Rightarrow> bool \<Rightarrow> (unit, 'z con_scheme) K" where
  "printint xx base sg = kfor (int_chars digit_char xx base sg) putchar"

section \<open>cprintf\<close>

text \<open>
  The variadic arguments are 32-bit words on the caller's stack; one is read as a number or as
  a string pointer (possibly null) as the format says. Reading the wrong kind, or past the
  arguments given, has no meaning.
\<close>

datatype carg = AInt int | AStr "string option"

fun cprintf_go :: "string \<Rightarrow> carg list \<Rightarrow> (unit, 'z con_scheme) K" where
  "cprintf_go [] args = kret ()"
| "cprintf_go (c # cs) args =
     (if c \<noteq> CHR ''%'' then kseq (putchar c) (cprintf_go cs args)
      else case cs of
        [] \<Rightarrow> kret ()
      | d # ds \<Rightarrow>
         (if d = CHR ''d'' then
            (case args of AInt x # as \<Rightarrow> kseq (printint x 10 True) (cprintf_go ds as) | _ \<Rightarrow> kundef)
          else if d = CHR ''x'' \<or> d = CHR ''p'' then
            (case args of AInt x # as \<Rightarrow> kseq (printint x 16 False) (cprintf_go ds as) | _ \<Rightarrow> kundef)
          else if d = CHR ''s'' then
            (case args of
               AStr p # as \<Rightarrow>
                 kseq (kfor (case p of None \<Rightarrow> ''(null)'' | Some str \<Rightarrow> str) putchar) (cprintf_go ds as)
             | _ \<Rightarrow> kundef)
          else if d = CHR ''%'' then kseq (putchar CHR ''%'') (cprintf_go ds args)
          else kblock [putchar CHR ''%'', putchar d, cprintf_go ds args]))"

definition cprintf :: "string \<Rightarrow> carg list \<Rightarrow> (unit, 'z con_scheme) K" where
  "cprintf fmt args = kbind (kget con_locking) (\<lambda>locking.
     kblock [kwhen locking (acq LCons), cprintf_go fmt args, kwhen locking (rel LCons)])"

text \<open>
  What \<open>panic\<close> does before it stops: interrupts stay off, the console lock is no longer
  taken, the message and the call stack \<open>pcl\<close> are printed, and the other CPUs are frozen by
  \<open>panicked\<close>. It does not return.
\<close>

definition panic_print :: "nat \<Rightarrow> string \<Rightarrow> u32 list \<Rightarrow> (unit, 'z con_scheme) K" where
  "panic_print cpuid msg pcl = kblock
     [kmod (con_locking_update (\<lambda>_. False)),
      cprintf ''cpu%d: panic: '' [AInt (int cpuid)],
      cprintf msg [],
      cprintf [CHR 10] [],
      kfor pcl (\<lambda>pc. cprintf '' %p'' [AInt (uint pc)]),
      kmod (panicked_update (\<lambda>_. True))]"

definition panic :: "nat \<Rightarrow> string \<Rightarrow> u32 list \<Rightarrow> (unit, 'z con_scheme) K" where
  "panic cpuid msg pcl = kseq (panic_print cpuid msg pcl) khang"

section \<open>Numbers: value, length, round trip\<close>

fun undigits :: "nat \<Rightarrow> nat list \<Rightarrow> nat" where
  "undigits base [] = 0"
| "undigits base (d # ds) = d + base * undigits base ds"

lemma digits_rev_step:
  "2 \<le> base \<Longrightarrow> digits_rev base x =
     x mod base # (if x div base = 0 then [] else digits_rev base (x div base))"
  by (subst digits_rev.simps) (simp only: not_less [symmetric] if_False)

lemma digits_rev_bound: "2 \<le> base \<Longrightarrow> \<forall>d \<in> set (digits_rev base x). d < base"
proof (induction base x rule: digits_rev.induct)
  case (1 base x)
  show ?case
  proof (cases "x div base = 0")
    case True
    then show ?thesis using "1.prems" by (subst digits_rev_step) simp_all
  next
    case False
    with 1 have "\<forall>d \<in> set (digits_rev base (x div base)). d < base" by simp
    with False "1.prems" show ?thesis by (subst digits_rev_step) simp_all
  qed
qed

lemma undigits_digits: "2 \<le> base \<Longrightarrow> undigits base (digits_rev base x) = x"
proof (induction base x rule: digits_rev.induct)
  case (1 base x)
  show ?case
  proof (cases "x div base = 0")
    case True
    moreover have "x mod base + base * (x div base) = x" by simp
    ultimately show ?thesis using "1.prems" by (subst digits_rev_step) simp_all
  next
    case False
    with 1 have "undigits base (digits_rev base (x div base)) = x div base" by simp
    with False "1.prems" show ?thesis by (subst digits_rev_step) simp_all
  qed
qed

lemma digits_rev_length: "2 \<le> base \<Longrightarrow> x < base ^ n \<Longrightarrow> 0 < n \<Longrightarrow> length (digits_rev base x) \<le> n"
proof (induction n arbitrary: x)
  case 0
  then show ?case by simp
next
  case (Suc n)
  show ?case
  proof (cases "x div base = 0")
    case True
    with Suc.prems show ?thesis by (subst digits_rev.simps) auto
  next
    case False
    then have "base \<le> x" using Suc.prems(1) by (auto simp: div_eq_0_iff)
    then have n: "0 < n" using Suc.prems(2) by (cases n) auto
    have "x div base < base ^ n"
      using Suc.prems(1,2) by (auto simp: less_mult_imp_div_less mult.commute)
    from Suc.IH [OF Suc.prems(1) this n] show ?thesis
      by (subst digits_rev.simps) auto
  qed
qed

lemma digits_rev_nonempty: "2 \<le> base \<Longrightarrow> digits_rev base x \<noteq> []"
  by (subst digits_rev.simps) simp

section \<open>The cursor\<close>

lemma crt_pos_set [simp]: "0 \<le> p \<Longrightarrow> p < 65536 \<Longrightarrow> crt_pos (set_crt_pos p s) = p"
  by (simp add: crt_pos_def set_crt_pos_def unsigned_of_int take_bit_int_def) presburger

lemma crt_pos_crt [simp]: "crt_pos (s\<lparr>crt := m\<rparr>) = crt_pos s"
  by (simp add: crt_pos_def)

lemma crt_pos_uart [simp]: "crt_pos (s\<lparr>uart_out := m\<rparr>) = crt_pos s"
  by (simp add: crt_pos_def)

lemma crt_pos_nonneg [simp]: "0 \<le> crt_pos s"
  by (simp add: crt_pos_def)

text \<open>Any character leaves the position at most one row below.\<close>

lemma cga_move_range: "0 \<le> p \<Longrightarrow> p < 24 * 80 \<Longrightarrow> 0 \<le> cga_move c p \<and> cga_move c p \<le> 24 * 80"
proof -
  assume p: "0 \<le> p" "p < 24 * 80"
  then have "p + 80 - p mod 80 \<le> 24 * 80" "0 \<le> p + 80 - p mod 80" by presburger+
  with p show ?thesis by (auto simp: cga_move_def)
qed

lemma cgaputc_ok:
  assumes "crt_pos s < 24 * 80"
  shows "\<exists>p m. cgaputc c s = Ok () (set_crt_pos p s\<lparr>crt := m\<rparr>) \<and> 0 \<le> p \<and> p < 24 * 80"
proof -
  define q where "q = cga_move c (crt_pos s)"
  have q: "0 \<le> q" "q \<le> 24 * 80"
    using cga_move_range [of "crt_pos s" c] assms by (auto simp: q_def)
  show ?thesis
  proof (cases "24 \<le> q div 80")
    case True
    with q show ?thesis by (auto simp: cgaputc_def q_def [symmetric])
  next
    case False
    then have "q < 24 * 80" by presburger
    with q False show ?thesis by (auto simp: cgaputc_def q_def [symmetric])
  qed
qed

text \<open>A character on the console changes the screen, the cursor and what the UART has sent, and nothing else.\<close>

lemma consputc_ok:
  assumes "\<not> panicked s" and "crt_pos s < 24 * 80"
  shows "\<exists>w m hi lo. consputc c s = Ok () (s\<lparr>uart_out := w, crt := m, crt_hi := hi, crt_lo := lo\<rparr>) \<and>
    crt_pos (s\<lparr>uart_out := w, crt := m, crt_hi := hi, crt_lo := lo\<rparr>) < 24 * 80"
proof -
  have "\<exists>w. (if c = BACKSPACE then kblock [uartputc 8, uartputc 32, uartputc 8] else uartputc c) s =
      Ok () (s\<lparr>uart_out := w\<rparr>)"
    by (cases s) (auto simp: uartputc_def kseq_def kbind_def)
  then obtain w where w: "(if c = BACKSPACE then kblock [uartputc 8, uartputc 32, uartputc 8] else uartputc c) s =
      Ok () (s\<lparr>uart_out := w\<rparr>)" ..
  obtain p m where p: "cgaputc c (s\<lparr>uart_out := w\<rparr>) = Ok () (set_crt_pos p (s\<lparr>uart_out := w\<rparr>)\<lparr>crt := m\<rparr>)"
    "0 \<le> p" "p < 24 * 80"
    using cgaputc_ok [of "s\<lparr>uart_out := w\<rparr>" c] assms(2) by auto
  let ?t = "s\<lparr>uart_out := w, crt := m, crt_hi := word_of_int (p div 256), crt_lo := word_of_int p\<rparr>"
  have t: "set_crt_pos p (s\<lparr>uart_out := w\<rparr>)\<lparr>crt := m\<rparr> = ?t" by (simp add: set_crt_pos_def)
  have "crt_pos (set_crt_pos p (s\<lparr>uart_out := w\<rparr>)\<lparr>crt := m\<rparr>) < 24 * 80" using p by simp
  moreover have "consputc c s = Ok () ?t"
    using assms(1) w p(1) unfolding t by (simp add: consputc_def kseq_def kbind_def)
  ultimately show ?thesis unfolding t by blast
qed

text \<open>
  Once the cursor is above the last row it stays there: a character, a newline and a backspace
  each leave it on rows 0 to 23, and never panic.
\<close>

lemma cgaputc_cursor:
  assumes "crt_pos s < 24 * 80"
  shows "\<exists>t. cgaputc c s = Ok () t \<and> crt_pos t < 24 * 80 \<and>
    held t = held s \<and> uart_out t = uart_out s \<and> panicked t = panicked s"
proof -
  obtain p m where p: "cgaputc c s = Ok () (set_crt_pos p s\<lparr>crt := m\<rparr>)" "0 \<le> p" "p < 24 * 80"
    using cgaputc_ok [OF assms] by blast
  then have "crt_pos (set_crt_pos p s\<lparr>crt := m\<rparr>) < 24 * 80" by simp
  then show ?thesis using p(1) by (auto simp: set_crt_pos_def)
qed

definition blank_con :: con where
  "blank_con = irqc.extend reset_irqc \<lparr>con_locking = True, panicked = False, uart = True, uart_out = [],
     crt = (\<lambda>_. 0), crt_hi = 7, crt_lo = 0x7f\<rparr>"

text \<open>The last position of row 23: the screen scrolls.\<close>

lemma cgaputc_cursor_witness:
  "crt_pos blank_con = 1919 \<and> (\<exists>t. cgaputc 65 blank_con = Ok () t \<and> crt_pos t < 24 * 80)"
proof -
  have "crt_pos blank_con = 1919" by (simp add: crt_pos_def blank_con_def irqc.defs)
  with cgaputc_cursor [of blank_con 65] show ?thesis by auto
qed

text \<open>
  What \<open>printint\<close> prints is the number: read back with the sign, the digits are \<open>xx\<close> for
  every 32-bit \<open>int\<close> (its negation wraps for the smallest one, which comes out right all the
  same), at least one digit is printed, and in base 10 or 16 the characters fit the buffer of 16.
\<close>

lemma int_chars_value:
  assumes "2 \<le> base" and "- 2147483648 \<le> xx" and "xx < 2147483648"
  shows "\<exists>ds. int_chars dig xx base True = (if xx < 0 then ''-'' else []) @ map dig ds \<and> ds \<noteq> [] \<and>
    (\<forall>d \<in> set ds. d < base) \<and> int (undigits base (rev ds)) = \<bar>xx\<bar> \<and>
    (10 \<le> base \<longrightarrow> length (int_chars dig xx base True) \<le> 16)"
proof -
  let ?x = "if xx < 0 then u32i (- xx) else u32i xx"
  let ?ds = "rev (digits_rev base ?x)"
  have x: "int ?x = \<bar>xx\<bar>" using assms by simp
  then have small: "?x < 10 ^ 10" using assms by simp
  have "length ?ds \<le> 10" if "10 \<le> base"
    using digits_rev_length [OF assms(1), of ?x 10] small that power_mono [of 10 base 10] by simp
  moreover have "undigits base (rev ?ds) = ?x"
    by (simp only: rev_rev_ident undigits_digits [OF assms(1)])
  moreover have "\<forall>d \<in> set ?ds. d < base"
    using digits_rev_bound [OF assms(1)] by (simp only: set_rev)
  moreover have "?ds \<noteq> []" using digits_rev_nonempty [OF assms(1), of ?x] by simp
  moreover have "int_chars dig xx base True = (if xx < 0 then ''-'' else []) @ map dig ?ds"
    by (simp add: int_chars_def Let_def rev_map)
  ultimately show ?thesis
    using x by (intro exI [of _ ?ds]) (simp only: length_append length_map split: if_splits, auto)
qed

lemma int_chars_value_witness:
  "\<exists>ds. int_chars digit_char (- 2147483648) 10 True = ''-'' @ map digit_char ds \<and> ds \<noteq> [] \<and>
     int (undigits 10 (rev ds)) = 2147483648"
  using int_chars_value [of 10 "- 2147483648" digit_char] by auto

end
