(* ===== verification/Ptable.thy ===== *)
theory Ptable
  imports Cprintf
begin

text \<open>
  The process table of homework-3-lottery-scheduling/kernel/proc.c and everything in that file
  that touches nothing else: the random numbers and tickets of the lottery, the two schedulers
  (the lottery of homework 3, the round robin of homework 1), \<open>sched\<close>, \<open>yield\<close>, \<open>sleep\<close>,
  \<open>wakeup\<close>, \<open>kill\<close> and \<open>procdump\<close>; and the two routines of vm.c that load the page-table
  register. Processes are named by their index in \<open>ptable.proc\<close>; pointers to page
  directories and stacks are kernel virtual addresses, 0 for null.
\<close>

unbundle bit_operations_syntax

section \<open>Data\<close>

definition NPROC :: nat where "NPROC = 64"
definition NOFILE :: nat where "NOFILE = 16"
definition KSTACKSIZE :: u32 where "KSTACKSIZE = 4096"

datatype procstate = UNUSED | EMBRYO | SLEEPING | RUNNABLE | RUNNING | ZOMBIE

record kcontext =
  c_edi :: u32
  c_esi :: u32
  c_ebx :: u32
  c_ebp :: u32
  c_eip :: u32

record trapframe =
  tf_edi :: u32
  tf_esi :: u32
  tf_ebp :: u32
  tf_oesp :: u32
  tf_ebx :: u32
  tf_edx :: u32
  tf_ecx :: u32
  tf_eax :: u32
  tf_gs :: u16
  tf_fs :: u16
  tf_es :: u16
  tf_ds :: u16
  tf_trapno :: u32
  tf_err :: u32
  tf_eip :: u32
  tf_cs :: u16
  tf_eflags :: u32
  tf_esp :: u32
  tf_ss :: u16

record proc =
  p_sz :: u32
  p_pgdir :: u32
  p_kstack :: u32
  p_state :: procstate
  p_pid :: int
  p_parent :: "nat option"
  p_tf :: trapframe
  p_context :: kcontext
  p_chan :: "chan option"
  p_killed :: bool
  p_ofile :: "nat option list"
  p_cwd :: "nat option"
  p_name :: string
  p_ctime :: int
  p_ttime :: int
  p_stime :: int
  p_retime :: int
  p_rutime :: int
  p_tickets :: int

text \<open>
  \<open>curproc\<close> is the per-CPU variable \<open>proc\<close>. \<open>cr3\<close> and \<open>ts_esp0\<close> are the hardware registers
  that \<open>switchuvm\<close> and \<open>switchkvm\<close> load; \<open>kpgdir\<close> is the kernel's own page directory.
\<close>

record pt = con +
  procs :: "proc list"
  curproc :: "nat option"
  initproc :: "nat option"
  nextpid :: int
  random_int :: "int list"
  ticks :: u32
  cr3 :: u32
  ts_esp0 :: u32
  kpgdir :: u32

definition upd_proc :: "nat \<Rightarrow> (proc \<Rightarrow> proc) \<Rightarrow> 'z pt_scheme \<Rightarrow> 'z pt_scheme" where
  "upd_proc i f s = s\<lparr>procs := (procs s)[i := f (procs s ! i)]\<rparr>"

lemma upd_proc_sel [simp]:
  "procs (upd_proc i f s) = (procs s)[i := f (procs s ! i)]"
  "curproc (upd_proc i f s) = curproc s"
  "initproc (upd_proc i f s) = initproc s"
  "held (upd_proc i f s) = held s"
  "ticks (upd_proc i f s) = ticks s"
  "random_int (upd_proc i f s) = random_int s"
  "nextpid (upd_proc i f s) = nextpid s"
  by (simp_all add: upd_proc_def)

definition cur :: "'z pt_scheme \<Rightarrow> proc" where
  "cur s = procs s ! the (curproc s)"

text \<open>Code that dereferences \<open>proc\<close>: a null \<open>proc\<close> is not a process.\<close>

definition with_proc :: "(nat \<Rightarrow> ('a, 'z pt_scheme) K) \<Rightarrow> ('a, 'z pt_scheme) K" where
  "with_proc f = kbind (kget curproc) (\<lambda>p. case p of None \<Rightarrow> kundef | Some i \<Rightarrow> f i)"

section \<open>Random numbers and tickets\<close>

definition random_table :: "int list" where
  "random_table =
     [77183, 76065, 29273, 98963, 23453, 69495, 91613, 90129, 61763, 78537, 54549, 19663, 63559, 84421,
      31533, 48915, 88915, 85721, 48003, 91645, 96659, 28171, 76119, 95383, 21329, 76995, 57509, 46521,
      63693, 72709, 50221, 93225, 41819, 43485, 39707, 88343, 59521, 74955, 97349, 12585, 27551, 96485,
      72659, 84179, 69751, 88721, 46957, 64935, 77531, 14181, 14393, 22947, 15145, 55103, 62621, 14067,
      56755, 60365, 26261, 76139, 98923, 55949, 11043, 85645, 21421, 56107, 91887, 60493, 81231, 10897,
      49729, 25621, 92319, 57811, 14025, 73073, 79999, 99485, 10801, 95165, 46447, 81625, 97585, 41537,
      18995, 20235, 13011, 46941, 82823, 17511, 52337, 59047, 20331, 77675, 71707, 59067, 96099, 59683,
      17659, 20377, 37277, 58869, 21223, 41745, 15797, 61967, 49795, 77755, 57365, 45683, 34327, 51289,
      74821, 43041, 48941, 48321, 59185, 93299, 64111, 76447, 83317, 76041, 74969, 77723, 28433, 16419,
      49139, 61469, 15805, 18565, 74683, 37623, 70241, 54413, 57685, 60499, 57719, 21663, 26397, 60711,
      63027, 37169, 12881, 14351, 56951, 44769, 36645, 15041, 89045, 55365, 42105, 61441, 84759, 35905,
      36387, 33889, 92309, 13127, 37387, 40757, 41559, 90117, 48335, 48323, 58459, 12407, 16291, 37787,
      81875, 54551, 32429, 90811, 39947, 55061, 35975, 27047, 45165, 41179, 77599, 39609, 71883, 37115,
      63123, 74125, 78611, 73815, 80667, 95549, 32127, 65197, 49473, 65559, 28665, 98671, 83931, 33423,
      16477, 46371, 49809, 34965, 53245, 63397, 74349, 64209, 44081, 52731, 60585, 15227, 12127, 55539,
      27691, 69883, 34843, 19371, 19845, 35609, 70645, 38567, 19657, 75873, 60035, 50943, 44361, 51131,
      58793, 21503, 92223, 72827, 88403, 55861, 45879, 44221, 47009, 28237, 27983, 98089, 90031, 95905,
      82645, 89687, 78307, 45551, 74757, 38401, 65013, 73407, 83529, 11557, 59967, 97373, 40647, 52975,
      86875, 87085, 77925, 81353]"

text \<open>The loop of \<open>get_random\<close>: every entry moves one place down.\<close>

fun shift_down :: "nat \<Rightarrow> nat \<Rightarrow> int list \<Rightarrow> int list" where
  "shift_down i 0 a = a"
| "shift_down i (Suc n) a = shift_down (Suc i) n (a[i := a ! (i + 1)])"

definition next_random :: "int list \<Rightarrow> int \<times> int list" where
  "next_random a = (let rand = a ! 0 in (rand, (shift_down 0 255 a)[255 := rand]))"

definition get_random :: "(int, 'z pt_scheme) K" where
  "get_random = kbind (kget random_int) (\<lambda>a.
     let (rand, a') = next_random a in kseq (kmod (random_int_update (\<lambda>_. a'))) (kret rand))"

definition ticket_sum :: "proc list \<Rightarrow> int" where
  "ticket_sum ps = foldl (\<lambda>tot p. if p_state p = RUNNABLE then s32 (tot + p_tickets p) else tot) 0 ps"

definition get_total_tickets :: "(nat, 'z pt_scheme) K" where
  "get_total_tickets = kget (\<lambda>s. u32i (ticket_sum (procs s)))"

section \<open>Page-table register\<close>

definition v2p :: "u32 \<Rightarrow> u32" where
  "v2p a = a - KERNBASE"

definition p2v :: "u32 \<Rightarrow> u32" where
  "p2v a = a + KERNBASE"

definition switchkvm :: "(unit, 'z pt_scheme) K" where
  "switchkvm = kmod (\<lambda>s. s\<lparr>cr3 := v2p (kpgdir s)\<rparr>)"

text \<open>
  The TSS gets the stack of \<open>proc\<close>, the page-table register the directory of \<open>p\<close>. The
  \<open>pushcli\<close> and \<open>popcli\<close> around this straight-line code cancel.
\<close>

definition switchuvm :: "nat \<Rightarrow> (unit, 'z pt_scheme) K" where
  "switchuvm p = with_proc (\<lambda>c. kbind (kget procs) (\<lambda>ps.
     kseq (kmod (\<lambda>s. s\<lparr>ts_esp0 := p_kstack (ps ! c) + KSTACKSIZE\<rparr>))
       (if p_pgdir (ps ! p) = 0 then kpanic ''switchuvm: no pgdir''
        else kmod (\<lambda>s. s\<lparr>cr3 := v2p (p_pgdir (ps ! p))\<rparr>))))"

section \<open>Giving up the CPU\<close>

text \<open>
  \<open>sched\<close> up to the switch. Each lock held is one level of \<open>pushcli\<close>, so \<open>cpu->ncli\<close> is the
  number of held locks and interrupts are off whenever it is not 0.
\<close>

definition sched :: "(unit, 'z pt_scheme) K" where
  "sched = with_proc (\<lambda>i. kbind (kget (\<lambda>s. (held s, p_state (procs s ! i)))) (\<lambda>(h, st).
     if LPtable \<notin> set h then kpanic ''sched ptable.lock''
     else if length h \<noteq> 1 then kpanic ''sched locks''
     else if st = RUNNING then kpanic ''sched running''
     else kret ()))"

text \<open>
  \<open>swtch\<close> runs the rest of the system, \<open>env\<close>, until this process is chosen again.
\<close>

definition yield_cpu :: "('z pt_scheme \<Rightarrow> 'z pt_scheme) \<Rightarrow> (unit, 'z pt_scheme) K" where
  "yield_cpu env = kseq (acq LPtable) (with_proc (\<lambda>i. kblock
     [kmod (\<lambda>s. upd_proc i (\<lambda>p. p\<lparr>p_state := RUNNABLE, p_retime := sint (ticks s)\<rparr>) s),
      sched,
      kmod env,
      rel LPtable]))"

text \<open>The same routine in homework 1, which keeps no times.\<close>

definition yield_cpu_hw1 :: "('z pt_scheme \<Rightarrow> 'z pt_scheme) \<Rightarrow> (unit, 'z pt_scheme) K" where
  "yield_cpu_hw1 env = kseq (acq LPtable) (with_proc (\<lambda>i. kblock
     [kmod (upd_proc i (\<lambda>p. p\<lparr>p_state := RUNNABLE\<rparr>)),
      sched,
      kmod env,
      rel LPtable]))"

text \<open>
  \<open>sleep\<close> up to the switch: the outcome is the channel and the state the scheduler gets, with
  \<open>ptable.lock\<close> held and \<open>lk\<close> free. The steps are a list, so that the theory Wakeup can run
  them between the steps of other CPUs, where their order matters.
  \<open>sleep_back\<close> is what runs when the process is chosen again.
\<close>

definition ksleep_steps :: "chan \<Rightarrow> lockid \<Rightarrow> nat \<Rightarrow> (unit, 'z pt_scheme) K list" where
  "ksleep_steps c lk i =
     [kwhen (lk \<noteq> LPtable) (acq LPtable),
      kwhen (lk \<noteq> LPtable) (rel lk),
      kmod (upd_proc i (\<lambda>p. p\<lparr>p_chan := Some c, p_state := SLEEPING\<rparr>)),
      sched]"

definition ksleep :: "chan \<Rightarrow> lockid \<Rightarrow> ('a, 'z pt_scheme) K" where
  "ksleep c lk = kbind (kget curproc) (\<lambda>cp. case cp of
     None \<Rightarrow> kpanic ''sleep''
   | Some i \<Rightarrow> kseq (kblock (ksleep_steps c lk i)) (\<lambda>s. Sleep c s))"

lemmas ksleep_unfold = ksleep_def ksleep_steps_def kblock.simps

definition sleep_back :: "lockid \<Rightarrow> (unit, 'z pt_scheme) K" where
  "sleep_back lk = with_proc (\<lambda>i. kblock
     [kmod (upd_proc i (\<lambda>p. p\<lparr>p_chan := None\<rparr>)),
      kwhen (lk \<noteq> LPtable) (kseq (rel LPtable) (acq lk))])"

text \<open>
  A sleep as its caller sees it when it is woken again: \<open>e\<close> runs the rest of the system with
  \<open>ptable.lock\<close> free; if the process is then runnable it gets the CPU back and returns from
  \<open>sleep\<close>, and if nobody has woken it it stays where it is. Code that sleeps in a loop takes a list
  of such environments, one for every sleep it may come back from.
\<close>

definition ksleep_env :: "(unit, 'z pt_scheme) K \<Rightarrow> chan \<Rightarrow> lockid \<Rightarrow> (unit, 'z pt_scheme) K" where
  "ksleep_env e c lk = (\<lambda>s. case ksleep c lk s :: (unit, _) res of
     Sleep c' t \<Rightarrow> with_proc (\<lambda>i. kblock
       [rel LPtable,
        e,
        kbind (kget (\<lambda>s. p_state (procs s ! i))) (\<lambda>st. if st = RUNNABLE then kret () else (\<lambda>s. Sleep c s)),
        acq LPtable,
        kmod (\<lambda>s. upd_proc i (\<lambda>p. p\<lparr>p_state := RUNNING\<rparr>) s\<lparr>curproc := Some i\<rparr>),
        sleep_back lk]) t
   | r \<Rightarrow> r)"

definition ksleep_in :: "(unit, 'z pt_scheme) K list \<Rightarrow> chan \<Rightarrow> lockid \<Rightarrow>
    ((unit, 'z pt_scheme) K list, 'z pt_scheme) K" where
  "ksleep_in es c lk = (case es of [] \<Rightarrow> ksleep c lk | e # es \<Rightarrow> kseq (ksleep_env e c lk) (kret es))"

definition wake :: "chan \<Rightarrow> proc \<Rightarrow> proc" where
  "wake c p = (if p_state p = SLEEPING \<and> p_chan p = Some c then p\<lparr>p_state := RUNNABLE\<rparr> else p)"

definition wakeup1 :: "chan \<Rightarrow> (unit, 'z pt_scheme) K" where
  "wakeup1 c = kmod (procs_update (map (wake c)))"

definition wakeup_steps :: "chan \<Rightarrow> (unit, 'z pt_scheme) K list" where
  "wakeup_steps c = [acq LPtable, wakeup1 c, rel LPtable]"

definition wakeup :: "chan \<Rightarrow> (unit, 'z pt_scheme) K" where
  "wakeup c = kblock (wakeup_steps c)"

definition kill :: "int \<Rightarrow> (int, 'z pt_scheme) K" where
  "kill pid = kseq (acq LPtable) (kbind (kget procs) (\<lambda>ps.
     case first_idx (\<lambda>p. p_pid p = pid) ps of
       None \<Rightarrow> kseq (rel LPtable) (kret (- 1))
     | Some i \<Rightarrow> kseq (kblock
         [kmod (upd_proc i (\<lambda>p. p\<lparr>p_killed := True\<rparr>)),
          kmod (upd_proc i (\<lambda>p. if p_state p = SLEEPING then p\<lparr>p_state := RUNNABLE\<rparr> else p)),
          rel LPtable]) (kret 0)))"

section \<open>Schedulers\<close>

text \<open>
  \<open>run i\<close> is what happens from the switch to process \<open>i\<close> until the switch back. The loop over
  the table carries \<open>counter\<close> and \<open>foundproc\<close>; comparisons of \<open>counter\<close> with the unsigned
  \<open>winner\<close> are unsigned.
\<close>

definition dispatch :: "(nat \<Rightarrow> 'z pt_scheme \<Rightarrow> 'z pt_scheme) \<Rightarrow> nat \<Rightarrow> (unit, 'z pt_scheme) K" where
  "dispatch run i = kblock
     [kmod (curproc_update (\<lambda>_. Some i)),
      switchuvm i,
      kmod (upd_proc i (\<lambda>p. p\<lparr>p_state := RUNNING\<rparr>)),
      kmod (run i),
      switchkvm,
      kmod (curproc_update (\<lambda>_. None))]"

fun lottery_scan :: "(nat \<Rightarrow> 'z pt_scheme \<Rightarrow> 'z pt_scheme) \<Rightarrow> nat \<Rightarrow> nat list \<Rightarrow> int \<Rightarrow> bool
    \<Rightarrow> (int \<times> bool, 'z pt_scheme) K" where
  "lottery_scan run winner [] counter found = kret (counter, found)"
| "lottery_scan run winner (i # is) counter found =
     kbind (kget (\<lambda>s. procs s ! i)) (\<lambda>p.
     if p_state p \<noteq> RUNNABLE then lottery_scan run winner is counter found
     else if u32i counter < winner
       then lottery_scan run winner is (s32 (counter + p_tickets p)) found
     else kseq (dispatch run i) (lottery_scan run winner is counter True))"

definition draw_winner :: "(nat, 'z pt_scheme) K" where
  "draw_winner = kbind get_random (\<lambda>r. kbind get_total_tickets (\<lambda>tot.
     if tot = 0 then kundef else kret (u32n (u32i r mod tot + 1))))"

text \<open>One turn of the endless loop; \<open>hlt\<close> waits for an interrupt, the environment's \<open>irq\<close>.\<close>

definition lottery_pass :: "(nat \<Rightarrow> 'z pt_scheme \<Rightarrow> 'z pt_scheme) \<Rightarrow> ('z pt_scheme \<Rightarrow> 'z pt_scheme)
    \<Rightarrow> nat \<Rightarrow> int \<times> bool \<Rightarrow> (int \<times> bool, 'z pt_scheme) K" where
  "lottery_pass run irq winner cf =
     kseq (kwhen (\<not> snd cf) (kmod irq))
     (kseq (acq LPtable)
     (kbind (lottery_scan run winner [0..<NPROC] (fst cf) False) (\<lambda>cf'.
      kseq (rel LPtable) (kret cf'))))"

fun lottery_passes :: "nat \<Rightarrow> (nat \<Rightarrow> 'z pt_scheme \<Rightarrow> 'z pt_scheme) \<Rightarrow> ('z pt_scheme \<Rightarrow> 'z pt_scheme)
    \<Rightarrow> nat \<Rightarrow> int \<times> bool \<Rightarrow> (int \<times> bool, 'z pt_scheme) K" where
  "lottery_passes 0 run irq winner cf = kret cf"
| "lottery_passes (Suc n) run irq winner cf =
     kbind (lottery_pass run irq winner cf) (lottery_passes n run irq winner)"

text \<open>\<open>scheduler\<close> never returns: the first \<open>n\<close> turns of its loop.\<close>

definition scheduler :: "nat \<Rightarrow> (nat \<Rightarrow> 'z pt_scheme \<Rightarrow> 'z pt_scheme) \<Rightarrow> ('z pt_scheme \<Rightarrow> 'z pt_scheme)
    \<Rightarrow> (int \<times> bool, 'z pt_scheme) K" where
  "scheduler n run irq = kbind draw_winner (\<lambda>winner. lottery_passes n run irq winner (0, True))"

fun rr_scan :: "(nat \<Rightarrow> 'z pt_scheme \<Rightarrow> 'z pt_scheme) \<Rightarrow> nat list \<Rightarrow> bool \<Rightarrow> (bool, 'z pt_scheme) K" where
  "rr_scan run [] found = kret found"
| "rr_scan run (i # is) found =
     kbind (kget (\<lambda>s. procs s ! i)) (\<lambda>p.
     if p_state p \<noteq> RUNNABLE then rr_scan run is found
     else kseq (dispatch run i) (rr_scan run is True))"

definition rr_pass :: "(nat \<Rightarrow> 'z pt_scheme \<Rightarrow> 'z pt_scheme) \<Rightarrow> ('z pt_scheme \<Rightarrow> 'z pt_scheme)
    \<Rightarrow> bool \<Rightarrow> (bool, 'z pt_scheme) K" where
  "rr_pass run irq found =
     kseq (kwhen (\<not> found) (kmod irq))
     (kseq (acq LPtable)
     (kbind (rr_scan run [0..<NPROC] False) (\<lambda>f. kseq (rel LPtable) (kret f))))"

fun rr_passes :: "nat \<Rightarrow> (nat \<Rightarrow> 'z pt_scheme \<Rightarrow> 'z pt_scheme) \<Rightarrow> ('z pt_scheme \<Rightarrow> 'z pt_scheme)
    \<Rightarrow> bool \<Rightarrow> (bool, 'z pt_scheme) K" where
  "rr_passes 0 run irq found = kret found"
| "rr_passes (Suc n) run irq found = kbind (rr_pass run irq found) (rr_passes n run irq)"

section \<open>procdump\<close>

definition state_name :: "procstate \<Rightarrow> string" where
  "state_name st = (case st of UNUSED \<Rightarrow> ''unused'' | EMBRYO \<Rightarrow> ''embryo'' | SLEEPING \<Rightarrow> ''sleep ''
     | RUNNABLE \<Rightarrow> ''runble'' | RUNNING \<Rightarrow> ''run   '' | ZOMBIE \<Rightarrow> ''zombie'')"

definition procdump :: "(u32 \<Rightarrow> u32) \<Rightarrow> (unit, 'z pt_scheme) K" where
  "procdump stk = kbind (kget procs) (\<lambda>ps. kfor ps (\<lambda>p.
     if p_state p = UNUSED then kret ()
     else kblock
       [cprintf ''%d %s %s'' [AInt (p_pid p), AStr (Some (state_name (p_state p))), AStr (Some (p_name p))],
        kwhen (p_state p = SLEEPING)
          (kfor (takeWhile (\<lambda>pc. pc \<noteq> 0) (getcallerpcs stk (c_ebp (p_context p) + 8)))
            (\<lambda>pc. cprintf '' %p'' [AInt (uint pc)])),
        cprintf [CHR 10] []]))"

section \<open>The random table\<close>

lemma shift_down_length [simp]: "length (shift_down i n a) = length a"
  by (induction n arbitrary: i a) simp_all

lemma shift_down_nth:
  "i + n < length a \<Longrightarrow> j < length a \<Longrightarrow>
     shift_down i n a ! j = (if i \<le> j \<and> j < i + n then a ! (j + 1) else a ! j)"
  by (induction n arbitrary: i a) (auto simp: nth_list_update)

lemma next_random_rotate:
  assumes "length a = 256"
  shows "next_random a = (hd a, rotate1 a)"
proof -
  have "(shift_down 0 255 a)[255 := a ! 0] = rotate1 a"
  proof (rule nth_equalityI)
    fix i assume "i < length ((shift_down 0 255 a)[255 := a ! 0])"
    then have i: "i < 256" using assms by simp
    then show "(shift_down 0 255 a)[255 := a ! 0] ! i = rotate1 a ! i"
      using assms by (cases "i = 255") (auto simp: nth_list_update shift_down_nth nth_rotate1)
  qed simp
  with assms show ?thesis by (simp add: next_random_def Let_def hd_conv_nth length_0_conv [symmetric] del: length_0_conv)
qed

lemma get_random_apply:
  "length (random_int s) = 256 \<Longrightarrow>
     get_random s = Ok (hd (random_int s)) (s\<lparr>random_int := rotate1 (random_int s)\<rparr>)"
  by (simp add: get_random_def next_random_rotate)

fun draws :: "nat \<Rightarrow> (int list, 'z pt_scheme) K" where
  "draws 0 = kret []"
| "draws (Suc n) = kbind get_random (\<lambda>r. kbind (draws n) (\<lambda>rs. kret (r # rs)))"

lemma draws_apply:
  "length (random_int s) = 256 \<Longrightarrow> n \<le> 256 \<Longrightarrow>
     draws n s = Ok (take n (random_int s)) (s\<lparr>random_int := rotate n (random_int s)\<rparr>)"
proof (induction n arbitrary: s)
  case 0
  then show ?case by simp
next
  case (Suc n)
  let ?a = "random_int s"
  have "hd ?a # take n (rotate1 ?a) = take (Suc n) ?a"
    using Suc.prems by (cases ?a) simp_all
  with Suc show ?case
    by (simp add: kbind_def get_random_apply rotate1_rotate_swap)
qed

section \<open>Sums of tickets\<close>

definition tickets_of :: "proc list \<Rightarrow> nat list \<Rightarrow> int" where
  "tickets_of ps is = sum_list (map (\<lambda>i. p_tickets (ps ! i)) (filter (\<lambda>i. p_state (ps ! i) = RUNNABLE) is))"

definition tickets_ok :: "proc list \<Rightarrow> bool" where
  "tickets_ok ps \<longleftrightarrow> length ps = NPROC \<and> (\<forall>p \<in> set ps. p_state p = RUNNABLE \<longrightarrow> 1 \<le> p_tickets p \<and> p_tickets p \<le> 999)"

lemma tickets_of_simps [simp]:
  "tickets_of ps [] = 0"
  "tickets_of ps (i # is) =
     (if p_state (ps ! i) = RUNNABLE then p_tickets (ps ! i) + tickets_of ps is else tickets_of ps is)"
  "tickets_of ps (is @ js) = tickets_of ps is + tickets_of ps js"
  by (simp_all add: tickets_of_def)

lemma tickets_of_bound:
  "\<forall>i \<in> set is. p_state (ps ! i) = RUNNABLE \<longrightarrow> 1 \<le> p_tickets (ps ! i) \<and> p_tickets (ps ! i) \<le> 999 \<Longrightarrow>
     0 \<le> tickets_of ps is \<and> tickets_of ps is \<le> 999 * int (length is)"
  by (induction "is") auto

lemma ticket_fold:
  "\<forall>p \<in> set ps. p_state p = RUNNABLE \<longrightarrow> 1 \<le> p_tickets p \<and> p_tickets p \<le> 999 \<Longrightarrow> 0 \<le> t \<Longrightarrow> t + 999 * int (length ps) < 2147483648 \<Longrightarrow>
     foldl (\<lambda>tot p. if p_state p = RUNNABLE then s32 (tot + p_tickets p) else tot) t ps =
       t + tickets_of ps [0..<length ps]"
proof (induction ps arbitrary: t)
  case Nil
  then show ?case by simp
next
  case (Cons p ps)
  have shift: "tickets_of (p # ps) (map Suc is) = tickets_of ps is" for "is"
    by (induction "is") simp_all
  have "tickets_of (p # ps) [0..<length (p # ps)] =
    (if p_state p = RUNNABLE then p_tickets p else 0) + tickets_of ps [0..<length ps]"
    by (simp add: upt_conv_Cons map_Suc_upt [symmetric] shift del: upt_Suc)
  with Cons show ?case
    by (auto simp: s32_id)
qed

lemma ticket_sum_ok:
  "tickets_ok ps \<Longrightarrow> ticket_sum ps = tickets_of ps [0..<NPROC] \<and> 0 \<le> ticket_sum ps \<and> ticket_sum ps \<le> 63936"
  using tickets_of_bound [of "[0..<NPROC]" ps]
  by (auto simp: tickets_ok_def ticket_sum_def ticket_fold NPROC_def)

lemma tickets_of_pos: "tickets_ok ps \<Longrightarrow> i < NPROC \<Longrightarrow> p_state (ps ! i) = RUNNABLE \<Longrightarrow> 0 < ticket_sum ps"
proof -
  assume a: "tickets_ok ps" "i < NPROC" "p_state (ps ! i) = RUNNABLE"
  have "[0..<NPROC] = [0..<i] @ i # [Suc i..<NPROC]"
    using a(2) upt_add_eq_append [of 0 i "NPROC - i"] by (simp add: upt_conv_Cons)
  moreover have "0 \<le> tickets_of ps [0..<i]" "0 \<le> tickets_of ps [Suc i..<NPROC]"
    using a(1,2) tickets_of_bound [of "[0..<i]" ps] tickets_of_bound [of "[Suc i..<NPROC]" ps]
    by (auto simp: tickets_ok_def)
  moreover have "1 \<le> p_tickets (ps ! i)" using a by (auto simp: tickets_ok_def)
  ultimately show ?thesis using a ticket_sum_ok [OF a(1)] by simp
qed

lemma draw_winner_apply:
  assumes "length (random_int s) = 256" and "tickets_ok (procs s)"
  shows "draw_winner s = (if ticket_sum (procs s) = 0 then Undef
    else Ok (u32i (hd (random_int s)) mod nat (ticket_sum (procs s)) + 1)
      (s\<lparr>random_int := rotate1 (random_int s)\<rparr>))"
proof -
  have t: "0 \<le> ticket_sum (procs s)" "ticket_sum (procs s) \<le> 63936"
    using ticket_sum_ok [OF assms(2)] by auto
  have "n mod nat (ticket_sum (procs s)) + 1 < 4294967296" if "ticket_sum (procs s) \<noteq> 0" for n
  proof -
    have "n mod nat (ticket_sum (procs s)) < nat (ticket_sum (procs s))" using that t by simp
    then show ?thesis using t by linarith
  qed
  with t show ?thesis
    by (auto simp: draw_winner_def kbind_def get_random_apply assms(1) get_total_tickets_def nat_eq_iff)
qed

section \<open>The scan of the lottery\<close>

text \<open>Below the winning ticket a scan only counts; from there on it is the round robin's scan.\<close>

lemma lottery_scan_past:
  "winner \<le> u32i counter \<Longrightarrow>
     lottery_scan run winner is counter found = kbind (rr_scan run is found) (\<lambda>f. kret (counter, f))"
proof (induction "is" arbitrary: found)
  case Nil
  then show ?case by simp
next
  case (Cons i "is")
  show ?case
    by (rule ext) (use Cons in \<open>auto simp: kbind_def kseq_def split: res.splits\<close>)
qed

lemma lottery_scan_below:
  assumes "\<forall>i \<in> set (is). p_state (procs s ! i) = RUNNABLE \<longrightarrow> 1 \<le> p_tickets (procs s ! i) \<and> p_tickets (procs s ! i) \<le> 999"
    and "0 \<le> counter" and "counter + 999 * int (length is) < 2147483648"
    and "\<And>as b bs. is = as @ b # bs \<Longrightarrow> p_state (procs s ! b) = RUNNABLE \<Longrightarrow>
      counter + tickets_of (procs s) as < int winner"
  shows "lottery_scan run winner (is @ js) counter found s =
    lottery_scan run winner js (counter + tickets_of (procs s) is) found s"
  using assms
proof (induction "is" arbitrary: counter)
  case Nil
  then show ?case by simp
next
  case (Cons i "is")
  have lt: "p_state (procs s ! i) = RUNNABLE \<Longrightarrow> counter < int winner"
    using Cons.prems(4) [of "[]" i "is"] by simp
  have rng: "counter < 2147483648" using Cons.prems(3) by simp
  let ?c = "if p_state (procs s ! i) = RUNNABLE then counter + p_tickets (procs s ! i) else counter"
  have t: "p_state (procs s ! i) = RUNNABLE \<Longrightarrow> 1 \<le> p_tickets (procs s ! i)"
    "p_state (procs s ! i) = RUNNABLE \<Longrightarrow> p_tickets (procs s ! i) \<le> 999" using Cons.prems(1) by auto
  have IH: "lottery_scan run winner (is @ js) ?c found s =
    lottery_scan run winner js (?c + tickets_of (procs s) is) found s"
  proof (rule Cons.IH)
    fix as b bs assume "is = as @ b # bs" "p_state (procs s ! b) = RUNNABLE"
    then show "?c + tickets_of (procs s) as < int winner"
      using Cons.prems(4) [of "i # as" b bs] by (auto simp: add.assoc split: if_splits)
  qed (use Cons.prems t in auto)
  have "p_state (procs s ! i) = RUNNABLE \<Longrightarrow> s32 (counter + p_tickets (procs s ! i)) = counter + p_tickets (procs s ! i)"
    using Cons.prems(2,3) t by (intro s32_id) auto
  with IH lt rng Cons.prems(2) show ?case by (auto simp: add.assoc)
qed

lemma lottery_scan_holder:
  assumes "tickets_ok (procs s)" and "[0..<NPROC] = as @ i # bs"
    and run: "p_state (procs s ! i) = RUNNABLE"
    and lo: "tickets_of (procs s) as < int winner"
    and hi: "int winner \<le> tickets_of (procs s) as + p_tickets (procs s ! i)"
  shows "lottery_scan run winner [0..<NPROC] 0 False s =
    kbind (rr_scan run bs False)
      (\<lambda>f. kret (tickets_of (procs s) as + p_tickets (procs s ! i), f)) s"
proof -
  let ?c = "tickets_of (procs s) as + p_tickets (procs s ! i)"
  have mem: "set (as @ [i]) \<subseteq> {..<NPROC}"
    using arg_cong [OF assms(2), of set] by auto
  have len: "length as < NPROC" using arg_cong [OF assms(2), of length] by simp
  have t: "\<forall>j \<in> set (as @ [i]). p_state (procs s ! j) = RUNNABLE \<longrightarrow> 1 \<le> p_tickets (procs s ! j) \<and> p_tickets (procs s ! j) \<le> 999"
    using assms(1) mem by (auto simp: tickets_ok_def)
  have c: "0 \<le> ?c" "?c \<le> 63936"
    using tickets_of_bound [OF t] len run by (auto simp: NPROC_def)
  have "lottery_scan run winner ((as @ [i]) @ bs) 0 False s =
    lottery_scan run winner bs (0 + tickets_of (procs s) (as @ [i])) False s"
  proof (rule lottery_scan_below [OF t])
    fix xs b ys assume split: "as @ [i] = xs @ b # ys" and "p_state (procs s ! b) = RUNNABLE"
    then obtain zs where "as = xs @ zs" by (cases ys rule: rev_cases) auto
    moreover from this t have "0 \<le> tickets_of (procs s) zs"
      using tickets_of_bound [of zs "procs s"] by auto
    ultimately show "0 + tickets_of (procs s) xs < int winner" using lo by simp
  qed (use len in \<open>auto simp: NPROC_def\<close>)
  also have "\<dots> = kbind (rr_scan run bs False) (\<lambda>f. kret (?c, f)) s"
    using run c hi by (simp add: lottery_scan_past)
  finally show ?thesis by (simp add: assms(2))
qed

lemma lottery_pass_past:
  "winner \<le> u32i counter \<Longrightarrow> lottery_pass run irq winner (counter, f) =
     kbind (rr_pass run irq f) (\<lambda>g. kret (counter, g))"
  by (rule ext) (auto simp: lottery_pass_def rr_pass_def lottery_scan_past kwhen_def kseq_def kbind_def
      split: res.splits)

lemma lottery_passes_past:
  "winner \<le> u32i counter \<Longrightarrow> lottery_passes n run irq winner (counter, f) =
     kbind (rr_passes n run irq f) (\<lambda>g. kret (counter, g))"
proof (induction n arbitrary: f)
  case 0
  then show ?case by simp
next
  case (Suc n)
  show ?case
    by (rule ext) (use Suc in \<open>auto simp: lottery_pass_past kbind_def split: res.splits\<close>)
qed

section \<open>The scan of the round robin\<close>

lemma dispatch_apply:
  "p_pgdir (procs s ! i) \<noteq> 0 \<Longrightarrow> \<exists>t. dispatch run i s = Ok () t \<and>
     procs t = procs (run i (upd_proc i (\<lambda>p. p\<lparr>p_state := RUNNING\<rparr>)
       (s\<lparr>curproc := Some i, ts_esp0 := p_kstack (procs s ! i) + KSTACKSIZE,
          cr3 := v2p (p_pgdir (procs s ! i))\<rparr>))) \<and> curproc t = None"
  by (simp add: dispatch_def switchuvm_def with_proc_def switchkvm_def kseq_def kbind_def)

text \<open>What a process may do to the table while it has the CPU: the other entries keep their state.\<close>

definition minds_own :: "(nat \<Rightarrow> 'z pt_scheme \<Rightarrow> 'z pt_scheme) \<Rightarrow> bool" where
  "minds_own run \<longleftrightarrow> (\<forall>i s. length (procs (run i s)) = length (procs s) \<and>
     (\<forall>j. p_pgdir (procs (run i s) ! j) = p_pgdir (procs s ! j)) \<and>
     (\<forall>j. j \<noteq> i \<longrightarrow> p_state (procs (run i s) ! j) = p_state (procs s ! j)))"

lemma dispatch_others:
  assumes "minds_own run" and "p_pgdir (procs s ! i) \<noteq> 0"
  shows "\<exists>t. dispatch run i s = Ok () t \<and> curproc t = None \<and>
    (\<forall>j. p_pgdir (procs t ! j) = p_pgdir (procs s ! j)) \<and>
    (\<forall>j. j \<noteq> i \<longrightarrow> p_state (procs t ! j) = p_state (procs s ! j))"
proof -
  obtain t where "dispatch run i s = Ok () t" "curproc t = None"
    "procs t = procs (run i (upd_proc i (\<lambda>p. p\<lparr>p_state := RUNNING\<rparr>)
       (s\<lparr>curproc := Some i, ts_esp0 := p_kstack (procs s ! i) + KSTACKSIZE,
          cr3 := v2p (p_pgdir (procs s ! i))\<rparr>)))"
    using dispatch_apply [OF assms(2)] by blast
  moreover have "p_pgdir (((procs s)[i := (procs s ! i)\<lparr>p_state := RUNNING\<rparr>]) ! j) = p_pgdir (procs s ! j)" for j
    by (cases "i < length (procs s)"; cases "j = i") (simp_all add: nth_list_update list_update_beyond)
  ultimately show ?thesis
    using assms(1) by (simp add: minds_own_def)
qed

lemma rr_scan_runs:
  assumes "minds_own run" and "distinct is"
    and "\<forall>i \<in> set is. p_state (procs s ! i) = RUNNABLE \<longrightarrow> p_pgdir (procs s ! i) \<noteq> 0"
  shows "rr_scan run is f s =
    kseq (kfor (filter (\<lambda>i. p_state (procs s ! i) = RUNNABLE) is) (dispatch run))
      (kret (f \<or> (\<exists>i \<in> set is. p_state (procs s ! i) = RUNNABLE))) s"
  using assms(2,3)
proof (induction "is" arbitrary: f s)
  case Nil
  then show ?case by simp
next
  case (Cons i "is")
  show ?case
  proof (cases "p_state (procs s ! i) = RUNNABLE")
    case False
    with Cons show ?thesis by simp
  next
    case True
    obtain t where t: "dispatch run i s = Ok () t"
      "\<forall>j. p_pgdir (procs t ! j) = p_pgdir (procs s ! j)"
      "\<forall>j. j \<noteq> i \<longrightarrow> p_state (procs t ! j) = p_state (procs s ! j)"
      using dispatch_others [OF assms(1)] Cons.prems(2) True by (meson list.set_intros(1))
    have same: "filter (\<lambda>j. p_state (procs t ! j) = RUNNABLE) is =
      filter (\<lambda>j. p_state (procs s ! j) = RUNNABLE) is"
      using t(3) Cons.prems(1) by (intro filter_cong) auto
    have "\<forall>j \<in> set is. p_state (procs t ! j) = RUNNABLE \<longrightarrow> p_pgdir (procs t ! j) \<noteq> 0"
      using t(2,3) Cons.prems by (metis distinct.simps(2) list.set_intros(2))
    then have "rr_scan run is True t =
      kseq (kfor (filter (\<lambda>j. p_state (procs s ! j) = RUNNABLE) is) (dispatch run)) (kret True) t"
      using Cons.IH [of t True] Cons.prems(1) by (simp add: same)
    with True t(1) show ?thesis by (simp add: kseq_seq kseq_def kbind_def)
  qed
qed

section \<open>sched, sleep, wakeup and kill\<close>

lemma sched_apply:
  "curproc s = Some i \<Longrightarrow> sched s =
     (if LPtable \<notin> set (held s) then Panic ''sched ptable.lock''
      else if length (held s) \<noteq> 1 then Panic ''sched locks''
      else if p_state (procs s ! i) = RUNNING then Panic ''sched running''
      else Ok () s)"
  by (simp add: sched_def with_proc_def)

lemma ksleep_apply:
  assumes "curproc s = Some i" and "i < length (procs s)" and "held s = [lk]"
  shows "ksleep c lk s = Sleep c (upd_proc i (\<lambda>p. p\<lparr>p_chan := Some c, p_state := SLEEPING\<rparr>)
    (s\<lparr>held := [LPtable]\<rparr>))"
  using assms
  by (cases "lk = LPtable")
    (simp_all add: ksleep_unfold kseq_def kbind_def acq_apply rel_apply sched_apply upd_proc_def)

text \<open>Any other lock held across \<open>sleep\<close> is a panic.\<close>

lemma ksleep_two_locks:
  assumes "curproc s = Some i" and "held s = [lk, l]" and "lk \<noteq> LPtable" and "l \<noteq> LPtable"
  shows "ksleep c lk s = Panic ''sched locks''"
  using assms
  by (simp add: ksleep_unfold kseq_def kbind_def acq_apply rel_apply sched_apply)

lemma wakeup_apply:
  "wakeup c s = (if LPtable \<in> set (held s) then Panic ''acquire''
     else Ok () (s\<lparr>procs := map (wake c) (procs s)\<rparr>))"
  by (simp add: wakeup_def wakeup_steps_def wakeup1_def kseq_def kbind_def acq_apply rel_apply)

lemma wake_sel [simp]:
  "p_pid (wake c p) = p_pid p" "p_chan (wake c p) = p_chan p" "p_killed (wake c p) = p_killed p"
  "p_parent (wake c p) = p_parent p" "p_pgdir (wake c p) = p_pgdir p"
  "p_kstack (wake c p) = p_kstack p" "p_tickets (wake c p) = p_tickets p" "p_sz (wake c p) = p_sz p"
  by (simp_all add: wake_def)

lemma wake_state:
  "p_state (wake c p) = (if p_state p = SLEEPING \<and> p_chan p = Some c then RUNNABLE else p_state p)"
  by (simp add: wake_def)

lemma wake_twice [simp]: "wake c (wake c p) = wake c p"
  by (simp add: wake_def)

lemma kill_apply:
  "LPtable \<notin> set (held s) \<Longrightarrow> kill pid s =
     (case first_idx (\<lambda>p. p_pid p = pid) (procs s) of
        None \<Rightarrow> Ok (- 1) s
      | Some i \<Rightarrow> Ok 0 (upd_proc i (\<lambda>p. p\<lparr>p_killed := True,
          p_state := (if p_state p = SLEEPING then RUNNABLE else p_state p)\<rparr>) s))"
  by (cases "first_idx (\<lambda>p. p_pid p = pid) (procs s)")
    (auto simp: kill_def kseq_def kbind_def acq_apply rel_apply upd_proc_def dest: first_idx_less)

section \<open>The machine at boot\<close>

text \<open>
  The static data before \<open>main\<close> runs: a zeroed process table and the random table of the
  source. It is also the concrete state the properties are instantiated on.
\<close>

definition zero_tf :: trapframe where
  "zero_tf = \<lparr>tf_edi = 0, tf_esi = 0, tf_ebp = 0, tf_oesp = 0, tf_ebx = 0, tf_edx = 0, tf_ecx = 0,
     tf_eax = 0, tf_gs = 0, tf_fs = 0, tf_es = 0, tf_ds = 0, tf_trapno = 0, tf_err = 0, tf_eip = 0,
     tf_cs = 0, tf_eflags = 0, tf_esp = 0, tf_ss = 0\<rparr>"

definition zero_context :: kcontext where
  "zero_context = \<lparr>c_edi = 0, c_esi = 0, c_ebx = 0, c_ebp = 0, c_eip = 0\<rparr>"

definition zero_proc :: proc where
  "zero_proc = \<lparr>p_sz = 0, p_pgdir = 0, p_kstack = 0, p_state = UNUSED, p_pid = 0, p_parent = None,
     p_tf = zero_tf, p_context = zero_context, p_chan = None, p_killed = False,
     p_ofile = replicate NOFILE None, p_cwd = None, p_name = [], p_ctime = 0, p_ttime = 0,
     p_stime = 0, p_retime = 0, p_rutime = 0, p_tickets = 0\<rparr>"

definition boot_pt :: pt where
  "boot_pt = irqc.extend reset_irqc \<lparr>con_locking = False, panicked = False, uart = False, uart_out = [],
     crt = (\<lambda>_. 0), crt_hi = 0, crt_lo = 0, procs = replicate NPROC zero_proc, curproc = None,
     initproc = None, nextpid = 1, random_int = random_table, ticks = 0, cr3 = 0, ts_esp0 = 0,
     kpgdir = 0\<rparr>"

lemma boot_random: "random_int boot_pt = random_table" "length random_table = 256"
  by (simp_all add: boot_pt_def random_table_def irqc.defs)

text \<open>A table with three processes that have tickets: two runnable, one asleep.\<close>

definition some_procs :: "proc list" where
  "some_procs =
     [zero_proc\<lparr>p_state := RUNNABLE, p_pid := 1, p_pgdir := 0x80400000, p_tickets := 10\<rparr>,
      zero_proc\<lparr>p_state := SLEEPING, p_pid := 2, p_pgdir := 0x80401000, p_tickets := 5,
        p_chan := Some ChTicks\<rparr>,
      zero_proc\<lparr>p_state := RUNNABLE, p_pid := 3, p_pgdir := 0x80402000, p_tickets := 7\<rparr>]
     @ replicate 61 (zero_proc\<lparr>p_tickets := 1\<rparr>)"

definition some_pt :: pt where
  "some_pt = boot_pt\<lparr>procs := some_procs\<rparr>"

lemma some_procs_ok: "tickets_ok (procs some_pt)"
  by (simp add: some_pt_def tickets_ok_def some_procs_def NPROC_def)

section \<open>Properties\<close>

text \<open>
  \<open>get_random\<close> hands out the entries of its table in order and rotates it: after 256 calls
  every entry has been returned once, in table order, and the table is back where it started.
\<close>

lemma get_random_cycle:
  "length (random_int s) = 256 \<Longrightarrow>
     get_random s = Ok (random_int s ! 0) (s\<lparr>random_int := rotate1 (random_int s)\<rparr>) \<and>
     draws 256 s = Ok (random_int s) s"
  by (auto simp: get_random_apply draws_apply hd_conv_nth length_0_conv [symmetric] simp del: length_0_conv)

lemma get_random_cycle_witness:
  "get_random boot_pt = Ok 77183 (boot_pt\<lparr>random_int := rotate1 random_table\<rparr>) \<and>
   draws 256 boot_pt = Ok random_table boot_pt"
  using get_random_cycle [of boot_pt] by (simp add: boot_random random_table_def [THEN arg_cong, of "\<lambda>a. a ! 0"])

text \<open>
  C38. With tickets of runnable processes between 1 and 999 the lottery draws a number between 1 and the total of the
  runnable processes' tickets; with nothing runnable it divides by zero.
\<close>

lemma draw_winner_range:
  assumes "length (random_int s) = 256" and "tickets_ok (procs s)"
  shows "if \<exists>i < NPROC. p_state (procs s ! i) = RUNNABLE
    then \<exists>w t. draw_winner s = Ok w t \<and> 1 \<le> w \<and> int w \<le> ticket_sum (procs s) \<and> procs t = procs s
    else draw_winner s = Undef"
proof (cases "\<exists>i < NPROC. p_state (procs s ! i) = RUNNABLE")
  case True
  then have "0 < ticket_sum (procs s)" using tickets_of_pos [OF assms(2)] by blast
  then have "n mod nat (ticket_sum (procs s)) < nat (ticket_sum (procs s))" for n by simp
  then have "int (n mod nat (ticket_sum (procs s)) + 1) \<le> ticket_sum (procs s)" for n
    by (metis Suc_eq_plus1 Suc_leI int_nat_eq of_nat_le_iff \<open>0 < ticket_sum (procs s)\<close> less_imp_le)
  with True \<open>0 < ticket_sum (procs s)\<close> show ?thesis
    by (simp add: draw_winner_apply assms)
next
  case False
  then have "filter (\<lambda>i. p_state (procs s ! i) = RUNNABLE) [0..<NPROC] = []"
    by (auto simp: filter_empty_conv)
  then have "ticket_sum (procs s) = 0"
    using ticket_sum_ok [OF assms(2)] by (simp add: tickets_of_def)
  with False show ?thesis by (simp add: draw_winner_apply assms)
qed

lemma draw_winner_range_witness:
  "\<exists>w t. draw_winner some_pt = Ok w t \<and> 1 \<le> w \<and> int w \<le> ticket_sum (procs some_pt) \<and>
     procs t = procs some_pt"
proof -
  have "\<exists>i < NPROC. p_state (procs some_pt ! i) = RUNNABLE"
    by (rule exI [of _ 0]) (simp add: some_pt_def some_procs_def NPROC_def)
  moreover have "length (random_int some_pt) = 256"
    by (simp add: some_pt_def boot_random)
  ultimately show ?thesis
    using draw_winner_range [OF _ some_procs_ok] by simp
qed

text \<open>
  C23. The process that holds the winning ticket does not run in the pass that finds it: the
  scan counts its tickets and goes on, and from the next entry on it runs every runnable process
  it meets, as the round robin does.
\<close>

lemma lottery_holder_skipped:
  assumes "tickets_ok (procs s)" and "i < NPROC" and "p_state (procs s ! i) = RUNNABLE"
    and "tickets_of (procs s) [0..<i] < int winner"
    and "int winner \<le> tickets_of (procs s) [0..<i] + p_tickets (procs s ! i)"
  shows "lottery_scan run winner [0..<NPROC] 0 False s =
    kbind (rr_scan run [Suc i..<NPROC] False)
      (\<lambda>f. kret (tickets_of (procs s) [0..<i] + p_tickets (procs s ! i), f)) s"
proof (rule lottery_scan_holder [OF assms(1) _ assms(3-5)])
  show "[0..<NPROC] = [0..<i] @ i # [Suc i..<NPROC]"
    using assms(2) upt_add_eq_append [of 0 i "NPROC - i"] by (simp add: upt_conv_Cons)
qed

lemma lottery_holder_skipped_witness:
  "lottery_scan (\<lambda>_ t. t) 12 [0..<NPROC] 0 False some_pt =
     kbind (rr_scan (\<lambda>_ t. t) [3..<NPROC] False) (\<lambda>f. kret (17, f)) some_pt"
  using lottery_holder_skipped [of some_pt 2 12 "\<lambda>_ t. t", OF some_procs_ok]
  by (simp add: some_pt_def some_procs_def NPROC_def numeral_2_eq_2 numeral_3_eq_3)

text \<open>
  C19. Once the counter has reached the winning number, which is drawn once, the lottery
  scheduler is the round-robin scheduler of homework 1, for any number of passes.
\<close>

lemma lottery_becomes_round_robin:
  "winner \<le> u32i counter \<Longrightarrow> lottery_passes n run irq winner (counter, f) =
     kbind (rr_passes n run irq f) (\<lambda>g. kret (counter, g))"
  by (rule lottery_passes_past)

lemma lottery_becomes_round_robin_witness:
  "lottery_passes 3 (\<lambda>_ t. t) id 12 (17, True) some_pt =
     kbind (rr_passes 3 (\<lambda>_ t. t) id True) (\<lambda>g. kret (17, g)) some_pt"
  using lottery_becomes_round_robin [of 12 17 3 "\<lambda>_ t. t" "id :: pt \<Rightarrow> pt" True] by simp

text \<open>
  One pass of the round robin gives the CPU to every process that is runnable when the pass
  starts exactly once, in table order, to no other, and notes whether there was one.
\<close>

lemma rr_scan_each_once:
  assumes "minds_own run"
    and "\<forall>i < NPROC. p_state (procs s ! i) = RUNNABLE \<longrightarrow> p_pgdir (procs s ! i) \<noteq> 0"
  shows "rr_scan run [0..<NPROC] False s =
    kseq (kfor (filter (\<lambda>i. p_state (procs s ! i) = RUNNABLE) [0..<NPROC]) (dispatch run))
      (kret (\<exists>i < NPROC. p_state (procs s ! i) = RUNNABLE)) s"
  using rr_scan_runs [OF assms(1), of "[0..<NPROC]" s False] assms(2)
  by (simp add: Bex_def)

lemma rr_scan_each_once_witness:
  "rr_scan (\<lambda>_ t. t) [0..<NPROC] False some_pt =
     kseq (kfor [0, 2] (dispatch (\<lambda>_ t. t))) (kret True) some_pt"
proof -
  have some: "p_state (procs some_pt ! 0) = RUNNABLE"
    "filter (\<lambda>i. p_state (procs some_pt ! i) = RUNNABLE) [0..<NPROC] = [0, 2]"
    by (simp_all add: some_pt_def some_procs_def zero_proc_def NPROC_def upt_rec nth_append)
  moreover have "\<forall>p \<in> set some_procs. p_state p = RUNNABLE \<longrightarrow> p_pgdir p \<noteq> 0"
    by (simp add: some_procs_def zero_proc_def)
  then have "\<forall>i < NPROC. p_state (procs some_pt ! i) = RUNNABLE \<longrightarrow> p_pgdir (procs some_pt ! i) \<noteq> 0"
    using some_procs_ok by (auto simp: tickets_ok_def some_pt_def)
  moreover note some
  moreover have "\<exists>i < NPROC. p_state (procs some_pt ! i) = RUNNABLE"
    by (intro exI [of _ 0]) (simp add: some NPROC_def)
  ultimately show ?thesis
    using rr_scan_each_once [of "\<lambda>_ t. t" some_pt] by (simp add: minds_own_def)
qed

text \<open>
  One CPU alone: a process that calls \<open>sleep\<close> with just its lock held is SLEEPING on
  the channel, with the process table locked and the lock given back, when the scheduler gets the
  CPU; a later \<open>wakeup\<close> on that channel makes it, and every other sleeper on it, RUNNABLE and
  changes nobody else. What the other CPUs may do in between is in Wakeup.
\<close>

lemma ksleep_wakeup_alone:
  assumes "curproc s = Some i" and "i < length (procs s)" and "held s = [lk]"
  shows "\<exists>t. ksleep c lk s = (Sleep c t :: (unit, _) res) \<and> held t = [LPtable] \<and>
    p_state (procs t ! i) = SLEEPING \<and> p_chan (procs t ! i) = Some c \<and>
    (\<exists>u. kseq (rel LPtable) (wakeup c) t = Ok () u \<and> held u = [] \<and>
      p_state (procs u ! i) = RUNNABLE \<and>
      (\<forall>j < length (procs s). j \<noteq> i \<longrightarrow> procs u ! j = wake c (procs s ! j)))"
  unfolding ksleep_apply [OF assms] using assms(2)
  by (simp add: kseq_def kbind_def rel_apply wakeup_apply) (simp add: wake_def)

text \<open>
  \<open>kill\<close> marks the first table entry with the given pid and wakes it if it sleeps, or reports
  failure. The entry need not be a process: unused slots have pid 0, so \<open>kill(0)\<close> succeeds and
  marks one, and nothing clears the mark when the slot is allocated.
\<close>

lemma kill_zero_marks_unused:
  "\<exists>t. kill 0 boot_pt = Ok 0 t \<and> p_killed (procs t ! 0) \<and> p_state (procs t ! 0) = UNUSED"
proof -
  have "first_idx (\<lambda>p. p_pid p = 0) (procs boot_pt) = Some 0" "length (procs boot_pt) = 64"
    "procs boot_pt ! 0 = zero_proc" "held boot_pt = []"
    by (simp_all add: boot_pt_def irqc.defs reset_irqc_def NPROC_def first_idx_Some zero_proc_def)
  then show ?thesis by (simp add: kill_apply zero_proc_def)
qed

end
