(* ===== verification/Cmem.thy ===== *)
theory Cmem
  imports Prelude
begin

text \<open>
  Memory and kernel/string.c. Memory is a byte per 32-bit address, words are little-endian.
  The routines that write through a pointer into memory that may overlap (\<open>memset\<close>, \<open>memmove\<close>)
  are functions on the whole memory; those that read strings take each \<open>char *\<close> as the bytes
  from it on. The addresses a routine touches wrap at \<open>2^32\<close> as pointers do.
\<close>

unbundle bit_operations_syntax

type_synonym bytes = "u32 \<Rightarrow> u8"

section \<open>Words in memory\<close>

definition ld32 :: "bytes \<Rightarrow> u32 \<Rightarrow> u32" where
  "ld32 m a = ucast (m a) OR push_bit 8 (ucast (m (a + 1))) OR
     push_bit 16 (ucast (m (a + 2))) OR push_bit 24 (ucast (m (a + 3)))"

definition st32 :: "u32 \<Rightarrow> u32 \<Rightarrow> bytes \<Rightarrow> bytes" where
  "st32 a v m = m(a := ucast v, a + 1 := ucast (drop_bit 8 v),
     a + 2 := ucast (drop_bit 16 v), a + 3 := ucast (drop_bit 24 v))"

section \<open>memset and memmove\<close>

fun stosb :: "u32 \<Rightarrow> u8 \<Rightarrow> nat \<Rightarrow> bytes \<Rightarrow> bytes" where
  "stosb dst c 0 m = m"
| "stosb dst c (Suc n) m = stosb (dst + 1) c n (m(dst := c))"

fun stosl :: "u32 \<Rightarrow> u32 \<Rightarrow> nat \<Rightarrow> bytes \<Rightarrow> bytes" where
  "stosl dst w 0 m = m"
| "stosl dst w (Suc n) m = stosl (dst + 4) w n (st32 dst w m)"

definition memset :: "u32 \<Rightarrow> u32 \<Rightarrow> u32 \<Rightarrow> bytes \<Rightarrow> bytes" where
  "memset dst c n m =
     (if dst AND 3 = 0 \<and> n AND 3 = 0
      then let c = c AND 0xFF
           in stosl dst (push_bit 24 c OR push_bit 16 c OR push_bit 8 c OR c) (unat (n div 4)) m
      else stosb dst (ucast c) (unat n) m)"

fun copy_up :: "u32 \<Rightarrow> u32 \<Rightarrow> nat \<Rightarrow> bytes \<Rightarrow> bytes" where
  "copy_up d s 0 m = m"
| "copy_up d s (Suc n) m = copy_up (d + 1) (s + 1) n (m(d := m s))"

fun copy_down :: "u32 \<Rightarrow> u32 \<Rightarrow> nat \<Rightarrow> bytes \<Rightarrow> bytes" where
  "copy_down d s 0 m = m"
| "copy_down d s (Suc n) m = copy_down (d - 1) (s - 1) n (m(d - 1 := m (s - 1)))"

definition memmove :: "u32 \<Rightarrow> u32 \<Rightarrow> u32 \<Rightarrow> bytes \<Rightarrow> bytes" where
  "memmove dst src n m =
     (if src < dst \<and> src + n > dst then copy_down (dst + n) (src + n) (unat n) m
      else copy_up dst src (unat n) m)"

text \<open>Copying in from and out to a buffer that is not part of this memory.\<close>

definition rd_bytes :: "bytes \<Rightarrow> u32 \<Rightarrow> nat \<Rightarrow> u8 list" where
  "rd_bytes m a n = map (\<lambda>i. m (a + of_nat i)) [0..<n]"

fun wr_bytes :: "u32 \<Rightarrow> u8 list \<Rightarrow> bytes \<Rightarrow> bytes" where
  "wr_bytes a [] m = m"
| "wr_bytes a (b # bs) m = wr_bytes (a + 1) bs (m(a := b))"

section \<open>Strings\<close>

text \<open>A pointer to read from: the byte at each offset.\<close>

type_synonym ptr = "nat \<Rightarrow> u8"

definition at :: "bytes \<Rightarrow> u32 \<Rightarrow> ptr" where
  "at m a = (\<lambda>i. m (a + of_nat i))"

definition of_bytes :: "u8 list \<Rightarrow> ptr" where
  "of_bytes bs = (\<lambda>i. if i < length bs then bs ! i else 0)"

fun memcmp :: "ptr \<Rightarrow> ptr \<Rightarrow> nat \<Rightarrow> int" where
  "memcmp s1 s2 0 = 0"
| "memcmp s1 s2 (Suc n) =
     (if s1 0 \<noteq> s2 0 then uint (s1 0) - uint (s2 0) else memcmp (\<lambda>i. s1 (Suc i)) (\<lambda>i. s2 (Suc i)) n)"

fun strncmp :: "ptr \<Rightarrow> ptr \<Rightarrow> nat \<Rightarrow> int" where
  "strncmp p q 0 = 0"
| "strncmp p q (Suc n) =
     (if p 0 \<noteq> 0 \<and> p 0 = q 0 then strncmp (\<lambda>i. p (Suc i)) (\<lambda>i. q (Suc i)) n else uint (p 0) - uint (q 0))"

text \<open>The \<open>n\<close> bytes that \<open>strncpy\<close> leaves in its target.\<close>

fun strncpy :: "ptr \<Rightarrow> nat \<Rightarrow> u8 list" where
  "strncpy t 0 = []"
| "strncpy t (Suc n) = (if t 0 = 0 then 0 # replicate n 0 else t 0 # strncpy (\<lambda>i. t (Suc i)) n)"

text \<open>The bytes that \<open>safestrcpy\<close> writes, the terminator included; nothing when \<open>n \<le> 0\<close>.\<close>

fun safestrcpy_go :: "ptr \<Rightarrow> nat \<Rightarrow> u8 list" where
  "safestrcpy_go t 0 = [0]"
| "safestrcpy_go t (Suc n) = (if t 0 = 0 then [0, 0] else t 0 # safestrcpy_go (\<lambda>i. t (Suc i)) n)"

definition safestrcpy :: "ptr \<Rightarrow> int \<Rightarrow> u8 list" where
  "safestrcpy t n = (if n \<le> 0 then [] else safestrcpy_go t (nat (n - 1)))"

partial_function (option) strlen_go :: "ptr \<Rightarrow> nat \<Rightarrow> nat option" where
  "strlen_go s n = (if s n = 0 then Some n else strlen_go s (Suc n))"

definition strlen :: "ptr \<Rightarrow> nat option" where
  "strlen s = strlen_go s 0"

section \<open>Loads and stores\<close>

lemma addr_distinct [simp]:
  "a + 1 \<noteq> (a :: u32)" "a + 2 \<noteq> a" "a + 3 \<noteq> a" "a + 1 \<noteq> a + 2" "a + 1 \<noteq> a + 3" "a + 2 \<noteq> a + 3"
  "a \<noteq> a + 1" "a \<noteq> a + 2" "a \<noteq> a + 3" "a + 2 \<noteq> a + 1" "a + 3 \<noteq> a + 1" "a + 3 \<noteq> a + 2"
  by simp_all

lemma word_bytes:
  "ucast (ucast v :: u8) OR push_bit 8 (ucast (ucast (drop_bit 8 v) :: u8)) OR
     push_bit 16 (ucast (ucast (drop_bit 16 v) :: u8)) OR
     push_bit 24 (ucast (ucast (drop_bit 24 v) :: u8)) = (v :: u32)"
proof (rule bit_word_eqI)
  fix n assume "n < LENGTH(32)"
  then have n: "n < 32" by simp
  then show "bit (ucast (ucast v :: u8) OR push_bit 8 (ucast (ucast (drop_bit 8 v) :: u8)) OR
     push_bit 16 (ucast (ucast (drop_bit 16 v) :: u8)) OR
     push_bit 24 (ucast (ucast (drop_bit 24 v) :: u8)) :: u32) n = bit v n"
    by (cases "n < 8"; cases "n < 16"; cases "n < 24")
      (simp_all add: bit_or_iff bit_push_bit_iff bit_ucast_iff bit_drop_bit_eq not_le, arith+)
qed

lemma ld32_st32 [simp]: "ld32 (st32 a v m) a = v"
  by (simp add: ld32_def st32_def word_bytes)

lemma ld32_cong: "(\<And>k. k < 4 \<Longrightarrow> m (a + k) = n (a + k)) \<Longrightarrow> ld32 m a = ld32 n a"
proof -
  assume eq: "\<And>k. k < 4 \<Longrightarrow> m (a + k) = n (a + k)"
  have "m (a + 0) = n (a + 0)" "m (a + 1) = n (a + 1)" "m (a + 2) = n (a + 2)" "m (a + 3) = n (a + 3)"
    by (rule eq, simp)+
  then show ?thesis by (simp add: ld32_def)
qed

lemma st32_other: "(\<And>k. k < 4 \<Longrightarrow> b \<noteq> a + k) \<Longrightarrow> st32 a v m b = m b"
proof -
  assume ne: "\<And>k. k < 4 \<Longrightarrow> b \<noteq> a + k"
  have "b \<noteq> a + 0" "b \<noteq> a + 1" "b \<noteq> a + 2" "b \<noteq> a + 3"
    by (rule ne, simp)+
  then show ?thesis by (simp add: st32_def)
qed

section \<open>Filling and copying\<close>

text \<open>An address is within \<open>n\<close> bytes from \<open>d\<close>, offsets wrapping.\<close>

lemma off_Suc:
  "unat ((a :: u32) - d) < Suc n \<longleftrightarrow> a = d \<or> unat (a - (d + 1)) < n"
  if "n < 4294967296"
proof (cases "a = d")
  case True
  then show ?thesis by simp
next
  case False
  then have "a - d \<noteq> 0" by simp
  then have "unat (a - d - 1) = unat (a - d) - 1" "0 < unat (a - d)"
    by (simp_all add: unat_minus_one unat_gt_0)
  then show ?thesis using False by (auto simp: diff_diff_eq)
qed

lemma off_last:
  "n < 4294967296 \<Longrightarrow> unat ((d :: u32) - (d + 1)) < n \<longleftrightarrow> False"
proof -
  have "d - (d + 1) = - 1" by simp
  then show "n < 4294967296 \<Longrightarrow> ?thesis" by (simp add: unsigned_minus_1_eq_mask mask_eq_exp_minus_1)
qed

lemma stosb_fill:
  "n < 4294967296 \<Longrightarrow> stosb d c n m a = (if unat (a - d) < n then c else m a)"
proof (induction n arbitrary: d m)
  case 0
  then show ?case by simp
next
  case (Suc n)
  then show ?case
    by (cases "a = d") (auto simp: off_Suc off_last simp del: not_less)
qed

lemma stosl_stosb:
  "stosl d (push_bit 24 (ucast c) OR push_bit 16 (ucast c) OR push_bit 8 (ucast c) OR ucast c) n m =
     stosb d (c :: u8) (4 * n) m"
proof (induction n arbitrary: d m)
  case 0
  then show ?case by simp
next
  case (Suc n)
  have b: "(ucast (push_bit 24 (ucast c) OR push_bit 16 (ucast c) OR push_bit 8 (ucast c) OR ucast c :: u32) :: u8) = c"
    "(ucast (drop_bit 8 (push_bit 24 (ucast c) OR push_bit 16 (ucast c) OR push_bit 8 (ucast c) OR ucast c :: u32)) :: u8) = c"
    "(ucast (drop_bit 16 (push_bit 24 (ucast c) OR push_bit 16 (ucast c) OR push_bit 8 (ucast c) OR ucast c :: u32)) :: u8) = c"
    "(ucast (drop_bit 24 (push_bit 24 (ucast c) OR push_bit 16 (ucast c) OR push_bit 8 (ucast c) OR ucast c :: u32)) :: u8) = c"
    by (rule bit_word_eqI, auto simp: bit_or_iff bit_push_bit_iff bit_ucast_iff bit_drop_bit_eq
        dest: bit_imp_le_length)+
  have "stosb d c (4 * Suc n) m =
    stosb (d + 4) c (4 * n) (m(d := c, d + 1 := c, d + 2 := c, d + 3 := c))"
    by (simp add: eval_nat_numeral add.assoc)
  moreover have "st32 d (push_bit 24 (ucast c) OR push_bit 16 (ucast c) OR push_bit 8 (ucast c) OR ucast c) m =
    m(d := c, d + 1 := c, d + 2 := c, d + 3 := c)"
    by (simp only: st32_def b)
  ultimately show ?case by (simp only: stosl.simps Suc.IH)
qed

lemma memset_fill:
  "memset d c n m a = (if unat (a - d) < unat n then ucast c else m a)"
proof (cases "d AND 3 = 0 \<and> n AND 3 = 0")
  case False
  have "unat n < 4294967296" using unat_u32 [of n] by simp
  with False show ?thesis by (auto simp: memset_def stosb_fill)
next
  case True
  have c: "c AND 0xFF = ucast (ucast c :: u8)"
  proof -
    have "c AND 0xFF = take_bit 8 c" by (simp add: take_bit_eq_mask mask_eq_exp_minus_1)
    then show ?thesis
      by (auto intro!: bit_word_eqI simp: bit_take_bit_iff bit_ucast_iff)
  qed
  have "n AND 3 = take_bit 2 n" by (simp add: take_bit_eq_mask mask_eq_exp_minus_1)
  then have "unat n mod 4 = 0"
    using True by (metis numeral_Bit0 one_add_one power2_eq_square take_bit_eq_mod unsigned_0
        unsigned_take_bit_eq mult_2)
  then have "unat n = 4 * unat (n div 4)"
    by (simp add: unat_div_distrib) presburger
  with True show ?thesis
    using unat_u32 [of n] by (simp add: memset_def Let_def c stosl_stosb stosb_fill)
qed

lemma memset_in: "unat (a - d) < unat n \<Longrightarrow> memset d c n m a = ucast c"
  by (simp add: memset_fill)

lemma memset_out: "\<not> unat (a - d) < unat n \<Longrightarrow> memset d c n m a = m a"
  by (simp add: memset_fill)

text \<open>\<open>d\<close> to \<open>d + n\<close> does not go past the top of memory.\<close>

definition no_wrap :: "u32 \<Rightarrow> nat \<Rightarrow> bool" where
  "no_wrap d n \<longleftrightarrow> unat d + n \<le> 4294967296"

lemma unat_add_off: "no_wrap d n \<Longrightarrow> i < n \<Longrightarrow> unat (d + of_nat i) = unat d + i"
  by (simp add: no_wrap_def unat_word_ariths unat_of_nat take_bit_eq_mod)

lemma off_iff:
  assumes "no_wrap d n"
  shows "unat (a - d) < n \<longleftrightarrow> unat d \<le> unat a \<and> unat a < unat d + n"
proof (cases "d \<le> a")
  case True
  then show ?thesis by (auto simp: unat_sub word_le_nat_alt)
next
  case False
  then have "unat a < unat d" by (simp add: word_le_nat_alt not_le)
  moreover have "unat (a - d) = unat a + 4294967296 - unat d"
    using \<open>unat a < unat d\<close> unat_u32 [of d]
    by (simp add: unat_sub_if')
  ultimately show ?thesis
    using assms unat_u32 [of d] by (simp add: no_wrap_def)
qed

lemma copy_up_other:
  "no_wrap d n \<Longrightarrow> unat a < unat d \<or> unat d + n \<le> unat a \<Longrightarrow> copy_up d s n m a = m a"
proof (induction n arbitrary: d s m)
  case 0
  then show ?case by simp
next
  case (Suc n)
  show ?case
  proof (cases n)
    case 0
    with Suc.prems show ?thesis by auto
  next
    case (Suc k)
    then have d1: "unat (d + 1) = unat d + 1"
      using unat_add_off [OF Suc.prems(1), of 1] by simp
    have "no_wrap (d + 1) n" using Suc.prems(1) by (simp add: no_wrap_def d1)
    moreover have "unat a < unat (d + 1) \<or> unat (d + 1) + n \<le> unat a" "a \<noteq> d"
      using Suc.prems(2) by (auto simp: d1)
    ultimately show ?thesis by (simp add: Suc.IH)
  qed
qed

lemma no_wrap_Suc: "no_wrap d (Suc n) \<Longrightarrow> 0 < n \<Longrightarrow> unat (d + 1) = unat d + 1 \<and> no_wrap (d + 1) n"
  using unat_add_off [of d "Suc n" 1] by (simp add: no_wrap_def)

lemma copy_up_in:
  "no_wrap d n \<Longrightarrow> no_wrap s n \<Longrightarrow> unat d \<le> unat s \<or> unat s + n \<le> unat d \<Longrightarrow> i < n \<Longrightarrow>
     copy_up d s n m (d + of_nat i) = m (s + of_nat i)"
proof (induction n arbitrary: d s m i)
  case 0
  then show ?case by simp
next
  case (Suc n)
  show ?case
  proof (cases "n = 0")
    case True
    with Suc.prems show ?thesis by simp
  next
    case False
    then have nz: "0 < n" by simp
    note d = no_wrap_Suc [OF Suc.prems(1) nz] and s = no_wrap_Suc [OF Suc.prems(2) nz]
    show ?thesis
    proof (cases i)
      case 0
      have "copy_up (d + 1) (s + 1) n (m(d := m s)) d = (m(d := m s)) d"
        by (rule copy_up_other) (use d in simp_all)
      with 0 show ?thesis by simp
    next
      case (Suc k)
      have "copy_up (d + 1) (s + 1) n (m(d := m s)) (d + 1 + of_nat k) = (m(d := m s)) (s + 1 + of_nat k)"
        by (rule Suc.IH) (use d s Suc Suc.prems in auto)
      moreover have "s + 1 + of_nat k \<noteq> d"
      proof
        assume "s + 1 + of_nat k = d"
        moreover have "unat (s + 1 + of_nat k) = unat s + 1 + k"
          using s unat_add_off [of "s + 1" n k] Suc Suc.prems(4) by simp
        ultimately show False using Suc Suc.prems(3,4) by auto
      qed
      ultimately show ?thesis using Suc by (simp add: add.assoc)
    qed
  qed
qed

lemma copy_down_other:
  "unat (a - (d - of_nat n)) \<ge> n \<Longrightarrow> n < 4294967296 \<Longrightarrow> copy_down d s n m a = m a"
proof (induction n arbitrary: d s m)
  case 0
  then show ?case by simp
next
  case (Suc n)
  have "unat (a - (d - 1 - of_nat n)) \<ge> n"
    using Suc.prems(1) by (simp add: algebra_simps)
  moreover have "a \<noteq> d - 1"
  proof
    assume "a = d - 1"
    then have "a - (d - of_nat (Suc n)) = of_nat n" by simp
    moreover have "unat (of_nat n :: u32) = n"
      using Suc.prems(2) by (simp add: unat_of_nat take_bit_eq_mod)
    ultimately show False using Suc.prems(1) by (metis Suc_n_not_le_n)
  qed
  ultimately show ?case using Suc by simp
qed

lemma copy_down_in:
  "no_wrap d n \<Longrightarrow> no_wrap s n \<Longrightarrow> unat s \<le> unat d \<Longrightarrow> i < n \<Longrightarrow>
     copy_down (d + of_nat n) (s + of_nat n) n m (d + of_nat i) = m (s + of_nat i)"
proof (induction n arbitrary: m i)
  case 0
  then show ?case by simp
next
  case (Suc n)
  let ?m = "m(d + of_nat n := m (s + of_nat n))"
  have le: "no_wrap d n" "no_wrap s n" using Suc.prems(1,2) by (simp_all add: no_wrap_def)
  have n32: "n < 4294967296" using Suc.prems(1) by (simp add: no_wrap_def)
  show ?case
  proof (cases "i = n")
    case True
    have "copy_down (d + of_nat n) (s + of_nat n) n ?m (d + of_nat n) = ?m (d + of_nat n)"
      by (rule copy_down_other) (use n32 in \<open>simp_all add: unat_of_nat take_bit_eq_mod\<close>)
    with True show ?thesis by (simp add: algebra_simps)
  next
    case False
    then have i: "i < n" using Suc.prems(4) by simp
    have "s + of_nat i \<noteq> d + of_nat n"
    proof
      assume "s + of_nat i = d + of_nat n"
      then have "unat s + i = unat d + n"
        using unat_add_off [OF Suc.prems(1), of n] unat_add_off [OF Suc.prems(2), of i] i by simp
      with Suc.prems(3) i show False by simp
    qed
    with Suc.IH [OF le Suc.prems(3) i, of ?m] show ?thesis
      by (simp add: algebra_simps del: fun_upd_apply) simp
  qed
qed

lemma memmove_both:
  assumes "no_wrap dst (unat n)" and "no_wrap src (unat n)"
    and "unat src + unat n < 4294967296"
  shows "(\<forall>i < unat n. memmove dst src n m (dst + of_nat i) = m (src + of_nat i)) \<and>
    (\<forall>a. unat n \<le> unat (a - dst) \<longrightarrow> memmove dst src n m a = m a)"
proof -
  have n: "of_nat (unat n) = n" by simp
  have sn: "unat (src + n) = unat src + unat n"
    using assms(3) by (simp add: unat_word_ariths)
  show ?thesis
  proof (cases "src < dst \<and> src + n > dst")
    case True
    then have "unat src \<le> unat dst" by (simp add: word_less_nat_alt)
    then have "copy_down (dst + n) (src + n) (unat n) m (dst + of_nat i) = m (src + of_nat i)"
      if "i < unat n" for i
      using copy_down_in [OF assms(1,2) _ that] by (simp add: n)
    moreover have "copy_down (dst + n) (src + n) (unat n) m a = m a" if "unat n \<le> unat (a - dst)" for a
      by (rule copy_down_other) (use that unat_u32 [of n] in \<open>simp_all add: n\<close>)
    ultimately show ?thesis using True by (simp add: memmove_def)
  next
    case False
    then have apart: "unat dst \<le> unat src \<or> unat src + unat n \<le> unat dst"
      by (auto simp: word_less_nat_alt word_le_nat_alt sn not_less)
    have "copy_up dst src (unat n) m a = m a" if "unat n \<le> unat (a - dst)" for a
    proof (cases "unat n = 0")
      case nz: False
      have "unat a < unat dst \<or> unat dst + unat n \<le> unat a"
        using that off_iff [OF assms(1), of a] by auto
      then show ?thesis by (rule copy_up_other [OF assms(1)])
    qed simp
    with False copy_up_in [OF assms(1,2) apart] show ?thesis by (auto simp: memmove_def)
  qed
qed

text \<open>
  \<open>memmove\<close> copies as if through a temporary, whatever the overlap, and changes nothing
  outside the target: for ranges that do not run past the top of memory, byte \<open>i\<close> of the target is
  byte \<open>i\<close> of the source as it was.
\<close>

lemma memmove_copies:
  assumes "no_wrap dst (unat n)" and "no_wrap src (unat n)"
    and "unat src + unat n < 4294967296"
  shows "(\<forall>i < unat n. memmove dst src n m (dst + of_nat i) = m (src + of_nat i)) \<and>
    (\<forall>a. unat n \<le> unat (a - dst) \<longrightarrow> memmove dst src n m a = m a)"
  using memmove_both [OF assms] by blast

lemma memmove_copies_witness:
  "memmove 104 100 8 (\<lambda>a. ucast a) 104 = 100 \<and> memmove 104 100 8 (\<lambda>a. ucast a) 111 = 107 \<and>
   memmove 104 100 8 (\<lambda>a. ucast a) 112 = 112"
  using memmove_copies [of 104 8 100 "\<lambda>a. ucast a"]
  by (auto simp: no_wrap_def dest: spec [of _ 0] spec [of _ 7] spec [of _ "112 :: u32"])

lemma memmove_in:
  "no_wrap d (unat n) \<Longrightarrow> no_wrap s (unat n) \<Longrightarrow> unat s + unat n < 4294967296 \<Longrightarrow> i < unat n \<Longrightarrow>
     memmove d s n m (d + of_nat i) = m (s + of_nat i)"
  using memmove_both [of d n s m] by blast

lemma wr_bytes_other:
  "length bs < 4294967296 \<Longrightarrow> length bs \<le> unat (a - d) \<Longrightarrow> wr_bytes d bs m a = m a"
proof (induction bs arbitrary: d m)
  case Nil
  then show ?case by simp
next
  case (Cons b bs)
  then have "a \<noteq> d" by auto
  moreover have "length bs \<le> unat (a - (d + 1))"
    using Cons.prems off_Suc [of "length bs" a d] \<open>a \<noteq> d\<close> by (auto simp: not_less)
  ultimately show ?case using Cons by simp
qed

section \<open>Strings\<close>

lemma strncpy_length [simp]: "length (strncpy t n) = n"
  by (induction n arbitrary: t) simp_all

lemma strncpy_nth:
  "i < n \<Longrightarrow> strncpy t n ! i = (if \<exists>j \<le> i. t j = 0 then 0 else t i)"
proof (induction n arbitrary: t i)
  case 0
  then show ?case by simp
next
  case (Suc n)
  show ?case
  proof (cases i)
    case 0
    then show ?thesis by simp
  next
    case (Suc k)
    have "(\<exists>j \<le> Suc k. t j = 0) \<longleftrightarrow> t 0 = 0 \<or> (\<exists>j \<le> k. t (Suc j) = 0)"
      by (metis Suc_le_mono gr0_conv_Suc le0 not_gr_zero)
    with Suc Suc.IH [of k "\<lambda>i. t (Suc i)"] Suc.prems show ?thesis by auto
  qed
qed

lemma strncmp_eq:
  "strncmp p q n = 0 \<longleftrightarrow> (\<forall>i < n. (\<forall>j < i. p j \<noteq> 0) \<longrightarrow> p i = q i)"
proof (induction n arbitrary: p q)
  case 0
  then show ?case by simp
next
  case (Suc n)
  show ?case
  proof (cases "p 0 \<noteq> 0 \<and> p 0 = q 0")
    case True
    then show ?thesis using Suc.IH [of "\<lambda>i. p (Suc i)" "\<lambda>i. q (Suc i)"] by (auto simp: All_less_Suc2)
  next
    case False
    then have "uint (p 0) - uint (q 0) = 0 \<longleftrightarrow> p 0 = q 0" "p 0 = q 0 \<Longrightarrow> p 0 = 0"
      by (auto simp: word_uint_eq_iff)
    with False show ?thesis by (auto simp: All_less_Suc2)
  qed
qed

lemma memcmp_eq: "memcmp p q n = 0 \<longleftrightarrow> (\<forall>i < n. p i = q i)"
  by (induction n arbitrary: p q) (auto simp: All_less_Suc2 word_uint_eq_iff)

lemma safestrcpy_terminated:
  "0 < n \<Longrightarrow> safestrcpy t n \<noteq> [] \<and> last (safestrcpy t n) = 0 \<and> int (length (safestrcpy t n)) \<le> n"
proof -
  have "safestrcpy_go t k \<noteq> [] \<and> last (safestrcpy_go t k) = 0 \<and> length (safestrcpy_go t k) \<le> Suc k" for k
    by (induction k arbitrary: t) auto
  from this [of "nat (n - 1)"] show "0 < n \<Longrightarrow> ?thesis" by (auto simp: safestrcpy_def)
qed

lemma strlen_go_finds: "s m = 0 \<Longrightarrow> \<forall>k. n \<le> k \<and> k < m \<longrightarrow> s k \<noteq> 0 \<Longrightarrow> n \<le> m \<Longrightarrow> strlen_go s n = Some m"
proof (induction "m - n" arbitrary: n)
  case 0
  then show ?case by (subst strlen_go.simps) simp
next
  case (Suc d)
  then have "n < m" "s n \<noteq> 0" by auto
  with Suc show ?case by (subst strlen_go.simps) auto
qed

lemma strlen_go_Some:
  assumes "strlen_go s n = Some m"
  shows "n \<le> m \<and> s m = 0 \<and> (\<forall>k. n \<le> k \<and> k < m \<longrightarrow> s k \<noteq> 0)"
proof (rule strlen_go.raw_induct [OF _ assms])
  fix go :: "ptr \<Rightarrow> nat \<Rightarrow> nat option" and s n m
  assume IH: "\<And>s n m. go s n = Some m \<Longrightarrow> n \<le> m \<and> s m = 0 \<and> (\<forall>k. n \<le> k \<and> k < m \<longrightarrow> s k \<noteq> 0)"
    and eq: "(if s n = 0 then Some n else go s (Suc n)) = Some m"
  show "n \<le> m \<and> s m = 0 \<and> (\<forall>k. n \<le> k \<and> k < m \<longrightarrow> s k \<noteq> 0)"
  proof (cases "s n = 0")
    case True
    with eq show ?thesis by auto
  next
    case False
    with eq have *: "Suc n \<le> m \<and> s m = 0 \<and> (\<forall>k. Suc n \<le> k \<and> k < m \<longrightarrow> s k \<noteq> 0)"
      using IH [of s "Suc n" m] by simp
    then have "s k \<noteq> 0" if "n \<le> k" "k < m" for k
      using that False by (cases "k = n") auto
    with * show ?thesis by auto
  qed
qed

lemma strlen_Some: "strlen s = Some n \<longleftrightarrow> s n = 0 \<and> (\<forall>k < n. s k \<noteq> 0)"
proof
  assume "strlen s = Some n"
  then show "s n = 0 \<and> (\<forall>k < n. s k \<noteq> 0)"
    unfolding strlen_def by (blast dest: strlen_go_Some)
next
  assume "s n = 0 \<and> (\<forall>k < n. s k \<noteq> 0)"
  then show "strlen s = Some n"
    unfolding strlen_def by (intro strlen_go_finds) auto
qed

end
