(* ===== verification/Kalloc.thy ===== *)
theory Kalloc
  imports Cmem Ptable
begin

text \<open>
  kernel/kalloc.c: the page allocator. Its free list is threaded through the free pages
  themselves: the first word of a free page is the address of the next one. The refinement is
  against the list of free pages \<open>free_chain\<close> reads off memory; the contract is the locale
  \<open>allocator\<close>, also used for the other tables of the kernel that hand out entries.
\<close>

unbundle bit_operations_syntax

section \<open>State and constants\<close>

definition PGSIZE :: u32 where "PGSIZE = 4096"
definition PHYSTOP :: u32 where "PHYSTOP = 0xE000000"

definition PGROUNDUP :: "u32 \<Rightarrow> u32" where
  "PGROUNDUP sz = (sz + PGSIZE - 1) AND NOT (PGSIZE - 1)"

definition PGROUNDDOWN :: "u32 \<Rightarrow> u32" where
  "PGROUNDDOWN a = a AND NOT (PGSIZE - 1)"

text \<open>
  Two symbols of the linker script: \<open>kend\<close> is \<open>end\<close>, the first address after the loaded kernel,
  and \<open>kdata\<close> is \<open>data\<close>, where its writable data starts.
\<close>

record kmem = pt +
  mem :: bytes
  use_lock :: bool
  freelist :: u32
  kend :: u32
  kdata :: u32

section \<open>Operations\<close>

definition kfree :: "u32 \<Rightarrow> (unit, 'z kmem_scheme) K" where
  "kfree v = kbind (kget kend) (\<lambda>e.
     if v mod PGSIZE \<noteq> 0 \<or> v < e \<or> PHYSTOP \<le> v2p v then kpanic ''kfree''
     else kseq (kmod (mem_update (memset v 1 PGSIZE)))
       (kbind (kget use_lock) (\<lambda>locking. kblock
         [kwhen locking (acq LKmem),
          kmod (\<lambda>s. s\<lparr>mem := st32 v (freelist s) (mem s)\<rparr>),
          kmod (\<lambda>s. s\<lparr>freelist := v\<rparr>),
          kwhen locking (rel LKmem)])))"

definition kalloc :: "(u32, 'z kmem_scheme) K" where
  "kalloc = kbind (kget use_lock) (\<lambda>locking.
     kseq (kwhen locking (acq LKmem))
     (kbind (kget freelist) (\<lambda>r.
      kseq (kwhen (r \<noteq> 0) (kmod (\<lambda>s. s\<lparr>freelist := ld32 (mem s) r\<rparr>)))
      (kseq (kwhen locking (rel LKmem)) (kret r)))))"

text \<open>
  The loop of \<open>freerange\<close> frees one page a turn; there are \<open>2 ^ 20\<close> pages, and a page at the top of
  the address space is refused by \<open>kfree\<close>, so \<open>2 ^ 20\<close> turns are enough.
\<close>

definition freerange :: "u32 \<Rightarrow> u32 \<Rightarrow> (unit, 'z kmem_scheme) K" where
  "freerange vstart vend = kloop 1048577 (\<lambda>p.
     if p + PGSIZE \<le> vend then kseq (kfree p) (kret (Inl (p + PGSIZE))) else kret (Inr ()))
     (PGROUNDUP vstart)"

definition kinit1 :: "u32 \<Rightarrow> u32 \<Rightarrow> (unit, 'z kmem_scheme) K" where
  "kinit1 vstart vend = kseq (kmod (use_lock_update (\<lambda>_. False))) (freerange vstart vend)"

definition kinit2 :: "u32 \<Rightarrow> u32 \<Rightarrow> (unit, 'z kmem_scheme) K" where
  "kinit2 vstart vend = kseq (freerange vstart vend) (kmod (use_lock_update (\<lambda>_. True)))"

section \<open>Pages\<close>

lemma page_mask: "NOT (PGSIZE - 1) = (NOT (mask 12) :: u32)"
  by (simp add: PGSIZE_def mask_eq_exp_minus_1)

lemma unat_down: "unat (PGROUNDDOWN a) = unat a div 4096 * 4096"
proof -
  have "PGROUNDDOWN a = push_bit 12 (drop_bit 12 a)"
    unfolding PGROUNDDOWN_def page_mask
    by (rule bit_word_eqI) (auto simp: bit_and_iff bit_not_iff bit_mask_iff bit_push_bit_iff bit_drop_bit_eq not_less)
  moreover have "take_bit 32 (unat a) = unat a" using unat_u32 [of a] by (simp add: take_bit_nat_eq_self)
  ultimately have "unat (PGROUNDDOWN a) = take_bit 32 (unat a div 4096 * 4096)"
    by (simp only: unsigned_push_bit_eq unsigned_drop_bit_eq) (simp add: push_bit_eq_mult drop_bit_eq_div)
  moreover have "unat a div 4096 * 4096 < 4294967296"
    using unat_u32 [of a] div_times_less_eq_dividend [of "unat a" 4096] by linarith
  ultimately show ?thesis by (simp add: take_bit_nat_eq_self)
qed

lemma page_mod: "(v :: u32) mod PGSIZE = 0 \<longleftrightarrow> unat v mod 4096 = 0"
  by (simp add: PGSIZE_def word_unat_eq_iff unat_mod_distrib)

lemma down_aligned: "PGROUNDDOWN v = v \<longleftrightarrow> v mod PGSIZE = 0"
  unfolding word_unat_eq_iff [of "PGROUNDDOWN v"] unat_down page_mod
  by (metis div_mult_mod_eq mod_mult_self2_is_0 add_0_right)

definition page_ok :: "'z kmem_scheme \<Rightarrow> u32 \<Rightarrow> bool" where
  "page_ok s v \<longleftrightarrow> v mod PGSIZE = 0 \<and> kend s \<le> v \<and> v2p v < PHYSTOP"

text \<open>An address is in the page that starts at its rounded-down address.\<close>

lemma aligned_no_wrap: "v mod PGSIZE = 0 \<Longrightarrow> no_wrap v 4096"
proof -
  assume "v mod PGSIZE = 0"
  then obtain k where k: "unat v = 4096 * k" by (auto simp: page_mod)
  then have "4096 * k < 4096 * 1048576" using unat_u32 [of v] by simp
  then have "k < 1048576" by simp
  then show ?thesis by (simp add: no_wrap_def k)
qed

lemma in_page_iff:
  assumes "v mod PGSIZE = 0"
  shows "unat (a - v) < 4096 \<longleftrightarrow> PGROUNDDOWN a = v"
proof -
  obtain k where k: "unat v = k * 4096" using assms by (auto simp: page_mod)
  have "unat v \<le> unat a \<and> unat a < unat v + 4096 \<longleftrightarrow> unat a div 4096 = k"
    unfolding k by (auto intro: div_nat_eqI simp: mult.commute)
  then have "unat v \<le> unat a \<and> unat a < unat v + 4096 \<longleftrightarrow> unat a div 4096 * 4096 = unat v"
    by (simp add: k)
  then show ?thesis
    by (simp add: off_iff [OF aligned_no_wrap [OF assms]] word_unat_eq_iff [of "PGROUNDDOWN a"] unat_down)
qed

lemma page_off: "v mod PGSIZE = 0 \<Longrightarrow> k < 4096 \<Longrightarrow> PGROUNDDOWN (v + k) = v"
  by (subst in_page_iff [symmetric]) (simp_all add: word_less_nat_alt)

lemma memset_page: "memset v c PGSIZE m a = (if unat (a - v) < 4096 then ucast c else m a)"
  by (simp add: memset_fill PGSIZE_def)

section \<open>The free list\<close>

fun free_chain :: "bytes \<Rightarrow> u32 \<Rightarrow> u32 list \<Rightarrow> bool" where
  "free_chain m p [] = (p = 0)"
| "free_chain m p (q # qs) = (p = q \<and> p \<noteq> 0 \<and> free_chain m (ld32 m p) qs)"

definition kmem_ok :: "'z kmem_scheme \<Rightarrow> u32 list \<Rightarrow> bool" where
  "kmem_ok s ps \<longleftrightarrow> free_chain (mem s) (freelist s) ps \<and> distinct ps \<and>
     (\<forall>p \<in> set ps. page_ok s p) \<and> kend s \<noteq> 0 \<and> LKmem \<notin> set (held s)"

lemma free_chain_functional: "free_chain m p ps \<Longrightarrow> free_chain m p qs \<Longrightarrow> ps = qs"
proof (induction ps arbitrary: p qs)
  case Nil
  then show ?case by (cases qs) auto
next
  case (Cons a ps)
  then show ?case by (cases qs) auto
qed

lemma free_chain_cong:
  "(\<And>p k. p \<in> set ps \<Longrightarrow> k < 4 \<Longrightarrow> m (p + k) = n (p + k)) \<Longrightarrow> free_chain m h ps = free_chain n h ps"
proof (induction ps arbitrary: h)
  case Nil
  then show ?case by simp
next
  case (Cons p ps)
  then have "ld32 m p = ld32 n p" by (intro ld32_cong) simp
  moreover have "free_chain m h' ps = free_chain n h' ps" for h'
    by (rule Cons.IH) (simp add: Cons.prems)
  ultimately show ?case by (cases "h = p") simp_all
qed

text \<open>What the rest of memory sees of an operation: only the page \<open>v\<close> changes.\<close>

definition same_outside :: "u32 \<Rightarrow> bytes \<Rightarrow> bytes \<Rightarrow> bool" where
  "same_outside v m n \<longleftrightarrow> (\<forall>a. PGROUNDDOWN a \<noteq> v \<longrightarrow> m a = n a)"

lemma kmem_ok_set: "kmem_ok s ps \<Longrightarrow> kmem_ok s qs \<Longrightarrow> ps = qs"
  by (auto simp: kmem_ok_def intro: free_chain_functional)

text \<open>Distinct pages do not share an address, so a store to one leaves the others' links.\<close>

lemma free_chain_outside:
  assumes "\<forall>p \<in> set ps. p mod PGSIZE = 0 \<and> p \<noteq> v" and "same_outside v m n"
  shows "free_chain m h ps = free_chain n h ps"
proof (rule free_chain_cong)
  fix p k :: u32 assume p: "p \<in> set ps" and "k < 4"
  then have "k < 4096" by (simp add: word_less_nat_alt)
  then have "PGROUNDDOWN (p + k) = p" using assms(1) p by (intro page_off) auto
  then have "PGROUNDDOWN (p + k) \<noteq> v" using assms(1) p by auto
  then show "m (p + k) = n (p + k)" using assms(2) by (simp add: same_outside_def)
qed

lemma same_outside_st32: "v mod PGSIZE = 0 \<Longrightarrow> same_outside v (st32 v w m) m"
  unfolding same_outside_def
proof (intro allI impI)
  fix a assume v: "v mod PGSIZE = 0" and a: "PGROUNDDOWN a \<noteq> v"
  show "st32 v w m a = m a"
  proof (rule st32_other)
    fix k :: u32 assume "k < 4"
    then have "k < 4096" by (simp add: word_less_nat_alt)
    then have "PGROUNDDOWN (v + k) = v" by (rule page_off [OF v])
    with a show "a \<noteq> v + k" by auto
  qed
qed

lemma same_outside_memset: "v mod PGSIZE = 0 \<Longrightarrow> same_outside v (memset v c PGSIZE m) m"
  by (simp add: same_outside_def memset_page in_page_iff)

lemma same_outside_trans: "same_outside v m n \<Longrightarrow> same_outside v n k \<Longrightarrow> same_outside v m k"
  by (simp add: same_outside_def)

lemma same_outside_refl [simp]: "same_outside v m m"
  by (simp add: same_outside_def)

section \<open>What kalloc and kfree do to the free list\<close>

text \<open>Everything of the kernel state but memory and the free list.\<close>

definition same_kernel :: "'z kmem_scheme \<Rightarrow> 'z kmem_scheme \<Rightarrow> bool" where
  "same_kernel t s \<longleftrightarrow> (\<exists>m f. t = s\<lparr>mem := m, freelist := f\<rparr>)"

lemma same_kernel_sel:
  assumes "same_kernel t s"
  shows "procs t = procs s" "held t = held s" "curproc t = curproc s" "kend t = kend s"
    "use_lock t = use_lock s" "ticks t = ticks s" "random_int t = random_int s" "nextpid t = nextpid s"
    "initproc t = initproc s" "kdata t = kdata s"
  using assms by (auto simp: same_kernel_def)

lemma same_kernel_refl [simp]: "same_kernel s s"
  unfolding same_kernel_def by (rule exI [of _ "mem s"], rule exI [of _ "freelist s"]) (cases s, simp)

lemma same_kernel_trans: "same_kernel s t \<Longrightarrow> same_kernel t u \<Longrightarrow> same_kernel s u"
proof -
  assume "same_kernel s t" "same_kernel t u"
  then obtain m f n g where "s = t\<lparr>mem := m, freelist := f\<rparr>" "t = u\<lparr>mem := n, freelist := g\<rparr>"
    unfolding same_kernel_def by blast
  then have "s = u\<lparr>mem := m, freelist := f\<rparr>" by simp
  then show ?thesis unfolding same_kernel_def by blast
qed

lemma same_kernel_mem: "same_kernel u s \<Longrightarrow> same_kernel (u\<lparr>mem := m\<rparr>) s"
proof -
  assume "same_kernel u s"
  then obtain n f where "u = s\<lparr>mem := n, freelist := f\<rparr>" unfolding same_kernel_def by blast
  then have "u\<lparr>mem := m\<rparr> = s\<lparr>mem := m, freelist := f\<rparr>" by simp
  then show ?thesis unfolding same_kernel_def by blast
qed

lemma page_ok_cong: "kend t = kend s \<Longrightarrow> page_ok t p = page_ok s p"
  by (simp add: page_ok_def)

lemma kalloc_empty: "kmem_ok s [] \<Longrightarrow> kalloc s = Ok 0 s"
  by (auto simp: kmem_ok_def kalloc_def kseq_def kbind_def acq_apply rel_apply)

lemma kalloc_takes:
  assumes "kmem_ok s (p # ps)"
  shows "\<exists>t. kalloc s = Ok p t \<and> kmem_ok t ps \<and> mem t = mem s \<and> same_kernel t s"
proof -
  let ?t = "s\<lparr>freelist := ld32 (mem s) p\<rparr>"
  have "kalloc s = Ok p ?t"
    using assms by (auto simp: kmem_ok_def kalloc_def kseq_def kbind_def acq_apply rel_apply)
  moreover have "same_kernel ?t s"
    unfolding same_kernel_def
    by (rule exI [of _ "mem s"], rule exI [of _ "ld32 (mem s) p"]) (cases s, simp)
  moreover have "kmem_ok ?t ps" using assms by (auto simp: kmem_ok_def page_ok_def)
  ultimately show ?thesis by (intro exI [of _ ?t]) simp
qed

lemma kfree_gives:
  assumes "kmem_ok s ps" and "page_ok s v" and "v \<notin> set ps"
  shows "\<exists>t. kfree v s = Ok () t \<and> kmem_ok t (v # ps) \<and> same_outside v (mem t) (mem s) \<and> same_kernel t s"
proof -
  let ?m = "st32 v (freelist s) (memset v 1 PGSIZE (mem s))"
  let ?t = "s\<lparr>mem := ?m, freelist := v\<rparr>"
  have v: "v mod PGSIZE = 0" "kend s \<le> v" "\<not> PHYSTOP \<le> v2p v" "v \<noteq> 0"
    using assms(1,2) by (auto simp: page_ok_def kmem_ok_def)
  have run: "kfree v s = Ok () ?t"
    using v assms(1) by (auto simp: kmem_ok_def kfree_def kseq_def kbind_def acq_apply rel_apply)
  have out: "same_outside v ?m (mem s)"
    by (rule same_outside_trans [OF same_outside_st32 same_outside_memset]) (rule v(1))+
  have "free_chain ?m (freelist s) ps"
    using free_chain_outside [OF _ out] assms by (auto simp: kmem_ok_def page_ok_def)
  then have "kmem_ok ?t (v # ps)"
    using assms v by (auto simp: kmem_ok_def page_ok_def)
  moreover have "same_kernel ?t s" by (auto simp: same_kernel_def)
  ultimately show ?thesis using run out by (intro exI [of _ ?t]) simp
qed

lemma kfree_rejects: "\<not> page_ok s v \<Longrightarrow> kfree v s = Panic ''kfree''"
  by (auto simp: kfree_def page_ok_def)

text \<open>
  A second \<open>kfree\<close> of a page on the list: nothing notices, and the new link of the page leads back
  to the page itself, so that the list has no end.
\<close>

lemma free_chain_prefix:
  assumes "free_chain m h (qs @ v # rs)" and "\<And>q. q \<in> set qs \<Longrightarrow> ld32 n q = ld32 m q" and "free_chain n h xs"
  shows "\<exists>ys. xs = qs @ ys \<and> free_chain n v ys"
  using assms
proof (induction qs arbitrary: h xs)
  case Nil
  then show ?case by simp
next
  case (Cons q qs)
  then obtain zs where xs: "xs = q # zs" by (cases xs) auto
  have "free_chain n (ld32 m q) zs" using Cons.prems xs by auto
  then have "\<exists>ys. zs = qs @ ys \<and> free_chain n v ys"
    using Cons.IH [of "ld32 m q" zs] Cons.prems by auto
  then show ?case by (simp add: xs)
qed

lemma kfree_twice:
  assumes "kmem_ok s ps" and "v \<in> set ps"
  shows "\<exists>t. kfree v s = Ok () t \<and> freelist t = v \<and> same_kernel t s \<and> (\<forall>xs. \<not> free_chain (mem t) v xs)"
proof -
  let ?m = "st32 v (freelist s) (memset v 1 PGSIZE (mem s))"
  let ?t = "s\<lparr>mem := ?m, freelist := v\<rparr>"
  have v: "v mod PGSIZE = 0" "kend s \<le> v" "\<not> PHYSTOP \<le> v2p v" "v \<noteq> 0"
    using assms by (auto simp: page_ok_def kmem_ok_def)
  have run: "kfree v s = Ok () ?t"
    using v assms(1) by (auto simp: kmem_ok_def kfree_def kseq_def kbind_def acq_apply rel_apply)
  obtain qs rs where ps: "ps = qs @ v # rs" and new: "v \<notin> set qs" using split_list_first [OF assms(2)] by blast
  have out: "same_outside v ?m (mem s)"
    by (rule same_outside_trans [OF same_outside_st32 same_outside_memset]) (rule v(1))+
  have links: "ld32 ?m q = ld32 (mem s) q" if q: "q \<in> set qs" for q
  proof (rule ld32_cong)
    fix k :: u32 assume "k < 4"
    then have "k < 4096" by (simp add: word_less_nat_alt)
    moreover have "q mod PGSIZE = 0" using assms(1) q by (auto simp: ps kmem_ok_def page_ok_def)
    ultimately have "PGROUNDDOWN (q + k) = q" by (intro page_off)
    then show "?m (q + k) = mem s (q + k)" using out q new unfolding same_outside_def by metis
  qed
  have "\<not> free_chain ?m v xs" for xs
  proof
    assume xs: "free_chain ?m v xs"
    then obtain zs where zs: "xs = v # zs" "free_chain ?m (freelist s) zs" using v(4) by (cases xs) auto
    have "free_chain (mem s) (freelist s) (qs @ v # rs)" using assms(1) by (simp add: kmem_ok_def ps)
    from free_chain_prefix [OF this links zs(2)] obtain ys where ys: "zs = qs @ ys" "free_chain ?m v ys" by blast
    have "xs = ys" by (rule free_chain_functional [OF xs ys(2)])
    then show False using arg_cong [OF zs(1), of length] by (simp add: ys(1))
  qed
  moreover have "same_kernel ?t s" by (auto simp: same_kernel_def)
  ultimately show ?thesis using run by (intro exI [of _ ?t]) simp
qed

section \<open>The allocator contract\<close>

text \<open>
  An allocator of anonymous entries: what is available, what may be given back, and what the
  two operations do to them. The clients' facts are that two allocations differ, that giving back
  what was just allocated undoes the allocation, and that \<open>n\<close> allocations hand out \<open>n\<close> different
  entries as long as there are that many.
\<close>

locale allocator =
  fixes alloc :: "('r option, 's) K"
    and give :: "'r \<Rightarrow> (unit, 's) K"
    and avail :: "'s \<Rightarrow> 'r set"
    and valid :: "'s \<Rightarrow> 'r set"
    and ok :: "'s \<Rightarrow> bool"
  assumes alloc_none: "ok s \<Longrightarrow> avail s = {} \<Longrightarrow> alloc s = Ok None s"
    and alloc_some: "ok s \<Longrightarrow> avail s \<noteq> {} \<Longrightarrow> \<exists>r t. alloc s = Ok (Some r) t \<and> r \<in> avail s \<and>
      avail t = avail s - {r} \<and> valid t = valid s \<and> ok t"
    and give_back: "ok s \<Longrightarrow> r \<in> valid s \<Longrightarrow> r \<notin> avail s \<Longrightarrow>
      \<exists>t. give r s = Ok () t \<and> avail t = insert r (avail s) \<and> valid t = valid s \<and> ok t"
    and avail_valid: "ok s \<Longrightarrow> avail s \<subseteq> valid s"
begin

lemma alloc_give:
  assumes "ok s" and "avail s \<noteq> {}"
  shows "\<exists>r t u. alloc s = Ok (Some r) t \<and> give r t = Ok () u \<and> avail u = avail s \<and> ok u"
proof -
  obtain r t where t: "alloc s = Ok (Some r) t" "r \<in> avail s" "avail t = avail s - {r}"
    "valid t = valid s" "ok t"
    using alloc_some [OF assms] by blast
  moreover have "r \<in> valid t" using t avail_valid [OF assms(1)] by auto
  ultimately obtain u where "give r t = Ok () u" "avail u = insert r (avail t)" "ok u"
    using give_back [of t r] by auto
  with t show ?thesis by (metis insert_Diff)
qed

fun alloc_n :: "nat \<Rightarrow> ('r list, 's) K" where
  "alloc_n 0 = kret []"
| "alloc_n (Suc n) = kbind alloc (\<lambda>r. case r of None \<Rightarrow> kret []
     | Some x \<Rightarrow> kbind (alloc_n n) (\<lambda>xs. kret (x # xs)))"

lemma alloc_n_distinct:
  assumes "ok s" and "finite (avail s)"
  shows "\<exists>xs t. alloc_n n s = Ok xs t \<and> distinct xs \<and> set xs \<subseteq> avail s \<and>
    length xs = min n (card (avail s)) \<and> avail t = avail s - set xs \<and> ok t"
  using assms
proof (induction n arbitrary: s)
  case 0
  then show ?case by simp
next
  case (Suc n)
  show ?case
  proof (cases "avail s = {}")
    case True
    then show ?thesis using alloc_none [OF Suc.prems(1)] Suc.prems(1) by (simp add: kbind_def)
  next
    case False
    obtain r t where t: "alloc s = Ok (Some r) t" "r \<in> avail s" "avail t = avail s - {r}" "ok t"
      using alloc_some [OF Suc.prems(1) False] by blast
    obtain xs u where u: "alloc_n n t = Ok xs u" "distinct xs" "set xs \<subseteq> avail t"
      "length xs = min n (card (avail t))" "avail u = avail t - set xs" "ok u"
      using Suc.IH [OF t(4)] t(3) Suc.prems(2) by auto
    have "card (avail s) = Suc (card (avail t))"
      using t(2,3) Suc.prems(2) by (metis card.remove)
    then show ?thesis
      using t u by (intro exI [of _ "r # xs"] exI [of _ u]) (auto simp: kbind_def)
  qed
qed

end

text \<open>The page allocator's instance.\<close>

definition kalloc_opt :: "(u32 option, 'z kmem_scheme) K" where
  "kalloc_opt = kbind kalloc (\<lambda>p. kret (if p = 0 then None else Some p))"

definition free_pages :: "'z kmem_scheme \<Rightarrow> u32 set" where
  "free_pages s = {p. \<exists>ps. kmem_ok s ps \<and> p \<in> set ps}"

lemma free_pages_eq: "kmem_ok s ps \<Longrightarrow> free_pages s = set ps"
  by (auto simp: free_pages_def dest: kmem_ok_set)

interpretation pages: allocator kalloc_opt kfree free_pages "\<lambda>s. {p. page_ok s p}" "\<lambda>s. \<exists>ps. kmem_ok s ps"
proof
  fix s assume "\<exists>ps. kmem_ok s ps" "free_pages s = {}"
  then have "kmem_ok s []" using free_pages_eq by fastforce
  then show "kalloc_opt s = Ok None s" by (simp add: kalloc_opt_def kbind_def kalloc_empty)
next
  fix s assume "\<exists>ps. kmem_ok s ps" "free_pages s \<noteq> {}"
  then obtain p ps where ps: "kmem_ok s (p # ps)"
    by (metis free_pages_eq list.exhaust list.set(1))
  then obtain t where t: "kalloc s = Ok p t" "kmem_ok t ps" "same_kernel t s"
    using kalloc_takes by blast
  have "p \<noteq> 0" "p \<notin> set ps" using ps by (auto simp: kmem_ok_def)
  with t ps show "\<exists>r t. kalloc_opt s = Ok (Some r) t \<and> r \<in> free_pages s \<and>
      free_pages t = free_pages s - {r} \<and> {p. page_ok t p} = {p. page_ok s p} \<and> (\<exists>ps. kmem_ok t ps)"
    by (intro exI [of _ p] exI [of _ t])
      (auto simp: kalloc_opt_def kbind_def free_pages_eq page_ok_def same_kernel_sel)
next
  fix s r assume "\<exists>ps. kmem_ok s ps" "r \<in> {p. page_ok s p}" "r \<notin> free_pages s"
  then obtain ps where ps: "kmem_ok s ps" "r \<notin> set ps" "page_ok s r" by (auto simp: free_pages_eq)
  then obtain t where "kfree r s = Ok () t" "kmem_ok t (r # ps)" "same_kernel t s"
    using kfree_gives by blast
  with ps show "\<exists>t. kfree r s = Ok () t \<and> free_pages t = insert r (free_pages s) \<and>
      {p. page_ok t p} = {p. page_ok s p} \<and> (\<exists>ps. kmem_ok t ps)"
    by (auto simp: free_pages_eq page_ok_def same_kernel_sel)
next
  fix s assume "\<exists>ps. kmem_ok s ps"
  then show "free_pages s \<subseteq> {p. page_ok s p}" by (auto simp: free_pages_eq kmem_ok_def)
qed

section \<open>freerange\<close>

lemma up_down: "PGROUNDUP sz = PGROUNDDOWN (sz + 4095)"
  by (simp add: PGROUNDUP_def PGROUNDDOWN_def PGSIZE_def add.commute)

lemma unat_up: "unat sz + 4095 < 4294967296 \<Longrightarrow> unat (PGROUNDUP sz) = (unat sz + 4095) div 4096 * 4096"
proof -
  assume a: "unat sz + 4095 < 4294967296"
  have "unat (sz + 4095) = unat sz + 4095" using a by (simp add: unat_word_ariths)
  then show ?thesis by (simp add: up_down unat_down)
qed

lemma up_mod: "PGROUNDUP sz mod PGSIZE = 0"
  by (simp add: up_down page_mod unat_down)

text \<open>The pages of a range, lowest first.\<close>

definition range_pages :: "u32 \<Rightarrow> nat \<Rightarrow> u32 list" where
  "range_pages p n = map (\<lambda>i. p + 4096 * of_nat i) [0..<n]"

lemma range_pages_Suc: "range_pages p (Suc n) = p # range_pages (p + 4096) n"
  by (simp add: range_pages_def upt_conv_Cons map_Suc_upt [symmetric] algebra_simps del: upt_Suc)

lemma page_ok_high: "page_ok s p \<Longrightarrow> KERNBASE \<le> p"
proof (rule ccontr)
  assume ok: "page_ok s p" and "\<not> KERNBASE \<le> p"
  then have "unat (v2p p) = unat p + 4294967296 - 2147483648" "unat p < 2147483648"
    by (simp_all add: v2p_def KERNBASE_def word_le_nat_alt unat_sub_if')
  then show False using ok by (simp add: page_ok_def PHYSTOP_def word_less_nat_alt)
qed

lemma page_ok_v2p: "page_ok s p \<Longrightarrow> unat (v2p p) = unat p - 2147483648"
  using page_ok_high [of s p] by (simp add: v2p_def KERNBASE_def word_le_nat_alt unat_sub)

lemma page_ok_next:
  assumes "page_ok s p" and "unat p + 8192 \<le> 2382364672"
  shows "page_ok s (p + 4096)"
proof -
  have u: "unat (p + 4096) = unat p + 4096" using assms(2) by (simp add: unat_word_ariths)
  have "unat (v2p (p + 4096)) = unat p + 4096 - 2147483648"
    using page_ok_high [OF assms(1)] by (simp add: v2p_def KERNBASE_def word_le_nat_alt unat_sub_if' u)
  then show ?thesis
    using assms u by (simp add: page_ok_def page_mod word_le_nat_alt word_less_nat_alt PHYSTOP_def)
qed

lemma page_fits: "page_ok s p \<Longrightarrow> unat p + 4096 \<le> 2382364672"
proof -
  assume ok: "page_ok s p"
  obtain k where k: "unat p = 4096 * k" using ok by (auto simp: page_ok_def page_mod)
  have "unat p < 4096 * 581632"
    using ok by (auto simp: page_ok_def v2p_def KERNBASE_def PHYSTOP_def word_less_nat_alt unat_sub_if' split: if_splits)
  then have "k < 581632" by (simp add: k)
  then show ?thesis by (simp add: k)
qed

lemma page_ok_range:
  "page_ok s p \<Longrightarrow> unat p + 4096 * n \<le> 2382364672 \<Longrightarrow> \<forall>q \<in> set (range_pages p n). page_ok s q"
proof (induction n arbitrary: p)
  case 0
  then show ?case by (simp add: range_pages_def)
next
  case (Suc n)
  show ?case
  proof (cases n)
    case 0
    with Suc.prems show ?thesis by (simp add: range_pages_def)
  next
    case (Suc k)
    then have nx: "page_ok s (p + 4096)" "unat (p + 4096) = unat p + 4096"
      using Suc.prems page_ok_next [OF Suc.prems(1)] by (simp_all add: unat_word_ariths)
    with Suc.IH [of "p + 4096"] Suc.prems show ?thesis by (simp add: range_pages_Suc)
  qed
qed

lemma freerange_loop:
  assumes "kmem_ok s ps" and "n \<noteq> 0 \<Longrightarrow> page_ok s p" and "p mod PGSIZE = 0"
    and "unat p + 4096 * n \<le> unat vend" and "unat vend < unat p + 4096 * Suc n"
    and "unat vend \<le> 2382364672" and "set (range_pages p n) \<inter> set ps = {}" and "n < fuel"
  shows "\<exists>t. kloop fuel (\<lambda>p. if p + PGSIZE \<le> vend then kseq (kfree p) (kret (Inl (p + PGSIZE)))
      else kret (Inr ())) p s = Ok () t \<and> kmem_ok t (rev (range_pages p n) @ ps) \<and> same_kernel t s"
  using assms
proof (induction n arbitrary: p s ps fuel)
  case 0
  obtain f where f: "fuel = Suc f" using "0.prems"(8) by (cases fuel) auto
  have "unat (p + 4096) = unat p + 4096" using "0.prems"(4,6) by (simp add: unat_word_ariths)
  then have "\<not> p + PGSIZE \<le> vend" using "0.prems"(5) by (simp add: PGSIZE_def word_le_nat_alt)
  then show ?case using "0.prems"(1) by (auto simp: f range_pages_def)
next
  case (Suc n)
  obtain f where f: "fuel = Suc f" using Suc.prems(8) by (cases fuel) auto
  have u: "unat (p + 4096) = unat p + 4096" using Suc.prems(4,6) by (simp add: unat_word_ariths)
  have le: "p + PGSIZE \<le> vend" using Suc.prems(4) by (simp add: PGSIZE_def word_le_nat_alt u)
  have ok: "page_ok s p" using Suc.prems(2) by simp
  have new: "p \<notin> set ps" using Suc.prems(7) by (auto simp: range_pages_Suc)
  obtain t where t: "kfree p s = Ok () t" "kmem_ok t (p # ps)" "same_kernel t s"
    using kfree_gives [OF Suc.prems(1) ok new] by blast
  have "page_ok t (p + 4096)" if "n \<noteq> 0"
    using page_ok_next [OF ok] that Suc.prems(4,6) by (simp add: page_ok_def same_kernel_sel [OF t(3)])
  moreover have "set (range_pages (p + 4096) n) \<inter> set (p # ps) = {}"
  proof -
    have "p \<noteq> p + 4096 + 4096 * of_nat i" if "i < n" for i
    proof
      assume "p = p + 4096 + 4096 * of_nat i"
      then have "4096 * of_nat (Suc i) = (0 :: u32)" by (simp add: algebra_simps)
      then have "unat (4096 * of_nat (Suc i) :: u32) = 0" by simp
      moreover have "4096 * Suc i < 4294967296" using that Suc.prems(4,6) by simp
      ultimately show False by (simp add: unat_word_ariths unat_of_nat take_bit_eq_mod)
    qed
    then have "p \<notin> set (range_pages (p + 4096) n)" by (auto simp: range_pages_def)
    moreover have "set (range_pages (p + 4096) n) \<inter> set ps = {}"
      using Suc.prems(7) by (simp add: range_pages_Suc)
    ultimately show ?thesis by auto
  qed
  moreover have "(p + 4096) mod PGSIZE = 0" using Suc.prems(3) by (simp add: page_mod u)
  ultimately have "\<exists>v. kloop f (\<lambda>p. if p + PGSIZE \<le> vend then kseq (kfree p) (kret (Inl (p + PGSIZE)))
      else kret (Inr ())) (p + 4096) t = Ok () v \<and>
      kmem_ok v (rev (range_pages (p + 4096) n) @ p # ps) \<and> same_kernel v t"
    using t(2) Suc.prems f by (intro Suc.IH) (auto simp: u)
  then show ?case
    using t(1,3) le by (auto simp: f kbind_def kseq_def range_pages_Suc PGSIZE_def intro: same_kernel_trans)
qed

section \<open>Properties\<close>

text \<open>
  C8. \<open>kalloc\<close> and \<open>kfree\<close> implement a stack of pages threaded through memory. With the free list
  \<open>ps\<close>: allocation fails on the empty list and leaves memory alone, and otherwise takes the head
  and writes nothing; freeing a valid page that is not free pushes it, writes only inside it, and
  keeps the list a list of distinct valid pages; freeing an address that is no valid page
  panics. Freeing a page that is already free does not: it becomes the head of a list that
  runs in a circle and never ends.
\<close>

lemma kalloc_kfree_refine:
  assumes "kmem_ok s ps"
  shows "(ps = [] \<longrightarrow> kalloc s = Ok 0 s) \<and>
    (\<forall>p qs. ps = p # qs \<longrightarrow> (\<exists>t. kalloc s = Ok p t \<and> kmem_ok t qs \<and> mem t = mem s \<and> same_kernel t s)) \<and>
    (\<forall>v. page_ok s v \<and> v \<notin> set ps \<longrightarrow> (\<exists>t. kfree v s = Ok () t \<and> kmem_ok t (v # ps) \<and>
      same_outside v (mem t) (mem s) \<and> same_kernel t s)) \<and>
    (\<forall>v. \<not> page_ok s v \<longrightarrow> kfree v s = Panic ''kfree'') \<and>
    (\<forall>v \<in> set ps. \<exists>t. kfree v s = Ok () t \<and> freelist t = v \<and> same_kernel t s \<and>
      (\<forall>xs. \<not> free_chain (mem t) (freelist t) xs))"
proof (intro conjI ballI)
  fix v assume "v \<in> set ps"
  with assms obtain t where t: "kfree v s = Ok () t" "freelist t = v" "same_kernel t s" "\<forall>xs. \<not> free_chain (mem t) v xs"
    using kfree_twice by blast
  then show "\<exists>t. kfree v s = Ok () t \<and> freelist t = v \<and> same_kernel t s \<and>
    (\<forall>xs. \<not> free_chain (mem t) (freelist t) xs)" by (intro exI [of _ t]) simp
qed (use assms kalloc_empty kalloc_takes kfree_gives kfree_rejects in blast)+

text \<open>The memory after boot, with the kernel ending at 1 MB + 64 KB and one page free.\<close>

definition small_kmem :: kmem where
  "small_kmem = pt.extend boot_pt \<lparr>mem = (\<lambda>_. 0), use_lock = True, freelist = 0x80110000, kend = 0x80110000,
     kdata = 0x80108000\<rparr>"

lemma small_kmem_sel [simp]:
  "mem small_kmem = (\<lambda>_. 0)" "use_lock small_kmem = True" "freelist small_kmem = 0x80110000"
  "kend small_kmem = 0x80110000" "held small_kmem = []" "procs small_kmem = replicate NPROC zero_proc"
  by (simp_all add: small_kmem_def boot_pt_def reset_irqc_def irqc.defs pt.defs)

lemma small_kmem_ok: "kmem_ok small_kmem [0x80110000]" "page_ok small_kmem 0x80111000"
  by (simp_all add: kmem_ok_def page_ok_def ld32_def PGSIZE_def PHYSTOP_def v2p_def KERNBASE_def)

lemma kalloc_kfree_refine_witness:
  "(\<exists>t. kalloc small_kmem = Ok 0x80110000 t \<and> kmem_ok t []) \<and>
   (\<exists>t. kfree 0x80111000 small_kmem = Ok () t \<and> kmem_ok t [0x80111000, 0x80110000]) \<and>
   (\<exists>t. kfree 0x80110000 small_kmem = Ok () t \<and> freelist t = 0x80110000)"
proof (intro conjI)
  note spec = kalloc_kfree_refine [OF small_kmem_ok(1)]
  show "\<exists>t. kalloc small_kmem = Ok 0x80110000 t \<and> kmem_ok t []" using spec by blast
  have "(0x80111000 :: u32) \<notin> set [0x80110000]" by simp
  then show "\<exists>t. kfree 0x80111000 small_kmem = Ok () t \<and> kmem_ok t [0x80111000, 0x80110000]"
    using spec small_kmem_ok(2) by blast
  have "(0x80110000 :: u32) \<in> set [0x80110000]" by simp
  then show "\<exists>t. kfree 0x80110000 small_kmem = Ok () t \<and> freelist t = 0x80110000" using spec by blast
qed

text \<open>
  \<open>freerange\<close> puts exactly the whole pages between its two addresses on the free list, the
  highest first, and the loop ends: for a range inside the kernel's map of physical memory that
  holds no free page yet.
\<close>

lemma freerange_builds:
  assumes "kmem_ok s ps" and "unat vstart + 4095 < 4294967296"
    and "kend s \<le> vstart" and "unat vend \<le> 2382364672" and "2147483648 \<le> unat vstart"
    and "n = (unat vend - unat (PGROUNDUP vstart)) div 4096" and "unat (PGROUNDUP vstart) \<le> unat vend"
    and "set (range_pages (PGROUNDUP vstart) n) \<inter> set ps = {}"
  shows "\<exists>t. freerange vstart vend s = Ok () t \<and>
    kmem_ok t (rev (range_pages (PGROUNDUP vstart) n) @ ps) \<and> same_kernel t s"
  unfolding freerange_def
proof (rule freerange_loop [OF assms(1)])
  let ?p = "PGROUNDUP vstart"
  have le: "unat vstart \<le> unat ?p" unfolding unat_up [OF assms(2)] by linarith
  show "?p mod PGSIZE = 0" by (rule up_mod)
  have n: "unat ?p + 4096 * n \<le> unat vend" "unat vend < unat ?p + 4096 * Suc n"
    using assms(6,7) times_div_less_eq_dividend [of 4096 "unat vend - unat ?p"]
      dividend_less_times_div [of 4096 "unat vend - unat ?p"] by simp_all
  then show "unat ?p + 4096 * n \<le> unat vend" "unat vend < unat ?p + 4096 * Suc n" by simp_all
  show "page_ok s ?p" if "n \<noteq> 0"
  proof -
    have "unat ?p + 4096 \<le> 2382364672" using n(1) that assms(4) by (cases n) simp_all
    moreover have "unat (v2p ?p) = unat ?p - 2147483648"
      using le assms(5) by (simp add: v2p_def KERNBASE_def unat_sub word_le_nat_alt)
    ultimately show ?thesis
      using le assms(3) up_mod by (simp add: page_ok_def PHYSTOP_def word_less_nat_alt word_le_nat_alt)
  qed
  show "n < 1048577" using n(1) unat_u32 [of vend] by simp
qed (use assms in auto)

lemma freerange_builds_witness:
  "\<exists>t. freerange 0x80111800 0x80114800 small_kmem = Ok () t \<and>
     kmem_ok t [0x80113000, 0x80112000, 0x80110000]"
proof -
  have up: "PGROUNDUP 0x80111800 = 0x80112000" by (simp add: PGROUNDUP_def PGSIZE_def)
  have pages: "range_pages 0x80112000 2 = [0x80112000, 0x80113000]"
    by (simp add: range_pages_def upt_rec)
  have "\<exists>t. freerange 0x80111800 0x80114800 small_kmem = Ok () t \<and>
    kmem_ok t (rev (range_pages (PGROUNDUP 0x80111800) 2) @ [0x80110000]) \<and> same_kernel t small_kmem"
    by (rule freerange_builds [OF small_kmem_ok(1)]) (simp_all only: up pages, simp_all)
  then show ?thesis by (auto simp only: up pages) simp
qed

end
