(* ===== verification/Vm.thy ===== *)
theory Vm
  imports Kalloc
begin

text \<open>
  kernel/vm.c: page tables. A page directory and its page tables are pages of memory; \<open>pgdir[i]\<close>
  is the word at \<open>pgdir + 4 * i\<close>. \<open>loaduvm\<close>, which reads a file, is in the theory of exec. The
  main lemma is that mapping one page changes the translation of that page only and keeps the
  directory well formed.
\<close>

unbundle bit_operations_syntax

section \<open>Constants\<close>

definition PDX :: "u32 \<Rightarrow> u32" where "PDX va = drop_bit 22 va AND 0x3FF"
definition PTX :: "u32 \<Rightarrow> u32" where "PTX va = drop_bit 12 va AND 0x3FF"
definition PTE_P :: u32 where "PTE_P = 1"
definition PTE_W :: u32 where "PTE_W = 2"
definition PTE_U :: u32 where "PTE_U = 4"
definition PTE_ADDR :: "u32 \<Rightarrow> u32" where "PTE_ADDR pte = pte AND NOT 0xFFF"
definition PTE_FLAGS :: "u32 \<Rightarrow> u32" where "PTE_FLAGS pte = pte AND 0xFFF"
definition EXTMEM :: u32 where "EXTMEM = 0x100000"
definition DEVSPACE :: u32 where "DEVSPACE = 0xFE000000"

section \<open>Memory access\<close>

definition load :: "u32 \<Rightarrow> (u32, 'z kmem_scheme) K" where
  "load a = kget (\<lambda>s. ld32 (mem s) a)"

definition store :: "u32 \<Rightarrow> u32 \<Rightarrow> (unit, 'z kmem_scheme) K" where
  "store a v = kmod (mem_update (st32 a v))"

definition kmemset :: "u32 \<Rightarrow> u32 \<Rightarrow> u32 \<Rightarrow> (unit, 'z kmem_scheme) K" where
  "kmemset d c n = kmod (mem_update (memset d c n))"

definition kmemmove :: "u32 \<Rightarrow> u32 \<Rightarrow> u32 \<Rightarrow> (unit, 'z kmem_scheme) K" where
  "kmemmove d s n = kmod (mem_update (memmove d s n))"

section \<open>Page tables\<close>

text \<open>The address of the entry for \<open>va\<close>, 0 for none.\<close>

definition walkpgdir :: "u32 \<Rightarrow> u32 \<Rightarrow> bool \<Rightarrow> (u32, 'z kmem_scheme) K" where
  "walkpgdir pgdir va alloc =
     kbind (load (pgdir + 4 * PDX va)) (\<lambda>pde.
     if pde AND PTE_P \<noteq> 0 then kret (p2v (PTE_ADDR pde) + 4 * PTX va)
     else if \<not> alloc then kret 0
     else kbind kalloc (\<lambda>pgtab.
       if pgtab = 0 then kret 0
       else kseq (kmemset pgtab 0 PGSIZE)
         (kseq (store (pgdir + 4 * PDX va) (v2p pgtab OR PTE_P OR PTE_W OR PTE_U))
           (kret (pgtab + 4 * PTX va)))))"

text \<open>
  The loop of \<open>mappages\<close> steps from \<open>a\<close> to \<open>last\<close> (here \<open>lst\<close>) by pages, wrapping, so \<open>2 ^ 20\<close> turns reach
  every page. The result is 0 or -1.
\<close>

definition map_turn :: "u32 \<Rightarrow> u32 \<Rightarrow> u32 \<Rightarrow> u32 \<times> u32 \<Rightarrow> ((u32 \<times> u32) + int, 'z kmem_scheme) K" where
  "map_turn pgdir lst perm = (\<lambda>(a, pa).
     kbind (walkpgdir pgdir a True) (\<lambda>pte.
     if pte = 0 then kret (Inr (- 1))
     else kbind (load pte) (\<lambda>w.
       if w AND PTE_P \<noteq> 0 then kpanic ''remap''
       else kseq (store pte (pa OR perm OR PTE_P))
         (if a = lst then kret (Inr 0) else kret (Inl (a + PGSIZE, pa + PGSIZE))))))"

definition mappages :: "u32 \<Rightarrow> u32 \<Rightarrow> u32 \<Rightarrow> u32 \<Rightarrow> u32 \<Rightarrow> (int, 'z kmem_scheme) K" where
  "mappages pgdir va sz pa perm =
     kloop 1048577 (map_turn pgdir (PGROUNDDOWN (va + sz - 1)) perm) (PGROUNDDOWN va, pa)"

text \<open>The kernel's mappings: virtual address, physical start and end, permissions.\<close>

definition kmap :: "u32 \<Rightarrow> (u32 \<times> u32 \<times> u32 \<times> u32) list" where
  "kmap dat =
     [(KERNBASE, 0, EXTMEM, PTE_W),
      (KERNBASE + EXTMEM, v2p (KERNBASE + EXTMEM), v2p dat, 0),
      (dat, v2p dat, PHYSTOP, PTE_W),
      (DEVSPACE, DEVSPACE, 0, PTE_W)]"

fun map_kmap :: "u32 \<Rightarrow> (u32 \<times> u32 \<times> u32 \<times> u32) list \<Rightarrow> (u32, 'z kmem_scheme) K" where
  "map_kmap pgdir [] = kret pgdir"
| "map_kmap pgdir ((virt, lo, hi, perm) # ks) =
     kbind (mappages pgdir virt (hi - lo) lo perm) (\<lambda>r.
     if r < 0 then kret 0 else map_kmap pgdir ks)"

definition setupkvm :: "(u32, 'z kmem_scheme) K" where
  "setupkvm = kbind kalloc (\<lambda>pgdir.
     if pgdir = 0 then kret 0
     else kseq (kmemset pgdir 0 PGSIZE)
       (if DEVSPACE < p2v PHYSTOP then kpanic ''PHYSTOP too high''
        else kbind (kget kdata) (\<lambda>dat. map_kmap pgdir (kmap dat))))"

definition kvmalloc :: "(unit, 'z kmem_scheme) K" where
  "kvmalloc = kbind setupkvm (\<lambda>d. kseq (kmod (kpgdir_update (\<lambda>_. d))) switchkvm)"

section \<open>User memory\<close>

definition inituvm :: "u32 \<Rightarrow> u8 list \<Rightarrow> (unit, 'z kmem_scheme) K" where
  "inituvm pgdir code =
     (if PGSIZE \<le> of_nat (length code) then kpanic ''inituvm: more than a page''
      else kbind kalloc (\<lambda>mm. kblock
        [kmemset mm 0 PGSIZE,
         kbind (mappages pgdir 0 PGSIZE (v2p mm) (PTE_W OR PTE_U)) (\<lambda>_. kret ()),
         kmod (mem_update (wr_bytes mm code))]))"

text \<open>
  The loop of \<open>deallocuvm\<close> steps by a page, or past a whole missing page table. Below the
  \<open>oldsz\<close> the kernel passes (at most \<open>KERNBASE\<close>) it ends within \<open>2 ^ 20\<close> turns.
\<close>

definition deallocuvm :: "u32 \<Rightarrow> u32 \<Rightarrow> u32 \<Rightarrow> (u32, 'z kmem_scheme) K" where
  "deallocuvm pgdir oldsz newsz =
     (if oldsz \<le> newsz then kret oldsz
      else kloop 1048577 (\<lambda>a.
        if \<not> a < oldsz then kret (Inr newsz)
        else kbind (walkpgdir pgdir a False) (\<lambda>pte.
          if pte = 0 then kret (Inl (a + 1023 * PGSIZE + PGSIZE))
          else kbind (load pte) (\<lambda>w.
            if w AND PTE_P = 0 then kret (Inl (a + PGSIZE))
            else if PTE_ADDR w = 0 then kpanic ''kfree''
            else kseq (kfree (p2v (PTE_ADDR w)))
              (kseq (store pte 0) (kret (Inl (a + PGSIZE)))))))
      (PGROUNDUP newsz))"

definition allocuvm :: "u32 \<Rightarrow> u32 \<Rightarrow> u32 \<Rightarrow> (u32, 'z kmem_scheme) K" where
  "allocuvm pgdir oldsz newsz =
     (if KERNBASE \<le> newsz then kret 0
      else if newsz < oldsz then kret oldsz
      else kloop 1048577 (\<lambda>a.
        if \<not> a < newsz then kret (Inr newsz)
        else kbind kalloc (\<lambda>mm.
          if mm = 0 then
            kseq (cprintf (''allocuvm out of memory'' @ [CHR 10]) [])
              (kbind (deallocuvm pgdir newsz oldsz) (\<lambda>_. kret (Inr 0)))
          else kseq (kmemset mm 0 PGSIZE)
            (kbind (mappages pgdir a PGSIZE (v2p mm) (PTE_W OR PTE_U)) (\<lambda>_.
             kret (Inl (a + PGSIZE))))))
      (PGROUNDUP oldsz))"

definition freevm :: "u32 \<Rightarrow> (unit, 'z kmem_scheme) K" where
  "freevm pgdir =
     (if pgdir = 0 then kpanic ''freevm: no pgdir''
      else kbind (deallocuvm pgdir KERNBASE 0) (\<lambda>_.
        kseq (kfor [0..<1024] (\<lambda>i.
          kbind (load (pgdir + 4 * of_nat i)) (\<lambda>pde.
          kwhen (pde AND PTE_P \<noteq> 0) (kfree (p2v (PTE_ADDR pde))))))
        (kfree pgdir)))"

definition clearpteu :: "u32 \<Rightarrow> u32 \<Rightarrow> (unit, 'z kmem_scheme) K" where
  "clearpteu pgdir uva = kbind (walkpgdir pgdir uva False) (\<lambda>pte.
     if pte = 0 then kpanic ''clearpteu''
     else kbind (load pte) (\<lambda>w. store pte (w AND NOT PTE_U)))"

definition copyuvm :: "u32 \<Rightarrow> u32 \<Rightarrow> (u32, 'z kmem_scheme) K" where
  "copyuvm pgdir sz = kbind setupkvm (\<lambda>d.
     if d = 0 then kret 0
     else kloop 1048577 (\<lambda>i.
       if \<not> i < sz then kret (Inr d)
       else kbind (walkpgdir pgdir i False) (\<lambda>pte.
         if pte = 0 then kpanic ''copyuvm: pte should exist''
         else kbind (load pte) (\<lambda>w.
           if w AND PTE_P = 0 then kpanic ''copyuvm: page not present''
           else kbind kalloc (\<lambda>mm.
             if mm = 0 then kseq (freevm d) (kret (Inr 0))
             else kseq (kmemmove mm (p2v (PTE_ADDR w)) PGSIZE)
               (kbind (mappages d i PGSIZE (v2p mm) (PTE_FLAGS w)) (\<lambda>r.
                if r < 0 then kseq (freevm d) (kret (Inr 0)) else kret (Inl (i + PGSIZE))))))))
     0)"

text \<open>\<open>uva2ka\<close> reads the entry without a test for null: a missing page table is a load at 0.\<close>

definition uva2ka :: "u32 \<Rightarrow> u32 \<Rightarrow> (u32, 'z kmem_scheme) K" where
  "uva2ka pgdir uva = kbind (walkpgdir pgdir uva False) (\<lambda>pte.
     if pte = 0 then kundef
     else kbind (load pte) (\<lambda>w.
       if w AND PTE_P = 0 then kret 0
       else if w AND PTE_U = 0 then kret 0
       else kret (p2v (PTE_ADDR w))))"

text \<open>Copy the bytes \<open>bs\<close> to user address \<open>va\<close>: a page, or what is left of one, a turn.\<close>

definition copyout :: "u32 \<Rightarrow> u32 \<Rightarrow> u8 list \<Rightarrow> (int, 'z kmem_scheme) K" where
  "copyout pgdir va bs = kloop 1048578 (\<lambda>(va, bs).
     if bs = [] then kret (Inr 0)
     else let va0 = PGROUNDDOWN va in
       kbind (uva2ka pgdir va0) (\<lambda>pa0.
       if pa0 = 0 then kret (Inr (- 1))
       else let n = min (unat (PGSIZE - (va - va0))) (length bs) in
         kseq (kmod (mem_update (wr_bytes (pa0 + (va - va0)) (take n bs))))
           (kret (Inl (va0 + PGSIZE, drop n bs)))))
     (va, bs)"

section \<open>Page-table slots\<close>

lemma unat_PDX: "unat (PDX va) = unat va div 4194304"
proof -
  have "PDX va = take_bit 10 (drop_bit 22 va)"
    by (simp add: PDX_def take_bit_eq_mask mask_eq_exp_minus_1)
  then have "unat (PDX va) = unat va div 4194304 mod 1024"
    by (simp only: unsigned_take_bit_eq unat_drop_bit_eq) (simp add: take_bit_eq_mod drop_bit_eq_div)
  moreover have "unat va div 4194304 < 1024" using unat_u32 [of va] by (simp add: div_less_iff_less_mult)
  ultimately show ?thesis by simp
qed

lemma unat_PTX: "unat (PTX va) = unat va div 4096 mod 1024"
proof -
  have "PTX va = take_bit 10 (drop_bit 12 va)"
    by (simp add: PTX_def take_bit_eq_mask mask_eq_exp_minus_1)
  then show ?thesis
    by (simp only: unsigned_take_bit_eq unat_drop_bit_eq) (simp add: take_bit_eq_mod drop_bit_eq_div)
qed

lemma PDX_less [simp]: "PDX va < 1024"
  using unat_u32 [of va] by (simp add: word_less_nat_alt unat_PDX div_less_iff_less_mult)

lemma PTX_less [simp]: "PTX va < 1024"
  by (simp add: word_less_nat_alt unat_PTX)

lemma same_page: "PGROUNDDOWN a = PGROUNDDOWN b \<longleftrightarrow> PDX a = PDX b \<and> PTX a = PTX b"
proof -
  have big: "n div 4194304 = n div 4096 div 1024" for n :: nat
    by (simp add: div_mult2_eq [symmetric])
  have "PGROUNDDOWN a = PGROUNDDOWN b \<longleftrightarrow> unat a div 4096 = unat b div 4096"
    by (simp add: word_unat_eq_iff [of "PGROUNDDOWN a"] unat_down)
  also have "\<dots> \<longleftrightarrow> unat a div 4096 div 1024 = unat b div 4096 div 1024 \<and>
      unat a div 4096 mod 1024 = unat b div 4096 mod 1024"
    by (metis div_mult_mod_eq)
  finally show ?thesis
    by (simp only: word_unat_eq_iff [of "PDX a"] word_unat_eq_iff [of "PTX a"] unat_PDX unat_PTX big)
qed

lemma slot_unat: "i < (1024 :: u32) \<Longrightarrow> k < 4 \<Longrightarrow> unat (4 * i + k) = 4 * unat i + unat k"
  by (simp add: unat_word_ariths word_less_nat_alt)

lemma slot_page: "pg mod PGSIZE = 0 \<Longrightarrow> i < 1024 \<Longrightarrow> k < 4 \<Longrightarrow> PGROUNDDOWN (pg + 4 * i + k) = pg"
proof -
  assume pg: "pg mod PGSIZE = 0" and i: "i < 1024" "k < 4"
  have "4 * i + k < 4096" using i by (simp add: word_less_nat_alt slot_unat)
  from page_off [OF pg this] show ?thesis by (simp add: add.assoc)
qed

lemma slot_ne:
  assumes "pg mod PGSIZE = 0" and "pg' mod PGSIZE = 0" and "i < 1024" "j < 1024" "k < 4" "l < 4"
    and "pg + 4 * i + k = pg' + 4 * j + l"
  shows "pg = pg' \<and> i = j"
proof -
  have pg: "pg = pg'" using slot_page [of pg i k] slot_page [of pg' j l] assms by simp
  then have "4 * i + k = 4 * j + l" using assms(7) by (simp add: add.assoc)
  then have "4 * unat i + unat k = 4 * unat j + unat l"
    using slot_unat [of i k] slot_unat [of j l] assms by simp
  moreover have "unat k < 4" "unat l < 4" using assms by (simp_all add: word_less_nat_alt)
  ultimately have "unat i = unat j" by linarith
  with pg show ?thesis by (simp add: word_unat_eq_iff)
qed

lemma ld32_st32_slot:
  assumes "pg mod PGSIZE = 0" and "pg' mod PGSIZE = 0" and "i < 1024" "j < 1024"
    and "pg \<noteq> pg' \<or> i \<noteq> j"
  shows "ld32 (st32 (pg' + 4 * j) v m) (pg + 4 * i) = ld32 m (pg + 4 * i)"
proof (rule ld32_cong)
  fix k :: u32 assume "k < 4"
  then show "st32 (pg' + 4 * j) v m (pg + 4 * i + k) = m (pg + 4 * i + k)"
    using slot_ne [OF assms(1-4), of k] assms(5) by (intro st32_other) blast
qed

lemma ld32_outside:
  assumes "pg mod PGSIZE = 0" and "i < 1024" and "same_outside v m n" and "pg \<noteq> v"
  shows "ld32 m (pg + 4 * i) = ld32 n (pg + 4 * i)"
proof (rule ld32_cong)
  fix k :: u32 assume "k < 4"
  with assms slot_page [OF assms(1,2), of k] show "m (pg + 4 * i + k) = n (pg + 4 * i + k)"
    by (simp add: same_outside_def)
qed

lemma same_outside_slot: "pg mod PGSIZE = 0 \<Longrightarrow> i < 1024 \<Longrightarrow> same_outside pg (st32 (pg + 4 * i) w m) m"
  unfolding same_outside_def
proof (intro allI impI)
  fix a assume pg: "pg mod PGSIZE = 0" and i: "i < 1024" and a: "PGROUNDDOWN a \<noteq> pg"
  show "st32 (pg + 4 * i) w m a = m a"
    by (rule st32_other) (use slot_page [OF pg i] a in auto)
qed

lemma ld32_zeroed:
  assumes "pg mod PGSIZE = 0" and "i < 1024"
  shows "ld32 (memset pg 0 PGSIZE m) (pg + 4 * i) = 0"
proof -
  have "memset pg 0 PGSIZE m (pg + 4 * i + k) = 0" if "k < 4" for k
  proof -
    have "unat (pg + 4 * i + k - pg) < 4096"
      unfolding in_page_iff [OF assms(1)] by (rule slot_page [OF assms that])
    then show ?thesis by (simp only: memset_page if_True) simp
  qed
  then have "ld32 (memset pg 0 PGSIZE m) (pg + 4 * i) = ld32 (\<lambda>_. 0) (pg + 4 * i)"
    by (intro ld32_cong)
  then show ?thesis by (simp add: ld32_def)
qed

section \<open>Well-formed page directories\<close>

definition present :: "u32 \<Rightarrow> bool" where
  "present w \<longleftrightarrow> w AND PTE_P \<noteq> 0"

definition pde_at :: "bytes \<Rightarrow> u32 \<Rightarrow> u32 \<Rightarrow> u32" where
  "pde_at m pg i = ld32 m (pg + 4 * i)"

definition table_of :: "u32 \<Rightarrow> u32" where
  "table_of pde = p2v (PTE_ADDR pde)"

text \<open>The entry for \<open>va\<close>, 0 when there is no table for it.\<close>

definition pte_of :: "bytes \<Rightarrow> u32 \<Rightarrow> u32 \<Rightarrow> u32" where
  "pte_of m pg va = (let pde = pde_at m pg (PDX va)
     in if present pde then ld32 m (table_of pde + 4 * PTX va) else 0)"

text \<open>
  The directory and its tables are pages that are not on the free list, and no two of them are
  the same page.
\<close>

definition pd_ok :: "bytes \<Rightarrow> u32 list \<Rightarrow> u32 \<Rightarrow> bool" where
  "pd_ok m ps pg \<longleftrightarrow> pg mod PGSIZE = 0 \<and> pg \<notin> set ps \<and>
     (\<forall>i < 1024. present (pde_at m pg i) \<longrightarrow>
        table_of (pde_at m pg i) \<notin> set ps \<and> table_of (pde_at m pg i) \<noteq> pg \<and> table_of (pde_at m pg i) \<noteq> 0 \<and>
        (\<forall>j < 1024. present (pde_at m pg j) \<longrightarrow> j \<noteq> i \<longrightarrow> table_of (pde_at m pg j) \<noteq> table_of (pde_at m pg i)))"

lemma PTE_ADDR_down: "PTE_ADDR w = PGROUNDDOWN w"
  by (simp add: PTE_ADDR_def PGROUNDDOWN_def PGSIZE_def)

lemma table_of_aligned [simp]: "table_of w mod PGSIZE = 0"
proof -
  have "(unat w div 4096 * 4096 + 524288 * 4096) mod (1048576 * 4096) mod 4096 = 0"
    unfolding distrib_right [symmetric] mod_mult_mult2 by simp
  then have "unat (PGROUNDDOWN w + 2147483648) mod 4096 = 0"
    by (simp add: unat_word_ariths unat_down)
  then show ?thesis by (simp add: table_of_def PTE_ADDR_down p2v_def KERNBASE_def page_mod)
qed

lemma PTE_ADDR_flags:
  assumes "page_ok s p"
  shows "table_of (v2p p OR PTE_P OR PTE_W OR PTE_U) = p" and "present (v2p p OR PTE_P OR PTE_W OR PTE_U)"
proof -
  have "unat p mod 4096 = 0" using assms by (simp add: page_ok_def page_mod)
  then have "(unat p - 2147483648) mod 4096 = 0"
    using page_ok_high [OF assms] by (auto simp: KERNBASE_def word_le_nat_alt mod_eq_0_iff_dvd dvd_diff_nat)
  then have "v2p p mod PGSIZE = 0" by (simp add: page_mod page_ok_v2p [OF assms])
  then have al: "v2p p AND NOT 0xFFF = v2p p"
    using down_aligned [of "v2p p"] by (simp add: PGROUNDDOWN_def PGSIZE_def)
  have "(v2p p OR 7) AND NOT 0xFFF = v2p p"
    using al by (simp add: bit.conj_disj_distrib2)
  then show "table_of (v2p p OR PTE_P OR PTE_W OR PTE_U) = p"
    by (simp add: table_of_def PTE_ADDR_def PTE_P_def PTE_W_def PTE_U_def p2v_def v2p_def)
  show "present (v2p p OR PTE_P OR PTE_W OR PTE_U)"
    by (simp add: present_def PTE_P_def PTE_W_def PTE_U_def bit.conj_disj_distrib2)
qed

lemma pte_addr_nonzero: "t \<noteq> 0 \<Longrightarrow> t mod PGSIZE = 0 \<Longrightarrow> t + 4 * PTX va \<noteq> 0"
  using slot_page [of t "PTX va" 0] by (auto simp: PGROUNDDOWN_def)

section \<open>Mapping a page\<close>

text \<open>The walk that finds the table, or makes one out of a free page.\<close>

lemma walkpgdir_lookup:
  "walkpgdir pg va False s = Ok (if present (pde_at (mem s) pg (PDX va))
     then table_of (pde_at (mem s) pg (PDX va)) + 4 * PTX va else 0) s"
  by (simp add: walkpgdir_def load_def present_def pde_at_def table_of_def)

lemma walkpgdir_hit:
  "present (pde_at (mem s) pg (PDX va)) \<Longrightarrow>
     walkpgdir pg va al s = Ok (table_of (pde_at (mem s) pg (PDX va)) + 4 * PTX va) s"
  by (simp add: walkpgdir_def load_def present_def pde_at_def table_of_def)

lemma walkpgdir_full:
  "kmem_ok s [] \<Longrightarrow> \<not> present (pde_at (mem s) pg (PDX va)) \<Longrightarrow> walkpgdir pg va True s = Ok 0 s"
  by (simp add: walkpgdir_def load_def present_def pde_at_def kbind_def kalloc_empty)

lemma walkpgdir_make:
  assumes ok: "kmem_ok s (p # ps)" and pd: "pd_ok (mem s) (p # ps) pg"
    and new: "\<not> present (pde_at (mem s) pg (PDX va))"
  shows "\<exists>t. walkpgdir pg va True s = Ok (p + 4 * PTX va) t \<and> kmem_ok t ps \<and> pd_ok (mem t) ps pg \<and>
    present (pde_at (mem t) pg (PDX va)) \<and> table_of (pde_at (mem t) pg (PDX va)) = p \<and>
    (\<forall>v. pte_of (mem t) pg v = pte_of (mem s) pg v) \<and> same_kernel t s"
proof -
  obtain u where u: "kalloc s = Ok p u" "kmem_ok u ps" "mem u = mem s" "same_kernel u s"
    using kalloc_takes [OF ok] by blast
  let ?w = "v2p p OR PTE_P OR PTE_W OR PTE_U"
  let ?m = "st32 (pg + 4 * PDX va) ?w (memset p 0 PGSIZE (mem s))"
  let ?t = "u\<lparr>mem := ?m\<rparr>"
  have p: "page_ok s p" "p \<noteq> 0" "p \<notin> set ps" "p mod PGSIZE = 0" "pg mod PGSIZE = 0" "pg \<noteq> p" "pg \<notin> set ps"
    using ok pd by (auto simp: kmem_ok_def pd_ok_def page_ok_def)
  note w = PTE_ADDR_flags [OF p(1)]
  have run: "walkpgdir pg va True s = Ok (p + 4 * PTX va) ?t"
    using new u(1,3) p(2)
    by (simp add: walkpgdir_def load_def present_def pde_at_def kbind_def kseq_def kmemset_def store_def)
  have other: "ld32 ?m (q + 4 * i) = ld32 (mem s) (q + 4 * i)"
    if "q mod PGSIZE = 0" "i < 1024" "q \<noteq> p" "q \<noteq> pg \<or> i \<noteq> PDX va" for q i
    using that ld32_outside [OF that(1,2) same_outside_memset [OF p(4)] that(3)]
    by (simp add: ld32_st32_slot [OF that(1) p(5) that(2) PDX_less])
  have pde_new: "pde_at ?m pg (PDX va) = ?w" by (simp add: pde_at_def)
  have pde_old: "pde_at ?m pg i = pde_at (mem s) pg i" if "i < 1024" "i \<noteq> PDX va" for i
    using other [OF p(5) that(1) p(6)] that(2) by (simp add: pde_at_def)
  have tab: "table_of (pde_at (mem s) pg i) \<noteq> p" "table_of (pde_at (mem s) pg i) \<noteq> pg"
    if "i < 1024" "present (pde_at (mem s) pg i)" for i
    using pd that by (auto simp: pd_ok_def)
  have pd': "pd_ok ?m ps pg"
    unfolding pd_ok_def
  proof (intro conjI allI impI)
    fix i assume i: "i < 1024" "present (pde_at ?m pg i)"
    consider "i = PDX va" | "i \<noteq> PDX va" "present (pde_at (mem s) pg i)"
      using i pde_old by metis
    note cs = this
    show "table_of (pde_at ?m pg i) \<notin> set ps" "table_of (pde_at ?m pg i) \<noteq> pg" "table_of (pde_at ?m pg i) \<noteq> 0"
      using cs i(1) p w pd by (cases; simp add: pde_new pde_old pd_ok_def)+
    fix j assume j: "j < 1024" "present (pde_at ?m pg j)" "j \<noteq> i"
    show "table_of (pde_at ?m pg j) \<noteq> table_of (pde_at ?m pg i)"
      using cs
    proof cases
      case 1
      then show ?thesis using j tab(1) [of j] w by (simp add: pde_new pde_old)
    next
      case 2
      then show ?thesis
        using i(1) j pd tab(1) [of i] w by (cases "j = PDX va") (auto simp: pde_new pde_old pd_ok_def)
    qed
  qed (use p in auto)
  have "pte_of ?m pg v = pte_of (mem s) pg v" for v
  proof (cases "PDX v = PDX va")
    case True
    have "ld32 ?m (p + 4 * PTX v) = 0"
      using p(4-6) by (simp add: ld32_st32_slot ld32_zeroed)
    then show ?thesis using True new w by (simp add: pte_of_def Let_def pde_new)
  next
    case False
    then show ?thesis
      using other tab [of "PDX v"] by (simp add: pte_of_def Let_def pde_old)
  qed
  moreover have "free_chain ?m (freelist u) ps"
  proof -
    have al: "\<forall>q \<in> set ps. q mod PGSIZE = 0" using ok by (auto simp: kmem_ok_def page_ok_def)
    have "free_chain ?m h ps = free_chain (memset p 0 PGSIZE (mem s)) h ps" for h
      using al p by (intro free_chain_outside [OF _ same_outside_slot [OF p(5) PDX_less]]) auto
    also have "\<dots> h = free_chain (mem s) h ps" for h
      using al p by (intro free_chain_outside [OF _ same_outside_memset [OF p(4)]]) auto
    finally show ?thesis using u(2,3) by (simp add: kmem_ok_def)
  qed
  then have "kmem_ok ?t ps" using u(2) by (simp add: kmem_ok_def page_ok_def)
  moreover have "same_kernel ?t s"
    by (rule same_kernel_mem [OF u(4)])
  ultimately show ?thesis
    using run pd' w by (intro exI [of _ ?t]) (simp add: pde_new)
qed

text \<open>Writing the entry for \<open>va\<close>.\<close>

lemma set_pte:
  assumes ok: "kmem_ok s ps" and pd: "pd_ok (mem s) ps pg" and tb: "present (pde_at (mem s) pg (PDX va))"
  defines "a \<equiv> table_of (pde_at (mem s) pg (PDX va)) + 4 * PTX va"
  shows "kmem_ok (s\<lparr>mem := st32 a w (mem s)\<rparr>) ps \<and> pd_ok (st32 a w (mem s)) ps pg \<and>
    ld32 (mem s) a = pte_of (mem s) pg va \<and> pte_of (st32 a w (mem s)) pg va = w \<and>
    (\<forall>v. PGROUNDDOWN v \<noteq> PGROUNDDOWN va \<longrightarrow> pte_of (st32 a w (mem s)) pg v = pte_of (mem s) pg v)"
proof -
  let ?T = "table_of (pde_at (mem s) pg (PDX va))"
  let ?m = "st32 a w (mem s)"
  have T: "?T \<noteq> pg" "?T \<notin> set ps" "?T mod PGSIZE = 0" "pg mod PGSIZE = 0"
    using pd tb by (auto simp: pd_ok_def)
  have pde: "pde_at ?m pg i = pde_at (mem s) pg i" if "i < 1024" for i
    using T that by (simp add: a_def pde_at_def ld32_st32_slot)
  have al: "\<forall>q \<in> set ps. q mod PGSIZE = 0 \<and> q \<noteq> ?T"
    using ok T by (auto simp: kmem_ok_def page_ok_def)
  have "free_chain ?m h ps = free_chain (mem s) h ps" for h
    unfolding a_def by (rule free_chain_outside [OF al same_outside_slot [OF T(3) PTX_less]])
  then have "kmem_ok (s\<lparr>mem := ?m\<rparr>) ps" using ok by (simp add: kmem_ok_def page_ok_def)
  moreover have "pd_ok ?m ps pg" using pd by (simp add: pd_ok_def pde)
  moreover have "ld32 (mem s) a = pte_of (mem s) pg va" "pte_of ?m pg va = w"
    using tb by (simp_all add: pte_of_def Let_def pde) (simp_all add: a_def)
  moreover have "pte_of ?m pg v = pte_of (mem s) pg v" if "PGROUNDDOWN v \<noteq> PGROUNDDOWN va" for v
  proof (cases "present (pde_at (mem s) pg (PDX v))")
    case True
    have "table_of (pde_at (mem s) pg (PDX v)) \<noteq> ?T \<or> PTX v \<noteq> PTX va"
      using that pd True tb by (cases "PDX v = PDX va") (auto simp: same_page pd_ok_def)
    then have "ld32 ?m (table_of (pde_at (mem s) pg (PDX v)) + 4 * PTX v) =
      ld32 (mem s) (table_of (pde_at (mem s) pg (PDX v)) + 4 * PTX v)"
      unfolding a_def by (intro ld32_st32_slot) (simp_all add: T)
    then show ?thesis by (simp add: pte_of_def Let_def pde)
  next
    case False
    then show ?thesis by (simp add: pte_of_def Let_def pde)
  qed
  ultimately show ?thesis by blast
qed

lemma map_turn_free:
  assumes u: "walkpgdir pg va True s = Ok (table_of (pde_at (mem u) pg (PDX va)) + 4 * PTX va) u"
      "kmem_ok u qs" "pd_ok (mem u) qs pg" "present (pde_at (mem u) pg (PDX va))"
      "\<forall>v. pte_of (mem u) pg v = pte_of (mem s) pg v" "same_kernel u s"
    and free: "\<not> present (pte_of (mem s) pg va)"
  shows "\<exists>t. map_turn pg va perm (va, pa) s = Ok (Inr 0) t \<and> kmem_ok t qs \<and> pd_ok (mem t) qs pg \<and>
    pte_of (mem t) pg va = pa OR perm OR PTE_P \<and>
    (\<forall>v. PGROUNDDOWN v \<noteq> PGROUNDDOWN va \<longrightarrow> pte_of (mem t) pg v = pte_of (mem s) pg v) \<and> same_kernel t s"
proof -
  let ?a = "table_of (pde_at (mem u) pg (PDX va)) + 4 * PTX va"
  let ?t = "u\<lparr>mem := st32 ?a (pa OR perm OR PTE_P) (mem u)\<rparr>"
  note w = set_pte [OF u(2-4), of "pa OR perm OR PTE_P"]
  have "?a \<noteq> 0"
    using u(3,4) by (intro pte_addr_nonzero) (auto simp: pd_ok_def)
  moreover have "ld32 (mem u) ?a AND PTE_P = 0" using w free u(5) by (simp add: present_def)
  ultimately have "map_turn pg va perm (va, pa) s = Ok (Inr 0) ?t"
    using u(1) by (simp add: map_turn_def kbind_def kseq_def load_def store_def)
  moreover have "same_kernel ?t s" by (rule same_kernel_mem [OF u(6)])
  ultimately show ?thesis using w u(5) by (intro exI [of _ ?t]) simp
qed

lemma mappages_one_turn:
  "va mod PGSIZE = 0 \<Longrightarrow> mappages pg va PGSIZE pa perm =
     kbind (map_turn pg va perm (va, pa)) (\<lambda>r. case r of
       Inl x \<Rightarrow> kloop 1048576 (map_turn pg va perm) x | Inr y \<Rightarrow> kret y)"
proof -
  assume va: "va mod PGSIZE = 0"
  have "va + PGSIZE - 1 = va + 4095" by (simp add: PGSIZE_def)
  moreover have "PGROUNDDOWN (va + 4095) = va" by (rule page_off [OF va]) (simp add: word_less_nat_alt)
  moreover have "PGROUNDDOWN va = va" using va by (simp only: down_aligned)
  moreover have "kloop 1048577 b x = kbind (b x) (\<lambda>r. case r of Inl x' \<Rightarrow> kloop 1048576 b x' | Inr y \<Rightarrow> kret y)"
    for b :: "u32 \<times> u32 \<Rightarrow> ((u32 \<times> u32) + int, 'a kmem_scheme) K" and x
    using kloop.simps(2) [of 1048576 b x] by (simp only: Suc_numeral add_num_simps)
  ultimately show ?thesis by (simp only: mappages_def)
qed

text \<open>
  C13. Mapping one page changes the translation of that page and of no other. In a well-formed
  directory, for an aligned page that is not mapped, \<open>mappages\<close> either returns 0 with the entry
  set and every other entry (of every address, kernel or user) as it was, the directory still
  well formed, and no lock, process or register changed; or, when a table is needed and memory
  is full, it returns -1.
\<close>

lemma mappages_one_page:
  assumes "kmem_ok s ps" and "pd_ok (mem s) ps pg" and "va mod PGSIZE = 0"
    and "\<not> present (pte_of (mem s) pg va)"
  shows "if present (pde_at (mem s) pg (PDX va)) \<or> ps \<noteq> []
    then \<exists>t qs. mappages pg va PGSIZE pa perm s = Ok 0 t \<and> kmem_ok t qs \<and> pd_ok (mem t) qs pg \<and>
      pte_of (mem t) pg va = pa OR perm OR PTE_P \<and>
      (\<forall>v. PGROUNDDOWN v \<noteq> va \<longrightarrow> pte_of (mem t) pg v = pte_of (mem s) pg v) \<and> same_kernel t s
    else mappages pg va PGSIZE pa perm s = Ok (- 1) s"
proof -
  have down: "PGROUNDDOWN va = va" using assms(3) by (simp only: down_aligned)
  show ?thesis
  proof (cases "present (pde_at (mem s) pg (PDX va))")
    case True
    obtain t where t: "map_turn pg va perm (va, pa) s = Ok (Inr 0) t" "kmem_ok t ps" "pd_ok (mem t) ps pg"
      "pte_of (mem t) pg va = pa OR perm OR PTE_P"
      "\<forall>v. PGROUNDDOWN v \<noteq> PGROUNDDOWN va \<longrightarrow> pte_of (mem t) pg v = pte_of (mem s) pg v" "same_kernel t s"
      using map_turn_free [OF walkpgdir_hit [OF True] assms(1,2) True _ same_kernel_refl assms(4)] by blast
    then have "mappages pg va PGSIZE pa perm s = Ok 0 t"
      by (simp add: mappages_one_turn [OF assms(3)] kbind_def)
    with t show ?thesis unfolding down if_P [OF disjI1 [OF True]]
      by (intro exI [of _ t] exI [of _ ps] conjI)
  next
    case False
    show ?thesis
    proof (cases ps)
      case Nil
      then have "map_turn pg va perm (va, pa) s = Ok (Inr (- 1)) s"
        using walkpgdir_full [of s pg va] assms(1) False by (simp add: map_turn_def kbind_def)
      then show ?thesis using False Nil by (simp add: mappages_one_turn [OF assms(3)] kbind_def)
    next
      case (Cons p qs)
      then have some: "ps \<noteq> []" by simp
      obtain u where u: "walkpgdir pg va True s = Ok (p + 4 * PTX va) u" "kmem_ok u qs" "pd_ok (mem u) qs pg"
        "present (pde_at (mem u) pg (PDX va))" "table_of (pde_at (mem u) pg (PDX va)) = p"
        "\<forall>v. pte_of (mem u) pg v = pte_of (mem s) pg v" "same_kernel u s"
        using walkpgdir_make [of s p qs pg va] assms(1,2) False Cons by auto
      obtain t where t: "map_turn pg va perm (va, pa) s = Ok (Inr 0) t" "kmem_ok t qs" "pd_ok (mem t) qs pg"
        "pte_of (mem t) pg va = pa OR perm OR PTE_P"
        "\<forall>v. PGROUNDDOWN v \<noteq> PGROUNDDOWN va \<longrightarrow> pte_of (mem t) pg v = pte_of (mem s) pg v" "same_kernel t s"
        using map_turn_free [of pg va s u, unfolded u(5), OF u(1-4,6,7) assms(4)] by blast
      then have "mappages pg va PGSIZE pa perm s = Ok 0 t"
        by (simp add: mappages_one_turn [OF assms(3)] kbind_def)
      with t show ?thesis unfolding down if_P [OF disjI2 [OF some]]
        by (intro exI [of _ t] exI [of _ qs] conjI)
    qed
  qed
qed

text \<open>A directory with no table yet at \<open>0x80120000\<close>, and the page \<open>0x80110000\<close> free.\<close>

lemma mappages_one_page_witness:
  "\<exists>t. mappages 0x80120000 0x1000 PGSIZE 0x200000 (PTE_W OR PTE_U) small_kmem = Ok 0 t \<and>
     pte_of (mem t) 0x80120000 0x1000 = 0x200007 \<and> pte_of (mem t) 0x80120000 0x2000 = 0"
proof -
  have zero: "pde_at (mem small_kmem) pg i = 0" for pg i by (simp add: pde_at_def ld32_def)
  then have "pd_ok (mem small_kmem) [0x80110000] 0x80120000"
    by (simp add: pd_ok_def present_def PGSIZE_def)
  moreover have old: "pte_of (mem small_kmem) pg v = 0" for pg v
    using zero by (simp add: pte_of_def Let_def present_def)
  moreover have "PGROUNDDOWN 0x2000 \<noteq> 0x1000" by (simp add: PGROUNDDOWN_def PGSIZE_def)
  moreover have "(0x200000 :: u32) OR (PTE_W OR PTE_U) OR PTE_P = 0x200007"
    by (simp add: PTE_W_def PTE_U_def PTE_P_def)
  moreover have "(0x1000 :: u32) mod PGSIZE = 0" by (simp add: PGSIZE_def)
  ultimately show ?thesis
    using mappages_one_page [OF small_kmem_ok(1), of "0x80120000" "0x1000" "0x200000" "PTE_W OR PTE_U"]
    by (auto simp: present_def)
qed

end
