(* ===== verification/Codec.thy ===== *)
theory Codec
  imports Prelude
begin

text \<open>
  Structures in disk blocks: little-endian numbers at byte offsets of a block, as the C code
  reads and writes them through a pointer into \<open>b->data\<close>. \<open>field_store\<close> is the contract of such
  an array of fields; the log header, inodes, directory entries, indirect blocks and the
  super block all use it.
\<close>

type_synonym block = "u8 list"

fun le_val :: "u8 list \<Rightarrow> nat" where
  "le_val [] = 0"
| "le_val (b # bs) = unat b + 256 * le_val bs"

fun le_bytes :: "nat \<Rightarrow> nat \<Rightarrow> u8 list" where
  "le_bytes 0 v = []"
| "le_bytes (Suc w) v = of_nat (v mod 256) # le_bytes w (v div 256)"

definition get_le :: "nat \<Rightarrow> block \<Rightarrow> nat \<Rightarrow> nat" where
  "get_le w bs off = le_val (take w (drop off bs))"

definition put_bytes :: "nat \<Rightarrow> u8 list \<Rightarrow> block \<Rightarrow> block" where
  "put_bytes off xs bs = take off bs @ xs @ drop (off + length xs) bs"

definition put_le :: "nat \<Rightarrow> nat \<Rightarrow> nat \<Rightarrow> block \<Rightarrow> block" where
  "put_le w off v bs = put_bytes off (le_bytes w v) bs"

definition get_bytes :: "nat \<Rightarrow> nat \<Rightarrow> block \<Rightarrow> u8 list" where
  "get_bytes off n bs = take n (drop off bs)"

lemma le_bytes_length [simp]: "length (le_bytes w v) = w"
  by (induction w arbitrary: v) simp_all

lemma le_val_bytes: "v < 256 ^ w \<Longrightarrow> le_val (le_bytes w v) = v"
proof (induction w arbitrary: v)
  case 0
  then show ?case by simp
next
  case (Suc w)
  have "v div 256 < 256 ^ w" using Suc.prems by (simp add: div_less_iff_less_mult mult.commute)
  moreover have "unat (of_nat (v mod 256) :: u8) = v mod 256" by (simp add: unat_of_nat take_bit_eq_mod)
  ultimately show ?case by (simp add: Suc.IH)
qed

lemma le_val_less: "le_val bs < 256 ^ length bs"
proof (induction bs)
  case Nil
  then show ?case by simp
next
  case (Cons b bs)
  have "unat b < 256" using unsigned_less [of b] by simp
  with Cons show ?case by simp
qed

lemma le_val_zero [simp]: "le_val (replicate n 0) = 0"
  by (induction n) simp_all

lemma get_le_zero [simp]: "get_le w (replicate n 0) off = 0"
  by (simp add: get_le_def)

lemma put_bytes_length [simp]: "off + length xs \<le> length bs \<Longrightarrow> length (put_bytes off xs bs) = length bs"
  by (simp add: put_bytes_def)

lemma put_le_length [simp]: "off + w \<le> length bs \<Longrightarrow> length (put_le w off v bs) = length bs"
  by (simp add: put_le_def)

lemma put_bytes_nth:
  "off + length xs \<le> length bs \<Longrightarrow> i < length bs \<Longrightarrow>
     put_bytes off xs bs ! i = (if off \<le> i \<and> i < off + length xs then xs ! (i - off) else bs ! i)"
  by (auto simp: put_bytes_def nth_append min_def)

lemma get_put_bytes_same:
  "off + length xs \<le> length bs \<Longrightarrow> get_bytes off (length xs) (put_bytes off xs bs) = xs"
  by (simp add: get_bytes_def put_bytes_def)

lemma get_put_bytes_other:
  assumes "off + length xs \<le> length bs" and "off' + n \<le> off \<or> off + length xs \<le> off'"
  shows "get_bytes off' n (put_bytes off xs bs) = get_bytes off' n bs"
proof (rule nth_equalityI)
  show "length (get_bytes off' n (put_bytes off xs bs)) = length (get_bytes off' n bs)"
    using assms(1) by (simp add: get_bytes_def)
  fix i assume "i < length (get_bytes off' n (put_bytes off xs bs))"
  then have "i < n" "off' + i < length bs" using assms(1) by (auto simp: get_bytes_def)
  with assms show "get_bytes off' n (put_bytes off xs bs) ! i = get_bytes off' n bs ! i"
    by (auto simp: get_bytes_def put_bytes_nth)
qed

lemma get_le_bytes: "get_le w bs off = le_val (get_bytes off w bs)"
  by (simp add: get_le_def get_bytes_def)

lemma get_le_less: "get_le w bs off < 256 ^ w"
proof -
  have "length (take w (drop off bs)) \<le> w" by simp
  then have "(256 :: nat) ^ length (take w (drop off bs)) \<le> 256 ^ w" by (rule power_increasing) simp
  with le_val_less [of "take w (drop off bs)"] show ?thesis unfolding get_le_def by (rule less_le_trans)
qed

lemma get_put_le_same:
  "off + w \<le> length bs \<Longrightarrow> v < 256 ^ w \<Longrightarrow> get_le w (put_le w off v bs) off = v"
  using get_put_bytes_same [of off "le_bytes w v" bs]
  by (simp add: get_le_bytes put_le_def le_val_bytes)

lemma get_put_le_other:
  "off + w \<le> length bs \<Longrightarrow> off' + w' \<le> off \<or> off + w \<le> off' \<Longrightarrow>
     get_le w' (put_le w off v bs) off' = get_le w' bs off'"
  using get_put_bytes_other [of off "le_bytes w v" bs off' w'] by (simp add: get_le_bytes put_le_def)

section \<open>Arrays of fields\<close>

text \<open>
  An array of numbered fields in a block: where field \<open>k\<close> is, and how it is read and written.
\<close>

locale field_store =
  fixes get :: "block \<Rightarrow> nat \<Rightarrow> 'v"
    and put :: "nat \<Rightarrow> 'v \<Rightarrow> block \<Rightarrow> block"
    and ok :: "'v \<Rightarrow> bool"
    and num :: nat
    and bytes :: nat
  assumes put_length: "length bs = bytes \<Longrightarrow> k < num \<Longrightarrow> length (put k v bs) = bytes"
    and get_put: "length bs = bytes \<Longrightarrow> k < num \<Longrightarrow> ok v \<Longrightarrow> get (put k v bs) k = v"
    and get_put_ne: "length bs = bytes \<Longrightarrow> k < num \<Longrightarrow> j < num \<Longrightarrow> j \<noteq> k \<Longrightarrow> get (put k v bs) j = get bs j"
begin

text \<open>Writing a list of fields from index \<open>k\<close> on, as the copying loops do.\<close>

fun put_list :: "nat \<Rightarrow> 'v list \<Rightarrow> block \<Rightarrow> block" where
  "put_list k [] bs = bs"
| "put_list k (v # vs) bs = put_list (Suc k) vs (put k v bs)"

lemma put_list_length: "length bs = bytes \<Longrightarrow> k + length vs \<le> num \<Longrightarrow> length (put_list k vs bs) = bytes"
  by (induction vs arbitrary: k bs) (simp_all add: put_length)

lemma get_put_list:
  "length bs = bytes \<Longrightarrow> k + length vs \<le> num \<Longrightarrow> \<forall>v \<in> set vs. ok v \<Longrightarrow> j < num \<Longrightarrow>
     get (put_list k vs bs) j = (if k \<le> j \<and> j < k + length vs then vs ! (j - k) else get bs j)"
proof (induction vs arbitrary: k bs)
  case Nil
  then show ?case by auto
next
  case (Cons v vs)
  then show ?case
    by (auto simp: put_length get_put get_put_ne nth_Cons')
qed

lemma get_list:
  assumes "length bs = bytes" and "k + length vs \<le> num" and "\<forall>v \<in> set vs. ok v"
  shows "map (\<lambda>i. get (put_list k vs bs) (k + i)) [0..<length vs] = vs"
  by (rule nth_equalityI) (use assms get_put_list in auto)

end

text \<open>The 128 words of a block: the log header and indirect blocks.\<close>

definition word_at :: "block \<Rightarrow> nat \<Rightarrow> nat" where
  "word_at bs k = get_le 4 bs (4 * k)"

definition put_word :: "nat \<Rightarrow> nat \<Rightarrow> block \<Rightarrow> block" where
  "put_word k v bs = put_le 4 (4 * k) v bs"

interpretation words: field_store word_at put_word "\<lambda>v. v < 4294967296" 128 512
proof
  fix bs :: block and k j v :: nat
  assume b: "length bs = 512" "k < 128"
  then show "length (put_word k v bs) = 512" by (simp add: put_word_def)
  show "word_at (put_word k v bs) k = v" if "v < 4294967296"
    using b that by (simp add: word_at_def put_word_def get_put_le_same)
  show "word_at (put_word k v bs) j = word_at bs j" if "j < 128" "j \<noteq> k"
  proof -
    have "4 * j + 4 \<le> 4 * k \<or> 4 * k + 4 \<le> 4 * j" using that(2) by linarith
    then show ?thesis using b by (simp add: word_at_def put_word_def get_put_le_other)
  qed
qed

fun put_words :: "nat \<Rightarrow> nat list \<Rightarrow> block \<Rightarrow> block" where
  "put_words k [] bs = bs"
| "put_words k (v # vs) bs = put_words (Suc k) vs (put_word k v bs)"

lemma put_words_list: "put_words k vs bs = words.put_list k vs bs"
  by (induction vs arbitrary: k bs) simp_all

end
