(* ===== verification/Ide.thy ===== *)
theory Ide
  imports Kalloc Codec
begin

text \<open>
  kernel/ide.c and struct buf. Buffers are named by their index in \<open>bcache.buf\<close>, the three bits of
  \<open>flags\<close> are three booleans, and the request queue threaded through \<open>qnext\<close> is the list of its
  entries. The drive is part of the state: what its blocks hold, its status register, the unit and
  sector latched by the last command, and (for the crash argument of the log) every block
  written so far, oldest first.

  A process that sleeps for the disk is run on by the interrupt: \<open>sleep_until\<close> delivers
  interrupts until the sleeper has been woken, then gives it the CPU back.
\<close>

unbundle bit_operations_syntax

definition BSIZE :: nat where "BSIZE = 512"
definition FSSIZE :: nat where "FSSIZE = 1000"
definition NBUF :: nat where "NBUF = 30"

record buf =
  b_busy :: bool
  b_valid :: bool
  b_dirty :: bool
  b_dev :: nat
  b_blockno :: nat
  b_data :: block

record ide = kmem +
  bufs :: "buf list"
  idequeue :: "nat list"
  havedisk1 :: bool
  ide_status :: u8
  ide_unit :: nat
  ide_sector :: nat
  disk :: "nat \<Rightarrow> nat \<Rightarrow> block"
  dwrites :: "(nat \<times> nat \<times> block) list"

definition upd_buf :: "nat \<Rightarrow> (buf \<Rightarrow> buf) \<Rightarrow> 'z ide_scheme \<Rightarrow> 'z ide_scheme" where
  "upd_buf b f s = s\<lparr>bufs := (bufs s)[b := f (bufs s ! b)]\<rparr>"

lemma upd_buf_sel [simp]:
  "bufs (upd_buf b f s) = (bufs s)[b := f (bufs s ! b)]"
  "idequeue (upd_buf b f s) = idequeue s" "havedisk1 (upd_buf b f s) = havedisk1 s"
  "ide_status (upd_buf b f s) = ide_status s" "disk (upd_buf b f s) = disk s"
  "dwrites (upd_buf b f s) = dwrites s" "held (upd_buf b f s) = held s"
  "procs (upd_buf b f s) = procs s" "curproc (upd_buf b f s) = curproc s"
  by (simp_all add: upd_buf_def)

section \<open>Waiting for an interrupt\<close>

text \<open>
  The scheduler side of a sleep: \<open>ptable.lock\<close> is free while interrupts \<open>irq\<close> arrive (at most
  \<open>n\<close> of them), then the woken process \<open>i\<close> is dispatched. A process nobody wakes stays asleep.
\<close>

fun irqs :: "nat \<Rightarrow> (unit, 'z pt_scheme) K \<Rightarrow> chan \<Rightarrow> nat \<Rightarrow> (unit, 'z pt_scheme) K" where
  "irqs n irq c i = kbind (kget (\<lambda>s. p_state (procs s ! i))) (\<lambda>st.
     if st = RUNNABLE then kret ()
     else case n of 0 \<Rightarrow> (\<lambda>s. Sleep c s) | Suc k \<Rightarrow> kseq irq (irqs k irq c i))"

declare irqs.simps [simp del]

definition sleep_until :: "nat \<Rightarrow> (unit, 'z pt_scheme) K \<Rightarrow> chan \<Rightarrow> lockid \<Rightarrow> (unit, 'z pt_scheme) K" where
  "sleep_until n irq c lk = (\<lambda>s. case ksleep c lk s :: (unit, _) res of
     Sleep c' t \<Rightarrow> with_proc (\<lambda>i. kblock
       [rel LPtable,
        irqs n irq c i,
        acq LPtable,
        kmod (upd_proc i (\<lambda>p. p\<lparr>p_state := RUNNING\<rparr>)),
        sleep_back lk]) t
   | r \<Rightarrow> r)"

section \<open>The driver\<close>

text \<open>
  The status register is polled until it shows ready and not busy; a register that never does
  is polled for ever.
\<close>

definition idewait :: "bool \<Rightarrow> (int, 'z ide_scheme) K" where
  "idewait checkerr = kbind (kget ide_status) (\<lambda>r.
     if r AND (0x80 OR 0x40) \<noteq> 0x40 then khang
     else kret (if checkerr \<and> r AND (0x20 OR 0x01) \<noteq> 0 then - 1 else 0))"

text \<open>
  The slave interrupt goes to the last CPU. \<open>poll\<close> is what the status port of drive 1 shows at each of the 1000 reads.
\<close>

definition ideinit :: "(nat \<Rightarrow> u8) \<Rightarrow> (unit, 'z ide_scheme) K" where
  "ideinit poll = kblock
     [picenable IRQ_IDE,
      kbind (kget ncpu) (\<lambda>n. ioapicenable IRQ_IDE (int n - 1)),
      kbind (idewait False) (\<lambda>_. kret ()),
      outb 0x1f6 (0xe0 OR push_bit 4 1),
      kwhen (first_idx (\<lambda>i. poll i \<noteq> 0) [0..<1000] \<noteq> None) (kmod (havedisk1_update (\<lambda>_. True))),
      outb 0x1f6 (0xe0 OR push_bit 4 0)]"

text \<open>
  The command registers carry the unit bit and the low 28 bits of the sector. A write command
  takes its data at once.
\<close>

definition idestart :: "nat \<Rightarrow> (unit, 'z ide_scheme) K" where
  "idestart b = kbind (kget (\<lambda>s. bufs s ! b)) (\<lambda>bp.
     if FSSIZE \<le> b_blockno bp then kpanic ''incorrect blockno''
     else let sector_per_block = BSIZE div 512; sector = b_blockno bp * sector_per_block
       in if 7 < sector_per_block then kpanic ''idestart''
       else kbind (idewait False) (\<lambda>_.
         let u = b_dev bp mod 2; n = sector mod 268435456
         in kseq (kmod (\<lambda>s. s\<lparr>ide_unit := u, ide_sector := n\<rparr>))
           (kwhen (b_dirty bp) (kmod (\<lambda>s. s\<lparr>disk := (disk s)(u := (disk s u)(n := b_data bp)),
              dwrites := dwrites s @ [(u, n, b_data bp)]\<rparr>)))))"

definition ideintr :: "(unit, 'z ide_scheme) K" where
  "ideintr = kseq (acq LIde) (kbind (kget idequeue) (\<lambda>q. case q of
     [] \<Rightarrow> rel LIde
   | b # bs \<Rightarrow> kblock
      [kmod (idequeue_update (\<lambda>_. bs)),
       kbind (kget (\<lambda>s. b_dirty (bufs s ! b))) (\<lambda>dirty.
         if dirty then kret ()
         else kbind (idewait True) (\<lambda>r. kwhen (0 \<le> r)
           (kmod (\<lambda>s. upd_buf b (\<lambda>bp. bp\<lparr>b_data := disk s (ide_unit s) (ide_sector s)\<rparr>) s)))),
       kmod (upd_buf b (\<lambda>bp. bp\<lparr>b_valid := True\<rparr>)),
       kmod (upd_buf b (\<lambda>bp. bp\<lparr>b_dirty := False\<rparr>)),
       wakeup (ChBuf b),
       (case bs of [] \<Rightarrow> kret () | b' # _ \<Rightarrow> idestart b'),
       rel LIde]))"

text \<open>
  A turn of the wait loop sleeps until this buffer's interrupt has come; with at most \<open>NBUF\<close>
  requests ahead of it, \<open>NBUF + 1\<close> interrupts and turns are enough.
\<close>

definition ide_wait :: "nat \<Rightarrow> (unit, 'z ide_scheme) K" where
  "ide_wait b = kloop (NBUF + 1) (\<lambda>_. kbind (kget (\<lambda>s. bufs s ! b)) (\<lambda>bp.
     if b_valid bp \<and> \<not> b_dirty bp then kret (Inr ())
     else kseq (sleep_until (Suc NBUF) ideintr (ChBuf b) LIde) (kret (Inl ())))) ()"

definition iderw :: "nat \<Rightarrow> (unit, 'z ide_scheme) K" where
  "iderw b = kbind (kget (\<lambda>s. (bufs s ! b, havedisk1 s))) (\<lambda>(bp, have1).
     if \<not> b_busy bp then kpanic ''iderw: buf not busy''
     else if b_valid bp \<and> \<not> b_dirty bp then kpanic ''iderw: nothing to do''
     else if b_dev bp \<noteq> 0 \<and> \<not> have1 then kpanic ''iderw: ide disk 1 not present''
     else kblock
       [acq LIde,
        kmod (\<lambda>s. s\<lparr>idequeue := idequeue s @ [b]\<rparr>),
        kbind (kget idequeue) (\<lambda>q. kwhen (hd q = b) (idestart b)),
        ide_wait b,
        rel LIde])"

section \<open>A request with nobody else waiting\<close>

definition awake :: "'z pt_scheme \<Rightarrow> nat \<Rightarrow> bool" where
  "awake s i \<longleftrightarrow> curproc s = Some i \<and> i < length (procs s) \<and>
     p_state (procs s ! i) = RUNNING \<and> p_chan (procs s ! i) = None"

lemma awake_wake: "awake s i \<Longrightarrow> awake (s\<lparr>procs := map (wake c) (procs s)\<rparr>) i"
  by (simp add: awake_def wake_def)

text \<open>A sleep that one interrupt ends.\<close>

lemma sleep_until_one:
  assumes aw: "awake s i" and lk: "held s = [lk]" "lk \<noteq> LPtable"
    and irq: "irq (upd_proc i (\<lambda>p. p\<lparr>p_chan := Some c, p_state := SLEEPING\<rparr>) (s\<lparr>held := []\<rparr>)) =
      Ok () (t\<lparr>procs := map (wake c) ((procs s)[i := (procs s ! i)\<lparr>p_chan := Some c, p_state := SLEEPING\<rparr>])\<rparr>)"
    and t: "held t = []" "curproc t = curproc s"
  shows "sleep_until (Suc n) irq c lk s = Ok () (t\<lparr>procs := map (wake c) (procs s), held := [lk]\<rparr>)"
proof -
  have i: "curproc s = Some i" "i < length (procs s)" "p_state (procs s ! i) = RUNNING" "p_chan (procs s ! i) = None"
    using aw by (simp_all add: awake_def)
  let ?p = "(procs s ! i)\<lparr>p_chan := Some c, p_state := SLEEPING\<rparr>"
  have same: "(map (wake c) ((procs s)[i := ?p]))[i := (wake c ?p)\<lparr>p_state := RUNNING, p_chan := None\<rparr>]
    = map (wake c) (procs s)"
  proof (rule nth_equalityI)
    fix j assume "j < length ((map (wake c) ((procs s)[i := ?p]))[i := (wake c ?p)\<lparr>p_state := RUNNING, p_chan := None\<rparr>])"
    then show "(map (wake c) ((procs s)[i := ?p]))[i := (wake c ?p)\<lparr>p_state := RUNNING, p_chan := None\<rparr>] ! j
      = map (wake c) (procs s) ! j"
      using i by (cases "procs s ! i") (auto simp: nth_list_update wake_def)
  qed simp
  have sl: "ksleep c lk s = (Sleep c (upd_proc i (\<lambda>p. p\<lparr>p_chan := Some c, p_state := SLEEPING\<rparr>)
      (s\<lparr>held := [LPtable]\<rparr>)) :: (unit, _) res)"
    by (rule ksleep_apply [OF i(1,2) lk(1)])
  have un: "upd_proc i (\<lambda>p. p\<lparr>p_chan := Some c, p_state := SLEEPING\<rparr>) (s\<lparr>held := [LPtable]\<rparr>)\<lparr>held := []\<rparr> =
    upd_proc i (\<lambda>p. p\<lparr>p_chan := Some c, p_state := SLEEPING\<rparr>) (s\<lparr>held := []\<rparr>)"
    by (simp add: upd_proc_def)
  have st: "p_state (procs (upd_proc i (\<lambda>p. p\<lparr>p_chan := Some c, p_state := SLEEPING\<rparr>) (s\<lparr>held := []\<rparr>)) ! i) = SLEEPING"
    using i by simp
  have woken: "irqs (Suc n) irq c i (upd_proc i (\<lambda>p. p\<lparr>p_chan := Some c, p_state := SLEEPING\<rparr>) (s\<lparr>held := []\<rparr>)) =
      Ok () (t\<lparr>procs := map (wake c) ((procs s)[i := ?p])\<rparr>)"
    using i irq st by (simp add: irqs.simps kseq_def kbind_def wake_def)
  have "rel LPtable (upd_proc i (\<lambda>p. p\<lparr>p_chan := Some c, p_state := SLEEPING\<rparr>) (s\<lparr>held := [LPtable]\<rparr>)) =
      Ok () (upd_proc i (\<lambda>p. p\<lparr>p_chan := Some c, p_state := SLEEPING\<rparr>) (s\<lparr>held := []\<rparr>))"
    by (simp add: rel_apply un)
  then show ?thesis
    using i lk(2) t same woken
    by (simp add: sleep_until_def sl with_proc_def kseq_def kbind_def acq_apply rel_apply sleep_back_def)
       (simp add: upd_proc_def same)
qed

definition drive_ok :: "'z ide_scheme \<Rightarrow> bool" where
  "drive_ok s \<longleftrightarrow> ide_status s = 0x40 \<and> idequeue s = []"

lemma idewait_ok: "ide_status s = 0x40 \<Longrightarrow> idewait e s = Ok 0 s"
  by (simp add: idewait_def)

text \<open>The state after a request of \<open>b\<close> that found the driver idle.\<close>

definition served :: "nat \<Rightarrow> 'z ide_scheme \<Rightarrow> 'z ide_scheme" where
  "served b s = (let bp = bufs s ! b; u = b_dev bp mod 2; n = b_blockno bp
     in s\<lparr>bufs := (bufs s)[b := bp\<lparr>b_data := (if b_dirty bp then b_data bp else disk s u n),
           b_valid := True, b_dirty := False\<rparr>],
         ide_unit := u, ide_sector := n,
         disk := (if b_dirty bp then (disk s)(u := (disk s u)(n := b_data bp)) else disk s),
         dwrites := (if b_dirty bp then dwrites s @ [(u, n, b_data bp)] else dwrites s),
         procs := map (wake (ChBuf b)) (procs s)\<rparr>)"

lemma idestart_apply:
  assumes "b_blockno (bufs s ! b) < FSSIZE" and "ide_status s = 0x40"
  shows "idestart b s = (let bp = bufs s ! b; u = b_dev bp mod 2; n = b_blockno bp in
    Ok () (if b_dirty bp then s\<lparr>ide_unit := u, ide_sector := n,
        disk := (disk s)(u := (disk s u)(n := b_data bp)), dwrites := dwrites s @ [(u, n, b_data bp)]\<rparr>
      else s\<lparr>ide_unit := u, ide_sector := n\<rparr>))"
  using assms by (simp add: idestart_def FSSIZE_def BSIZE_def kbind_def kseq_def idewait_ok Let_def)

lemma ideintr_apply:
  assumes "held s = []" and "idequeue s = [b]" and "ide_status s = 0x40" and "b < length (bufs s)"
  shows "ideintr s = Ok () (s\<lparr>idequeue := [],
    bufs := (bufs s)[b := (bufs s ! b)\<lparr>b_valid := True, b_dirty := False,
      b_data := (if b_dirty (bufs s ! b) then b_data (bufs s ! b) else disk s (ide_unit s) (ide_sector s))\<rparr>],
    procs := map (wake (ChBuf b)) (procs s)\<rparr>)"
  using assms
  by (cases "bufs s ! b")
    (simp add: ideintr_def kseq_def kbind_def acq_apply rel_apply wakeup_apply idewait_ok upd_buf_def)

lemma buf_fields [simp]:
  "bp\<lparr>b_valid := True, b_dirty := False, b_data := d\<rparr> = bp\<lparr>b_data := d, b_valid := True, b_dirty := False\<rparr>"
  by simp

lemma iderw_alone:
  assumes aw: "awake s i" and idle: "held s = []" "drive_ok s" and b: "b < length (bufs s)" "b_busy (bufs s ! b)"
    "b_blockno (bufs s ! b) < FSSIZE" "b_dev (bufs s ! b) = 0 \<or> havedisk1 s"
    and todo: "\<not> b_valid (bufs s ! b) \<or> b_dirty (bufs s ! b)"
  shows "iderw b s = Ok () (served b s)"
proof -
  let ?bp = "bufs s ! b"
  let ?u = "b_dev ?bp mod 2" and ?n = "b_blockno ?bp"
  define s1 where "s1 = (if b_dirty ?bp then s\<lparr>ide_unit := ?u, ide_sector := ?n,
      disk := (disk s)(?u := (disk s ?u)(?n := b_data ?bp)), dwrites := dwrites s @ [(?u, ?n, b_data ?bp)]\<rparr>
    else s\<lparr>ide_unit := ?u, ide_sector := ?n\<rparr>)\<lparr>held := [LIde], idequeue := [b]\<rparr>"
  have q: "ide_status s = 0x40" "idequeue s = []" using idle(2) by (simp_all add: drive_ok_def)
  have s1: "procs s1 = procs s" "curproc s1 = curproc s" "held s1 = [LIde]" "bufs s1 = bufs s"
    "idequeue s1 = [b]" "ide_status s1 = 0x40" "ide_unit s1 = ?u" "ide_sector s1 = ?n"
    by (simp_all add: s1_def q)
  have "disk s1 ?u ?n = (if b_dirty ?bp then b_data ?bp else disk s ?u ?n)" by (simp add: s1_def)
  note s1 = s1 this
  have start: "idestart b (s\<lparr>held := [LIde], idequeue := [b]\<rparr>) = Ok () s1"
    using idestart_apply [of "s\<lparr>held := [LIde], idequeue := [b]\<rparr>" b] b(3) q
    by (simp add: s1_def Let_def)
  let ?sl = "upd_proc i (\<lambda>p. p\<lparr>p_chan := Some (ChBuf b), p_state := SLEEPING\<rparr>) (s1\<lparr>held := []\<rparr>)"
  let ?data = "if b_dirty ?bp then b_data ?bp else disk s ?u ?n"
  define t where "t = s1\<lparr>held := [], idequeue := [],
     bufs := (bufs s)[b := ?bp\<lparr>b_data := ?data, b_valid := True, b_dirty := False\<rparr>]\<rparr>"
  have intr: "ideintr ?sl = Ok () (t\<lparr>procs := map (wake (ChBuf b))
      ((procs s1)[i := (procs s1 ! i)\<lparr>p_chan := Some (ChBuf b), p_state := SLEEPING\<rparr>])\<rparr>)"
    using ideintr_apply [of ?sl b] b(1) s1 by (simp add: upd_proc_def t_def)
  have aw1: "awake s1 i" using aw s1 by (simp add: awake_def)
  have slept: "sleep_until (Suc NBUF) ideintr (ChBuf b) LIde s1 =
      Ok () (t\<lparr>procs := map (wake (ChBuf b)) (procs s1), held := [LIde]\<rparr>)"
    using sleep_until_one [OF aw1 s1(3), where irq = ideintr and t = t and c = "ChBuf b" and n = NBUF] intr
    by (simp add: t_def s1)
  have waited: "ide_wait b s1 = Ok () (t\<lparr>procs := map (wake (ChBuf b)) (procs s1), held := [LIde]\<rparr>)"
  proof -
    have "\<not> (b_valid (bufs s1 ! b) \<and> \<not> b_dirty (bufs s1 ! b))" using todo by (auto simp: s1)
    moreover have "b_valid (bufs t ! b) \<and> \<not> b_dirty (bufs t ! b)" using b(1) by (simp add: t_def)
    ultimately show ?thesis
      unfolding ide_wait_def NBUF_def
      using slept by (auto simp: kloop_unfold kbind_def kseq_def NBUF_def)
  qed
  have "(t\<lparr>procs := map (wake (ChBuf b)) (procs s1), held := []\<rparr>) = served b s"
    using q idle(1) by (cases s) (simp add: served_def t_def s1_def Let_def)
  then have freed: "rel LIde (t\<lparr>procs := map (wake (ChBuf b)) (procs s1), held := [LIde]\<rparr>) = Ok () (served b s)"
    by (simp add: rel_apply)
  show ?thesis
    using b todo q idle(1) start waited freed
    by (simp add: iderw_def kseq_def kbind_def acq_apply)
qed

end
