(* ===== verification/Bio.thy ===== *)
theory Bio
  imports Ide
begin

text \<open>
  kernel/bio.c: the buffer cache. The circular list through \<open>next\<close> and \<open>prev\<close> is the list \<open>lru\<close> of
  the buffers in it, most recently used first; that the pointer surgery of \<open>brelse\<close> is a move to
  the front is a lemma about the pointers themselves. The contract of the layer is stated over
  what a device holds as seen through the cache (\<open>view\<close>), what is on the disk, which blocks are
  in use and which are dirty.
\<close>

record bcache = ide +
  lru :: "nat list"

section \<open>Operations\<close>

text \<open>Device number -1 marks a buffer that caches nothing yet.\<close>

definition binit :: "(unit, 'z bcache_scheme) K" where
  "binit = kseq (kmod (lru_update (\<lambda>_. []))) (kfor [0..<NBUF] (\<lambda>b. kblock
     [kmod (upd_buf b (\<lambda>bp. bp\<lparr>b_dev := 4294967295\<rparr>)),
      kmod (lru_update (\<lambda>l. b # l))]))"

definition bget :: "nat \<Rightarrow> nat \<Rightarrow> (nat, 'z bcache_scheme) K" where
  "bget dev blockno = kseq (acq LBcache) (kbind (kget (\<lambda>s. (bufs s, lru s))) (\<lambda>(bs, l).
     case find (\<lambda>b. b_dev (bs ! b) = dev \<and> b_blockno (bs ! b) = blockno) l of
       Some b \<Rightarrow>
         if \<not> b_busy (bs ! b) then
           kseq (kmod (upd_buf b (\<lambda>bp. bp\<lparr>b_busy := True\<rparr>))) (kseq (rel LBcache) (kret b))
         else ksleep (ChBuf b) LBcache
     | None \<Rightarrow>
        (case find (\<lambda>b. \<not> b_busy (bs ! b) \<and> \<not> b_dirty (bs ! b)) (rev l) of
           Some b \<Rightarrow>
             kseq (kmod (upd_buf b (\<lambda>bp. bp\<lparr>b_dev := dev, b_blockno := blockno,
                 b_busy := True, b_valid := False, b_dirty := False\<rparr>)))
               (kseq (rel LBcache) (kret b))
         | None \<Rightarrow> kpanic ''bget: no buffers'')))"

definition bread :: "nat \<Rightarrow> nat \<Rightarrow> (nat, 'z bcache_scheme) K" where
  "bread dev blockno = kbind (bget dev blockno) (\<lambda>b.
     kbind (kget (\<lambda>s. b_valid (bufs s ! b))) (\<lambda>v.
     kseq (kwhen (\<not> v) (iderw b)) (kret b)))"

definition bwrite :: "nat \<Rightarrow> (unit, 'z bcache_scheme) K" where
  "bwrite b = kbind (kget (\<lambda>s. b_busy (bufs s ! b))) (\<lambda>busy.
     if \<not> busy then kpanic ''bwrite''
     else kseq (kmod (upd_buf b (\<lambda>bp. bp\<lparr>b_dirty := True\<rparr>))) (iderw b))"

definition brelse :: "nat \<Rightarrow> (unit, 'z bcache_scheme) K" where
  "brelse b = kbind (kget (\<lambda>s. b_busy (bufs s ! b))) (\<lambda>busy.
     if \<not> busy then kpanic ''brelse''
     else kblock
       [acq LBcache,
        kmod (lru_update (\<lambda>l. b # remove1 b l)),
        kmod (upd_buf b (\<lambda>bp. bp\<lparr>b_busy := False\<rparr>)),
        wakeup (ChBuf b),
        rel LBcache])"

text \<open>What a caller does through the pointer \<open>bread\<close> gave it.\<close>

definition buf_data :: "nat \<Rightarrow> (block, 'z ide_scheme) K" where
  "buf_data b = kget (\<lambda>s. b_data (bufs s ! b))"

definition set_data :: "nat \<Rightarrow> block \<Rightarrow> (unit, 'z ide_scheme) K" where
  "set_data b d = kmod (upd_buf b (\<lambda>bp. bp\<lparr>b_data := d\<rparr>))"

section \<open>The pointers of the list\<close>

text \<open>\<open>h\<close> is the list's head; the assignments of \<open>brelse\<close> in their order.\<close>

record links =
  nxt :: "nat \<Rightarrow> nat"
  prv :: "nat \<Rightarrow> nat"

definition unlink :: "nat \<Rightarrow> links \<Rightarrow> links" where
  "unlink b L = (let L = L\<lparr>prv := (prv L)(nxt L b := prv L b)\<rparr>
     in L\<lparr>nxt := (nxt L)(prv L b := nxt L b)\<rparr>)"

definition push_front :: "nat \<Rightarrow> nat \<Rightarrow> links \<Rightarrow> links" where
  "push_front h b L =
     (let L = L\<lparr>nxt := (nxt L)(b := nxt L h)\<rparr>;
          L = L\<lparr>prv := (prv L)(b := h)\<rparr>;
          L = L\<lparr>prv := (prv L)(nxt L h := b)\<rparr>
      in L\<lparr>nxt := (nxt L)(h := b)\<rparr>)"

fun chain :: "(nat \<Rightarrow> nat) \<Rightarrow> nat \<Rightarrow> nat list \<Rightarrow> nat \<Rightarrow> bool" where
  "chain f a [] z = (f a = z)"
| "chain f a (x # xs) z = (f a = x \<and> chain f x xs z)"

definition ring :: "links \<Rightarrow> nat \<Rightarrow> nat list \<Rightarrow> bool" where
  "ring L h xs \<longleftrightarrow> distinct (h # xs) \<and> chain (nxt L) h xs h \<and> chain (prv L) h (rev xs) h"

lemma chain_upd: "a \<notin> set (b # xs) \<Longrightarrow> chain (f(a := v)) b xs z = chain f b xs z"
  by (induction xs arbitrary: b) auto

lemma chain_after: "chain f a (xs @ b # ys) z \<Longrightarrow> f b = hd (ys @ [z])"
  by (induction xs arbitrary: a) (cases ys; auto)+

lemma chain_skip:
  "chain f a (xs @ b # ys) z \<Longrightarrow> distinct (a # xs @ b # ys) \<Longrightarrow>
     chain (f(last (a # xs) := f b)) a (xs @ ys) z"
proof (induction xs arbitrary: a)
  case Nil
  show ?case
  proof (cases ys)
    case Nil
    with Nil.prems show ?thesis by simp
  next
    case (Cons y zs)
    then have "chain (f(a := f b)) y zs z" using Nil.prems by (subst chain_upd) auto
    with Cons Nil.prems show ?thesis by (simp del: fun_upd_apply add: fun_upd_same)
  qed
next
  case (Cons x xs)
  moreover have "last (x # xs) \<in> set (x # xs)" by (rule last_in_set) simp
  ultimately show ?case by auto
qed

lemma chain_front:
  "chain f a xs z \<Longrightarrow> b \<notin> set (a # xs) \<Longrightarrow> a \<notin> set xs \<Longrightarrow> chain (f(b := f a, a := b)) a (b # xs) z"
  by (cases xs) (auto simp: chain_upd)

lemma chain_last:
  "chain f a xs z \<Longrightarrow> b \<notin> set (a # xs) \<Longrightarrow> distinct (a # xs) \<Longrightarrow>
     chain (f(b := z, last (a # xs) := b)) a (xs @ [b]) z"
proof (induction xs arbitrary: a)
  case Nil
  then show ?case by simp
next
  case (Cons x xs)
  moreover have "last (x # xs) \<in> set (x # xs)" by (rule last_in_set) simp
  ultimately show ?case by auto
qed

lemma hd_last: "hd (xs @ [h]) = last (h # rev xs)"
  by (cases xs) simp_all

lemma unlink_ring:
  assumes "ring L h (xs @ b # ys)"
  shows "ring (unlink b L) h (xs @ ys)"
proof -
  have d: "distinct (h # xs @ b # ys)" and n: "chain (nxt L) h (xs @ b # ys) h"
    and p: "chain (prv L) h (rev ys @ b # rev xs) h"
    using assms by (simp_all add: ring_def)
  have q: "nxt L b = last (h # rev ys)" using chain_after [OF n] by (simp only: hd_last)
  have r: "prv L b = last (h # xs)" using chain_after [OF p] by (simp add: hd_last)
  have "nxt L b \<noteq> b" using d chain_after [OF n] by (cases ys) auto
  then have "unlink b L = L\<lparr>prv := (prv L)(nxt L b := prv L b), nxt := (nxt L)(prv L b := nxt L b)\<rparr>"
    by (simp add: unlink_def Let_def)
  moreover have "chain ((nxt L)(prv L b := nxt L b)) h (xs @ ys) h"
    unfolding r by (rule chain_skip [OF n d])
  moreover have "chain ((prv L)(nxt L b := prv L b)) h (rev ys @ rev xs) h"
    unfolding q by (rule chain_skip [OF p]) (use d in auto)
  ultimately show ?thesis using d by (simp add: ring_def)
qed

lemma push_front_ring:
  assumes "ring L h xs" and "b \<notin> set (h # xs)"
  shows "ring (push_front h b L) h (b # xs)"
proof -
  have d: "distinct (h # xs)" and n: "chain (nxt L) h xs h" and p: "chain (prv L) h (rev xs) h"
    using assms by (simp_all add: ring_def)
  have q: "nxt L h = last (h # rev xs)" using n d by (cases xs) auto
  have "push_front h b L = L\<lparr>nxt := (nxt L)(b := nxt L h, h := b),
      prv := (prv L)(b := h, last (h # rev xs) := b)\<rparr>"
    using assms(2) by (simp add: push_front_def Let_def q)
  moreover have "chain ((nxt L)(b := nxt L h, h := b)) h (b # xs) h"
    by (rule chain_front [OF n]) (use assms(2) d in auto)
  moreover have "chain ((prv L)(b := h, last (h # rev xs) := b)) h (rev xs @ [b]) h"
    by (rule chain_last [OF p]) (use assms(2) d in auto)
  ultimately show ?thesis using d assms(2) by (simp add: ring_def)
qed

text \<open>
  C39. The pointer surgery of \<open>brelse\<close> is a move to the front: on any well-formed circular list
  (forward and backward links agree) that contains the buffer, the six assignments leave a
  well-formed list with the buffer first and the others in their order.
\<close>

lemma brelse_links_move_front:
  assumes "ring L h xs" and "b \<in> set xs"
  shows "ring (push_front h b (unlink b L)) h (b # remove1 b xs)"
proof -
  obtain ys zs where xs: "xs = ys @ b # zs" using assms(2) by (meson split_list)
  then have "b \<notin> set (h # ys @ zs)" and "remove1 b xs = ys @ zs"
    using assms(1) by (auto simp: ring_def remove1_append)
  with push_front_ring [OF unlink_ring] assms(1) xs show ?thesis by simp
qed

lemma brelse_links_move_front_witness:
  "ring (push_front 9 2 (unlink 2 \<lparr>nxt = (\<lambda>_. 0)(9 := 1, 1 := 2, 2 := 3, 3 := 9),
      prv = (\<lambda>_. 0)(9 := 3, 3 := 2, 2 := 1, 1 := 9)\<rparr>)) 9 [2, 1, 3]"
  using brelse_links_move_front [of "\<lparr>nxt = (\<lambda>_. 0)(9 := 1, 1 := 2, 2 := 3, 3 := 9),
      prv = (\<lambda>_. 0)(9 := 3, 3 := 2, 2 := 1, 1 := 9)\<rparr>" 9 "[1, 2, 3]" 2]
  by (simp add: ring_def)

section \<open>What the cache shows of a device\<close>

definition slot :: "nat \<Rightarrow> 'z bcache_scheme \<Rightarrow> nat \<Rightarrow> nat option" where
  "slot d s n = first_idx (\<lambda>bp. b_dev bp = d \<and> b_blockno bp = n) (bufs s)"

definition view :: "nat \<Rightarrow> 'z bcache_scheme \<Rightarrow> nat \<Rightarrow> block" where
  "view d s n = (case slot d s n of Some b \<Rightarrow> b_data (bufs s ! b) | None \<Rightarrow> disk s (d mod 2) n)"

definition dirty_set :: "nat \<Rightarrow> 'z bcache_scheme \<Rightarrow> nat set" where
  "dirty_set d s = {n. \<exists>b. slot d s n = Some b \<and> b_dirty (bufs s ! b)}"

definition busy_set :: "nat \<Rightarrow> 'z bcache_scheme \<Rightarrow> nat set" where
  "busy_set d s = {n. \<exists>b. slot d s n = Some b \<and> b_busy (bufs s ! b)}"

text \<open>
  The invariant: a block is in one buffer at most; buffers of the device are valid; a buffer that
  is neither in use nor dirty holds what is on the disk; other buffers are idle.
\<close>

definition one_each :: "nat \<Rightarrow> buf list \<Rightarrow> bool" where
  "one_each d bs \<longleftrightarrow> (\<forall>b < NBUF. \<forall>c < NBUF. b_dev (bs ! b) = d \<longrightarrow> b_dev (bs ! c) = d \<longrightarrow>
     b_blockno (bs ! b) = b_blockno (bs ! c) \<longrightarrow> b = c)"

definition good_buf :: "nat \<Rightarrow> (nat \<Rightarrow> block) \<Rightarrow> buf \<Rightarrow> bool" where
  "good_buf d D bp \<longleftrightarrow> (if b_dev bp = d
     then b_valid bp \<and> (\<not> b_busy bp \<and> \<not> b_dirty bp \<longrightarrow> b_data bp = D (b_blockno bp))
     else \<not> b_busy bp \<and> \<not> b_dirty bp)"

definition bc_ok :: "nat \<Rightarrow> 'z bcache_scheme \<Rightarrow> bool" where
  "bc_ok d s \<longleftrightarrow> length (bufs s) = NBUF \<and> distinct (lru s) \<and> set (lru s) = {..<NBUF} \<and>
     one_each d (bufs s) \<and> (\<forall>b < NBUF. good_buf d (disk s (d mod 2)) (bufs s ! b))"

text \<open>A process runs, no lock is held, the drive is idle and there.\<close>

definition io_ok :: "nat \<Rightarrow> 'z bcache_scheme \<Rightarrow> nat \<Rightarrow> bool" where
  "io_ok d s i \<longleftrightarrow> awake s i \<and> held s = [] \<and> drive_ok s \<and> (d = 0 \<or> havedisk1 s)"

text \<open>What the block layer does not touch: all but its own state and who is woken.\<close>

definition proc_core :: "proc \<Rightarrow> proc" where
  "proc_core p = (if p_state p = SLEEPING then p\<lparr>p_state := RUNNABLE\<rparr> else p)"

definition rest :: "'z bcache_scheme \<Rightarrow> 'z bcache_scheme" where
  "rest s = s\<lparr>bufs := [], idequeue := [], ide_unit := 0, ide_sector := 0, disk := (\<lambda>_ _. []),
     dwrites := [], lru := [], procs := map proc_core (procs s)\<rparr>"

lemma proc_core_wake [simp]: "proc_core (wake c p) = proc_core p"
  by (simp add: proc_core_def wake_def)

lemma slot_iff:
  "bc_ok d s \<Longrightarrow> slot d s n = Some b \<longleftrightarrow> b < NBUF \<and> b_dev (bufs s ! b) = d \<and> b_blockno (bufs s ! b) = n"
  unfolding slot_def first_idx_Some bc_ok_def one_each_def by (metis less_trans less_irrefl)

lemma slot_None:
  "bc_ok d s \<Longrightarrow> slot d s n = None \<longleftrightarrow> (\<forall>b < NBUF. b_dev (bufs s ! b) = d \<longrightarrow> b_blockno (bufs s ! b) \<noteq> n)"
  unfolding slot_def first_idx_None bc_ok_def by (metis in_set_conv_nth nth_mem)

text \<open>A change to the buffer of block \<open>n\<close>, and possibly to the block on disk.\<close>

lemma bc_touch:
  assumes ok: "bc_ok d s" and sl: "slot d s n = Some b"
    and bufs: "bufs t = (bufs s)[b := bp]" "b_dev bp = d" "b_blockno bp = n" "b_valid bp"
    and lru: "distinct (lru t)" "set (lru t) = set (lru s)"
    and disk: "disk t = (disk s)(d mod 2 := (disk s (d mod 2))(n := x))"
    and clean: "\<not> b_busy bp \<Longrightarrow> \<not> b_dirty bp \<Longrightarrow> b_data bp = x"
  shows "bc_ok d t" and "slot d t = slot d s" and "view d t = (view d s)(n := b_data bp)"
    and "dirty_set d t = (if b_dirty bp then insert n (dirty_set d s) else dirty_set d s - {n})"
    and "busy_set d t = (if b_busy bp then insert n (busy_set d s) else busy_set d s - {n})"
proof -
  have b: "b < NBUF" "b_dev (bufs s ! b) = d" "b_blockno (bufs s ! b) = n" "length (bufs s) = NBUF"
    using sl slot_iff [OF ok] ok by (auto simp: bc_ok_def)
  show same: "slot d t = slot d s"
    unfolding slot_def bufs(1) by (rule ext, rule first_idx_upd_same) (simp add: bufs b)
  have other: "c \<noteq> b" if "slot d s m = Some c" "m \<noteq> n" for m c
    using that slot_iff [OF ok] b by auto
  have nth: "bufs t ! c = (if c = b then bp else bufs s ! c)" if "c < NBUF" for c
    using that b by (simp add: bufs(1))
  have key: "b_dev (bufs t ! c) = b_dev (bufs s ! c)" "b_blockno (bufs t ! c) = b_blockno (bufs s ! c)"
    if "c < NBUF" for c
    using that b bufs(2,3) by (simp_all add: nth)
  have "one_each d (bufs t)"
    using ok unfolding bc_ok_def one_each_def by (simp add: key)
  moreover have "good_buf d (disk t (d mod 2)) (bufs t ! c)" if c: "c < NBUF" for c
  proof (cases "c = b")
    case True
    then show ?thesis using c bufs(2-4) clean by (auto simp: nth disk good_buf_def)
  next
    case False
    then have "b_blockno (bufs s ! c) \<noteq> n" if "b_dev (bufs s ! c) = d"
      using that c b ok unfolding bc_ok_def one_each_def by blast
    moreover have "good_buf d (disk s (d mod 2)) (bufs s ! c)" using ok c by (simp add: bc_ok_def)
    ultimately show ?thesis using False c by (auto simp: nth disk good_buf_def)
  qed
  ultimately show "bc_ok d t"
    using ok b lru by (simp add: bc_ok_def bufs(1))
  have bt: "bufs t ! c = bufs s ! c" if "slot d s m = Some c" "m \<noteq> n" for m c
    using other [OF that] by (simp add: bufs(1))
  have bb: "bufs t ! b = bp" using nth [OF b(1)] by simp
  show "view d t = (view d s)(n := b_data bp)"
  proof
    fix m
    show "view d t m = ((view d s)(n := b_data bp)) m"
      using sl bt [of m] bb by (cases "m = n") (auto simp: view_def same disk split: option.splits)
  qed
  show "dirty_set d t = (if b_dirty bp then insert n (dirty_set d s) else dirty_set d s - {n})"
  proof (rule set_eqI)
    fix m
    show "m \<in> dirty_set d t \<longleftrightarrow>
        m \<in> (if b_dirty bp then insert n (dirty_set d s) else dirty_set d s - {n})"
      using sl bt [of m] bb by (cases "m = n") (auto simp: dirty_set_def same)
  qed
  show "busy_set d t = (if b_busy bp then insert n (busy_set d s) else busy_set d s - {n})"
  proof (rule set_eqI)
    fix m
    show "m \<in> busy_set d t \<longleftrightarrow>
        m \<in> (if b_busy bp then insert n (busy_set d s) else busy_set d s - {n})"
      using sl bt [of m] bb by (cases "m = n") (auto simp: busy_set_def same)
  qed
qed

text \<open>A clean idle buffer takes over an uncached block.\<close>

lemma bc_load:
  assumes ok: "bc_ok d s" and sl: "slot d s n = None" and b: "b < NBUF" "\<not> b_busy (bufs s ! b)" "\<not> b_dirty (bufs s ! b)"
    and bufs: "bufs t = (bufs s)[b := bp]" "b_dev bp = d" "b_blockno bp = n" "b_valid bp" "b_busy bp" "\<not> b_dirty bp"
      "b_data bp = disk s (d mod 2) n"
    and rest: "lru t = lru s" "disk t = disk s"
  shows "bc_ok d t" and "slot d t n = Some b" and "view d t = view d s"
    and "dirty_set d t = dirty_set d s" and "busy_set d t = insert n (busy_set d s)"
    and "\<And>m c. slot d s m = Some c \<Longrightarrow> c \<noteq> b \<Longrightarrow> slot d t m = Some c"
proof -
  have len: "length (bufs s) = NBUF" using ok by (simp add: bc_ok_def)
  have nth: "bufs t ! c = (if c = b then bp else bufs s ! c)" if "c < NBUF" for c
    using that b len by (simp add: bufs(1))
  have new: "b_blockno (bufs s ! c) \<noteq> n" if "c < NBUF" "b_dev (bufs s ! c) = d" for c
    using sl slot_None [OF ok] that by auto
  have "one_each d (bufs t)"
    using ok new b(1) bufs(2,3) unfolding bc_ok_def one_each_def by (simp add: nth) metis
  moreover have "good_buf d (disk t (d mod 2)) (bufs t ! c)" if "c < NBUF" for c
    using ok that bufs(2-7) by (simp add: nth bc_ok_def rest good_buf_def)
  ultimately show okt: "bc_ok d t"
    using ok len by (simp add: bc_ok_def bufs(1) rest)
  note iff = slot_iff [OF okt]
  show ns: "slot d t n = Some b" using b bufs(2,3) by (simp add: iff nth)
  have sl_t: "slot d t m = Some c \<longleftrightarrow> (if m = n then c = b else slot d s m = Some c \<and> c \<noteq> b)" for m c
    using b new [of c] bufs(2,3) by (cases "c = b"; cases "m = n") (auto simp: iff slot_iff [OF ok] nth)
  then show "slot d s m = Some c \<Longrightarrow> c \<noteq> b \<Longrightarrow> slot d t m = Some c" for m c using sl by auto
  have gone: "slot d t m = None" if "m \<noteq> n" "slot d s m = None \<or> slot d s m = Some b" for m
  proof (rule ccontr)
    assume "slot d t m \<noteq> None"
    then obtain c where "slot d t m = Some c" by blast
    then have "slot d s m = Some c \<and> c \<noteq> b" using sl_t [of m c] that(1) by simp
    with that(2) show False by simp
  qed
  have clean: "b_data (bufs s ! b) = disk s (d mod 2) m" if "slot d s m = Some b" for m
    using that b ok slot_iff [OF ok, of m b] by (auto simp: bc_ok_def good_buf_def)
  show "view d t = view d s"
  proof
    fix m
    show "view d t m = view d s m"
    proof (cases "m = n")
      case True
      then show ?thesis using sl b(1) bufs(7) ns by (simp add: view_def nth)
    next
      case m: False
      show ?thesis
      proof (cases "slot d s m")
        case None
        with gone m have "slot d t m = None" by simp
        with None show ?thesis by (simp add: view_def rest)
      next
        case (Some c)
        have "c < NBUF" using Some slot_iff [OF ok] by auto
        show ?thesis
        proof (cases "c = b")
          case True
          with gone m Some have "slot d t m = None" by simp
          then show ?thesis using clean Some True by (simp add: view_def rest)
        next
          case False
          then have "slot d t m = Some c" using sl_t m Some by simp
          then show ?thesis using Some False \<open>c < NBUF\<close> by (simp add: view_def nth)
        qed
      qed
    qed
  qed
  have lt: "c < NBUF" if "slot d s m = Some c" for m c using that slot_iff [OF ok] by auto
  have bt: "bufs t ! c = bufs s ! c" if "slot d s m = Some c" "c \<noteq> b" for m c
    using lt [OF that(1)] that(2) by (simp add: nth)
  have bb: "bufs t ! b = bp" using b(1) by (simp add: nth)
  show "dirty_set d t = dirty_set d s"
  proof (rule set_eqI)
    fix m
    show "m \<in> dirty_set d t \<longleftrightarrow> m \<in> dirty_set d s"
      using b(3) bufs(6) sl bt by (cases "m = n"; cases "slot d s m = Some b") (auto simp: dirty_set_def sl_t bb)
  qed
  show "busy_set d t = insert n (busy_set d s)"
  proof (rule set_eqI)
    fix m
    show "m \<in> busy_set d t \<longleftrightarrow> m \<in> insert n (busy_set d s)"
      using b(2) bufs(5) sl bt by (cases "m = n"; cases "slot d s m = Some b") (auto simp: busy_set_def sl_t bb)
  qed
qed

section \<open>The contract of the buffer cache\<close>

text \<open>
  \<open>BC d i s V D W Dy Bz\<close>: in state \<open>s\<close> process \<open>i\<close> can do I/O on device \<open>d\<close>, which shows the
  blocks \<open>V\<close>, has \<open>D\<close> on the disk after the writes \<open>W\<close>, the blocks \<open>Dy\<close> dirty and \<open>Bz\<close> in use.
\<close>

definition BC :: "nat \<Rightarrow> nat \<Rightarrow> 'z bcache_scheme \<Rightarrow> (nat \<Rightarrow> block) \<Rightarrow> (nat \<Rightarrow> block) \<Rightarrow>
    (nat \<times> nat \<times> block) list \<Rightarrow> nat set \<Rightarrow> nat set \<Rightarrow> bool" where
  "BC d i s V D W Dy Bz \<longleftrightarrow> bc_ok d s \<and> io_ok d s i \<and> view d s = V \<and> disk s (d mod 2) = D \<and>
     dwrites s = W \<and> dirty_set d s = Dy \<and> busy_set d s = Bz"

lemma slot_inj: "bc_ok d s \<Longrightarrow> slot d s n = Some b \<Longrightarrow> slot d s m = Some b \<Longrightarrow> n = m"
  by (simp add: slot_iff)

text \<open>While fewer than \<open>NBUF\<close> blocks are dirty or in use there is a buffer to recycle.\<close>

lemma clean_buffer:
  assumes ok: "bc_ok d s" and few: "card (dirty_set d s \<union> busy_set d s) < NBUF"
  shows "\<exists>b < NBUF. \<not> b_busy (bufs s ! b) \<and> \<not> b_dirty (bufs s ! b)"
proof (rule ccontr)
  assume none: "\<not> (\<exists>b < NBUF. \<not> b_busy (bufs s ! b) \<and> \<not> b_dirty (bufs s ! b))"
  let ?k = "\<lambda>b. b_blockno (bufs s ! b)"
  have dev: "b_dev (bufs s ! b) = d" if "b < NBUF" for b
  proof -
    have "good_buf d (disk s (d mod 2)) (bufs s ! b)" using ok that by (simp add: bc_ok_def)
    with none that show ?thesis by (auto simp: good_buf_def split: if_splits)
  qed
  have "inj_on ?k {..<NBUF}"
    using ok dev by (auto simp: inj_on_def bc_ok_def one_each_def)
  then have card: "card (?k ` {..<NBUF}) = NBUF" by (simp add: card_image)
  have "?k ` {..<NBUF} = dirty_set d s \<union> busy_set d s"
  proof
    show "?k ` {..<NBUF} \<subseteq> dirty_set d s \<union> busy_set d s"
      using none dev by (auto simp: dirty_set_def busy_set_def slot_iff [OF ok])
    show "dirty_set d s \<union> busy_set d s \<subseteq> ?k ` {..<NBUF}"
      by (auto simp: dirty_set_def busy_set_def slot_iff [OF ok])
  qed
  with card few show False by simp
qed

lemma find_lru_hit:
  assumes "bc_ok d s" and "slot d s n = Some b"
  shows "find (\<lambda>b. b_dev (bufs s ! b) = d \<and> b_blockno (bufs s ! b) = n) (lru s) = Some b"
proof -
  have "b \<in> set (lru s)" using assms slot_iff by (auto simp: bc_ok_def)
  then obtain c where c: "find (\<lambda>b. b_dev (bufs s ! b) = d \<and> b_blockno (bufs s ! b) = n) (lru s) = Some c"
    using assms slot_iff by (fastforce simp: find_None_iff)
  then have "c \<in> set (lru s)" "b_dev (bufs s ! c) = d" "b_blockno (bufs s ! c) = n"
    by (auto simp: find_Some_iff)
  then have "slot d s n = Some c" using assms(1) slot_iff by (auto simp: bc_ok_def)
  with c assms(2) show ?thesis by simp
qed

lemma find_lru_miss:
  "bc_ok d s \<Longrightarrow> slot d s n = None \<Longrightarrow>
     find (\<lambda>b. b_dev (bufs s ! b) = d \<and> b_blockno (bufs s ! b) = n) (lru s) = None"
  using slot_None by (auto simp: find_None_iff bc_ok_def)

lemma find_clean:
  assumes "bc_ok d s" and "\<exists>b < NBUF. \<not> b_busy (bufs s ! b) \<and> \<not> b_dirty (bufs s ! b)"
  shows "\<exists>b < NBUF. find (\<lambda>b. \<not> b_busy (bufs s ! b) \<and> \<not> b_dirty (bufs s ! b)) (rev (lru s)) = Some b \<and>
    \<not> b_busy (bufs s ! b) \<and> \<not> b_dirty (bufs s ! b)"
proof -
  obtain b where "find (\<lambda>b. \<not> b_busy (bufs s ! b) \<and> \<not> b_dirty (bufs s ! b)) (rev (lru s)) = Some b"
    using assms by (cases "find (\<lambda>b. \<not> b_busy (bufs s ! b) \<and> \<not> b_dirty (bufs s ! b)) (rev (lru s))")
      (auto simp: find_None_iff bc_ok_def)
  moreover from this have "b \<in> set (lru s)" "\<not> b_busy (bufs s ! b)" "\<not> b_dirty (bufs s ! b)"
    by (auto simp: find_Some_iff dest: nth_mem) (metis length_rev nth_mem set_rev)
  ultimately show ?thesis using assms(1) by (auto simp: bc_ok_def)
qed

lemma rest_served [simp]: "rest (served b s) = rest s"
  by (simp add: rest_def served_def Let_def comp_def)

lemma io_ok_served: "io_ok d s i \<Longrightarrow> io_ok d (served b s) i"
  by (auto simp: io_ok_def awake_def drive_ok_def served_def Let_def wake_def)

lemma bread_BC:
  assumes bc: "BC d i s V D W Dy Bz" and n: "n < FSSIZE" "n \<notin> Bz"
    and room: "slot d s n \<noteq> None \<or> card (Dy \<union> Bz) < NBUF"
  shows "\<exists>b t. bread d n s = Ok b t \<and> BC d i t V D W Dy (insert n Bz) \<and> slot d t n = Some b \<and>
    b_data (bufs t ! b) = V n \<and> (\<forall>m c. m \<in> Bz \<longrightarrow> slot d s m = Some c \<longrightarrow> slot d t m = Some c \<and> bufs t ! c = bufs s ! c) \<and>
    rest t = rest s"
proof -
  have ok: "bc_ok d s" and io: "io_ok d s i" and V: "view d s = V" and D: "disk s (d mod 2) = D"
    and W: "dwrites s = W" and Dy: "dirty_set d s = Dy" and Bz: "busy_set d s = Bz"
    using bc by (simp_all add: BC_def)
  have h: "held s = []" using io by (simp add: io_ok_def)
  have len: "length (bufs s) = NBUF" using ok by (simp add: bc_ok_def)
  show ?thesis
  proof (cases "slot d s n")
    case (Some b)
    let ?bp = "(bufs s ! b)\<lparr>b_busy := True\<rparr>"
    let ?t = "upd_buf b (\<lambda>bp. bp\<lparr>b_busy := True\<rparr>) s"
    have b: "b < NBUF" "b_dev (bufs s ! b) = d" "b_blockno (bufs s ! b) = n"
      using Some slot_iff [OF ok] by auto
    have nb: "\<not> b_busy (bufs s ! b)" using n(2) Bz Some by (auto simp: busy_set_def)
    have val: "b_valid (bufs s ! b)" using ok b by (auto simp: bc_ok_def good_buf_def)
    have "bread d n s = Ok b ?t"
      using find_lru_hit [OF ok Some] nb val h b(1) len
      by (simp add: bread_def bget_def kbind_def kseq_def acq_apply rel_apply)
        (simp add: upd_buf_def)
    moreover note touch = bc_touch [OF ok Some, of ?t ?bp "D n"]
    have "bc_ok d ?t" "slot d ?t = slot d s" "view d ?t = (view d s)(n := b_data (bufs s ! b))"
      "dirty_set d ?t = (if b_dirty (bufs s ! b) then insert n (dirty_set d s) else dirty_set d s - {n})"
      "busy_set d ?t = insert n (busy_set d s)"
      using touch b val ok by (simp_all add: D [symmetric] upd_buf_def bc_ok_def)
    moreover have "io_ok d ?t i" using io by (simp add: io_ok_def awake_def drive_ok_def)
    moreover have "view d s n = b_data (bufs s ! b)" using Some by (simp add: view_def)
    moreover have "n \<in> Dy \<longleftrightarrow> b_dirty (bufs s ! b)" using Some Dy by (auto simp: dirty_set_def)
    moreover have "rest ?t = rest s" by (simp add: rest_def upd_buf_def)
    moreover have "bufs ?t ! c = bufs s ! c" if "m \<in> Bz" "slot d s m = Some c" for m c
    proof -
      have "c \<noteq> b" using that n(2) slot_inj [OF ok Some, of m] by auto
      then show ?thesis by simp
    qed
    ultimately show ?thesis
      using Some V D W Dy Bz b(1) len
      by (intro exI [of _ b] exI [of _ ?t]) (auto simp: BC_def)
  next
    case None
    then obtain b where b: "b < NBUF" "\<not> b_busy (bufs s ! b)" "\<not> b_dirty (bufs s ! b)"
      "find (\<lambda>b. \<not> b_busy (bufs s ! b) \<and> \<not> b_dirty (bufs s ! b)) (rev (lru s)) = Some b"
      using find_clean [OF ok clean_buffer [OF ok]] room Dy Bz by auto
    let ?u = "upd_buf b (\<lambda>bp. bp\<lparr>b_dev := d, b_blockno := n, b_busy := True, b_valid := False,
      b_dirty := False\<rparr>) s"
    let ?bp = "(bufs s ! b)\<lparr>b_dev := d, b_blockno := n, b_busy := True, b_valid := True,
      b_dirty := False, b_data := D n\<rparr>"
    let ?t = "served b ?u"
    have get: "bget d n s = Ok b ?u"
      using find_lru_miss [OF ok None] b h by (simp add: bget_def kbind_def kseq_def acq_apply rel_apply)
        (simp add: upd_buf_def)
    have io_u: "awake ?u i" "held ?u = []" "drive_ok ?u" "d = 0 \<or> havedisk1 ?u"
      using io by (simp_all add: io_ok_def awake_def drive_ok_def)
    have "iderw b ?u = Ok () ?t"
      by (rule iderw_alone [OF io_u(1-3)]) (use b(1) len n(1) io_u(4) in auto)
    then have run: "bread d n s = Ok b ?t"
      using b(1) len by (simp add: bread_def get kbind_def kseq_def)
    have bufs_t: "bufs ?t = (bufs s)[b := ?bp]" "lru ?t = lru s" "disk ?t = disk s" "dwrites ?t = dwrites s"
      using b(1) len by (simp_all add: served_def Let_def D upd_buf_def)
    have bp: "b_dev ?bp = d" "b_blockno ?bp = n" "b_valid ?bp" "b_busy ?bp" "\<not> b_dirty ?bp"
      "b_data ?bp = disk s (d mod 2) n"
      by (simp_all add: D)
    note load = bc_load [OF ok None b(1-3) bufs_t(1) bp bufs_t(2,3)]
    have "io_ok d ?t i"
      by (rule io_ok_served) (use io in \<open>simp add: io_ok_def awake_def drive_ok_def\<close>)
    moreover have "rest ?t = rest s" by simp (simp add: rest_def upd_buf_def)
    moreover have "bufs ?t ! c = bufs s ! c \<and> c \<noteq> b" if "m \<in> Bz" "slot d s m = Some c" for m c
    proof -
      have "c \<noteq> b" using that b(2) Bz by (auto simp: busy_set_def)
      then show ?thesis by (simp add: bufs_t)
    qed
    moreover have "view d s n = D n" using None D by (simp add: view_def)
    ultimately show ?thesis
      using run load bufs_t V D W Dy Bz b(1) len
      by (intro exI [of _ b] exI [of _ ?t]) (auto simp: BC_def)
  qed
qed

text \<open>What the holder of a block does to it.\<close>

lemma BC_touch:
  assumes bc: "BC d i s V D W Dy Bz" and sl: "slot d s n = Some b"
    and t: "t = upd_buf b (\<lambda>_. bp) s" "b_dev bp = d" "b_blockno bp = n" "b_valid bp" "b_busy bp"
  shows "BC d i t (V(n := b_data bp)) D W (if b_dirty bp then insert n Dy else Dy - {n}) (insert n Bz) \<and>
    slot d t = slot d s \<and> bufs t ! b = bp \<and> (\<forall>c. c \<noteq> b \<longrightarrow> bufs t ! c = bufs s ! c) \<and> rest t = rest s"
proof -
  have ok: "bc_ok d s" and io: "io_ok d s i" using bc by (simp_all add: BC_def)
  have b: "b < NBUF" "length (bufs s) = NBUF" using sl slot_iff [OF ok] ok by (auto simp: bc_ok_def)
  have u: "bufs t = (bufs s)[b := bp]" "lru t = lru s" "disk t = disk s" "dwrites t = dwrites s"
    by (simp_all add: t upd_buf_def)
  have l: "distinct (lru t)" "set (lru t) = set (lru s)" using ok by (simp_all add: u bc_ok_def)
  have dk: "disk t = (disk s)(d mod 2 := (disk s (d mod 2))(n := disk s (d mod 2) n))" by (simp add: u)
  note touch = bc_touch [OF ok sl u(1) t(2-4) l dk]
  have "bc_ok d t" "slot d t = slot d s" "view d t = (view d s)(n := b_data bp)"
    "dirty_set d t = (if b_dirty bp then insert n (dirty_set d s) else dirty_set d s - {n})"
    "busy_set d t = insert n (busy_set d s)"
    using touch t(5) by simp_all
  moreover have "bufs t ! b = bp" "\<forall>c. c \<noteq> b \<longrightarrow> bufs t ! c = bufs s ! c" using b by (simp_all add: u)
  moreover have "io_ok d t i" using io by (simp add: t io_ok_def awake_def drive_ok_def)
  moreover have "rest t = rest s" by (simp add: t rest_def upd_buf_def)
  ultimately show ?thesis
    using bc u(3,4) unfolding BC_def by simp
qed

lemma set_data_BC:
  assumes "BC d i s V D W Dy Bz" and "slot d s n = Some b" and "n \<in> Bz"
  shows "\<exists>t. set_data b x s = Ok () t \<and> BC d i t (V(n := x)) D W Dy Bz \<and> slot d t = slot d s \<and>
    (\<forall>c. c \<noteq> b \<longrightarrow> bufs t ! c = bufs s ! c) \<and> b_data (bufs t ! b) = x \<and> rest t = rest s"
proof -
  have ok: "bc_ok d s" and "busy_set d s = Bz" "dirty_set d s = Dy" using assms(1) by (simp_all add: BC_def)
  then have b: "b < NBUF" "b_dev (bufs s ! b) = d" "b_blockno (bufs s ! b) = n" "b_valid (bufs s ! b)"
    "b_busy (bufs s ! b)" "b_dirty (bufs s ! b) \<longleftrightarrow> n \<in> Dy"
    using assms(2,3) slot_iff [OF ok, of n b] by (auto simp: bc_ok_def good_buf_def busy_set_def dirty_set_def)
  let ?bp = "(bufs s ! b)\<lparr>b_data := x\<rparr>"
  have "set_data b x s = Ok () (upd_buf b (\<lambda>_. ?bp) s)" by (simp add: set_data_def upd_buf_def)
  with BC_touch [OF assms(1,2) refl, of ?bp] b assms(3) show ?thesis
    by (cases "n \<in> Dy") (auto simp: insert_absorb)
qed

lemma mark_dirty_BC:
  assumes "BC d i s V D W Dy Bz" and "slot d s n = Some b" and "n \<in> Bz"
  shows "BC d i (upd_buf b (\<lambda>bp. bp\<lparr>b_dirty := True\<rparr>) s) V D W (insert n Dy) Bz"
    and "slot d (upd_buf b (\<lambda>bp. bp\<lparr>b_dirty := True\<rparr>) s) = slot d s"
    and "rest (upd_buf b (\<lambda>bp. bp\<lparr>b_dirty := True\<rparr>) s) = rest s"
proof -
  have ok: "bc_ok d s" and "busy_set d s = Bz" "view d s = V" using assms(1) by (simp_all add: BC_def)
  then have b: "b < NBUF" "b_dev (bufs s ! b) = d" "b_blockno (bufs s ! b) = n" "b_valid (bufs s ! b)"
    "b_busy (bufs s ! b)" "b_data (bufs s ! b) = V n"
    using assms(2,3) slot_iff [OF ok, of n b] by (auto simp: bc_ok_def good_buf_def busy_set_def view_def)
  let ?bp = "(bufs s ! b)\<lparr>b_dirty := True\<rparr>"
  have eq: "upd_buf b (\<lambda>bp. bp\<lparr>b_dirty := True\<rparr>) s = upd_buf b (\<lambda>_. ?bp) s" by (simp add: upd_buf_def)
  from BC_touch [OF assms(1,2) eq] b assms(3)
  show "BC d i (upd_buf b (\<lambda>bp. bp\<lparr>b_dirty := True\<rparr>) s) V D W (insert n Dy) Bz"
    "slot d (upd_buf b (\<lambda>bp. bp\<lparr>b_dirty := True\<rparr>) s) = slot d s"
    "rest (upd_buf b (\<lambda>bp. bp\<lparr>b_dirty := True\<rparr>) s) = rest s"
    by (simp_all add: insert_absorb)
qed

lemma bwrite_BC:
  assumes "BC d i s V D W Dy Bz" and "slot d s n = Some b" and "n \<in> Bz" and "n < FSSIZE"
  shows "\<exists>t. bwrite b s = Ok () t \<and> BC d i t V (D(n := V n)) (W @ [(d mod 2, n, V n)]) (Dy - {n}) Bz \<and>
    slot d t = slot d s \<and> rest t = rest s"
proof -
  have ok: "bc_ok d s" and io: "io_ok d s i" and bz: "busy_set d s = Bz" and v: "view d s = V"
    using assms(1) by (simp_all add: BC_def)
  have b: "b < NBUF" "b_dev (bufs s ! b) = d" "b_blockno (bufs s ! b) = n" "b_valid (bufs s ! b)"
    "b_busy (bufs s ! b)" "b_data (bufs s ! b) = V n" "length (bufs s) = NBUF"
    using assms(2,3) slot_iff [OF ok, of n b] ok bz v by (auto simp: bc_ok_def good_buf_def busy_set_def view_def)
  let ?u = "upd_buf b (\<lambda>bp. bp\<lparr>b_dirty := True\<rparr>) s"
  let ?t = "served b ?u"
  have io_u: "awake ?u i" "held ?u = []" "drive_ok ?u" "d = 0 \<or> havedisk1 ?u"
    using io by (simp_all add: io_ok_def awake_def drive_ok_def)
  have "iderw b ?u = Ok () ?t"
    by (rule iderw_alone [OF io_u(1-3)]) (use b assms(4) io_u(4) in auto)
  then have run: "bwrite b s = Ok () ?t" using b(5) by (simp add: bwrite_def kseq_def kbind_def)
  let ?bp = "(bufs s ! b)\<lparr>b_dirty := False\<rparr>"
  have bt: "bufs ?t = (bufs s)[b := ?bp]" "lru ?t = lru s"
    "disk ?t = (disk s)(d mod 2 := (disk s (d mod 2))(n := V n))"
    "dwrites ?t = dwrites s @ [(d mod 2, n, V n)]"
    using b by (cases "bufs s ! b", simp_all add: served_def Let_def upd_buf_def)
  have l: "distinct (lru ?t)" "set (lru ?t) = set (lru s)" using ok by (simp_all add: bt bc_ok_def)
  have bp: "b_dev ?bp = d" "b_blockno ?bp = n" "b_valid ?bp" using b by simp_all
  note touch = bc_touch [OF ok assms(2) bt(1) bp l bt(3)]
  have "bc_ok d ?t" "slot d ?t = slot d s" "view d ?t = V" "dirty_set d ?t = dirty_set d s - {n}"
    "busy_set d ?t = insert n (busy_set d s)"
    using touch b v by simp_all
  moreover have "io_ok d ?t i"
    by (rule io_ok_served) (use io in \<open>simp add: io_ok_def awake_def drive_ok_def\<close>)
  moreover have "rest ?t = rest s" by simp (simp add: rest_def upd_buf_def)
  ultimately show ?thesis
    using run assms(1,3) bt(3,4) by (intro exI [of _ ?t]) (simp add: BC_def insert_absorb)
qed

lemma brelse_BC:
  assumes "BC d i s V D W Dy Bz" and "slot d s n = Some b" and "n \<in> Bz" and "n \<in> Dy \<or> V n = D n"
  shows "\<exists>t. brelse b s = Ok () t \<and> BC d i t V D W Dy (Bz - {n}) \<and> slot d t = slot d s \<and> rest t = rest s"
proof -
  have ok: "bc_ok d s" and io: "io_ok d s i" and bz: "busy_set d s = Bz" and v: "view d s = V"
    and dy: "dirty_set d s = Dy" and dk: "disk s (d mod 2) = D"
    using assms(1) by (simp_all add: BC_def)
  have b: "b < NBUF" "b_dev (bufs s ! b) = d" "b_blockno (bufs s ! b) = n" "b_valid (bufs s ! b)"
    "b_busy (bufs s ! b)" "b_data (bufs s ! b) = V n" "length (bufs s) = NBUF"
    "b_dirty (bufs s ! b) \<longleftrightarrow> n \<in> Dy"
    using assms(2,3) slot_iff [OF ok, of n b] ok bz v dy
    by (auto simp: bc_ok_def good_buf_def busy_set_def view_def dirty_set_def)
  let ?bp = "(bufs s ! b)\<lparr>b_busy := False\<rparr>"
  let ?t = "s\<lparr>lru := b # remove1 b (lru s), bufs := (bufs s)[b := ?bp], procs := map (wake (ChBuf b)) (procs s)\<rparr>"
  have run: "brelse b s = Ok () ?t"
    using b io by (simp add: brelse_def kseq_def kbind_def acq_apply rel_apply wakeup_apply io_ok_def)
      (simp add: upd_buf_def)
  have bt: "bufs ?t = (bufs s)[b := ?bp]" by simp
  have l: "distinct (lru ?t)" "set (lru ?t) = set (lru s)"
    using ok b(1) by (auto simp: bc_ok_def set_remove1_eq)
  have bp: "b_dev ?bp = d" "b_blockno ?bp = n" "b_valid ?bp" using b by simp_all
  have dt: "disk ?t = (disk s)(d mod 2 := (disk s (d mod 2))(n := disk s (d mod 2) n))" by simp
  note touch = bc_touch [OF ok assms(2) bt bp l dt]
  have "\<not> b_dirty ?bp \<Longrightarrow> b_data ?bp = disk s (d mod 2) n" using assms(4) b dk by auto
  then have "bc_ok d ?t" "slot d ?t = slot d s" "view d ?t = V" "dirty_set d ?t = dirty_set d s"
    "busy_set d ?t = busy_set d s - {n}"
    using touch b v dy by (simp_all add: insert_absorb)
  moreover have "io_ok d ?t i"
    using io awake_wake [of s i "ChBuf b"] by (simp add: io_ok_def awake_def drive_ok_def)
  moreover have "rest ?t = rest s" by (simp add: rest_def comp_def)
  ultimately show ?thesis
    using run bz dy dk assms(1) by (intro exI [of _ ?t]) (simp add: BC_def)
qed

lemma BC_clean: "BC d i s V D W Dy Bz \<Longrightarrow> n \<notin> Dy \<Longrightarrow> n \<notin> Bz \<Longrightarrow> V n = D n"
proof -
  assume bc: "BC d i s V D W Dy Bz" and n: "n \<notin> Dy" "n \<notin> Bz"
  then have ok: "bc_ok d s" by (simp add: BC_def)
  show ?thesis
  proof (cases "slot d s n")
    case None
    then show ?thesis using bc by (auto simp: BC_def view_def)
  next
    case (Some b)
    then have b: "b < NBUF" "b_dev (bufs s ! b) = d" "b_blockno (bufs s ! b) = n" using slot_iff [OF ok] by auto
    moreover have "\<not> b_dirty (bufs s ! b)" "\<not> b_busy (bufs s ! b)"
      using bc n Some by (auto simp: BC_def dirty_set_def busy_set_def)
    moreover have "good_buf d (disk s (d mod 2)) (bufs s ! b)" using ok b(1) by (simp add: bc_ok_def)
    ultimately show ?thesis using bc Some by (auto simp: BC_def view_def good_buf_def)
  qed
qed

lemma BC_finite: "BC d i s V D W Dy Bz \<Longrightarrow> finite (Dy \<union> Bz)"
proof -
  assume bc: "BC d i s V D W Dy Bz"
  then have ok: "bc_ok d s" by (simp add: BC_def)
  have "Dy \<union> Bz \<subseteq> (\<lambda>b. b_blockno (bufs s ! b)) ` {..<NBUF}"
    using bc by (auto simp: BC_def dirty_set_def busy_set_def slot_iff [OF ok])
  then show ?thesis by (rule finite_subset) simp
qed

section \<open>The interface the file system is written against\<close>

text \<open>The writes of a loop of copies from \<open>a\<close> to \<open>c\<close>, with the contents \<open>V\<close> of the start.\<close>

definition copies :: "nat \<Rightarrow> (nat \<Rightarrow> block) \<Rightarrow> (nat \<times> nat) list \<Rightarrow> (nat \<times> nat \<times> block) list" where
  "copies u V ps = map (\<lambda>(a, c). (u, c, V a)) ps"

lemma copies_cong: "(\<And>a. a \<in> fst ` set ps \<Longrightarrow> V a = V' a) \<Longrightarrow> copies u V ps = copies u V' ps"
  by (fastforce simp: copies_def)

text \<open>A device after some writes.\<close>

definition replay :: "(nat \<times> nat \<times> block) list \<Rightarrow> (nat \<Rightarrow> block) \<Rightarrow> nat \<Rightarrow> block" where
  "replay ws D = fold (\<lambda>(u, n, x) D. D(n := x)) ws D"

lemma replay_simps [simp]:
  "replay [] D = D"
  "replay ((u, n, x) # ws) D = replay ws (D(n := x))"
  "replay (ws @ vs) D = replay vs (replay ws D)"
  by (simp_all add: replay_def)

lemma replay_other: "n \<notin> (\<lambda>(u, n, x). n) ` set ws \<Longrightarrow> replay ws D n = D n"
  by (induction ws arbitrary: D) auto

lemma replay_in: "(u, n, x) \<in> set ws \<Longrightarrow> distinct (map (\<lambda>(u, n, x). n) ws) \<Longrightarrow> replay ws D n = x"
proof (induction ws arbitrary: D)
  case Nil
  then show ?case by simp
next
  case (Cons w ws)
  show ?case
  proof (cases "w = (u, n, x)")
    case True
    then have "n \<notin> (\<lambda>(u, n, x). n) ` set ws" using Cons.prems(2) by auto
    then show ?thesis using True by (simp add: replay_other)
  next
    case False
    with Cons show ?thesis by (cases w) auto
  qed
qed

locale block_layer =
  fixes rd :: "nat \<Rightarrow> ('h, 's) K"
    and wr :: "'h \<Rightarrow> (unit, 's) K"
    and rl :: "'h \<Rightarrow> (unit, 's) K"
    and gt :: "'h \<Rightarrow> (block, 's) K"
    and pt :: "'h \<Rightarrow> block \<Rightarrow> (unit, 's) K"
    and R :: "'s \<Rightarrow> (nat \<Rightarrow> block) \<Rightarrow> (nat \<Rightarrow> block) \<Rightarrow> (nat \<times> nat \<times> block) list \<Rightarrow> nat set \<Rightarrow> nat set \<Rightarrow> bool"
    and hnd :: "'s \<Rightarrow> nat \<Rightarrow> 'h \<Rightarrow> bool"
    and fr :: "'s \<Rightarrow> 'f"
    and u :: nat
  assumes rd_law: "R s V D W Dy Bz \<Longrightarrow> n < FSSIZE \<Longrightarrow> n \<notin> Bz \<Longrightarrow> n \<in> Dy \<or> card (Dy \<union> Bz) < NBUF \<Longrightarrow>
      \<exists>h t. rd n s = Ok h t \<and> R t V D W Dy (insert n Bz) \<and> hnd t n h \<and>
        (\<forall>m k. m \<in> Bz \<longrightarrow> hnd s m k \<longrightarrow> hnd t m k) \<and> fr t = fr s"
    and gt_law: "R s V D W Dy Bz \<Longrightarrow> n \<in> Bz \<Longrightarrow> hnd s n h \<Longrightarrow> gt h s = Ok (V n) s"
    and pt_law: "R s V D W Dy Bz \<Longrightarrow> n \<in> Bz \<Longrightarrow> hnd s n h \<Longrightarrow>
      \<exists>t. pt h x s = Ok () t \<and> R t (V(n := x)) D W Dy Bz \<and> hnd t = hnd s \<and> fr t = fr s"
    and wr_law: "R s V D W Dy Bz \<Longrightarrow> n \<in> Bz \<Longrightarrow> n < FSSIZE \<Longrightarrow> hnd s n h \<Longrightarrow>
      \<exists>t. wr h s = Ok () t \<and> R t V (D(n := V n)) (W @ [(u, n, V n)]) (Dy - {n}) Bz \<and> hnd t = hnd s \<and> fr t = fr s"
    and rl_law: "R s V D W Dy Bz \<Longrightarrow> n \<in> Bz \<Longrightarrow> n \<in> Dy \<or> V n = D n \<Longrightarrow> hnd s n h \<Longrightarrow>
      \<exists>t. rl h s = Ok () t \<and> R t V D W Dy (Bz - {n}) \<and> hnd t = hnd s \<and> fr t = fr s"
    and clean_law: "R s V D W Dy Bz \<Longrightarrow> n \<notin> Dy \<Longrightarrow> n \<notin> Bz \<Longrightarrow> V n = D n"
    and finite_law: "R s V D W Dy Bz \<Longrightarrow> finite (Dy \<union> Bz)"
begin

text \<open>Reading a block and letting it go leaves everything as it was.\<close>

lemma read_steps:
  assumes "R s V D W Dy {}" and "n < FSSIZE" and "n \<in> Dy \<or> card Dy < NBUF"
  shows "\<exists>h t v. rd n s = Ok h t \<and> gt h t = Ok (V n) t \<and> rl h t = Ok () v \<and> R v V D W Dy {} \<and> fr v = fr s"
proof -
  obtain h t where t: "rd n s = Ok h t" "R t V D W Dy {n}" "hnd t n h" "fr t = fr s"
    using rd_law [OF assms(1,2)] assms(3) by auto
  have g: "gt h t = Ok (V n) t" by (rule gt_law [OF t(2) _ t(3)]) simp
  have "n \<in> Dy \<or> V n = D n" using clean_law [OF assms(1)] by auto
  then obtain v where "rl h t = Ok () v" "R v V D W Dy {}" "fr v = fr t"
    using rl_law [OF t(2) _ _ t(3)] by auto
  with t(1,4) g show ?thesis by auto
qed

lemma read_block:
  assumes "R s V D W Dy {}" and "n < FSSIZE" and "n \<in> Dy \<or> card Dy < NBUF"
  shows "\<exists>t. kbind (rd n) (\<lambda>h. kbind (gt h) (\<lambda>x. kseq (rl h) (kret (f x)))) s = Ok (f (V n)) t \<and>
    R t V D W Dy {} \<and> fr t = fr s"
  using read_steps [OF assms] by (auto simp: kbind_def kseq_def)

text \<open>Replacing a block on the disk.\<close>

lemma write_block:
  assumes "R s V D W Dy {}" and "n < FSSIZE" and "n \<in> Dy \<or> card Dy < NBUF"
  shows "\<exists>t. kbind (rd n) (\<lambda>h. kbind (gt h) (\<lambda>x. kblock [pt h (f x), wr h, rl h])) s = Ok () t \<and>
    R t (V(n := f (V n))) (D(n := f (V n))) (W @ [(u, n, f (V n))]) (Dy - {n}) {} \<and> fr t = fr s"
proof -
  obtain h t where t: "rd n s = Ok h t" "R t V D W Dy {n}" "hnd t n h" "fr t = fr s"
    using rd_law [OF assms(1,2)] assms(3) by auto
  have g: "gt h t = Ok (V n) t" by (rule gt_law [OF t(2) _ t(3)]) simp
  obtain v where v: "pt h (f (V n)) t = Ok () v" "R v (V(n := f (V n))) D W Dy {n}" "hnd v n h" "fr v = fr t"
    using pt_law [OF t(2) _ t(3)] t(3) by fastforce
  obtain w where w: "wr h v = Ok () w" "R w (V(n := f (V n))) (D(n := f (V n))) (W @ [(u, n, f (V n))]) (Dy - {n}) {n}"
    "hnd w n h" "fr w = fr v"
    using wr_law [OF v(2) _ assms(2) v(3)] v(3) by fastforce
  obtain x where "rl h w = Ok () x" "R x (V(n := f (V n))) (D(n := f (V n))) (W @ [(u, n, f (V n))]) (Dy - {n}) {}"
    "fr x = fr w"
    using rl_law [OF w(2) _ _ w(3)] by fastforce
  with t(1,4) g v w show ?thesis by (simp add: kbind_def kseq_def)
qed

lemma copy_held:
  assumes t: "R t V D W Dy {a, c}" "hnd t a h" "hnd t c k"
    and n: "c < FSSIZE" "a \<noteq> c" and clean: "a \<in> Dy \<or> V a = D a"
  shows "\<exists>w. kbind (gt h) (\<lambda>x. kblock [pt k x, wr k, rl h, rl k]) t = Ok () w \<and>
    R w (V(c := V a)) (D(c := V a)) (W @ [(u, c, V a)]) (Dy - {c}) {} \<and> fr w = fr t"
proof -
  have only_c: "{a, c} - {a} = {c}" using n(2) by auto
  have g: "gt h t = Ok (V a) t" by (rule gt_law [OF t(1) _ t(2)]) simp
  obtain v where v: "pt k (V a) t = Ok () v" "R v (V(c := V a)) D W Dy {a, c}" "hnd v = hnd t" "fr v = fr t"
    using pt_law [OF t(1) _ t(3), of "V a"] by auto
  have kv: "hnd v c k" using v(3) t by simp
  obtain w where w: "wr k v = Ok () w"
    "R w (V(c := V a)) (D(c := V a)) (W @ [(u, c, V a)]) (Dy - {c}) {a, c}" "hnd w = hnd v" "fr w = fr v"
    using wr_law [OF v(2) _ n(1) kv] by auto
  have hw: "hnd w a h" "hnd w c k" using w(3) v(3) t by simp_all
  have "a \<in> Dy - {c} \<or> (V(c := V a)) a = (D(c := V a)) a" using clean n(2) by auto
  then obtain x where x: "rl h w = Ok () x"
    "R x (V(c := V a)) (D(c := V a)) (W @ [(u, c, V a)]) (Dy - {c}) {c}" "hnd x = hnd w" "fr x = fr w"
    using rl_law [OF w(2) _ _ hw(1)] unfolding only_c by blast
  have kx: "hnd x c k" using x(3) hw by simp
  obtain y where "rl k x = Ok () y"
    "R y (V(c := V a)) (D(c := V a)) (W @ [(u, c, V a)]) (Dy - {c}) {}" "fr y = fr x"
    using rl_law [OF x(2) _ _ kx] by auto
  then show ?thesis using g v w x by (simp add: kbind_def kseq_def)
qed

text \<open>
  Copying block \<open>a\<close> over block \<open>c\<close>, both held at once, in the two orders of reading and of
  releasing the log code uses.
\<close>

lemma copy_block:
  assumes R: "R s V D W Dy {}" and n: "a < FSSIZE" "c < FSSIZE" "a \<noteq> c"
    and room: "card Dy < NBUF" "a \<in> Dy \<or> c \<in> Dy \<or> card Dy + 2 \<le> NBUF"
  shows "\<exists>t. kbind (rd c) (\<lambda>k. kbind (rd a) (\<lambda>h. kbind (gt h) (\<lambda>x. kblock [pt k x, wr k, rl h, rl k]))) s = Ok () t \<and>
      R t (V(c := V a)) (D(c := V a)) (W @ [(u, c, V a)]) (Dy - {c}) {} \<and> fr t = fr s"
    and "\<exists>t. kbind (rd a) (\<lambda>h. kbind (rd c) (\<lambda>k. kbind (gt h) (\<lambda>x. kblock [pt k x, wr k, rl h, rl k]))) s = Ok () t \<and>
      R t (V(c := V a)) (D(c := V a)) (W @ [(u, c, V a)]) (Dy - {c}) {} \<and> fr t = fr s"
proof -
  have fin: "finite Dy" using finite_law [OF R] by simp
  have one: "m' \<in> Dy \<or> card (insert m Dy) < NBUF" if "{m, m'} = {a, c}" for m m'
    using room fin that by (auto simp: card_insert_if doubleton_eq_iff)
  have clean: "a \<in> Dy \<or> V a = D a" using clean_law [OF R] by auto
  obtain k t where t: "rd c s = Ok k t" "R t V D W Dy {c}" "hnd t c k" "fr t = fr s"
    using rd_law [OF R n(2)] room by auto
  obtain h t' where t': "rd a t = Ok h t'" "R t' V D W Dy {a, c}" "hnd t' a h" "hnd t' c k" "fr t' = fr t"
    using rd_law [OF t(2) n(1)] t(3) n(3) one [of c a] by (auto simp: Un_commute insert_commute)
  from copy_held [OF t'(2-4) n(2,3) clean] t t'(1,5)
  show "\<exists>t. kbind (rd c) (\<lambda>k. kbind (rd a) (\<lambda>h. kbind (gt h) (\<lambda>x. kblock [pt k x, wr k, rl h, rl k]))) s = Ok () t \<and>
      R t (V(c := V a)) (D(c := V a)) (W @ [(u, c, V a)]) (Dy - {c}) {} \<and> fr t = fr s"
    by (auto simp: kbind_def)
  obtain h v where v: "rd a s = Ok h v" "R v V D W Dy {a}" "hnd v a h" "fr v = fr s"
    using rd_law [OF R n(1)] room by auto
  obtain k v' where v': "rd c v = Ok k v'" "R v' V D W Dy {c, a}" "hnd v' c k" "hnd v' a h" "fr v' = fr v"
    using rd_law [OF v(2) n(2)] v(3) n(3) one [of a c] by (auto simp: Un_commute insert_commute)
  have "R v' V D W Dy {a, c}" using v'(2) by (simp add: insert_commute)
  from copy_held [OF this v'(4,3) n(2,3) clean] v v'(1,5)
  show "\<exists>t. kbind (rd a) (\<lambda>h. kbind (rd c) (\<lambda>k. kbind (gt h) (\<lambda>x. kblock [pt k x, wr k, rl h, rl k]))) s = Ok () t \<and>
      R t (V(c := V a)) (D(c := V a)) (W @ [(u, c, V a)]) (Dy - {c}) {} \<and> fr t = fr s"
    by (auto simp: kbind_def)
qed

text \<open>
  A loop of copies, none of which reads what another wrote: the blocks are written in order with
  the contents they had at the start.
\<close>

lemma copy_all:
  assumes "R s V D W Dy {}" and "\<forall>(a, c) \<in> set ps. a < FSSIZE \<and> c < FSSIZE"
    and "fst ` set ps \<inter> snd ` set ps = {}" and "distinct (map snd ps)" and "card Dy < NBUF"
    and "\<forall>(a, c) \<in> set ps. a \<in> Dy \<or> c \<in> Dy \<or> card Dy + 2 \<le> NBUF"
    and turn: "\<And>a c s V D W Dy. R s V D W Dy {} \<Longrightarrow> a < FSSIZE \<Longrightarrow> c < FSSIZE \<Longrightarrow> a \<noteq> c \<Longrightarrow> card Dy < NBUF \<Longrightarrow>
      a \<in> Dy \<or> c \<in> Dy \<or> card Dy + 2 \<le> NBUF \<Longrightarrow> \<exists>t. body (a, c) s = Ok () t \<and>
        R t (V(c := V a)) (D(c := V a)) (W @ [(u, c, V a)]) (Dy - {c}) {} \<and> fr t = fr s"
  shows "\<exists>t. kfor ps body s = Ok () t \<and> R t (replay (copies u V ps) V) (replay (copies u V ps) D)
    (W @ copies u V ps) (Dy - snd ` set ps) {} \<and> fr t = fr s"
  using assms(1-6)
proof (induction ps arbitrary: s V D W Dy)
  case Nil
  then show ?case by (simp add: copies_def)
next
  case (Cons p ps)
  obtain a c where p: "p = (a, c)" by (cases p)
  have fin: "finite Dy" using finite_law [OF Cons.prems(1)] by simp
  have smaller: "card (Dy - {c}) \<le> card Dy" by (rule card_mono [OF fin]) auto
  obtain t where t: "body (a, c) s = Ok () t"
    "R t (V(c := V a)) (D(c := V a)) (W @ [(u, c, V a)]) (Dy - {c}) {}" "fr t = fr s"
    using turn [OF Cons.prems(1), of a c] Cons.prems(2,3,5,6) p by auto
  have same: "copies u (V(c := V a)) ps = copies u V ps"
    by (rule copies_cong) (use Cons.prems(3) p in auto)
  have kept: "a' \<in> Dy - {c} \<or> c' \<in> Dy - {c} \<or> card (Dy - {c}) + 2 \<le> NBUF"
    if m: "(a', c') \<in> set ps" for a' c'
  proof -
    have "a' \<noteq> c" "c' \<noteq> c" using m Cons.prems(3,4) p by force+
    moreover have "a' \<in> Dy \<or> c' \<in> Dy \<or> card Dy + 2 \<le> NBUF" using m Cons.prems(6) by auto
    ultimately show ?thesis using smaller by auto
  qed
  have "\<exists>v. kfor ps body t = Ok () v \<and> R v (replay (copies u (V(c := V a)) ps) (V(c := V a)))
      (replay (copies u (V(c := V a)) ps) (D(c := V a))) ((W @ [(u, c, V a)]) @ copies u (V(c := V a)) ps)
      ((Dy - {c}) - snd ` set ps) {} \<and> fr v = fr t"
  proof (rule Cons.IH [OF t(2)])
    show "\<forall>(a', c') \<in> set ps. a' \<in> Dy - {c} \<or> c' \<in> Dy - {c} \<or> card (Dy - {c}) + 2 \<le> NBUF"
      using kept by blast
  qed (use Cons.prems smaller p in auto)
  moreover have "copies u V (p # ps) = (u, c, V a) # copies u V ps" by (simp add: copies_def p)
  moreover have "Dy - {c} - snd ` set ps = Dy - snd ` set (p # ps)" using p by auto
  ultimately show ?case using t by (auto simp: same p kseq_def kbind_def)
qed

end

interpretation cache: block_layer "bread d" bwrite brelse buf_data set_data "BC d i" "\<lambda>s n b. slot d s n = Some b" rest
  "d mod 2"
proof
  fix s V D W Dy Bz and n :: nat
  assume "BC d i s V D W Dy Bz" "n < FSSIZE" "n \<notin> Bz" "n \<in> Dy \<or> card (Dy \<union> Bz) < NBUF"
  moreover from this have "n \<in> Dy \<Longrightarrow> slot d s n \<noteq> None" by (auto simp: BC_def dirty_set_def)
  ultimately show "\<exists>h t. bread d n s = Ok h t \<and> BC d i t V D W Dy (insert n Bz) \<and> slot d t n = Some h \<and>
      (\<forall>m k. m \<in> Bz \<longrightarrow> slot d s m = Some k \<longrightarrow> slot d t m = Some k) \<and> rest t = rest s"
    using bread_BC [of d i s V D W Dy Bz n] by blast
next
  fix s V D W Dy Bz n h
  assume "BC d i s V D W Dy Bz" "slot d s n = Some h"
  then show "buf_data h s = Ok (V n) s" by (auto simp: BC_def view_def buf_data_def)
next
  fix s V D W Dy Bz n h x
  assume "BC d i s V D W Dy Bz" "n \<in> Bz" "slot d s n = Some h"
  then show "\<exists>t. set_data h x s = Ok () t \<and> BC d i t (V(n := x)) D W Dy Bz \<and>
      (\<lambda>n b. slot d t n = Some b) = (\<lambda>n b. slot d s n = Some b) \<and> rest t = rest s"
    using set_data_BC [of d i s V D W Dy Bz n h x] by auto
next
  fix s V D W Dy Bz n h
  assume "BC d i s V D W Dy Bz" "n \<in> Bz" "n < FSSIZE" "slot d s n = Some h"
  then show "\<exists>t. bwrite h s = Ok () t \<and> BC d i t V (D(n := V n)) (W @ [(d mod 2, n, V n)]) (Dy - {n}) Bz \<and>
      (\<lambda>n b. slot d t n = Some b) = (\<lambda>n b. slot d s n = Some b) \<and> rest t = rest s"
    using bwrite_BC [of d i s V D W Dy Bz n h] by auto
next
  fix s V D W Dy Bz n h
  assume "BC d i s V D W Dy Bz" "n \<in> Bz" "n \<in> Dy \<or> V n = D n" "slot d s n = Some h"
  then show "\<exists>t. brelse h s = Ok () t \<and> BC d i t V D W Dy (Bz - {n}) \<and>
      (\<lambda>n b. slot d t n = Some b) = (\<lambda>n b. slot d s n = Some b) \<and> rest t = rest s"
    using brelse_BC [of d i s V D W Dy Bz n h] by auto
qed (auto dest: BC_clean BC_finite)

section \<open>What the block layer leaves alone\<close>

text \<open>
  A part \<open>f\<close> of the state that the driver and the cache never touch, whatever the outcome of a
  call is. Unlike \<open>rest\<close>, this needs no invariant.
\<close>

locale aside =
  fixes f :: "'z bcache_scheme \<Rightarrow> 'b"
  assumes f_procs: "\<And>s g. f (procs_update g s) = f s"
    and f_held: "\<And>s g. f (held_update g s) = f s"
    and f_bufs: "\<And>s g. f (bufs_update g s) = f s"
    and f_idequeue: "\<And>s g. f (idequeue_update g s) = f s"
    and f_ide_unit: "\<And>s g. f (ide_unit_update g s) = f s"
    and f_ide_sector: "\<And>s g. f (ide_sector_update g s) = f s"
    and f_disk: "\<And>s g. f (disk_update g s) = f s"
    and f_dwrites: "\<And>s g. f (dwrites_update g s) = f s"
    and f_lru: "\<And>s g. f (lru_update g s) = f s"
begin

lemmas f_same = f_procs f_held f_bufs f_idequeue f_ide_unit f_ide_sector f_disk f_dwrites f_lru

lemmas atoms = keeps_kret keeps_kget keeps_kpanic keeps_kundef keeps_khang

lemma keeps_upd_buf: "keeps f (kmod (upd_buf b g))"
  by (rule keeps_kmod) (simp add: upd_buf_def f_same)

lemma keeps_upd_proc: "keeps f (kmod (upd_proc i g))"
  by (rule keeps_kmod) (simp add: upd_proc_def f_same)

lemma keeps_locks: "keeps f (acq l)" "keeps f (rel l)"
  by (auto simp: acq_def rel_def f_same intro!: atoms keeps_kbind keeps_kget keeps_kpanic keeps_kmod)

lemma keeps_wakeup: "keeps f (wakeup c)"
  by (auto simp: wakeup_def wakeup_steps_def wakeup1_def f_same intro!: atoms keeps_kblock keeps_kseq keeps_locks keeps_kmod)

lemma keeps_with_proc: "(\<And>i. keeps f (g i)) \<Longrightarrow> keeps f (with_proc g)"
  by (auto simp: with_proc_def intro!: atoms keeps_kbind split: option.split)

lemma keeps_sched: "keeps f sched"
  by (auto simp: sched_def intro!: atoms keeps_with_proc keeps_kbind)

lemma keeps_ksleep: "keeps f (ksleep c lk)"
proof -
  have "keeps f (\<lambda>s. Sleep c s)" by (simp add: keeps_def)
  then show ?thesis
    by (auto simp: ksleep_unfold kwhen_def split: option.split
      intro!: atoms keeps_kbind keeps_kseq keeps_locks keeps_upd_proc keeps_sched)
qed

lemma keeps_irqs: "keeps f irq \<Longrightarrow> keeps f (irqs n irq c i)"
proof (induction n)
  case 0
  have "keeps f (\<lambda>s. Sleep c s)" by (simp add: keeps_def)
  then show ?case by (subst irqs.simps) (auto intro!: atoms keeps_kbind)
next
  case (Suc n)
  then show ?case by (subst irqs.simps) (auto intro!: atoms keeps_kbind keeps_kseq)
qed

lemma keeps_sleep_until:
  assumes "keeps f irq"
  shows "keeps f (sleep_until n irq c lk)"
proof -
  let ?m = "with_proc (\<lambda>i. kblock [rel LPtable, irqs n irq c i, acq LPtable,
      kmod (upd_proc i (\<lambda>p. p\<lparr>p_state := RUNNING\<rparr>)), sleep_back lk])"
  have m: "keeps f ?m"
    by (auto simp: sleep_back_def kwhen_def intro!: atoms keeps_with_proc keeps_kblock keeps_locks
      keeps_irqs [OF assms] keeps_upd_proc keeps_kseq)
  have sl: "f t = f s" if "(ksleep c lk s :: (unit, 'z bcache_scheme) res) = Sleep c' t" for s t c'
    using keepsD_sleep [OF keeps_ksleep that] .
  have ok: "(ksleep c lk s :: (unit, 'z bcache_scheme) res) \<noteq> Ok () t" for s t
    by (simp add: ksleep_unfold kseq_def kbind_def split: option.split res.split)
  show ?thesis
    using m sl ok unfolding keeps_def sleep_until_def
    by (auto split: res.splits)
qed

lemma keeps_idestart: "keeps f (idestart b)"
  by (auto simp: idestart_def idewait_def Let_def f_same kwhen_def
    intro!: atoms keeps_kbind keeps_kseq keeps_kmod)

lemma keeps_ideintr: "keeps f ideintr"
  by (auto simp: ideintr_def idewait_def kwhen_def f_same upd_buf_def split: list.split
    intro!: atoms keeps_kbind keeps_kseq keeps_locks keeps_kblock keeps_kmod keeps_wakeup keeps_idestart)

lemma keeps_ide_wait: "keeps f (ide_wait b)"
  unfolding ide_wait_def
  by (rule keeps_kloop) (auto intro!: atoms keeps_kbind keeps_kseq keeps_sleep_until keeps_ideintr)

lemma keeps_iderw: "keeps f (iderw b)"
  by (auto simp: iderw_def kwhen_def
    intro!: atoms keeps_kbind keeps_kseq keeps_locks keeps_kblock keeps_kmod keeps_ide_wait keeps_idestart f_same)

lemma keeps_bread: "keeps f (bread d n)"
  by (auto simp: bread_def bget_def kwhen_def split: option.split
    intro!: atoms keeps_kbind keeps_kseq keeps_locks keeps_upd_buf keeps_ksleep keeps_iderw)

lemma keeps_bwrite: "keeps f (bwrite b)"
  by (auto simp: bwrite_def intro!: atoms keeps_kbind keeps_kseq keeps_upd_buf keeps_iderw)

lemma keeps_brelse: "keeps f (brelse b)"
  by (auto simp: brelse_def f_same
    intro!: atoms keeps_kbind keeps_kseq keeps_kblock keeps_kmod keeps_locks keeps_upd_buf keeps_wakeup)

lemma keeps_data: "keeps f (buf_data b)" "keeps f (set_data b x)"
  by (auto simp: buf_data_def set_data_def intro: keeps_upd_buf)

lemmas keeps_blocks = keeps_bread keeps_bwrite keeps_brelse keeps_data keeps_locks keeps_wakeup keeps_ksleep

end

end
