(* ===== verification/Log.thy ===== *)
theory Log
  imports Bio
begin

text \<open>
  kernel/log.c and the super block it reads its place from. The in-memory header is the list \<open>lh\<close>
  of the first \<open>n\<close> block numbers. The theorem of the theory is crash safety: wherever the disk
  writes of a commit are cut off, recovery brings back either all the old blocks or all the new.
\<close>

definition LOGSIZE :: nat where "LOGSIZE = 30"
definition MAXOPBLOCKS :: nat where "MAXOPBLOCKS = 10"

record superblock =
  sb_size :: nat
  sb_nblocks :: nat
  sb_ninodes :: nat
  sb_nlog :: nat
  sb_logstart :: nat
  sb_inodestart :: nat
  sb_bmapstart :: nat

definition decode_sb :: "block \<Rightarrow> superblock" where
  "decode_sb x = \<lparr>sb_size = word_at x 0, sb_nblocks = word_at x 1, sb_ninodes = word_at x 2,
     sb_nlog = word_at x 3, sb_logstart = word_at x 4, sb_inodestart = word_at x 5,
     sb_bmapstart = word_at x 6\<rparr>"

record log = bcache +
  log_start :: nat
  log_size :: nat
  outstanding :: int
  committing :: bool
  log_dev :: nat
  lh :: "nat list"

section \<open>Operations\<close>

definition readsb :: "nat \<Rightarrow> (superblock, 'z bcache_scheme) K" where
  "readsb dev = kbind (bread dev 1) (\<lambda>b. kbind (buf_data b) (\<lambda>x.
     kseq (brelse b) (kret (decode_sb x))))"

definition install_turn :: "nat \<Rightarrow> nat \<Rightarrow> nat \<Rightarrow> (unit, 'z bcache_scheme) K" where
  "install_turn dev lb home =
     kbind (bread dev lb) (\<lambda>lbuf. kbind (bread dev home) (\<lambda>dbuf. kbind (buf_data lbuf) (\<lambda>x.
       kblock [set_data dbuf x, bwrite dbuf, brelse lbuf, brelse dbuf])))"

definition install_trans :: "(unit, 'z log_scheme) K" where
  "install_trans = kbind (kget (\<lambda>s. (log_dev s, log_start s, lh s))) (\<lambda>(dev, start, l).
     kfor [0..<length l] (\<lambda>tail. install_turn dev (start + tail + 1) (l ! tail)))"

text \<open>The header block: a count and as many block numbers. A count over \<open>LOGSIZE\<close> overruns the array.\<close>

definition head_of :: "block \<Rightarrow> nat list" where
  "head_of x = (let n = s32 (int (word_at x 0)) in map (\<lambda>i. word_at x (1 + i)) [0..<nat n])"

definition put_head :: "nat list \<Rightarrow> block \<Rightarrow> block" where
  "put_head l x = put_words 1 l (put_word 0 (length l) x)"

definition read_head :: "(unit, 'z log_scheme) K" where
  "read_head = kbind (kget (\<lambda>s. (log_dev s, log_start s))) (\<lambda>(dev, start).
     kbind (bread dev start) (\<lambda>b. kbind (buf_data b) (\<lambda>x.
       if int LOGSIZE < s32 (int (word_at x 0)) then kundef
       else kseq (kmod (lh_update (\<lambda>_. head_of x))) (brelse b))))"

definition write_head :: "(unit, 'z log_scheme) K" where
  "write_head = kbind (kget (\<lambda>s. (log_dev s, log_start s, lh s))) (\<lambda>(dev, start, l).
     kbind (bread dev start) (\<lambda>b. kbind (buf_data b) (\<lambda>x.
       kblock [set_data b (put_head l x), bwrite b, brelse b])))"

definition recover_from_log :: "(unit, 'z log_scheme) K" where
  "recover_from_log = kblock
     [read_head, install_trans, kmod (lh_update (\<lambda>_. [])), write_head]"

definition initlog :: "nat \<Rightarrow> (unit, 'z log_scheme) K" where
  "initlog dev = (if BSIZE \<le> 4 + 4 * LOGSIZE then kpanic ''initlog: too big logheader'' else
     kbind (readsb dev) (\<lambda>sb. kblock
     [kmod (\<lambda>s. s\<lparr>log_start := sb_logstart sb, log_size := sb_nlog sb, log_dev := dev\<rparr>),
      recover_from_log]))"

text \<open>\<open>begin_op\<close> sleeps until another process lets it in: \<open>Sleep\<close> is the outcome then.\<close>

definition begin_op :: "(unit, 'z log_scheme) K" where
  "begin_op = kseq (acq LLog) (kbind (kget (\<lambda>s. (committing s, lh s, outstanding s))) (\<lambda>(cm, l, out).
     if cm then ksleep ChLog LLog
     else if int (length l) + (out + 1) * int MAXOPBLOCKS > int LOGSIZE then ksleep ChLog LLog
     else kblock [kmod (outstanding_update (\<lambda>_. out + 1)), rel LLog]))"

definition write_turn :: "nat \<Rightarrow> nat \<Rightarrow> nat \<Rightarrow> (unit, 'z bcache_scheme) K" where
  "write_turn dev lb home =
     kbind (bread dev lb) (\<lambda>to. kbind (bread dev home) (\<lambda>from. kbind (buf_data from) (\<lambda>x.
       kblock [set_data to x, bwrite to, brelse from, brelse to])))"

definition write_log :: "(unit, 'z log_scheme) K" where
  "write_log = kbind (kget (\<lambda>s. (log_dev s, log_start s, lh s))) (\<lambda>(dev, start, l).
     kfor [0..<length l] (\<lambda>tail. write_turn dev (start + tail + 1) (l ! tail)))"

definition commit :: "(unit, 'z log_scheme) K" where
  "commit = kbind (kget lh) (\<lambda>l. kwhen (0 < length l) (kblock
     [write_log, write_head, install_trans, kmod (lh_update (\<lambda>_. [])), write_head]))"

definition end_op :: "(unit, 'z log_scheme) K" where
  "end_op = kseq (acq LLog) (kseq (kmod (\<lambda>s. s\<lparr>outstanding := outstanding s - 1\<rparr>))
     (kbind (kget (\<lambda>s. (committing s, outstanding s))) (\<lambda>(cm, out).
      if cm then kpanic ''log.committing''
      else if out = 0 then kblock
        [kmod (committing_update (\<lambda>_. True)),
         rel LLog,
         commit,
         acq LLog,
         kmod (committing_update (\<lambda>_. False)),
         wakeup ChLog,
         rel LLog]
      else kseq (wakeup ChLog) (rel LLog))))"

definition log_write :: "nat \<Rightarrow> (unit, 'z log_scheme) K" where
  "log_write b = kbind (kget (\<lambda>s. (lh s, log_size s, outstanding s, b_blockno (bufs s ! b))))
     (\<lambda>(l, sz, out, n).
     if length l \<ge> LOGSIZE \<or> int (length l) \<ge> int sz - 1 then kpanic ''too big a transaction''
     else if out < 1 then kpanic ''log_write outside of trans''
     else let i = (case first_idx (\<lambda>m. m = n) l of Some i \<Rightarrow> i | None \<Rightarrow> length l) in kblock
       [acq LLog,
        kmod (lh_update (\<lambda>l. if i = length l then l @ [n] else l[i := n])),
        kmod (upd_buf b (\<lambda>bp. bp\<lparr>b_dirty := True\<rparr>)),
        rel LLog])"

section \<open>The header block\<close>

lemma put_head_length: "length x = 512 \<Longrightarrow> length l \<le> LOGSIZE \<Longrightarrow> length (put_head l x) = 512"
  unfolding put_head_def put_words_list
  by (rule words.put_list_length) (simp_all add: words.put_length LOGSIZE_def)

lemma head_of_put:
  assumes "length x = 512" and "length l \<le> LOGSIZE" and "\<forall>n \<in> set l. n < 4294967296"
  shows "head_of (put_head l x) = l"
proof -
  let ?y = "put_word 0 (length l) x"
  have y: "length ?y = 512" using assms(1) by (simp add: words.put_length)
  have l: "1 + length l \<le> 128" using assms(2) by (simp add: LOGSIZE_def)
  have "word_at (put_head l x) 0 = word_at ?y 0"
    unfolding put_head_def put_words_list using words.get_put_list [OF y l assms(3), of 0] by simp
  also have "\<dots> = length l" using assms(1,2) by (simp add: words.get_put LOGSIZE_def)
  finally have n: "nat (s32 (int (word_at (put_head l x) 0))) = length l"
    using assms(2) by (simp add: s32_id LOGSIZE_def)
  then have "head_of (put_head l x) = map (\<lambda>i. word_at (put_head l x) (1 + i)) [0..<length l]"
    by (simp only: head_of_def Let_def)
  also have "\<dots> = l"
    unfolding put_head_def put_words_list by (rule words.get_list [OF y l assms(3)])
  finally show ?thesis .
qed

section \<open>The log over the block layer\<close>

text \<open>The block layer does not look at the fields of the log.\<close>

lemma BC_same:
  assumes "bufs t = bufs s" "lru t = lru s" "disk t = disk s" "dwrites t = dwrites s" "procs t = procs s"
    "curproc t = curproc s" "held t = held s" "ide_status t = ide_status s" "idequeue t = idequeue s"
    "havedisk1 t = havedisk1 s"
  shows "BC d i t = BC d i s" and "slot d t = slot d s"
proof -
  show sl: "slot d t = slot d s" by (rule ext) (simp add: slot_def assms)
  have "view d t = view d s" by (rule ext) (simp add: view_def assms sl split: option.split)
  moreover have "io_ok d t i = io_ok d s i" by (simp add: io_ok_def awake_def drive_ok_def assms)
  moreover have "bc_ok d t = bc_ok d s" by (simp add: bc_ok_def assms)
  ultimately show "BC d i t = BC d i s"
    by (intro ext) (simp add: BC_def assms sl dirty_set_def busy_set_def)
qed

lemma BC_log_upd [simp]:
  "BC d i (s\<lparr>lh := l\<rparr>) = BC d i s" "BC d i (s\<lparr>outstanding := k\<rparr>) = BC d i s"
  "BC d i (s\<lparr>committing := c\<rparr>) = BC d i s" "slot d (s\<lparr>lh := l\<rparr>) = slot d s"
  by (rule BC_same; simp)+

lemma rest_log:
  assumes "rest t = rest s"
  shows "log_start t = log_start s" "log_dev t = log_dev s" "lh t = lh s" "log_size t = log_size s"
    "outstanding t = outstanding s" "committing t = committing s"
proof -
  have "log_start t = log_start (rest t)" "log_start s = log_start (rest s)"
    "log_dev t = log_dev (rest t)" "log_dev s = log_dev (rest s)" "lh t = lh (rest t)" "lh s = lh (rest s)"
    "log_size t = log_size (rest t)" "log_size s = log_size (rest s)"
    "outstanding t = outstanding (rest t)" "outstanding s = outstanding (rest s)"
    "committing t = committing (rest t)" "committing s = committing (rest s)"
    by (simp_all add: rest_def)
  with assms show "log_start t = log_start s" "log_dev t = log_dev s" "lh t = lh s" "log_size t = log_size s"
    "outstanding t = outstanding s" "committing t = committing s" by simp_all
qed

text \<open>The places of a log: header, log blocks, home blocks.\<close>

definition log_pairs :: "nat \<Rightarrow> nat list \<Rightarrow> (nat \<times> nat) list" where
  "log_pairs S l = map (\<lambda>k. (l ! k, S + k + 1)) [0..<length l]"

definition home_pairs :: "nat \<Rightarrow> nat list \<Rightarrow> (nat \<times> nat) list" where
  "home_pairs S l = map (\<lambda>k. (S + k + 1, l ! k)) [0..<length l]"

text \<open>Block numbers that can be in a log at \<open>S\<close>: on the device and outside the log area.\<close>

definition log_list :: "nat \<Rightarrow> nat list \<Rightarrow> bool" where
  "log_list S l \<longleftrightarrow> distinct l \<and> length l < LOGSIZE \<and> S + LOGSIZE < FSSIZE \<and>
     (\<forall>h \<in> set l. h < FSSIZE \<and> (h < S \<or> S + LOGSIZE < h))"

lemma log_list_facts:
  assumes "log_list S l"
  shows "distinct (map snd (log_pairs S l))" "distinct (map snd (home_pairs S l))"
    "fst ` set (log_pairs S l) \<inter> snd ` set (log_pairs S l) = {}"
    "fst ` set (home_pairs S l) \<inter> snd ` set (home_pairs S l) = {}"
    "\<forall>(a, c) \<in> set (log_pairs S l). a < FSSIZE \<and> c < FSSIZE"
    "\<forall>(a, c) \<in> set (home_pairs S l). a < FSSIZE \<and> c < FSSIZE"
    "fst ` set (log_pairs S l) = set l" "snd ` set (home_pairs S l) = set l"
    "snd ` set (log_pairs S l) \<inter> set l = {}"
    "\<forall>n \<in> set l. n < 4294967296"
proof -
  have l: "length l < LOGSIZE" "S + LOGSIZE < FSSIZE" "distinct l"
    and h: "\<forall>h \<in> set l. h < FSSIZE \<and> (h < S \<or> S + LOGSIZE < h)"
    using assms by (simp_all add: log_list_def)
  have out: "l ! k < FSSIZE \<and> (l ! k < S \<or> S + LOGSIZE < l ! k)" if "k < length l" for k
    using h that by simp
  have nths: "(!) l ` {0..<length l} = set l" by (auto simp: set_conv_nth)
  show "distinct (map snd (log_pairs S l))"
    by (simp add: log_pairs_def comp_def distinct_map inj_on_def)
  show "distinct (map snd (home_pairs S l))"
    using l(3) by (simp add: home_pairs_def comp_def map_nth)
  show "fst ` set (log_pairs S l) = set l" "snd ` set (home_pairs S l) = set l"
    by (simp_all add: log_pairs_def home_pairs_def image_image nths)
  have apart: "l ! k \<noteq> Suc (S + j)" if "k < length l" "j < length l" for j k
    using out [OF that(1)] that(2) l(1) by auto
  show lg: "fst ` set (log_pairs S l) \<inter> snd ` set (log_pairs S l) = {}"
    using apart by (force simp: log_pairs_def)
  show "fst ` set (home_pairs S l) \<inter> snd ` set (home_pairs S l) = {}"
    using apart by (force simp: home_pairs_def)
  show "snd ` set (log_pairs S l) \<inter> set l = {}"
    using lg \<open>fst ` set (log_pairs S l) = set l\<close> by auto
  show "\<forall>(a, c) \<in> set (log_pairs S l). a < FSSIZE \<and> c < FSSIZE"
    "\<forall>(a, c) \<in> set (home_pairs S l). a < FSSIZE \<and> c < FSSIZE"
    using out l by (force simp: log_pairs_def home_pairs_def)+
  show "\<forall>n \<in> set l. n < 4294967296" using h by (force simp: FSSIZE_def)
qed

lemma write_log_spec:
  assumes bc: "BC d i s V D W (set l) {}" and pos: "log_dev s = d" "log_start s = S" "lh s = l"
    and l: "log_list S l"
  shows "\<exists>t. write_log s = Ok () t \<and> BC d i t (replay (copies (d mod 2) V (log_pairs S l)) V)
      (replay (copies (d mod 2) V (log_pairs S l)) D) (W @ copies (d mod 2) V (log_pairs S l)) (set l) {} \<and>
    rest t = rest s"
proof -
  note f = log_list_facts [OF l]
  have card: "card (set l) < NBUF"
    using l by (simp add: log_list_def distinct_card LOGSIZE_def NBUF_def)
  have "\<exists>t. kfor (log_pairs S l) (\<lambda>(a, c). write_turn d c a) s = Ok () t \<and>
      BC d i t (replay (copies (d mod 2) V (log_pairs S l)) V) (replay (copies (d mod 2) V (log_pairs S l)) D)
        (W @ copies (d mod 2) V (log_pairs S l)) (set l - snd ` set (log_pairs S l)) {} \<and> rest t = rest s"
  proof (rule cache.copy_all [OF bc f(5,3,1) card])
    show "\<forall>(a, c) \<in> set (log_pairs S l). a \<in> set l \<or> c \<in> set l \<or> card (set l) + 2 \<le> NBUF"
      by (auto simp: log_pairs_def)
    fix a c s V D W Dy
    assume "BC d i s V D W Dy {}" "a < FSSIZE" "c < FSSIZE" "a \<noteq> c" "card Dy < NBUF"
      "a \<in> Dy \<or> c \<in> Dy \<or> card Dy + 2 \<le> NBUF"
    then show "\<exists>t. (case (a, c) of (a, c) \<Rightarrow> write_turn d c a) s = Ok () t \<and>
        BC d i t (V(c := V a)) (D(c := V a)) (W @ [(d mod 2, c, V a)]) (Dy - {c}) {} \<and> rest t = rest s"
      using cache.copy_block(1) [of d i s V D W Dy a c] by (simp add: write_turn_def)
  qed
  moreover have "set l - snd ` set (log_pairs S l) = set l" using f(9) by auto
  moreover have "write_log s = kfor (log_pairs S l) (\<lambda>(a, c). write_turn d c a) s"
    by (simp add: write_log_def pos log_pairs_def kfor_map)
  ultimately show ?thesis by simp
qed

lemma install_spec:
  assumes bc: "BC d i s V D W Dy {}" and pos: "log_dev s = d" "log_start s = S" "lh s = l"
    and l: "log_list S l" and dy: "Dy = {} \<or> Dy = set l"
  shows "\<exists>t. install_trans s = Ok () t \<and> BC d i t (replay (copies (d mod 2) V (home_pairs S l)) V)
      (replay (copies (d mod 2) V (home_pairs S l)) D) (W @ copies (d mod 2) V (home_pairs S l)) {} {} \<and>
    rest t = rest s"
proof -
  note f = log_list_facts [OF l]
  have card: "card Dy < NBUF"
    using l dy by (auto simp: log_list_def distinct_card LOGSIZE_def NBUF_def)
  have "\<exists>t. kfor (home_pairs S l) (\<lambda>(a, c). install_turn d a c) s = Ok () t \<and>
      BC d i t (replay (copies (d mod 2) V (home_pairs S l)) V) (replay (copies (d mod 2) V (home_pairs S l)) D)
        (W @ copies (d mod 2) V (home_pairs S l)) (Dy - snd ` set (home_pairs S l)) {} \<and> rest t = rest s"
  proof (rule cache.copy_all [OF bc f(6,4,2) card])
    show "\<forall>(a, c) \<in> set (home_pairs S l). a \<in> Dy \<or> c \<in> Dy \<or> card Dy + 2 \<le> NBUF"
      using dy by (auto simp: home_pairs_def NBUF_def)
    fix a c s V D W Dy
    assume "BC d i s V D W Dy {}" "a < FSSIZE" "c < FSSIZE" "a \<noteq> c" "card Dy < NBUF"
      "a \<in> Dy \<or> c \<in> Dy \<or> card Dy + 2 \<le> NBUF"
    then show "\<exists>t. (case (a, c) of (a, c) \<Rightarrow> install_turn d a c) s = Ok () t \<and>
        BC d i t (V(c := V a)) (D(c := V a)) (W @ [(d mod 2, c, V a)]) (Dy - {c}) {} \<and> rest t = rest s"
      using cache.copy_block(2) [of d i s V D W Dy a c] by (simp add: install_turn_def)
  qed
  moreover have "Dy - snd ` set (home_pairs S l) = {}" using f(8) dy by auto
  moreover have "install_trans s = kfor (home_pairs S l) (\<lambda>(a, c). install_turn d a c) s"
    by (simp add: install_trans_def pos home_pairs_def kfor_map)
  ultimately show ?thesis by simp
qed

lemma write_head_spec:
  assumes bc: "BC d i s V D W Dy {}" and pos: "log_dev s = d" "log_start s = S" "lh s = l"
    and S: "S < FSSIZE" "S \<notin> Dy" "card Dy < NBUF"
  shows "\<exists>t. write_head s = Ok () t \<and> BC d i t (V(S := put_head l (V S))) (D(S := put_head l (V S)))
      (W @ [(d mod 2, S, put_head l (V S))]) Dy {} \<and> rest t = rest s"
  using cache.write_block [OF bc S(1), of "put_head l"] S
  by (simp add: write_head_def pos)

section \<open>Commit and recovery\<close>

text \<open>The disk writes of a commit, in order: the log blocks, the header, the home blocks, the empty header.\<close>

definition commit_writes :: "nat \<Rightarrow> nat \<Rightarrow> nat list \<Rightarrow> (nat \<Rightarrow> block) \<Rightarrow> (nat \<times> nat \<times> block) list" where
  "commit_writes u S l V = copies u V (log_pairs S l) @ [(u, S, put_head l (V S))] @
     map (\<lambda>h. (u, h, V h)) l @ [(u, S, put_head [] (put_head l (V S)))]"

lemma home_copies:
  assumes "\<And>k. k < length l \<Longrightarrow> V' (S + k + 1) = V (l ! k)"
  shows "copies u V' (home_pairs S l) = map (\<lambda>h. (u, h, V h)) l"
proof -
  have "copies u V' (home_pairs S l) = map (\<lambda>k. (u, l ! k, V (l ! k))) [0..<length l]"
    using assms by (simp add: copies_def home_pairs_def comp_def)
  also have "\<dots> = map (\<lambda>h. (u, h, V h)) (map ((!) l) [0..<length l])" by (simp add: comp_def)
  finally show ?thesis by (simp add: map_nth)
qed

text \<open>After the log blocks are written, log block \<open>k\<close> is the new content of home block \<open>k\<close>.\<close>

lemma replay_log_block:
  assumes l: "log_list S l" and k: "k < length l"
  shows "replay (copies u V (log_pairs S l)) D (S + k + 1) = V (l ! k)"
proof (rule replay_in)
  show "(u, S + k + 1, V (l ! k)) \<in> set (copies u V (log_pairs S l))"
    using k by (force simp: copies_def log_pairs_def)
  have "map (\<lambda>(u, n, x). n) (copies u V (log_pairs S l)) = map snd (log_pairs S l)"
    by (simp add: copies_def comp_def case_prod_unfold)
  then show "distinct (map (\<lambda>(u, n, x). n) (copies u V (log_pairs S l)))"
    using log_list_facts(1) [OF l] by simp
qed

lemma replay_log_other:
  "n \<le> S \<or> S + length l < n \<Longrightarrow> replay (copies u V (log_pairs S l)) D n = D n"
  by (rule replay_other) (auto simp: copies_def log_pairs_def)

lemma replay_home:
  "distinct l \<Longrightarrow> replay (map (\<lambda>h. (u, h, V h)) l) D n = (if n \<in> set l then V n else D n)"
proof -
  assume "distinct l"
  then have "distinct (map (\<lambda>(u, n, x). n) (map (\<lambda>h. (u, h, V h)) l))" by (simp add: comp_def)
  then show ?thesis
    using replay_in [of u n "V n" "map (\<lambda>h. (u, h, V h)) l" D] replay_other [of n "map (\<lambda>h. (u, h, V h)) l" D]
    by (simp add: image_image)
qed

lemma commit_spec:
  assumes bc: "BC d i s V D W (set l) {}" and pos: "log_dev s = d" "log_start s = S" "lh s = l"
    and l: "log_list S l" and some: "l \<noteq> []"
  shows "\<exists>t V'. commit s = Ok () t \<and> BC d i t V' (replay (commit_writes (d mod 2) S l V) D)
    (W @ commit_writes (d mod 2) S l V) {} {} \<and> lh t = [] \<and> rest t = rest (s\<lparr>lh := []\<rparr>)"
proof -
  let ?u = "d mod 2"
  let ?ws = "copies ?u V (log_pairs S l)"
  have S: "S < FSSIZE" "S \<notin> set l" and len: "length l < NBUF"
    using l by (auto simp: log_list_def LOGSIZE_def NBUF_def)
  have card: "card (set l) < NBUF" using len card_length [of l] by linarith
  obtain t where t: "write_log s = Ok () t" "BC d i t (replay ?ws V) (replay ?ws D) (W @ ?ws) (set l) {}"
    "rest t = rest s"
    using write_log_spec [OF bc pos l] by blast
  have pt: "log_dev t = d" "log_start t = S" "lh t = l" using rest_log [OF t(3)] pos by simp_all
  have VS: "replay ?ws V S = V S" by (rule replay_log_other) simp
  let ?h = "put_head l (V S)"
  obtain v where v: "write_head t = Ok () v"
    "BC d i v ((replay ?ws V)(S := ?h)) ((replay ?ws D)(S := ?h)) ((W @ ?ws) @ [(?u, S, ?h)]) (set l) {}"
    "rest v = rest t"
    using write_head_spec [OF t(2) pt S card] unfolding VS by blast
  have pv: "log_dev v = d" "log_start v = S" "lh v = l" using rest_log [OF v(3)] pt by simp_all
  have hc: "copies ?u ((replay ?ws V)(S := ?h)) (home_pairs S l) = map (\<lambda>h. (?u, h, V h)) l"
    by (rule home_copies) (simp add: replay_log_block [OF l, simplified])
  let ?hs = "map (\<lambda>h. (?u, h, V h)) l"
  obtain w where w: "install_trans v = Ok () w"
    "BC d i w (replay ?hs ((replay ?ws V)(S := ?h))) (replay ?hs ((replay ?ws D)(S := ?h)))
      (((W @ ?ws) @ [(?u, S, ?h)]) @ ?hs) {} {}" "rest w = rest v"
    using install_spec [OF v(2) pv l] unfolding hc by blast
  let ?w = "w\<lparr>lh := []\<rparr>"
  have pw: "log_dev ?w = d" "log_start ?w = S" "lh ?w = []" using rest_log [OF w(3)] pv by simp_all
  have WS: "replay ?hs ((replay ?ws V)(S := ?h)) S = ?h"
    using S(2) l by (simp add: replay_home log_list_def)
  have bw: "BC d i ?w (replay ?hs ((replay ?ws V)(S := ?h))) (replay ?hs ((replay ?ws D)(S := ?h)))
      (((W @ ?ws) @ [(?u, S, ?h)]) @ ?hs) {} {}"
    using w(2) by simp
  obtain x where x: "write_head ?w = Ok () x"
    "BC d i x ((replay ?hs ((replay ?ws V)(S := ?h)))(S := put_head [] ?h))
      ((replay ?hs ((replay ?ws D)(S := ?h)))(S := put_head [] ?h))
      ((((W @ ?ws) @ [(?u, S, ?h)]) @ ?hs) @ [(?u, S, put_head [] ?h)]) {} {}" "rest x = rest ?w"
    using write_head_spec [OF bw pw S(1)] unfolding WS by (auto simp: NBUF_def)
  have "commit s = Ok () x"
    using t(1) v(1) w(1) x(1) some by (simp add: commit_def pos kbind_def kseq_def)
  moreover have "rest x = rest (s\<lparr>lh := []\<rparr>)"
  proof -
    have "rest ?w = (rest w)\<lparr>lh := []\<rparr>" "rest (s\<lparr>lh := []\<rparr>) = (rest s)\<lparr>lh := []\<rparr>"
      by (simp_all add: rest_def)
    then show ?thesis using x(3) w(3) v(3) t(3) by simp
  qed
  moreover have "lh x = []" using rest_log [OF x(3)] by simp
  ultimately show ?thesis using x(2) by (auto simp: commit_writes_def)
qed

text \<open>What recovery makes of a disk.\<close>

definition recovered :: "nat \<Rightarrow> nat \<Rightarrow> (nat \<Rightarrow> block) \<Rightarrow> nat \<Rightarrow> block" where
  "recovered u S D = (replay (copies u D (home_pairs S (head_of (D S)))) D)(S := put_head [] (D S))"

lemma head_count: "length (head_of x) \<le> LOGSIZE \<Longrightarrow> s32 (int (word_at x 0)) \<le> int LOGSIZE"
  by (simp add: head_of_def Let_def)

lemma recover_spec:
  assumes bc: "BC d i s V D W {} {}" and pos: "log_dev s = d" "log_start s = S"
    and l: "log_list S (head_of (D S))"
  shows "\<exists>t W'. recover_from_log s = Ok () t \<and>
    BC d i t (recovered (d mod 2) S D) (recovered (d mod 2) S D) W' {} {} \<and> lh t = [] \<and>
    rest t = rest (s\<lparr>lh := []\<rparr>)"
proof -
  let ?l = "head_of (D S)"
  have V: "V = D" using cache.clean_law [OF bc] by auto
  have S: "S < FSSIZE" using l by (simp add: log_list_def)
  have n: "\<not> int LOGSIZE < s32 (int (word_at (D S) 0))"
    using head_count [of "D S"] l by (simp add: log_list_def)
  obtain b t where t: "bread d S s = Ok b t" "BC d i t D D W {} {S}" "slot d t S = Some b" "rest t = rest s"
    using cache.rd_law [OF bc S] V by (auto simp: NBUF_def)
  have g: "buf_data b t = Ok (D S) t" by (rule cache.gt_law [OF t(2) _ t(3)]) simp
  have "BC d i (t\<lparr>lh := ?l\<rparr>) D D W {} {S}" "slot d (t\<lparr>lh := ?l\<rparr>) S = Some b" using t by simp_all
  then obtain v where v: "brelse b (t\<lparr>lh := ?l\<rparr>) = Ok () v" "BC d i v D D W {} {}" "rest v = rest (t\<lparr>lh := ?l\<rparr>)"
    using cache.rl_law [of d i "t\<lparr>lh := ?l\<rparr>" D D W "{}" "{S}" S b] by auto
  have rd: "read_head s = Ok () v"
    using t(1) g v(1) n by (simp add: read_head_def pos kbind_def kseq_def)
  have pv: "log_dev v = d" "log_start v = S" "lh v = ?l"
    using rest_log [OF v(3)] rest_log [OF t(4)] pos by simp_all
  obtain w where w: "install_trans v = Ok () w"
    "BC d i w (replay (copies (d mod 2) D (home_pairs S ?l)) D) (replay (copies (d mod 2) D (home_pairs S ?l)) D)
      (W @ copies (d mod 2) D (home_pairs S ?l)) {} {}" "rest w = rest v"
    using install_spec [OF v(2) pv l] by blast
  let ?D = "replay (copies (d mod 2) D (home_pairs S ?l)) D"
  have "S \<notin> set ?l" using l by (auto simp: log_list_def)
  then have DS: "?D S = D S"
    using log_list_facts(8) [OF l] by (intro replay_other) (force simp: copies_def)
  have pw: "log_dev (w\<lparr>lh := []\<rparr>) = d" "log_start (w\<lparr>lh := []\<rparr>) = S" "lh (w\<lparr>lh := []\<rparr>) = []"
    using rest_log [OF w(3)] pv by simp_all
  have bw: "BC d i (w\<lparr>lh := []\<rparr>) ?D ?D (W @ copies (d mod 2) D (home_pairs S ?l)) {} {}" using w(2) by simp
  obtain x where x: "write_head (w\<lparr>lh := []\<rparr>) = Ok () x"
    "BC d i x (?D(S := put_head [] (D S))) (?D(S := put_head [] (D S)))
      ((W @ copies (d mod 2) D (home_pairs S ?l)) @ [(d mod 2, S, put_head [] (D S))]) {} {}"
    "rest x = rest (w\<lparr>lh := []\<rparr>)"
    using write_head_spec [OF bw pw S] unfolding DS by (auto simp: NBUF_def)
  have "recover_from_log s = Ok () x"
    using rd w(1) x(1) by (simp add: recover_from_log_def kbind_def kseq_def)
  moreover have "rest x = rest (s\<lparr>lh := []\<rparr>)"
  proof -
    have "rest (y\<lparr>lh := m\<rparr>) = (rest y)\<lparr>lh := m\<rparr>" for y :: "'a log_scheme" and m by (simp add: rest_def)
    then show ?thesis using x(3) w(3) v(3) t(4) by simp
  qed
  moreover have "lh x = []" using rest_log [OF x(3)] by simp
  ultimately show ?thesis using x(2) by (auto simp: recovered_def)
qed

text \<open>Cutting the writes of a commit off after \<open>j\<close> of them.\<close>

lemma crash_before:
  fixes u :: nat and V :: "nat \<Rightarrow> block"
  assumes l: "log_list S l" and D: "head_of (D S) = []" and j: "j \<le> length l"
    and Dj: "Dj = replay (take j (commit_writes u S l V)) D"
  shows "head_of (Dj S) = [] \<and> (n < S \<or> S + LOGSIZE < n \<longrightarrow> recovered u S Dj n = D n)"
proof -
  have len: "length (copies u V (log_pairs S l)) = length l" by (simp add: copies_def log_pairs_def)
  have tk: "take j (commit_writes u S l V) = take j (copies u V (log_pairs S l))"
    using j by (simp add: commit_writes_def len)
  have same: "Dj n = D n" if "n \<le> S \<or> S + LOGSIZE < n" for n
    unfolding Dj tk
  proof (rule replay_other)
    show "n \<notin> (\<lambda>(u, n, x). n) ` set (take j (copies u V (log_pairs S l)))"
      using that l by (auto simp: copies_def log_pairs_def log_list_def dest!: in_set_takeD)
  qed
  then have h: "head_of (Dj S) = []" using D by simp
  moreover have "recovered u S Dj n = D n" if "n < S \<or> S + LOGSIZE < n"
    using that same [of n] h by (auto simp: recovered_def home_pairs_def copies_def replay_def)
  ultimately show ?thesis by blast
qed

text \<open>With the header on the disk, recovery finds the new blocks, however many are home already.\<close>

lemma recover_new:
  fixes u :: nat and V :: "nat \<Rightarrow> block"
  assumes l: "log_list S l" and h: "head_of (E S) = l"
    and lb: "\<And>k. k < length l \<Longrightarrow> E (S + k + 1) = V (l ! k)"
    and n: "n < S \<or> S + LOGSIZE < n" "n \<notin> set l \<Longrightarrow> E n = V n"
  shows "recovered u S E n = V n"
proof -
  have "copies u E (home_pairs S l) = map (\<lambda>h. (u, h, V h)) l" by (rule home_copies) (rule lb)
  then show ?thesis using n h l by (auto simp: recovered_def replay_home log_list_def)
qed

lemma crash_after:
  fixes u :: nat and V :: "nat \<Rightarrow> block"
  assumes l: "log_list S l" and x: "length (V S) = 512" and V: "\<And>n. n \<notin> set l \<Longrightarrow> V n = D n"
    and j: "length l < j" and Dj: "Dj = replay (take j (commit_writes u S l V)) D"
  shows "(head_of (Dj S) = l \<or> head_of (Dj S) = []) \<and>
    (n < S \<or> S + LOGSIZE < n \<longrightarrow> recovered u S Dj n = V n)"
proof -
  let ?ws = "copies u V (log_pairs S l)" and ?h = "put_head l (V S)"
  let ?hs = "map (\<lambda>h. (u, h, V h)) l"
  have f: "\<forall>n \<in> set l. n < 4294967296" "length l \<le> LOGSIZE" "S \<notin> set l" "distinct l"
    using log_list_facts(10) [OF l] l by (auto simp: log_list_def)
  have out: "n \<notin> set l" if "S < n" "n \<le> S + LOGSIZE" for n using l that by (auto simp: log_list_def)
  have hd: "head_of ?h = l" by (rule head_of_put [OF x f(2,1)])
  have hd0: "head_of (put_head [] ?h) = []"
    by (rule head_of_put) (use x f(2) in \<open>simp_all add: put_head_length\<close>)
  have len: "length ?ws = length l" by (simp add: copies_def log_pairs_def)
  let ?E = "(replay ?ws D)(S := ?h)"
  have Eb: "?E (S + k + 1) = V (l ! k)" if "k < length l" for k
    using replay_log_block [OF l that, of u V D] by simp
  have Eo: "?E n = D n" if "n < S \<or> S + LOGSIZE < n" for n
    using that l replay_log_other [of n S l u V D] by (auto simp: log_list_def)
  have tk: "take j (commit_writes u S l V) = ?ws @ [(u, S, ?h)] @ take (j - Suc (length l)) (?hs @ [(u, S, put_head [] ?h)])"
    using j by (simp add: commit_writes_def len take_Cons' Suc_diff_le)
  show ?thesis
  proof (cases "j - Suc (length l) \<le> length l")
    case True
    let ?m = "j - Suc (length l)"
    have Dm: "Dj = replay (map (\<lambda>h. (u, h, V h)) (take ?m l)) ?E"
      using True by (simp add: Dj tk take_map)
    have at: "Dj n = (if n \<in> set (take ?m l) then V n else ?E n)" for n
      unfolding Dm by (rule replay_home) (simp add: f(4))
    have sub: "n \<in> set l" if "n \<in> set (take ?m l)" for n using that by (rule in_set_takeD)
    have h: "head_of (Dj S) = l" using at [of S] sub [of S] f(3) hd by auto
    have b: "Dj (S + k + 1) = V (l ! k)" if "k < length l" for k
      using at [of "S + k + 1"] sub [of "S + k + 1"] out [of "S + k + 1"] Eb [OF that] that f(2) by auto
    show ?thesis
      using h recover_new [OF l h b] at [of n] sub [of n] Eo [of n] V [of n] by auto
  next
    case False
    then have "Dj = replay (?hs @ [(u, S, put_head [] ?h)]) ?E" by (simp add: Dj tk)
    then have D1: "Dj = (replay ?hs ?E)(S := put_head [] ?h)" by simp
    have "head_of (Dj S) = []" using hd0 by (simp add: D1)
    moreover have "recovered u S Dj n = V n" if n: "n < S \<or> S + LOGSIZE < n"
      using n \<open>head_of (Dj S) = []\<close> replay_home [OF f(4), of u V ?E n] Eo [OF n] V [of n]
      by (auto simp: recovered_def home_pairs_def copies_def replay_def D1)
    ultimately show ?thesis by blast
  qed
qed

lemma initlog_spec:
  assumes bc: "BC d i s V D W {} {}" and sb: "sb_logstart (decode_sb (D 1)) = S"
    and l: "log_list S (head_of (D S))"
  shows "\<exists>t W'. initlog d s = Ok () t \<and>
    BC d i t (recovered (d mod 2) S D) (recovered (d mod 2) S D) W' {} {} \<and> lh t = []"
proof -
  have V: "V = D" using cache.clean_law [OF bc] by auto
  obtain t where t: "readsb d s = Ok (decode_sb (D 1)) t" "BC d i t D D W {} {}"
    using cache.read_block [OF bc, of 1 decode_sb] unfolding V by (auto simp: readsb_def FSSIZE_def NBUF_def)
  let ?t = "t\<lparr>log_start := S, log_size := sb_nlog (decode_sb (D 1)), log_dev := d\<rparr>"
  have "BC d i ?t = BC d i t" by (rule BC_same) simp_all
  then have "BC d i ?t D D W {} {}" using t(2) by simp
  then obtain v W' where "recover_from_log ?t = Ok () v"
    "BC d i v (recovered (d mod 2) S D) (recovered (d mod 2) S D) W' {} {}" "lh v = []"
    using recover_spec [of d i ?t D D W S] l by auto
  then show ?thesis using t(1) using sb by (auto simp: initlog_def kbind_def kseq_def BSIZE_def LOGSIZE_def)
qed

section \<open>Crash safety\<close>

text \<open>A kernel that has just come up over a disk, and one with a block in the log.\<close>

definition fresh_buf :: buf where
  "fresh_buf = \<lparr>b_busy = False, b_valid = False, b_dirty = False, b_dev = 4294967295, b_blockno = 0,
     b_data = []\<rparr>"

definition up_log :: "buf \<Rightarrow> (nat \<Rightarrow> block) \<Rightarrow> nat list \<Rightarrow> log" where
  "up_log bp D l = kmem.extend (kmem.truncate (small_kmem\<lparr>curproc := Some 0,
       procs := [zero_proc\<lparr>p_state := RUNNING\<rparr>]\<rparr>))
     \<lparr>bufs = bp # replicate 29 fresh_buf, idequeue = [], havedisk1 = True, ide_status = 0x40, ide_unit = 0,
      ide_sector = 0, disk = (\<lambda>_. D), dwrites = [], lru = [0..<30], log_start = 2, log_size = 30,
      outstanding = 0, committing = False, log_dev = 1, lh = l\<rparr>"

lemma up_log_sel [simp]:
  "bufs (up_log bp D l) = bp # replicate 29 fresh_buf" "idequeue (up_log bp D l) = []"
  "havedisk1 (up_log bp D l)" "ide_status (up_log bp D l) = 0x40" "disk (up_log bp D l) = (\<lambda>_. D)"
  "dwrites (up_log bp D l) = []" "lru (up_log bp D l) = [0..<30]" "log_start (up_log bp D l) = 2"
  "log_dev (up_log bp D l) = 1" "lh (up_log bp D l) = l" "held (up_log bp D l) = []"
  "curproc (up_log bp D l) = Some 0" "procs (up_log bp D l) = [zero_proc\<lparr>p_state := RUNNING\<rparr>]"
  by (simp_all add: up_log_def kmem.defs)

lemma up_log_BC:
  assumes "good_buf 1 D bp" and "\<not> b_busy bp"
  shows "BC 1 0 (up_log bp D l) (if b_dev bp = 1 then D(b_blockno bp := b_data bp) else D) D []
    (if b_dev bp = 1 \<and> b_dirty bp then {b_blockno bp} else {}) {}"
proof -
  let ?s = "up_log bp D l"
  have fb: "b_dev fresh_buf \<noteq> 1" "good_buf 1 D fresh_buf" by (simp_all add: fresh_buf_def good_buf_def)
  have nth: "bufs ?s ! b = (if b = 0 then bp else fresh_buf)" if "b < NBUF" for b
    using that by (cases b) (auto simp: NBUF_def)
  have at0: "b = 0" if "b < NBUF" "b_dev (bufs ?s ! b) = 1" for b
    using nth [OF that(1)] that(2) fb(1) by (auto split: if_splits)
  have "one_each 1 (bufs ?s)" unfolding one_each_def using at0 by blast
  moreover have "\<forall>b < NBUF. good_buf 1 D (bufs ?s ! b)" 
  proof (intro allI impI)
    fix b assume b: "b < NBUF"
    show "good_buf 1 D (bufs ?s ! b)" unfolding nth [OF b] using assms(1) fb(2) by simp
  qed
  ultimately have ok: "bc_ok 1 ?s"
    unfolding bc_ok_def by (simp add: NBUF_def atLeast0LessThan)
  have slot: "slot 1 ?s n = (if b_dev bp = 1 \<and> n = b_blockno bp then Some 0 else None)" for n
  proof -
    have "slot 1 ?s n = Some b \<longleftrightarrow> b = 0 \<and> b_dev bp = 1 \<and> b_blockno bp = n" for b
      unfolding slot_iff [OF ok] using nth [of 0] at0 [of b] by (auto simp: NBUF_def)
    then show ?thesis by (cases "slot 1 ?s n") auto
  qed
  note slot = slot [unfolded One_nat_def]
  have "io_ok 1 ?s 0" by (simp add: io_ok_def awake_def drive_ok_def zero_proc_def)
  moreover have "view 1 ?s = (if b_dev bp = 1 then D(b_blockno bp := b_data bp) else D)"
    by (rule ext) (simp add: view_def slot)
  moreover have "dirty_set 1 ?s = (if b_dev bp = 1 \<and> b_dirty bp then {b_blockno bp} else {})"
    by (auto simp: dirty_set_def slot)
  moreover have "busy_set 1 ?s = {}" using assms(2) by (simp add: busy_set_def slot)
  ultimately show ?thesis using ok by (simp add: BC_def)
qed

definition new_buf :: buf where
  "new_buf = \<lparr>b_busy = False, b_valid = True, b_dirty = True, b_dev = 1, b_blockno = 40,
     b_data = replicate 512 7\<rparr>"

definition old_disk :: "nat \<Rightarrow> block" where
  "old_disk = (\<lambda>_. replicate 512 0)(1 := put_words 0 [1000, 900, 200, 30, 2, 32, 60] (replicate 512 0))"

definition cut_disk :: "nat \<Rightarrow> block" where
  "cut_disk = replay (take 2 (commit_writes 1 2 [40] (old_disk(40 := replicate 512 7)))) old_disk"

text \<open>
  C1. Commit is atomic. Let a transaction have pinned the blocks \<open>l\<close>, with new contents \<open>V\<close>, over a
  disk \<open>D\<close> with an empty log. \<open>commit\<close> returns with every block home and the header cleared. Let
  the machine stop after any number \<open>j\<close> of its disk writes, and a new kernel run \<open>initlog\<close> over what
  is then on the disk: every block outside the log area is the old one if the header had not been
  written, and the new one if it had; never a mixture.
\<close>

lemma commit_crash_safe:
  assumes bc: "BC d i s V D [] (set l) {}" and pos: "log_dev s = d" "log_start s = S" "lh s = l"
    and l: "log_list S l" "l \<noteq> []" and empty: "head_of (D S) = []" "length (D S) = 512"
    and sb: "sb_logstart (decode_sb (D 1)) = S" "1 < S" "1 \<notin> set l"
    and up: "BC d i' r V' (replay (take j (commit_writes (d mod 2) S l V)) D) W' {} {}"
  shows "\<exists>t q. commit s = Ok () t \<and> dwrites t = commit_writes (d mod 2) S l V \<and> lh t = [] \<and>
    dirty_set d t = {} \<and> initlog d r = Ok () q \<and>
    (\<forall>n. disk t (d mod 2) n = V n \<or> S \<le> n \<and> n \<le> S + LOGSIZE) \<and>
    (\<forall>n. disk q (d mod 2) n = (if j \<le> length l then D n else V n) \<or> S \<le> n \<and> n \<le> S + LOGSIZE)"
proof -
  let ?u = "d mod 2" let ?ws = "commit_writes ?u S l V"
  let ?E = "replay (take j ?ws) D"
  have VD: "V n = D n" if "n \<notin> set l" for n using cache.clean_law [OF bc that] by simp
  have VS: "length (V S) = 512" using VD [of S] l empty by (auto simp: log_list_def)
  obtain t V'' where t: "commit s = Ok () t" "BC d i t V'' (replay ?ws D) ([] @ ?ws) {} {}" "lh t = []"
    using commit_spec [OF bc pos l] by blast
  have old: "head_of (?E S) = [] \<and> (n < S \<or> S + LOGSIZE < n \<longrightarrow> recovered ?u S ?E n = D n)"
    if "j \<le> length l" for n
    using crash_before [where D = D and Dj = ?E, OF l(1) empty(1) that refl] .
  have new: "(head_of (?E S) = l \<or> head_of (?E S) = []) \<and> (n < S \<or> S + LOGSIZE < n \<longrightarrow> recovered ?u S ?E n = V n)"
    if "length l < j" for n
    using crash_after [where D = D and V = V and Dj = ?E, OF l(1) VS VD that refl] by blast
  have ll0: "log_list S []" using l(1) by (simp add: log_list_def)
  have "log_list S (head_of (?E S))"
    using old [of 0] new [of 0] l(1) ll0 by (metis not_le)
  moreover have "?E 1 = D 1"
  proof -
    have "1 \<notin> (\<lambda>(u, n, x). n) ` set (take j ?ws)"
      using sb by (auto simp: commit_writes_def copies_def log_pairs_def dest!: in_set_takeD)
    then show ?thesis by (rule replay_other)
  qed
  ultimately obtain q W'' where q: "initlog d r = Ok () q"
    "BC d i' q (recovered ?u S ?E) (recovered ?u S ?E) W'' {} {}"
    using initlog_spec [OF up, of S] sb(1) by auto
  have dq: "disk q ?u = recovered ?u S ?E" using q(2) by (simp add: BC_def)
  have dt: "disk t ?u = replay ?ws D" "dirty_set d t = {}" "dwrites t = ?ws"
    using t(2) by (simp_all add: BC_def)
  have fin: "replay ?ws D n = V n" if "n < S \<or> S + LOGSIZE < n" for n
  proof -
    have "recovered ?u S (replay (take (length ?ws) ?ws) D) n = V n"
      using crash_after [where D = D and V = V, OF l(1) VS VD, of "length ?ws" "replay (take (length ?ws) ?ws) D" ?u n] that
      by (simp add: commit_writes_def copies_def log_pairs_def)
    moreover have "replay ?ws D S = put_head [] (put_head l (V S))" by (simp add: commit_writes_def)
    then have "head_of (replay ?ws D S) = []"
      using head_of_put [of "put_head l (V S)" "[]"] put_head_length [OF VS, of l] l(1)
      by (simp add: log_list_def)
    ultimately show ?thesis using that by (auto simp: recovered_def home_pairs_def copies_def)
  qed
  have "disk q ?u n = (if j \<le> length l then D n else V n) \<or> S \<le> n \<and> n \<le> S + LOGSIZE" for n
    using old [of n] new [of n] by (cases "S \<le> n \<and> n \<le> S + LOGSIZE"; cases "j \<le> length l") (auto simp: dq)
  moreover have "disk t ?u n = V n \<or> S \<le> n \<and> n \<le> S + LOGSIZE" for n
    using fin [of n] by (cases "S \<le> n \<and> n \<le> S + LOGSIZE") (auto simp: dt)
  ultimately show ?thesis using t(1,3) q(1) dt by blast
qed

lemma commit_crash_safe_witness:
  "\<exists>t q. commit (up_log new_buf old_disk [40]) = Ok () t \<and> initlog 1 (up_log fresh_buf cut_disk []) = Ok () q \<and>
     disk t 1 40 = replicate 512 7 \<and> disk q 1 40 = replicate 512 7"

proof -
  have new: "good_buf 1 old_disk new_buf" "\<not> b_busy new_buf" "b_dev new_buf = 1" "b_blockno new_buf = 40"
    "b_data new_buf = replicate 512 7" "b_dirty new_buf"
    by (simp_all add: good_buf_def new_buf_def)
  have fresh: "good_buf 1 cut_disk fresh_buf" "\<not> b_busy fresh_buf" "b_dev fresh_buf \<noteq> 1"
    by (simp_all add: good_buf_def fresh_buf_def)
  have bc: "BC 1 0 (up_log new_buf old_disk [40]) (old_disk(40 := replicate 512 7)) old_disk [] (set [40]) {}"
    using up_log_BC [OF new(1,2), of "[40]"] new by simp
  have up: "BC 1 0 (up_log fresh_buf cut_disk []) cut_disk cut_disk [] {} {}"
    using up_log_BC [OF fresh(1,2), of "[]"] fresh(3) by simp
  have l: "log_list 2 [40]" by (simp add: log_list_def LOGSIZE_def FSSIZE_def)
  have e: "head_of (old_disk 2) = []" "length (old_disk 2) = 512"
    by (simp_all add: old_disk_def head_of_def word_at_def s32_id)
  have sb: "sb_logstart (decode_sb (old_disk 1)) = 2" 
    using words.get_put_list [of "replicate 512 0" 0 "[1000, 900, 200, 30, 2, 32, 60]" 4]
    by (simp add: old_disk_def decode_sb_def put_words_list del: put_words.simps words.put_list.simps)
  have up2: "BC 1 0 (up_log fresh_buf cut_disk [])  cut_disk (replay (take 2 (commit_writes (1 mod 2) 2 [40]
      (old_disk(40 := replicate 512 7)))) old_disk) [] {} {}"
    using up by (simp add: cut_disk_def)
  obtain t q where "commit (up_log new_buf old_disk [40]) = Ok () t" "initlog 1 (up_log fresh_buf cut_disk []) = Ok () q"
    "\<forall>n. disk t (1 mod 2) n = (old_disk(40 := replicate 512 7)) n \<or> 2 \<le> n \<and> n \<le> 2 + LOGSIZE"
    "\<forall>n. disk q (1 mod 2) n = (if 2 \<le> length [40 :: nat] then old_disk n else (old_disk(40 := replicate 512 7)) n) \<or>
      2 \<le> n \<and> n \<le> 2 + LOGSIZE"
    using commit_crash_safe [OF bc _ _ _ l _ e sb _ _ up2] by auto
  then show ?thesis by (auto simp: LOGSIZE_def dest!: spec [of _ 40])
qed

section \<open>Room in the log\<close>

interpretation logpart: aside "\<lambda>s :: log. (lh s, outstanding s, committing s)"
  by unfold_locales simp_all

lemma log_write_apply:
  assumes "LLog \<notin> set (held s)"
  shows "log_write b s = (let n = b_blockno (bufs s ! b) in
    if LOGSIZE \<le> length (lh s) \<or> int (log_size s) - 1 \<le> int (length (lh s)) then Panic ''too big a transaction''
    else if outstanding s < 1 then Panic ''log_write outside of trans''
    else Ok () (s\<lparr>lh := (if n \<in> set (lh s) then lh s else lh s @ [n]),
      bufs := (bufs s)[b := (bufs s ! b)\<lparr>b_dirty := True\<rparr>]\<rparr>))"
proof -
  let ?n = "b_blockno (bufs s ! b)"
  have new: "first_idx (\<lambda>m. m = ?n) (lh s) = None \<longleftrightarrow> ?n \<notin> set (lh s)" by (auto simp: first_idx_None)
  have same: "(lh s)[i := ?n] = lh s" "i \<noteq> length (lh s)" if "first_idx (\<lambda>m. m = ?n) (lh s) = Some i" for i
    using first_idx_holds [OF that] first_idx_less [OF that] by (metis list_update_id, simp)
  show ?thesis
    using assms new same
    by (cases "first_idx (\<lambda>m. m = ?n) (lh s)")
      (auto simp: log_write_def Let_def acq_apply rel_apply kseq_def kbind_def upd_buf_def not_le)
qed

lemma begin_op_apply:
  "LLog \<notin> set (held s) \<Longrightarrow> \<not> committing s \<Longrightarrow>
     int (length (lh s)) + (outstanding s + 1) * int MAXOPBLOCKS \<le> int LOGSIZE \<Longrightarrow>
     begin_op s = Ok () (s\<lparr>outstanding := outstanding s + 1\<rparr>)"
  by (simp add: begin_op_def acq_apply rel_apply kseq_def kbind_def)

lemma log_writes:
  assumes "LLog \<notin> set (held s)" and "0 < outstanding s" and "distinct (lh s @ map (\<lambda>b. b_blockno (bufs s ! b)) bs)"
    and "length (lh s) + length bs \<le> LOGSIZE" and "length (lh s) + length bs < log_size s" and "distinct bs"
  shows "\<exists>t. kfor bs log_write s = Ok () t \<and> lh t = lh s @ map (\<lambda>b. b_blockno (bufs s ! b)) bs \<and>
    held t = held s \<and> outstanding t = outstanding s \<and> log_size t = log_size s \<and>
    (\<forall>b. b \<notin> set bs \<longrightarrow> bufs t ! b = bufs s ! b)"
  using assms
proof (induction bs arbitrary: s)
  case Nil
  then show ?case by simp
next
  case (Cons b bs)
  let ?t = "s\<lparr>lh := lh s @ [b_blockno (bufs s ! b)], bufs := (bufs s)[b := (bufs s ! b)\<lparr>b_dirty := True\<rparr>]\<rparr>"
  have t: "log_write b s = Ok () ?t" using Cons.prems by (simp add: log_write_apply Let_def)
  have other: "map (\<lambda>b. b_blockno (bufs ?t ! b)) bs = map (\<lambda>b. b_blockno (bufs s ! b)) bs"
    using Cons.prems(6) by (auto intro!: arg_cong [where f = b_blockno] nth_list_update_neq)
  have "distinct (lh ?t @ map (\<lambda>b. b_blockno (bufs ?t ! b)) bs)" using Cons.prems(3) unfolding other by auto
  then obtain v where "kfor bs log_write ?t = Ok () v" "lh v = lh ?t @ map (\<lambda>b. b_blockno (bufs s ! b)) bs"
    "held v = held ?t" "outstanding v = outstanding ?t" "log_size v = log_size ?t"
    "\<forall>b. b \<notin> set bs \<longrightarrow> bufs v ! b = bufs ?t ! b"
    using Cons.IH [of ?t, unfolded other] Cons.prems by auto
  then show ?case using t by (auto simp: kseq_def kbind_def)
qed

text \<open>
  C20. The reservation of \<open>begin_op\<close> is right for a log of \<open>LOGSIZE + 1\<close> blocks and one short for a
  log of \<open>LOGSIZE\<close> blocks, which is what mkfs makes: an idle log admits three operations, and the
  ten different blocks each may write all fit in the first case; in the second the last of the
  thirty writes panics with "too big a transaction".
\<close>

lemma log_reservation:
  assumes "LLog \<notin> set (held s)" and "\<not> committing s" and "outstanding s = 0" and "lh s = []"
    and "length bs = 30" and "distinct (map (\<lambda>b. b_blockno (bufs s ! b)) bs)" and "30 \<le> log_size s"
  shows "case kblock [begin_op, begin_op, begin_op, kfor bs log_write] s of
      Ok _ t \<Rightarrow> 31 \<le> log_size s \<and> lh t = map (\<lambda>b. b_blockno (bufs s ! b)) bs
    | r \<Rightarrow> log_size s = 30 \<and> r = Panic ''too big a transaction''"
proof -
  let ?s = "s\<lparr>outstanding := 3\<rparr>"
  have "begin_op s = Ok () (s\<lparr>outstanding := 1\<rparr>)"
    "begin_op (s\<lparr>outstanding := 1\<rparr>) = Ok () (s\<lparr>outstanding := 2\<rparr>)"
    "begin_op (s\<lparr>outstanding := 2\<rparr>) = Ok () ?s"
    using assms by (simp_all add: begin_op_apply MAXOPBLOCKS_def LOGSIZE_def)
  then have run: "kblock [begin_op, begin_op, begin_op, kfor bs log_write] s = kfor bs log_write ?s"
    by (simp add: kseq_def kbind_def)
  have d: "distinct bs" using assms(6) by (simp add: distinct_map)
  show ?thesis
  proof (cases "31 \<le> log_size s")
    case True
    then show ?thesis
      unfolding run using log_writes [of ?s bs] assms d by (auto simp: LOGSIZE_def)
  next
    case False
    then have sz: "log_size s = 30" using assms(7) by simp
    obtain as b where bs: "bs = as @ [b]" using assms(5) by (cases bs rule: rev_cases) auto
    obtain t where t: "kfor as log_write ?s = Ok () t" "length (lh t) = 29" "held t = held s" "log_size t = 30"
      using log_writes [of ?s as] assms d sz by (auto simp: bs LOGSIZE_def)
    have "log_write b t = Panic ''too big a transaction''"
      using assms(1) t by (simp add: log_write_apply Let_def LOGSIZE_def)
    then show ?thesis using t(1) sz unfolding run by (simp add: bs kfor_append kseq_def kbind_def)
  qed
qed

definition idle_log :: "nat \<Rightarrow> log" where
  "idle_log n = (up_log fresh_buf old_disk [])\<lparr>log_size := n,
     bufs := map (\<lambda>k. fresh_buf\<lparr>b_dev := 1, b_blockno := 100 + k\<rparr>) [0..<30]\<rparr>"

lemma log_reservation_witness:
  "kblock [begin_op, begin_op, begin_op, kfor [0..<30] log_write] (idle_log 30) = Panic ''too big a transaction'' \<and>
   (\<exists>t. kblock [begin_op, begin_op, begin_op, kfor [0..<30] log_write] (idle_log 31) = Ok () t)"
proof -
  have "distinct (map (\<lambda>b. b_blockno (bufs (idle_log n) ! b)) [0..<30])" for n
    by (simp add: idle_log_def distinct_map inj_on_def)
  then show ?thesis
    using log_reservation [of "idle_log 30" "[0..<30]"] log_reservation [of "idle_log 31" "[0..<30]"]
    by (auto simp: idle_log_def up_log_def kmem.defs split: res.splits)
qed

end
