(* ===== verification/Txn.thy ===== *)
theory Txn
  imports Log
begin

text \<open>
  What the file system relies on inside a transaction: the contract of bread, log_write and brelse
  as one. The blocks a transaction has written are exactly those in the log; a block in use is
  either in the log or as it is on the disk; and there is room for \<open>k\<close> more block writes.
\<close>

definition TX :: "nat \<Rightarrow> nat \<Rightarrow> 'z log_scheme \<Rightarrow> (nat \<Rightarrow> block) \<Rightarrow> nat set \<Rightarrow> nat \<Rightarrow> bool" where
  "TX d i s V Bz k \<longleftrightarrow> (\<exists>D W. BC d i s V D W (set (lh s)) Bz \<and> (\<forall>n \<in> Bz. n \<in> set (lh s) \<or> V n = D n)) \<and>
     distinct (lh s) \<and> 1 \<le> outstanding s \<and> length (lh s) + k \<le> LOGSIZE \<and> length (lh s) + k < log_size s"

text \<open>All but the block layer and the list of logged blocks.\<close>

definition trest :: "'z log_scheme \<Rightarrow> 'z log_scheme" where
  "trest s = (rest s)\<lparr>lh := []\<rparr>"

lemma trest_rest: "rest t = rest s \<Longrightarrow> trest t = trest s"
  by (simp add: trest_def)

lemma TX_less: "TX d i s V Bz k \<Longrightarrow> j \<le> k \<Longrightarrow> TX d i s V Bz j"
  by (auto simp: TX_def)

definition put_logged :: "nat \<Rightarrow> block \<Rightarrow> (unit, 'z log_scheme) K" where
  "put_logged b x = kseq (set_data b x) (log_write b)"

text \<open>
  The interface: \<open>rd n\<close> gets hold of a block, \<open>gt\<close> looks at it, \<open>pt\<close> replaces it and logs it, \<open>rl\<close>
  lets it go; \<open>R s V Bz k\<close> says the blocks are \<open>V\<close>, those in \<open>Bz\<close> are held and \<open>k\<close> writes are left;
  \<open>need n k\<close> is the room that leaves \<open>k\<close> after a write of block \<open>n\<close>.
\<close>

locale txn_layer =
  fixes rd :: "nat \<Rightarrow> ('h, 's) K"
    and gt :: "'h \<Rightarrow> (block, 's) K"
    and pt :: "'h \<Rightarrow> block \<Rightarrow> (unit, 's) K"
    and rl :: "'h \<Rightarrow> (unit, 's) K"
    and R :: "'s \<Rightarrow> (nat \<Rightarrow> block) \<Rightarrow> nat set \<Rightarrow> nat \<Rightarrow> bool"
    and hnd :: "'s \<Rightarrow> nat \<Rightarrow> 'h \<Rightarrow> bool"
    and fr :: "'s \<Rightarrow> 'f"
    and need :: "nat \<Rightarrow> nat \<Rightarrow> nat"
  assumes rd_law: "R s V Bz k \<Longrightarrow> n < FSSIZE \<Longrightarrow> n \<notin> Bz \<Longrightarrow> card Bz < k \<Longrightarrow>
      \<exists>h t. rd n s = Ok h t \<and> R t V (insert n Bz) k \<and> hnd t n h \<and>
        (\<forall>m g. m \<in> Bz \<longrightarrow> hnd s m g \<longrightarrow> hnd t m g) \<and> fr t = fr s"
    and gt_law: "R s V Bz k \<Longrightarrow> n \<in> Bz \<Longrightarrow> hnd s n h \<Longrightarrow> gt h s = Ok (V n) s"
    and pt_law: "R s V Bz (need n k) \<Longrightarrow> n \<in> Bz \<Longrightarrow> hnd s n h \<Longrightarrow>
      \<exists>t. pt h x s = Ok () t \<and> R t (V(n := x)) Bz k \<and> hnd t = hnd s \<and> fr t = fr s"
    and rl_law: "R s V Bz k \<Longrightarrow> n \<in> Bz \<Longrightarrow> hnd s n h \<Longrightarrow>
      \<exists>t. rl h s = Ok () t \<and> R t V (Bz - {n}) k \<and> hnd t = hnd s \<and> fr t = fr s"
begin

text \<open>Looking at a block: \<open>f\<close> says what comes of its content.\<close>

lemma look:
  assumes "R s V Bz k" and "n < FSSIZE" and "n \<notin> Bz" and "card Bz < k"
  shows "\<exists>t. kbind (rd n) (\<lambda>h. kbind (gt h) (\<lambda>x. kseq (rl h) (kret (f x)))) s = Ok (f (V n)) t \<and>
    R t V Bz k \<and> (\<forall>m g. m \<in> Bz \<longrightarrow> hnd s m g \<longrightarrow> hnd t m g) \<and> fr t = fr s"
proof -
  obtain h t where t: "rd n s = Ok h t" "R t V (insert n Bz) k" "hnd t n h"
    "\<forall>m g. m \<in> Bz \<longrightarrow> hnd s m g \<longrightarrow> hnd t m g" "fr t = fr s"
    using rd_law [OF assms] by blast
  have g: "gt h t = Ok (V n) t" by (rule gt_law [OF t(2) _ t(3)]) simp
  obtain v where "rl h t = Ok () v" "R v V (insert n Bz - {n}) k" "hnd v = hnd t" "fr v = fr t"
    using rl_law [OF t(2) _ t(3)] by auto
  moreover have "insert n Bz - {n} = Bz" using assms(3) by auto
  ultimately show ?thesis using t(1,4,5) g by (auto simp: kbind_def kseq_def)
qed

text \<open>Replacing the content of a block.\<close>

lemma change:
  assumes "R s V Bz (need n k)" and "n < FSSIZE" and "n \<notin> Bz" and "card Bz < need n k"
  shows "\<exists>t. kbind (rd n) (\<lambda>h. kbind (gt h) (\<lambda>x. kseq (pt h (f x)) (rl h))) s = Ok () t \<and>
    R t (V(n := f (V n))) Bz k \<and> (\<forall>m g. m \<in> Bz \<longrightarrow> hnd s m g \<longrightarrow> hnd t m g) \<and> fr t = fr s"
proof -
  obtain h t where t: "rd n s = Ok h t" "R t V (insert n Bz) (need n k)" "hnd t n h"
    "\<forall>m g. m \<in> Bz \<longrightarrow> hnd s m g \<longrightarrow> hnd t m g" "fr t = fr s"
    using rd_law [OF assms] by blast
  have g: "gt h t = Ok (V n) t" by (rule gt_law [OF t(2) _ t(3)]) simp
  obtain u where u: "pt h (f (V n)) t = Ok () u" "R u (V(n := f (V n))) (insert n Bz) k" "hnd u = hnd t" "fr u = fr t"
    using pt_law [OF t(2) _ t(3)] by blast
  obtain v where "rl h u = Ok () v" "R v (V(n := f (V n))) (insert n Bz - {n}) k" "hnd v = hnd u" "fr v = fr u"
    using rl_law [OF u(2), of n h] t(3) u(3) by auto
  moreover have "insert n Bz - {n} = Bz" using assms(3) by auto
  ultimately show ?thesis using t(1,4,5) g u by (auto simp: kbind_def kseq_def)
qed

end

section \<open>The log provides it\<close>

lemma log_write_TX:
  assumes tx: "BC d i s V D W (set (lh s)) Bz" and log: "distinct (lh s)" "1 \<le> outstanding s"
    "length (lh s) + Suc k \<le> LOGSIZE" "length (lh s) + Suc k < log_size s"
    and n: "n \<in> Bz" "slot d s n = Some b"
  shows "\<exists>t. log_write b s = Ok () t \<and> BC d i t V D W (set (lh t)) Bz \<and> set (lh t) = insert n (set (lh s)) \<and>
    distinct (lh t) \<and> outstanding t = outstanding s \<and> log_size t = log_size s \<and>
    length (lh t) \<le> Suc (length (lh s)) \<and> slot d t = slot d s \<and> trest t = trest s"
proof -
  have held: "held s = []" using tx by (simp add: BC_def io_ok_def)
  have "bc_ok d s" using tx by (simp add: BC_def)
  then have no: "b_blockno (bufs s ! b) = n" using n(2) by (simp add: slot_iff)
  let ?l = "if n \<in> set (lh s) then lh s else lh s @ [n]"
  let ?u = "upd_buf b (\<lambda>bp. bp\<lparr>b_dirty := True\<rparr>) s"
  have run: "log_write b s = Ok () (?u\<lparr>lh := ?l\<rparr>)"
    using held log by (simp add: log_write_apply Let_def no upd_buf_def)
  have bc: "BC d i ?u V D W (insert n (set (lh s))) Bz" "slot d ?u = slot d s" "rest ?u = rest s"
    using mark_dirty_BC [OF tx n(2,1)] by simp_all
  have "set ?l = insert n (set (lh s))" by auto
  moreover have "distinct ?l" "length ?l \<le> Suc (length (lh s))" using log(1) by simp_all
  moreover have "trest (?u\<lparr>lh := ?l\<rparr>) = trest s" using bc(3) by (simp add: trest_def rest_def)
  moreover have "outstanding ?u = outstanding s" "log_size ?u = log_size s" by (simp_all add: upd_buf_def)
  ultimately show ?thesis using run bc(1,2) by auto
qed

lemma TX_finite: "TX d i s V Bz k \<Longrightarrow> finite Bz"
  unfolding TX_def using BC_finite by blast

text \<open>The three routines with what they do to the list of logged blocks: only \<open>log_write\<close> adds to it.\<close>

lemma bread_TX:
  assumes tx: "TX d i s V Bz k" and n: "n < FSSIZE" "n \<notin> Bz" and c: "card Bz < k"
  shows "\<exists>h t. bread d n s = Ok h t \<and> TX d i t V (insert n Bz) k \<and> slot d t n = Some h \<and>
    (\<forall>m g. m \<in> Bz \<longrightarrow> slot d s m = Some g \<longrightarrow> slot d t m = Some g) \<and> trest t = trest s \<and> lh t = lh s"
proof -
  obtain D W where bc: "BC d i s V D W (set (lh s)) Bz" and cl: "\<forall>n \<in> Bz. n \<in> set (lh s) \<or> V n = D n"
    using tx by (auto simp: TX_def)
  have "card (set (lh s) \<union> Bz) < NBUF"
    using card_Un_le [of "set (lh s)" Bz] card_length [of "lh s"] tx c
    by (simp add: TX_def LOGSIZE_def NBUF_def)
  then obtain b t where t: "bread d n s = Ok b t" "BC d i t V D W (set (lh s)) (insert n Bz)" "slot d t n = Some b"
    "\<forall>m c. m \<in> Bz \<longrightarrow> slot d s m = Some c \<longrightarrow> slot d t m = Some c" "rest t = rest s"
    using bread_BC [OF bc n] by auto
  note lg = rest_log [OF t(5)]
  have "n \<in> set (lh s) \<or> V n = D n" using BC_clean [OF bc _ n(2)] by auto
  then have "TX d i t V (insert n Bz) k" using t(2) cl tx lg by (auto simp: TX_def)
  then show ?thesis using t trest_rest [OF t(5)] lg by blast
qed

lemma put_TX:
  assumes tx: "TX d i s V Bz (Suc k)" and n: "n \<in> Bz" "slot d s n = Some h"
  shows "\<exists>t. put_logged h x s = Ok () t \<and> TX d i t (V(n := x)) Bz (if n \<in> set (lh s) then Suc k else k) \<and>
    slot d t = slot d s \<and> trest t = trest s \<and> set (lh t) = insert n (set (lh s))"
proof -
  obtain D W where bc: "BC d i s V D W (set (lh s)) Bz" and cl: "\<forall>n \<in> Bz. n \<in> set (lh s) \<or> V n = D n"
    using tx by (auto simp: TX_def)
  obtain u where u: "set_data h x s = Ok () u" "BC d i u (V(n := x)) D W (set (lh s)) Bz" "slot d u = slot d s" "rest u = rest s"
    using set_data_BC [OF bc n(2,1)] by blast
  note lg = rest_log [OF u(4)]
  obtain t where t: "log_write h u = Ok () t" "BC d i t (V(n := x)) D W (set (lh t)) Bz"
    "set (lh t) = insert n (set (lh u))" "distinct (lh t)" "outstanding t = outstanding u" "log_size t = log_size u"
    "length (lh t) \<le> Suc (length (lh u))" "slot d t = slot d u" "trest t = trest u"
    using log_write_TX [of d i u "V(n := x)" D W Bz k n h] u tx n lg by (auto simp: TX_def)
  have "length (lh t) = length (lh s)" if "n \<in> set (lh s)"
    using distinct_card [OF t(4)] distinct_card [of "lh s"] t(3) tx that lg by (simp add: TX_def insert_absorb)
  then have "TX d i t (V(n := x)) Bz (if n \<in> set (lh s) then Suc k else k)"
    using t tx cl lg by (auto simp: TX_def)
  then show ?thesis using u t trest_rest [OF u(4)] lg by (auto simp: put_logged_def kseq_def kbind_def)
qed

lemma brelse_TX:
  assumes tx: "TX d i s V Bz k" and n: "n \<in> Bz" "slot d s n = Some h"
  shows "\<exists>t. brelse h s = Ok () t \<and> TX d i t V (Bz - {n}) k \<and> slot d t = slot d s \<and> trest t = trest s \<and> lh t = lh s"
proof -
  obtain D W where bc: "BC d i s V D W (set (lh s)) Bz" and cl: "\<forall>n \<in> Bz. n \<in> set (lh s) \<or> V n = D n"
    using tx by (auto simp: TX_def)
  obtain t where t: "brelse h s = Ok () t" "BC d i t V D W (set (lh s)) (Bz - {n})" "slot d t = slot d s" "rest t = rest s"
    using brelse_BC [OF bc n(2,1)] cl n(1) by blast
  have "TX d i t V (Bz - {n}) k" using t(2) cl tx rest_log [OF t(4)] by (auto simp: TX_def)
  then show ?thesis using t trest_rest [OF t(4)] rest_log [OF t(4)] by auto
qed

lemma data_TX: "TX d i s V Bz k \<Longrightarrow> slot d s n = Some h \<Longrightarrow> buf_data h s = Ok (V n) s"
  by (auto simp: TX_def BC_def view_def buf_data_def)

interpretation tx: txn_layer "bread d" buf_data put_logged brelse "TX d i"
  "\<lambda>s n b. slot d s n = Some b" "trest :: 'z log_scheme \<Rightarrow> _" "\<lambda>_. Suc"
proof
  fix s :: "'z log_scheme" and V :: "nat \<Rightarrow> block" and Bz k n h x
  assume "TX d i s V Bz (Suc k)" "n \<in> Bz" "slot d s n = Some h"
  from put_TX [OF this, of x] obtain t where t: "put_logged h x s = Ok () t"
    "TX d i t (V(n := x)) Bz (if n \<in> set (lh s) then Suc k else k)" "slot d t = slot d s" "trest t = trest s" by blast
  have "TX d i t (V(n := x)) Bz k" by (rule TX_less [OF t(2)]) simp
  with t(1,3,4) show "\<exists>t. put_logged h x s = Ok () t \<and> TX d i t (V(n := x)) Bz k \<and>
      (\<lambda>n b. slot d t n = Some b) = (\<lambda>n b. slot d s n = Some b) \<and> trest t = trest s" by auto
next
  fix s :: "'z log_scheme" and V :: "nat \<Rightarrow> block" and Bz k n h
  assume "TX d i s V Bz k" "n \<in> Bz" "slot d s n = Some h"
  from brelse_TX [OF this] show "\<exists>t. brelse h s = Ok () t \<and> TX d i t V (Bz - {n}) k \<and>
      (\<lambda>n b. slot d t n = Some b) = (\<lambda>n b. slot d s n = Some b) \<and> trest t = trest s" by auto
next
  fix s :: "'z log_scheme" and V :: "nat \<Rightarrow> block" and Bz k n
  assume "TX d i s V Bz k" "n < FSSIZE" "n \<notin> Bz" "card Bz < k"
  from bread_TX [OF this] show "\<exists>h t. bread d n s = Ok h t \<and> TX d i t V (insert n Bz) k \<and> slot d t n = Some h \<and>
      (\<forall>m g. m \<in> Bz \<longrightarrow> slot d s m = Some g \<longrightarrow> slot d t m = Some g) \<and> trest t = trest s" by auto
next
  fix s :: "'z log_scheme" and V :: "nat \<Rightarrow> block" and Bz k n h
  assume "TX d i s V Bz k" "slot d s n = Some h"
  then show "buf_data h s = Ok (V n) s" by (rule data_TX)
qed

text \<open>
  A transaction that writes some blocks again and again pays for each of them once. \<open>TXA\<close> has
  set the room for the blocks \<open>P\<close> aside, and a write of one of them leaves the rest as it was.
\<close>

definition TXA :: "nat \<Rightarrow> nat \<Rightarrow> nat set \<Rightarrow> 'z log_scheme \<Rightarrow> (nat \<Rightarrow> block) \<Rightarrow> nat set \<Rightarrow> nat \<Rightarrow> bool" where
  "TXA d i P s V Bz k \<longleftrightarrow> finite P \<and> TX d i s V Bz (Suc k + card (P - set (lh s)))"

lemma TXA_start: "TX d i s V Bz (Suc k + card P) \<Longrightarrow> finite P \<Longrightarrow> TXA d i P s V Bz k"
  using card_mono [of P "P - set (lh s)"] by (auto simp: TXA_def elim: TX_less)

lemma TXA_end: "TXA d i P s V Bz k \<Longrightarrow> TX d i s V Bz (Suc k)"
  unfolding TXA_def by (auto elim: TX_less)

interpretation paid: txn_layer "bread d" buf_data put_logged brelse "TXA d i P"
  "\<lambda>s n b. slot d s n = Some b" "trest :: 'z log_scheme \<Rightarrow> _" "\<lambda>n k. if n \<in> P then k else Suc k"
proof
  fix s :: "'z log_scheme" and V :: "nat \<Rightarrow> block" and Bz k n
  assume tx: "TXA d i P s V Bz k" and n: "n < FSSIZE" "n \<notin> Bz" and c: "card Bz < k"
  have "TX d i s V Bz (Suc k + card (P - set (lh s)))" "card Bz < Suc k + card (P - set (lh s))" using tx c by (simp_all add: TXA_def)
  from bread_TX [OF this(1) n this(2)] tx show "\<exists>h t. bread d n s = Ok h t \<and> TXA d i P t V (insert n Bz) k \<and> slot d t n = Some h \<and>
      (\<forall>m g. m \<in> Bz \<longrightarrow> slot d s m = Some g \<longrightarrow> slot d t m = Some g) \<and> trest t = trest s"
    by (auto simp: TXA_def)
next
  fix s :: "'z log_scheme" and V :: "nat \<Rightarrow> block" and Bz k n h
  assume "TXA d i P s V Bz k" "slot d s n = Some h"
  then show "buf_data h s = Ok (V n) s" using data_TX by (auto simp: TXA_def)
next
  fix s :: "'z log_scheme" and V :: "nat \<Rightarrow> block" and Bz k n h x
  assume tx: "TXA d i P s V Bz (if n \<in> P then k else Suc k)" and n: "n \<in> Bz" "slot d s n = Some h"
  let ?L = "set (lh s)" let ?k = "(if n \<in> P then k else Suc k) + card (P - ?L)"
  have "TX d i s V Bz (Suc ?k)" and P: "finite P" using tx by (simp_all add: TXA_def)
  from put_TX [OF this(1) n, of x] obtain t where t: "put_logged h x s = Ok () t"
    "TX d i t (V(n := x)) Bz (if n \<in> ?L then Suc ?k else ?k)" "slot d t = slot d s" "trest t = trest s"
    "set (lh t) = insert n ?L" by blast
  have "Suc k + card (P - insert n ?L) \<le> (if n \<in> ?L then Suc ?k else ?k)"
  proof (cases "n \<in> P - ?L")
    case True
    have "card (P - ?L) = Suc (card (P - ?L - {n}))" using card.remove [OF _ True] P by simp
    moreover have "P - ?L - {n} = P - insert n ?L" by blast
    ultimately show ?thesis using True by simp
  next
    case False
    then have "P - insert n ?L = P - ?L" by blast
    then show ?thesis using False by auto
  qed
  then have "TXA d i P t (V(n := x)) Bz k" using TX_less [OF t(2)] P t(5) by (simp add: TXA_def)
  then show "\<exists>t. put_logged h x s = Ok () t \<and> TXA d i P t (V(n := x)) Bz k \<and>
      (\<lambda>n b. slot d t n = Some b) = (\<lambda>n b. slot d s n = Some b) \<and> trest t = trest s"
    using t(1,3,4) by auto
next
  fix s :: "'z log_scheme" and V :: "nat \<Rightarrow> block" and Bz k n h
  assume tx: "TXA d i P s V Bz k" and n: "n \<in> Bz" "slot d s n = Some h"
  have "TX d i s V Bz (Suc k + card (P - set (lh s)))" using tx by (simp add: TXA_def)
  from brelse_TX [OF this n] tx show "\<exists>t. brelse h s = Ok () t \<and> TXA d i P t V (Bz - {n}) k \<and>
      (\<lambda>n b. slot d t n = Some b) = (\<lambda>n b. slot d s n = Some b) \<and> trest t = trest s"
    by (auto simp: TXA_def)
qed

end
