(* ===== verification/Inode.thy ===== *)
theory Inode
  imports Txn
begin

text \<open>
  kernel/fs.c, the lower half: the block allocator, the in-memory inodes and their life cycle, and the
  block map of a file. An inode is named by its index in \<open>icache.inode\<close>; a pointer that may be null is
  an option. The two bits of \<open>flags\<close> are two booleans, a \<open>short\<close> is an integer in two's complement.
\<close>

unbundle bit_operations_syntax

definition NINODE :: nat where "NINODE = 50"
definition NDIRECT :: nat where "NDIRECT = 12"
definition NINDIRECT :: nat where "NINDIRECT = BSIZE div 4"
definition MAXFILE :: nat where "MAXFILE = NDIRECT + NINDIRECT"
definition IPB :: nat where "IPB = BSIZE div 64"
definition BPB :: nat where "BPB = BSIZE * 8"

definition IBLOCK :: "nat \<Rightarrow> superblock \<Rightarrow> nat" where
  "IBLOCK i sb = u32n (i div IPB + sb_inodestart sb)"

definition BBLOCK :: "nat \<Rightarrow> superblock \<Rightarrow> nat" where
  "BBLOCK b sb = u32n (b div BPB + sb_bmapstart sb)"

record dinode =
  d_type :: int
  d_major :: int
  d_minor :: int
  d_nlink :: int
  d_size :: nat
  d_addrs :: "nat list"

record inode =
  i_dev :: nat
  i_inum :: nat
  i_ref :: int
  i_busy :: bool
  i_valid :: bool
  i_d :: dinode

record fs = log +
  fs_sb :: superblock
  inodes :: "inode list"

definition upd_inode :: "nat \<Rightarrow> (inode \<Rightarrow> inode) \<Rightarrow> 'z fs_scheme \<Rightarrow> 'z fs_scheme" where
  "upd_inode i f s = s\<lparr>inodes := (inodes s)[i := f (inodes s ! i)]\<rparr>"

definition upd_d :: "nat \<Rightarrow> (dinode \<Rightarrow> dinode) \<Rightarrow> 'z fs_scheme \<Rightarrow> 'z fs_scheme" where
  "upd_d i f = upd_inode i (\<lambda>ip. ip\<lparr>i_d := f (i_d ip)\<rparr>)"

section \<open>Inodes on the disk\<close>

text \<open>An inode on the disk is 64 bytes: four shorts, the size, thirteen block numbers.\<close>

definition short_at :: "block \<Rightarrow> nat \<Rightarrow> int" where
  "short_at x off = s16 (int (get_le 2 x off))"

definition get_dinode :: "block \<Rightarrow> nat \<Rightarrow> dinode" where
  "get_dinode x k = \<lparr>d_type = short_at x (64 * k), d_major = short_at x (64 * k + 2),
     d_minor = short_at x (64 * k + 4), d_nlink = short_at x (64 * k + 6),
     d_size = get_le 4 x (64 * k + 8),
     d_addrs = map (\<lambda>j. get_le 4 x (64 * k + 12 + 4 * j)) [0..<NDIRECT + 1]\<rparr>"

definition short_bytes :: "int \<Rightarrow> u8 list" where
  "short_bytes v = le_bytes 2 (nat (v mod 65536))"

definition dinode_bytes :: "dinode \<Rightarrow> u8 list" where
  "dinode_bytes d = short_bytes (d_type d) @ short_bytes (d_major d) @ short_bytes (d_minor d) @
     short_bytes (d_nlink d) @ le_bytes 4 (d_size d) @ concat (map (\<lambda>j. le_bytes 4 (d_addrs d ! j)) [0..<NDIRECT + 1])"

definition put_dinode :: "nat \<Rightarrow> dinode \<Rightarrow> block \<Rightarrow> block" where
  "put_dinode k d x = put_bytes (64 * k) (dinode_bytes d) x"

definition zero_dinode :: dinode where
  "zero_dinode = \<lparr>d_type = 0, d_major = 0, d_minor = 0, d_nlink = 0, d_size = 0,
     d_addrs = replicate (NDIRECT + 1) 0\<rparr>"

section \<open>Blocks\<close>

definition bzero :: "nat \<Rightarrow> nat \<Rightarrow> (unit, 'z log_scheme) K" where
  "bzero dev bno = kbind (bread dev bno) (\<lambda>bp. kblock
     [set_data bp (replicate BSIZE 0), log_write bp, brelse bp])"

definition bit_free :: "block \<Rightarrow> nat \<Rightarrow> bool" where
  "bit_free x bi \<longleftrightarrow> x ! (bi div 8) AND push_bit (bi mod 8) 1 = 0"

definition mark_used :: "nat \<Rightarrow> block \<Rightarrow> block" where
  "mark_used bi x = x[bi div 8 := x ! (bi div 8) OR push_bit (bi mod 8) 1]"

definition mark_free :: "nat \<Rightarrow> block \<Rightarrow> block" where
  "mark_free bi x = x[bi div 8 := x ! (bi div 8) AND NOT (push_bit (bi mod 8) 1)]"

text \<open>One bitmap block of \<open>balloc\<close>'s search, for the blocks from \<open>b\<close> on.\<close>

definition balloc_turn :: "nat \<Rightarrow> nat \<Rightarrow> (nat option, 'z fs_scheme) K" where
  "balloc_turn dev b = kbind (kget fs_sb) (\<lambda>sb. kbind (bread dev (BBLOCK b sb)) (\<lambda>bp.
     kbind (buf_data bp) (\<lambda>x.
     case find (bit_free x) [0..<min BPB (sb_size sb - b)] of
       Some bi \<Rightarrow> kseq (kblock
          [set_data bp (mark_used bi x), log_write bp, brelse bp, bzero dev (b + bi)])
          (kret (Some (b + bi)))
     | None \<Rightarrow> kseq (brelse bp) (kret None))))"

definition balloc :: "nat \<Rightarrow> (nat, 'z fs_scheme) K" where
  "balloc dev = kbind (kget (\<lambda>s. sb_size (fs_sb s))) (\<lambda>size.
     kbind (kfirst (map (\<lambda>k. k * BPB) [0..<(size + BPB - 1) div BPB]) (balloc_turn dev)) (\<lambda>r.
       case r of Some b \<Rightarrow> kret b | None \<Rightarrow> kpanic ''balloc: out of blocks''))"

definition bfree :: "nat \<Rightarrow> nat \<Rightarrow> (unit, 'z fs_scheme) K" where
  "bfree dev b = kbind (readsb dev) (\<lambda>sb. kseq (kmod (fs_sb_update (\<lambda>_. sb)))
     (kbind (bread dev (BBLOCK b sb)) (\<lambda>bp. kbind (buf_data bp) (\<lambda>x.
       let bi = b mod BPB in
       if bit_free x bi then kpanic ''freeing free block''
       else kblock [set_data bp (mark_free bi x), log_write bp, brelse bp]))))"

section \<open>In-memory inodes\<close>

definition iinit :: "nat \<Rightarrow> (unit, 'z fs_scheme) K" where
  "iinit dev = kbind (readsb dev) (\<lambda>sb. kseq (kmod (fs_sb_update (\<lambda>_. sb)))
     (cprintf (''sb: size %d nblocks %d ninodes %d nlog %d logstart %d inodestart %d bmap start %d\<newline>'')
       (map (\<lambda>f. AInt (s32 (int (f sb))))
         [sb_size, sb_nblocks, sb_ninodes, sb_nlog, sb_logstart, sb_inodestart, sb_bmapstart])))"

definition iget :: "nat \<Rightarrow> nat \<Rightarrow> (nat, 'z fs_scheme) K" where
  "iget dev inum = kseq (acq LIcache) (kbind (kget inodes) (\<lambda>l.
     case first_idx (\<lambda>ip. 0 < i_ref ip \<and> i_dev ip = dev \<and> i_inum ip = inum) l of
       Some i \<Rightarrow> kseq (kmod (upd_inode i (\<lambda>ip. ip\<lparr>i_ref := i_ref ip + 1\<rparr>)))
                  (kseq (rel LIcache) (kret i))
     | None \<Rightarrow>
       (case first_idx (\<lambda>ip. i_ref ip = 0) l of
          None \<Rightarrow> kpanic ''iget: no inodes''
        | Some i \<Rightarrow> kseq (kmod (upd_inode i (\<lambda>ip. ip\<lparr>i_dev := dev, i_inum := inum, i_ref := 1,
                      i_busy := False, i_valid := False\<rparr>)))
                     (kseq (rel LIcache) (kret i)))))"

definition idup :: "nat \<Rightarrow> (nat, 'z fs_scheme) K" where
  "idup i = kseq (acq LIcache) (kseq (kmod (upd_inode i (\<lambda>ip. ip\<lparr>i_ref := i_ref ip + 1\<rparr>)))
     (kseq (rel LIcache) (kret i)))"

definition ialloc_turn :: "nat \<Rightarrow> int \<Rightarrow> nat \<Rightarrow> (nat option, 'z fs_scheme) K" where
  "ialloc_turn dev type inum = kbind (kget fs_sb) (\<lambda>sb. kbind (bread dev (IBLOCK inum sb)) (\<lambda>bp.
     kbind (buf_data bp) (\<lambda>x.
     if d_type (get_dinode x (inum mod IPB)) = 0 then
       kseq (kblock [set_data bp (put_dinode (inum mod IPB) (zero_dinode\<lparr>d_type := type\<rparr>) x),
         log_write bp, brelse bp])
         (kbind (iget dev inum) (\<lambda>i. kret (Some i)))
     else kseq (brelse bp) (kret None))))"

definition ialloc :: "nat \<Rightarrow> int \<Rightarrow> (nat, 'z fs_scheme) K" where
  "ialloc dev type = kbind (kget (\<lambda>s. sb_ninodes (fs_sb s))) (\<lambda>n.
     kbind (kfirst [1..<n] (ialloc_turn dev type)) (\<lambda>r.
       case r of Some i \<Rightarrow> kret i | None \<Rightarrow> kpanic ''ialloc: no inodes''))"

definition iupdate :: "nat \<Rightarrow> (unit, 'z fs_scheme) K" where
  "iupdate i = kbind (kget (\<lambda>s. (fs_sb s, inodes s ! i))) (\<lambda>(sb, ip).
     kbind (bread (i_dev ip) (IBLOCK (i_inum ip) sb)) (\<lambda>bp. kbind (buf_data bp) (\<lambda>x. kblock
       [set_data bp (put_dinode (i_inum ip mod IPB) (i_d ip) x), log_write bp, brelse bp])))"

text \<open>A busy inode makes the caller sleep: \<open>Sleep\<close> is the outcome of the call then.\<close>

definition ilock :: "nat option \<Rightarrow> (unit, 'z fs_scheme) K" where
  "ilock p = kbind (kget inodes) (\<lambda>l. case p of
     None \<Rightarrow> kpanic ''ilock''
   | Some i \<Rightarrow> if i_ref (l ! i) < 1 then kpanic ''ilock''
     else kseq (acq LIcache) (if i_busy (l ! i) then ksleep (ChInode i) LIcache
       else kblock
        [kmod (upd_inode i (\<lambda>ip. ip\<lparr>i_busy := True\<rparr>)),
         rel LIcache,
         kwhen (\<not> i_valid (l ! i))
          (kbind (kget fs_sb) (\<lambda>sb. kbind (bread (i_dev (l ! i)) (IBLOCK (i_inum (l ! i)) sb)) (\<lambda>bp.
           kbind (buf_data bp) (\<lambda>x. let d = get_dinode x (i_inum (l ! i) mod IPB) in kblock
            [kmod (upd_d i (\<lambda>_. d)),
             brelse bp,
             kmod (upd_inode i (\<lambda>ip. ip\<lparr>i_valid := True\<rparr>)),
             if d_type d = 0 then kpanic ''ilock: no type'' else kret ()]))))]))"

definition iunlock :: "nat option \<Rightarrow> (unit, 'z fs_scheme) K" where
  "iunlock p = kbind (kget inodes) (\<lambda>l. case p of
     None \<Rightarrow> kpanic ''iunlock''
   | Some i \<Rightarrow> if \<not> i_busy (l ! i) \<or> i_ref (l ! i) < 1 then kpanic ''iunlock''
     else kblock
       [acq LIcache,
        kmod (upd_inode i (\<lambda>ip. ip\<lparr>i_busy := False\<rparr>)),
        wakeup (ChInode i),
        rel LIcache])"

section \<open>The content of an inode\<close>

definition bmap :: "nat \<Rightarrow> nat \<Rightarrow> (nat, 'z fs_scheme) K" where
  "bmap i bn = kbind (kget (\<lambda>s. inodes s ! i)) (\<lambda>ip.
     if bn < NDIRECT then
       let addr = d_addrs (i_d ip) ! bn in
       if addr = 0 then kbind (balloc (i_dev ip)) (\<lambda>addr.
         kseq (kmod (upd_d i (\<lambda>d. d\<lparr>d_addrs := (d_addrs d)[bn := addr]\<rparr>))) (kret addr))
       else kret addr
     else let bn = bn - NDIRECT in
     if bn < NINDIRECT then
       kbind (let addr = d_addrs (i_d ip) ! NDIRECT in
         if addr = 0 then kbind (balloc (i_dev ip)) (\<lambda>addr.
           kseq (kmod (upd_d i (\<lambda>d. d\<lparr>d_addrs := (d_addrs d)[NDIRECT := addr]\<rparr>))) (kret addr))
         else kret addr) (\<lambda>addr.
       kbind (bread (i_dev ip) addr) (\<lambda>bp. kbind (buf_data bp) (\<lambda>a.
       kbind (if word_at a bn = 0 then kbind (balloc (i_dev ip)) (\<lambda>addr.
           kseq (kseq (kmod (upd_buf bp (\<lambda>b. b\<lparr>b_data := put_word bn addr (b_data b)\<rparr>))) (log_write bp))
             (kret addr))
         else kret (word_at a bn)) (\<lambda>addr.
       kseq (brelse bp) (kret addr)))))
     else kpanic ''bmap: out of range'')"

definition itrunc :: "nat \<Rightarrow> (unit, 'z fs_scheme) K" where
  "itrunc i = kblock
     [kfor [0..<NDIRECT] (\<lambda>k. kbind (kget (\<lambda>s. inodes s ! i)) (\<lambda>ip.
        kwhen (d_addrs (i_d ip) ! k \<noteq> 0) (kseq (bfree (i_dev ip) (d_addrs (i_d ip) ! k))
          (kmod (upd_d i (\<lambda>d. d\<lparr>d_addrs := (d_addrs d)[k := 0]\<rparr>)))))),
      kbind (kget (\<lambda>s. inodes s ! i)) (\<lambda>ip. let ind = d_addrs (i_d ip) ! NDIRECT in
        kwhen (ind \<noteq> 0) (kbind (bread (i_dev ip) ind) (\<lambda>bp. kblock
          [kfor [0..<NINDIRECT] (\<lambda>j. kbind (buf_data bp) (\<lambda>a.
             kwhen (word_at a j \<noteq> 0) (bfree (i_dev ip) (word_at a j)))),
           brelse bp,
           bfree (i_dev ip) ind,
           kmod (upd_d i (\<lambda>d. d\<lparr>d_addrs := (d_addrs d)[NDIRECT := 0]\<rparr>))]))),
      kmod (upd_d i (\<lambda>d. d\<lparr>d_size := 0\<rparr>)),
      iupdate i]"

definition iput :: "nat \<Rightarrow> (unit, 'z fs_scheme) K" where
  "iput i = kseq (acq LIcache) (kbind (kget (\<lambda>s. inodes s ! i)) (\<lambda>ip. kblock
     [if i_ref ip = 1 \<and> i_valid ip \<and> d_nlink (i_d ip) = 0 then
        (if i_busy ip then kpanic ''iput busy''
         else kblock
          [kmod (upd_inode i (\<lambda>ip. ip\<lparr>i_busy := True\<rparr>)),
           rel LIcache,
           itrunc i,
           kmod (upd_d i (\<lambda>d. d\<lparr>d_type := 0\<rparr>)),
           iupdate i,
           acq LIcache,
           kmod (upd_inode i (\<lambda>ip. ip\<lparr>i_busy := False, i_valid := False\<rparr>)),
           wakeup (ChInode i)])
      else kret (),
      kmod (upd_inode i (\<lambda>ip. ip\<lparr>i_ref := i_ref ip - 1\<rparr>)),
      rel LIcache]))"

definition iunlockput :: "nat \<Rightarrow> (unit, 'z fs_scheme) K" where
  "iunlockput i = kseq (iunlock (Some i)) (iput i)"

record stat =
  st_type :: int
  st_dev :: nat
  st_ino :: nat
  st_nlink :: int
  st_size :: nat

definition stati :: "nat \<Rightarrow> (stat, 'z fs_scheme) K" where
  "stati i = kget (\<lambda>s. let ip = inodes s ! i in
     \<lparr>st_type = d_type (i_d ip), st_dev = i_dev ip, st_ino = i_inum ip,
      st_nlink = d_nlink (i_d ip), st_size = d_size (i_d ip)\<rparr>)"

section \<open>The inode blocks\<close>

definition short_ok :: "int \<Rightarrow> bool" where
  "short_ok v \<longleftrightarrow> - 32768 \<le> v \<and> v < 32768"

definition dinode_ok :: "dinode \<Rightarrow> bool" where
  "dinode_ok d \<longleftrightarrow> short_ok (d_type d) \<and> short_ok (d_major d) \<and> short_ok (d_minor d) \<and> short_ok (d_nlink d) \<and>
     d_size d < 4294967296 \<and> length (d_addrs d) = NDIRECT + 1 \<and> (\<forall>j < NDIRECT + 1. d_addrs d ! j < 4294967296)"

lemma get_le_sub: "j + w \<le> n \<Longrightarrow> get_le w (get_bytes off n x) j = get_le w x (off + j)"
  by (simp add: get_le_def get_bytes_def drop_take min_def add.commute)

lemma get_dinode_sub: "get_dinode x k = get_dinode (get_bytes (64 * k) 64 x) 0"
  by (simp add: get_dinode_def short_at_def get_le_sub NDIRECT_def add.assoc)

lemma short_bytes_length [simp]: "length (short_bytes v) = 2"
  by (simp add: short_bytes_def)

lemma short_bytes_val: "short_ok v \<Longrightarrow> s16 (int (le_val (short_bytes v))) = v"
proof -
  assume v: "short_ok v"
  have "nat (v mod 65536) < 256 ^ 2" by (simp add: nat_less_iff)
  then have "le_val (short_bytes v) = nat (v mod 65536)" by (simp only: short_bytes_def le_val_bytes)
  then show ?thesis
    using v by (simp add: s16_def short_ok_def mod_add_left_eq)
qed

lemma dinode_bytes_length [simp]: "length (dinode_bytes d) = 64"
  by (simp add: dinode_bytes_def NDIRECT_def upt_rec)

lemma dinode_bytes_get:
  assumes "dinode_ok d"
  shows "get_dinode (dinode_bytes d) 0 = d"
proof -
  have a: "le_val (le_bytes 4 (d_addrs d ! j)) = d_addrs d ! j" if "j < 13" for j
    using assms that by (intro le_val_bytes) (simp add: dinode_ok_def NDIRECT_def)
  have sz: "le_val (le_bytes 4 (d_size d)) = d_size d"
    using assms by (intro le_val_bytes) (simp add: dinode_ok_def)
  have "d_addrs (get_dinode (dinode_bytes d) 0) = map ((!) (d_addrs d)) [0..<13]"
    by (simp add: get_dinode_def dinode_bytes_def get_le_def NDIRECT_def upt_rec a)
  also have "\<dots> = d_addrs d"
    using map_nth [of "d_addrs d"] assms by (simp add: dinode_ok_def NDIRECT_def)
  finally have "d_addrs (get_dinode (dinode_bytes d) 0) = d_addrs d" .
  moreover have "d_type (get_dinode (dinode_bytes d) 0) = d_type d" "d_major (get_dinode (dinode_bytes d) 0) = d_major d"
    "d_minor (get_dinode (dinode_bytes d) 0) = d_minor d" "d_nlink (get_dinode (dinode_bytes d) 0) = d_nlink d"
    "d_size (get_dinode (dinode_bytes d) 0) = d_size d"
    using assms by (simp_all add: get_dinode_def short_at_def dinode_bytes_def get_le_def short_bytes_val dinode_ok_def sz)
  ultimately show ?thesis by simp
qed

interpretation dinodes: field_store get_dinode put_dinode dinode_ok 8 512
proof
  fix bs :: block and k j :: nat and v
  assume b: "length bs = 512" "k < 8"
  then show "length (put_dinode k v bs) = 512" by (simp add: put_dinode_def)
  have same: "get_bytes (64 * k) 64 (put_dinode k v bs) = dinode_bytes v"
    using get_put_bytes_same [of "64 * k" "dinode_bytes v" bs] b by (simp add: put_dinode_def)
  show "get_dinode (put_dinode k v bs) k = v" if "dinode_ok v"
    using dinode_bytes_get [OF that] same get_dinode_sub [of "put_dinode k v bs" k] by simp
  show "get_dinode (put_dinode k v bs) j = get_dinode bs j" if "j < 8" "j \<noteq> k"
  proof -
    have "64 * j + 64 \<le> 64 * k \<or> 64 * k + 64 \<le> 64 * j" using that(2) by linarith
    then have "get_bytes (64 * j) 64 (put_dinode k v bs) = get_bytes (64 * j) 64 bs"
      using get_put_bytes_other [of "64 * k" "dinode_bytes v" bs "64 * j" 64] b by (simp add: put_dinode_def)
    then show ?thesis using get_dinode_sub [of "put_dinode k v bs" j] get_dinode_sub [of bs j] by simp
  qed
qed

section \<open>The file system's part of the state\<close>

lemma trest_fs:
  assumes "trest t = trest s"
  shows "fs_sb t = fs_sb s" "inodes t = inodes s" "outstanding t = outstanding s" "held t = held s"
    "log_size t = log_size s" "curproc t = curproc s"
proof -
  have "fs_sb t = fs_sb (trest t)" "fs_sb s = fs_sb (trest s)" "inodes t = inodes (trest t)"
    "inodes s = inodes (trest s)" "outstanding t = outstanding (trest t)" "outstanding s = outstanding (trest s)"
    "held t = held (trest t)" "held s = held (trest s)" "log_size t = log_size (trest t)"
    "log_size s = log_size (trest s)" "curproc t = curproc (trest t)" "curproc s = curproc (trest s)"
    by (simp_all add: trest_def rest_def)
  with assms show "fs_sb t = fs_sb s" "inodes t = inodes s" "outstanding t = outstanding s" "held t = held s"
    "log_size t = log_size s" "curproc t = curproc s" by simp_all
qed

lemma TX_same:
  assumes "bufs t = bufs s" "lru t = lru s" "disk t = disk s" "dwrites t = dwrites s" "procs t = procs s"
    "curproc t = curproc s" "held t = held s" "ide_status t = ide_status s" "idequeue t = idequeue s"
    "havedisk1 t = havedisk1 s" "lh t = lh s" "outstanding t = outstanding s" "log_size t = log_size s"
  shows "TX d i t = TX d i s"
proof -
  have "BC d i t = BC d i s" by (rule BC_same) (use assms in simp_all)
  then show ?thesis by (intro ext) (simp add: TX_def assms)
qed

lemma TX_fs_upd [simp]:
  "TX d i (s\<lparr>inodes := x\<rparr>) = TX d i s" "TX d i (s\<lparr>fs_sb := sb\<rparr>) = TX d i s"
  "TX d i (upd_inode j f s) = TX d i s" "TX d i (upd_d j g s) = TX d i s"
  by (rule TX_same; simp add: upd_inode_def upd_d_def)+

lemma upd_inode_sel [simp]:
  "inodes (upd_inode j f s) = (inodes s)[j := f (inodes s ! j)]" "fs_sb (upd_inode j f s) = fs_sb s"
  "held (upd_inode j f s) = held s" "inodes (upd_d j g s) = (inodes s)[j := (inodes s ! j)\<lparr>i_d := g (i_d (inodes s ! j))\<rparr>]"
  "fs_sb (upd_d j g s) = fs_sb s" "held (upd_d j g s) = held s"
  "slot d (upd_inode j f s) = slot d s" "slot d (upd_d j g s) = slot d s"
  by (simp_all add: upd_inode_def upd_d_def slot_def fun_eq_iff)

lemma hnd_slot: "(\<lambda>n b. slot d t n = Some b) = (\<lambda>n b. slot d s n = Some b) \<Longrightarrow> slot d t = slot d s"
  by (rule ext) (metis not_Some_eq)

lemma put_logged_block: "kblock [set_data b x, log_write b, m] = kseq (put_logged b x) m"
  by (simp add: put_logged_def kseq_seq)

section \<open>The block allocator\<close>

lemma bit_free_bit: "bi div 8 < length x \<Longrightarrow> bit_free x bi \<longleftrightarrow> \<not> bit (x ! (bi div 8)) (bi mod 8)"
  by (simp add: bit_free_def and_exp_eq_0_iff_not_bit)

lemma mark_used_free:
  assumes "length x = 512" and "bi < 4096" and "bj < 4096"
  shows "bit_free (mark_used bi x) bj \<longleftrightarrow> bit_free x bj \<and> bj \<noteq> bi" and "length (mark_used bi x) = 512"
proof -
  show "length (mark_used bi x) = 512" using assms(1) by (simp add: mark_used_def)
  then have j: "bj div 8 < length (mark_used bi x)" "bj div 8 < length x" using assms by auto
  have "bj = bi \<longleftrightarrow> bj div 8 = bi div 8 \<and> bj mod 8 = bi mod 8" by (metis div_mult_mod_eq)
  then show "bit_free (mark_used bi x) bj \<longleftrightarrow> bit_free x bj \<and> bj \<noteq> bi"
    unfolding bit_free_bit [OF j(1)] bit_free_bit [OF j(2)] using assms
    by (cases "bj div 8 = bi div 8") (auto simp: mark_used_def bit_or_iff bit_exp_iff)
qed

lemma mark_free_free:
  assumes "length x = 512" and "bi < 4096" and "bj < 4096"
  shows "bit_free (mark_free bi x) bj \<longleftrightarrow> bit_free x bj \<or> bj = bi" and "length (mark_free bi x) = 512"
proof -
  show "length (mark_free bi x) = 512" using assms(1) by (simp add: mark_free_def)
  then have j: "bj div 8 < length (mark_free bi x)" "bj div 8 < length x" using assms by auto
  have "bj = bi \<longleftrightarrow> bj div 8 = bi div 8 \<and> bj mod 8 = bi mod 8" by (metis div_mult_mod_eq)
  moreover have "bj mod 8 < 8" by simp
  ultimately show "bit_free (mark_free bi x) bj \<longleftrightarrow> bit_free x bj \<or> bj = bi"
    unfolding bit_free_bit [OF j(1)] bit_free_bit [OF j(2)] using assms
    by (cases "bj div 8 = bi div 8") (auto simp: mark_free_def bit_and_iff bit_not_iff bit_exp_iff)
qed

text \<open>A super block of this kernel's size of disk: the bitmap is one block, and marked used.\<close>

definition sb_ok :: "superblock \<Rightarrow> bool" where
  "sb_ok sb \<longleftrightarrow> 0 < sb_size sb \<and> sb_size sb \<le> FSSIZE \<and> sb_bmapstart sb < FSSIZE \<and>
     sb_inodestart sb + sb_ninodes sb div IPB < FSSIZE"

lemma bzero_change: "bzero d n = kbind (bread d n) (\<lambda>h. kbind (buf_data h) (\<lambda>x.
    kseq (put_logged h (replicate BSIZE 0)) (brelse h)))"
  unfolding bzero_def put_logged_block buf_data_def by (rule ext) (simp add: kbind_def)

lemma bzero_TX:
  assumes "TX d i s V Bz (Suc k)" and "n < FSSIZE" and "n \<notin> Bz" and "card Bz \<le> k"
  shows "\<exists>t. bzero d n s = Ok () t \<and> TX d i t (V(n := replicate BSIZE 0)) Bz k \<and>
    (\<forall>m g. m \<in> Bz \<longrightarrow> slot d s m = Some g \<longrightarrow> slot d t m = Some g) \<and> trest t = trest s"
  unfolding bzero_change by (rule tx.change [OF assms(1-3)]) (simp add: assms(4) less_Suc_eq_le)

lemma balloc_TX:
  assumes tx: "TX d i s V Bz (Suc (Suc k))" and c: "card Bz \<le> k" and sb: "sb_ok (fs_sb s)"
    and bm: "sb_bmapstart (fs_sb s) = m" "m \<notin> Bz"
    and used: "\<And>b. b \<in> Bz \<Longrightarrow> b < sb_size (fs_sb s) \<Longrightarrow> \<not> bit_free (V m) b"
  shows "case find (bit_free (V m)) [0..<sb_size (fs_sb s)] of
      None \<Rightarrow> balloc d s = Panic ''balloc: out of blocks''
    | Some b \<Rightarrow> \<exists>t. balloc d s = Ok b t \<and> TX d i t (V(m := mark_used b (V m), b := replicate BSIZE 0)) Bz k \<and>
        (\<forall>m g. m \<in> Bz \<longrightarrow> slot d s m = Some g \<longrightarrow> slot d t m = Some g) \<and> trest t = trest s"
proof -
  let ?sb = "fs_sb s" and ?f = "find (bit_free (V m)) [0..<sb_size (fs_sb s)]"
  have sz: "0 < sb_size ?sb" "sb_size ?sb \<le> 1000" "m < FSSIZE" using sb bm by (simp_all add: sb_ok_def FSSIZE_def)
  have "(sb_size ?sb + BPB - 1) div BPB = 1" using sz by (simp add: BPB_def BSIZE_def div_nat_eqI)
  then have one: "map (\<lambda>k. k * BPB) [0..<(sb_size ?sb + BPB - 1) div BPB] = [0]" by simp
  have run: "balloc d s = kbind (kfirst [0] (balloc_turn d)) (\<lambda>r. case r of Some b \<Rightarrow> kret b
      | None \<Rightarrow> kpanic ''balloc: out of blocks'') s"
    unfolding balloc_def kbind_kget one ..
  have mn: "min BPB (sb_size ?sb) = sb_size ?sb" "BBLOCK 0 ?sb = m"
    using sz bm by (simp_all add: BPB_def BSIZE_def BBLOCK_def FSSIZE_def)
  obtain h t where t: "bread d m s = Ok h t" "TX d i t V (insert m Bz) (Suc (Suc k))" "slot d t m = Some h"
    "\<forall>m g. m \<in> Bz \<longrightarrow> slot d s m = Some g \<longrightarrow> slot d t m = Some g" "trest t = trest s"
    using tx.rd_law [OF tx sz(3) bm(2)] c by auto
  have g: "buf_data h t = Ok (V m) t" by (rule tx.gt_law [OF t(2) _ t(3)]) simp
  have ins: "insert m Bz - {m} = Bz" using bm(2) by auto
  show ?thesis
  proof (cases ?f)
    case None
    obtain v where "brelse h t = Ok () v" using tx.rl_law [OF t(2) _ t(3)] by auto
    then show ?thesis
      using t(1) g None unfolding run balloc_turn_def
      by (simp add: mn kbind_def kseq_def)
  next
    case (Some b)
    have b: "b < sb_size ?sb" "bit_free (V m) b" using Some by (auto simp: find_Some_iff)
    then have "b < FSSIZE" "b \<notin> Bz" using sz(2) used by (auto simp: FSSIZE_def)
    note b = b this
    obtain u where u: "put_logged h (mark_used b (V m)) t = Ok () u"
      "TX d i u (V(m := mark_used b (V m))) (insert m Bz) (Suc k)" "slot d u = slot d t" "trest u = trest t"
      using tx.pt_law [OF t(2) _ t(3), of "mark_used b (V m)"] by (auto dest: hnd_slot)
    obtain v where v: "brelse h u = Ok () v" "TX d i v (V(m := mark_used b (V m))) Bz (Suc k)" "slot d v = slot d u"
      "trest v = trest u"
      using tx.rl_law [OF u(2), of m h] t(3) u(3) unfolding ins by (auto dest: hnd_slot)
    obtain w where w: "bzero d b v = Ok () w" "TX d i w (V(m := mark_used b (V m), b := replicate BSIZE 0)) Bz k"
      "\<forall>m g. m \<in> Bz \<longrightarrow> slot d v m = Some g \<longrightarrow> slot d w m = Some g" "trest w = trest v"
      using bzero_TX [OF v(2) b(3,4) c] by blast
    have "kseq (put_logged h (mark_used b (V m))) (kseq (brelse h) (bzero d b)) t = Ok () w"
      using u(1) v(1) w(1) by (simp add: kseq_Ok)
    then have "kblock [set_data h (mark_used b (V m)), log_write h, brelse h, bzero d b] t = Ok () w"
      by (simp add: put_logged_def kseq_seq)
    then have "balloc d s = Ok b w"
      using t(1) g Some unfolding run balloc_turn_def
      by (simp add: mn kbind_def kseq_def)
    moreover have "\<forall>m g. m \<in> Bz \<longrightarrow> slot d s m = Some g \<longrightarrow> slot d w m = Some g"
      using t(4) u(3) v(3) w(3) by auto
    ultimately show ?thesis using Some w t(5) u(4) v(4) by auto
  qed
qed

section \<open>The inode cache as reference counts\<close>

definition inode_key :: "inode \<Rightarrow> nat \<times> nat" where
  "inode_key ip = (i_dev ip, i_inum ip)"

text \<open>The abstract cache: how many references there are to each inode of each device.\<close>

definition refs :: "'z fs_scheme \<Rightarrow> nat \<times> nat \<Rightarrow> int" where
  "refs s k = (\<Sum>ip \<leftarrow> inodes s. if inode_key ip = k then i_ref ip else 0)"

definition ic_ok :: "'z fs_scheme \<Rightarrow> bool" where
  "ic_ok s \<longleftrightarrow> length (inodes s) = NINODE \<and> (\<forall>ip \<in> set (inodes s). 0 \<le> i_ref ip) \<and>
     (\<forall>i < NINODE. \<forall>j < NINODE. 0 < i_ref (inodes s ! i) \<longrightarrow> 0 < i_ref (inodes s ! j) \<longrightarrow>
        inode_key (inodes s ! i) = inode_key (inodes s ! j) \<longrightarrow> i = j)"

lemma sum_upd:
  fixes g :: "'a \<Rightarrow> int"
  shows "i < length xs \<Longrightarrow> (\<Sum>x \<leftarrow> xs[i := y]. g x) = (\<Sum>x \<leftarrow> xs. g x) + g y - g (xs ! i)"
  by (induction xs arbitrary: i) (auto split: nat.split)

lemma refs_upd:
  "j < length (inodes s) \<Longrightarrow> inodes t = (inodes s)[j := ip] \<Longrightarrow>
     refs t k = refs s k + (if inode_key ip = k then i_ref ip else 0) -
       (if inode_key (inodes s ! j) = k then i_ref (inodes s ! j) else 0)"
  by (simp add: refs_def sum_upd)

lemma refs_zero:
  assumes "ic_ok s"
  shows "refs s k = 0 \<longleftrightarrow> (\<forall>ip \<in> set (inodes s). inode_key ip = k \<longrightarrow> i_ref ip = 0)" and "0 \<le> refs s k"
proof -
  have nn: "\<forall>ip \<in> set (inodes s). 0 \<le> i_ref ip" using assms by (simp add: ic_ok_def)
  have "0 \<le> (\<Sum>ip \<leftarrow> l. if inode_key ip = k then i_ref ip else 0) \<and>
      ((\<Sum>ip \<leftarrow> l. if inode_key ip = k then i_ref ip else 0) = 0 \<longleftrightarrow> (\<forall>ip \<in> set l. inode_key ip = k \<longrightarrow> i_ref ip = 0))"
    if "\<forall>ip \<in> set l. 0 \<le> i_ref ip" for l
    using that by (induction l) (auto simp: add_nonneg_eq_0_iff)
  from this [OF nn] show "refs s k = 0 \<longleftrightarrow> (\<forall>ip \<in> set (inodes s). inode_key ip = k \<longrightarrow> i_ref ip = 0)" "0 \<le> refs s k"
    by (simp_all add: refs_def)
qed

lemma ic_ok_upd:
  assumes ok: "ic_ok s" and j: "j < NINODE" and t: "inodes t = (inodes s)[j := ip]" "0 \<le> i_ref ip"
    and key: "0 < i_ref ip \<Longrightarrow> \<forall>i < NINODE. i \<noteq> j \<longrightarrow> 0 < i_ref (inodes s ! i) \<longrightarrow> inode_key (inodes s ! i) \<noteq> inode_key ip"
  shows "ic_ok t"
  unfolding ic_ok_def t(1)
proof (intro conjI allI impI)
  have len: "length (inodes s) = NINODE" using ok by (simp add: ic_ok_def)
  then show "length ((inodes s)[j := ip]) = NINODE" by simp
  show "\<forall>q \<in> set ((inodes s)[j := ip]). 0 \<le> i_ref q"
    using ok t(2) set_update_subset_insert [of "inodes s" j ip] by (auto simp: ic_ok_def)
  fix a b
  assume "a < NINODE" "b < NINODE" "0 < i_ref ((inodes s)[j := ip] ! a)" "0 < i_ref ((inodes s)[j := ip] ! b)"
    "inode_key ((inodes s)[j := ip] ! a) = inode_key ((inodes s)[j := ip] ! b)"
  then show "a = b"
    using ok key len by (cases "a = j"; cases "b = j") (auto simp: ic_ok_def nth_list_update)
qed

lemma same_key_upd:
  assumes ok: "ic_ok s" and j: "j < NINODE" "0 < i_ref (inodes s ! j)" and t: "inodes t = (inodes s)[j := ip]"
    and ip: "inode_key ip = inode_key (inodes s ! j)" "0 \<le> i_ref ip"
  shows "ic_ok t" "refs t = (refs s)(inode_key ip := refs s (inode_key ip) + i_ref ip - i_ref (inodes s ! j))"
proof -
  show "ic_ok t"
    by (rule ic_ok_upd [OF ok j(1) t ip(2)]) (use ok j ip in \<open>auto simp: ic_ok_def\<close>)
  have len: "j < length (inodes s)" using ok j by (simp add: ic_ok_def)
  show "refs t = (refs s)(inode_key ip := refs s (inode_key ip) + i_ref ip - i_ref (inodes s ! j))"
    by (rule ext) (use refs_upd [OF len t] ip in auto)
qed

text \<open>A file system state for examples: the disk of \<open>old_disk\<close>, no inode in use, one operation running.\<close>

definition free_inode :: inode where
  "free_inode = \<lparr>i_dev = 0, i_inum = 0, i_ref = 0, i_busy = False, i_valid = False, i_d = zero_dinode\<rparr>"

definition up_fs :: "buf \<Rightarrow> (nat \<Rightarrow> block) \<Rightarrow> inode list \<Rightarrow> fs" where
  "up_fs bp D l = log.extend (up_log bp D [])\<lparr>fs_sb = decode_sb (D 1), inodes = l\<rparr>"

lemma up_fs_sel [simp]:
  "inodes (up_fs bp D l) = l" "fs_sb (up_fs bp D l) = decode_sb (D 1)" "held (up_fs bp D l) = []"
  by (simp_all add: up_fs_def up_log_def log.defs kmem.defs)

section \<open>Freeing blocks and writing inodes\<close>

text \<open>The blocks an inode has, in the order in which \<open>itrunc\<close> frees them.\<close>

definition nz :: "nat list \<Rightarrow> nat list" where
  "nz l = filter (\<lambda>b. b \<noteq> 0) l"

definition inode_blocks :: "(nat \<Rightarrow> block) \<Rightarrow> dinode \<Rightarrow> nat list" where
  "inode_blocks V dn = nz (take NDIRECT (d_addrs dn)) @ (let ind = d_addrs dn ! NDIRECT in
     if ind = 0 then [] else nz (map (word_at (V ind)) [0..<NINDIRECT]) @ [ind])"

lemma nz_take_Suc: "q < length l \<Longrightarrow> nz (take (Suc q) l) = nz (take q l) @ (if l ! q = 0 then [] else [l ! q])"
  by (simp add: nz_def take_Suc_conv_app_nth)

lemma nz_prefix: "q < length l \<Longrightarrow> l ! q \<noteq> 0 \<Longrightarrow> distinct (nz l) \<Longrightarrow> l ! q \<in> set (nz l) \<and> l ! q \<notin> set (nz (take q l))"
proof -
  assume q: "q < length l" "l ! q \<noteq> 0" "distinct (nz l)"
  have "nz l = nz (take q l) @ nz (l ! q # drop (Suc q) l)"
    using id_take_nth_drop [OF q(1)] by (metis filter_append nz_def)
  then show ?thesis using q by (simp add: nz_def)
qed

lemma free_all_bits:
  assumes "length x = 512" and "\<forall>b \<in> set bs. b < 4096"
  shows "length (fold mark_free bs x) = 512 \<and>
    (\<forall>n < 4096. bit_free (fold mark_free bs x) n \<longleftrightarrow> bit_free x n \<or> n \<in> set bs)"
  using assms
proof (induction bs arbitrary: x)
  case (Cons b bs)
  have "length (mark_free b x) = 512" using mark_free_free(2) [OF Cons.prems(1), of b b] Cons.prems(2) by simp
  with Cons show ?case using mark_free_free(1) [OF Cons.prems(1)] by auto
qed simp

text \<open>
  What follows only uses the contract of the block layer, so that it holds both for a transaction
  that pays for every write and for one that has paid for some blocks in advance.
\<close>

locale fs_layer = txn_layer "bread d" buf_data put_logged brelse R "\<lambda>s n b. slot d s n = Some b" trest need
  for d :: nat and R :: "'z fs_scheme \<Rightarrow> (nat \<Rightarrow> block) \<Rightarrow> nat set \<Rightarrow> nat \<Rightarrow> bool" and need +
  assumes R_inodes: "R (s\<lparr>inodes := l\<rparr>) = R s"
begin

lemma R_upd [simp]: "R (upd_inode j f s) = R s" "R (upd_d j g s) = R s"
  by (simp_all add: upd_inode_def upd_d_def R_inodes)

lemma bfree_R:
  assumes tx: "R s V Bz (need m k)" and c: "card Bz < need m k" and sb: "sb_ok (fs_sb s)" "decode_sb (V 1) = fs_sb s"
    and bm: "sb_bmapstart (fs_sb s) = m" "m \<notin> Bz" "1 \<notin> Bz" and b: "b < sb_size (fs_sb s)"
  shows "if bit_free (V m) b then bfree d b s = Panic ''freeing free block''
    else \<exists>t. bfree d b s = Ok () t \<and> R t (V(m := mark_free b (V m))) Bz k \<and>
      (\<forall>m g. m \<in> Bz \<longrightarrow> slot d s m = Some g \<longrightarrow> slot d t m = Some g) \<and> trest t = trest s"
proof -
  have m: "m < FSSIZE" "BBLOCK b (fs_sb s) = m" "b mod BPB = b" "1 < FSSIZE"
    using sb(1) bm b by (simp_all add: sb_ok_def FSSIZE_def BBLOCK_def BPB_def BSIZE_def)
  obtain t where t: "readsb d s = Ok (fs_sb s) t" "R t V Bz (need m k)"
    "\<forall>m g. m \<in> Bz \<longrightarrow> slot d s m = Some g \<longrightarrow> slot d t m = Some g" "trest t = trest s"
    using look [OF tx m(4) bm(3) c, of decode_sb] sb(2) by (auto simp: readsb_def)
  have same: "t\<lparr>fs_sb := fs_sb s\<rparr> = t" using trest_fs(1) [OF t(4)] by simp
  obtain h u where u: "bread d m t = Ok h u" "R u V (insert m Bz) (need m k)" "slot d u m = Some h"
    using rd_law [OF t(2) m(1) bm(2) c] by blast
  have g: "buf_data h u = Ok (V m) u" by (rule gt_law [OF u(2) _ u(3)]) simp
  show ?thesis
  proof (cases "bit_free (V m) b")
    case True
    then show ?thesis
      using t(1) u(1) g m by (simp add: bfree_def kseq_def kbind_def same Let_def)
  next
    case False
    obtain v where v: "kbind (bread d m) (\<lambda>h. kbind (buf_data h) (\<lambda>x. kseq (put_logged h (mark_free b x)) (brelse h))) t = Ok () v"
      "R v (V(m := mark_free b (V m))) Bz k" "\<forall>m g. m \<in> Bz \<longrightarrow> slot d t m = Some g \<longrightarrow> slot d v m = Some g"
      "trest v = trest t"
      using change [OF t(2) m(1) bm(2) c, of "mark_free b"] by blast
    have "kseq (put_logged h (mark_free b (V m))) (brelse h) u = Ok () v"
      using v(1) u(1) g by (simp add: kbind_def)
    then have "kblock [set_data h (mark_free b (V m)), log_write h, brelse h] u = Ok () v"
      unfolding put_logged_block .
    then have "bfree d b s = Ok () v"
      using False t(1) m u(1) g unfolding bfree_def by (simp add: kseq_def kbind_def same Let_def)
    then show ?thesis using False v t(3,4) by auto
  qed
qed

lemma iupdate_R:
  assumes tx: "R s V Bz (need n k)" "card Bz < need n k" and dev: "i_dev (inodes s ! j) = d"
    and n: "IBLOCK (i_inum (inodes s ! j)) (fs_sb s) = n" "n < FSSIZE" "n \<notin> Bz"
  shows "\<exists>t. iupdate j s = Ok () t \<and>
    R t (V(n := put_dinode (i_inum (inodes s ! j) mod IPB) (i_d (inodes s ! j)) (V n))) Bz k \<and>
    (\<forall>m g. m \<in> Bz \<longrightarrow> slot d s m = Some g \<longrightarrow> slot d t m = Some g) \<and> trest t = trest s"
  unfolding iupdate_def kbind_kget prod.case put_logged_block dev n(1)
  by (rule change [OF tx(1) n(2,3) tx(2)])

lemma free_next:
  assumes tx: "R s (V(m := fold mark_free bs (V m))) Bz k" and c: "card Bz < k" "need m k = k"
    and sb: "sb_ok (fs_sb s)" "decode_sb (V 1) = fs_sb s"
    and bm: "sb_bmapstart (fs_sb s) = m" "m \<notin> Bz" "1 \<notin> Bz" "m \<noteq> 1" "length (V m) = 512"
    and b: "b < sb_size (fs_sb s)" "\<not> bit_free (V m) b" "b \<notin> set bs" and bs: "\<forall>b \<in> set bs. b < sb_size (fs_sb s)"
  shows "\<exists>t. bfree d b s = Ok () t \<and> R t (V(m := fold mark_free (bs @ [b]) (V m))) Bz k \<and>
    (\<forall>m g. m \<in> Bz \<longrightarrow> slot d s m = Some g \<longrightarrow> slot d t m = Some g) \<and> trest t = trest s"
proof -
  let ?V = "V(m := fold mark_free bs (V m))"
  have sz: "sb_size (fs_sb s) \<le> 1000" using sb(1) by (simp add: sb_ok_def FSSIZE_def)
  then have "\<forall>b \<in> set bs. b < 4096" "b < 4096" using bs b(1) by auto
  then have "\<not> bit_free (?V m) b" using free_all_bits [OF bm(5)] b(2,3) by simp
  moreover have "decode_sb (?V 1) = fs_sb s" using sb(2) bm(4) by simp
  ultimately show ?thesis
    using bfree_R [of s ?V Bz m k b] tx c sb(1) bm(1-3) b(1) by (auto split: if_splits)
qed

lemma direct_free:
  assumes tx: "R s V {} k" and c: "0 < k" "need m k = k"
    and sb: "sb_ok (fs_sb s)" "decode_sb (V 1) = fs_sb s"
    and bm: "sb_bmapstart (fs_sb s) = m" "m \<noteq> 1" "length (V m) = 512"
    and ip: "inodes s ! j = ip" "j < length (inodes s)" "i_dev ip = d" "NDIRECT < length (d_addrs (i_d ip))"
    and bs: "\<forall>b \<in> set (nz (take NDIRECT (d_addrs (i_d ip)))). b < sb_size (fs_sb s) \<and> \<not> bit_free (V m) b"
      "distinct (nz (take NDIRECT (d_addrs (i_d ip))))"
    and q: "q \<le> NDIRECT"
  shows "\<exists>t. kfor [0..<q] (\<lambda>k. kbind (kget (\<lambda>s. inodes s ! j)) (\<lambda>ip.
        kwhen (d_addrs (i_d ip) ! k \<noteq> 0) (kseq (bfree (i_dev ip) (d_addrs (i_d ip) ! k))
          (kmod (upd_d j (\<lambda>d. d\<lparr>d_addrs := (d_addrs d)[k := 0]\<rparr>)))))) s = Ok () t \<and>
    R t (V(m := fold mark_free (nz (take q (d_addrs (i_d ip)))) (V m))) {} k \<and> fs_sb t = fs_sb s \<and>
    inodes t = (inodes s)[j := ip\<lparr>i_d := (i_d ip)\<lparr>d_addrs := replicate q 0 @ drop q (d_addrs (i_d ip))\<rparr>\<rparr>]"
  using q
proof (induction q)
  case 0
  then show ?case using tx ip by (auto simp: nz_def)
next
  case (Suc q)
  let ?A = "d_addrs (i_d ip)" and ?B = "take NDIRECT (d_addrs (i_d ip))"
  let ?W = "V(m := fold mark_free (nz (take q ?A)) (V m))"
  let ?body = "\<lambda>k. kbind (kget (\<lambda>s. inodes s ! j)) (\<lambda>ip.
        kwhen (d_addrs (i_d ip) ! k \<noteq> 0) (kseq (bfree (i_dev ip) (d_addrs (i_d ip) ! k))
          (kmod (upd_d j (\<lambda>d. d\<lparr>d_addrs := (d_addrs d)[k := 0]\<rparr>)))))"
  have "q \<le> NDIRECT" using Suc.prems by simp
  from Suc.IH [OF this] obtain u where u: "kfor [0..<q] ?body s = Ok () u" "R u ?W {} k" "fs_sb u = fs_sb s"
    "inodes u = (inodes s)[j := ip\<lparr>i_d := (i_d ip)\<lparr>d_addrs := replicate q 0 @ drop q ?A\<rparr>\<rparr>]"
    by blast
  have q: "q < length ?A" "q < length ?B" "take q ?B = take q ?A" "?B ! q = ?A ! q" using Suc.prems ip(4) by auto
  have uj: "inodes u ! j = ip\<lparr>i_d := (i_d ip)\<lparr>d_addrs := replicate q 0 @ drop q ?A\<rparr>\<rparr>" "j < length (inodes u)"
    using u(4) ip(2) by simp_all
  have here: "(replicate q 0 @ drop q ?A) ! q = ?A ! q" using q(1) by (simp add: nth_append)
  have next0: "(replicate q 0 @ drop q ?A)[q := 0] = replicate (Suc q) 0 @ drop (Suc q) ?A"
    using q(1) by (simp add: list_update_append replicate_append_same [symmetric] Cons_nth_drop_Suc [symmetric] del: replicate_Suc)
      (simp add: replicate_append_same [symmetric])
  have run: "kfor [0..<Suc q] ?body s = ?body q u" using u(1) by (simp add: kfor_append kseq_Ok)
  show ?case
  proof (cases "?A ! q = 0")
    case True
    have "(replicate q 0 @ drop q ?A)[q := 0] = replicate q 0 @ drop q ?A" using here True by (metis list_update_id)
    then have "inodes u = (inodes s)[j := ip\<lparr>i_d := (i_d ip)\<lparr>d_addrs := replicate (Suc q) 0 @ drop (Suc q) ?A\<rparr>\<rparr>]"
      using u(4) next0 by simp
    moreover have "nz (take (Suc q) ?A) = nz (take q ?A)" using nz_take_Suc [OF q(1)] True by simp
    moreover have "?body q u = Ok () u" using uj here True by (simp del: append_assoc)
    ultimately show ?thesis unfolding run using u(2,3) by (intro exI [of _ u]) (simp only: simp_thms)
  next
    case False
    have b: "?A ! q \<in> set (nz ?B)" "?A ! q \<notin> set (nz (take q ?A))" using nz_prefix [OF q(2)] q(3,4) False bs(2) by simp_all
    have "set (nz (take q ?A)) \<subseteq> set (nz ?B)" using set_take_subset [of q ?B] q(3) by (auto simp: nz_def)
    then obtain v where v: "bfree d (?A ! q) u = Ok () v" "R v (V(m := fold mark_free (nz (take q ?A) @ [?A ! q]) (V m))) {} k"
      "trest v = trest u"
      using free_next [OF u(2) _ c(2), of "?A ! q"] sb bm bs(1) b c(1) u(3) by auto
    let ?w = "upd_d j (\<lambda>d. d\<lparr>d_addrs := (d_addrs d)[q := 0]\<rparr>) v"
    have "?body q u = Ok () ?w" using v(1) uj(1) ip(3) here False by (simp add: kseq_def kbind_def)
    moreover have "R ?w (V(m := fold mark_free (nz (take (Suc q) ?A)) (V m))) {} k"
      unfolding R_upd nz_take_Suc [OF q(1)] if_not_P [OF False] by (rule v(2))
    moreover have "inodes ?w = (inodes s)[j := ip\<lparr>i_d := (i_d ip)\<lparr>d_addrs := replicate (Suc q) 0 @ drop (Suc q) ?A\<rparr>\<rparr>]"
      using trest_fs(2) [OF v(3)] u(4) ip(2) next0 by simp
    moreover have "fs_sb ?w = fs_sb s" using trest_fs(1) [OF v(3)] u(3) by simp
    ultimately show ?thesis unfolding run by (intro exI [of _ ?w]) (simp only: simp_thms)
  qed
qed

lemma indirect_free:
  assumes tx: "R s (V(m := fold mark_free cs (V m))) {n} k" and c: "1 < k" "need m k = k"
    and sb: "sb_ok (fs_sb s)" "decode_sb (V 1) = fs_sb s"
    and bm: "sb_bmapstart (fs_sb s) = m" "m \<noteq> 1" "length (V m) = 512" "n \<noteq> m" "n \<noteq> 1" "slot d s n = Some h"
    and ws: "ws = map (word_at (V n)) [0..<NINDIRECT]"
    and bs: "\<forall>b \<in> set cs \<union> set (nz ws). b < sb_size (fs_sb s)" "\<forall>b \<in> set (nz ws). \<not> bit_free (V m) b" "distinct (cs @ nz ws)"
    and q: "q \<le> NINDIRECT"
  shows "\<exists>t. kfor [0..<q] (\<lambda>j. kbind (buf_data h) (\<lambda>a. kwhen (word_at a j \<noteq> 0) (bfree d (word_at a j)))) s = Ok () t \<and>
    R t (V(m := fold mark_free (cs @ nz (take q ws)) (V m))) {n} k \<and> slot d t n = Some h \<and> trest t = trest s"
  using q
proof (induction q)
  case 0
  have "cs @ nz (take 0 ws) = cs" by (simp add: nz_def)
  then show ?case using tx bm(6) by (intro exI [of _ s]) (simp only: upt_0 kfor.simps simp_thms)
next
  case (Suc q)
  let ?body = "\<lambda>j. kbind (buf_data h) (\<lambda>a. kwhen (word_at a j \<noteq> 0) (bfree d (word_at a j)))"
  let ?W = "V(m := fold mark_free (cs @ nz (take q ws)) (V m))"
  have "q \<le> NINDIRECT" using Suc.prems by simp
  from Suc.IH [OF this] obtain u where u: "kfor [0..<q] ?body s = Ok () u" "R u ?W {n} k"
    "slot d u n = Some h" "trest u = trest s" by blast
  have g: "buf_data h u = Ok (?W n) u" by (rule gt_law [OF u(2) _ u(3)]) simp
  then have g: "buf_data h u = Ok (V n) u" using bm(4) by simp
  have q: "q < length ws" "ws ! q = word_at (V n) q" using Suc.prems ws by simp_all
  have run: "kfor [0..<Suc q] ?body s = ?body q u" using u(1) by (simp add: kfor_append kseq_Ok)
  have sbu: "fs_sb u = fs_sb s" by (rule trest_fs(1) [OF u(4)])
  show ?case
  proof (cases "ws ! q = 0")
    case True
    then have "?body q u = Ok () u" using g q(2) by (simp add: kbind_def)
    moreover have "nz (take (Suc q) ws) = nz (take q ws)" using nz_take_Suc [OF q(1)] True by simp
    ultimately show ?thesis unfolding run using u(2-4) by (intro exI [of _ u]) (simp only: simp_thms)
  next
    case False
    have b: "ws ! q \<in> set (nz ws)" "ws ! q \<notin> set (nz (take q ws))" using nz_prefix [OF q(1) False] bs(3) by simp_all
    have "set (nz (take q ws)) \<subseteq> set (nz ws)" using set_take_subset [of q ws] by (auto simp: nz_def)
    moreover have "ws ! q \<notin> set cs" using bs(3) b(1) by auto
    ultimately have "\<exists>t. bfree d (ws ! q) u = Ok () t \<and>
      R t (V(m := fold mark_free ((cs @ nz (take q ws)) @ [ws ! q]) (V m))) {n} k \<and>
      (\<forall>m g. m \<in> {n} \<longrightarrow> slot d u m = Some g \<longrightarrow> slot d t m = Some g) \<and> trest t = trest u"
      by (intro free_next [OF u(2) _ c(2)]) (use sb bm bs b c(1) sbu in auto)
    then obtain v where v: "bfree d (ws ! q) u = Ok () v"
      "R v (V(m := fold mark_free ((cs @ nz (take q ws)) @ [ws ! q]) (V m))) {n} k"
      "\<forall>m g. m \<in> {n} \<longrightarrow> slot d u m = Some g \<longrightarrow> slot d v m = Some g" "trest v = trest u" by blast
    have "?body q u = Ok () v" using v(1) g q(2) False by (simp add: kbind_def)
    moreover have "R v (V(m := fold mark_free (cs @ nz (take (Suc q) ws)) (V m))) {n} k"
      unfolding nz_take_Suc [OF q(1)] if_not_P [OF False] append_assoc [symmetric] by (rule v(2))
    moreover have "slot d v n = Some h" "trest v = trest s" using v(3,4) u(3,4) by simp_all
    ultimately show ?thesis unfolding run by (intro exI [of _ v]) (simp only: simp_thms)
  qed
qed

text \<open>
  \<open>itrunc\<close> within a transaction that has paid for the bitmap and the inode's block: every block of
  the inode is freed, and the inode on the disk has size 0 and no addresses.
\<close>

lemma itrunc_R:
  assumes tx: "R s V {} k" and c: "1 < k" "\<And>n. n \<in> {m, nb} \<Longrightarrow> need n k = k"
    and sb: "sb_ok (fs_sb s)" "decode_sb (V 1) = fs_sb s"
    and bm: "sb_bmapstart (fs_sb s) = m" "m \<noteq> 1" "length (V m) = 512"
    and ip: "inodes s ! j = ip" "j < length (inodes s)" "i_dev ip = d" "length (d_addrs (i_d ip)) = NDIRECT + 1"
    and nb: "IBLOCK (i_inum ip) (fs_sb s) = nb" "nb < FSSIZE" "nb \<noteq> m"
    and ind: "d_addrs (i_d ip) ! NDIRECT \<notin> {m, 1}"
    and bs: "\<forall>b \<in> set (inode_blocks V (i_d ip)). b < sb_size (fs_sb s) \<and> \<not> bit_free (V m) b"
      "distinct (inode_blocks V (i_d ip))"
  shows "\<exists>t. let dn = (i_d ip)\<lparr>d_addrs := replicate (NDIRECT + 1) 0, d_size := 0\<rparr> in itrunc j s = Ok () t \<and>
    R t (V(m := fold mark_free (inode_blocks V (i_d ip)) (V m), nb := put_dinode (i_inum ip mod IPB) dn (V nb))) {} k \<and>
    fs_sb t = fs_sb s \<and> inodes t = (inodes s)[j := ip\<lparr>i_d := dn\<rparr>]"
proof -
  let ?A = "d_addrs (i_d ip)" let ?n = "?A ! NDIRECT" let ?cs = "nz (take NDIRECT ?A)"
  let ?ws = "map (word_at (V ?n)) [0..<NINDIRECT]" and ?all = "inode_blocks V (i_d ip)"
  let ?dn = "(i_d ip)\<lparr>d_addrs := replicate (NDIRECT + 1) 0, d_size := 0\<rparr>"
  have need: "need m k = k" "need nb k = k" using c(2) by simp_all
  have sub: "set ?cs \<subseteq> set ?all" "distinct ?cs" using bs(2) by (auto simp: inode_blocks_def)
  obtain u where u: "kfor [0..<NDIRECT] (\<lambda>k. kbind (kget (\<lambda>s. inodes s ! j)) (\<lambda>ip.
        kwhen (d_addrs (i_d ip) ! k \<noteq> 0) (kseq (bfree (i_dev ip) (d_addrs (i_d ip) ! k))
          (kmod (upd_d j (\<lambda>d. d\<lparr>d_addrs := (d_addrs d)[k := 0]\<rparr>)))))) s = Ok () u"
    "R u (V(m := fold mark_free ?cs (V m))) {} k" "fs_sb u = fs_sb s"
    "inodes u = (inodes s)[j := ip\<lparr>i_d := (i_d ip)\<lparr>d_addrs := replicate NDIRECT 0 @ drop NDIRECT ?A\<rparr>\<rparr>]"
    using direct_free [OF tx _ need(1) sb bm ip(1-3) _ _ sub(2) order_refl] c(1) ip(4) bs(1) sub(1) by auto
  have last1: "drop NDIRECT ?A = [?n]" using ip(4) by (simp add: Cons_nth_drop_Suc [symmetric])
  have uj: "inodes u ! j = ip\<lparr>i_d := (i_d ip)\<lparr>d_addrs := replicate NDIRECT 0 @ [?n]\<rparr>\<rparr>" "j < length (inodes u)"
    using u(4) ip(2) last1 by simp_all
  have at12: "(replicate NDIRECT 0 @ [?n]) ! NDIRECT = ?n" "(replicate NDIRECT 0 @ [?n])[NDIRECT := 0] = replicate (NDIRECT + 1) 0"
    by (simp_all add: nth_append list_update_append replicate_append_same)
  define mid :: "(unit, 'z fs_scheme) K" where "mid = kbind (kget (\<lambda>s. inodes s ! j)) (\<lambda>ip. let ind = d_addrs (i_d ip) ! NDIRECT in
        kwhen (ind \<noteq> 0) (kbind (bread (i_dev ip) ind) (\<lambda>bp. kblock
          [kfor [0..<NINDIRECT] (\<lambda>j. kbind (buf_data bp) (\<lambda>a.
             kwhen (word_at a j \<noteq> 0) (bfree (i_dev ip) (word_at a j)))),
           brelse bp,
           bfree (i_dev ip) ind,
           kmod (upd_d j (\<lambda>d. d\<lparr>d_addrs := (d_addrs d)[NDIRECT := 0]\<rparr>))])))"
  have "\<exists>v. mid u = Ok () v \<and> R v (V(m := fold mark_free ?all (V m))) {} k \<and> fs_sb v = fs_sb s \<and>
    inodes v = (inodes s)[j := ip\<lparr>i_d := (i_d ip)\<lparr>d_addrs := replicate (NDIRECT + 1) 0\<rparr>\<rparr>]"
  proof (cases "?n = 0")
    case True
    have "inode_blocks V (i_d ip) = ?cs" using True by (simp add: inode_blocks_def)
    moreover have "mid u = Ok () u" using True uj(1) at12(1) by (simp add: mid_def)
    moreover have "replicate NDIRECT 0 @ [?n] = replicate (NDIRECT + 1) 0" using True by (simp add: replicate_append_same)
    ultimately show ?thesis using u(2-4) last1 by (intro exI [of _ u]) (simp only: simp_thms)
  next
    case False
    have all: "?all = (?cs @ nz ?ws) @ [?n]" using False by (simp add: inode_blocks_def Let_def)
    have nsz: "?n < sb_size (fs_sb s)" "\<not> bit_free (V m) ?n" using bs(1) by (simp_all add: all)
    then have "?n < FSSIZE" using sb(1) by (simp add: sb_ok_def)
    from rd_law [OF u(2) this, of] obtain h w where w: "bread d ?n u = Ok h w"
      "R w (V(m := fold mark_free ?cs (V m))) {?n} k" "slot d w ?n = Some h" "trest w = trest u" using c(1) by auto
    have sbw: "fs_sb w = fs_sb s" "inodes w = inodes u" using trest_fs(1,2) [OF w(4)] u(3) by simp_all
    obtain x where x: "kfor [0..<NINDIRECT] (\<lambda>j. kbind (buf_data h) (\<lambda>a. kwhen (word_at a j \<noteq> 0) (bfree d (word_at a j)))) w = Ok () x"
      "R x (V(m := fold mark_free (?cs @ nz (take NINDIRECT ?ws)) (V m))) {?n} k" "slot d x ?n = Some h" "trest x = trest w"
      using indirect_free [OF w(2) c(1) need(1) _ _ _ bm(2,3) _ _ w(3) refl _ _ _ order_refl] sbw sb bm ind bs
      unfolding all by auto
    have tk: "take NINDIRECT ?ws = ?ws" by simp
    obtain y where y: "brelse h x = Ok () y" "R y (V(m := fold mark_free (?cs @ nz ?ws) (V m))) {} k" "trest y = trest x"
      using rl_law [OF x(2) _ x(3)] unfolding tk by auto
    have sby: "fs_sb y = fs_sb s" "inodes y = inodes u"
      using trest_fs(1,2) [OF y(3)] trest_fs(1,2) [OF x(4)] sbw by simp_all
    have "\<exists>t. bfree d ?n y = Ok () t \<and> R t (V(m := fold mark_free ((?cs @ nz ?ws) @ [?n]) (V m))) {} k \<and>
      (\<forall>m g. m \<in> {} \<longrightarrow> slot d y m = Some g \<longrightarrow> slot d t m = Some g) \<and> trest t = trest y"
      by (rule free_next [OF y(2) _ need(1)]) (use sby(1) sb bm nsz bs c(1) all in auto)
    then obtain z where z: "bfree d ?n y = Ok () z" "R z (V(m := fold mark_free ((?cs @ nz ?ws) @ [?n]) (V m))) {} k"
      "trest z = trest y" by blast
    let ?z = "upd_d j (\<lambda>d. d\<lparr>d_addrs := (d_addrs d)[NDIRECT := 0]\<rparr>) z"
    define loop :: "nat \<Rightarrow> (unit, 'z fs_scheme) K" where
      "loop h = kfor [0..<NINDIRECT] (\<lambda>j. kbind (buf_data h) (\<lambda>a. kwhen (word_at a j \<noteq> 0) (bfree d (word_at a j))))" for h
    let ?rest = "\<lambda>h. kblock [loop h, brelse h, bfree d ?n, kmod (upd_d j (\<lambda>d. d\<lparr>d_addrs := (d_addrs d)[NDIRECT := 0]\<rparr>))]"
    have "mid u = kbind (bread d ?n) ?rest u"
      unfolding mid_def loop_def kbind_kget uj(1) by (simp add: Let_def ip(3) at12(1) False)
    also have "\<dots> = ?rest h w" using w(1) by (simp add: kbind_def)
    also have "\<dots> = Ok () ?z" using x(1) [folded loop_def] y(1) z(1) by (simp add: kseq_Ok)
    finally have "mid u = Ok () ?z" .
    moreover have "R ?z (V(m := fold mark_free ?all (V m))) {} k" unfolding R_upd all by (rule z(2))
    moreover have "fs_sb ?z = fs_sb s" "inodes ?z = (inodes s)[j := ip\<lparr>i_d := (i_d ip)\<lparr>d_addrs := replicate (NDIRECT + 1) 0\<rparr>\<rparr>]"
      using trest_fs(1,2) [OF z(3)] sby uj u(4) last1 at12(2) ip(2) by simp_all
    ultimately show ?thesis by (intro exI [of _ ?z]) (simp only: simp_thms)
  qed
  then obtain v where v: "mid u = Ok () v" "R v (V(m := fold mark_free ?all (V m))) {} k" "fs_sb v = fs_sb s"
    "inodes v = (inodes s)[j := ip\<lparr>i_d := (i_d ip)\<lparr>d_addrs := replicate (NDIRECT + 1) 0\<rparr>\<rparr>]" by blast
  let ?v = "upd_d j (\<lambda>d. d\<lparr>d_size := 0\<rparr>) v"
  have vj: "inodes ?v = (inodes s)[j := ip\<lparr>i_d := ?dn\<rparr>]" "inodes ?v ! j = ip\<lparr>i_d := ?dn\<rparr>" using v(4) ip(2) by simp_all
  have Rv: "R ?v (V(m := fold mark_free ?all (V m))) {} (need nb k)" using v(2) need(2) by simp
  obtain t where t: "iupdate j ?v = Ok () t"
    "R t (V(m := fold mark_free ?all (V m), nb := put_dinode (i_inum ip mod IPB) ?dn (V nb))) {} k" "trest t = trest ?v"
    using iupdate_R [OF Rv, of j] vj(2) ip(3) nb v(3) c(1) need(2) by auto
  have "itrunc j s = Ok () t" using u(1) v(1) t(1) unfolding itrunc_def mid_def by (simp add: kseq_def kbind_def)
  then show ?thesis using t(2) trest_fs(1,2) [OF t(3)] v(3) vj(1) by (intro exI [of _ t]) (simp add: Let_def)
qed

end

interpretation txfs: fs_layer d "TX d i :: 'z fs_scheme \<Rightarrow> _" "\<lambda>_. Suc"
  by unfold_locales simp

lemma TXA_inodes: "TXA d i P (s\<lparr>inodes := l\<rparr>) = TXA d i P s"
  by (intro ext) (simp add: TXA_def)

interpretation paidfs: fs_layer d "TXA d i P :: 'z fs_scheme \<Rightarrow> _" "\<lambda>n k. if n \<in> P then k else Suc k"
  by unfold_locales (rule TXA_inodes)

text \<open>
  C17. Inside a transaction \<open>balloc\<close> takes the lowest free block, marks it used, zeroes it, changes no
  other block, and panics when the bitmap is full; \<open>bfree\<close> clears exactly the bit of its block, and
  panics if it was clear.
\<close>

lemma balloc_bfree:
  assumes tx: "TX d i s V {} (Suc (Suc k))" and sb: "sb_ok (fs_sb s)" "decode_sb (V 1) = fs_sb s"
    and bm: "sb_bmapstart (fs_sb s) = m" "\<not> bit_free (V m) m" "length (V m) = 512"
  shows "(case find (bit_free (V m)) [0..<sb_size (fs_sb s)] of
      None \<Rightarrow> balloc d s = Panic ''balloc: out of blocks''
    | Some b \<Rightarrow> \<exists>t V'. balloc d s = Ok b t \<and> TX d i t V' {} k \<and> V' b = replicate BSIZE 0 \<and>
        (\<forall>n < 4096. bit_free (V' m) n \<longleftrightarrow> bit_free (V m) n \<and> n \<noteq> b) \<and> (\<forall>n. n = b \<or> n = m \<or> V' n = V n)) \<and>
    (\<forall>b. b < sb_size (fs_sb s) \<longrightarrow> (if bit_free (V m) b then bfree d b s = Panic ''freeing free block''
      else \<exists>t V'. bfree d b s = Ok () t \<and> TX d i t V' {} (Suc k) \<and>
        (\<forall>n < 4096. bit_free (V' m) n \<longleftrightarrow> bit_free (V m) n \<or> n = b) \<and> (\<forall>n. n = m \<or> V' n = V n)))"
proof (intro conjI allI impI)
  let ?f = "find (bit_free (V m)) [0..<sb_size (fs_sb s)]"
  have sz: "sb_size (fs_sb s) \<le> 1000" using sb(1) by (simp add: sb_ok_def FSSIZE_def)
  show "case ?f of None \<Rightarrow> balloc d s = Panic ''balloc: out of blocks''
    | Some b \<Rightarrow> \<exists>t V'. balloc d s = Ok b t \<and> TX d i t V' {} k \<and> V' b = replicate BSIZE 0 \<and>
        (\<forall>n < 4096. bit_free (V' m) n \<longleftrightarrow> bit_free (V m) n \<and> n \<noteq> b) \<and> (\<forall>n. n = b \<or> n = m \<or> V' n = V n)"
  proof (cases ?f)
    case None
    then show ?thesis using balloc_TX [OF tx _ sb(1) bm(1)] by simp
  next
    case (Some b)
    then have b: "b < 4096" "b \<noteq> m" using sz bm(2) by (auto simp: find_Some_iff)
    let ?V = "V(m := mark_used b (V m), b := replicate BSIZE 0)"
    obtain t where "balloc d s = Ok b t" "TX d i t ?V {} k" using balloc_TX [OF tx _ sb(1) bm(1)] Some by auto
    moreover have "\<forall>n < 4096. bit_free (?V m) n \<longleftrightarrow> bit_free (V m) n \<and> n \<noteq> b"
      using b mark_used_free [OF bm(3) b(1)] by simp
    moreover have "\<forall>n. n = b \<or> n = m \<or> ?V n = V n" "?V b = replicate BSIZE 0" by simp_all
    ultimately show ?thesis unfolding Some option.case by blast
  qed
  fix b assume b: "b < sb_size (fs_sb s)"
  have b4: "b < 4096" using b sz by simp
  show "if bit_free (V m) b then bfree d b s = Panic ''freeing free block''
      else \<exists>t V'. bfree d b s = Ok () t \<and> TX d i t V' {} (Suc k) \<and>
        (\<forall>n < 4096. bit_free (V' m) n \<longleftrightarrow> bit_free (V m) n \<or> n = b) \<and> (\<forall>n. n = m \<or> V' n = V n)"
    using txfs.bfree_R [OF tx _ sb bm(1) _ _ b] mark_free_free [OF bm(3) b4]
    by (auto intro!: exI [of _ "V(m := mark_free b (V m))"] split: if_splits)
qed

text \<open>A running operation on a small file system whose first 128 blocks are in use.\<close>

definition small_disk :: "nat \<Rightarrow> block" where
  "small_disk = old_disk(60 := replicate 16 255 @ replicate 496 0)"

definition tx_fs :: "(nat \<Rightarrow> block) \<Rightarrow> inode list \<Rightarrow> fs" where
  "tx_fs D l = (up_fs fresh_buf D l)\<lparr>outstanding := 1\<rparr>"

lemma tx_fs_sel [simp]:
  "inodes (tx_fs D l) = l" "fs_sb (tx_fs D l) = decode_sb (D 1)" "held (tx_fs D l) = []"
  by (simp_all add: tx_fs_def)

lemma tx_fs_TX: "TX 1 0 (tx_fs D l) D {} 20"
proof -
  have fresh: "good_buf 1 D fresh_buf" "\<not> b_busy fresh_buf" "b_dev fresh_buf \<noteq> 1"
    by (simp_all add: good_buf_def fresh_buf_def)
  have "BC 1 0 (tx_fs D l) = BC 1 0 (up_log fresh_buf D [])"
    by (rule BC_same) (simp_all add: tx_fs_def up_fs_def up_log_def log.defs kmem.defs)
  then show ?thesis
    using up_log_BC [OF fresh(1,2), of "[]"] fresh(3)
    by (auto simp: TX_def tx_fs_def up_fs_def up_log_def log.defs kmem.defs LOGSIZE_def)
qed

lemma small_sb:
  "decode_sb (small_disk 1) = \<lparr>sb_size = 1000, sb_nblocks = 900, sb_ninodes = 200, sb_nlog = 30, sb_logstart = 2,
     sb_inodestart = 32, sb_bmapstart = 60\<rparr>"
  using words.get_put_list [of "replicate 512 0" 0 "[1000, 900, 200, 30, 2, 32, 60]"]
  by (simp add: small_disk_def old_disk_def decode_sb_def put_words_list del: put_words.simps words.put_list.simps)

lemma balloc_bfree_witness:
  "(\<exists>t. balloc 1 (tx_fs small_disk []) = Ok 128 t) \<and>
   bfree 1 128 (tx_fs small_disk []) = Panic ''freeing free block'' \<and>
   (\<exists>t. bfree 1 127 (tx_fs small_disk []) = Ok () t)"
proof -
  let ?x = "replicate 16 255 @ replicate 496 0 :: block"
  have x: "small_disk 60 = ?x" by (simp add: small_disk_def)
  have used: "\<not> bit_free ?x n" if "n < 128" for n
  proof -
    have "n div 8 < 16" "n mod 8 < 8" using that by auto
    moreover have "bit (255 :: u8) (n mod 8)"
    proof -
      have "(255 :: u8) = - 1" by simp
      then show ?thesis by (simp only: bit_minus_1_iff) simp
    qed
    ultimately show ?thesis by (simp add: bit_free_bit nth_append)
  qed
  have free: "bit_free ?x 128" by (simp add: bit_free_def nth_append)
  have "find (bit_free ?x) [0..<1000] = Some 128"
    by (subst find_Some_iff, rule exI [of _ 128]) (use used free in auto)
  moreover note P = balloc_bfree [of 1 0 "tx_fs small_disk []" small_disk 18 60]
  have ok: "TX 1 0 (tx_fs small_disk []) small_disk {} (Suc (Suc 18))" "sb_ok (fs_sb (tx_fs small_disk []))"
    "decode_sb (small_disk 1) = fs_sb (tx_fs small_disk [])" "sb_bmapstart (fs_sb (tx_fs small_disk [])) = 60"
    "\<not> bit_free (small_disk 60) 60" "length (small_disk 60) = 512" "sb_size (fs_sb (tx_fs small_disk [])) = 1000"
    using tx_fs_TX [of small_disk "[]"] used [of 60]
    by (simp_all only: tx_fs_sel small_sb x) (simp_all add: sb_ok_def FSSIZE_def IPB_def BSIZE_def)
  note Q = P [OF ok(1-6), unfolded ok(7) x]
  ultimately have "\<exists>t. balloc 1 (tx_fs small_disk []) = Ok 128 t" using conjunct1 [OF Q] by auto
  moreover have "bfree 1 128 (tx_fs small_disk []) = Panic ''freeing free block''"
    using conjunct2 [OF Q, rule_format, of 128] free by simp
  moreover have "\<exists>t. bfree 1 127 (tx_fs small_disk []) = Ok () t"
    using conjunct2 [OF Q, rule_format, of 127] used [of 127] by auto
  ultimately show ?thesis by blast
qed

section \<open>Inodes survive the disk\<close>

text \<open>Reading an inode in from the disk.\<close>

lemma ilock_TX:
  assumes tx: "TX d i s V {} k" "0 < k" and dev: "i_dev (inodes s ! j) = d"
    and n: "IBLOCK (i_inum (inodes s ! j)) (fs_sb s) = n" "n < FSSIZE"
    and ip: "1 \<le> i_ref (inodes s ! j)" "\<not> i_busy (inodes s ! j)" "\<not> i_valid (inodes s ! j)" "j < length (inodes s)"
    and D: "get_dinode (V n) (i_inum (inodes s ! j) mod IPB) = dn" "d_type dn \<noteq> 0"
  shows "\<exists>t. ilock (Some j) s = Ok () t \<and> TX d i t V {} k \<and>
    inodes t = (inodes s)[j := (inodes s ! j)\<lparr>i_busy := True, i_d := dn, i_valid := True\<rparr>]"
proof -
  have held: "held s = []" using tx(1) by (auto simp: TX_def BC_def io_ok_def)
  let ?s = "upd_inode j (\<lambda>ip. ip\<lparr>i_busy := True\<rparr>) s"
  have same: "s\<lparr>inodes := x, held := []\<rparr> = s\<lparr>inodes := x\<rparr>" for x using held by (cases s) simp
  obtain h t where t: "bread d n ?s = Ok h t" "TX d i t V {n} k" "slot d t n = Some h" "trest t = trest ?s"
    using tx.rd_law [of d i ?s V "{}" k n] tx n(2) by auto
  have g: "buf_data h t = Ok (V n) t" by (rule tx.gt_law [OF t(2) _ t(3)]) simp
  let ?t = "upd_d j (\<lambda>_. dn) t"
  obtain v where v: "brelse h ?t = Ok () v" "TX d i v V {} k" "trest v = trest ?t"
    using tx.rl_law [of d i ?t V "{n}" k n h] t(2,3) by auto
  have "inodes v = inodes ?t" "inodes t = inodes ?s" using trest_fs(2) [OF v(3)] trest_fs(2) [OF t(4)] by simp_all
  moreover have "ilock (Some j) s = Ok () (upd_inode j (\<lambda>ip. ip\<lparr>i_valid := True\<rparr>) v)"
    using ip held t(1) g v(1) D held dev n(1)
    by (simp add: same ilock_def kseq_def kbind_def acq_apply rel_apply Let_def upd_inode_def)
  ultimately show ?thesis using v(2) ip(4) by auto
qed

text \<open>
  C18. What \<open>iupdate\<close> writes, \<open>ilock\<close> reads back: an in-memory inode written to its place on the disk,
  forgotten, and locked again has the type, device numbers, link count, size and block addresses it
  had; no other inode of the file system and no other block has changed.
\<close>

lemma inode_survives:
  assumes tx: "TX d i s V {} (Suc (Suc k))" and j: "j < length (inodes s)" "inodes s ! j = ip"
    and ip: "i_dev ip = d" "1 \<le> i_ref ip" "\<not> i_busy ip" "dinode_ok (i_d ip)" "d_type (i_d ip) \<noteq> 0"
    and n: "IBLOCK (i_inum ip) (fs_sb s) = n" "n < FSSIZE" "length (V n) = 512"
  shows "\<exists>t V'. kblock [iupdate j, kmod (upd_inode j (\<lambda>ip. ip\<lparr>i_valid := False, i_d := zero_dinode\<rparr>)), ilock (Some j)] s =
      Ok () t \<and> TX d i t V' {} (Suc k) \<and> inodes t = (inodes s)[j := ip\<lparr>i_busy := True, i_valid := True\<rparr>] \<and>
    (\<forall>m < 8. m = i_inum ip mod IPB \<or> get_dinode (V' n) m = get_dinode (V n) m) \<and> (\<forall>m. m = n \<or> V' m = V m)"
proof -
  let ?m = "i_inum ip mod IPB" let ?V = "V(n := put_dinode ?m (i_d ip) (V n))"
  have m: "?m < 8" by (simp add: IPB_def BSIZE_def)
  obtain t where t: "iupdate j s = Ok () t" "TX d i t ?V {} (Suc k)" "trest t = trest s"
    using txfs.iupdate_R [OF tx, of j] j ip n by auto
  let ?u = "upd_inode j (\<lambda>ip. ip\<lparr>i_valid := False, i_d := zero_dinode\<rparr>) t"
  have eq: "inodes t = inodes s" "fs_sb t = fs_sb s" using trest_fs [OF t(3)] by simp_all
  have u: "TX d i ?u ?V {} (Suc k)" "inodes ?u = (inodes s)[j := ip\<lparr>i_valid := False, i_d := zero_dinode\<rparr>]"
    using t(2) eq j by simp_all
  have "get_dinode (?V n) ?m = i_d ip" using dinodes.get_put [OF n(3) m ip(4)] by simp
  then obtain v where "ilock (Some j) ?u = Ok () v" "TX d i v ?V {} (Suc k)"
    "inodes v = (inodes s)[j := ip\<lparr>i_busy := True, i_valid := True\<rparr>]"
    using ilock_TX [OF u(1), of j n "i_d ip"] u(2) eq j ip n by auto
  moreover have "\<forall>q < 8. q = ?m \<or> get_dinode (?V n) q = get_dinode (V n) q"
    using dinodes.get_put_ne [OF n(3) m] by auto
  ultimately show ?thesis using t(1) by (intro exI [of _ v] exI [of _ ?V]) (auto simp: kseq_def kbind_def)
qed

definition some_inode :: inode where
  "some_inode = \<lparr>i_dev = 1, i_inum = 13, i_ref = 2, i_busy = False, i_valid = True,
     i_d = \<lparr>d_type = 2, d_major = 0, d_minor = 0, d_nlink = 1, d_size = 700,
       d_addrs = [200, 201, 0, 0, 0, 0, 0, 0, 0, 0, 0, 0, 0]\<rparr>\<rparr>"

lemma inode_survives_witness:
  "\<exists>t. kblock [iupdate 0, kmod (upd_inode 0 (\<lambda>ip. ip\<lparr>i_valid := False, i_d := zero_dinode\<rparr>)), ilock (Some 0)]
     (tx_fs small_disk [some_inode]) = Ok () t \<and> d_size (i_d (inodes t ! 0)) = 700"
proof -
  have ok: "dinode_ok (i_d some_inode)"
    by (simp add: dinode_ok_def some_inode_def short_ok_def NDIRECT_def nth_Cons')
  have n: "IBLOCK (i_inum some_inode) (fs_sb (tx_fs small_disk [some_inode])) = 33" "length (small_disk 33) = 512"
    by (simp_all only: tx_fs_sel small_sb) (simp_all add: IBLOCK_def IPB_def BSIZE_def some_inode_def small_disk_def old_disk_def)
  have "TX 1 0 (tx_fs small_disk [some_inode]) small_disk {} (Suc (Suc 18))" using tx_fs_TX [of small_disk] by simp
  from inode_survives [OF this _ _ _ _ _ ok _ n(1) _ n(2), of 0] show ?thesis
    by (auto simp: some_inode_def FSSIZE_def)
qed

section \<open>The last reference\<close>

lemma TX_wake: "TX d b s V Bz k \<Longrightarrow> TX d b (s\<lparr>procs := map (wake c) (procs s)\<rparr>) V Bz k"
proof -
  let ?t = "s\<lparr>procs := map (wake c) (procs s)\<rparr>"
  assume tx: "TX d b s V Bz k"
  have sl: "slot d ?t = slot d s" by (rule ext) (simp add: slot_def)
  have "view d ?t = view d s" by (rule ext) (simp add: view_def sl split: option.split)
  moreover have "io_ok d s b \<Longrightarrow> io_ok d ?t b"
    using awake_wake [of s b c] by (simp add: io_ok_def awake_def drive_ok_def)
  moreover have "bc_ok d ?t = bc_ok d s" by (simp add: bc_ok_def)
  ultimately have "BC d b s V D W Dy Bz \<Longrightarrow> BC d b ?t V D W Dy Bz" for D W Dy
    by (simp add: BC_def sl dirty_set_def busy_set_def)
  note bc = this
  obtain D W where "BC d b s V D W (set (lh s)) Bz" and cl: "\<forall>n \<in> Bz. n \<in> set (lh s) \<or> V n = D n"
    using tx by (auto simp: TX_def)
  from bc [OF this(1)] cl have "\<exists>D W. BC d b ?t V D W (set (lh ?t)) Bz \<and> (\<forall>n \<in> Bz. n \<in> set (lh ?t) \<or> V n = D n)" by auto
  then show ?thesis using tx by (simp add: TX_def)
qed

text \<open>The blocks of an inode are on the disk \<open>V\<close>, in use and different, and none is the bitmap.\<close>

definition inode_on :: "(nat \<Rightarrow> block) \<Rightarrow> superblock \<Rightarrow> inode \<Rightarrow> bool" where
  "inode_on V sb ip \<longleftrightarrow> sb_ok sb \<and> decode_sb (V 1) = sb \<and> sb_bmapstart sb \<noteq> 1 \<and> length (V (sb_bmapstart sb)) = 512 \<and>
     dinode_ok (i_d ip) \<and> IBLOCK (i_inum ip) sb < FSSIZE \<and> IBLOCK (i_inum ip) sb \<noteq> sb_bmapstart sb \<and>
     length (V (IBLOCK (i_inum ip) sb)) = 512 \<and> d_addrs (i_d ip) ! NDIRECT \<notin> {sb_bmapstart sb, 1} \<and>
     distinct (inode_blocks V (i_d ip)) \<and>
     (\<forall>b \<in> set (inode_blocks V (i_d ip)). b < sb_size sb \<and> \<not> bit_free (V (sb_bmapstart sb)) b)"

definition no_content :: "dinode \<Rightarrow> dinode" where
  "no_content dn = dn\<lparr>d_addrs := replicate (NDIRECT + 1) 0, d_size := 0, d_type := 0\<rparr>"

definition freed :: "inode \<Rightarrow> inode" where
  "freed ip = ip\<lparr>i_d := no_content (i_d ip), i_busy := False, i_valid := False, i_ref := 0\<rparr>"

lemma iput_last:
  assumes tx: "TX d b s V {} (k + 5)" and i: "i < length (inodes s)" "inodes s ! i = ip"
    and ip: "i_ref ip = 1" "i_valid ip" "d_nlink (i_d ip) = 0" "\<not> i_busy ip" "i_dev ip = d"
    and on: "inode_on V (fs_sb s) ip"
    and m: "sb_bmapstart (fs_sb s) = m" and nb: "IBLOCK (i_inum ip) (fs_sb s) = nb"
  shows "\<exists>t V'. iput i s = Ok () t \<and> TX d b t V' {} (k + 3) \<and> inodes t = (inodes s)[i := freed ip] \<and>
    (\<forall>n < 4096. bit_free (V' m) n \<longleftrightarrow> bit_free (V m) n \<or> n \<in> set (inode_blocks V (i_d ip))) \<and>
    get_dinode (V' nb) (i_inum ip mod IPB) = no_content (i_d ip) \<and>
    (\<forall>q < 8. q = i_inum ip mod IPB \<or> get_dinode (V' nb) q = get_dinode (V nb) q) \<and>
    (\<forall>n. n = m \<or> n = nb \<or> V' n = V n)"
proof -
  let ?bs = "inode_blocks V (i_d ip)" and ?q = "i_inum ip mod IPB"
  let ?dn = "(i_d ip)\<lparr>d_addrs := replicate (NDIRECT + 1) 0, d_size := 0\<rparr>"
  note on = on [unfolded inode_on_def m nb]
  have held: "held s = []" using tx by (auto simp: TX_def BC_def io_ok_def)
  have mnb: "m \<noteq> nb" using on by simp
  then have five: "k + 5 = Suc (k + 2) + card {m, nb}" by simp
  have start: "TXA d b {m, nb} s V {} (k + 2)" by (rule TXA_start [OF tx [unfolded five]]) simp
  let ?s = "upd_inode i (\<lambda>ip. ip\<lparr>i_busy := True\<rparr>) s" and ?ip = "ip\<lparr>i_busy := True\<rparr>"
  have si: "inodes ?s ! i = ?ip" "i < length (inodes ?s)" "TXA d b {m, nb} ?s V {} (k + 2)"
    using i start by simp_all
  have "\<exists>t. let dn = (i_d ?ip)\<lparr>d_addrs := replicate (NDIRECT + 1) 0, d_size := 0\<rparr> in itrunc i ?s = Ok () t \<and>
    TXA d b {m, nb} t (V(m := fold mark_free (inode_blocks V (i_d ?ip)) (V m), nb := put_dinode (i_inum ?ip mod IPB) dn (V nb))) {} (k + 2) \<and>
    fs_sb t = fs_sb ?s \<and> inodes t = (inodes ?s)[i := ?ip\<lparr>i_d := dn\<rparr>]"
    by (rule paidfs.itrunc_R [OF si(3)]) (use on si ip m nb in \<open>auto simp: dinode_ok_def\<close>)
  then obtain t where t: "itrunc i ?s = Ok () t"
    "TXA d b {m, nb} t (V(m := fold mark_free ?bs (V m), nb := put_dinode ?q ?dn (V nb))) {} (k + 2)"
    "fs_sb t = fs_sb s" "inodes t = (inodes s)[i := ?ip\<lparr>i_d := ?dn\<rparr>]"
    by (auto simp: Let_def)
  let ?t = "upd_d i (\<lambda>d. d\<lparr>d_type := 0\<rparr>) t"
  let ?V = "V(m := fold mark_free ?bs (V m), nb := put_dinode ?q (no_content (i_d ip)) (put_dinode ?q ?dn (V nb)))"
  have ti: "inodes ?t ! i = ?ip\<lparr>i_d := no_content (i_d ip)\<rparr>" using t(4) i by (simp add: no_content_def)
  have "\<exists>u. iupdate i ?t = Ok () u \<and> TXA d b {m, nb} u ((V(m := fold mark_free ?bs (V m), nb := put_dinode ?q ?dn (V nb)))
      (nb := put_dinode (i_inum (inodes ?t ! i) mod IPB) (i_d (inodes ?t ! i)) ((V(m := fold mark_free ?bs (V m), nb := put_dinode ?q ?dn (V nb))) nb))) {} (k + 2) \<and>
    (\<forall>m g. m \<in> {} \<longrightarrow> slot d ?t m = Some g \<longrightarrow> slot d u m = Some g) \<and> trest u = trest ?t"
    by (rule paidfs.iupdate_R) (use t(2,3) ti ip(5) nb on in simp_all)
  then obtain u where u: "iupdate i ?t = Ok () u" "TXA d b {m, nb} u ?V {} (k + 2)" "trest u = trest ?t"
    unfolding ti by auto
  let ?u = "u\<lparr>procs := map (wake (ChInode i)) (procs u), inodes := (inodes s)[i := freed ip]\<rparr>"
  have ui: "inodes u = (inodes s)[i := ?ip\<lparr>i_d := no_content (i_d ip)\<rparr>]"
    using trest_fs(2) [OF u(3)] t(4) i by (simp add: no_content_def)
  have hu: "held u = []" "held t = []" using u(2) t(2) by (auto simp: TXA_def TX_def BC_def io_ok_def)
  have s0: "s\<lparr>inodes := x, held := []\<rparr> = s\<lparr>inodes := x\<rparr>" for x using held by (cases s) simp
  have u0: "u\<lparr>procs := y, inodes := x, held := []\<rparr> = u\<lparr>procs := y, inodes := x\<rparr>" for x y using hu(1) by (cases u) simp
  have run: "iput i s = Ok () ?u"
    using i ip held hu t(1) u(1) ui
    by (simp add: iput_def kseq_def kbind_def acq_apply rel_apply wakeup_apply upd_inode_def s0 u0 freed_def)
  have "TX d b u ?V {} (k + 3)" using TXA_end [OF u(2)] by (simp add: eval_nat_numeral)
  then have tx': "TX d b ?u ?V {} (k + 3)" using TX_wake [of d b u ?V "{}" "k + 3" "ChInode i"] by simp
  have sz: "sb_size (fs_sb s) \<le> 1000" using on by (simp add: sb_ok_def FSSIZE_def)
  have "\<forall>b \<in> set ?bs. b < 4096" using on sz by fastforce
  then have bits: "\<forall>n < 4096. bit_free (?V m) n \<longleftrightarrow> bit_free (V m) n \<or> n \<in> set ?bs"
    using free_all_bits [of "V m" ?bs] on mnb by simp
  have q: "?q < 8" by (simp add: IPB_def BSIZE_def)
  have len: "length (V nb) = 512" "length (put_dinode ?q ?dn (V nb)) = 512"
    using on dinodes.put_length [of "V nb" ?q ?dn] q by simp_all
  have "dinode_ok (no_content (i_d ip))" using on by (auto simp: dinode_ok_def no_content_def short_ok_def nth_Cons')
  then have "get_dinode (?V nb) ?q = no_content (i_d ip)" using dinodes.get_put [OF len(2) q] by simp
  moreover have "\<forall>r < 8. r = ?q \<or> get_dinode (?V nb) r = get_dinode (V nb) r"
    using dinodes.get_put_ne [OF len(2) q] dinodes.get_put_ne [OF len(1) q] by auto
  moreover have "\<forall>n. n = m \<or> n = nb \<or> ?V n = V n" by simp
  moreover have "inodes ?u = (inodes s)[i := freed ip]" by simp
  ultimately show ?thesis using run tx' bits by (intro exI [of _ ?u] exI [of _ ?V]) (simp only: simp_thms)
qed

lemma icache_live:
  assumes ok: "ic_ok s" and free: "LIcache \<notin> set (held s)"
  shows "(if refs s (dev, n) = 0 \<and> (\<forall>ip \<in> set (inodes s). 0 < i_ref ip)
      then iget dev n s = Panic ''iget: no inodes''
      else \<exists>i t. iget dev n s = Ok i t \<and> ic_ok t \<and> i < NINODE \<and> 0 < i_ref (inodes t ! i) \<and>
        inode_key (inodes t ! i) = (dev, n) \<and> refs t = (refs s)((dev, n) := refs s (dev, n) + 1)) \<and>
    (\<forall>i < NINODE. i_ref (inodes s ! i) \<le> 0 \<or> (\<exists>t. idup i s = Ok i t \<and> ic_ok t \<and>
        refs t = (refs s)(inode_key (inodes s ! i) := refs s (inode_key (inodes s ! i)) + 1))) \<and>
    (\<forall>i < NINODE. i_ref (inodes s ! i) \<le> 0 \<or>
        (i_ref (inodes s ! i) = 1 \<and> i_valid (inodes s ! i) \<and> d_nlink (i_d (inodes s ! i)) = 0) \<or>
        (\<exists>t. iput i s = Ok () t \<and> ic_ok t \<and>
        refs t = (refs s)(inode_key (inodes s ! i) := refs s (inode_key (inodes s ! i)) - 1)))"
proof (intro conjI allI impI)
  let ?P = "\<lambda>ip. 0 < i_ref ip \<and> i_dev ip = dev \<and> i_inum ip = n"
  have len: "length (inodes s) = NINODE" using ok by (simp add: ic_ok_def)
  show "if refs s (dev, n) = 0 \<and> (\<forall>ip \<in> set (inodes s). 0 < i_ref ip)
      then iget dev n s = Panic ''iget: no inodes''
      else \<exists>i t. iget dev n s = Ok i t \<and> ic_ok t \<and> i < NINODE \<and> 0 < i_ref (inodes t ! i) \<and>
        inode_key (inodes t ! i) = (dev, n) \<and> refs t = (refs s)((dev, n) := refs s (dev, n) + 1)"
  proof (cases "first_idx ?P (inodes s)")
    case (Some i)
    let ?ip = "(inodes s ! i)\<lparr>i_ref := i_ref (inodes s ! i) + 1\<rparr>"
    let ?t = "s\<lparr>inodes := (inodes s)[i := ?ip]\<rparr>"
    have i: "i < NINODE" "0 < i_ref (inodes s ! i)" "inode_key (inodes s ! i) = (dev, n)"
      using first_idx_less [OF Some] first_idx_holds [OF Some] len by (simp_all add: inode_key_def)
    have "iget dev n s = Ok i ?t"
      using free Some by (simp add: iget_def acq_apply rel_apply kseq_def kbind_def upd_inode_def)
    moreover have "ic_ok ?t" "refs ?t = (refs s)((dev, n) := refs s (dev, n) + 1)"
      using same_key_upd [OF ok i(1,2), of ?t ?ip] i by (simp_all add: inode_key_def)
    moreover have "refs s (dev, n) \<noteq> 0"
      using refs_zero(1) [OF ok, of "(dev, n)"] i len by (metis less_irrefl nth_mem)
    ultimately show ?thesis using i len by (auto simp: inode_key_def)
  next
    case None
    then have z: "refs s (dev, n) = 0"
      using refs_zero(1) [OF ok, of "(dev, n)"] ok
      by (fastforce simp: first_idx_None inode_key_def ic_ok_def)
    show ?thesis
    proof (cases "first_idx (\<lambda>ip. i_ref ip = 0) (inodes s)")
      case None2: None
      then have "\<forall>ip \<in> set (inodes s). 0 < i_ref ip" using ok by (fastforce simp: first_idx_None ic_ok_def)
      moreover have "iget dev n s = Panic ''iget: no inodes''"
        using free None None2 by (simp add: iget_def acq_apply kseq_def kbind_def)
      ultimately show ?thesis using z by simp
    next
      case (Some i)
      let ?ip = "(inodes s ! i)\<lparr>i_dev := dev, i_inum := n, i_ref := 1, i_busy := False, i_valid := False\<rparr>"
      let ?t = "s\<lparr>inodes := (inodes s)[i := ?ip]\<rparr>"
      have i: "i < NINODE" "i_ref (inodes s ! i) = 0"
        using first_idx_less [OF Some] first_idx_holds [OF Some] len by simp_all
      have "iget dev n s = Ok i ?t"
        using free None Some by (simp add: iget_def acq_apply rel_apply kseq_def kbind_def upd_inode_def)
      moreover have "ic_ok ?t"
        by (rule ic_ok_upd [OF ok i(1), where ip = ?ip])
          (use None len in \<open>auto simp: first_idx_None inode_key_def\<close>)
      moreover have "refs ?t = (refs s)((dev, n) := refs s (dev, n) + 1)"
        by (rule ext) (use refs_upd [of i s ?t ?ip] i len in \<open>auto simp: inode_key_def\<close>)
      moreover have "\<not> (\<forall>ip \<in> set (inodes s). 0 < i_ref ip)" using i len by (metis less_irrefl nth_mem)
      ultimately show ?thesis using i len by (auto simp: inode_key_def)
    qed
  qed
  fix i assume i: "i < NINODE"
  let ?ip = "(inodes s ! i)\<lparr>i_ref := i_ref (inodes s ! i) + 1\<rparr>"
  let ?t = "s\<lparr>inodes := (inodes s)[i := ?ip]\<rparr>"
  have "idup i s = Ok i ?t"
    using free by (simp add: idup_def acq_apply rel_apply kseq_def kbind_def upd_inode_def)
  then show "i_ref (inodes s ! i) \<le> 0 \<or> (\<exists>t. idup i s = Ok i t \<and> ic_ok t \<and>
        refs t = (refs s)(inode_key (inodes s ! i) := refs s (inode_key (inodes s ! i)) + 1))"
    using same_key_upd [OF ok i, of ?t ?ip] by (fastforce simp: inode_key_def)
  let ?iq = "(inodes s ! i)\<lparr>i_ref := i_ref (inodes s ! i) - 1\<rparr>"
  let ?u = "s\<lparr>inodes := (inodes s)[i := ?iq]\<rparr>"
  have "iput i s = Ok () ?u" if "\<not> (i_ref (inodes s ! i) = 1 \<and> i_valid (inodes s ! i) \<and> d_nlink (i_d (inodes s ! i)) = 0)"
    using free that by (auto simp: iput_def acq_apply rel_apply kseq_def kbind_def upd_inode_def)
  then show "i_ref (inodes s ! i) \<le> 0 \<or>
        (i_ref (inodes s ! i) = 1 \<and> i_valid (inodes s ! i) \<and> d_nlink (i_d (inodes s ! i)) = 0) \<or>
        (\<exists>t. iput i s = Ok () t \<and> ic_ok t \<and>
        refs t = (refs s)(inode_key (inodes s ! i) := refs s (inode_key (inodes s ! i)) - 1))"
    using same_key_upd [OF ok i, of ?u ?iq] by (fastforce simp: inode_key_def)
qed

lemma iput_busy:
  assumes "LIcache \<notin> set (held s)" and "i_ref (inodes s ! i) = 1" "i_valid (inodes s ! i)"
    "d_nlink (i_d (inodes s ! i)) = 0" "i_busy (inodes s ! i)"
  shows "iput i s = Panic ''iput busy''"
  using assms by (simp add: iput_def acq_apply kseq_def kbind_def)

text \<open>
  C12. The inode cache implements reference counts: with at most one entry per inode, \<open>iget\<close> adds a
  reference to the inode asked for and returns its entry, or panics when all fifty entries are in use
  for other inodes; \<open>idup\<close> adds one; \<open>iput\<close> takes one away; and there is still at most one entry
  per inode. The last reference to a valid inode without links is the other branch of
  \<open>iput\<close>: it panics if the inode is busy; otherwise, in a transaction with room for five writes and with
  the inode's blocks in use and different, it takes the reference away, frees exactly the
  blocks of the inode in the bitmap, leaves type and size 0 and no addresses on the disk and in the
  entry, which is no longer valid, and changes no other inode and no other block.
\<close>

lemma icache_refcounts:
  assumes ok: "ic_ok s" and free: "LIcache \<notin> set (held s)"
  shows "(if refs s (dev, n) = 0 \<and> (\<forall>ip \<in> set (inodes s). 0 < i_ref ip)
      then iget dev n s = Panic ''iget: no inodes''
      else \<exists>i t. iget dev n s = Ok i t \<and> ic_ok t \<and> i < NINODE \<and> 0 < i_ref (inodes t ! i) \<and>
        inode_key (inodes t ! i) = (dev, n) \<and> refs t = (refs s)((dev, n) := refs s (dev, n) + 1)) \<and>
    (\<forall>i < NINODE. i_ref (inodes s ! i) \<le> 0 \<or> (\<exists>t. idup i s = Ok i t \<and> ic_ok t \<and>
        refs t = (refs s)(inode_key (inodes s ! i) := refs s (inode_key (inodes s ! i)) + 1))) \<and>
    (\<forall>i < NINODE. i_ref (inodes s ! i) \<le> 0 \<or>
        (i_ref (inodes s ! i) = 1 \<and> i_valid (inodes s ! i) \<and> d_nlink (i_d (inodes s ! i)) = 0) \<or>
        (\<exists>t. iput i s = Ok () t \<and> ic_ok t \<and>
        refs t = (refs s)(inode_key (inodes s ! i) := refs s (inode_key (inodes s ! i)) - 1))) \<and>
    (\<forall>i < NINODE. \<forall>ip. inodes s ! i = ip \<and> i_ref ip = 1 \<and> i_valid ip \<and> d_nlink (i_d ip) = 0 \<longrightarrow>
      (i_busy ip \<longrightarrow> iput i s = Panic ''iput busy'') \<and>
      (\<forall>b V k m nb. \<not> i_busy ip \<and> TX (i_dev ip) b s V {} (k + 5) \<and> inode_on V (fs_sb s) ip \<and>
          m = sb_bmapstart (fs_sb s) \<and> nb = IBLOCK (i_inum ip) (fs_sb s) \<longrightarrow>
        (\<exists>t V'. iput i s = Ok () t \<and> TX (i_dev ip) b t V' {} (k + 3) \<and> ic_ok t \<and>
          refs t = (refs s)(inode_key ip := refs s (inode_key ip) - 1) \<and> inodes t = (inodes s)[i := freed ip] \<and>
          (\<forall>a < 4096. bit_free (V' m) a \<longleftrightarrow> bit_free (V m) a \<or> a \<in> set (inode_blocks V (i_d ip))) \<and>
          get_dinode (V' nb) (i_inum ip mod IPB) = no_content (i_d ip) \<and>
          (\<forall>q < 8. q = i_inum ip mod IPB \<or> get_dinode (V' nb) q = get_dinode (V nb) q) \<and>
          (\<forall>a. a = m \<or> a = nb \<or> V' a = V a))))"
proof -
  have len: "length (inodes s) = NINODE" using ok by (simp add: ic_ok_def)
  have busy: "iput i s = Panic ''iput busy''"
    if "inodes s ! i = ip \<and> i_ref ip = 1 \<and> i_valid ip \<and> d_nlink (i_d ip) = 0" "i_busy ip" for i ip
    using iput_busy [OF free, of i] that by simp
  have dies: "\<exists>t V'. iput i s = Ok () t \<and> TX (i_dev ip) b t V' {} (k + 3) \<and> ic_ok t \<and>
          refs t = (refs s)(inode_key ip := refs s (inode_key ip) - 1) \<and> inodes t = (inodes s)[i := freed ip] \<and>
          (\<forall>a < 4096. bit_free (V' m) a \<longleftrightarrow> bit_free (V m) a \<or> a \<in> set (inode_blocks V (i_d ip))) \<and>
          get_dinode (V' nb) (i_inum ip mod IPB) = no_content (i_d ip) \<and>
          (\<forall>q < 8. q = i_inum ip mod IPB \<or> get_dinode (V' nb) q = get_dinode (V nb) q) \<and>
          (\<forall>a. a = m \<or> a = nb \<or> V' a = V a)"
    if i: "i < NINODE" and ip: "inodes s ! i = ip \<and> i_ref ip = 1 \<and> i_valid ip \<and> d_nlink (i_d ip) = 0"
      and tx: "\<not> i_busy ip \<and> TX (i_dev ip) b s V {} (k + 5) \<and> inode_on V (fs_sb s) ip \<and>
        m = sb_bmapstart (fs_sb s) \<and> nb = IBLOCK (i_inum ip) (fs_sb s)" for i ip b V k m nb
  proof -
    obtain t V' where t: "iput i s = Ok () t" "TX (i_dev ip) b t V' {} (k + 3)" "inodes t = (inodes s)[i := freed ip]"
      "\<forall>a < 4096. bit_free (V' m) a \<longleftrightarrow> bit_free (V m) a \<or> a \<in> set (inode_blocks V (i_d ip))"
      "get_dinode (V' nb) (i_inum ip mod IPB) = no_content (i_d ip)"
      "\<forall>q < 8. q = i_inum ip mod IPB \<or> get_dinode (V' nb) q = get_dinode (V nb) q"
      "\<forall>a. a = m \<or> a = nb \<or> V' a = V a"
      using iput_last [of "i_dev ip" b s V k i ip m nb] tx ip i len by auto
    have "0 < i_ref (inodes s ! i)" "inode_key (freed ip) = inode_key (inodes s ! i)" "0 \<le> i_ref (freed ip)"
      using ip by (simp_all add: freed_def inode_key_def)
    note upd = same_key_upd [OF ok i this(1) t(3) this(2,3)]
    have "inode_key (freed ip) = inode_key ip" "i_ref (freed ip) = 0" by (simp_all add: freed_def inode_key_def)
    then have "refs t = (refs s)(inode_key ip := refs s (inode_key ip) - 1)" using upd(2) ip by simp
    then show ?thesis using t upd(1) by blast
  qed
  show ?thesis using icache_live [OF ok free, of dev n] busy dies by (intro conjI allI impI) (blast | simp)+
qed

definition dead_inode :: inode where
  "dead_inode = \<lparr>i_dev = 1, i_inum = 13, i_ref = 1, i_busy = False, i_valid = True,
     i_d = \<lparr>d_type = 2, d_major = 0, d_minor = 0, d_nlink = 0, d_size = 700,
       d_addrs = [100, 101, 0, 0, 0, 0, 0, 0, 0, 0, 0, 0, 0]\<rparr>\<rparr>"

lemma dead_inode_on: "inode_on small_disk (decode_sb (small_disk 1)) dead_inode"
proof -
  have blocks: "inode_blocks small_disk (i_d dead_inode) = [100, 101]"
    by (simp add: inode_blocks_def nz_def dead_inode_def NDIRECT_def)
  have used: "\<not> bit_free (small_disk 60) n" if "n < 128" for n
  proof -
    have "n div 8 < 16" using that by auto
    moreover have "bit (255 :: u8) (n mod 8)"
    proof -
      have "(255 :: u8) = - 1" by simp
      then show ?thesis by (simp only: bit_minus_1_iff) simp
    qed
    ultimately show ?thesis by (simp add: bit_free_bit nth_append small_disk_def)
  qed
  have "dinode_ok (i_d dead_inode)"
    by (simp add: dinode_ok_def dead_inode_def short_ok_def NDIRECT_def nth_Cons')
  then show ?thesis
    unfolding inode_on_def blocks small_sb using used [of 100] used [of 101]
    by (simp add: sb_ok_def FSSIZE_def IPB_def BSIZE_def small_sb IBLOCK_def dead_inode_def NDIRECT_def)
      (simp add: small_disk_def old_disk_def)
qed

text \<open>A first reference to inode 1, and the last one to a file of two blocks without a name.\<close>

lemma icache_refcounts_witness:
  "(\<exists>i t. iget 1 1 (tx_fs small_disk (dead_inode # replicate 49 free_inode)) = Ok i t \<and> refs t (1, 1) = 1 \<and>
     inode_key (inodes t ! i) = (1, 1)) \<and>
   (\<exists>t V. iput 0 (tx_fs small_disk (dead_inode # replicate 49 free_inode)) = Ok () t \<and>
     TX 1 0 t V {} 18 \<and> refs t (1, 13) = 0 \<and> bit_free (V 60) 100 \<and> bit_free (V 60) 101 \<and> V 7 = small_disk 7)"
proof -
  let ?s = "tx_fs small_disk (dead_inode # replicate 49 free_inode)"
  have ok: "ic_ok ?s"
    by (auto simp: ic_ok_def NINODE_def free_inode_def dead_inode_def nth_Cons')
  have z: "refs ?s (1, 1) = 0" "refs ?s (1, 13) = 1"
    by (simp_all add: refs_def free_inode_def dead_inode_def inode_key_def map_replicate_const sum_list_replicate)
  have "\<not> (\<forall>ip \<in> set (inodes ?s). 0 < i_ref ip)" by (simp add: free_inode_def)
  have "LIcache \<notin> set (held ?s)" by simp
  note P = icache_refcounts [OF ok this, of 1 1]
  have a: "\<exists>i t. iget 1 1 ?s = Ok i t \<and> refs t (1, 1) = 1 \<and> inode_key (inodes t ! i) = (1, 1)"
    using P z \<open>\<not> (\<forall>ip \<in> set (inodes ?s). 0 < i_ref ip)\<close> by auto
  have ip: "inodes ?s ! 0 = dead_inode \<and> i_ref dead_inode = 1 \<and> i_valid dead_inode \<and> d_nlink (i_d dead_inode) = 0"
    by (simp add: dead_inode_def)
  have tx: "\<not> i_busy dead_inode \<and> TX (i_dev dead_inode) 0 ?s small_disk {} (15 + 5) \<and> inode_on small_disk (fs_sb ?s) dead_inode \<and>
      60 = sb_bmapstart (fs_sb ?s) \<and> IBLOCK (i_inum dead_inode) (fs_sb ?s) = IBLOCK (i_inum dead_inode) (fs_sb ?s)"
  proof -
    have "sb_bmapstart (fs_sb ?s) = 60" by (simp only: tx_fs_sel small_sb) simp
    moreover have "inode_on small_disk (fs_sb ?s) dead_inode" using dead_inode_on by simp
    ultimately show ?thesis using tx_fs_TX [of small_disk] by (simp add: dead_inode_def)
  qed
  have nin: "(0 :: nat) < NINODE" by (simp add: NINODE_def)
  note D = conjunct2 [OF conjunct2 [OF conjunct2 [OF P]]]
  from D [rule_format, OF nin ip, THEN conjunct2, rule_format, OF tx]
  obtain t V' where t: "iput 0 ?s = Ok () t" "TX (i_dev dead_inode) 0 t V' {} (15 + 3)"
    "refs t = (refs ?s)(inode_key dead_inode := refs ?s (inode_key dead_inode) - 1)"
    "\<forall>a < 4096. bit_free (V' 60) a \<longleftrightarrow> bit_free (small_disk 60) a \<or> a \<in> set (inode_blocks small_disk (i_d dead_inode))"
    "\<forall>a. a = 60 \<or> a = IBLOCK (i_inum dead_inode) (fs_sb ?s) \<or> V' a = small_disk a"
    by blast
  have "inode_blocks small_disk (i_d dead_inode) = [100, 101]"
    by (simp add: inode_blocks_def nz_def dead_inode_def NDIRECT_def)
  then have "bit_free (V' 60) 100" "bit_free (V' 60) 101" using t(4) by simp_all
  moreover have "refs t (1, 13) = 0" using t(3) z(2) by (simp add: dead_inode_def inode_key_def)
  moreover have "V' 7 = small_disk 7"
  proof -
    have "IBLOCK (i_inum dead_inode) (fs_sb ?s) \<noteq> 7" by (simp only: tx_fs_sel small_sb) (simp add: dead_inode_def IBLOCK_def IPB_def BSIZE_def)
    then show ?thesis using t(5) [rule_format, of 7] by simp
  qed
  ultimately have "\<exists>t V. iput 0 ?s = Ok () t \<and> TX 1 0 t V {} 18 \<and> refs t (1, 13) = 0 \<and>
    bit_free (V 60) 100 \<and> bit_free (V 60) 101 \<and> V 7 = small_disk 7" using t(1,2) by (auto simp: dead_inode_def)
  with a show ?thesis by blast
qed

end
