(* ===== verification/Ring.thy ===== *)
theory Ring
  imports Prelude
begin

text \<open>
  Ring buffers with free-running 32-bit indices, as the pipe and the console input keep them: the
  contents lie between a read and a write index, which are only reduced modulo the buffer's length
  when the array is indexed, and wrap around with the machine word.
\<close>

definition ring_at :: "u8 list \<Rightarrow> u32 \<Rightarrow> u8" where
  "ring_at buf i = buf ! (unat i mod length buf)"

definition ring_put :: "u8 list \<Rightarrow> u32 \<Rightarrow> u8 \<Rightarrow> u8 list" where
  "ring_put buf i c = buf[unat i mod length buf := c]"

definition ring_list :: "u8 list \<Rightarrow> u32 \<Rightarrow> u32 \<Rightarrow> u8 list" where
  "ring_list buf r w = map (\<lambda>k. ring_at buf (r + of_nat k)) [0..<unat (w - r)]"

definition ring_ok :: "nat \<Rightarrow> u8 list \<Rightarrow> u32 \<Rightarrow> u32 \<Rightarrow> bool" where
  "ring_ok N buf r w \<longleftrightarrow> length buf = N \<and> 0 < N \<and> N dvd 4294967296 \<and> N < 4294967296 \<and> unat (w - r) \<le> N"

lemma ring_put_length [simp]: "length (ring_put buf i c) = length buf"
  by (simp add: ring_put_def)

lemma ring_list_length [simp]: "length (ring_list buf r w) = unat (w - r)"
  by (simp add: ring_list_def)

lemma ring_list_nil: "ring_list buf r w = [] \<longleftrightarrow> r = w"
  by (simp add: ring_list_def) (metis eq_iff_diff_eq_0 unat_eq_0)

lemma unat_add_mod:
  assumes "N dvd 4294967296"
  shows "unat ((r :: u32) + of_nat k) mod N = (unat r + k) mod N"
proof -
  have "unat (r + of_nat k) = (unat r + k) mod 4294967296"
    by (simp add: unat_word_ariths unat_of_nat mod_add_right_eq)
  then show ?thesis using assms by (simp add: mod_mod_cancel)
qed

text \<open>Two positions less than \<open>N\<close> apart are different entries of the array.\<close>

lemma ring_apart:
  fixes r :: u32
  assumes "N dvd 4294967296" and "j < k" and "k < j + N"
  shows "unat (r + of_nat j) mod N \<noteq> unat (r + of_nat k) mod N"
proof
  assume "unat (r + of_nat j) mod N = unat (r + of_nat k) mod N"
  then have "(unat r + j) mod N = (unat r + k) mod N" unfolding unat_add_mod [OF assms(1)] .
  then have "N dvd (unat r + k) - (unat r + j)"
    using assms(2) by (subst mod_eq_dvd_iff_nat [symmetric]) simp_all
  then have "N dvd k - j" by simp
  then show False using assms(2,3) by (auto dest: dvd_imp_le)
qed

lemma ring_at_put:
  assumes "ring_ok N buf r w" and "unat (w - r) < N" and "k \<le> unat (w - r)"
  shows "ring_at (ring_put buf w c) (r + of_nat k) = (if k = unat (w - r) then c else ring_at buf (r + of_nat k))"
proof -
  have w: "w = r + of_nat (unat (w - r))" by simp
  have b: "length buf = N" "0 < N" "N dvd 4294967296" using assms(1) by (simp_all add: ring_ok_def)
  show ?thesis
  proof (cases "k = unat (w - r)")
    case True
    have rk: "r + of_nat k = w" unfolding True by simp
    show ?thesis unfolding rk using True b by (simp add: ring_at_def ring_put_def)
  next
    case False
    then have "k < unat (w - r)" "unat (w - r) < k + N" using assms(2,3) by auto
    from ring_apart [OF b(3) this, of r] w have "unat w mod N \<noteq> unat (r + of_nat k) mod N" by simp
    then show ?thesis using False b by (simp add: ring_at_def ring_put_def)
  qed
qed

lemma unat_inc: "unat (d :: u32) < 4294967295 \<Longrightarrow> unat (d + 1) = Suc (unat d)"
  by (simp add: unat_word_ariths)

lemma unat_dec: "d \<noteq> 0 \<Longrightarrow> Suc (unat ((d :: u32) - 1)) = unat d"
  by (metis Suc_pred' unat_gt_0 unat_minus_one)

lemma ring_push:
  assumes ok: "ring_ok N buf r w" and room: "unat (w - r) < N"
  shows "ring_list (ring_put buf w c) r (w + 1) = ring_list buf r w @ [c]"
    and "ring_ok N (ring_put buf w c) r (w + 1)"
proof -
  have "unat ((w - r) + 1) = Suc (unat (w - r))"
    by (rule unat_inc) (use ok room in \<open>simp add: ring_ok_def\<close>)
  then have n: "unat (w + 1 - r) = Suc (unat (w - r))" by (simp add: algebra_simps)
  show "ring_ok N (ring_put buf w c) r (w + 1)" using ok room n by (simp add: ring_ok_def)
  show "ring_list (ring_put buf w c) r (w + 1) = ring_list buf r w @ [c]"
    unfolding ring_list_def n using ring_at_put [OF ok room, of "unat (w - r)"]
    by (simp add: ring_at_put [OF ok room])
qed

lemma ring_pop:
  assumes ok: "ring_ok N buf r w" and some: "r \<noteq> w"
  shows "ring_list buf r w = ring_at buf r # ring_list buf (r + 1) w" and "ring_ok N buf (r + 1) w"
proof -
  have "w - r - 1 = w - (r + 1)" by simp
  then have n: "unat (w - r) = Suc (unat (w - (r + 1)))" using unat_dec [of "w - r"] some by (metis right_minus_eq)
  show "ring_ok N buf (r + 1) w" using ok n by (simp add: ring_ok_def)
  show "ring_list buf r w = ring_at buf r # ring_list buf (r + 1) w"
    unfolding ring_list_def n upt_conv_Cons [OF zero_less_Suc] map_Suc_upt [symmetric]
    by (simp add: comp_def algebra_simps)
qed

text \<open>Taking the newest entry back.\<close>

lemma ring_unput:
  assumes ok: "ring_ok N buf r w" and some: "r \<noteq> w"
  shows "ring_list buf r w = ring_list buf r (w - 1) @ [ring_at buf (w - 1)]" and "ring_ok N buf r (w - 1)"
proof -
  have "w - r - 1 = w - 1 - r" by simp
  then have n: "unat (w - r) = Suc (unat (w - 1 - r))" using unat_dec [of "w - r"] some by (metis right_minus_eq)
  have "r + of_nat (unat (w - 1 - r)) = w - 1" by simp
  then show "ring_list buf r w = ring_list buf r (w - 1) @ [ring_at buf (w - 1)]"
    unfolding ring_list_def n by simp
  show "ring_ok N buf r (w - 1)" using ok n by (simp add: ring_ok_def)
qed

lemma ring_empty [simp]: "ring_list buf r r = []"
  by (simp add: ring_list_def)

text \<open>The contents between two indices and between the second and a third.\<close>

lemma ring_split:
  assumes "unat (m - r) \<le> unat (w - r)"
  shows "ring_list buf r w = ring_list buf r m @ ring_list buf m w"
proof -
  have "w - m = (w - r) - (m - r)" by simp
  then have "unat (w - m) = unat (w - r) - unat (m - r)"
    using assms unat_sub [of "m - r" "w - r"] by (metis word_le_nat_alt)
  then have n: "unat (w - r) = unat (m - r) + unat (w - m)" using assms by simp
  have "map (\<lambda>k. ring_at buf (r + of_nat k)) [unat (m - r)..<unat (m - r) + unat (w - m)] =
      map (\<lambda>k. ring_at buf (m + of_nat k)) [0..<unat (w - m)]"
    by (rule nth_equalityI) (simp_all add: algebra_simps)
  then show ?thesis unfolding ring_list_def n upt_add_eq_append [OF le0] by simp
qed

section \<open>The contract of a bounded queue\<close>

locale bounded_queue =
  fixes put :: "'c \<Rightarrow> 'q \<Rightarrow> 'q"
    and get :: "'q \<Rightarrow> 'c \<times> 'q"
    and content :: "'q \<Rightarrow> 'c list"
    and ok :: "'q \<Rightarrow> bool"
    and cap :: nat
  assumes put_law: "ok q \<Longrightarrow> length (content q) < cap \<Longrightarrow> ok (put c q) \<and> content (put c q) = content q @ [c]"
    and get_law: "ok q \<Longrightarrow> content q \<noteq> [] \<Longrightarrow>
      ok (snd (get q)) \<and> content q = fst (get q) # content (snd (get q))"
    and cap_law: "ok q \<Longrightarrow> length (content q) \<le> cap"
begin

fun puts :: "'c list \<Rightarrow> 'q \<Rightarrow> 'q" where
  "puts [] q = q"
| "puts (c # cs) q = puts cs (put c q)"

fun gets :: "nat \<Rightarrow> 'q \<Rightarrow> 'c list \<times> 'q" where
  "gets 0 q = ([], q)"
| "gets (Suc n) q = (let (c, q) = get q; (cs, q) = gets n q in (c # cs, q))"

lemma puts_content:
  "ok q \<Longrightarrow> length (content q) + length cs \<le> cap \<Longrightarrow> ok (puts cs q) \<and> content (puts cs q) = content q @ cs"
proof (induction cs arbitrary: q)
  case Nil
  then show ?case by simp
next
  case (Cons c cs)
  then have "length (content q) < cap" by simp
  with Cons put_law [of q c] show ?case by simp
qed

lemma gets_content:
  "ok q \<Longrightarrow> n \<le> length (content q) \<Longrightarrow>
     ok (snd (gets n q)) \<and> fst (gets n q) = take n (content q) \<and> content (snd (gets n q)) = drop n (content q)"
proof (induction n arbitrary: q)
  case 0
  then show ?case by simp
next
  case (Suc n)
  then have ne: "content q \<noteq> []" by auto
  from get_law [OF Suc.prems(1) ne] have g: "ok (snd (get q))" "content q = fst (get q) # content (snd (get q))"
    by simp_all
  have n: "n \<le> length (content (snd (get q)))" using Suc.prems(2) g(2) by (metis Suc_le_mono length_Cons)
  have "gets (Suc n) q = (fst (get q) # fst (gets n (snd (get q))), snd (gets n (snd (get q))))"
    by (simp add: split_beta Let_def)
  then show ?case using Suc.IH [OF g(1) n] g(2) by (metis drop_Suc_Cons fst_conv snd_conv take_Suc_Cons)
qed

text \<open>First in, first out.\<close>

lemma fifo:
  assumes "ok q" and "length (content q) + length cs \<le> cap"
  shows "fst (gets (length (content q) + length cs) (puts cs q)) = content q @ cs"
    and "content (snd (gets (length (content q) + length cs) (puts cs q))) = []"
  using puts_content [OF assms] gets_content [of "puts cs q" "length (content q) + length cs"] by simp_all

end

text \<open>The ring implements it.\<close>

definition ring_push :: "u8 \<Rightarrow> u8 list \<times> u32 \<times> u32 \<Rightarrow> u8 list \<times> u32 \<times> u32" where
  "ring_push c = (\<lambda>(buf, r, w). (ring_put buf w c, r, w + 1))"

definition ring_pop :: "u8 list \<times> u32 \<times> u32 \<Rightarrow> u8 \<times> u8 list \<times> u32 \<times> u32" where
  "ring_pop = (\<lambda>(buf, r, w). (ring_at buf r, buf, r + 1, w))"

interpretation ring: bounded_queue ring_push ring_pop "\<lambda>(buf, r, w). ring_list buf r w"
  "\<lambda>(buf, r, w). ring_ok N buf r w" N
proof
  fix q c assume "case q of (buf, r, w) \<Rightarrow> ring_ok N buf r w"
    "length (case q of (buf, r, w) \<Rightarrow> ring_list buf r w) < N"
  then show "(case ring_push c q of (buf, r, w) \<Rightarrow> ring_ok N buf r w) \<and>
      (case ring_push c q of (buf, r, w) \<Rightarrow> ring_list buf r w) = (case q of (buf, r, w) \<Rightarrow> ring_list buf r w) @ [c]"
    by (cases q) (simp add: ring_push_def ring_push)
next
  fix q assume "case q of (buf, r, w) \<Rightarrow> ring_ok N buf r w" "(case q of (buf, r, w) \<Rightarrow> ring_list buf r w) \<noteq> []"
  then show "(case snd (ring_pop q) of (buf, r, w) \<Rightarrow> ring_ok N buf r w) \<and>
      (case q of (buf, r, w) \<Rightarrow> ring_list buf r w) =
        fst (ring_pop q) # (case snd (ring_pop q) of (buf, r, w) \<Rightarrow> ring_list buf r w)"
    by (cases q) (auto simp: ring_pop_def ring_list_nil ring_pop)
next
  fix q assume "case q of (buf, r, w) \<Rightarrow> ring_ok N buf r w"
  then show "length (case q of (buf, r, w) \<Rightarrow> ring_list buf r w) \<le> N" by (cases q) (simp add: ring_ok_def)
qed

end
