(* ===== verification/Input.thy ===== *)
theory Input
  imports Inode Ring
begin

text \<open>
  The input half of kernel/console.c with its two sources, the keyboard (kernel/kbd.c, kernel/kbd.h)
  and the receive side of the UART (kernel/uart.c), and the device switch of kernel/file.c through
  which the file system reaches \<open>consoleread\<close> and \<open>consolewrite\<close>. Typed characters go through a
  ring of 128 with three indices: read up to \<open>in_r\<close>, committed up to \<open>in_w\<close>, edited up to \<open>in_e\<close>.
\<close>

unbundle bit_operations_syntax

definition INPUT_BUF :: nat where "INPUT_BUF = 128"
definition CONSOLE :: nat where "CONSOLE = 1"
definition NDEV :: nat where "NDEV = 10"

text \<open>The functions the kernel puts into the device switch.\<close>

datatype readfn = Consoleread

datatype writefn = Consolewrite

record console = fs +
  in_buf :: "u8 list"
  in_r :: u32
  in_w :: u32
  in_e :: u32
  kbd_shift :: u32
  dev_read :: "nat \<Rightarrow> readfn option"
  dev_write :: "nat \<Rightarrow> writefn option"

section \<open>The keyboard\<close>

definition E0ESC :: u32 where "E0ESC = 64"
definition CAPSLOCK :: u32 where "CAPSLOCK = 8"

definition shiftcode :: "nat \<Rightarrow> u32" where
  "shiftcode d = (if d = 0x1D \<or> d = 0x9D then 2 else if d = 0x2A \<or> d = 0x36 then 1
     else if d = 0x38 \<or> d = 0xB8 then 4 else 0)"

definition togglecode :: "nat \<Rightarrow> u32" where
  "togglecode d = (if d = 0x3A then 8 else if d = 0x45 then 16 else if d = 0x46 then 32 else 0)"

definition chars :: "string \<Rightarrow> nat list" where
  "chars = map of_char"

definition ctl :: "string \<Rightarrow> nat list" where
  "ctl = map (\<lambda>c. of_char c - 64)"

definition keypad :: "nat list" where
  "keypad = replicate 7 0 @ chars ''789-456+1230.'' @ replicate 4 0"

definition key_special :: "nat \<Rightarrow> nat \<Rightarrow> nat \<Rightarrow> nat" where
  "key_special enter slash d =
     (if d = 0x9C then enter else if d = 0xB5 then slash
      else if d = 0xC8 then 0xE2 else if d = 0xD0 then 0xE3
      else if d = 0xC9 then 0xE6 else if d = 0xD1 then 0xE7
      else if d = 0xCB then 0xE4 else if d = 0xCD then 0xE5
      else if d = 0x97 then 0xE0 else if d = 0xCF then 0xE1
      else if d = 0xD2 then 0xE8 else if d = 0xD3 then 0xE9 else 0)"

definition normal_row :: "nat list" where
  "normal_row = [0, 0x1B] @ chars ''1234567890-='' @ [8, 9] @ chars ''qwertyuiop[]'' @ [10, 0] @
     chars ''asdfghjkl;'' @ [39, 96, 0, 92] @ chars ''zxcvbnm,./'' @ [0, 42, 0, 32, 0, 0, 0, 0, 0, 0] @ keypad"

definition shift_row :: "nat list" where
  "shift_row = [0, 27] @ chars ''!@#$%^&*()_+'' @ [8, 9] @ chars ''QWERTYUIOP{}'' @ [10, 0] @
     chars ''ASDFGHJKL:'' @ [34, 126, 0, 124] @ chars ''ZXCVBNM<>?'' @ [0, 42, 0, 32, 0, 0, 0, 0, 0, 0] @ keypad"

definition ctl_row :: "nat list" where
  "ctl_row = replicate 16 0 @ ctl ''QWERTYUIOP'' @ [0, 0, 13, 0] @ ctl ''ASDFGHJKL'' @
     [0, 0, 0, 0, 28] @ ctl ''ZXCVBNM'' @ [0, 0, 239, 0, 0]"

definition key_map :: "nat list \<Rightarrow> nat \<Rightarrow> nat \<Rightarrow> nat \<Rightarrow> nat" where
  "key_map row enter slash d = (if d < length row then row ! d else key_special enter slash d)"

definition normalmap :: "nat \<Rightarrow> nat" where "normalmap = key_map normal_row 10 47"
definition shiftmap :: "nat \<Rightarrow> nat" where "shiftmap = key_map shift_row 10 47"
definition ctlmap :: "nat \<Rightarrow> nat" where "ctlmap = key_map ctl_row 13 239"

definition charcode :: "u32 \<Rightarrow> nat \<Rightarrow> nat" where
  "charcode sh = (if sh AND 3 = 0 then normalmap else if sh AND 3 = 1 then shiftmap else ctlmap)"

text \<open>One scan code: the character it stands for (0 for none) and the new shift state.\<close>

definition kbd_code :: "u8 \<Rightarrow> u32 \<Rightarrow> int \<times> u32" where
  "kbd_code data shift =
     (if data = 0xE0 then (0, shift OR E0ESC)
      else if data AND 0x80 \<noteq> 0 then
        let d = (if shift AND E0ESC \<noteq> 0 then data else data AND 0x7F)
        in (0, shift AND NOT (shiftcode (unat d) OR E0ESC))
      else
        let d = unat (if shift AND E0ESC \<noteq> 0 then data OR 0x80 else data);
            shift = (if shift AND E0ESC \<noteq> 0 then shift AND NOT E0ESC else shift);
            shift = shift OR shiftcode d;
            shift = shift XOR togglecode d;
            c = charcode shift d;
            c = (if shift AND CAPSLOCK \<noteq> 0 then
                   (if 97 \<le> c \<and> c \<le> 122 then c - 32 else if 65 \<le> c \<and> c \<le> 90 then c + 32 else c)
                 else c)
        in (int c, shift))"

definition kbdgetc :: "u8 \<Rightarrow> u8 \<Rightarrow> u32 \<Rightarrow> int \<times> u32" where
  "kbdgetc st data shift = (if st AND 0x01 = 0 then (- 1, shift) else kbd_code data shift)"

section \<open>Typing\<close>

text \<open>Control-U rubs out back to the last newline or to what is committed already.\<close>

definition kill_line :: "(unit, 'z console_scheme) K" where
  "kill_line = kbind (kget (\<lambda>s. unat (in_e s - in_w s))) (\<lambda>n. kloop (Suc n) (\<lambda>_.
     kbind (kget (\<lambda>s. (in_e s, in_w s, ring_at (in_buf s) (in_e s - 1)))) (\<lambda>(e, w, c).
       if e \<noteq> w \<and> c \<noteq> 10 then
         kseq (kmod (in_e_update (\<lambda>e. e - 1))) (kseq (consputc BACKSPACE) (kret (Inl ())))
       else kret (Inr ()))) ())"

definition input_key :: "int \<Rightarrow> (unit, 'z console_scheme) K" where
  "input_key c = kbind (kget (\<lambda>s. (in_r s, in_w s, in_e s))) (\<lambda>(r, w, e).
     if c = 16 then kret ()
     else if c = 21 then kill_line
     else if c = 8 \<or> c = 127 then
       kwhen (e \<noteq> w) (kseq (kmod (in_e_update (\<lambda>e. e - 1))) (consputc BACKSPACE))
     else kwhen (c \<noteq> 0 \<and> unat (e - r) < INPUT_BUF)
       (let c = (if c = 13 then 10 else c) in kblock
         [kmod (\<lambda>s. s\<lparr>in_buf := ring_put (in_buf s) e (word_of_int c), in_e := e + 1\<rparr>),
          consputc c,
          kwhen (c = 10 \<or> c = 4 \<or> e + 1 = r + of_nat INPUT_BUF)
            (kseq (kmod (\<lambda>s. s\<lparr>in_w := in_e s\<rparr>)) (wakeup ChInput))]))"

text \<open>
  \<open>keys\<close> are the results of \<open>getc\<close> up to the first negative one, and \<open>frames\<close> the memory
  \<open>procdump\<close> looks for stack frames in.
\<close>

definition consoleintr :: "(u32 \<Rightarrow> u32) \<Rightarrow> int list \<Rightarrow> (unit, 'z console_scheme) K" where
  "consoleintr frames keys = kblock
     [acq LCons,
      kfor keys input_key,
      rel LCons,
      kwhen (16 \<in> set keys) (procdump frames)]"

fun kbd_codes :: "u8 list \<Rightarrow> u32 \<Rightarrow> int list \<times> u32" where
  "kbd_codes [] shift = ([], shift)"
| "kbd_codes (d # ds) shift =
     (let (c, shift) = kbdgetc 1 d shift; (cs, shift) = kbd_codes ds shift in (c # cs, shift))"

definition kbdintr :: "(u32 \<Rightarrow> u32) \<Rightarrow> u8 list \<Rightarrow> (unit, 'z console_scheme) K" where
  "kbdintr frames data = kbind (kget kbd_shift) (\<lambda>sh. let (cs, sh) = kbd_codes data sh in
     kseq (kmod (kbd_shift_update (\<lambda>_. sh))) (consoleintr frames cs))"

text \<open>The UART hands over the bytes received, \<open>data\<close>, if there is one.\<close>

definition uartgetc :: "bool \<Rightarrow> u8 option \<Rightarrow> int" where
  "uartgetc on rx = (if \<not> on then - 1 else case rx of None \<Rightarrow> - 1 | Some b \<Rightarrow> uint b)"

definition uartintr :: "(u32 \<Rightarrow> u32) \<Rightarrow> u8 list \<Rightarrow> (unit, 'z console_scheme) K" where
  "uartintr frames data = kbind (kget uart) (\<lambda>on.
     consoleintr frames (takeWhile (\<lambda>c. 0 \<le> c) (map (\<lambda>b. uartgetc on (Some b)) data)))"

text \<open>\<open>lsr\<close> is what the line status register shows.\<close>

definition uartinit :: "u8 \<Rightarrow> (unit, 'z console_scheme) K" where
  "uartinit lsr = kblock
     [outb 0x3fa 0,
      outb 0x3fb 0x80, outb 0x3f8 (of_nat (115200 div 9600)), outb 0x3f9 0,
      outb 0x3fb 0x03, outb 0x3fc 0, outb 0x3f9 0x01,
      kwhen (lsr \<noteq> 0xFF) (kblock
       [kmod (uart_update (\<lambda>_. True)),
        picenable IRQ_COM1,
        ioapicenable IRQ_COM1 0,
        kfor (chars ''xv6...\<newline>'') (\<lambda>c. uartputc (int c))])]"

section \<open>Reading and writing the console\<close>

text \<open>
  Bytes read are returned to the caller with the count, instead of going through the pointer.
  \<open>None\<close> stands for the return with -1 of a process that was killed while it waited.
\<close>

fun cons_wait :: "(unit, 'z console_scheme) K list \<Rightarrow> nat \<Rightarrow>
    ((unit, 'z console_scheme) K list option, 'z console_scheme) K" where
  "cons_wait es ip = kbind (kget (\<lambda>s. in_r s = in_w s)) (\<lambda>empty.
     if \<not> empty then kret (Some es)
     else with_proc (\<lambda>i. kbind (kget (\<lambda>s. p_killed (procs s ! i))) (\<lambda>killed.
       if killed then kseq (rel LCons) (kseq (ilock (Some ip)) (kret None))
       else case es of
         [] \<Rightarrow> ksleep ChInput LCons
       | e # es' \<Rightarrow> kseq (ksleep_env e ChInput LCons) (cons_wait es' ip))))"

declare cons_wait.simps [simp del]

fun cons_read :: "(unit, 'z console_scheme) K list \<Rightarrow> nat \<Rightarrow> nat \<Rightarrow> nat \<Rightarrow> u8 list \<Rightarrow>
    ((nat \<times> u8 list) option, 'z console_scheme) K" where
  "cons_read es ip target 0 dst = kret (Some (0, dst))"
| "cons_read es ip target (Suc n) dst = kbind (cons_wait es ip) (\<lambda>r. case r of
     None \<Rightarrow> kret None
   | Some es \<Rightarrow> kbind (kget (\<lambda>s. ring_at (in_buf s) (in_r s))) (\<lambda>c.
       kseq (kmod (in_r_update (\<lambda>r. r + 1)))
         (if c = 4 then kseq (kwhen (Suc n < target) (kmod (in_r_update (\<lambda>r. r - 1)))) (kret (Some (Suc n, dst)))
          else if c = 10 then kret (Some (n, dst @ [c]))
          else cons_read es ip target n (dst @ [c]))))"

definition consoleread :: "(unit, 'z console_scheme) K list \<Rightarrow> nat \<Rightarrow> int \<Rightarrow> (int \<times> u8 list, 'z console_scheme) K" where
  "consoleread es ip n = kseq (iunlock (Some ip)) (kseq (acq LCons)
     (kbind (cons_read es ip (nat n) (nat n) []) (\<lambda>r. case r of
        None \<Rightarrow> kret (- 1, [])
      | Some (n', dst) \<Rightarrow> kseq (rel LCons) (kseq (ilock (Some ip)) (kret (int (nat n - n'), dst))))))"

definition consolewrite :: "nat \<Rightarrow> u8 list \<Rightarrow> int \<Rightarrow> (int, 'z console_scheme) K" where
  "consolewrite ip buf n = kseq (kblock
     [iunlock (Some ip),
      acq LCons,
      kfor (take (nat n) buf) (\<lambda>c. consputc (uint (c AND 0xff))),
      rel LCons,
      ilock (Some ip)]) (kret n)"

definition consoleinit :: "(unit, 'z console_scheme) K" where
  "consoleinit = kblock
     [kmod (\<lambda>s. s\<lparr>dev_write := (dev_write s)(CONSOLE := Some Consolewrite),
        dev_read := (dev_read s)(CONSOLE := Some Consoleread)\<rparr>),
      kmod (con_locking_update (\<lambda>_. True)),
      picenable IRQ_KBD,
      ioapicenable IRQ_KBD 0]"

section \<open>Line editing as an abstract machine\<close>

text \<open>
  The abstract input: the bytes committed and not read yet, and the line being edited. A key is
  dropped, edits the line, or ends it.
\<close>

definition kill_spec :: "u8 list \<Rightarrow> u8 list" where
  "kill_spec edit = rev (dropWhile (\<lambda>c. c \<noteq> 10) (rev edit))"

definition key_spec :: "int \<Rightarrow> u8 list \<times> u8 list \<Rightarrow> u8 list \<times> u8 list" where
  "key_spec c = (\<lambda>(ready, edit).
     if c = 16 then (ready, edit)
     else if c = 21 then (ready, kill_spec edit)
     else if c = 8 \<or> c = 127 then (ready, butlast edit)
     else if c = 0 \<or> INPUT_BUF \<le> length ready + length edit then (ready, edit)
     else let c = (if c = 13 then 10 else c); edit = edit @ [word_of_int c]
       in if c = 10 \<or> c = 4 \<or> length ready + length edit = INPUT_BUF then (ready @ edit, [])
          else (ready, edit))"

definition line_abs :: "'z console_scheme \<Rightarrow> u8 list \<times> u8 list" where
  "line_abs s = (ring_list (in_buf s) (in_r s) (in_w s), ring_list (in_buf s) (in_w s) (in_e s))"

definition line_ok :: "'z console_scheme \<Rightarrow> bool" where
  "line_ok s \<longleftrightarrow> ring_ok INPUT_BUF (in_buf s) (in_r s) (in_e s) \<and>
     unat (in_w s - in_r s) \<le> unat (in_e s - in_r s)"

definition screen_ok :: "'z con_scheme \<Rightarrow> bool" where
  "screen_ok s \<longleftrightarrow> \<not> panicked s \<and> crt_pos s < 24 * 80"

lemma line_split: "line_ok s \<Longrightarrow> ring_list (in_buf s) (in_r s) (in_e s) = fst (line_abs s) @ snd (line_abs s)"
  by (simp add: line_ok_def line_abs_def ring_split)

lemma edit_ring:
  assumes "line_ok s"
  shows "ring_ok INPUT_BUF (in_buf s) (in_w s) (in_e s)"
    and "unat (in_e s - in_r s) = unat (in_w s - in_r s) + unat (in_e s - in_w s)"
proof -
  have "unat (in_e s - in_r s) = length (ring_list (in_buf s) (in_r s) (in_e s))" by simp
  also have "\<dots> = unat (in_w s - in_r s) + unat (in_e s - in_w s)"
    unfolding line_split [OF assms] by (simp add: line_abs_def)
  finally show n: "unat (in_e s - in_r s) = unat (in_w s - in_r s) + unat (in_e s - in_w s)" .
  then show "ring_ok INPUT_BUF (in_buf s) (in_w s) (in_e s)"
    using assms by (auto simp: line_ok_def ring_ok_def)
qed

text \<open>Output on the console leaves the input alone.\<close>

lemma consputc_line:
  assumes "screen_ok s"
  shows "\<exists>t. consputc c s = Ok () t \<and> screen_ok t \<and> held t = held s \<and> in_buf t = in_buf s \<and>
    in_r t = in_r s \<and> in_w t = in_w s \<and> in_e t = in_e s"
  using consputc_ok [of s c] assms by (fastforce simp: screen_ok_def)

lemma line_same:
  "in_buf t = in_buf s \<Longrightarrow> in_r t = in_r s \<Longrightarrow> in_w t = in_w s \<Longrightarrow> in_e t = in_e s \<Longrightarrow>
     line_ok t = line_ok s \<and> line_abs t = line_abs s"
  by (simp add: line_ok_def line_abs_def)

text \<open>Rubbing out one character.\<close>

lemma rub_out:
  assumes "line_ok s" and "in_e s \<noteq> in_w s"
  shows "line_ok (s\<lparr>in_e := in_e s - 1\<rparr>)"
    and "snd (line_abs s) = snd (line_abs (s\<lparr>in_e := in_e s - 1\<rparr>)) @ [ring_at (in_buf s) (in_e s - 1)]"
    and "fst (line_abs (s\<lparr>in_e := in_e s - 1\<rparr>)) = fst (line_abs s)"
    and "Suc (unat (in_e s - 1 - in_w s)) = unat (in_e s - in_w s)"
proof -
  note e = edit_ring [OF assms(1)]
  show ab: "snd (line_abs s) = snd (line_abs (s\<lparr>in_e := in_e s - 1\<rparr>)) @ [ring_at (in_buf s) (in_e s - 1)]"
    using ring_unput(1) [OF e(1)] assms(2) by (auto simp: line_abs_def)
  have "length (snd (line_abs s)) = Suc (length (snd (line_abs (s\<lparr>in_e := in_e s - 1\<rparr>))))" using ab by simp
  then show n: "Suc (unat (in_e s - 1 - in_w s)) = unat (in_e s - in_w s)" by (simp add: line_abs_def)
  have ne: "in_r s \<noteq> in_e s" using e(2) n by auto
  have "in_e s - in_r s - 1 = in_e s - 1 - in_r s" by simp
  then have "Suc (unat (in_e s - 1 - in_r s)) = unat (in_e s - in_r s)"
    using unat_dec [of "in_e s - in_r s"] ne by (metis right_minus_eq)
  moreover have "ring_ok INPUT_BUF (in_buf s) (in_r s) (in_e s - 1)"
    using ring_unput(2) assms(1) ne by (auto simp: line_ok_def)
  ultimately show "line_ok (s\<lparr>in_e := in_e s - 1\<rparr>)" using e(2) n by (simp add: line_ok_def)
  show "fst (line_abs (s\<lparr>in_e := in_e s - 1\<rparr>)) = fst (line_abs s)" by (simp add: line_abs_def)
qed

lemma kill_line_refines:
  assumes "screen_ok s" and "line_ok s"
  shows "\<exists>t. kill_line s = Ok () t \<and> screen_ok t \<and> line_ok t \<and> held t = held s \<and>
    line_abs t = (fst (line_abs s), kill_spec (snd (line_abs s)))"
proof -
  let ?I = "\<lambda>(_ :: unit) t. screen_ok t \<and> line_ok t \<and> held t = held s \<and> fst (line_abs t) = fst (line_abs s) \<and>
    kill_spec (snd (line_abs t)) = kill_spec (snd (line_abs s))"
  let ?Q = "\<lambda>(_ :: unit) t. screen_ok t \<and> line_ok t \<and> held t = held s \<and> line_abs t = (fst (line_abs s), kill_spec (snd (line_abs s)))"
  let ?b = "\<lambda>_ :: unit. kbind (kget (\<lambda>s. (in_e s, in_w s, ring_at (in_buf s) (in_e s - 1)))) (\<lambda>(e, w, c).
       if e \<noteq> w \<and> c \<noteq> 10 then
         kseq (kmod (in_e_update (\<lambda>e. e - 1))) (kseq (consputc BACKSPACE) (kret (Inl ())))
       else kret (Inr ())) :: (unit + unit, 'a console_scheme) K"
  have "wp (kloop (Suc (unat (in_e s - in_w s))) ?b ()) ?Q s"
  proof (rule wp_kloop [where I = ?I and measure_of = "\<lambda>_ t. unat (in_e t - in_w t)"])
    show "?I () s" using assms by simp
    show "unat (in_e s - in_w s) < Suc (unat (in_e s - in_w s))" by simp
    fix x :: unit and u :: "'a console_scheme"
    assume I: "?I x u"
    show "wp (?b x) (\<lambda>r t. case r of Inl x' \<Rightarrow> ?I x' t \<and> unat (in_e t - in_w t) < unat (in_e u - in_w u) | Inr y \<Rightarrow> ?Q y t) u"
    proof (cases "in_e u \<noteq> in_w u \<and> ring_at (in_buf u) (in_e u - 1) \<noteq> 10")
      case True
      note r = rub_out [OF _ conjunct1 [OF True]]
      have eq: "in_e_update (\<lambda>e. e - 1) u = u\<lparr>in_e := in_e u - 1\<rparr>" by (cases u) simp
      have "screen_ok (u\<lparr>in_e := in_e u - 1\<rparr>)" using I by (simp add: screen_ok_def crt_pos_def)
      from consputc_line [OF this, of BACKSPACE] obtain t where
        t: "consputc BACKSPACE (u\<lparr>in_e := in_e u - 1\<rparr>) = Ok () t" "screen_ok t" "held t = held u"
        "in_buf t = in_buf u" "in_r t = in_r u" "in_w t = in_w u" "in_e t = in_e u - 1"
        by auto
      have same: "line_ok t = line_ok (u\<lparr>in_e := in_e u - 1\<rparr>) \<and> line_abs t = line_abs (u\<lparr>in_e := in_e u - 1\<rparr>)"
        by (rule line_same) (use t in simp_all)
      have "kill_spec (snd (line_abs t)) = kill_spec (snd (line_abs u))"
        using r(2) I same True by (simp add: kill_spec_def)
      moreover have "unat (in_e t - in_w t) < unat (in_e u - in_w u)" using r(4) I t by simp
      ultimately show ?thesis using True t same r(1,3) I by (simp add: wp_iff eq kseq_def kbind_def)
    next
      case False
      have "snd (line_abs u) = kill_spec (snd (line_abs u))"
      proof (cases "in_e u = in_w u")
        case True
        then show ?thesis by (simp add: line_abs_def kill_spec_def)
      next
        case ne: False
        then show ?thesis using rub_out(2) [OF _ ne] False I by (simp add: kill_spec_def)
      qed
      then show ?thesis using False I by (auto simp: prod_eq_iff)
    qed
  qed
  then show ?thesis by (auto simp: wp_iff kill_line_def)
qed

lemma wakeup_ok: "LPtable \<notin> set (held s) \<Longrightarrow> wakeup c s = Ok () (s\<lparr>procs := map (wake c) (procs s)\<rparr>)"
  by (cases s) (simp add: wakeup_def wakeup_steps_def wakeup1_def acq_apply rel_apply kseq_def kbind_def)

lemma input_key_refines:
  assumes "screen_ok s" and "line_ok s" and "LPtable \<notin> set (held s)"
  shows "\<exists>t. input_key c s = Ok () t \<and> screen_ok t \<and> line_ok t \<and> held t = held s \<and>
    line_abs t = key_spec c (line_abs s)"
proof -
  obtain ready edit where ab: "line_abs s = (ready, edit)" by (cases "line_abs s")
  have len: "length ready = unat (in_w s - in_r s)" "length edit = unat (in_e s - in_w s)"
    using ab by (auto simp: line_abs_def)
  note e = edit_ring [OF assms(2)]
  consider "c = 16" | "c = 21" | "c = 8 \<or> c = 127" | "c \<noteq> 16" "c \<noteq> 21" "c \<noteq> 8" "c \<noteq> 127"
    by blast
  then show ?thesis
  proof cases
    case 1
    then show ?thesis using assms ab by (simp add: input_key_def key_spec_def)
  next
    case 2
    then show ?thesis using kill_line_refines [OF assms(1,2)] ab by (simp add: input_key_def key_spec_def)
  next
    case 3
    show ?thesis
    proof (cases "in_e s = in_w s")
      case True
      then have "edit = []" using len by simp
      then show ?thesis using 3 True assms ab by (auto simp: input_key_def key_spec_def)
    next
      case False
      let ?u = "s\<lparr>in_e := in_e s - 1\<rparr>"
      have eq: "in_e_update (\<lambda>e. e - 1) s = ?u" by (cases s) simp
      have "screen_ok ?u" using assms(1) by (simp add: screen_ok_def crt_pos_def)
      from consputc_line [OF this, of BACKSPACE] obtain t where
        t: "consputc BACKSPACE ?u = Ok () t" "screen_ok t" "held t = held s"
        "in_buf t = in_buf s" "in_r t = in_r s" "in_w t = in_w s" "in_e t = in_e s - 1"
        by auto
      have same: "line_ok t = line_ok ?u \<and> line_abs t = line_abs ?u" by (rule line_same) (use t in simp_all)
      note r = rub_out [OF assms(2) False]
      have "line_abs ?u = (ready, butlast edit)" using r(2,3) ab by (auto simp: prod_eq_iff)
      then show ?thesis using 3 False t same r(1) ab by (auto simp: input_key_def key_spec_def eq)
    qed
  next
    case 4
    show ?thesis
    proof (cases "c \<noteq> 0 \<and> unat (in_e s - in_r s) < INPUT_BUF")
      case False
      then show ?thesis using 4 assms ab len e(2) by (auto simp: input_key_def key_spec_def not_less)
    next
      case True
      define d where "d = (if c = 13 then 10 else c)"
      let ?u = "s\<lparr>in_buf := ring_put (in_buf s) (in_e s) (word_of_int d), in_e := in_e s + 1\<rparr>"
      have "screen_ok ?u" using assms(1) by (simp add: screen_ok_def crt_pos_def)
      from consputc_line [OF this, of d] obtain t where
        t: "consputc d ?u = Ok () t" "screen_ok t" "held t = held s" "in_buf t = in_buf ?u" "in_r t = in_r s"
        "in_w t = in_w s" "in_e t = in_e s + 1"
        by auto
      have rok: "ring_ok INPUT_BUF (in_buf s) (in_r s) (in_e s)" using assms(2) by (simp add: line_ok_def)
      note p = ring_push [OF rok, of "word_of_int d"]
      have short: "unat (in_e s - in_w s) < INPUT_BUF" using True e(2) by linarith
      note q = ring_push [OF e(1) short, of "word_of_int d"]
      have n: "unat (in_e s + 1 - in_r s) = Suc (unat (in_e s - in_r s))"
        using arg_cong [OF p(1), of length] True by simp
      have ready: "ring_list (ring_put (in_buf s) (in_e s) (word_of_int d)) (in_r s) (in_w s) = ready"
      proof -
        have "ring_list (ring_put (in_buf s) (in_e s) (word_of_int d)) (in_r s) (in_e s + 1) =
            ring_list (ring_put (in_buf s) (in_e s) (word_of_int d)) (in_r s) (in_w s) @ edit @ [word_of_int d]"
          using ring_split [of "in_w s" "in_r s" "in_e s + 1"] n e(2) q(1) ab by (simp add: line_abs_def)
        moreover have "ring_list (in_buf s) (in_r s) (in_e s) = ready @ edit" using line_split [OF assms(2)] ab by simp
        ultimately show ?thesis using p(1) True by simp
      qed
      have ab_t: "line_abs t = (ready, edit @ [word_of_int d])"
        using t ready q(1) ab by (simp add: line_abs_def)
      have ok_t: "line_ok t" using t p(2) True n e(2) by (simp add: line_ok_def)
      have full: "in_e s + 1 = in_r s + of_nat INPUT_BUF \<longleftrightarrow> length ready + length (edit @ [word_of_int d :: u8]) = INPUT_BUF"
      proof -
        have "in_e s + 1 = in_r s + of_nat INPUT_BUF \<longleftrightarrow> in_e s + 1 - in_r s = of_nat INPUT_BUF"
          by (auto simp: algebra_simps)
        also have "\<dots> \<longleftrightarrow> unat (in_e s + 1 - in_r s) = INPUT_BUF"
          by (simp add: word_unat_eq_iff INPUT_BUF_def)
        finally show ?thesis using n len e(2) by simp
      qed
      show ?thesis
      proof (cases "d = 10 \<or> d = 4 \<or> in_e s + 1 = in_r s + of_nat INPUT_BUF")
        case False
        then have "input_key c s = Ok () t"
          using 4 True t(1) unfolding input_key_def by (simp add: d_def [symmetric] Let_def kseq_def kbind_def)
        moreover have "key_spec c (ready, edit) = (ready, edit @ [word_of_int d])"
          using 4 True False full len e(2) by (simp add: key_spec_def d_def [symmetric] Let_def)
        ultimately show ?thesis using t ab ab_t ok_t by auto
      next
        case commit: True
        let ?v = "t\<lparr>in_w := in_e t\<rparr>"
        let ?w = "?v\<lparr>procs := map (wake ChInput) (procs t)\<rparr>"
        have "wakeup ChInput ?v = Ok () ?w" using wakeup_ok [of ?v ChInput] t(3) assms(3) by simp
        then have "input_key c s = Ok () ?w"
          using 4 True t(1) commit unfolding input_key_def by (simp add: d_def [symmetric] Let_def kseq_def kbind_def)
        moreover have "line_abs ?w = (ready @ edit @ [word_of_int d], [])"
          using line_split [OF ok_t] ab_t t by (simp add: line_abs_def)
        moreover have "key_spec c (ready, edit) = (ready @ edit @ [word_of_int d], [])"
          using 4 True commit full len e(2) by (simp add: key_spec_def d_def [symmetric] Let_def)
        moreover have "line_ok ?w" using ok_t by (simp add: line_ok_def)
        moreover have "screen_ok ?w" using t(2) by (simp add: screen_ok_def crt_pos_def)
        ultimately show ?thesis using t(3) ab by auto
      qed
    qed
  qed
qed

lemma input_keys_refine:
  "screen_ok s \<Longrightarrow> line_ok s \<Longrightarrow> LPtable \<notin> set (held s) \<Longrightarrow>
     \<exists>t. kfor keys input_key s = Ok () t \<and> screen_ok t \<and> line_ok t \<and> held t = held s \<and>
       line_abs t = fold key_spec keys (line_abs s)"
proof (induction keys arbitrary: s)
  case Nil
  then show ?case by simp
next
  case (Cons c keys)
  obtain t where t: "input_key c s = Ok () t" "screen_ok t" "line_ok t" "held t = held s"
    "line_abs t = key_spec c (line_abs s)"
    using input_key_refines [OF Cons.prems] by blast
  show ?case using Cons.IH [OF t(2,3)] Cons.prems(3) t by (auto simp: kseq_def kbind_def)
qed

text \<open>
  C29. The console interrupt implements line editing: for any keys but control-P, with the screen
  working, \<open>consoleintr\<close> returns, and the committed input and the line being edited are what the
  abstract editor makes of the keys: backspace and control-U touch only the unfinished line, a
  newline, control-D or a full buffer commits it, and a key that finds the 128 bytes full is lost.
\<close>

lemma typing_refines:
  assumes "screen_ok s" and "line_ok s" and "LPtable \<notin> set (held s)" and "LCons \<notin> set (held s)"
    and "16 \<notin> set keys"
  shows "\<exists>t. consoleintr frames keys s = Ok () t \<and> screen_ok t \<and> line_ok t \<and> held t = held s \<and>
    line_abs t = fold key_spec keys (line_abs s)"
proof -
  let ?u = "s\<lparr>held := LCons # held s\<rparr>"
  have "screen_ok ?u" "line_ok ?u" "LPtable \<notin> set (held ?u)" "line_abs ?u = line_abs s"
    using assms by (simp_all add: screen_ok_def crt_pos_def line_ok_def line_abs_def)
  then obtain t where t: "kfor keys input_key ?u = Ok () t" "screen_ok t" "line_ok t" "held t = LCons # held s"
    "line_abs t = fold key_spec keys (line_abs s)"
    using input_keys_refine [of ?u keys] by auto
  have "consoleintr frames keys s = Ok () (t\<lparr>held := held s\<rparr>)"
    using t(1,4) assms(4,5) by (simp add: consoleintr_def kseq_def kbind_def acq_apply rel_apply)
  moreover have "screen_ok (t\<lparr>held := held s\<rparr>)" "line_ok (t\<lparr>held := held s\<rparr>)"
    "line_abs (t\<lparr>held := held s\<rparr>) = line_abs t"
    using t by (simp_all add: screen_ok_def crt_pos_def line_ok_def line_abs_def)
  ultimately show ?thesis using t(5) by auto
qed

text \<open>What a read makes of the committed bytes: \<open>None\<close> if it would have to wait.\<close>

fun read_line :: "nat \<Rightarrow> nat \<Rightarrow> u8 list \<Rightarrow> (nat \<times> u8 list \<times> u8 list) option" where
  "read_line target 0 q = Some (0, [], q)"
| "read_line target (Suc n) [] = None"
| "read_line target (Suc n) (c # q) =
     (if c = 4 then Some (Suc n, [], if Suc n < target then c # q else q)
      else if c = 10 then Some (n, [c], q)
      else map_option (\<lambda>(k, bs, left). (k, c # bs, left)) (read_line target n q))"

lemma take_committed:
  assumes "line_ok s" and "fst (line_abs s) = c # q"
  shows "in_r s \<noteq> in_w s" and "ring_at (in_buf s) (in_r s) = c" and "line_ok (s\<lparr>in_r := in_r s + 1\<rparr>)"
    and "line_abs (s\<lparr>in_r := in_r s + 1\<rparr>) = (q, snd (line_abs s))"
proof -
  have l: "ring_list (in_buf s) (in_r s) (in_w s) = c # q" using assms(2) by (simp add: line_abs_def)
  then show ne: "in_r s \<noteq> in_w s" using ring_list_nil [of "in_buf s" "in_r s" "in_w s"] by auto
  have rok: "ring_ok INPUT_BUF (in_buf s) (in_r s) (in_w s)" "ring_ok INPUT_BUF (in_buf s) (in_r s) (in_e s)"
    using assms(1) by (auto simp: line_ok_def ring_ok_def)
  note p = ring_pop [OF rok(1) ne]
  then show "ring_at (in_buf s) (in_r s) = c" using l by simp
  show ab: "line_abs (s\<lparr>in_r := in_r s + 1\<rparr>) = (q, snd (line_abs s))" using p l by (simp add: line_abs_def)
  have "in_r s \<noteq> in_e s" using l edit_ring(2) [OF assms(1)] by (auto dest!: arg_cong [where f = length])
  note p2 = ring_pop [OF rok(2) this]
  have "Suc (unat (in_w s - (in_r s + 1))) = unat (in_w s - in_r s)"
    "Suc (unat (in_e s - (in_r s + 1))) = unat (in_e s - in_r s)"
    using arg_cong [OF p(1), of length] arg_cong [OF p2(1), of length] by simp_all
  then show "line_ok (s\<lparr>in_r := in_r s + 1\<rparr>)" using assms(1) p2(2) by (simp add: line_ok_def)
qed

lemma cons_read_line:
  "line_ok s \<Longrightarrow> read_line target n (fst (line_abs s)) = Some (k, bs, left) \<Longrightarrow>
     \<exists>r. cons_read es ip target n dst s = Ok (Some (k, dst @ bs)) (s\<lparr>in_r := r\<rparr>) \<and>
       line_ok (s\<lparr>in_r := r\<rparr>) \<and> line_abs (s\<lparr>in_r := r\<rparr>) = (left, snd (line_abs s))"
proof (induction n arbitrary: s dst bs)
  case 0
  then show ?case by (auto intro!: exI [of _ "in_r s"] simp: prod_eq_iff)
next
  case (Suc n)
  obtain c q where cq: "fst (line_abs s) = c # q" using Suc.prems(2) by (cases "fst (line_abs s)") auto
  note t = take_committed [OF Suc.prems(1) cq]
  have up: "in_r_update (\<lambda>r. r + 1) s = s\<lparr>in_r := in_r s + 1\<rparr>" "in_r_update (\<lambda>r. r - 1) (s\<lparr>in_r := in_r s + 1\<rparr>) = s"
    by (cases s; simp)+
  have w: "cons_wait es ip s = Ok (Some es) s" using t(1) by (simp add: cons_wait.simps)
  consider "c = 4" | "c = 10" | "c \<noteq> 4" "c \<noteq> 10" by blast
  then show ?case
  proof cases
    case 1
    show ?thesis
    proof (cases "Suc n < target")
      case True
      then have k: "k = Suc n" "bs = []" "left = c # q" using 1 Suc.prems cq by auto
      have "cons_read es ip target (Suc n) dst s = Ok (Some (k, dst @ bs)) s"
        unfolding k cons_read.simps using True 1 t(2) w by (simp add: up kseq_def kbind_def)
      moreover have "s\<lparr>in_r := in_r s\<rparr> = s" by simp
      ultimately show ?thesis using Suc.prems(1) cq k(3) by (metis prod.collapse)
    next
      case False
      then have k: "k = Suc n" "bs = []" "left = q" using 1 Suc.prems cq by auto
      have "cons_read es ip target (Suc n) dst s = Ok (Some (k, dst @ bs)) (s\<lparr>in_r := in_r s + 1\<rparr>)"
        unfolding k cons_read.simps using False 1 t(2) w by (simp add: up kseq_def kbind_def)
      then show ?thesis using t(3,4) k(3) by blast
    qed
  next
    case 2
    then have k: "k = n" "bs = [c]" "left = q" using Suc.prems cq by auto
    have "cons_read es ip target (Suc n) dst s = Ok (Some (k, dst @ bs)) (s\<lparr>in_r := in_r s + 1\<rparr>)"
      unfolding k cons_read.simps using 2 t(2) w by (simp add: up(1) kseq_def kbind_def)
    then show ?thesis using t(3,4) k(3) by blast
  next
    case 3
    then obtain b' where b: "read_line target n q = Some (k, b', left)" "bs = c # b'"
      using Suc.prems(2) cq by auto
    from Suc.IH [OF t(3), of b' "dst @ [c]"] t(4) b obtain r where
      "cons_read es ip target n (dst @ [c]) (s\<lparr>in_r := in_r s + 1\<rparr>) = Ok (Some (k, (dst @ [c]) @ b')) (s\<lparr>in_r := r\<rparr>)"
      "line_ok (s\<lparr>in_r := r\<rparr>)" "line_abs (s\<lparr>in_r := r\<rparr>) = (left, snd (line_abs s))"
      by auto
    moreover from this(1) have "cons_read es ip target (Suc n) dst s = Ok (Some (k, dst @ bs)) (s\<lparr>in_r := r\<rparr>)"
      unfolding b(2) cons_read.simps using 3 t(2) w by (simp add: up(1) kseq_def kbind_def)
    ultimately show ?thesis by blast
  qed
qed

text \<open>
  C30. A read of the console returns what the abstract editor has committed: up to and with a
  newline, or up to a control-D (which is kept for the next read when some bytes came before it), or
  as many bytes as asked for; it takes exactly those bytes and leaves the line being edited alone.
\<close>

lemma consoleread_line:
  assumes "line_ok s" and "read_line (nat n) (nat n) (fst (line_abs s)) = Some (k, bs, left)"
    and "i_busy (inodes s ! ip)" and "i_valid (inodes s ! ip)" and "1 \<le> i_ref (inodes s ! ip)" and "ip < length (inodes s)"
    and "held s = []"
  shows "\<exists>t. consoleread es ip n s = Ok (int (nat n - k), bs) t \<and> line_ok t \<and>
    line_abs t = (left, snd (line_abs s)) \<and> inodes t = inodes s"
proof -
  let ?free = "(inodes s)[ip := (inodes s ! ip)\<lparr>i_busy := False\<rparr>]"
  let ?u = "s\<lparr>procs := map (wake (ChInode ip)) (procs s), inodes := ?free\<rparr>"
  have un: "iunlock (Some ip) s = Ok () ?u"
    using assms by (simp add: iunlock_def acq_apply rel_apply wakeup_ok upd_inode_def kseq_def kbind_def not_less)
  let ?v = "?u\<lparr>held := [LCons]\<rparr>"
  have v: "line_ok ?v" "line_abs ?v = line_abs s" using assms(1) by (simp_all add: line_ok_def line_abs_def)
  obtain r where r: "cons_read es ip (nat n) (nat n) [] ?v = Ok (Some (k, bs)) (?v\<lparr>in_r := r\<rparr>)"
    "line_ok (?v\<lparr>in_r := r\<rparr>)" "line_abs (?v\<lparr>in_r := r\<rparr>) = (left, snd (line_abs s))"
    using cons_read_line [OF v(1), of "nat n" "nat n" k bs left es ip "[]"] v(2) assms(2) by auto
  let ?w = "?u\<lparr>in_r := r\<rparr>" let ?t = "?w\<lparr>inodes := inodes s\<rparr>"
  have lock: "ilock (Some ip) ?w = Ok () ?t"
  proof -
    have "(inodes s ! ip)\<lparr>i_busy := True\<rparr> = inodes s ! ip" using assms(3) by (cases "inodes s ! ip") simp
    then have "?free[ip := (?free ! ip)\<lparr>i_busy := True\<rparr>] = inodes s" using assms(6) by simp
    then show ?thesis
      using assms by (simp add: ilock_def acq_apply rel_apply upd_inode_def kseq_def kbind_def not_less)
  qed
  have same: "s\<lparr>procs := p, inodes := x, in_r := r, held := []\<rparr> = s\<lparr>procs := p, inodes := x, in_r := r\<rparr>" for p x
    using assms(7) by (cases s) simp
  have "consoleread es ip n s = Ok (int (nat n - k), bs) ?t"
    using un r(1) lock assms(7) by (simp add: same consoleread_def acq_apply rel_apply kseq_def kbind_def)
  moreover have "line_ok ?t" "line_abs ?t = (left, snd (line_abs s))"
    using r(2,3) by (simp_all add: line_ok_def line_abs_def)
  ultimately show ?thesis by auto
qed

text \<open>The console at boot, locked for a read.\<close>

definition up_console :: "u8 list \<Rightarrow> console" where
  "up_console buf = fs.extend ((up_fs fresh_buf small_disk [some_inode\<lparr>i_busy := True\<rparr>])\<lparr>uart := True\<rparr>)
     \<lparr>in_buf = buf, in_r = 0, in_w = 0, in_e = 0, kbd_shift = 0, dev_read = (\<lambda>_. None), dev_write = (\<lambda>_. None)\<rparr>"

lemma up_console_ok: "length buf = 128 \<Longrightarrow> line_ok (up_console buf)" "screen_ok (up_console buf)"
  "held (up_console buf) = []" "line_abs (up_console buf) = ([], [])"
  by (simp_all add: line_ok_def screen_ok_def line_abs_def up_console_def ring_ok_def INPUT_BUF_def crt_pos_def
    up_fs_def up_log_def small_kmem_def boot_pt_def reset_irqc_def irqc.defs pt.defs kmem.defs log.defs fs.defs)

text \<open>Typing "ab", backspace, "c" and a newline.\<close>

lemma typing_refines_witness:
  "\<exists>t. consoleintr (\<lambda>_. 0) [97, 98, 8, 99, 13] (up_console (replicate 128 0)) = Ok () t \<and>
     line_abs t = ([97, 99, 10], [])"
  using typing_refines [of "up_console (replicate 128 0)" "[97, 98, 8, 99, 13]" "\<lambda>_. 0"] up_console_ok
  by (auto simp: key_spec_def INPUT_BUF_def)

lemma consoleread_line_witness:
  "\<exists>t. consoleread [] 0 10 (up_console (97 # 98 # 10 # 99 # replicate 124 0)\<lparr>in_w := 4, in_e := 4\<rparr>) = Ok (3, [97, 98, 10]) t \<and>
     line_abs t = ([99], [])"
proof -
  let ?s = "up_console (97 # 98 # 10 # 99 # replicate 124 0)\<lparr>in_w := 4, in_e := 4\<rparr>"
  have ok: "line_ok ?s" "line_abs ?s = ([97, 98, 10, 99], [])"
    by (simp_all add: line_ok_def line_abs_def up_console_def ring_ok_def INPUT_BUF_def ring_list_def ring_at_def
      fs.defs upt_rec)
  have three: "read_line t (Suc (Suc (Suc m))) [97, 98, 10, 99] = Some (m, [97, 98, 10 :: u8], [99])" for t m by simp
  have "read_line (nat 10) (nat 10) [97, 98, 10, 99] = Some (7, [97, 98, 10 :: u8], [99])"
    using three [of "nat 10" 7] by simp
  then show ?thesis
    using consoleread_line [OF ok(1), of 10 7 "[97, 98, 10]" "[99]" 0 "[]"] ok(2)
    by (auto simp: up_console_def fs.defs up_fs_def up_log_def kmem.defs log.defs some_inode_def)
qed

end
