(* ===== verification/Fs.thy ===== *)
theory Fs
  imports Input
begin

text \<open>
  kernel/fs.c, the upper half: reading and writing the content of inodes, directories and path
  names. The bytes read are returned with the count, and the bytes to write are an argument, in place
  of the pointer the C code copies through. Path names are byte lists without the final 0; an
  element of a path is the list of its bytes, at most \<open>DIRSIZ\<close> of them.
\<close>

definition DIRSIZ :: nat where "DIRSIZ = 14"
definition ROOTDEV :: nat where "ROOTDEV = 1"
definition ROOTINO :: nat where "ROOTINO = 1"
definition T_DIR :: int where "T_DIR = 1"
definition T_FILE :: int where "T_FILE = 2"
definition T_DEV :: int where "T_DEV = 3"

section \<open>Content\<close>

text \<open>The pieces of \<open>n\<close> bytes from \<open>off\<close> on that lie in one block each: offset and length.\<close>

function pieces :: "nat \<Rightarrow> nat \<Rightarrow> (nat \<times> nat) list" where
  "pieces off n = (if n = 0 then [] else
     let m = min n (BSIZE - off mod BSIZE) in (off, m) # pieces (off + m) (n - m))"
  by pat_completeness auto
termination
  by (relation "measure snd") (simp_all add: BSIZE_def)

declare pieces.simps [simp del]

fun read_pieces :: "nat \<Rightarrow> (nat \<times> nat) list \<Rightarrow> u8 list \<Rightarrow> (u8 list, 'z console_scheme) K" where
  "read_pieces i [] dst = kret dst"
| "read_pieces i ((off, m) # ps) dst = kbind (kget (\<lambda>s. i_dev (inodes s ! i))) (\<lambda>dev.
     kbind (bmap i (off div BSIZE)) (\<lambda>bn. kbind (bread dev bn) (\<lambda>bp. kbind (buf_data bp) (\<lambda>x.
       kseq (brelse bp) (read_pieces i ps (dst @ get_bytes (off mod BSIZE) m x))))))"

definition readi :: "(unit, 'z console_scheme) K list \<Rightarrow> nat \<Rightarrow> nat \<Rightarrow> nat \<Rightarrow> (int \<times> u8 list, 'z console_scheme) K" where
  "readi es i off n = kbind (kget (\<lambda>s. (i_d (inodes s ! i), dev_read s))) (\<lambda>(d, devsw).
     if d_type d = T_DEV then
       (if d_major d < 0 \<or> int NDEV \<le> d_major d then kret (- 1, [])
        else case devsw (nat (d_major d)) of
          None \<Rightarrow> kret (- 1, [])
        | Some Consoleread \<Rightarrow> consoleread es i (s32 (int n)))
     else if d_size d < off \<or> u32n (off + n) < off then kret (- 1, [])
     else let n = (if d_size d < u32n (off + n) then d_size d - off else n) in
       kbind (read_pieces i (pieces off n) []) (\<lambda>dst. kret (s32 (int n), dst)))"

definition write_piece :: "nat \<Rightarrow> nat \<Rightarrow> u8 list \<Rightarrow> (unit, 'z console_scheme) K" where
  "write_piece i off src = kbind (kget (\<lambda>s. i_dev (inodes s ! i))) (\<lambda>dev.
     kbind (bmap i (off div BSIZE)) (\<lambda>bn. kbind (bread dev bn) (\<lambda>bp. kbind (buf_data bp) (\<lambda>x. kblock
       [set_data bp (put_bytes (off mod BSIZE) src x), log_write bp, brelse bp]))))"

definition writei :: "nat \<Rightarrow> u8 list \<Rightarrow> nat \<Rightarrow> nat \<Rightarrow> (int, 'z console_scheme) K" where
  "writei i src off n = kbind (kget (\<lambda>s. (i_d (inodes s ! i), dev_write s))) (\<lambda>(d, devsw).
     if d_type d = T_DEV then
       (if d_major d < 0 \<or> int NDEV \<le> d_major d then kret (- 1)
        else case devsw (nat (d_major d)) of
          None \<Rightarrow> kret (- 1)
        | Some Consolewrite \<Rightarrow> consolewrite i src (s32 (int n)))
     else if d_size d < off \<or> u32n (off + n) < off then kret (- 1)
     else if MAXFILE * BSIZE < u32n (off + n) then kret (- 1)
     else kseq (kblock
       [kfor (pieces off n) (\<lambda>(o', m). write_piece i o' (take m (drop (o' - off) src))),
        kbind (kget (\<lambda>s. d_size (i_d (inodes s ! i)))) (\<lambda>size.
          kwhen (0 < n \<and> size < off + n) (kseq (kmod (upd_d i (\<lambda>d. d\<lparr>d_size := off + n\<rparr>))) (iupdate i)))])
       (kret (s32 (int n))))"

section \<open>Directories\<close>

text \<open>A directory entry is 16 bytes: an inode number and a name padded with zeros.\<close>

definition de_inum :: "u8 list \<Rightarrow> nat" where
  "de_inum de = get_le 2 de 0"

definition de_name :: "u8 list \<Rightarrow> u8 list" where
  "de_name de = get_bytes 2 DIRSIZ de"

definition dirent_bytes :: "nat \<Rightarrow> ptr \<Rightarrow> u8 list" where
  "dirent_bytes inum name = le_bytes 2 (inum mod 65536) @ Cmem.strncpy name DIRSIZ"

definition namecmp :: "ptr \<Rightarrow> ptr \<Rightarrow> int" where
  "namecmp s t = Cmem.strncmp s t DIRSIZ"

text \<open>The offsets of the entries of a directory of \<open>size\<close> bytes.\<close>

definition de_offs :: "nat \<Rightarrow> nat list" where
  "de_offs sz = map (\<lambda>k. 16 * k) [0..<(sz + 15) div 16]"

definition read_dirent :: "nat \<Rightarrow> nat \<Rightarrow> (u8 list, 'z console_scheme) K" where
  "read_dirent i off = kbind (readi [] i off 16) (\<lambda>(r, de).
     if r \<noteq> 16 then kpanic ''dirlink read'' else kret de)"

definition dirlookup_turn :: "nat \<Rightarrow> ptr \<Rightarrow> nat \<Rightarrow> ((nat \<times> nat) option, 'z console_scheme) K" where
  "dirlookup_turn i name off = kbind (read_dirent i off) (\<lambda>de.
     if de_inum de = 0 then kret None
     else if namecmp name (of_bytes (de_name de)) = 0 then
       kbind (kget (\<lambda>s. i_dev (inodes s ! i))) (\<lambda>dev.
       kbind (iget dev (de_inum de)) (\<lambda>j. kret (Some (j, off))))
     else kret None)"

text \<open>The inode of the entry and the entry's offset.\<close>

definition dirlookup :: "nat \<Rightarrow> ptr \<Rightarrow> ((nat \<times> nat) option, 'z console_scheme) K" where
  "dirlookup i name = kbind (kget (\<lambda>s. i_d (inodes s ! i))) (\<lambda>d.
     if d_type d \<noteq> T_DIR then kpanic ''dirlookup not DIR''
     else kfirst (de_offs (d_size d)) (dirlookup_turn i name))"

definition free_dirent :: "nat \<Rightarrow> nat \<Rightarrow> (nat option, 'z console_scheme) K" where
  "free_dirent i off = kbind (read_dirent i off) (\<lambda>de.
     kret (if de_inum de = 0 then Some off else None))"

definition dirlink :: "nat \<Rightarrow> ptr \<Rightarrow> nat \<Rightarrow> (int, 'z console_scheme) K" where
  "dirlink i name inum = kbind (dirlookup i name) (\<lambda>r. case r of
     Some (j, off) \<Rightarrow> kseq (iput j) (kret (- 1))
   | None \<Rightarrow> kbind (kget (\<lambda>s. d_size (i_d (inodes s ! i)))) (\<lambda>size.
      kbind (kfirst (de_offs size) (free_dirent i)) (\<lambda>r.
      let off = (case r of Some off \<Rightarrow> off | None \<Rightarrow> 16 * ((size + 15) div 16)) in
      kbind (writei i (dirent_bytes inum name) off 16) (\<lambda>n.
        if n \<noteq> 16 then kpanic ''dirlink'' else kret 0))))"

section \<open>Path names\<close>

text \<open>The path after the next element, and that element; no element gives \<open>None\<close>.\<close>

definition skipelem :: "u8 list \<Rightarrow> (u8 list \<times> u8 list) option" where
  "skipelem path =
     (let path = dropWhile (\<lambda>c. c = 47) path in
      if path = [] then None
      else let s = takeWhile (\<lambda>c. c \<noteq> 47) path; path = dropWhile (\<lambda>c. c \<noteq> 47) path;
               name = (if DIRSIZ \<le> length s then take DIRSIZ s else s)
           in Some (dropWhile (\<lambda>c. c = 47) path, name))"

lemma skipelem_shorter: "skipelem path = Some (left, name) \<Longrightarrow> length left < length path"
proof -
  assume s: "skipelem path = Some (left, name)"
  let ?p = "dropWhile (\<lambda>c. c = 47) path"
  have p: "?p \<noteq> []" "left = dropWhile (\<lambda>c. c = 47) (dropWhile (\<lambda>c. c \<noteq> 47) ?p)"
    using s by (auto simp: skipelem_def Let_def split: if_splits)
  have "hd ?p \<noteq> 47" using hd_dropWhile [OF p(1)] .
  then have "length (dropWhile (\<lambda>c. c \<noteq> 47) ?p) < length ?p"
    using p(1) by (cases ?p) (auto simp: le_imp_less_Suc length_dropWhile_le)
  moreover have "length left \<le> length (dropWhile (\<lambda>c. c \<noteq> 47) ?p)" "length ?p \<le> length path"
    unfolding p(2) by (rule length_dropWhile_le)+
  ultimately show ?thesis by linarith
qed

text \<open>The walk from inode \<open>i\<close>. The result is the inode and the last element seen, or nothing.\<close>

function namex_walk :: "u8 list \<Rightarrow> bool \<Rightarrow> u8 list \<Rightarrow> nat \<Rightarrow> ((nat \<times> u8 list) option, 'z console_scheme) K" where
  "namex_walk path parent name i = (case skipelem path of
     None \<Rightarrow> if parent then kseq (iput i) (kret None) else kret (Some (i, name))
   | Some (left, name) \<Rightarrow> kseq (ilock (Some i)) (kbind (kget (\<lambda>s. d_type (i_d (inodes s ! i)))) (\<lambda>type.
       if type \<noteq> T_DIR then kseq (iunlockput i) (kret None)
       else if parent \<and> left = [] then kseq (iunlock (Some i)) (kret (Some (i, name)))
       else kbind (dirlookup i (of_bytes name)) (\<lambda>r. case r of
          None \<Rightarrow> kseq (iunlockput i) (kret None)
        | Some (next, _) \<Rightarrow> kseq (iunlockput i) (namex_walk left parent name next)))))"
  by pat_completeness auto
termination
  by (relation "measure (\<lambda>(path, parent, name, i). length path)") (auto simp: skipelem_shorter)

declare namex_walk.simps [simp del]

definition namex :: "u8 list \<Rightarrow> bool \<Rightarrow> ((nat \<times> u8 list) option, 'z console_scheme) K" where
  "namex path parent = kbind
     (if path \<noteq> [] \<and> hd path = 47 then iget ROOTDEV ROOTINO
      else with_proc (\<lambda>p. kbind (kget (\<lambda>s. p_cwd (procs s ! p))) (\<lambda>cwd.
        case cwd of None \<Rightarrow> kundef | Some i \<Rightarrow> idup i)))
     (namex_walk path parent [])"

definition namei :: "u8 list \<Rightarrow> (nat option, 'z console_scheme) K" where
  "namei path = kbind (namex path False) (\<lambda>r. kret (map_option fst r))"

definition nameiparent :: "u8 list \<Rightarrow> ((nat \<times> u8 list) option, 'z console_scheme) K" where
  "nameiparent path = namex path True"

section \<open>The abstract file\<close>

text \<open>
  The address of block \<open>bn\<close> of a file, and byte \<open>k\<close> of its content, as the block map says. A file is
  in order up to block \<open>nb\<close> when these blocks are on the device, different from each other and from
  the block the indirect addresses are in.
\<close>

definition baddr :: "(nat \<Rightarrow> block) \<Rightarrow> dinode \<Rightarrow> nat \<Rightarrow> nat" where
  "baddr V d bn = (if bn < NDIRECT then d_addrs d ! bn else word_at (V (d_addrs d ! NDIRECT)) (bn - NDIRECT))"

definition file_byte :: "(nat \<Rightarrow> block) \<Rightarrow> dinode \<Rightarrow> nat \<Rightarrow> u8" where
  "file_byte V d k = V (baddr V d (k div BSIZE)) ! (k mod BSIZE)"

definition file_ok :: "(nat \<Rightarrow> block) \<Rightarrow> dinode \<Rightarrow> nat \<Rightarrow> bool" where
  "file_ok V d nb \<longleftrightarrow> length (d_addrs d) = NDIRECT + 1 \<and> nb \<le> MAXFILE \<and>
     (\<forall>bn < nb. baddr V d bn \<noteq> 0 \<and> baddr V d bn < FSSIZE \<and> length (V (baddr V d bn)) = BSIZE) \<and>
     inj_on (baddr V d) {..<nb} \<and>
     (NDIRECT < nb \<longrightarrow> d_addrs d ! NDIRECT \<noteq> 0 \<and> d_addrs d ! NDIRECT < FSSIZE \<and>
        (\<forall>bn < nb. baddr V d bn \<noteq> d_addrs d ! NDIRECT))"

lemma rest_fs:
  assumes "rest t = rest s"
  shows "fs_sb t = fs_sb s" "inodes t = inodes s" "held t = held s" "lh t = lh s" "outstanding t = outstanding s"
    "log_size t = log_size s"
  using trest_fs [OF trest_rest [OF assms]] rest_log [OF assms] by simp_all

lemma bmap_old:
  assumes bc: "BC d i s V D W Dy {}" "card Dy < NBUF" and ip: "i_dev (inodes s ! j) = d" "i_d (inodes s ! j) = dn"
    and ok: "file_ok V dn nb" "bn < nb"
  shows "\<exists>t. bmap j bn s = Ok (baddr V dn bn) t \<and> BC d i t V D W Dy {} \<and> rest t = rest s"
proof (cases "bn < NDIRECT")
  case True
  then show ?thesis using ok bc ip by (auto simp: bmap_def file_ok_def baddr_def Let_def)
next
  case False
  let ?ind = "d_addrs dn ! NDIRECT" let ?k = "bn - NDIRECT"
  have ind: "?ind \<noteq> 0" "?ind < FSSIZE" "?k < NINDIRECT" and nz: "word_at (V ?ind) ?k \<noteq> 0"
    using ok False by (auto simp: file_ok_def baddr_def MAXFILE_def)
  obtain h t v where "bread d ?ind s = Ok h t" "buf_data h t = Ok (V ?ind) t" "brelse h t = Ok () v"
    "BC d i v V D W Dy {}" "rest v = rest s"
    using cache.read_steps [OF bc(1) ind(2)] bc(2) by blast
  moreover from this have "bmap j bn s = Ok (baddr V dn bn) v"
    using False ind(1,3) nz ip by (simp add: bmap_def Let_def baddr_def kbind_def kseq_def)
  ultimately show ?thesis by blast
qed

text \<open>What the pieces of a range are.\<close>

lemma piece_bounds:
  "(off', m) \<in> set (pieces off n) \<Longrightarrow> off \<le> off' \<and> 0 < m \<and> off' + m \<le> off + n \<and> off' mod BSIZE + m \<le> BSIZE"
proof (induction off n rule: pieces.induct)
  case (1 off n)
  show ?case
  proof (cases "n = 0")
    case True
    then show ?thesis using 1(2) by (simp add: pieces.simps)
  next
    case False
    let ?m = "min n (BSIZE - off mod BSIZE)"
    have lt: "off mod BSIZE < BSIZE" by (simp add: BSIZE_def)
    consider "off' = off" "m = ?m" | "(off', m) \<in> set (pieces (off + ?m) (n - ?m))"
      using 1(2) False by (auto simp: pieces.simps [of off] Let_def)
    then show ?thesis
    proof cases
      case 1
      then show ?thesis using False lt by auto
    next
      case 2
      then show ?thesis using "1.IH" [OF False refl 2] by auto
    qed
  qed
qed

lemma block_of: "r < BSIZE \<Longrightarrow> (q * BSIZE + r) div BSIZE = q \<and> (q * BSIZE + r) mod BSIZE = r"
  by (simp add: BSIZE_def)

lemma block_slice:
  assumes "off mod BSIZE + m \<le> BSIZE" and "length (V (baddr V d (off div BSIZE))) = BSIZE"
  shows "get_bytes (off mod BSIZE) m (V (baddr V d (off div BSIZE))) = map (file_byte V d) [off..<off + m]"
proof (rule nth_equalityI)
  show "length (get_bytes (off mod BSIZE) m (V (baddr V d (off div BSIZE)))) = length (map (file_byte V d) [off..<off + m])"
    using assms by (simp add: get_bytes_def)
  fix k assume "k < length (get_bytes (off mod BSIZE) m (V (baddr V d (off div BSIZE))))"
  then have k: "k < m" using assms by (simp add: get_bytes_def)
  have eq: "off + k = off div BSIZE * BSIZE + (off mod BSIZE + k)" by simp
  have lt: "off mod BSIZE + k < BSIZE" using assms(1) k by simp
  have "(off + k) div BSIZE = off div BSIZE \<and> (off + k) mod BSIZE = off mod BSIZE + k"
    unfolding eq by (rule block_of [OF lt, of "off div BSIZE"])
  then show "get_bytes (off mod BSIZE) m (V (baddr V d (off div BSIZE))) ! k = map (file_byte V d) [off..<off + m] ! k"
    using k assms by (simp add: get_bytes_def file_byte_def)
qed

lemma read_pieces_spec:
  assumes "BC d i s V D W Dy {}" and "card Dy < NBUF" and "i_dev (inodes s ! j) = d" and "i_d (inodes s ! j) = dn"
    and "file_ok V dn nb" and "off + n \<le> nb * BSIZE"
  shows "\<exists>t. read_pieces j (pieces off n) dst s = Ok (dst @ map (file_byte V dn) [off..<off + n]) t \<and>
    BC d i t V D W Dy {} \<and> rest t = rest s"
  using assms
proof (induction off n arbitrary: s dst rule: pieces.induct)
  case (1 off n)
  show ?case
  proof (cases "n = 0")
    case True
    then show ?thesis using "1.prems"(1) by (simp add: pieces.simps)
  next
    case False
    let ?m = "min n (BSIZE - off mod BSIZE)"
    have lt: "off mod BSIZE < BSIZE" "0 < BSIZE" by (simp_all add: BSIZE_def)
    have bn: "off div BSIZE < nb"
      using "1.prems"(6) False by (simp add: div_less_iff_less_mult lt)
    obtain t where t: "bmap j (off div BSIZE) s = Ok (baddr V dn (off div BSIZE)) t" "BC d i t V D W Dy {}"
      "rest t = rest s"
      using bmap_old [OF "1.prems"(1-5) bn] by blast
    have ad: "baddr V dn (off div BSIZE) < FSSIZE" "length (V (baddr V dn (off div BSIZE))) = BSIZE"
      using "1.prems"(5) bn by (auto simp: file_ok_def)
    obtain h u v where u: "bread d (baddr V dn (off div BSIZE)) t = Ok h u"
      "buf_data h u = Ok (V (baddr V dn (off div BSIZE))) u" "brelse h u = Ok () v"
      "BC d i v V D W Dy {}" "rest v = rest t"
      using cache.read_steps [OF t(2) ad(1)] "1.prems"(2) by blast
    have eq: "rest v = rest s" using u(5) t(3) by simp
    have ino: "inodes v = inodes s" using rest_fs(2) [OF eq] .
    have next_ok: "off + ?m + (n - ?m) \<le> nb * BSIZE" using "1.prems"(6) by simp
    have at_v: "i_dev (inodes v ! j) = d" "i_d (inodes v ! j) = dn" using "1.prems"(3,4) ino by simp_all
    let ?dst = "dst @ map (file_byte V dn) [off..<off + ?m]"
    obtain w where w: "read_pieces j (pieces (off + ?m) (n - ?m)) ?dst v =
        Ok (?dst @ map (file_byte V dn) [off + ?m..<off + ?m + (n - ?m)]) w"
      "BC d i w V D W Dy {}" "rest w = rest v"
      using "1.IH" [OF False refl u(4) "1.prems"(2) at_v "1.prems"(5) next_ok, of ?dst] by blast
    have "[off..<off + n] = [off..<off + ?m] @ [off + ?m..<off + ?m + (n - ?m)]"
      using upt_add_eq_append [of off "off + ?m" "n - ?m"] by simp
    then have join: "?dst @ map (file_byte V dn) [off + ?m..<off + ?m + (n - ?m)] = dst @ map (file_byte V dn) [off..<off + n]"
      by simp
    have sl: "get_bytes (off mod BSIZE) ?m (V (baddr V dn (off div BSIZE))) = map (file_byte V dn) [off..<off + ?m]"
      by (rule block_slice [of off ?m V dn, OF _ ad(2)]) (use lt(1) min.cobounded2 [of n "BSIZE - off mod BSIZE"] in linarith)
    have "read_pieces j (pieces off n) dst s = Ok (dst @ map (file_byte V dn) [off..<off + n]) w"
      unfolding join [symmetric] using t(1) u(1-3) w(1) "1.prems"(3) False sl
      by (simp add: pieces.simps [of off] Let_def kbind_def kseq_def)
    then show ?thesis using w(2,3) eq by auto
  qed
qed

text \<open>
  Reading a file returns its bytes: for a file in order, \<open>readi\<close> at offset \<open>off\<close> returns the bytes of the
  block map from \<open>off\<close> on, \<open>n\<close> of them or as many as there are up to the size; it changes nothing but the
  buffer cache; and an offset behind the end, or one that wraps around, is refused.
\<close>

lemma readi_run:
  assumes bc: "BC d i s V D W Dy {}" "card Dy < NBUF" and ip: "i_dev (inodes s ! j) = d" "i_d (inodes s ! j) = dn"
    and fl: "d_type dn \<noteq> T_DEV" "file_ok V dn nb" "d_size dn \<le> nb * BSIZE"
    and small: "off < 2 ^ 32" "n < 2 ^ 31"
  shows "\<exists>t. readi es j off n s =
      (if off \<le> d_size dn \<and> off + n < 2 ^ 32
       then Ok (int (min n (d_size dn - off)), map (file_byte V dn) [off..<min (off + n) (d_size dn)]) t
       else Ok (- 1, []) s) \<and> BC d i t V D W Dy {} \<and> rest t = rest s"
proof (cases "off \<le> d_size dn \<and> off + n < 2 ^ 32")
  case True
  let ?n = "min n (d_size dn - off)"
  have n: "(if d_size dn < off + n then d_size dn - off else n) = ?n" "off + ?n = min (off + n) (d_size dn)" using True by auto
  have u: "u32n (off + n) = off + n" using True by (simp add: u32n_def)
  have m: "s32 (int ?n) = int ?n" using small(2) by (simp add: s32_def)
  obtain t where t: "read_pieces j (pieces off ?n) [] s = Ok ([] @ map (file_byte V dn) [off..<off + ?n]) t"
    "BC d i t V D W Dy {}" "rest t = rest s"
    using read_pieces_spec [OF bc ip fl(2), of off ?n "[]"] n(2) fl(3) by fastforce
  have "readi es j off n s = Ok (int ?n, map (file_byte V dn) [off..<min (off + n) (d_size dn)]) t"
    using t(1) fl(1) ip True m n by (cases "d_size dn < off + n") (simp_all add: readi_def kbind_def Let_def u min_def)
  then show ?thesis using True t(2,3) by auto
next
  case False
  have "u32n (off + n) < off" if "\<not> off + n < 2 ^ 32"
  proof -
    have "(off + n) mod 2 ^ 32 = off + n - 2 ^ 32" using that small by (subst mod_if) simp
    then show ?thesis using small that by (simp add: u32n_def)
  qed
  then have "readi es j off n s = Ok (- 1, []) s"
    using False fl(1) ip by (auto simp: readi_def kbind_def Let_def)
  then show ?thesis using False bc(1) by auto
qed

section \<open>Writing\<close>

lemma TX_BC:
  "TX d i s V Bz k \<Longrightarrow> 0 < k \<Longrightarrow> \<exists>D W. BC d i s V D W (set (lh s)) Bz \<and> card (set (lh s)) < NBUF"
  using card_length [of "lh s"] by (auto simp: TX_def LOGSIZE_def NBUF_def)

lemma BC_TX: "TX d i (s :: 'z fs_scheme) V {} k \<Longrightarrow> BC d i t V D W (set (lh s)) {} \<Longrightarrow> rest t = rest s \<Longrightarrow> TX d i t V {} k"
  using rest_fs [of t s] by (auto simp: TX_def)

lemma bmap_TX:
  assumes tx: "TX d i s V {} k" "0 < k" and ip: "i_dev (inodes s ! j) = d" "i_d (inodes s ! j) = dn"
    and ok: "file_ok V dn nb" "bn < nb"
  shows "\<exists>t. bmap j bn s = Ok (baddr V dn bn) t \<and> TX d i t V {} k \<and> rest t = rest s"
proof -
  obtain D W where bc: "BC d i s V D W (set (lh s)) {}" "card (set (lh s)) < NBUF" using TX_BC [OF tx] by blast
  show ?thesis using bmap_old [OF bc ip ok] BC_TX [OF tx(1)] by blast
qed

text \<open>Changing a block of a file in place.\<close>

lemma file_upd:
  assumes ok: "file_ok V d nb" and bn: "bn < nb" and y: "length y = BSIZE" and V': "V' = V(baddr V d bn := y)"
  shows "q < nb \<Longrightarrow> baddr V' d q = baddr V d q" and "file_ok V' d nb"
    and "r < nb * BSIZE \<Longrightarrow> file_byte V' d r = (if r div BSIZE = bn then y ! (r mod BSIZE) else file_byte V d r)"
proof -
  have ba: "baddr V' d q = baddr V d q" if "q < nb" for q
    using ok bn that by (auto simp: baddr_def V' file_ok_def)
  have ij: "baddr V d q = baddr V d bn \<longleftrightarrow> q = bn" if "q < nb" for q
    using ok bn that unfolding file_ok_def by (meson inj_on_eq_iff lessThan_iff)
  show "q < nb \<Longrightarrow> baddr V' d q = baddr V d q" by (rule ba)
  have "inj_on (baddr V' d) {..<nb} \<longleftrightarrow> inj_on (baddr V d) {..<nb}" by (rule inj_on_cong) (simp add: ba)
  then show "file_ok V' d nb" using ok y ba by (auto simp: file_ok_def V')
  show "file_byte V' d r = (if r div BSIZE = bn then y ! (r mod BSIZE) else file_byte V d r)" if "r < nb * BSIZE"
  proof -
    have "r div BSIZE < nb" using that by (simp add: div_less_iff_less_mult BSIZE_def)
    then show ?thesis using ba ij by (simp add: file_byte_def V')
  qed
qed

lemma write_piece_TX:
  assumes tx: "TX d i s V {} (Suc k)" and ip: "i_dev (inodes s ! j) = d" "i_d (inodes s ! j) = dn"
    and ok: "file_ok V dn nb" and off: "off div BSIZE = bn" "bn < nb" and a: "baddr V dn bn = a"
  shows "\<exists>t. write_piece j off src s = Ok () t \<and> TX d i t (V(a := put_bytes (off mod BSIZE) src (V a))) {} k \<and>
    trest t = trest s"
proof -
  obtain t where t: "bmap j bn s = Ok a t" "TX d i t V {} (Suc k)" "rest t = rest s"
    using bmap_TX [OF tx _ ip ok off(2)] a by auto
  have "a < FSSIZE" using ok off(2) a by (auto simp: file_ok_def)
  then obtain u where u: "kbind (bread d a) (\<lambda>h. kbind (buf_data h) (\<lambda>x. kseq (put_logged h (put_bytes (off mod BSIZE) src x)) (brelse h))) t = Ok () u"
    "TX d i u (V(a := put_bytes (off mod BSIZE) src (V a))) {} k" "trest u = trest t"
    using tx.change [OF t(2), of a "put_bytes (off mod BSIZE) src"] by auto
  have "write_piece j off src s = Ok () u"
    using t(1) u(1) ip(1) off(1) unfolding write_piece_def put_logged_block by (simp add: kbind_def)
  then show ?thesis using u(2,3) trest_rest [OF t(3)] by auto
qed

lemma write_pieces_TX:
  assumes "TX d i s V {} (length (pieces off n) + k)" and "i_dev (inodes s ! j) = d" and "i_d (inodes s ! j) = dn"
    and "file_ok V dn nb" and "off + n \<le> nb * BSIZE" and "off0 \<le> off" and "off + n \<le> off0 + length src"
  shows "\<exists>t V'. kfor (pieces off n) (\<lambda>(o', m). write_piece j o' (take m (drop (o' - off0) src))) s = Ok () t \<and>
    TX d i t V' {} k \<and> trest t = trest s \<and> file_ok V' dn nb \<and> (\<forall>q < nb. baddr V' dn q = baddr V dn q) \<and>
    (\<forall>r < nb * BSIZE. file_byte V' dn r = (if off \<le> r \<and> r < off + n then src ! (r - off0) else file_byte V dn r)) \<and>
    (\<forall>b. b \<in> baddr V dn ` {..<nb} \<or> V' b = V b)"
  using assms
proof (induction off n arbitrary: s V rule: pieces.induct)
  case (1 off n)
  show ?case
  proof (cases "n = 0")
    case True
    then show ?thesis using "1.prems"(1,4) by (auto simp: pieces.simps)
  next
    case False
    define m where "m = min n (BSIZE - off mod BSIZE)"
    define bn where "bn = off div BSIZE"
    define a where "a = baddr V dn bn"
    have B: "off mod BSIZE < BSIZE" "0 < BSIZE" by (simp_all add: BSIZE_def)
    have ps: "pieces off n = (off, m) # pieces (off + m) (n - m)"
      using False by (simp add: pieces.simps [of off] m_def Let_def)
    have m: "0 < m" "m \<le> n" "off mod BSIZE + m \<le> BSIZE" using False B(1) by (auto simp: m_def min_def)
    have bn: "bn < nb" using "1.prems"(5) False by (simp add: bn_def div_less_iff_less_mult B)
    let ?src = "take m (drop (off - off0) src)"
    let ?y = "put_bytes (off mod BSIZE) ?src (V a)"
    let ?V = "V(a := ?y)"
    have ls: "length ?src = m" using "1.prems"(6,7) m by simp
    have la: "length (V a) = BSIZE" using "1.prems"(4) bn by (auto simp: file_ok_def a_def)
    have ly: "length ?y = BSIZE" using la ls m(3) by simp
    obtain t where t: "write_piece j off ?src s = Ok () t" "TX d i t ?V {} (length (pieces (off + m) (n - m)) + k)"
      "trest t = trest s"
      using write_piece_TX [OF _ "1.prems"(2-4) bn_def [symmetric] bn a_def [symmetric],
          where src = ?src and i = i and k = "length (pieces (off + m) (n - m)) + k"] "1.prems"(1) ps by auto
    note up = file_upd [OF "1.prems"(4) bn ly, of ?V, folded a_def, OF refl]
    have eq: "inodes t = inodes s" using trest_fs(2) [OF t(3)] .
    have ad: "i_dev (inodes t ! j) = d" "i_d (inodes t ! j) = dn" using eq "1.prems"(2,3) by simp_all
    have le: "off + m + (n - m) = off + n" using m(2) by simp
    have byte: "file_byte ?V dn r = (if off \<le> r \<and> r < off + m then src ! (r - off0) else file_byte V dn r)"
      if r: "r < nb * BSIZE" for r
    proof (cases "r div BSIZE = bn")
      case True
      then have rr: "r = bn * BSIZE + r mod BSIZE" and oo: "off = bn * BSIZE + off mod BSIZE"
        using div_mult_mod_eq [of r BSIZE] div_mult_mod_eq [of off BSIZE] by (simp_all add: bn_def)
      have "?y ! (r mod BSIZE) = (if off mod BSIZE \<le> r mod BSIZE \<and> r mod BSIZE < off mod BSIZE + m
          then ?src ! (r mod BSIZE - off mod BSIZE) else V a ! (r mod BSIZE))"
        using put_bytes_nth [of "off mod BSIZE" ?src "V a" "r mod BSIZE"] ls la m(3) B by simp
      moreover have "off \<le> r \<longleftrightarrow> off mod BSIZE \<le> r mod BSIZE" "r < off + m \<longleftrightarrow> r mod BSIZE < off mod BSIZE + m"
        "r - off = r mod BSIZE - off mod BSIZE"
        using rr oo by linarith+
      moreover have "?src ! (r - off) = src ! (r - off0)" if "off \<le> r" "r < off + m"
        using that "1.prems"(6,7) m(2) by (simp add: nth_take nth_drop)
      moreover have "file_byte ?V dn r = ?y ! (r mod BSIZE)" using up(3) [OF r] True by simp
      moreover have "file_byte V dn r = V a ! (r mod BSIZE)" using True by (simp add: file_byte_def a_def)
      ultimately show ?thesis by metis
    next
      case False
      have "\<not> (off \<le> r \<and> r < off + m)"
      proof
        assume r: "off \<le> r \<and> r < off + m"
        have "off = bn * BSIZE + off mod BSIZE" using div_mult_mod_eq [of off BSIZE] by (simp add: bn_def)
        then have "bn * BSIZE \<le> r" "r < Suc bn * BSIZE" using r m(3) unfolding mult_Suc by linarith+
        then show False using False div_nat_eqI [of BSIZE bn r] B(2) by (simp add: mult.commute)
      qed
      then show ?thesis using up(3) [OF r] False by auto
    qed
    have more: "off + m + (n - m) \<le> nb * BSIZE" "off0 \<le> off + m" "off + m + (n - m) \<le> off0 + length src"
      using le "1.prems"(5-7) by simp_all
    obtain u V' where u: "kfor (pieces (off + m) (n - m)) (\<lambda>(o', m). write_piece j o' (take m (drop (o' - off0) src))) t = Ok () u"
      "TX d i u V' {} k" "trest u = trest t" "file_ok V' dn nb" "\<forall>q < nb. baddr V' dn q = baddr ?V dn q"
      "\<forall>r < nb * BSIZE. file_byte V' dn r = (if off + m \<le> r \<and> r < off + m + (n - m) then src ! (r - off0) else file_byte ?V dn r)"
      "\<forall>b. b \<in> baddr ?V dn ` {..<nb} \<or> V' b = ?V b"
      using "1.IH" [OF False m_def t(2) ad up(2) more] by blast
    have "kfor (pieces off n) (\<lambda>(o', m). write_piece j o' (take m (drop (o' - off0) src))) s = Ok () u"
      using t(1) u(1) by (simp add: ps kseq_def kbind_def)
    moreover have "\<forall>q < nb. baddr V' dn q = baddr V dn q" using u(5) up(1) by simp
    moreover have "file_byte V' dn r = (if off \<le> r \<and> r < off + n then src ! (r - off0) else file_byte V dn r)"
      if "r < nb * BSIZE" for r
      using u(6) byte [OF that] that le m(2) by auto
    moreover have "b \<in> baddr V dn ` {..<nb} \<or> V' b = V b" for b
    proof -
      have "baddr ?V dn ` {..<nb} = baddr V dn ` {..<nb}" using up(1) by auto
      moreover have "a \<in> baddr V dn ` {..<nb}" using bn by (auto simp: a_def)
      ultimately show ?thesis using u(7) by (cases "b = a") auto
    qed
    ultimately show ?thesis using u(2-4) t(3) by (intro exI [of _ u] exI [of _ V']) simp
  qed
qed

lemma size_upd:
  assumes tx: "TX d i s V {} (Suc (Suc k))" and j: "j < length (inodes s)" "i_dev (inodes s ! j) = d" "i_d (inodes s ! j) = dn"
    and ib: "IBLOCK (i_inum (inodes s ! j)) (fs_sb s) = ib" "ib < FSSIZE"
    and dn': "dn' = dn\<lparr>d_size := max (d_size dn) (off + n)\<rparr>" "off \<le> d_size dn"
  shows "\<exists>t y. kbind (kget (\<lambda>s. d_size (i_d (inodes s ! j)))) (\<lambda>size.
      kwhen (0 < n \<and> size < off + n) (kseq (kmod (upd_d j (\<lambda>d. d\<lparr>d_size := off + n\<rparr>))) (iupdate j))) s = Ok () t \<and>
    TX d i t (V(ib := y)) {} (Suc k) \<and> inodes t = (inodes s)[j := (inodes s ! j)\<lparr>i_d := dn'\<rparr>]"
proof (cases "0 < n \<and> d_size dn < off + n")
  case True
  have mx: "max (d_size dn) (off + n) = off + n" using True by simp
  let ?s = "upd_d j (\<lambda>d. d\<lparr>d_size := off + n\<rparr>) s"
  have ino: "inodes ?s = (inodes s)[j := (inodes s ! j)\<lparr>i_d := dn'\<rparr>]" "fs_sb ?s = fs_sb s"
    using j(3) by (simp_all add: dn' mx)
  have txs: "TX d i ?s V {} (Suc (Suc k))" using tx by simp
  obtain t where "iupdate j ?s = Ok () t" "TX d i t (V(ib := put_dinode (i_inum (inodes ?s ! j) mod IPB) (i_d (inodes ?s ! j)) (V ib))) {} (Suc k)"
    "trest t = trest ?s"
    using txfs.iupdate_R [OF txs, of j] j ib ino by auto
  moreover from this have "inodes t = inodes ?s" using trest_fs(2) by blast
  ultimately show ?thesis using True j(3) ino(1) by (auto simp: kbind_def kwhen_def kseq_def)
next
  case False
  then have "dn' = dn" using dn' by (cases dn) (auto simp: max_def)
  moreover have "(inodes s)[j := (inodes s ! j)\<lparr>i_d := dn\<rparr>] = inodes s"
    using j(3) by (metis (no_types, lifting) inode.surjective inode.update_convs(6) list_update_id)
  moreover have "TX d i s (V(ib := V ib)) {} (Suc k)" using TX_less [OF tx, of "Suc k"] by simp
  ultimately show ?thesis using False j(3) by (auto simp: kbind_def kwhen_def intro!: exI [of _ "V ib"])
qed

lemma writei_run:
  assumes tx: "TX d i s V {} (length (pieces off n) + Suc (Suc k))"
    and j: "j < length (inodes s)" "inodes s ! j = ip" "i_dev ip = d" "i_d ip = dn"
    and fl: "d_type dn \<noteq> T_DEV" "file_ok V dn nb" "d_size dn \<le> nb * BSIZE"
    and off: "off \<le> d_size dn" "off + n \<le> nb * BSIZE" "n \<le> length src"
    and ib: "IBLOCK (i_inum ip) (fs_sb s) = ib" "ib < FSSIZE" "ib \<notin> baddr V dn ` {..<nb}" "d_addrs dn ! NDIRECT \<noteq> ib"
    and dn': "dn' = dn\<lparr>d_size := max (d_size dn) (off + n)\<rparr>"
  shows "\<exists>t V'. writei j src off n s = Ok (int n) t \<and> TX d i t V' {} (Suc k) \<and>
    inodes t = (inodes s)[j := ip\<lparr>i_d := dn'\<rparr>] \<and> file_ok V' dn' nb \<and>
    (\<forall>r < nb * BSIZE. file_byte V' dn' r = (if off \<le> r \<and> r < off + n then src ! (r - off) else file_byte V dn r)) \<and>
    (\<forall>b. b = ib \<or> b \<in> baddr V dn ` {..<nb} \<or> V' b = V b)"
proof -
  have nb: "nb * BSIZE \<le> 71680"
    using fl(2) by (auto simp: file_ok_def MAXFILE_def NDIRECT_def NINDIRECT_def BSIZE_def)
  have small: "u32n (off + n) = off + n" "s32 (int n) = int n" "off + n \<le> MAXFILE * BSIZE"
    using nb off(2) fl(2) by (auto simp: u32n_def s32_def file_ok_def intro: order_trans)
  obtain t V1 where t: "kfor (pieces off n) (\<lambda>(o', m). write_piece j o' (take m (drop (o' - off) src))) s = Ok () t"
    "TX d i t V1 {} (Suc (Suc k))" "trest t = trest s" "file_ok V1 dn nb" "\<forall>q < nb. baddr V1 dn q = baddr V dn q"
    "\<forall>r < nb * BSIZE. file_byte V1 dn r = (if off \<le> r \<and> r < off + n then src ! (r - off) else file_byte V dn r)"
    "\<forall>b. b \<in> baddr V dn ` {..<nb} \<or> V1 b = V b"
    using write_pieces_TX [OF tx _ _ fl(2) off(2), of j off src] j off(3) by auto
  have st: "inodes t = inodes s" "fs_sb t = fs_sb s" using trest_fs [OF t(3)] by simp_all
  obtain u y where u: "kbind (kget (\<lambda>s. d_size (i_d (inodes s ! j)))) (\<lambda>size.
      kwhen (0 < n \<and> size < off + n) (kseq (kmod (upd_d j (\<lambda>d. d\<lparr>d_size := off + n\<rparr>))) (iupdate j))) t = Ok () u"
    "TX d i u (V1(ib := y)) {} (Suc k)" "inodes u = (inodes t)[j := (inodes t ! j)\<lparr>i_d := dn'\<rparr>]"
    using size_upd [OF t(2) _ _ _ _ ib(2) dn' off(1), of j] st j ib(1) by auto
  let ?V = "V1(ib := y)"
  have iu: "i_dev (inodes u ! j) = d" "i_d (inodes u ! j) = dn'" using u(3) st j by simp_all
  have run: "writei j src off n s = Ok (int n) u"
    using t(1) u(1) j fl(1) off(1) small by (simp add: writei_def kbind_def kseq_def)
  have ba: "baddr ?V dn' q = baddr V dn q" if "q < nb" for q
    using t(5) ib(4) that by (auto simp: baddr_def dn')
  have fb: "file_byte ?V dn' r = (if off \<le> r \<and> r < off + n then src ! (r - off) else file_byte V dn r)"
    if "r < nb * BSIZE" for r
  proof -
    have "r div BSIZE < nb" using that by (simp add: div_less_iff_less_mult BSIZE_def)
    then have "baddr ?V dn' (r div BSIZE) \<noteq> ib" "baddr ?V dn' (r div BSIZE) = baddr V1 dn (r div BSIZE)"
      using ba ib(3) t(5) by auto
    then show ?thesis using t(6) that by (simp add: file_byte_def)
  qed
  have ij: "inj_on (baddr ?V dn') {..<nb} \<longleftrightarrow> inj_on (baddr V dn) {..<nb}" by (rule inj_on_cong) (simp add: ba)
  have "file_ok ?V dn' nb"
    using ij fl(2) t(4,5) ba ib(3) by (auto simp: file_ok_def dn')
  moreover have "b = ib \<or> b \<in> baddr V dn ` {..<nb} \<or> ?V b = V b" for b using t(7) by auto
  ultimately show ?thesis using run u(2,3) st j fb by (intro exI [of _ u] exI [of _ ?V]) simp
qed

text \<open>
  C9. Writing and reading back: inside a transaction, a write of \<open>n\<close> bytes at an offset not behind the end
  of a file, into blocks the file has, returns \<open>n\<close>; the size grows to cover the write and is not cut;
  every read within the new size then returns the bytes written where the write was and the old
  content elsewhere; and no block but those of the file and the inode's own has changed.
\<close>

lemma write_read:
  assumes tx: "TX d i s V {} (length (pieces off n) + Suc (Suc k))"
    and j: "j < length (inodes s)" "inodes s ! j = ip" "i_dev ip = d" "i_d ip = dn"
    and fl: "d_type dn \<noteq> T_DEV" "file_ok V dn nb" "d_size dn \<le> nb * BSIZE"
    and off: "off \<le> d_size dn" "off + n \<le> nb * BSIZE" "n \<le> length src"
    and ib: "IBLOCK (i_inum ip) (fs_sb s) = ib" "ib < FSSIZE" "ib \<notin> baddr V dn ` {..<nb}" "d_addrs dn ! NDIRECT \<noteq> ib"
  shows "\<exists>t V'. writei j src off n s = Ok (int n) t \<and> TX d i t V' {} (Suc k) \<and>
    d_size (i_d (inodes t ! j)) = max (d_size dn) (off + n) \<and>
    (\<forall>es o' m. o' + m \<le> max (d_size dn) (off + n) \<longrightarrow> (\<exists>u. readi es j o' m t =
       Ok (int m, map (\<lambda>r. if off \<le> r \<and> r < off + n then src ! (r - off) else file_byte V dn r) [o'..<o' + m]) u)) \<and>
    (\<forall>b. b = ib \<or> b \<in> baddr V dn ` {..<nb} \<or> V' b = V b)"
proof -
  define dn' where "dn' = dn\<lparr>d_size := max (d_size dn) (off + n)\<rparr>"
  obtain u V' where u: "writei j src off n s = Ok (int n) u" "TX d i u V' {} (Suc k)"
    "inodes u = (inodes s)[j := ip\<lparr>i_d := dn'\<rparr>]" "file_ok V' dn' nb"
    "\<forall>r < nb * BSIZE. file_byte V' dn' r = (if off \<le> r \<and> r < off + n then src ! (r - off) else file_byte V dn r)"
    "\<forall>b. b = ib \<or> b \<in> baddr V dn ` {..<nb} \<or> V' b = V b"
    using writei_run [OF tx j fl off ib dn'_def] by blast
  have iu: "i_dev (inodes u ! j) = d" "i_d (inodes u ! j) = dn'" using u(3) j by simp_all
  have nb: "nb * BSIZE \<le> 71680"
    using fl(2) by (auto simp: file_ok_def MAXFILE_def NDIRECT_def NINDIRECT_def BSIZE_def)
  have "\<exists>w. readi es j o' m u = Ok (int m, map (\<lambda>r. if off \<le> r \<and> r < off + n then src ! (r - off) else file_byte V dn r) [o'..<o' + m]) w"
    if om: "o' + m \<le> max (d_size dn) (off + n)" for es o' m
  proof -
    obtain D W where bc: "BC d i u V' D W (set (lh u)) {}" "card (set (lh u)) < NBUF" using TX_BC [OF u(2)] by blast
    have sz: "d_size dn' = max (d_size dn) (off + n)" "d_type dn' \<noteq> T_DEV" using fl(1) by (simp_all add: dn'_def)
    have "d_size dn' \<le> nb * BSIZE" "o' < 2 ^ 32" "m < 2 ^ 31" "o' \<le> d_size dn'" "o' + m < 2 ^ 32"
      "min m (d_size dn' - o') = m" "min (o' + m) (d_size dn') = o' + m"
      using om fl(3) off(2) nb sz(1) by auto
    note le = this
    have "map (file_byte V' dn') [o'..<o' + m] =
        map (\<lambda>r. if off \<le> r \<and> r < off + n then src ! (r - off) else file_byte V dn r) [o'..<o' + m]"
      using u(5) om fl(3) off(2) by (intro map_cong) auto
    then show ?thesis using readi_run [OF bc iu sz(2) u(4) le(1-3), of es] le(4-7) by auto
  qed
  then show ?thesis using u(1,2,6) iu(2) by (intro exI [of _ u] exI [of _ V']) (simp add: dn'_def)
qed

text \<open>A transaction on a small file of 700 bytes.\<close>

definition tx_console :: "inode list \<Rightarrow> console" where
  "tx_console l = fs.extend (tx_fs small_disk l)
     \<lparr>in_buf = [], in_r = 0, in_w = 0, in_e = 0, kbd_shift = 0, dev_read = (\<lambda>_. None), dev_write = (\<lambda>_. None)\<rparr>"

lemma tx_console_TX: "TX 1 0 (tx_console l) small_disk {} 20"
proof -
  have "BC 1 0 (tx_console l) = BC 1 0 (tx_fs small_disk l)"
    by (rule BC_same) (simp_all add: tx_console_def fs.defs)
  then show ?thesis using tx_fs_TX [of small_disk l] by (simp add: TX_def tx_console_def fs.defs)
qed

lemma tx_console_sel [simp]: "inodes (tx_console l) = l" "fs_sb (tx_console l) = decode_sb (small_disk 1)"
  using tx_fs_sel [of small_disk l] by (simp_all add: tx_console_def fs.defs)

lemma some_file: "file_ok small_disk (i_d some_inode) 2"
proof -
  have 2: "{..<2} = {0, Suc 0}" by auto
  show ?thesis
    unfolding file_ok_def 2 by (auto simp: baddr_def some_inode_def NDIRECT_def MAXFILE_def less_2_cases_iff FSSIZE_def
      small_disk_def old_disk_def BSIZE_def)
qed

lemma write_read_witness:
  "\<exists>t u. writei 0 (replicate 100 7) 600 100 (tx_console [some_inode]) = Ok 100 t \<and>
     readi [] 0 598 4 t = Ok (4, [0, 0, 7, 7]) u"
proof -
  let ?s = "tx_console [some_inode]" let ?src = "replicate 100 7 :: u8 list"
  have ps: "pieces 600 100 = [(600, 100)]" by (simp add: pieces.simps Let_def BSIZE_def)
  have tx: "TX 1 0 ?s small_disk {} (length (pieces 600 100) + Suc (Suc 17))" using tx_console_TX ps by simp
  have ib: "IBLOCK (i_inum some_inode) (fs_sb ?s) = 33"
    by (simp only: tx_console_sel small_sb) (simp add: IBLOCK_def IPB_def BSIZE_def some_inode_def)
  have ba: "33 \<notin> baddr small_disk (i_d some_inode) ` {..<2}"
    by (auto simp: baddr_def some_inode_def NDIRECT_def less_2_cases_iff)
  obtain t where t: "writei 0 ?src 600 100 ?s = Ok (int 100) t"
    "\<forall>es o' m. o' + m \<le> 700 \<longrightarrow> (\<exists>u. readi es 0 o' m t =
       Ok (int m, map (\<lambda>r. if 600 \<le> r \<and> r < 700 then ?src ! (r - 600) else file_byte small_disk (i_d some_inode) r) [o'..<o' + m]) u)"
    using write_read [OF tx _ _ _ _ _ some_file _ _ _ _ ib _ ba, where j = 0 and src = ?src]
    by (auto simp: some_inode_def T_DEV_def BSIZE_def FSSIZE_def NDIRECT_def)
  have four: "[598..<598 + 4] = [598, 599, 600, 601]" by (simp add: upt_rec)
  have "file_byte small_disk (i_d some_inode) r = 0" if "r = 598 \<or> r = 599" for r
    using that by (auto simp: file_byte_def baddr_def some_inode_def NDIRECT_def BSIZE_def small_disk_def old_disk_def)
  then show ?thesis using t(1) t(2) [rule_format, of 598 4 "[]"]
    by (auto simp: four)
qed

section \<open>Directories as lists of entries\<close>

definition dent :: "(nat \<Rightarrow> block) \<Rightarrow> dinode \<Rightarrow> nat \<Rightarrow> u8 list" where
  "dent V d k = map (file_byte V d) [16 * k..<16 * k + 16]"

text \<open>The first entry, if any, under a name, and the first free one.\<close>

definition dir_find :: "(nat \<Rightarrow> block) \<Rightarrow> dinode \<Rightarrow> nat \<Rightarrow> ptr \<Rightarrow> nat option" where
  "dir_find V d m name = find (\<lambda>k. de_inum (dent V d k) \<noteq> 0 \<and> namecmp name (of_bytes (de_name (dent V d k))) = 0) [0..<m]"

definition dir_slot :: "(nat \<Rightarrow> block) \<Rightarrow> dinode \<Rightarrow> nat \<Rightarrow> nat" where
  "dir_slot V d m = (case find (\<lambda>k. de_inum (dent V d k) = 0) [0..<m] of Some k \<Rightarrow> k | None \<Rightarrow> m)"

lemma kfirst_find:
  assumes "I s" and "\<And>x s. I s \<Longrightarrow> x \<in> set xs \<Longrightarrow> \<exists>t. I t \<and> f x s = (if P x then kbind (g x) (\<lambda>y. kret (Some y)) t else Ok None t)"
  shows "\<exists>t. I t \<and> kfirst xs f s = (case find P xs of None \<Rightarrow> Ok None t | Some x \<Rightarrow> kbind (g x) (\<lambda>y. kret (Some y)) t)"
  using assms
proof (induction xs arbitrary: s)
  case Nil
  then show ?case by auto
next
  case (Cons x xs)
  obtain t where t: "I t" "f x s = (if P x then kbind (g x) (\<lambda>y. kret (Some y)) t else Ok None t)"
    using Cons.prems by fastforce
  show ?case
  proof (cases "P x")
    case True
    then have "kfirst (x # xs) f s = kbind (g x) (\<lambda>y. kret (Some y)) t"
      using t(2) by (simp add: kbind_def split: res.split)
    then show ?thesis using True t(1) by auto
  next
    case False
    then show ?thesis using Cons.IH [OF t(1) Cons.prems(2)] t(2) by (simp add: kbind_def)
  qed
qed

lemma read_dirent_run:
  assumes bc: "BC d i s V D W Dy {}" "card Dy < NBUF" and ip: "i_dev (inodes s ! j) = d" "i_d (inodes s ! j) = dn"
    and fl: "d_type dn = T_DIR" "file_ok V dn nb" "d_size dn \<le> nb * BSIZE" and k: "16 * k + 16 \<le> d_size dn"
  shows "\<exists>t. read_dirent j (16 * k) s = Ok (dent V dn k) t \<and> BC d i t V D W Dy {} \<and> rest t = rest s"
proof -
  have "nb * BSIZE \<le> 71680"
    using fl(2) by (auto simp: file_ok_def MAXFILE_def NDIRECT_def NINDIRECT_def BSIZE_def)
  then have le: "16 * k < 2 ^ 32" "16 * k + 16 < 2 ^ 32" "16 * k \<le> d_size dn"
    "min 16 (d_size dn - 16 * k) = 16" "min (16 * k + 16) (d_size dn) = 16 * k + 16"
    using k fl(3) by auto
  have "d_type dn \<noteq> T_DEV" using fl(1) by (simp add: T_DIR_def T_DEV_def)
  from readi_run [OF bc ip this fl(2,3) le(1), of 16 "[]"] le(2-5) show ?thesis
    by (auto simp: read_dirent_def kbind_def dent_def)
qed

lemma lookup_run:
  assumes bc: "BC d i s V D W Dy {}" "card Dy < NBUF" and ip: "i_dev (inodes s ! j) = d" "i_d (inodes s ! j) = dn"
    and fl: "d_type dn = T_DIR" "file_ok V dn nb" "d_size dn \<le> nb * BSIZE" and m: "d_size dn = 16 * m"
  shows "\<exists>t. BC d i t V D W Dy {} \<and> rest t = rest s \<and> dirlookup j name s = (case dir_find V dn m name of
      None \<Rightarrow> Ok None t
    | Some k \<Rightarrow> kbind (iget d (de_inum (dent V dn k))) (\<lambda>j'. kret (Some (j', 16 * k))) t)"
proof -
  let ?I = "\<lambda>t. BC d i t V D W Dy {} \<and> rest t = rest s"
  let ?P = "\<lambda>k. de_inum (dent V dn k) \<noteq> 0 \<and> namecmp name (of_bytes (de_name (dent V dn k))) = 0"
  let ?g = "\<lambda>k. kbind (iget d (de_inum (dent V dn k))) (\<lambda>j'. kret (j', 16 * k))"
  have turn: "\<exists>v. ?I v \<and> dirlookup_turn j name (16 * k) t = (if ?P k then kbind (?g k) (\<lambda>y. kret (Some y)) v else Ok None v)"
    if I: "?I t" and k: "k < m" for t k
  proof -
    have it: "i_dev (inodes t ! j) = d" "i_d (inodes t ! j) = dn" using I ip rest_fs [of t s] by simp_all
    have "16 * k + 16 \<le> d_size dn" using k m by simp
    then obtain v where v: "read_dirent j (16 * k) t = Ok (dent V dn k) v" "BC d i v V D W Dy {}" "rest v = rest t"
      using read_dirent_run [OF conjunct1 [OF I] bc(2) it fl] by blast
    have "i_dev (inodes v ! j) = d" using v(3) I ip rest_fs [of v s] by simp
    then have "dirlookup_turn j name (16 * k) t = (if ?P k then kbind (?g k) (\<lambda>y. kret (Some y)) v else Ok None v)"
      using v(1) by (simp add: dirlookup_turn_def kbind_def split: res.split)
    then show ?thesis using v I by auto
  qed
  have offs: "de_offs (d_size dn) = map ((*) 16) [0..<m]" by (simp add: de_offs_def m)
  have "kfirst (map ((*) 16) ks) h s = kfirst ks (\<lambda>k. h (16 * k)) s" for ks h
    by (induction ks arbitrary: s) (simp_all add: kbind_def split: res.split option.split)
  note mp = this
  have "\<exists>t. ?I t \<and> kfirst [0..<m] (\<lambda>k. dirlookup_turn j name (16 * k)) s =
      (case find ?P [0..<m] of None \<Rightarrow> Ok None t | Some k \<Rightarrow> kbind (?g k) (\<lambda>y. kret (Some y)) t)"
    by (rule kfirst_find) (use bc(1) turn in auto)
  then obtain t where t: "?I t" "kfirst [0..<m] (\<lambda>k. dirlookup_turn j name (16 * k)) s =
      (case find ?P [0..<m] of None \<Rightarrow> Ok None t | Some k \<Rightarrow> kbind (?g k) (\<lambda>y. kret (Some y)) t)" by blast
  have "dirlookup j name s = kfirst [0..<m] (\<lambda>k. dirlookup_turn j name (16 * k)) s"
    using ip fl(1) by (simp add: dirlookup_def kbind_def offs mp)
  then show ?thesis using t by (intro exI [of _ t]) (simp add: dir_find_def kbind_assoc split: option.split)
qed

lemma namecmp_eq: "namecmp a b = 0 \<longleftrightarrow> (\<forall>i < DIRSIZ. (\<forall>j < i. a j \<noteq> 0) \<longrightarrow> a i = b i)"
  unfolding namecmp_def by (rule strncmp_eq)

lemma namecmp_prefix: "namecmp a b = 0 \<Longrightarrow> i < DIRSIZ \<Longrightarrow> (\<forall>j < i. a j \<noteq> 0) \<longleftrightarrow> (\<forall>j < i. b j \<noteq> 0)"
proof (induction i)
  case (Suc i)
  have "(\<forall>j < i. a j \<noteq> 0) \<Longrightarrow> a i = b i" using Suc.prems by (simp add: namecmp_eq)
  then show ?case using Suc.IH Suc.prems unfolding All_less_Suc by fastforce
qed simp

lemma namecmp_at: "namecmp a b = 0 \<Longrightarrow> i < DIRSIZ \<Longrightarrow> \<forall>j < i. b j \<noteq> 0 \<Longrightarrow> a i = b i"
  using namecmp_prefix [of a b i] namecmp_eq [of a b] by blast

lemma namecmp_sym: "namecmp a b = 0 \<Longrightarrow> namecmp b a = 0"
  using namecmp_at [of a b] namecmp_eq [of b a] by metis

lemma namecmp_trans:
  assumes ab: "namecmp a b = 0" and bc: "namecmp b c = 0"
  shows "namecmp a c = 0"
  unfolding namecmp_eq
proof (intro allI impI)
  fix i assume i: "i < DIRSIZ" "\<forall>j < i. a j \<noteq> 0"
  then have "\<forall>j < i. b j \<noteq> 0" using namecmp_prefix [OF ab] by blast
  then show "a i = c i" using i namecmp_at [OF ab i(1)] bc unfolding namecmp_eq [of b c] by metis
qed

lemma namecmp_new: "namecmp a (of_bytes (de_name (dirent_bytes inum b))) = 0 \<longleftrightarrow> namecmp a b = 0"
proof -
  have eq: "of_bytes (de_name (dirent_bytes inum b)) i = (if \<exists>j \<le> i. b j = 0 then 0 else b i)" if "i < DIRSIZ" for i
    using that by (simp add: de_name_def dirent_bytes_def get_bytes_def of_bytes_def strncpy_nth)
  have "namecmp b (of_bytes (de_name (dirent_bytes inum b))) = 0"
    unfolding namecmp_eq
  proof (intro allI impI)
    fix i assume "i < DIRSIZ" "\<forall>j < i. b j \<noteq> 0"
    then show "b i = of_bytes (de_name (dirent_bytes inum b)) i" using eq [of i] by (metis le_neq_implies_less)
  qed
  then show ?thesis using namecmp_trans namecmp_sym by blast
qed

text \<open>Lookups and the place for a new entry after the entry has been written.\<close>

lemma find_append: "find P (xs @ ys) = (case find P xs of None \<Rightarrow> find P ys | Some x \<Rightarrow> Some x)"
  by (induction xs) simp_all

lemma find_new:
  assumes c: "c \<le> m" "c < m \<Longrightarrow> \<not> P c" and P': "\<And>q. q < max m (Suc c) \<Longrightarrow> P' q \<longleftrightarrow> (if q = c then b else P q)"
    and none: "b \<Longrightarrow> find P [0..<m] = None"
  shows "find P' [0..<max m (Suc c)] = (if b then Some c else find P [0..<m])"
proof (cases b)
  case True
  have "find P' [0..<max m (Suc c)] = Some c"
    unfolding find_Some_iff using True none P' c(1)
    by (intro exI [of _ c]) (auto simp: find_None_iff)
  then show ?thesis using True by simp
next
  case False
  have cong: "find P' [0..<m] = find P [0..<m]"
    by (rule find_cong) (use P' False c in auto)
  show ?thesis
  proof (cases "c < m")
    case True
    then have "max m (Suc c) = m" by simp
    then show ?thesis using cong False by simp
  next
    case 2: False
    then have "c = m" "\<not> P' m" using c(1) P' [of c] False by auto
    moreover have "find P' ([0..<m] @ [m]) = find P' [0..<m]" if "\<not> P' m"
      using that by (cases "find P' [0..<m]") (auto simp: find_append)
    ultimately show ?thesis using cong False by (simp add: max_def)
  qed
qed

lemma slot_run:
  assumes bc: "BC d i s V D W Dy {}" "card Dy < NBUF" and ip: "i_dev (inodes s ! j) = d" "i_d (inodes s ! j) = dn"
    and fl: "d_type dn = T_DIR" "file_ok V dn nb" "d_size dn \<le> nb * BSIZE" and m: "d_size dn = 16 * m"
  shows "\<exists>t. BC d i t V D W Dy {} \<and> rest t = rest s \<and> kfirst (de_offs (d_size dn)) (free_dirent j) s =
    Ok (map_option (\<lambda>k. 16 * k) (find (\<lambda>k. de_inum (dent V dn k) = 0) [0..<m])) t"
proof -
  let ?I = "\<lambda>t. BC d i t V D W Dy {} \<and> rest t = rest s" and ?P = "\<lambda>k. de_inum (dent V dn k) = 0"
  have turn: "\<exists>v. ?I v \<and> free_dirent j (16 * k) t = (if ?P k then kbind (kret (16 * k)) (\<lambda>y. kret (Some y)) v else Ok None v)"
    if I: "?I t" and k: "k < m" for t k
  proof -
    have it: "i_dev (inodes t ! j) = d" "i_d (inodes t ! j) = dn" using I ip rest_fs [of t s] by simp_all
    have "16 * k + 16 \<le> d_size dn" using k m by simp
    then obtain v where "read_dirent j (16 * k) t = Ok (dent V dn k) v" "BC d i v V D W Dy {}" "rest v = rest t"
      using read_dirent_run [OF conjunct1 [OF I] bc(2) it fl] by blast
    then show ?thesis using I by (auto simp: free_dirent_def kbind_def)
  qed
  have "kfirst (map ((*) 16) ks) h s = kfirst ks (\<lambda>k. h (16 * k)) s" for ks h
    by (induction ks arbitrary: s) (simp_all add: kbind_def split: res.split option.split)
  note mp = this
  have "\<exists>t. ?I t \<and> kfirst [0..<m] (\<lambda>k. free_dirent j (16 * k)) s =
      (case find ?P [0..<m] of None \<Rightarrow> Ok None t | Some k \<Rightarrow> kbind (kret (16 * k)) (\<lambda>y. kret (Some y)) t)"
    by (rule kfirst_find) (use bc(1) turn in auto)
  then show ?thesis by (auto simp: de_offs_def m mp split: option.split)
qed

lemma lookup_TX:
  assumes tx: "TX d i s V {} (Suc k)" and ip: "i_dev (inodes s ! j) = d" "i_d (inodes s ! j) = dn"
    and fl: "d_type dn = T_DIR" "file_ok V dn nb" "d_size dn \<le> nb * BSIZE" and m: "d_size dn = 16 * m"
  shows "\<exists>t. TX d i t V {} (Suc k) \<and> rest t = rest s \<and> dirlookup j name s = (case dir_find V dn m name of
      None \<Rightarrow> Ok None t
    | Some k \<Rightarrow> kbind (iget d (de_inum (dent V dn k))) (\<lambda>j'. kret (Some (j', 16 * k))) t)"
proof -
  obtain D W where bc: "BC d i s V D W (set (lh s)) {}" "card (set (lh s)) < NBUF" using TX_BC [OF tx] by blast
  show ?thesis using lookup_run [OF bc ip fl m] BC_TX [OF tx] by blast
qed

lemma slot_TX:
  assumes tx: "TX d i s V {} (Suc k)" and ip: "i_dev (inodes s ! j) = d" "i_d (inodes s ! j) = dn"
    and fl: "d_type dn = T_DIR" "file_ok V dn nb" "d_size dn \<le> nb * BSIZE" and m: "d_size dn = 16 * m"
  shows "\<exists>t. TX d i t V {} (Suc k) \<and> rest t = rest s \<and> kfirst (de_offs (d_size dn)) (free_dirent j) s =
    Ok (map_option (\<lambda>k. 16 * k) (find (\<lambda>k. de_inum (dent V dn k) = 0) [0..<m])) t"
proof -
  obtain D W where bc: "BC d i s V D W (set (lh s)) {}" "card (set (lh s)) < NBUF" using TX_BC [OF tx] by blast
  show ?thesis using slot_run [OF bc ip fl m] BC_TX [OF tx] by blast
qed

lemma find_upt: "find P [0..<m] = Some k \<Longrightarrow> k < m \<and> P k"
  by (auto simp: find_Some_iff)

lemma slot_free: "dir_slot V d m \<le> m \<and> (dir_slot V d m < m \<longrightarrow> de_inum (dent V d (dir_slot V d m)) = 0)"
proof (cases "find (\<lambda>k. de_inum (dent V d k) = 0) [0..<m]")
  case (Some k)
  then show ?thesis using find_upt [OF Some] by (simp add: dir_slot_def)
qed (simp add: dir_slot_def)

text \<open>An entry lies in one block.\<close>

lemma one_piece: "pieces (16 * c) 16 = [(16 * c, 16)]"
proof -
  have "16 * c mod 512 = 16 * (c mod 32)" using mult_mod_right [of 16 c 32] by simp
  then have "16 * c mod 512 + 16 \<le> 512" by simp
  then have "min 16 (BSIZE - 16 * c mod BSIZE) = 16" unfolding BSIZE_def by linarith
  moreover have "pieces (16 * c + 16) 0 = []" by (simp add: pieces.simps)
  ultimately show ?thesis by (simp add: pieces.simps [of "16 * c"] Let_def)
qed

lemma dirent_bytes_facts [simp]: "length (dirent_bytes inum name) = 16"
  "inum < 65536 \<Longrightarrow> de_inum (dirent_bytes inum name) = inum"
  by (simp_all add: dirent_bytes_def DIRSIZ_def de_inum_def get_le_def le_val_bytes)

lemma dent_upd:
  assumes "\<forall>r < b. file_byte V' d' r = (if 16 * c \<le> r \<and> r < 16 * c + 16 then x ! (r - 16 * c) else file_byte V d r)"
    and "length x = 16" and "16 * q + 16 \<le> b"
  shows "dent V' d' q = (if q = c then x else dent V d q)"
proof (rule nth_equalityI)
  fix n assume "n < length (dent V' d' q)"
  then have n: "n < 16" by (simp add: dent_def)
  then have r: "16 * q + n < b" using assms(3) by simp
  have "(16 * c \<le> 16 * q + n \<and> 16 * q + n < 16 * c + 16) \<longleftrightarrow> q = c" using n by auto
  then show "dent V' d' q ! n = (if q = c then x else dent V d q) ! n"
    using assms(1) r n by (auto simp: dent_def)
qed (use assms(2) in \<open>simp add: dent_def\<close>)

text \<open>
  C14. Directories are maps from names to inodes: linking a new name in a directory with room for it
  returns 0 and puts the entry in the first free place, or at the end; after it, looking up that name
  gives the inode and the place, and looking up any other name gives what it gave before. Names
  count up to their first 14 bytes.
\<close>

lemma dirlink_lookup:
  assumes tx: "TX d i s V {} (Suc (Suc (Suc k)))"
    and j: "j < length (inodes s)" "inodes s ! j = ip" "i_dev ip = d" "i_d ip = dn"
    and fl: "d_type dn = T_DIR" "file_ok V dn nb" "d_size dn = 16 * m"
    and ib: "IBLOCK (i_inum ip) (fs_sb s) = ib" "ib < FSSIZE" "ib \<notin> baddr V dn ` {..<nb}" "d_addrs dn ! NDIRECT \<noteq> ib"
    and new: "dir_find V dn m name = None" "0 < inum" "inum < 65536" "16 * max m (Suc (dir_slot V dn m)) \<le> nb * BSIZE"
  shows "\<exists>t. dirlink j name inum s = Ok 0 t \<and> (\<forall>name'. \<exists>u. dirlookup j name' t =
    (if namecmp name' name = 0 then kbind (iget d inum) (\<lambda>j'. kret (Some (j', 16 * dir_slot V dn m))) u
     else case dir_find V dn m name' of None \<Rightarrow> Ok None u
       | Some k \<Rightarrow> kbind (iget d (de_inum (dent V dn k))) (\<lambda>j'. kret (Some (j', 16 * k))) u))"
proof -
  define c where "c = dir_slot V dn m"
  let ?free = "\<lambda>k. de_inum (dent V dn k) = 0"
  have c: "c \<le> m" "c < m \<Longrightarrow> ?free c"
    using slot_free [of V dn m] by (simp_all add: c_def)
  have room: "16 * m \<le> nb * BSIZE" "16 * Suc c \<le> nb * BSIZE" using new(4) by (auto simp: c_def max_def split: if_splits)
  have sz: "d_size dn \<le> nb * BSIZE" using fl(3) room by simp
  have ip: "i_dev (inodes s ! j) = d" "i_d (inodes s ! j) = dn" using j by simp_all
  obtain t where t: "TX d i t V {} (Suc (Suc (Suc k)))" "rest t = rest s" "dirlookup j name s = Ok None t"
    using lookup_TX [OF tx ip fl(1,2) sz fl(3), of name] new(1) by auto
  have st: "inodes t = inodes s" "fs_sb t = fs_sb s" using rest_fs [OF t(2)] by simp_all
  have it: "i_dev (inodes t ! j) = d" "i_d (inodes t ! j) = dn" using st j by simp_all
  obtain u where u: "TX d i u V {} (Suc (Suc (Suc k)))" "rest u = rest t"
    "kfirst (de_offs (d_size dn)) (free_dirent j) t = Ok (map_option (\<lambda>k. 16 * k) (find ?free [0..<m])) u"
    using slot_TX [OF t(1) it fl(1,2) sz fl(3)] by auto
  have su: "inodes u = inodes s" "fs_sb u = fs_sb s" using rest_fs [OF u(2)] st by simp_all
  let ?x = "dirent_bytes inum name"
  define dn' where "dn' = dn\<lparr>d_size := max (d_size dn) (16 * c + 16)\<rparr>"
  let ?m' = "max m (Suc c)"
  have sz': "d_size dn' = 16 * ?m'" "d_type dn' = T_DIR" "d_size dn' \<le> nb * BSIZE"
    using fl(1,3) room by (auto simp: dn'_def max_def)
  have tu: "TX d i u V {} (length (pieces (16 * c) 16) + Suc (Suc k))" using u(1) by (simp add: one_piece)
  have ty: "d_type dn \<noteq> T_DEV" using fl(1) by (simp add: T_DIR_def T_DEV_def)
  have at: "16 * c \<le> d_size dn" "16 * c + 16 \<le> nb * BSIZE" "16 \<le> length ?x" using c(1) fl(3) room by simp_all
  have ju: "j < length (inodes u)" "inodes u ! j = ip" "IBLOCK (i_inum ip) (fs_sb u) = ib" using j su ib(1) by simp_all
  obtain v V' where v: "writei j ?x (16 * c) 16 u = Ok (int 16) v" "TX d i v V' {} (Suc k)"
    "inodes v = (inodes s)[j := ip\<lparr>i_d := dn'\<rparr>]" "file_ok V' dn' nb"
    "\<forall>r < nb * BSIZE. file_byte V' dn' r = (if 16 * c \<le> r \<and> r < 16 * c + 16 then ?x ! (r - 16 * c) else file_byte V dn r)"
    using writei_run [OF tu ju(1,2) j(3,4) ty fl(2) sz at ju(3) ib(2-4) dn'_def] su(1) by auto
  have off: "(case map_option (\<lambda>k. 16 * k) (find ?free [0..<m]) of Some off \<Rightarrow> off
      | None \<Rightarrow> 16 * ((d_size (i_d (inodes t ! j)) + 15) div 16)) = 16 * c"
    by (auto simp: c_def dir_slot_def fl(3) it(2) split: option.split)
  have run: "dirlink j name inum s = Ok 0 v"
    using t(3) u(3) v(1) off it(2) by (simp add: dirlink_def kbind_def Let_def)
  have iv: "i_dev (inodes v ! j) = d" "i_d (inodes v ! j) = dn'" using v(3) j by simp_all
  have dent: "dent V' dn' q = (if q = c then ?x else dent V dn q)" if "q < ?m'" for q
    using dent_upd [OF v(5), of q] that room by (auto simp: max_def split: if_splits)
  have found: "dir_find V' dn' ?m' name' = (if namecmp name' name = 0 then Some c else dir_find V dn m name')" for name'
    unfolding dir_find_def
  proof (rule find_new [OF c(1)])
    fix q assume q: "q < ?m'"
    show "de_inum (dent V' dn' q) \<noteq> 0 \<and> namecmp name' (of_bytes (de_name (dent V' dn' q))) = 0 \<longleftrightarrow>
      (if q = c then namecmp name' name = 0
       else de_inum (dent V dn q) \<noteq> 0 \<and> namecmp name' (of_bytes (de_name (dent V dn q))) = 0)"
      using dent [OF q] new(2,3) by (simp add: namecmp_new)
  next
    assume same: "namecmp name' name = 0"
    show "find (\<lambda>k. de_inum (dent V dn k) \<noteq> 0 \<and> namecmp name' (of_bytes (de_name (dent V dn k))) = 0) [0..<m] = None"
      using new(1) namecmp_trans [OF namecmp_sym [OF same]] by (auto simp: dir_find_def find_None_iff)
  qed (use c(2) in simp)
  have "\<exists>w. dirlookup j name' v =
      (if namecmp name' name = 0 then kbind (iget d inum) (\<lambda>j'. kret (Some (j', 16 * c))) w
       else case dir_find V dn m name' of None \<Rightarrow> Ok None w
         | Some k \<Rightarrow> kbind (iget d (de_inum (dent V dn k))) (\<lambda>j'. kret (Some (j', 16 * k))) w)" for name'
  proof -
    obtain w where w: "dirlookup j name' v = (case dir_find V' dn' ?m' name' of None \<Rightarrow> Ok None w
        | Some k \<Rightarrow> kbind (iget d (de_inum (dent V' dn' k))) (\<lambda>j'. kret (Some (j', 16 * k))) w)"
      using lookup_TX [OF v(2) iv sz'(2) v(4) sz'(3,1)] by blast
    have "de_inum (dent V' dn' c) = inum" using dent [of c] new(3) by simp
    moreover have "dent V' dn' q = dent V dn q" if "dir_find V dn m name' = Some q" for q
      using that dent [of q] c(2) by (auto simp: dir_find_def find_Some_iff)
    ultimately show ?thesis unfolding w found by (intro exI [of _ w]) (auto split: option.split)
  qed
  then show ?thesis using run unfolding c_def by blast
qed

definition some_dir :: inode where
  "some_dir = some_inode\<lparr>i_d := (i_d some_inode)\<lparr>d_type := 1, d_size := 32\<rparr>\<rparr>"

lemma dirlink_lookup_witness:
  "\<exists>t u. dirlink 0 (of_bytes [97]) 5 (tx_console [some_dir]) = Ok 0 t \<and>
     dirlookup 0 (of_bytes [97]) t = kbind (iget 1 5) (\<lambda>j. kret (Some (j, 0))) u"
proof -
  let ?s = "tx_console [some_dir]" let ?d = "i_d some_dir"
  have tx: "TX 1 0 ?s small_disk {} (Suc (Suc (Suc 17)))" using tx_console_TX by simp
  have ba: "baddr small_disk ?d = baddr small_disk (i_d some_inode)"
    by (rule ext) (simp add: baddr_def some_dir_def)
  have ok: "file_ok small_disk ?d 2"
    using some_file unfolding file_ok_def ba by (simp add: some_dir_def)
  have ib: "IBLOCK (i_inum some_dir) (fs_sb ?s) = 33" "33 \<notin> baddr small_disk ?d ` {..<2}"
    unfolding ba by (simp_all only: tx_console_sel small_sb)
      (auto simp: IBLOCK_def IPB_def BSIZE_def some_dir_def some_inode_def baddr_def NDIRECT_def less_2_cases_iff)
  have "file_byte small_disk ?d r = 0" if "r < 32" for r
    using that by (simp add: file_byte_def ba baddr_def some_dir_def some_inode_def NDIRECT_def BSIZE_def small_disk_def old_disk_def)
  then have "dent small_disk ?d q = replicate 16 0" if "q < 2" for q
    using that by (simp add: dent_def list_eq_iff_nth_eq)
  then have none: "dir_find small_disk ?d 2 (of_bytes [97]) = None" "dir_slot small_disk ?d 2 = 0"
    by (simp_all add: dir_find_def dir_slot_def find_None_iff upt_rec de_inum_def)
  have sd: "i_dev some_dir = 1" "d_type ?d = T_DIR" "d_size ?d = 16 * 2" "d_addrs ?d ! NDIRECT \<noteq> 33"
    by (simp_all add: some_dir_def some_inode_def T_DIR_def NDIRECT_def)
  have rm: "16 * max 2 (Suc (dir_slot small_disk ?d 2)) \<le> 2 * BSIZE" by (simp add: none(2) BSIZE_def)
  have j: "0 < length (inodes ?s)" "inodes ?s ! 0 = some_dir" by simp_all
  have "33 < FSSIZE" "0 < (5 :: nat)" "5 < (65536 :: nat)" by (simp_all add: FSSIZE_def)
  note D = dirlink_lookup [OF tx j sd(1) refl sd(2) ok sd(3) ib(1) this(1) ib(2) sd(4) none(1) this(2,3) rm, unfolded none(2)]
  have eq: "namecmp (of_bytes [97]) (of_bytes [97]) = 0" by (simp add: namecmp_eq)
  have "\<exists>t. P t \<and> (\<forall>n. Q t n) \<Longrightarrow> \<exists>t. P t \<and> Q t a" for P and Q :: "console \<Rightarrow> ptr \<Rightarrow> bool" and a by blast
  from this [OF D, of "of_bytes [97]"] show ?thesis by (simp add: eq)
qed

section \<open>Path names as lists of elements\<close>

text \<open>The parts between slashes, and the elements of a path.\<close>

fun split_at :: "u8 \<Rightarrow> u8 list \<Rightarrow> u8 list list" where
  "split_at c [] = [[]]"
| "split_at c (x # xs) = (if x = c then [] # split_at c xs else (x # hd (split_at c xs)) # tl (split_at c xs))"

definition path_elems :: "u8 list \<Rightarrow> u8 list list" where
  "path_elems path = map (take DIRSIZ) (filter (\<lambda>e. e \<noteq> []) (split_at 47 path))"

fun elem_walk :: "u8 list list \<Rightarrow> bool \<Rightarrow> u8 list \<Rightarrow> nat \<Rightarrow> ((nat \<times> u8 list) option, 'z console_scheme) K" where
  "elem_walk [] parent name i = (if parent then kseq (iput i) (kret None) else kret (Some (i, name)))"
| "elem_walk (e # es) parent name i = kseq (ilock (Some i)) (kbind (kget (\<lambda>s. d_type (i_d (inodes s ! i)))) (\<lambda>type.
     if type \<noteq> T_DIR then kseq (iunlockput i) (kret None)
     else if parent \<and> es = [] then kseq (iunlock (Some i)) (kret (Some (i, e)))
     else kbind (dirlookup i (of_bytes e)) (\<lambda>r. case r of
        None \<Rightarrow> kseq (iunlockput i) (kret None)
      | Some (next, _) \<Rightarrow> kseq (iunlockput i) (elem_walk es parent e next))))"

lemma split_at_ne [simp]: "split_at c xs \<noteq> []"
  by (cases xs) simp_all

lemma split_take_drop:
  "split_at c xs = takeWhile (\<lambda>x. x \<noteq> c) xs #
     (case dropWhile (\<lambda>x. x \<noteq> c) xs of [] \<Rightarrow> [] | _ # ys \<Rightarrow> split_at c ys)"
  by (induction xs) auto

lemma elems_skip: "path_elems (dropWhile (\<lambda>c. c = 47) path) = path_elems path"
  by (induction path) (simp_all add: path_elems_def)

lemma elems_step:
  assumes "path \<noteq> []" and "hd path \<noteq> 47"
  shows "path_elems path = take DIRSIZ (takeWhile (\<lambda>c. c \<noteq> 47) path) # path_elems (dropWhile (\<lambda>c. c \<noteq> 47) path)"
proof -
  have tw: "takeWhile (\<lambda>c. c \<noteq> 47) path \<noteq> []" using assms by (cases path) auto
  show ?thesis
  proof (cases "dropWhile (\<lambda>c. c \<noteq> 47) path")
    case Nil
    then show ?thesis using tw split_take_drop [of 47 path, unfolded Nil]
      by (simp add: path_elems_def del: dropWhile_eq_Nil_conv)
  next
    case (Cons y ys)
    have "y = 47" using hd_dropWhile [of "\<lambda>c. c \<noteq> 47" path] Cons by simp
    then show ?thesis using tw Cons split_take_drop [of 47 path, unfolded Cons] by (simp add: path_elems_def)
  qed
qed

lemma skipelem_elems:
  "(case skipelem path of None \<Rightarrow> path_elems path = []
    | Some (left, name) \<Rightarrow> path_elems path = name # path_elems left \<and> (left = [] \<longleftrightarrow> path_elems left = []))"
proof -
  define p where "p = dropWhile (\<lambda>c. c = 47) path"
  have pe: "path_elems path = path_elems p" unfolding p_def by (rule elems_skip [symmetric])
  show ?thesis
  proof (cases "p = []")
    case True
    then show ?thesis using pe by (simp add: skipelem_def p_def [symmetric] path_elems_def)
  next
    case False
    define l where "l = dropWhile (\<lambda>c. c = 47) (dropWhile (\<lambda>c. c \<noteq> 47) p)"
    have "hd p \<noteq> 47" using hd_dropWhile [of "\<lambda>c. c = 47" path] False by (simp add: p_def)
    then have "path_elems p = take DIRSIZ (takeWhile (\<lambda>c. c \<noteq> 47) p) # path_elems l"
      using elems_step [OF False] elems_skip by (simp add: l_def)
    moreover have "path_elems l \<noteq> []" if "l \<noteq> []"
      using elems_step [OF that] hd_dropWhile [of "\<lambda>c. c = 47" "dropWhile (\<lambda>c. c \<noteq> 47) p"] that by (simp add: l_def)
    moreover have "path_elems [] = []" by (simp add: path_elems_def)
    ultimately show ?thesis using pe False
      by (auto simp: skipelem_def p_def [symmetric] l_def [symmetric] Let_def)
  qed
qed

lemma walk_elems:
  "namex_walk path parent name i = (elem_walk (path_elems path) parent name i :: (_, 'z console_scheme) K)"
proof (induction path parent name i rule: namex_walk.induct)
  case (1 path parent name i)
  show ?case
  proof (cases "skipelem path")
    case None
    then show ?thesis using skipelem_elems [of path] by (simp add: namex_walk.simps [of path])
  next
    case (Some x)
    obtain l e where x: "x = (l, e)" by fastforce
    have el: "path_elems path = e # path_elems l" "l = [] \<longleftrightarrow> path_elems l = []"
      using skipelem_elems [of path] Some x by auto
    note IH = "1.IH" [OF Some x [symmetric], of T_DIR]
    show ?thesis
    proof (cases "parent \<and> l = []")
      case True
      then show ?thesis using el(2) unfolding namex_walk.simps [of path] Some x el(1) by simp
    next
      case False
      then have eq: "namex_walk l parent e = (elem_walk (path_elems l) parent e :: nat \<Rightarrow> (_, 'z console_scheme) K)"
        using IH by (auto simp: fun_eq_iff)
      show ?thesis using el(2) False
        unfolding namex_walk.simps [of path] Some x el(1) option.case prod.case elem_walk.simps eq by auto
    qed
  qed
qed

text \<open>
  C28. The pointer walk of \<open>namex\<close> over a path name is a walk over its elements: the non-empty parts
  between slashes, each cut to 14 bytes, whatever the number and the place of the slashes. It starts
  at the root or the current directory; \<open>nameiparent\<close> stops before the last element and returns it.
\<close>

lemma namex_elements:
  "namex path parent = kbind
     (if path \<noteq> [] \<and> hd path = 47 then iget ROOTDEV ROOTINO
      else with_proc (\<lambda>p. kbind (kget (\<lambda>s. p_cwd (procs s ! p))) (\<lambda>cwd. case cwd of None \<Rightarrow> kundef | Some i \<Rightarrow> idup i)))
     (elem_walk (path_elems path) parent [])"
  unfolding namex_def by (rule arg_cong [where f = "kbind _"]) (rule ext, rule walk_elems)

end
