(* ===== verification/File.thy ===== *)
theory File
  imports Fs
begin

text \<open>
  kernel/file.c and kernel/pipe.c: the table of open files, and pipes. A file is named by its index
  in \<open>ftable.file\<close>, a pipe by the address of the page its structure lives in; using a pipe whose page
  has been freed is undefined. What a read returns goes with the count, and what a write sends is an
  argument. The environments \<open>es\<close> run the rest of the system while a process sleeps on a pipe.
\<close>

section \<open>Data\<close>

definition NFILE :: nat where "NFILE = 100"
definition PIPESIZE :: nat where "PIPESIZE = 512"

datatype ftype = FD_NONE | FD_PIPE | FD_INODE

record ofile =
  f_type :: ftype
  f_ref :: int
  f_readable :: bool
  f_writable :: bool
  f_pipe :: u32
  f_ip :: nat
  f_off :: u32

record pipe =
  pi_data :: "u8 list"
  pi_nread :: u32
  pi_nwrite :: u32
  pi_readopen :: bool
  pi_writeopen :: bool

record files = console +
  ftable :: "ofile list"
  pipes :: "u32 \<Rightarrow> pipe option"

definition upd_file :: "nat \<Rightarrow> (ofile \<Rightarrow> ofile) \<Rightarrow> 'z files_scheme \<Rightarrow> 'z files_scheme" where
  "upd_file i f s = s\<lparr>ftable := (ftable s)[i := f (ftable s ! i)]\<rparr>"

definition upd_pipe :: "u32 \<Rightarrow> (pipe \<Rightarrow> pipe) \<Rightarrow> 'z files_scheme \<Rightarrow> 'z files_scheme" where
  "upd_pipe p f s = s\<lparr>pipes := (pipes s)(p := map_option f (pipes s p))\<rparr>"

definition pipe_get :: "u32 \<Rightarrow> (pipe, 'z files_scheme) K" where
  "pipe_get p = kbind (kget (\<lambda>s. pipes s p)) (\<lambda>r. case r of None \<Rightarrow> kundef | Some pp \<Rightarrow> kret pp)"

section \<open>Pipes\<close>

definition pipeclose :: "u32 \<Rightarrow> bool \<Rightarrow> (unit, 'z files_scheme) K" where
  "pipeclose p writable = kseq (pipe_get p) (kseq (kblock
     [acq (LPipe p),
      if writable then kseq (kmod (upd_pipe p (pi_writeopen_update (\<lambda>_. False)))) (wakeup (ChPipeRead p))
      else kseq (kmod (upd_pipe p (pi_readopen_update (\<lambda>_. False)))) (wakeup (ChPipeWrite p))])
     (kbind (pipe_get p) (\<lambda>pp.
        if \<not> pi_readopen pp \<and> \<not> pi_writeopen pp
        then kblock [rel (LPipe p), kmod (\<lambda>s. s\<lparr>pipes := (pipes s)(p := None)\<rparr>), kfree p]
        else rel (LPipe p))))"

text \<open>Waiting for room: \<open>None\<close> is the return with -1.\<close>

fun pipe_full :: "(unit, 'z files_scheme) K list \<Rightarrow> u32 \<Rightarrow> ((unit, 'z files_scheme) K list option, 'z files_scheme) K" where
  "pipe_full es p = kbind (pipe_get p) (\<lambda>pp.
     if pi_nwrite pp \<noteq> pi_nread pp + of_nat PIPESIZE then kret (Some es)
     else if \<not> pi_readopen pp then kseq (rel (LPipe p)) (kret None)
     else with_proc (\<lambda>i. kbind (kget (\<lambda>s. p_killed (procs s ! i))) (\<lambda>killed.
       if killed then kseq (rel (LPipe p)) (kret None)
       else kseq (wakeup (ChPipeRead p)) (case es of
         [] \<Rightarrow> ksleep (ChPipeWrite p) (LPipe p)
       | e # es' \<Rightarrow> kseq (ksleep_env e (ChPipeWrite p) (LPipe p)) (pipe_full es' p)))))"

declare pipe_full.simps [simp del]

fun pipe_put :: "(unit, 'z files_scheme) K list \<Rightarrow> u32 \<Rightarrow> u8 list \<Rightarrow> (bool, 'z files_scheme) K" where
  "pipe_put es p [] = kret True"
| "pipe_put es p (c # cs) = kbind (pipe_full es p) (\<lambda>r. case r of
     None \<Rightarrow> kret False
   | Some es \<Rightarrow> kseq (kmod (upd_pipe p (\<lambda>pp. pp\<lparr>pi_data := ring_put (pi_data pp) (pi_nwrite pp) c,
       pi_nwrite := pi_nwrite pp + 1\<rparr>))) (pipe_put es p cs))"

definition pipewrite :: "(unit, 'z files_scheme) K list \<Rightarrow> u32 \<Rightarrow> u8 list \<Rightarrow> int \<Rightarrow> (int, 'z files_scheme) K" where
  "pipewrite es p src n = kseq (pipe_get p) (kseq (acq (LPipe p)) (kbind (pipe_put es p (take (nat n) src)) (\<lambda>done.
     if \<not> done then kret (- 1)
     else kseq (wakeup (ChPipeRead p)) (kseq (rel (LPipe p)) (kret n)))))"

text \<open>Waiting for a byte or the end of the file.\<close>

fun pipe_empty :: "(unit, 'z files_scheme) K list \<Rightarrow> u32 \<Rightarrow> (bool, 'z files_scheme) K" where
  "pipe_empty es p = kbind (pipe_get p) (\<lambda>pp.
     if \<not> (pi_nread pp = pi_nwrite pp \<and> pi_writeopen pp) then kret True
     else with_proc (\<lambda>i. kbind (kget (\<lambda>s. p_killed (procs s ! i))) (\<lambda>killed.
       if killed then kseq (rel (LPipe p)) (kret False)
       else (case es of
         [] \<Rightarrow> ksleep (ChPipeRead p) (LPipe p)
       | e # es' \<Rightarrow> kseq (ksleep_env e (ChPipeRead p) (LPipe p)) (pipe_empty es' p)))))"

declare pipe_empty.simps [simp del]

fun pipe_take :: "u32 \<Rightarrow> nat \<Rightarrow> u8 list \<Rightarrow> (u8 list, 'z files_scheme) K" where
  "pipe_take p 0 dst = kret dst"
| "pipe_take p (Suc n) dst = kbind (pipe_get p) (\<lambda>pp.
     if pi_nread pp = pi_nwrite pp then kret dst
     else kseq (kmod (upd_pipe p (pi_nread_update (\<lambda>r. r + 1))))
       (pipe_take p n (dst @ [ring_at (pi_data pp) (pi_nread pp)])))"

definition piperead :: "(unit, 'z files_scheme) K list \<Rightarrow> u32 \<Rightarrow> int \<Rightarrow> (int \<times> u8 list, 'z files_scheme) K" where
  "piperead es p n = kseq (pipe_get p) (kseq (acq (LPipe p)) (kbind (pipe_empty es p) (\<lambda>go.
     if \<not> go then kret (- 1, [])
     else kbind (pipe_take p (nat n) []) (\<lambda>dst.
       kseq (wakeup (ChPipeWrite p)) (kseq (rel (LPipe p)) (kret (int (length dst), dst)))))))"

section \<open>The file table\<close>

definition fileinit :: "(unit, 'z files_scheme) K" where
  "fileinit = kmod (held_update (removeAll LFtable))"

definition filealloc :: "(nat option, 'z files_scheme) K" where
  "filealloc = kseq (acq LFtable) (kbind (kget ftable) (\<lambda>l.
     case first_idx (\<lambda>f. f_ref f = 0) l of
       Some i \<Rightarrow> kseq (kmod (upd_file i (\<lambda>f. f\<lparr>f_ref := 1\<rparr>))) (kseq (rel LFtable) (kret (Some i)))
     | None \<Rightarrow> kseq (rel LFtable) (kret None)))"

definition filedup :: "nat \<Rightarrow> (nat, 'z files_scheme) K" where
  "filedup i = kseq (acq LFtable) (kbind (kget (\<lambda>s. f_ref (ftable s ! i))) (\<lambda>r.
     if r < 1 then kpanic ''filedup''
     else kseq (kmod (upd_file i (\<lambda>f. f\<lparr>f_ref := f_ref f + 1\<rparr>))) (kseq (rel LFtable) (kret i))))"

definition fileclose :: "nat \<Rightarrow> (unit, 'z files_scheme) K" where
  "fileclose i = kseq (acq LFtable) (kbind (kget (\<lambda>s. f_ref (ftable s ! i))) (\<lambda>r.
     if r < 1 then kpanic ''fileclose''
     else if 0 < r - 1 then kseq (kmod (upd_file i (\<lambda>f. f\<lparr>f_ref := r - 1\<rparr>))) (rel LFtable)
     else kbind (kget (\<lambda>s. ftable s ! i)) (\<lambda>ff. kseq (kblock
       [kmod (upd_file i (\<lambda>f. f\<lparr>f_ref := 0, f_type := FD_NONE\<rparr>)),
        rel LFtable])
       (case f_type ff of
          FD_PIPE \<Rightarrow> pipeclose (f_pipe ff) (f_writable ff)
        | FD_INODE \<Rightarrow> kblock [begin_op, iput (f_ip ff), end_op]
        | FD_NONE \<Rightarrow> kret ()))))"

definition filestat :: "nat \<Rightarrow> (stat option, 'z files_scheme) K" where
  "filestat i = kbind (kget (\<lambda>s. ftable s ! i)) (\<lambda>f.
     if f_type f = FD_INODE then
       kseq (ilock (Some (f_ip f))) (kbind (stati (f_ip f)) (\<lambda>st. kseq (iunlock (Some (f_ip f))) (kret (Some st))))
     else kret None)"

text \<open>An int handed on as an unsigned count.\<close>

definition as_uint :: "int \<Rightarrow> nat" where
  "as_uint n = nat (n mod 4294967296)"

definition fileread :: "(unit, 'z files_scheme) K list \<Rightarrow> nat \<Rightarrow> int \<Rightarrow> (int \<times> u8 list, 'z files_scheme) K" where
  "fileread es i n = kbind (kget (\<lambda>s. ftable s ! i)) (\<lambda>f.
     if \<not> f_readable f then kret (- 1, [])
     else case f_type f of
       FD_PIPE \<Rightarrow> piperead es (f_pipe f) n
     | FD_INODE \<Rightarrow> kseq (ilock (Some (f_ip f))) (kbind (readi es (f_ip f) (unat (f_off f)) (as_uint n)) (\<lambda>(r, bs). kseq (kblock
         [kwhen (0 < r) (kmod (upd_file i (f_off_update (\<lambda>o'. o' + of_int r)))),
          iunlock (Some (f_ip f))])
         (kret (r, bs))))
     | FD_NONE \<Rightarrow> kpanic ''fileread'')"

text \<open>One \<open>writei\<close> in a transaction of its own, and the loop over the chunks from byte \<open>k\<close> on.\<close>

definition FILEMAX :: nat where "FILEMAX = ((LOGSIZE - 1 - 1 - 2) div 2) * 512"

definition write_chunk :: "nat \<Rightarrow> nat \<Rightarrow> u8 list \<Rightarrow> nat \<Rightarrow> (int, 'z files_scheme) K" where
  "write_chunk i ip src n1 = kseq (kblock [begin_op, ilock (Some ip)])
     (kbind (kget (\<lambda>s. f_off (ftable s ! i))) (\<lambda>off. kbind (writei ip src (unat off) n1) (\<lambda>r. kseq (kblock
       [kwhen (0 < r) (kmod (upd_file i (f_off_update (\<lambda>o'. o' + of_int r)))),
        iunlock (Some ip),
        end_op])
       (kret r))))"

function write_chunks :: "nat \<Rightarrow> nat \<Rightarrow> u8 list \<Rightarrow> nat \<Rightarrow> nat \<Rightarrow> (nat, 'z files_scheme) K" where
  "write_chunks i ip src n k = (if k < n then
     let n1 = min (n - k) FILEMAX in kbind (write_chunk i ip (drop k src) n1) (\<lambda>r.
       if r < 0 then kret k
       else if r \<noteq> int n1 then kpanic ''short filewrite''
       else write_chunks i ip src n (k + n1))
     else kret k)"
  by pat_completeness auto
termination
  by (relation "measure (\<lambda>(i, ip, src, n, k). n - k)") (auto simp: FILEMAX_def LOGSIZE_def)

declare write_chunks.simps [simp del]

definition filewrite :: "(unit, 'z files_scheme) K list \<Rightarrow> nat \<Rightarrow> u8 list \<Rightarrow> int \<Rightarrow> (int, 'z files_scheme) K" where
  "filewrite es i src n = kbind (kget (\<lambda>s. ftable s ! i)) (\<lambda>f.
     if \<not> f_writable f then kret (- 1)
     else case f_type f of
       FD_PIPE \<Rightarrow> pipewrite es (f_pipe f) src n
     | FD_INODE \<Rightarrow> kbind (write_chunks i (f_ip f) src (nat n) 0) (\<lambda>k. kret (if int k = n then n else - 1))
     | FD_NONE \<Rightarrow> kpanic ''filewrite'')"

text \<open>A pipe comes with two files, one to read from and one to write to. (The bytes of a fresh page are not read before they are written: they are given as zeros.)\<close>

definition new_pipe :: pipe where
  "new_pipe = \<lparr>pi_data = replicate PIPESIZE 0, pi_nread = 0, pi_nwrite = 0, pi_readopen = True, pi_writeopen = True\<rparr>"

definition close_opt :: "nat option \<Rightarrow> (unit, 'z files_scheme) K" where
  "close_opt f = (case f of None \<Rightarrow> kret () | Some i \<Rightarrow> fileclose i)"

definition pipealloc :: "((nat \<times> nat) option, 'z files_scheme) K" where
  "pipealloc = kbind filealloc (\<lambda>f0. case f0 of None \<Rightarrow> kret None | Some i0 \<Rightarrow>
     kbind filealloc (\<lambda>f1. case f1 of None \<Rightarrow> kseq (close_opt f0) (kret None) | Some i1 \<Rightarrow>
     kbind kalloc (\<lambda>p. if p = 0 then kseq (close_opt f0) (kseq (close_opt f1) (kret None))
       else kseq (kblock
         [kmod (\<lambda>s. s\<lparr>pipes := (pipes s)(p \<mapsto> new_pipe)\<rparr>),
          kmod (\<lambda>s. s\<lparr>held := removeAll (LPipe p) (held s)\<rparr>),
          kmod (upd_file i0 (\<lambda>f. f\<lparr>f_type := FD_PIPE, f_readable := True, f_writable := False, f_pipe := p\<rparr>)),
          kmod (upd_file i1 (\<lambda>f. f\<lparr>f_type := FD_PIPE, f_readable := False, f_writable := True, f_pipe := p\<rparr>))])
         (kret (Some (i0, i1))))))"

section \<open>A pipe is a bounded queue\<close>

definition pipe_ok :: "pipe \<Rightarrow> bool" where
  "pipe_ok pp \<longleftrightarrow> ring_ok PIPESIZE (pi_data pp) (pi_nread pp) (pi_nwrite pp)"

definition pipe_content :: "pipe \<Rightarrow> u8 list" where
  "pipe_content pp = ring_list (pi_data pp) (pi_nread pp) (pi_nwrite pp)"

text \<open>The same ends open.\<close>

definition same_ends :: "pipe \<Rightarrow> pipe \<Rightarrow> bool" where
  "same_ends pp pp' \<longleftrightarrow> pi_readopen pp' = pi_readopen pp \<and> pi_writeopen pp' = pi_writeopen pp"

definition with_pipe :: "u32 \<Rightarrow> pipe \<Rightarrow> 'z files_scheme \<Rightarrow> 'z files_scheme" where
  "with_pipe p pp s = s\<lparr>pipes := (pipes s)(p \<mapsto> pp)\<rparr>"

lemma with_pipe_sel [simp]:
  "pipes (with_pipe p pp s) = (pipes s)(p \<mapsto> pp)" "held (with_pipe p pp s) = held s"
  "procs (with_pipe p pp s) = procs s" "curproc (with_pipe p pp s) = curproc s"
  "with_pipe p pp' (with_pipe p pp s) = with_pipe p pp' s"
  by (simp_all add: with_pipe_def)

lemma with_pipe_same: "pipes s p = Some pp \<Longrightarrow> with_pipe p pp s = s"
  by (cases s) (simp add: with_pipe_def fun_upd_idem)

lemma upd_pipe_with: "pipes s p = Some pp \<Longrightarrow> upd_pipe p f s = with_pipe p (f pp) s"
  by (simp add: upd_pipe_def with_pipe_def)

lemma pipe_get_apply [simp]: "pipes s p = Some pp \<Longrightarrow> pipe_get p s = Ok pp s"
  by (simp add: pipe_get_def kbind_def)

lemma pipe_full_iff: "pipe_ok pp \<Longrightarrow> pi_nwrite pp = pi_nread pp + of_nat PIPESIZE \<longleftrightarrow> length (pipe_content pp) = PIPESIZE"
proof -
  have "pi_nwrite pp = pi_nread pp + of_nat PIPESIZE \<longleftrightarrow> pi_nwrite pp - pi_nread pp = 512"
    by (simp add: PIPESIZE_def) (metis add.commute diff_eq_eq)
  also have "\<dots> \<longleftrightarrow> unat (pi_nwrite pp - pi_nread pp) = 512" by (simp add: word_unat_eq_iff)
  finally show ?thesis by (simp add: pipe_content_def PIPESIZE_def)
qed

lemma pipe_content_le: "pipe_ok pp \<Longrightarrow> length (pipe_content pp) \<le> PIPESIZE"
  by (simp add: pipe_ok_def pipe_content_def ring_ok_def)

text \<open>What the loop of \<open>pipewrite\<close> does when nobody else runs.\<close>

lemma pipe_put_room:
  "pipes s p = Some pp \<Longrightarrow> pipe_ok pp \<Longrightarrow> length (pipe_content pp) + length cs \<le> PIPESIZE \<Longrightarrow>
   \<exists>pp'. pipe_put es p cs s = Ok True (with_pipe p pp' s) \<and> pipe_ok pp' \<and> pipe_content pp' = pipe_content pp @ cs \<and> same_ends pp pp'"
proof (induction cs arbitrary: s pp)
  case Nil
  then show ?case by (intro exI [of _ pp]) (simp add: with_pipe_same same_ends_def)
next
  case (Cons c cs)
  have free: "pipe_full es p s = Ok (Some es) s"
    using Cons.prems pipe_full_iff [OF Cons.prems(2)] by (subst pipe_full.simps) (simp add: kbind_def)
  let ?pp = "pp\<lparr>pi_data := ring_put (pi_data pp) (pi_nwrite pp) c, pi_nwrite := pi_nwrite pp + 1\<rparr>"
  have "unat (pi_nwrite pp - pi_nread pp) < PIPESIZE" using Cons.prems(3) by (simp add: pipe_content_def)
  then have pp: "pipe_ok ?pp" "pipe_content ?pp = pipe_content pp @ [c]"
    using ring_push [of PIPESIZE "pi_data pp" "pi_nread pp" "pi_nwrite pp" c] Cons.prems(2)
    by (simp_all add: pipe_ok_def pipe_content_def)
  have "length (pipe_content ?pp) + length cs \<le> PIPESIZE" using Cons.prems(3) pp(2) by simp
  from Cons.IH [OF _ pp(1) this, of "with_pipe p ?pp s"]
  obtain pp' where "pipe_put es p cs (with_pipe p ?pp s) = Ok True (with_pipe p pp' s)" "pipe_ok pp'"
    "pipe_content pp' = pipe_content pp @ c # cs" "same_ends pp pp'"
    using pp(2) by (auto simp: same_ends_def)
  moreover have "pipe_put es p (c # cs) s = pipe_put es p cs (with_pipe p ?pp s)"
    using Cons.prems(1) free by (simp add: kbind_def kseq_def upd_pipe_with)
  ultimately show ?case by auto
qed

lemma pipe_put_full:
  "pipes s p = Some pp \<Longrightarrow> pipe_ok pp \<Longrightarrow> PIPESIZE < length (pipe_content pp) + length cs \<Longrightarrow>
   \<exists>pp'. pipe_put [] p cs s = kbind (pipe_full [] p) (\<lambda>_. kret False) (with_pipe p pp' s) \<and> pipe_ok pp' \<and>
     pipe_content pp' = pipe_content pp @ take (PIPESIZE - length (pipe_content pp)) cs \<and>
     length (pipe_content pp') = PIPESIZE \<and> same_ends pp pp'"
proof (induction cs arbitrary: s pp)
  case Nil
  then show ?case using pipe_content_le by fastforce
next
  case (Cons c cs)
  show ?case
  proof (cases "length (pipe_content pp) = PIPESIZE")
    case True
    then have full: "pi_nwrite pp = pi_nread pp + of_nat PIPESIZE" using pipe_full_iff [OF Cons.prems(2)] by simp
    have "pipe_full [] p s = (case pipe_full [] p s of Ok r t \<Rightarrow> Ok None t | r \<Rightarrow> r)"
      using Cons.prems(1) full
      by (subst (1 2) pipe_full.simps) (auto simp: kbind_def kseq_def with_proc_def ksleep_unfold kundef_def kpanic_def split: res.splits option.split)
    then have "pipe_put [] p (c # cs) s = kbind (pipe_full [] p) (\<lambda>_. kret False) s"
      by (auto simp: kbind_def split: res.splits)
    then show ?thesis using True Cons.prems by (intro exI [of _ pp]) (simp add: with_pipe_same same_ends_def)
  next
    case False
    then have lt: "length (pipe_content pp) < PIPESIZE" using pipe_content_le [OF Cons.prems(2)] by simp
    have "length (pipe_content pp) + length [c] \<le> PIPESIZE" using lt by simp
    from pipe_put_room [OF Cons.prems(1,2) this, of "[]"] obtain pp1 where
      one: "pipe_put [] p [c] s = Ok True (with_pipe p pp1 s)" "pipe_ok pp1" "pipe_content pp1 = pipe_content pp @ [c]" "same_ends pp pp1"
      by blast
    have free: "pipe_full [] p s = Ok (Some []) s"
      using Cons.prems(1) False pipe_full_iff [OF Cons.prems(2)] by (subst pipe_full.simps) (simp add: kbind_def)
    have step: "pipe_put [] p (c # cs) s = pipe_put [] p cs (with_pipe p pp1 s)"
      using one(1) free by (simp add: kbind_def kseq_def)
    have "PIPESIZE < length (pipe_content pp1) + length cs" using Cons.prems(3) one(3) by simp
    from Cons.IH [OF _ one(2) this, of "with_pipe p pp1 s"] show ?thesis
      using one(3,4) lt step by (auto simp: same_ends_def take_Cons' Suc_diff_Suc)
  qed
qed

lemma pipe_take_spec:
  "pipes s p = Some pp \<Longrightarrow> pipe_ok pp \<Longrightarrow>
   \<exists>pp'. pipe_take p n dst s = Ok (dst @ take n (pipe_content pp)) (with_pipe p pp' s) \<and> pipe_ok pp' \<and>
     pipe_content pp' = drop n (pipe_content pp) \<and> same_ends pp pp'"
proof (induction n arbitrary: s pp dst)
  case 0
  then show ?case by (intro exI [of _ pp]) (simp add: with_pipe_same same_ends_def)
next
  case (Suc n)
  show ?case
  proof (cases "pi_nread pp = pi_nwrite pp")
    case True
    then show ?thesis using Suc.prems by (intro exI [of _ pp]) (simp add: kbind_def with_pipe_same same_ends_def pipe_content_def)
  next
    case False
    let ?pp = "pi_nread_update (\<lambda>r. r + 1) pp"
    have pp: "pipe_ok ?pp" "pipe_content pp = ring_at (pi_data pp) (pi_nread pp) # pipe_content ?pp"
      using ring_pop [of PIPESIZE "pi_data pp" "pi_nread pp" "pi_nwrite pp"] Suc.prems(2) False
      by (simp_all add: pipe_ok_def pipe_content_def)
    from Suc.IH [OF _ pp(1), of "with_pipe p ?pp s" "dst @ [ring_at (pi_data pp) (pi_nread pp)]"] obtain pp' where
      "pipe_take p n (dst @ [ring_at (pi_data pp) (pi_nread pp)]) (with_pipe p ?pp s) =
        Ok (dst @ take (Suc n) (pipe_content pp)) (with_pipe p pp' s)"
      "pipe_ok pp'" "pipe_content pp' = drop (Suc n) (pipe_content pp)" "same_ends pp pp'"
      using pp(2) by (auto simp: same_ends_def)
    then show ?thesis using Suc.prems(1) False by (auto simp: kbind_def kseq_def upd_pipe_with)
  qed
qed

lemma pipewrite_alone:
  assumes s: "held s = []" "curproc s = Some i" "i < length (procs s)" "pipes s p = Some pp" "pipe_ok pp"
    and cs: "take (nat n) src = cs" and q: "pipe_content pp = q" and killed: "p_killed (procs s ! i) = killed"
  shows "\<exists>pp'. pipe_ok pp' \<and> same_ends pp pp' \<and> pipe_content pp' = q @ take (PIPESIZE - length q) cs \<and>
     (if length q + length cs \<le> PIPESIZE
      then pipewrite [] p src n s = Ok n (with_pipe p pp' s\<lparr>procs := map (wake (ChPipeRead p)) (procs s)\<rparr>)
      else if \<not> pi_readopen pp \<or> killed then pipewrite [] p src n s = Ok (- 1) (with_pipe p pp' s)
      else pipewrite [] p src n s = Sleep (ChPipeWrite p)
        (upd_proc i (\<lambda>pr. pr\<lparr>p_chan := Some (ChPipeWrite p), p_state := SLEEPING\<rparr>)
          (with_pipe p pp' s\<lparr>procs := map (wake (ChPipeRead p)) (procs s), held := [LPtable]\<rparr>)))"
proof -
  let ?s = "s\<lparr>held := [LPipe p]\<rparr>"
  have hs: "s\<lparr>held := []\<rparr> = s" using s(1) by (cases s) simp
  have hp: "s\<lparr>pipes := x, held := []\<rparr> = s\<lparr>pipes := x\<rparr>" for x using s(1) by (cases s) simp
  have aq: "acq (LPipe p) s = Ok () ?s" using s(1) by (simp add: acq_apply)
  have sel: "pipes ?s p = Some pp" "curproc ?s = Some i" "procs ?s = procs s" using s by simp_all
  show ?thesis
  proof (cases "length q + length cs \<le> PIPESIZE")
    case True
    obtain pp' where pp': "pipe_put [] p cs ?s = Ok True (with_pipe p pp' ?s)" "pipe_ok pp'"
      "pipe_content pp' = q @ cs" "same_ends pp pp'"
      using pipe_put_room [OF sel(1) s(5), of cs] True q by blast
    moreover have "pipewrite [] p src n s = Ok n (with_pipe p pp' s\<lparr>procs := map (wake (ChPipeRead p)) (procs s)\<rparr>)"
      using s(1,4) aq pp'(1) cs by (simp add: pipewrite_def kseq_def kbind_def wakeup_apply rel_apply with_pipe_def hs)
    ultimately show ?thesis using True by (intro exI [of _ pp']) simp
  next
    case False
    obtain pp' where pp': "pipe_put [] p cs ?s = kbind (pipe_full [] p) (\<lambda>_. kret False) (with_pipe p pp' ?s)" "pipe_ok pp'"
      "pipe_content pp' = q @ take (PIPESIZE - length q) cs" "length (pipe_content pp') = PIPESIZE" "same_ends pp pp'"
      using pipe_put_full [OF sel(1) s(5), of cs] False q by auto
    have full: "pi_nwrite pp' = pi_nread pp' + of_nat PIPESIZE" using pipe_full_iff [OF pp'(2)] pp'(4) by simp
    have ends: "pi_readopen pp' = pi_readopen pp" using pp'(5) by (simp add: same_ends_def)
    show ?thesis
    proof (cases "\<not> pi_readopen pp \<or> killed")
      case True
      have "pipe_full [] p (with_pipe p pp' ?s) = Ok None (with_pipe p pp' s)"
        using True full ends s(2) killed
        by (subst pipe_full.simps) (auto simp: kbind_def kseq_def with_proc_def rel_apply with_pipe_def hp)
      then have "pipewrite [] p src n s = Ok (- 1) (with_pipe p pp' s)"
        using s(4) aq pp'(1) cs by (simp add: pipewrite_def kseq_def kbind_def)
      then show ?thesis using True False pp' by (intro exI [of _ pp']) auto
    next
      case 2: False
      let ?t = "upd_proc i (\<lambda>pr. pr\<lparr>p_chan := Some (ChPipeWrite p), p_state := SLEEPING\<rparr>)
          (with_pipe p pp' s\<lparr>procs := map (wake (ChPipeRead p)) (procs s), held := [LPtable]\<rparr>)"
      have "pipe_full [] p (with_pipe p pp' ?s) = Sleep (ChPipeWrite p) ?t"
        using 2 full ends s(2,3) killed
        by (subst pipe_full.simps) (auto simp: kbind_def kseq_def with_proc_def wakeup_apply with_pipe_def upd_proc_def ksleep_apply)
      then have "pipewrite [] p src n s = Sleep (ChPipeWrite p) ?t"
        using s(4) aq pp'(1) cs by (simp add: pipewrite_def kseq_def kbind_def)
      then show ?thesis using 2 False pp' by (intro exI [of _ pp']) auto
    qed
  qed
qed

lemma piperead_alone:
  assumes s: "held s = []" "curproc s = Some i" "i < length (procs s)" "pipes s p = Some pp" "pipe_ok pp"
    and q: "pipe_content pp = q" and killed: "p_killed (procs s ! i) = killed"
  shows "\<exists>pp'. pipe_ok pp' \<and> same_ends pp pp' \<and>
     (if q \<noteq> [] \<or> \<not> pi_writeopen pp
      then pipe_content pp' = drop (nat n) q \<and> piperead [] p n s =
        Ok (int (min (nat n) (length q)), take (nat n) q) (with_pipe p pp' s\<lparr>procs := map (wake (ChPipeWrite p)) (procs s)\<rparr>)
      else if killed then piperead [] p n s = Ok (- 1, []) s
      else piperead [] p n s = Sleep (ChPipeRead p)
        (upd_proc i (\<lambda>pr. pr\<lparr>p_chan := Some (ChPipeRead p), p_state := SLEEPING\<rparr>) (s\<lparr>held := [LPtable]\<rparr>)))"
proof -
  let ?s = "s\<lparr>held := [LPipe p]\<rparr>"
  have hs: "s\<lparr>held := []\<rparr> = s" using s(1) by (cases s) simp
  have hp: "s\<lparr>pipes := x, held := []\<rparr> = s\<lparr>pipes := x\<rparr>" for x using s(1) by (cases s) simp
  have aq: "acq (LPipe p) s = Ok () ?s" using s(1) by (simp add: acq_apply)
  have sel: "pipes ?s p = Some pp" "curproc ?s = Some i" "procs ?s = procs s" using s by simp_all
  show ?thesis
  proof (cases "q \<noteq> [] \<or> \<not> pi_writeopen pp")
    case True
    have go: "pipe_empty [] p ?s = Ok True ?s"
      using True sel(1) q ring_list_nil by (subst pipe_empty.simps) (auto simp: kbind_def pipe_content_def)
    obtain pp' where pp': "pipe_take p (nat n) [] ?s = Ok ([] @ take (nat n) q) (with_pipe p pp' ?s)" "pipe_ok pp'"
      "pipe_content pp' = drop (nat n) q" "same_ends pp pp'"
      using pipe_take_spec [OF sel(1) s(5)] q by blast
    have "piperead [] p n s = Ok (int (min (nat n) (length q)), take (nat n) q)
        (with_pipe p pp' s\<lparr>procs := map (wake (ChPipeWrite p)) (procs s)\<rparr>)"
      using s(1,4) aq pp'(1) go by (simp add: piperead_def kseq_def kbind_def wakeup_apply rel_apply with_pipe_def hs min.commute)
    then show ?thesis using True pp' by (intro exI [of _ pp']) simp
  next
    case False
    have "pipe_empty [] p ?s = (if killed then Ok False s else Sleep (ChPipeRead p)
        (upd_proc i (\<lambda>pr. pr\<lparr>p_chan := Some (ChPipeRead p), p_state := SLEEPING\<rparr>) (s\<lparr>held := [LPtable]\<rparr>)))"
      using False sel q s(2,3) killed ring_list_nil
      by (subst pipe_empty.simps) (auto simp: kbind_def kseq_def with_proc_def rel_apply ksleep_apply pipe_content_def hs)
    then show ?thesis using False s(4,5) aq by (intro exI [of _ pp]) (auto simp: piperead_def kseq_def kbind_def same_ends_def)
  qed
qed

text \<open>
  C15. A pipe is a queue of at most 512 bytes with two ends. A write of \<open>n\<close> bytes that fit is appended and
  readers are woken; of one that does not fit, the bytes that do are appended, and the writer then
  goes to sleep, with the readers woken, or returns -1 when no reader is left or it has been killed. A
  read takes the first bytes, up to \<open>n\<close>, and wakes the writers; of an empty pipe it returns 0 when no
  writer is left, -1 when the process has been killed, and sleeps otherwise.
\<close>

lemma pipe_queue:
  assumes s: "held s = []" "curproc s = Some i" "i < length (procs s)" "pipes s p = Some pp" "pipe_ok pp"
    and cs: "take (nat n) src = cs" and q: "pipe_content pp = q" and killed: "p_killed (procs s ! i) = killed"
  shows "(\<exists>pp'. pipe_ok pp' \<and> same_ends pp pp' \<and> pipe_content pp' = q @ take (PIPESIZE - length q) cs \<and>
     (if length q + length cs \<le> PIPESIZE
      then pipewrite [] p src n s = Ok n (with_pipe p pp' s\<lparr>procs := map (wake (ChPipeRead p)) (procs s)\<rparr>)
      else if \<not> pi_readopen pp \<or> killed then pipewrite [] p src n s = Ok (- 1) (with_pipe p pp' s)
      else pipewrite [] p src n s = Sleep (ChPipeWrite p)
        (upd_proc i (\<lambda>pr. pr\<lparr>p_chan := Some (ChPipeWrite p), p_state := SLEEPING\<rparr>)
          (with_pipe p pp' s\<lparr>procs := map (wake (ChPipeRead p)) (procs s), held := [LPtable]\<rparr>)))) \<and>
    (\<exists>pp'. pipe_ok pp' \<and> same_ends pp pp' \<and>
     (if q \<noteq> [] \<or> \<not> pi_writeopen pp
      then pipe_content pp' = drop (nat n) q \<and> piperead [] p n s =
        Ok (int (min (nat n) (length q)), take (nat n) q) (with_pipe p pp' s\<lparr>procs := map (wake (ChPipeWrite p)) (procs s)\<rparr>)
      else if killed then piperead [] p n s = Ok (- 1, []) s
      else piperead [] p n s = Sleep (ChPipeRead p)
        (upd_proc i (\<lambda>pr. pr\<lparr>p_chan := Some (ChPipeRead p), p_state := SLEEPING\<rparr>) (s\<lparr>held := [LPtable]\<rparr>))))"
  using pipewrite_alone [OF s cs q killed] piperead_alone [OF s q killed] by (rule conjI)

text \<open>A pipe with two bytes in it whose indices are about to wrap around.\<close>

definition some_pipe :: pipe where
  "some_pipe = \<lparr>pi_data = (replicate 512 0)[510 := 7, 511 := 9], pi_nread = 4294967294, pi_nwrite = 0, pi_readopen = True, pi_writeopen = True\<rparr>"

definition up_files :: "pipe \<Rightarrow> files" where
  "up_files pp = console.extend (up_console []) \<lparr>ftable = replicate 3 \<lparr>f_type = FD_NONE, f_ref = 0, f_readable = False,
     f_writable = False, f_pipe = 0, f_ip = 0, f_off = 0\<rparr>, pipes = [0x80115000 \<mapsto> pp]\<rparr>"

lemma up_files_sel [simp]:
  "held (up_files pp) = []" "curproc (up_files pp) = Some 0" "procs (up_files pp) = [zero_proc\<lparr>p_state := RUNNING\<rparr>]"
  "pipes (up_files pp) = [0x80115000 \<mapsto> pp]"
  by (simp_all add: up_files_def up_console_def up_fs_def up_log_def kmem.defs log.defs fs.defs console.defs)

lemma some_pipe_ok: "pipe_ok some_pipe" "pipe_content some_pipe = [7, 9]"
proof -
  show "pipe_ok some_pipe" by (simp add: pipe_ok_def some_pipe_def ring_ok_def PIPESIZE_def)
  show "pipe_content some_pipe = [7, 9]"
    by (simp add: pipe_content_def some_pipe_def ring_list_def ring_at_def upt_rec)
qed

lemma pipe_queue_witness:
  "(\<exists>t. pipewrite [] 0x80115000 [1, 2] 2 (up_files some_pipe) = Ok 2 t) \<and>
   (\<exists>t. piperead [] 0x80115000 1 (up_files some_pipe) = Ok (1, [7]) t)"
  using pipe_queue [where s = "up_files some_pipe" and i = 0 and p = "0x80115000" and pp = some_pipe and n = 2
      and src = "[1, 2]" and cs = "[1, 2]" and q = "[7, 9]" and killed = False] some_pipe_ok
    pipe_queue [where s = "up_files some_pipe" and i = 0 and p = "0x80115000" and pp = some_pipe and n = 1
      and src = "[1, 2]" and cs = "[1]" and q = "[7, 9]" and killed = False]
  by (auto simp: zero_proc_def some_pipe_def PIPESIZE_def)

section \<open>The life of a pipe\<close>

lemma pipeclose_apply:
  assumes "held s = []" and "pipes s p = Some pp"
  shows "pipeclose p w s =
    (if (if w then pi_readopen pp else pi_writeopen pp)
     then Ok () (with_pipe p (if w then pp\<lparr>pi_writeopen := False\<rparr> else pp\<lparr>pi_readopen := False\<rparr>)
       s\<lparr>procs := map (wake (if w then ChPipeRead p else ChPipeWrite p)) (procs s)\<rparr>)
     else kfree p (s\<lparr>procs := map (wake (if w then ChPipeRead p else ChPipeWrite p)) (procs s), pipes := (pipes s)(p := None)\<rparr>))"
proof -
  have hp: "s\<lparr>pipes := x, procs := y, held := []\<rparr> = s\<lparr>pipes := x, procs := y\<rparr>" for x y using assms(1) by (cases s) simp
  show ?thesis using assms
    by (cases w) (auto simp: pipeclose_def kseq_def kbind_def acq_apply rel_apply wakeup_apply upd_pipe_def with_pipe_def hp)
qed

lemma fileclose_pipe:
  assumes "held s = []" and "ftable s ! i = f" and "f_ref f = 1" and "f_type f = FD_PIPE"
  shows "fileclose i s = pipeclose (f_pipe f) (f_writable f) (upd_file i (\<lambda>f. f\<lparr>f_ref := 0, f_type := FD_NONE\<rparr>) s)"
proof -
  have hp: "s\<lparr>ftable := x, held := []\<rparr> = s\<lparr>ftable := x\<rparr>" for x using assms(1) by (cases s) simp
  show ?thesis using assms by (simp add: fileclose_def kseq_def kbind_def acq_apply rel_apply upd_file_def hp)
qed

lemma filealloc_apply:
  assumes "held s = []"
  shows "filealloc s = (case first_idx (\<lambda>f. f_ref f = 0) (ftable s) of
    None \<Rightarrow> Ok None s | Some i \<Rightarrow> Ok (Some i) (upd_file i (\<lambda>f. f\<lparr>f_ref := 1\<rparr>) s))"
proof -
  have hp: "s\<lparr>ftable := x, held := []\<rparr> = s\<lparr>ftable := x\<rparr>" "s\<lparr>held := []\<rparr> = s" for x
    using assms(1) by (cases s; simp)+
  show ?thesis using assms hp(2)
    by (simp add: filealloc_def kseq_def kbind_def acq_apply rel_apply upd_file_def hp split: option.split)
qed

lemma kmem_ok_files [simp]:
  "kmem_ok (s\<lparr>pipes := x\<rparr>) = kmem_ok s" "kmem_ok (s\<lparr>ftable := y\<rparr>) = kmem_ok s" "kmem_ok (s\<lparr>procs := z\<rparr>) = kmem_ok s"
  "kmem_ok (upd_file i f s) = kmem_ok s" "kmem_ok (with_pipe p pp s) = kmem_ok s"
  by (simp_all add: kmem_ok_def page_ok_def upd_file_def with_pipe_def fun_eq_iff)

lemma upd_file_sel [simp]:
  "ftable (upd_file i f s) = (ftable s)[i := f (ftable s ! i)]" "held (upd_file i f s) = held s"
  "pipes (upd_file i f s) = pipes s" "procs (upd_file i f s) = procs s" "kend (upd_file i f s) = kend s"
  by (simp_all add: upd_file_def)

lemma same_kernel_files:
  assumes "same_kernel t s"
  shows "ftable t = ftable s" "pipes t = pipes s" "held t = held s"
  using assms by (auto simp: same_kernel_def)

text \<open>Closing the two ends of a fresh pipe, in either order.\<close>

lemma close_both:
  assumes kmem: "kmem_ok s ps" "page_ok s p" "p \<notin> set ps" "held s = []" "pipes s p = Some pp" "pi_readopen pp" "pi_writeopen pp"
    and a: "ftable s ! a = fa" "f_ref fa = 1" "f_type fa = FD_PIPE" "f_pipe fa = p"
    and b: "ftable s ! b = fb" "f_ref fb = 1" "f_type fb = FD_PIPE" "f_pipe fb = p"
    and ab: "a \<noteq> b" "f_writable fa \<longleftrightarrow> \<not> f_writable fb"
  shows "\<exists>t. kseq (fileclose a) (fileclose b) s = Ok () t \<and> kmem_ok t (p # ps) \<and> pipes t = (pipes s)(p := None) \<and>
    ftable t = (ftable s)[a := fa\<lparr>f_ref := 0, f_type := FD_NONE\<rparr>, b := fb\<lparr>f_ref := 0, f_type := FD_NONE\<rparr>]"
proof -
  let ?w = "f_writable fa" let ?fa = "fa\<lparr>f_ref := 0, f_type := FD_NONE\<rparr>"
  let ?pp = "if ?w then pp\<lparr>pi_writeopen := False\<rparr> else pp\<lparr>pi_readopen := False\<rparr>"
  let ?s1 = "upd_file a (\<lambda>f. f\<lparr>f_ref := 0, f_type := FD_NONE\<rparr>) s"
  let ?s2 = "with_pipe p ?pp ?s1\<lparr>procs := map (wake (if ?w then ChPipeRead p else ChPipeWrite p)) (procs ?s1)\<rparr>"
  have one: "fileclose a s = Ok () ?s2"
    using fileclose_pipe [OF kmem(4) a(1-3)] pipeclose_apply [of ?s1 p pp ?w] kmem(4-7) a(4) by (simp split: if_splits)
  have s2: "held ?s2 = []" "ftable ?s2 ! b = fb" "ftable ?s2 = (ftable s)[a := ?fa]" "pipes ?s2 = (pipes s)(p \<mapsto> ?pp)"
    using kmem(4) b(1) ab(1) a(1) by (simp_all add: with_pipe_def)
  let ?s3 = "upd_file b (\<lambda>f. f\<lparr>f_ref := 0, f_type := FD_NONE\<rparr>) ?s2"
  let ?s4 = "?s3\<lparr>procs := map (wake (if \<not> ?w then ChPipeRead p else ChPipeWrite p)) (procs ?s3),
    pipes := (pipes ?s3)(p := None)\<rparr>"
  have shut: "\<not> (if \<not> ?w then pi_readopen ?pp else pi_writeopen ?pp)" by auto
  have s3: "held ?s3 = []" "pipes ?s3 p = Some ?pp" using s2 by simp_all
  have two: "fileclose b ?s2 = kfree p ?s4"
    unfolding fileclose_pipe [OF s2(1,2) b(2,3)] b(4) using pipeclose_apply [OF s3, of "f_writable fb"] shut ab(2) by auto
  have s4: "kmem_ok ?s4 ps" "page_ok ?s4 p"
    using kmem(1,2) by (simp_all add: page_ok_def with_pipe_def upd_file_def)
  obtain t where t: "kfree p ?s4 = Ok () t" "kmem_ok t (p # ps)" "same_kernel t ?s4"
    using kfree_gives [OF s4 kmem(3)] by blast
  have "ftable t = ftable ?s4" "pipes t = pipes ?s4" using same_kernel_files [OF t(3)] by simp_all
  then show ?thesis using t(1,2) one two s2(2-4) by (intro exI [of _ t]) (simp add: kseq_def kbind_def)
qed

lemma new_pipe_ok: "pipe_ok new_pipe" "pipe_content new_pipe = []"
  by (simp_all add: new_pipe_def pipe_ok_def pipe_content_def ring_ok_def PIPESIZE_def)

lemma first_idx_next:
  "first_idx P xs = Some i \<Longrightarrow> \<not> P y \<Longrightarrow>
     first_idx P (xs[i := y]) = map_option (\<lambda>k. Suc i + k) (first_idx P (drop (Suc i) xs))"
proof (induction xs arbitrary: i)
  case (Cons x xs)
  show ?case
  proof (cases "P x")
    case True
    then show ?thesis using Cons.prems by (cases "first_idx P xs") auto
  next
    case False
    then obtain j where "i = Suc j" "first_idx P xs = Some j" using Cons.prems(1) by auto
    then show ?thesis using Cons.IH [of j] Cons.prems(2) False by (cases "first_idx P (drop (Suc j) xs)") auto
  qed
qed simp

lemma close_unused:
  assumes "held s = []" and "i < length (ftable s)" and "ftable s ! i = f\<lparr>f_ref := 1\<rparr>" and "f_ref f = 0" and "f_type f = FD_NONE"
  shows "fileclose i s = Ok () (s\<lparr>ftable := (ftable s)[i := f]\<rparr>)"
proof -
  have hp: "s\<lparr>ftable := x, held := []\<rparr> = s\<lparr>ftable := x\<rparr>" for x using assms(1) by (cases s) simp
  have f: "f\<lparr>f_ref := 0, f_type := FD_NONE\<rparr> = f" using assms(4,5) by (cases f) simp
  show ?thesis using assms by (simp add: fileclose_def kseq_def kbind_def acq_apply rel_apply upd_file_def hp f)
qed

lemma table_back:
  assumes "f_ref (xs ! i) = 0" and "f_ref (xs ! j) = 0" and "f_ref c = 0" and "f_ref e = 0" and "i \<noteq> j"
    and "ys = xs[i := a, j := b, i := c, j := e] \<or> ys = xs[i := a, j := b, j := e, i := c]"
  shows "map f_ref ys = map f_ref xs \<and> (\<forall>n. n = i \<or> n = j \<or> ys ! n = xs ! n)"
proof -
  have len: "length ys = length xs" using assms(6) by auto
  have other: "ys ! n = xs ! n" if "n \<noteq> i" "n \<noteq> j" for n using assms(6) that by auto
  have "f_ref (ys ! n) = f_ref (xs ! n)" if "n < length xs" for n
  proof -
    consider "n = i" | "n = j" | "n \<noteq> i" "n \<noteq> j" by blast
    then show ?thesis by cases (use assms that other in auto)
  qed
  then show ?thesis using len other by (auto simp: list_eq_iff_nth_eq)
qed

lemma fileback: "s\<lparr>ftable := (ftable s)[i := ftable s ! i]\<rparr> = s"
  by (cases s) simp

text \<open>Two free entries \<open>i\<close> and \<open>j\<close>, the first ones.\<close>

definition two_free :: "ofile list \<Rightarrow> nat \<Rightarrow> nat \<Rightarrow> bool" where
  "two_free l i j \<longleftrightarrow> first_idx (\<lambda>f. f_ref f = 0) l = Some i \<and> (\<exists>k. j = Suc i + k \<and> first_idx (\<lambda>f. f_ref f = 0) (drop (Suc i) l) = Some k)"

lemma two_free_facts:
  assumes "two_free l i j"
  shows "i < length l" "j < length l" "i \<noteq> j" "f_ref (l ! i) = 0" "f_ref (l ! j) = 0"
    "\<not> P y \<Longrightarrow> P = (\<lambda>f. f_ref f = 0) \<Longrightarrow> first_idx P (l[i := y]) = Some j"
proof -
  obtain k where k: "first_idx (\<lambda>f. f_ref f = 0) l = Some i" "j = Suc i + k"
    "first_idx (\<lambda>f. f_ref f = 0) (drop (Suc i) l) = Some k" using assms by (auto simp: two_free_def)
  show "i < length l" "j < length l" "i \<noteq> j" "f_ref (l ! i) = 0" "f_ref (l ! j) = 0"
    using first_idx_less [OF k(1)] first_idx_holds [OF k(1)] first_idx_less [OF k(3)] first_idx_holds [OF k(3)] k(2) by auto
  show "\<not> P y \<Longrightarrow> P = (\<lambda>f. f_ref f = 0) \<Longrightarrow> first_idx P (l[i := y]) = Some j"
    using first_idx_next [OF k(1)] k(2,3) by simp
qed

text \<open>Both entries taken.\<close>

definition both_taken :: "nat \<Rightarrow> nat \<Rightarrow> 'z files_scheme \<Rightarrow> 'z files_scheme" where
  "both_taken i j s = upd_file j (\<lambda>f. f\<lparr>f_ref := 1\<rparr>) (upd_file i (\<lambda>f. f\<lparr>f_ref := 1\<rparr>) s)"

lemma filealloc_twice:
  assumes "two_free (ftable s) i j" and "held s = []"
  shows "filealloc s = Ok (Some i) (upd_file i (\<lambda>f. f\<lparr>f_ref := 1\<rparr>) s)"
    and "filealloc (upd_file i (\<lambda>f. f\<lparr>f_ref := 1\<rparr>) s) = Ok (Some j) (both_taken i j s)"
    and "ftable (both_taken i j s) = (ftable s)[i := (ftable s ! i)\<lparr>f_ref := 1\<rparr>, j := (ftable s ! j)\<lparr>f_ref := 1\<rparr>]"
  using assms two_free_facts [OF assms(1)] filealloc_apply [of s]
    filealloc_apply [of "upd_file i (\<lambda>f. f\<lparr>f_ref := 1\<rparr>) s"]
  by (auto simp: two_free_def both_taken_def)

lemma both_taken_sel [simp]:
  "held (both_taken i j s) = held s" "pipes (both_taken i j s) = pipes s" "kmem_ok (both_taken i j s) = kmem_ok s"
  by (simp_all add: both_taken_def)

lemma pipealloc_no_page:
  assumes tf: "two_free (ftable s) i j" and s: "held s = []" "kmem_ok s []"
    and none: "f_type (ftable s ! i) = FD_NONE" "f_type (ftable s ! j) = FD_NONE"
  shows "pipealloc s = Ok None s"
proof -
  note F = two_free_facts [OF tf] and T = filealloc_twice [OF tf s(1)]
  let ?f = "ftable s ! i" and ?g = "ftable s ! j" and ?s2 = "both_taken i j s"
  let ?s3 = "?s2\<lparr>ftable := (ftable ?s2)[i := ?f]\<rparr>"
  have "fileclose i ?s2 = Ok () ?s3" by (rule close_unused) (use s none F T(3) in auto)
  moreover have "fileclose j ?s3 = Ok () (?s3\<lparr>ftable := (ftable ?s3)[j := ?g]\<rparr>)"
    by (rule close_unused) (use s none F T(3) in auto)
  moreover have "?s3\<lparr>ftable := (ftable ?s3)[j := ?g]\<rparr> = s"
    using F(3) by (cases s) (simp add: both_taken_def upd_file_def list_update_swap)
  ultimately show ?thesis using T(1,2) kalloc_empty [of ?s2] s(2)
    by (simp add: pipealloc_def kbind_def kseq_def close_opt_def)
qed

lemma pipealloc_run:
  assumes tf: "two_free (ftable s) i j" and s: "held s = []" "kmem_ok s (p # ps)"
  shows "\<exists>t. pipealloc s = Ok (Some (i, j)) t \<and> kmem_ok t ps \<and> page_ok t p \<and> held t = [] \<and>
    pipes t = (pipes s)(p \<mapsto> new_pipe) \<and> ftable t = (ftable s)
      [i := (ftable s ! i)\<lparr>f_ref := 1, f_type := FD_PIPE, f_readable := True, f_writable := False, f_pipe := p\<rparr>,
       j := (ftable s ! j)\<lparr>f_ref := 1, f_type := FD_PIPE, f_readable := False, f_writable := True, f_pipe := p\<rparr>]"
proof -
  note F = two_free_facts [OF tf] and T = filealloc_twice [OF tf s(1)]
  obtain t where t: "kalloc (both_taken i j s) = Ok p t" "kmem_ok t ps" "same_kernel t (both_taken i j s)"
    using kalloc_takes [of "both_taken i j s"] s(2) by auto
  have kd: "kend (both_taken i j s) = kend s" by (simp add: both_taken_def)
  have p: "p \<noteq> 0" "page_ok t p"
    using s(2) same_kernel_sel(4) [OF t(3)] kd by (auto simp: kmem_ok_def page_ok_def)
  have ht: "held t = []" "ftable t = ftable (both_taken i j s)" "pipes t = pipes s" using same_kernel_files [OF t(3)] s(1) by simp_all
  let ?u = "t\<lparr>pipes := (pipes t)(p \<mapsto> new_pipe), held := []\<rparr>"
  let ?v = "upd_file j (\<lambda>f. f\<lparr>f_type := FD_PIPE, f_readable := False, f_writable := True, f_pipe := p\<rparr>)
      (upd_file i (\<lambda>f. f\<lparr>f_type := FD_PIPE, f_readable := True, f_writable := False, f_pipe := p\<rparr>) ?u)"
  have "pipealloc s = Ok (Some (i, j)) ?v"
    using T(1,2) t(1) p(1) ht(1) by (simp add: pipealloc_def kbind_def kseq_def)
  moreover have "kmem_ok ?u ps" "page_ok ?u p" using t(2) p(2) ht(1) by (simp_all add: kmem_ok_def page_ok_def)
  moreover have "page_ok ?v = page_ok ?u" by (rule ext) (simp add: page_ok_def)
  ultimately show ?thesis using F(1-3) ht T(3) by (intro exI [of _ ?v]) (simp add: list_update_swap [of j i])
qed

text \<open>
  C31. A pipe uses two entries of the file table and one page, and closing both of its files, in either
  order, gives back all three: \<open>pipealloc\<close> takes the first two free entries, one to read from and one
  to write to, and the first free page, for an empty pipe; after the two closes the entries are free,
  the page is on the free list again, and no other entry has changed. Without a free page it fails and
  gives back what it has taken.
\<close>

lemma pipe_lifecycle:
  assumes s: "kmem_ok s pgs" "held s = []" "\<forall>p \<in> set pgs. pipes s p = None" and tf: "two_free (ftable s) i j"
    and none: "f_type (ftable s ! i) = FD_NONE" "f_type (ftable s ! j) = FD_NONE"
  shows "case pgs of
      p # ps \<Rightarrow> \<exists>t. pipealloc s = Ok (Some (i, j)) t \<and> kmem_ok t ps \<and> (\<exists>pp. pipes t p = Some pp \<and> pipe_content pp = []) \<and>
        (\<forall>(a, b) \<in> {(i, j), (j, i)}. \<exists>u. kseq (fileclose a) (fileclose b) t = Ok () u \<and>
           kmem_ok u pgs \<and> pipes u = pipes s \<and> map f_ref (ftable u) = map f_ref (ftable s) \<and>
           (\<forall>n. n = i \<or> n = j \<or> ftable u ! n = ftable s ! n))
    | [] \<Rightarrow> pipealloc s = Ok None s"
proof (cases pgs)
  case Nil
  then show ?thesis using pipealloc_no_page [OF tf s(2) _ none] s(1) by simp
next
  case (Cons p ps)
  note F = two_free_facts [OF tf]
  let ?fa = "(ftable s ! i)\<lparr>f_ref := 1, f_type := FD_PIPE, f_readable := True, f_writable := False, f_pipe := p\<rparr>"
  let ?fb = "(ftable s ! j)\<lparr>f_ref := 1, f_type := FD_PIPE, f_readable := False, f_writable := True, f_pipe := p\<rparr>"
  obtain t where t: "pipealloc s = Ok (Some (i, j)) t" "kmem_ok t ps" "page_ok t p" "held t = []"
    "pipes t = (pipes s)(p \<mapsto> new_pipe)" and ft: "ftable t = (ftable s)[i := ?fa, j := ?fb]"
    using pipealloc_run [OF tf s(2)] s(1) Cons by blast
  have p: "p \<notin> set ps" using s(1) Cons by (simp add: kmem_ok_def)
  have ok: "pipes t p = Some new_pipe" "pi_readopen new_pipe" "pi_writeopen new_pipe" "(pipes t)(p := None) = pipes s"
    using t(5) s(3) Cons by (auto simp: new_pipe_def fun_eq_iff)
  have files: "ftable t ! i = ?fa" "ftable t ! j = ?fb" using F ft by simp_all
  have "\<exists>u. kseq (fileclose a) (fileclose b) t = Ok () u \<and> kmem_ok u pgs \<and> pipes u = pipes s \<and>
      map f_ref (ftable u) = map f_ref (ftable s) \<and> (\<forall>n. n = i \<or> n = j \<or> ftable u ! n = ftable s ! n)"
    if ab: "(a, b) \<in> {(i, j), (j, i)}" for a b
  proof -
    obtain u where u: "kseq (fileclose a) (fileclose b) t = Ok () u" "kmem_ok u pgs" "pipes u = pipes s" and
      tu: "ftable u = (ftable s)[i := ?fa, j := ?fb, i := ?fa\<lparr>f_ref := 0, f_type := FD_NONE\<rparr>, j := ?fb\<lparr>f_ref := 0, f_type := FD_NONE\<rparr>] \<or>
        ftable u = (ftable s)[i := ?fa, j := ?fb, j := ?fb\<lparr>f_ref := 0, f_type := FD_NONE\<rparr>, i := ?fa\<lparr>f_ref := 0, f_type := FD_NONE\<rparr>]"
      using ab close_both [OF t(2,3) p t(4) ok(1-3) files(1) _ _ _ files(2)]
        close_both [OF t(2,3) p t(4) ok(1-3) files(2) _ _ _ files(1)] ok(4) F(3) ft Cons by auto
    show ?thesis using u table_back [OF F(4,5) _ _ F(3) tu] by auto
  qed
  then show ?thesis using t(1,2) ok(1) new_pipe_ok(2) unfolding Cons list.case by (intro exI [of _ t]) auto
qed

lemma up_files_kmem: "kmem_ok (up_files pp) [0x80110000]"
  using small_kmem_ok(1) by (simp add: kmem_ok_def page_ok_def up_files_def up_console_def up_fs_def up_log_def small_kmem_def
    boot_pt_def reset_irqc_def irqc.defs pt.defs kmem.defs log.defs fs.defs console.defs)

lemma pipe_lifecycle_witness:
  "\<exists>t u. pipealloc (up_files some_pipe) = Ok (Some (0, 1)) t \<and> kmem_ok t [] \<and>
     kseq (fileclose 1) (fileclose 0) t = Ok () u \<and> kmem_ok u [0x80110000]"
proof -
  let ?s = "up_files some_pipe"
  have tf: "two_free (ftable ?s) 0 1" by (simp add: two_free_def up_files_def console.defs numeral_3_eq_3)
  have none: "f_type (ftable ?s ! 0) = FD_NONE" "f_type (ftable ?s ! 1) = FD_NONE" by (simp_all add: up_files_def console.defs)
  have "\<forall>p \<in> set [0x80110000]. pipes ?s p = None" by simp
  from pipe_lifecycle [OF up_files_kmem _ this tf none] show ?thesis by fastforce
qed

end
