(* ===== verification/Proc.thy ===== *)
theory Proc
  imports File Vm
begin

text \<open>
  The rest of kernel/proc.c: making processes, the first one, growing, \<open>fork\<close>, \<open>exit\<close>, \<open>wait\<close> and
  \<open>wait_stat\<close>. The trap frame and the saved context lie on the kernel stack in the C code and are
  fields of the process here. The address of \<open>forkret\<close> and the code of the first process come from
  the linker and are arguments. A process that has exited is switched out for good: like a sleep,
  this is the outcome \<open>Sleep\<close>, in a state in which the process is a \<open>ZOMBIE\<close>.
\<close>

record kern = files +
  fr_first :: bool

definition pinit :: "(unit, 'z kern_scheme) K" where
  "pinit = kmod (\<lambda>s. s\<lparr>held := removeAll LPtable (held s)\<rparr>)"

definition allocproc :: "u32 \<Rightarrow> (nat option, 'z kern_scheme) K" where
  "allocproc fk = kseq (acq LPtable) (kbind (kget procs) (\<lambda>ps.
     case first_idx (\<lambda>p. p_state p = UNUSED) ps of
       None \<Rightarrow> kseq (rel LPtable) (kret None)
     | Some i \<Rightarrow> kseq (kblock
         [kmod (\<lambda>s. upd_proc i (\<lambda>p. p\<lparr>p_state := EMBRYO, p_pid := nextpid s\<rparr>) s),
          kmod (\<lambda>s. s\<lparr>nextpid := s32 (nextpid s + 1)\<rparr>),
          kbind get_random (\<lambda>r. kmod (upd_proc i (\<lambda>p. p\<lparr>p_tickets := r mod 999 + 1\<rparr>))),
          rel LPtable])
        (kbind kalloc (\<lambda>k.
          if k = 0 then kseq (kmod (upd_proc i (\<lambda>p. p\<lparr>p_kstack := 0, p_state := UNUSED\<rparr>))) (kret None)
          else kseq (kmod (\<lambda>s. upd_proc i (\<lambda>p. p\<lparr>p_kstack := k, p_context := zero_context\<lparr>c_eip := fk\<rparr>,
              p_ctime := sint (ticks s), p_ttime := 0, p_retime := 0, p_rutime := 0, p_stime := 0\<rparr>) s))
            (kret (Some i))))))"

definition SEG_UCODE :: u16 where "SEG_UCODE = 4"
definition SEG_UDATA :: u16 where "SEG_UDATA = 5"
definition DPL_USER :: u16 where "DPL_USER = 3"
definition FL_IF :: u32 where "FL_IF = 0x200"

definition user_tf :: trapframe where
  "user_tf = zero_tf\<lparr>tf_cs := push_bit 3 SEG_UCODE OR DPL_USER, tf_ds := push_bit 3 SEG_UDATA OR DPL_USER,
     tf_es := push_bit 3 SEG_UDATA OR DPL_USER, tf_ss := push_bit 3 SEG_UDATA OR DPL_USER,
     tf_eflags := FL_IF, tf_esp := PGSIZE, tf_eip := 0\<rparr>"

definition userinit :: "u32 \<Rightarrow> u8 list \<Rightarrow> (unit, 'z kern_scheme) K" where
  "userinit fk initcode = kbind (allocproc fk) (\<lambda>p. kseq (kmod (initproc_update (\<lambda>_. p))) (case p of
     None \<Rightarrow> kundef
   | Some i \<Rightarrow> kbind setupkvm (\<lambda>pgdir. kseq (kmod (upd_proc i (\<lambda>p. p\<lparr>p_pgdir := pgdir\<rparr>)))
      (if pgdir = 0 then kpanic ''userinit: out of memory?''
       else kseq (kblock
         [inituvm pgdir initcode,
          kmod (upd_proc i (\<lambda>p. p\<lparr>p_sz := PGSIZE, p_tf := user_tf, p_name := ''initcode''\<rparr>))])
        (kbind (namei [47]) (\<lambda>cwd. kmod (upd_proc i (\<lambda>p. p\<lparr>p_cwd := cwd, p_state := RUNNABLE\<rparr>))))))))"

definition growproc :: "int \<Rightarrow> (int, 'z kern_scheme) K" where
  "growproc n = with_proc (\<lambda>i. kbind (kget (\<lambda>s. procs s ! i)) (\<lambda>p. kbind
     (if 0 < n then allocuvm (p_pgdir p) (p_sz p) (p_sz p + of_int n)
      else if n < 0 then deallocuvm (p_pgdir p) (p_sz p) (p_sz p + of_int n)
      else kret (p_sz p)) (\<lambda>sz.
     if n \<noteq> 0 \<and> sz = 0 then kret (- 1)
     else kseq (kmod (upd_proc i (\<lambda>p. p\<lparr>p_sz := sz\<rparr>))) (kseq (switchuvm i) (kret 0)))))"

section \<open>fork\<close>

definition dup_files :: "nat \<Rightarrow> nat \<Rightarrow> (unit, 'z kern_scheme) K" where
  "dup_files i np = kfor [0..<NOFILE] (\<lambda>fd. kbind (kget (\<lambda>s. p_ofile (procs s ! i) ! fd)) (\<lambda>f. case f of
     None \<Rightarrow> kret ()
   | Some k \<Rightarrow> kbind (filedup k) (\<lambda>k. kmod (upd_proc np (\<lambda>p. p\<lparr>p_ofile := (p_ofile p)[fd := Some k]\<rparr>)))))"

definition fork :: "u32 \<Rightarrow> (int, 'z kern_scheme) K" where
  "fork fk = kbind (allocproc fk) (\<lambda>r. case r of
     None \<Rightarrow> kret (- 1)
   | Some np \<Rightarrow> with_proc (\<lambda>i. kbind (kget (\<lambda>s. procs s ! i)) (\<lambda>p. kbind (copyuvm (p_pgdir p) (p_sz p)) (\<lambda>d.
       kseq (kmod (upd_proc np (\<lambda>p. p\<lparr>p_pgdir := d\<rparr>)))
       (if d = 0 then kbind (kget (\<lambda>s. p_kstack (procs s ! np))) (\<lambda>k. kseq (kblock
         [kfree k, kmod (upd_proc np (\<lambda>p. p\<lparr>p_kstack := 0, p_state := UNUSED\<rparr>))]) (kret (- 1)))
        else kseq (kblock
         [kmod (\<lambda>s. upd_proc np (\<lambda>q. let p = procs s ! i in q\<lparr>p_sz := p_sz p, p_parent := Some i,
             p_tickets := p_tickets p, p_tf := (p_tf p)\<lparr>tf_eax := 0\<rparr>\<rparr>) s),
          dup_files i np,
          kbind (kget (\<lambda>s. p_cwd (procs s ! i))) (\<lambda>cwd. case cwd of None \<Rightarrow> kundef
            | Some c \<Rightarrow> kbind (idup c) (\<lambda>c. kmod (upd_proc np (\<lambda>q. q\<lparr>p_cwd := Some c\<rparr>)))),
          kmod (\<lambda>s. upd_proc np (\<lambda>q. q\<lparr>p_name := take 15 (p_name (procs s ! i))\<rparr>) s)])
         (kbind (kget (\<lambda>s. p_pid (procs s ! np))) (\<lambda>pid. kseq (kblock
           [acq LPtable, kmod (upd_proc np (\<lambda>q. q\<lparr>p_state := RUNNABLE\<rparr>)), rel LPtable])
           (kret pid))))))))"

section \<open>exit\<close>

definition close_files :: "nat \<Rightarrow> (unit, 'z kern_scheme) K" where
  "close_files i = kfor [0..<NOFILE] (\<lambda>fd. kbind (kget (\<lambda>s. p_ofile (procs s ! i) ! fd)) (\<lambda>f. case f of
     None \<Rightarrow> kret ()
   | Some k \<Rightarrow> kseq (fileclose k) (kmod (upd_proc i (\<lambda>p. p\<lparr>p_ofile := (p_ofile p)[fd := None]\<rparr>)))))"

text \<open>Waking the sleepers on a process; a null process is the null channel.\<close>

definition wake_on :: "nat option \<Rightarrow> (unit, 'z kern_scheme) K" where
  "wake_on q = (case q of Some q \<Rightarrow> wakeup1 (ChProc q)
   | None \<Rightarrow> kmod (\<lambda>s. s\<lparr>procs := map (\<lambda>p. if p_state p = SLEEPING \<and> p_chan p = None then p\<lparr>p_state := RUNNABLE\<rparr> else p) (procs s)\<rparr>))"

definition pass_child :: "nat \<Rightarrow> nat \<Rightarrow> (unit, 'z kern_scheme) K" where
  "pass_child i k = kbind (kget (\<lambda>s. (procs s ! k, initproc s))) (\<lambda>(p, ini).
     kwhen (p_parent p = Some i) (kseq (kmod (upd_proc k (\<lambda>p. p\<lparr>p_parent := ini\<rparr>)))
       (kwhen (p_state p = ZOMBIE) (wake_on ini))))"

definition exit_tail :: "nat \<Rightarrow> ('a, 'z kern_scheme) K" where
  "exit_tail i = kseq (kblock
     [acq LPtable,
      kbind (kget (\<lambda>s. p_parent (procs s ! i))) wake_on,
      kbind (kget (\<lambda>s. length (procs s))) (\<lambda>n. kfor [0..<n] (pass_child i)),
      kmod (\<lambda>s. upd_proc i (\<lambda>p. p\<lparr>p_state := ZOMBIE, p_ttime := sint (ticks s)\<rparr>) s),
      sched]) (\<lambda>s. Sleep (ChProc i) s)"

definition exit_proc :: "('a, 'z kern_scheme) K" where
  "exit_proc = kbind (kget (\<lambda>s. (curproc s, initproc s))) (\<lambda>(p, ini).
     if p = ini then kpanic ''init exiting''
     else with_proc (\<lambda>i. kseq (kblock
       [close_files i,
        begin_op,
        kbind (kget (\<lambda>s. p_cwd (procs s ! i))) (\<lambda>cwd. case cwd of None \<Rightarrow> kundef | Some c \<Rightarrow> iput c),
        end_op,
        kmod (upd_proc i (\<lambda>p. p\<lparr>p_cwd := None\<rparr>))])
       (exit_tail i)))"

section \<open>wait and wait\_stat\<close>

definition reap :: "nat \<Rightarrow> (int, 'z kern_scheme) K" where
  "reap k = kbind (kget (\<lambda>s. procs s ! k)) (\<lambda>p. kseq (kblock
     [kfree (p_kstack p),
      kmod (upd_proc k (\<lambda>p. p\<lparr>p_kstack := 0\<rparr>)),
      freevm (p_pgdir p),
      kmod (upd_proc k (\<lambda>p. p\<lparr>p_state := UNUSED, p_pid := 0, p_parent := None, p_name := [], p_killed := False\<rparr>))])
     (kret (p_pid p)))"

text \<open>The scan for a child to reap: nothing, no child at all, or the first zombie child.\<close>

definition zombie_child :: "nat \<Rightarrow> proc list \<Rightarrow> nat option" where
  "zombie_child i ps = first_idx (\<lambda>p. p_parent p = Some i \<and> p_state p = ZOMBIE) ps"

fun wait_loop :: "(unit, 'z kern_scheme) K list \<Rightarrow> nat \<Rightarrow> (nat option, 'z kern_scheme) K" where
  "wait_loop es i = kbind (kget procs) (\<lambda>ps. case zombie_child i ps of
     Some k \<Rightarrow> kret (Some k)
   | None \<Rightarrow>
      if (\<forall>p \<in> set ps. p_parent p \<noteq> Some i) \<or> p_killed (ps ! i) then kret None
      else (case es of [] \<Rightarrow> ksleep (ChProc i) LPtable
        | e # es' \<Rightarrow> kseq (ksleep_env e (ChProc i) LPtable) (wait_loop es' i)))"

declare wait_loop.simps [simp del]

definition wait :: "(unit, 'z kern_scheme) K list \<Rightarrow> (int, 'z kern_scheme) K" where
  "wait es = kseq (acq LPtable) (with_proc (\<lambda>i. kbind (wait_loop es i) (\<lambda>r. case r of
     None \<Rightarrow> kseq (rel LPtable) (kret (- 1))
   | Some k \<Rightarrow> kbind (reap k) (\<lambda>pid. kseq (rel LPtable) (kret pid)))))"

record ptimes =
  t_ctime :: int
  t_ttime :: int
  t_retime :: int
  t_rutime :: int
  t_stime :: int

definition proc_times :: "proc \<Rightarrow> ptimes" where
  "proc_times p = \<lparr>t_ctime = p_ctime p, t_ttime = p_ttime p,
     t_retime = s32 (p_ttime p - p_rutime p - p_ctime p - p_stime p), t_rutime = p_rutime p, t_stime = p_stime p\<rparr>"

definition wait_stat :: "(unit, 'z kern_scheme) K list \<Rightarrow> (int \<times> ptimes option, 'z kern_scheme) K" where
  "wait_stat es = kseq (acq LPtable) (with_proc (\<lambda>i. kbind (wait_loop es i) (\<lambda>r. case r of
     None \<Rightarrow> kseq (rel LPtable) (kret (- 1, None))
   | Some k \<Rightarrow> kbind (kget (\<lambda>s. proc_times (procs s ! k))) (\<lambda>times. kbind (reap k) (\<lambda>pid. kseq (kblock
       [kmod (upd_proc k (\<lambda>p. p\<lparr>p_ttime := 0\<rparr>)), rel LPtable])
       (kret (pid, Some times)))))))"

definition forkret :: "(unit, 'z kern_scheme) K" where
  "forkret = kseq (rel LPtable) (kbind (kget fr_first) (\<lambda>first.
     kwhen first (kblock [kmod (fr_first_update (\<lambda>_. False)), iinit ROOTDEV, initlog ROOTDEV])))"

section \<open>Making a process\<close>

lemma allocproc_none:
  assumes "held s = []" and "first_idx (\<lambda>p. p_state p = UNUSED) (procs s) = None"
  shows "allocproc fk s = Ok None s"
proof -
  have h: "s\<lparr>held := []\<rparr> = s" using assms(1) by (cases s) simp
  show ?thesis using assms h by (simp add: allocproc_def kseq_def kbind_def acq_apply rel_apply)
qed

text \<open>The state in which \<open>allocproc\<close> asks for a kernel stack.\<close>

definition embryo :: "nat \<Rightarrow> 'z kern_scheme \<Rightarrow> 'z kern_scheme" where
  "embryo k s = s\<lparr>nextpid := s32 (nextpid s + 1), random_int := snd (next_random (random_int s)),
     procs := (procs s)[k := (procs s ! k)\<lparr>p_state := EMBRYO, p_pid := nextpid s,
       p_tickets := fst (next_random (random_int s)) mod 999 + 1\<rparr>]\<rparr>"

lemma allocproc_some:
  assumes s: "held s = []" and k: "first_idx (\<lambda>p. p_state p = UNUSED) (procs s) = Some k"
  shows "allocproc fk s = kbind kalloc (\<lambda>a.
     if a = 0 then kseq (kmod (upd_proc k (\<lambda>p. p\<lparr>p_kstack := 0, p_state := UNUSED\<rparr>))) (kret None)
     else kseq (kmod (\<lambda>s. upd_proc k (\<lambda>p. p\<lparr>p_kstack := a, p_context := zero_context\<lparr>c_eip := fk\<rparr>,
         p_ctime := sint (ticks s), p_ttime := 0, p_retime := 0, p_rutime := 0, p_stime := 0\<rparr>) s))
       (kret (Some k))) (embryo k s)"
proof -
  have kl: "k < length (procs s)" using first_idx_less [OF k] .
  have h: "s\<lparr>nextpid := x, random_int := y, procs := z, held := []\<rparr> = s\<lparr>nextpid := x, random_int := y, procs := z\<rparr>" for x y z
    using s by (cases s) simp
  show ?thesis using assms kl
    by (simp add: allocproc_def kseq_def kbind_def acq_apply rel_apply embryo_def upd_proc_def get_random_def Let_def split_beta h)
qed

lemma embryo_sel [simp]:
  "held (embryo k s) = held s" "curproc (embryo k s) = curproc s" "kmem_ok (embryo k s) = kmem_ok s"
  "length (procs (embryo k s)) = length (procs s)" "j \<noteq> k \<Longrightarrow> procs (embryo k s) ! j = procs s ! j"
  by (auto simp: embryo_def kmem_ok_def page_ok_def fun_eq_iff)

lemma kmem_ok_procs [simp]: "kmem_ok (upd_proc i f s) = kmem_ok s" "page_ok (upd_proc i f s) = page_ok s"
  by (simp_all add: kmem_ok_def page_ok_def upd_proc_def fun_eq_iff)

text \<open>
  C32. A fork that fails leaves no trace but a used-up process number and random number: without a free
  process, nothing changes; without a page for the kernel stack, or with one page left, for the stack,
  and none for the page directory, the result is -1, the process entry is free again, all other
  entries are as before, and the page is back on the free list.
\<close>

lemma fork_fails_cleanly:
  assumes s: "held s = []" "curproc s = Some i" "p_state (procs s ! i) \<noteq> UNUSED" "kmem_ok s pgs" "length pgs \<le> 1"
  shows "case first_idx (\<lambda>p. p_state p = UNUSED) (procs s) of
      None \<Rightarrow> fork fk s = Ok (- 1) s
    | Some k \<Rightarrow> \<exists>t. fork fk s = Ok (- 1) t \<and> p_state (procs t ! k) = UNUSED \<and> p_kstack (procs t ! k) = 0 \<and>
        (\<forall>j. j = k \<or> procs t ! j = procs s ! j) \<and> kmem_ok t pgs \<and> held t = [] \<and> curproc t = Some i"
proof (cases "first_idx (\<lambda>p. p_state p = UNUSED) (procs s)")
  case None
  then show ?thesis using allocproc_none [OF s(1)] by (simp add: fork_def kbind_def)
next
  case (Some k)
  have k: "k < length (procs s)" "k \<noteq> i" using first_idx_less [OF Some] first_idx_holds [OF Some] s(3) by auto
  note run = allocproc_some [OF s(1) Some, of fk]
  have e: "kmem_ok (embryo k s) pgs" "length (procs (embryo k s)) = length (procs s)" using s(4) by simp_all
  show ?thesis
  proof (cases pgs)
    case Nil
    let ?t = "upd_proc k (\<lambda>p. p\<lparr>p_kstack := 0, p_state := UNUSED\<rparr>) (embryo k s)"
    have "kalloc (embryo k s) = Ok 0 (embryo k s)" using kalloc_empty e(1) Nil by blast
    then have "fork fk s = Ok (- 1) ?t" using run by (simp add: fork_def kbind_def)
    moreover have "procs ?t ! j = procs s ! j" if "j \<noteq> k" for j using that by simp
    then have "\<forall>j. j = k \<or> procs ?t ! j = procs s ! j" by blast
    ultimately show ?thesis unfolding Some option.case using s k e by (intro exI [of _ ?t]) simp
  next
    case (Cons p ps)
    then have ps: "pgs = [p]" using s(5) by simp
    obtain t where t: "kalloc (embryo k s) = Ok p t" "kmem_ok t []" "same_kernel t (embryo k s)"
      using kalloc_takes e(1) ps by metis
    note eq = same_kernel_sel [OF t(3)]
    have p: "p \<noteq> 0" "page_ok t p" using s(4) ps eq(4) by (auto simp: kmem_ok_def page_ok_def embryo_def)
    let ?u = "upd_proc k (\<lambda>q. q\<lparr>p_kstack := p, p_context := zero_context\<lparr>c_eip := fk\<rparr>,
        p_ctime := sint (ticks t), p_ttime := 0, p_retime := 0, p_rutime := 0, p_stime := 0\<rparr>) t"
    have a: "allocproc fk s = Ok (Some k) ?u" using run t(1) p(1) by (simp add: kbind_def)
    have "kalloc ?u = Ok 0 ?u" using kalloc_empty [of ?u] t(2) by simp
    then have c: "copyuvm d sz ?u = Ok 0 ?u" for d sz by (simp add: copyuvm_def setupkvm_def kbind_def)
    let ?v = "upd_proc k (\<lambda>p. p\<lparr>p_pgdir := 0\<rparr>) ?u"
    obtain w where w: "kfree p ?v = Ok () w" "kmem_ok w [p]" "same_kernel w ?v"
      using kfree_gives [of ?v "[]" p] t(2) p(2) by auto
    note ew = same_kernel_sel [OF w(3)]
    let ?w = "upd_proc k (\<lambda>p. p\<lparr>p_kstack := 0, p_state := UNUSED\<rparr>) w"
    have kst: "p_kstack (procs ?v ! k) = p" using k(1) eq(1) by simp
    have "fork fk s = Ok (- 1) ?w"
      using a c w(1) kst s(2) eq(3) by (simp add: fork_def kbind_def kseq_def with_proc_def)
    moreover have "procs ?w ! j = procs s ! j" if "j \<noteq> k" for j using ew(1) eq(1) that by simp
    then have "\<forall>j. j = k \<or> procs ?w ! j = procs s ! j" by blast
    moreover have "kmem_ok ?w pgs" using w(2) ps by simp
    ultimately show ?thesis unfolding Some option.case using s k e eq ew by (intro exI [of _ ?w]) simp
  qed
qed

definition up_kern :: "proc list \<Rightarrow> kern" where
  "up_kern ps = files.extend ((up_files some_pipe)\<lparr>procs := ps\<rparr>) \<lparr>fr_first = True\<rparr>"

lemma up_kern_sel [simp]:
  "held (up_kern ps) = []" "curproc (up_kern ps) = Some 0" "procs (up_kern ps) = ps"
  using up_files_sel [of some_pipe] by (simp_all add: up_kern_def files.defs)

lemma up_kern_kmem: "kmem_ok (up_kern ps) [0x80110000]"
  using up_files_kmem [of some_pipe] by (auto simp: kmem_ok_def page_ok_def up_kern_def files.defs)

lemma fork_fails_cleanly_witness:
  "\<exists>t. fork 0x80105000 (up_kern [zero_proc\<lparr>p_state := RUNNING\<rparr>, zero_proc]) = Ok (- 1) t \<and>
     p_state (procs t ! 1) = UNUSED \<and> kmem_ok t [0x80110000]"
  using fork_fails_cleanly [where s = "up_kern [zero_proc\<lparr>p_state := RUNNING\<rparr>, zero_proc]" and i = 0 and pgs = "[0x80110000]"
      and fk = "0x80105000"] up_kern_kmem
  by (auto simp: zero_proc_def)

section \<open>Exiting and waiting\<close>

definition adopt :: "nat \<Rightarrow> nat \<Rightarrow> proc \<Rightarrow> proc" where
  "adopt i n p = (if p_parent p = Some i then p\<lparr>p_parent := Some n\<rparr> else p)"

definition dead_child :: "nat \<Rightarrow> proc \<Rightarrow> bool" where
  "dead_child i p \<longleftrightarrow> p_parent p = Some i \<and> p_state p = ZOMBIE"

definition wake_if :: "bool \<Rightarrow> chan \<Rightarrow> proc list \<Rightarrow> proc list" where
  "wake_if b c ps = (if b then map (wake c) ps else ps)"

lemma wake_if_length [simp]: "length (wake_if b c ps) = length ps"
  by (simp add: wake_if_def)

lemma wake_if_nth [simp]: "k < length ps \<Longrightarrow> wake_if b c ps ! k = (if b then wake c (ps ! k) else ps ! k)"
  by (simp add: wake_if_def)

lemma wake_more [simp]:
  "p_state (wake c p) = ZOMBIE \<longleftrightarrow> p_state p = ZOMBIE" "dead_child i (wake c p) = dead_child i p"
  "adopt i n (wake c p) = wake c (adopt i n p)" "wake c (p\<lparr>p_parent := r\<rparr>) = (wake c p)\<lparr>p_parent := r\<rparr>"
  by (auto simp: wake_def dead_child_def adopt_def)

lemma wake_on_Some: "wake_on (Some q) s = Ok () (s\<lparr>procs := map (wake (ChProc q)) (procs s)\<rparr>)"
  by (cases s) (simp add: wake_on_def wakeup1_def)

lemma pass_child_apply:
  assumes "initproc s = Some n" and "k < length (procs s)" and "procs s ! k = p"
  shows "pass_child i k s = Ok () (s\<lparr>procs := wake_if (dead_child i p) (ChProc n) ((procs s)[k := adopt i n p])\<rparr>)"
proof -
  have id: "s\<lparr>procs := (procs s)[k := p]\<rparr> = s" using assms(3) by (cases s) auto
  have start: "pass_child i k s = kwhen (p_parent p = Some i) (kseq (kmod (upd_proc k (\<lambda>p. p\<lparr>p_parent := Some n\<rparr>)))
      (kwhen (p_state p = ZOMBIE) (wake_on (Some n)))) s"
    using assms by (simp add: pass_child_def)
  show ?thesis
  proof (cases "p_parent p = Some i")
    case True
    then have "adopt i n p = p\<lparr>p_parent := Some n\<rparr>" by (simp add: adopt_def)
    then show ?thesis unfolding start using True assms(3)
      by (cases "p_state p = ZOMBIE") (simp_all add: kwhen_def wake_on_Some upd_proc_def wake_if_def dead_child_def)
  next
    case False
    then have "adopt i n p = p" "\<not> dead_child i p" by (simp_all add: adopt_def dead_child_def)
    then show ?thesis unfolding start using False id by (simp add: kwhen_def wake_if_def)
  qed
qed

text \<open>The loop that passes the children on, up to entry \<open>k\<close>.\<close>

lemma pass_loop:
  assumes ini: "initproc s = Some n" and ps: "procs s = ps" and k: "k \<le> length ps"
  shows "kfor [0..<k] (pass_child i) s = Ok () (s\<lparr>procs := wake_if (\<exists>p \<in> set (take k ps). dead_child i p) (ChProc n)
     (map (adopt i n) (take k ps) @ drop k ps)\<rparr>)"
  using k
proof (induction k)
  case 0
  then show ?case using ps by (cases s) (simp add: wake_if_def)
next
  case (Suc k)
  let ?b = "\<exists>p \<in> set (take k ps). dead_child i p" and ?c = "ChProc n"
  let ?l = "wake_if ?b ?c (map (adopt i n) (take k ps) @ drop k ps)"
  let ?s = "s\<lparr>procs := ?l\<rparr>"
  define p where "p = ps ! k"
  have k: "k < length ps" using Suc.prems by simp
  have tk: "take (Suc k) ps = take k ps @ [p]" "drop k ps = p # drop (Suc k) ps"
    using k by (simp_all add: take_Suc_conv_app_nth Cons_nth_drop_Suc p_def)
  have at: "?l ! k = (if ?b then wake ?c p else p)"
    using k by (simp add: nth_append tk(2) min_def)
  have upd: "?l[k := adopt i n (?l ! k)] = wake_if ?b ?c (map (adopt i n) (take (Suc k) ps) @ drop (Suc k) ps)"
    unfolding at using k by (auto simp: wake_if_def tk list_update_append min_def)
  have "adopt i n (?l ! k) = adopt i n (if ?b then wake ?c p else p)" "dead_child i (?l ! k) = dead_child i p"
    unfolding at by simp_all
  moreover have "wake_if d ?c (wake_if b ?c l) = wake_if (b \<or> d) ?c l" for b d l by (simp add: wake_if_def)
  moreover have "k < length (procs ?s)" using k by simp
  ultimately have "pass_child i k ?s = Ok () (s\<lparr>procs := wake_if (?b \<or> dead_child i p) ?c (map (adopt i n) (take (Suc k) ps) @ drop (Suc k) ps)\<rparr>)"
    using pass_child_apply [of ?s n k "?l ! k" i] ini upd by simp
  moreover have "(\<exists>p \<in> set (take (Suc k) ps). dead_child i p) \<longleftrightarrow> ?b \<or> dead_child i p" unfolding tk by auto
  ultimately show ?case using Suc by (simp add: kfor_append kseq_def kbind_def)
qed

lemma exit_tail_apply:
  assumes s: "held s = []" "curproc s = Some i" "i < length (procs s)" "initproc s = Some n" and q: "p_parent (procs s ! i) = Some q"
  shows "exit_tail i s = Sleep (ChProc i) (s\<lparr>held := [LPtable], procs :=
     (wake_if (\<exists>p \<in> set (procs s). dead_child i p) (ChProc n) (map (adopt i n) (map (wake (ChProc q)) (procs s))))
       [i := (wake_if (\<exists>p \<in> set (procs s). dead_child i p) (ChProc n) (map (adopt i n) (map (wake (ChProc q)) (procs s))) ! i)
         \<lparr>p_state := ZOMBIE, p_ttime := sint (ticks s)\<rparr>]\<rparr>)"
proof -
  let ?ps = "map (wake (ChProc q)) (procs s)" and ?s = "s\<lparr>held := [LPtable], procs := map (wake (ChProc q)) (procs s)\<rparr>"
  have loop: "kfor [0..<length (procs s)] (pass_child i) ?s = Ok () (?s\<lparr>procs := wake_if (\<exists>p \<in> set (procs s). dead_child i p) (ChProc n)
      (map (adopt i n) ?ps)\<rparr>)"
    using pass_loop [of ?s n ?ps "length (procs s)" i] s(4) by simp
  show ?thesis using s q loop
    by (simp add: exit_tail_def kseq_def kbind_def acq_apply wake_on_Some upd_proc_def sched_apply)
qed

text \<open>
  C21. An exit is noticed: when process \<open>i\<close>, child of \<open>q\<close>, exits, it is a zombie with the time noted; no
  process has it as its parent any more, its children being those of the first process; its parent
  is not asleep in \<open>wait\<close>, and neither is the first process if a dead child was passed to it. When
  the parent scans the table it does not go to sleep: it frees the stack and page table
  of its dead child with the lowest index and returns its process number. That is
  process \<open>i\<close>, unless a dead child of \<open>q\<close> comes before it in the table.
\<close>

lemma exit_noticed:
  assumes s: "held s = []" "curproc s = Some i" "i < length (procs s)" "initproc s = Some n"
    and q: "p_parent (procs s ! i) = Some q" "q \<noteq> i" "n \<noteq> i" "q < length (procs s)" "n < length (procs s)"
  shows "\<exists>t. exit_tail i s = Sleep (ChProc i) t \<and> p_state (procs t ! i) = ZOMBIE \<and>
    p_pid (procs t ! i) = p_pid (procs s ! i) \<and> p_ttime (procs t ! i) = sint (ticks s) \<and>
    map p_parent (procs t) = map (\<lambda>p. if p_parent p = Some i then Some n else p_parent p) (procs s) \<and>
    \<not> (p_state (procs t ! q) = SLEEPING \<and> p_chan (procs t ! q) = Some (ChProc q)) \<and>
    ((\<exists>p \<in> set (procs s). dead_child i p) \<longrightarrow> \<not> (p_state (procs t ! n) = SLEEPING \<and> p_chan (procs t ! n) = Some (ChProc n))) \<and>
    dead_child q (procs t ! i) \<and>
    (\<exists>z \<le> i. dead_child q (procs t ! z) \<and> (\<forall>k < z. \<not> dead_child q (procs t ! k)) \<and> wait es (t\<lparr>held := [], curproc := Some q\<rparr>) =
       kbind (reap z) (\<lambda>pid. kseq (rel LPtable) (kret pid)) (t\<lparr>curproc := Some q, held := [LPtable]\<rparr>))"
proof -
  define b where "b \<longleftrightarrow> (\<exists>p \<in> set (procs s). dead_child i p)"
  define l where "l = wake_if b (ChProc n) (map (adopt i n) (map (wake (ChProc q)) (procs s)))"
  define d where "d = (l ! i)\<lparr>p_state := ZOMBIE, p_ttime := sint (ticks s)\<rparr>"
  define t where "t = s\<lparr>held := [LPtable], procs := l[i := d]\<rparr>"
  have run: "exit_tail i s = Sleep (ChProc i) t"
    unfolding t_def d_def l_def b_def by (rule exit_tail_apply [OF s q(1)])
  have len: "length l = length (procs s)" by (simp add: l_def)
  have at: "l ! k = (if b then wake (ChProc n) else id) (wake (ChProc q) (adopt i n (procs s ! k)))" if "k < length (procs s)" for k
    using that by (simp add: l_def)
  have par: "p_parent (l ! k) = (if p_parent (procs s ! k) = Some i then Some n else p_parent (procs s ! k))"
    if "k < length (procs s)" for k using at [OF that] by (simp add: adopt_def)
  have me: "p_parent (l ! i) = Some q" "p_pid (l ! i) = p_pid (procs s ! i)"
    using par [OF s(3)] at [OF s(3)] q(1,2) by (simp_all add: adopt_def)
  have awake: "\<not> (p_state (wake c p) = SLEEPING \<and> p_chan (wake c p) = Some c)" for c p by (simp add: wake_def)
  have "\<not> (p_state (l ! q) = SLEEPING \<and> p_chan (l ! q) = Some (ChProc q))"
    using at [OF q(4)] awake [of "ChProc q"] by (auto simp: wake_def)
  moreover have "b \<Longrightarrow> \<not> (p_state (l ! n) = SLEEPING \<and> p_chan (l ! n) = Some (ChProc n))"
    using at [OF q(5)] awake [of "ChProc n" "wake (ChProc q) (adopt i n (procs s ! n))"] by simp
  moreover have "map p_parent (l[i := d]) = map (\<lambda>p. if p_parent p = Some i then Some n else p_parent p) (procs s)"
  proof -
    have "map p_parent (l[i := d]) = map p_parent l"
      using len s(3) by (simp add: map_update d_def list_update_same_conv)
    also have "\<dots> = map (\<lambda>p. if p_parent p = Some i then Some n else p_parent p) (procs s)"
      by (rule nth_equalityI) (use len par in auto)
    finally show ?thesis .
  qed
  moreover have "dead_child q (procs t ! i) \<and>
    (\<exists>z \<le> i. dead_child q (procs t ! z) \<and> (\<forall>k < z. \<not> dead_child q (procs t ! k)) \<and> wait es (t\<lparr>held := [], curproc := Some q\<rparr>) =
       kbind (reap z) (\<lambda>pid. kseq (rel LPtable) (kret pid)) (t\<lparr>curproc := Some q, held := [LPtable]\<rparr>))"
  proof -
    have me: "dead_child q (procs t ! i)" "i < length (procs t)"
      using me(1) len s(3) by (simp_all add: dead_child_def d_def t_def)
    then have "\<exists>p \<in> set (procs t). dead_child q p" by (metis nth_mem)
    then obtain z where z: "zombie_child q (procs t) = Some z"
      by (cases "zombie_child q (procs t)") (auto simp: zombie_child_def first_idx_None dead_child_def)
    then have first: "dead_child q (procs t ! z)" "\<forall>k < z. \<not> dead_child q (procs t ! k)"
      by (simp_all add: zombie_child_def first_idx_Some dead_child_def)
    have "z \<le> i" using first(2) me(1) by (metis not_le)
    note first = me(1) this first
    moreover have "wait es (t\<lparr>held := [], curproc := Some q\<rparr>) =
       kbind (reap z) (\<lambda>pid. kseq (rel LPtable) (kret pid)) (t\<lparr>curproc := Some q, held := [LPtable]\<rparr>)"
      using z by (simp add: wait_def kseq_def kbind_def acq_apply with_proc_def wait_loop.simps [of es])
    ultimately show ?thesis using first by blast
  qed
  ultimately show ?thesis unfolding b_def
    using run len s(3) q(2,3) me(2) by (intro exI [of _ t]) (simp add: t_def d_def)
qed

lemma exit_noticed_witness:
  "\<exists>t. exit_tail 0 ((up_kern [zero_proc\<lparr>p_state := RUNNING, p_pid := 7, p_parent := Some 1\<rparr>,
      zero_proc\<lparr>p_state := SLEEPING, p_chan := Some (ChProc 1)\<rparr>, zero_proc])\<lparr>initproc := Some 2\<rparr>) = Sleep (ChProc 0) t \<and>
    p_state (procs t ! 0) = ZOMBIE \<and> wait [] (t\<lparr>held := [], curproc := Some 1\<rparr>) =
      kbind (reap 0) (\<lambda>pid. kseq (rel LPtable) (kret pid)) (t\<lparr>curproc := Some 1, held := [LPtable]\<rparr>)"
  using exit_noticed [where s = "(up_kern [zero_proc\<lparr>p_state := RUNNING, p_pid := 7, p_parent := Some 1\<rparr>,
      zero_proc\<lparr>p_state := SLEEPING, p_chan := Some (ChProc 1)\<rparr>, zero_proc])\<lparr>initproc := Some 2\<rparr>"
      and i = 0 and n = 2 and q = 1 and es = "[]"]
  by (simp add: zero_proc_def) blast

end
