(* ===== verification/Syscall.thy ===== *)
theory Syscall
  imports Proc
begin

text \<open>
  kernel/syscall.c up to the table: fetching the arguments of a system call. The kernel reads and
  writes the memory of the process through the page table that is loaded; an address that is not
  mapped is a page fault in the kernel, which \<open>trap\<close> makes a panic.
\<close>

unbundle bit_operations_syntax

section \<open>The memory of the process\<close>

definition upa :: "'z kern_scheme \<Rightarrow> u32 \<Rightarrow> u32 option" where
  "upa s va = (let pte = pte_of (mem s) (p2v (cr3 s)) va
     in if present pte then Some (p2v (PTE_ADDR pte) + (va AND 0xFFF)) else None)"

definition uload :: "u32 \<Rightarrow> (u8, 'z kern_scheme) K" where
  "uload va = kbind (kget (\<lambda>s. map_option (mem s) (upa s va))) (\<lambda>b. case b of None \<Rightarrow> kpanic ''trap'' | Some b \<Rightarrow> kret b)"

definition ustore :: "u32 \<Rightarrow> u8 \<Rightarrow> (unit, 'z kern_scheme) K" where
  "ustore va b = kbind (kget (\<lambda>s. upa s va)) (\<lambda>a. case a of None \<Rightarrow> kpanic ''trap''
     | Some a \<Rightarrow> kmod (\<lambda>s. s\<lparr>mem := (mem s)(a := b)\<rparr>))"

fun uloads :: "u32 \<Rightarrow> nat \<Rightarrow> (u8 list, 'z kern_scheme) K" where
  "uloads va 0 = kret []"
| "uloads va (Suc n) = kbind (uload va) (\<lambda>b. kbind (uloads (va + 1) n) (\<lambda>bs. kret (b # bs)))"

fun ustores :: "u32 \<Rightarrow> u8 list \<Rightarrow> (unit, 'z kern_scheme) K" where
  "ustores va [] = kret ()"
| "ustores va (b # bs) = kseq (ustore va b) (ustores (va + 1) bs)"

definition uload32 :: "u32 \<Rightarrow> (u32, 'z kern_scheme) K" where
  "uload32 va = kbind (uloads va 4) (\<lambda>bs. kret (of_nat (le_val bs)))"

definition ustore32 :: "u32 \<Rightarrow> u32 \<Rightarrow> (unit, 'z kern_scheme) K" where
  "ustore32 va w = ustores va (le_bytes 4 (unat w))"

section \<open>Arguments\<close>

definition fetchint :: "u32 \<Rightarrow> (u32 option, 'z kern_scheme) K" where
  "fetchint addr = with_proc (\<lambda>i. kbind (kget (\<lambda>s. p_sz (procs s ! i))) (\<lambda>sz.
     if sz \<le> addr \<or> sz < addr + 4 then kret None
     else kbind (uload32 addr) (\<lambda>w. kret (Some w))))"

text \<open>The bytes before the 0, which is looked for in the \<open>n\<close> bytes up to the end of the process.\<close>

fun fetch_chars :: "nat \<Rightarrow> u32 \<Rightarrow> u8 list \<Rightarrow> (u8 list option, 'z kern_scheme) K" where
  "fetch_chars 0 a bs = kret None"
| "fetch_chars (Suc n) a bs = kbind (uload a) (\<lambda>c.
     if c = 0 then kret (Some bs) else fetch_chars n (a + 1) (bs @ [c]))"

definition fetchstr :: "u32 \<Rightarrow> (u8 list option, 'z kern_scheme) K" where
  "fetchstr addr = with_proc (\<lambda>i. kbind (kget (\<lambda>s. p_sz (procs s ! i))) (\<lambda>sz.
     if sz \<le> addr then kret None else fetch_chars (unat (sz - addr)) addr []))"

definition argint :: "nat \<Rightarrow> (u32 option, 'z kern_scheme) K" where
  "argint n = with_proc (\<lambda>i. kbind (kget (\<lambda>s. tf_esp (p_tf (procs s ! i)))) (\<lambda>esp. fetchint (esp + 4 + 4 * of_nat n)))"

definition argptr :: "nat \<Rightarrow> int \<Rightarrow> (u32 option, 'z kern_scheme) K" where
  "argptr n size' = kbind (argint n) (\<lambda>r. case r of None \<Rightarrow> kret None
   | Some i \<Rightarrow> with_proc (\<lambda>p. kbind (kget (\<lambda>s. p_sz (procs s ! p))) (\<lambda>sz.
       if sz \<le> i \<or> sz < i + of_int size' then kret None else kret (Some i))))"

definition argstr :: "nat \<Rightarrow> (u8 list option, 'z kern_scheme) K" where
  "argstr n = kbind (argint n) (\<lambda>r. case r of None \<Rightarrow> kret None | Some a \<Rightarrow> fetchstr a)"

text \<open>Several arguments: the first that cannot be had makes the call return -1.\<close>

definition or_fail :: "('a option, 's) K \<Rightarrow> ('a \<Rightarrow> (int, 's) K) \<Rightarrow> (int, 's) K" where
  "or_fail m f = kbind m (\<lambda>r. case r of None \<Rightarrow> kret (- 1) | Some x \<Rightarrow> f x)"

section \<open>What the checks let through\<close>

text \<open>Reading the memory of a process does not change it, and reads what is mapped.\<close>

definition mapped :: "'z kern_scheme \<Rightarrow> u32 \<Rightarrow> bool" where
  "mapped s a \<longleftrightarrow> upa s a \<noteq> None"

definition ubyte :: "'z kern_scheme \<Rightarrow> u32 \<Rightarrow> u8" where
  "ubyte s a = mem s (the (upa s a))"

lemma uload_apply: "uload a s = (if mapped s a then Ok (ubyte s a) s else Panic ''trap'')"
  by (auto simp: uload_def kbind_def mapped_def ubyte_def split: option.split)

lemma uloads_apply:
  "(\<And>k. k < n \<Longrightarrow> mapped s (a + of_nat k)) \<Longrightarrow> uloads a n s = Ok (map (\<lambda>k. ubyte s (a + of_nat k)) [0..<n]) s"
proof (induction n arbitrary: a)
  case (Suc n)
  have "mapped s (a + 1 + of_nat k)" if "k < n" for k using Suc.prems [of "Suc k"] that by (simp add: algebra_simps)
  moreover have "mapped s a" using Suc.prems [of 0] by simp
  ultimately show ?case using Suc.IH [of "a + 1"]
    by (simp add: kbind_def uload_apply upt_conv_Cons map_Suc_upt [symmetric] algebra_simps del: upt_Suc)
qed simp

lemma block_fits:
  assumes "x < y" and "y < 2147483648" and "- 2147483648 \<le> n" and "n < 2147483648"
  shows "int y < (if int x + n < 0 then int x + n + 4294967296 else int x + n) \<longleftrightarrow>
    \<not> (if 0 \<le> n then x + nat n \<le> y else nat (- n) \<le> x)"
  using assms by (auto simp: nat_le_iff)

text \<open>
  C33. What \<open>argptr\<close> lets through, for a process of size \<open>sz\<close> below 2 GB: an address \<open>a\<close> that can be
  fetched is accepted for a block of \<open>n \<ge> 0\<close> bytes if and only if \<open>a < sz\<close> and \<open>a + n \<le> sz\<close>: the block
  lies in the memory of the process, and even an empty block may not start at its end. A
  negative length is accepted too, whenever \<open>a < sz\<close> and \<open>a\<close> is at least its amount.
\<close>

lemma argptr_bounds:
  assumes p: "curproc s = Some i" "p_sz (procs s ! i) = sz" "unat sz < 2147483648"
    and a: "argint k s = Ok (Some a) s" and n: "- 2147483648 \<le> n" "n < 2147483648"
  shows "argptr k n s = Ok (if unat a < unat sz \<and> (if 0 \<le> n then unat a + nat n \<le> unat sz else nat (- n) \<le> unat a)
      then Some a else None) s"
proof -
  have run: "argptr k n s = Ok (if sz \<le> a \<or> sz < a + of_int n then None else Some a) s"
    using p a by (simp add: argptr_def kbind_def with_proc_def)
  show ?thesis
  proof (cases "unat a < unat sz")
    case False
    then show ?thesis unfolding run by (simp add: word_le_nat_alt)
  next
    case True
    have ai: "uint a = int (unat a)" "uint sz = int (unat sz)" by simp_all
    have "uint (a + of_int n) = (int (unat a) + n) mod 4294967296"
      by (simp add: uint_word_ariths uint_word_of_int mod_add_right_eq)
    also have "\<dots> = (if int (unat a) + n < 0 then int (unat a) + n + 4294967296 else int (unat a) + n)"
    proof (cases "int (unat a) + n < 0")
      case neg: True
      have "(int (unat a) + n) mod 4294967296 = (int (unat a) + n + 4294967296) mod 4294967296" by simp
      also have "\<dots> = int (unat a) + n + 4294967296" by (rule mod_pos_pos_trivial) (use neg n in linarith)+
      finally show ?thesis using neg by simp
    next
      case False
      then have "(int (unat a) + n) mod 4294967296 = int (unat a) + n"
        by (intro mod_pos_pos_trivial) (use True p(3) n in linarith)+
      then show ?thesis using False by simp
    qed
    finally have u: "uint (a + of_int n) = (if int (unat a) + n < 0 then int (unat a) + n + 4294967296 else int (unat a) + n)" .
    have "sz < a + of_int n \<longleftrightarrow> \<not> (if 0 \<le> n then unat a + nat n \<le> unat sz else nat (- n) \<le> unat a)"
      unfolding word_less_def u ai(2) by (rule block_fits [OF True p(3) n])
    then show ?thesis unfolding run using True by (simp add: word_le_nat_alt)
  qed
qed

text \<open>A process of 4 pages whose first page is mapped, with an address and a length on its stack.\<close>

definition user_mem :: bytes where
  "user_mem = (\<lambda>_. 0)(0x80401000 := 7, 0x80401001 := 0x20, 0x80401002 := 0x40,
     0x80402000 := 7, 0x80402001 := 0x30, 0x80402002 := 0x40, 0x80403005 := 0x20)"

definition user_kern :: kern where
  "user_kern = (up_kern [zero_proc\<lparr>p_state := RUNNING, p_sz := 0x4000\<rparr>])\<lparr>mem := user_mem, cr3 := 0x401000\<rparr>"

lemma user_page:
  assumes "a \<in> {4, 5, 6, 7}"
  shows "uload a user_kern = Ok (if a = 5 then 0x20 else 0) user_kern"
proof -
  have pg: "p2v (cr3 user_kern) = 0x80401000" and m: "mem user_kern = user_mem"
    by (simp_all add: user_kern_def p2v_def KERNBASE_def)
  have e: "ld32 user_mem 0x80401000 = 0x402007" "ld32 user_mem 0x80402000 = 0x403007"
    by (simp_all add: ld32_def user_mem_def)
  have t: "table_of 0x402007 = 0x80402000" "p2v (PTE_ADDR 0x403007) = 0x80403000"
    "present 0x402007" "present 0x403007"
    by (simp_all add: table_of_def PTE_ADDR_def p2v_def KERNBASE_def present_def PTE_P_def)
  have i: "PDX a = 0" "PTX a = 0" "a AND 0xFFF = a" using assms by (auto simp: PDX_def PTX_def)
  have "upa user_kern a = Some (0x80403000 + a)"
    by (simp add: upa_def pte_of_def pde_at_def pg m i e t Let_def)
  then show ?thesis using assms by (auto simp: uload_def m user_mem_def kbind_def)
qed

lemma user_arg: "argint 0 user_kern = Ok (Some 0x2000) user_kern"
proof -
  have k: "procs user_kern = [zero_proc\<lparr>p_state := RUNNING, p_sz := 0x4000\<rparr>]" "curproc user_kern = Some 0"
    by (simp_all add: user_kern_def)
  have four: "(4 :: nat) = Suc (Suc (Suc (Suc 0)))" by simp
  have "uloads 4 (4 :: nat) user_kern = Ok [0, 0x20, 0, 0] user_kern"
    unfolding four using user_page [of 4] user_page [of 5] user_page [of 6] user_page [of 7] by (simp add: kbind_def)
  then have "uload32 4 user_kern = Ok 0x2000 user_kern" by (simp add: uload32_def kbind_def)
  then show ?thesis
    by (simp add: argint_def fetchint_def with_proc_def kbind_def k zero_proc_def zero_tf_def)
qed

lemma argptr_bounds_witness:
  "argptr 0 0x2000 user_kern = Ok (Some 0x2000) user_kern \<and> argptr 0 0x2001 user_kern = Ok None user_kern \<and>
   argptr 0 (- 0x2000) user_kern = Ok (Some 0x2000) user_kern"
proof -
  have "curproc user_kern = Some 0" "p_sz (procs user_kern ! 0) = 0x4000" by (simp_all add: user_kern_def)
  then show ?thesis using argptr_bounds [OF _ _ _ user_arg, where i = 0 and sz = "0x4000"] by simp
qed

end
