(* ===== verification/Sysfile.thy ===== *)
theory Sysfile
  imports Syscall
begin

text \<open>
  kernel/sysfile.c: the system calls on files. The result is what the call returns to the process;
  -1 is every failure. What \<open>read\<close> and \<open>fstat\<close> store through the address given is stored when the
  bytes are there, and what \<open>write\<close> sends is loaded before it starts.
\<close>

definition O_WRONLY :: u32 where "O_WRONLY = 1"
definition O_RDWR :: u32 where "O_RDWR = 2"
definition O_CREATE :: u32 where "O_CREATE = 0x200"

section \<open>Descriptors\<close>

definition argfd :: "nat \<Rightarrow> ((nat \<times> nat) option, 'z kern_scheme) K" where
  "argfd n = kbind (argint n) (\<lambda>r. case r of None \<Rightarrow> kret None
   | Some w \<Rightarrow> let fd = sint w in
       if fd < 0 \<or> int NOFILE \<le> fd then kret None
       else with_proc (\<lambda>i. kbind (kget (\<lambda>s. p_ofile (procs s ! i) ! nat fd)) (\<lambda>f. case f of
          None \<Rightarrow> kret None | Some k \<Rightarrow> kret (Some (nat fd, k)))))"

definition fdalloc :: "nat \<Rightarrow> (int, 'z kern_scheme) K" where
  "fdalloc f = with_proc (\<lambda>i. kbind (kget (\<lambda>s. p_ofile (procs s ! i))) (\<lambda>l.
     case first_idx (\<lambda>x. x = None) l of
       None \<Rightarrow> kret (- 1)
     | Some fd \<Rightarrow> kseq (kmod (upd_proc i (\<lambda>p. p\<lparr>p_ofile := (p_ofile p)[fd := Some f]\<rparr>))) (kret (int fd))))"

definition fdclear :: "nat \<Rightarrow> (unit, 'z kern_scheme) K" where
  "fdclear fd = with_proc (\<lambda>i. kmod (upd_proc i (\<lambda>p. p\<lparr>p_ofile := (p_ofile p)[fd := None]\<rparr>)))"

definition sys_dup :: "(int, 'z kern_scheme) K" where
  "sys_dup = or_fail (argfd 0) (\<lambda>(_, f). kbind (fdalloc f) (\<lambda>fd.
     if fd < 0 then kret (- 1) else kseq (filedup f) (kret fd)))"

definition sys_read :: "(unit, 'z kern_scheme) K list \<Rightarrow> (int, 'z kern_scheme) K" where
  "sys_read es = or_fail (argfd 0) (\<lambda>(_, f). or_fail (argint 2) (\<lambda>n. or_fail (argptr 1 (sint n)) (\<lambda>p.
     kbind (fileread es f (sint n)) (\<lambda>(r, bs). kseq (ustores p bs) (kret r)))))"

definition sys_write :: "(unit, 'z kern_scheme) K list \<Rightarrow> (int, 'z kern_scheme) K" where
  "sys_write es = or_fail (argfd 0) (\<lambda>(_, f). or_fail (argint 2) (\<lambda>n. or_fail (argptr 1 (sint n)) (\<lambda>p.
     kbind (uloads p (nat (sint n))) (\<lambda>src. filewrite es f src (sint n)))))"

definition sys_close :: "(int, 'z kern_scheme) K" where
  "sys_close = or_fail (argfd 0) (\<lambda>(fd, f). kseq (fdclear fd) (kseq (fileclose f) (kret 0)))"

text \<open>The bytes of a \<open>struct stat\<close>: the short members leave two bytes of padding, given as zeros.\<close>

definition stat_bytes :: "stat \<Rightarrow> u8 list" where
  "stat_bytes st = short_bytes (st_type st) @ [0, 0] @ le_bytes 4 (st_dev st) @ le_bytes 4 (st_ino st) @
     short_bytes (st_nlink st) @ [0, 0] @ le_bytes 4 (st_size st)"

definition sys_fstat :: "(int, 'z kern_scheme) K" where
  "sys_fstat = or_fail (argfd 0) (\<lambda>(_, f). or_fail (argptr 1 20) (\<lambda>p. or_fail (filestat f) (\<lambda>st.
     kseq (ustores p (stat_bytes st)) (kret 0))))"

section \<open>Links and directories\<close>

definition inode_of :: "nat \<Rightarrow> (inode, 'z kern_scheme) K" where
  "inode_of i = kget (\<lambda>s. inodes s ! i)"

definition add_nlink :: "int \<Rightarrow> nat \<Rightarrow> (unit, 'z kern_scheme) K" where
  "add_nlink k i = kseq (kmod (upd_d i (\<lambda>d. d\<lparr>d_nlink := s16 (d_nlink d + k)\<rparr>))) (iupdate i)"

definition sys_link :: "(int, 'z kern_scheme) K" where
  "sys_link = or_fail (argstr 0) (\<lambda>old. or_fail (argstr 1) (\<lambda>new. kseq begin_op (kbind (namei old) (\<lambda>r. case r of
     None \<Rightarrow> kseq end_op (kret (- 1))
   | Some ip \<Rightarrow> kseq (ilock (Some ip)) (kbind (inode_of ip) (\<lambda>x.
       if d_type (i_d x) = T_DIR then kseq (kblock [iunlockput ip, end_op]) (kret (- 1))
       else let bad = kseq (kblock [ilock (Some ip), add_nlink (- 1) ip, iunlockput ip, end_op]) (kret (- 1)) in
         kseq (kblock [add_nlink 1 ip, iunlock (Some ip)]) (kbind (nameiparent new) (\<lambda>r. case r of
            None \<Rightarrow> bad
          | Some (dp, name) \<Rightarrow> kseq (ilock (Some dp)) (kbind (inode_of dp) (\<lambda>y. kbind (inode_of ip) (\<lambda>x.
              if i_dev y \<noteq> i_dev x then kseq (iunlockput dp) bad
              else kbind (dirlink dp (of_bytes name) (i_inum x)) (\<lambda>r.
                if r < 0 then kseq (iunlockput dp) bad
                else kseq (kblock [iunlockput dp, iput ip, end_op]) (kret 0)))))))))))))"

text \<open>The first entry after the two dots that is in use, if any.\<close>

definition entry_used :: "nat \<Rightarrow> nat \<Rightarrow> (unit option, 'z kern_scheme) K" where
  "entry_used dp off = kbind (readi [] dp off 16) (\<lambda>(r, de).
     if r \<noteq> 16 then kpanic ''isdirempty: readi'' else kret (if de_inum de \<noteq> 0 then Some () else None))"

definition isdirempty :: "nat \<Rightarrow> (bool, 'z kern_scheme) K" where
  "isdirempty dp = kbind (inode_of dp) (\<lambda>x.
     kbind (kfirst (drop 2 (de_offs (d_size (i_d x)))) (entry_used dp)) (\<lambda>r. kret (r = None)))"

definition sys_unlink :: "(int, 'z kern_scheme) K" where
  "sys_unlink = or_fail (argstr 0) (\<lambda>path. kseq begin_op (kbind (nameiparent path) (\<lambda>r. case r of
     None \<Rightarrow> kseq end_op (kret (- 1))
   | Some (dp, name) \<Rightarrow> let bad = kseq (kblock [iunlockput dp, end_op]) (kret (- 1)) in
       kseq (ilock (Some dp))
       (if namecmp (of_bytes name) (of_bytes [46]) = 0 \<or> namecmp (of_bytes name) (of_bytes [46, 46]) = 0 then bad
        else kbind (dirlookup dp (of_bytes name)) (\<lambda>r. case r of
          None \<Rightarrow> bad
        | Some (ip, off) \<Rightarrow> kseq (ilock (Some ip)) (kbind (inode_of ip) (\<lambda>x.
            if d_nlink (i_d x) < 1 then kpanic ''unlink: nlink < 1''
            else kbind (if d_type (i_d x) = T_DIR then isdirempty ip else kret True) (\<lambda>empty.
              if \<not> empty then kseq (iunlockput ip) bad
              else kbind (writei dp (replicate 16 0) off 16) (\<lambda>r.
                if r \<noteq> 16 then kpanic ''unlink: writei''
                else kseq (kblock
                 [kbind (inode_of ip) (\<lambda>x. kwhen (d_type (i_d x) = T_DIR) (add_nlink (- 1) dp)),
                  iunlockput dp,
                  add_nlink (- 1) ip,
                  iunlockput ip,
                  end_op]) (kret 0))))))))))"

definition create :: "u8 list \<Rightarrow> int \<Rightarrow> int \<Rightarrow> int \<Rightarrow> (nat option, 'z kern_scheme) K" where
  "create path type major minor = kbind (nameiparent path) (\<lambda>r. case r of
     None \<Rightarrow> kret None
   | Some (dp, name) \<Rightarrow> kseq (ilock (Some dp)) (kbind (dirlookup dp (of_bytes name)) (\<lambda>r. case r of
      Some (ip, _) \<Rightarrow> kseq (kblock [iunlockput dp, ilock (Some ip)]) (kbind (inode_of ip) (\<lambda>x.
        if type = T_FILE \<and> d_type (i_d x) = T_FILE then kret (Some ip)
        else kseq (iunlockput ip) (kret None)))
    | None \<Rightarrow> kbind (inode_of dp) (\<lambda>y. kbind (ialloc (i_dev y) type) (\<lambda>ip. kseq (kblock
        [ilock (Some ip),
         kmod (upd_d ip (\<lambda>d. d\<lparr>d_major := major, d_minor := minor, d_nlink := 1\<rparr>)),
         iupdate ip,
         kwhen (type = T_DIR) (kseq (add_nlink 1 dp) (kbind (inode_of ip) (\<lambda>x. kbind (dirlink ip (of_bytes [46]) (i_inum x)) (\<lambda>r.
           if r < 0 then kpanic ''create dots''
           else kbind (inode_of dp) (\<lambda>y. kbind (dirlink ip (of_bytes [46, 46]) (i_inum y)) (\<lambda>r.
             if r < 0 then kpanic ''create dots'' else kret ())))))),
         kbind (inode_of ip) (\<lambda>x. kbind (dirlink dp (of_bytes name) (i_inum x)) (\<lambda>r.
           if r < 0 then kpanic ''create: dirlink'' else kret ())),
         iunlockput dp])
        (kret (Some ip)))))))"

section \<open>Opening and making\<close>

definition open_file :: "nat \<Rightarrow> u32 \<Rightarrow> (int, 'z kern_scheme) K" where
  "open_file ip omode = kbind filealloc (\<lambda>f. case f of
     None \<Rightarrow> kseq (kblock [iunlockput ip, end_op]) (kret (- 1))
   | Some f \<Rightarrow> kbind (fdalloc f) (\<lambda>fd.
       if fd < 0 then kseq (kblock [fileclose f, iunlockput ip, end_op]) (kret (- 1))
       else kseq (kblock
        [iunlock (Some ip),
         end_op,
         kmod (upd_file f (\<lambda>x. x\<lparr>f_type := FD_INODE, f_ip := ip, f_off := 0, f_readable := omode AND O_WRONLY = 0,
           f_writable := omode AND O_WRONLY \<noteq> 0 \<or> omode AND O_RDWR \<noteq> 0\<rparr>))])
        (kret fd)))"

definition sys_open :: "(int, 'z kern_scheme) K" where
  "sys_open = or_fail (argstr 0) (\<lambda>path. or_fail (argint 1) (\<lambda>omode. kseq begin_op
     (if omode AND O_CREATE \<noteq> 0 then kbind (create path T_FILE 0 0) (\<lambda>r. case r of
        None \<Rightarrow> kseq end_op (kret (- 1)) | Some ip \<Rightarrow> open_file ip omode)
      else kbind (namei path) (\<lambda>r. case r of
        None \<Rightarrow> kseq end_op (kret (- 1))
      | Some ip \<Rightarrow> kseq (ilock (Some ip)) (kbind (inode_of ip) (\<lambda>x.
          if d_type (i_d x) = T_DIR \<and> omode \<noteq> 0 then kseq (kblock [iunlockput ip, end_op]) (kret (- 1))
          else open_file ip omode))))))"

text \<open>In these three, the arguments are fetched inside the transaction.\<close>

definition op_fail :: "('a option, 'z kern_scheme) K \<Rightarrow> ('a \<Rightarrow> (int, 'z kern_scheme) K) \<Rightarrow> (int, 'z kern_scheme) K" where
  "op_fail m f = kbind m (\<lambda>r. case r of None \<Rightarrow> kseq end_op (kret (- 1)) | Some x \<Rightarrow> f x)"

definition sys_mkdir :: "(int, 'z kern_scheme) K" where
  "sys_mkdir = kseq begin_op (op_fail (argstr 0) (\<lambda>path. op_fail (create path T_DIR 0 0) (\<lambda>ip.
     kseq (kblock [iunlockput ip, end_op]) (kret 0))))"

definition sys_mknod :: "(int, 'z kern_scheme) K" where
  "sys_mknod = kseq begin_op (op_fail (argstr 0) (\<lambda>path. op_fail (argint 1) (\<lambda>major. op_fail (argint 2) (\<lambda>minor.
     op_fail (create path T_DEV (s16 (sint major)) (s16 (sint minor))) (\<lambda>ip.
       kseq (kblock [iunlockput ip, end_op]) (kret 0))))))"

definition sys_chdir :: "(int, 'z kern_scheme) K" where
  "sys_chdir = kseq begin_op (op_fail (argstr 0) (\<lambda>path. op_fail (namei path) (\<lambda>ip. kseq (ilock (Some ip)) (kbind (inode_of ip) (\<lambda>x.
     if d_type (i_d x) \<noteq> T_DIR then kseq (kblock [iunlockput ip, end_op]) (kret (- 1))
     else with_proc (\<lambda>i. kseq (kblock
       [iunlock (Some ip),
        kbind (kget (\<lambda>s. p_cwd (procs s ! i))) (\<lambda>cwd. case cwd of None \<Rightarrow> kundef | Some c \<Rightarrow> iput c),
        end_op,
        kmod (upd_proc i (\<lambda>p. p\<lparr>p_cwd := Some ip\<rparr>))]) (kret 0)))))))"

definition sys_pipe :: "(int, 'z kern_scheme) K" where
  "sys_pipe = or_fail (argptr 0 8) (\<lambda>p. or_fail pipealloc (\<lambda>(rf, wf). kbind (fdalloc rf) (\<lambda>fd0.
     if fd0 < 0 then kseq (kblock [fileclose rf, fileclose wf]) (kret (- 1))
     else kbind (fdalloc wf) (\<lambda>fd1.
       if fd1 < 0 then kseq (kblock [fdclear (nat fd0), fileclose rf, fileclose wf]) (kret (- 1))
       else kseq (kblock [ustore32 p (of_int fd0), ustore32 (p + 4) (of_int fd1)]) (kret 0)))))"

end
