(* ===== verification/Exec.thy ===== *)
theory Exec
  imports Syscall
begin

text \<open>
  kernel/exec.c, \<open>loaduvm\<close> of kernel/vm.c and the system call: loading a program from a file into a
  fresh address space, building its stack, and switching to it. A short read of the ELF header, whose
  test compares as unsigned numbers, can only be the -1 of a device without a driver; the header is
  then whatever is on the stack, and the outcome undefined.
\<close>

definition MAXARG :: nat where "MAXARG = 32"
definition ELF_MAGIC :: nat where "ELF_MAGIC = 0x464C457F"
definition ELF_PROG_LOAD :: nat where "ELF_PROG_LOAD = 1"

section \<open>ELF headers\<close>

record elfhdr =
  e_magic :: nat
  e_entry :: u32
  e_phoff :: u32
  e_phnum :: nat

definition elfhdr_of :: "u8 list \<Rightarrow> elfhdr" where
  "elfhdr_of bs = \<lparr>e_magic = get_le 4 bs 0, e_entry = of_nat (get_le 4 bs 24), e_phoff = of_nat (get_le 4 bs 28),
     e_phnum = get_le 2 bs 44\<rparr>"

record proghdr =
  ph_type :: nat
  ph_off :: u32
  ph_vaddr :: u32
  ph_filesz :: u32
  ph_memsz :: u32

definition proghdr_of :: "u8 list \<Rightarrow> proghdr" where
  "proghdr_of bs = \<lparr>ph_type = get_le 4 bs 0, ph_off = of_nat (get_le 4 bs 4), ph_vaddr = of_nat (get_le 4 bs 8),
     ph_filesz = of_nat (get_le 4 bs 16), ph_memsz = of_nat (get_le 4 bs 20)\<rparr>"

section \<open>Loading\<close>

definition loaduvm :: "u32 \<Rightarrow> u32 \<Rightarrow> nat \<Rightarrow> u32 \<Rightarrow> u32 \<Rightarrow> (int, 'z kern_scheme) K" where
  "loaduvm pgdir addr ip offset sz =
     (if addr mod PGSIZE \<noteq> 0 then kpanic ''loaduvm: addr must be page aligned''
      else kloop 1048577 (\<lambda>i.
        if \<not> i < sz then kret (Inr 0)
        else kbind (walkpgdir pgdir (addr + i) False) (\<lambda>pte.
          if pte = 0 then kpanic ''loaduvm: address should exist''
          else kbind (load pte) (\<lambda>w.
            let n = (if sz - i < PGSIZE then sz - i else PGSIZE) in
            kbind (readi [] ip (unat (offset + i)) (unat n)) (\<lambda>(r, bs).
              kseq (kmod (mem_update (wr_bytes (p2v (PTE_ADDR w)) bs)))
              (if r \<noteq> sint n then kret (Inr (- 1)) else kret (Inl (i + PGSIZE)))))))
        0)"

text \<open>The program headers: \<open>Inl\<close> the size of the image, or \<open>Inr ()\<close> for a failure.\<close>

fun load_segs :: "u32 \<Rightarrow> nat \<Rightarrow> nat \<Rightarrow> u32 \<Rightarrow> u32 \<Rightarrow> (u32 + unit, 'z kern_scheme) K" where
  "load_segs pgdir ip 0 off sz = kret (Inl sz)"
| "load_segs pgdir ip (Suc n) off sz = kbind (readi [] ip (unat off) 32) (\<lambda>(r, bs).
     if r \<noteq> 32 then kret (Inr ())
     else let ph = proghdr_of bs in
       if ph_type ph \<noteq> ELF_PROG_LOAD then load_segs pgdir ip n (off + 32) sz
       else if ph_memsz ph < ph_filesz ph then kret (Inr ())
       else kbind (allocuvm pgdir sz (ph_vaddr ph + ph_memsz ph)) (\<lambda>sz.
         if sz = 0 then kret (Inr ())
         else kbind (loaduvm pgdir (ph_vaddr ph) ip (ph_off ph) (ph_filesz ph)) (\<lambda>r.
           if r < 0 then kret (Inr ()) else load_segs pgdir ip n (off + 32) sz)))"

section \<open>The stack of the new program\<close>

text \<open>The argument strings go down from \<open>sp\<close>, each with its 0 and on a multiple of 4; what is left of
the stack pointer and the addresses, or nothing when there are too many or one does not fit.\<close>

fun push_args :: "u32 \<Rightarrow> u8 list list \<Rightarrow> u32 \<Rightarrow> u32 list \<Rightarrow> ((u32 \<times> u32 list) option, 'z kern_scheme) K" where
  "push_args pgdir [] sp us = kret (Some (sp, us))"
| "push_args pgdir (a # as) sp us =
     (if MAXARG \<le> length us then kret None
      else let sp = (sp - (of_nat (length a) + 1)) AND NOT 3 in
        kbind (copyout pgdir sp (a @ [0])) (\<lambda>r. if r < 0 then kret None else push_args pgdir as sp (us @ [sp])))"

definition ustack_of :: "u32 \<Rightarrow> u32 list \<Rightarrow> u32 list" where
  "ustack_of sp us = [0xffffffff, of_nat (length us), sp - (of_nat (length us) + 1) * 4] @ us @ [0]"

text \<open>The part of a path after its last slash, as the name of the process.\<close>

definition last_elem :: "u8 list \<Rightarrow> u8 list" where
  "last_elem path = rev (takeWhile (\<lambda>c. c \<noteq> 47) (rev path))"

definition name_of :: "u8 list \<Rightarrow> string" where
  "name_of bs = map (\<lambda>b. char_of (unat b)) bs"

definition exec_commit :: "u8 list \<Rightarrow> u32 \<Rightarrow> u32 \<Rightarrow> u32 \<Rightarrow> u32 \<Rightarrow> (int, 'z kern_scheme) K" where
  "exec_commit path pgdir sz entry sp = with_proc (\<lambda>i. kbind (kget (\<lambda>s. p_pgdir (procs s ! i))) (\<lambda>old. kseq (kblock
     [kmod (upd_proc i (\<lambda>p. p\<lparr>p_name := take 15 (name_of (last_elem path)), p_pgdir := pgdir, p_sz := sz,
        p_tf := (p_tf p)\<lparr>tf_eip := entry, tf_esp := sp\<rparr>\<rparr>)),
      switchuvm i,
      freevm old])
     (kret 0)))"

definition exec_stack :: "u8 list \<Rightarrow> u8 list list \<Rightarrow> u32 \<Rightarrow> u32 \<Rightarrow> u32 \<Rightarrow> (int, 'z kern_scheme) K" where
  "exec_stack path argv pgdir entry sz =
     (let bad = kseq (freevm pgdir) (kret (- 1)); sz = PGROUNDUP sz in
      kbind (allocuvm pgdir sz (sz + 2 * PGSIZE)) (\<lambda>sz.
        if sz = 0 then bad
        else kseq (clearpteu pgdir (sz - 2 * PGSIZE)) (kbind (push_args pgdir argv sz []) (\<lambda>r. case r of
           None \<Rightarrow> bad
         | Some (sp, us) \<Rightarrow>
            let sp' = sp - (3 + of_nat (length us) + 1) * 4 in
            kbind (copyout pgdir sp' (concat (map (\<lambda>w. le_bytes 4 (unat w)) (ustack_of sp us)))) (\<lambda>r.
              if r < 0 then bad else exec_commit path pgdir sz entry sp')))))"

definition exec :: "u8 list \<Rightarrow> u8 list list \<Rightarrow> (int, 'z kern_scheme) K" where
  "exec path argv = kseq begin_op (kbind (namei path) (\<lambda>r. case r of
     None \<Rightarrow> kseq end_op (kret (- 1))
   | Some ip \<Rightarrow> let bad = kseq (kblock [iunlockput ip, end_op]) (kret (- 1)) in
       kseq (ilock (Some ip)) (kbind (readi [] ip 0 52) (\<lambda>(r, bs).
         if r < 0 then kundef
         else if r < 52 then bad
         else let elf = elfhdr_of bs in
           if e_magic elf \<noteq> ELF_MAGIC then bad
           else kbind setupkvm (\<lambda>pgdir.
             if pgdir = 0 then bad
             else kbind (load_segs pgdir ip (e_phnum elf) (e_phoff elf) 0) (\<lambda>r. case r of
                Inr _ \<Rightarrow> kseq (freevm pgdir) bad
              | Inl sz \<Rightarrow> kseq (kblock [iunlockput ip, end_op]) (exec_stack path argv pgdir (e_entry elf) sz)))))))"

text \<open>The argument vector: the strings up to a null pointer, which must be among the first 32.\<close>

fun fetch_argv :: "nat \<Rightarrow> u32 \<Rightarrow> u8 list list \<Rightarrow> (u8 list list option, 'z kern_scheme) K" where
  "fetch_argv 0 uargv as = kret None"
| "fetch_argv (Suc n) uargv as = kbind (fetchint uargv) (\<lambda>r. case r of
     None \<Rightarrow> kret None
   | Some uarg \<Rightarrow>
       if uarg = 0 then kret (Some as)
       else kbind (fetchstr uarg) (\<lambda>r. case r of
          None \<Rightarrow> kret None | Some a \<Rightarrow> fetch_argv n (uargv + 4) (as @ [a])))"

definition sys_exec :: "(int, 'z kern_scheme) K" where
  "sys_exec = or_fail (argstr 0) (\<lambda>path. or_fail (argint 1) (\<lambda>uargv. or_fail (fetch_argv MAXARG uargv []) (\<lambda>argv.
     exec path argv)))"

end
