(* ===== verification/Trap.thy ===== *)
theory Trap
  imports Sysfile Exec
begin

text \<open>
  kernel/sysproc.c, the dispatch of kernel/syscall.c, and kernel/trap.c. What comes from outside a trap
  is in a record: how the rest of the system runs while the process sleeps or has yielded, the
  address of \<open>forkret\<close>, the CPU, the faulting address, and what the keyboard and the UART deliver.
\<close>

record 's outside =
  o_envs :: "(unit, 's) K list"
  o_yield :: "'s \<Rightarrow> 's"
  o_forkret :: u32
  o_cpu :: nat
  o_cr2 :: u32
  o_kbd :: "u8 list"
  o_uart :: "u8 list"
  o_frames :: "u32 \<Rightarrow> u32"

section \<open>System calls on processes\<close>

definition sys_kill :: "(int, 'z kern_scheme) K" where
  "sys_kill = or_fail (argint 0) (\<lambda>pid. kill (sint pid))"

definition sys_getpid :: "(int, 'z kern_scheme) K" where
  "sys_getpid = with_proc (\<lambda>i. kget (\<lambda>s. p_pid (procs s ! i)))"

definition sys_sbrk :: "(int, 'z kern_scheme) K" where
  "sys_sbrk = or_fail (argint 0) (\<lambda>n. with_proc (\<lambda>i. kbind (kget (\<lambda>s. p_sz (procs s ! i))) (\<lambda>addr.
     kbind (growproc (sint n)) (\<lambda>r. kret (if r < 0 then - 1 else sint addr)))))"

text \<open>The comparison with \<open>n\<close> is unsigned.\<close>

fun sleep_loop :: "(unit, 'z kern_scheme) K list \<Rightarrow> u32 \<Rightarrow> u32 \<Rightarrow> (bool, 'z kern_scheme) K" where
  "sleep_loop es t0 n = kbind (kget ticks) (\<lambda>t.
     if \<not> t - t0 < n then kret True
     else with_proc (\<lambda>i. kbind (kget (\<lambda>s. p_killed (procs s ! i))) (\<lambda>killed.
       if killed then kret False
       else (case es of [] \<Rightarrow> ksleep ChTicks LTicks
         | e # es' \<Rightarrow> kseq (ksleep_env e ChTicks LTicks) (sleep_loop es' t0 n)))))"

declare sleep_loop.simps [simp del]

definition sys_sleep :: "(unit, 'z kern_scheme) K list \<Rightarrow> (int, 'z kern_scheme) K" where
  "sys_sleep es = or_fail (argint 0) (\<lambda>n. kseq (acq LTicks) (kbind (kget ticks) (\<lambda>t0.
     kbind (sleep_loop es t0 n) (\<lambda>r. kseq (rel LTicks) (kret (if r then 0 else - 1))))))"

definition sys_uptime :: "(int, 'z kern_scheme) K" where
  "sys_uptime = kseq (acq LTicks) (kbind (kget ticks) (\<lambda>t. kseq (rel LTicks) (kret (sint t))))"

definition sys_wait_stat :: "(unit, 'z kern_scheme) K list \<Rightarrow> (int, 'z kern_scheme) K" where
  "sys_wait_stat es = or_fail (argptr 0 4) (\<lambda>c. or_fail (argptr 1 4) (\<lambda>t. or_fail (argptr 2 4) (\<lambda>re.
     or_fail (argptr 3 4) (\<lambda>ru. or_fail (argptr 4 4) (\<lambda>st. kbind (wait_stat es) (\<lambda>(pid, times). case times of
       None \<Rightarrow> kret pid
     | Some x \<Rightarrow> kseq (kblock
        [ustore32 c (of_int (t_ctime x)), ustore32 t (of_int (t_ttime x)), ustore32 ru (of_int (t_rutime x)),
         ustore32 st (of_int (t_stime x)), ustore32 re (of_int (t_retime x))])
        (kret pid)))))))"

section \<open>Dispatch\<close>

definition syscalls :: "'z kern_scheme outside \<Rightarrow> (int, 'z kern_scheme) K list" where
  "syscalls x =
     [fork (o_forkret x), exit_proc, wait (o_envs x), sys_pipe, sys_read (o_envs x), sys_kill, sys_exec, sys_fstat,
      sys_chdir, sys_dup, sys_getpid, sys_sbrk, sys_sleep (o_envs x), sys_uptime, sys_open, sys_write (o_envs x),
      sys_mknod, sys_unlink, sys_link, sys_mkdir, sys_close, sys_wait_stat (o_envs x)]"

definition set_eax :: "int \<Rightarrow> (unit, 'z kern_scheme) K" where
  "set_eax r = with_proc (\<lambda>i. kmod (upd_proc i (\<lambda>p. p\<lparr>p_tf := (p_tf p)\<lparr>tf_eax := of_int r\<rparr>\<rparr>)))"

definition syscall :: "'z kern_scheme outside \<Rightarrow> (unit, 'z kern_scheme) K" where
  "syscall x = with_proc (\<lambda>i. kbind (kget (\<lambda>s. procs s ! i)) (\<lambda>p. let num = sint (tf_eax (p_tf p)) in
     if 0 < num \<and> num < 23 then kbind (syscalls x ! (nat num - 1)) set_eax
     else kseq (cprintf ''%d %s: unknown sys call %d\<newline>'' [AInt (p_pid p), AStr (Some (p_name p)), AInt num])
       (set_eax (- 1))))"

section \<open>Traps\<close>

record gatedesc =
  off_15_0 :: u16
  g_cs :: u16
  g_args :: nat
  g_type :: nat
  g_s :: bool
  g_dpl :: u16
  g_p :: bool
  off_31_16 :: u16

definition SETGATE :: "bool \<Rightarrow> u16 \<Rightarrow> u32 \<Rightarrow> u16 \<Rightarrow> gatedesc" where
  "SETGATE istrap sel off d = \<lparr>off_15_0 = ucast (off AND 0xffff), g_cs = sel, g_args = 0, g_type = (if istrap then 0xF else 0xE),
     g_s = False, g_dpl = d, g_p = True, off_31_16 = ucast (drop_bit 16 off)\<rparr>"

definition T_SYSCALL :: nat where "T_SYSCALL = 64"
definition SEG_KCODE :: u16 where "SEG_KCODE = 1"

definition tvinit :: "(nat \<Rightarrow> u32) \<Rightarrow> gatedesc list" where
  "tvinit vectors = (map (\<lambda>i. SETGATE False (push_bit 3 SEG_KCODE) (vectors i) 0) [0..<256])
     [T_SYSCALL := SETGATE True (push_bit 3 SEG_KCODE) (vectors T_SYSCALL) DPL_USER]"

text \<open>The clock tick, with the times kept for the current process.\<close>

definition count_time :: "proc \<Rightarrow> proc" where
  "count_time p = (case p_state p of
     RUNNING \<Rightarrow> p\<lparr>p_rutime := s32 (p_rutime p + 1)\<rparr>
   | RUNNABLE \<Rightarrow> p\<lparr>p_retime := s32 (p_retime p + 1)\<rparr>
   | SLEEPING \<Rightarrow> p\<lparr>p_stime := s32 (p_stime p + 1)\<rparr>
   | _ \<Rightarrow> p)"

definition timer_tick :: "(unit, 'z kern_scheme) K" where
  "timer_tick = kblock
     [acq LTicks,
      kmod (\<lambda>s. s\<lparr>ticks := ticks s + 1\<rparr>),
      kbind (kget curproc) (\<lambda>p. case p of None \<Rightarrow> kret () | Some i \<Rightarrow> kmod (upd_proc i count_time)),
      wakeup ChTicks,
      rel LTicks]"

definition in_user :: "trapframe \<Rightarrow> bool" where
  "in_user tf \<longleftrightarrow> tf_cs tf AND 3 = DPL_USER"

definition exit_if_killed :: "(unit, 'z kern_scheme) K" where
  "exit_if_killed = kbind (kget (\<lambda>s. case curproc s of None \<Rightarrow> False | Some i \<Rightarrow> p_killed (procs s ! i))) (\<lambda>killed.
     if killed then exit_proc else kret ())"

definition bad_trap :: "'z kern_scheme outside \<Rightarrow> trapframe \<Rightarrow> (unit, 'z kern_scheme) K" where
  "bad_trap x tf = kbind (kget curproc) (\<lambda>cp. case (cp, tf_cs tf AND 3 = 0) of
     (Some i, False) \<Rightarrow> kbind (kget (\<lambda>s. procs s ! i)) (\<lambda>p. kseq
       (cprintf ''pid %d %s: trap %d err %d on cpu %d eip 0x%x addr 0x%x--kill proc\<newline>''
         [AInt (p_pid p), AStr (Some (p_name p)), AInt (uint (tf_trapno tf)), AInt (uint (tf_err tf)), AInt (int (o_cpu x)),
          AInt (uint (tf_eip tf)), AInt (uint (o_cr2 x))])
       (kmod (upd_proc i (\<lambda>p. p\<lparr>p_killed := True\<rparr>))))
   | _ \<Rightarrow> kseq (cprintf ''unexpected trap %d from cpu %d eip %x (cr2=0x%x)\<newline>''
         [AInt (uint (tf_trapno tf)), AInt (int (o_cpu x)), AInt (uint (tf_eip tf)), AInt (uint (o_cr2 x))])
       (kpanic ''trap''))"

definition device_trap :: "'z kern_scheme outside \<Rightarrow> trapframe \<Rightarrow> (unit, 'z kern_scheme) K" where
  "device_trap x tf = (let no = unat (tf_trapno tf) in
     if no = T_IRQ0 + IRQ_TIMER then kseq (kwhen (o_cpu x = 0) timer_tick) lapiceoi
     else if no = T_IRQ0 + IRQ_IDE then kseq ideintr lapiceoi
     else if no = T_IRQ0 + IRQ_IDE + 1 then kret ()
     else if no = T_IRQ0 + IRQ_KBD then kseq (kbdintr (o_frames x) (o_kbd x)) lapiceoi
     else if no = T_IRQ0 + IRQ_COM1 then kseq (uartintr (o_frames x) (o_uart x)) lapiceoi
     else if no = T_IRQ0 + 7 \<or> no = T_IRQ0 + IRQ_SPURIOUS then
       kseq (cprintf ''cpu%d: spurious interrupt at %x:%x\<newline>'' [AInt (int (o_cpu x)), AInt (uint (tf_cs tf)), AInt (uint (tf_eip tf))]) lapiceoi
     else bad_trap x tf)"

definition trap :: "'z kern_scheme outside \<Rightarrow> trapframe \<Rightarrow> (unit, 'z kern_scheme) K" where
  "trap x tf =
     (if unat (tf_trapno tf) = T_SYSCALL then with_proc (\<lambda>i. kblock
        [exit_if_killed,
         kmod (upd_proc i (\<lambda>p. p\<lparr>p_tf := tf\<rparr>)),
         syscall x,
         exit_if_killed])
      else kblock
        [device_trap x tf,
         kwhen (in_user tf) exit_if_killed,
         kbind (kget (\<lambda>s. case curproc s of None \<Rightarrow> False | Some i \<Rightarrow> p_state (procs s ! i) = RUNNING)) (\<lambda>running.
           kwhen (running \<and> unat (tf_trapno tf) = T_IRQ0 + IRQ_TIMER) (yield_cpu (o_yield x))),
         kwhen (in_user tf) exit_if_killed])"

section \<open>What the clock counts\<close>

lemma count_time_sel [simp]:
  "p_state (count_time p) = p_state p" "p_chan (count_time p) = p_chan p"
  by (simp_all add: count_time_def split: procstate.split)

lemma wake_times [simp]:
  "p_stime (wake c p) = p_stime p" "p_retime (wake c p) = p_retime p" "p_rutime (wake c p) = p_rutime p"
  by (simp_all add: wake_def)

lemma timer_tick_apply:
  assumes "held s = []"
  shows "timer_tick s = Ok () (s\<lparr>ticks := ticks s + 1,
    procs := map (wake ChTicks) (case curproc s of None \<Rightarrow> procs s | Some i \<Rightarrow> (procs s)[i := count_time (procs s ! i)])\<rparr>)"
proof -
  have h: "s\<lparr>ticks := x, procs := y, held := []\<rparr> = s\<lparr>ticks := x, procs := y\<rparr>" for x y
    using assms by (cases s) simp
  show ?thesis using assms h
    by (cases "curproc s") (simp_all add: timer_tick_def kseq_def kbind_def acq_apply rel_apply wakeup_apply upd_proc_def)
qed

text \<open>
  C34. What the times of a process are: a clock tick adds one to the running time of the process on the
  CPU, and to nothing else; in particular the sleep time of no process grows, asleep or not, so it
  stays 0 for ever, and the ready time that \<open>wait_stat\<close> reports, being the rest of the life of the
  process, includes all of its sleep. Sleepers on the clock become runnable.
\<close>

lemma timer_counts:
  assumes s: "held s = []" "curproc s = Some i" "i < length (procs s)" "p_state (procs s ! i) = RUNNING"
    and p: "p_stime p = 0" "0 \<le> p_ctime p" "0 \<le> p_rutime p" "p_ctime p + p_rutime p \<le> p_ttime p" "p_ttime p < 2147483648"
  shows "(\<exists>t. timer_tick s = Ok () t \<and> ticks t = ticks s + 1 \<and> map p_stime (procs t) = map p_stime (procs s) \<and>
      map p_retime (procs t) = map p_retime (procs s) \<and>
      map p_rutime (procs t) = (map p_rutime (procs s))[i := s32 (p_rutime (procs s ! i) + 1)] \<and>
      (\<forall>k < length (procs s). p_state (procs t ! k) = (if p_state (procs s ! k) = SLEEPING \<and> p_chan (procs s ! k) = Some ChTicks
         then RUNNABLE else p_state (procs s ! k)))) \<and>
    t_stime (proc_times p) = 0 \<and> t_retime (proc_times p) = t_ttime (proc_times p) - t_ctime (proc_times p) - t_rutime (proc_times p)"
proof -
  let ?q = "count_time (procs s ! i)"
  have q: "p_stime ?q = p_stime (procs s ! i)" "p_retime ?q = p_retime (procs s ! i)" "p_rutime ?q = s32 (p_rutime (procs s ! i) + 1)"
    using s(4) by (simp_all add: count_time_def)
  let ?t = "s\<lparr>ticks := ticks s + 1, procs := map (wake ChTicks) ((procs s)[i := ?q])\<rparr>"
  have run: "timer_tick s = Ok () ?t" using timer_tick_apply [OF s(1)] s(2) by simp
  have "map p_stime (procs ?t) = map p_stime (procs s)" "map p_retime (procs ?t) = map p_retime (procs s)"
    "map p_rutime (procs ?t) = (map p_rutime (procs s))[i := s32 (p_rutime (procs s ! i) + 1)]"
    using s(3) q by (simp_all add: map_update comp_def list_update_same_conv)
  moreover have "p_state (procs ?t ! k) = (if p_state (procs s ! k) = SLEEPING \<and> p_chan (procs s ! k) = Some ChTicks
      then RUNNABLE else p_state (procs s ! k))" if "k < length (procs s)" for k
    using that by (cases "k = i") (auto simp: wake_def)
  moreover have "t_retime (proc_times p) = t_ttime (proc_times p) - t_ctime (proc_times p) - t_rutime (proc_times p)"
    using p by (simp add: proc_times_def s32_id)
  ultimately show ?thesis using run p(1) by (auto simp: proc_times_def intro!: exI [of _ ?t])
qed

lemma timer_counts_witness:
  "\<exists>t. timer_tick (up_kern [zero_proc\<lparr>p_state := RUNNING, p_rutime := 4\<rparr>, zero_proc\<lparr>p_state := SLEEPING, p_chan := Some (ChProc 1)\<rparr>]) = Ok () t \<and>
     map p_rutime (procs t) = [5, 0] \<and> map p_stime (procs t) = [0, 0] \<and> t_retime (proc_times (zero_proc\<lparr>p_ttime := 9, p_rutime := 5\<rparr>)) = 4"
  using timer_counts [of "up_kern [zero_proc\<lparr>p_state := RUNNING, p_rutime := 4\<rparr>, zero_proc\<lparr>p_state := SLEEPING, p_chan := Some (ChProc 1)\<rparr>]" 0
      "zero_proc\<lparr>p_ttime := 9, p_rutime := 5\<rparr>"]
  by (auto simp: zero_proc_def s32_def proc_times_def)

end
