(* ===== verification/Ulib.thy ===== *)
theory Ulib
  imports Sysfile
begin

text \<open>
  What user programs are written with: the outcome of a user computation, the system calls it makes,
  and user/ulib.c. A program runs against an operating system \<open>os\<close>, which says what each system call
  does to a world of type \<open>'s\<close> outside the process; a call may also end the process (\<open>exec\<close> replaces
  it, and a process that was killed does not come back). The child of a \<open>fork\<close> runs the code that
  follows the call with the result 0; that code is an argument of the call. A pointer to a string is
  the list of the bytes from it up to the terminator, and the byte behind the list is the terminator.
\<close>

section \<open>Outcomes\<close>

text \<open>
  \<open>Ret\<close> is a normal return, \<open>Exit\<close> the end of the process, \<open>Spin\<close> a loop that has not ended within the
  turns it was given, \<open>Wild\<close> an access to memory that the C language gives no meaning to.
\<close>

datatype ('a, 's) ures = Ret 'a 's | Exit 's | Spin | Wild

type_synonym ('a, 's) U = "'s \<Rightarrow> ('a, 's) ures"
type_synonym cstr = "u8 list"

definition ubind :: "('a, 's) U \<Rightarrow> ('a \<Rightarrow> ('b, 's) U) \<Rightarrow> ('b, 's) U" where
  "ubind m f = (\<lambda>s. case m s of Ret a t \<Rightarrow> f a t | Exit t \<Rightarrow> Exit t | Spin \<Rightarrow> Spin | Wild \<Rightarrow> Wild)"

definition useq :: "('a, 's) U \<Rightarrow> ('b, 's) U \<Rightarrow> ('b, 's) U" where
  "useq m n = ubind m (\<lambda>_. n)"

definition uwild :: "('a, 's) U" where
  "uwild = (\<lambda>s. Wild)"

definition uspin :: "('a, 's) U" where
  "uspin = (\<lambda>s. Spin)"

definition uwhen :: "bool \<Rightarrow> (unit, 's) U \<Rightarrow> (unit, 's) U" where
  "uwhen b m = (if b then m else Ret ())"

fun ufor :: "'x list \<Rightarrow> ('x \<Rightarrow> (unit, 's) U) \<Rightarrow> (unit, 's) U" where
  "ufor [] body = Ret ()"
| "ufor (x # xs) body = useq (body x) (ufor xs body)"

text \<open>A loop of at most \<open>n\<close> turns: \<open>Inl\<close> of the loop variables goes on, \<open>Inr\<close> of the result leaves.\<close>

fun uloop :: "nat \<Rightarrow> ('x \<Rightarrow> ('x + 'y, 's) U) \<Rightarrow> 'x \<Rightarrow> ('y, 's) U" where
  "uloop 0 body x = uspin"
| "uloop (Suc n) body x = ubind (body x) (\<lambda>r. case r of Inl x' \<Rightarrow> uloop n body x' | Inr y \<Rightarrow> Ret y)"

lemma uwild_apply [simp]: "uwild s = Wild"
  by (simp add: uwild_def)

lemma uspin_apply [simp]: "uspin s = Spin"
  by (simp add: uspin_def)

lemma ubind_Ret [simp]: "ubind (Ret x) f = f x"
  by (rule ext) (simp add: ubind_def)

lemma ubind_ret_right [simp]: "ubind m Ret = m"
  by (rule ext) (simp add: ubind_def split: ures.splits)

lemma useq_Ret [simp]: "useq (Ret x) m = m"
  by (simp add: useq_def)

lemma ubind_done: "m s = Ret a t \<Longrightarrow> ubind m f s = f a t"
  by (simp add: ubind_def)

lemma useq_done: "m s = Ret a t \<Longrightarrow> useq m n s = n t"
  by (simp add: useq_def ubind_def)

lemma ubind_assoc [simp]: "ubind (ubind m f) g = ubind m (\<lambda>x. ubind (f x) g)"
  by (rule ext) (simp add: ubind_def split: ures.splits)

lemma useq_assoc [simp]: "useq (useq m n) k = useq m (useq n k)"
  by (simp add: useq_def)

lemma useq_ubind [simp]: "useq (ubind m f) k = ubind m (\<lambda>x. useq (f x) k)"
  by (simp add: useq_def)

lemma ubind_useq [simp]: "ubind (useq m n) f = useq m (ubind n f)"
  by (simp add: useq_def)

lemma useq_unit_right [simp]: "useq m (Ret ()) = m"
  by (rule ext) (simp add: useq_def ubind_def split: ures.splits)

lemma ufor_append: "ufor (xs @ ys) body = useq (ufor xs body) (ufor ys body)"
  by (induction xs) simp_all

section \<open>System calls\<close>

text \<open>The declarations of user/user.h that usys.S turns into traps.\<close>

record 's os =
  os_fork :: "(unit, 's) U \<Rightarrow> (int, 's) U"
  os_wait :: "(int, 's) U"
  os_pipe :: "(int \<times> int \<times> int, 's) U"
  os_write :: "int \<Rightarrow> u8 list \<Rightarrow> (int, 's) U"
  os_read :: "int \<Rightarrow> nat \<Rightarrow> (int \<times> u8 list, 's) U"
  os_close :: "int \<Rightarrow> (int, 's) U"
  os_kill :: "int \<Rightarrow> (int, 's) U"
  os_exec :: "cstr \<Rightarrow> cstr list \<Rightarrow> (int, 's) U"
  os_open :: "cstr \<Rightarrow> u32 \<Rightarrow> (int, 's) U"
  os_mknod :: "cstr \<Rightarrow> int \<Rightarrow> int \<Rightarrow> (int, 's) U"
  os_unlink :: "cstr \<Rightarrow> (int, 's) U"
  os_fstat :: "int \<Rightarrow> (int \<times> stat, 's) U"
  os_link :: "cstr \<Rightarrow> cstr \<Rightarrow> (int, 's) U"
  os_mkdir :: "cstr \<Rightarrow> (int, 's) U"
  os_chdir :: "cstr \<Rightarrow> (int, 's) U"
  os_dup :: "int \<Rightarrow> (int, 's) U"
  os_getpid :: "(int, 's) U"
  os_sleep :: "int \<Rightarrow> (int, 's) U"
  os_uptime :: "(int, 's) U"
  os_wait_stat :: "(int \<times> int \<times> int \<times> int \<times> int \<times> int, 's) U"

definition uexit :: "('a, 's) U" where
  "uexit = Exit"

lemma uexit_apply [simp]: "uexit s = Exit s"
  by (simp add: uexit_def)

definition O_RDONLY :: u32 where "O_RDONLY = 0"

text \<open>String literals.\<close>

definition lit :: "string \<Rightarrow> cstr" where
  "lit s = map of_char s"

section \<open>ulib.c: strings\<close>

definition at0 :: "cstr \<Rightarrow> u8" where
  "at0 p = (case p of [] \<Rightarrow> 0 | c # _ \<Rightarrow> c)"

text \<open>\<open>strcpy\<close> into a target of \<open>length d\<close> bytes: its bytes after the call, \<open>None\<close> when it is too small.\<close>

fun strcpy_u :: "u8 list \<Rightarrow> cstr \<Rightarrow> u8 list option" where
  "strcpy_u [] t = None"
| "strcpy_u (_ # d) t = (if at0 t = 0 then Some (0 # d) else map_option (Cons (at0 t)) (strcpy_u d (tl t)))"

function strcmp_u :: "cstr \<Rightarrow> cstr \<Rightarrow> int" where
  "strcmp_u p q = (if at0 p \<noteq> 0 \<and> at0 p = at0 q then strcmp_u (tl p) (tl q) else uint (at0 p) - uint (at0 q))"
  by auto
termination
  by (relation "measure (\<lambda>(p, q). length p)") (auto simp: at0_def split: list.splits)

declare strcmp_u.simps [simp del]

function strlen_u :: "cstr \<Rightarrow> nat" where
  "strlen_u s = (if at0 s = 0 then 0 else Suc (strlen_u (tl s)))"
  by auto
termination
  by (relation "measure length") (auto simp: at0_def split: list.splits)

declare strlen_u.simps [simp del]

text \<open>The suffix at the first occurrence of \<open>c\<close>; the terminator does not count.\<close>

function strchr_u :: "cstr \<Rightarrow> u8 \<Rightarrow> cstr option" where
  "strchr_u s c = (if at0 s = 0 then None else if at0 s = c then Some s else strchr_u (tl s) c)"
  by auto
termination
  by (relation "measure (\<lambda>(s, c). length s)") (auto simp: at0_def split: list.splits)

declare strchr_u.simps [simp del]

text \<open>The bytes of a string in a buffer that may hold more behind the terminator.\<close>

definition upto0 :: "u8 list \<Rightarrow> cstr" where
  "upto0 b = takeWhile (\<lambda>c. c \<noteq> 0) b"

text \<open>\<open>atoi\<close> computes in \<open>int\<close>; the wrap-around of an overflow is that of the machine.\<close>

function atoi_go :: "int \<Rightarrow> cstr \<Rightarrow> int" where
  "atoi_go n s = (if 48 \<le> at0 s \<and> at0 s \<le> 57 then atoi_go (s32 (n * 10 + uint (at0 s) - 48)) (tl s) else n)"
  by auto
termination
  by (relation "measure (\<lambda>(n, s). length s)") (auto simp: at0_def split: list.splits)

declare atoi_go.simps [simp del]

definition atoi :: "cstr \<Rightarrow> int" where
  "atoi = atoi_go 0"

section \<open>ulib.c: memory\<close>

text \<open>The target's \<open>n\<close> bytes after \<open>memset\<close>; \<open>memmove\<close> always copies upwards, within one buffer.\<close>

definition memset_u :: "u8 \<Rightarrow> nat \<Rightarrow> u8 list" where
  "memset_u c n = replicate n c"

fun memmove_u :: "nat \<Rightarrow> nat \<Rightarrow> nat \<Rightarrow> u8 list \<Rightarrow> u8 list" where
  "memmove_u dst src 0 b = b"
| "memmove_u dst src (Suc n) b = memmove_u (Suc dst) (Suc src) n (b[dst := b ! src])"

section \<open>ulib.c: calls\<close>

text \<open>\<open>gets_u\<close>: the bytes put in the buffer before the terminator; it holds fewer than the \<open>n\<close> of the call.\<close>

fun gets_go :: "'s os \<Rightarrow> nat \<Rightarrow> u8 list \<Rightarrow> (u8 list, 's) U" where
  "gets_go os 0 b = Ret b"
| "gets_go os (Suc n) b = ubind (os_read os 0 1) (\<lambda>(cc, c).
     if cc < 1 then Ret b
     else if at0 c = 10 \<or> at0 c = 13 then Ret (b @ [at0 c])
     else gets_go os n (b @ [at0 c]))"

definition gets_u :: "'s os \<Rightarrow> nat \<Rightarrow> (u8 list, 's) U" where
  "gets_u os n = gets_go os (n - 1) []"

definition ustat :: "'s os \<Rightarrow> cstr \<Rightarrow> (int \<times> stat option, 's) U" where
  "ustat os n = ubind (os_open os n O_RDONLY) (\<lambda>fd.
     if fd < 0 then Ret (- 1, None)
     else ubind (os_fstat os fd) (\<lambda>(r, st). useq (os_close os fd) (Ret (r, Some st))))"

section \<open>A world of streams\<close>

text \<open>
  A world to run programs in: what each file descriptor delivers, in the chunks a read returns at most,
  and what was written. \<open>read\<close> returns at most the bytes asked for of the next chunk and 0 at the end;
  \<open>write\<close> takes all of its bytes; every other call fails.
\<close>

record streams =
  w_in :: "int \<Rightarrow> u8 list list"
  w_out :: "(int \<times> u8 list) list"

definition file_os :: "streams os" where
  "file_os = \<lparr>
     os_fork = (\<lambda>_. Ret (- 1)), os_wait = Ret (- 1), os_pipe = Ret (- 1, 0, 0),
     os_write = (\<lambda>fd bs w. Ret (int (length bs)) (w\<lparr>w_out := w_out w @ [(fd, bs)]\<rparr>)),
     os_read = (\<lambda>fd n w. case w_in w fd of
         [] \<Rightarrow> Ret (0, []) w
       | c # cs \<Rightarrow> Ret (int (length (take n c)), take n c)
           (w\<lparr>w_in := (w_in w)(fd := if length c \<le> n then cs else drop n c # cs)\<rparr>)),
     os_close = (\<lambda>_. Ret (- 1)), os_kill = (\<lambda>_. Ret (- 1)), os_exec = (\<lambda>_ _. Ret (- 1)), os_open = (\<lambda>_ _. Ret (- 1)),
     os_mknod = (\<lambda>_ _ _. Ret (- 1)), os_unlink = (\<lambda>_. Ret (- 1)),
     os_fstat = (\<lambda>_. Ret (- 1, \<lparr>st_type = 0, st_dev = 0, st_ino = 0, st_nlink = 0, st_size = 0\<rparr>)),
     os_link = (\<lambda>_ _. Ret (- 1)), os_mkdir = (\<lambda>_. Ret (- 1)), os_chdir = (\<lambda>_. Ret (- 1)), os_dup = (\<lambda>_. Ret (- 1)),
     os_getpid = Ret 1, os_sleep = (\<lambda>_. Ret (- 1)), os_uptime = Ret 0, os_wait_stat = Ret (- 1, 0, 0, 0, 0, 0)\<rparr>"

section \<open>Lemmas\<close>

lemma file_os_simps [simp]:
  "os_write file_os fd bs w = Ret (int (length bs)) (w\<lparr>w_out := w_out w @ [(fd, bs)]\<rparr>)"
  "os_read file_os fd n w = (case w_in w fd of
         [] \<Rightarrow> Ret (0, []) w
       | c # cs \<Rightarrow> Ret (int (length (take n c)), take n c)
           (w\<lparr>w_in := (w_in w)(fd := if length c \<le> n then cs else drop n c # cs)\<rparr>))"
  by (simp_all add: file_os_def)

lemma at0_simps [simp]: "at0 [] = 0" "at0 (c # p) = c"
  by (simp_all add: at0_def)

lemma strlen_u_list: "0 \<notin> set s \<Longrightarrow> strlen_u s = length s"
  by (induction s) (simp_all add: strlen_u.simps)

lemma strchr_u_list: "0 \<notin> set s \<Longrightarrow> (strchr_u s c \<noteq> None) = (c \<in> set s)"
  by (induction s) (auto simp: strchr_u.simps [of "_ # _"] strchr_u.simps [of "[]"])

lemma strcmp_u_list:
  assumes "0 \<notin> set p" "0 \<notin> set q"
  shows "strcmp_u p q = 0 \<longleftrightarrow> p = q"
  using assms
proof (induction p arbitrary: q)
  case Nil
  then show ?case by (cases q) (auto simp: strcmp_u.simps [of "[]"] word_uint_eq_iff)
next
  case (Cons c p)
  then show ?case
    by (cases q) (auto simp: strcmp_u.simps [of "_ # _"] word_uint_eq_iff)
qed

lemma length_memmove_u [simp]: "length (memmove_u dst src n b) = length b"
  by (induction dst src n b rule: memmove_u.induct) simp_all

lemma memmove_u_down:
  assumes "dst \<le> src" "src + n \<le> length b"
  shows "memmove_u dst src n b = take dst b @ take n (drop src b) @ drop (dst + n) b"
  using assms
proof (induction dst src n b rule: memmove_u.induct)
  case (1 dst src b)
  then show ?case by simp
next
  case (2 dst src n b)
  have "memmove_u dst src (Suc n) b =
      take (Suc dst) (b[dst := b ! src]) @ take n (drop (Suc src) (b[dst := b ! src])) @ drop (Suc dst + n) (b[dst := b ! src])"
    using 2 by simp
  moreover have "take (Suc dst) (b[dst := b ! src]) = take dst b @ [b ! src]"
    using 2(2, 3) by (simp add: take_Suc_conv_app_nth)
  moreover have "drop (Suc src) (b[dst := b ! src]) = drop (Suc src) b"
    using 2(2) by simp
  moreover have "drop (Suc dst + n) (b[dst := b ! src]) = drop (dst + Suc n) b"
    by simp
  moreover have "take (Suc n) (drop src b) = b ! src # take n (drop (Suc src) b)"
    using 2(3) by (simp add: Cons_nth_drop_Suc [symmetric])
  ultimately show ?case by simp
qed

end
