(* ===== verification/Printf.thy ===== *)
theory Printf
  imports Ulib
begin

text \<open>
  user/printf.c: formatted output of user programs, one \<open>write\<close> per character. The number conversion
  is the loop \<open>int_chars\<close> of the kernel's \<open>printint\<close> with other digits. The lemma shows that what \<open>printf\<close>
  prints for an integer is read back by \<open>atoi\<close>.
\<close>

section \<open>printf\<close>

text \<open>A variable argument: a word, or a pointer to a string. Reading one as the other is undefined, but for
  the null pointer.\<close>

datatype uarg = UWord u32 | UStr cstr

definition putc :: "'s os \<Rightarrow> int \<Rightarrow> u8 \<Rightarrow> (unit, 's) U" where
  "putc os fd c = useq (os_write os fd [c]) (Ret ())"

definition digit_char_u :: "nat \<Rightarrow> char" where
  "digit_char_u d = ''0123456789ABCDEF'' ! d"

definition printint_u :: "'s os \<Rightarrow> int \<Rightarrow> int \<Rightarrow> nat \<Rightarrow> bool \<Rightarrow> (unit, 's) U" where
  "printint_u os fd xx base sg = ufor (lit (int_chars digit_char_u xx base sg)) (putc os fd)"

text \<open>The flag is the variable \<open>state\<close>: whether a percent sign came just before.\<close>

fun printf_go :: "'s os \<Rightarrow> int \<Rightarrow> bool \<Rightarrow> cstr \<Rightarrow> uarg list \<Rightarrow> (unit, 's) U" where
  "printf_go os fd pc [] ap = Ret ()"
| "printf_go os fd pc (c # fmt) ap =
    (if c = 0 then Ret ()
     else if \<not> pc then
       (if c = 37 then printf_go os fd True fmt ap
        else useq (putc os fd c) (printf_go os fd False fmt ap))
     else if c = 100 then (case ap of
         UWord w # ap \<Rightarrow> useq (printint_u os fd (sint w) 10 True) (printf_go os fd False fmt ap)
       | _ \<Rightarrow> uwild)
     else if c = 120 \<or> c = 112 then (case ap of
         UWord w # ap \<Rightarrow> useq (printint_u os fd (sint w) 16 False) (printf_go os fd False fmt ap)
       | _ \<Rightarrow> uwild)
     else if c = 115 then (case ap of
         UStr s # ap \<Rightarrow> useq (ufor (upto0 s) (putc os fd)) (printf_go os fd False fmt ap)
       | UWord w # ap \<Rightarrow> if w = 0 then useq (ufor (lit ''(null)'') (putc os fd)) (printf_go os fd False fmt ap) else uwild
       | [] \<Rightarrow> uwild)
     else if c = 99 then (case ap of
         UWord w # ap \<Rightarrow> useq (putc os fd (ucast w)) (printf_go os fd False fmt ap)
       | _ \<Rightarrow> uwild)
     else if c = 37 then useq (putc os fd c) (printf_go os fd False fmt ap)
     else useq (putc os fd 37) (useq (putc os fd c) (printf_go os fd False fmt ap)))"

declare printf_go.simps(2) [simp del]

definition printf :: "'s os \<Rightarrow> int \<Rightarrow> string \<Rightarrow> uarg list \<Rightarrow> (unit, 's) U" where
  "printf os fd fmt ap = printf_go os fd False (lit fmt) ap"

section \<open>Numbers come back\<close>

lemma lit_append: "lit (a @ b) = lit a @ lit b"
  by (simp add: lit_def)

lemma printf_go_text:
  "(\<And>c. c \<in> set a \<Longrightarrow> c \<noteq> 0 \<and> c \<noteq> 37) \<Longrightarrow>
   printf_go os fd False (a @ b) ap = useq (ufor a (putc os fd)) (printf_go os fd False b ap)"
  by (induction a) (auto simp: printf_go.simps(2))

lemma printf_go_int:
  "printf_go os fd False (37 # 100 # b) (UWord w # ap) =
     useq (ufor (lit (int_chars digit_char_u (sint w) 10 True)) (putc os fd)) (printf_go os fd False b ap)"
  by (simp add: printf_go.simps(2) printint_u_def)

lemma digit_char_u_code: "d < 10 \<Longrightarrow> (of_char (digit_char_u d) :: u8) = 48 + of_nat d"
proof -
  assume "d < 10"
  then have "d \<in> set [0..<10]" by simp
  moreover have "\<forall>d \<in> set [0..<10]. (of_char (digit_char_u d) :: u8) = 48 + of_nat d"
    by (simp add: digit_char_u_def upt_conv_Cons)
  ultimately show ?thesis by blast
qed

lemma atoi_go_step:
  assumes "d < 10"
  shows "atoi_go n ((48 + of_nat d) # s) = atoi_go (s32 (n * 10 + int d)) s"
proof -
  have "d \<in> set [0..<10]" using assms by simp
  moreover have "\<forall>d \<in> set [0..<10]. uint (48 + of_nat d :: u8) = 48 + int d"
    by (simp add: upt_conv_Cons)
  ultimately have u: "uint (48 + of_nat d :: u8) = 48 + int d" by blast
  then have "48 \<le> (48 + of_nat d :: u8)" "(48 + of_nat d :: u8) \<le> 57"
    using assms by (simp_all add: word_le_def)
  then show ?thesis by (subst atoi_go.simps) (simp add: u)
qed

text \<open>Reading digits, highest first, as long as the value stays in range.\<close>

lemma atoi_go_digits:
  assumes "\<forall>d \<in> set ds. d < 10" "0 \<le> n" "n * 10 ^ length ds + int (undigits 10 (rev ds)) < 2147483648"
    "\<not> (48 \<le> at0 s \<and> at0 s \<le> 57)"
  shows "atoi_go n (map (\<lambda>d. 48 + of_nat d) ds @ s) = n * 10 ^ length ds + int (undigits 10 (rev ds))"
  using assms
proof (induction ds arbitrary: n)
  case Nil
  then show ?case by (subst atoi_go.simps) auto
next
  case (Cons d ds)
  have app: "undigits 10 (xs @ [y]) = undigits 10 xs + 10 ^ length xs * y" for xs y
    by (induction xs) (simp_all add: algebra_simps)
  have e: "n * 10 ^ length (d # ds) + int (undigits 10 (rev (d # ds))) =
      (n * 10 + int d) * 10 ^ length ds + int (undigits 10 (rev ds))"
    by (simp add: app algebra_simps)
  have pos: "(n * 10 + int d) * 1 \<le> (n * 10 + int d) * 10 ^ length ds"
    using Cons.prems(2) by (intro mult_left_mono) simp_all
  then have "n * 10 + int d < 2147483648" using Cons.prems(3) unfolding e by simp
  then have m: "s32 (n * 10 + int d) = n * 10 + int d" using Cons.prems(2) by (intro s32_id) simp_all
  have "atoi_go (n * 10 + int d) (map (\<lambda>d. 48 + of_nat d) ds @ s) = (n * 10 + int d) * 10 ^ length ds + int (undigits 10 (rev ds))"
    using Cons.prems e by (intro Cons.IH) simp_all
  then show ?case using Cons.prems(1) by (simp only: list.map append_Cons atoi_go_step e m) (simp add: atoi_go_step m)
qed

text \<open>
  C36. What \<open>printf\<close> prints for \<open>%d\<close> comes back through \<open>atoi\<close>: the text around the directive is printed as
  it is, the rest of the format with the other arguments after it, and the characters printed for the
  argument, before any character that is no digit, are read by \<open>atoi\<close> as the number, for every
  \<open>int\<close> from 0 up. A negative number is printed with its sign in front, which \<open>atoi\<close> does not know:
  it reads it as 0, and reads what is behind the sign as the amount.
\<close>

lemma printf_atoi:
  assumes a: "\<forall>c \<in> set (lit a). c \<noteq> 0 \<and> c \<noteq> 37"
  shows "\<exists>bs. (\<forall>b ap. printf os fd (a @ ''%d'' @ b) (UWord w # ap) =
       useq (ufor (lit a @ bs) (putc os fd)) (printf os fd b ap)) \<and> length bs \<le> 11 \<and>
     (\<forall>s. \<not> (48 \<le> at0 s \<and> at0 s \<le> 57) \<longrightarrow>
       (if 0 \<le> sint w then atoi (bs @ s) = sint w
        else at0 bs = of_char CHR ''-'' \<and> atoi (bs @ s) = 0 \<and> (sint w \<noteq> - 2147483648 \<longrightarrow> atoi (tl bs @ s) = - sint w)))"
proof -
  let ?x = "if sint w < 0 then u32i (- sint w) else u32i (sint w)"
  let ?ds = "rev (digits_rev 10 ?x)"
  let ?bs = "lit (int_chars digit_char_u (sint w) 10 True)"
  have r: "- 2147483648 \<le> sint w" "sint w < 2147483648"
    using sint_ge [of w] sint_lt [of w] by simp_all
  have x: "int ?x = \<bar>sint w\<bar>" using r by simp
  then have small: "?x < 10 ^ 10" using r by simp
  have b: "\<forall>d \<in> set ?ds. d < 10" using digits_rev_bound [of 10 ?x] by simp
  have v: "int (undigits 10 (rev ?ds)) = \<bar>sint w\<bar>"
    by (simp only: rev_rev_ident undigits_digits [of 10, simplified] x)
  have l: "length ?ds \<le> 10" using digits_rev_length [of 10 ?x 10] small by simp
  have chars: "?bs = (if sint w < 0 then [45] else []) @ map (\<lambda>d. 48 + of_nat d) ?ds"
    using b by (simp add: int_chars_def Let_def rev_map lit_def digit_char_u_code)
  have again: "atoi (map (\<lambda>d. 48 + of_nat d) ?ds @ s) = \<bar>sint w\<bar>"
    if "\<not> (48 \<le> at0 s \<and> at0 s \<le> 57)" "\<bar>sint w\<bar> < 2147483648" for s
    using atoi_go_digits [OF b, of 0 s] v that by (simp add: atoi_def)
  have minus: "atoi (45 # t) = 0" for t
    unfolding atoi_def by (subst atoi_go.simps) simp
  have out: "printf os fd (a @ ''%d'' @ b) (UWord w # ap) = useq (ufor (lit a @ ?bs) (putc os fd)) (printf os fd b ap)" for b ap
  proof -
    have "lit (a @ ''%d'' @ b) = lit a @ 37 # 100 # lit b" by (simp add: lit_def)
    moreover have "printf_go os fd False (lit a @ 37 # 100 # lit b) (UWord w # ap) =
        useq (ufor (lit a) (putc os fd)) (printf_go os fd False (37 # 100 # lit b) (UWord w # ap))"
      using a by (intro printf_go_text) blast
    ultimately show ?thesis by (simp add: printf_def printf_go_int ufor_append)
  qed
  show ?thesis
  proof (intro exI [of _ ?bs] conjI allI impI)
    show "length ?bs \<le> 11" using l by (simp add: chars split: if_splits)
  next
    fix s assume s: "\<not> (48 \<le> at0 s \<and> at0 s \<le> 57)"
    show "if 0 \<le> sint w then atoi (?bs @ s) = sint w
        else at0 ?bs = of_char CHR ''-'' \<and> atoi (?bs @ s) = 0 \<and> (sint w \<noteq> - 2147483648 \<longrightarrow> atoi (tl ?bs @ s) = - sint w)"
    proof (cases "0 \<le> sint w")
      case True
      then show ?thesis using again [OF s] r by (simp add: chars)
    next
      case False
      then show ?thesis using again [OF s] r by (simp add: chars minus)
    qed
  qed (rule out)
qed

lemma printf_atoi_witness:
  "\<exists>bs. (\<forall>b ap. printf file_os 1 (''n = '' @ ''%d'' @ b) (UWord 1234 # ap) =
       useq (ufor (lit ''n = '' @ bs) (putc file_os 1)) (printf file_os 1 b ap)) \<and> atoi (bs @ [32, 53]) = 1234"
  using printf_atoi [of "''n = ''" file_os 1 1234] by (auto simp: lit_def)

end
