(* ===== verification/Grep.thy ===== *)
theory Grep
  imports Printf
begin

text \<open>
  user/grep.c: the matcher of Kernighan and Pike for patterns of characters, \<open>.\<close>, \<open>*\<close>, \<open>^\<close> and \<open>$\<close>, and the
  program around it, which cuts its input into lines. The matcher is shown to decide the language the
  pattern denotes.
\<close>

section \<open>The matcher\<close>

function matchhere :: "cstr \<Rightarrow> cstr \<Rightarrow> bool" and matchstar :: "u8 \<Rightarrow> cstr \<Rightarrow> cstr \<Rightarrow> bool" where
  "matchhere re str =
     (if at0 re = 0 then True
      else if at0 (tl re) = 42 then matchstar (at0 re) (tl (tl re)) str
      else if at0 re = 36 \<and> at0 (tl re) = 0 then at0 str = 0
      else if at0 str \<noteq> 0 \<and> (at0 re = 46 \<or> at0 re = at0 str) then matchhere (tl re) (tl str)
      else False)"
| "matchstar c re str =
     (if matchhere re str then True
      else if at0 str \<noteq> 0 \<and> (at0 str = c \<or> c = 46) then matchstar c re (tl str)
      else False)"
  by pat_completeness auto
termination
  by (relation "measures [\<lambda>x. case x of Inl (re, t) \<Rightarrow> length re | Inr (c, re, t) \<Rightarrow> length re,
      \<lambda>x. case x of Inl (re, t) \<Rightarrow> length t | Inr (c, re, t) \<Rightarrow> length t,
      \<lambda>x. case x of Inl _ \<Rightarrow> 0 | Inr _ \<Rightarrow> 1]")
    (auto simp: at0_def split: list.splits)

declare matchhere.simps [simp del] matchstar.simps [simp del]

function match_from :: "cstr \<Rightarrow> cstr \<Rightarrow> bool" where
  "match_from re str = (if matchhere re str then True else if at0 str \<noteq> 0 then match_from re (tl str) else False)"
  by auto
termination
  by (relation "measure (\<lambda>(re, t). length t)") (auto simp: at0_def split: list.splits)

declare match_from.simps [simp del]

definition match :: "cstr \<Rightarrow> cstr \<Rightarrow> bool" where
  "match re str = (if at0 re = 94 then matchhere (tl re) str else match_from re str)"

section \<open>grep\<close>

lemma strchr_u_Some:
  "strchr_u s c = Some q \<Longrightarrow> q \<noteq> [] \<and> length q \<le> length s \<and> q = drop (length s - length q) s \<and> at0 q = c"
proof (induction s c rule: strchr_u.induct)
  case (1 s c)
  show ?case
  proof (cases "at0 s = 0 \<or> at0 s = c")
    case True
    then show ?thesis using 1(2) by (subst (asm) strchr_u.simps) (auto split: if_splits)
  next
    case False
    then have "strchr_u (tl s) c = Some q" using 1(2) by (subst (asm) strchr_u.simps) simp
    from 1(1) [OF _ _ this] False obtain d t where s: "s = d # t"
      and q: "q \<noteq> []" "length q \<le> length t" "q = drop (length t - length q) t" "at0 q = c"
      by (cases s) auto
    have "drop (length s - length q) s = drop (length t - length q) t"
      using q(2) by (simp add: s Suc_diff_le)
    then show ?thesis using q by (simp add: s)
  qed
qed

text \<open>The inner loop over the lines of the buffer from \<open>p\<close> on; its result is the last \<open>p\<close>.\<close>

function grep_lines :: "'s os \<Rightarrow> cstr \<Rightarrow> cstr \<Rightarrow> (cstr, 's) U" where
  "grep_lines os pat p = (case strchr_u p 10 of
     None \<Rightarrow> Ret p
   | Some q \<Rightarrow> useq (if match pat (take (length p - length q) p)
        then useq (os_write os 1 (take (Suc (length p - length q)) p)) (Ret ()) else Ret ())
       (grep_lines os pat (tl q)))"
  by auto
termination
proof (relation "measure (\<lambda>(os, pat, p). length p)")
  fix p q :: cstr
  assume "strchr_u p 10 = Some q"
  then have "q \<noteq> []" "length q \<le> length p" by (auto dest: strchr_u_Some)
  then show "\<And>os pat. ((os, pat, tl q), os, pat, p) \<in> measure (\<lambda>(os, pat, p). length p)"
    by (cases q) auto
qed simp

declare grep_lines.simps [simp del]

text \<open>
  A turn with the \<open>m\<close> bytes that were kept: a buffer with no newline in it is dropped (\<open>p == buf\<close>).
  \<open>grep\<close> reads until the end of its input, at most \<open>n\<close> times.
\<close>

definition grep_turn :: "'s os \<Rightarrow> cstr \<Rightarrow> int \<Rightarrow> cstr \<Rightarrow> (cstr + unit, 's) U" where
  "grep_turn os pat fd kept = ubind (os_read os fd (1024 - length kept - 1)) (\<lambda>(n, got).
     if n \<le> 0 then Ret (Inr ())
     else let b = kept @ take (nat n) got
       in ubind (grep_lines os pat b) (\<lambda>p. Ret (Inl (if length p = length b then [] else p))))"

definition grep :: "nat \<Rightarrow> 's os \<Rightarrow> cstr \<Rightarrow> int \<Rightarrow> (unit, 's) U" where
  "grep n os pat fd = uloop n (grep_turn os pat fd) []"

definition grep_main :: "nat \<Rightarrow> 's os \<Rightarrow> cstr list \<Rightarrow> (unit, 's) U" where
  "grep_main n os argv =
     (if length argv \<le> 1 then useq (printf os 2 ''usage: grep pattern [file ...]\<newline>'' []) uexit
      else if length argv \<le> 2 then useq (grep n os (argv ! 1) 0) uexit
      else useq (ufor (drop 2 argv) (\<lambda>name. ubind (os_open os name O_RDONLY) (\<lambda>fd.
          if fd < 0 then useq (printf os 1 ''grep: cannot open %s\<newline>'' [UStr name]) uexit
          else useq (grep n os (argv ! 1) fd) (useq (os_close os fd) (Ret ()))))) uexit)"

section \<open>What a pattern means\<close>

text \<open>
  A pattern is a sequence of items, each one character of a set or any number of them, with two
  anchors; the language of the items is the set of strings they spell.
\<close>

datatype item = One u8 | Star u8

definition accepts :: "u8 \<Rightarrow> u8 \<Rightarrow> bool" where
  "accepts c x \<longleftrightarrow> c = 46 \<or> c = x"

fun lang :: "item list \<Rightarrow> cstr set" where
  "lang [] = {[]}"
| "lang (One c # is) = {x # w |x w. accepts c x \<and> w \<in> lang is}"
| "lang (Star c # is) = {v @ w |v w. (\<forall>x \<in> set v. accepts c x) \<and> w \<in> lang is}"

function items :: "cstr \<Rightarrow> item list \<times> bool" where
  "items re =
     (if re = [] then ([], False)
      else if tl re \<noteq> [] \<and> hd (tl re) = 42 then (case items (tl (tl re)) of (is, e) \<Rightarrow> (Star (hd re) # is, e))
      else if re = [36] then ([], True)
      else (case items (tl re) of (is, e) \<Rightarrow> (One (hd re) # is, e)))"
  by auto
termination
  by (relation "measure length") (auto simp: neq_Nil_conv)

declare items.simps [simp del]

definition denotes :: "cstr \<Rightarrow> cstr \<Rightarrow> bool" where
  "denotes re str \<longleftrightarrow>
     (let (start, body) = (if re \<noteq> [] \<and> hd re = 94 then (True, tl re) else (False, re)); (is, fin) = items body
      in \<exists>u v w. str = u @ v @ w \<and> v \<in> lang is \<and> (start \<longrightarrow> u = []) \<and> (fin \<longrightarrow> w = []))"

definition prefix_match :: "item list \<times> bool \<Rightarrow> cstr \<Rightarrow> bool" where
  "prefix_match r str \<longleftrightarrow> (\<exists>v w. str = v @ w \<and> v \<in> lang (fst r) \<and> (snd r \<longrightarrow> w = []))"

lemma prefix_one:
  "prefix_match (One c # is, e) str \<longleftrightarrow> str \<noteq> [] \<and> accepts c (hd str) \<and> prefix_match (is, e) (tl str)"
  by (cases str) (auto simp: prefix_match_def Cons_eq_append_conv)

lemma prefix_starE:
  assumes "prefix_match (Star c # is, e) str"
  obtains v w x where "str = (v @ x) @ w" "\<forall>y \<in> set v. accepts c y" "x \<in> lang is" "e \<longrightarrow> w = []"
proof -
  from assms obtain v0 w where s: "str = v0 @ w" "v0 \<in> lang (Star c # is)" "e \<longrightarrow> w = []"
    by (auto simp only: prefix_match_def fst_conv snd_conv)
  from s(2) obtain v x where "v0 = v @ x" "\<forall>y \<in> set v. accepts c y" "x \<in> lang is" by auto
  with s that show thesis by blast
qed

lemma prefix_star:
  "prefix_match (Star c # is, e) str \<longleftrightarrow>
     prefix_match (is, e) str \<or> (str \<noteq> [] \<and> accepts c (hd str) \<and> prefix_match (Star c # is, e) (tl str))"
proof
  assume "prefix_match (Star c # is, e) str"
  from prefix_starE [OF this] obtain v w x
    where t: "str = (v @ x) @ w" "\<forall>y \<in> set v. accepts c y" "x \<in> lang is" "e \<longrightarrow> w = []" .
  show "prefix_match (is, e) str \<or> (str \<noteq> [] \<and> accepts c (hd str) \<and> prefix_match (Star c # is, e) (tl str))"
  proof (cases v)
    case Nil
    then show ?thesis using t by (auto simp: prefix_match_def)
  next
    case (Cons y v')
    have "v' @ x \<in> lang (Star c # is)" using t Cons by auto
    then have "prefix_match (Star c # is, e) ((v' @ x) @ w)"
      using t(4) unfolding prefix_match_def fst_conv snd_conv by blast
    then show ?thesis using t Cons by simp
  qed
next
  assume "prefix_match (is, e) str \<or> (str \<noteq> [] \<and> accepts c (hd str) \<and> prefix_match (Star c # is, e) (tl str))"
  then show "prefix_match (Star c # is, e) str"
  proof
    assume "prefix_match (is, e) str"
    then obtain v w where "str = v @ w" "v \<in> lang is" "e \<longrightarrow> w = []" by (auto simp: prefix_match_def)
    moreover from this have "v \<in> lang (Star c # is)" by (auto intro: exI [of _ "[]"])
    ultimately show ?thesis by (auto simp: prefix_match_def)
  next
    assume h: "str \<noteq> [] \<and> accepts c (hd str) \<and> prefix_match (Star c # is, e) (tl str)"
    then have "prefix_match (Star c # is, e) (tl str)" by simp
    from prefix_starE [OF this] obtain v w x
      where "tl str = (v @ x) @ w" "\<forall>y \<in> set v. accepts c y" "x \<in> lang is" "e \<longrightarrow> w = []" .
    then have "str = ((hd str # v) @ x) @ w" "\<forall>y \<in> set (hd str # v). accepts c y" using h by (cases str; simp)+
    then have "(hd str # v) @ x \<in> lang (Star c # is)" using \<open>x \<in> lang is\<close> by (simp only: lang.simps) blast
    then have "prefix_match (Star c # is, e) (((hd str # v) @ x) @ w)"
      using \<open>e \<longrightarrow> w = []\<close> unfolding prefix_match_def fst_conv snd_conv by blast
    then show ?thesis using \<open>str = _\<close> by simp
  qed
qed

lemma at0_zero: "0 \<notin> set p \<Longrightarrow> at0 p = 0 \<longleftrightarrow> p = []"
  by (cases p) auto

lemma tl_zero: "0 \<notin> set p \<Longrightarrow> 0 \<notin> set (tl (p :: cstr))"
  by (cases p) auto

lemma matchhere_prefix:
  "0 \<notin> set re \<Longrightarrow> 0 \<notin> set str \<Longrightarrow> matchhere re str = prefix_match (items re) str"
  "0 \<notin> set re \<Longrightarrow> 0 \<notin> set str \<Longrightarrow> matchstar c re str = prefix_match (Star c # fst (items re), snd (items re)) str"
proof (induction re str and c re str rule: matchhere_matchstar.induct)
  case (1 re str)
  have z: "0 \<notin> set (tl re)" "0 \<notin> set (tl (tl re))" "0 \<notin> set (tl str)"
    using 1(3, 4) by (simp_all add: tl_zero)
  show ?case
  proof (cases re)
    case Nil
    then show ?thesis by (simp add: matchhere.simps items.simps prefix_match_def)
  next
    case (Cons c re')
    have c: "c \<noteq> 0" "0 \<notin> set re'" using 1(3) Cons by auto
    consider (star) "at0 re' = 42" | (dollar) "at0 re' \<noteq> 42" "c = 36" "re' = []" | (one) "at0 re' \<noteq> 42" "\<not> (c = 36 \<and> re' = [])"
      by blast
    then show ?thesis
    proof cases
      case star
      then have "re' \<noteq> []" "hd re' = 42" by (cases re'; simp)+
      then have "items re = (Star c # fst (items (tl re')), snd (items (tl re')))"
        by (subst items.simps) (simp add: Cons split: prod.splits)
      moreover have "matchhere re str = matchstar c (tl re') str"
        using star c by (subst matchhere.simps) (simp add: Cons)
      ultimately show ?thesis using 1(1) star c z 1(4) by (simp add: Cons)
    next
      case dollar
      then have "items re = ([], True)" by (subst items.simps) (simp add: Cons)
      moreover have "matchhere re str = (str = [])"
        using dollar 1(4) by (subst matchhere.simps) (simp add: Cons at0_zero)
      ultimately show ?thesis by (auto simp: prefix_match_def)
    next
      case one
      then have nostar: "\<not> (re' \<noteq> [] \<and> hd re' = 42)" by (cases re') auto
      then have it: "items re = (One c # fst (items re'), snd (items re'))"
        using one by (subst items.simps) (auto simp: Cons split: prod.splits)
      have m: "matchhere re str = (str \<noteq> [] \<and> accepts c (at0 str) \<and> matchhere re' (tl str))"
        using one c 1(4) by (subst matchhere.simps) (auto simp: Cons at0_zero accepts_def)
      show ?thesis
      proof (cases "str \<noteq> [] \<and> accepts c (at0 str)")
        case True
        then have "matchhere re' (tl str) = prefix_match (items re') (tl str)"
          using 1(2) one c z 1(4) by (simp add: Cons at0_zero accepts_def)
        then show ?thesis using True unfolding m it prefix_one by (cases str) simp_all
      next
        case False
        then show ?thesis unfolding m it prefix_one by (cases str) auto
      qed
    qed
  qed
next
  case (2 c re str)
  have z: "0 \<notin> set (tl str)" using 2(4) by (simp_all add: tl_zero)
  have h: "matchhere re str = prefix_match (items re) str" using 2 by blast
  have m: "matchstar c re str = (matchhere re str \<or> (str \<noteq> [] \<and> accepts c (at0 str) \<and> matchstar c re (tl str)))"
    using 2(4) by (subst matchstar.simps) (auto simp: at0_zero accepts_def)
  show ?case
  proof (cases "\<not> matchhere re str \<and> str \<noteq> [] \<and> accepts c (at0 str)")
    case True
    then have "matchstar c re (tl str) = prefix_match (Star c # fst (items re), snd (items re)) (tl str)"
      using 2(2) 2(3, 4) z by (simp add: at0_zero accepts_def) blast
    then show ?thesis using True h unfolding m prefix_star [of c "fst (items re)" _ str] by (cases str) simp_all
  next
    case False
    then show ?thesis using h unfolding m prefix_star [of c "fst (items re)" _ str] by (cases str) auto
  qed
qed

lemma match_from_suffix:
  "0 \<notin> set str \<Longrightarrow> match_from re str \<longleftrightarrow> (\<exists>u v. str = u @ v \<and> matchhere re v)"
proof (induction str)
  case Nil
  then show ?case by (simp add: match_from.simps)
next
  case (Cons c str)
  have "match_from re (c # str) \<longleftrightarrow> matchhere re (c # str) \<or> match_from re str"
    using Cons.prems by (subst match_from.simps) simp
  then show ?case using Cons by (auto simp: Cons_eq_append_conv)
qed

text \<open>
  C26. The matcher decides the language of the pattern: for every pattern and every line (without the
  terminator in them), \<open>match\<close> is true exactly when some part of the line is spelled by the items of the
  pattern, where a \<open>^\<close> in front forces the part to begin the line and a \<open>$\<close> at the end to end it.
\<close>

lemma match_denotes:
  assumes "0 \<notin> set re" "0 \<notin> set str"
  shows "match re str = denotes re str"
proof (cases "re \<noteq> [] \<and> hd re = 94")
  case True
  then have "at0 re = 94" "0 \<notin> set (tl re)" using assms by (cases re; simp)+
  then show ?thesis
    using True assms by (auto simp: match_def denotes_def matchhere_prefix prefix_match_def split: prod.splits)
next
  case False
  then have "at0 re \<noteq> 94" by (cases re) auto
  then have "match re str \<longleftrightarrow> (\<exists>u v. str = u @ v \<and> matchhere re v)"
    using assms by (simp add: match_def match_from_suffix)
  also have "\<dots> \<longleftrightarrow> (\<exists>u v. str = u @ v \<and> prefix_match (items re) v)"
    using assms matchhere_prefix(1) by (metis Un_iff set_append)
  also have "\<dots> \<longleftrightarrow> denotes re str"
    using False by (auto simp: denotes_def prefix_match_def split: prod.splits)
  finally show ?thesis .
qed

lemma match_denotes_witness:
  "match (lit ''^a.*c$'') (lit ''abbc'') = denotes (lit ''^a.*c$'') (lit ''abbc'')"
  using match_denotes [of "lit ''^a.*c$''" "lit ''abbc''"] by (simp add: lit_def)

end
