(* ===== verification/Utils.thy ===== *)
theory Utils
  imports Printf
begin

text \<open>
  The small user programs: cat, wc, ls, echo, kill, ln, mkdir, rm, zombie, init, and the test programs
  hello, sanity, forktest and stressfs. A program that reads until its input ends is given the number of
  reads it may make; the lemmas say that one more than the number of chunks is enough.
\<close>

section \<open>cat\<close>

definition cat_turn :: "'s os \<Rightarrow> int \<Rightarrow> unit \<Rightarrow> (unit + int, 's) U" where
  "cat_turn os fd u = ubind (os_read os fd 512) (\<lambda>(n, got).
     if 0 < n then useq (os_write os 1 (take (nat n) got)) (Ret (Inl ())) else Ret (Inr n))"

definition cat :: "nat \<Rightarrow> 's os \<Rightarrow> int \<Rightarrow> (unit, 's) U" where
  "cat k os fd = ubind (uloop k (cat_turn os fd) ()) (\<lambda>n.
     if n < 0 then useq (printf os 1 ''cat: read error\<newline>'' []) uexit else Ret ())"

text \<open>The loop over the named files that \<open>cat\<close> and \<open>wc\<close> share: a file that does not open ends the program.\<close>

definition each_file :: "'s os \<Rightarrow> string \<Rightarrow> cstr list \<Rightarrow> (cstr \<Rightarrow> int \<Rightarrow> (unit, 's) U) \<Rightarrow> (unit, 's) U" where
  "each_file os msg names body = ufor names (\<lambda>name. ubind (os_open os name O_RDONLY) (\<lambda>fd.
     if fd < 0 then useq (printf os 1 msg [UStr name]) uexit
     else useq (body name fd) (useq (os_close os fd) (Ret ()))))"

definition cat_main :: "nat \<Rightarrow> 's os \<Rightarrow> cstr list \<Rightarrow> (unit, 's) U" where
  "cat_main k os argv = (if length argv \<le> 1 then useq (cat k os 0) uexit
     else useq (each_file os ''cat: cannot open %s\<newline>'' (tl argv) (\<lambda>name fd. cat k os fd)) uexit)"

section \<open>wc\<close>

text \<open>The characters \<open>" \r\t\n\v"\<close>, and the counts: lines, words, characters, and whether in a word.\<close>

definition spaces :: cstr where
  "spaces = [32, 13, 9, 10, 11]"

record counts =
  c_lines :: int
  c_words :: int
  c_chars :: int
  c_in :: bool

definition count_char :: "u8 \<Rightarrow> counts \<Rightarrow> counts" where
  "count_char ch c =
     (let c = c\<lparr>c_chars := s32 (c_chars c + 1)\<rparr>;
          c = (if ch = 10 then c\<lparr>c_lines := s32 (c_lines c + 1)\<rparr> else c)
      in if strchr_u spaces ch \<noteq> None then c\<lparr>c_in := False\<rparr>
         else if \<not> c_in c then c\<lparr>c_words := s32 (c_words c + 1), c_in := True\<rparr> else c)"

definition wc_turn :: "'s os \<Rightarrow> int \<Rightarrow> counts \<Rightarrow> (counts + int \<times> counts, 's) U" where
  "wc_turn os fd c = ubind (os_read os fd 512) (\<lambda>(n, got).
     if 0 < n then Ret (Inl (fold count_char (take (nat n) got) c)) else Ret (Inr (n, c)))"

definition wc :: "nat \<Rightarrow> 's os \<Rightarrow> int \<Rightarrow> cstr \<Rightarrow> (unit, 's) U" where
  "wc k os fd name = ubind (uloop k (wc_turn os fd) \<lparr>c_lines = 0, c_words = 0, c_chars = 0, c_in = False\<rparr>) (\<lambda>(n, c).
     if n < 0 then useq (printf os 1 ''wc: read error\<newline>'' []) uexit
     else printf os 1 ''%d %d %d %s\<newline>'' [UWord (word_of_int (c_lines c)), UWord (word_of_int (c_words c)),
       UWord (word_of_int (c_chars c)), UStr name])"

definition wc_main :: "nat \<Rightarrow> 's os \<Rightarrow> cstr list \<Rightarrow> (unit, 's) U" where
  "wc_main k os argv = (if length argv \<le> 1 then useq (wc k os 0 []) uexit
     else useq (each_file os ''wc: cannot open %s\<newline>'' (tl argv) (\<lambda>name fd. wc k os fd name)) uexit)"

section \<open>ls\<close>

text \<open>\<open>fmtname\<close>: the part behind the last slash, padded with blanks to \<open>DIRSIZ\<close>.\<close>

definition fmtname :: "cstr \<Rightarrow> cstr" where
  "fmtname path = (let p = rev (takeWhile (\<lambda>c. c \<noteq> 47) (rev (upto0 path)))
     in if DIRSIZ \<le> strlen_u p then p else p @ memset_u 32 (DIRSIZ - strlen_u p))"

definition ls_line :: "'s os \<Rightarrow> cstr \<Rightarrow> stat \<Rightarrow> (unit, 's) U" where
  "ls_line os name st = printf os 1 ''%s %d %d %d\<newline>''
     [UStr (fmtname name), UWord (word_of_int (st_type st)), UWord (of_nat (st_ino st)), UWord (of_nat (st_size st))]"

definition ls_turn :: "'s os \<Rightarrow> cstr \<Rightarrow> int \<Rightarrow> unit \<Rightarrow> (unit + unit, 's) U" where
  "ls_turn os path fd u = ubind (os_read os fd 16) (\<lambda>(n, de).
     if n \<noteq> 16 then Ret (Inr ())
     else if de_inum de = 0 then Ret (Inl ())
     else let name = upto0 (path @ [47] @ de_name de)
       in ubind (ustat os name) (\<lambda>(r, st). case st of
            Some st \<Rightarrow> if r < 0 then useq (printf os 1 ''ls: cannot stat %s\<newline>'' [UStr name]) (Ret (Inl ()))
              else useq (ls_line os name st) (Ret (Inl ()))
          | None \<Rightarrow> useq (printf os 1 ''ls: cannot stat %s\<newline>'' [UStr name]) (Ret (Inl ()))))"

definition ls :: "nat \<Rightarrow> 's os \<Rightarrow> cstr \<Rightarrow> (unit, 's) U" where
  "ls k os path = ubind (os_open os path O_RDONLY) (\<lambda>fd.
     if fd < 0 then printf os 2 ''ls: cannot open %s\<newline>'' [UStr path]
     else ubind (os_fstat os fd) (\<lambda>(r, st).
       if r < 0 then useq (printf os 2 ''ls: cannot stat %s\<newline>'' [UStr path]) (useq (os_close os fd) (Ret ()))
       else useq (if st_type st = T_FILE then ls_line os path st
           else if st_type st = T_DIR then
             (if strlen_u path + 1 + DIRSIZ + 1 > 512 then printf os 1 ''ls: path too long\<newline>'' []
              else uloop k (ls_turn os path fd) ())
           else Ret ())
         (useq (os_close os fd) (Ret ()))))"

definition ls_main :: "nat \<Rightarrow> 's os \<Rightarrow> cstr list \<Rightarrow> (unit, 's) U" where
  "ls_main k os argv = (if length argv < 2 then useq (ls k os (lit ''.'')) uexit else useq (ufor (tl argv) (ls k os)) uexit)"

section \<open>echo, kill, ln, mkdir, rm\<close>

fun echo_args :: "'s os \<Rightarrow> cstr list \<Rightarrow> (unit, 's) U" where
  "echo_args os [] = Ret ()"
| "echo_args os (a # as) = useq (printf os 1 ''%s%s'' [UStr a, UStr (if as \<noteq> [] then lit '' '' else lit ''\<newline>'')]) (echo_args os as)"

definition echo_main :: "'s os \<Rightarrow> cstr list \<Rightarrow> (unit, 's) U" where
  "echo_main os argv = useq (echo_args os (tl argv)) uexit"

definition kill_main :: "'s os \<Rightarrow> cstr list \<Rightarrow> (unit, 's) U" where
  "kill_main os argv = (if length argv < 2 then useq (printf os 2 ''usage: kill pid...\<newline>'' []) uexit
     else useq (ufor (tl argv) (\<lambda>a. useq (os_kill os (atoi a)) (Ret ()))) uexit)"

definition ln_main :: "'s os \<Rightarrow> cstr list \<Rightarrow> (unit, 's) U" where
  "ln_main os argv = (if length argv \<noteq> 3 then useq (printf os 2 ''Usage: ln old new\<newline>'' []) uexit
     else ubind (os_link os (argv ! 1) (argv ! 2)) (\<lambda>r.
       useq (uwhen (r < 0) (printf os 2 ''link %s %s: failed\<newline>'' [UStr (argv ! 1), UStr (argv ! 2)])) uexit))"

text \<open>The loop of \<open>mkdir\<close> and \<open>rm\<close>, left at the first failure.\<close>

fun until_failure :: "cstr list \<Rightarrow> (cstr \<Rightarrow> (int, 's) U) \<Rightarrow> (cstr \<Rightarrow> (unit, 's) U) \<Rightarrow> (unit, 's) U" where
  "until_failure [] call report = Ret ()"
| "until_failure (a # as) call report = ubind (call a) (\<lambda>r. if r < 0 then report a else until_failure as call report)"

definition mkdir_main :: "'s os \<Rightarrow> cstr list \<Rightarrow> (unit, 's) U" where
  "mkdir_main os argv = (if length argv < 2 then useq (printf os 2 ''Usage: mkdir files...\<newline>'' []) uexit
     else useq (until_failure (tl argv) (os_mkdir os) (\<lambda>a. printf os 2 ''mkdir: %s failed to create\<newline>'' [UStr a])) uexit)"

definition rm_main :: "'s os \<Rightarrow> cstr list \<Rightarrow> (unit, 's) U" where
  "rm_main os argv = (if length argv < 2 then useq (printf os 2 ''Usage: rm files...\<newline>'' []) uexit
     else useq (until_failure (tl argv) (os_unlink os) (\<lambda>a. printf os 2 ''rm: %s failed to delete\<newline>'' [UStr a])) uexit)"

section \<open>init and the programs that fork\<close>

definition zombie_main :: "'s os \<Rightarrow> (unit, 's) U" where
  "zombie_main os = ubind (os_fork os uexit) (\<lambda>pid. useq (uwhen (0 < pid) (useq (os_sleep os 5) (Ret ()))) uexit)"

definition init_wait :: "'s os \<Rightarrow> int \<Rightarrow> unit \<Rightarrow> (unit + unit, 's) U" where
  "init_wait os pid u = ubind (os_wait os) (\<lambda>wpid.
     if 0 \<le> wpid \<and> wpid \<noteq> pid then useq (printf os 1 ''zombie!\<newline>'' []) (Ret (Inl ())) else Ret (Inr ()))"

definition init_turn :: "nat \<Rightarrow> 's os \<Rightarrow> unit \<Rightarrow> (unit + unit, 's) U" where
  "init_turn k os u = useq (printf os 1 ''init: starting sh\<newline>'' [])
     (ubind (os_fork os (useq (os_exec os (lit ''sh'') [lit ''sh'']) (useq (printf os 1 ''init: exec sh failed\<newline>'' []) uexit)))
       (\<lambda>pid. if pid < 0 then useq (printf os 1 ''init: fork failed\<newline>'' []) uexit
          else useq (uloop k (init_wait os pid) ()) (Ret (Inl ()))))"

definition init_main :: "nat \<Rightarrow> 's os \<Rightarrow> (unit, 's) U" where
  "init_main k os = useq (printf os 1 ''init: HERE\<newline>'' []) (ubind (os_open os (lit ''console'') O_RDWR) (\<lambda>fd.
     useq (uwhen (fd < 0) (useq (os_mknod os (lit ''console'') 1 1) (useq (os_open os (lit ''console'') O_RDWR) (Ret ()))))
       (useq (os_dup os 0) (useq (os_dup os 0) (uloop k (init_turn k os) ())))))"

section \<open>Test programs\<close>

definition hello_main :: "'s os \<Rightarrow> (unit, 's) U" where
  "hello_main os = useq (printf os 1 ''Hello, World!\<newline>'' []) uexit"

function fib :: "int \<Rightarrow> int" where
  "fib n = (if n \<le> 1 then 1 else s32 (fib (n - 1) + fib (n - 2)))"
  by auto
termination
  by (relation "measure nat") auto

declare fib.simps [simp del]

definition sanity_child :: "(unit, 's) U" where
  "sanity_child = (case fib 39 of _ \<Rightarrow> uexit)"

text \<open>The sums over the children: sleep, ready, run and turn-around time.\<close>

definition sanity_wait :: "'s os \<Rightarrow> nat \<Rightarrow> int \<times> int \<times> int \<times> int \<Rightarrow> (int \<times> int \<times> int \<times> int, 's) U" where
  "sanity_wait os i sums = (case sums of (sl, rd, rn, ta) \<Rightarrow> ubind (os_wait_stat os) (\<lambda>(pid, ct, tt, re, ru, st).
     useq (printf os 1 ''PID[%d] Creation[%d] Termination[%d] Ready Time[%d] Running Time[%d] Sleep Time[%d]\<newline>''
         (map (\<lambda>x. UWord (word_of_int x)) [pid, ct, tt, re, ru, st]))
       (Ret (s32 (sl + st), s32 (rd + re), s32 (rn + ru), s32 (s32 (s32 (ta + re) + ru) + st)))))"

fun sanity_waits :: "'s os \<Rightarrow> nat list \<Rightarrow> int \<times> int \<times> int \<times> int \<Rightarrow> (int \<times> int \<times> int \<times> int, 's) U" where
  "sanity_waits os [] sums = Ret sums"
| "sanity_waits os (i # is) sums = ubind (sanity_wait os i sums) (sanity_waits os is)"

definition sanity_main :: "'s os \<Rightarrow> (unit, 's) U" where
  "sanity_main os = useq (ufor [0..<20] (\<lambda>i. useq (os_fork os sanity_child) (Ret ())))
     (ubind (sanity_waits os [0..<20] (0, 0, 0, 0)) (\<lambda>(sl, rd, rn, ta).
       useq (printf os 1 ''Avg. Wait Time[%d] Avg. Running Time[%d] Avg. Sleep Time[%d] Avg. Turnaround Time[%d]\<newline>''
           (map (\<lambda>x. UWord (word_of_int (cdiv x 20))) [rd, rn, sl, ta])) uexit))"

definition forktest_printf :: "'s os \<Rightarrow> int \<Rightarrow> string \<Rightarrow> (unit, 's) U" where
  "forktest_printf os fd s = useq (os_write os fd (take (strlen_u (lit s)) (lit s))) (Ret ())"

definition forktest_fork :: "'s os \<Rightarrow> nat \<Rightarrow> (nat + nat, 's) U" where
  "forktest_fork os n = (if n < 1000 then ubind (os_fork os uexit) (\<lambda>pid. Ret (if pid < 0 then Inr n else Inl (Suc n)))
     else Ret (Inr n))"

definition forktest :: "'s os \<Rightarrow> (unit, 's) U" where
  "forktest os = useq (forktest_printf os 1 ''fork test\<newline>'') (ubind (uloop 1001 (forktest_fork os) 0) (\<lambda>n.
     if n = 1000 then useq (forktest_printf os 1 ''fork claimed to work N times!\<newline>'') uexit
     else useq (ufor [0..<n] (\<lambda>_. ubind (os_wait os) (\<lambda>r.
         uwhen (r < 0) (useq (forktest_printf os 1 ''wait stopped early\<newline>'') uexit))))
       (ubind (os_wait os) (\<lambda>r. if r \<noteq> - 1 then useq (forktest_printf os 1 ''wait got too many\<newline>'') uexit
          else forktest_printf os 1 ''fork test OK\<newline>''))))"

definition forktest_main :: "'s os \<Rightarrow> (unit, 's) U" where
  "forktest_main os = useq (forktest os) uexit"

definition stress_io :: "'s os \<Rightarrow> nat \<Rightarrow> (unit, 's) U" where
  "stress_io os i =
     (let path = (lit ''stressfs0'')[8 := lit ''stressfs0'' ! 8 + of_nat i]
      in useq (printf os 1 ''write %d\<newline>'' [UWord (of_nat i)]) (ubind (os_open os path (O_CREATE OR O_RDWR)) (\<lambda>fd.
        useq (ufor [0..<20] (\<lambda>_. useq (os_write os fd (memset_u 97 512)) (Ret ()))) (useq (os_close os fd)
        (useq (printf os 1 ''read\<newline>'' []) (ubind (os_open os path O_RDONLY) (\<lambda>fd.
        useq (ufor [0..<20] (\<lambda>_. useq (os_read os fd 512) (Ret ()))) (useq (os_close os fd)
        (useq (os_wait os) uexit)))))))))"

text \<open>Each process leaves the loop when a fork made a child; the child goes on with the next turn.\<close>

fun stress_forks :: "'s os \<Rightarrow> nat \<Rightarrow> nat \<Rightarrow> (unit, 's) U" where
  "stress_forks os 0 i = stress_io os i"
| "stress_forks os (Suc k) i = ubind (os_fork os (stress_forks os k (Suc i))) (\<lambda>pid.
     if 0 < pid then stress_io os i else stress_forks os k (Suc i))"

definition stressfs_main :: "'s os \<Rightarrow> (unit, 's) U" where
  "stressfs_main os = useq (printf os 1 ''stressfs starting\<newline>'' []) (stress_forks os 4 0)"

section \<open>Counting is independent of the reads\<close>

definition is_space :: "u8 \<Rightarrow> bool" where
  "is_space c \<longleftrightarrow> c \<in> {32, 13, 9, 10, 11}"

function words :: "u8 list \<Rightarrow> cstr list" where
  "words [] = []"
| "words (c # t) = (if is_space c then words t
     else (c # takeWhile (\<lambda>x. \<not> is_space x) t) # words (dropWhile (\<lambda>x. \<not> is_space x) t))"
  by pat_completeness auto
termination
  by (relation "measure length") (auto simp: le_imp_less_Suc length_dropWhile_le)

lemma strchr_spaces: "strchr_u spaces c \<noteq> None \<longleftrightarrow> is_space c"
proof -
  have "strchr_u spaces c \<noteq> None \<longleftrightarrow> c \<in> set spaces"
    by (rule strchr_u_list) (simp add: spaces_def)
  moreover have "set spaces = {32, 13, 9, 10, 11}" by (simp add: spaces_def)
  ultimately show ?thesis by (simp only: is_space_def)
qed

definition tally :: "u8 list \<Rightarrow> counts \<Rightarrow> counts" where
  "tally s c = \<lparr>c_lines = c_lines c + int (count_list s 10),
     c_words = c_words c + int (length (words (if c_in c then dropWhile (\<lambda>x. \<not> is_space x) s else s))),
     c_chars = c_chars c + int (length s), c_in = (if s = [] then c_in c else \<not> is_space (last s))\<rparr>"

definition count_room :: "nat \<Rightarrow> counts \<Rightarrow> bool" where
  "count_room n c \<longleftrightarrow> 0 \<le> c_lines c \<and> 0 \<le> c_words c \<and> 0 \<le> c_chars c \<and>
     c_lines c + int n < 2147483648 \<and> c_words c + int n < 2147483648 \<and> c_chars c + int n < 2147483648"

lemma count_char_tally:
  assumes "count_room (Suc n) c"
  shows "count_char ch c = tally [ch] c \<and> count_room n (tally [ch] c)"
  using assms
  by (cases c) (auto simp: count_char_def tally_def count_room_def strchr_spaces is_space_def s32_id Let_def simp del: not_None_eq)

lemma tally_Nil [simp]: "tally [] c = c"
  by (cases c) (simp add: tally_def)

lemma tally_Cons: "tally s (tally [ch] c) = tally (ch # s) c"
  by (cases c) (auto simp: tally_def)

lemma fold_count_char:
  assumes "count_room (length s + n) c"
  shows "fold count_char s c = tally s c \<and> count_room n (tally s c)"
  using assms
proof (induction s arbitrary: c)
  case Nil
  then show ?case by simp
next
  case (Cons ch s)
  then have "count_char ch c = tally [ch] c \<and> count_room (length s + n) (tally [ch] c)"
    by (intro count_char_tally) simp
  with Cons.IH [of "tally [ch] c"] show ?case by (simp add: tally_Cons)
qed

lemma tally_append: "tally t (tally s c) = tally (s @ t) c"
proof (induction s arbitrary: c)
  case Nil
  then show ?case by simp
next
  case (Cons ch s)
  have "tally t (tally (ch # s) c) = tally t (tally s (tally [ch] c))" by (simp only: tally_Cons)
  also have "\<dots> = tally (s @ t) (tally [ch] c)" by (rule Cons)
  finally show ?case by (simp only: tally_Cons append_Cons)
qed

definition good_chunks :: "nat \<Rightarrow> u8 list list \<Rightarrow> bool" where
  "good_chunks n cs \<longleftrightarrow> (\<forall>c \<in> set cs. c \<noteq> [] \<and> length c \<le> n)"

lemma wc_loop:
  assumes "good_chunks 512 cs" "w_in w fd = cs" "count_room (length (concat cs)) c" "length cs < k"
  shows "uloop k (wc_turn file_os fd) c w = Ret (0, tally (concat cs) c) (w\<lparr>w_in := (w_in w)(fd := [])\<rparr>)"
  using assms
proof (induction cs arbitrary: k w c)
  case Nil
  then show ?case by (cases k) (simp_all add: ubind_def wc_turn_def fun_upd_idem)
next
  case (Cons d cs)
  let ?w = "w\<lparr>w_in := (w_in w)(fd := cs)\<rparr>"
  from Cons.prems obtain k' where k: "k = Suc k'" by (cases k) auto
  have d: "d \<noteq> []" "length d \<le> 512" and g: "good_chunks 512 cs" using Cons.prems(1) by (auto simp: good_chunks_def)
  have f: "fold count_char d c = tally d c" "count_room (length (concat cs)) (tally d c)"
    using fold_count_char [of d "length (concat cs)" c] Cons.prems(3) by simp_all
  have "wc_turn file_os fd c w = Ret (Inl (tally d c)) (w\<lparr>w_in := (w_in w)(fd := cs)\<rparr>)"
    using d Cons.prems(2) by (simp add: wc_turn_def ubind_def f)
  then have "uloop k (wc_turn file_os fd) c w =
      uloop k' (wc_turn file_os fd) (tally d c) (w\<lparr>w_in := (w_in w)(fd := cs)\<rparr>)"
    by (simp add: k ubind_def)
  moreover have "uloop k' (wc_turn file_os fd) (tally d c) ?w = Ret (0, tally (concat cs) (tally d c)) (?w\<lparr>w_in := (w_in ?w)(fd := [])\<rparr>)"
    using Cons.prems(4) k by (intro Cons.IH [OF g _ f(2)]) simp_all
  moreover have "?w\<lparr>w_in := (w_in ?w)(fd := [])\<rparr> = w\<lparr>w_in := (w_in w)(fd := [])\<rparr>"
    by (cases w) simp
  ultimately have "uloop k (wc_turn file_os fd) c w = Ret (0, tally (concat cs) (tally d c)) (w\<lparr>w_in := (w_in w)(fd := [])\<rparr>)"
    by (simp only:)
  then show ?case by (simp only: tally_append concat.simps)
qed

text \<open>
  C37. \<open>wc\<close> counts the file and not its reads: however the bytes of a file are cut into the chunks that
  \<open>read\<close> delivers, \<open>wc\<close> comes to the end with one read more than there are chunks and prints the number
  of newlines, of maximal runs of characters that are no blanks, and of bytes in the whole file.
\<close>

lemma wc_counts:
  assumes "good_chunks 512 cs" "w_in w fd = cs" "length (concat cs) < 2147483648" "length cs < k"
  shows "wc k file_os fd name w = printf file_os 1 ''%d %d %d %s\<newline>''
      [UWord (of_nat (count_list (concat cs) 10)), UWord (of_nat (length (words (concat cs)))),
       UWord (of_nat (length (concat cs))), UStr name] (w\<lparr>w_in := (w_in w)(fd := [])\<rparr>)"
proof -
  let ?c = "\<lparr>c_lines = 0, c_words = 0, c_chars = 0, c_in = False\<rparr>"
  have "uloop k (wc_turn file_os fd) ?c w = Ret (0, tally (concat cs) ?c) (w\<lparr>w_in := (w_in w)(fd := [])\<rparr>)"
    using assms by (intro wc_loop) (simp_all add: count_room_def)
  then show ?thesis by (simp add: wc_def ubind_def tally_def)
qed

lemma wc_counts_witness:
  "wc 3 file_os 0 [] \<lparr>w_in = (\<lambda>_. [[97, 32, 98], [99, 10]]), w_out = []\<rparr> = printf file_os 1 ''%d %d %d %s\<newline>''
      [UWord 1, UWord 2, UWord 5, UStr []] \<lparr>w_in = (\<lambda>_. [[97, 32, 98], [99, 10]])(0 := []), w_out = []\<rparr>"
  using wc_counts [of "[[97, 32, 98], [99, 10]]" "\<lparr>w_in = (\<lambda>_. [[97, 32, 98], [99, 10]]), w_out = []\<rparr>" 0 3 "[]"]
  by (simp add: good_chunks_def is_space_def)

end
