(* ===== verification/Sort.thy ===== *)
theory Sort
  imports Utils "HOL-Library.Multiset"
begin

text \<open>
  user/sort.c of homework 1: read numbers, sort them by insertion, print them in either order. The buffer
  of 512 bytes is global, starts as zeros and keeps the old bytes behind what a read delivers; \<open>atoi\<close>
  reads on into them, and past the end of the buffer nothing is known. The array holds 512 numbers.
\<close>

section \<open>Insertion sort\<close>

text \<open>The inner loop with \<open>k = j + 1\<close>, and the store that follows it.\<close>

fun sift :: "int list \<Rightarrow> int \<Rightarrow> nat \<Rightarrow> int list" where
  "sift arr tmp 0 = arr[0 := tmp]"
| "sift arr tmp (Suc j) = (if arr ! j > tmp then sift (arr[Suc j := arr ! j]) tmp j else arr[Suc j := tmp])"

definition insertionSort :: "int list \<Rightarrow> nat \<Rightarrow> int list" where
  "insertionSort arr n = fold (\<lambda>i arr. sift arr (arr ! i) i) [1..<n] arr"

section \<open>Reading the numbers\<close>

definition is_digit :: "u8 \<Rightarrow> bool" where
  "is_digit c \<longleftrightarrow> 48 \<le> c \<and> c \<le> 57"

text \<open>
  The scan of \<open>k\<close> bytes at \<open>p\<close>: \<open>inword\<close> is the variable \<open>num\<close>, \<open>arr\<close> the first \<open>size\<close> elements of the
  array. \<open>None\<close> is an access behind the buffer or the array.
\<close>

fun sort_scan :: "nat \<Rightarrow> u8 list \<Rightarrow> bool \<Rightarrow> int list \<Rightarrow> (bool \<times> int list) option" where
  "sort_scan 0 p inword arr = Some (inword, arr)"
| "sort_scan (Suc k) [] inword arr = None"
| "sort_scan (Suc k) (c # p) inword arr =
    (if strchr_u spaces c \<noteq> None then sort_scan k p False arr
     else if \<not> inword then
       (if 512 \<le> length arr \<or> list_all is_digit (c # p) then None
        else sort_scan k p True (arr @ [atoi (c # p)]))
     else sort_scan k p inword arr)"

definition sort_turn :: "'s os \<Rightarrow> int \<Rightarrow> u8 list \<times> bool \<times> int list \<Rightarrow>
    ((u8 list \<times> bool \<times> int list) + (int \<times> u8 list \<times> int list), 's) U" where
  "sort_turn os fd st = (case st of (b, inword, arr) \<Rightarrow> ubind (os_read os fd 512) (\<lambda>(n, got).
     if n \<le> 0 then Ret (Inr (n, b, arr))
     else let b = take (nat n) got @ drop (nat n) b
       in case sort_scan (nat n) b inword arr of
            None \<Rightarrow> uwild
          | Some (inword, arr) \<Rightarrow> Ret (Inl (b, inword, arr))))"

definition Printing :: "'s os \<Rightarrow> int list \<Rightarrow> (unit, 's) U" where
  "Printing os arr = useq (ufor arr (\<lambda>x. printf os 1 ''%d '' [UWord (word_of_int x)])) (printf os 1 ''\<newline>'' [])"

definition Reverseprint :: "'s os \<Rightarrow> int list \<Rightarrow> (unit, 's) U" where
  "Reverseprint os arr = useq (ufor (rev arr) (\<lambda>x. printf os 1 ''%d '' [UWord (word_of_int x)])) (printf os 1 ''\<newline>'' [])"

text \<open>The result is the global buffer.\<close>

definition sort_fd :: "nat \<Rightarrow> 's os \<Rightarrow> int \<Rightarrow> bool \<Rightarrow> u8 list \<Rightarrow> (u8 list, 's) U" where
  "sort_fd k os fd rflag b = ubind (uloop k (sort_turn os fd) (b, False, [])) (\<lambda>(n, b, arr).
     if n < 0 then useq (printf os 1 ''sort: read error\<newline>'' []) uexit
     else let arr = insertionSort arr (length arr)
       in useq (if rflag then Reverseprint os arr else Printing os arr) (Ret b))"

fun sort_files :: "nat \<Rightarrow> 's os \<Rightarrow> bool \<Rightarrow> cstr list \<Rightarrow> u8 list \<Rightarrow> bool \<Rightarrow> (bool, 's) U" where
  "sort_files k os rflag [] b oflag = Ret oflag"
| "sort_files k os rflag (a # as) b oflag = ubind (os_open os a O_RDONLY) (\<lambda>fd.
     if 0 < fd then ubind (sort_fd k os fd rflag b) (\<lambda>b. useq (os_close os fd) (sort_files k os rflag as b True))
     else sort_files k os rflag as b oflag)"

definition sort_main :: "nat \<Rightarrow> 's os \<Rightarrow> cstr list \<Rightarrow> (unit, 's) U" where
  "sort_main k os argv =
     (let rflag = (\<exists>a \<in> set (tl argv). strcmp_u a (lit ''-r'') = 0); b = replicate 512 0
      in if int (length argv) - (if rflag then 1 else 0) \<le> 1 then useq (sort_fd k os 0 rflag b) uexit
         else ubind (sort_files k os rflag (tl argv) b False) (\<lambda>oflag.
           useq (uwhen (\<not> oflag) (printf os 1 ''sort can't open any files\<newline>'' [])) uexit))"

section \<open>The sort sorts\<close>

lemma drop_tl: "drop (Suc n) xs = tl (drop n xs)"
  by (simp add: drop_Suc tl_drop)

lemma sift_sorts:
  assumes "k < length arr" "sorted (take k arr)"
  shows "length (sift arr tmp k) = length arr \<and> drop (Suc k) (sift arr tmp k) = drop (Suc k) arr \<and>
     mset (take (Suc k) (sift arr tmp k)) = add_mset tmp (mset (take k arr)) \<and> sorted (take (Suc k) (sift arr tmp k))"
  using assms
proof (induction arr tmp k rule: sift.induct)
  case (1 arr tmp)
  then show ?case by (cases arr) simp_all
next
  case (2 arr tmp j)
  have pre: "take (Suc j) arr = take j arr @ [arr ! j]" using 2(2) by (simp add: take_Suc_conv_app_nth)
  have s: "sorted (take j arr)" "\<forall>x \<in> set (take j arr). x \<le> arr ! j"
    using 2(3) by (simp_all add: pre sorted_append)
  show ?case
  proof (cases "arr ! j > tmp")
    case True
    let ?a = "arr[Suc j := arr ! j]"
    have IH: "length (sift ?a tmp j) = length arr" "drop (Suc j) (sift ?a tmp j) = drop (Suc j) ?a"
      "mset (take (Suc j) (sift ?a tmp j)) = add_mset tmp (mset (take j arr))" "sorted (take (Suc j) (sift ?a tmp j))"
      using 2(1) [OF True] 2(2) s(1) by simp_all
    have d: "drop (Suc j) ?a = arr ! j # drop (Suc (Suc j)) arr"
      using 2(2) by (simp add: drop_update_swap Cons_nth_drop_Suc [symmetric])
    have d2: "drop (Suc (Suc j)) (sift ?a tmp j) = drop (Suc (Suc j)) arr"
      by (simp only: drop_tl [of "Suc j"] IH(2) d list.sel)
    have "sift ?a tmp j ! Suc j = arr ! j"
      using arg_cong [OF IH(2), of hd] 2(2) IH(1) by (simp add: d hd_drop_conv_nth)
    then have t: "take (Suc (Suc j)) (sift ?a tmp j) = take (Suc j) (sift ?a tmp j) @ [arr ! j]"
      using 2(2) IH(1) by (simp add: take_Suc_conv_app_nth [of "Suc j"])
    have "set (take (Suc j) (sift ?a tmp j)) = insert tmp (set (take j arr))"
      using arg_cong [OF IH(3), of set_mset] by simp
    then have "sorted (take (Suc (Suc j)) (sift ?a tmp j))"
      using IH(4) s(2) True by (simp add: t sorted_append)
    then show ?thesis using True IH(1) d2 by (simp add: t IH(3) pre)
  next
    case False
    have "take (Suc (Suc j)) (arr[Suc j := tmp]) = take (Suc j) arr @ [tmp]"
      using 2(2) by (simp add: take_Suc_conv_app_nth [of "Suc j"])
    moreover have "sorted (take (Suc j) arr @ [tmp])"
      using 2(3) s(2) False by (auto simp: sorted_append pre)
    ultimately show ?thesis using False by simp
  qed
qed

lemma insertionSort_sorts:
  assumes "n \<le> length arr"
  shows "sorted (take n (insertionSort arr n)) \<and> mset (take n (insertionSort arr n)) = mset (take n arr) \<and>
     length (insertionSort arr n) = length arr \<and> drop n (insertionSort arr n) = drop n arr"
proof (cases "n = 0")
  case True
  then show ?thesis by (simp add: insertionSort_def)
next
  case False
  then obtain m where n: "n = Suc m" by (cases n) auto
  let ?f = "\<lambda>k. fold (\<lambda>i arr. sift arr (arr ! i) i) [1..<Suc k] arr"
  have "k \<le> m \<Longrightarrow> sorted (take (Suc k) (?f k)) \<and> mset (take (Suc k) (?f k)) = mset (take (Suc k) arr) \<and>
      length (?f k) = length arr \<and> drop (Suc k) (?f k) = drop (Suc k) arr" for k
  proof (induction k)
    case 0
    then show ?case using assms n by (cases arr) simp_all
  next
    case (Suc k)
    then have IH: "sorted (take (Suc k) (?f k))" "mset (take (Suc k) (?f k)) = mset (take (Suc k) arr)"
      "length (?f k) = length arr" "drop (Suc k) (?f k) = drop (Suc k) arr" by simp_all
    have l: "Suc k < length arr" using Suc.prems assms n by simp
    have step: "?f (Suc k) = sift (?f k) (?f k ! Suc k) (Suc k)" by simp
    have e: "?f k ! Suc k = arr ! Suc k"
      using arg_cong [OF IH(4), of hd] l IH(3) by (simp add: hd_drop_conv_nth)
    have "drop (Suc (Suc k)) (?f k) = drop (Suc (Suc k)) arr"
      by (simp only: drop_tl [of "Suc k"] IH(4))
    moreover have "mset (take (Suc (Suc k)) arr) = add_mset (arr ! Suc k) (mset (take (Suc k) arr))"
      using l by (simp add: take_Suc_conv_app_nth [of "Suc k"])
    ultimately show ?case
      using sift_sorts [of "Suc k" "?f k" "?f k ! Suc k"] l IH unfolding step e by simp
  qed
  from this [of m] show ?thesis by (simp add: insertionSort_def n)
qed

section \<open>The numbers of a text\<close>

lemma atoi_go_end: "\<not> is_digit (at0 s) \<Longrightarrow> atoi_go n (w @ s) = atoi_go n w"
proof (induction w arbitrary: n)
  case Nil
  then show ?case by (subst (1 2) atoi_go.simps) (auto simp: is_digit_def)
next
  case (Cons c w)
  then show ?case by (subst (1 2) atoi_go.simps) simp
qed

lemma space_no_digit: "is_space c \<Longrightarrow> \<not> is_digit c"
  by (auto simp: is_space_def is_digit_def)

lemma is_space_no_digit: "is_digit c \<Longrightarrow> \<not> is_space c"
  using space_no_digit by blast

definition ends_blank :: "u8 list \<Rightarrow> bool" where
  "ends_blank s \<longleftrightarrow> s = [] \<or> is_space (last s)"

lemma ends_blank_word:
  assumes "ends_blank (c # s)" "\<not> is_space c"
  shows "\<exists>d t. dropWhile (\<lambda>x. \<not> is_space x) s = d # t \<and> is_space d"
proof -
  have "s \<noteq> [] \<and> is_space (last s)" using assms by (auto simp: ends_blank_def split: if_splits)
  then have "\<exists>x \<in> set s. is_space x" by auto
  then have "dropWhile (\<lambda>x. \<not> is_space x) s \<noteq> []" by (simp add: dropWhile_eq_Nil_conv)
  then show ?thesis using hd_dropWhile [of "\<lambda>x. \<not> is_space x" s] by (cases "dropWhile (\<lambda>x. \<not> is_space x) s") auto
qed

lemma sort_scan_words:
  assumes "ends_blank s"
    "length arr + length (words (if inword then dropWhile (\<lambda>x. \<not> is_space x) s else s)) \<le> 512"
  shows "sort_scan (length s) (s @ junk) inword arr =
     Some (inword \<and> s = [], arr @ map atoi (words (if inword then dropWhile (\<lambda>x. \<not> is_space x) s else s)))"
  using assms
proof (induction s arbitrary: inword arr)
  case Nil
  then show ?case by simp
next
  case (Cons c s)
  have e: "ends_blank s" using Cons.prems(1) by (auto simp: ends_blank_def split: if_splits)
  consider (space) "is_space c" | (first) "\<not> is_space c" "\<not> inword" | (inside) "\<not> is_space c" "inword" by blast
  then show ?case
  proof cases
    case space
    have "words (if inword then dropWhile (\<lambda>x. \<not> is_space x) (c # s) else c # s) = words s"
      using space by simp
    then show ?thesis
      using Cons.IH [OF e, of arr False] Cons.prems(2) space by (simp add: strchr_spaces del: not_None_eq)
  next
    case first
    obtain d t where d: "dropWhile (\<lambda>x. \<not> is_space x) s = d # t" "is_space d"
      using ends_blank_word [OF Cons.prems(1) first(1)] by blast
    let ?w = "takeWhile (\<lambda>x. \<not> is_space x) s"
    have s: "s = ?w @ d # t" using takeWhile_dropWhile_id [of "\<lambda>x. \<not> is_space x" s] d by simp
    have v: "atoi (c # s @ junk) = atoi (c # ?w)"
    proof -
      have "atoi (c # s @ junk) = atoi ((c # ?w) @ d # t @ junk)" by (subst s) simp
      also have "\<dots> = atoi (c # ?w)"
        using atoi_go_end [of "d # t @ junk" 0 "c # ?w"] space_no_digit [OF d(2)] by (simp add: atoi_def)
      finally show ?thesis .
    qed
    have nd: "\<not> list_all is_digit (c # s @ junk)"
      using space_no_digit [OF d(2)] by (subst s) simp
    have "words (c # s) = (c # ?w) # words (dropWhile (\<lambda>x. \<not> is_space x) s)" "s \<noteq> []" using first d(1) by auto
    then show ?thesis
      using Cons.IH [OF e, of "arr @ [atoi (c # ?w)]" True] Cons.prems(2) first nd
      by (simp add: strchr_spaces v del: not_None_eq)
  next
    case inside
    then have "s \<noteq> []" using Cons.prems(1) by (auto simp: ends_blank_def)
    then show ?thesis
      using inside Cons.IH [OF e, of arr True] Cons.prems(2) by (simp add: strchr_spaces del: not_None_eq)
  qed
qed

lemma words_append: "ends_blank a \<Longrightarrow> words (a @ b) = words a @ words b"
proof (induction a rule: words.induct)
  case (2 c a)
  have e: "ends_blank a" using "2.prems" by (auto simp: ends_blank_def split: if_splits)
  show ?case
  proof (cases "is_space c")
    case True
    then show ?thesis using "2.IH"(1) e by simp
  next
    case False
    obtain d t where d: "dropWhile (\<lambda>x. \<not> is_space x) a = d # t" "is_space d"
      using ends_blank_word [OF "2.prems" False] by blast
    have "dropWhile (\<lambda>x. \<not> is_space x) a \<noteq> []" using d by simp
    then obtain x where x: "x \<in> set a" "\<not> \<not> is_space x" by (auto simp: dropWhile_eq_Nil_conv)
    have "a = takeWhile (\<lambda>x. \<not> is_space x) a @ d # t" using takeWhile_dropWhile_id [of "\<lambda>x. \<not> is_space x" a] d by simp
    then have "last a = last (d # t)" by (metis last_appendR list.discI)
    moreover have "a \<noteq> []" using d by auto
    ultimately have "ends_blank (dropWhile (\<lambda>x. \<not> is_space x) a)" using e d(1) by (simp add: ends_blank_def)
    note IH = "2.IH"(2) [OF False this]
    show ?thesis
      using False IH by (simp add: dropWhile_append1 [where P = "\<lambda>x. \<not> is_space x", OF x]
        takeWhile_append1 [where P = "\<lambda>x. \<not> is_space x", OF x])
  qed
qed simp

text \<open>
  The reads of a file: \<open>cs\<close> is what they deliver, one after the other, up to its end. A text is read
  in whole lines when every read ends with a blank.
\<close>

fun delivers :: "'s os \<Rightarrow> int \<Rightarrow> nat \<Rightarrow> u8 list list \<Rightarrow> 's \<Rightarrow> 's \<Rightarrow> bool" where
  "delivers os fd n [] s t \<longleftrightarrow> os_read os fd n s = Ret (0, []) t"
| "delivers os fd n (c # cs) s t \<longleftrightarrow>
     (case os_read os fd n s of Ret (m, got) u \<Rightarrow> m = int (length c) \<and> got = c \<and> delivers os fd n cs u t | _ \<Rightarrow> False)"

definition whole_words :: "u8 list list \<Rightarrow> bool" where
  "whole_words cs \<longleftrightarrow> (\<forall>c \<in> set cs. c \<noteq> [] \<and> length c \<le> 512 \<and> is_space (last c))"

text \<open>The buffer after the reads.\<close>

definition refill :: "u8 list list \<Rightarrow> u8 list \<Rightarrow> u8 list" where
  "refill cs b = fold (\<lambda>c b. c @ drop (length c) b) cs b"

lemma sort_loop:
  assumes "whole_words cs" "delivers os fd 512 cs s t" "length b = 512" "length cs < k"
    "length arr + length (words (concat cs)) \<le> 512"
  shows "uloop k (sort_turn os fd) (b, False, arr) s = Ret (0, refill cs b, arr @ map atoi (words (concat cs))) t"
  using assms
proof (induction cs arbitrary: k b arr s)
  case Nil
  then show ?case by (cases k) (simp_all add: sort_turn_def ubind_def refill_def)
next
  case (Cons c cs)
  then obtain k' u where k: "k = Suc k'" and u: "os_read os fd 512 s = Ret (int (length c), c) u" "delivers os fd 512 cs u t"
    by (cases k) (auto split: ures.splits)
  have c: "c \<noteq> []" "length c \<le> 512" "ends_blank c" "whole_words cs"
    using Cons.prems(1) by (simp_all add: whole_words_def ends_blank_def)
  have w: "words (concat (c # cs)) = words c @ words (concat cs)" using words_append [OF c(3)] by simp
  let ?b = "c @ drop (length c) b"
  have "sort_scan (length c) ?b False arr = Some (False, arr @ map atoi (words c))"
    using sort_scan_words [OF c(3), of arr False "drop (length c) b"] Cons.prems(5) unfolding w by simp
  then have "sort_turn os fd (b, False, arr) s = Ret (Inl (?b, False, arr @ map atoi (words c))) u"
    using u(1) c(1) by (simp add: sort_turn_def ubind_def)
  then have "uloop k (sort_turn os fd) (b, False, arr) s = uloop k' (sort_turn os fd) (?b, False, arr @ map atoi (words c)) u"
    by (simp add: k ubind_def)
  also have "\<dots> = Ret (0, refill cs ?b, (arr @ map atoi (words c)) @ map atoi (words (concat cs))) t"
    using Cons.prems(3-5) c(2) k by (intro Cons.IH [OF c(4) u(2)]) (simp_all only: w, simp_all)
  finally show ?case unfolding w by (simp add: refill_def)
qed

text \<open>
  C22. \<open>sort\<close> sorts what is read in whole words: when every read of the file delivers at most 512 bytes
  that end with a blank, and the file has at most 512 words, the loop comes to the end with one read
  more than there are chunks, and the program prints a permutation of the numbers that
  the words of the file begin with, in ascending order, or in descending order with the flag.
\<close>

lemma sort_sorts:
  assumes r: "whole_words cs" "delivers os fd 512 cs s t" and few: "length (words (concat cs)) \<le> 512"
    and b: "length b = 512" and k: "length cs < k"
  shows "\<exists>xs. sorted xs \<and> mset xs = mset (map atoi (words (concat cs))) \<and>
     sort_fd k os fd rflag b s = useq (if rflag then Reverseprint os xs else Printing os xs) (Ret (refill cs b)) t"
proof -
  let ?arr = "map atoi (words (concat cs))" let ?xs = "insertionSort ?arr (length ?arr)"
  have "uloop k (sort_turn os fd) (b, False, []) s = Ret (0, refill cs b, ?arr) t"
    using sort_loop [OF r b k, of "[]"] few by simp
  then have "sort_fd k os fd rflag b s = useq (if rflag then Reverseprint os ?xs else Printing os ?xs) (Ret (refill cs b)) t"
    by (simp add: sort_fd_def ubind_def)
  moreover have "sorted ?xs \<and> mset ?xs = mset ?arr"
    using insertionSort_sorts [of "length ?arr" ?arr] by (metis order_refl take_all)
  ultimately show ?thesis by blast
qed

lemma sort_sorts_witness:
  "\<exists>xs. sorted xs \<and> mset xs = {#7, 30, 4#} \<and>
     sort_fd 3 file_os 0 False (replicate 512 0) \<lparr>w_in = (\<lambda>_. [[51, 48, 32, 55, 10], [52, 10]]), w_out = []\<rparr> =
       useq (Printing file_os xs) (Ret (refill [[51, 48, 32, 55, 10], [52, 10]] (replicate 512 0)))
         \<lparr>w_in = (\<lambda>_. [[51, 48, 32, 55, 10], [52, 10]])(0 := []), w_out = []\<rparr>"
  using sort_sorts [of "[[51, 48, 32, 55, 10], [52, 10]]" file_os 0 "\<lparr>w_in = (\<lambda>_. [[51, 48, 32, 55, 10], [52, 10]]), w_out = []\<rparr>"
      "\<lparr>w_in = (\<lambda>_. [[51, 48, 32, 55, 10], [52, 10]])(0 := []), w_out = []\<rparr>" "replicate 512 0" 3 False]
  by (simp add: whole_words_def is_space_def atoi_def atoi_go.simps s32_id add_mset_commute)

text \<open>A number that two reads cut in two is not read as one: here 1234 becomes 12.\<close>

lemma sort_cut_number:
  assumes "\<not> is_digit z"
  shows "sort_fd 3 file_os 0 False (x # y # z # b) \<lparr>w_in = (\<lambda>_. [[49, 50], [51, 52, 10]]), w_out = []\<rparr> =
     useq (Printing file_os [12]) (Ret (51 # 52 # 10 # b)) \<lparr>w_in = (\<lambda>_. [[49, 50], [51, 52, 10]])(0 := []), w_out = []\<rparr>"
proof -
  let ?w = "\<lambda>l. \<lparr>w_in = (\<lambda>_. [[49, 50], [51, 52, 10]])(0 := l), w_out = []\<rparr>"
  have "atoi ([49, 50] @ z # b) = atoi [49, 50]" unfolding atoi_def by (rule atoi_go_end) (simp add: assms)
  then have a: "atoi (49 # 50 # z # b) = 12" by (simp add: atoi_def atoi_go.simps s32_id)
  have sp: "\<not> is_space 49" "\<not> is_space 50" "\<not> is_space 51" "\<not> is_space 52" "is_space 10" by (simp_all add: is_space_def)
  have s1: "sort_scan (Suc (Suc 0)) (49 # 50 # z # b) False [] = Some (True, [12])"
    by (simp add: strchr_spaces sp assms a del: not_None_eq)
  have s2: "sort_scan (Suc (Suc (Suc 0))) (51 # 52 # 10 # b) True [12] = Some (False, [12])"
    by (simp add: strchr_spaces sp del: not_None_eq)
  have n: "sort_scan 2 = sort_scan (Suc (Suc 0))" "sort_scan 3 = sort_scan (Suc (Suc (Suc 0)))"
    "take 2 [49, 50] = [49, 50 :: u8]" "take 3 [51, 52, 10] = [51, 52, 10 :: u8]"
    by (simp_all only: numeral_2_eq_2 numeral_3_eq_3 take_Suc_Cons take_0)
  have one: "sort_turn file_os 0 (x # y # z # b, False, []) \<lparr>w_in = (\<lambda>_. [[49, 50], [51, 52, 10]]), w_out = []\<rparr> =
      Ret (Inl (49 # 50 # z # b, True, [12])) (?w [[51, 52, 10]])"
    by (simp add: sort_turn_def ubind_def n s1 Let_def del: sort_scan.simps)
  have two: "sort_turn file_os 0 (49 # 50 # z # b, True, [12]) (?w [[51, 52, 10]]) =
      Ret (Inl (51 # 52 # 10 # b, False, [12])) (?w [])"
    by (simp add: sort_turn_def ubind_def n s2 Let_def del: sort_scan.simps)
  have three: "sort_turn file_os 0 (51 # 52 # 10 # b, False, [12]) (?w []) = Ret (Inr (0, 51 # 52 # 10 # b, [12])) (?w [])"
    by (simp add: sort_turn_def ubind_def)
  show ?thesis by (simp add: sort_fd_def ubind_def numeral_3_eq_3 one two three insertionSort_def)
qed

end
