(* ===== verification/Sh.thy ===== *)
theory Sh
  imports Utils
begin

text \<open>
  user/sh.c: the shell. A pointer into the line is an offset into the buffer \<open>b\<close>; \<open>es\<close> is the offset of
  its terminator. The parser builds a tree whose words are pairs of offsets, of the first byte and of the
  byte behind the last; \<open>nulterminate\<close> then writes a terminator behind every word. A call of \<open>panic\<close>
  prints and ends the process. The parser is given fuel, which is shown to be enough. Memory for the
  tree is taken for granted (the source does not check the result of \<open>malloc\<close> either).
\<close>

section \<open>Commands\<close>

datatype cmd =
    EXEC "(nat \<times> nat) list"
  | REDIR cmd nat nat u32 int
  | PIPE cmd cmd
  | LIST cmd cmd
  | BACK cmd

definition MAXARGS :: nat where "MAXARGS = 10"

datatype 'a parse = Parsed 'a | Bad string | Fuel

definition pbind :: "'a parse \<Rightarrow> ('a \<Rightarrow> 'b parse) \<Rightarrow> 'b parse" where
  "pbind m f = (case m of Parsed a \<Rightarrow> f a | Bad msg \<Rightarrow> Bad msg | Fuel \<Rightarrow> Fuel)"

section \<open>Tokens\<close>

definition whitespace :: cstr where "whitespace = [32, 9, 13, 10, 11]"
definition symbols :: cstr where "symbols = [60, 124, 62, 38, 59, 40, 41]"

definition ch :: "u8 list \<Rightarrow> nat \<Rightarrow> u8" where
  "ch b p = at0 (drop p b)"

function skip_ws :: "u8 list \<Rightarrow> nat \<Rightarrow> nat \<Rightarrow> nat" where
  "skip_ws b es p = (if p < es \<and> strchr_u whitespace (ch b p) \<noteq> None then skip_ws b es (Suc p) else p)"
  by auto
termination
  by (relation "measure (\<lambda>(b, es, p). es - p)") auto

declare skip_ws.simps [simp del]

function word_end :: "u8 list \<Rightarrow> nat \<Rightarrow> nat \<Rightarrow> nat" where
  "word_end b es p = (if p < es \<and> strchr_u whitespace (ch b p) = None \<and> strchr_u symbols (ch b p) = None
     then word_end b es (Suc p) else p)"
  by auto
termination
  by (relation "measure (\<lambda>(b, es, p). es - p)") auto

declare word_end.simps [simp del]

text \<open>The token, where it begins and ends, and the new value of \<open>*ps\<close>. A word is \<open>'a'\<close>, \<open>>>\<close> is \<open>'+'\<close>.\<close>

definition gettoken :: "u8 list \<Rightarrow> nat \<Rightarrow> nat \<Rightarrow> u8 \<times> nat \<times> nat \<times> nat" where
  "gettoken b es p =
     (let q = skip_ws b es p; c = ch b q;
          (tok, eq) = (if c = 0 then (c, q)
            else if c \<in> {124, 40, 41, 59, 38, 60} then (c, Suc q)
            else if c = 62 then (if ch b (Suc q) = 62 then (43, Suc (Suc q)) else (62, Suc q))
            else (97, word_end b es q))
      in (tok, q, eq, skip_ws b es eq))"

definition peek :: "u8 list \<Rightarrow> nat \<Rightarrow> nat \<Rightarrow> cstr \<Rightarrow> bool \<times> nat" where
  "peek b es p toks = (let p = skip_ws b es p in (ch b p \<noteq> 0 \<and> strchr_u toks (ch b p) \<noteq> None, p))"

definition after :: "u8 list \<Rightarrow> nat \<Rightarrow> nat \<Rightarrow> nat" where
  "after b es p = snd (snd (snd (gettoken b es p)))"

section \<open>The parser\<close>

text \<open>The command to which a redirection token applies.\<close>

definition redir :: "u8 \<Rightarrow> cmd \<Rightarrow> nat \<Rightarrow> nat \<Rightarrow> cmd" where
  "redir tok c q eq = (if tok = 60 then REDIR c q eq O_RDONLY 0
     else if tok = 62 \<or> tok = 43 then REDIR c q eq (O_WRONLY OR O_CREATE) 1 else c)"

fun parseredirs :: "u8 list \<Rightarrow> nat \<Rightarrow> nat \<Rightarrow> cmd \<Rightarrow> nat \<Rightarrow> (cmd \<times> nat) parse" where
  "parseredirs b es 0 c p = Fuel"
| "parseredirs b es (Suc k) c p = (case peek b es p [60, 62] of (go, p) \<Rightarrow>
     if \<not> go then Parsed (c, p)
     else (case gettoken b es p of (tok, _, _, p) \<Rightarrow> (case gettoken b es p of (tok2, q, eq, p) \<Rightarrow>
       if tok2 \<noteq> 97 then Bad ''missing file for redirection''
       else parseredirs b es k (redir tok c q eq) p)))"

text \<open>An argument goes into the \<open>EXEC\<close> that redirections may already be wrapped around.\<close>

fun add_arg :: "cmd \<Rightarrow> nat \<times> nat \<Rightarrow> cmd" where
  "add_arg (EXEC as) a = EXEC (as @ [a])"
| "add_arg (REDIR c q eq mode fd) a = REDIR (add_arg c a) q eq mode fd"
| "add_arg c a = c"

fun parseargs :: "u8 list \<Rightarrow> nat \<Rightarrow> nat \<Rightarrow> cmd \<Rightarrow> nat \<Rightarrow> nat \<Rightarrow> (cmd \<times> nat) parse" where
  "parseargs b es 0 c argc p = Fuel"
| "parseargs b es (Suc k) c argc p = (case peek b es p [124, 41, 38, 59] of (stop, p) \<Rightarrow>
     if stop then Parsed (c, p)
     else (case gettoken b es p of (tok, q, eq, p) \<Rightarrow>
       if tok = 0 then Parsed (c, p)
       else if tok \<noteq> 97 then Bad ''syntax''
       else if MAXARGS \<le> Suc argc then Bad ''too many args''
       else pbind (parseredirs b es k (add_arg c (q, eq)) p) (\<lambda>(c, p). parseargs b es k c (Suc argc) p)))"

fun parseamps :: "u8 list \<Rightarrow> nat \<Rightarrow> nat \<Rightarrow> cmd \<Rightarrow> nat \<Rightarrow> (cmd \<times> nat) parse" where
  "parseamps b es 0 c p = Fuel"
| "parseamps b es (Suc k) c p = (case peek b es p [38] of (go, p) \<Rightarrow>
     if go then parseamps b es k (BACK c) (after b es p) else Parsed (c, p))"

fun parseline :: "u8 list \<Rightarrow> nat \<Rightarrow> nat \<Rightarrow> nat \<Rightarrow> (cmd \<times> nat) parse"
and parsepipe :: "u8 list \<Rightarrow> nat \<Rightarrow> nat \<Rightarrow> nat \<Rightarrow> (cmd \<times> nat) parse"
and parseexec :: "u8 list \<Rightarrow> nat \<Rightarrow> nat \<Rightarrow> nat \<Rightarrow> (cmd \<times> nat) parse"
and parseblock :: "u8 list \<Rightarrow> nat \<Rightarrow> nat \<Rightarrow> nat \<Rightarrow> (cmd \<times> nat) parse" where
  "parseline b es 0 p = Fuel"
| "parseline b es (Suc k) p = pbind (parsepipe b es k p) (\<lambda>(c, p). pbind (parseamps b es k c p) (\<lambda>(c, p).
     case peek b es p [59] of (go, p) \<Rightarrow>
       if go then pbind (parseline b es k (after b es p)) (\<lambda>(c2, p). Parsed (LIST c c2, p))
       else Parsed (c, p)))"
| "parsepipe b es 0 p = Fuel"
| "parsepipe b es (Suc k) p = pbind (parseexec b es k p) (\<lambda>(c, p).
     case peek b es p [124] of (go, p) \<Rightarrow>
       if go then pbind (parsepipe b es k (after b es p)) (\<lambda>(c2, p). Parsed (PIPE c c2, p))
       else Parsed (c, p))"
| "parseexec b es 0 p = Fuel"
| "parseexec b es (Suc k) p = (case peek b es p [40] of (block, p) \<Rightarrow>
     if block then parseblock b es k p
     else pbind (parseredirs b es k (EXEC []) p) (\<lambda>(c, p). parseargs b es k c 0 p))"
| "parseblock b es 0 p = Fuel"
| "parseblock b es (Suc k) p = (case peek b es p [40] of (open, p) \<Rightarrow>
     if \<not> open then Bad ''parseblock''
     else pbind (parseline b es k (after b es p)) (\<lambda>(c, p). case peek b es p [41] of (close, p) \<Rightarrow>
       if \<not> close then Bad ''syntax - missing )''
       else parseredirs b es k c (after b es p)))"

declare parseredirs.simps(2) [simp del] parseargs.simps(2) [simp del] parseamps.simps(2) [simp del]
  parseline.simps(2) [simp del] parsepipe.simps(2) [simp del] parseexec.simps(2) [simp del] parseblock.simps(2) [simp del]

fun nulterminate :: "cmd \<Rightarrow> u8 list \<Rightarrow> u8 list" where
  "nulterminate (EXEC as) b = fold (\<lambda>(q, eq) b. b[eq := 0]) as b"
| "nulterminate (REDIR c q eq mode fd) b = (nulterminate c b)[eq := 0]"
| "nulterminate (PIPE l r) b = nulterminate r (nulterminate l b)"
| "nulterminate (LIST l r) b = nulterminate r (nulterminate l b)"
| "nulterminate (BACK c) b = nulterminate c b"

definition sh_panic :: "'s os \<Rightarrow> string \<Rightarrow> ('a, 's) U" where
  "sh_panic os msg = useq (printf os 2 ''%s\<newline>'' [UStr (lit msg)]) uexit"

definition parse_fuel :: "nat \<Rightarrow> nat" where
  "parse_fuel n = 4 * n + 6"

definition parsecmd :: "'s os \<Rightarrow> u8 list \<Rightarrow> (cmd \<times> u8 list, 's) U" where
  "parsecmd os b = (let es = strlen_u b in
     case parseline b es (parse_fuel es) 0 of
       Fuel \<Rightarrow> uspin
     | Bad msg \<Rightarrow> sh_panic os msg
     | Parsed (c, p) \<Rightarrow> (let p = snd (peek b es p []) in
         if p \<noteq> es then useq (printf os 2 ''leftovers: %s\<newline>'' [UStr (drop p b)]) (sh_panic os ''syntax'')
         else Ret (c, nulterminate c b)))"

section \<open>Running a command\<close>

definition fork1 :: "'s os \<Rightarrow> (unit, 's) U \<Rightarrow> (int, 's) U" where
  "fork1 os child = ubind (os_fork os child) (\<lambda>pid. if pid = - 1 then sh_panic os ''fork'' else Ret pid)"

definition str_at :: "u8 list \<Rightarrow> nat \<Rightarrow> cstr" where
  "str_at b q = upto0 (drop q b)"

fun runcmd :: "'s os \<Rightarrow> u8 list \<Rightarrow> cmd \<Rightarrow> (unit, 's) U" where
  "runcmd os b (EXEC []) = uexit"
| "runcmd os b (EXEC (a # as)) =
     useq (os_exec os (str_at b (fst a)) (map (\<lambda>a. str_at b (fst a)) (a # as)))
       (useq (printf os 2 ''exec %s failed\<newline>'' [UStr (str_at b (fst a))]) uexit)"
| "runcmd os b (REDIR c q eq mode fd) = useq (os_close os fd) (ubind (os_open os (str_at b q) mode) (\<lambda>r.
     if r < 0 then useq (printf os 2 ''open %s failed\<newline>'' [UStr (str_at b q)]) uexit else runcmd os b c))"
| "runcmd os b (LIST l r) = useq (fork1 os (runcmd os b l)) (useq (os_wait os) (runcmd os b r))"
| "runcmd os b (PIPE l r) = ubind (os_pipe os) (\<lambda>(ret, p0, p1).
     if ret < 0 then sh_panic os ''pipe''
     else useq (fork1 os (useq (os_close os 1) (useq (os_dup os p1) (useq (os_close os p0) (useq (os_close os p1) (runcmd os b l))))))
       (useq (fork1 os (useq (os_close os 0) (useq (os_dup os p0) (useq (os_close os p0) (useq (os_close os p1) (runcmd os b r))))))
       (useq (os_close os p0) (useq (os_close os p1) (useq (os_wait os) (useq (os_wait os) uexit))))))"
| "runcmd os b (BACK c) = useq (fork1 os (runcmd os b c)) uexit"

section \<open>The shell\<close>

definition getcmd :: "'s os \<Rightarrow> nat \<Rightarrow> (u8 list option, 's) U" where
  "getcmd os n = useq (printf os 2 ''$ '' []) (ubind (gets_u os n) (\<lambda>b. Ret (if at0 b = 0 then None else Some b)))"

definition sh_console :: "'s os \<Rightarrow> unit \<Rightarrow> (unit + unit, 's) U" where
  "sh_console os u = ubind (os_open os (lit ''console'') O_RDWR) (\<lambda>fd.
     if 0 \<le> fd then (if 3 \<le> fd then useq (os_close os fd) (Ret (Inr ())) else Ret (Inl ())) else Ret (Inr ()))"

definition sh_turn :: "'s os \<Rightarrow> unit \<Rightarrow> (unit + unit, 's) U" where
  "sh_turn os u = ubind (getcmd os 100) (\<lambda>r. case r of
     None \<Rightarrow> Ret (Inr ())
   | Some b \<Rightarrow>
       if ch b 0 = 99 \<and> ch b 1 = 100 \<and> ch b 2 = 32 then
         (let b = b[strlen_u b - 1 := 0] in ubind (os_chdir os (str_at b 3)) (\<lambda>r.
           useq (uwhen (r < 0) (printf os 2 ''cannot cd %s\<newline>'' [UStr (str_at b 3)])) (Ret (Inl ()))))
       else useq (fork1 os (ubind (parsecmd os b) (\<lambda>(c, b). runcmd os b c)))
         (useq (os_wait os) (Ret (Inl ()))))"

definition sh_main :: "nat \<Rightarrow> 's os \<Rightarrow> (unit, 's) U" where
  "sh_main k os = useq (uloop k (sh_console os) ()) (useq (uloop k (sh_turn os) ()) uexit)"

section \<open>The parser ends\<close>

definition clean :: "u8 list \<Rightarrow> bool" where
  "clean b \<longleftrightarrow> 0 \<notin> set b"

definition blank :: "u8 \<Rightarrow> bool" where
  "blank c \<longleftrightarrow> c \<in> {32, 9, 13, 10, 11}"

definition symbol :: "u8 \<Rightarrow> bool" where
  "symbol c \<longleftrightarrow> c \<in> {60, 124, 62, 38, 59, 40, 41}"

lemma strchr_set: "0 \<notin> set toks \<Longrightarrow> (strchr_u toks c = None) = (c \<notin> set toks)"
  using strchr_u_list [of toks c] by blast

lemma strchr_lists: "(strchr_u whitespace c = None) = (\<not> blank c)" "(strchr_u symbols c = None) = (\<not> symbol c)"
proof -
  have "0 \<notin> set whitespace" "0 \<notin> set symbols" by (simp_all add: whitespace_def symbols_def)
  note strchr_set [OF this(1)] strchr_set [OF this(2)]
  moreover have "set whitespace = {32, 9, 13, 10, 11}" "set symbols = {60, 124, 62, 38, 59, 40, 41}"
    by (simp_all add: whitespace_def symbols_def)
  ultimately show "(strchr_u whitespace c = None) = (\<not> blank c)" "(strchr_u symbols c = None) = (\<not> symbol c)"
    by (simp_all only: blank_def symbol_def)
qed

lemma ch_less: "p < length b \<Longrightarrow> ch b p = b ! p"
  by (simp add: ch_def at0_def Cons_nth_drop_Suc [symmetric])

lemma ch_zero: "clean b \<Longrightarrow> ch b p = 0 \<longleftrightarrow> length b \<le> p"
  by (cases "p < length b") (auto simp: ch_less clean_def in_set_conv_nth, auto simp: ch_def)

lemma blank_zero [simp]: "\<not> blank 0" "\<not> symbol 0"
  by (simp_all add: blank_def symbol_def)

lemma skip_ws_bounds: "p \<le> es \<Longrightarrow> p \<le> skip_ws b es p \<and> skip_ws b es p \<le> es \<and>
    (skip_ws b es p = es \<or> \<not> blank (ch b (skip_ws b es p)))"
proof (induction b es p rule: skip_ws.induct)
  case (1 b es p)
  show ?case
  proof (cases "p < es \<and> blank (ch b p)")
    case True
    then have "skip_ws b es p = skip_ws b es (Suc p)" by (subst skip_ws.simps) (simp add: strchr_lists del: not_None_eq)
    with True 1 show ?thesis by (simp add: strchr_lists)
  next
    case False
    then have "skip_ws b es p = p" by (subst skip_ws.simps) (auto simp: strchr_lists)
    with False 1 show ?thesis by simp
  qed
qed

lemma skip_ws_id: "\<not> blank (ch b p) \<Longrightarrow> skip_ws b es p = p"
  by (subst skip_ws.simps) (simp add: strchr_lists)

lemma word_end_bounds: "p \<le> es \<Longrightarrow> p \<le> word_end b es p \<and> word_end b es p \<le> es"
proof (induction b es p rule: word_end.induct)
  case (1 b es p)
  show ?case
  proof (cases "p < es \<and> strchr_u whitespace (ch b p) = None \<and> strchr_u symbols (ch b p) = None")
    case True
    then have "word_end b es p = word_end b es (Suc p)" by (subst word_end.simps) simp
    with True 1 show ?thesis by simp
  next
    case False
    then have "word_end b es p = p" by (subst word_end.simps) auto
    with 1 show ?thesis by simp
  qed
qed

lemma word_end_step: "p < es \<Longrightarrow> \<not> blank (ch b p) \<Longrightarrow> \<not> symbol (ch b p) \<Longrightarrow> word_end b es p = word_end b es (Suc p)"
  by (subst word_end.simps) (simp add: strchr_lists)

lemma gettoken_bounds:
  assumes "clean b" "p \<le> length b" "gettoken b (length b) p = (tok, q, eq, p')"
  shows "p \<le> q \<and> q \<le> eq \<and> eq \<le> p' \<and> p' \<le> length b \<and> (tok \<noteq> 0 \<longrightarrow> p < p')"
proof -
  let ?q = "skip_ws b (length b) p"
  have q: "p \<le> ?q" "?q \<le> length b" "?q = length b \<or> \<not> blank (ch b ?q)"
    using skip_ws_bounds [OF assms(2), of b] by blast+
  let ?r = "if ch b ?q = 0 then (ch b ?q, ?q)
            else if ch b ?q \<in> {124, 40, 41, 59, 38, 60} then (ch b ?q, Suc ?q)
            else if ch b ?q = 62 then (if ch b (Suc ?q) = 62 then (43, Suc (Suc ?q)) else (62, Suc ?q))
            else (97, word_end b (length b) ?q)"
  have r: "tok = fst ?r" "eq = snd ?r" "q = ?q" "p' = skip_ws b (length b) eq"
    using assms(3) by (auto simp: gettoken_def Let_def split: prod.splits)
  have w: "?q < word_end b (length b) ?q \<and> word_end b (length b) ?q \<le> length b"
    if "ch b ?q \<noteq> 0" "ch b ?q \<notin> {124, 40, 41, 59, 38, 60}" "ch b ?q \<noteq> 62"
  proof -
    have l: "?q < length b" using that(1) assms(1) by (simp add: ch_zero)
    then have "word_end b (length b) ?q = word_end b (length b) (Suc ?q)"
      using q(3) that by (intro word_end_step) (auto simp: symbol_def)
    then show ?thesis using word_end_bounds [of "Suc ?q" "length b" b] l by simp
  qed
  have e: "?q \<le> eq \<and> eq \<le> length b \<and> (tok \<noteq> 0 \<longrightarrow> ?q < eq)"
    using q(2) w ch_zero [OF assms(1), of ?q] ch_zero [OF assms(1), of "Suc ?q"] by (auto simp: r(1, 2))
  then show ?thesis
    using q skip_ws_bounds [of eq "length b" b] by (auto simp: r(3, 4))
qed

lemma peek_bounds:
  assumes "clean b" "p \<le> length b" "peek b (length b) p toks = (go, p')"
  shows "p \<le> p' \<and> p' \<le> length b \<and> (go \<longrightarrow> p' < length b)"
  using skip_ws_bounds [OF assms(2), of b] assms(1, 3) by (auto simp: peek_def Let_def ch_zero not_le)

lemma after_bounds:
  assumes "clean b" "p < length b" "\<not> blank (ch b p)"
  shows "p < after b (length b) p \<and> after b (length b) p \<le> length b"
proof -
  obtain tok q eq p' where g: "gettoken b (length b) p = (tok, q, eq, p')" by (cases "gettoken b (length b) p")
  have "skip_ws b (length b) p = p" using assms(3) by (rule skip_ws_id)
  then have "tok \<noteq> 0" using g assms(1, 2) by (auto simp: gettoken_def Let_def ch_zero split: if_splits)
  then show ?thesis using gettoken_bounds [OF assms(1) _ g] assms(2) by (simp add: after_def g)
qed

lemma peek_not_blank:
  assumes "peek b es p toks = (True, p')" "\<forall>c \<in> set toks. \<not> blank c" "0 \<notin> set toks"
  shows "\<not> blank (ch b p')"
  using assms by (auto simp: peek_def Let_def strchr_set)

text \<open>A result is fine when it is no lack of fuel and the parser did not go back or past the end.\<close>

definition fine :: "nat \<Rightarrow> nat \<Rightarrow> ('a \<times> nat) parse \<Rightarrow> bool" where
  "fine es p r \<longleftrightarrow> (case r of Fuel \<Rightarrow> False | Bad _ \<Rightarrow> True | Parsed (c, p') \<Rightarrow> p \<le> p' \<and> p' \<le> es)"

lemma fine_simps [simp]: "fine es p (Bad msg)" "\<not> fine es p Fuel" "fine es p (Parsed (c, p')) \<longleftrightarrow> p \<le> p' \<and> p' \<le> es"
  by (simp_all add: fine_def)

lemma fine_mono: "fine es p' r \<Longrightarrow> p \<le> p' \<Longrightarrow> fine es p r"
  by (auto simp: fine_def split: parse.splits)

lemma fine_pbind:
  assumes "fine es p m" "\<And>c p'. p \<le> p' \<Longrightarrow> p' \<le> es \<Longrightarrow> fine es p (f (c, p'))"
  shows "fine es p (pbind m f)"
  using assms by (auto simp: fine_def [of _ _ m] pbind_def split: parse.splits)

lemma parseredirs_fine: "clean b \<Longrightarrow> p \<le> length b \<Longrightarrow> length b - p < k \<Longrightarrow> fine (length b) p (parseredirs b (length b) k c p)"
proof (induction k arbitrary: c p)
  case 0
  then show ?case by simp
next
  case (Suc k)
  obtain go p1 where k1: "peek b (length b) p [60, 62] = (go, p1)" by (cases "peek b (length b) p [60, 62]")
  obtain t1 q1 e1 p2 where k2: "gettoken b (length b) p1 = (t1, q1, e1, p2)" by (cases "gettoken b (length b) p1")
  obtain t2 q2 e2 p3 where k3: "gettoken b (length b) p2 = (t2, q2, e2, p3)" by (cases "gettoken b (length b) p2")
  have b1: "p \<le> p1" "p1 \<le> length b" using peek_bounds [OF Suc.prems(1, 2) k1] by auto
  have b2: "p1 \<le> p2" "p2 \<le> length b" using gettoken_bounds [OF Suc.prems(1) b1(2) k2] by auto
  have b3: "p2 \<le> p3" "p3 \<le> length b" "t2 = 97 \<longrightarrow> p2 < p3" using gettoken_bounds [OF Suc.prems(1) b2(2) k3] by auto
  have "fine (length b) p (parseredirs b (length b) k (redir t1 c q2 e2) p3)" if "t2 = 97"
    using Suc.prems(3) b1 b2 b3 that by (intro fine_mono [OF Suc.IH [OF Suc.prems(1) b3(2)]]) auto
  then show ?case using b1 by (simp add: parseredirs.simps k1 k2 k3)
qed

lemma parseargs_fine: "clean b \<Longrightarrow> p \<le> length b \<Longrightarrow> length b - p + 1 < k \<Longrightarrow> fine (length b) p (parseargs b (length b) k c n p)"
proof (induction k arbitrary: c n p)
  case 0
  then show ?case by simp
next
  case (Suc k)
  obtain stop p1 where k1: "peek b (length b) p [124, 41, 38, 59] = (stop, p1)" by (cases "peek b (length b) p [124, 41, 38, 59]")
  obtain t q e p2 where k2: "gettoken b (length b) p1 = (t, q, e, p2)" by (cases "gettoken b (length b) p1")
  have b1: "p \<le> p1" "p1 \<le> length b" using peek_bounds [OF Suc.prems(1, 2) k1] by auto
  have b2: "p1 \<le> p2" "p2 \<le> length b" "t \<noteq> 0 \<longrightarrow> p1 < p2" using gettoken_bounds [OF Suc.prems(1) b1(2) k2] by auto
  have "fine (length b) p (pbind (parseredirs b (length b) k (add_arg c (q, e)) p2) (\<lambda>(c, p). parseargs b (length b) k c (Suc n) p))"
    if t: "t \<noteq> 0"
  proof (rule fine_mono, rule fine_pbind)
    show "fine (length b) p2 (parseredirs b (length b) k (add_arg c (q, e)) p2)"
      using Suc.prems b1 b2 t by (intro parseredirs_fine) auto
  next
    fix c' p3 assume "p2 \<le> p3" "p3 \<le> length b"
    then show "fine (length b) p2 (case (c', p3) of (c, p) \<Rightarrow> parseargs b (length b) k c (Suc n) p)"
      using Suc.prems(3) b1 b2 t by (simp, intro fine_mono [OF Suc.IH [OF Suc.prems(1)]]) auto
  qed (use b1 b2 in simp)
  then show ?case using b1 b2 by (simp add: parseargs.simps k1 k2)
qed

lemma parseamps_fine: "clean b \<Longrightarrow> p \<le> length b \<Longrightarrow> length b - p < k \<Longrightarrow> fine (length b) p (parseamps b (length b) k c p)"
proof (induction k arbitrary: c p)
  case 0
  then show ?case by simp
next
  case (Suc k)
  obtain go p1 where k1: "peek b (length b) p [38] = (go, p1)" by (cases "peek b (length b) p [38]")
  have b1: "p \<le> p1" "p1 \<le> length b" "go \<longrightarrow> p1 < length b" using peek_bounds [OF Suc.prems(1, 2) k1] by auto
  have "fine (length b) p (parseamps b (length b) k (BACK c) (after b (length b) p1))" if go
  proof -
    have "p1 < after b (length b) p1 \<and> after b (length b) p1 \<le> length b"
      using b1 that peek_not_blank [of b "length b" p "[38]" p1] k1 Suc.prems(1)
      by (intro after_bounds) (auto simp: blank_def)
    then show ?thesis using Suc.prems(3) b1 by (intro fine_mono [OF Suc.IH [OF Suc.prems(1)]]) auto
  qed
  then show ?case using b1 by (simp add: parseamps.simps k1)
qed

text \<open>The token at which a rule goes on.\<close>

lemma peek_after:
  assumes "clean b" "p \<le> length b" "peek b (length b) p [c] = (True, p')" "\<not> blank c" "c \<noteq> 0"
  shows "p < after b (length b) p' \<and> after b (length b) p' \<le> length b"
  using after_bounds [OF assms(1), of p'] peek_bounds [OF assms(1-3)] peek_not_blank [OF assms(3)] assms(4, 5) by auto

lemma parse_fine:
  assumes "clean b"
  shows "(\<forall>p \<le> length b. 4 * (length b - p) + 6 \<le> k \<longrightarrow> fine (length b) p (parseline b (length b) k p)) \<and>
    (\<forall>p \<le> length b. 4 * (length b - p) + 5 \<le> k \<longrightarrow> fine (length b) p (parsepipe b (length b) k p)) \<and>
    (\<forall>p \<le> length b. 4 * (length b - p) + 4 \<le> k \<longrightarrow> fine (length b) p (parseexec b (length b) k p)) \<and>
    (\<forall>p \<le> length b. 4 * (length b - p) + 3 \<le> k \<longrightarrow> fine (length b) p (parseblock b (length b) k p))"
proof (induction k)
  case 0
  then show ?case by simp
next
  case (Suc k)
  let ?n = "length b"
  have line: "fine ?n p (parseline b ?n k p)" if "p \<le> ?n" "4 * (?n - p) + 6 \<le> k" for p using Suc that by blast
  have pipe: "fine ?n p (parsepipe b ?n k p)" if "p \<le> ?n" "4 * (?n - p) + 5 \<le> k" for p using Suc that by blast
  have exec: "fine ?n p (parseexec b ?n k p)" if "p \<le> ?n" "4 * (?n - p) + 4 \<le> k" for p using Suc that by blast
  have block: "fine ?n p (parseblock b ?n k p)" if "p \<le> ?n" "4 * (?n - p) + 3 \<le> k" for p using Suc that by blast
  have "fine ?n p (parseline b ?n (Suc k) p)" if p: "p \<le> ?n" "4 * (?n - p) + 6 \<le> Suc k" for p
    unfolding parseline.simps
  proof (rule fine_pbind [OF pipe])
    fix c p1 assume p1: "p \<le> p1" "p1 \<le> ?n"
    have "fine ?n p1 (pbind (parseamps b ?n k c p1) (\<lambda>(c, p). case peek b ?n p [59] of (go, p) \<Rightarrow>
       if go then pbind (parseline b ?n k (after b ?n p)) (\<lambda>(c2, p). Parsed (LIST c c2, p)) else Parsed (c, p)))"
    proof (rule fine_pbind [OF parseamps_fine [OF assms p1(2)]])
      fix c p2 assume p2: "p1 \<le> p2" "p2 \<le> ?n"
      obtain go p3 where k: "peek b ?n p2 [59] = (go, p3)" by (cases "peek b ?n p2 [59]")
      have "fine ?n (after b ?n p3) (pbind (parseline b ?n k (after b ?n p3)) (\<lambda>(c2, p). Parsed (LIST c c2, p))) \<and> p2 < after b ?n p3" if go
        using peek_after [OF assms p2(2), of 59 p3] k that p p1 p2 by (auto intro!: fine_pbind line simp: blank_def)
      then show "fine ?n p1 (case (c, p2) of (c, p) \<Rightarrow> case peek b ?n p [59] of (go, p) \<Rightarrow>
          if go then pbind (parseline b ?n k (after b ?n p)) (\<lambda>(c2, p). Parsed (LIST c c2, p)) else Parsed (c, p))"
        using peek_bounds [OF assms p2(2) k] p2 by (auto simp: k intro: fine_mono)
    qed (use p p1 in simp)
    then show "fine ?n p (case (c, p1) of (c, p) \<Rightarrow> pbind (parseamps b ?n k c p) (\<lambda>(c, p). case peek b ?n p [59] of (go, p) \<Rightarrow>
       if go then pbind (parseline b ?n k (after b ?n p)) (\<lambda>(c2, p). Parsed (LIST c c2, p)) else Parsed (c, p)))"
      using p1 by (auto intro: fine_mono)
  qed (use p in simp_all)
  moreover have "fine ?n p (parsepipe b ?n (Suc k) p)" if p: "p \<le> ?n" "4 * (?n - p) + 5 \<le> Suc k" for p
    unfolding parsepipe.simps
  proof (rule fine_pbind [OF exec])
    fix c p1 assume p1: "p \<le> p1" "p1 \<le> ?n"
    obtain go p3 where k: "peek b ?n p1 [124] = (go, p3)" by (cases "peek b ?n p1 [124]")
    have "fine ?n (after b ?n p3) (pbind (parsepipe b ?n k (after b ?n p3)) (\<lambda>(c2, p). Parsed (PIPE c c2, p))) \<and> p1 < after b ?n p3" if go
      using peek_after [OF assms p1(2), of 124 p3] k that p p1 by (auto intro!: fine_pbind pipe simp: blank_def)
    then show "fine ?n p (case (c, p1) of (c, p) \<Rightarrow> case peek b ?n p [124] of (go, p) \<Rightarrow>
        if go then pbind (parsepipe b ?n k (after b ?n p)) (\<lambda>(c2, p). Parsed (PIPE c c2, p)) else Parsed (c, p))"
      using peek_bounds [OF assms p1(2) k] p1 by (auto simp: k intro: fine_mono)
  qed (use p in simp_all)
  moreover have "fine ?n p (parseexec b ?n (Suc k) p)" if p: "p \<le> ?n" "4 * (?n - p) + 4 \<le> Suc k" for p
  proof -
    obtain go p1 where k: "peek b ?n p [40] = (go, p1)" by (cases "peek b ?n p [40]")
    have p1: "p \<le> p1" "p1 \<le> ?n" "go \<longrightarrow> p1 < ?n" using peek_bounds [OF assms p(1) k] by auto
    have "fine ?n p1 (parseblock b ?n k p1)" using p p1 by (intro block) auto
    moreover have "fine ?n p1 (pbind (parseredirs b ?n k (EXEC []) p1) (\<lambda>(c, p). parseargs b ?n k c 0 p))"
    proof (rule fine_pbind [OF parseredirs_fine [OF assms p1(2)]])
      fix c p2 assume "p1 \<le> p2" "p2 \<le> ?n"
      then show "fine ?n p1 (case (c, p2) of (c, p) \<Rightarrow> parseargs b ?n k c 0 p)"
        using p p1 by (simp, intro fine_mono [OF parseargs_fine [OF assms]]) auto
    qed (use p p1 in simp)
    ultimately show ?thesis using p1 by (auto simp: parseexec.simps k intro: fine_mono)
  qed
  moreover have "fine ?n p (parseblock b ?n (Suc k) p)" if p: "p \<le> ?n" "4 * (?n - p) + 3 \<le> Suc k" for p
  proof -
    obtain go p1 where k: "peek b ?n p [40] = (go, p1)" by (cases "peek b ?n p [40]")
    have "fine ?n (after b ?n p1) (pbind (parseline b ?n k (after b ?n p1)) (\<lambda>(c, p). case peek b ?n p [41] of (close, p) \<Rightarrow>
       if \<not> close then Bad ''syntax - missing )'' else parseredirs b ?n k c (after b ?n p))) \<and> p \<le> after b ?n p1" if go
    proof
      have a: "p < after b ?n p1" "after b ?n p1 \<le> ?n"
        using peek_after [OF assms p(1), of 40 p1] k that by (auto simp: blank_def)
      then show "p \<le> after b ?n p1" by simp
      show "fine ?n (after b ?n p1) (pbind (parseline b ?n k (after b ?n p1)) (\<lambda>(c, p). case peek b ?n p [41] of (close, p) \<Rightarrow>
         if \<not> close then Bad ''syntax - missing )'' else parseredirs b ?n k c (after b ?n p)))"
      proof (rule fine_pbind [OF line])
        fix c p2 assume p2: "after b ?n p1 \<le> p2" "p2 \<le> ?n"
        obtain close p3 where k3: "peek b ?n p2 [41] = (close, p3)" by (cases "peek b ?n p2 [41]")
        have "fine ?n (after b ?n p1) (parseredirs b ?n k c (after b ?n p3))" if close
        proof -
          have "p2 < after b ?n p3" "after b ?n p3 \<le> ?n"
            using peek_after [OF assms p2(2), of 41 p3] k3 that by (auto simp: blank_def)
          then show ?thesis using p a p2 by (intro fine_mono [OF parseredirs_fine [OF assms]]) auto
        qed
        then show "fine ?n (after b ?n p1) (case (c, p2) of (c, p) \<Rightarrow> case peek b ?n p [41] of (close, p) \<Rightarrow>
           if \<not> close then Bad ''syntax - missing )'' else parseredirs b ?n k c (after b ?n p))"
          by (simp add: k3)
      qed (use a p in simp_all)
    qed
    then show ?thesis using peek_bounds [OF assms p(1) k] by (auto simp: parseblock.simps k intro: fine_mono)
  qed
  ultimately show ?case by blast
qed

section \<open>Printing and parsing\<close>

text \<open>
  Commands with their words as strings. \<open>shw\<close> prints one with a blank behind every token and parentheses
  where the grammar needs them; \<open>denote\<close> reads the tree of the parser in the buffer it works on.
\<close>

datatype scmd =
    SExec "cstr list"
  | SRedir scmd cstr u32 int
  | SPipe scmd scmd
  | SList scmd scmd
  | SBack scmd

definition wordy :: "u8 \<Rightarrow> bool" where
  "wordy c \<longleftrightarrow> c \<noteq> 0 \<and> \<not> blank c \<and> \<not> symbol c"

definition is_word :: "cstr \<Rightarrow> bool" where
  "is_word w \<longleftrightarrow> w \<noteq> [] \<and> (\<forall>c \<in> set w. wordy c)"

fun wf_cmd :: "scmd \<Rightarrow> bool" where
  "wf_cmd (SExec ws) = (length ws < MAXARGS \<and> (\<forall>w \<in> set ws. is_word w))"
| "wf_cmd (SRedir c f mode fd) = (wf_cmd c \<and> is_word f \<and> (mode, fd) \<in> {(O_RDONLY, 0), (O_WRONLY OR O_CREATE, 1)})"
| "wf_cmd (SPipe l r) = (wf_cmd l \<and> wf_cmd r)"
| "wf_cmd (SList l r) = (wf_cmd l \<and> wf_cmd r)"
| "wf_cmd (SBack c) = wf_cmd c"

fun prec :: "scmd \<Rightarrow> nat" where
  "prec (SExec _) = 0"
| "prec (SRedir _ _ _ _) = 0"
| "prec (SPipe _ _) = 1"
| "prec (SBack _) = 2"
| "prec (SList _ _) = 3"

definition paren :: "bool \<Rightarrow> u8 list \<Rightarrow> u8 list" where
  "paren b t = (if b then [40, 32] @ t @ [41, 32] else t)"

definition show_redir :: "cstr \<times> int \<Rightarrow> u8 list" where
  "show_redir r = [if snd r = 0 then 60 else 62, 32] @ fst r @ [32]"

fun shw :: "scmd \<Rightarrow> u8 list" where
  "shw (SExec ws) = concat (map (\<lambda>w. w @ [32]) ws)"
| "shw (SRedir c f mode fd) = paren (0 < prec c) (shw c) @ show_redir (f, fd)"
| "shw (SPipe l r) = paren (0 < prec l) (shw l) @ [124, 32] @ paren (1 < prec r) (shw r)"
| "shw (SBack c) = paren (2 < prec c) (shw c) @ [38, 32]"
| "shw (SList l r) = paren (2 < prec l) (shw l) @ [59, 32] @ shw r"

fun denote :: "u8 list \<Rightarrow> cmd \<Rightarrow> scmd" where
  "denote b (EXEC as) = SExec (map (\<lambda>a. str_at b (fst a)) as)"
| "denote b (REDIR c q eq mode fd) = SRedir (denote b c) (str_at b q) mode fd"
| "denote b (PIPE l r) = SPipe (denote b l) (denote b r)"
| "denote b (LIST l r) = SList (denote b l) (denote b r)"
| "denote b (BACK c) = SBack (denote b c)"

text \<open>The same before \<open>nulterminate\<close>: what it means that a pair of offsets stands for a word.\<close>

definition word_in :: "u8 list \<Rightarrow> nat \<times> nat \<Rightarrow> cstr \<Rightarrow> bool" where
  "word_in b a w \<longleftrightarrow> is_word w \<and> snd a = fst a + length w \<and> snd a \<le> length b \<and> take (length w) (drop (fst a) b) = w \<and>
     (snd a = length b \<or> \<not> wordy (b ! snd a))"

fun rep :: "u8 list \<Rightarrow> cmd \<Rightarrow> scmd \<Rightarrow> bool" where
  "rep b (EXEC as) (SExec ws) = list_all2 (word_in b) as ws"
| "rep b (REDIR c q eq mode fd) (SRedir c' f mode' fd') = (rep b c c' \<and> word_in b (q, eq) f \<and> mode = mode' \<and> fd = fd')"
| "rep b (PIPE l r) (SPipe l' r') = (rep b l l' \<and> rep b r r')"
| "rep b (LIST l r) (SList l' r') = (rep b l l' \<and> rep b r r')"
| "rep b (BACK c) (SBack c') = rep b c c'"
| "rep b _ _ = False"

fun ends :: "cmd \<Rightarrow> nat set" where
  "ends (EXEC as) = snd ` set as"
| "ends (REDIR c q eq mode fd) = insert eq (ends c)"
| "ends (PIPE l r) = ends l \<union> ends r"
| "ends (LIST l r) = ends l \<union> ends r"
| "ends (BACK c) = ends c"

lemma nulterminate_at:
  "length (nulterminate c b) = length b \<and> (\<forall>i < length b. nulterminate c b ! i = (if i \<in> ends c then 0 else b ! i))"
proof (induction c arbitrary: b)
  case (EXEC as)
  show ?case
  proof (induction as arbitrary: b)
    case (Cons a as)
    then show ?case by (cases a; cases "snd a < length b") (auto simp: nth_list_update list_update_beyond)
  qed simp
next
  case (REDIR c q eq mode fd)
  from REDIR [of b] show ?case by (cases "eq < length b") (auto simp: nth_list_update list_update_beyond)
qed auto

lemma rep_ends: "rep b c c' \<Longrightarrow> e \<in> ends c \<Longrightarrow> e = length b \<or> \<not> wordy (b ! e)"
proof (induction b c c' rule: rep.induct)
  case (1 b as ws)
  then obtain i where "i < length as" "e = snd (as ! i)" by (auto simp: in_set_conv_nth)
  then show ?case using 1(1) by (auto simp: list_all2_conv_all_nth word_in_def)
next
  case (2 b c q eq mode fd c' f mode' fd')
  then show ?case by (auto simp: word_in_def)
qed auto

lemma str_at_word:
  assumes w: "word_in b a w" and b': "length b' = length b" "\<forall>i < length b. b' ! i = (if i \<in> E then 0 else b ! i)"
    and E: "\<forall>e \<in> E. e = length b \<or> \<not> wordy (b ! e)" "snd a \<in> E"
  shows "str_at b' (fst a) = w"
proof -
  let ?q = "fst a" and ?e = "snd a"
  have e: "?e = ?q + length w" "?e \<le> length b" "take (length w) (drop ?q b) = w" "\<forall>c \<in> set w. wordy c"
    using w by (auto simp: word_in_def is_word_def)
  have nth: "b ! (?q + i) = w ! i" if "i < length w" for i
    using that e(1-3) by (metis nth_drop nth_take add_leD1)
  have "b' ! (?q + i) = w ! i" if "i < length w" for i
    using b'(2) E(1) nth [OF that] that e(1, 2, 4) by (metis add_less_cancel_left less_le_trans nth_mem less_irrefl)
  then have t: "take (length w) (drop ?q b') = w"
    using e(1, 2) b'(1) by (intro nth_equalityI) auto
  have d: "drop ?q b' = w @ drop ?e b'"
    using append_take_drop_id [of "length w" "drop ?q b'"] by (simp add: t e(1) add.commute)
  have "takeWhile (\<lambda>c. c \<noteq> 0) (drop ?e b') = []"
  proof (cases "?e < length b'")
    case True
    then have "drop ?e b' = 0 # drop (Suc ?e) b'"
      using b' E(2) by (simp add: Cons_nth_drop_Suc [symmetric])
    then show ?thesis by simp
  qed simp
  moreover have "\<forall>c \<in> set w. c \<noteq> 0" using e(4) by (auto simp: wordy_def)
  ultimately show ?thesis unfolding str_at_def upto0_def d by (simp add: takeWhile_append2)
qed

lemma denote_rep:
  assumes "rep b c c'" "length b' = length b" "\<forall>i < length b. b' ! i = (if i \<in> E then 0 else b ! i)"
    "\<forall>e \<in> E. e = length b \<or> \<not> wordy (b ! e)" "ends c \<subseteq> E"
  shows "denote b' c = c'"
  using assms
proof (induction b c c' rule: rep.induct)
  case (1 b as ws)
  have "str_at b' (fst (as ! i)) = ws ! i" if "i < length as" for i
    using 1 that by (intro str_at_word [of b "as ! i" _ b' E]) (auto simp: list_all2_conv_all_nth)
  then show ?case using 1(1) by (auto simp: list_all2_conv_all_nth intro: nth_equalityI)
next
  case (2 b c q eq mode fd c' f mode' fd')
  have "str_at b' (fst (q, eq)) = f" using 2 by (intro str_at_word [of b "(q, eq)" _ b' E]) auto
  then show ?case using 2 by auto
qed auto

lemma denote_nulterminate: "rep b c c' \<Longrightarrow> denote (nulterminate c b) c = c'"
  using nulterminate_at [of c b] rep_ends [of b c c'] by (intro denote_rep [of b c c' _ "ends c"]) auto

subsection \<open>Tokens of a printed command\<close>

definition lead :: "u8 list \<Rightarrow> bool" where
  "lead t \<longleftrightarrow> t = [] \<or> \<not> blank (hd t)"

definition at_text :: "u8 list \<Rightarrow> nat \<Rightarrow> u8 list \<Rightarrow> bool" where
  "at_text b p t \<longleftrightarrow> clean b \<and> p \<le> length b \<and> drop p b = t"

lemma at_text_hd: "at_text b p t \<Longrightarrow> ch b p = at0 t"
  by (simp add: at_text_def ch_def)

lemma at_text_app: "at_text b p (t @ r) \<Longrightarrow> at_text b (p + length t) r"
proof -
  assume a: "at_text b p (t @ r)"
  then have "length b - p = length t + length r" unfolding at_text_def by (metis length_append length_drop)
  have "drop (p + length t) b = drop (length t) (drop p b)" by (simp add: add.commute)
  also have "\<dots> = r" using a by (simp add: at_text_def del: drop_drop)
  finally show ?thesis using a \<open>length b - p = _\<close> by (auto simp: at_text_def)
qed

lemma at_text_Cons: "at_text b p (c # t) \<Longrightarrow> at_text b (Suc p) t"
  using at_text_app [of b p "[c]" t] by simp

lemma at_text_len: "at_text b p t \<Longrightarrow> length b = p + length t"
  unfolding at_text_def by (metis le_add_diff_inverse length_drop)

lemma skip_lead: "at_text b p t \<Longrightarrow> lead t \<Longrightarrow> skip_ws b es p = p"
  by (rule skip_ws_id) (auto simp: at_text_hd lead_def at0_def split: list.splits)

lemma skip_one:
  assumes "at_text b p (32 # t)" "lead t"
  shows "skip_ws b (length b) p = Suc p"
proof -
  have "p < length b" using at_text_len [OF assms(1)] by simp
  then have "skip_ws b (length b) p = skip_ws b (length b) (Suc p)"
    by (subst skip_ws.simps) (auto simp: strchr_lists at_text_hd [OF assms(1)] blank_def simp del: not_None_eq)
  then show ?thesis using skip_lead [OF at_text_Cons [OF assms(1)] assms(2)] by simp
qed

lemma peek_lead:
  assumes "at_text b p t" "lead t" "0 \<notin> set toks"
  shows "peek b (length b) p toks = (t \<noteq> [] \<and> hd t \<in> set toks, p)"
proof -
  have z: "at0 t = 0 \<longleftrightarrow> t = []" using assms(1) by (cases t) (auto simp: at_text_def clean_def dest!: arg_cong [of _ _ set] dest: in_set_dropD)
  show ?thesis
    using strchr_set [OF assms(3), of "at0 t"] z
    by (cases t) (auto simp: peek_def Let_def skip_lead [OF assms(1, 2)] at_text_hd [OF assms(1)])
qed

lemma gettoken_sym:
  assumes "at_text b p (c # 32 # t)" "lead t" "c \<in> {124, 40, 41, 59, 38, 60, 62}"
  shows "gettoken b (length b) p = (c, p, Suc p, p + 2)"
proof -
  have "lead (c # 32 # t)" using assms(3) by (auto simp: lead_def blank_def)
  then have s: "skip_ws b (length b) p = p" using skip_lead [OF assms(1)] by simp
  have n: "at_text b (Suc p) (32 # t)" using at_text_Cons [OF assms(1)] .
  have "skip_ws b (length b) (Suc p) = p + 2" using skip_one [OF n assms(2)] by simp
  then show ?thesis
    using assms(3) by (auto simp: gettoken_def Let_def s at_text_hd [OF assms(1)] at_text_hd [OF n])
qed

lemma word_end_word:
  assumes "at_text b p (w @ 32 # t)" "\<forall>c \<in> set w. wordy c"
  shows "word_end b (length b) p = p + length w"
  using assms
proof (induction w arbitrary: p)
  case Nil
  then show ?case by (subst word_end.simps) (simp add: strchr_lists at_text_hd blank_def)
next
  case (Cons c w)
  then have a: "at_text b p (c # w @ 32 # t)" by simp
  then have "word_end b (length b) p = word_end b (length b) (Suc p)"
    using at_text_len [OF a] Cons.prems(2) by (intro word_end_step) (auto simp: at_text_hd [OF a] wordy_def)
  then show ?case using Cons.IH [OF at_text_Cons [OF a]] Cons.prems(2) by simp
qed

lemma gettoken_word:
  assumes "at_text b p (w @ 32 # t)" "lead t" "is_word w"
  shows "gettoken b (length b) p = (97, p, p + length w, p + length w + 1) \<and> word_in b (p, p + length w) w"
proof
  obtain c w' where w: "w = c # w'" "wordy c" using assms(3) by (cases w) (auto simp: is_word_def)
  have "lead (w @ 32 # t)" using w by (auto simp: lead_def wordy_def)
  then have s: "skip_ws b (length b) p = p" using skip_lead [OF assms(1)] by simp
  have h: "ch b p = c" using at_text_hd [OF assms(1)] w by simp
  have n: "at_text b (p + length w) (32 # t)" using at_text_app [OF assms(1)] .
  have "skip_ws b (length b) (p + length w) = p + length w + 1" using skip_one [OF n assms(2)] by simp
  moreover have "word_end b (length b) p = p + length w"
    using assms(3) by (intro word_end_word [OF assms(1)]) (simp add: is_word_def)
  ultimately show "gettoken b (length b) p = (97, p, p + length w, p + length w + 1)"
    using w(2) by (auto simp: gettoken_def Let_def s h wordy_def symbol_def)
  have "b ! (p + length w) = 32"
    using at_text_len [OF n] at_text_hd [OF n] by (simp add: ch_less)
  then show "word_in b (p, p + length w) w"
    using assms(3) at_text_len [OF n] assms(1) by (auto simp: word_in_def at_text_def wordy_def blank_def)
qed

lemma gettoken_end:
  assumes "at_text b p []"
  shows "gettoken b (length b) p = (0, p, p, p)"
proof -
  have "skip_ws b (length b) p = p" using skip_lead [OF assms] by (simp add: lead_def)
  then show ?thesis by (simp add: gettoken_def Let_def at_text_hd [OF assms])
qed

subsection \<open>Redirections, arguments and trailing ampersands\<close>

fun wrap :: "(cstr \<times> u32 \<times> int) list \<Rightarrow> scmd \<Rightarrow> scmd" where
  "wrap [] c = c"
| "wrap ((f, mode, fd) # rs) c = wrap rs (SRedir c f mode fd)"

definition redirs_ok :: "(cstr \<times> u32 \<times> int) list \<Rightarrow> bool" where
  "redirs_ok rs \<longleftrightarrow> (\<forall>(f, mode, fd) \<in> set rs. is_word f \<and> (mode, fd) \<in> {(O_RDONLY, 0), (O_WRONLY OR O_CREATE, 1)})"

definition show_redirs :: "(cstr \<times> u32 \<times> int) list \<Rightarrow> u8 list" where
  "show_redirs rs = concat (map (\<lambda>(f, mode, fd). show_redir (f, fd)) rs)"

text \<open>What may follow a command: the end, or a token that stops its arguments.\<close>

definition stops :: "u8 set \<Rightarrow> u8 list \<Rightarrow> bool" where
  "stops S t \<longleftrightarrow> t = [] \<or> hd t \<in> S \<and> hd t \<in> {41, 59, 38, 124}"

lemma stops_lead: "stops S t \<Longrightarrow> lead t"
  by (auto simp: stops_def lead_def blank_def)

lemma is_word_lead: "is_word w \<Longrightarrow> lead (w @ t) \<and> w @ t \<noteq> [] \<and> \<not> symbol (hd (w @ t))"
  by (cases w) (auto simp: is_word_def lead_def wordy_def)

lemma lead_redirs: "lead t \<Longrightarrow> lead (show_redirs rs @ t)"
  by (cases rs) (auto simp: show_redirs_def show_redir_def lead_def blank_def split: prod.splits)

lemma parseredirs_stop:
  assumes "at_text b p t" "lead t" "t = [] \<or> hd t \<notin> {60, 62}" "0 < k"
  shows "parseredirs b (length b) k c p = Parsed (c, p)"
  using assms(3, 4) peek_lead [OF assms(1, 2), of "[60, 62]"] by (cases k) (auto simp: parseredirs.simps)

lemma parseredirs_redirs:
  assumes "at_text b p (show_redirs rs @ t)" "lead t" "t = [] \<or> hd t \<notin> {60, 62}" "redirs_ok rs" "length rs < k" "rep b c c'"
  shows "\<exists>d. parseredirs b (length b) k c p = Parsed (d, p + length (show_redirs rs)) \<and> rep b d (wrap rs c')"
  using assms
proof (induction rs arbitrary: p k c c')
  case Nil
  then show ?case using parseredirs_stop [of b p t k c] by (auto simp: show_redirs_def)
next
  case (Cons r rs)
  obtain f mode fd where r: "r = (f, mode, fd)" by (cases r)
  define a :: u8 where "a = (if fd = 0 then 60 else 62)"
  have a: "a \<in> {60, 62}" by (simp add: a_def)
  let ?u = "show_redirs rs @ t"
  have f: "is_word f" "(mode, fd) \<in> {(O_RDONLY, 0), (O_WRONLY OR O_CREATE, 1)}" "redirs_ok rs"
    using Cons.prems(4) by (auto simp: redirs_ok_def r)
  have t: "at_text b p (a # 32 # f @ 32 # ?u)" using Cons.prems(1) by (simp add: show_redirs_def show_redir_def r a_def)
  obtain k' where k: "k = Suc k'" "length rs < k'" using Cons.prems(5) by (cases k) auto
  have la: "lead (a # 32 # f @ 32 # ?u)" using a by (auto simp: lead_def blank_def)
  have lf: "lead (f @ 32 # ?u)" using is_word_lead [OF f(1)] by blast
  have pk: "peek b (length b) p [60, 62] = (True, p)" using peek_lead [OF t la, of "[60, 62]"] a by auto
  have g1: "gettoken b (length b) p = (a, p, Suc p, p + 2)" by (rule gettoken_sym [OF t lf]) (use a in auto)
  have t2: "at_text b (p + 2) (f @ 32 # ?u)" using at_text_app [of b p "[a, 32]"] t by simp
  have g2: "gettoken b (length b) (p + 2) = (97, p + 2, p + 2 + length f, p + 2 + length f + 1) \<and> word_in b (p + 2, p + 2 + length f) f"
    by (rule gettoken_word [OF t2 lead_redirs [OF Cons.prems(2)] f(1)])
  have t3: "at_text b (p + 2 + length f + 1) ?u" using at_text_app [of b "p + 2" "f @ [32]" ?u] t2 by (simp add: add.assoc)
  let ?c = "REDIR c (p + 2) (p + 2 + length f) mode fd"
  have rd: "redir a c q e = REDIR c q e mode fd" for q e using f(2) by (auto simp: redir_def a_def)
  have "rep b ?c (SRedir c' f mode fd)" using Cons.prems(6) g2 by simp
  from Cons.IH [OF t3 Cons.prems(2, 3) f(3) k(2) this] obtain d where
    d: "parseredirs b (length b) k' ?c (p + 2 + length f + 1) = Parsed (d, p + 2 + length f + 1 + length (show_redirs rs))"
      "rep b d (wrap rs (SRedir c' f mode fd))" by blast
  have "parseredirs b (length b) k c p = parseredirs b (length b) k' ?c (p + 2 + length f + 1)"
    using g2 by (simp add: k(1) parseredirs.simps pk g1 rd)
  then show ?case using d by (auto simp: r show_redirs_def show_redir_def)
qed

lemma parseargs_stop:
  assumes "at_text b p t" "stops S t" "0 < k"
  shows "parseargs b (length b) k c n p = Parsed (c, p)"
proof -
  obtain k' where k: "k = Suc k'" using assms(3) by (cases k) auto
  have pk: "peek b (length b) p [124, 41, 38, 59] = (t \<noteq> [] \<and> hd t \<in> set [124, 41, 38, 59], p)"
    by (rule peek_lead [OF assms(1) stops_lead [OF assms(2)]]) simp
  show ?thesis
  proof (cases "t = []")
    case True
    then show ?thesis using gettoken_end [of b p] assms(1) by (simp add: k parseargs.simps pk)
  next
    case False
    then show ?thesis using assms(2) by (auto simp: k parseargs.simps pk stops_def)
  qed
qed

lemma rep_add_arg: "rep b (EXEC as) (SExec ws) \<Longrightarrow> word_in b a w \<Longrightarrow> rep b (add_arg (EXEC as) a) (SExec (ws @ [w]))"
  by (simp add: list_all2_appendI)

lemma parseargs_words:
  assumes "at_text b p (concat (map (\<lambda>w. w @ [32]) ws) @ show_redirs rs @ t)" "ws \<noteq> []" "stops S t" "redirs_ok rs"
    "\<forall>w \<in> set ws. is_word w" "n + length ws < MAXARGS" "length ws + length rs + 2 < k" "rep b (EXEC as) (SExec ws0)"
  shows "\<exists>d. parseargs b (length b) k (EXEC as) n p =
      Parsed (d, p + length (concat (map (\<lambda>w. w @ [32]) ws)) + length (show_redirs rs)) \<and> rep b d (wrap rs (SExec (ws0 @ ws)))"
  using assms
proof (induction ws arbitrary: p n k as ws0)
  case Nil
  then show ?case by simp
next
  case (Cons w ws)
  let ?v = "concat (map (\<lambda>w. w @ [32]) ws)" and ?R = "show_redirs rs"
  have w: "is_word w" using Cons.prems(5) by simp
  have t: "at_text b p (w @ 32 # ?v @ ?R @ t)" using Cons.prems(1) by simp
  have lR: "lead (?R @ t)" by (rule lead_redirs [OF stops_lead [OF Cons.prems(3)]])
  have lv: "lead (?v @ ?R @ t) \<and> (ws \<noteq> [] \<longrightarrow> hd (?v @ ?R @ t) \<notin> {60, 62})"
  proof (cases ws)
    case Nil
    then show ?thesis using lR by simp
  next
    case (Cons x xs)
    then have "is_word x" using Cons.prems(5) by simp
    from is_word_lead [OF this] show ?thesis by (simp add: Cons symbol_def)
  qed
  obtain k' where k: "k = Suc k'" "length ws + length rs + 2 < k'" using Cons.prems(7) by (cases k) auto
  have pk: "peek b (length b) p [124, 41, 38, 59] = (False, p)"
    using peek_lead [OF t, of "[124, 41, 38, 59]"] is_word_lead [OF w, of "32 # ?v @ ?R @ t"] by (auto simp: symbol_def)
  have g: "gettoken b (length b) p = (97, p, p + length w, p + length w + 1)" "word_in b (p, p + length w) w"
    using gettoken_word [OF t conjunct1 [OF lv] w] by auto
  have t2: "at_text b (p + length w + 1) (?v @ ?R @ t)" using at_text_app [of b p "w @ [32]"] t by (simp add: add.assoc)
  let ?e = "add_arg (EXEC as) (p, p + length w)"
  have re: "rep b ?e (SExec (ws0 @ [w]))" by (rule rep_add_arg [OF Cons.prems(8) g(2)])
  have step: "parseargs b (length b) k (EXEC as) n p =
      pbind (parseredirs b (length b) k' ?e (p + length w + 1)) (\<lambda>(c, p). parseargs b (length b) k' c (Suc n) p)"
    using Cons.prems(6) by (simp add: k(1) parseargs.simps pk g(1))
  show ?case
  proof (cases "ws = []")
    case True
    then have t3: "at_text b (p + length w + 1) (?R @ t)" using t2 by simp
    have "t = [] \<or> hd t \<notin> {60, 62}" using Cons.prems(3) by (auto simp: stops_def)
    from parseredirs_redirs [OF t3 stops_lead [OF Cons.prems(3)] this Cons.prems(4) _ re, of k'] k(2)
    obtain d where d: "parseredirs b (length b) k' ?e (p + length w + 1) = Parsed (d, p + length w + 1 + length ?R)"
      "rep b d (wrap rs (SExec (ws0 @ [w])))" by auto
    have "parseargs b (length b) k' d (Suc n) (p + length w + 1 + length ?R) = Parsed (d, p + length w + 1 + length ?R)"
      using k(2) by (intro parseargs_stop [OF at_text_app [OF t3] Cons.prems(3)]) simp
    then show ?thesis using d by (auto simp: step pbind_def True)
  next
    case False
    have "parseredirs b (length b) k' ?e (p + length w + 1) = Parsed (?e, p + length w + 1)"
      using lv False k(2) by (intro parseredirs_stop [OF t2]) auto
    then have "parseargs b (length b) k (EXEC as) n p = parseargs b (length b) k' (EXEC (as @ [(p, p + length w)])) (Suc n) (p + length w + 1)"
      by (simp add: step pbind_def)
    moreover have "\<exists>d. parseargs b (length b) k' (EXEC (as @ [(p, p + length w)])) (Suc n) (p + length w + 1) =
      Parsed (d, p + length w + 1 + length ?v + length ?R) \<and> rep b d (wrap rs (SExec ((ws0 @ [w]) @ ws)))"
      using t2 False Cons.prems(3-6) k(2) re by (intro Cons.IH) auto
    ultimately show ?thesis by (auto simp: add.assoc)
  qed
qed

fun backs :: "nat \<Rightarrow> scmd \<Rightarrow> scmd" where
  "backs 0 c = c"
| "backs (Suc n) c = backs n (SBack c)"

lemma parseamps_backs:
  assumes "at_text b p (concat (replicate n [38, 32]) @ t)" "stops {41, 59} t" "n < k" "rep b c c'"
  shows "\<exists>d. parseamps b (length b) k c p = Parsed (d, p + 2 * n) \<and> rep b d (backs n c')"
  using assms
proof (induction n arbitrary: p k c c')
  case 0
  then have "peek b (length b) p [38] = (False, p)"
    using peek_lead [of b p t "[38]"] stops_lead [of "{41, 59}" t] by (auto simp: stops_def)
  then show ?case using 0 by (cases k) (auto simp: parseamps.simps)
next
  case (Suc n)
  let ?u = "concat (replicate n [38, 32]) @ t"
  have t: "at_text b p (38 # 32 # ?u)" using Suc.prems(1) by simp
  have l: "lead ?u" using stops_lead [OF Suc.prems(2)] by (cases n) (auto simp: lead_def blank_def)
  obtain k' where k: "k = Suc k'" "n < k'" using Suc.prems(3) by (cases k) auto
  have pk: "peek b (length b) p [38] = (True, p)" using peek_lead [OF t, of "[38]"] by (auto simp: lead_def blank_def)
  have "after b (length b) p = p + 2" using gettoken_sym [OF t l] by (simp add: after_def)
  moreover have "at_text b (p + 2) ?u" using at_text_app [of b p "[38, 32]"] t by simp
  ultimately show ?case
    using Suc.IH [of "p + 2" k' "BACK c" "SBack c'"] Suc.prems(2, 4) k by (auto simp: parseamps.simps pk)
qed

subsection \<open>The grammar rules\<close>

text \<open>
  A rule with the fuel margin \<open>m\<close> reads the text \<open>t\<close> as the command \<open>c\<close>: in front of anything that may follow,
  it stops right behind the text with a tree that stands for the command.
\<close>

definition reads :: "(u8 list \<Rightarrow> nat \<Rightarrow> nat \<Rightarrow> (cmd \<times> nat) parse) \<Rightarrow> nat \<Rightarrow> u8 set \<Rightarrow> u8 list \<Rightarrow> scmd \<Rightarrow> bool" where
  "reads f m S t c \<longleftrightarrow> (\<forall>b p r k. at_text b p (t @ r) \<and> stops S r \<and> 4 * length (t @ r) + m \<le> k \<longrightarrow>
     (\<exists>d. f b k p = Parsed (d, p + length t) \<and> rep b d c))"

lemma readsD:
  assumes "reads f m S t c" "at_text b p (t @ r)" "stops S r" "4 * length (t @ r) + m \<le> k"
  obtains d where "f b k p = Parsed (d, p + length t)" "rep b d c"
  using assms unfolding reads_def by blast

definition line_rule :: "u8 list \<Rightarrow> nat \<Rightarrow> nat \<Rightarrow> (cmd \<times> nat) parse" where
  "line_rule b k p = parseline b (length b) k p"

definition amp_rule :: "u8 list \<Rightarrow> nat \<Rightarrow> nat \<Rightarrow> (cmd \<times> nat) parse" where
  "amp_rule b k p = pbind (parsepipe b (length b) k p) (\<lambda>(c, p). parseamps b (length b) k c p)"

definition pipe_rule :: "u8 list \<Rightarrow> nat \<Rightarrow> nat \<Rightarrow> (cmd \<times> nat) parse" where
  "pipe_rule b k p = parsepipe b (length b) k p"

definition exec_rule :: "u8 list \<Rightarrow> nat \<Rightarrow> nat \<Rightarrow> (cmd \<times> nat) parse" where
  "exec_rule b k p = parseexec b (length b) k p"

abbreviation "reads_line \<equiv> reads line_rule 6 {41}"
abbreviation "reads_amp \<equiv> reads amp_rule 5 {41, 59}"
abbreviation "reads_pipe \<equiv> reads pipe_rule 5 {41, 59, 38}"
abbreviation "reads_exec \<equiv> reads exec_rule 4 {41, 59, 38, 124}"

lemma pbind_Parsed [simp]: "pbind (Parsed a) f = f a"
  by (simp add: pbind_def)

lemma pbind_assoc: "pbind (pbind m f) g = pbind m (\<lambda>x. pbind (f x) g)"
  by (simp add: pbind_def split: parse.splits)

lemma stops_mono: "stops S t \<Longrightarrow> S \<subseteq> T \<Longrightarrow> stops T t"
  by (auto simp: stops_def)

definition leads :: "u8 list \<Rightarrow> bool" where
  "leads t \<longleftrightarrow> (\<forall>r. lead r \<longrightarrow> lead (t @ r))"

lemma peek_not: "at_text b p r \<Longrightarrow> stops S r \<Longrightarrow> c \<notin> S \<Longrightarrow> c \<noteq> 0 \<Longrightarrow> peek b (length b) p [c] = (False, p)"
  using peek_lead [of b p r "[c]"] stops_lead [of S r] by (auto simp: stops_def)

text \<open>The token that continues a rule, and what is behind it.\<close>

lemma token_go:
  assumes "at_text b p (c # 32 # t)" "lead t" "c \<in> {124, 40, 41, 59, 38}"
  shows "peek b (length b) p [c] = (True, p) \<and> after b (length b) p = p + 2 \<and> at_text b (p + 2) t"
proof -
  have "peek b (length b) p [c] = (True, p)"
    using peek_lead [OF assms(1), of "[c]"] assms(3) by (auto simp: lead_def blank_def)
  moreover have "gettoken b (length b) p = (c, p, Suc p, p + 2)" by (rule gettoken_sym [OF assms(1, 2)]) (use assms(3) in auto)
  moreover have "at_text b (p + 2) t" using at_text_app [of b p "[c, 32]" t] assms(1) by simp
  ultimately show ?thesis by (simp add: after_def)
qed

lemma line_rule_Suc:
  "line_rule b (Suc k) p = pbind (amp_rule b k p) (\<lambda>(c, p). case peek b (length b) p [59] of (go, p) \<Rightarrow>
     if go then pbind (parseline b (length b) k (after b (length b) p)) (\<lambda>(c2, p). Parsed (LIST c c2, p)) else Parsed (c, p))"
  unfolding line_rule_def parseline.simps amp_rule_def pbind_assoc
  by (rule arg_cong [of _ _ "pbind _"]) (auto simp: fun_eq_iff)

lemma exec_to_pipe:
  assumes "reads_exec t c"
  shows "reads_pipe t c"
  unfolding reads_def
proof (intro allI impI)
  fix b p r k assume "at_text b p (t @ r) \<and> stops {41, 59, 38} r \<and> 4 * length (t @ r) + 5 \<le> k"
  then have h: "at_text b p (t @ r)" "stops {41, 59, 38} r" "4 * length (t @ r) + 5 \<le> k" by blast+
  from h(3) obtain k' where k: "k = Suc k'" by (cases k) simp_all
  have "stops {41, 59, 38, 124} r" using h(2) by (rule stops_mono) blast
  moreover have "4 * length (t @ r) + 4 \<le> k'" using h(3) k by simp
  ultimately obtain d where d: "exec_rule b k' p = Parsed (d, p + length t)" "rep b d c"
    by (rule readsD [OF assms h(1)])
  have "peek b (length b) (p + length t) [124] = (False, p + length t)"
    by (rule peek_not [OF at_text_app [OF h(1)] h(2)]) simp_all
  then show "\<exists>d. pipe_rule b k p = Parsed (d, p + length t) \<and> rep b d c"
    using d by (simp add: pipe_rule_def k parsepipe.simps exec_rule_def)
qed

lemma pipe_to_amp:
  assumes "reads_pipe t c"
  shows "reads_amp (t @ concat (replicate n [38, 32])) (backs n c)"
  unfolding reads_def
proof (intro allI impI)
  fix b p r k
  let ?a = "concat (replicate n [38, 32 :: u8])"
  assume "at_text b p ((t @ ?a) @ r) \<and> stops {41, 59} r \<and> 4 * length ((t @ ?a) @ r) + 5 \<le> k"
  then have h: "at_text b p (t @ ?a @ r)" "stops {41, 59} r" "4 * length (t @ ?a @ r) + 5 \<le> k" by simp_all
  have l: "length ?a = 2 * n" by (induction n) simp_all
  have "stops {41, 59, 38} (?a @ r)" using h(2) by (cases n) (auto simp: stops_def)
  then obtain d where d: "pipe_rule b k p = Parsed (d, p + length t)" "rep b d c"
    using readsD [OF assms h(1) _ h(3)] by blast
  have "n < k" using h(3) l by simp
  from parseamps_backs [OF at_text_app [OF h(1)] h(2) this d(2)]
  show "\<exists>d. amp_rule b k p = Parsed (d, p + length (t @ ?a)) \<and> rep b d (backs n c)"
    using d(1) by (simp add: amp_rule_def pipe_rule_def l add.assoc)
qed

lemma amp_to_line:
  assumes "reads_amp t c"
  shows "reads_line t c"
  unfolding reads_def
proof (intro allI impI)
  fix b p r k assume "at_text b p (t @ r) \<and> stops {41} r \<and> 4 * length (t @ r) + 6 \<le> k"
  then have h: "at_text b p (t @ r)" "stops {41} r" "4 * length (t @ r) + 6 \<le> k" by blast+
  from h(3) obtain k' where k: "k = Suc k'" by (cases k) simp_all
  have "stops {41, 59} r" using h(2) by (rule stops_mono) blast
  moreover have "4 * length (t @ r) + 5 \<le> k'" using h(3) k by simp
  ultimately obtain d where d: "amp_rule b k' p = Parsed (d, p + length t)" "rep b d c"
    by (rule readsD [OF assms h(1)])
  have n: "peek b (length b) (p + length t) [59] = (False, p + length t)"
    by (rule peek_not [OF at_text_app [OF h(1)] h(2)]) simp_all
  show "\<exists>d. line_rule b k p = Parsed (d, p + length t) \<and> rep b d c"
    using d n by (simp add: k line_rule_Suc)
qed

lemma reads_SPipe:
  assumes "reads_exec t l" "reads_pipe u r" "leads u"
  shows "reads_pipe (t @ [124, 32] @ u) (SPipe l r)"
  unfolding reads_def
proof (intro allI impI)
  fix b p x k assume "at_text b p ((t @ [124, 32] @ u) @ x) \<and> stops {41, 59, 38} x \<and> 4 * length ((t @ [124, 32] @ u) @ x) + 5 \<le> k"
  then have h: "at_text b p (t @ 124 # 32 # u @ x)" "stops {41, 59, 38} x" "4 * length (t @ 124 # 32 # u @ x) + 5 \<le> k" by simp_all
  from h(3) obtain k' where k: "k = Suc k'" by (cases k) simp_all
  have lu: "lead (u @ x)" using assms(3) stops_lead [OF h(2)] by (simp add: leads_def)
  obtain d where d: "exec_rule b k' p = Parsed (d, p + length t)" "rep b d l"
    by (rule readsD [OF assms(1) h(1), of k']) (use h(3) k in \<open>simp_all add: stops_def\<close>)
  have tk: "peek b (length b) (p + length t) [124] = (True, p + length t)" "after b (length b) (p + length t) = p + length t + 2"
    "at_text b (p + length t + 2) (u @ x)"
    using token_go [OF at_text_app [OF h(1)] lu] by simp_all
  obtain e where e: "pipe_rule b k' (p + length t + 2) = Parsed (e, p + length t + 2 + length u)" "rep b e r"
    by (rule readsD [OF assms(2) tk(3) h(2), of k']) (use h(3) k in simp_all)
  show "\<exists>d. pipe_rule b k p = Parsed (d, p + length (t @ [124, 32] @ u)) \<and> rep b d (SPipe l r)"
    using d e tk by (auto simp: pipe_rule_def k parsepipe.simps exec_rule_def)
qed

lemma reads_SList:
  assumes "reads_amp t l" "reads_line u r" "leads u"
  shows "reads_line (t @ [59, 32] @ u) (SList l r)"
  unfolding reads_def
proof (intro allI impI)
  fix b p x k assume "at_text b p ((t @ [59, 32] @ u) @ x) \<and> stops {41} x \<and> 4 * length ((t @ [59, 32] @ u) @ x) + 6 \<le> k"
  then have h: "at_text b p (t @ 59 # 32 # u @ x)" "stops {41} x" "4 * length (t @ 59 # 32 # u @ x) + 6 \<le> k" by simp_all
  from h(3) obtain k' where k: "k = Suc k'" by (cases k) simp_all
  have lu: "lead (u @ x)" using assms(3) stops_lead [OF h(2)] by (simp add: leads_def)
  obtain d where d: "amp_rule b k' p = Parsed (d, p + length t)" "rep b d l"
    by (rule readsD [OF assms(1) h(1), of k']) (use h(3) k in \<open>simp_all add: stops_def\<close>)
  have tk: "peek b (length b) (p + length t) [59] = (True, p + length t)" "after b (length b) (p + length t) = p + length t + 2"
    "at_text b (p + length t + 2) (u @ x)"
    using token_go [OF at_text_app [OF h(1)] lu] by simp_all
  obtain e where e: "line_rule b k' (p + length t + 2) = Parsed (e, p + length t + 2 + length u)" "rep b e r"
    by (rule readsD [OF assms(2) tk(3) h(2), of k']) (use h(3) k in simp_all)
  show "\<exists>d. line_rule b k p = Parsed (d, p + length (t @ [59, 32] @ u)) \<and> rep b d (SList l r)"
    using d e tk by (simp add: k line_rule_Suc) (simp add: line_rule_def)
qed

lemma length_words: "\<forall>w \<in> set ws. is_word w \<Longrightarrow> length ws \<le> length (concat (map (\<lambda>w. w @ [32]) ws))"
  by (induction ws) auto

lemma length_redirs: "length rs \<le> length (show_redirs rs)"
  by (induction rs) (auto simp: show_redirs_def show_redir_def)

lemma reads_SExec:
  assumes "length ws < MAXARGS" "\<forall>w \<in> set ws. is_word w" "redirs_ok rs"
  shows "reads_exec (concat (map (\<lambda>w. w @ [32]) ws) @ show_redirs rs) (wrap rs (SExec ws))"
  unfolding reads_def
proof (intro allI impI)
  let ?v = "concat (map (\<lambda>w. w @ [32]) ws)" and ?R = "show_redirs rs" and ?S = "{41, 59, 38, 124 :: u8}"
  fix b p r k assume "at_text b p ((?v @ ?R) @ r) \<and> stops ?S r \<and> 4 * length ((?v @ ?R) @ r) + 4 \<le> k"
  then have t: "at_text b p (?v @ ?R @ r)" and st: "stops ?S r" and h: "4 * (length ?v + length ?R + length r) + 4 \<le> k"
    by simp_all
  from h obtain k' where k: "k = Suc k'" by (cases k) simp_all
  have st2: "r = [] \<or> hd r \<notin> {60, 62}" using st by (auto simp: stops_def)
  have big: "length ws + length rs + 2 < k'"
    using h k length_words [OF assms(2)] length_redirs [of rs] by simp
  have lR: "lead (?R @ r)" by (rule lead_redirs [OF stops_lead [OF st]])
  have l: "lead (?v @ ?R @ r) \<and> (?v @ ?R @ r = [] \<or> hd (?v @ ?R @ r) \<noteq> 40) \<and> (ws \<noteq> [] \<longrightarrow> hd (?v @ ?R @ r) \<notin> {60, 62})"
  proof (cases ws)
    case Nil
    have "?R = [] \<or> hd ?R \<in> {60, 62}"
      by (cases rs) (auto simp: show_redirs_def show_redir_def split: if_splits)
    then have "?R @ r = [] \<or> hd (?R @ r) \<noteq> 40"
      using st by (cases "?R = []") (auto simp: stops_def)
    then show ?thesis using lR Nil by simp
  next
    case (Cons x xs)
    then have "is_word x" using assms(2) by simp
    from is_word_lead [OF this] show ?thesis by (simp add: Cons symbol_def)
  qed
  have pk: "peek b (length b) p [40] = (False, p)" using peek_lead [OF t, of "[40]"] l by auto
  have step: "exec_rule b k p = pbind (parseredirs b (length b) k' (EXEC []) p) (\<lambda>(c, p). parseargs b (length b) k' c 0 p)"
    by (simp add: exec_rule_def k parseexec.simps pk)
  show "\<exists>d. exec_rule b k p = Parsed (d, p + length (?v @ ?R)) \<and> rep b d (wrap rs (SExec ws))"
  proof (cases "ws = []")
    case True
    have t1: "at_text b p (?R @ r)" using t True by simp
    have "length rs < k'" "rep b (EXEC []) (SExec [])" using big by simp_all
    then obtain d where d: "parseredirs b (length b) k' (EXEC []) p = Parsed (d, p + length ?R)" "rep b d (wrap rs (SExec []))"
      using parseredirs_redirs [OF t1 stops_lead [OF st] st2 assms(3)] by blast
    have "parseargs b (length b) k' d 0 (p + length ?R) = Parsed (d, p + length ?R)"
      by (rule parseargs_stop [OF at_text_app [OF t1] st]) (use big in simp)
    then show ?thesis using d True by (simp add: step)
  next
    case False
    have "parseredirs b (length b) k' (EXEC []) p = Parsed (EXEC [], p)"
      using l big False by (intro parseredirs_stop [OF t]) auto
    moreover have "\<exists>d. parseargs b (length b) k' (EXEC []) 0 p = Parsed (d, p + length ?v + length ?R) \<and> rep b d (wrap rs (SExec ([] @ ws)))"
      by (rule parseargs_words [OF t False st assms(3, 2)]) (use assms(1) big in simp_all)
    ultimately show ?thesis by (auto simp: step add.assoc)
  qed
qed

lemma reads_block:
  assumes "reads_line t c" "leads t" "redirs_ok rs"
  shows "reads_exec ([40, 32] @ t @ [41, 32] @ show_redirs rs) (wrap rs c)"
  unfolding reads_def
proof (intro allI impI)
  let ?R = "show_redirs rs" and ?S = "{41, 59, 38, 124 :: u8}"
  fix b p r k assume "at_text b p (([40, 32] @ t @ [41, 32] @ ?R) @ r) \<and> stops ?S r \<and>
    4 * length (([40, 32] @ t @ [41, 32] @ ?R) @ r) + 4 \<le> k"
  then have h: "at_text b p (40 # 32 # t @ 41 # 32 # ?R @ r)" "stops ?S r" "4 * (length t + length ?R + length r) + 20 \<le> k"
    by simp_all
  from h(3) obtain k' where k: "k = Suc (Suc k')" by (cases k; cases "k - 1") simp_all
  have lR: "lead (?R @ r)" by (rule lead_redirs [OF stops_lead [OF h(2)]])
  have "lead (41 # 32 # ?R @ r)" by (simp add: lead_def blank_def)
  then have lt: "lead (t @ 41 # 32 # ?R @ r)" using assms(2) by (simp add: leads_def)
  have t1: "peek b (length b) p [40] = (True, p)" "after b (length b) p = p + 2" "at_text b (p + 2) (t @ 41 # 32 # ?R @ r)"
    using token_go [OF h(1) lt] by simp_all
  obtain d where d: "line_rule b k' (p + 2) = Parsed (d, p + 2 + length t)" "rep b d c"
    by (rule readsD [OF assms(1) t1(3), of k']) (use h(3) k in \<open>simp_all add: stops_def\<close>)
  let ?q = "p + 2 + length t"
  have t2: "peek b (length b) ?q [41] = (True, ?q)" "after b (length b) ?q = ?q + 2" "at_text b (?q + 2) (?R @ r)"
    using token_go [OF at_text_app [OF t1(3)] lR] by simp_all
  have "r = [] \<or> hd r \<notin> {60, 62}" using h(2) by (auto simp: stops_def)
  moreover have "length rs < k'" using h(3) k length_redirs [of rs] by simp
  ultimately obtain e where e: "parseredirs b (length b) k' d (?q + 2) = Parsed (e, ?q + 2 + length ?R)" "rep b e (wrap rs c)"
    using parseredirs_redirs [OF t2(3) stops_lead [OF h(2)] _ assms(3) _ d(2)] by blast
  show "\<exists>d. exec_rule b k p = Parsed (d, p + length ([40, 32] @ t @ [41, 32] @ ?R)) \<and> rep b d (wrap rs c)"
    using d e t1(1, 2) t2(1, 2) by (auto simp: exec_rule_def k parseexec.simps parseblock.simps line_rule_def)
qed

subsection \<open>Every command comes back\<close>

lemma leads_append: "leads t \<Longrightarrow> leads u \<Longrightarrow> leads (t @ u)"
  by (simp add: leads_def)

lemma leads_start: "t \<noteq> [] \<Longrightarrow> \<not> blank (hd t) \<Longrightarrow> leads t"
  by (cases t) (auto simp: leads_def lead_def)

lemma leads_paren: "leads t \<Longrightarrow> leads (paren q t)"
  by (auto simp: paren_def leads_def lead_def blank_def)

lemma leads_shw: "wf_cmd c \<Longrightarrow> leads (shw c)"
proof (induction c)
  case (SExec ws)
  show ?case
  proof (cases ws)
    case (Cons w ws')
    then have "is_word w" using SExec by simp
    from is_word_lead [OF this, of "32 # concat (map (\<lambda>w. w @ [32]) ws')"] show ?thesis
      by (intro leads_start) (auto simp: Cons lead_def)
  qed (simp add: leads_def)
qed (simp_all add: leads_append leads_paren leads_start show_redir_def blank_def)

lemma wrap_append: "wrap (rs @ rs') c = wrap rs' (wrap rs c)"
  by (induction rs c rule: wrap.induct) simp_all

lemma size_wrap: "size c \<le> size (wrap rs c) \<and> (rs \<noteq> [] \<longrightarrow> size c < size (wrap rs c))"
  by (induction rs c rule: wrap.induct) auto

text \<open>A command that needs no parentheses anywhere is redirections around words or around a block.\<close>

lemma strip_redirs:
  assumes "wf_cmd c" "prec c = 0"
  shows "\<exists>rs base. c = wrap rs base \<and> redirs_ok rs \<and> wf_cmd base \<and> size base \<le> size c \<and>
     shw c = paren (0 < prec base) (shw base) @ show_redirs rs \<and> ((\<exists>ws. base = SExec ws) \<or> 0 < prec base)"
  using assms
proof (induction c)
  case (SExec ws)
  then show ?case by (intro exI [of _ "[]"] exI [of _ "SExec ws"]) (simp add: redirs_ok_def show_redirs_def paren_def)
next
  case (SRedir c f mode fd)
  have ok: "redirs_ok [(f, mode, fd)]" using SRedir.prems(1) by (simp add: redirs_ok_def)
  have sh: "show_redirs [(f, mode, fd)] = show_redir (f, fd)" by (simp add: show_redirs_def)
  show ?case
  proof (cases "prec c = 0")
    case True
    then obtain rs base where b: "c = wrap rs base" "redirs_ok rs" "wf_cmd base" "size base \<le> size c"
      "shw c = paren (0 < prec base) (shw base) @ show_redirs rs" "(\<exists>ws. base = SExec ws) \<or> 0 < prec base"
      using SRedir.IH SRedir.prems(1) by auto
    have "SRedir c f mode fd = wrap (rs @ [(f, mode, fd)]) base" using b(1) by (simp add: wrap_append)
    moreover have "shw (SRedir c f mode fd) = paren (0 < prec base) (shw base) @ show_redirs (rs @ [(f, mode, fd)])"
      using True b(5) by (simp add: paren_def show_redirs_def)
    moreover have "redirs_ok (rs @ [(f, mode, fd)])" using b(2) ok by (auto simp: redirs_ok_def)
    moreover have "size base \<le> size (SRedir c f mode fd)" using b(4) by simp
    ultimately show ?thesis using b(3, 6) by blast
  next
    case False
    then show ?thesis using SRedir.prems(1) ok sh
      by (intro exI [of _ "[(f, mode, fd)]"] exI [of _ c]) simp
  qed
qed simp_all

lemma backs_SBack: "SBack (backs n c) = backs (Suc n) c"
  by (induction n arbitrary: c) simp_all

lemma strip_backs:
  assumes "wf_cmd c"
  shows "\<exists>n base. c = backs n base \<and> wf_cmd base \<and> prec base \<noteq> 2 \<and> (prec c = 2 \<longrightarrow> 0 < n \<and> size base < size c) \<and>
     paren (2 < prec c) (shw c) = paren (2 < prec base) (shw base) @ concat (replicate n [38, 32])"
  using assms
proof (induction c)
  case (SBack c)
  then obtain n base where b: "c = backs n base" "wf_cmd base" "prec base \<noteq> 2" "prec c = 2 \<longrightarrow> size base < size c"
    "paren (2 < prec c) (shw c) = paren (2 < prec base) (shw base) @ concat (replicate n [38, 32])" by auto
  have "size base \<le> size c"
  proof (cases "prec c = 2")
    case False
    have "prec (backs m d) = 2" if "0 < m" for m d
      using that by (induction m d rule: backs.induct) (metis backs.simps backs_SBack gr0_implies_Suc prec.simps(4))+
    then have "n = 0" using False b(1) by blast
    then show ?thesis using b(1) by simp
  qed (use b(4) in simp)
  moreover have "concat (replicate n [38, 32]) @ [38, 32] = concat (replicate (Suc n) [38, 32 :: u8])"
    by (induction n) simp_all
  ultimately have "SBack c = backs (Suc n) base" "size base < size (SBack c)"
    "concat (replicate n [38, 32]) @ [38, 32] = concat (replicate (Suc n) [38, 32 :: u8])"
    by (simp only: b(1) backs_SBack, simp, blast)
  moreover have "paren (2 < prec (SBack c)) (shw (SBack c)) = paren (2 < prec c) (shw c) @ [38, 32]"
    by (simp add: paren_def)
  ultimately have "paren (2 < prec (SBack c)) (shw (SBack c)) = paren (2 < prec base) (shw base) @ concat (replicate (Suc n) [38, 32])"
    by (simp only: b(5) append_assoc)
  with \<open>SBack c = backs (Suc n) base\<close> \<open>size base < size (SBack c)\<close> b(2, 3) show ?case by blast
next
  case (SExec ws)
  then show ?case by (intro exI [of _ 0] exI [of _ "SExec ws"]) simp
next
  case (SRedir c f mode fd)
  then show ?case by (intro exI [of _ 0] exI [of _ "SRedir c f mode fd"]) simp
next
  case (SPipe l r)
  then show ?case by (intro exI [of _ 0] exI [of _ "SPipe l r"]) simp
next
  case (SList l r)
  then show ?case by (intro exI [of _ 0] exI [of _ "SList l r"]) simp
qed

lemma reads_all:
  "wf_cmd c \<Longrightarrow> reads_exec (paren (0 < prec c) (shw c)) c \<and> reads_pipe (paren (1 < prec c) (shw c)) c \<and>
     reads_amp (paren (2 < prec c) (shw c)) c \<and> reads_line (shw c) c"
proof (induction c rule: measure_induct_rule [of size])
  case (less c)
  have amp0: "reads_amp t c" if "reads_pipe t c" for t c
    using pipe_to_amp [OF that, of 0] by simp
  have block: "reads_exec (paren True (shw d)) d" if "reads_line (shw d) d" "wf_cmd d" for d
    using reads_block [OF that(1) leads_shw [OF that(2)], of "[]"] by (simp add: redirs_ok_def show_redirs_def paren_def)
  consider "prec c = 0" | (pipe) l r where "c = SPipe l r" | (bg) a where "c = SBack a" | (lst) l r where "c = SList l r"
    by (cases c) simp_all
  then show ?case
  proof cases
    case 1
    obtain rs base where b: "c = wrap rs base" "redirs_ok rs" "wf_cmd base" "size base \<le> size c"
      "shw c = paren (0 < prec base) (shw base) @ show_redirs rs" "(\<exists>ws. base = SExec ws) \<or> 0 < prec base"
      using strip_redirs [OF less.prems 1] by blast
    have "reads_exec (shw c) c"
    proof (cases "0 < prec base")
      case False
      then obtain ws where "base = SExec ws" using b(6) by auto
      then show ?thesis using reads_SExec [of ws rs] b(1-3, 5) by (simp add: paren_def)
    next
      case True
      have "rs \<noteq> []" using True 1 b(1) by (cases rs) auto
      then have "size base < size c" using size_wrap [of base rs] b(1) by simp
      then have "reads_line (shw base) base" using less.IH b(3) by blast
      from reads_block [OF this leads_shw [OF b(3)] b(2)] show ?thesis using True b(1, 5) by (simp add: paren_def)
    qed
    then show ?thesis using 1 by (auto simp: paren_def intro: exec_to_pipe amp0 amp_to_line)
  next
    case pipe
    have "reads_exec (paren (0 < prec l) (shw l)) l" "reads_pipe (paren (1 < prec r) (shw r)) r"
      using less.IH [of l] less.IH [of r] less.prems pipe by simp_all
    then have p: "reads_pipe (shw c) c"
      using reads_SPipe leads_paren leads_shw less.prems pipe by simp
    then have "reads_line (shw c) c" by (intro amp_to_line amp0)
    with p show ?thesis using block [of c] less.prems pipe amp0 [OF p] by (simp add: paren_def)
  next
    case bg
    obtain n base where b: "c = backs n base" "wf_cmd base" "prec base \<noteq> 2" "size base < size c"
      "paren (2 < prec c) (shw c) = paren (2 < prec base) (shw base) @ concat (replicate n [38, 32])"
      using strip_backs [OF less.prems] bg by (metis prec.simps(4))
    have "(1 < prec base) = (2 < prec base)" using b(3) by auto
    then have "reads_pipe (paren (2 < prec base) (shw base)) base" using less.IH [OF b(4, 2)] by simp
    from pipe_to_amp [OF this, of n] have "reads_amp (paren (2 < prec c) (shw c)) c" by (simp only: b(1, 5) [symmetric])
    then have a: "reads_amp (shw c) c" using bg by (simp add: paren_def)
    then have l: "reads_line (shw c) c" by (rule amp_to_line)
    show ?thesis using block [OF l less.prems] exec_to_pipe [OF block [OF l less.prems]] a l bg by (simp add: paren_def)
  next
    case lst
    have "reads_amp (paren (2 < prec l) (shw l)) l" "reads_line (shw r) r"
      using less.IH [of l] less.IH [of r] less.prems lst by simp_all
    then have l: "reads_line (shw c) c" using reads_SList leads_shw less.prems lst by simp
    note e = block [OF l less.prems]
    show ?thesis using e exec_to_pipe [OF e] amp0 [OF exec_to_pipe [OF e]] l lst by (simp add: paren_def)
  qed
qed

lemma clean_shw: "wf_cmd c \<Longrightarrow> 0 \<notin> set (shw c)"
  by (induction c) (auto simp: paren_def show_redir_def is_word_def wordy_def)

text \<open>
  C10. The parser of the shell always ends, and undoes printing: on a line of any bytes but the terminator
  the fuel is enough; and for every command (words without blanks and symbols, at most nine arguments,
  redirections, pipelines, lists and background commands nested in any way), parsing its text, with
  parentheses where the grammar needs them, succeeds, and the tree read in the terminated buffer is the
  command again.
\<close>

lemma parsecmd_shw:
  assumes "wf_cmd c"
  shows "(\<forall>b. 0 \<notin> set b \<longrightarrow> parseline b (length b) (parse_fuel (length b)) 0 \<noteq> Fuel) \<and>
    (\<exists>d b. parsecmd os (shw c) = Ret (d, b) \<and> denote b d = c)"
proof (intro conjI allI impI)
  fix b :: "u8 list" assume "0 \<notin> set b"
  then have "fine (length b) 0 (parseline b (length b) (parse_fuel (length b)) 0)"
    using parse_fine [of b "parse_fuel (length b)"] by (simp add: clean_def parse_fuel_def)
  then show "parseline b (length b) (parse_fuel (length b)) 0 \<noteq> Fuel" by (auto simp: fine_def)
next
  let ?b = "shw c"
  have z: "0 \<notin> set ?b" using clean_shw [OF assms] .
  then have at: "at_text ?b 0 (shw c @ [])" by (simp add: at_text_def clean_def)
  have len: "strlen_u ?b = length ?b" using strlen_u_list [OF z] .
  have "reads_line ?b c" using reads_all [OF assms] by blast
  moreover have "stops {41} []" "4 * length (shw c @ []) + 6 \<le> parse_fuel (length ?b)"
    by (simp_all add: stops_def parse_fuel_def)
  ultimately obtain d where d: "line_rule ?b (parse_fuel (length ?b)) 0 = Parsed (d, 0 + length ?b)" "rep ?b d c"
    using readsD [OF _ at] by blast
  have "at_text ?b (length ?b) []" using at_text_app [OF at] by simp
  then have "snd (peek ?b (length ?b) (length ?b) []) = length ?b"
    using peek_lead [of ?b "length ?b" "[]" "[]"] by (simp add: lead_def)
  then have "parsecmd os ?b = Ret (d, nulterminate d ?b)"
    using d(1) by (simp add: parsecmd_def len Let_def line_rule_def)
  then show "\<exists>d b. parsecmd os (shw c) = Ret (d, b) \<and> denote b d = c"
    using denote_nulterminate [OF d(2)] by blast
qed

lemma parsecmd_shw_witness:
  "\<exists>d b. parsecmd file_os (lit ''( ls ; cat < a ) | wc '') = Ret (d, b) \<and>
     denote b d = SPipe (SList (SExec [lit ''ls'']) (SRedir (SExec [lit ''cat'']) (lit ''a'') O_RDONLY 0)) (SExec [lit ''wc''])"
  using parsecmd_shw [of "SPipe (SList (SExec [lit ''ls'']) (SRedir (SExec [lit ''cat'']) (lit ''a'') O_RDONLY 0)) (SExec [lit ''wc''])" file_os]
  by (simp add: lit_def is_word_def wordy_def blank_def symbol_def MAXARGS_def paren_def show_redir_def)

end
