(* ===== verification/Umalloc.thy ===== *)
theory Umalloc
  imports Ulib "HOL-Library.While_Combinator"
begin

text \<open>
  user/umalloc.c, the allocator of user programs: a circular list of free blocks in the order of their
  addresses, threaded through the memory of the process. A \<open>Header *\<close> is an address, a header takes
  eight bytes (the pointer, then the size in headers), and adding to such a pointer moves it by eight.
  The kernel's side of it is \<open>sbrk\<close>, an argument.
\<close>

section \<open>State\<close>

text \<open>The memory of the process, the static \<open>freep\<close>, the address of the static \<open>base\<close>, and where the memory ends.\<close>

record heap =
  hp_mem :: bytes
  hp_freep :: u32
  hp_base :: u32
  hp_brk :: u32

definition nxt :: "bytes \<Rightarrow> u32 \<Rightarrow> u32" where "nxt m p = ld32 m p"
definition sz :: "bytes \<Rightarrow> u32 \<Rightarrow> u32" where "sz m p = ld32 m (p + 4)"
definition set_nxt :: "u32 \<Rightarrow> u32 \<Rightarrow> bytes \<Rightarrow> bytes" where "set_nxt p v m = st32 p v m"
definition set_sz :: "u32 \<Rightarrow> u32 \<Rightarrow> bytes \<Rightarrow> bytes" where "set_sz p v m = st32 (p + 4) v m"

definition plus_hdr :: "u32 \<Rightarrow> u32 \<Rightarrow> u32" where
  "plus_hdr p n = p + 8 * n"

section \<open>Operations\<close>

definition fits :: "bytes \<Rightarrow> u32 \<Rightarrow> u32 \<Rightarrow> bool" where
  "fits m bp p \<longleftrightarrow> (p < bp \<and> bp < nxt m p) \<or> (nxt m p \<le> p \<and> (p < bp \<or> bp < nxt m p))"

text \<open>The loop of \<open>free\<close>; on a list that never comes to the right place it does not end.\<close>

definition free_slot :: "bytes \<Rightarrow> u32 \<Rightarrow> u32 \<Rightarrow> u32 option" where
  "free_slot m bp p = while_option (\<lambda>p. \<not> fits m bp p) (nxt m) p"

definition join_next :: "u32 \<Rightarrow> u32 \<Rightarrow> bytes \<Rightarrow> bytes" where
  "join_next bp p m =
     (if plus_hdr bp (sz m bp) = nxt m p
      then (let m = set_sz bp (sz m bp + sz m (nxt m p)) m in set_nxt bp (nxt m (nxt m p)) m)
      else set_nxt bp (nxt m p) m)"

definition join_prev :: "u32 \<Rightarrow> u32 \<Rightarrow> bytes \<Rightarrow> bytes" where
  "join_prev bp p m =
     (if plus_hdr p (sz m p) = bp
      then (let m = set_sz p (sz m p + sz m bp) m in set_nxt p (nxt m bp) m)
      else set_nxt p bp m)"

definition free :: "u32 \<Rightarrow> (unit, heap) U" where
  "free ap h = (let bp = ap - 8 in
     if hp_freep h = 0 then Wild
     else case free_slot (hp_mem h) bp (hp_freep h) of
       None \<Rightarrow> Spin
     | Some p \<Rightarrow> Ret () (h\<lparr>hp_mem := join_prev bp p (join_next bp p (hp_mem h)), hp_freep := p\<rparr>))"

definition morecore :: "(u32 \<Rightarrow> (u32, heap) U) \<Rightarrow> u32 \<Rightarrow> (u32, heap) U" where
  "morecore sbrk nu = (let nu = (if nu < 4096 then 4096 else nu) in
     ubind (sbrk (nu * 8)) (\<lambda>p.
       if p = - 1 then Ret 0
       else useq (\<lambda>h. Ret () (h\<lparr>hp_mem := set_sz p nu (hp_mem h)\<rparr>))
         (useq (free (plus_hdr p 1)) (\<lambda>h. Ret (hp_freep h) h))))"

definition units :: "u32 \<Rightarrow> u32" where
  "units nbytes = (nbytes + 8 - 1) div 8 + 1"

text \<open>A block that fits is unlinked when it has the size asked for, and otherwise gives its tail.\<close>

definition carve :: "u32 \<Rightarrow> u32 \<Rightarrow> u32 \<Rightarrow> bytes \<Rightarrow> u32 \<times> bytes" where
  "carve nunits prevp p m =
     (if sz m p = nunits then (p, set_nxt prevp (nxt m p) m)
      else let m = set_sz p (sz m p - nunits) m; p = plus_hdr p (sz m p) in (p, set_sz p nunits m))"

definition malloc_turn :: "(u32 \<Rightarrow> (u32, heap) U) \<Rightarrow> u32 \<Rightarrow> u32 \<times> u32 \<Rightarrow> ((u32 \<times> u32) + u32, heap) U" where
  "malloc_turn sbrk nunits = (\<lambda>(prevp, p) h.
     if nunits \<le> sz (hp_mem h) p
     then (let (p, m) = carve nunits prevp p (hp_mem h) in Ret (Inr (plus_hdr p 1)) (h\<lparr>hp_mem := m, hp_freep := prevp\<rparr>))
     else if p = hp_freep h
     then ubind (morecore sbrk nunits) (\<lambda>p.
       if p = 0 then Ret (Inr 0) else (\<lambda>h. Ret (Inl (p, nxt (hp_mem h) p)) h)) h
     else Ret (Inl (p, nxt (hp_mem h) p)) h)"

text \<open>More turns than there can be headers in memory, twice.\<close>

definition malloc_turns :: nat where "malloc_turns = 1073741824"

definition malloc_init :: "heap \<Rightarrow> heap" where
  "malloc_init h = (if hp_freep h = 0
     then h\<lparr>hp_mem := set_sz (hp_base h) 0 (set_nxt (hp_base h) (hp_base h) (hp_mem h)), hp_freep := hp_base h\<rparr>
     else h)"

definition malloc :: "(u32 \<Rightarrow> (u32, heap) U) \<Rightarrow> u32 \<Rightarrow> (u32, heap) U" where
  "malloc sbrk nbytes h = (let h = malloc_init h; prevp = hp_freep h in
     uloop malloc_turns (malloc_turn sbrk (units nbytes)) (prevp, nxt (hp_mem h) prevp) h)"

text \<open>\<open>memmove\<close> of ulib.c copies upwards, a byte at a time, as often as its \<open>int\<close> says.\<close>

definition realloc :: "(u32 \<Rightarrow> (u32, heap) U) \<Rightarrow> u32 \<Rightarrow> u32 \<Rightarrow> (u32, heap) U" where
  "realloc sbrk ap nbytes h = (let bp = ap - 8 in
     if units nbytes \<le> sz (hp_mem h) bp then Ret ap h
     else ubind (malloc sbrk nbytes) (\<lambda>np.
       if np = 0 then Ret 0
       else useq (\<lambda>h. Ret () (h\<lparr>hp_mem := copy_up np ap (nat (sint ((sz (hp_mem h) bp - 1) * 8))) (hp_mem h)\<rparr>))
         (useq (free ap) (Ret np))) h)"

section \<open>Headers\<close>

abbreviation low :: "u32 \<Rightarrow> bool" where
  "low a \<equiv> unat a + 8 \<le> 2147483648"

abbreviation sep :: "u32 \<Rightarrow> u32 \<Rightarrow> bool" where
  "sep a b \<equiv> unat a + 8 \<le> unat b \<or> unat b + 8 \<le> unat a"

lemma unat_off: "unat a + unat k < 4294967296 \<Longrightarrow> unat (a + k) = unat a + unat (k :: u32)"
  by (simp add: unat_word_ariths)

lemma unat_plus_hdr: "unat a + 8 * unat n < 4294967296 \<Longrightarrow> unat (plus_hdr a n) = unat a + 8 * unat n"
proof -
  assume a: "unat a + 8 * unat n < 4294967296"
  then have "unat (8 * n) = 8 * unat n" by (simp add: unat_word_ariths)
  with a show ?thesis unfolding plus_hdr_def by (subst unat_off) simp_all
qed

lemma unat_sz: "low a \<Longrightarrow> unat (a + 4) = unat a + 4"
  by (subst unat_off) simp_all

lemma st32_outside:
  assumes "unat a + 4 \<le> 4294967296" "unat x < unat a \<or> unat a + 4 \<le> unat x"
  shows "st32 a v m x = m x"
proof (rule st32_other)
  fix k :: u32 assume "k < 4"
  then have "unat k < 4" using unat_mono by fastforce
  then show "x \<noteq> a + k" using assms unat_off [of a k] by auto
qed

lemma ld32_st32_other:
  assumes "unat a + 4 \<le> unat b \<or> unat b + 4 \<le> unat a" "unat a + 4 \<le> 4294967296" "unat b + 4 \<le> 4294967296"
  shows "ld32 (st32 a v m) b = ld32 m b"
proof (rule ld32_cong)
  fix k :: u32 assume "k < 4"
  then have "unat k < 4" using unat_mono by fastforce
  then show "st32 a v m (b + k) = m (b + k)" using assms unat_off [of b k] by (intro st32_outside) auto
qed

lemma hdr_same [simp]:
  "nxt (set_nxt a v m) a = v" "sz (set_sz a v m) a = v"
  "low a \<Longrightarrow> sz (set_nxt a v m) a = sz m a" "low a \<Longrightarrow> nxt (set_sz a v m) a = nxt m a"
  by (simp_all add: nxt_def sz_def set_nxt_def set_sz_def ld32_st32_other unat_sz)

lemma hdr_other:
  assumes "sep a b" "low a" "low b"
  shows "nxt (set_nxt a v m) b = nxt m b" "sz (set_sz a v m) b = sz m b"
    "sz (set_nxt a v m) b = sz m b" "nxt (set_sz a v m) b = nxt m b"
  using assms by (auto simp: nxt_def sz_def set_nxt_def set_sz_def unat_sz intro!: ld32_st32_other)

lemma hdr_outside:
  assumes "low a" "unat x < unat a \<or> unat a + 8 \<le> unat x"
  shows "set_nxt a v m x = m x" "set_sz a v m x = m x"
  using assms by (auto simp: set_nxt_def set_sz_def unat_sz intro!: st32_outside)

section \<open>The list of free blocks\<close>

text \<open>Blocks are pairs of an address and a size in headers.\<close>

type_synonym blocks = "(u32 \<times> u32) list"

definition blk :: "u32 \<times> u32 \<Rightarrow> nat set" where
  "blk b = {unat (fst b)..<unat (fst b) + 8 * unat (snd b)}"

definition area :: "blocks \<Rightarrow> nat set" where
  "area bs = (\<Union>b \<in> set bs. blk b)"

definition before :: "u32 \<times> u32 \<Rightarrow> u32 \<times> u32 \<Rightarrow> bool" where
  "before a b \<longleftrightarrow> unat (fst a) + 8 * unat (snd a) < unat (fst b) \<and> unat (fst a) + 8 \<le> unat (fst b)"

text \<open>The list from address \<open>a\<close> to address \<open>e\<close> that the headers in memory make.\<close>

fun path :: "bytes \<Rightarrow> u32 \<Rightarrow> blocks \<Rightarrow> u32 \<Rightarrow> bool" where
  "path m a [] e = (a = e)"
| "path m a (b # bs) e = (fst b = a \<and> sz m a = snd b \<and> path m (nxt m a) bs e)"

lemma path_append: "path m a (bs @ cs) e = (\<exists>c. path m a bs c \<and> path m c cs e)"
  by (induction bs arbitrary: a) auto

lemma path_cong:
  "(\<And>b. b \<in> set bs \<Longrightarrow> nxt m' (fst b) = nxt m (fst b) \<and> sz m' (fst b) = sz m (fst b)) \<Longrightarrow> path m' a bs e = path m a bs e"
proof (induction bs arbitrary: a)
  case (Cons b bs)
  have "path m' c bs e = path m c bs e" for c using Cons by simp
  moreover have "nxt m' (fst b) = nxt m (fst b) \<and> sz m' (fst b) = sz m (fst b)" using Cons.prems [of b] by simp
  ultimately show ?case by (cases "fst b = a") simp_all
qed simp

text \<open>
  The invariant of the list: it starts with \<open>base\<close>, which has size 0 and the lowest address, addresses
  go up, no block touches the next (they would have been joined), every block ends before the break, the last points back to
  \<open>base\<close>, and \<open>freep\<close> is on it.
\<close>

definition blocks_ok :: "heap \<Rightarrow> blocks \<Rightarrow> bool" where
  "blocks_ok h bs \<longleftrightarrow> sorted_wrt before bs \<and> (\<exists>cs. bs = (hp_base h, 0) # cs \<and> (\<forall>b \<in> set cs. 0 < snd b)) \<and>
    (\<forall>b \<in> set bs. unat (fst b) + 8 * unat (snd b) \<le> unat (hp_brk h) \<and> unat (fst b) + 8 \<le> unat (hp_brk h)) \<and>
    unat (hp_brk h) \<le> 2147483648 \<and> hp_base h \<noteq> 0"

definition heap_ok :: "heap \<Rightarrow> blocks \<Rightarrow> bool" where
  "heap_ok h bs \<longleftrightarrow> blocks_ok h bs \<and> path (hp_mem h) (hp_base h) bs (hp_base h) \<and> hp_freep h \<in> fst ` set bs"

text \<open>A block that may be given back: above \<open>base\<close>, below the break, and apart from the free ones.\<close>

definition fresh_block :: "heap \<Rightarrow> blocks \<Rightarrow> u32 \<times> u32 \<Rightarrow> bool" where
  "fresh_block h bs b \<longleftrightarrow> 0 < snd b \<and> unat (hp_base h) + 8 \<le> unat (fst b) \<and>
    unat (fst b) + 8 * unat (snd b) \<le> unat (hp_brk h) \<and> blk b \<inter> area bs = {}"

section \<open>Finding the place\<close>

lemma slot_exists:
  assumes "sorted_wrt before bs" "bs \<noteq> []" "unat (fst (hd bs)) < unat p"
  obtains xs q ys where "bs = xs @ q # ys" "unat (fst q) < unat p" "\<forall>b \<in> set ys. unat p \<le> unat (fst b)"
proof -
  have "\<exists>xs q ys. bs = xs @ q # ys \<and> unat (fst q) < unat p \<and> (\<forall>b \<in> set ys. unat p \<le> unat (fst b))"
    using assms
  proof (induction bs)
    case Nil
    then show ?case by simp
  next
    case (Cons b bs)
    show ?case
    proof (cases "bs \<noteq> [] \<and> unat (fst (hd bs)) < unat p")
      case True
      then have "\<exists>xs q ys. bs = xs @ q # ys \<and> unat (fst q) < unat p \<and> (\<forall>b \<in> set ys. unat p \<le> unat (fst b))"
        using Cons.IH Cons.prems(1) by simp
      then obtain xs q ys where "bs = xs @ q # ys" "unat (fst q) < unat p" "\<forall>b \<in> set ys. unat p \<le> unat (fst b)"
        by blast
      then have "b # bs = (b # xs) @ q # ys" by simp
      with \<open>unat (fst q) < unat p\<close> \<open>\<forall>b \<in> set ys. unat p \<le> unat (fst b)\<close> show ?thesis by blast
    next
      case False
      then have "\<forall>c \<in> set bs. unat p \<le> unat (fst c)" using Cons.prems(1)
        by (cases bs) (auto simp: before_def)
      then show ?thesis using Cons.prems by (intro exI [of _ "[]"] exI [of _ b] exI [of _ bs]) auto
    qed
  qed
  then show ?thesis using that by blast
qed

lemma free_slot_step: "\<not> fits m bp p \<Longrightarrow> free_slot m bp p = free_slot m bp (nxt m p)"
  unfolding free_slot_def by (subst while_option_unfold) simp

lemma free_slot_here: "fits m bp p \<Longrightarrow> free_slot m bp p = Some p"
  unfolding free_slot_def by (subst while_option_unfold) simp

lemma free_slot_path:
  "path m a us c \<Longrightarrow> (\<And>b. b \<in> set us \<Longrightarrow> \<not> fits m bp (fst b)) \<Longrightarrow> free_slot m bp a = free_slot m bp c"
  by (induction us arbitrary: a) (auto simp: free_slot_step)

lemma path_next: "path m a (us @ b # vs) e \<Longrightarrow> nxt m (fst b) = (if vs = [] then e else fst (hd vs))"
  by (cases vs) (auto simp: path_append)

lemma path_from: "path m a (us @ b # vs) e \<Longrightarrow> path m (fst b) (b # vs) e"
  by (auto simp: path_append)

lemma path_to: "path m a (us @ b # vs) e \<Longrightarrow> path m a us (fst b)"
  by (auto simp: path_append)

text \<open>Only the header before the block fits it.\<close>

lemma fits_only:
  assumes "path m a bs a" "sorted_wrt before bs" "\<forall>b \<in> set bs. unat a \<le> unat (fst b)" "unat a < unat p"
    and "bs = xs @ q # ys" "unat (fst q) < unat p" "\<forall>b \<in> set ys. unat p < unat (fst b)"
  shows "fits m p (fst q)" "b \<in> set xs \<union> set ys \<Longrightarrow> \<not> fits m p (fst b)"
proof -
  have next_of: "nxt m (fst b) = (if vs = [] then a else fst (hd vs))" if "bs = us @ b # vs" for us b vs
    using path_next assms(1) that by blast
  have "nxt m (fst q) = (if ys = [] then a else fst (hd ys))" using next_of [OF assms(5)] .
  moreover have "ys \<noteq> [] \<Longrightarrow> unat p < unat (fst (hd ys))" using assms(7) by simp
  ultimately show "fits m p (fst q)" using assms(3,5,6) by (auto simp: fits_def word_less_nat_alt word_le_nat_alt)
next
  assume b: "b \<in> set xs \<union> set ys"
  have next_of: "nxt m (fst b) = (if vs = [] then a else fst (hd vs))" if "bs = us @ b # vs" for us vs
    using path_next assms(1) that by blast
  show "\<not> fits m p (fst b)"
  proof (cases "b \<in> set ys")
    case True
    then obtain us vs where ys: "ys = us @ b # vs" by (meson split_list)
    then have "nxt m (fst b) = (if vs = [] then a else fst (hd vs))" using next_of [of "xs @ q # us" vs] assms(5) by simp
    moreover have "vs \<noteq> [] \<Longrightarrow> unat (fst b) < unat (fst (hd vs))"
      using assms(2,5) ys by (cases vs) (auto simp: sorted_wrt_append before_def)
    moreover have "unat p < unat (fst b)" using True assms(7) by blast
    ultimately show ?thesis using assms(4) by (auto simp: fits_def word_less_nat_alt word_le_nat_alt)
  next
    case False
    then obtain us vs where xs: "xs = us @ b # vs" using b by (meson Un_iff split_list)
    then have n: "nxt m (fst b) = fst (hd (vs @ q # ys))" using next_of [of us "vs @ q # ys"] assms(5) by simp
    have "unat (fst b) < unat (fst (hd (vs @ q # ys)))" "unat (fst (hd (vs @ q # ys))) \<le> unat (fst q)"
      using assms(2,5) xs by (cases vs; auto simp: sorted_wrt_append before_def)+
    then show ?thesis using assms(6) n by (auto simp: fits_def word_less_nat_alt word_le_nat_alt)
  qed
qed

lemma blocks_base:
  assumes "blocks_ok h bs" "b \<in> set bs"
  shows "unat (hp_base h) \<le> unat (fst b)" "low (fst b)" "unat (fst b) + 8 * unat (snd b) \<le> unat (hp_brk h)"
proof -
  show "low (fst b)" "unat (fst b) + 8 * unat (snd b) \<le> unat (hp_brk h)"
    using assms by (fastforce simp: blocks_ok_def)+
  show "unat (hp_base h) \<le> unat (fst b)" using assms by (fastforce simp: blocks_ok_def before_def)
qed

lemma free_slot_found:
  assumes ok: "heap_ok h bs" and bs: "bs = xs @ q # ys" "unat (fst q) < unat p" "\<forall>b \<in> set ys. unat p < unat (fst b)"
    and p: "unat (hp_base h) < unat p"
  shows "free_slot (hp_mem h) p (hp_freep h) = Some (fst q)"
proof -
  let ?m = "hp_mem h" let ?a = "hp_base h"
  have path: "path ?m ?a bs ?a" and sorted: "sorted_wrt before bs"
    using ok by (simp_all add: heap_ok_def blocks_ok_def)
  have all: "\<forall>b \<in> set bs. unat ?a \<le> unat (fst b)"
    using ok blocks_base(1) by (auto simp: heap_ok_def)
  note f = fits_only [OF path sorted all p bs]
  have here: "free_slot ?m p (fst q) = Some (fst q)" using f(1) by (rule free_slot_here)
  have from_base: "free_slot ?m p ?a = Some (fst q)"
    using free_slot_path [OF path_to, of ?m ?a xs q ys ?a p] path bs(1) f(2) here by simp
  obtain b where b: "b \<in> set bs" "hp_freep h = fst b" using ok by (auto simp: heap_ok_def)
  consider "b = q" | "b \<in> set xs" | "b \<in> set ys" using b(1) bs(1) by auto
  then show ?thesis
  proof cases
    case 1
    then show ?thesis using here b by simp
  next
    case 2
    then obtain us vs where xs: "xs = us @ b # vs" by (meson split_list)
    then have "path ?m (fst b) (b # vs) (fst q)" using path_from path_to path bs(1) by blast
    then show ?thesis using free_slot_path [of ?m "fst b" "b # vs" "fst q" p] f(2) xs here b(2) by auto
  next
    case 3
    then obtain us vs where ys: "ys = us @ b # vs" by (meson split_list)
    then have "path ?m (fst b) (b # vs) ?a" using path bs(1) path_from [of ?m ?a "xs @ q # us" b vs ?a] by simp
    then show ?thesis using free_slot_path [of ?m "fst b" "b # vs" ?a p] f(2) ys from_base b(2) by auto
  qed
qed

section \<open>Joining\<close>

text \<open>A block put before a list, joined with the first of the list when it touches it.\<close>

fun with_next :: "u32 \<times> u32 \<Rightarrow> blocks \<Rightarrow> blocks" where
  "with_next b [] = [b]"
| "with_next b (c # cs) = (if plus_hdr (fst b) (snd b) = fst c then (fst b, snd b + snd c) # cs else b # c # cs)"

lemma join_next_path:
  assumes path: "path m c ys e" "nxt m p' = c" and sz: "sz m p = n" and low: "low p" "\<forall>b \<in> set ys. low (fst b) \<and> sep p (fst b)"
    and e: "ys = [] \<Longrightarrow> plus_hdr p n \<noteq> c" and p': "sep p p'" "low p'"
  shows "path (join_next p p' m) p (with_next (p, n) ys) e"
proof (cases ys)
  case Nil
  then show ?thesis using assms by (simp add: join_next_def)
next
  case (Cons b bs)
  have s: "sep p c" "low c" "fst b = c" "sz m c = snd b" "path m (nxt m c) bs e" using assms Cons by auto
  show ?thesis
  proof (cases "plus_hdr p n = c")
    case True
    define m1 where "m1 = set_sz p (sz m p + sz m c) m"
    define m2 where "m2 = set_nxt p (nxt m c) m1"
    have j: "join_next p p' m = m2"
      using True s p' low path(2) sz by (simp add: join_next_def Let_def m1_def m2_def hdr_other)
    have "path m2 (nxt m c) bs e = path m (nxt m c) bs e"
      using low Cons by (intro path_cong) (auto simp: m2_def m1_def hdr_other)
    then show ?thesis using s True sz low Cons by (simp add: j m2_def m1_def)
  next
    case False
    have "path (set_nxt p c m) c ys e = path m c ys e"
      using low by (intro path_cong) (auto simp: hdr_other)
    then show ?thesis using False path sz low(1) Cons s by (simp add: join_next_def)
  qed
qed

lemma join_prev_path:
  assumes path: "path m p (b # cs) e" and sz: "sz m q = k" and low: "low q" "\<forall>c \<in> set (b # cs). low (fst c) \<and> sep q (fst c)"
  shows "path (join_prev p q m) q (with_next (q, k) (b # cs)) e"
proof -
  have s: "sep q p" "low p" "fst b = p" "sz m p = snd b" "path m (nxt m p) cs e" using assms by auto
  show ?thesis
  proof (cases "plus_hdr q k = p")
    case True
    define m1 where "m1 = set_sz q (k + snd b) m"
    define m2 where "m2 = set_nxt q (nxt m p) m1"
    have j: "join_prev p q m = m2"
      using True s low sz by (simp add: join_prev_def Let_def m1_def m2_def hdr_other)
    have "path m2 (nxt m p) cs e = path m (nxt m p) cs e"
      using low by (intro path_cong) (auto simp: m2_def m1_def hdr_other)
    then show ?thesis using s True low by (simp add: j m2_def m1_def)
  next
    case False
    have "path (set_nxt q p m) p (b # cs) e = path m p (b # cs) e"
      using low by (intro path_cong) (auto simp: hdr_other)
    then show ?thesis using False path sz low(1) s by (simp add: join_prev_def)
  qed
qed

lemma join_next_other:
  assumes "low p" "low p'" "sep p p'" "low (nxt m p')" "low a" "sep p a"
  shows "nxt (join_next p p' m) a = nxt m a" "sz (join_next p p' m) a = sz m a"
  using assms by (auto simp: join_next_def Let_def hdr_other)

lemma join_prev_other:
  assumes "low q" "low a" "sep q a"
  shows "nxt (join_prev p q m) a = nxt m a" "sz (join_prev p q m) a = sz m a"
  using assms by (auto simp: join_prev_def Let_def hdr_other)

lemma joins_outside:
  assumes "low p" "low q" "unat x < unat p \<or> unat p + 8 \<le> unat x" "unat x < unat q \<or> unat q + 8 \<le> unat x"
  shows "join_prev p q (join_next p q m) x = m x"
  using assms by (auto simp: join_prev_def join_next_def Let_def hdr_outside)

section \<open>The list after joining\<close>

lemma unat_plus_small: "unat n + unat k < 4294967296 \<Longrightarrow> unat (n + k :: u32) = unat n + unat k"
  by (rule unat_off)

lemma with_next_ok:
  assumes ys: "sorted_wrt before ys"
    "\<forall>c \<in> set ys. unat (fst b) + 8 * unat (snd b) \<le> unat (fst c) \<and> unat (fst b) + 8 \<le> unat (fst c) \<and>
      unat (fst c) + 8 * unat (snd c) \<le> B"
    and b: "unat (fst b) + 8 * unat (snd b) \<le> B" "B \<le> 2147483648"
  shows "sorted_wrt before (with_next b ys) \<and> area (with_next b ys) = blk b \<union> area ys \<and>
    (\<exists>n zs. with_next b ys = (fst b, n) # zs \<and> set zs \<subseteq> set ys \<and> snd b \<le> n \<and> unat (fst b) + 8 * unat n \<le> B) \<and>
    (\<forall>c \<in> set ys. \<exists>d \<in> set (with_next b ys). snd c \<le> snd d)"
proof (cases ys)
  case Nil
  then show ?thesis using b by (cases b) (simp add: area_def)
next
  case (Cons c cs)
  have c: "unat (fst b) + 8 * unat (snd b) \<le> unat (fst c)" "unat (fst c) + 8 * unat (snd c) \<le> B"
    "unat (fst b) + 8 \<le> unat (fst c)" using ys Cons by auto
  have e: "unat (plus_hdr (fst b) (snd b)) = unat (fst b) + 8 * unat (snd b)" using b by (intro unat_plus_hdr) simp
  show ?thesis
  proof (cases "plus_hdr (fst b) (snd b) = fst c")
    case True
    then have t: "unat (fst c) = unat (fst b) + 8 * unat (snd b)" using e by simp
    have "unat (snd b) + unat (snd c) < 4294967296" using t c b by simp
    then have n: "unat (snd b + snd c) = unat (snd b) + unat (snd c)" by (rule unat_plus_small)
    have "blk (fst b, snd b + snd c) = blk b \<union> blk c" using t n by (auto simp: blk_def)
    moreover have "before (fst b, snd b + snd c) d" if "d \<in> set cs" for d
      using ys(1) Cons that t n c(3) by (auto simp: before_def)
    moreover have "snd b \<le> snd b + snd c" "snd c \<le> snd b + snd c" using n by (simp_all add: word_le_nat_alt)
    ultimately show ?thesis using True Cons ys(1) c t n by (auto simp: area_def)
  next
    case False
    then have "unat (fst b) + 8 * unat (snd b) \<noteq> unat (fst c)" using e by (metis unsigned_word_eqI)
    then have "before b c" using c by (simp add: before_def)
    moreover have "before b d" if "d \<in> set cs" for d
      using ys Cons that c by (fastforce simp: before_def)
    ultimately show ?thesis using False Cons ys(1) b by (cases b) (auto simp: area_def)
  qed
qed

section \<open>free\<close>

lemma fresh_neighbours:
  assumes ok: "blocks_ok h bs" and f: "fresh_block h bs b" and bs: "bs = xs @ q # ys"
    and q: "unat (fst q) < unat (fst b)" and ys: "\<forall>c \<in> set ys. unat (fst b) \<le> unat (fst c)"
  shows "\<forall>c \<in> set ys. unat (fst b) + 8 * unat (snd b) \<le> unat (fst c) \<and> unat (fst b) + 8 \<le> unat (fst c) \<and> 0 < snd c"
    and "unat (fst q) + 8 * unat (snd q) \<le> unat (fst b)" "unat (fst q) + 8 \<le> unat (fst b)"
    and "(xs = [] \<and> q = (hp_base h, 0)) \<or> (0 < snd q \<and> (\<exists>us. xs = (hp_base h, 0) # us \<and> (\<forall>c \<in> set us. 0 < snd c)))"
proof -
  obtain cs where cs: "bs = (hp_base h, 0) # cs" "\<forall>c \<in> set cs. 0 < snd c" using ok by (auto simp: blocks_ok_def)
  have n: "0 < unat (snd b)" using f by (simp add: fresh_block_def word_less_nat_alt)
  have apart: "blk b \<inter> blk c = {}" if "c \<in> set bs" for c
    using f that by (auto simp: fresh_block_def area_def)
  show *: "(xs = [] \<and> q = (hp_base h, 0)) \<or> (0 < snd q \<and> (\<exists>us. xs = (hp_base h, 0) # us \<and> (\<forall>c \<in> set us. 0 < snd c)))"
    using bs cs by (cases xs) auto
  have yc: "set ys \<subseteq> set cs" using bs cs by (cases xs) auto
  show "\<forall>c \<in> set ys. unat (fst b) + 8 * unat (snd b) \<le> unat (fst c) \<and> unat (fst b) + 8 \<le> unat (fst c) \<and> 0 < snd c"
  proof
    fix c assume c: "c \<in> set ys"
    then have "0 < snd c" using yc cs by blast
    then have "unat (fst c) \<in> blk c" by (simp add: blk_def word_less_nat_alt)
    then have "unat (fst c) \<notin> blk b" using apart [of c] c bs by auto
    then show "unat (fst b) + 8 * unat (snd b) \<le> unat (fst c) \<and> unat (fst b) + 8 \<le> unat (fst c) \<and> 0 < snd c"
      using ys c n \<open>0 < snd c\<close> by (auto simp: blk_def)
  qed
  have "unat (fst b) \<in> blk b" using n by (simp add: blk_def)
  then have "unat (fst b) \<notin> blk q" using apart [of q] bs by auto
  then show le: "unat (fst q) + 8 * unat (snd q) \<le> unat (fst b)" using q by (auto simp: blk_def)
  show "unat (fst q) + 8 \<le> unat (fst b)"
  proof (cases "0 < snd q")
    case True
    then show ?thesis using le by (simp add: word_less_nat_alt)
  next
    case False
    then show ?thesis using * f by (auto simp: fresh_block_def)
  qed
qed

text \<open>The abstract effect of \<open>free\<close>: the block joins the list, in place, and merges with its neighbours.\<close>

lemma free_blocks:
  assumes ok: "blocks_ok h bs" and f: "fresh_block h bs b" and bs: "bs = xs @ q # ys"
    and q: "unat (fst q) < unat (fst b)" and ys: "\<forall>c \<in> set ys. unat (fst b) \<le> unat (fst c)"
  defines "bs' \<equiv> xs @ with_next q (with_next b ys)"
  shows "blocks_ok h bs' \<and> area bs' = area bs \<union> blk b \<and> fst q \<in> fst ` set bs' \<and> (\<exists>d \<in> set bs'. snd b \<le> snd d) \<and>
    (\<exists>n zs. with_next b ys = (fst b, n) # zs \<and> set zs \<subseteq> set ys)"
proof -
  note nb = fresh_neighbours [OF ok f bs q ys]
  let ?B = "unat (hp_brk h)"
  have B: "?B \<le> 2147483648" and sorted: "sorted_wrt before xs" "sorted_wrt before ys" "\<forall>x \<in> set xs. before x q \<and> (\<forall>y \<in> set ys. before x y)"
    and top: "\<forall>c \<in> set bs. unat (fst c) + 8 * unat (snd c) \<le> ?B \<and> unat (fst c) + 8 \<le> ?B"
    using ok bs by (auto simp: blocks_ok_def sorted_wrt_append)
  have fb: "unat (fst b) + 8 * unat (snd b) \<le> ?B" "0 < snd b" "unat (hp_base h) + 8 \<le> unat (fst b)"
    using f by (auto simp: fresh_block_def)
  have "\<forall>c \<in> set ys. unat (fst b) + 8 * unat (snd b) \<le> unat (fst c) \<and> unat (fst b) + 8 \<le> unat (fst c) \<and>
      unat (fst c) + 8 * unat (snd c) \<le> ?B" using nb(1) top bs by simp
  from with_next_ok [OF sorted(2) this fb(1) B]
  obtain n zs where w: "with_next b ys = (fst b, n) # zs" "set zs \<subseteq> set ys" "snd b \<le> n" "unat (fst b) + 8 * unat n \<le> ?B"
    "sorted_wrt before ((fst b, n) # zs)" "area ((fst b, n) # zs) = blk b \<union> area ys" by metis
  have "\<forall>c \<in> set ((fst b, n) # zs). unat (fst q) + 8 * unat (snd q) \<le> unat (fst c) \<and> unat (fst q) + 8 \<le> unat (fst c) \<and>
      unat (fst c) + 8 * unat (snd c) \<le> ?B"
    using w(2,4) nb top bs by fastforce
  moreover have "unat (fst q) + 8 * unat (snd q) \<le> ?B" using top bs by simp
  ultimately have all: "sorted_wrt before (with_next q ((fst b, n) # zs)) \<and> area (with_next q ((fst b, n) # zs)) = blk q \<union> area ((fst b, n) # zs) \<and>
    (\<exists>j us. with_next q ((fst b, n) # zs) = (fst q, j) # us \<and> set us \<subseteq> set ((fst b, n) # zs) \<and> snd q \<le> j \<and> unat (fst q) + 8 * unat j \<le> ?B) \<and>
    (\<forall>c \<in> set ((fst b, n) # zs). \<exists>d \<in> set (with_next q ((fst b, n) # zs)). snd c \<le> snd d)"
    by (intro with_next_ok [OF w(5)] B)
  then obtain j us where v0: "with_next q ((fst b, n) # zs) = (fst q, j) # us" "set us \<subseteq> set ((fst b, n) # zs)" "snd q \<le> j"
    "unat (fst q) + 8 * unat j \<le> ?B" by blast
  have "sorted_wrt before ((fst q, j) # us)" "area ((fst q, j) # us) = blk q \<union> (blk b \<union> area ys)"
    "\<forall>c \<in> set ((fst b, n) # zs). \<exists>d \<in> set ((fst q, j) # us). snd c \<le> snd d"
    using all unfolding v0(1) w(6) by blast+
  then have "\<exists>d \<in> set ((fst q, j) # us). n \<le> snd d" by (metis list.set_intros(1) snd_conv)
  note v = v0 \<open>sorted_wrt before ((fst q, j) # us)\<close> \<open>area ((fst q, j) # us) = blk q \<union> (blk b \<union> area ys)\<close> this
  have bs': "bs' = xs @ (fst q, j) # us" using v w by (simp add: bs'_def)
  have us: "\<forall>c \<in> set us. (c = (fst b, n) \<or> c \<in> set ys)" using v(2) w(2) by auto
  have "sorted_wrt before bs'"
  proof -
    have "before x c" if x: "x \<in> set xs" and c: "c \<in> set ((fst q, j) # us)" for x c
    proof -
      have xq: "before x q" "\<forall>y \<in> set ys. before x y" using sorted(3) x by blast+
      consider "c = (fst q, j)" | "c = (fst b, n)" | "c \<in> set ys" using c us by auto
      then show ?thesis using xq q by cases (auto simp: before_def)
    qed
    then show ?thesis using sorted v(5) by (simp add: bs' sorted_wrt_append)
  qed
  moreover have "\<exists>cs. bs' = (hp_base h, 0) # cs \<and> (\<forall>c \<in> set cs. 0 < snd c)"
  proof -
    have pos: "\<forall>c \<in> set us. 0 < snd c"
      using us fb(2) w(3) nb(1) by (auto dest: order.strict_trans2)
    from nb(4) show ?thesis
    proof
      assume "xs = [] \<and> q = (hp_base h, 0)"
      moreover from this have "plus_hdr (fst q) (snd q) \<noteq> fst b" using q by (auto simp: plus_hdr_def)
      ultimately show ?thesis using v(1) w pos bs' nb(1) fb(2) by auto
    next
      assume "0 < snd q \<and> (\<exists>us. xs = (hp_base h, 0) # us \<and> (\<forall>c \<in> set us. 0 < snd c))"
      then show ?thesis using v(3) pos by (auto simp: bs' dest: order.strict_trans2)
    qed
  qed
  moreover have "\<forall>c \<in> set bs'. unat (fst c) + 8 * unat (snd c) \<le> ?B \<and> unat (fst c) + 8 \<le> ?B"
  proof -
    have "0 < unat (snd b)" using fb(2) by (simp add: word_less_nat_alt)
    then have "unat (fst b) + 8 \<le> ?B" using fb(1) by linarith
    then show ?thesis using top bs us v(4) w(4) by (auto simp: bs')
  qed
  moreover have "area bs' = area bs \<union> blk b" using v(6) by (auto simp: bs' bs area_def)
  moreover have "\<exists>d \<in> set bs'. snd b \<le> snd d"
  proof -
    obtain d where "d \<in> set ((fst q, j) # us)" "n \<le> snd d" using v(7) by blast
    then have "d \<in> set bs'" "snd b \<le> snd d" using order.trans [OF w(3)] by (auto simp: bs')
    then show ?thesis by blast
  qed
  ultimately show ?thesis using ok w(1,2) by (auto simp: blocks_ok_def bs')
qed

definition same_elsewhere :: "nat set \<Rightarrow> bytes \<Rightarrow> bytes \<Rightarrow> bool" where
  "same_elsewhere A m' m \<longleftrightarrow> (\<forall>x. unat x \<notin> A \<longrightarrow> m' x = m x)"

text \<open>The bytes that belong to the allocator: the free blocks and the header \<open>base\<close>.\<close>

definition own :: "heap \<Rightarrow> blocks \<Rightarrow> nat set" where
  "own h bs = {unat (hp_base h)..<unat (hp_base h) + 8} \<union> area bs"

lemma header_own:
  assumes "blocks_ok h bs" "b \<in> set bs"
  shows "{unat (fst b)..<unat (fst b) + 8} \<subseteq> own h bs"
proof -
  obtain cs where cs: "bs = (hp_base h, 0) # cs" "\<forall>c \<in> set cs. 0 < snd c" using assms by (auto simp: blocks_ok_def)
  show ?thesis
  proof (cases "b \<in> set cs")
    case True
    then have "0 < unat (snd b)" using cs(2) by (auto simp: word_less_nat_alt)
    then have "{unat (fst b)..<unat (fst b) + 8} \<subseteq> blk b" by (auto simp: blk_def)
    then show ?thesis using assms(2) by (auto simp: own_def area_def)
  next
    case False
    then show ?thesis using assms(2) cs by (auto simp: own_def)
  qed
qed

lemma blocks_sep:
  assumes "blocks_ok h bs" "bs = xs @ q # ys" "c \<in> set xs \<union> set ys"
  shows "sep (fst q) (fst c)"
  using assms by (auto simp: blocks_ok_def sorted_wrt_append before_def)

lemma heap_freep: "heap_ok h bs \<Longrightarrow> hp_freep h \<noteq> 0"
proof -
  assume ok: "heap_ok h bs"
  then obtain b where "b \<in> set bs" "hp_freep h = fst b" by (auto simp: heap_ok_def)
  then have "unat (hp_base h) \<le> unat (hp_freep h)" using ok blocks_base(1) [of h bs b] by (simp add: heap_ok_def)
  moreover have "hp_base h \<noteq> 0" using ok by (simp add: heap_ok_def blocks_ok_def)
  ultimately show ?thesis by (auto simp: unat_eq_0)
qed

lemma free_gives:
  assumes ok: "heap_ok h bs" and f: "fresh_block h bs (p, n)" and sz: "sz (hp_mem h) p = n"
  shows "\<exists>h' bs'. free (plus_hdr p 1) h = Ret () h' \<and> heap_ok h' bs' \<and> area bs' = area bs \<union> blk (p, n) \<and>
    hp_brk h' = hp_brk h \<and> hp_base h' = hp_base h \<and> same_elsewhere (own h bs \<union> blk (p, n)) (hp_mem h') (hp_mem h) \<and>
    (\<exists>d \<in> set bs'. n \<le> snd d)"
proof -
  let ?m = "hp_mem h" let ?a = "hp_base h"
  have bok: "blocks_ok h bs" and path: "path ?m ?a bs ?a" using ok by (simp_all add: heap_ok_def)
  have ap: "unat ?a < unat p" using f by (simp add: fresh_block_def)
  obtain cs where "bs = (?a, 0) # cs" using bok by (auto simp: blocks_ok_def)
  then have hd: "bs \<noteq> []" "unat (fst (hd bs)) < unat p" using ap by simp_all
  have "sorted_wrt before bs" using bok by (simp add: blocks_ok_def)
  from slot_exists [OF this hd] obtain xs q ys where bs: "bs = xs @ q # ys" "unat (fst q) < unat (fst (p, n))"
    "\<forall>c \<in> set ys. unat (fst (p, n)) \<le> unat (fst c)"
    by (simp only: fst_conv) blast
  note nb = fresh_neighbours [OF bok f bs(1) bs(2,3)]
  note fb = free_blocks [OF bok f bs]
  obtain n' zs where w: "with_next (p, n) ys = (p, n') # zs" "set zs \<subseteq> set ys" using fb by auto
  have n: "0 < unat n" using f by (simp add: fresh_block_def word_less_nat_alt)
  have bl: "low (fst c)" if "c \<in> set bs" for c using blocks_base(2) [OF bok that] .
  have "(?a, 0) \<in> set bs" using \<open>bs = (?a, 0) # cs\<close> by simp
  then have lows: "low (fst q)" "low ?a" using bl [of q] bs(1) bl [of "(?a, 0)"] by simp_all
  have "unat p + 8 * unat n \<le> 2147483648" using f bok by (simp add: fresh_block_def blocks_ok_def)
  then have lp: "low p" using n by linarith
  have sp: "sep p (fst q)" "\<forall>c \<in> set ys. low (fst c) \<and> sep p (fst c)" using nb bl bs(1) by auto
  have sx: "\<forall>c \<in> set xs. sep (fst q) (fst c) \<and> sep p (fst c) \<and> low (fst c)"
  proof
    fix c assume c: "c \<in> set xs"
    then have "before c q" using bok bs(1) by (auto simp: blocks_ok_def sorted_wrt_append)
    then show "sep (fst q) (fst c) \<and> sep p (fst c) \<and> low (fst c)" using nb(3) bl [of c] c bs(1) by (auto simp: before_def)
  qed
  have slot: "free_slot ?m p (hp_freep h) = Some (fst q)"
    using nb(1) n by (intro free_slot_found [OF ok bs(1)] ap) (use bs in auto)
  define m1 where "m1 = join_next p (fst q) ?m"
  define m2 where "m2 = join_prev p (fst q) m1"
  have pq: "path ?m (nxt ?m (fst q)) ys ?a" "path ?m ?a xs (fst q)" "sz ?m (fst q) = snd q"
    using path bs(1) by (auto simp: path_append)
  have lnext: "low (nxt ?m (fst q))"
    using path_next [of ?m ?a xs q ys ?a] path bs(1) lows bl by auto
  have "ys = [] \<Longrightarrow> plus_hdr p n \<noteq> nxt ?m (fst q)"
    using path_next [of ?m ?a xs q ys ?a] path bs(1) unat_plus_hdr [of p n] \<open>unat p + 8 * unat n \<le> 2147483648\<close> ap by auto
  then have p1: "path m1 p ((p, n') # zs) ?a"
    using join_next_path [OF pq(1) refl sz lp sp(2) _ sp(1) lows(1)] w(1) by (simp add: m1_def)
  note o1 = join_next_other [OF lp lows(1) sp(1) lnext, folded m1_def]
  have "path m1 ?a xs (fst q)" using pq(2) path_cong [of xs m1 ?m] o1 sx by auto
  then have x2: "path m2 ?a xs (fst q)"
    using path_cong [of xs m2 m1] join_prev_other [OF lows(1)] sx by (auto simp: m2_def)
  have q1: "sz m1 (fst q) = snd q" using o1(2) lows sp pq(3) by simp
  have "low (fst c) \<and> sep (fst q) (fst c)" if "c \<in> set zs" for c
    using that w(2) bl [of c] bs(1) blocks_sep [OF bok bs(1), of c] by auto
  then have "\<forall>c \<in> set ((p, n') # zs). low (fst c) \<and> sep (fst q) (fst c)" using lp sp(1) by auto
  then have "path m2 (fst q) (with_next (fst q, snd q) ((p, n') # zs)) ?a"
    using join_prev_path [OF p1 q1 lows(1)] by (simp add: m2_def)
  then have "path m2 ?a (xs @ with_next q (with_next (p, n) ys)) ?a"
    using x2 w(1) by (auto simp: path_append)
  moreover have "free (plus_hdr p 1) h = Ret () (h\<lparr>hp_mem := m2, hp_freep := fst q\<rparr>)"
    using slot heap_freep [OF ok] by (simp add: free_def Let_def plus_hdr_def m1_def m2_def)
  moreover have "same_elsewhere (own h bs \<union> blk (p, n)) m2 ?m"
    unfolding same_elsewhere_def
  proof (intro allI impI)
    fix x :: u32 assume x: "unat x \<notin> own h bs \<union> blk (p, n)"
    have "{unat (fst q)..<unat (fst q) + 8} \<subseteq> own h bs" using header_own [OF bok, of q] bs(1) by simp
    moreover have "{unat p..<unat p + 8} \<subseteq> blk (p, n)" using n by (auto simp: blk_def)
    ultimately have "unat x \<notin> {unat (fst q)..<unat (fst q) + 8}" "unat x \<notin> {unat p..<unat p + 8}" using x by blast+
    then show "m2 x = ?m x" unfolding m2_def m1_def
      by (intro joins_outside [OF lp lows(1)]) (simp_all, linarith+)
  qed
  ultimately show ?thesis using fb
    by (intro exI [of _ "h\<lparr>hp_mem := m2, hp_freep := fst q\<rparr>"] exI [of _ "xs @ with_next q (with_next (p, n) ys)"])
      (auto simp: heap_ok_def blocks_ok_def)
qed

section \<open>morecore\<close>

text \<open>
  What \<open>sbrk\<close> is relied on for: it fails and changes nothing, or it returns the old break and moves it up,
  within the user half of the address space; nothing below the old break changes.
\<close>

definition break_grows :: "(u32 \<Rightarrow> (u32, heap) U) \<Rightarrow> bool" where
  "break_grows sbrk \<longleftrightarrow> (\<forall>n h. unat n < 2147483648 \<longrightarrow> sbrk n h = Ret (- 1) h \<or>
     (\<exists>m. sbrk n h = Ret (hp_brk h) (h\<lparr>hp_mem := m, hp_brk := hp_brk h + n\<rparr>) \<and> unat (hp_brk h) + unat n \<le> 2147483648 \<and>
       same_elsewhere {unat (hp_brk h)..<unat (hp_brk h) + unat n} m (hp_mem h)))"

lemma hdr_cong:
  assumes "low a" "\<And>x. unat a \<le> unat x \<Longrightarrow> unat x < unat a + 8 \<Longrightarrow> m' x = m x"
  shows "nxt m' a = nxt m a" "sz m' a = sz m a"
proof -
  have k: "unat k < 4" if "k < 4" for k :: u32 using unat_mono [OF that] by simp
  show "nxt m' a = nxt m a"
    unfolding nxt_def
  proof (rule ld32_cong)
    fix i :: u32 assume "i < 4"
    then show "m' (a + i) = m (a + i)" using k [of i] unat_off [of a i] assms(1) by (intro assms(2)) auto
  qed
  show "sz m' a = sz m a"
    unfolding sz_def
  proof (rule ld32_cong)
    fix i :: u32 assume "i < 4"
    then show "m' (a + 4 + i) = m (a + 4 + i)"
      using k [of i] unat_off [of "a + 4" i] unat_sz [OF assms(1)] assms(1) by (intro assms(2)) auto
  qed
qed

lemma area_below: "blocks_ok h bs \<Longrightarrow> own h bs \<subseteq> {..<unat (hp_brk h)}"
  by (fastforce simp: own_def area_def blk_def blocks_ok_def)

lemma path_same:
  assumes "blocks_ok h bs" "same_elsewhere A m' m" "A \<inter> own h bs = {}" "path m a bs e"
  shows "path m' a bs e"
proof -
  have "nxt m' (fst b) = nxt m (fst b) \<and> sz m' (fst b) = sz m (fst b)" if b: "b \<in> set bs" for b
  proof -
    have "m' x = m x" if "unat (fst b) \<le> unat x" "unat x < unat (fst b) + 8" for x :: u32
    proof -
      have "unat x \<in> own h bs" using header_own [OF assms(1) b] that by (simp add: subset_iff)
      then show ?thesis using assms(2,3) by (auto simp: same_elsewhere_def)
    qed
    then show ?thesis using hdr_cong [OF blocks_base(2) [OF assms(1) b], of m' m] by blast
  qed
  then show ?thesis using assms(4) path_cong [of bs m' m] by blast
qed

text \<open>The bytes \<open>morecore\<close> asks for.\<close>

definition more_bytes :: "u32 \<Rightarrow> u32" where
  "more_bytes nu = (if nu < 4096 then 4096 else nu) * 8"

lemma morecore_gives:
  assumes ok: "heap_ok h bs" and grows: "break_grows sbrk" and nu: "unat nu \<le> 134217728"
  shows "morecore sbrk nu h = Ret 0 h \<and> sbrk (more_bytes nu) h = Ret (- 1) h \<or> (\<exists>h' bs'. morecore sbrk nu h = Ret (hp_freep h') h' \<and> heap_ok h' bs' \<and>
    unat (hp_brk h) \<le> unat (hp_brk h') \<and> hp_base h' = hp_base h \<and>
    area bs' = area bs \<union> {unat (hp_brk h)..<unat (hp_brk h')} \<and>
    same_elsewhere (own h bs \<union> {unat (hp_brk h)..<unat (hp_brk h')}) (hp_mem h') (hp_mem h) \<and> (\<exists>d \<in> set bs'. nu \<le> snd d))"
proof -
  define n where "n = (if nu < 4096 then 4096 else nu)"
  have n: "4096 \<le> unat n" "unat n \<le> 134217728" "nu \<le> n" using nu by (auto simp: n_def word_less_nat_alt word_le_nat_alt not_le)
  have n8: "unat (n * 8) = 8 * unat n" using n(2) by (simp add: unat_word_ariths)
  let ?b = "unat (hp_brk h)"
  have bok: "blocks_ok h bs" using ok by (simp add: heap_ok_def)
  then have top: "?b \<le> 2147483648" by (simp add: blocks_ok_def)
  have start: "morecore sbrk nu h = ubind (sbrk (n * 8)) (\<lambda>p. if p = - 1 then Ret 0
       else useq (\<lambda>h. Ret () (h\<lparr>hp_mem := set_sz p n (hp_mem h)\<rparr>))
         (useq (free (plus_hdr p 1)) (\<lambda>h. Ret (hp_freep h) h))) h"
    unfolding morecore_def n_def Let_def by (rule refl)
  have "unat (n * 8) < 2147483648" using n n8 by simp
  then consider "sbrk (n * 8) h = Ret (- 1) h"
    | m where "sbrk (n * 8) h = Ret (hp_brk h) (h\<lparr>hp_mem := m, hp_brk := hp_brk h + n * 8\<rparr>)" "?b + 8 * unat n \<le> 2147483648"
      "same_elsewhere {?b..<?b + 8 * unat n} m (hp_mem h)"
    using grows n8 unfolding break_grows_def by metis
  then show ?thesis
  proof cases
    case 1
    then show ?thesis by (simp add: start ubind_def more_bytes_def n_def [symmetric])
  next
    case 2
    define m' where "m' = set_sz (hp_brk h) n m"
    define h2 where "h2 = h\<lparr>hp_brk := hp_brk h + n * 8, hp_mem := m'\<rparr>"
    have brk: "unat (hp_brk h2) = ?b + 8 * unat n" using 2(2) n8 unat_off [of "hp_brk h" "n * 8"] by (simp add: h2_def)
    have lb: "low (hp_brk h)" using 2(2) n(1) by simp
    have se: "same_elsewhere {?b..<?b + 8 * unat n} m' (hp_mem h)"
      using 2(3) hdr_outside(2) [OF lb, of _ n m] n(1) by (auto simp: same_elsewhere_def m'_def)
    have b2: "blocks_ok h2 bs" using bok brk 2(2) by (fastforce simp: blocks_ok_def h2_def)
    have "own h bs \<subseteq> {..<?b}" by (rule area_below [OF bok])
    then have dis: "{?b..<?b + 8 * unat n} \<inter> own h bs = {}" by auto
    have ok2: "heap_ok h2 bs"
      using ok b2 path_same [OF bok se dis] by (simp add: heap_ok_def h2_def)
    have nn: "unat n \<noteq> 0" using n(1) by simp
    have f2: "fresh_block h2 bs (hp_brk h, n)"
    proof -
      have "unat (hp_base h2) + 8 \<le> ?b" using bok by (auto simp: blocks_ok_def h2_def)
      moreover have "blk (hp_brk h, n) \<inter> area bs = {}" using dis by (auto simp: own_def blk_def)
      moreover have "0 < n" using nn by (auto simp: word_less_nat_alt)
      ultimately show ?thesis using brk by (simp add: fresh_block_def)
    qed
    have sz: "sz (hp_mem h2) (hp_brk h) = n" by (simp add: h2_def m'_def)
    obtain h' bs' where r: "free (plus_hdr (hp_brk h) 1) h2 = Ret () h'" "heap_ok h' bs'"
      "area bs' = area bs \<union> blk (hp_brk h, n)" "hp_brk h' = hp_brk h2" "hp_base h' = hp_base h2"
      "same_elsewhere (own h2 bs \<union> blk (hp_brk h, n)) (hp_mem h') (hp_mem h2)" "\<exists>d \<in> set bs'. n \<le> snd d"
      using free_gives [OF ok2 f2 sz] by blast
    have "hp_brk h \<noteq> - 1" using top by (auto simp: unsigned_minus_1_eq_mask mask_eq_exp_minus_1)
    then have "morecore sbrk nu h = Ret (hp_freep h') h'"
      using 2(1) r(1) by (simp add: start ubind_def useq_def h2_def m'_def)
    moreover have "blk (hp_brk h, n) = {?b..<unat (hp_brk h')}" using r(4) brk by (simp add: blk_def)
    moreover have "same_elsewhere (own h bs \<union> {?b..<unat (hp_brk h')}) (hp_mem h') (hp_mem h)"
      using r(4,6) se brk by (auto simp: same_elsewhere_def own_def h2_def blk_def)
    moreover have "\<exists>d \<in> set bs'. nu \<le> snd d" using r(7) n(3) order.trans by blast
    ultimately show ?thesis using r brk by (intro disjI2 exI [of _ h'] exI [of _ bs']) (simp add: h2_def)
  qed
qed

section \<open>malloc\<close>

text \<open>Walking the list until a block fits or \<open>freep\<close> is reached.\<close>

definition on_list :: "heap \<Rightarrow> blocks \<Rightarrow> u32 \<Rightarrow> u32 \<Rightarrow> bool" where
  "on_list h bs prevp p \<longleftrightarrow> prevp \<in> fst ` set bs \<and> p \<in> fst ` set bs \<and> nxt (hp_mem h) prevp = p"

lemma walk:
  assumes "path (hp_mem h) p us (hp_freep h)" "\<forall>b \<in> set us. fst b \<noteq> hp_freep h \<and> b \<in> set bs"
    "on_list h bs prevp p" "length us < F" and freep: "hp_freep h \<in> fst ` set bs"
  shows "\<exists>F' prevp' p'. F - length us \<le> F' \<and> on_list h bs prevp' p' \<and>
    (k \<le> sz (hp_mem h) p' \<or> p' = hp_freep h \<and> (\<forall>b \<in> set us. \<not> k \<le> snd b)) \<and>
    uloop F (malloc_turn sbrk k) (prevp, p) h = uloop F' (malloc_turn sbrk k) (prevp', p') h"
  using assms(1-4)
proof (induction us arbitrary: prevp p F)
  case Nil
  then show ?case by (intro exI [of _ F] exI [of _ prevp] exI [of _ p]) simp
next
  case (Cons b us)
  have b: "fst b = p" "sz (hp_mem h) p = snd b" "path (hp_mem h) (nxt (hp_mem h) p) us (hp_freep h)"
    using Cons.prems(1) by auto
  show ?case
  proof (cases "k \<le> sz (hp_mem h) p")
    case True
    then show ?thesis using Cons.prems by (intro exI [of _ F] exI [of _ prevp] exI [of _ p]) simp
  next
    case False
    obtain G where G: "F = Suc G" "length us < G" using Cons.prems(4) by (cases F) auto
    have on: "on_list h bs p (nxt (hp_mem h) p)"
    proof (cases us)
      case Nil
      then show ?thesis using b Cons.prems(2,3) freep by (auto simp: on_list_def)
    next
      case (Cons c cs)
      then have "fst c \<in> fst ` set bs" "nxt (hp_mem h) p = fst c" using b Cons.prems(2) imageI [of c "set bs" fst] by auto
      then show ?thesis using \<open>on_list h bs prevp p\<close> by (simp add: on_list_def)
    qed
    have "uloop F (malloc_turn sbrk k) (prevp, p) h = uloop G (malloc_turn sbrk k) (p, nxt (hp_mem h) p) h"
      using False b(1) Cons.prems(2) by (auto simp: G(1) malloc_turn_def ubind_def)
    moreover obtain F' prevp' p' where "G - length us \<le> F'" "on_list h bs prevp' p'"
      "k \<le> sz (hp_mem h) p' \<or> p' = hp_freep h \<and> (\<forall>b \<in> set us. \<not> k \<le> snd b)"
      "uloop G (malloc_turn sbrk k) (p, nxt (hp_mem h) p) h = uloop F' (malloc_turn sbrk k) (prevp', p') h"
      using Cons.IH [OF b(3) _ on G(2)] Cons.prems(2) by auto
    ultimately show ?thesis using False b G(1)
      by (intro exI [of _ F'] exI [of _ prevp'] exI [of _ p']) auto
  qed
qed

lemma fst_distinct: "sorted_wrt before bs \<Longrightarrow> distinct (map fst bs)"
  by (induction bs) (auto simp: before_def)

lemma walk_from_freep:
  assumes ok: "heap_ok h bs" and F: "length bs \<le> F"
  shows "\<exists>F' prevp' p'. F - length bs < F' \<and> on_list h bs prevp' p' \<and>
    (k \<le> sz (hp_mem h) p' \<or> p' = hp_freep h \<and> (\<forall>b \<in> set bs. snd b < k)) \<and>
    uloop F (malloc_turn sbrk k) (hp_freep h, nxt (hp_mem h) (hp_freep h)) h = uloop F' (malloc_turn sbrk k) (prevp', p') h"
proof -
  let ?m = "hp_mem h" let ?f = "hp_freep h" let ?a = "hp_base h"
  have path: "path ?m ?a bs ?a" and d: "distinct (map fst bs)"
    using ok fst_distinct by (auto simp: heap_ok_def blocks_ok_def)
  obtain c where c: "c \<in> set bs" "fst c = ?f" using ok by (auto simp: heap_ok_def)
  then obtain xs ys where bs: "bs = xs @ c # ys" by (meson split_list)
  have "path ?m (nxt ?m ?f) ys ?a" "path ?m ?a xs ?f" and szf: "sz ?m ?f = snd c"
    using path bs c(2) by (auto simp: path_append)
  then have p: "path ?m (nxt ?m ?f) (ys @ xs) ?f" by (auto simp: path_append)
  have "\<forall>b \<in> set (ys @ xs). fst b \<noteq> ?f \<and> b \<in> set bs" using d bs c(2) by (auto simp: image_iff)
  moreover have "on_list h bs ?f (nxt ?m ?f)"
  proof -
    have "fst (hd (ys @ xs @ [c])) \<in> fst ` set bs" using bs by (cases ys; cases xs) auto
    moreover have "nxt ?m ?f = fst (hd (ys @ xs @ [c]))" using p c(2) by (cases ys; cases xs) auto
    moreover have "?f \<in> fst ` set bs" using imageI [of c "set bs" fst] c by simp
    ultimately show ?thesis by (simp add: on_list_def)
  qed
  moreover have "length (ys @ xs) < F" using F bs by simp
  ultimately obtain F' prevp' p' where w: "F - length (ys @ xs) \<le> F'" "on_list h bs prevp' p'"
    "k \<le> sz ?m p' \<or> p' = ?f \<and> (\<forall>b \<in> set (ys @ xs). \<not> k \<le> snd b)"
    "uloop F (malloc_turn sbrk k) (?f, nxt ?m ?f) h = uloop F' (malloc_turn sbrk k) (prevp', p') h"
    using walk [OF p] ok unfolding heap_ok_def by blast
  moreover have "k \<le> sz ?m p' \<or> p' = ?f \<and> (\<forall>b \<in> set bs. snd b < k)"
    using w(3) szf bs by (auto simp: not_le)
  moreover have "F - length bs < F'" using w(1) F bs by simp
  ultimately show ?thesis by blast
qed

text \<open>Taking a block, or its tail, out of the list.\<close>

lemma blocks_disjoint:
  assumes "blocks_ok h bs" "bs = xs @ q # ys" "c \<in> set xs \<union> set ys"
  shows "blk q \<inter> blk c = {}"
  using assms by (auto simp: blocks_ok_def sorted_wrt_append before_def blk_def)

lemma carve_gives:
  assumes ok: "heap_ok h bs" and on: "on_list h bs prevp p" and k: "0 < k" "k \<le> sz (hp_mem h) p"
  obtains r m bs' where "carve k prevp p (hp_mem h) = (r, m)" "heap_ok (h\<lparr>hp_mem := m, hp_freep := prevp\<rparr>) bs'"
    "sz m r = k" "blk (r, k) \<subseteq> area bs" "area bs' = area bs - blk (r, k)" "same_elsewhere (own h bs) m (hp_mem h)"
    "unat (hp_base h) + 8 \<le> unat r" "unat r + 8 * unat k \<le> unat (hp_brk h)"
proof -
  let ?m = "hp_mem h" let ?a = "hp_base h"
  have bok: "blocks_ok h bs" and path: "path ?m ?a bs ?a" using ok by (simp_all add: heap_ok_def)
  obtain cs where cs: "bs = (?a, 0) # cs" "\<forall>c \<in> set cs. 0 < snd c" using bok by (auto simp: blocks_ok_def)
  obtain q where q: "q \<in> set bs" "fst q = prevp" using on by (auto simp: on_list_def)
  then obtain xs zs where bs0: "bs = xs @ q # zs" by (meson split_list)
  define n where "n = sz ?m p"
  have n: "0 < unat k" "unat k \<le> unat n" using k by (simp_all add: word_less_nat_alt word_le_nat_alt n_def)
  have pa: "p \<noteq> ?a" using path cs(1) k by auto
  then obtain b ys where zs: "zs = b # ys" "fst b = p"
    using path_next [of ?m ?a xs q zs ?a] path bs0 on q(2) by (cases zs) (auto simp: on_list_def)
  have bs: "bs = xs @ q # b # ys" "bs = (xs @ [q]) @ b # ys" using bs0 zs by simp_all
  have b: "b = (p, n)" using path bs(2) zs(2) by (cases b) (auto simp: path_append n_def)
  have qp: "path ?m ?a xs prevp" "nxt ?m prevp = p" "path ?m (nxt ?m p) ys ?a" "sz ?m prevp = snd q"
    using path bs(1) q(2) zs(2) by (auto simp: path_append)
  have lows: "low (fst c)" if "c \<in> set bs" for c using blocks_base(2) [OF bok that] .
  have lp: "low p" "low prevp" using lows [of b] lows [of q] bs(1) q(2) zs(2) by simp_all
  have sq: "sep prevp (fst c)" if "c \<in> set xs \<union> set (b # ys)" for c
    using blocks_sep [OF bok bs(1) that] q(2) by simp
  have sb: "sep p (fst c)" if "c \<in> set xs \<union> set ys" for c
    using blocks_sep [OF bok bs(2), of c] that zs(2) by auto
  have pq: "sep p prevp" using sq [of b] zs(2) by auto
  have bb: "b \<in> set bs" using bs(1) by simp
  have top: "unat p + 8 * unat n \<le> unat (hp_brk h)" "unat (hp_brk h) \<le> 2147483648" "unat ?a + 8 \<le> unat p"
  proof -
    show "unat p + 8 * unat n \<le> unat (hp_brk h)" "unat (hp_brk h) \<le> 2147483648"
      using bok bb b by (auto simp: blocks_ok_def)
    have "b \<in> set cs" using bb cs(1) pa zs(2) by auto
    then show "unat ?a + 8 \<le> unat p" using bok cs(1) zs(2) by (auto simp: blocks_ok_def before_def)
  qed
  have ab: "area bs = area (xs @ q # ys) \<union> blk (p, n)" using bs b by (auto simp: area_def)
  have "blk c \<inter> blk (p, n) = {}" if "c \<in> set (xs @ q # ys)" for c
    using blocks_disjoint [OF bok bs(2), of c] that b by auto
  then have dis: "area (xs @ q # ys) \<inter> blk (p, n) = {}" unfolding area_def by blast
  show ?thesis
  proof (cases "n = k")
    case True
    define m where "m = set_nxt prevp (nxt ?m p) ?m"
    have c: "carve k prevp p ?m = (p, m)" using True by (simp add: carve_def n_def m_def)
    have "path m ?a xs prevp" using qp(1) path_cong [of xs m ?m] hdr_other [OF sq] lows lp bs(1) by (auto simp: m_def)
    moreover have "path m (nxt ?m p) ys ?a" using qp(3) path_cong [of ys m ?m] hdr_other [OF sq] lows lp bs(1) by (auto simp: m_def)
    ultimately have pm: "path m ?a (xs @ q # ys) ?a" using q(2) qp(4) lp by (auto simp: path_append m_def)
    have "heap_ok (h\<lparr>hp_mem := m, hp_freep := prevp\<rparr>) (xs @ q # ys)"
      using bok bs(1) cs pm q(2) by (cases xs) (auto simp: heap_ok_def blocks_ok_def sorted_wrt_append)
    moreover have "sz m p = k" using True pq lp by (subst m_def, subst hdr_other(3)) (auto simp: n_def)
    moreover have "same_elsewhere (own h bs) m ?m"
    proof -
      have "{unat prevp..<unat prevp + 8} \<subseteq> own h bs" using header_own [OF bok q(1)] q(2) by simp
      then show ?thesis using hdr_outside(1) [OF lp(2)] by (auto simp: same_elsewhere_def m_def) (meson atLeastLessThan_iff leI subsetD)
    qed
    moreover have "area (xs @ q # ys) = area bs - blk (p, k)" using ab dis True by auto
    ultimately show ?thesis using that [OF c] ab True top by auto
  next
    case False
    define j where "j = n - k"
    have j: "unat j = unat n - unat k" "0 < unat j"
    proof -
      show u: "unat j = unat n - unat k" using n(2) by (simp add: j_def unat_sub word_le_nat_alt)
      have "unat n \<noteq> unat k" using False by (metis unsigned_word_eqI)
      then show "0 < unat j" using u n(2) by simp
    qed
    define r where "r = plus_hdr p j"
    have r: "unat r = unat p + 8 * unat j" unfolding r_def using j n top by (intro unat_plus_hdr) simp
    have lr: "low r" using r j n top by simp
    have blks: "blk (p, n) = blk (p, j) \<union> blk (r, k)" "blk (p, j) \<inter> blk (r, k) = {}" using r j n by (auto simp: blk_def)
    define m where "m = set_sz r k (set_sz p j ?m)"
    have c: "carve k prevp p ?m = (r, m)" using False by (simp add: carve_def Let_def n_def [symmetric] m_def j_def r_def)
    have sr: "sep r (fst c)" if c: "c \<in> set xs \<union> set (q # ys)" for c
    proof -
      have "c \<in> set bs" using c bs(1) by auto
      then have "unat (fst c) + 8 \<le> unat p \<or> unat p + 8 * unat n < unat (fst c)"
        using c bok bs(2) b by (auto simp: blocks_ok_def sorted_wrt_append before_def)
      then show ?thesis using r j n by auto
    qed
    have "sep r p" using r j by auto
    have o: "nxt m (fst c) = nxt ?m (fst c) \<and> sz m (fst c) = sz ?m (fst c)" if "c \<in> set xs \<union> set (q # ys)" for c
    proof -
      have lc: "low (fst c)" using lows [of c] that bs(1) by auto
      have "sep p (fst c)" using that sb [of c] pq q(2) by auto
      then show ?thesis
        using hdr_other [OF sr [OF that] lr lc] hdr_other [OF _ lp(1) lc] by (simp add: m_def)
    qed
    have hp: "nxt m p = nxt ?m p" "sz m p = j" "sz m r = k"
      using hdr_other [OF \<open>sep r p\<close> lr lp(1)] lp by (simp_all add: m_def)
    have "path m ?a xs prevp" using qp(1) path_cong [of xs m ?m] o by auto
    moreover have "path m (nxt ?m p) ys ?a" using qp(3) path_cong [of ys m ?m] o by auto
    ultimately have pm: "path m ?a (xs @ q # (p, j) # ys) ?a" using q(2) qp(2,4) o [of q] hp by (auto simp: path_append)
    have jn: "unat p + 8 * unat j \<le> unat p + 8 * unat n" using j by simp
    have "sorted_wrt before (xs @ q # (p, j) # ys)"
      using bok bs(1) b jn by (auto simp: blocks_ok_def sorted_wrt_append before_def)
    moreover have "0 < j" using j(2) by (simp add: word_less_nat_alt)
    ultimately have "heap_ok (h\<lparr>hp_mem := m, hp_freep := prevp\<rparr>) (xs @ q # (p, j) # ys)"
      using bok bs(1) b cs pm q(2) jn top by (cases xs) (auto simp: heap_ok_def blocks_ok_def)
    moreover have "same_elsewhere (own h bs) m ?m"
    proof -
      have "{unat p..<unat p + 8} \<subseteq> own h bs" using header_own [OF bok bb] zs(2) by simp
      moreover have "{unat r..<unat r + 8} \<subseteq> own h bs" using ab blks n(1) by (auto simp: own_def blk_def)
      ultimately have "m x = ?m x" if "unat x \<notin> own h bs" for x
      proof -
        have "unat x \<notin> {unat p..<unat p + 8}" "unat x \<notin> {unat r..<unat r + 8}"
          using that \<open>{unat p..<unat p + 8} \<subseteq> own h bs\<close> \<open>{unat r..<unat r + 8} \<subseteq> own h bs\<close> by blast+
        then show ?thesis using hdr_outside(2) [OF lr, of x] hdr_outside(2) [OF lp(1), of x] by (auto simp: m_def)
      qed
      then show ?thesis by (simp add: same_elsewhere_def)
    qed
    moreover have "area (xs @ q # (p, j) # ys) = area bs - blk (r, k)"
      using ab dis blks by (auto simp: area_def)
    moreover have "unat r + 8 * unat k \<le> unat (hp_brk h)" using r j n top by simp
    ultimately show ?thesis using that [OF c] ab blks hp r top by auto
  qed
qed

text \<open>What a successful request hands out of a list.\<close>

definition takes :: "heap \<Rightarrow> blocks \<Rightarrow> u32 \<Rightarrow> u32 \<Rightarrow> heap \<Rightarrow> blocks \<Rightarrow> bool" where
  "takes h bs k p h' bs' \<longleftrightarrow> heap_ok h' bs' \<and> sz (hp_mem h') p = k \<and> blk (p, k) \<subseteq> area bs \<and> area bs' = area bs - blk (p, k) \<and>
    same_elsewhere (own h bs) (hp_mem h') (hp_mem h) \<and> hp_brk h' = hp_brk h \<and> hp_base h' = hp_base h \<and>
    unat (hp_base h) + 8 \<le> unat p \<and> unat p + 8 * unat k \<le> unat (hp_brk h)"

lemma take_block:
  assumes "heap_ok h bs" "on_list h bs prevp q" "0 < k" "k \<le> sz (hp_mem h) q"
  shows "\<exists>p h' bs'. uloop (Suc F) (malloc_turn sbrk k) (prevp, q) h = Ret (plus_hdr p 1) h' \<and> takes h bs k p h' bs'"
proof -
  obtain r m bs' where c: "carve k prevp q (hp_mem h) = (r, m)" "heap_ok (h\<lparr>hp_mem := m, hp_freep := prevp\<rparr>) bs'"
    "sz m r = k" "blk (r, k) \<subseteq> area bs" "area bs' = area bs - blk (r, k)" "same_elsewhere (own h bs) m (hp_mem h)"
    "unat (hp_base h) + 8 \<le> unat r" "unat r + 8 * unat k \<le> unat (hp_brk h)"
    using carve_gives [OF assms] .
  have "uloop (Suc F) (malloc_turn sbrk k) (prevp, q) h = Ret (plus_hdr r 1) (h\<lparr>hp_mem := m, hp_freep := prevp\<rparr>)"
    using assms(4) c(1) by (simp add: malloc_turn_def ubind_def)
  then show ?thesis using c by (intro exI [of _ r] exI [of _ "h\<lparr>hp_mem := m, hp_freep := prevp\<rparr>"] exI [of _ bs']) (simp add: takes_def)
qed

lemma length_blocks:
  assumes "blocks_ok h bs"
  shows "8 * length bs \<le> 2147483648"
proof -
  have "bs \<noteq> [] \<Longrightarrow> sorted_wrt before bs \<Longrightarrow> \<forall>b \<in> set bs. unat (fst b) + 8 \<le> 2147483648 \<Longrightarrow>
      unat (fst (hd bs)) + 8 * length bs \<le> 2147483648" for bs
  proof (induction bs)
    case (Cons b bs)
    show ?case
    proof (cases bs)
      case Nil
      then show ?thesis using Cons.prems by simp
    next
      case c: (Cons c cs)
      then have "unat (fst b) + 8 \<le> unat (fst c)" using Cons.prems by (simp add: before_def)
      then show ?thesis using Cons c by simp
    qed
  qed simp
  from this [of bs] show ?thesis using assms blocks_base(2) [OF assms] by (force simp: blocks_ok_def)
qed

lemma malloc_gives:
  assumes ok: "heap_ok (malloc_init h) bs" and grows: "break_grows sbrk" and nb: "unat nbytes \<le> 536870912"
  defines "h0 \<equiv> malloc_init h" and "k \<equiv> units nbytes"
  shows "(malloc sbrk nbytes h = Ret 0 h0 \<and> sbrk (more_bytes k) h0 = Ret (- 1) h0 \<and> (\<forall>b \<in> set bs. snd b < k)) \<or>
    (\<exists>p h' bs'. malloc sbrk nbytes h = Ret (plus_hdr p 1) h' \<and> takes h0 bs k p h' bs') \<or>
    (\<exists>p h' bs' h1 bs1. malloc sbrk nbytes h = Ret (plus_hdr p 1) h' \<and> heap_ok h1 bs1 \<and> takes h1 bs1 k p h' bs' \<and>
      unat (hp_brk h0) \<le> unat (hp_brk h1) \<and> hp_base h1 = hp_base h0 \<and> area bs1 = area bs \<union> {unat (hp_brk h0)..<unat (hp_brk h1)} \<and>
      same_elsewhere (own h0 bs \<union> {unat (hp_brk h0)..<unat (hp_brk h1)}) (hp_mem h1) (hp_mem h0) \<and> (\<forall>b \<in> set bs. snd b < k))"
proof -
  let ?turn = "malloc_turn sbrk k"
  have ok0: "heap_ok h0 bs" using ok by (simp add: h0_def)
  have k: "unat k = (unat nbytes + 7) div 8 + 1"
    using nb by (simp add: k_def units_def unat_word_ariths unat_div)
  then have k0: "0 < k" "unat k \<le> 134217728" using nb by (auto simp: word_less_nat_alt)
  have m: "malloc sbrk nbytes h = uloop malloc_turns ?turn (hp_freep h0, nxt (hp_mem h0) (hp_freep h0)) h0"
    by (simp add: malloc_def Let_def h0_def k_def)
  have len: "length bs \<le> 268435456" using length_blocks ok0 by (fastforce simp: heap_ok_def)
  then have "length bs \<le> malloc_turns" by (simp add: malloc_turns_def)
  from walk_from_freep [OF ok0 this, of k sbrk]
  obtain F q p where w: "malloc_turns - length bs < F" "on_list h0 bs q p"
    "k \<le> sz (hp_mem h0) p \<or> p = hp_freep h0 \<and> (\<forall>b \<in> set bs. snd b < k)"
    "malloc sbrk nbytes h = uloop F ?turn (q, p) h0" unfolding m by blast
  then have F: "805306368 < F" using len by (simp add: malloc_turns_def)
  then obtain G where G: "F = Suc G" by (cases F) auto
  show ?thesis
  proof (cases "k \<le> sz (hp_mem h0) p")
    case True
    then show ?thesis using take_block [OF ok0 w(2) k0(1) True, of G sbrk] w(4) G by auto
  next
    case False
    then have p: "p = hp_freep h0" "\<forall>b \<in> set bs. snd b < k" using w(3) by auto
    have t: "?turn (q, p) h0 = ubind (morecore sbrk k) (\<lambda>p. if p = 0 then Ret (Inr 0)
        else (\<lambda>h. Ret (Inl (p, nxt (hp_mem h) p)) h)) h0"
      using False p(1) by (simp add: malloc_turn_def)
    consider "morecore sbrk k h0 = Ret 0 h0" "sbrk (more_bytes k) h0 = Ret (- 1) h0"
      | h1 bs1 where "morecore sbrk k h0 = Ret (hp_freep h1) h1" "heap_ok h1 bs1"
        "unat (hp_brk h0) \<le> unat (hp_brk h1)" "hp_base h1 = hp_base h0"
        "area bs1 = area bs \<union> {unat (hp_brk h0)..<unat (hp_brk h1)}"
        "same_elsewhere (own h0 bs \<union> {unat (hp_brk h0)..<unat (hp_brk h1)}) (hp_mem h1) (hp_mem h0)" "\<exists>d \<in> set bs1. k \<le> snd d"
      using morecore_gives [OF ok0 grows k0(2)] by blast
    then show ?thesis
    proof cases
      case 1
      then show ?thesis using w(4) p(2) by (simp add: G t ubind_def)
    next
      case 2
      have len1: "length bs1 \<le> 268435456" using length_blocks 2(2) by (fastforce simp: heap_ok_def)
      then have le: "length bs1 \<le> G" using F G by simp
      obtain F1 q1 p1 where w1: "G - length bs1 < F1" "on_list h1 bs1 q1 p1"
        "k \<le> sz (hp_mem h1) p1 \<or> p1 = hp_freep h1 \<and> (\<forall>b \<in> set bs1. snd b < k)"
        "uloop G ?turn (hp_freep h1, nxt (hp_mem h1) (hp_freep h1)) h1 = uloop F1 ?turn (q1, p1) h1"
        using walk_from_freep [OF 2(2) le, of k sbrk] by blast
      have fit: "k \<le> sz (hp_mem h1) p1" using w1(3) 2(7) by (meson not_le)
      obtain G1 where G1: "F1 = Suc G1" using w1(1) by (cases F1) auto
      have "malloc sbrk nbytes h = uloop F1 ?turn (q1, p1) h1"
        using w(4) 2(1) heap_freep [OF 2(2)] w1(4) by (simp add: G t ubind_def)
      moreover obtain p' h' bs' where "uloop F1 ?turn (q1, p1) h1 = Ret (plus_hdr p' 1) h'" "takes h1 bs1 k p' h' bs'"
        using take_block [OF 2(2) w1(2) k0(1) fit, of G1 sbrk] G1 by auto
      ultimately show ?thesis using 2 p(2) by auto
    qed
  qed
qed

section \<open>The contract\<close>

text \<open>
  The blocks handed out and not given back: each carries its size in its header, lies between \<open>base\<close> and
  the break, and overlaps neither a free block nor another one in use. Before the first request the list is
  the one that \<open>malloc\<close> is about to set up.
\<close>

definition alloc_inv :: "heap \<Rightarrow> blocks \<Rightarrow> (u32 \<times> u32) set \<Rightarrow> bool" where
  "alloc_inv h bs live \<longleftrightarrow> heap_ok (malloc_init h) bs \<and> (hp_freep h = 0 \<longrightarrow> live = {}) \<and>
    (\<forall>b \<in> live. fresh_block h bs b \<and> sz (hp_mem h) (fst b) = snd b \<and> (\<forall>c \<in> live. c = b \<or> blk b \<inter> blk c = {}))"

definition same_on :: "nat set \<Rightarrow> bytes \<Rightarrow> bytes \<Rightarrow> bool" where
  "same_on A m' m \<longleftrightarrow> (\<forall>x. unat x \<in> A \<longrightarrow> m' x = m x)"

lemma malloc_init_id: "hp_freep h \<noteq> 0 \<Longrightarrow> malloc_init h = h"
  by (simp add: malloc_init_def)

lemma malloc_init_sel [simp]: "hp_brk (malloc_init h) = hp_brk h" "hp_base (malloc_init h) = hp_base h"
  by (simp_all add: malloc_init_def)

lemma heap_ok_init: "heap_ok h bs \<Longrightarrow> malloc_init h = h"
  using heap_freep malloc_init_id by blast

lemma same_elsewhere_on: "same_elsewhere A m' m \<Longrightarrow> A \<inter> B = {} \<Longrightarrow> same_on B m' m"
  by (auto simp: same_elsewhere_def same_on_def)

lemma same_on_trans: "same_on A m n \<Longrightarrow> same_on A n k \<Longrightarrow> same_on A m k"
  by (simp add: same_on_def)

lemma same_on_sz:
  assumes "same_on (blk b) m' m" "0 < snd b" "unat (fst b) + 8 * unat (snd b) \<le> 2147483648"
  shows "sz m' (fst b) = sz m (fst b)"
proof (rule hdr_cong(2))
  have n: "0 < unat (snd b)" using assms(2) by (simp add: word_less_nat_alt)
  then show "low (fst b)" using assms(3) by linarith
  fix x :: u32 assume "unat (fst b) \<le> unat x" "unat x < unat (fst b) + 8"
  then have "unat x \<in> blk b" using n by (auto simp: blk_def)
  then show "m' x = m x" using assms(1) by (simp add: same_on_def)
qed

lemma own_fresh: "fresh_block h bs b \<Longrightarrow> own h bs \<inter> blk b = {}"
  by (auto simp: fresh_block_def own_def blk_def)

text \<open>A step of the allocator keeps the blocks in use that it does not touch.\<close>

lemma keeps_live:
  assumes inv: "alloc_inv h bs live" and L: "L \<subseteq> live"
    and step: "hp_base h' = hp_base h" "unat (hp_brk h) \<le> unat (hp_brk h')"
      "\<forall>b \<in> L. same_on (blk b) (hp_mem h') (hp_mem h) \<and> area bs' \<inter> blk b = {}"
  shows "\<forall>b \<in> L. fresh_block h' bs' b \<and> sz (hp_mem h') (fst b) = snd b \<and> (\<forall>c \<in> L. c = b \<or> blk b \<inter> blk c = {})"
proof
  fix b assume b: "b \<in> L"
  then have f: "fresh_block h bs b" "sz (hp_mem h) (fst b) = snd b" "\<forall>c \<in> live. c = b \<or> blk b \<inter> blk c = {}"
    using inv L by (auto simp: alloc_inv_def)
  have "unat (hp_brk h) \<le> 2147483648" using inv by (simp add: alloc_inv_def heap_ok_def blocks_ok_def)
  then have "unat (fst b) + 8 * unat (snd b) \<le> 2147483648" using f(1) by (simp add: fresh_block_def)
  then have "sz (hp_mem h') (fst b) = sz (hp_mem h) (fst b)"
    using step(3) b f(1) by (intro same_on_sz) (auto simp: fresh_block_def)
  then show "fresh_block h' bs' b \<and> sz (hp_mem h') (fst b) = snd b \<and> (\<forall>c \<in> L. c = b \<or> blk b \<inter> blk c = {})"
    using f step b L by (auto simp: fresh_block_def Int_commute)
qed

lemma takes_inv:
  assumes inv: "alloc_inv h bs live" and t: "takes h1 bs1 k p h' bs'"
    and h1: "hp_base h1 = hp_base h" "unat (hp_brk h) \<le> unat (hp_brk h1)" "area bs1 \<subseteq> area bs \<union> {unat (hp_brk h)..<unat (hp_brk h1)}"
      "\<forall>b \<in> live. same_on (blk b) (hp_mem h1) (hp_mem h)" and k: "0 < k"
  shows "alloc_inv h' bs' (insert (p, k) live) \<and> (\<forall>b \<in> live. blk b \<inter> blk (p, k) = {}) \<and>
    (\<forall>b \<in> live. same_on (blk b) (hp_mem h') (hp_mem h))"
proof -
  have ok: "heap_ok h' bs'" "hp_base h' = hp_base h" "unat (hp_brk h) \<le> unat (hp_brk h')"
    using t h1 by (auto simp: takes_def)
  have apart: "(own h1 bs1) \<inter> blk b = {}" if "b \<in> live" for b
  proof -
    have f: "fresh_block h bs b" using inv that by (simp add: alloc_inv_def)
    then have "own h bs \<inter> blk b = {}" "{unat (hp_brk h)..<unat (hp_brk h1)} \<inter> blk b = {}"
      using own_fresh by (blast, auto simp: fresh_block_def blk_def)
    then show ?thesis using h1(1,3) by (auto simp: own_def)
  qed
  have new: "blk b \<inter> blk (p, k) = {}" if "b \<in> live" for b
    using apart [OF that] t by (auto simp: takes_def own_def)
  have same: "same_on (blk b) (hp_mem h') (hp_mem h)" if "b \<in> live" for b
    using t h1(4) that apart [OF that] same_elsewhere_on same_on_trans unfolding takes_def by blast
  have "\<forall>b \<in> live. same_on (blk b) (hp_mem h') (hp_mem h) \<and> area bs' \<inter> blk b = {}"
  proof
    fix b assume b: "b \<in> live"
    have "area bs' \<subseteq> own h1 bs1" using t by (auto simp: takes_def own_def)
    then show "same_on (blk b) (hp_mem h') (hp_mem h) \<and> area bs' \<inter> blk b = {}"
      using same [OF b] apart [OF b] by blast
  qed
  note K = keeps_live [OF inv subset_refl ok(2,3) this]
  have fp: "fresh_block h' bs' (p, k)" "sz (hp_mem h') p = k" using t k by (auto simp: takes_def fresh_block_def)
  have new': "blk (p, k) \<inter> blk b = {}" if "b \<in> live" for b using new [OF that] by blast
  from K have "\<forall>b \<in> insert (p, k) live. fresh_block h' bs' b \<and> sz (hp_mem h') (fst b) = snd b \<and>
      (\<forall>c \<in> insert (p, k) live. c = b \<or> blk b \<inter> blk c = {})"
    by (simp add: fp new new')
  then show ?thesis using ok(1) new same heap_ok_init [OF ok(1)] heap_freep [OF ok(1)] by (simp add: alloc_inv_def)
qed

text \<open>\<open>malloc\<close> for a client that keeps track of its blocks.\<close>

lemma units_bytes: "unat nbytes \<le> 536870912 \<Longrightarrow> unat nbytes \<le> 8 * (unat (units nbytes) - 1) \<and> 0 < units nbytes"
  by (simp add: units_def unat_word_ariths unat_div word_less_nat_alt)

lemma malloc_contract:
  assumes inv: "alloc_inv h bs live" and grows: "break_grows sbrk" and nb: "unat nbytes \<le> 536870912"
  defines "k \<equiv> units nbytes"
  shows "\<exists>r h' bs'. malloc sbrk nbytes h = Ret r h' \<and> (\<forall>b \<in> live. same_on (blk b) (hp_mem h') (hp_mem h)) \<and>
    (if r = 0 then alloc_inv h' bs live \<and> hp_brk h' = hp_brk h \<and> sbrk (more_bytes k) h' = Ret (- 1) h' \<and> (\<forall>b \<in> set bs. snd b < k)
     else \<exists>p. r = plus_hdr p 1 \<and> alloc_inv h' bs' (insert (p, k) live) \<and> (\<forall>b \<in> live. blk b \<inter> blk (p, k) = {}) \<and>
       blk (p, k) \<inter> area bs' = {} \<and> area bs' \<union> blk (p, k) = area bs \<union> {unat (hp_brk h)..<unat (hp_brk h')})"
proof -
  have ok0: "heap_ok (malloc_init h) bs" using inv by (simp add: alloc_inv_def)
  have k0: "0 < k" using units_bytes [OF nb] by (simp add: k_def)
  have inv0: "alloc_inv (malloc_init h) bs live" "\<forall>b \<in> live. same_on (blk b) (hp_mem (malloc_init h)) (hp_mem h)"
    using inv heap_ok_init [OF ok0] heap_freep [OF ok0] malloc_init_id [of h] by (auto simp: alloc_inv_def same_on_def)
  have nz: "plus_hdr p 1 \<noteq> 0" if "takes h1 bs1 k p h' bs'" for p h1 bs1 h' bs'
  proof
    assume z: "plus_hdr p 1 = 0"
    have "unat (hp_brk h1) \<le> 2147483648" using that by (auto simp: takes_def heap_ok_def blocks_ok_def)
    then have "unat p + 8 * unat (1 :: u32) < 4294967296" using that by (simp add: takes_def)
    from unat_plus_hdr [OF this] z show False by simp
  qed
  from malloc_gives [OF ok0 grows nb, folded k_def]
  consider "malloc sbrk nbytes h = Ret 0 (malloc_init h)" "sbrk (more_bytes k) (malloc_init h) = Ret (- 1) (malloc_init h)" "\<forall>b \<in> set bs. snd b < k"
    | p h' bs' where "malloc sbrk nbytes h = Ret (plus_hdr p 1) h'" "takes (malloc_init h) bs k p h' bs'"
    | p h' bs' h1 bs1 where "malloc sbrk nbytes h = Ret (plus_hdr p 1) h'" "takes h1 bs1 k p h' bs'"
      "unat (hp_brk h) \<le> unat (hp_brk h1)" "hp_base h1 = hp_base h"
      "area bs1 = area bs \<union> {unat (hp_brk h)..<unat (hp_brk h1)}"
      "same_elsewhere (own (malloc_init h) bs \<union> {unat (hp_brk h)..<unat (hp_brk h1)}) (hp_mem h1) (hp_mem (malloc_init h))"
    unfolding malloc_init_sel by blast
  then show ?thesis
  proof cases
    case 1
    then show ?thesis using inv0 by auto
  next
    case 2
    have "\<forall>b \<in> live. same_on (blk b) (hp_mem (malloc_init h)) (hp_mem (malloc_init h))" by (simp add: same_on_def)
    from takes_inv [OF inv0(1) 2(2) refl order_refl Un_upper1 this k0]
    show ?thesis using 2 inv0(2) nz [OF 2(2)] same_on_trans
      by (intro exI [of _ "plus_hdr p 1"] exI [of _ h'] exI [of _ bs']) (auto simp: takes_def)
  next
    case 3
    have "(own (malloc_init h) bs \<union> {unat (hp_brk h)..<unat (hp_brk h1)}) \<inter> blk b = {}" if "b \<in> live" for b
      using that inv0(1) own_fresh [of "malloc_init h" bs b] by (auto simp: alloc_inv_def fresh_block_def blk_def)
    then have "\<forall>b \<in> live. same_on (blk b) (hp_mem h1) (hp_mem (malloc_init h))"
      using same_elsewhere_on [OF 3(6)] by blast
    from takes_inv [OF inv0(1) 3(2) _ _ _ this k0] 3(3-5)
    show ?thesis using 3 inv0(2) nz [OF 3(2)] same_on_trans
      by (intro exI [of _ "plus_hdr p 1"] exI [of _ h'] exI [of _ bs']) (auto simp: takes_def)
  qed
qed

lemma live_started: "alloc_inv h bs live \<Longrightarrow> b \<in> live \<Longrightarrow> malloc_init h = h \<and> heap_ok h bs"
  using malloc_init_id [of h] by (auto simp: alloc_inv_def)

lemma free_contract:
  assumes inv: "alloc_inv h bs live" and b: "b \<in> live"
  shows "\<exists>h' bs'. free (plus_hdr (fst b) 1) h = Ret () h' \<and> alloc_inv h' bs' (live - {b}) \<and> area bs' = area bs \<union> blk b \<and>
    hp_brk h' = hp_brk h \<and> (\<forall>c \<in> live - {b}. same_on (blk c) (hp_mem h') (hp_mem h))"
proof -
  obtain p n where pn: "b = (p, n)" by (cases b)
  have ok: "heap_ok h bs" using live_started [OF inv b] by simp
  have f: "fresh_block h bs (p, n)" "sz (hp_mem h) p = n" using inv b pn by (auto simp: alloc_inv_def)
  obtain h' bs' where r: "free (plus_hdr p 1) h = Ret () h'" "heap_ok h' bs'" "area bs' = area bs \<union> blk (p, n)"
    "hp_brk h' = hp_brk h" "hp_base h' = hp_base h" "same_elsewhere (own h bs \<union> blk (p, n)) (hp_mem h') (hp_mem h)"
    using free_gives [OF ok f] by blast
  have same: "same_on (blk c) (hp_mem h') (hp_mem h) \<and> area bs' \<inter> blk c = {}" if c: "c \<in> live - {b}" for c
  proof -
    have "fresh_block h bs c" using inv c by (simp add: alloc_inv_def)
    moreover have "blk b \<inter> blk c = {}" using inv b c unfolding alloc_inv_def by (metis Diff_iff insertI1)
    ultimately have "(own h bs \<union> blk (p, n)) \<inter> blk c = {}" using own_fresh [of h bs c] by (simp add: Int_Un_distrib2 pn)
    then show ?thesis using same_elsewhere_on [OF r(6)] r(3) by (auto simp: own_def)
  qed
  then have "\<forall>c \<in> live - {b}. same_on (blk c) (hp_mem h') (hp_mem h) \<and> area bs' \<inter> blk c = {}" by blast
  from keeps_live [OF inv Diff_subset r(5) _ this] r(4)
  have "alloc_inv h' bs' (live - {b})"
    using r(2) heap_ok_init [OF r(2)] heap_freep [OF r(2)] by (simp add: alloc_inv_def)
  then show ?thesis using r same pn by auto
qed

text \<open>The client may write what it likes behind the headers of its blocks.\<close>

definition payload :: "u32 \<times> u32 \<Rightarrow> nat set" where
  "payload b = {unat (fst b) + 8..<unat (fst b) + 8 * unat (snd b)}"

lemma client_writes:
  assumes inv: "alloc_inv h bs live" and b: "b \<in> live" and w: "same_elsewhere (payload b) m (hp_mem h)"
  shows "alloc_inv (h\<lparr>hp_mem := m\<rparr>) bs live"
proof -
  have ok: "heap_ok h bs" using live_started [OF inv b] by simp
  have fresh: "fresh_block h bs c" if "c \<in> live" for c using inv that by (simp add: alloc_inv_def)
  have "payload b \<inter> own h bs = {}" using own_fresh [OF fresh [OF b]] by (auto simp: payload_def blk_def)
  then have ok': "heap_ok (h\<lparr>hp_mem := m\<rparr>) bs"
    using ok path_same [OF _ w, of h bs] by (simp add: heap_ok_def blocks_ok_def)
  have "sz m (fst c) = snd c" if c: "c \<in> live" for c
  proof -
    have n: "0 < unat (snd c)" using fresh [OF c] by (simp add: fresh_block_def word_less_nat_alt)
    have "unat (fst c) + 8 * unat (snd c) \<le> 2147483648"
      using fresh [OF c] ok by (simp add: fresh_block_def heap_ok_def blocks_ok_def)
    then have low: "low (fst c)" using n by linarith
    have "sz m (fst c) = sz (hp_mem h) (fst c)"
    proof (rule hdr_cong(2) [OF low])
      fix x :: u32 assume x: "unat (fst c) \<le> unat x" "unat x < unat (fst c) + 8"
      have "unat x \<notin> payload b"
      proof (cases "c = b")
        case True
        then show ?thesis using x by (simp add: payload_def)
      next
        case False
        then have "blk b \<inter> blk c = {}" using inv b c unfolding alloc_inv_def by metis
        moreover have "unat x \<in> blk c" using x n by (simp add: blk_def)
        ultimately show ?thesis by (auto simp: payload_def blk_def)
      qed
      then show "m x = hp_mem h x" using w by (simp add: same_elsewhere_def)
    qed
    then show ?thesis using inv c by (simp add: alloc_inv_def)
  qed
  then show ?thesis using inv ok' heap_ok_init [OF ok'] heap_freep [OF ok'] by (simp add: alloc_inv_def fresh_block_def)
qed

text \<open>A larger block has the bytes of the smaller one, which is given back.\<close>

lemma realloc_moves:
  assumes inv: "alloc_inv h bs live" and p: "(p, n) \<in> live" and grows: "break_grows sbrk" and nb: "unat nbytes \<le> 536870912"
    and big: "\<not> units nbytes \<le> n"
  shows "\<exists>r h' bs'. realloc sbrk (plus_hdr p 1) nbytes h = Ret r h' \<and>
    (if r = 0 then alloc_inv h' bs' live
     else \<exists>q. r = plus_hdr q 1 \<and> alloc_inv h' bs' (insert (q, units nbytes) (live - {(p, n)})) \<and>
       (\<forall>i < 8 * (unat n - 1). hp_mem h' (r + of_nat i) = hp_mem h (plus_hdr p 1 + of_nat i))) \<and>
    (\<forall>b \<in> live - {(p, n)}. same_on (blk b) (hp_mem h') (hp_mem h))"
proof -
  let ?k = "units nbytes" let ?ap = "plus_hdr p 1"
  have f: "fresh_block h bs (p, n)" "sz (hp_mem h) p = n" using inv p by (auto simp: alloc_inv_def)
  have lim: "unat (hp_brk h) \<le> 2147483648" using inv by (simp add: alloc_inv_def heap_ok_def blocks_ok_def)
  have n: "0 < unat n" "unat p + 8 * unat n \<le> 2147483648" "unat n < unat ?k"
    using f(1) lim big by (auto simp: fresh_block_def word_less_nat_alt word_le_nat_alt not_le)
  have ap: "?ap - 8 = p" by (simp add: plus_hdr_def)
  have start: "realloc sbrk ?ap nbytes h = ubind (malloc sbrk nbytes) (\<lambda>np. if np = 0 then Ret 0
       else useq (\<lambda>h. Ret () (h\<lparr>hp_mem := copy_up np ?ap (nat (sint ((sz (hp_mem h) p - 1) * 8))) (hp_mem h)\<rparr>))
         (useq (free ?ap) (Ret np))) h"
    using big f(2) by (simp add: realloc_def Let_def ap)
  obtain r h1 bs1 where m: "malloc sbrk nbytes h = Ret r h1" "\<forall>b \<in> live. same_on (blk b) (hp_mem h1) (hp_mem h)"
    "if r = 0 then alloc_inv h1 bs live else \<exists>q. r = plus_hdr q 1 \<and> alloc_inv h1 bs1 (insert (q, ?k) live) \<and>
       (\<forall>b \<in> live. blk b \<inter> blk (q, ?k) = {})"
    using malloc_contract [OF inv grows nb] by (metis (no_types, lifting))
  show ?thesis
  proof (cases "r = 0")
    case True
    then show ?thesis using m by (intro exI [of _ 0] exI [of _ h1] exI [of _ bs]) (simp add: start ubind_def)
  next
    case False
    then obtain q where q: "r = plus_hdr q 1" "alloc_inv h1 bs1 (insert (q, ?k) live)" "\<forall>b \<in> live. blk b \<inter> blk (q, ?k) = {}"
      using m(3) by auto
    let ?N = "8 * (unat n - 1)"
    have szp: "sz (hp_mem h1) p = n" using q(2) p by (auto simp: alloc_inv_def)
    have N: "nat (sint ((n - 1) * 8)) = ?N"
    proof -
      have u: "unat (n - 1) = unat n - 1" using n(1) by (simp add: unat_sub word_le_nat_alt)
      have "unat (j * 8) = 8 * unat j \<and> sint (j * 8) = int (8 * unat j)" if j: "8 * unat j < 2147483648" for j :: u32
      proof -
        have e: "unat (j * 8) = 8 * unat j" using j by (simp add: unat_word_ariths)
        have "sint w = int (unat w)" if "unat w < 2147483648" for w :: u32
        proof -
          have "uint w < 2147483648" using that unfolding uint_nat by linarith
          then have "sint w = uint w" by (simp add: sint_uint signed_take_bit_int_eq_self order.trans [OF _ uint_ge_0])
          then show ?thesis unfolding uint_nat .
        qed
        from this [of "j * 8"] show ?thesis using e j by simp
      qed
      moreover have "8 * unat (n - 1) < 2147483648" using n(1,2) u by simp
      ultimately have "sint ((n - 1) * 8) = int (8 * unat (n - 1))" by blast
      then show ?thesis by (simp only: u nat_int)
    qed
    have fq: "unat q + 8 * unat ?k \<le> 2147483648"
      using q(2) by (auto simp: alloc_inv_def fresh_block_def heap_ok_def blocks_ok_def)
    have ur: "unat r = unat q + 8" "unat ?ap = unat p + 8"
      using unat_plus_hdr [of q 1] unat_plus_hdr [of p 1] fq n q(1) by simp_all
    define m2 where "m2 = copy_up r ?ap ?N (hp_mem h1)"
    have w: "no_wrap r ?N" "no_wrap ?ap ?N" using ur n fq by (auto simp: no_wrap_def)
    have "same_elsewhere (payload (q, ?k)) m2 (hp_mem h1)"
      unfolding same_elsewhere_def m2_def using w(1) ur n by (auto simp: payload_def intro!: copy_up_other)
    then have inv2: "alloc_inv (h1\<lparr>hp_mem := m2\<rparr>) bs1 (insert (q, ?k) live)" by (intro client_writes [OF q(2)]) simp_all
    obtain h' bs' where r': "free ?ap (h1\<lparr>hp_mem := m2\<rparr>) = Ret () h'" "alloc_inv h' bs' (insert (q, ?k) live - {(p, n)})"
      "\<forall>c \<in> insert (q, ?k) live - {(p, n)}. same_on (blk c) (hp_mem h') m2"
      using free_contract [OF inv2, of "(p, n)"] p by auto
    have ne: "(q, ?k) \<noteq> (p, n)" using n(3) by auto
    have "realloc sbrk ?ap nbytes h = Ret r h'"
      using m(1) False r'(1) by (simp add: start ubind_def useq_def szp N [simplified] m2_def)
    moreover have "hp_mem h' (r + of_nat i) = hp_mem h (?ap + of_nat i)" if i: "i < ?N" for i
    proof -
      have "unat (r + of_nat i) = unat q + 8 + i" "unat (?ap + of_nat i) = unat p + 8 + i"
        using unat_add_off [OF w(1) i] unat_add_off [OF w(2) i] ur by simp_all
      then have in_q: "unat (r + of_nat i) \<in> blk (q, ?k)" and in_p: "unat (?ap + of_nat i) \<in> blk (p, n)"
        using i n by (auto simp: blk_def)
      have "unat q + 8 * unat ?k \<le> unat p \<or> unat p + 8 * unat n \<le> unat q"
      proof (rule ccontr)
        assume "\<not> ?thesis"
        then have "max (unat p) (unat q) \<in> blk (p, n) \<inter> blk (q, ?k)" using n by (auto simp: blk_def max_def)
        then show False using q(3) p by blast
      qed
      then have "unat r \<le> unat ?ap \<or> unat ?ap + ?N \<le> unat r" using ur n by auto
      then have "m2 (r + of_nat i) = hp_mem h1 (?ap + of_nat i)"
        unfolding m2_def using copy_up_in [OF w] i by blast
      moreover have "hp_mem h' (r + of_nat i) = m2 (r + of_nat i)" using r'(3) in_q ne by (auto simp: same_on_def)
      moreover have "hp_mem h1 (?ap + of_nat i) = hp_mem h (?ap + of_nat i)" using m(2) p in_p by (auto simp: same_on_def)
      ultimately show ?thesis by simp
    qed
    moreover have "same_on (blk b) (hp_mem h') (hp_mem h)" if b: "b \<in> live - {(p, n)}" for b
    proof -
      have "payload (q, ?k) \<inter> blk b = {}" using q(3) b by (auto simp: payload_def blk_def)
      then have "same_on (blk b) m2 (hp_mem h1)"
        using \<open>same_elsewhere (payload (q, ?k)) m2 (hp_mem h1)\<close> same_elsewhere_on by blast
      then show ?thesis using r'(3) m(2) b same_on_trans by blast
    qed
    moreover have "insert (q, ?k) live - {(p, n)} = insert (q, ?k) (live - {(p, n)})" using ne by auto
    ultimately show ?thesis using r'(2) q(1) False by auto
  qed
qed

text \<open>A process alone in memory: \<open>sbrk\<close> up to a limit.\<close>

definition sbrk_to :: "u32 \<Rightarrow> u32 \<Rightarrow> (u32, heap) U" where
  "sbrk_to limit n h = (if unat (hp_brk h) + unat n \<le> unat limit then Ret (hp_brk h) (h\<lparr>hp_brk := hp_brk h + n\<rparr>) else Ret (- 1) h)"

definition new_heap :: heap where
  "new_heap = \<lparr>hp_mem = (\<lambda>_. 0), hp_freep = 0, hp_base = 0x1000, hp_brk = 0x3000\<rparr>"

lemma sbrk_to_grows: "unat limit \<le> 2147483648 \<Longrightarrow> break_grows (sbrk_to limit)"
  unfolding break_grows_def sbrk_to_def
proof (intro allI impI)
  fix n :: u32 and h :: heap assume a: "unat limit \<le> 2147483648" "unat n < 2147483648"
  let ?r = "if unat (hp_brk h) + unat n \<le> unat limit then Ret (hp_brk h) (h\<lparr>hp_brk := hp_brk h + n\<rparr>) else Ret (- 1) h"
  show "?r = Ret (- 1) h \<or> (\<exists>m. ?r = Ret (hp_brk h) (h\<lparr>hp_mem := m, hp_brk := hp_brk h + n\<rparr>) \<and> unat (hp_brk h) + unat n \<le> 2147483648 \<and>
       same_elsewhere {unat (hp_brk h)..<unat (hp_brk h) + unat n} m (hp_mem h))"
    using a by (cases "unat (hp_brk h) + unat n \<le> unat limit") (auto simp: same_elsewhere_def intro!: exI [of _ "hp_mem h"])
qed

lemma new_heap_inv: "alloc_inv new_heap [(0x1000, 0)] {}"
  by (simp add: alloc_inv_def new_heap_def malloc_init_def heap_ok_def blocks_ok_def)

text \<open>
  C11. The allocator keeps its contract, on any heap it has made, with the blocks in use as the client knows
  them. Every request of up to half a gigabyte returns: with 0, which leaves the blocks as they are and
  happens only when no free block is large enough and \<open>sbrk\<close> refuses more memory, or with the payload of a block of at least the bytes
  asked for, apart from the blocks in use and from the free ones; what is free together with that
  block is what was free before and what \<open>sbrk\<close> added. Giving back any block in use always succeeds and adds
  exactly its bytes to the free ones. Neither changes a byte of another block in use, and both keep the list
  sorted, its blocks apart and joined where they touch.
\<close>

lemma malloc_free:
  assumes inv: "alloc_inv h bs live" and grows: "break_grows sbrk"
  shows "(\<forall>nbytes. unat nbytes \<le> 536870912 \<longrightarrow> (\<exists>r h' bs'. malloc sbrk nbytes h = Ret r h' \<and>
      (\<forall>b \<in> live. same_on (blk b) (hp_mem h') (hp_mem h)) \<and>
      (if r = 0 then alloc_inv h' bs live \<and> hp_brk h' = hp_brk h \<and> sbrk (more_bytes (units nbytes)) h' = Ret (- 1) h' \<and> (\<forall>b \<in> set bs. snd b < units nbytes)
       else \<exists>p n. r = plus_hdr p 1 \<and> unat nbytes \<le> 8 * (unat n - 1) \<and> alloc_inv h' bs' (insert (p, n) live) \<and>
         (\<forall>b \<in> live. blk b \<inter> blk (p, n) = {}) \<and>
         blk (p, n) \<inter> area bs' = {} \<and> area bs' \<union> blk (p, n) = area bs \<union> {unat (hp_brk h)..<unat (hp_brk h')}))) \<and>
    (\<forall>b \<in> live. \<exists>h' bs'. free (plus_hdr (fst b) 1) h = Ret () h' \<and> alloc_inv h' bs' (live - {b}) \<and>
      area bs' = area bs \<union> blk b \<and> (\<forall>c \<in> live - {b}. same_on (blk c) (hp_mem h') (hp_mem h)))"
proof (intro conjI allI impI ballI)
  fix nbytes :: u32 assume nb: "unat nbytes \<le> 536870912"
  show "\<exists>r h' bs'. malloc sbrk nbytes h = Ret r h' \<and> (\<forall>b \<in> live. same_on (blk b) (hp_mem h') (hp_mem h)) \<and>
      (if r = 0 then alloc_inv h' bs live \<and> hp_brk h' = hp_brk h \<and> sbrk (more_bytes (units nbytes)) h' = Ret (- 1) h' \<and> (\<forall>b \<in> set bs. snd b < units nbytes)
       else \<exists>p n. r = plus_hdr p 1 \<and> unat nbytes \<le> 8 * (unat n - 1) \<and> alloc_inv h' bs' (insert (p, n) live) \<and>
         (\<forall>b \<in> live. blk b \<inter> blk (p, n) = {}) \<and>
         blk (p, n) \<inter> area bs' = {} \<and> area bs' \<union> blk (p, n) = area bs \<union> {unat (hp_brk h)..<unat (hp_brk h')})"
    using malloc_contract [OF inv grows nb] units_bytes [OF nb] by (metis (no_types, lifting))
next
  fix b assume "b \<in> live"
  then show "\<exists>h' bs'. free (plus_hdr (fst b) 1) h = Ret () h' \<and> alloc_inv h' bs' (live - {b}) \<and>
      area bs' = area bs \<union> blk b \<and> (\<forall>c \<in> live - {b}. same_on (blk c) (hp_mem h') (hp_mem h))"
    using free_contract [OF inv] by blast
qed

text \<open>A first request, on a heap without a list, and giving the block back.\<close>

lemma malloc_free_witness:
  "\<exists>p n h' h'' bs bs'. malloc (sbrk_to 0x80000000) 100 new_heap = Ret (plus_hdr p 1) h' \<and> alloc_inv h' bs {(p, n)} \<and>
     100 \<le> 8 * (unat n - 1) \<and> free (plus_hdr p 1) h' = Ret () h'' \<and> alloc_inv h'' bs' {}"
proof -
  have g: "break_grows (sbrk_to 0x80000000)" by (rule sbrk_to_grows) simp
  have small: "unat (100 :: u32) \<le> 536870912" by simp
  obtain r h' bs' where m: "malloc (sbrk_to 0x80000000) 100 new_heap = Ret r h'"
    "r = 0 \<Longrightarrow> hp_brk h' = hp_brk new_heap \<and> sbrk_to 0x80000000 (more_bytes (units 100)) h' = Ret (- 1) h'"
    "r \<noteq> 0 \<Longrightarrow> \<exists>p n. r = plus_hdr p 1 \<and> 100 \<le> 8 * (unat n - 1) \<and> alloc_inv h' bs' {(p, n)}"
    using malloc_free [OF new_heap_inv g, THEN conjunct1, rule_format, OF small] by (fastforce split: if_splits)
  have "r \<noteq> 0"
  proof
    assume "r = 0"
    then have "hp_brk h' = 0x3000" "sbrk_to 0x80000000 (more_bytes (units 100)) h' = Ret (- 1) h'"
      using m(2) by (auto simp: new_heap_def)
    then show False by (simp add: sbrk_to_def more_bytes_def units_def)
  qed
  then obtain p n where p: "r = plus_hdr p 1" "100 \<le> 8 * (unat n - 1)" "alloc_inv h' bs' {(p, n)}" using m(3) by auto
  then show ?thesis using m(1) malloc_free [OF p(3) g, THEN conjunct2, rule_format, of "(p, n)"] by fastforce
qed

end
