(* ===== verification/Rle.thy ===== *)
theory Rle
  imports Ulib "HOL-Library.Monad_Syntax"
begin

text \<open>
  The two run-length encoders of homework 4, programs of the host: rle.c, which encodes the first line of
  each file, and prle.c, which cuts its input between threads and merges what they find. \<open>None\<close> (and the
  outcome \<open>Wild\<close> of the programs) is an access past the end of an array, the use of memory that was never
  written, or an overflow of \<open>int\<close>. From the C library come \<open>getline\<close> (the bytes up to a newline and
  with it), \<open>fread\<close> (as many bytes as there are, up to the number asked for), \<open>sprintf\<close> and \<open>printf\<close> with
  \<open>%d\<close>, and \<open>strlen\<close>.
\<close>

section \<open>What the programs see of the host\<close>

record host =
  h_stdin :: "u8 list"
  h_files :: "cstr \<Rightarrow> u8 list option"
  h_out :: "u8 list"
  h_err :: "string list"

definition say :: "u8 list \<Rightarrow> (unit, host) U" where
  "say bs h = Ret () (h\<lparr>h_out := h_out h @ bs\<rparr>)"

definition perror :: "string \<Rightarrow> (unit, host) U" where
  "perror msg h = Ret () (h\<lparr>h_err := h_err h @ [msg]\<rparr>)"

definition first_line :: "u8 list \<Rightarrow> u8 list" where
  "first_line bs = takeWhile (\<lambda>c. c \<noteq> 10) bs @ take 1 (dropWhile (\<lambda>c. c \<noteq> 10) bs)"

definition after_line :: "u8 list \<Rightarrow> u8 list" where
  "after_line bs = drop 1 (dropWhile (\<lambda>c. c \<noteq> 10) bs)"

text \<open>The decimal digits of a count, as \<open>%d\<close> prints them.\<close>

definition dec :: "nat \<Rightarrow> u8 list" where
  "dec n = map (\<lambda>d. 48 + of_nat d) (rev (digits_rev 10 n))"

definition int_ok :: "nat \<Rightarrow> bool" where
  "int_ok n \<longleftrightarrow> n < 2147483648"

section \<open>rle.c\<close>

text \<open>The inner loop: the last index of the run that starts at \<open>i\<close>, and its length.\<close>

function run_scan :: "u8 list \<Rightarrow> nat \<Rightarrow> nat \<Rightarrow> nat \<Rightarrow> nat \<times> nat" where
  "run_scan src len i counter =
     (if i + 1 < len \<and> src ! i = src ! (i + 1) then run_scan src len (i + 1) (counter + 1) else (i, counter))"
  by auto
termination
  by (relation "measure (\<lambda>(src, len, i, counter). len - i)") auto

declare run_scan.simps [simp del]

text \<open>Bytes put into \<open>encode\<close> one after the other, from position \<open>k\<close> on.\<close>

fun put_all :: "u8 list \<Rightarrow> u8 list \<times> nat \<Rightarrow> (u8 list \<times> nat) option" where
  "put_all [] (e, k) = Some (e, k)"
| "put_all (c # cs) (e, k) = (if k < length e then put_all cs (e[k := c], k + 1) else None)"

lemma run_scan_up: "i \<le> fst (run_scan src len i counter)"
  by (induction src len i counter rule: run_scan.induct) (subst run_scan.simps, auto)

function compress_loop :: "u8 list \<Rightarrow> nat \<Rightarrow> nat \<Rightarrow> nat \<Rightarrow> u8 list \<times> nat \<Rightarrow> (u8 list \<times> nat) option" where
  "compress_loop src len sz i ek =
     (if i < len then
        (let (i', counter) = run_scan src len i 1 in do {
           ek \<leftarrow> (if 1 < counter
             then (if length (dec counter) < sz then put_all (dec counter) ek else None)
             else Some ek);
           ek \<leftarrow> put_all [src ! i'] ek;
           compress_loop src len sz (i' + 1) ek })
      else Some ek)"
  by auto
termination
  by (relation "measure (\<lambda>(src, len, sz, i, ek). len - i)") (auto dest!: arg_cong [of _ _ fst] simp: run_scan_up less_Suc_eq_le diff_less_mono2)

declare compress_loop.simps [simp del]

text \<open>\<open>src\<close> is the memory of the line, its terminator included.\<close>

definition compress :: "u8 list \<Rightarrow> nat \<Rightarrow> (unit, host) U" where
  "compress src sz = (let len = length (upto0 src) in
     if \<not> int_ok (2 * len + 1) then uwild
     else case (do { (e, k) \<leftarrow> compress_loop src len sz 0 (replicate (2 * len + 1) 0, 0); put_all [0] (e, k) }) of
       None \<Rightarrow> uwild
     | Some (e, k) \<Rightarrow> say (upto0 e))"

text \<open>
  At the end of the input \<open>getline\<close> returns -1, which as the unsigned \<open>comp_size\<close> is the size of an array that
  no stack holds.
\<close>

definition rle_line :: "u8 list \<Rightarrow> (unit, host) U" where
  "rle_line bs = (if bs = [] then uwild else compress (first_line bs @ [0]) (length (first_line bs)))"

definition rle :: "nat \<Rightarrow> cstr \<Rightarrow> (unit, host) U" where
  "rle fd filename = (if fd = 0
     then (\<lambda>h. useq (\<lambda>h. Ret () (h\<lparr>h_stdin := after_line (h_stdin h)\<rparr>)) (rle_line (h_stdin h)) h)
     else (\<lambda>h. case h_files h filename of
       None \<Rightarrow> perror ''Error: could not open file '' h
     | Some bs \<Rightarrow> rle_line bs h))"

definition rle_main :: "cstr list \<Rightarrow> (int, host) U" where
  "rle_main argv = useq (uwhen (length argv \<le> 1) (rle 0 []))
     (useq (ufor [1..<length argv] (\<lambda>i. rle i (argv ! i))) (Ret 0))"

section \<open>Runs\<close>

text \<open>What an encoder is to print: the maximal runs of its input, each as its length (from 2 up) and its byte.\<close>

function runs :: "'a list \<Rightarrow> (nat \<times> 'a) list" where
  "runs [] = []"
| "runs (x # xs) = (Suc (length (takeWhile (\<lambda>y. y = x) xs)), x) # runs (dropWhile (\<lambda>y. y = x) xs)"
  by pat_completeness auto
termination
  by (relation "measure length") (auto simp: le_imp_less_Suc length_dropWhile_le)

definition show_run :: "nat \<times> u8 \<Rightarrow> u8 list" where
  "show_run r = (if fst r = 1 then [] else dec (fst r)) @ [snd r]"

definition encoded :: "u8 list \<Rightarrow> u8 list" where
  "encoded xs = concat (map show_run (runs xs))"

text \<open>A decoder: a number, then the byte it counts; no number stands for 1.\<close>

definition digit :: "u8 \<Rightarrow> bool" where
  "digit c \<longleftrightarrow> 48 \<le> c \<and> c \<le> 57"

fun decode :: "nat \<Rightarrow> u8 list \<Rightarrow> u8 list" where
  "decode n [] = []"
| "decode n (c # cs) = (if digit c then decode (n * 10 + unat (c - 48)) cs
     else replicate (if n = 0 then 1 else n) c @ decode 0 cs)"

lemma runs_flat: "concat (map (\<lambda>(n, x). replicate n x) (runs xs)) = xs"
proof (induction xs rule: runs.induct)
  case 1
  then show ?case by simp
next
  case (2 x xs)
  have "replicate (length (takeWhile (\<lambda>y. y = x) xs)) x = takeWhile (\<lambda>y. y = x) xs"
    by (rule replicate_length_same) (auto dest: set_takeWhileD)
  with 2 show ?case by simp
qed

lemma runs_set: "(n, x) \<in> set (runs xs) \<Longrightarrow> 0 < n \<and> x \<in> set xs \<and> n \<le> length xs"
proof (induction xs rule: runs.induct)
  case 1
  then show ?case by simp
next
  case (2 y ys)
  then show ?case
    using length_takeWhile_le [of "\<lambda>z. z = y" ys] length_dropWhile_le [of "\<lambda>z. z = y" ys]
    by (fastforce dest: set_dropWhileD)
qed

lemma dec_digits: "c \<in> set (dec n) \<Longrightarrow> digit c \<and> c \<noteq> 0"
proof -
  assume "c \<in> set (dec n)"
  then obtain d where "d \<in> set (digits_rev 10 n)" "c = 48 + of_nat d" by (auto simp: dec_def)
  moreover have "\<forall>d \<in> set [0..<10]. digit (48 + of_nat d) \<and> (48 + of_nat d :: u8) \<noteq> 0"
    by (simp add: upt_conv_Cons digit_def)
  ultimately show ?thesis using digits_rev_bound [of 10 n] by auto
qed

lemma decode_digits:
  assumes "\<forall>d \<in> set ds. d < 10"
  shows "decode m (map (\<lambda>d. 48 + of_nat d) ds @ cs) = decode (m * 10 ^ length ds + undigits 10 (rev ds)) cs"
  using assms
proof (induction ds arbitrary: m)
  case Nil
  then show ?case by simp
next
  case (Cons d ds)
  have "\<forall>d \<in> set [0..<10]. digit (48 + of_nat d) \<and> unat ((48 + of_nat d) - 48 :: u8) = d"
    by (simp add: upt_conv_Cons digit_def)
  then have d: "digit (48 + of_nat d)" "unat (of_nat d :: u8) = d" using Cons.prems by auto
  have app: "undigits 10 (xs @ [y]) = undigits 10 xs + 10 ^ length xs * y" for xs y
    by (induction xs) (simp_all add: algebra_simps)
  show ?case using Cons.IH [of "m * 10 + d"] Cons.prems d by (simp add: app algebra_simps)
qed

lemma decode_dec: "decode 0 (dec n @ cs) = decode n cs"
  using digits_rev_bound [of 10 n] decode_digits [of "rev (digits_rev 10 n)" 0 cs]
  by (simp add: dec_def undigits_digits)

lemma decode_runs:
  assumes "\<forall>(n, x) \<in> set rs. 0 < n \<and> \<not> digit x"
  shows "decode 0 (concat (map show_run rs)) = concat (map (\<lambda>(n, x). replicate n x) rs)"
  using assms by (induction rs) (auto simp: show_run_def decode_dec)

lemma dec_length: "2 \<le> n \<Longrightarrow> length (dec n) < n"
proof -
  assume n: "2 \<le> n"
  have p: "n < 10 ^ (n - 1)"
  proof -
    obtain k where k: "n = k + 2" using n by (metis le_Suc_ex add.commute)
    have "k + 2 < 10 ^ (k + 1)" by (induction k) auto
    then show ?thesis by (simp add: k)
  qed
  show ?thesis using digits_rev_length [of 10 n "n - 1"] p n by (simp add: dec_def)
qed

lemma show_run_length: "0 < n \<Longrightarrow> length (show_run (n, x)) \<le> n"
  using dec_length [of n] by (cases "n = 1") (simp_all add: show_run_def Suc_le_eq)

lemma encoded_length: "length (encoded xs) \<le> length xs"
proof -
  have "length (concat (map show_run rs)) \<le> length (concat (map (\<lambda>(n, x). replicate n x) rs))"
    if "\<forall>(n, x) \<in> set rs. 0 < n" for rs :: "(nat \<times> u8) list"
    using that by (induction rs) (auto intro!: add_mono show_run_length)
  from this [of "runs xs"] runs_set [of _ _ xs] show ?thesis by (auto simp: encoded_def runs_flat)
qed

lemma decode_encoded: "\<forall>c \<in> set xs. \<not> digit c \<Longrightarrow> decode 0 (encoded xs) = xs"
  unfolding encoded_def using runs_set [of _ _ xs]
  by (subst decode_runs) (auto simp: runs_flat)

section \<open>rle.c prints the encoding\<close>

lemma run_scan_run:
  assumes "i < len" "len \<le> length src"
  shows "run_scan src len i c = (let k = length (takeWhile (\<lambda>y. y = src ! i) (drop (i + 1) (take len src))) in (i + k, c + k))"
  using assms
proof (induction src len i c rule: run_scan.induct)
  case (1 src len i c)
  show ?case
  proof (cases "i + 1 < len \<and> src ! i = src ! (i + 1)")
    case True
    then have "drop (i + 1) (take len src) = src ! (i + 1) # drop (i + 2) (take len src)"
      using 1(3) Cons_nth_drop_Suc [of "i + 1" "take len src"] by simp
    then show ?thesis using 1 True by (subst run_scan.simps) (simp add: Let_def)
  next
    case False
    have "drop (i + 1) (take len src) = src ! (i + 1) # drop (i + 2) (take len src)" if "i + 1 < len"
      using 1(3) Cons_nth_drop_Suc [of "i + 1" "take len src"] that by simp
    then have "takeWhile (\<lambda>y. y = src ! i) (drop (i + 1) (take len src)) = []"
      using False by (cases "i + 1 < len") auto
    then show ?thesis using False by (subst run_scan.simps) (simp only: if_False Let_def list.size add_0_right)
  qed
qed

lemma runs_from:
  assumes "i < len" "len \<le> length src" "run_scan src len i 1 = (j, n)"
  shows "runs (drop i (take len src)) = (n, src ! j) # runs (drop (j + 1) (take len src)) \<and> i \<le> j \<and> j < len \<and> 0 < n \<and> n \<le> len"
proof -
  let ?d = "drop (i + 1) (take len src)" let ?P = "\<lambda>y. y = src ! i"
  have d: "drop i (take len src) = src ! i # ?d"
    using assms(1,2) Cons_nth_drop_Suc [of i "take len src"] by simp
  have j: "j = i + length (takeWhile ?P ?d)" "n = Suc (length (takeWhile ?P ?d))"
    using run_scan_run [OF assms(1,2), of 1] assms(3) by (simp_all add: Let_def)
  have l: "length (takeWhile ?P ?d) \<le> len - (i + 1)"
    using length_takeWhile_le [of ?P ?d] assms(2) by (simp add: min_def split: if_splits)
  have "src ! j = src ! i"
  proof (cases "j = i")
    case False
    then have "j - (i + 1) < length (takeWhile ?P ?d)" using j by simp
    then have "takeWhile ?P ?d ! (j - (i + 1)) = src ! i" "takeWhile ?P ?d ! (j - (i + 1)) = ?d ! (j - (i + 1))"
      using nth_mem set_takeWhileD [of _ ?P ?d] by (blast, simp add: takeWhile_nth)
    moreover have "i + 1 + (j - (i + 1)) = j" "i + 1 + (j - (i + 1)) < len"
      using False j l assms(1) by linarith+
    then have "?d ! (j - (i + 1)) = src ! j" using assms(2) by (simp add: min_def)
    ultimately show ?thesis by simp
  qed simp
  moreover have "dropWhile ?P ?d = drop (j + 1) (take len src)"
    using j by (simp add: dropWhile_eq_drop add.commute)
  moreover have "j < len" "n \<le> len" using j l assms(1) by linarith+
  ultimately show ?thesis using j by (simp add: d)
qed

lemma put_all_nil [simp]: "put_all [] ek = Some ek"
  by (cases ek) simp

lemma put_all_append: "put_all (a @ b) ek = put_all a ek \<bind> put_all b"
  by (induction a ek rule: put_all.induct) simp_all

lemma put_show_run:
  "put_all (show_run (n, c)) ek = (if n = 1 then Some ek else put_all (dec n) ek) \<bind> put_all [c]"
  by (simp add: show_run_def put_all_append)

lemma put_all_fits:
  "k + length cs \<le> length e \<Longrightarrow> put_all cs (e, k) = Some (take k e @ cs @ drop (k + length cs) e, k + length cs)"
proof (induction cs "(e, k)" arbitrary: e k rule: put_all.induct)
  case 1
  then show ?case by simp
next
  case (2 c cs e k)
  then have "put_all cs (e[k := c], k + 1) = Some (take (k + 1) (e[k := c]) @ cs @ drop (k + 1 + length cs) (e[k := c]), k + 1 + length cs)"
    by simp
  then show ?case using 2(2) by (simp add: take_Suc_conv_app_nth)
qed

lemma compress_loop_run:
  assumes "len \<le> length src" "len \<le> sz"
  shows "compress_loop src len sz i ek = put_all (encoded (drop i (take len src))) ek"
proof (induction "len - i" arbitrary: i ek rule: less_induct)
  case less
  show ?case
  proof (cases "i < len")
    case False
    then show ?thesis by (subst compress_loop.simps, cases ek) (simp add: encoded_def)
  next
    case True
    obtain j n where s: "run_scan src len i 1 = (j, n)" by fastforce
    note r = runs_from [OF True assms(1) s]
    have ih: "compress_loop src len sz (j + 1) ek' = put_all (encoded (drop (j + 1) (take len src))) ek'" for ek'
      using r True by (intro less) auto
    have small: "1 < n \<Longrightarrow> length (dec n) < sz" using dec_length [of n] r assms(2) by simp
    have "compress_loop src len sz i ek = put_all (show_run (n, src ! j)) ek \<bind> compress_loop src len sz (j + 1)"
      using True s small r by (subst compress_loop.simps) (auto simp: put_show_run simp del: put_all.simps(2))
    also have "compress_loop src len sz (j + 1) = put_all (encoded (drop (j + 1) (take len src)))"
      by (rule ext) (rule ih)
    also have "put_all (show_run (n, src ! j)) ek \<bind> \<dots> = put_all (encoded (drop i (take len src))) ek"
      using r by (simp add: encoded_def put_all_append)
    finally show ?thesis .
  qed
qed

text \<open>The text of a C string, and its first line.\<close>

definition host0 :: "u8 list \<Rightarrow> host" where
  "host0 bs = \<lparr>h_stdin = bs, h_files = (\<lambda>_. None), h_out = [], h_err = []\<rparr>"

lemma upto0_id: "0 \<notin> set xs \<Longrightarrow> upto0 (xs @ 0 # ys) = xs"
  unfolding upto0_def by (rule takeWhile_tail [THEN trans]) (auto simp: takeWhile_eq_all_conv)

lemma encoded_set: "c \<in> set (encoded xs) \<Longrightarrow> c \<in> set xs \<or> digit c \<and> c \<noteq> 0"
  using dec_digits runs_set [of _ _ xs] by (fastforce simp: encoded_def show_run_def split: if_splits)

lemma compress_prints:
  assumes "0 \<notin> set xs" "int_ok (2 * length xs + 1)" "length xs \<le> sz"
  shows "compress (xs @ [0]) sz h = say (encoded xs) h"
proof -
  let ?n = "length xs" let ?e = "encoded xs"
  have u: "upto0 (xs @ [0]) = xs" using assms(1) upto0_id [of xs "[]"] by simp
  have l: "length ?e \<le> ?n" by (rule encoded_length)
  have z: "0 \<notin> set ?e" using encoded_set [of 0 xs] assms(1) by blast
  have "compress_loop (xs @ [0]) ?n sz 0 (replicate (2 * ?n + 1) 0, 0) =
      Some (?e @ replicate (2 * ?n + 1 - length ?e) 0, length ?e)"
    using assms(3) l by (subst compress_loop_run) (simp_all add: put_all_fits del: replicate.simps)
  moreover have "put_all [0] (?e @ replicate (2 * ?n + 1 - length ?e) 0, length ?e) =
      Some (?e @ 0 # replicate (2 * ?n - length ?e) 0, length ?e + 1)"
    using l by (subst put_all_fits) (simp_all add: Suc_diff_le)
  ultimately show ?thesis using assms(2) upto0_id [OF z] by (simp add: compress_def Let_def u)
qed

text \<open>
  C25. rle prints an encoding of its first line, and the line can be recovered from it. For a line without a
  NUL that is no longer than half of the largest \<open>int\<close>, the program stays inside its two arrays, prints at
  most as many bytes as it read, and what it prints is the text of the maximal runs of the line; a line
  without digits is what the decoder makes of it. A line with
  digits need not be: \<open>2a\<close> and \<open>aa\<close> are encoded alike.
\<close>

lemma rle_decodes:
  assumes "bs \<noteq> []" "0 \<notin> set (first_line bs)" "2 * length (first_line bs) + 1 < 2147483648"
  shows "\<exists>out. rle_main [prog] (h\<lparr>h_stdin := bs\<rparr>) = Ret 0 (h\<lparr>h_stdin := after_line bs, h_out := h_out h @ out\<rparr>) \<and>
    out = encoded (first_line bs) \<and> length out \<le> length (first_line bs) \<and>
    ((\<forall>c \<in> set (first_line bs). \<not> digit c) \<longrightarrow> decode 0 out = first_line bs)"
  using assms encoded_length [of "first_line bs"] decode_encoded [of "first_line bs"]
  by (simp add: rle_main_def rle_def rle_line_def compress_prints int_ok_def say_def uwhen_def useq_def ubind_def)

lemma rle_decodes_witness:
  "\<exists>out. rle_main [lit ''rle''] (host0 (lit ''aaab\<newline>cc'')) = Ret 0 (host0 (lit ''cc'')\<lparr>h_out := out\<rparr>) \<and>
    decode 0 out = lit ''aaab\<newline>''"
  using rle_decodes [of "lit ''aaab\<newline>cc''" "lit ''rle''" "host0 []"]
  by (simp add: lit_def first_line_def after_line_def host0_def digit_def)

text \<open>Two lines with one encoding.\<close>

lemma digits_are_ambiguous: "encoded (lit ''aa'') = encoded (lit ''2a'')"
  by (simp add: encoded_def show_run_def lit_def dec_def digits_rev.simps)

end
