(* ===== verification/Prle.thy ===== *)
theory Prle
  imports Rle
begin

text \<open>
  prle.c of homework 4. The threads share only the input, which none of them writes, and each writes a
  result of its own that the main thread reads after joining it, so a thread is its function. An array is
  the list of its entries: \<open>None\<close> where nothing was written yet, and an access beyond the length of the
  list is one beyond the memory that was allocated.
\<close>

section \<open>Buffers\<close>

definition NTHREADS :: nat where "NTHREADS = 8"
definition INPUT_THRESHOLD :: nat where "INPUT_THRESHOLD = NTHREADS * 3"

type_synonym run_entry = "nat \<times> u8"

record buffer =
  b_base :: "u8 list"
  b_enc :: "run_entry option list"
  b_capacity :: nat
  b_read :: nat

text \<open>\<open>enc\<close> has the square of the capacity in bytes, and an entry takes eight.\<close>

definition allocBuffer :: "nat \<Rightarrow> buffer option" where
  "allocBuffer cap = (if \<not> int_ok (cap * cap) then None
     else Some \<lparr>b_base = [], b_enc = replicate (cap * cap div 8) None, b_capacity = cap, b_read = 0\<rparr>)"

definition growBuffer :: "buffer \<Rightarrow> nat \<Rightarrow> buffer option" where
  "growBuffer buf newsize = (if newsize \<le> b_capacity buf then Some buf
     else if \<not> int_ok (newsize * newsize) then None
     else Some (buf\<lparr>b_enc := b_enc buf @ replicate (newsize * newsize div 8 - length (b_enc buf)) None, b_capacity := newsize\<rparr>))"

text \<open>One turn per \<open>fread\<close>; the bytes read so far are \<open>b_base\<close>.\<close>

function read_turns :: "buffer \<Rightarrow> u8 list \<Rightarrow> buffer option" where
  "read_turns buf inp = (let n = min (b_capacity buf - b_read buf) (length inp) in
     if n = 0 then Some buf
     else let buf = buf\<lparr>b_base := b_base buf @ take n inp, b_read := b_read buf + n\<rparr> in
       case (if b_read buf = b_capacity buf then growBuffer buf (b_capacity buf * 2) else Some buf) of
         None \<Rightarrow> None
       | Some buf \<Rightarrow> read_turns buf (drop n inp))"
  by auto
termination
  by (relation "measure (\<lambda>(buf, inp). length inp)") auto

declare read_turns.simps [simp del]

definition readIntoBuffer :: "u8 list \<Rightarrow> buffer option" where
  "readIntoBuffer inp = allocBuffer 10 \<bind> (\<lambda>buf. read_turns buf inp)"

section \<open>A thread\<close>

definition put_entry :: "run_entry \<Rightarrow> nat \<Rightarrow> buffer \<Rightarrow> buffer option" where
  "put_entry e k b = (if k < length (b_enc b) then Some (b\<lparr>b_enc := (b_enc b)[k := Some e]\<rparr>) else None)"

function prle_loop :: "u8 list \<Rightarrow> nat \<Rightarrow> nat \<Rightarrow> nat \<Rightarrow> buffer \<Rightarrow> (nat \<times> buffer) option" where
  "prle_loop base to i k result =
     (if i < to then
        (let (i', counter) = run_scan base to i 1 in do {
           result \<leftarrow> put_entry (counter, base ! i') k result;
           prle_loop base to (i' + 1) (k + 1) (result\<lparr>b_read := b_read result + 1\<rparr>) })
      else Some (k, result))"
  by auto
termination
  by (relation "measure (\<lambda>(base, to, i, k, result). to - i)")
    (auto dest!: arg_cong [of _ _ fst] simp: run_scan_up less_Suc_eq_le diff_less_mono2)

declare prle_loop.simps [simp del]

definition prle :: "u8 list \<Rightarrow> nat \<Rightarrow> nat \<Rightarrow> buffer option" where
  "prle base start to = do {
     result \<leftarrow> allocBuffer (to - start);
     (k, result) \<leftarrow> prle_loop base to start 0 result;
     put_entry (0, 0) k result }"

section \<open>Merging\<close>

definition entry :: "buffer list \<Rightarrow> nat \<Rightarrow> nat \<Rightarrow> run_entry option" where
  "entry rs i j = (if j < length (b_enc (rs ! i)) then b_enc (rs ! i) ! j else None)"

text \<open>The entry \<open>bytesRead - 1\<close>; with no entry the unsigned difference is far out of bounds.\<close>

definition last_entry :: "buffer list \<Rightarrow> nat \<Rightarrow> run_entry option" where
  "last_entry rs i = (if b_read (rs ! i) = 0 then None else entry rs i (b_read (rs ! i) - 1))"

text \<open>The locals of the merge: the results, \<open>prev_char\<close> and \<open>new_length\<close>; with each turn go the bytes it prints.\<close>

record merge =
  m_results :: "buffer list"
  m_letter :: u8
  m_length :: nat
  m_new :: nat

definition show_len :: "nat \<Rightarrow> u8 list" where
  "show_len n = (if n = 1 then [] else dec n)"

text \<open>The scan for a letter other than the one that was matched.\<close>

fun next_letter :: "nat \<Rightarrow> nat list \<Rightarrow> merge \<Rightarrow> merge option" where
  "next_letter i [] m = Some m"
| "next_letter i (j # js) m = do {
     (len, letter) \<leftarrow> entry (m_results m) i j;
     next_letter i js (if m_letter m \<noteq> letter then m\<lparr>m_new := len, m_length := len, m_letter := letter\<rparr> else m) }"

text \<open>The lengths of result \<open>i\<close>, with the letters of the result before it.\<close>

fun print_entries :: "buffer list \<Rightarrow> nat \<Rightarrow> nat list \<Rightarrow> u8 list option" where
  "print_entries rs i [] = Some []"
| "print_entries rs i (j # js) = do {
     (len, _) \<leftarrow> entry rs i j;
     (_, letter) \<leftarrow> entry rs (i - 1) j;
     bs \<leftarrow> print_entries rs i js;
     Some (show_len len @ [letter] @ bs) }"

definition merge_turn :: "nat \<Rightarrow> nat \<Rightarrow> merge \<Rightarrow> (merge \<times> u8 list) option" where
  "merge_turn n i m = (let rs = m_results m; js = [0..<b_read (rs ! i)] in
     if i = 0 then do {
       (len, letter) \<leftarrow> last_entry rs i;
       Some (m\<lparr>m_letter := letter, m_length := len\<rparr>, []) }
     else do {
       (len, letter) \<leftarrow> entry rs i 0;
       if m_letter m = letter \<and> i \<noteq> n - 1 then
         (let len = len + m_length m;
              rs = rs[i := (rs ! i)\<lparr>b_enc := (b_enc (rs ! i))[0 := Some (len, letter)]\<rparr>];
              m' = m\<lparr>m_results := rs, m_new := len\<rparr>
          in if b_read (rs ! i) = 1 then Some (m'\<lparr>m_length := len\<rparr>, [])
             else do {
               m'' \<leftarrow> next_letter i js m';
               Some (m'', dec len @ [m_letter m]) })
       else do {
         bs \<leftarrow> (if m_new m = 0 then print_entries rs i js else Some []);
         (len, letter) \<leftarrow> last_entry rs i;
         Some (m\<lparr>m_letter := letter, m_length := len\<rparr>, bs) } })"

fun merge_turns :: "nat \<Rightarrow> nat list \<Rightarrow> merge \<Rightarrow> (merge \<times> u8 list) option" where
  "merge_turns n [] m = Some (m, [])"
| "merge_turns n (i # is) m = do {
     (m, bs) \<leftarrow> merge_turn n i m;
     (m, cs) \<leftarrow> merge_turns n is m;
     Some (m, bs @ cs) }"

text \<open>The entries of the last thread.\<close>

fun print_last :: "buffer list \<Rightarrow> nat \<Rightarrow> nat list \<Rightarrow> nat \<Rightarrow> u8 list option" where
  "print_last rs i [] new_length = Some []"
| "print_last rs i (j # js) new_length = do {
     (len, letter) \<leftarrow> entry rs i j;
     bs \<leftarrow> print_last rs i js 0;
     Some ((if new_length = 0 then show_len len else dec (new_length + len)) @ [letter] @ bs) }"

definition go :: "buffer \<Rightarrow> u8 list option" where
  "go buf = (let n = (if INPUT_THRESHOLD < b_read buf then NTHREADS else 1); chunk = b_read buf div n in do {
     rs \<leftarrow> those (map (\<lambda>i. prle (b_base buf) (i * chunk)
       (i * chunk + (if i = n - 1 then b_read buf - i * chunk else chunk))) [0..<n]);
     (m, bs) \<leftarrow> merge_turns n [0..<n] \<lparr>m_results = rs, m_letter = 32, m_length = 0, m_new = 0\<rparr>;
     cs \<leftarrow> print_last (m_results m) (n - 1) [0..<b_read (m_results m ! (n - 1))] (m_new m);
     Some (bs @ cs) })"

definition prle_main :: "cstr list \<Rightarrow> (int, host) U" where
  "prle_main argv h = (case (if length argv = 2 then h_files h (argv ! 1) else Some (h_stdin h)) of
     None \<Rightarrow> Wild
   | Some inp \<Rightarrow> (case readIntoBuffer inp \<bind> go of
       None \<Rightarrow> Wild
     | Some out \<Rightarrow> useq (say out) (Ret 0) (if length argv = 2 then h else h\<lparr>h_stdin := []\<rparr>)))"

section \<open>What one thread finds\<close>

lemma prle_loop_run:
  assumes "to \<le> length base"
  shows "prle_loop base to i k result =
    (let rs = runs (drop i (take to base)) in
     if k + length rs \<le> length (b_enc result) \<or> rs = [] then Some (k + length rs, result\<lparr>
       b_enc := take k (b_enc result) @ map Some rs @ drop (k + length rs) (b_enc result),
       b_read := b_read result + length rs\<rparr>) else None)"
proof (induction "to - i" arbitrary: i k result rule: less_induct)
  case less
  show ?case
  proof (cases "i < to")
    case False
    then show ?thesis by (subst prle_loop.simps) simp
  next
    case True
    obtain j n where s: "run_scan base to i 1 = (j, n)" by fastforce
    note r = runs_from [OF True assms(1) s]
    have step: "prle_loop base to i k result = put_entry (n, base ! j) k result \<bind>
        (\<lambda>result. prle_loop base to (j + 1) (k + 1) (result\<lparr>b_read := b_read result + 1\<rparr>))"
      using True s by (subst prle_loop.simps) simp
    note ih = less [of "j + 1"]
    show ?thesis
    proof (cases "k < length (b_enc result)")
      case False
      then show ?thesis using r by (simp add: step put_entry_def)
    next
      case k: True
      define result' where "result' = result\<lparr>b_enc := (b_enc result)[k := Some (n, base ! j)], b_read := b_read result + 1\<rparr>"
      have "prle_loop base to i k result = prle_loop base to (j + 1) (k + 1) result'"
        using k by (simp add: step put_entry_def result'_def)
      also have "\<dots> = (let rs = runs (drop (j + 1) (take to base)) in
         if k + 1 + length rs \<le> length (b_enc result') \<or> rs = [] then Some (k + 1 + length rs, result'\<lparr>
           b_enc := take (k + 1) (b_enc result') @ map Some rs @ drop (k + 1 + length rs) (b_enc result'),
           b_read := b_read result' + length rs\<rparr>) else None)"
        using r True by (intro less) auto
      finally show ?thesis using r k
        by (simp add: Let_def result'_def take_Suc_conv_app_nth)
    qed
  qed
qed

lemma replicate_head: "0 < n \<Longrightarrow> (replicate n x)[0 := y] = y # replicate (n - Suc 0) x"
  by (cases n) simp_all

lemma prle_run:
  assumes "to \<le> length base" "int_ok ((to - start) * (to - start))"
  shows "prle base start to = (let rs = runs (drop start (take to base)); n = (to - start) * (to - start) div 8 in
    if length rs < n then Some \<lparr>b_base = [], b_enc = map Some rs @ Some (0, 0) # replicate (n - length rs - 1) None,
      b_capacity = to - start, b_read = length rs\<rparr> else None)"
  using assms by (auto simp: prle_def allocBuffer_def prle_loop_run Let_def put_entry_def list_update_append
    not_less Suc_le_eq replicate_head replicate_Suc [symmetric] simp del: replicate_Suc)

text \<open>Reading: the buffer doubles before it is full, up to the size at which the square of its size overflows.\<close>

lemma read_turns_all:
  assumes "b_read buf = length (b_base buf)" "b_read buf < b_capacity buf" "2 * (length (b_base buf) + length inp) < 46341"
  shows "\<exists>buf'. read_turns buf inp = Some buf' \<and> b_base buf' = b_base buf @ inp \<and> b_read buf' = length (b_base buf')"
  using assms
proof (induction "length inp" arbitrary: buf inp rule: less_induct)
  case less
  define n where "n = min (b_capacity buf - b_read buf) (length inp)"
  show ?case
  proof (cases "inp = []")
    case True
    then show ?thesis using less.prems by (subst read_turns.simps) simp
  next
    case False
    then have n: "0 < n" using less.prems by (simp add: n_def)
    have le: "n \<le> length inp" "b_read buf + n \<le> b_capacity buf" using less.prems(2) by (simp_all add: n_def)
    define buf1 where "buf1 = buf\<lparr>b_base := b_base buf @ take n inp, b_read := b_read buf + n\<rparr>"
    have b1: "b_base buf1 = b_base buf @ take n inp" "b_read buf1 = length (b_base buf1)" "b_read buf1 \<le> b_capacity buf1"
      using less.prems(1) le by (simp_all add: buf1_def)
    obtain buf2 where b2: "(if b_read buf1 = b_capacity buf1 then growBuffer buf1 (b_capacity buf1 * 2) else Some buf1) = Some buf2"
      "b_base buf2 = b_base buf1" "b_read buf2 = b_read buf1" "b_read buf2 < b_capacity buf2"
    proof (cases "b_read buf1 = b_capacity buf1")
      case True
      have "b_read buf1 = b_read buf + n" by (simp add: buf1_def)
      then have "0 < b_capacity buf1" "b_capacity buf1 \<le> length (b_base buf) + length inp"
        using True n le(1) less.prems(1) by linarith+
      then have c: "0 < b_capacity buf1" "b_capacity buf1 * 2 \<le> 46340" using less.prems(3) by simp_all
      have "b_capacity buf1 * 2 * (b_capacity buf1 * 2) \<le> 46340 * 46340" using c by (intro mult_le_mono) simp_all
      then have "int_ok (b_capacity buf1 * 2 * (b_capacity buf1 * 2))" by (simp add: int_ok_def)
      then show ?thesis using that True c by (simp add: growBuffer_def)
    next
      case False
      then show ?thesis using that b1 by simp
    qed
    have "\<exists>buf'. read_turns buf2 (drop n inp) = Some buf' \<and> b_base buf' = b_base buf2 @ drop n inp \<and> b_read buf' = length (b_base buf')"
      using n le b1 b2 less.prems(1,3) by (intro less.hyps) simp_all
    moreover have "read_turns buf inp = read_turns buf2 (drop n inp)"
      using n b2(1) unfolding buf1_def by (subst read_turns.simps) (simp add: Let_def n_def [symmetric])
    ultimately show ?thesis using b1 b2 by (metis append_assoc append_take_drop_id)
  qed
qed

lemma readIntoBuffer_all:
  assumes "2 * length inp < 46341"
  shows "\<exists>buf. readIntoBuffer inp = Some buf \<and> b_base buf = inp \<and> b_read buf = length inp"
  using read_turns_all [of "\<lparr>b_base = [], b_enc = replicate 12 None, b_capacity = 10, b_read = 0\<rparr>" inp] assms
  by (auto simp: readIntoBuffer_def allocBuffer_def int_ok_def)

section \<open>One thread\<close>

lemma print_last_run:
  "(\<And>j. j \<in> set js \<Longrightarrow> entry rs i j = Some (f j)) \<Longrightarrow> print_last rs i js 0 = Some (concat (map (\<lambda>j. show_run (f j)) js))"
  by (induction js) (auto simp: show_run_def show_len_def split: prod.splits)

lemma go_one_thread:
  assumes "b_base buf = bs" "b_read buf = length bs" "length bs \<le> 24"
  shows "go buf = (if 8 * (length (runs bs) + 1) \<le> length bs * length bs then Some (encoded bs) else None)"
proof -
  let ?n = "length bs * length bs" let ?r = "runs bs"
  have "?n \<le> 24 * 24" using assms(3) by (intro mult_le_mono) simp_all
  then have ok: "int_ok ?n" by (simp add: int_ok_def)
  have cond: "length ?r < ?n div 8 \<longleftrightarrow> 8 * (length ?r + 1) \<le> ?n" by (auto simp: less_eq_div_iff_mult_less_eq Suc_le_eq [symmetric])
  define R where "R = \<lparr>b_base = [], b_enc = map Some ?r @ Some (0, 0) # replicate (?n div 8 - length ?r - 1) None,
      b_capacity = length bs, b_read = length ?r\<rparr>"
  have thread: "prle bs 0 (length bs) = (if length ?r < ?n div 8 then Some R else None)"
    using ok by (simp add: prle_run R_def Let_def)
  have ent: "entry [R] 0 j = Some (?r ! j)" if "j < length ?r" for j
    using that by (simp add: entry_def R_def nth_append)
  have last: "print_last [R] 0 [0..<length ?r] 0 = Some (encoded bs)"
  proof -
    have "map (\<lambda>j. show_run (?r ! j)) [0..<length ?r] = map show_run ?r" by (rule nth_equalityI) simp_all
    then show ?thesis using print_last_run [of "[0..<length ?r]" "[R]" 0 "\<lambda>j. ?r ! j"] ent by (simp add: encoded_def)
  qed
  show ?thesis
  proof (cases "length ?r < ?n div 8")
    case False
    then show ?thesis using assms cond by (simp add: go_def INPUT_THRESHOLD_def NTHREADS_def thread)
  next
    case True
    then have "?r \<noteq> []" by (cases bs) auto
    then have "last_entry [R] 0 = Some (?r ! (length ?r - 1))"
      using ent [of "length ?r - 1"] by (simp add: last_entry_def R_def)
    then show ?thesis using assms True cond last
      by (simp add: go_def INPUT_THRESHOLD_def NTHREADS_def thread merge_turn_def Let_def R_def split: prod.splits)
  qed
qed

text \<open>
  C27. prle up to the size at which it starts threads. An input of at most 24 bytes is encoded by the one
  thread, and what is printed is the text of the maximal runs of the whole input, the encoding that rle
  gives a line; but only if the array of the runs is large enough. It has the square of the length of the input in
  bytes, an entry takes eight, and there is one entry more than runs: with fewer bytes, as for every
  input of up to three bytes, the thread writes past the end of the array.
\<close>

lemma prle_small:
  assumes "length bs \<le> 24"
  shows "prle_main [prog] (h\<lparr>h_stdin := bs\<rparr>) =
    (if 8 * (length (runs bs) + 1) \<le> length bs * length bs
     then Ret 0 (h\<lparr>h_stdin := [], h_out := h_out h @ encoded bs\<rparr>) else Wild)"
proof -
  obtain buf where "readIntoBuffer bs = Some buf" "b_base buf = bs" "b_read buf = length bs"
    using readIntoBuffer_all [of bs] assms by auto
  then show ?thesis using go_one_thread [of buf bs] assms
    by (simp add: prle_main_def say_def useq_def ubind_def)
qed

lemma prle_small_witness:
  "prle_main [lit ''prle''] (host0 (lit ''aaaabbb'')) = Ret 0 (host0 []\<lparr>h_out := lit ''4a3b''\<rparr>) \<and>
   prle_main [lit ''prle''] (host0 (lit ''ab'')) = Wild"
  using prle_small [of "lit ''aaaabbb''" "lit ''prle''" "host0 []"] prle_small [of "lit ''ab''" "lit ''prle''" "host0 []"]
  by (simp add: lit_def host0_def encoded_def show_run_def dec_def digits_rev.simps)

section \<open>Eight threads\<close>

text \<open>
  From 25 bytes on the merge prints the lengths of one thread with the letters of the thread before it and
  drops a run that was merged over several threads when another letter follows it: twenty \<open>a\<close> and twenty \<open>b\<close> come out as \<open>20b\<close>.
\<close>

lemma runs_replicate: "runs (replicate (Suc n) x) = [(Suc n, x)]"
  by (simp add: takeWhile_eq_all_conv [THEN iffD2])

lemma prle_loses_runs:
  assumes "b_base buf = replicate 20 97 @ replicate 20 98" "b_read buf = 40"
  shows "go buf = Some (lit ''20b'')"
proof -
  let ?R = "\<lambda>x. \<lparr>b_base = [], b_enc = [Some (5, x), Some (0, 0), None], b_capacity = 5, b_read = 1\<rparr>"
  have r: "runs (replicate 5 x) = [(5, x)]" for x :: u8
    using runs_replicate [of 4 x] by (simp add: eval_nat_numeral)
  have thread: "prle (b_base buf) (i * 5) (i * 5 + 5) = Some (?R (if i < 4 then 97 else 98))" if "i \<in> set [0..<8]" for i
  proof -
    have "drop (i * 5) (take (i * 5 + 5) (b_base buf)) = replicate 5 (if i < 4 then 97 else 98)"
      using that assms(1) by (simp add: upt_conv_Cons) auto
    moreover have "i * 5 + 5 \<le> 40" using that by simp
    ultimately show ?thesis using assms(1) by (simp add: prle_run int_ok_def r)
  qed
  define rs where "rs = [?R 97, ?R 97, ?R 97, ?R 97, ?R 98, ?R 98, ?R 98, ?R 98]"
  have "prle (b_base buf) (i * 5) (i * 5 + (if i = 8 - 1 then 40 - i * 5 else 5)) = Some (rs ! i)" if "i \<in> set [0..<8]" for i
  proof -
    have "rs ! i = ?R (if i < 4 then 97 else 98)" using that by (auto simp: rs_def upt_conv_Cons)
    moreover have "(if i = 8 - 1 then 40 - i * 5 else 5) = (5 :: nat)" by simp
    ultimately show ?thesis using thread [OF that] by (simp only:)
  qed
  then have "those (map (\<lambda>i. prle (b_base buf) (i * 5) (i * 5 + (if i = 8 - 1 then 40 - i * 5 else 5))) [0..<8]) =
      those (map (\<lambda>i. Some (rs ! i)) [0..<8])"
    by (intro arg_cong [of _ _ those] map_cong) simp_all
  also have "\<dots> = Some rs" by (simp add: upt_conv_Cons rs_def)
  finally show ?thesis using assms(2)
    by (simp add: go_def INPUT_THRESHOLD_def NTHREADS_def Let_def)
     (simp add: rs_def upt_conv_Cons merge_turn_def Let_def entry_def last_entry_def dec_def digits_rev.simps lit_def show_len_def)
qed

end
