(* ===== verification/Mkfs.thy ===== *)
theory Mkfs
  imports Fs Ulib
begin

text \<open>
  mkfs/mkfs.c, the program of the host that builds the file system the kernel boots with. The image is
  the list of its blocks; inodes, directory entries and the super block are put into it with the layout
  of kernel/fs.h, the functions the kernel's model reads them with. \<open>Exit\<close> is \<open>exit(1)\<close> or a failed
  assertion, \<open>Ret 0\<close> is \<open>exit(0)\<close>. The host is little-endian.
\<close>

section \<open>Layout\<close>

definition NINODES :: nat where "NINODES = 200"
definition nbitmap :: nat where "nbitmap = FSSIZE div (BSIZE * 8) + 1"
definition ninodeblocks :: nat where "ninodeblocks = NINODES div IPB + 1"
definition nlog :: nat where "nlog = LOGSIZE"
definition nmeta :: nat where "nmeta = 2 + nlog + ninodeblocks + nbitmap"
definition nblocks :: nat where "nblocks = FSSIZE - nmeta"

text \<open>The value whose bytes are those of \<open>x\<close>, lowest first.\<close>

definition xshort :: "nat \<Rightarrow> nat" where "xshort x = le_val (le_bytes 2 x)"
definition xint :: "nat \<Rightarrow> nat" where "xint x = le_val (le_bytes 4 x)"

definition mk_sb :: superblock where
  "mk_sb = \<lparr>sb_size = xint FSSIZE, sb_nblocks = xint nblocks, sb_ninodes = xint NINODES, sb_nlog = xint nlog,
     sb_logstart = xint 2, sb_inodestart = xint (2 + nlog), sb_bmapstart = xint (2 + nlog + ninodeblocks)\<rparr>"

definition sb_bytes :: "superblock \<Rightarrow> u8 list" where
  "sb_bytes sb = concat (map (le_bytes 4) [sb_size sb, sb_nblocks sb, sb_ninodes sb, sb_nlog sb, sb_logstart sb,
     sb_inodestart sb, sb_bmapstart sb])"

section \<open>State\<close>

record mkimg =
  mk_img :: "block list"
  mk_freeinode :: nat
  mk_freeblock :: nat

definition zeroes :: block where
  "zeroes = replicate BSIZE 0"

definition uget :: "('s \<Rightarrow> 'a) \<Rightarrow> ('a, 's) U" where
  "uget f s = Ret (f s) s"

definition umod :: "('s \<Rightarrow> 's) \<Rightarrow> (unit, 's) U" where
  "umod f s = Ret () (f s)"

definition uassert :: "bool \<Rightarrow> (unit, 's) U" where
  "uassert b = (if b then Ret () else uexit)"

section \<open>Sectors\<close>

text \<open>A write behind the end leaves a gap of zeros; a read there is short, which ends the program.\<close>

definition wsect :: "nat \<Rightarrow> block \<Rightarrow> (unit, mkimg) U" where
  "wsect sec buf = umod (mk_img_update (\<lambda>img.
     take sec (img @ replicate (sec - length img) zeroes) @ [buf] @ drop (sec + 1) img))"

definition rsect :: "nat \<Rightarrow> (block, mkimg) U" where
  "rsect sec = ubind (uget mk_img) (\<lambda>img. if sec < length img then Ret (img ! sec) else uexit)"

section \<open>Inodes\<close>

definition winode :: "nat \<Rightarrow> dinode \<Rightarrow> (unit, mkimg) U" where
  "winode inum din = (let bn = IBLOCK inum mk_sb in
     ubind (rsect bn) (\<lambda>buf. wsect bn (put_dinode (inum mod IPB) din buf)))"

definition rinode :: "nat \<Rightarrow> (dinode, mkimg) U" where
  "rinode inum = (let bn = IBLOCK inum mk_sb in
     ubind (rsect bn) (\<lambda>buf. Ret (get_dinode buf (inum mod IPB))))"

definition mk_ialloc :: "int \<Rightarrow> (nat, mkimg) U" where
  "mk_ialloc ty = ubind (uget mk_freeinode) (\<lambda>inum. useq (umod (mk_freeinode_update Suc))
     (useq (winode inum (zero_dinode\<lparr>d_type := int (xshort (nat ty)), d_nlink := int (xshort 1), d_size := xint 0\<rparr>))
     (Ret inum)))"

text \<open>\<open>xint(freeblock++)\<close>.\<close>

definition next_block :: "(nat, mkimg) U" where
  "next_block = ubind (uget mk_freeblock) (\<lambda>b. useq (umod (mk_freeblock_update Suc)) (Ret (xint b)))"

text \<open>The block of the file that holds block \<open>fbn\<close>, made if there is none, and the inode with it.\<close>

definition file_block :: "dinode \<Rightarrow> nat \<Rightarrow> (nat \<times> dinode, mkimg) U" where
  "file_block din fbn =
     (if fbn < NDIRECT then
        (if xint (d_addrs din ! fbn) = 0
         then ubind next_block (\<lambda>b. Ret (xint b, din\<lparr>d_addrs := (d_addrs din)[fbn := b]\<rparr>))
         else Ret (xint (d_addrs din ! fbn), din))
      else
        ubind (if xint (d_addrs din ! NDIRECT) = 0
          then ubind next_block (\<lambda>b. Ret (din\<lparr>d_addrs := (d_addrs din)[NDIRECT := b]\<rparr>))
          else Ret din) (\<lambda>din.
        ubind (rsect (xint (d_addrs din ! NDIRECT))) (\<lambda>ind.
        if word_at ind (fbn - NDIRECT) = 0
        then ubind next_block (\<lambda>b. let ind = put_word (fbn - NDIRECT) b ind in
          useq (wsect (xint (d_addrs din ! NDIRECT)) ind) (Ret (xint (word_at ind (fbn - NDIRECT)), din)))
        else Ret (xint (word_at ind (fbn - NDIRECT)), din))))"

text \<open>The turns of the loop, one for each piece of the data that lies in one block.\<close>

fun append_pieces :: "dinode \<Rightarrow> u8 list \<Rightarrow> (nat \<times> nat) list \<Rightarrow> (dinode, mkimg) U" where
  "append_pieces din p [] = Ret din"
| "append_pieces din p ((off, n1) # ps) = (let fbn = off div BSIZE in
     useq (uassert (fbn < MAXFILE))
     (ubind (file_block din fbn) (\<lambda>(x, din).
      ubind (rsect x) (\<lambda>buf. useq (wsect x (put_bytes (off - fbn * BSIZE) (take n1 p) buf))
      (append_pieces din (drop n1 p) ps)))))"

definition iappend :: "nat \<Rightarrow> u8 list \<Rightarrow> (unit, mkimg) U" where
  "iappend inum p = ubind (rinode inum) (\<lambda>din. let off = xint (d_size din) in
     ubind (append_pieces din p (pieces off (length p))) (\<lambda>din.
     winode inum (din\<lparr>d_size := xint (off + length p)\<rparr>)))"

text \<open>The bitmap: the first \<open>used\<close> blocks are taken.\<close>

definition mk_balloc :: "nat \<Rightarrow> (unit, mkimg) U" where
  "mk_balloc used = useq (uassert (used < BSIZE * 8))
     (wsect (sb_bmapstart mk_sb) (fold mark_used [0..<used] zeroes))"

section \<open>main\<close>

text \<open>A file that was opened, in the pieces \<open>read\<close> returns.\<close>

function blocks_of :: "u8 list \<Rightarrow> u8 list list" where
  "blocks_of bs = (if bs = [] then [] else take BSIZE bs # blocks_of (drop BSIZE bs))"
  by auto
termination
  by (relation "measure length") (auto simp: BSIZE_def)

declare blocks_of.simps [simp del]

definition shortname :: "cstr \<Rightarrow> cstr" where
  "shortname arg = (if take 5 arg = lit ''user/'' then drop 5 arg else arg)"

definition entry_name :: "cstr \<Rightarrow> cstr" where
  "entry_name arg = (let name = shortname arg in if at0 name = 95 then tl name else name)"

definition add_file :: "(cstr \<Rightarrow> u8 list option) \<Rightarrow> nat \<Rightarrow> cstr \<Rightarrow> (unit, mkimg) U" where
  "add_file files rootino arg = useq (uassert (strchr_u (shortname arg) 47 = None))
     (case files arg of
        None \<Rightarrow> uexit
      | Some bs \<Rightarrow> ubind (mk_ialloc T_FILE) (\<lambda>inum.
          useq (iappend rootino (dirent_bytes inum (of_bytes (entry_name arg))))
          (ufor (blocks_of bs) (iappend inum))))"

definition fix_root :: "nat \<Rightarrow> (unit, mkimg) U" where
  "fix_root rootino = ubind (rinode rootino) (\<lambda>din. let off = xint (d_size din); off = (off div BSIZE + 1) * BSIZE in
     winode rootino (din\<lparr>d_size := xint off\<rparr>))"

text \<open>\<open>can\<close> says whether the image itself can be opened.\<close>

definition mkfs_main :: "(cstr \<Rightarrow> bool) \<Rightarrow> (cstr \<Rightarrow> u8 list option) \<Rightarrow> cstr list \<Rightarrow> (int, mkimg) U" where
  "mkfs_main can files argv = useq (uassert (2 \<le> length argv)) (useq (uassert (can (argv ! 1)))
     (useq (umod (\<lambda>s. s\<lparr>mk_img := [], mk_freeinode := 1, mk_freeblock := nmeta\<rparr>))
     (useq (ufor [0..<FSSIZE] (\<lambda>i. wsect i zeroes))
     (useq (wsect 1 (put_bytes 0 (sb_bytes mk_sb) zeroes))
     (ubind (mk_ialloc T_DIR) (\<lambda>rootino. useq (uassert (rootino = ROOTINO))
     (useq (iappend rootino (dirent_bytes rootino (of_bytes (lit ''.''))))
     (useq (iappend rootino (dirent_bytes rootino (of_bytes (lit ''..''))))
     (useq (ufor (drop 2 argv) (add_file files rootino))
     (useq (fix_root rootino)
     (useq (ubind (uget mk_freeblock) mk_balloc) (Ret 0))))))))))))"

section \<open>Numbers\<close>

lemma xint_id [simp]: "x < 4294967296 \<Longrightarrow> xint x = x"
  unfolding xint_def by (rule le_val_bytes) simp

lemma xshort_id: "x < 65536 \<Longrightarrow> xshort x = x"
  unfolding xshort_def by (rule le_val_bytes) simp

lemma layout: "nmeta = 59" "ninodeblocks = 26" "nlog = 30" "nbitmap = 1" "nblocks = 941"
  by (simp_all add: nmeta_def ninodeblocks_def nlog_def nbitmap_def nblocks_def NINODES_def IPB_def BSIZE_def LOGSIZE_def FSSIZE_def)

lemma mk_sb_simps: "sb_size mk_sb = 1000" "sb_inodestart mk_sb = 32" "sb_bmapstart mk_sb = 58" "sb_logstart mk_sb = 2"
  by (simp_all add: mk_sb_def layout FSSIZE_def)

lemma IBLOCK_mk: "inum < 200 \<Longrightarrow> IBLOCK inum mk_sb = inum div 8 + 32"
  by (simp add: IBLOCK_def mk_sb_simps IPB_def BSIZE_def)

lemma zeroes_length [simp]: "length zeroes = 512"
  by (simp add: zeroes_def BSIZE_def)

lemma zeroes_word [simp]: "word_at zeroes k = 0"
  by (simp add: zeroes_def word_at_def)

section \<open>Steps\<close>

lemma uget_step [simp]: "ubind (uget f) g s = g (f s) s"
  by (simp add: uget_def ubind_def)

lemma umod_step [simp]: "useq (umod f) m s = m (f s)" "umod f s = Ret () (f s)"
  by (simp_all add: umod_def useq_def ubind_def)

lemma uassert_step [simp]: "b \<Longrightarrow> useq (uassert b) m = m"
  by (simp add: uassert_def)

text \<open>What an image in the making satisfies: its size, and that no block that was not given out was written.\<close>

definition img_ok :: "mkimg \<Rightarrow> bool" where
  "img_ok s \<longleftrightarrow> length (mk_img s) = FSSIZE \<and> (\<forall>b \<in> set (mk_img s). length b = BSIZE) \<and> nmeta \<le> mk_freeblock s \<and>
    mk_freeblock s \<le> FSSIZE \<and> (\<forall>b. mk_freeblock s \<le> b \<and> b < FSSIZE \<longrightarrow> mk_img s ! b = zeroes)"

abbreviation blk :: "mkimg \<Rightarrow> nat \<Rightarrow> block" where
  "blk s b \<equiv> mk_img s ! b"

lemma img_block: "img_ok s \<Longrightarrow> b < FSSIZE \<Longrightarrow> length (blk s b) = 512"
  by (simp add: img_ok_def BSIZE_def)

lemma rsect_ok: "img_ok s \<Longrightarrow> b < FSSIZE \<Longrightarrow> rsect b s = Ret (blk s b) s"
  by (simp add: rsect_def img_ok_def)

definition put_block :: "nat \<Rightarrow> block \<Rightarrow> mkimg \<Rightarrow> mkimg" where
  "put_block b x s = s\<lparr>mk_img := (mk_img s)[b := x]\<rparr>"

lemma put_block_sel [simp]:
  "mk_freeinode (put_block b x s) = mk_freeinode s" "mk_freeblock (put_block b x s) = mk_freeblock s"
  "length (mk_img (put_block b x s)) = length (mk_img s)"
  by (simp_all add: put_block_def)

lemma blk_put: "b < length (mk_img s) \<Longrightarrow> blk (put_block b x s) c = (if c = b then x else blk s c)"
  by (simp add: put_block_def)

lemma wsect_ok: "img_ok s \<Longrightarrow> b < FSSIZE \<Longrightarrow> wsect b x s = Ret () (put_block b x s)"
  by (cases s) (simp add: wsect_def put_block_def img_ok_def upd_conv_take_nth_drop)

lemma put_block_ok:
  assumes "img_ok s" "b < mk_freeblock s" "length x = 512"
  shows "img_ok (put_block b x s)"
proof -
  have b: "b < length (mk_img s)" using assms(1,2) by (simp add: img_ok_def)
  have "\<forall>y \<in> set (mk_img (put_block b x s)). length y = BSIZE"
    using assms set_update_subset_insert [of "mk_img s" b x] by (auto simp: put_block_def img_ok_def BSIZE_def)
  then show ?thesis using assms b by (auto simp: img_ok_def blk_put)
qed

section \<open>The block map of a file\<close>

text \<open>
  An inode in the making whose first \<open>nb\<close> blocks are mapped, to different blocks that were given out, and
  nothing behind them.
\<close>

definition bmapped :: "(nat \<Rightarrow> block) \<Rightarrow> nat \<Rightarrow> dinode \<Rightarrow> nat \<Rightarrow> bool" where
  "bmapped V fb dn nb \<longleftrightarrow> length (d_addrs dn) = NDIRECT + 1 \<and> nb \<le> MAXFILE \<and>
    (\<forall>bn < nb. nmeta \<le> baddr V dn bn \<and> baddr V dn bn < fb) \<and> inj_on (baddr V dn) {..<nb} \<and>
    (\<forall>bn. nb \<le> bn \<and> bn < NDIRECT \<longrightarrow> d_addrs dn ! bn = 0) \<and>
    (if nb \<le> NDIRECT then d_addrs dn ! NDIRECT = 0
     else nmeta \<le> d_addrs dn ! NDIRECT \<and> d_addrs dn ! NDIRECT < fb \<and> (\<forall>bn < nb. baddr V dn bn \<noteq> d_addrs dn ! NDIRECT) \<and>
       (\<forall>bn. nb \<le> bn \<and> bn < MAXFILE \<longrightarrow> word_at (V (d_addrs dn ! NDIRECT)) (bn - NDIRECT) = 0))"

definition own_blocks :: "(nat \<Rightarrow> block) \<Rightarrow> dinode \<Rightarrow> nat \<Rightarrow> nat set" where
  "own_blocks V dn nb = baddr V dn ` {..<nb} \<union> (if NDIRECT < nb then {d_addrs dn ! NDIRECT} else {})"

lemma bmapped_own: "bmapped V fb dn nb \<Longrightarrow> own_blocks V dn nb \<subseteq> {nmeta..<fb}"
  by (auto simp: bmapped_def own_blocks_def split: if_splits)

text \<open>The map only depends on the indirect block.\<close>

lemma baddr_cong: "NDIRECT \<le> bn \<longrightarrow> V' (d_addrs dn ! NDIRECT) = V (d_addrs dn ! NDIRECT) \<Longrightarrow> baddr V' dn bn = baddr V dn bn"
  by (auto simp: baddr_def)

lemma bmapped_cong:
  assumes "bmapped V fb dn nb" "NDIRECT < nb \<longrightarrow> V' (d_addrs dn ! NDIRECT) = V (d_addrs dn ! NDIRECT)" "fb \<le> fb'"
  shows "bmapped V' fb' dn nb" "own_blocks V' dn nb = own_blocks V dn nb" "\<And>bn. bn < nb \<Longrightarrow> baddr V' dn bn = baddr V dn bn"
proof -
  show b: "baddr V' dn bn = baddr V dn bn" if "bn < nb" for bn
    using assms(2) that by (intro baddr_cong) auto
  then show "own_blocks V' dn nb = own_blocks V dn nb" by (auto simp: own_blocks_def)
  have "inj_on (baddr V' dn) {..<nb} = inj_on (baddr V dn) {..<nb}" using b by (intro inj_on_cong) simp
  then show "bmapped V' fb' dn nb" using assms b by (fastforce simp: bmapped_def)
qed

lemma file_block_old:
  assumes ok: "img_ok s" "bmapped (blk s) (mk_freeblock s) dn nb" "fbn < nb"
  shows "file_block dn fbn s = Ret (baddr (blk s) dn fbn, dn) s"
proof -
  have fb: "mk_freeblock s \<le> 1000" using ok(1) by (simp add: img_ok_def FSSIZE_def)
  have a: "nmeta \<le> baddr (blk s) dn fbn" "baddr (blk s) dn fbn < mk_freeblock s"
    using ok by (auto simp: bmapped_def)
  show ?thesis
  proof (cases "fbn < NDIRECT")
    case True
    then show ?thesis using a fb by (simp add: file_block_def baddr_def layout)
  next
    case False
    then have "nmeta \<le> d_addrs dn ! NDIRECT" "d_addrs dn ! NDIRECT < mk_freeblock s"
      using ok by (auto simp: bmapped_def split: if_splits)
    then show ?thesis
      using False a fb rsect_ok [OF ok(1), of "d_addrs dn ! NDIRECT"]
      by (simp add: file_block_def baddr_def layout FSSIZE_def ubind_def)
  qed
qed

lemma next_block_ok:
  assumes "img_ok s" "mk_freeblock s < FSSIZE"
  shows "next_block s = Ret (mk_freeblock s) (s\<lparr>mk_freeblock := Suc (mk_freeblock s)\<rparr>)"
    "img_ok (s\<lparr>mk_freeblock := Suc (mk_freeblock s)\<rparr>)"
  using assms by (simp_all add: next_block_def FSSIZE_def img_ok_def useq_def ubind_def umod_def uget_def)

text \<open>The blk that growing a file by one block takes: its first indirect block costs another.\<close>

definition cost :: "nat \<Rightarrow> nat" where
  "cost nb = (if nb = NDIRECT then 2 else 1)"

lemma file_block_new:
  assumes ok: "img_ok s" and fb: "mk_freeblock s = fb" and m: "bmapped (blk s) fb dn nb" and nb: "nb < MAXFILE"
    and room: "fb + cost nb \<le> FSSIZE"
  shows "\<exists>s1 addrs x. file_block dn nb s = Ret (x, dn\<lparr>d_addrs := addrs\<rparr>) s1 \<and> img_ok s1 \<and> mk_freeblock s1 = fb + cost nb \<and>
    mk_freeinode s1 = mk_freeinode s \<and> bmapped (blk s1) (fb + cost nb) (dn\<lparr>d_addrs := addrs\<rparr>) (Suc nb) \<and>
    x = baddr (blk s1) (dn\<lparr>d_addrs := addrs\<rparr>) nb \<and>
    (\<forall>bn < nb. baddr (blk s1) (dn\<lparr>d_addrs := addrs\<rparr>) bn = baddr (blk s) dn bn) \<and>
    own_blocks (blk s1) (dn\<lparr>d_addrs := addrs\<rparr>) (Suc nb) \<subseteq> own_blocks (blk s) dn nb \<union> {fb..<fb + cost nb} \<and>
    (\<forall>b. (b < FSSIZE \<and> b \<notin> {fb..<fb + cost nb} \<and> (NDIRECT < nb \<longrightarrow> b \<noteq> d_addrs dn ! NDIRECT)) \<longrightarrow> blk s1 b = blk s b) \<and>
    blk s1 x = zeroes"
proof -
  let ?V = "blk s"
  have len: "length (d_addrs dn) = 13" using m by (simp add: bmapped_def NDIRECT_def)
  have fb0: "0 < fb" "fb < FSSIZE" using ok fb room by (auto simp: img_ok_def layout cost_def split: if_splits)
  have fbs: "fb < 1000" using fb0 by (simp add: FSSIZE_def)
  note nxt = next_block_ok [OF ok, unfolded fb, OF fb0(2)]
  have z0: "blk s b = zeroes" if "fb \<le> b" "b < FSSIZE" for b using ok fb that by (simp add: img_ok_def)
  have old: "\<forall>bn < nb. nmeta \<le> baddr ?V dn bn \<and> baddr ?V dn bn < fb" and inj: "inj_on (baddr ?V dn) {..<nb}"
    using m by (auto simp: bmapped_def)
  consider "nb < NDIRECT" | "nb = NDIRECT" | "NDIRECT < nb" by linarith
  then show ?thesis
  proof cases
    case 1
    define dn' where "dn' = dn\<lparr>d_addrs := (d_addrs dn)[nb := fb]\<rparr>"
    define s1 where "s1 = s\<lparr>mk_freeblock := Suc fb\<rparr>"
    have n12: "nb < 12" using 1 by (simp add: NDIRECT_def)
    have "d_addrs dn ! nb = 0" using m 1 by (auto simp: bmapped_def)
    then have run: "file_block dn nb s = Ret (fb, dn') s1"
      using 1 nxt(1) fbs by (simp add: file_block_def ubind_def dn'_def s1_def)
    have b: "baddr (blk s1) dn' bn = (if bn = nb then fb else baddr ?V dn bn)" if "bn \<le> nb" for bn
      using that n12 len by (simp add: baddr_def dn'_def s1_def NDIRECT_def)
    have "inj_on (baddr (blk s1) dn') {..<Suc nb}"
      using inj old b by (auto simp: inj_on_def less_Suc_eq_le le_less)
    moreover have "\<forall>bn < Suc nb. nmeta \<le> baddr (blk s1) dn' bn \<and> baddr (blk s1) dn' bn < Suc fb"
      using old b ok fb by (auto simp: less_Suc_eq_le img_ok_def le_less)
    moreover have "d_addrs dn' ! NDIRECT = 0" "\<forall>bn. Suc nb \<le> bn \<and> bn < NDIRECT \<longrightarrow> d_addrs dn' ! bn = 0"
      using m 1 by (auto simp: bmapped_def dn'_def)
    ultimately have "bmapped (blk s1) (Suc fb) dn' (Suc nb)"
      using len 1 nb by (simp add: bmapped_def dn'_def NDIRECT_def)
    moreover have "own_blocks (blk s1) dn' (Suc nb) \<subseteq> own_blocks ?V dn nb \<union> {fb..<Suc fb}"
      using b 1 by (auto simp: own_blocks_def less_Suc_eq_le)
    moreover have "fb + cost nb = Suc fb" using 1 by (simp add: cost_def)
    ultimately show ?thesis using run nxt(2) b z0 [of fb] fb0
      by (intro exI [of _ s1] exI [of _ "(d_addrs dn)[nb := fb]"] exI [of _ fb]) (auto simp: s1_def dn'_def)
  next
    case 2
    then have c: "fb + cost nb = Suc (Suc fb)" "Suc fb < FSSIZE" using room by (simp_all add: cost_def)
    define dn' where "dn' = dn\<lparr>d_addrs := (d_addrs dn)[NDIRECT := fb]\<rparr>"
    define t where "t = s\<lparr>mk_freeblock := Suc fb\<rparr>"
    define t' where "t' = s\<lparr>mk_freeblock := Suc (Suc fb)\<rparr>"
    define ind where "ind = put_word 0 (Suc fb) zeroes"
    define s1 where "s1 = put_block fb ind t'"
    have t: "img_ok t" "mk_freeblock t = Suc fb" using nxt(2) by (simp_all add: t_def)
    note nxt2 = next_block_ok [OF t(1), unfolded t(2), OF c(2)]
    have t': "img_ok t'" "t\<lparr>mk_freeblock := Suc (Suc fb)\<rparr> = t'" using nxt2(2) by (simp_all add: t_def t'_def)
    have li: "length ind = 512" "word_at ind 0 = Suc fb" "\<And>k. k \<noteq> 0 \<Longrightarrow> k < 128 \<Longrightarrow> word_at ind k = 0"
      using words.put_length [of zeroes 0 "Suc fb"] words.get_put [of zeroes 0 "Suc fb"] words.get_put_ne [of zeroes 0 _ "Suc fb"] fbs
      by (simp_all add: ind_def)
    have z: "blk t fb = zeroes" using ok fb fb0 by (simp add: img_ok_def t_def)
    have i0: "d_addrs dn ! NDIRECT = 0" using m 2 by (simp add: bmapped_def)
    have dn': "d_addrs dn' ! NDIRECT = fb" using len by (simp add: dn'_def NDIRECT_def)
    have run: "file_block dn nb s = Ret (Suc fb, dn') s1"
      using 2 i0 nxt(1) nxt2(1) rsect_ok [OF t(1) fb0(2)] wsect_ok [OF t'(1) fb0(2), of ind] z dn' li fbs c(2)
      by (simp add: file_block_def ubind_def useq_def t_def [symmetric] t'(2) dn'_def [symmetric] ind_def [symmetric] s1_def Let_def FSSIZE_def)
    have V1: "blk s1 x = (if x = fb then ind else ?V x)" for x
      using t'(1) fb0 by (simp add: s1_def blk_put img_ok_def) (simp add: t'_def)
    have b: "baddr (blk s1) dn' bn = (if bn = nb then Suc fb else baddr ?V dn bn)" if "bn \<le> nb" for bn
      using that 2 li dn' V1 by (auto simp: baddr_def dn'_def)
    have "inj_on (baddr (blk s1) dn') {..<Suc nb}"
      using inj old b by (auto simp: inj_on_def less_Suc_eq_le le_less)
    moreover have "\<forall>bn < Suc nb. nmeta \<le> baddr (blk s1) dn' bn \<and> baddr (blk s1) dn' bn < Suc (Suc fb)"
      using old b ok fb by (auto simp: less_Suc_eq_le img_ok_def le_less)
    moreover have "\<forall>bn < Suc nb. baddr (blk s1) dn' bn \<noteq> fb" using old b by (auto simp: less_Suc_eq_le le_less)
    moreover have "\<forall>bn. Suc nb \<le> bn \<and> bn < MAXFILE \<longrightarrow> word_at (blk s1 fb) (bn - NDIRECT) = 0"
      using 2 li V1 by (auto simp: MAXFILE_def NINDIRECT_def BSIZE_def)
    ultimately have "bmapped (blk s1) (Suc (Suc fb)) dn' (Suc nb)"
      using len 2 nb dn' ok fb by (simp add: bmapped_def img_ok_def) (simp add: dn'_def NDIRECT_def)
    moreover have "own_blocks (blk s1) dn' (Suc nb) \<subseteq> own_blocks ?V dn nb \<union> {fb..<Suc (Suc fb)}"
      using b 2 dn' by (auto simp: own_blocks_def less_Suc_eq_le)
    moreover have "img_ok s1" using t'(1) li unfolding s1_def by (intro put_block_ok) (simp_all add: t'_def)
    moreover have "mk_freeblock s1 = Suc (Suc fb)" "mk_freeinode s1 = mk_freeinode s" by (simp_all add: s1_def t'_def)
    ultimately show ?thesis using run b c V1 2 z0 [of "Suc fb"]
      by (intro exI [of _ s1] exI [of _ "(d_addrs dn)[NDIRECT := fb]"] exI [of _ "Suc fb"]) (auto simp: dn'_def)
  next
    case 3
    let ?ind = "d_addrs dn ! NDIRECT" let ?k = "nb - NDIRECT"
    have c: "fb + cost nb = Suc fb" using 3 by (simp add: cost_def)
    have i: "nmeta \<le> ?ind" "?ind < fb" "word_at (?V ?ind) ?k = 0" "\<forall>bn < nb. baddr ?V dn bn \<noteq> ?ind"
      using m 3 nb by (auto simp: bmapped_def)
    have k: "?k < 128" using nb 3 by (simp add: MAXFILE_def NINDIRECT_def BSIZE_def NDIRECT_def)
    define t where "t = s\<lparr>mk_freeblock := Suc fb\<rparr>"
    define ind where "ind = put_word ?k fb (?V ?ind)"
    define s1 where "s1 = put_block ?ind ind t"
    have t: "img_ok t" using nxt(2) by (simp add: t_def)
    have iF: "?ind < FSSIZE" using i fb0 by simp
    have lV: "length (?V ?ind) = 512" using img_block [OF ok iF] .
    have li: "length ind = 512" "word_at ind ?k = fb" "\<And>j. j \<noteq> ?k \<Longrightarrow> j < 128 \<Longrightarrow> word_at ind j = word_at (?V ?ind) j"
      using words.put_length [OF lV k, of fb] words.get_put [OF lV k, of fb] words.get_put_ne [OF lV k, of _ fb] fbs
      by (simp_all add: ind_def)
    have run: "file_block dn nb s = Ret (fb, dn) s1"
      using 3 i nxt(1) rsect_ok [OF ok iF] wsect_ok [OF t iF, of ind] li fbs
      by (simp add: file_block_def ubind_def useq_def t_def [symmetric] ind_def [symmetric] s1_def Let_def layout)
    have V1: "blk s1 x = (if x = ?ind then ind else ?V x)" for x
      using t iF by (simp add: s1_def blk_put img_ok_def) (simp add: t_def)
    have b: "baddr (blk s1) dn bn = (if bn = nb then fb else baddr ?V dn bn)" if "bn \<le> nb" for bn
      using that 3 li V1 nb by (auto simp: baddr_def MAXFILE_def NINDIRECT_def BSIZE_def)
    have "inj_on (baddr (blk s1) dn) {..<Suc nb}"
      using inj old b by (auto simp: inj_on_def less_Suc_eq_le le_less)
    moreover have "\<forall>bn < Suc nb. nmeta \<le> baddr (blk s1) dn bn \<and> baddr (blk s1) dn bn < Suc fb"
      using old b ok fb by (auto simp: less_Suc_eq_le img_ok_def le_less)
    moreover have "\<forall>bn < Suc nb. baddr (blk s1) dn bn \<noteq> ?ind" using i b by (auto simp: less_Suc_eq_le le_less)
    moreover have "\<forall>bn. Suc nb \<le> bn \<and> bn < MAXFILE \<longrightarrow> word_at (blk s1 ?ind) (bn - NDIRECT) = 0"
      using 3 li V1 m by (auto simp: MAXFILE_def NINDIRECT_def BSIZE_def bmapped_def)
    ultimately have "bmapped (blk s1) (Suc fb) dn (Suc nb)"
      using len 3 nb i by (simp add: bmapped_def) (simp add: NDIRECT_def)
    moreover have "own_blocks (blk s1) dn (Suc nb) \<subseteq> own_blocks ?V dn nb \<union> {fb..<Suc fb}"
      using b 3 by (auto simp: own_blocks_def less_Suc_eq_le)
    moreover have "img_ok s1" using t li i unfolding s1_def by (intro put_block_ok) (simp_all add: t_def)
    moreover have "mk_freeblock s1 = Suc fb" "mk_freeinode s1 = mk_freeinode s" by (simp_all add: s1_def t_def)
    ultimately show ?thesis using run b c V1 3 z0 [of fb] fb0 i(2)
      by (intro exI [of _ s1] exI [of _ "d_addrs dn"] exI [of _ fb]) auto
  qed
qed

section \<open>Appending\<close>

definition nblk :: "nat \<Rightarrow> nat" where
  "nblk n = (n + 511) div 512"

text \<open>The blocks a file of \<open>n\<close> bytes takes.\<close>

definition need :: "nat \<Rightarrow> nat" where
  "need n = nblk n + (if NDIRECT < nblk n then 1 else 0)"

text \<open>An inode in the making with the content \<open>bs\<close>; the rest of its last block is zero.\<close>

definition padded :: "u8 list \<Rightarrow> nat \<Rightarrow> u8" where
  "padded bs r = (if r < length bs then bs ! r else 0)"

definition holds :: "(nat \<Rightarrow> block) \<Rightarrow> nat \<Rightarrow> dinode \<Rightarrow> u8 list \<Rightarrow> bool" where
  "holds V fb dn bs \<longleftrightarrow> bmapped V fb dn (nblk (length bs)) \<and> (\<forall>r < nblk (length bs) * 512. file_byte V dn r = padded bs r)"

lemma nblk_bounds: "r < n \<Longrightarrow> r div 512 < nblk n" "nblk n \<le> k \<longleftrightarrow> n \<le> k * 512"
  unfolding nblk_def by (auto simp: div_less_iff_less_mult less_Suc_eq_le)

lemma nblk_block: "0 < t \<Longrightarrow> t \<le> 512 \<Longrightarrow> nblk (b * 512 + t) = Suc b" "nblk (b * 512) = b"
proof -
  show "nblk (b * 512 + t) = Suc b" if "0 < t" "t \<le> 512" unfolding nblk_def using that by (intro div_nat_eqI) simp_all
  show "nblk (b * 512) = b" unfolding nblk_def by (intro div_nat_eqI) simp_all
qed

lemma nblk_step:
  assumes "0 < m" "off mod 512 + m \<le> 512"
  shows "nblk (off + m) = Suc (off div 512)" "nblk off = (if off mod 512 = 0 then off div 512 else Suc (off div 512))"
    "need (off + m) = need off + (if off mod 512 = 0 then cost (off div 512) else 0)"
proof -
  have e: "off = off div 512 * 512 + off mod 512" by simp
  have "off + m = off div 512 * 512 + (off mod 512 + m)" by simp
  then show 1: "nblk (off + m) = Suc (off div 512)" using nblk_block(1) [of "off mod 512 + m" "off div 512"] assms by (metis add_pos_nonneg add.commute zero_le)
  show 2: "nblk off = (if off mod 512 = 0 then off div 512 else Suc (off div 512))"
    using nblk_block(2) [of "off div 512"] nblk_block(1) [of "off mod 512" "off div 512"] e
    by (metis add_0_right gr0I less_or_eq_imp_le mod_less_divisor zero_less_numeral)
  show "need (off + m) = need off + (if off mod 512 = 0 then cost (off div 512) else 0)"
    using 1 2 by (auto simp: need_def cost_def)
qed

lemma write_half:
  assumes ok: "img_ok s" and m: "bmapped (blk s) (mk_freeblock s) dn nb" and q: "q \<noteq> []" "length bs mod 512 + length q \<le> 512"
    and nb: "nb = nblk (length bs + length q)" and old: "\<forall>r < nb * 512. file_byte (blk s) dn r = padded bs r"
  defines "x \<equiv> baddr (blk s) dn (length bs div 512)"
  defines "s' \<equiv> put_block x (put_bytes (length bs mod 512) q (blk s x)) s"
  shows "x < FSSIZE" "img_ok s'" "holds (blk s') (mk_freeblock s) dn (bs @ q)"
    "own_blocks (blk s') dn nb = own_blocks (blk s) dn nb" "x \<in> own_blocks (blk s) dn nb"
proof -
  let ?off = "length bs" let ?b = "length bs div 512"
  have fbn: "?b < nb" using nblk_bounds(1) [of ?off "?off + length q"] q nb by simp
  have x: "x < mk_freeblock s" using m fbn by (auto simp: bmapped_def x_def)
  then show xF: "x < FSSIZE" using ok by (simp add: img_ok_def)
  show "x \<in> own_blocks (blk s) dn nb" using fbn by (auto simp: own_blocks_def x_def)
  have lx: "length (blk s x) = 512" by (rule img_block [OF ok xF])
  have lp: "length (put_bytes (?off mod 512) q (blk s x)) = 512" using lx q by simp
  show "img_ok s'" unfolding s'_def by (rule put_block_ok [OF ok x lp])
  have V: "blk s' c = (if c = x then put_bytes (?off mod 512) q (blk s x) else blk s c)" for c
    using ok xF by (simp add: s'_def blk_put img_ok_def)
  have ind: "NDIRECT < nb \<longrightarrow> blk s' (d_addrs dn ! NDIRECT) = blk s (d_addrs dn ! NDIRECT)"
    using m fbn by (auto simp: bmapped_def V x_def)
  note c = bmapped_cong [where V' = "blk s'", OF m ind order_refl]
  show "own_blocks (blk s') dn nb = own_blocks (blk s) dn nb" by (rule c(2))
  have nb1: "nb = Suc ?b" using nblk_step(1) [of "length q" ?off] q nb by simp
  have "file_byte (blk s') dn r = padded (bs @ q) r" if r: "r < nb * 512" for r
  proof -
    have rb: "r div 512 < nb" using r by (simp add: div_less_iff_less_mult)
    have f: "file_byte (blk s') dn r = blk s' (baddr (blk s) dn (r div 512)) ! (r mod 512)"
      using c(3) [OF rb] by (simp add: file_byte_def BSIZE_def)
    show ?thesis
    proof (cases "r div 512 = ?b")
      case True
      have m512: "r mod 512 < 512" by simp
      have e: "r = ?b * 512 + r mod 512" "?off = ?b * 512 + ?off mod 512" using True by (metis div_mult_mod_eq)+
      have "file_byte (blk s') dn r = put_bytes (?off mod 512) q (blk s x) ! (r mod 512)"
        using f True by (simp add: V x_def)
      also have "\<dots> = (if ?off mod 512 \<le> r mod 512 \<and> r mod 512 < ?off mod 512 + length q then q ! (r mod 512 - ?off mod 512)
          else blk s x ! (r mod 512))"
        using q lx m512 by (subst put_bytes_nth) auto
      also have "\<dots> = padded (bs @ q) r"
      proof (cases "?off \<le> r \<and> r < ?off + length q")
        case le: True
        then have "?off mod 512 \<le> r mod 512" "r mod 512 - ?off mod 512 = r - ?off" "r mod 512 < ?off mod 512 + length q" using e by linarith+
        then show ?thesis using le by (simp add: padded_def nth_append)
      next
        case False
        then have "\<not> (?off mod 512 \<le> r mod 512 \<and> r mod 512 < ?off mod 512 + length q)" using e by linarith
        moreover have "file_byte (blk s) dn r = blk s x ! (r mod 512)"
          using True by (simp add: file_byte_def BSIZE_def x_def)
        ultimately show ?thesis using old r False by (auto simp: padded_def nth_append)
      qed
      finally show ?thesis .
    next
      case False
      then have "r div 512 < ?b" using rb nb1 by simp
      then have "r < ?off" by (metis div_le_mono leD leI)
      moreover have "baddr (blk s) dn (r div 512) \<noteq> x"
        using m rb fbn False unfolding bmapped_def x_def inj_on_def by blast
      ultimately show ?thesis using f old r by (simp add: V padded_def nth_append file_byte_def BSIZE_def)
    qed
  qed
  then show "holds (blk s') (mk_freeblock s) dn (bs @ q)" using c(1) nb by (simp add: holds_def)
qed

text \<open>What changes when an inode in the making grows.\<close>

definition grown :: "mkimg \<Rightarrow> dinode \<Rightarrow> nat \<Rightarrow> mkimg \<Rightarrow> dinode \<Rightarrow> nat \<Rightarrow> bool" where
  "grown s dn nb s' dn' nb' \<longleftrightarrow> img_ok s' \<and> mk_freeinode s' = mk_freeinode s \<and> mk_freeblock s \<le> mk_freeblock s' \<and>
    own_blocks (blk s') dn' nb' \<subseteq> own_blocks (blk s) dn nb \<union> {mk_freeblock s..<mk_freeblock s'} \<and>
    (\<forall>b < FSSIZE. b \<notin> own_blocks (blk s) dn nb \<union> {mk_freeblock s..<mk_freeblock s'} \<longrightarrow> blk s' b = blk s b)"

lemma grown_refl: "img_ok s \<Longrightarrow> grown s dn nb s dn nb"
  by (simp add: grown_def)

lemma grown_trans:
  assumes "grown s dn nb s1 dn1 nb1" "grown s1 dn1 nb1 s2 dn2 nb2"
  shows "grown s dn nb s2 dn2 nb2"
proof -
  have "own_blocks (blk s1) dn1 nb1 \<union> {mk_freeblock s1..<mk_freeblock s2} \<subseteq> own_blocks (blk s) dn nb \<union> {mk_freeblock s..<mk_freeblock s2}"
    using assms by (fastforce simp: grown_def)
  then show ?thesis using assms unfolding grown_def by (fastforce simp: subset_iff)
qed

lemma piece_step:
  assumes ok: "img_ok s" and h: "holds (blk s) (mk_freeblock s) dn bs" and q: "q \<noteq> []" "length bs mod 512 + length q \<le> 512"
    and max: "length bs + length q \<le> MAXFILE * BSIZE"
    and room: "mk_freeblock s + (need (length bs + length q) - need (length bs)) \<le> FSSIZE"
  shows "\<exists>s' addrs. append_pieces dn (q @ p) ((length bs, length q) # ps) s = append_pieces (dn\<lparr>d_addrs := addrs\<rparr>) p ps s' \<and>
    holds (blk s') (mk_freeblock s') (dn\<lparr>d_addrs := addrs\<rparr>) (bs @ q) \<and>
    mk_freeblock s' = mk_freeblock s + (need (length bs + length q) - need (length bs)) \<and>
    grown s dn (nblk (length bs)) s' (dn\<lparr>d_addrs := addrs\<rparr>) (nblk (length bs + length q))"
proof -
  let ?off = "length bs" let ?b = "length bs div 512" let ?fb = "mk_freeblock s"
  have n: "0 < length q" using q by simp
  note st = nblk_step [OF n q(2)]
  have "?off < MAXFILE * BSIZE" using max n by linarith
  then have bmax: "?b < MAXFILE" by (simp add: MAXFILE_def NINDIRECT_def NDIRECT_def BSIZE_def div_less_iff_less_mult)
  have m: "bmapped (blk s) ?fb dn (nblk ?off)" and c: "\<forall>r < nblk ?off * 512. file_byte (blk s) dn r = padded bs r"
    using h by (simp_all add: holds_def)
  have "\<exists>s1 addrs x. file_block dn ?b s = Ret (x, dn\<lparr>d_addrs := addrs\<rparr>) s1 \<and> x = baddr (blk s1) (dn\<lparr>d_addrs := addrs\<rparr>) ?b \<and>
      img_ok s1 \<and> mk_freeblock s1 = ?fb + (need (?off + length q) - need ?off) \<and>
      bmapped (blk s1) (mk_freeblock s1) (dn\<lparr>d_addrs := addrs\<rparr>) (Suc ?b) \<and>
      (\<forall>r < Suc ?b * 512. file_byte (blk s1) (dn\<lparr>d_addrs := addrs\<rparr>) r = padded bs r) \<and>
      grown s dn (nblk ?off) s1 (dn\<lparr>d_addrs := addrs\<rparr>) (Suc ?b)"
  proof (cases "?off mod 512 = 0")
    case False
    then have nb: "nblk ?off = Suc ?b" "need (?off + length q) = need ?off" using st by simp_all
    have dn: "dn\<lparr>d_addrs := d_addrs dn\<rparr> = dn" by simp
    show ?thesis
      using file_block_old [OF ok m, of ?b] nb m c ok grown_refl [OF ok, of dn "Suc ?b"]
      by (intro exI [of _ s] exI [of _ "d_addrs dn"] exI [of _ "baddr (blk s) dn ?b"]) simp
  next
    case True
    then have nb: "nblk ?off = ?b" "need (?off + length q) - need ?off = cost ?b" using st by simp_all
    have room': "?fb + cost ?b \<le> FSSIZE" using room nb by simp
    obtain s1 addrs x where f: "file_block dn ?b s = Ret (x, dn\<lparr>d_addrs := addrs\<rparr>) s1" "img_ok s1" "mk_freeblock s1 = ?fb + cost ?b"
      "mk_freeinode s1 = mk_freeinode s" "bmapped (blk s1) (?fb + cost ?b) (dn\<lparr>d_addrs := addrs\<rparr>) (Suc ?b)"
      "x = baddr (blk s1) (dn\<lparr>d_addrs := addrs\<rparr>) ?b"
      "\<forall>bn < ?b. baddr (blk s1) (dn\<lparr>d_addrs := addrs\<rparr>) bn = baddr (blk s) dn bn"
      "own_blocks (blk s1) (dn\<lparr>d_addrs := addrs\<rparr>) (Suc ?b) \<subseteq> own_blocks (blk s) dn ?b \<union> {?fb..<?fb + cost ?b}"
      "\<forall>b. (b < FSSIZE \<and> b \<notin> {?fb..<?fb + cost ?b} \<and> (NDIRECT < ?b \<longrightarrow> b \<noteq> d_addrs dn ! NDIRECT)) \<longrightarrow> blk s1 b = blk s b"
      "blk s1 x = zeroes"
      using file_block_new [OF ok refl m [unfolded nb(1)] bmax room'] by blast
    have new: "file_byte (blk s1) (dn\<lparr>d_addrs := addrs\<rparr>) r = padded bs r" if r: "r div 512 = ?b" for r
    proof -
      have "r = ?b * 512 + r mod 512" "?off = ?b * 512" using r True by (metis div_mult_mod_eq add_0_right)+
      then have "?off \<le> r" by simp
      then show ?thesis using f(6,10) r by (simp add: file_byte_def BSIZE_def padded_def zeroes_def)
    qed
    have old: "file_byte (blk s1) (dn\<lparr>d_addrs := addrs\<rparr>) r = padded bs r" if rb: "r div 512 < ?b" for r
    proof -
      have r: "r < nblk ?off * 512" using rb nb(1) by (simp add: div_less_iff_less_mult)
      have a: "nmeta \<le> baddr (blk s) dn (r div 512)" "baddr (blk s) dn (r div 512) < ?fb"
        "NDIRECT < ?b \<longrightarrow> baddr (blk s) dn (r div 512) \<noteq> d_addrs dn ! NDIRECT"
        using m rb nb by (auto simp: bmapped_def)
      moreover have "?fb \<le> FSSIZE" using ok by (simp add: img_ok_def)
      ultimately have "blk s1 (baddr (blk s) dn (r div 512)) = blk s (baddr (blk s) dn (r div 512))"
        using f(9) by simp
      then show ?thesis using f(7) rb c r by (simp add: file_byte_def BSIZE_def)
    qed
    have "\<forall>r < Suc ?b * 512. file_byte (blk s1) (dn\<lparr>d_addrs := addrs\<rparr>) r = padded bs r"
    proof (intro allI impI)
      fix r assume "r < Suc ?b * 512"
      then have "r div 512 < Suc ?b" using less_mult_imp_div_less by blast
      then show "file_byte (blk s1) (dn\<lparr>d_addrs := addrs\<rparr>) r = padded bs r" using old new less_Suc_eq by blast
    qed
    moreover have "grown s dn ?b s1 (dn\<lparr>d_addrs := addrs\<rparr>) (Suc ?b)"
      using f by (simp add: grown_def own_blocks_def)
    ultimately show ?thesis using f nb by (intro exI [of _ s1] exI [of _ addrs] exI [of _ x]) simp
  qed
  then obtain s1 addrs x where f: "file_block dn ?b s = Ret (x, dn\<lparr>d_addrs := addrs\<rparr>) s1" "x = baddr (blk s1) (dn\<lparr>d_addrs := addrs\<rparr>) ?b"
      "img_ok s1" "mk_freeblock s1 = ?fb + (need (?off + length q) - need ?off)"
      "bmapped (blk s1) (mk_freeblock s1) (dn\<lparr>d_addrs := addrs\<rparr>) (Suc ?b)"
      "\<forall>r < Suc ?b * 512. file_byte (blk s1) (dn\<lparr>d_addrs := addrs\<rparr>) r = padded bs r"
      "grown s dn (nblk ?off) s1 (dn\<lparr>d_addrs := addrs\<rparr>) (Suc ?b)" by blast
  let ?dn = "dn\<lparr>d_addrs := addrs\<rparr>"
  define s' where "s' = put_block x (put_bytes (?off mod 512) q (blk s1 x)) s1"
  note w = write_half [OF f(3,5) q st(1) [symmetric] f(6), folded f(2), folded s'_def]
  have o: "?off - ?off div 512 * 512 = ?off mod 512" by (simp add: minus_div_mult_eq_mod)
  have run: "append_pieces dn (q @ p) ((?off, length q) # ps) s = append_pieces ?dn p ps s'"
    using bmax f(1) rsect_ok [OF f(3) w(1)] wsect_ok [OF f(3) w(1), of "put_bytes (?off mod 512) q (blk s1 x)"] o
    by (simp add: ubind_def useq_def BSIZE_def Let_def s'_def uassert_def)
  have "grown s1 ?dn (Suc ?b) s' ?dn (Suc ?b)"
  proof -
    have fields: "mk_freeinode s' = mk_freeinode s1" "mk_freeblock s' = mk_freeblock s1" by (simp_all add: s'_def)
    have "x < length (mk_img s1)" using w(1) f(3) by (simp add: img_ok_def)
    then have other: "blk s' b = blk s1 b" if "b \<noteq> x" for b using that by (simp add: s'_def blk_put)
    have "\<forall>b < FSSIZE. b \<notin> own_blocks (blk s1) ?dn (Suc ?b) \<union> {mk_freeblock s1..<mk_freeblock s'} \<longrightarrow> blk s' b = blk s1 b"
    proof (intro allI impI)
      fix b assume "b \<notin> own_blocks (blk s1) ?dn (Suc ?b) \<union> {mk_freeblock s1..<mk_freeblock s'}"
      then have "b \<noteq> x" using w(5) by auto
      then show "blk s' b = blk s1 b" by (rule other)
    qed
    moreover have "mk_freeblock s1 \<le> mk_freeblock s'" using fields by simp
    ultimately show ?thesis unfolding grown_def using w(2,4) fields(1) by blast
  qed
  then have "grown s dn (nblk ?off) s' ?dn (nblk (?off + length q))" using grown_trans f(7) st(1) by simp
  then show ?thesis using run w(3) f(4) st(1)
    by (intro exI [of _ s'] exI [of _ addrs]) (simp add: s'_def)
qed

lemma need_mono: "a \<le> b \<Longrightarrow> need a \<le> need b"
  using div_le_mono [of "a + 511" "b + 511" 512] by (auto simp: need_def nblk_def)

lemma append_run:
  assumes "img_ok s" "holds (blk s) (mk_freeblock s) dn bs" "length bs + length p \<le> MAXFILE * BSIZE"
    "mk_freeblock s + (need (length bs + length p) - need (length bs)) \<le> FSSIZE"
  shows "\<exists>s' addrs. append_pieces dn p (pieces (length bs) (length p)) s = Ret (dn\<lparr>d_addrs := addrs\<rparr>) s' \<and>
    holds (blk s') (mk_freeblock s') (dn\<lparr>d_addrs := addrs\<rparr>) (bs @ p) \<and>
    mk_freeblock s' = mk_freeblock s + (need (length bs + length p) - need (length bs)) \<and>
    grown s dn (nblk (length bs)) s' (dn\<lparr>d_addrs := addrs\<rparr>) (nblk (length bs + length p))"
  using assms
proof (induction "length p" arbitrary: p bs s dn rule: less_induct)
  case less
  let ?off = "length bs"
  show ?case
  proof (cases "p = []")
    case True
    then show ?thesis using less.prems grown_refl by (intro exI [of _ s] exI [of _ "d_addrs dn"]) (simp add: pieces.simps)
  next
    case False
    define m where "m = min (length p) (512 - ?off mod 512)"
    define q p' where "q = take m p" and "p' = drop m p"
    have k: "0 < 512 - ?off mod 512" "?off mod 512 + (512 - ?off mod 512) = 512" using mod_less_divisor [of 512 ?off] by linarith+
    then have m: "0 < m" "m \<le> length p" "?off mod 512 + m \<le> 512" using False by (simp_all add: m_def)
    have q: "q \<noteq> []" "length q = m" "p = q @ p'" "length p' < length p" "length p = m + length p'"
      using m by (auto simp: q_def p'_def)
    have pc: "pieces ?off (length p) = (?off, length q) # pieces (?off + m) (length p')"
      unfolding pieces.simps [of ?off "length p"] BSIZE_def Let_def m_def [symmetric] using False q(2) by (simp add: p'_def)
    have total: "?off + m + length p' = ?off + length p" using q by simp
    have nm: "need ?off \<le> need (?off + m)" "need (?off + m) \<le> need (?off + length p)" using q by (intro need_mono; simp)+
    obtain s1 addrs where s1: "append_pieces dn (q @ p') ((?off, length q) # pieces (?off + m) (length p')) s =
        append_pieces (dn\<lparr>d_addrs := addrs\<rparr>) p' (pieces (?off + m) (length p')) s1"
      "holds (blk s1) (mk_freeblock s1) (dn\<lparr>d_addrs := addrs\<rparr>) (bs @ q)"
      "mk_freeblock s1 = mk_freeblock s + (need (?off + m) - need ?off)"
      "grown s dn (nblk ?off) s1 (dn\<lparr>d_addrs := addrs\<rparr>) (nblk (?off + m))"
    proof -
      have a: "?off mod 512 + length q \<le> 512" "?off + length q \<le> MAXFILE * BSIZE"
        "mk_freeblock s + (need (?off + length q) - need ?off) \<le> FSSIZE"
        using less.prems(3,4) nm m q(2) total by simp_all
      show ?thesis using that piece_step [OF less.prems(1,2) q(1) a, of p' "pieces (?off + m) (length p')"] unfolding q(2) by blast
    qed
    have lens: "length (bs @ q) = ?off + m" "?off + m + length p' = ?off + length p" using q by simp_all
    have "img_ok s1" using s1(4) by (simp add: grown_def)
    moreover have "length (bs @ q) + length p' \<le> MAXFILE * BSIZE" using less.prems(3) q by simp
    moreover have "mk_freeblock s1 + (need (length (bs @ q) + length p') - need (length (bs @ q))) \<le> FSSIZE"
      unfolding lens s1(3) using less.prems(4) nm by linarith
    ultimately obtain s2 addrs2 where s2: "append_pieces (dn\<lparr>d_addrs := addrs\<rparr>) p' (pieces (length (bs @ q)) (length p')) s1 =
        Ret (dn\<lparr>d_addrs := addrs, d_addrs := addrs2\<rparr>) s2"
      "holds (blk s2) (mk_freeblock s2) (dn\<lparr>d_addrs := addrs, d_addrs := addrs2\<rparr>) ((bs @ q) @ p')"
      "mk_freeblock s2 = mk_freeblock s1 + (need (length (bs @ q) + length p') - need (length (bs @ q)))"
      "grown s1 (dn\<lparr>d_addrs := addrs\<rparr>) (nblk (length (bs @ q))) s2 (dn\<lparr>d_addrs := addrs, d_addrs := addrs2\<rparr>) (nblk (length (bs @ q) + length p'))"
      using less.hyps [OF q(4) _ s1(2)] by blast
    have "append_pieces dn p (pieces ?off (length p)) s = Ret (dn\<lparr>d_addrs := addrs2\<rparr>) s2"
      unfolding pc using s1(1) s2(1) q by simp
    moreover have "grown s dn (nblk ?off) s2 (dn\<lparr>d_addrs := addrs2\<rparr>) (nblk (?off + length p))"
      using grown_trans [OF s1(4) s2(4) [unfolded lens]] by simp
    moreover have "mk_freeblock s2 = mk_freeblock s + (need (?off + length p) - need ?off)"
      using s2(3) nm unfolding lens s1(3) by linarith
    ultimately show ?thesis using s2(2) q by (intro exI [of _ s2] exI [of _ addrs2]) simp
  qed
qed

section \<open>Inodes in the image\<close>

definition inode_at :: "mkimg \<Rightarrow> nat \<Rightarrow> dinode" where
  "inode_at s i = get_dinode (blk s (IBLOCK i mk_sb)) (i mod IPB)"

lemma rinode_ok: "img_ok s \<Longrightarrow> i < 200 \<Longrightarrow> rinode i s = Ret (inode_at s i) s"
  using rsect_ok [of s "i div 8 + 32"] by (simp add: rinode_def Let_def inode_at_def IBLOCK_mk FSSIZE_def ubind_def)

lemma winode_ok:
  assumes ok: "img_ok s" and i: "i < 200" and dn: "dinode_ok dn"
  shows "\<exists>s'. winode i dn s = Ret () s' \<and> img_ok s' \<and> mk_freeblock s' = mk_freeblock s \<and> mk_freeinode s' = mk_freeinode s \<and>
    inode_at s' i = dn \<and> (\<forall>j < 200. j \<noteq> i \<longrightarrow> inode_at s' j = inode_at s j) \<and> (\<forall>b. b < 32 \<or> 57 < b \<longrightarrow> blk s' b = blk s b)"
proof -
  let ?b = "i div 8 + 32" let ?x = "put_dinode (i mod 8) dn (blk s ?b)"
  have b: "?b < FSSIZE" "?b < mk_freeblock s" "?b \<le> 57" using i ok by (auto simp: FSSIZE_def img_ok_def layout)
  have l: "length (blk s ?b) = 512" "i mod 8 < 8" using img_block [OF ok b(1)] by simp_all
  define s' where "s' = put_block ?b ?x s"
  have V: "blk s' c = (if c = ?b then ?x else blk s c)" for c
    using ok b(1) by (simp add: s'_def blk_put img_ok_def)
  have "winode i dn s = Ret () s'"
    using i rsect_ok [OF ok b(1)] wsect_ok [OF ok b(1), of ?x] by (simp add: winode_def Let_def IBLOCK_mk ubind_def s'_def IPB_def BSIZE_def)
  moreover have "img_ok s'" unfolding s'_def using dinodes.put_length [OF l, of dn] by (intro put_block_ok [OF ok b(2)])
  moreover have "inode_at s' i = dn" using i dinodes.get_put [OF l dn] by (simp add: inode_at_def IBLOCK_mk V IPB_def BSIZE_def)
  moreover have "inode_at s' j = inode_at s j" if "j < 200" "j \<noteq> i" for j
  proof (cases "j div 8 = i div 8")
    case True
    then have "j mod 8 \<noteq> i mod 8" using that(2) by (metis div_mult_mod_eq)
    then show ?thesis using that True dinodes.get_put_ne [OF l, of "j mod 8" dn]
      by (simp add: inode_at_def IBLOCK_mk V IPB_def BSIZE_def)
  next
    case False
    then show ?thesis using that by (simp add: inode_at_def IBLOCK_mk V)
  qed
  ultimately show ?thesis using V b(3) by (intro exI [of _ s']) (auto simp: s'_def)
qed

section \<open>The tree of files\<close>

text \<open>
  The image after some files were made: inode \<open>i + 1\<close> is a file of the type and the content of entry \<open>i\<close> of
  the list, no two files share a block, and the blocks given out are those the files take.
\<close>

definition sb_block :: block where
  "sb_block = put_bytes 0 (sb_bytes mk_sb) zeroes"

definition own_of :: "mkimg \<Rightarrow> (int \<times> u8 list) list \<Rightarrow> nat \<Rightarrow> nat set" where
  "own_of s L i = own_blocks (blk s) (inode_at s (Suc i)) (nblk (length (snd (L ! i))))"

definition file_at :: "mkimg \<Rightarrow> nat \<Rightarrow> int \<times> u8 list \<Rightarrow> bool" where
  "file_at s i f \<longleftrightarrow> (let dn = inode_at s i in d_type dn = fst f \<and> d_nlink dn = 1 \<and> d_size dn = length (snd f) \<and>
     dinode_ok dn \<and> holds (blk s) (mk_freeblock s) dn (snd f))"

definition taken :: "(int \<times> u8 list) list \<Rightarrow> nat" where
  "taken L = sum_list (map (\<lambda>f. need (length (snd f))) L)"

definition tree :: "mkimg \<Rightarrow> (int \<times> u8 list) list \<Rightarrow> bool" where
  "tree s L \<longleftrightarrow> img_ok s \<and> mk_freeinode s = Suc (length L) \<and> length L < 200 \<and> blk s 1 = sb_block \<and>
    mk_freeblock s = nmeta + taken L \<and> (\<forall>i < length L. file_at s (Suc i) (L ! i)) \<and>
    (\<forall>i < length L. \<forall>j < length L. i \<noteq> j \<longrightarrow> own_of s L i \<inter> own_of s L j = {})"

lemma own_same:
  assumes "bmapped V fb dn nb" "\<forall>b \<in> own_blocks V dn nb. V' b = V b"
  shows "own_blocks V' dn nb = own_blocks V dn nb"
proof -
  have "NDIRECT < nb \<longrightarrow> V' (d_addrs dn ! NDIRECT) = V (d_addrs dn ! NDIRECT)" using assms(2) by (simp add: own_blocks_def)
  then show ?thesis using bmapped_cong(2) [OF assms(1) _ order_refl] by blast
qed

lemma holds_same:
  assumes h: "holds V fb dn bs" and eq: "\<forall>b \<in> own_blocks V dn (nblk (length bs)). V' b = V b" and le: "fb \<le> fb'"
  shows "holds V' fb' dn bs"
proof -
  have m: "bmapped V fb dn (nblk (length bs))" using h by (simp add: holds_def)
  have ind: "NDIRECT < nblk (length bs) \<longrightarrow> V' (d_addrs dn ! NDIRECT) = V (d_addrs dn ! NDIRECT)"
    using eq by (simp add: own_blocks_def)
  note c = bmapped_cong [where V' = V', OF m ind le]
  have "file_byte V' dn r = padded bs r" if r: "r < nblk (length bs) * 512" for r
  proof -
    have rb: "r div 512 < nblk (length bs)" using r less_mult_imp_div_less by blast
    then have "baddr V dn (r div 512) \<in> own_blocks V dn (nblk (length bs))" by (auto simp: own_blocks_def)
    then have "file_byte V' dn r = file_byte V dn r" using eq c(3) [OF rb] by (simp add: file_byte_def BSIZE_def)
    then show ?thesis using h r by (simp add: holds_def)
  qed
  then show ?thesis using c(1) by (simp add: holds_def)
qed

lemma baddr_size: "baddr V (dn\<lparr>d_size := n\<rparr>) = baddr V dn"
  by (rule ext) (simp add: baddr_def)

lemma holds_size: "holds V fb (dn\<lparr>d_size := n\<rparr>) bs = holds V fb dn bs"
  "own_blocks V (dn\<lparr>d_size := n\<rparr>) nb = own_blocks V dn nb"
  by (simp_all add: holds_def bmapped_def own_blocks_def baddr_size file_byte_def)

lemma bmapped_addrs:
  assumes "bmapped V fb dn nb" "fb \<le> 1000"
  shows "length (d_addrs dn) = NDIRECT + 1" "\<forall>j < NDIRECT + 1. d_addrs dn ! j < 4294967296"
proof -
  show "length (d_addrs dn) = NDIRECT + 1" using assms by (simp add: bmapped_def)
  show "\<forall>j < NDIRECT + 1. d_addrs dn ! j < 4294967296"
  proof (intro allI impI)
    fix j assume "j < NDIRECT + 1"
    then consider "j = NDIRECT" | "j < NDIRECT" "j < nb" | "j < NDIRECT" "nb \<le> j" by linarith
    then show "d_addrs dn ! j < 4294967296"
    proof cases
      case 1
      then show ?thesis using assms by (auto simp: bmapped_def split: if_splits)
    next
      case 2
      then have "baddr V dn j < fb" using assms by (auto simp: bmapped_def)
      then show ?thesis using 2 assms(2) by (simp add: baddr_def)
    next
      case 3
      then show ?thesis using assms by (auto simp: bmapped_def)
    qed
  qed
qed

lemma inode_at_cong: "\<forall>b. 32 \<le> b \<and> b \<le> 57 \<longrightarrow> blk s' b = blk s b \<Longrightarrow> i < 200 \<Longrightarrow> inode_at s' i = inode_at s i"
  by (simp add: inode_at_def IBLOCK_mk)

lemma tree_own:
  assumes "tree s L" "i < length L"
  shows "own_of s L i \<subseteq> {nmeta..<mk_freeblock s}" "bmapped (blk s) (mk_freeblock s) (inode_at s (Suc i)) (nblk (length (snd (L ! i))))"
proof -
  show m: "bmapped (blk s) (mk_freeblock s) (inode_at s (Suc i)) (nblk (length (snd (L ! i))))"
  proof -
    have "file_at s (Suc i) (L ! i)" using assms by (simp add: tree_def)
    then show ?thesis by (simp add: file_at_def Let_def holds_def)
  qed
  show "own_of s L i \<subseteq> {nmeta..<mk_freeblock s}" unfolding own_of_def by (rule bmapped_own [OF m])
qed

text \<open>The files other than the one that grows.\<close>

lemma other_files:
  assumes t: "tree s L" and j: "j < length L" and node: "inode_at s' (Suc j) = inode_at s (Suc j)"
    and same: "\<forall>b \<in> own_of s L j. blk s' b = blk s b" and le: "mk_freeblock s \<le> mk_freeblock s'" and lj: "L' ! j = L ! j"
  shows "file_at s' (Suc j) (L' ! j)" "own_of s' L' j = own_of s L j"
proof -
  have f: "file_at s (Suc j) (L ! j)" using t j by (simp add: tree_def)
  then show "file_at s' (Suc j) (L' ! j)"
    using holds_same [OF _ same [unfolded own_of_def] le] node lj by (simp add: file_at_def Let_def)
  show "own_of s' L' j = own_of s L j"
    using own_same [OF tree_own(2) [OF t j], of "blk s'"] same node lj by (simp add: own_of_def)
qed

lemma taken_update: "i < length L \<Longrightarrow> taken (L[i := f]) + need (length (snd (L ! i))) = taken L + need (length (snd f))"
proof (induction L arbitrary: i)
  case (Cons a L)
  then show ?case by (cases i) (auto simp: taken_def)
qed simp

lemma iappend_tree:
  assumes t: "tree s L" and i: "i < length L" "L ! i = (ty, bs)" and max: "length bs + length p \<le> MAXFILE * BSIZE"
    and room: "mk_freeblock s + (need (length bs + length p) - need (length bs)) \<le> FSSIZE"
  shows "\<exists>s'. iappend (Suc i) p s = Ret () s' \<and> tree s' (L[i := (ty, bs @ p)])"
proof -
  let ?dn = "inode_at s (Suc i)" let ?L = "L[i := (ty, bs @ p)]"
  have ok: "img_ok s" and i200: "Suc i < 200" using t i by (auto simp: tree_def)
  have f: "d_type ?dn = ty" "d_nlink ?dn = 1" "d_size ?dn = length bs" "dinode_ok ?dn" "holds (blk s) (mk_freeblock s) ?dn bs"
    using t i by (auto simp: tree_def file_at_def Let_def)
  have small: "length bs + length p < 4294967296" using max by (simp add: MAXFILE_def NINDIRECT_def NDIRECT_def BSIZE_def)
  obtain s1 addrs where s1: "append_pieces ?dn p (pieces (length bs) (length p)) s = Ret (?dn\<lparr>d_addrs := addrs\<rparr>) s1"
    "holds (blk s1) (mk_freeblock s1) (?dn\<lparr>d_addrs := addrs\<rparr>) (bs @ p)"
    "mk_freeblock s1 = mk_freeblock s + (need (length bs + length p) - need (length bs))"
    "grown s ?dn (nblk (length bs)) s1 (?dn\<lparr>d_addrs := addrs\<rparr>) (nblk (length bs + length p))"
    using append_run [OF ok f(5) max room] by blast
  define dn1 where "dn1 = ?dn\<lparr>d_addrs := addrs, d_size := length bs + length p\<rparr>"
  have g: "img_ok s1" "mk_freeinode s1 = mk_freeinode s" "mk_freeblock s \<le> mk_freeblock s1"
    "own_blocks (blk s1) (?dn\<lparr>d_addrs := addrs\<rparr>) (nblk (length bs + length p)) \<subseteq> own_of s L i \<union> {mk_freeblock s..<mk_freeblock s1}"
    "\<And>b. b < FSSIZE \<Longrightarrow> b \<notin> own_of s L i \<union> {mk_freeblock s..<mk_freeblock s1} \<Longrightarrow> blk s1 b = blk s b"
    using s1(4) i by (auto simp: grown_def own_of_def)
  have fbF: "mk_freeblock s1 \<le> 1000" "nmeta \<le> mk_freeblock s" using g(1) ok by (simp_all add: img_ok_def FSSIZE_def)
  have low: "blk s1 b = blk s b" if "b < nmeta" for b
  proof (rule g(5))
    show "b < FSSIZE" using that by (simp add: layout FSSIZE_def)
    show "b \<notin> own_of s L i \<union> {mk_freeblock s..<mk_freeblock s1}" using that tree_own(1) [OF t i(1)] fbF(2) by fastforce
  qed
  have "bmapped (blk s1) (mk_freeblock s1) (?dn\<lparr>d_addrs := addrs\<rparr>) (nblk (length bs + length p))"
    using s1(2) by (simp add: holds_def)
  from bmapped_addrs [OF this fbF(1)] have dok: "dinode_ok dn1" using f(4) small by (simp add: dinode_ok_def dn1_def)
  obtain s2 where s2: "winode (Suc i) dn1 s1 = Ret () s2" "img_ok s2" "mk_freeblock s2 = mk_freeblock s1" "mk_freeinode s2 = mk_freeinode s1"
    "inode_at s2 (Suc i) = dn1" "\<And>j. j < 200 \<Longrightarrow> j \<noteq> Suc i \<Longrightarrow> inode_at s2 j = inode_at s1 j"
    "\<And>b. b < 32 \<or> 57 < b \<Longrightarrow> blk s2 b = blk s1 b"
    using winode_ok [OF g(1) i200 dok] by blast
  have "iappend (Suc i) p s = Ret () s2"
    using rinode_ok [OF ok i200] f(3) small s1(1) s2(1) by (simp add: iappend_def Let_def ubind_def dn1_def)
  moreover have "tree s2 ?L"
  proof -
    have own_i: "own_blocks (blk s1) (?dn\<lparr>d_addrs := addrs\<rparr>) (nblk (length bs + length p)) \<subseteq> {nmeta..}"
      using g(4) tree_own(1) [OF t i(1)] fbF(2) by fastforce
    then have same_i: "\<forall>b \<in> own_blocks (blk s1) (?dn\<lparr>d_addrs := addrs\<rparr>) (nblk (length bs + length p)). blk s2 b = blk s1 b"
      by (intro ballI s2(7)) (auto simp: layout)
    have fi: "file_at s2 (Suc i) (ty, bs @ p)"
      using s2(5) f holds_same [OF s1(2) _ order_refl] same_i dok s2(3)
      by (simp add: file_at_def Let_def dn1_def holds_size)
    have oi: "own_of s2 ?L i = own_blocks (blk s1) (?dn\<lparr>d_addrs := addrs\<rparr>) (nblk (length bs + length p))"
      using own_same [of "blk s1" "mk_freeblock s1" "?dn\<lparr>d_addrs := addrs\<rparr>", OF _ same_i] s1(2) i s2(5)
      by (simp add: own_of_def dn1_def holds_size holds_def)
    have other: "file_at s2 (Suc j) (?L ! j) \<and> own_of s2 ?L j = own_of s L j" if j: "j < length L" "j \<noteq> i" for j
    proof -
      have node: "inode_at s2 (Suc j) = inode_at s (Suc j)"
        using s2(6) [of "Suc j"] inode_at_cong [of s1 s "Suc j"] low j t by (simp add: tree_def layout)
      have "own_of s L j \<inter> own_of s L i = {}" using t j i by (simp add: tree_def)
      then have "blk s2 b = blk s b" if b: "b \<in> own_of s L j" for b
      proof -
        have b': "nmeta \<le> b" "b < mk_freeblock s" using b tree_own(1) [OF t j(1)] by auto
        then have "blk s1 b = blk s b" using b \<open>own_of s L j \<inter> own_of s L i = {}\<close> ok by (intro g(5)) (auto simp: img_ok_def)
        then show ?thesis using s2(7) [of b] b' by (simp add: layout)
      qed
      then show ?thesis using other_files [OF t j(1) node, of ?L] g(3) s2(3) j by simp
    qed
    have files: "\<forall>j < length ?L. file_at s2 (Suc j) (?L ! j)" using fi other i(1) by (auto simp: nth_list_update)
    have apart: "own_of s2 ?L i \<inter> own_of s L k = {}" if k: "k < length L" "k \<noteq> i" for k
    proof -
      have 1: "own_of s L i \<inter> own_of s L k = {}" using t k i by (auto simp: tree_def)
      have 2: "own_of s L k \<subseteq> {..<mk_freeblock s}" using tree_own(1) [OF t k(1)] by fastforce
      have 3: "{..<mk_freeblock s} \<inter> {mk_freeblock s..<mk_freeblock s1} = {}" by auto
      show ?thesis unfolding oi using 1 2 3 g(4) by blast
    qed
    have disj: "own_of s2 ?L j \<inter> own_of s2 ?L k = {}" if jk: "j < length L" "k < length L" "j \<noteq> k" for j k
    proof -
      consider "j = i" | "k = i" | "j \<noteq> i" "k \<noteq> i" by blast
      then show ?thesis
      proof cases
        case 1
        then show ?thesis using apart [of k] other [of k] jk by simp
      next
        case 2
        then show ?thesis using apart [of j] other [of j] jk by (simp add: Int_commute)
      next
        case 3
        then show ?thesis using t other [of j] other [of k] jk by (simp add: tree_def)
      qed
    qed
    have "mk_freeblock s2 = nmeta + taken ?L"
      using s2(3) s1(3) t taken_update [OF i(1), of "(ty, bs @ p)"] i need_mono [of "length bs" "length bs + length p"]
      by (simp add: tree_def)
    then show ?thesis using files disj s2 g(2) t low [of 1] by (simp add: tree_def layout)
  qed
  ultimately show ?thesis by blast
qed


section \<open>Making a file\<close>

lemma mk_ialloc_tree:
  assumes t: "tree s L" and room: "length L < 199" and ty: "0 \<le> ty" "ty < 32768"
  shows "\<exists>s'. mk_ialloc ty s = Ret (Suc (length L)) s' \<and> tree s' (L @ [(ty, [])])"
proof -
  let ?i = "Suc (length L)" let ?L = "L @ [(ty, [])]"
  define dn where "dn = zero_dinode\<lparr>d_type := ty, d_nlink := 1, d_size := 0\<rparr>"
  define t1 where "t1 = s\<lparr>mk_freeinode := Suc ?i\<rparr>"
  have ok: "img_ok s" "mk_freeinode s = ?i" "mk_freeblock s = nmeta + taken L" "blk s 1 = sb_block"
    using t by (simp_all add: tree_def)
  have ok1: "img_ok t1" using ok by (simp add: t1_def img_ok_def)
  have e: "int (xshort (nat ty)) = ty" "int (xshort (Suc 0)) = 1" using ty by (simp_all add: xshort_id)
  have t1: "mk_freeinode_update Suc s = t1" using ok(2) by (cases s) (simp add: t1_def)
  have addrs: "d_addrs dn = replicate 13 0" by (simp add: dn_def zero_dinode_def NDIRECT_def)
  have dok: "dinode_ok dn" using ty by (simp add: dinode_ok_def dn_def zero_dinode_def short_ok_def NDIRECT_def)
  have i200: "?i < 200" using room by simp
  obtain s' where s': "winode ?i dn t1 = Ret () s'" "img_ok s'" "mk_freeblock s' = mk_freeblock s" "mk_freeinode s' = Suc ?i"
    "inode_at s' ?i = dn" "\<And>j. j < 200 \<Longrightarrow> j \<noteq> ?i \<Longrightarrow> inode_at s' j = inode_at s j" "\<And>b. b < 32 \<or> 57 < b \<Longrightarrow> blk s' b = blk s b"
    using winode_ok [OF ok1 i200 dok] by (auto simp: t1_def inode_at_def)
  have "mk_ialloc ty s = Ret ?i s'"
    using s'(1) ok(2) by (simp add: mk_ialloc_def e useq_def ubind_def uget_def umod_def t1 dn_def)
  moreover have "tree s' ?L"
  proof -
    have new: "own_of s' ?L (length L) = {}" "file_at s' ?i (ty, [])"
      using s'(5) dok addrs
      by (simp_all add: own_of_def own_blocks_def nblk_def file_at_def Let_def holds_def bmapped_def MAXFILE_def)
        (simp_all add: dn_def NDIRECT_def)
    have old: "file_at s' (Suc j) (?L ! j)" "own_of s' ?L j = own_of s L j" if j: "j < length L" for j
    proof -
      have "\<forall>b \<in> own_of s L j. blk s' b = blk s b" using tree_own(1) [OF t j] s'(7) by (auto simp: layout)
      note o = other_files [OF t j _ this, of ?L]
      have "inode_at s' (Suc j) = inode_at s (Suc j)" using s'(6) [of "Suc j"] j room by simp
      then show "file_at s' (Suc j) (?L ! j)" "own_of s' ?L j = own_of s L j" using o s'(3) j by (simp_all add: nth_append)
    qed
    have files: "\<forall>j < length ?L. file_at s' (Suc j) (?L ! j)" using old new by (auto simp: less_Suc_eq nth_append)
    have disj: "\<forall>j < length ?L. \<forall>k < length ?L. j \<noteq> k \<longrightarrow> own_of s' ?L j \<inter> own_of s' ?L k = {}"
    proof (intro allI impI)
      fix j k assume jk: "j < length ?L" "k < length ?L" "j \<noteq> k"
      then consider "j = length L" | "k = length L" | "j < length L" "k < length L" by fastforce
      then show "own_of s' ?L j \<inter> own_of s' ?L k = {}"
        by cases (use new(1) old jk t in \<open>simp_all add: tree_def\<close>)
    qed
    show ?thesis using files disj s' ok room by (simp add: tree_def taken_def need_def nblk_def)
  qed
  ultimately show ?thesis by blast
qed

lemma taken_mono: "i < length L \<Longrightarrow> L ! i = (ty, bs) \<Longrightarrow> taken (L[i := (ty, bs @ p)]) = taken L + (need (length bs + length p) - need (length bs))"
  using taken_update [of i L "(ty, bs @ p)"] need_mono [of "length bs" "length bs + length p"] by simp

lemma appends_tree:
  "tree s L \<Longrightarrow> i < length L \<Longrightarrow> L ! i = (ty, bs) \<Longrightarrow> length bs + length (concat cs) \<le> MAXFILE * BSIZE \<Longrightarrow>
   nmeta + taken (L[i := (ty, bs @ concat cs)]) \<le> FSSIZE \<Longrightarrow>
   \<exists>s'. ufor cs (iappend (Suc i)) s = Ret () s' \<and> tree s' (L[i := (ty, bs @ concat cs)])"
proof (induction cs arbitrary: s L bs)
  case Nil
  have "L[i := (ty, bs)] = L" using Nil(3) by (metis list_update_id)
  then show ?case using Nil by simp
next
  case (Cons c cs)
  have fb: "mk_freeblock s = nmeta + taken L" using Cons.prems(1) by (simp add: tree_def)
  have le: "need (length bs + length c) \<le> need (length bs + (length c + length (concat cs)))" by (rule need_mono) simp
  have max: "length bs + length c \<le> MAXFILE * BSIZE" using Cons.prems(4) by simp
  have room: "mk_freeblock s + (need (length bs + length c) - need (length bs)) \<le> FSSIZE"
    using Cons.prems(5) taken_mono [OF Cons.prems(2,3), of "concat (c # cs)"] le fb by simp
  obtain s1 where s1: "iappend (Suc i) c s = Ret () s1" "tree s1 (L[i := (ty, bs @ c)])"
    using iappend_tree [OF Cons.prems(1,2,3) max room] by blast
  have "\<exists>s'. ufor cs (iappend (Suc i)) s1 = Ret () s' \<and> tree s' (L[i := (ty, bs @ c), i := (ty, (bs @ c) @ concat cs)])"
    by (rule Cons.IH [OF s1(2)]) (use Cons.prems in simp_all)
  then show ?case using s1(1) by (auto simp: useq_def ubind_def)
qed

lemma concat_blocks_of: "concat (blocks_of bs) = bs"
proof (induction bs rule: blocks_of.induct)
  case (1 bs)
  then show ?case by (subst blocks_of.simps) simp
qed

text \<open>The entry \<open>main\<close> makes for argument number \<open>k\<close> after the name of the image, whose inode is \<open>k + 2\<close>.\<close>

definition file_entry :: "cstr list \<Rightarrow> nat \<Rightarrow> u8 list" where
  "file_entry args k = dirent_bytes (k + 2) (of_bytes (entry_name (args ! k)))"

definition dots :: "u8 list" where
  "dots = dirent_bytes ROOTINO (of_bytes (lit ''.'')) @ dirent_bytes ROOTINO (of_bytes (lit ''..''))"

text \<open>The root directory and the files after the first \<open>n\<close> arguments.\<close>

definition tree_of :: "(cstr \<Rightarrow> u8 list option) \<Rightarrow> cstr list \<Rightarrow> nat \<Rightarrow> (int \<times> u8 list) list" where
  "tree_of files args n = (T_DIR, dots @ concat (map (file_entry args) [0..<n])) # map (\<lambda>a. (T_FILE, the (files a))) (take n args)"

lemma entries_length: "length (concat (map (file_entry args) [0..<n])) = 16 * n"
  by (induction n) (simp_all add: file_entry_def)

lemma dots_length: "length dots = 32"
  by (simp add: dots_def)

text \<open>What the arguments must be: files of the host, with names without a slash, of the size of a file.\<close>

definition args_ok :: "(cstr \<Rightarrow> u8 list option) \<Rightarrow> cstr list \<Rightarrow> bool" where
  "args_ok files args \<longleftrightarrow> length args \<le> 198 \<and> list_all (\<lambda>a. strchr_u (shortname a) 47 = None \<and>
     (case files a of None \<Rightarrow> False | Some bs \<Rightarrow> length bs \<le> MAXFILE * BSIZE)) args \<and>
     nmeta + taken (tree_of files args (length args)) \<le> FSSIZE"


lemma tree_of_simps:
  "tree_of files args 0 = [(T_DIR, dots)]"
  "n < length args \<Longrightarrow> tree_of files args (Suc n) =
     (tree_of files args n)[0 := (T_DIR, (dots @ concat (map (file_entry args) [0..<n])) @ file_entry args n)] @ [(T_FILE, the (files (args ! n)))]"
  "length (tree_of files args n) = Suc (min (length args) n)"
  "tree_of files args n ! 0 = (T_DIR, dots @ concat (map (file_entry args) [0..<n]))"
  by (simp_all add: tree_of_def take_Suc_conv_app_nth)

lemma taken_append: "taken (L @ M) = taken L + taken M"
  by (simp add: taken_def)

lemma taken_tree_mono:
  assumes "n \<le> k" "k \<le> length args"
  shows "taken (tree_of files args n) \<le> taken (tree_of files args k)"
  using assms
proof (induction k rule: dec_induct)
  case (step k)
  have "taken (tree_of files args k) \<le> taken (tree_of files args (Suc k))"
    using step.prems taken_mono [of 0 "tree_of files args k"] by (simp add: tree_of_simps taken_append)
  then show ?case using step by simp
qed simp

lemma add_file_tree:
  assumes ok: "args_ok files args" and n: "n < length args" and t: "tree s (tree_of files args n)"
  shows "\<exists>s'. add_file files ROOTINO (args ! n) s = Ret () s' \<and> tree s' (tree_of files args (Suc n))"
proof -
  let ?a = "args ! n" let ?L = "tree_of files args n" let ?es = "dots @ concat (map (file_entry args) [0..<n])"
  have "?a \<in> set args" using n by simp
  then have "strchr_u (shortname ?a) 47 = None \<and> (case files ?a of None \<Rightarrow> False | Some bs \<Rightarrow> length bs \<le> MAXFILE * BSIZE)"
    using ok by (simp add: args_ok_def list_all_iff)
  then obtain bs where a: "strchr_u (shortname ?a) 47 = None" "files ?a = Some bs" "length bs \<le> MAXFILE * BSIZE"
    by (auto split: option.splits)
  have len: "length ?L = Suc n" "length args \<le> 198" using n ok by (simp_all add: tree_of_simps args_ok_def)
  let ?M = "?L[0 := (T_DIR, ?es @ file_entry args n)]"
  have end_: "tree_of files args (Suc n) = ?M @ [(T_FILE, bs)]" using tree_of_simps(2) [OF n] a(2) by simp
  have room: "nmeta + (taken ?M + need (length bs)) \<le> FSSIZE"
    using ok taken_tree_mono [of "Suc n" "length args" args files] n end_ by (simp add: args_ok_def taken_append) (simp add: taken_def)
  have l199: "length ?L < 199" using len n by simp
  obtain s1 where s1: "mk_ialloc T_FILE s = Ret (n + 2) s1" "tree s1 (?L @ [(T_FILE, [])])"
    using mk_ialloc_tree [OF t l199, of T_FILE] len(1) by (auto simp: T_FILE_def)
  have z: "0 < length (?L @ [(T_FILE, [])])" "(?L @ [(T_FILE, [])]) ! 0 = (T_DIR, ?es)"
    using len(1) tree_of_simps(4) [of files args n] by (simp_all add: nth_append)
  have u: "(?L @ [(T_FILE, [])])[0 := (T_DIR, ?es @ file_entry args n)] = ?M @ [(T_FILE, [])]"
    using len(1) by (simp add: list_update_append)
  have esl: "length ?es + length (file_entry args n) \<le> MAXFILE * BSIZE"
    using n len(2) by (simp add: entries_length dots_length file_entry_def MAXFILE_def NDIRECT_def NINDIRECT_def BSIZE_def)
  have "taken (?M @ [(T_FILE, [])]) = taken ?M" by (simp add: taken_append) (simp add: taken_def need_def nblk_def)
  then have "mk_freeblock s1 + (need (length ?es + length (file_entry args n)) - need (length ?es)) \<le> FSSIZE"
    using room taken_mono [OF z, of "file_entry args n"] s1(2) u by (simp add: tree_def)
  then obtain s2 where s2: "iappend ROOTINO (file_entry args n) s1 = Ret () s2" "tree s2 (?M @ [(T_FILE, [])])"
    using iappend_tree [OF s1(2) z esl] unfolding u by (auto simp: ROOTINO_def)
  have i: "Suc n < length (?M @ [(T_FILE, [])])" "(?M @ [(T_FILE, [])]) ! Suc n = (T_FILE, [])"
    using len(1) by (simp_all add: nth_append)
  have u2: "(?M @ [(T_FILE, [])])[Suc n := (T_FILE, bs)] = ?M @ [(T_FILE, bs)]"
    using len(1) by (simp add: list_update_append)
  have room2: "nmeta + taken (?M @ [(T_FILE, bs)]) \<le> FSSIZE" using room by (simp add: taken_append) (simp add: taken_def)
  have "\<exists>s'. ufor (blocks_of bs) (iappend (Suc (Suc n))) s2 = Ret () s' \<and> tree s' (?M @ [(T_FILE, bs)])"
    using appends_tree [OF s2(2) i, of "blocks_of bs"] a(3) room2 u2 by (simp add: concat_blocks_of)
  then obtain s3 where s3: "ufor (blocks_of bs) (iappend (Suc (Suc n))) s2 = Ret () s3" "tree s3 (?M @ [(T_FILE, bs)])" by blast
  have "add_file files ROOTINO ?a s = Ret () s3"
    using a s1(1) s2(1) s3(1) by (simp add: add_file_def ubind_def useq_def uassert_def file_entry_def)
  then show ?thesis using s3(2) end_ by metis
qed

lemma add_files_tree:
  assumes ok: "args_ok files args"
  shows "n \<le> length args \<Longrightarrow> tree s (tree_of files args n) \<Longrightarrow>
    \<exists>s'. ufor (drop n args) (add_file files ROOTINO) s = Ret () s' \<and> tree s' (tree_of files args (length args))"
proof (induction "length args - n" arbitrary: n s)
  case 0
  then show ?case by simp
next
  case (Suc k)
  then have n: "n < length args" by simp
  obtain s1 where s1: "add_file files ROOTINO (args ! n) s = Ret () s1" "tree s1 (tree_of files args (Suc n))"
    using add_file_tree [OF ok n Suc.prems(2)] by blast
  obtain s2 where s2: "ufor (drop (Suc n) args) (add_file files ROOTINO) s1 = Ret () s2" "tree s2 (tree_of files args (length args))"
    using Suc.hyps(1) [of "Suc n" s1] Suc.hyps(2) n s1(2) by fastforce
  show ?case using s1(1) s2 by (simp add: Cons_nth_drop_Suc [OF n, symmetric] useq_def ubind_def)
qed

section \<open>The whole image\<close>

lemma zero_loop:
  "mk_img s = replicate k zeroes \<Longrightarrow> ufor [k..<k + n] (\<lambda>i. wsect i zeroes) s = Ret () (s\<lparr>mk_img := replicate (k + n) zeroes\<rparr>)"
proof (induction n arbitrary: s k)
  case 0
  then show ?case by (cases s) simp
next
  case (Suc n)
  let ?s = "s\<lparr>mk_img := replicate (Suc k) zeroes\<rparr>"
  have w: "wsect k zeroes s = Ret () ?s"
    using Suc.prems by (cases s) (simp add: wsect_def umod_def replicate_append_same)
  have "[k..<k + Suc n] = k # [Suc k..<Suc k + n]" by (simp add: upt_rec)
  then show ?case using w Suc.IH [of ?s "Suc k"] by (simp add: useq_def ubind_def)
qed

lemma sb_facts: "length sb_block = 512" "decode_sb sb_block = mk_sb"
proof -
  have len: "length (sb_bytes mk_sb) = 28" by (simp add: sb_bytes_def)
  then show "length sb_block = 512" by (simp add: sb_block_def)
  have "word_at sb_block k = le_val (take 4 (drop (4 * k) (sb_bytes mk_sb)))" if "k < 7" for k
    using that len by (simp add: sb_block_def put_bytes_def word_at_def get_le_def)
  then show "decode_sb sb_block = mk_sb"
    by (simp add: decode_sb_def sb_bytes_def mk_sb_def layout FSSIZE_def NINODES_def le_val_bytes)
qed

lemma mark_run:
  assumes "length x = 512"
  shows "n \<le> 4096 \<Longrightarrow> length (fold mark_used [0..<n] x) = 512 \<and> (\<forall>b < 4096. bit_free (fold mark_used [0..<n] x) b \<longleftrightarrow> bit_free x b \<and> n \<le> b)"
proof (induction n)
  case (Suc n)
  then have "length (fold mark_used [0..<n] x) = 512" "n < 4096" by simp_all
  note mf = mark_used_free [OF this]
  show ?case using Suc mf(1) mf(2) [of 0] by auto
qed (use assms in simp)

lemma zeroes_free: "b < 4096 \<Longrightarrow> bit_free zeroes b"
  by (simp add: bit_free_def zeroes_def BSIZE_def div_less_iff_less_mult)

text \<open>The image right after the super block was written.\<close>

definition fresh :: mkimg where
  "fresh = \<lparr>mk_img = (replicate FSSIZE zeroes)[1 := sb_block], mk_freeinode = 1, mk_freeblock = nmeta\<rparr>"

lemma fresh_tree: "tree fresh []"
proof -
  have "\<forall>b \<in> set (mk_img fresh). length b = BSIZE"
    using set_update_subset_insert [of "replicate FSSIZE zeroes" 1 sb_block] sb_facts(1) by (auto simp: fresh_def BSIZE_def)
  moreover have "\<forall>b. nmeta \<le> b \<and> b < FSSIZE \<longrightarrow> mk_img fresh ! b = zeroes" by (simp add: fresh_def layout)
  ultimately show ?thesis by (simp add: tree_def img_ok_def taken_def) (simp add: fresh_def layout FSSIZE_def)
qed

lemma fresh_start:
  "useq (umod (\<lambda>s. s\<lparr>mk_img := [], mk_freeinode := 1, mk_freeblock := nmeta\<rparr>))
     (useq (ufor [0..<FSSIZE] (\<lambda>i. wsect i zeroes)) (useq (wsect 1 (put_bytes 0 (sb_bytes mk_sb) zeroes)) m)) s = m fresh"
proof -
  let ?a = "s\<lparr>mk_img := [], mk_freeinode := 1, mk_freeblock := nmeta\<rparr>"
  let ?b = "?a\<lparr>mk_img := replicate FSSIZE zeroes\<rparr>"
  have loop: "ufor [0..<FSSIZE] (\<lambda>i. wsect i zeroes) ?a = Ret () ?b"
    using zero_loop [of ?a 0 FSSIZE] by simp
  have "wsect 1 sb_block ?b = Ret () fresh"
    by (cases s) (simp add: wsect_def umod_def fresh_def upd_conv_take_nth_drop FSSIZE_def)
  then show ?thesis using loop by (simp add: useq_def ubind_def umod_def sb_block_def)
qed

text \<open>The directory of the root in full.\<close>

definition root_bytes :: "cstr list \<Rightarrow> u8 list" where
  "root_bytes args = dots @ concat (map (file_entry args) [0..<length args])"

lemma root_start:
  assumes room: "args_ok files args"
  shows "\<exists>s1 s2 s3. mk_ialloc T_DIR fresh = Ret ROOTINO s1 \<and>
    iappend ROOTINO (dirent_bytes ROOTINO (of_bytes (lit ''.''))) s1 = Ret () s2 \<and>
    iappend ROOTINO (dirent_bytes ROOTINO (of_bytes (lit ''..''))) s2 = Ret () s3 \<and> tree s3 (tree_of files args 0)"
proof -
  let ?x = "dirent_bytes ROOTINO (of_bytes (lit ''.''))" let ?y = "dirent_bytes ROOTINO (of_bytes (lit ''..''))"
  obtain s1 where s1: "mk_ialloc T_DIR fresh = Ret ROOTINO s1" "tree s1 [(T_DIR, [])]"
    using mk_ialloc_tree [OF fresh_tree, of T_DIR] by (auto simp: T_DIR_def ROOTINO_def)
  have n: "need 0 = 0" "need 16 = 1" "need 32 = 1" by (simp_all add: need_def nblk_def NDIRECT_def)
  have big: "32 \<le> MAXFILE * BSIZE" by (simp add: MAXFILE_def NDIRECT_def NINDIRECT_def BSIZE_def)
  have fb1: "mk_freeblock s1 = 59" using s1(2) by (simp add: tree_def taken_def n layout)
  obtain s2 where s2: "iappend ROOTINO ?x s1 = Ret () s2" "tree s2 [(T_DIR, ?x)]"
    using iappend_tree [OF s1(2), of 0 T_DIR "[]" ?x] fb1 big by (auto simp: n FSSIZE_def ROOTINO_def)
  have fb2: "mk_freeblock s2 = 60" using s2(2) by (simp add: tree_def taken_def n layout)
  obtain s3 where s3: "iappend ROOTINO ?y s2 = Ret () s3" "tree s3 [(T_DIR, ?x @ ?y)]"
    using iappend_tree [OF s2(2), of 0 T_DIR ?x ?y] fb2 big by (auto simp: n FSSIZE_def ROOTINO_def)
  show ?thesis using s1(1) s2(1) s3 by (simp add: tree_of_simps dots_def)
qed

text \<open>The end of \<open>main\<close>: the size of the root directory, and the bitmap.\<close>

lemma finish:
  assumes t: "tree s ((ty, bs) # L)" and len: "length bs < 100000"
  shows "\<exists>s1 s'. fix_root ROOTINO s = Ret () s1 \<and> mk_balloc (mk_freeblock s1) s1 = Ret () s' \<and>
    mk_freeblock s1 = nmeta + taken ((ty, bs) # L) \<and> length (mk_img s') = FSSIZE \<and> blk s' 1 = sb_block \<and>
    (\<forall>b < FSSIZE. bit_free (blk s' 58) b \<longleftrightarrow> mk_freeblock s1 \<le> b) \<and>
    inode_at s' 1 = (inode_at s 1)\<lparr>d_size := (length bs div BSIZE + 1) * BSIZE\<rparr> \<and>
    (\<forall>i < 200. i \<noteq> 1 \<longrightarrow> inode_at s' i = inode_at s i) \<and> (\<forall>b \<ge> nmeta. blk s' b = blk s b)"
proof -
  let ?n = "(length bs div BSIZE + 1) * BSIZE"
  let ?dn = "(inode_at s 1)\<lparr>d_size := ?n\<rparr>"
  have ok: "img_ok s" "mk_freeblock s = nmeta + taken ((ty, bs) # L)" "blk s 1 = sb_block" using t by (simp_all add: tree_def)
  have f: "d_size (inode_at s 1) = length bs" "dinode_ok (inode_at s 1)" using t by (auto simp: tree_def file_at_def Let_def)
  have "length bs div 512 * 512 \<le> length bs" by simp
  then have n: "?n < 4294967296" using len by (simp add: BSIZE_def)
  then have dok: "dinode_ok ?dn" using f(2) by (simp add: dinode_ok_def)
  have one: "(1 :: nat) < 200" by simp
  obtain s1 where s1: "winode 1 ?dn s = Ret () s1" "img_ok s1" "mk_freeblock s1 = mk_freeblock s"
    "inode_at s1 1 = ?dn" "\<And>j. j < 200 \<Longrightarrow> j \<noteq> 1 \<Longrightarrow> inode_at s1 j = inode_at s j" "\<And>b. b < 32 \<or> 57 < b \<Longrightarrow> blk s1 b = blk s b"
    using winode_ok [OF ok(1) one dok] by blast
  have fx: "fix_root ROOTINO s = Ret () s1"
    using s1(1) rinode_ok [OF ok(1), of 1] f(1) len n by (simp add: fix_root_def ubind_def Let_def ROOTINO_def)
  let ?m = "fold mark_used [0..<mk_freeblock s1] zeroes"
  define s' where "s' = put_block 58 ?m s1"
  have u: "mk_freeblock s1 \<le> 1000" using s1(2) by (simp add: img_ok_def FSSIZE_def)
  have m: "length ?m = 512" "\<And>b. b < 4096 \<Longrightarrow> bit_free ?m b \<longleftrightarrow> mk_freeblock s1 \<le> b"
    using mark_run [of zeroes "mk_freeblock s1"] u zeroes_free by auto
  have b: "mk_balloc (mk_freeblock s1) s1 = Ret () s'"
    using wsect_ok [OF s1(2), of 58 ?m] u by (simp add: mk_balloc_def mk_sb_simps BSIZE_def FSSIZE_def s'_def)
  have l: "length (mk_img s1) = 1000" using s1(2) by (simp add: img_ok_def FSSIZE_def)
  then have V: "blk s' c = (if c = 58 then ?m else blk s1 c)" for c by (simp add: s'_def blk_put)
  have nodes: "inode_at s' i = inode_at s1 i" if "i < 200" for i by (rule inode_at_cong) (simp_all add: V that)
  show ?thesis
    using fx b ok s1 V m(2) nodes l by (intro exI [of _ s1] exI [of _ s']) (auto simp: FSSIZE_def layout s'_def)
qed

text \<open>A file of the image as the kernel reads it, and the bytes of its blocks behind the end of its content.\<close>

definition reads_as :: "mkimg \<Rightarrow> nat \<Rightarrow> u8 list \<Rightarrow> bool" where
  "reads_as s i bs \<longleftrightarrow> (let dn = inode_at s i in map (file_byte (blk s) dn) [0..<length bs] = bs \<and>
     (\<forall>r. length bs \<le> r \<and> r < nblk (length bs) * BSIZE \<longrightarrow> file_byte (blk s) dn r = 0))"

lemma reads_as_holds:
  assumes h: "holds (blk s) fb dn bs" and same: "\<forall>b \<in> own_blocks (blk s) dn (nblk (length bs)). blk s' b = blk s b"
    and node: "inode_at s' i = dn\<lparr>d_size := n\<rparr>"
  shows "reads_as s' i bs"
proof -
  have byte: "file_byte (blk s') (dn\<lparr>d_size := n\<rparr>) r = padded bs r" if "r < nblk (length bs) * 512" for r
    using holds_same [OF h same order_refl] that by (simp add: holds_def file_byte_def baddr_size)
  have "\<forall>r < length bs. r < nblk (length bs) * 512" using nblk_bounds(1) by (metis div_less_iff_less_mult zero_less_numeral)
  then show ?thesis using byte by (auto simp: reads_as_def Let_def node padded_def BSIZE_def intro!: nth_equalityI)
qed

lemma main_run:
  assumes argv: "2 \<le> length argv" "can (argv ! 1)" and ok: "args_ok files (drop 2 argv)"
  defines "L \<equiv> tree_of files (drop 2 argv) (length (drop 2 argv))"
  shows "\<exists>s1 s'. mkfs_main can files argv s = Ret 0 s' \<and> tree s1 L \<and> length (mk_img s') = FSSIZE \<and> blk s' 1 = sb_block \<and>
    (\<forall>b < FSSIZE. bit_free (blk s' 58) b \<longleftrightarrow> nmeta + taken L \<le> b) \<and>
    inode_at s' 1 = (inode_at s1 1)\<lparr>d_size := (length (root_bytes (drop 2 argv)) div BSIZE + 1) * BSIZE\<rparr> \<and>
    (\<forall>i < 200. i \<noteq> 1 \<longrightarrow> inode_at s' i = inode_at s1 i) \<and> (\<forall>b \<ge> nmeta. blk s' b = blk s1 b)"
proof -
  obtain a b c where start: "mk_ialloc T_DIR fresh = Ret ROOTINO a"
    "iappend ROOTINO (dirent_bytes ROOTINO (of_bytes (lit ''.''))) a = Ret () b"
    "iappend ROOTINO (dirent_bytes ROOTINO (of_bytes (lit ''..''))) b = Ret () c" "tree c (tree_of files (drop 2 argv) 0)"
    using root_start [OF ok] by blast
  obtain s1 where s1: "ufor (drop 2 argv) (add_file files ROOTINO) c = Ret () s1" "tree s1 L"
    using add_files_tree [OF ok, of 0 c] start(4) unfolding L_def by auto
  have L: "L = (T_DIR, root_bytes (drop 2 argv)) # map (\<lambda>a. (T_FILE, the (files a))) (drop 2 argv)"
    by (simp add: L_def tree_of_def root_bytes_def)
  have "length (drop 2 argv) \<le> 198" using ok by (simp add: args_ok_def)
  then have small: "length (root_bytes (drop 2 argv)) < 100000"
    unfolding root_bytes_def length_append entries_length dots_length by linarith
  note fin = finish [OF s1(2) [unfolded L] small]
  then obtain s2 s' where e: "fix_root ROOTINO s1 = Ret () s2" "mk_balloc (mk_freeblock s2) s2 = Ret () s'"
    "mk_freeblock s2 = nmeta + taken L" "length (mk_img s') = FSSIZE" "blk s' 1 = sb_block"
    "\<forall>b < FSSIZE. bit_free (blk s' 58) b \<longleftrightarrow> mk_freeblock s2 \<le> b"
    "inode_at s' 1 = (inode_at s1 1)\<lparr>d_size := (length (root_bytes (drop 2 argv)) div BSIZE + 1) * BSIZE\<rparr>"
    "\<forall>i < 200. i \<noteq> 1 \<longrightarrow> inode_at s' i = inode_at s1 i" "\<forall>b \<ge> nmeta. blk s' b = blk s1 b"
    unfolding L by blast
  have "mkfs_main can files argv s = Ret 0 s'"
    unfolding mkfs_main_def uassert_step [OF argv(1), THEN fun_cong] uassert_step [OF argv(2), THEN fun_cong] fresh_start
    using start(1-3) s1(1) e(1,2) by (simp add: ubind_def useq_def uassert_def uget_def)
  then show ?thesis using e s1(2) by (intro exI [of _ s1] exI [of _ s']) simp
qed

text \<open>
  C3. Run with the names of at most 198 files of the host that fit (each no longer than a file can be, all of
  them together no larger than the disk), \<open>mkfs\<close> ends with \<open>exit(0)\<close> and leaves an image of \<open>FSSIZE\<close>
  blk that the kernel's own functions read as intended: the super block decodes to the layout; the root
  directory is inode 1 and its blocks hold the entries for ``.'', ``..'' and each file in order, and zeros behind
  them; file \<open>k\<close> is inode \<open>k + 2\<close>, of type \<open>T_FILE\<close>, with one link, its size and its bytes; no two of
  the inodes share a block; and the bitmap marks exactly the blocks up to the last one given out.
\<close>

theorem mkfs_builds:
  assumes "2 \<le> length argv" "can (argv ! 1)" and "args_ok files (drop 2 argv)"
  shows "\<exists>s'. mkfs_main can files argv s = Ret 0 s' \<and> length (mk_img s') = FSSIZE \<and> decode_sb (blk s' 1) = mk_sb \<and>
    (let args = drop 2 argv; L = tree_of files args (length args) in
      d_type (inode_at s' ROOTINO) = T_DIR \<and> d_size (inode_at s' ROOTINO) = (length (root_bytes args) div BSIZE + 1) * BSIZE \<and>
      reads_as s' ROOTINO (root_bytes args) \<and>
      (\<forall>k < length args. d_type (inode_at s' (k + 2)) = T_FILE \<and> d_nlink (inode_at s' (k + 2)) = 1 \<and>
         d_size (inode_at s' (k + 2)) = length (the (files (args ! k))) \<and> reads_as s' (k + 2) (the (files (args ! k)))) \<and>
      (\<forall>i < length L. own_of s' L i \<subseteq> {nmeta..<nmeta + taken L} \<and> (\<forall>j < length L. i \<noteq> j \<longrightarrow> own_of s' L i \<inter> own_of s' L j = {})) \<and>
      (\<forall>b < FSSIZE. bit_free (blk s' (sb_bmapstart mk_sb)) b \<longleftrightarrow> nmeta + taken L \<le> b))"
proof -
  let ?args = "drop 2 argv" let ?L = "tree_of files ?args (length ?args)"
  obtain s1 s' where r: "mkfs_main can files argv s = Ret 0 s'" "tree s1 ?L" "length (mk_img s') = FSSIZE" "blk s' 1 = sb_block"
    "\<forall>b < FSSIZE. bit_free (blk s' 58) b \<longleftrightarrow> nmeta + taken ?L \<le> b"
    "inode_at s' 1 = (inode_at s1 1)\<lparr>d_size := (length (root_bytes ?args) div BSIZE + 1) * BSIZE\<rparr>"
    "\<forall>i < 200. i \<noteq> 1 \<longrightarrow> inode_at s' i = inode_at s1 i" "\<forall>b \<ge> nmeta. blk s' b = blk s1 b"
    using main_run [where can = can and argv = argv and files = files and s = s, OF assms] by blast
  have L: "?L = (T_DIR, root_bytes ?args) # map (\<lambda>a. (T_FILE, the (files a))) ?args" by (simp add: tree_of_def root_bytes_def)
  have len: "length ?L = Suc (length ?args)" "length ?args \<le> 198" using assms(3) L by (simp_all add: args_ok_def)
  have fb: "mk_freeblock s1 = nmeta + taken ?L" using r(2) by (simp add: tree_def)
  have own: "own_of s' ?L i = own_of s1 ?L i" "own_of s1 ?L i \<subseteq> {nmeta..<nmeta + taken ?L}"
    and reads: "file_at s1 (Suc i) (?L ! i)" "reads_as s' (Suc i) (snd (?L ! i))" if i: "i < length ?L" for i
  proof -
    show f: "file_at s1 (Suc i) (?L ! i)" using r(2) i by (simp add: tree_def)
    show o: "own_of s1 ?L i \<subseteq> {nmeta..<nmeta + taken ?L}" using tree_own(1) [OF r(2) i] fb by simp
    have h: "holds (blk s1) (mk_freeblock s1) (inode_at s1 (Suc i)) (snd (?L ! i))" using f by (simp add: file_at_def Let_def)
    have same: "\<forall>b \<in> own_blocks (blk s1) (inode_at s1 (Suc i)) (nblk (length (snd (?L ! i)))). blk s' b = blk s1 b"
      using o r(8) unfolding own_of_def by fastforce
    obtain n where n: "inode_at s' (Suc i) = (inode_at s1 (Suc i))\<lparr>d_size := n\<rparr>"
    proof (cases "i = 0")
      case True
      then show ?thesis using that r(6) by simp
    next
      case False
      then have "inode_at s' (Suc i) = inode_at s1 (Suc i)" using r(7) i len by simp
      then show ?thesis using that [of "d_size (inode_at s1 (Suc i))"] by simp
    qed
    show "reads_as s' (Suc i) (snd (?L ! i))" by (rule reads_as_holds [OF h same n])
    have "bmapped (blk s1) (mk_freeblock s1) (inode_at s1 (Suc i)) (nblk (length (snd (?L ! i))))" using h by (simp add: holds_def)
    from own_same [OF this same] show "own_of s' ?L i = own_of s1 ?L i" by (simp add: own_of_def n holds_size)
  qed
  have file_k: "d_type (inode_at s' (k + 2)) = T_FILE \<and> d_nlink (inode_at s' (k + 2)) = 1 \<and>
      d_size (inode_at s' (k + 2)) = length (the (files (?args ! k))) \<and> reads_as s' (k + 2) (the (files (?args ! k)))"
    if k: "k < length ?args" for k
  proof -
    have i: "Suc k < length ?L" "?L ! Suc k = (T_FILE, the (files (?args ! k)))" using k len(1) L by simp_all
    have "inode_at s' (k + 2) = inode_at s1 (k + 2)" using r(7) k len by simp
    then show ?thesis using reads [OF i(1)] i(2) by (simp add: file_at_def Let_def)
  qed
  have root: "d_type (inode_at s' 1) = T_DIR" "reads_as s' 1 (root_bytes ?args)"
    using reads [of 0] r(6) L by (simp_all add: file_at_def Let_def)
  have apart: "own_of s' ?L i \<inter> own_of s' ?L j = {}" if "i < length ?L" "j < length ?L" "i \<noteq> j" for i j
    using r(2) own(1) that by (simp add: tree_def)
  show ?thesis
    using r(1,3,4,5,6) sb_facts(2) root file_k own apart
    by (intro exI [of _ s']) (simp add: Let_def ROOTINO_def mk_sb_simps)
qed

theorem mkfs_builds_witness:
  "\<exists>s'. mkfs_main (\<lambda>n. n = lit ''fs.img'') (\<lambda>n. if n = lit ''user/_cat'' then Some [1, 2, 3] else None)
     [lit ''mkfs'', lit ''fs.img'', lit ''user/_cat''] \<lparr>mk_img = [], mk_freeinode = 1, mk_freeblock = 0\<rparr> = Ret 0 s' \<and>
   bit_free (blk s' 58) 61 \<and> \<not> bit_free (blk s' 58) 60 \<and> reads_as s' 2 [1, 2, 3]"
proof -
  let ?files = "\<lambda>n. if n = lit ''user/_cat'' then Some [1, 2, 3] else (None :: u8 list option)"
  let ?argv = "[lit ''mkfs'', lit ''fs.img'', lit ''user/_cat'']"
  have t: "tree_of ?files (drop 2 ?argv) (length (drop 2 ?argv)) = [(T_DIR, dots @ file_entry [lit ''user/_cat''] 0), (T_FILE, [1, 2, 3])]"
    by (simp add: tree_of_def)
  have taken: "taken (tree_of ?files (drop 2 ?argv) (length (drop 2 ?argv))) = 2"
    unfolding t by (simp add: taken_def dots_length file_entry_def need_def nblk_def NDIRECT_def)
  have "strchr_u (shortname (lit ''user/_cat'')) 47 = None" by code_simp
  then have "args_ok ?files (drop 2 ?argv)"
    using taken by (simp add: args_ok_def layout FSSIZE_def MAXFILE_def NDIRECT_def NINDIRECT_def BSIZE_def)
  then obtain s' where s': "mkfs_main (\<lambda>n. n = lit ''fs.img'') ?files ?argv \<lparr>mk_img = [], mk_freeinode = 1, mk_freeblock = 0\<rparr> = Ret 0 s'"
    "\<forall>k < length (drop 2 ?argv). reads_as s' (k + 2) (the (?files (drop 2 ?argv ! k)))"
    "\<forall>b < FSSIZE. bit_free (blk s' (sb_bmapstart mk_sb)) b \<longleftrightarrow> nmeta + 2 \<le> b"
    using mkfs_builds [where can = "\<lambda>n. n = lit ''fs.img''" and argv = ?argv and files = ?files
        and s = "\<lparr>mk_img = [], mk_freeinode = 1, mk_freeblock = 0\<rparr>", unfolded Let_def taken]
    by force
  have "reads_as s' 2 [1, 2, 3]" using s'(2) [rule_format, of 0] by (simp add: numeral_2_eq_2)
  moreover have "bit_free (blk s' 58) 61" "\<not> bit_free (blk s' 58) 60"
    using s'(3) by (simp_all add: mk_sb_simps layout FSSIZE_def)
  ultimately show ?thesis using s'(1) by blast
qed

end
