(* ===== verification/Mp.thy ===== *)
theory Mp
  imports Trap
begin

text \<open>
  The machine the kernel finds at start-up: the tables of kernel/mp.c, what kernel/ioapic.c and
  kernel/lapic.c do with them (the start of other CPUs and the clock of the board included), \<open>seginit\<close>
  of kernel/vm.c, and kernel/main.c. What the hardware answers is an argument: the byte behind the
  IMCR port, the registers of the board's clock at each read, the CPUs that come up.
\<close>

unbundle bit_operations_syntax

section \<open>Finding the tables\<close>

definition NCPU :: nat where "NCPU = 8"
definition MPBOOT :: u8 where "MPBOOT = 2"
definition MPPROC :: u8 where "MPPROC = 0"
definition MPBUS :: u8 where "MPBUS = 1"
definition MPIOAPIC :: u8 where "MPIOAPIC = 2"
definition MPIOINTR :: u8 where "MPIOINTR = 3"
definition MPLINTR :: u8 where "MPLINTR = 4"

definition chsum :: "bytes \<Rightarrow> u32 \<Rightarrow> nat \<Rightarrow> u8" where
  "chsum m addr n = of_nat (sum_list (map (\<lambda>i. unat (m (addr + of_nat i))) [0..<n]))"

definition has_sig :: "bytes \<Rightarrow> u32 \<Rightarrow> string \<Rightarrow> bool" where
  "has_sig m p sg \<longleftrightarrow> Cmem.memcmp (at m p) (of_bytes (map of_char sg)) 4 = 0"

text \<open>The floating pointer is 16 bytes: the signature, the address of the table at 4, the IMCR bit at 12.\<close>

definition mpsearch1 :: "bytes \<Rightarrow> u32 \<Rightarrow> nat \<Rightarrow> u32 option" where
  "mpsearch1 m a len = find (\<lambda>p. has_sig m p ''_MP_'' \<and> chsum m p 16 = 0)
     (map (\<lambda>k. p2v a + of_nat (16 * k)) [0..<(len + 15) div 16])"

definition mpsearch :: "bytes \<Rightarrow> u32 option" where
  "mpsearch m = (let bda = p2v 0x400;
       p = push_bit 4 (push_bit 8 (ucast (m (bda + 0x0F))) OR ucast (m (bda + 0x0E)));
       found = (if p \<noteq> 0 then mpsearch1 m p 1024
         else let p = (push_bit 8 (ucast (m (bda + 0x14))) OR ucast (m (bda + 0x13))) * 1024 in mpsearch1 m (p - 1024) 1024)
     in case found of Some mp \<Rightarrow> Some mp | None \<Rightarrow> mpsearch1 m 0xF0000 0x10000)"

text \<open>The table: the signature, its length at 4, its version at 6, the address of the local APIC at 36, the entries at 44.\<close>

definition conf_length :: "bytes \<Rightarrow> u32 \<Rightarrow> nat" where
  "conf_length m conf = unat (m (conf + 4)) + 256 * unat (m (conf + 5))"

definition mpconfig :: "bytes \<Rightarrow> (u32 \<times> u32) option" where
  "mpconfig m = (case mpsearch m of
     None \<Rightarrow> None
   | Some mp \<Rightarrow> (if ld32 m (mp + 4) = 0 then None
       else let conf = p2v (ld32 m (mp + 4)) in
         if \<not> has_sig m conf ''PCMP'' then None
         else if m (conf + 6) \<noteq> 1 \<and> m (conf + 6) \<noteq> 4 then None
         else if chsum m conf (conf_length m conf) \<noteq> 0 then None
         else Some (mp, conf)))"

section \<open>mpinit\<close>

text \<open>A processor: its APIC id is at 1, its flags at 3; \<open>cpus\<close> has no room for a ninth.\<close>

definition mp_proc :: "u32 \<Rightarrow> (unit, 'z kmem_scheme) K" where
  "mp_proc p = kbind (kget (\<lambda>s. (mem s, ncpu s))) (\<lambda>(m, n). kblock
     [kwhen (n \<noteq> unat (m (p + 1))) (kseq
        (cprintf (''mpinit: ncpu=%d apicid=%d'' @ [CHR 10]) [AInt (int n), AInt (uint (m (p + 1)))])
        (kmod (ismp_update (\<lambda>_. False)))),
      kwhen (m (p + 3) AND MPBOOT \<noteq> 0) (kmod (bcpu_update (\<lambda>_. n))),
      if n < NCPU then kmod (\<lambda>s. s\<lparr>cpu_ids := (cpu_ids s)(n := n)\<rparr>) else kundef,
      kmod (ncpu_update Suc)])"

text \<open>
  The walk over the entries, \<open>off\<close> bytes into the table. An entry of another kind is reported again and
  again: the loop does not step over it.
\<close>

function mp_entries :: "u32 \<Rightarrow> nat \<Rightarrow> nat \<Rightarrow> (unit, 'z kmem_scheme) K" where
  "mp_entries conf len off = (if \<not> off < len then kret ()
     else kbind (kget (\<lambda>s. mem s (conf + of_nat off))) (\<lambda>ty. let p = conf + of_nat off in
       if ty = MPPROC then kseq (mp_proc p) (mp_entries conf len (off + 20))
       else if ty = MPIOAPIC then
         kseq (kmod (\<lambda>s. s\<lparr>ioapicid := mem s (p + 1)\<rparr>)) (mp_entries conf len (off + 8))
       else if ty = MPBUS \<or> ty = MPIOINTR \<or> ty = MPLINTR then mp_entries conf len (off + 8)
       else khang))"
  by auto
termination
  by (relation "measure (\<lambda>(conf, len, off). len - off)") auto

declare mp_entries.simps [simp del]

definition mpinit :: "u8 \<Rightarrow> (unit, 'z kmem_scheme) K" where
  "mpinit imcr = kseq (kmod (bcpu_update (\<lambda>_. 0))) (kbind (kget mem) (\<lambda>m. case mpconfig m of
     None \<Rightarrow> kret ()
   | Some (mp, conf) \<Rightarrow> kblock
      [kmod (ismp_update (\<lambda>_. True)),
       kmod (lapic_ptr_update (\<lambda>_. ld32 m (conf + 36))),
       mp_entries conf (conf_length m conf) 44,
       kbind (kget ismp) (\<lambda>mpok.
         if \<not> mpok then kmod (\<lambda>s. s\<lparr>ncpu := 1, lapic_ptr := 0, ioapicid := 0\<rparr>)
         else kwhen (m (mp + 12) \<noteq> 0) (kblock [outb 0x22 0x70, outb 0x23 (imcr OR 1)]))]))"

section \<open>ioapic.c and lapic.c at start-up\<close>

definition ioapicinit :: "(unit, 'z con_scheme) K" where
  "ioapicinit = kbind (kget ismp) (\<lambda>mp. kwhen mp (
     kbind (ioapicread 0x01) (\<lambda>ver. kbind (ioapicread 0x00) (\<lambda>idr. kbind (kget ioapicid) (\<lambda>myid.
     let maxintr = unat (drop_bit 16 ver AND 0xFF); id = drop_bit 24 idr in kblock
       [kwhen (id \<noteq> ucast myid) (cprintf (''ioapicinit: id isn'' @ [CHR 39] @ ''t equal to ioapicid; not a MP'' @ [CHR 10]) []),
        kfor [0..<maxintr + 1] (\<lambda>i. kblock
          [ioapicwrite (0x10 + 2 * i) (0x10000 OR of_nat (T_IRQ0 + i)),
           ioapicwrite (0x10 + 2 * i + 1) 0])])))))"

text \<open>\<open>inton\<close> is the interrupt flag, \<open>n\<close> the count of earlier calls with interrupts on, \<open>ra\<close> the caller.\<close>

definition cpunum :: "bool \<Rightarrow> nat \<Rightarrow> u32 \<Rightarrow> (nat, 'z con_scheme) K" where
  "cpunum inton n ra = kseq
     (kwhen (inton \<and> n = 0) (cprintf (''cpu called from %x with interrupts enabled'' @ [CHR 10]) [AInt (uint ra)]))
     (kget (\<lambda>s. if lapic_ptr s \<noteq> 0 then unat (drop_bit 24 (lapic_reg s (0x020 div 4))) else 0))"

definition st16 :: "u32 \<Rightarrow> u16 \<Rightarrow> bytes \<Rightarrow> bytes" where
  "st16 a v m = m(a := ucast v, a + 1 := ucast (drop_bit 8 v))"

definition lapicstartap :: "u8 \<Rightarrow> u32 \<Rightarrow> (unit, 'z kmem_scheme) K" where
  "lapicstartap apicid addr = (let wrv = p2v (push_bit 4 0x40 OR 0x67);
       ipi = [lapicw (0x310 div 4) (push_bit 24 (ucast apicid)), lapicw (0x300 div 4) (0x600 OR drop_bit 12 addr)] in kblock
     ([outb 0x70 0xF,
       outb 0x71 0x0A,
       kmod (mem_update (st16 wrv 0)),
       kmod (mem_update (st16 (wrv + 2) (ucast (drop_bit 4 addr)))),
       lapicw (0x310 div 4) (push_bit 24 (ucast apicid)),
       lapicw (0x300 div 4) (0x500 OR 0x8000 OR 0x4000),
       lapicw (0x300 div 4) (0x500 OR 0x8000)] @ ipi @ ipi))"

section \<open>The clock of the board\<close>

text \<open>\<open>rtc t reg\<close> is what register \<open>reg\<close> shows at read number \<open>t\<close>; the number goes along.\<close>

record rtcdate =
  r_second :: u32
  r_minute :: u32
  r_hour :: u32
  r_day :: u32
  r_month :: u32
  r_year :: u32

definition cmos_read :: "(nat \<Rightarrow> u8 \<Rightarrow> u8) \<Rightarrow> u8 \<Rightarrow> nat \<Rightarrow> (u32 \<times> nat, 'z irqc_scheme) K" where
  "cmos_read rtc reg t = kseq (outb 0x70 reg) (kret (ucast (rtc t reg), Suc t))"

definition fill_rtcdate :: "(nat \<Rightarrow> u8 \<Rightarrow> u8) \<Rightarrow> nat \<Rightarrow> (rtcdate \<times> nat, 'z irqc_scheme) K" where
  "fill_rtcdate rtc t = kbind (cmos_read rtc 0 t) (\<lambda>(se, t). kbind (cmos_read rtc 2 t) (\<lambda>(mi, t).
     kbind (cmos_read rtc 4 t) (\<lambda>(ho, t). kbind (cmos_read rtc 7 t) (\<lambda>(da, t). kbind (cmos_read rtc 8 t) (\<lambda>(mo, t).
     kbind (cmos_read rtc 9 t) (\<lambda>(ye, t).
     kret (\<lparr>r_second = se, r_minute = mi, r_hour = ho, r_day = da, r_month = mo, r_year = ye\<rparr>, t)))))))"

definition CONV :: "u32 \<Rightarrow> u32" where
  "CONV x = drop_bit 4 x * 10 + (x AND 0xf)"

text \<open>A turn of the loop that waits for two equal dates.\<close>

definition cmos_turn :: "(nat \<Rightarrow> u8 \<Rightarrow> u8) \<Rightarrow> nat \<Rightarrow> (nat + rtcdate \<times> nat, 'z irqc_scheme) K" where
  "cmos_turn rtc t = kbind (fill_rtcdate rtc t) (\<lambda>(t1, t). kbind (cmos_read rtc 0x0a t) (\<lambda>(sa, t).
     if sa AND 0x80 \<noteq> 0 then kret (Inl t)
     else kbind (fill_rtcdate rtc t) (\<lambda>(t2, t). kret (if t1 = t2 then Inr (t1, t) else Inl t))))"

definition cmostime :: "nat \<Rightarrow> (nat \<Rightarrow> u8 \<Rightarrow> u8) \<Rightarrow> nat \<Rightarrow> (rtcdate \<times> nat, 'z irqc_scheme) K" where
  "cmostime fuel rtc t = kbind (cmos_read rtc 0x0b t) (\<lambda>(sb, t). let bcd = (sb AND 4 = 0) in
     kbind (kloop fuel (cmos_turn rtc) t) (\<lambda>(t1, t).
     let r = (if bcd then \<lparr>r_second = CONV (r_second t1), r_minute = CONV (r_minute t1), r_hour = CONV (r_hour t1),
         r_day = CONV (r_day t1), r_month = CONV (r_month t1), r_year = CONV (r_year t1)\<rparr> else t1)
     in kret (r\<lparr>r_year := r_year r + 2000\<rparr>, t)))"

section \<open>Segments\<close>

record segdesc =
  lim_15_0 :: u16
  base_15_0 :: u16
  base_23_16 :: u8
  sd_type :: nat
  sd_s :: bool
  sd_dpl :: u16
  sd_p :: bool
  lim_19_16 :: nat
  sd_avl :: bool
  sd_rsv1 :: bool
  sd_db :: bool
  sd_g :: bool
  base_31_24 :: u8

definition SEG :: "nat \<Rightarrow> u32 \<Rightarrow> u32 \<Rightarrow> u16 \<Rightarrow> segdesc" where
  "SEG ty base lim d = \<lparr>lim_15_0 = ucast (drop_bit 12 lim AND 0xffff), base_15_0 = ucast (base AND 0xffff),
     base_23_16 = ucast (drop_bit 16 base AND 0xff), sd_type = ty, sd_s = True, sd_dpl = d, sd_p = True,
     lim_19_16 = unat (drop_bit 28 lim), sd_avl = False, sd_rsv1 = False, sd_db = True, sd_g = True,
     base_31_24 = ucast (drop_bit 24 base)\<rparr>"

definition STA_X :: nat where "STA_X = 8"
definition STA_W :: nat where "STA_W = 2"
definition STA_R :: nat where "STA_R = 2"
definition SEG_KDATA :: nat where "SEG_KDATA = 2"
definition SEG_KCPU :: nat where "SEG_KCPU = 3"

text \<open>\<open>caddr c\<close> is the address of the field \<open>cpu\<close> of \<open>cpus[c]\<close>. The result is the CPU and its table.\<close>

definition seginit :: "(nat \<Rightarrow> u32) \<Rightarrow> (nat \<Rightarrow> segdesc list) \<Rightarrow> (nat \<times> segdesc list, 'z pt_scheme) K" where
  "seginit caddr gdts = kbind (cpunum False 0 0) (\<lambda>c. kseq (kmod (curproc_update (\<lambda>_. None))) (kret (c, (gdts c)
     [unat SEG_KCODE := SEG (STA_X + STA_R) 0 0xffffffff 0,
      SEG_KDATA := SEG STA_W 0 0xffffffff 0,
      unat SEG_UCODE := SEG (STA_X + STA_R) 0 0xffffffff DPL_USER,
      unat SEG_UDATA := SEG STA_W 0 0xffffffff DPL_USER,
      SEG_KCPU := SEG STA_W (caddr c) 8 0])))"

section \<open>main.c\<close>

text \<open>
  What \<open>main\<close> gets from the linker and from the hardware: the image of entryother.S, three addresses, the
  code of the first process, the trap vectors, the places of the CPUs' data, and what the devices answer.
\<close>

record board =
  bd_imcr :: u8
  bd_lsr :: u8
  bd_poll :: "nat \<Rightarrow> u8"
  bd_up :: "nat \<Rightarrow> bool"
  bd_entryother :: "u8 list"
  bd_mpenter :: u32
  bd_entrypgdir :: u32
  bd_forkret :: u32
  bd_initcode :: "u8 list"
  bd_vectors :: "nat \<Rightarrow> u32"
  bd_caddr :: "nat \<Rightarrow> u32"
  bd_gdts :: "nat \<Rightarrow> segdesc list"

definition entrypgdir :: "u32 list" where
  "entrypgdir = (replicate 1024 0)[0 := PTE_P OR PTE_W OR 0x080, unat (drop_bit 22 KERNBASE) := PTE_P OR PTE_W OR 0x080]"

text \<open>A CPU that does not come up is waited for without end.\<close>

definition startothers :: "board \<Rightarrow> (unit, 'z kmem_scheme) K" where
  "startothers b = (let code = p2v 0x7000 in kseq (kmod (mem_update (wr_bytes code (bd_entryother b))))
     (kbind (kget ncpu) (\<lambda>n. kfor [0..<n] (\<lambda>c. kbind (cpunum False 0 0) (\<lambda>me.
       if c = me then kret ()
       else kbind kalloc (\<lambda>stack. kblock
         [store (code - 4) (stack + KSTACKSIZE),
          store (code - 8) (bd_mpenter b),
          store (code - 12) (v2p (bd_entrypgdir b)),
          kbind (kget (\<lambda>s. cpu_ids s c)) (\<lambda>id. lapicstartap (of_nat id) (v2p code)),
          if bd_up b c then kret () else khang]))))))"

text \<open>\<open>scheduler\<close> does not return; the first \<open>n\<close> turns of its loop are run.\<close>

definition mpmain :: "nat \<Rightarrow> (nat \<Rightarrow> 'z pt_scheme \<Rightarrow> 'z pt_scheme) \<Rightarrow> ('z pt_scheme \<Rightarrow> 'z pt_scheme) \<Rightarrow> nat
    \<Rightarrow> (unit, 'z pt_scheme) K" where
  "mpmain n run irq c = kbind (kget (\<lambda>s. cpu_ids s c)) (\<lambda>id. kseq
     (cprintf (''cpu%d: starting'' @ [CHR 10]) [AInt (int id)]) (kbind (scheduler n run irq) (\<lambda>_. kret ())))"

definition mpenter :: "nat \<Rightarrow> (nat \<Rightarrow> 'z kmem_scheme \<Rightarrow> 'z kmem_scheme) \<Rightarrow> ('z kmem_scheme \<Rightarrow> 'z kmem_scheme) \<Rightarrow> board
    \<Rightarrow> (segdesc list, 'z kmem_scheme) K" where
  "mpenter n run irq b = kseq switchkvm (kbind (seginit (bd_caddr b) (bd_gdts b)) (\<lambda>(c, gdt).
     kseq lapicinit (kseq (mpmain n run irq c) (kret gdt))))"

definition kmain :: "nat \<Rightarrow> (nat \<Rightarrow> 'z kern_scheme \<Rightarrow> 'z kern_scheme) \<Rightarrow> ('z kern_scheme \<Rightarrow> 'z kern_scheme) \<Rightarrow> board
    \<Rightarrow> (segdesc list \<times> gatedesc list, 'z kern_scheme) K" where
  "kmain n run irq b = kseq (kblock
     [kbind (kget kend) (\<lambda>e. kinit1 e (p2v (4 * 1024 * 1024))),
      kvmalloc,
      mpinit (bd_imcr b),
      lapicinit])
    (kbind (seginit (bd_caddr b) (bd_gdts b)) (\<lambda>(c, gdt). kseq (kblock
     [kbind (kget (\<lambda>s. cpu_ids s c)) (\<lambda>id. cprintf ([CHR 10] @ ''cpu%d: starting xv6'' @ [CHR 10, CHR 10]) [AInt (int id)]),
      picinit,
      ioapicinit,
      consoleinit,
      uartinit (bd_lsr b),
      pinit]) (let idt = tvinit (bd_vectors b) in kseq (kblock
     [binit,
      fileinit,
      ideinit (bd_poll b),
      kbind (kget ismp) (\<lambda>mp. kwhen (\<not> mp) timerinit),
      startothers b,
      kinit2 (p2v (4 * 1024 * 1024)) (p2v PHYSTOP),
      userinit (bd_forkret b) (bd_initcode b),
      mpmain n run irq c]) (kret (gdt, idt)))))"

section \<open>Printing at start-up\<close>

text \<open>Before the console lock is used, printing changes the screen and the serial line and nothing else.\<close>

definition quiet :: "'z con_scheme \<Rightarrow> bool" where
  "quiet s \<longleftrightarrow> \<not> con_locking s \<and> \<not> panicked s \<and> crt_pos s < 24 * 80"

definition prints_only :: "(unit, 'z con_scheme) K \<Rightarrow> bool" where
  "prints_only k \<longleftrightarrow> (\<forall>s. quiet s \<longrightarrow> (\<exists>w m hi lo. k s = Ok () (s\<lparr>uart_out := w, crt := m, crt_hi := hi, crt_lo := lo\<rparr>) \<and>
     quiet (s\<lparr>uart_out := w, crt := m, crt_hi := hi, crt_lo := lo\<rparr>)))"

lemma prints_only_ret [simp]: "prints_only (kret () :: (unit, 'z con_scheme) K)"
proof (unfold prints_only_def, intro allI impI)
  fix s :: "'z con_scheme" assume "quiet s"
  then show "\<exists>w m hi lo. kret () s = Ok () (s\<lparr>uart_out := w, crt := m, crt_hi := hi, crt_lo := lo\<rparr>) \<and>
      quiet (s\<lparr>uart_out := w, crt := m, crt_hi := hi, crt_lo := lo\<rparr>)"
    by (intro exI [of _ "uart_out s"] exI [of _ "crt s"] exI [of _ "crt_hi s"] exI [of _ "crt_lo s"]) simp
qed

lemma prints_only_seq [simp]:
  fixes a b :: "(unit, 'z con_scheme) K"
  assumes "prints_only a" "prints_only b"
  shows "prints_only (kseq a b)"
proof (unfold prints_only_def, intro allI impI)
  fix s :: "'z con_scheme" assume "quiet s"
  then obtain w m hi lo where 1: "a s = Ok () (s\<lparr>uart_out := w, crt := m, crt_hi := hi, crt_lo := lo\<rparr>)"
    "quiet (s\<lparr>uart_out := w, crt := m, crt_hi := hi, crt_lo := lo\<rparr>)" using assms(1) unfolding prints_only_def by blast
  then obtain w' m' hi' lo' where 2: "b (s\<lparr>uart_out := w, crt := m, crt_hi := hi, crt_lo := lo\<rparr>) =
      Ok () (s\<lparr>uart_out := w, crt := m, crt_hi := hi, crt_lo := lo, uart_out := w', crt := m', crt_hi := hi', crt_lo := lo'\<rparr>)"
    "quiet (s\<lparr>uart_out := w, crt := m, crt_hi := hi, crt_lo := lo, uart_out := w', crt := m', crt_hi := hi', crt_lo := lo'\<rparr>)"
    using assms(2) unfolding prints_only_def by blast
  show "\<exists>w m hi lo. kseq a b s = Ok () (s\<lparr>uart_out := w, crt := m, crt_hi := hi, crt_lo := lo\<rparr>) \<and>
      quiet (s\<lparr>uart_out := w, crt := m, crt_hi := hi, crt_lo := lo\<rparr>)"
    using 1(1) 2 by (intro exI [of _ w'] exI [of _ m'] exI [of _ hi'] exI [of _ lo']) (simp add: kseq_def kbind_def)
qed

lemma prints_only_putchar [simp]: "prints_only (putchar c)"
  unfolding prints_only_def putchar_def quiet_def using consputc_ok by fastforce

lemma prints_only_chars [simp]: "prints_only (kfor cs putchar)"
  by (induction cs) simp_all

lemma prints_only_int [simp]: "prints_only (printint x b sg)"
  by (simp add: printint_def)

lemma prints_cprintf:
  assumes "prints_only (cprintf_go fmt args :: (unit, 'z con_scheme) K)"
  shows "prints_only (cprintf fmt args :: (unit, 'z con_scheme) K)"
proof (unfold prints_only_def, intro allI impI)
  fix s :: "'z con_scheme" assume q: "quiet s"
  then have "cprintf fmt args s = kseq (cprintf_go fmt args) (kret ()) s"
    by (simp add: cprintf_def quiet_def kwhen_def kseq_def kbind_def split: res.split)
  then show "\<exists>w m hi lo. cprintf fmt args s = Ok () (s\<lparr>uart_out := w, crt := m, crt_hi := hi, crt_lo := lo\<rparr>) \<and>
      quiet (s\<lparr>uart_out := w, crt := m, crt_hi := hi, crt_lo := lo\<rparr>)"
    using prints_only_seq [OF assms prints_only_ret] q unfolding prints_only_def by simp
qed

lemma prints_mpinit: "prints_only (cprintf (''mpinit: ncpu=%d apicid=%d'' @ [CHR 10]) [AInt a, AInt b])"
  by (rule prints_cprintf) simp

section \<open>What mpinit makes of a table\<close>

datatype mpentry = EProc u8 bool | EIoapic u8 | EOther

text \<open>The entries of a table, up to its end or to one of another kind, and whether its end was reached.\<close>

function mp_table :: "bytes \<Rightarrow> u32 \<Rightarrow> nat \<Rightarrow> nat \<Rightarrow> mpentry list \<times> bool" where
  "mp_table m conf len off = (if \<not> off < len then ([], True)
     else let p = conf + of_nat off in
       if m p = MPPROC then apfst (Cons (EProc (m (p + 1)) (m (p + 3) AND MPBOOT \<noteq> 0))) (mp_table m conf len (off + 20))
       else if m p = MPIOAPIC then apfst (Cons (EIoapic (m (p + 1)))) (mp_table m conf len (off + 8))
       else if m p = MPBUS \<or> m p = MPIOINTR \<or> m p = MPLINTR then apfst (Cons EOther) (mp_table m conf len (off + 8))
       else ([], False))"
  by auto
termination
  by (relation "measure (\<lambda>(m, conf, len, off). len - off)") auto

declare mp_table.simps [simp del]

fun apic_ids :: "mpentry list \<Rightarrow> nat list" where
  "apic_ids [] = []"
| "apic_ids (EProc a b # es) = unat a # apic_ids es"
| "apic_ids (_ # es) = apic_ids es"

text \<open>The last processor marked as the boot processor, and the last I/O APIC.\<close>

fun boot_of :: "mpentry list \<Rightarrow> nat \<Rightarrow> nat \<Rightarrow> nat" where
  "boot_of [] n c = c"
| "boot_of (EProc a b # es) n c = boot_of es (Suc n) (if b then n else c)"
| "boot_of (_ # es) n c = boot_of es n c"

fun ioapic_of :: "mpentry list \<Rightarrow> u8 \<Rightarrow> u8" where
  "ioapic_of [] c = c"
| "ioapic_of (EIoapic a # es) c = ioapic_of es a"
| "ioapic_of (_ # es) c = ioapic_of es c"

lemma mp_proc_run:
  assumes q: "quiet s"
  shows "if ncpu s < NCPU then \<exists>t. mp_proc p s = Ok () t \<and> quiet t \<and> mem t = mem s \<and> ports t = ports s \<and>
      lapic_ptr t = lapic_ptr s \<and> ncpu t = Suc (ncpu s) \<and> ismp t = (ismp s \<and> unat (mem s (p + 1)) = ncpu s) \<and>
      bcpu t = (if mem s (p + 3) AND MPBOOT \<noteq> 0 then ncpu s else bcpu s) \<and> ioapicid t = ioapicid s \<and>
      cpu_ids t = (cpu_ids s)(ncpu s := ncpu s)
    else mp_proc p s = Undef"
proof -
  let ?n = "ncpu s" let ?m = "mem s"
  let ?pr = "cprintf (''mpinit: ncpu=%d apicid=%d'' @ [CHR 10]) [AInt (int ?n), AInt (uint (?m (p + 1)))]"
  obtain t where t: "kwhen (?n \<noteq> unat (?m (p + 1))) (kseq ?pr (kmod (ismp_update (\<lambda>_. False)))) s = Ok () t" "quiet t" "mem t = ?m"
    "ports t = ports s" "lapic_ptr t = lapic_ptr s" "ncpu t = ?n" "bcpu t = bcpu s" "ioapicid t = ioapicid s" "cpu_ids t = cpu_ids s"
    "ismp t = (ismp s \<and> unat (?m (p + 1)) = ?n)"
  proof (cases "?n = unat (?m (p + 1))")
    case True
    then show ?thesis using that [of s] q by (simp add: kwhen_def)
  next
    case False
    obtain w m hi lo where 1: "?pr s = Ok () (s\<lparr>uart_out := w, crt := m, crt_hi := hi, crt_lo := lo\<rparr>)"
      "quiet (s\<lparr>uart_out := w, crt := m, crt_hi := hi, crt_lo := lo\<rparr>)"
      using prints_mpinit q unfolding prints_only_def by blast
    let ?t = "s\<lparr>ismp := False, uart_out := w, crt := m, crt_hi := hi, crt_lo := lo\<rparr>"
    have "quiet ?t" using 1(2) by (simp add: quiet_def crt_pos_def)
    then show ?thesis using that [of ?t] 1(1) False by (simp add: kwhen_def kseq_def kbind_def)
  qed
  show ?thesis using t
    by (auto simp: mp_proc_def kseq_def kbind_def kwhen_def quiet_def crt_pos_def)
qed

lemma mp_entries_run:
  "quiet s \<Longrightarrow> ncpu s \<le> NCPU \<Longrightarrow> mp_table (mem s) conf len off = (es, ok) \<Longrightarrow> n = ncpu s + length (apic_ids es) \<Longrightarrow>
   if NCPU < n then mp_entries conf len off s = Undef
   else if \<not> ok then mp_entries conf len off s = Hang
   else \<exists>t. mp_entries conf len off s = Ok () t \<and> quiet t \<and> mem t = mem s \<and> ports t = ports s \<and> lapic_ptr t = lapic_ptr s \<and>
     ncpu t = n \<and> ismp t = (ismp s \<and> apic_ids es = [ncpu s..<n]) \<and> bcpu t = boot_of es (ncpu s) (bcpu s) \<and>
     ioapicid t = ioapic_of es (ioapicid s) \<and> cpu_ids t = (\<lambda>c. if ncpu s \<le> c \<and> c < n then c else cpu_ids s c)"
proof (induction "len - off" arbitrary: off s es rule: less_induct)
  case less
  let ?m = "mem s" let ?p = "conf + of_nat off :: u32"
  consider "\<not> off < len" | "off < len" "?m ?p = MPPROC" | "off < len" "?m ?p = MPIOAPIC"
    | "off < len" "?m ?p = MPBUS \<or> ?m ?p = MPIOINTR \<or> ?m ?p = MPLINTR"
    | "off < len" "?m ?p \<notin> {MPPROC, MPIOAPIC, MPBUS, MPIOINTR, MPLINTR}" by blast
  then show ?case
  proof cases
    case 1
    then show ?thesis using less.prems
      by (auto simp: mp_entries.simps [of conf len off] mp_table.simps [of _ conf len off] fun_eq_iff)
  next
    case 2
    obtain es' where es: "es = EProc (?m (?p + 1)) (?m (?p + 3) AND MPBOOT \<noteq> 0) # es'"
      "mp_table ?m conf len (off + 20) = (es', ok)"
      using less.prems(3) 2 by (cases "mp_table ?m conf len (off + 20)") (auto simp: mp_table.simps [of _ conf len off] Let_def)
    have run: "mp_entries conf len off s = kseq (mp_proc ?p) (mp_entries conf len (off + 20)) s"
      using 2 by (simp add: mp_entries.simps [of conf len off] Let_def)
    show ?thesis
    proof (cases "ncpu s < NCPU")
      case False
      then have "mp_entries conf len off s = Undef"
        using mp_proc_run [OF less.prems(1), of ?p] run by (simp add: kseq_def kbind_def)
      then show ?thesis using False less.prems(2,4) es by simp
    next
      case True
      then obtain t where t: "mp_proc ?p s = Ok () t" "quiet t" "mem t = ?m" "ports t = ports s" "lapic_ptr t = lapic_ptr s"
        "ncpu t = Suc (ncpu s)" "ismp t = (ismp s \<and> unat (?m (?p + 1)) = ncpu s)"
        "bcpu t = (if ?m (?p + 3) AND MPBOOT \<noteq> 0 then ncpu s else bcpu s)" "ioapicid t = ioapicid s"
        "cpu_ids t = (cpu_ids s)(ncpu s := ncpu s)"
        using mp_proc_run [OF less.prems(1), of ?p] by auto
      have run': "mp_entries conf len off s = mp_entries conf len (off + 20) t" using run t(1) by (simp add: kseq_def kbind_def)
      have n: "n = ncpu t + length (apic_ids es')" using less.prems(4) es t(6) by simp
      have dec: "len - (off + 20) < len - off" "ncpu t \<le> NCPU" using 2 True t(6) by simp_all
      have ups: "(unat (?m (?p + 1)) = ncpu s \<and> apic_ids es' = [Suc (ncpu s)..<n]) =
          (unat (?m (?p + 1)) # apic_ids es' = [ncpu s..<n])"
      proof -
        have "ncpu s < n" using n t(6) by linarith
        then show ?thesis by (simp only: upt_conv_Cons list.inject)
      qed
      have ids: "(\<lambda>c. if ncpu t \<le> c \<and> c < n then c else cpu_ids t c) = (\<lambda>c. if ncpu s \<le> c \<and> c < n then c else cpu_ids s c)"
        using n t(6,10) by (auto simp: fun_eq_iff)
      show ?thesis
        using less.hyps [OF dec(1) t(2) dec(2) es(2) [folded t(3)] n] unfolding run' ids
        by (simp add: t es(1) ups [symmetric] conj_assoc split del: if_split cong: if_cong)
    qed
  next
    case 3
    obtain es' where es: "es = EIoapic (?m (?p + 1)) # es'" "mp_table ?m conf len (off + 8) = (es', ok)"
      using less.prems(3) 3 by (cases "mp_table ?m conf len (off + 8)") (auto simp: mp_table.simps [of _ conf len off] Let_def MPPROC_def MPIOAPIC_def)
    define t where "t = s\<lparr>ioapicid := ?m (?p + 1)\<rparr>"
    have run: "mp_entries conf len off s = mp_entries conf len (off + 8) t"
      using 3 by (simp add: mp_entries.simps [of conf len off] Let_def kseq_def MPPROC_def MPIOAPIC_def t_def)
    have t: "mem t = ?m" "ports t = ports s" "lapic_ptr t = lapic_ptr s" "ncpu t = ncpu s" "ismp t = ismp s" "bcpu t = bcpu s"
      "ioapicid t = ?m (?p + 1)" "cpu_ids t = cpu_ids s" by (simp_all add: t_def)
    have q: "quiet t" using less.prems(1) by (simp add: quiet_def crt_pos_def t_def)
    have dec: "len - (off + 8) < len - off" using 3 by simp
    have n: "n = ncpu t + length (apic_ids es')" using less.prems(4) es t(4) by simp
    show ?thesis unfolding run using less.hyps [OF dec q less.prems(2) [folded t(4)] es(2) [folded t(1)] n]
      by (simp add: t es(1) split del: if_split cong: if_cong)
  next
    case 4
    obtain es' where es: "es = EOther # es'" "mp_table ?m conf len (off + 8) = (es', ok)"
      using less.prems(3) 4 by (cases "mp_table ?m conf len (off + 8)")
        (auto simp: mp_table.simps [of _ conf len off] Let_def MPPROC_def MPIOAPIC_def MPBUS_def MPIOINTR_def MPLINTR_def)
    have run: "mp_entries conf len off s = mp_entries conf len (off + 8) s"
      using 4 by (auto simp: mp_entries.simps [of conf len off] Let_def MPPROC_def MPIOAPIC_def MPBUS_def MPIOINTR_def MPLINTR_def)
    have dec: "len - (off + 8) < len - off" using 4 by simp
    have n: "n = ncpu s + length (apic_ids es')" using less.prems(4) es by simp
    show ?thesis unfolding run using less.hyps [OF dec less.prems(1,2) es(2) n] by (simp add: es(1) split del: if_split cong: if_cong)
  next
    case 5
    then show ?thesis using less.prems
      by (auto simp: mp_entries.simps [of conf len off] mp_table.simps [of _ conf len off] Let_def)
  qed
qed

text \<open>
  C4. \<open>mpinit\<close> on a machine with a configuration table: it returns exactly when the walk over the entries
  meets no entry of an unknown kind before the end of the table and no more than \<open>NCPU\<close> processors. After
  an unknown entry it prints for ever, and a ninth processor is written behind \<open>cpus\<close>. When it returns
  and the APIC ids are 0, 1, 2, ... in order, every processor is in \<open>cpus\<close> under its number and the machine
  is used as a multiprocessor; otherwise one CPU is used, without local and I/O APIC.
\<close>

theorem mpinit_ends:
  assumes "quiet s" "ncpu s = 0" and "mpconfig (mem s) = Some (mp, conf)"
    and "mp_table (mem s) conf (conf_length (mem s) conf) 44 = (es, ok)"
  shows "((\<exists>t. mpinit imcr s = Ok () t) \<longleftrightarrow> ok \<and> length (apic_ids es) \<le> NCPU) \<and>
    (length (apic_ids es) \<le> NCPU \<and> \<not> ok \<longrightarrow> mpinit imcr s = Hang) \<and>
    (NCPU < length (apic_ids es) \<longrightarrow> mpinit imcr s = Undef) \<and>
    (\<forall>t. mpinit imcr s = Ok () t \<longrightarrow>
      (if apic_ids es = [0..<length (apic_ids es)]
       then ismp t \<and> ncpu t = length (apic_ids es) \<and> lapic_ptr t = ld32 (mem s) (conf + 36) \<and> bcpu t = boot_of es 0 0 \<and>
         ioapicid t = ioapic_of es (ioapicid s) \<and> (\<forall>c < ncpu t. cpu_ids t c = c)
       else \<not> ismp t \<and> ncpu t = 1 \<and> lapic_ptr t = 0 \<and> ioapicid t = 0))"
proof -
  let ?m = "mem s" let ?n = "length (apic_ids es)"
  define u where "u = s\<lparr>bcpu := 0, ismp := True, lapic_ptr := ld32 ?m (conf + 36)\<rparr>"
  have u: "mem u = ?m" "ncpu u = 0" "ismp u" "bcpu u = 0" "ioapicid u = ioapicid s" "lapic_ptr u = ld32 ?m (conf + 36)"
    "quiet u" using assms(1,2) by (simp_all add: u_def quiet_def crt_pos_def)
  define fin :: "(unit, 'a kmem_scheme) K" where "fin = kbind (kget ismp) (\<lambda>mpok.
      if \<not> mpok then kmod (\<lambda>s. s\<lparr>ncpu := 1, lapic_ptr := 0, ioapicid := 0\<rparr>)
      else kwhen (?m (mp + 12) \<noteq> 0) (kblock [outb 0x22 0x70, outb 0x23 (imcr OR 1)]))"
  have run: "mpinit imcr s = kseq (mp_entries conf (conf_length ?m conf) 44) fin u"
    using assms(3) by (simp add: mpinit_def kseq_def kbind_def fin_def u_def cong: if_cong res.case_cong)
  have n: "?n = ncpu u + length (apic_ids es)" using u(2) by simp
  note r = mp_entries_run [OF u(7) _ assms(4) [folded u(1)] n, unfolded u(1)]
  have le: "ncpu u \<le> NCPU" using u(2) by simp
  consider "NCPU < ?n" | "?n \<le> NCPU" "\<not> ok" | "?n \<le> NCPU" "ok" by linarith
  then show ?thesis
  proof cases
    case 1
    then have "mpinit imcr s = Undef" using r [OF le] unfolding run by (simp add: kseq_def kbind_def)
    then show ?thesis using 1 by simp
  next
    case 2
    then have "mpinit imcr s = Hang" using r [OF le] unfolding run by (simp add: kseq_def kbind_def)
    then show ?thesis using 2 by simp
  next
    case 3
    then obtain t where t: "mp_entries conf (conf_length ?m conf) 44 u = Ok () t" "lapic_ptr t = lapic_ptr u" "ncpu t = ?n"
      "ismp t = (apic_ids es = [0..<?n])" "bcpu t = boot_of es 0 0" "ioapicid t = ioapic_of es (ioapicid s)"
      "cpu_ids t = (\<lambda>c. if ncpu u \<le> c \<and> c < ?n then c else cpu_ids u c)"
      using r [OF le] u by auto
    have e: "mpinit imcr s = fin t" unfolding run using t(1) by (simp add: kseq_def kbind_def)
    show ?thesis
    proof (cases "ismp t")
      case True
      then show ?thesis using 3 t u e by (auto simp: fin_def kwhen_def outb_def kseq_def kbind_def)
    next
      case False
      then show ?thesis using 3 t e by (auto simp: fin_def)
    qed
  qed
qed

text \<open>A board with one processor and one I/O APIC, described in the first KB of the EBDA at 0x9F000.\<close>

definition board_bytes :: "u8 list" where
  "board_bytes = [0x5F, 0x4D, 0x50, 0x5F, 0x10, 0xF0, 0x09, 0x00, 1, 4, 151, 0, 0, 0, 0, 0,
     0x50, 0x43, 0x4D, 0x50, 72, 0, 4, 223] @ replicate 20 0 @ [0, 0, 0, 0, 0, 0, 2, 0, 0, 0, 0xE0, 0xFE, 0, 0, 0, 0] @
     [0, 0, 0, 3] @ replicate 16 0 @ [2, 1, 0, 1, 0, 0, 0xC0, 0xFE]"

definition board_mem :: bytes where
  "board_mem = (\<lambda>a. if a = 0x8000040F then 0x9F
     else if 0x8009F000 \<le> a \<and> a < 0x8009F058 then board_bytes ! unat (a - 0x8009F000) else 0)"

lemma board_tables:
  "mpconfig board_mem = Some (0x8009F000, 0x8009F010)"
  "mp_table board_mem 0x8009F010 (conf_length board_mem 0x8009F010) 44 = ([EProc 0 True, EIoapic 1], True)"
  by code_simp+

theorem mpinit_ends_witness:
  "\<exists>t. mpinit 0 (small_kmem\<lparr>mem := board_mem\<rparr>) = Ok () t \<and> ismp t \<and> ncpu t = 1 \<and> ioapicid t = 1"
proof -
  let ?s = "small_kmem\<lparr>mem := board_mem\<rparr>"
  have q: "quiet ?s" "ncpu ?s = 0"
    by (simp_all add: quiet_def crt_pos_def small_kmem_def boot_pt_def reset_irqc_def irqc.defs pt.defs)
  note w = mpinit_ends [OF q, of "0x8009F000" "0x8009F010" "[EProc 0 True, EIoapic 1]" True 0]
  then show ?thesis using board_tables by (auto simp: NCPU_def)
qed

section \<open>What the clock shows\<close>

definition raw_date :: "(nat \<Rightarrow> u8 \<Rightarrow> u8) \<Rightarrow> nat \<Rightarrow> rtcdate" where
  "raw_date rtc t = \<lparr>r_second = ucast (rtc t 0), r_minute = ucast (rtc (t + 1) 2), r_hour = ucast (rtc (t + 2) 4),
     r_day = ucast (rtc (t + 3) 7), r_month = ucast (rtc (t + 4) 8), r_year = ucast (rtc (t + 5) 9)\<rparr>"

lemma cmos_read_run: "cmos_read rtc reg t s = Ok (ucast (rtc t reg), Suc t) (s\<lparr>ports := ports s @ [(0x70, reg)]\<rparr>)"
  by (cases s) (simp add: cmos_read_def outb_def kseq_def kbind_def)

lemma fill_run: "\<exists>l. fill_rtcdate rtc t s = Ok (raw_date rtc t, t + 6) (s\<lparr>ports := l\<rparr>)"
  by (simp add: fill_rtcdate_def cmos_read_run kbind_def raw_date_def eval_nat_numeral) blast

lemma ucast_bit7: "(ucast (x :: u8) AND 0x80 :: u32) = 0 \<longleftrightarrow> x AND 0x80 = 0"
proof -
  have "(ucast x AND 2 ^ 7 :: u32) = 0 \<longleftrightarrow> x AND 2 ^ 7 = 0" unfolding and_exp_eq_0_iff_not_bit by (simp add: bit_ucast_iff)
  then show ?thesis by simp
qed

lemma cmos_turn_run:
  "\<exists>l. cmos_turn rtc t s = Ok (if rtc (t + 6) 0x0a AND 0x80 \<noteq> 0 then Inl (7 + t)
     else if raw_date rtc t = raw_date rtc (7 + t) then Inr (raw_date rtc t, t + 13) else Inl (t + 13)) (s\<lparr>ports := l\<rparr>)"
proof -
  obtain l where 1: "fill_rtcdate rtc t s = Ok (raw_date rtc t, t + 6) (s\<lparr>ports := l\<rparr>)" using fill_run by blast
  let ?s = "s\<lparr>ports := l @ [(0x70, 0x0a)]\<rparr>"
  obtain l' where 2: "fill_rtcdate rtc (7 + t) ?s = Ok (raw_date rtc (7 + t), t + 13) (?s\<lparr>ports := l'\<rparr>)"
    using fill_run [of rtc "7 + t" ?s] by auto
  show ?thesis using 1 2 by (auto simp: cmos_turn_def kbind_def cmos_read_run ucast_bit7)
qed

text \<open>A field of the clock in the form its control register says: two decimal digits, or a number.\<close>

definition field_value :: "bool \<Rightarrow> u32 \<Rightarrow> nat" where
  "field_value bcd x = (if bcd then 10 * (unat x div 16) + unat x mod 16 else unat x)"

lemma CONV_value: "x < 256 \<Longrightarrow> unat (CONV x) = 10 * (unat x div 16) + unat x mod 16"
proof -
  assume x: "x < 256"
  then have "unat x < 256" by (simp add: word_less_nat_alt)
  moreover have "x AND 0xf = x mod 16" using take_bit_eq_mask [of 4 x] take_bit_eq_mod [of 4 x] by (simp add: mask_eq_exp_minus_1)
  moreover have "drop_bit 4 x = x div 16" by (simp add: drop_bit_eq_div)
  ultimately show ?thesis by (simp add: CONV_def unat_word_ariths unat_div_distrib unat_mod_distrib)
qed

definition shown :: "bool \<Rightarrow> rtcdate \<Rightarrow> nat list" where
  "shown bcd d = map (field_value bcd) [r_second d, r_minute d, r_hour d, r_day d, r_month d, r_year d]"

definition date_nats :: "rtcdate \<Rightarrow> nat list" where
  "date_nats d = map unat [r_second d, r_minute d, r_hour d, r_day d, r_month d, r_year d - 2000]"

lemma byte_small: "(ucast (x :: u8) :: u32) < 256"
proof -
  have "unat x < 2 ^ LENGTH(8)" by (rule unsigned_less)
  then show ?thesis by (simp add: word_less_nat_alt unsigned_ucast_eq take_bit_nat_eq_self)
qed

lemma raw_small: "r_second (raw_date rtc t) < 256" "r_minute (raw_date rtc t) < 256" "r_hour (raw_date rtc t) < 256"
  "r_day (raw_date rtc t) < 256" "r_month (raw_date rtc t) < 256" "r_year (raw_date rtc t) < 256"
  by (simp_all add: raw_date_def byte_small)

text \<open>
  Whatever the clock does before read number \<open>T\<close>: if it then stands still, with no update in progress, the
  loop ends. The date it ends with was shown twice running, and no update was in progress in between.
\<close>

lemma cmos_loop:
  assumes still: "\<And>t' r. T \<le> t' \<Longrightarrow> rtc t' r = rtc T r" and idle: "rtc T 0x0a AND 0x80 = 0"
  shows "T - t < n \<Longrightarrow> \<exists>l t0. kloop n (cmos_turn rtc) t s = Ok (raw_date rtc t0, t0 + 13) (s\<lparr>ports := l\<rparr>) \<and> t \<le> t0 \<and>
    raw_date rtc t0 = raw_date rtc (7 + t0) \<and> rtc (t0 + 6) 0x0a AND 0x80 = 0"
proof (induction n arbitrary: t s)
  case (Suc n)
  obtain l where turn: "cmos_turn rtc t s = Ok (if rtc (t + 6) 0x0a AND 0x80 \<noteq> 0 then Inl (7 + t)
     else if raw_date rtc t = raw_date rtc (7 + t) then Inr (raw_date rtc t, t + 13) else Inl (t + 13)) (s\<lparr>ports := l\<rparr>)"
    using cmos_turn_run by blast
  show ?case
  proof (cases "rtc (t + 6) 0x0a AND 0x80 = 0 \<and> raw_date rtc t = raw_date rtc (7 + t)")
    case True
    then have "kloop (Suc n) (cmos_turn rtc) t s = Ok (raw_date rtc t, t + 13) (s\<lparr>ports := l\<rparr>)"
      using turn by (simp add: kbind_def)
    then show ?thesis using True by blast
  next
    case False
    have "\<not> T \<le> t"
    proof
      assume "T \<le> t"
      then have eq: "rtc (t + k) r = rtc (7 + t + k) r" "rtc (t + k) r = rtc T r" for k r
        using still [of "t + k"] still [of "7 + t + k"] by (simp_all add: trans_le_add1)
      then have "raw_date rtc t = raw_date rtc (7 + t)" "rtc (t + 6) 0x0a = rtc T 0x0a"
        using eq(1) [of 0] eq(1) [of 1] eq(1) [of 2] eq(1) [of 3] eq(1) [of 4] eq(1) [of 5] by (simp_all only: raw_date_def add_0_right)
      then show False using False idle by simp
    qed
    then obtain t' where t': "kloop (Suc n) (cmos_turn rtc) t s = kloop n (cmos_turn rtc) t' (s\<lparr>ports := l\<rparr>)" "7 + t \<le> t'"
      using turn False by (auto simp: kbind_def split: if_splits)
    have "T - t' < n" using Suc.prems t'(2) \<open>\<not> T \<le> t\<close> by linarith
    from Suc.IH [OF this, of "s\<lparr>ports := l\<rparr>"] obtain l' t0 where
      "kloop n (cmos_turn rtc) t' (s\<lparr>ports := l\<rparr>) = Ok (raw_date rtc t0, t0 + 13) (s\<lparr>ports := l'\<rparr>)" "t' \<le> t0"
      "raw_date rtc t0 = raw_date rtc (7 + t0)" "rtc (t0 + 6) 0x0a AND 0x80 = 0" by auto
    then show ?thesis using t' by (intro exI [of _ l'] exI [of _ t0]) auto
  qed
qed simp

text \<open>
  C24. Reading the date ends once the clock stands still: if from some read on its registers do not change and
  no update is in progress, \<open>cmostime\<close> returns, with a date that the clock showed twice running with no
  update in progress in between, each field in decimal when the clock counts in BCD, and 2000 added to
  the year.
\<close>

theorem cmostime_returns:
  assumes "\<And>t' r. T \<le> t' \<Longrightarrow> rtc t' r = rtc T r" and "rtc T 0x0a AND 0x80 = 0"
  shows "\<exists>d t0 u. cmostime (Suc T) rtc t s = Ok (d, t0 + 13) u \<and> t < t0 \<and> date_nats d = shown (rtc t 0x0b AND 4 = 0) (raw_date rtc t0) \<and>
    raw_date rtc t0 = raw_date rtc (7 + t0) \<and> rtc (t0 + 6) 0x0a AND 0x80 = 0"
proof -
  let ?s = "s\<lparr>ports := ports s @ [(0x70, 0x0b)]\<rparr>"
  have "T - Suc t < Suc T" by simp
  from cmos_loop [where T = T and rtc = rtc, OF assms this, of ?s] obtain l t0 where
    l: "kloop (Suc T) (cmos_turn rtc) (Suc t) ?s = Ok (raw_date rtc t0, t0 + 13) (s\<lparr>ports := l\<rparr>)" "Suc t \<le> t0"
    "raw_date rtc t0 = raw_date rtc (7 + t0)" "rtc (t0 + 6) 0x0a AND 0x80 = 0" by auto
  have bcd: "(ucast (rtc t 11) AND 4 = (0 :: u32)) = (rtc t 11 AND 4 = 0)"
  proof -
    have "(ucast (rtc t 11) AND 2 ^ 2 :: u32) = 0 \<longleftrightarrow> rtc t 11 AND 2 ^ 2 = 0" unfolding and_exp_eq_0_iff_not_bit by (simp add: bit_ucast_iff)
    then show ?thesis by simp
  qed
  show ?thesis using l
    by (simp add: cmostime_def cmos_read_run kbind_def bcd Let_def del: kloop.simps)
      (auto simp: date_nats_def shown_def field_value_def CONV_value raw_small intro!: exI [of _ t0])
qed

text \<open>A clock read in BCD that shows 2:03:45 on 31 December, and stands still.\<close>

theorem cmostime_returns_witness:
  "\<exists>d t0 u. cmostime 1 (\<lambda>t (r :: u8). if r = 0 then 0x45 else if r = 2 then 3 else if r = 4 then 2 else if r = 7 then 0x31
       else if r = 8 then 0x12 else if r = 9 then 0x25 else 0) 0 reset_irqc = Ok (d, t0) u \<and> date_nats d = [45, 3, 2, 31, 12, 25]"
proof -
  let ?r = "\<lambda>(t :: nat) (r :: u8). if r = 0 then 0x45 else if r = 2 then 3 else if r = 4 then 2 else if r = 7 then 0x31
       else if r = 8 then 0x12 else if r = 9 then 0x25 else (0 :: u8)"
  have "\<exists>d t0 u. cmostime (Suc 0) ?r 0 reset_irqc = Ok (d, t0 + 13) u \<and> 0 < t0 \<and>
      date_nats d = shown (?r 0 0x0b AND 4 = 0) (raw_date ?r t0) \<and>
      raw_date ?r t0 = raw_date ?r (7 + t0) \<and> ?r (t0 + 6) 0x0a AND 0x80 = 0"
    by (rule cmostime_returns) simp_all
  moreover have "shown (?r 0 0x0b AND 4 = 0) (raw_date ?r t0) = [45, 3, 2, 31, 12, 25]" for t0
    by (simp add: shown_def raw_date_def field_value_def)
  ultimately show ?thesis by (metis One_nat_def)
qed

section \<open>What the processor reads in a segment\<close>

definition seg_base :: "segdesc \<Rightarrow> u32" where
  "seg_base d = ucast (base_15_0 d) OR push_bit 16 (ucast (base_23_16 d)) OR push_bit 24 (ucast (base_31_24 d))"

lemma SEG_base: "seg_base (SEG ty b l d) = b"
proof (rule bit_word_eqI)
  fix n assume "n < LENGTH(32)"
  then have n: "n < 32" by simp
  have m: "(0xffff :: u32) = mask 16" "(0xff :: u32) = mask 8" by (simp_all add: mask_eq_exp_minus_1)
  show "bit (seg_base (SEG ty b l d)) n = bit b n"
    unfolding seg_base_def SEG_def segdesc.select_convs m using n
    by (cases "n < 16"; cases "n < 24")
      (simp_all add: bit_or_iff bit_push_bit_iff bit_ucast_iff bit_drop_bit_eq bit_and_iff bit_mask_iff not_le, arith+)
qed

end
