(* ===== verification/Bootmain.thy ===== *)
theory Bootmain
  imports Exec "HOL-Library.Monad_Syntax"
begin

text \<open>
  kernel/bootmain.c, which loads the kernel from the disk. The state is the memory and the number of
  times the status of the drive has been read. A drive that never gets ready is waited for without end;
  the outcome is then \<open>None\<close>.
\<close>

unbundle bit_operations_syntax

record drive =
  dr_sect :: "nat \<Rightarrow> u8 list"
  dr_status :: "nat \<Rightarrow> u8"

definition SECTSIZE :: u32 where "SECTSIZE = 512"

partial_function (option) waitdisk :: "drive \<Rightarrow> nat \<Rightarrow> nat option" where
  "waitdisk dr k = (if dr_status dr k AND 0xC0 \<noteq> 0x40 then waitdisk dr (Suc k) else Some (Suc k))"

text \<open>The sector in the four command bytes; the low half of the last one is the top of the number.\<close>

definition sector_of :: "u8 \<Rightarrow> u8 \<Rightarrow> u8 \<Rightarrow> u8 \<Rightarrow> nat" where
  "sector_of b3 b4 b5 b6 = unat b3 + 256 * unat b4 + 65536 * unat b5 + 16777216 * unat (b6 AND 0xF)"

definition readsect :: "drive \<Rightarrow> u32 \<Rightarrow> u32 \<Rightarrow> bytes \<times> nat \<Rightarrow> (bytes \<times> nat) option" where
  "readsect dr dst offset = (\<lambda>(m, k). do {
     k \<leftarrow> waitdisk dr k;
     let sec = sector_of (ucast offset) (ucast (drop_bit 8 offset)) (ucast (drop_bit 16 offset)) (ucast (drop_bit 24 offset OR 0xE0));
     k \<leftarrow> waitdisk dr k;
     Some (wr_bytes dst (take (unat (4 * (SECTSIZE div 4))) (dr_sect dr sec)) m, k) })"

partial_function (option) readseg_loop :: "drive \<Rightarrow> u32 \<Rightarrow> u32 \<Rightarrow> u32 \<Rightarrow> bytes \<times> nat \<Rightarrow> (bytes \<times> nat) option" where
  "readseg_loop dr epa pa offset mk = (if pa < epa
     then do { mk \<leftarrow> readsect dr pa offset mk; readseg_loop dr epa (pa + SECTSIZE) (offset + 1) mk }
     else Some mk)"

definition readseg :: "drive \<Rightarrow> u32 \<Rightarrow> u32 \<Rightarrow> u32 \<Rightarrow> bytes \<times> nat \<Rightarrow> (bytes \<times> nat) option" where
  "readseg dr pa count offset = (let epa = pa + count; pa = pa - offset mod SECTSIZE; offset = offset div SECTSIZE + 1
     in readseg_loop dr epa pa offset)"

record seg =
  sg_off :: u32
  sg_paddr :: u32
  sg_filesz :: u32
  sg_memsz :: u32

definition seg_at :: "bytes \<Rightarrow> u32 \<Rightarrow> seg" where
  "seg_at m ph = \<lparr>sg_off = ld32 m (ph + 4), sg_paddr = ld32 m (ph + 12), sg_filesz = ld32 m (ph + 16), sg_memsz = ld32 m (ph + 20)\<rparr>"

definition load_seg :: "drive \<Rightarrow> seg \<Rightarrow> bytes \<times> nat \<Rightarrow> (bytes \<times> nat) option" where
  "load_seg dr g mk = do {
     (m, k) \<leftarrow> readseg dr (sg_paddr g) (sg_filesz g) (sg_off g) mk;
     Some (if sg_filesz g < sg_memsz g
       then stosb (sg_paddr g + sg_filesz g) 0 (unat (sg_memsz g - sg_filesz g)) m else m, k) }"

partial_function (option) load_loop :: "drive \<Rightarrow> u32 \<Rightarrow> u32 \<Rightarrow> bytes \<times> nat \<Rightarrow> (bytes \<times> nat) option" where
  "load_loop dr ph eph mk = (if ph < eph
     then do { mk \<leftarrow> load_seg dr (seg_at (fst mk) ph) mk; load_loop dr (ph + 32) eph mk }
     else Some mk)"

text \<open>The result: where to go on, or nothing for a disk without a kernel, and the memory.\<close>

definition bootmain :: "drive \<Rightarrow> bytes \<Rightarrow> (u32 option \<times> bytes) option" where
  "bootmain dr m = (let elf = 0x10000 in do {
     (m, k) \<leftarrow> readseg dr elf 4096 0 (m, 0);
     let hdr = elfhdr_of (rd_bytes m elf 52);
     if e_magic hdr \<noteq> ELF_MAGIC then Some (None, m)
     else do {
       let ph = elf + e_phoff hdr;
       (m, k) \<leftarrow> load_loop dr ph (ph + 32 * of_nat (e_phnum hdr)) (m, k);
       Some (Some (e_entry hdr), m) } })"

section \<open>Reading\<close>

text \<open>A drive with whole sectors that gets ready again and again.\<close>

definition sound_drive :: "drive \<Rightarrow> bool" where
  "sound_drive dr \<longleftrightarrow> (\<forall>n. length (dr_sect dr n) = 512) \<and> (\<forall>k. \<exists>j \<ge> k. dr_status dr j AND 0xC0 = 0x40)"

lemma waitdisk_ends:
  assumes "sound_drive dr"
  shows "\<exists>k'. waitdisk dr k = Some k'"
proof -
  obtain j where j: "k \<le> j" "dr_status dr j AND 0xC0 = 0x40" using assms by (auto simp: sound_drive_def)
  then show ?thesis
  proof (induction "j - k" arbitrary: k)
    case 0
    then show ?case by (subst waitdisk.simps) auto
  next
    case (Suc n)
    then have "\<exists>k'. waitdisk dr (Suc k) = Some k'" by (metis Suc_leI diff_Suc_Suc diff_diff_cancel diff_is_0_eq' le_neq_implies_less nat.simps(3) Suc_diff_le diff_Suc_1)
    then show ?case by (subst waitdisk.simps) auto
  qed
qed

lemma wr_bytes_nth:
  "length bs < 4294967296 \<Longrightarrow> wr_bytes d bs m a = (if unat (a - d) < length bs then bs ! unat (a - d) else m a)"
proof (induction bs arbitrary: d m)
  case Nil
  then show ?case by simp
next
  case (Cons b bs)
  then show ?case
  proof (cases "a = d")
    case True
    then show ?thesis using Cons.prems off_last [of "length bs" d] by (simp add: wr_bytes_other not_less)
  next
    case False
    then have "a - d \<noteq> 0" by simp
    then have "unat (a - d - 1) = unat (a - d) - 1" "0 < unat (a - d)" by (simp_all add: unat_minus_one unat_gt_0)
    then have "unat (a - (d + 1)) = unat (a - d) - 1" "0 < unat (a - d)" by (simp_all add: diff_diff_eq)
    then show ?thesis using Cons False by (auto simp: nth_Cons')
  qed
qed

lemma sector_id:
  assumes "unat (x :: u32) < 268435456"
  shows "sector_of (ucast x) (ucast (drop_bit 8 x)) (ucast (drop_bit 16 x)) (ucast (drop_bit 24 x OR 0xE0)) = unat x"
proof -
  define n where "n = unat x"
  have e: "(ucast (drop_bit 24 x OR 0xE0) :: u8) AND 0xF = ucast (drop_bit 24 x) AND 0xF"
  proof -
    have "(ucast (drop_bit 24 x OR 0xE0) :: u8) = ucast (drop_bit 24 x) OR 0xE0" by (rule bit_word_eqI) (simp add: bit_simps)
    then show ?thesis by (simp add: bit.conj_disj_distrib2)
  qed
  have f: "(y AND 0xF :: u8) = take_bit 4 y" for y by (simp add: take_bit_eq_mask mask_eq_exp_minus_1)
  have "n = n mod 256 + 256 * (n div 256 mod 256) + 65536 * (n div 65536 mod 256) + 16777216 * (n div 16777216)"
  proof -
    have "n div 256 = 256 * (n div 65536) + n div 256 mod 256" using div_mult2_eq [of n 256 256] by simp
    moreover have "n div 65536 = 256 * (n div 16777216) + n div 65536 mod 256" using div_mult2_eq [of n 65536 256] by simp
    moreover have "n = 256 * (n div 256) + n mod 256" by simp
    ultimately show ?thesis by linarith
  qed
  moreover have "n div 16777216 mod 16 = n div 16777216" using assms by (simp add: n_def div_less_iff_less_mult)
  ultimately show ?thesis
    unfolding sector_of_def e unfolding f
    by (simp add: n_def unsigned_ucast_eq unsigned_take_bit_eq take_bit_eq_mod drop_bit_eq_div unat_div_distrib unat_mod_distrib mod_mod_cancel)
qed

text \<open>The bytes of the disk, and of the image of the kernel, which starts at sector 1.\<close>

definition disk_byte :: "drive \<Rightarrow> nat \<Rightarrow> u8" where
  "disk_byte dr i = dr_sect dr (i div 512) ! (i mod 512)"

definition image :: "drive \<Rightarrow> nat \<Rightarrow> u8" where
  "image dr i = disk_byte dr (512 + i)"

lemma readsect_run:
  assumes ok: "sound_drive dr" and o: "unat offset < 268435456"
  shows "\<exists>m' k'. readsect dr dst offset (m, k) = Some (m', k') \<and>
    (\<forall>a. m' a = (if unat (a - dst) < 512 then disk_byte dr (512 * unat offset + unat (a - dst)) else m a))"
proof -
  obtain k1 k2 where k: "waitdisk dr k = Some k1" "waitdisk dr k1 = Some k2" using waitdisk_ends [OF ok] by blast
  have l: "length (dr_sect dr (unat offset)) = 512" using ok by (simp add: sound_drive_def)
  show ?thesis
    using k l wr_bytes_nth [of "dr_sect dr (unat offset)" dst m]
    by (simp add: readsect_def sector_id [OF o] SECTSIZE_def Let_def disk_byte_def)
qed

lemma readseg_loop_run:
  "sound_drive dr \<Longrightarrow> unat pa + 512 * n < 4294967296 \<Longrightarrow> unat epa \<le> unat pa + 512 * n \<Longrightarrow> (0 < n \<longrightarrow> unat pa + 512 * n < unat epa + 512) \<Longrightarrow>
   unat offset + n \<le> 268435456 \<Longrightarrow> \<exists>m' k'. readseg_loop dr epa pa offset (m, k) = Some (m', k') \<and>
    (\<forall>a. m' a = (if unat (a - pa) < 512 * n then disk_byte dr (512 * unat offset + unat (a - pa)) else m a))"
proof (induction n arbitrary: pa offset m k)
  case 0
  then have "\<not> pa < epa" by (simp add: word_less_nat_alt)
  then show ?case by (subst readseg_loop.simps) simp
next
  case (Suc n)
  have lt: "pa < epa" and o: "unat offset < 268435456" using Suc.prems by (simp_all add: word_less_nat_alt)
  obtain m1 k1 where 1: "readsect dr pa offset (m, k) = Some (m1, k1)"
    "\<And>a. m1 a = (if unat (a - pa) < 512 then disk_byte dr (512 * unat offset + unat (a - pa)) else m a)"
    using readsect_run [OF Suc.prems(1) o] by blast
  have u: "unat (pa + 512) = unat pa + 512" "unat (offset + 1) = unat offset + 1"
    using Suc.prems(2) o by (simp_all add: unat_word_ariths)
  obtain m2 k2 where 2: "readseg_loop dr epa (pa + 512) (offset + 1) (m1, k1) = Some (m2, k2)"
    "\<And>a. m2 a = (if unat (a - (pa + 512)) < 512 * n then disk_byte dr (512 * (unat offset + 1) + unat (a - (pa + 512))) else m1 a)"
    using Suc.IH [of "pa + 512" "offset + 1" m1 k1] Suc.prems u by auto
  have "readseg_loop dr epa pa offset (m, k) = Some (m2, k2)"
    using lt 1(1) 2(1) by (subst readseg_loop.simps) (simp add: SECTSIZE_def)
  moreover have "m2 a = (if unat (a - pa) < 512 * Suc n then disk_byte dr (512 * unat offset + unat (a - pa)) else m a)" for a
  proof -
    have nw: "no_wrap pa (512 * Suc n)" "no_wrap pa 512" "no_wrap (pa + 512) (512 * n)" using Suc.prems(2) u by (simp_all add: no_wrap_def)
    have d: "unat (a - (pa + 512)) = unat a - (unat pa + 512)" if "unat pa + 512 \<le> unat a" using that u by (simp add: unat_sub word_le_nat_alt)
    have e: "unat (a - pa) = unat a - unat pa" if "unat pa \<le> unat a" using that by (simp add: unat_sub word_le_nat_alt)
    show ?thesis unfolding 2(2) 1(2) off_iff [OF nw(1)] off_iff [OF nw(2)] off_iff [OF nw(3)] u
      using d e by auto
  qed
  ultimately show ?case by blast
qed

section \<open>Segments\<close>

text \<open>What loading a segment writes: whole sectors from where the first one starts, and the zeros.\<close>

definition sg_skip :: "seg \<Rightarrow> nat" where
  "sg_skip g = unat (sg_off g) mod 512"

definition sg_sectors :: "seg \<Rightarrow> nat" where
  "sg_sectors g = (unat (sg_filesz g) + sg_skip g + 511) div 512"

definition sg_size :: "seg \<Rightarrow> nat" where
  "sg_size g = max (unat (sg_filesz g)) (unat (sg_memsz g))"

definition foot :: "seg \<Rightarrow> nat set" where
  "foot g = {unat (sg_paddr g) - sg_skip g..<unat (sg_paddr g) - sg_skip g + 512 * sg_sectors g} \<union>
     {unat (sg_paddr g)..<unat (sg_paddr g) + sg_size g}"

definition seg_ok :: "seg \<Rightarrow> bool" where
  "seg_ok g \<longleftrightarrow> sg_skip g \<le> unat (sg_paddr g) \<and> unat (sg_paddr g) + sg_size g + 512 < 4294967296 \<and>
     unat (sg_off g) div 512 + 1 + sg_sectors g \<le> 268435456"

text \<open>The segment is in memory: its bytes of the file, then zeros.\<close>

definition loaded :: "drive \<Rightarrow> bytes \<Rightarrow> seg \<Rightarrow> bool" where
  "loaded dr m g \<longleftrightarrow> (\<forall>i < sg_size g. m (sg_paddr g + of_nat i) =
     (if i < unat (sg_filesz g) then image dr (unat (sg_off g) + i) else 0))"

lemma round512: "512 * ((c + 511) div 512) \<le> c + 511" "(c :: nat) \<le> 512 * ((c + 511) div 512)"
proof -
  have "c + 511 = 512 * ((c + 511) div 512) + (c + 511) mod 512" "(c + 511) mod 512 < 512" by simp_all
  then show "512 * ((c + 511) div 512) \<le> c + 511" "c \<le> 512 * ((c + 511) div 512)" by linarith+
qed

lemma sector_bounds:
  fixes p c r n :: nat
  assumes "512 * n \<le> c + r + 511" "c + r \<le> 512 * n" "r \<le> p" "p + c + 512 < 4294967296"
  shows "p - r + 512 * n < p + c + 512" "p - r + 512 * n < 4294967296" "p + c \<le> p - r + 512 * n"
  using assms by linarith+

lemma readseg_run:
  assumes ok: "sound_drive dr" and r: "unat offset mod 512 \<le> unat pa" "unat pa + unat count + 512 < 4294967296"
    and o: "unat offset div 512 + 1 + n \<le> 268435456" and n: "n = (unat count + unat offset mod 512 + 511) div 512"
  shows "\<exists>m' k'. readseg dr pa count offset (m, k) = Some (m', k') \<and>
    (\<forall>a. m' a = (if unat pa - unat offset mod 512 \<le> unat a \<and> unat a < unat pa - unat offset mod 512 + 512 * n
       then image dr (unat offset - unat offset mod 512 + (unat a - (unat pa - unat offset mod 512))) else m a))"
proof -
  let ?r = "unat offset mod 512" let ?pa = "pa - offset mod 512" let ?o = "offset div 512 + 1"
  have um: "unat (offset mod 512) = ?r" by (simp add: unat_mod_distrib)
  have u: "unat ?pa = unat pa - ?r" using r(1) um by (simp add: unat_sub word_le_nat_alt)
  have uo: "unat ?o = unat offset div 512 + 1" using o by (simp add: unat_word_ariths unat_div_distrib)
  have ue: "unat (pa + count) = unat pa + unat count" using r(2) by (simp add: unat_word_ariths)
  have b: "512 * n \<le> unat count + ?r + 511" "unat count + ?r \<le> 512 * n" unfolding n by (rule round512)+
  note sb = sector_bounds [OF b r(1,2), folded u ue]
  have pos: "0 < n \<longrightarrow> unat ?pa + 512 * n < unat (pa + count) + 512" using sb(1) by blast
  have lim: "unat ?pa + 512 * n < 4294967296" "unat (pa + count) \<le> unat ?pa + 512 * n" "unat ?o + n \<le> 268435456"
    using sb(2,3) o unfolding uo by simp_all
  obtain m' k' where e: "readseg_loop dr (pa + count) ?pa ?o (m, k) = Some (m', k')"
    "\<And>a. m' a = (if unat (a - ?pa) < 512 * n then disk_byte dr (512 * unat ?o + unat (a - ?pa)) else m a)"
    using readseg_loop_run [OF ok lim(1,2) pos lim(3), of m k] by blast
  have "m' a = (if unat pa - ?r \<le> unat a \<and> unat a < unat pa - ?r + 512 * n
       then image dr (unat offset - ?r + (unat a - (unat pa - ?r))) else m a)" for a
  proof -
    have nw: "no_wrap ?pa (512 * n)" using lim(1) by (simp add: no_wrap_def)
    have o2: "512 * unat ?o = 512 + (unat offset - ?r)" unfolding uo by (simp add: minus_mod_eq_mult_div)
    have "disk_byte dr (512 * unat ?o + unat (a - ?pa)) = disk_byte dr (512 + (unat offset - ?r + (unat a - (unat pa - ?r))))"
      if "unat pa - ?r \<le> unat a"
    proof -
      have "unat (a - ?pa) = unat a - (unat pa - ?r)" using that u by (simp add: unat_sub word_le_nat_alt)
      then show ?thesis unfolding o2 by (simp only: add.assoc)
    qed
    then show ?thesis unfolding e(2) off_iff [OF nw] u image_def by auto
  qed
  then show ?thesis using e(1) by (auto simp: readseg_def SECTSIZE_def Let_def)
qed

lemma load_seg_run:
  assumes ok: "sound_drive dr" and g: "seg_ok g"
  shows "\<exists>m' k'. load_seg dr g (m, k) = Some (m', k') \<and> loaded dr m' g \<and> (\<forall>a. unat a \<notin> foot g \<longrightarrow> m' a = m a)"
proof -
  let ?pa = "unat (sg_paddr g)" let ?fs = "unat (sg_filesz g)" let ?ms = "unat (sg_memsz g)" let ?r = "sg_skip g" let ?n = "sg_sectors g"
  have lim: "?pa + sg_size g + 512 < 4294967296" "?r \<le> ?pa" "?fs \<le> sg_size g" "?ms \<le> sg_size g"
    using g by (simp_all add: seg_ok_def sg_size_def)
  have "?pa + ?fs + 512 < 4294967296" using lim by linarith
  then obtain m1 k1 where 1: "readseg dr (sg_paddr g) (sg_filesz g) (sg_off g) (m, k) = Some (m1, k1)"
    "\<And>a. m1 a = (if ?pa - ?r \<le> unat a \<and> unat a < ?pa - ?r + 512 * ?n
       then image dr (unat (sg_off g) - ?r + (unat a - (?pa - ?r))) else m a)"
    using readseg_run [OF ok, of "sg_off g" "sg_paddr g" "sg_filesz g" ?n m k] g
    by (auto simp: seg_ok_def sg_skip_def sg_sectors_def)
  define m' where "m' = (if sg_filesz g < sg_memsz g then stosb (sg_paddr g + sg_filesz g) 0 (unat (sg_memsz g - sg_filesz g)) m1 else m1)"
  have z: "m' a = (if ?pa + ?fs \<le> unat a \<and> unat a < ?pa + ?ms then 0 else m1 a)" for a
  proof (cases "sg_filesz g < sg_memsz g")
    case True
    have lt: "?fs < ?ms" using True by (simp add: word_less_nat_alt)
    have u: "unat (sg_paddr g + sg_filesz g) = ?pa + ?fs" "unat (sg_memsz g - sg_filesz g) = ?ms - ?fs"
      using lim lt by (simp_all add: unat_word_ariths unat_sub word_le_nat_alt)
    have "?ms - ?fs < 4294967296" using lim by linarith
    note st = stosb_fill [OF this, of "sg_paddr g + sg_filesz g" 0 m1 a]
    have nw: "no_wrap (sg_paddr g + sg_filesz g) (?ms - ?fs)" using lim lt u(1) by (simp add: no_wrap_def)
    show ?thesis using True st lt unfolding m'_def u(2) off_iff [OF nw] u(1) by simp
  next
    case False
    then have "?ms \<le> ?fs" by (simp add: word_less_nat_alt)
    then have "\<not> (?pa + ?fs \<le> unat a \<and> unat a < ?pa + ?ms)" by linarith
    then show ?thesis using False unfolding m'_def by auto
  qed
  have cover: "?fs + ?r \<le> 512 * ?n" unfolding sg_sectors_def by (rule round512)
  have "loaded dr m' g"
    unfolding loaded_def
  proof (intro allI impI)
    fix i assume i: "i < sg_size g"
    have a: "unat (sg_paddr g + of_nat i) = ?pa + i" by (rule unat_add_off) (use i lim in \<open>auto simp: no_wrap_def\<close>)
    show "m' (sg_paddr g + of_nat i) = (if i < ?fs then image dr (unat (sg_off g) + i) else 0)"
    proof (cases "i < ?fs")
      case True
      have "unat (sg_off g) - ?r + (?pa + i - (?pa - ?r)) = unat (sg_off g) + i"
        using lim(2) by (simp add: sg_skip_def)
      moreover have "?pa - ?r \<le> ?pa + i" "?pa + i < ?pa - ?r + 512 * ?n" using True cover lim(2) by linarith+
      ultimately show ?thesis using True unfolding z 1(2) a by simp
    next
      case False
      then have "i < ?ms" using i by (simp add: sg_size_def max_def split: if_splits)
      then show ?thesis using False unfolding z a by simp
    qed
  qed
  moreover have "m' a = m a" if "unat a \<notin> foot g" for a
    using that lim(3,4) unfolding z 1(2) foot_def by (auto simp: not_le not_less)
  ultimately show ?thesis using 1(1) by (auto simp: load_seg_def m'_def)
qed

section \<open>The whole kernel\<close>

text \<open>The page the headers are read into, as the loader sees it.\<close>

definition header :: "drive \<Rightarrow> bytes" where
  "header dr a = image dr (unat (a - 0x10000))"

definition has_header :: "drive \<Rightarrow> bytes \<Rightarrow> bool" where
  "has_header dr m \<longleftrightarrow> (\<forall>a. 0x10000 \<le> unat a \<and> unat a < 0x11000 \<longrightarrow> m a = header dr a)"

lemma ld32_header:
  assumes "has_header dr m" "0x10000 \<le> unat a" "unat a + 4 \<le> 0x11000"
  shows "ld32 m a = ld32 (header dr) a"
proof (rule ld32_cong)
  fix k :: u32 assume "k < 4"
  then have "unat k < 4" by (simp add: word_less_nat_alt)
  then have "unat (a + k) = unat a + unat k" using assms(3) by (simp add: unat_word_ariths)
  then show "m (a + k) = header dr (a + k)" using assms \<open>unat k < 4\<close> by (simp add: has_header_def)
qed

lemma seg_at_header:
  assumes "has_header dr m" "0x10000 \<le> unat ph" "unat ph + 32 \<le> 0x11000"
  shows "seg_at m ph = seg_at (header dr) ph"
proof -
  have u: "unat (ph + 4) = unat ph + 4" "unat (ph + 12) = unat ph + 12" "unat (ph + 16) = unat ph + 16" "unat (ph + 20) = unat ph + 20"
    using assms(3) by (simp_all add: unat_word_ariths)
  show ?thesis using ld32_header [OF assms(1)] assms(2,3) by (simp add: seg_at_def u)
qed

definition span :: "seg \<Rightarrow> nat set" where
  "span g = {unat (sg_paddr g)..<unat (sg_paddr g) + sg_size g}"

text \<open>Segments that can be loaded one after the other: none reaches the headers or what was loaded before.\<close>

definition segs_ok :: "seg list \<Rightarrow> bool" where
  "segs_ok gs \<longleftrightarrow> (\<forall>g \<in> set gs. seg_ok g \<and> foot g \<inter> {0x10000..<0x11000} = {}) \<and>
     (\<forall>j < length gs. \<forall>i < j. foot (gs ! j) \<inter> span (gs ! i) = {})"

lemma segs_ok_Cons:
  assumes "segs_ok (g # gs)"
  shows "seg_ok g" "foot g \<inter> {0x10000..<0x11000} = {}" "segs_ok gs" "\<And>h. h \<in> set gs \<Longrightarrow> foot h \<inter> span g = {}"
proof -
  show "seg_ok g" "foot g \<inter> {0x10000..<0x11000} = {}" using assms by (simp_all add: segs_ok_def)
  have o: "foot ((g # gs) ! j) \<inter> span ((g # gs) ! i) = {}" if "j < Suc (length gs)" "i < j" for i j
    using assms that by (simp add: segs_ok_def)
  show "segs_ok gs" using assms o [of "Suc _" "Suc _"] by (simp add: segs_ok_def)
  show "foot h \<inter> span g = {}" if "h \<in> set gs" for h
  proof -
    obtain j where "j < length gs" "gs ! j = h" using \<open>h \<in> set gs\<close> by (auto simp: in_set_conv_nth)
    then show ?thesis using o [of "Suc j" 0] by simp
  qed
qed

lemma loaded_same:
  assumes "loaded dr m g" "seg_ok g" and "\<And>a. unat a \<in> span g \<Longrightarrow> m' a = m a"
  shows "loaded dr m' g"
  unfolding loaded_def
proof (intro allI impI)
  fix i assume i: "i < sg_size g"
  have "unat (sg_paddr g + of_nat i) = unat (sg_paddr g) + i"
    by (rule unat_add_off) (use i assms(2) in \<open>auto simp: no_wrap_def seg_ok_def\<close>)
  then have "m' (sg_paddr g + of_nat i) = m (sg_paddr g + of_nat i)" using i by (intro assms(3)) (simp add: span_def)
  then show "m' (sg_paddr g + of_nat i) = (if i < unat (sg_filesz g) then image dr (unat (sg_off g) + i) else 0)"
    using assms(1) i by (simp add: loaded_def)
qed

lemma ph_step: "unat (ph :: u32) + 32 * n \<le> 0x11000 \<Longrightarrow> unat (ph + 32 * of_nat n) = unat ph + 32 * n"
  using unat_add_off [of ph "Suc (32 * n)" "32 * n"] by (simp add: no_wrap_def)

lemma load_loop_run:
  assumes ok: "sound_drive dr"
  shows "segs_ok gs \<Longrightarrow> (\<forall>j < length gs. gs ! j = seg_at (header dr) (ph + 32 * of_nat j)) \<Longrightarrow> 0x10000 \<le> unat ph \<Longrightarrow>
    unat ph + 32 * length gs \<le> 0x11000 \<Longrightarrow> has_header dr m \<Longrightarrow>
    \<exists>m' k'. load_loop dr ph (ph + 32 * of_nat (length gs)) (m, k) = Some (m', k') \<and> (\<forall>g \<in> set gs. loaded dr m' g) \<and>
      (\<forall>a. (\<forall>g \<in> set gs. unat a \<notin> foot g) \<longrightarrow> m' a = m a)"
proof (induction gs arbitrary: ph m k)
  case Nil
  then show ?case by (subst load_loop.simps) simp
next
  case (Cons g gs)
  note sg = segs_ok_Cons [OF Cons.prems(1)]
  let ?eph = "ph + 32 * of_nat (length (g # gs))"
  have g: "g = seg_at (header dr) ph" using Cons.prems(2) by force
  have up: "unat (ph + 32) = unat ph + 32" "unat ?eph = unat ph + 32 * length (g # gs)"
    using ph_step [of ph 1] ph_step [OF Cons.prems(4)] Cons.prems(4) by simp_all
  have eph: "?eph = ph + 32 + 32 * of_nat (length gs)" by (simp add: algebra_simps)
  have lt: "ph < ?eph" unfolding word_less_nat_alt up(2) by simp
  have at: "seg_at m ph = g" using seg_at_header [OF Cons.prems(5,3)] Cons.prems(4) g by simp
  obtain m1 k1 where 1: "load_seg dr g (m, k) = Some (m1, k1)" "loaded dr m1 g" "\<And>a. unat a \<notin> foot g \<Longrightarrow> m1 a = m a"
    using load_seg_run [OF ok sg(1)] by blast
  have h1: "has_header dr m1" using Cons.prems(5) 1(3) sg(2) by (fastforce simp: has_header_def)
  have rest: "\<forall>j < length gs. gs ! j = seg_at (header dr) (ph + 32 + 32 * of_nat j)"
  proof (intro allI impI)
    fix j assume "j < length gs"
    then have "gs ! j = seg_at (header dr) (ph + 32 * of_nat (Suc j))" using Cons.prems(2) by force
    then show "gs ! j = seg_at (header dr) (ph + 32 + 32 * of_nat j)" by (simp add: algebra_simps)
  qed
  have lim: "0x10000 \<le> unat (ph + 32)" "unat (ph + 32) + 32 * length gs \<le> 0x11000" using Cons.prems(3,4) up(1) by simp_all
  obtain m2 k2 where 2: "load_loop dr (ph + 32) (ph + 32 + 32 * of_nat (length gs)) (m1, k1) = Some (m2, k2)"
    "\<forall>g \<in> set gs. loaded dr m2 g" "\<And>a. \<forall>g \<in> set gs. unat a \<notin> foot g \<Longrightarrow> m2 a = m1 a"
    using Cons.IH [OF sg(3) rest lim h1] by blast
  have "loaded dr m2 g"
    by (rule loaded_same [OF 1(2) sg(1)]) (rule 2(3), use sg(4) in blast)
  moreover have "load_loop dr ph ?eph (m, k) = Some (m2, k2)"
    using lt at 1(1) 2(1) unfolding eph by (subst load_loop.simps) (simp add: add.assoc)
  moreover have "m2 a = m a" if "\<forall>g \<in> set (g # gs). unat a \<notin> foot g" for a using that 1(3) 2(3) by simp
  ultimately show ?case using 2(2) by (intro exI [of _ m2] exI [of _ k2]) simp
qed

definition kernel_hdr :: "drive \<Rightarrow> elfhdr" where
  "kernel_hdr dr = elfhdr_of (map (image dr) [0..<52])"

definition kernel_segs :: "drive \<Rightarrow> seg list" where
  "kernel_segs dr = (let h = kernel_hdr dr in
     map (\<lambda>j. seg_at (header dr) (0x10000 + e_phoff h + 32 * of_nat j)) [0..<e_phnum h])"

text \<open>
  C5. From a drive that gets ready again and again, with an ELF image whose headers are in its first 4096 bytes and
  whose segments neither reach the headers nor what was loaded before them (where whole sectors are counted),
  \<open>bootmain\<close> ends: it jumps to the entry point with every segment in memory, its bytes from the file followed by
  zeros up to its size in memory.
\<close>

theorem bootmain_loads:
  assumes "sound_drive dr" and "e_magic (kernel_hdr dr) = ELF_MAGIC" and "segs_ok (kernel_segs dr)"
    and "unat (e_phoff (kernel_hdr dr)) + 32 * e_phnum (kernel_hdr dr) \<le> 4096"
  shows "\<exists>m'. bootmain dr m = Some (Some (e_entry (kernel_hdr dr)), m') \<and> (\<forall>g \<in> set (kernel_segs dr). loaded dr m' g)"
proof -
  let ?h = "kernel_hdr dr" let ?ph = "0x10000 + e_phoff ?h"
  have z: "unat (0 :: u32) mod 512 \<le> unat (0x10000 :: u32)" "unat (0x10000 :: u32) + unat (4096 :: u32) + 512 < 4294967296"
    "unat (0 :: u32) div 512 + 1 + 8 \<le> 268435456" "8 = (unat (4096 :: u32) + unat (0 :: u32) mod 512 + 511) div 512" by simp_all
  obtain m1 k1 where 1: "readseg dr 0x10000 4096 0 (m, 0) = Some (m1, k1)"
    "\<And>a. m1 a = (if 0x10000 \<le> unat a \<and> unat a < 0x11000 then image dr (unat a - 0x10000) else m a)"
    using readseg_run [OF assms(1) z, of m 0] by (auto simp del: not_le)
  have hd: "has_header dr m1"
    unfolding has_header_def
  proof (intro allI impI)
    fix a :: u32 assume a: "0x10000 \<le> unat a \<and> unat a < 0x11000"
    then have "unat (a - 0x10000) = unat a - 0x10000" by (simp add: unat_sub word_le_nat_alt)
    then show "m1 a = header dr a" using a by (simp add: 1(2) header_def)
  qed
  have "rd_bytes m1 0x10000 52 = map (image dr) [0..<52]"
  proof -
    have "m1 (0x10000 + of_nat i) = image dr i" if "i < 52" for i
    proof -
      have "unat (0x10000 + of_nat i :: u32) = unat (0x10000 :: u32) + i"
        by (rule unat_add_off [of _ 52]) (use that in \<open>simp_all add: no_wrap_def\<close>)
      then show ?thesis using that by (simp add: 1(2))
    qed
    then show ?thesis by (simp add: rd_bytes_def)
  qed
  then have hdr: "elfhdr_of (rd_bytes m1 0x10000 52) = ?h" by (simp add: kernel_hdr_def)
  have up: "unat ?ph = 0x10000 + unat (e_phoff ?h)" using assms(4) by (simp add: unat_word_ariths)
  have gs: "\<forall>j < length (kernel_segs dr). kernel_segs dr ! j = seg_at (header dr) (?ph + 32 * of_nat j)"
    "length (kernel_segs dr) = e_phnum ?h" by (simp_all add: kernel_segs_def Let_def)
  have lim: "0x10000 \<le> unat ?ph" "unat ?ph + 32 * length (kernel_segs dr) \<le> 0x11000" using assms(4) up gs(2) by simp_all
  obtain m2 k2 where 2: "load_loop dr ?ph (?ph + 32 * of_nat (e_phnum ?h)) (m1, k1) = Some (m2, k2)"
    "\<forall>g \<in> set (kernel_segs dr). loaded dr m2 g"
    using load_loop_run [OF assms(1,3) gs(1) lim hd, of k1] unfolding gs(2) by blast
  show ?thesis using 1(1) 2 hdr assms(2) by (simp add: bootmain_def Let_def)
qed

text \<open>A disk with a kernel of one segment: 4 bytes at offset 0x1000, loaded at 1 MB, with 12 bytes of zeros.\<close>

definition tiny_image :: "nat \<Rightarrow> u8" where
  "tiny_image i = (if i < 52 then ([0x7F, 0x45, 0x4C, 0x46] @ replicate 20 0 @ [0x0C, 0, 0x10, 0, 52, 0, 0, 0] @ replicate 12 0 @
       [1, 0] @ replicate 6 0) ! i
     else if i < 84 then ([1, 0, 0, 0, 0, 0x10, 0, 0, 0, 0, 0x10, 0x80, 0, 0, 0x10, 0, 4, 0, 0, 0, 16, 0, 0, 0] @ replicate 8 0) ! (i - 52)
     else if 0x1000 \<le> i \<and> i < 0x1004 then 0x90 else 0)"

definition tiny_drive :: drive where
  "tiny_drive = \<lparr>dr_sect = (\<lambda>n. map (\<lambda>i. tiny_image (512 * n + i - 512)) [0..<512]), dr_status = (\<lambda>k. if even k then 0x80 else 0x40)\<rparr>"

lemma tiny_bytes: "image tiny_drive i = tiny_image i"
proof -
  have "disk_byte tiny_drive j = tiny_image (j - 512)" for j by (simp add: disk_byte_def tiny_drive_def)
  then show ?thesis by (simp add: image_def)
qed

lemma tiny_ok: "sound_drive tiny_drive"
proof -
  have "\<exists>j \<ge> k. dr_status tiny_drive j AND 0xC0 = 0x40" for k
    by (intro exI [of _ "if even k then Suc k else k"]) (simp add: tiny_drive_def)
  then show ?thesis by (simp add: sound_drive_def tiny_drive_def)
qed

lemma tiny_hdr: "kernel_hdr tiny_drive = \<lparr>e_magic = ELF_MAGIC, e_entry = 0x10000C, e_phoff = 52, e_phnum = 1\<rparr>"
proof -
  have "map (image tiny_drive) [0..<52] = [0x7F, 0x45, 0x4C, 0x46, 0, 0, 0, 0, 0, 0, 0, 0, 0, 0, 0, 0, 0, 0, 0, 0, 0, 0, 0, 0,
      0x0C, 0, 0x10, 0, 52, 0, 0, 0, 0, 0, 0, 0, 0, 0, 0, 0, 0, 0, 0, 0, 1, 0, 0, 0, 0, 0, 0, 0]"
    unfolding tiny_bytes by code_simp
  then show ?thesis by (simp add: kernel_hdr_def elfhdr_of_def get_le_def ELF_MAGIC_def)
qed

lemma tiny_segs: "kernel_segs tiny_drive = [\<lparr>sg_off = 0x1000, sg_paddr = 0x100000, sg_filesz = 4, sg_memsz = 16\<rparr>]"
proof -
  have "header tiny_drive = (\<lambda>a. tiny_image (unat (a - 0x10000)))" by (simp add: fun_eq_iff header_def tiny_bytes)
  moreover have "seg_at (\<lambda>a. tiny_image (unat (a - 0x10000))) 0x10034 = \<lparr>sg_off = 0x1000, sg_paddr = 0x100000, sg_filesz = 4, sg_memsz = 16\<rparr>"
    by code_simp
  ultimately show ?thesis by (simp add: kernel_segs_def tiny_hdr)
qed

theorem bootmain_loads_witness:
  "\<exists>m'. bootmain tiny_drive (\<lambda>_. 0xFF) = Some (Some 0x10000C, m') \<and> m' 0x100003 = 0x90 \<and> m' 0x10000F = 0"
proof -
  have "segs_ok (kernel_segs tiny_drive)"
    by (auto simp: tiny_segs segs_ok_def seg_ok_def foot_def sg_skip_def sg_sectors_def sg_size_def)
  then have "\<exists>m'. bootmain tiny_drive (\<lambda>_. 0xFF) = Some (Some (e_entry (kernel_hdr tiny_drive)), m') \<and>
      (\<forall>g \<in> set (kernel_segs tiny_drive). loaded tiny_drive m' g)"
    by (intro bootmain_loads tiny_ok) (simp_all add: tiny_hdr)
  then obtain m' where m': "bootmain tiny_drive (\<lambda>_. 0xFF) = Some (Some 0x10000C, m')"
    "\<And>i. i < 16 \<Longrightarrow> m' (0x100000 + of_nat i) = (if i < 4 then tiny_image (0x1000 + i) else 0)"
    by (auto simp: tiny_hdr tiny_segs loaded_def sg_size_def tiny_bytes)
  then show ?thesis using m'(2) [of 3] m'(2) [of 15] by (simp add: tiny_image_def)
qed

end
