(* ===== verification/Typed.thy ===== *)
theory Typed
  imports Trap
begin

text \<open>
  The types of the process table, and a comparison of two runs. \<open>typed\<close> says that the table, \<open>proc\<close>,
  \<open>initproc\<close>, \<open>nextpid\<close> and the random numbers hold what their C types and the code around them allow.
  \<open>simr\<close> relates an operation of the kernel to one of a kernel without times, tickets and random numbers
  (homework 1, theory Homework1), and says at the same time that the first keeps the table typed. Each
  combinator has a rule (collection \<open>sim\<close>); then every operation of the kernel that homework 3 did not
  change is related to itself, in the order of the theories (\<open>same_...\<close>).
\<close>

section \<open>Typed tables and related runs\<close>

definition s32_ok :: "int \<Rightarrow> bool" where
  "s32_ok x \<longleftrightarrow> - 2147483648 \<le> x \<and> x < 2147483648"

text \<open>
  An entry: 0 to 999 tickets, and at least one unless it is unused; 16 descriptors; a name that leaves room
  for its terminator in 16 bytes; numbers that fit an \<open>int\<close>.
\<close>

definition proc_typed :: "proc \<Rightarrow> bool" where
  "proc_typed p \<longleftrightarrow> 0 \<le> p_tickets p \<and> p_tickets p \<le> 999 \<and> (p_state p \<noteq> UNUSED \<longrightarrow> 1 \<le> p_tickets p) \<and>
     length (p_ofile p) = NOFILE \<and> length (p_name p) \<le> 15 \<and> (\<forall>q. p_parent p = Some q \<longrightarrow> q < NPROC) \<and>
     s32_ok (p_pid p) \<and> s32_ok (p_ctime p) \<and> s32_ok (p_ttime p) \<and> s32_ok (p_stime p) \<and>
     s32_ok (p_retime p) \<and> s32_ok (p_rutime p)"

text \<open>The entries that have ever been allocated: they keep their tickets when they are freed.\<close>

definition ticketed :: "proc list \<Rightarrow> nat set" where
  "ticketed ps = {i. i < length ps \<and> 1 \<le> p_tickets (ps ! i)}"

definition table_typed :: "proc list \<Rightarrow> nat option \<Rightarrow> nat option \<Rightarrow> int \<Rightarrow> int list \<Rightarrow> bool" where
  "table_typed ps cp ini pid rs \<longleftrightarrow> length ps = NPROC \<and> (\<forall>p \<in> set ps. proc_typed p) \<and>
     (\<forall>i. cp = Some i \<longrightarrow> i \<in> ticketed ps) \<and> (\<forall>i. ini = Some i \<longrightarrow> i < NPROC) \<and> s32_ok pid \<and>
     length rs = 256 \<and> (\<forall>r \<in> set rs. 0 \<le> r \<and> s32_ok r)"

definition typed :: "'z pt_scheme \<Rightarrow> bool" where
  "typed s \<longleftrightarrow> table_typed (procs s) (curproc s) (initproc s) (nextpid s) (random_int s)"

text \<open>A process and a state as homework 1 has them.\<close>

definition bare_proc :: "proc \<Rightarrow> proc" where
  "bare_proc p = p\<lparr>p_ctime := 0, p_ttime := 0, p_stime := 0, p_retime := 0, p_rutime := 0, p_tickets := 0\<rparr>"

definition bare :: "'z pt_scheme \<Rightarrow> 'z pt_scheme" where
  "bare s = s\<lparr>procs := map bare_proc (procs s), random_int := []\<rparr>"

text \<open>
  \<open>matches R e s r r'\<close>: the outcome \<open>r\<close> from the state \<open>s\<close> leaves a typed table, and if \<open>e\<close> holds, \<open>r'\<close> is
  the outcome of homework 1 for it. With \<open>e\<close> false only the first half is said, which is all that holds for
  the operations that homework 1 lacks. \<open>simr R e T\<close> says it of all typed states in which the entries
  \<open>T\<close> have tickets.
\<close>

definition moved :: "'z pt_scheme \<Rightarrow> 'z pt_scheme \<Rightarrow> bool" where
  "moved s u \<longleftrightarrow> typed u \<and> ticketed (procs s) \<subseteq> ticketed (procs u)"

definition matches :: "('a \<Rightarrow> 'b \<Rightarrow> bool) \<Rightarrow> bool \<Rightarrow> 'z pt_scheme \<Rightarrow> ('a, 'z pt_scheme) res \<Rightarrow> ('b, 'z pt_scheme) res \<Rightarrow> bool" where
  "matches R e s r r' = (case r of
     Ok a u \<Rightarrow> moved s u \<and> (\<exists>b. R a b \<and> (e \<longrightarrow> r' = Ok b (bare u)))
   | Sleep c u \<Rightarrow> moved s u \<and> (e \<longrightarrow> r' = Sleep c (bare u))
   | Panic p \<Rightarrow> e \<longrightarrow> r' = Panic p
   | Hang \<Rightarrow> e \<longrightarrow> r' = Hang
   | Undef \<Rightarrow> e \<longrightarrow> r' = Undef)"

definition simr :: "('a \<Rightarrow> 'b \<Rightarrow> bool) \<Rightarrow> bool \<Rightarrow> nat set \<Rightarrow> ('a, 'z pt_scheme) K \<Rightarrow> ('b, 'z pt_scheme) K \<Rightarrow> bool" where
  "simr R e T m m' \<longleftrightarrow> (\<forall>s. typed s \<longrightarrow> T \<subseteq> ticketed (procs s) \<longrightarrow> matches R e s (m s) (m' (bare s)))"

abbreviation sim :: "bool \<Rightarrow> nat set \<Rightarrow> ('a, 'z pt_scheme) K \<Rightarrow> ('a, 'z pt_scheme) K \<Rightarrow> bool" where
  "sim \<equiv> simr (=)"

abbreviation same :: "bool \<Rightarrow> nat set \<Rightarrow> ('a, 'z pt_scheme) K \<Rightarrow> bool" where
  "same e T m \<equiv> sim e T m m"

named_theorems sim \<open>rules of the combinators and facts of the operations, for related runs\<close>
named_theorems acc \<open>what a step on an entry or on a device unfolds\<close>

lemma moved_refl [simp]: "typed s \<Longrightarrow> moved s s"
  by (simp add: moved_def)

lemma moved_trans: "moved s t \<Longrightarrow> moved t u \<Longrightarrow> moved s u"
  by (auto simp: moved_def)

lemma matches_trans: "moved s t \<Longrightarrow> matches R e t r r' \<Longrightarrow> matches R e s r r'"
  by (auto simp: matches_def dest: moved_trans split: res.splits)

lemma matches_swap: "matches R e s r r' \<Longrightarrow> (e \<Longrightarrow> r'' = r') \<Longrightarrow> matches R e s r r''"
  by (cases e) (auto simp: matches_def split: res.splits)

lemma simD: "simr R e T m m' \<Longrightarrow> typed s \<Longrightarrow> T \<subseteq> ticketed (procs s) \<Longrightarrow> matches R e s (m s) (m' (bare s))"
  by (simp add: simr_def)

lemma simr_any: "\<not> e \<Longrightarrow> simr R e T m m' \<Longrightarrow> simr R e T m m''"
  by (auto simp: simr_def intro: matches_swap)

lemma sim_kret [sim]: "R x y \<Longrightarrow> simr R e T (kret x) (kret y)"
  by (auto simp: simr_def matches_def)

lemma sim_Sleep [sim]: "simr R e T (Sleep c) (Sleep c)"
  by (simp add: simr_def matches_def)

lemma sim_kpanic [sim]: "simr R e T (kpanic p) (kpanic p)"
  by (simp add: simr_def matches_def)

lemma sim_kundef [sim]: "simr R e T kundef kundef"
  by (simp add: simr_def matches_def)

lemma sim_khang [sim]: "simr R e T khang khang"
  by (simp add: simr_def matches_def)

lemma sim_kget [sim]:
  "(\<And>s. typed s \<Longrightarrow> T \<subseteq> ticketed (procs s) \<Longrightarrow> R (f s) (g (bare s))) \<Longrightarrow> simr R e T (kget f) (kget g)"
  by (auto simp: simr_def matches_def)

lemma sim_kmod:
  "(\<And>s. typed s \<Longrightarrow> T \<subseteq> ticketed (procs s) \<Longrightarrow>
      typed (f s) \<and> ticketed (procs s) \<subseteq> ticketed (procs (f s)) \<and> (e \<longrightarrow> g (bare s) = bare (f s)))
   \<Longrightarrow> sim e T (kmod f) (kmod g)"
  by (simp add: simr_def matches_def moved_def)

text \<open>What comes after the first half of a sequence starts in a state the first half has moved to.\<close>

lemma matches_bind:
  assumes m: "matches Q e s (m s) (m' (bare s))"
    and n: "\<And>a b u. m s = Ok a u \<Longrightarrow> moved s u \<Longrightarrow> Q a b \<Longrightarrow> matches R e u (n a u) (n' b (bare u))"
  shows "matches R e s (kbind m n s) (kbind m' n' (bare s))"
proof (cases "m s")
  case (Ok a u)
  have u: "moved s u" using m by (simp add: matches_def Ok)
  obtain b where b: "Q a b" "e \<longrightarrow> m' (bare s) = Ok b (bare u)" using m by (auto simp: matches_def Ok)
  have "matches R e s (n a u) (kbind m' n' (bare s))"
    by (rule matches_swap [OF matches_trans [OF u n [OF Ok u b(1)]]]) (use b in \<open>simp add: kbind_def\<close>)
  then show ?thesis by (simp add: kbind_def Ok)
qed (use m in \<open>simp_all add: kbind_def matches_def\<close>)

lemma sim_bindr:
  fixes m :: "('a, 'z pt_scheme) K" and m' :: "('b, 'z pt_scheme) K"
  assumes "simr Q e T m m'" and "\<And>x y. Q x y \<Longrightarrow> simr R e T (n x) (n' y)"
  shows "simr R e T (kbind m n) (kbind m' n')"
  unfolding simr_def [of R]
proof (intro allI impI)
  fix s :: "'z pt_scheme"
  assume s: "typed s" "T \<subseteq> ticketed (procs s)"
  show "matches R e s (kbind m n s) (kbind m' n' (bare s))"
    by (rule matches_bind [where m = m and m' = m', OF simD [OF assms(1) s]]) (use s in \<open>auto simp: moved_def intro: simD [OF assms(2)]\<close>)
qed

lemma sim_kbind [sim]:
  "sim e T m m' \<Longrightarrow> (\<And>x. simr R e T (n x) (n' x)) \<Longrightarrow> simr R e T (kbind m n) (kbind m' n')"
  by (erule sim_bindr) simp

lemma sim_kget_bind:
  assumes "\<And>s. typed s \<Longrightarrow> T \<subseteq> ticketed (procs s) \<Longrightarrow> simr R e T (n (f s)) (n' (f' (bare s)))"
  shows "simr R e T (kbind (kget f) n) (kbind (kget f') n')"
  using assms by (simp add: simr_def)

lemma sim_kseq [sim]: "sim e T m m' \<Longrightarrow> simr R e T n n' \<Longrightarrow> simr R e T (kseq m n) (kseq m' n')"
  by (simp add: kseq_def sim_kbind)

lemma sim_kwhen [sim]: "(b \<Longrightarrow> sim e T m m') \<Longrightarrow> sim e T (kwhen b m) (kwhen b m')"
  by (simp add: kwhen_def sim_kret)

lemma sim_if [sim]:
  "(b \<Longrightarrow> simr R e T m m') \<Longrightarrow> (\<not> b \<Longrightarrow> simr R e T n n') \<Longrightarrow>
   simr R e T (if b then m else n) (if b then m' else n')"
  by simp

lemma sim_let [sim]: "simr R e T (f x) (f' x') \<Longrightarrow> simr R e T (Let x f) (Let x' f')"
  by (simp add: Let_def)

lemma sim_option [sim]:
  "(x = None \<Longrightarrow> simr R e T m m') \<Longrightarrow> (\<And>y. x = Some y \<Longrightarrow> simr R e T (f y) (f' y)) \<Longrightarrow>
   simr R e T (case x of None \<Rightarrow> m | Some y \<Rightarrow> f y) (case x of None \<Rightarrow> m' | Some y \<Rightarrow> f' y)"
  by (cases x) simp_all

lemma sim_list [sim]:
  "(x = [] \<Longrightarrow> simr R e T m m') \<Longrightarrow> (\<And>y ys. x = y # ys \<Longrightarrow> simr R e T (f y ys) (f' y ys)) \<Longrightarrow>
   simr R e T (case x of [] \<Rightarrow> m | y # ys \<Rightarrow> f y ys) (case x of [] \<Rightarrow> m' | y # ys \<Rightarrow> f' y ys)"
  by (cases x) simp_all

lemma sim_sum [sim]:
  "(\<And>y. x = Inl y \<Longrightarrow> simr R e T (f y) (f' y)) \<Longrightarrow> (\<And>y. x = Inr y \<Longrightarrow> simr R e T (g y) (g' y)) \<Longrightarrow>
   simr R e T (case x of Inl y \<Rightarrow> f y | Inr y \<Rightarrow> g y) (case x of Inl y \<Rightarrow> f' y | Inr y \<Rightarrow> g' y)"
  by (cases x) simp_all

lemma sim_prod [sim]:
  "(\<And>y z. x = (y, z) \<Longrightarrow> simr R e T (f y z) (f' y z)) \<Longrightarrow>
   simr R e T (case x of (y, z) \<Rightarrow> f y z) (case x of (y, z) \<Rightarrow> f' y z)"
  by (cases x) simp_all

lemma sim_nat [sim]:
  "(x = 0 \<Longrightarrow> simr R e T m m') \<Longrightarrow> (\<And>y. x = Suc y \<Longrightarrow> simr R e T (f y) (f' y)) \<Longrightarrow>
   simr R e T (case x of 0 \<Rightarrow> m | Suc y \<Rightarrow> f y) (case x of 0 \<Rightarrow> m' | Suc y \<Rightarrow> f' y)"
  by (cases x) simp_all

lemma sim_kblock_Nil [sim]: "sim e T (kblock []) (kblock [])"
  by (simp add: sim_kret)

lemma sim_kblock_Cons [sim]:
  "sim e T m m' \<Longrightarrow> sim e T (kblock ms) (kblock ms') \<Longrightarrow> length ms = length ms' \<Longrightarrow>
   sim e T (kblock (m # ms)) (kblock (m' # ms'))"
  by (cases ms; cases ms') (simp_all add: sim_kseq)

lemma sim_kfor [sim]: "(\<And>x. x \<in> set xs \<Longrightarrow> sim e T (b x) (b' x)) \<Longrightarrow> sim e T (kfor xs b) (kfor xs b')"
  by (induction xs) (simp_all add: sim_kret sim_kseq)

lemma sim_kfirst [sim]: "(\<And>x. x \<in> set xs \<Longrightarrow> sim e T (b x) (b' x)) \<Longrightarrow> sim e T (kfirst xs b) (kfirst xs b')"
  by (induction xs) (auto intro!: sim_kret sim_kbind sim_option)

lemma sim_kloop [sim]: "(\<And>x. sim e T (b x) (b' x)) \<Longrightarrow> sim e T (kloop n b x) (kloop n b' x)"
  by (induction n arbitrary: x) (auto intro!: sim_kret sim_kbind sim_khang sim_sum)

lemma sim_on_sleep [sim]:
  fixes m :: "('a, 'z pt_scheme) K"
  assumes "sim e T m m'" and "sim e T n n'"
  shows "sim e T (\<lambda>s. case m s of Ok a u \<Rightarrow> Ok a u | Panic p \<Rightarrow> Panic p | Sleep c t \<Rightarrow> n t | Hang \<Rightarrow> Hang | Undef \<Rightarrow> Undef)
    (\<lambda>s. case m' s of Ok a u \<Rightarrow> Ok a u | Panic p \<Rightarrow> Panic p | Sleep c t \<Rightarrow> n' t | Hang \<Rightarrow> Hang | Undef \<Rightarrow> Undef)"
    (is "sim e T ?k ?k'")
  unfolding simr_def
proof (intro allI impI)
  fix s :: "'z pt_scheme"
  assume s: "typed s" "T \<subseteq> ticketed (procs s)"
  note m = simD [OF assms(1) s]
  show "matches (=) e s (?k s) (?k' (bare s))"
  proof (cases "m s")
    case (Sleep c u)
    then have u: "moved s u" using m by (simp add: matches_def)
    then have "matches (=) e u (n u) (n' (bare u))"
      using s assms(2) by (auto simp: moved_def intro: simD)
    then have "matches (=) e s (n u) (?k' (bare s))"
      using m by (intro matches_swap [OF matches_trans [OF u]]) (auto simp: Sleep matches_def)
    then show ?thesis by (simp add: Sleep)
  qed (use m in \<open>simp_all add: matches_def\<close>)
qed

section \<open>The current process and its entry\<close>

lemma typed_length [simp]: "typed s \<Longrightarrow> length (procs s) = NPROC"
  by (simp add: typed_def table_typed_def)

lemma ticketed_less: "T \<subseteq> ticketed (procs s) \<Longrightarrow> typed s \<Longrightarrow> i \<in> T \<Longrightarrow> i < NPROC"
  by (auto simp: ticketed_def)

lemma typed_cur: "typed s \<Longrightarrow> curproc s = Some i \<Longrightarrow> i \<in> ticketed (procs s)"
  by (simp add: typed_def table_typed_def)

lemma bare_sel [simp]:
  "procs (bare s) = map bare_proc (procs s)" "curproc (bare s) = curproc s" "initproc (bare s) = initproc s"
  "nextpid (bare s) = nextpid s" "ticks (bare s) = ticks s" "held (bare s) = held s"
  by (simp_all add: bare_def)

lemma bare_proc_sel [simp]:
  "p_sz (bare_proc p) = p_sz p" "p_pgdir (bare_proc p) = p_pgdir p" "p_kstack (bare_proc p) = p_kstack p"
  "p_state (bare_proc p) = p_state p" "p_pid (bare_proc p) = p_pid p" "p_parent (bare_proc p) = p_parent p"
  "p_tf (bare_proc p) = p_tf p" "p_context (bare_proc p) = p_context p" "p_chan (bare_proc p) = p_chan p"
  "p_killed (bare_proc p) = p_killed p" "p_ofile (bare_proc p) = p_ofile p" "p_cwd (bare_proc p) = p_cwd p"
  "p_name (bare_proc p) = p_name p"
  by (simp_all add: bare_proc_def)

lemma sim_with_proc [sim]:
  fixes f :: "nat \<Rightarrow> ('a, 'z pt_scheme) K"
  assumes "\<And>i. i < NPROC \<Longrightarrow> simr R e (insert i T) (f i) (f' i)"
  shows "simr R e T (with_proc f) (with_proc f')"
  unfolding simr_def
proof (intro allI impI)
  fix s :: "'z pt_scheme"
  assume s: "typed s" "T \<subseteq> ticketed (procs s)"
  show "matches R e s (with_proc f s) (with_proc f' (bare s))"
  proof (cases "curproc s")
    case None
    then show ?thesis by (simp add: with_proc_def matches_def)
  next
    case (Some i)
    then have i: "i \<in> ticketed (procs s)" using s typed_cur by blast
    then have "i < NPROC" using s by (auto simp: ticketed_def)
    then show ?thesis using assms [of i] s i by (auto simp: with_proc_def Some intro: simD)
  qed
qed

text \<open>What an operation may do to an entry.\<close>

definition proc_step :: "proc \<Rightarrow> proc \<Rightarrow> bool" where
  "proc_step p q \<longleftrightarrow> proc_typed q \<and> (1 \<le> p_tickets p \<longrightarrow> 1 \<le> p_tickets q)"

lemma typed_upd:
  assumes "typed s" "i < NPROC" "proc_step (procs s ! i) (f (procs s ! i))"
  shows "typed (upd_proc i f s)" "ticketed (procs s) \<subseteq> ticketed (procs (upd_proc i f s))"
proof -
  have l: "length (procs s) = NPROC" using assms(1) by simp
  show t: "ticketed (procs s) \<subseteq> ticketed (procs (upd_proc i f s))"
    using assms l by (auto simp: ticketed_def nth_list_update proc_step_def)
  show "typed (upd_proc i f s)"
    using assms l t by (auto simp: typed_def table_typed_def proc_step_def dest!: subsetD [OF set_update_subset_insert])
qed

lemma bare_upd: "i < length (procs s) \<Longrightarrow> f (bare_proc (procs s ! i)) = bare_proc (g (procs s ! i)) \<Longrightarrow>
    upd_proc i f (bare s) = bare (upd_proc i g s)"
  by (simp add: upd_proc_def bare_def map_update)

lemma typed_nth: "typed s \<Longrightarrow> i < NPROC \<Longrightarrow> proc_typed (procs s ! i)"
  by (simp add: typed_def table_typed_def)

text \<open>A step of one entry.\<close>

lemma sim_upd [sim]:
  fixes f :: "'z pt_scheme \<Rightarrow> proc \<Rightarrow> proc"
  assumes "i < NPROC"
    and "\<And>s. typed s \<Longrightarrow> T \<subseteq> ticketed (procs s) \<Longrightarrow> proc_typed (procs s ! i) \<Longrightarrow>
      proc_step (procs s ! i) (f s (procs s ! i)) \<and> (e \<longrightarrow> f' (bare s) (bare_proc (procs s ! i)) = bare_proc (f s (procs s ! i)))"
  shows "sim e T (kmod (\<lambda>s. upd_proc i (f s) s)) (kmod (\<lambda>s. upd_proc i (f' s) s))"
proof (rule sim_kmod)
  fix s :: "'z pt_scheme"
  assume s: "typed s" "T \<subseteq> ticketed (procs s)"
  note p = assms(2) [OF s typed_nth [OF s(1) assms(1)]]
  from typed_upd [OF s(1) assms(1), of "f s"] bare_upd [of i s "f' (bare s)" "f s"] p s assms(1)
  show "typed (upd_proc i (f s) s) \<and> ticketed (procs s) \<subseteq> ticketed (procs (upd_proc i (f s) s)) \<and>
    (e \<longrightarrow> upd_proc i (f' (bare s)) (bare s) = bare (upd_proc i (f s) s))" by simp
qed

lemma sim_upd_proc:
  assumes "i < NPROC"
    and "\<And>p. proc_typed p \<Longrightarrow> (i \<in> T \<Longrightarrow> 1 \<le> p_tickets p) \<Longrightarrow> proc_step p (f p) \<and> f' (bare_proc p) = bare_proc (f p)"
  shows "sim e T (kmod (upd_proc i f)) (kmod (upd_proc i f'))"
  using assms sim_upd [of i T "\<lambda>_. f" e "\<lambda>_. f'"] by (auto simp: ticketed_def)

lemma table_typed_length [acc]: "table_typed ps cp ini pid rs \<Longrightarrow> length ps = NPROC"
  by (simp add: table_typed_def)

declare typed_def [acc] bare_def [acc]

section \<open>Devices and the console\<close>

lemma same_acq [sim]:
  "same e T (acq l)" "same e T (rel l)"
  unfolding acq_def rel_def
  by (intro sim sim_kmod; simp add: acc)+

lemma same_outb [sim]: "same e T (outb port data)"
  unfolding outb_def by (intro sim sim_kmod; simp add: acc)

lemma same_picsetmask [sim]: "same e T (picsetmask m)"
  unfolding picsetmask_def by (intro sim sim_kmod; simp add: acc)

lemma same_picenable [sim]:
  "same e T (picenable irq)" "same e T picinit"
  unfolding picenable_def picinit_def
  by (intro sim sim_kmod; simp add: acc)+

lemma same_timerinit [sim]:
  "same e T timerinit" "same e T (ioapicread reg)" "same e T (ioapicwrite reg data)"
  unfolding timerinit_def ioapicread_def ioapicwrite_def
  by (intro sim sim_kmod; simp add: acc)+

lemma same_ioapicenable [sim]:
  "same e T (ioapicenable irq cpunum)" "same e T (lapicw index v)"
  unfolding ioapicenable_def lapicw_def
  by (intro sim sim_kmod; simp add: acc)+

lemma same_lapicinit [sim]:
  "same e T lapicinit" "same e T lapiceoi"
  unfolding lapicinit_def lapiceoi_def
  by (intro sim sim_kmod; simp add: acc)+

declare crt_pos_def [acc] set_crt_pos_def [acc]

lemma same_uartputc [sim]:
  "same e T (uartputc c)" "same e T (cgaputc c)"
  unfolding uartputc_def cgaputc_def
  by (intro sim sim_kmod; simp add: acc)+

lemma same_consputc [sim]: "same e T (consputc c)"
  unfolding consputc_def by (intro sim sim_kmod; simp add: acc)

lemma same_putchar [sim]: "same e T (putchar ch)"
  unfolding putchar_def by (intro sim sim_kmod; simp add: acc)

lemma same_printint [sim]: "same e T (printint xx base sg)"
  unfolding printint_def by (intro sim sim_kmod; simp add: acc)

lemma sim_carg:
  "(\<And>i. x = AInt i \<Longrightarrow> simr R e T (f i) (f' i)) \<Longrightarrow> (\<And>p. x = AStr p \<Longrightarrow> simr R e T (g p) (g' p)) \<Longrightarrow>
   simr R e T (case x of AInt i \<Rightarrow> f i | AStr p \<Rightarrow> g p) (case x of AInt i \<Rightarrow> f' i | AStr p \<Rightarrow> g' p)"
  by (cases x) simp_all

lemma same_cprintf_go [sim]: "same e T (cprintf_go f args)"
proof (induction f arbitrary: args rule: length_induct)
  case (1 f)
  note IH = 1 [rule_format]
  show ?case
  proof (cases f)
    case (Cons c cs)
    show ?thesis unfolding Cons cprintf_go.simps(2) [of c cs args]
      by (intro sim sim_carg IH; simp add: Cons)
  qed (simp add: sim_kret)
qed

lemma same_cprintf [sim]: "same e T (cprintf fmt args)"
  unfolding cprintf_def by (intro sim sim_kmod; simp add: acc)

lemma same_panic_print [sim]: "same e T (panic_print cpuid msg pcl)"
  unfolding panic_print_def by (intro sim sim_kmod; simp add: acc)

lemma same_panic [sim]: "same e T (panic cpuid msg pcl)"
  unfolding panic_def by (intro sim sim_kmod; simp add: acc)

section \<open>The process table\<close>

lemma ticketed_mem [acc]: "i \<in> ticketed ps \<longleftrightarrow> i < length ps \<and> 1 \<le> p_tickets (ps ! i)"
  by (simp add: ticketed_def)

lemma s32_ok_simps [acc]: "s32_ok 0" "s32_ok (s32 x)" "s32_ok (sint (w :: u32))"
  using s32_range [of x] sint_greater_eq [of w] sint_less [of w] by (simp_all add: s32_ok_def)

lemma table_typed_tickets [acc]: "table_typed ps cp ini pid rs \<Longrightarrow> i < NPROC \<Longrightarrow> p_tickets (ps ! i) \<le> 999"
  by (simp add: table_typed_def proc_typed_def)

declare proc_step_def [acc] proc_typed_def [acc] bare_proc_def [acc]

lemma sim_map:
  assumes "\<And>p. proc_typed p \<Longrightarrow> proc_step p (f p) \<and> f (bare_proc p) = bare_proc (f p)"
  shows "sim e T (kmod (\<lambda>s. s\<lparr>procs := map f (procs s)\<rparr>)) (kmod (\<lambda>s. s\<lparr>procs := map f (procs s)\<rparr>))"
proof (rule sim_kmod)
  fix s :: "'b pt_scheme"
  assume s: "typed s" "T \<subseteq> ticketed (procs s)"
  then have p: "proc_typed p" if "p \<in> set (procs s)" for p using that by (simp add: typed_def table_typed_def)
  have l: "length (procs s) = NPROC" using s by simp
  have t: "ticketed (procs s) \<subseteq> ticketed (map f (procs s))"
    using assms p by (auto simp: ticketed_def proc_step_def)
  moreover have "typed (s\<lparr>procs := map f (procs s)\<rparr>)"
    using s t assms p by (auto simp: typed_def table_typed_def proc_step_def)
  moreover have "map f (map bare_proc (procs s)) = map bare_proc (map f (procs s))"
    using assms p by simp
  then have "bare s\<lparr>procs := map f (procs (bare s))\<rparr> = bare (s\<lparr>procs := map f (procs s)\<rparr>)" by (simp add: bare_def)
  ultimately show "typed (s\<lparr>procs := map f (procs s)\<rparr>) \<and> ticketed (procs s) \<subseteq> ticketed (procs (s\<lparr>procs := map f (procs s)\<rparr>)) \<and>
    (e \<longrightarrow> bare s\<lparr>procs := map f (procs (bare s))\<rparr> = bare (s\<lparr>procs := map f (procs s)\<rparr>))" by simp
qed

lemma procs_update_map: "procs_update (map f) = (\<lambda>s. s\<lparr>procs := map f (procs s)\<rparr>)"
  by (rule ext) simp

lemma same_switchkvm [sim]: "same e T switchkvm"
  unfolding switchkvm_def by (intro sim sim_kmod; simp add: acc)

lemma same_switchuvm [sim]: "i < NPROC \<Longrightarrow> same e T (switchuvm i)"
  unfolding switchuvm_def
  by (intro sim_with_proc sim_kget_bind) (auto intro!: sim sim_kmod simp: acc simp flip: bare_proc_def)

lemma same_sched [sim]: "same e T sched"
  unfolding sched_def by (intro sim; simp add: acc)

lemma sim_curproc:
  fixes n :: "nat option \<Rightarrow> ('a, 'z pt_scheme) K"
  assumes "simr R e T (n None) (n' None)" and "\<And>i. i < NPROC \<Longrightarrow> simr R e (insert i T) (n (Some i)) (n' (Some i))"
  shows "simr R e T (kbind (kget curproc) n) (kbind (kget curproc) n')"
  unfolding simr_def
proof (intro allI impI)
  fix s :: "'z pt_scheme"
  assume s: "typed s" "T \<subseteq> ticketed (procs s)"
  show "matches R e s (kbind (kget curproc) n s) (kbind (kget curproc) n' (bare s))"
  proof (cases "curproc s")
    case None
    then show ?thesis using simD [OF assms(1) s] by simp
  next
    case (Some i)
    then have i: "i \<in> ticketed (procs s)" using s typed_cur by blast
    then have "i < NPROC" using s by (auto simp: ticketed_def)
    then show ?thesis using simD [OF assms(2) s(1)] s i by (simp add: Some)
  qed
qed

lemma same_ksleep [sim]: "simr R e T (ksleep c lk) (ksleep c lk)"
  unfolding ksleep_unfold by (rule sim_curproc) (simp_all only: option.case, (intro sim; simp add: acc)+)

lemma same_sleep_back [sim]: "same e T (sleep_back lk)"
  unfolding sleep_back_def by (intro sim; simp add: acc)

lemma same_wakeup1 [sim]: "same e T (wakeup1 c)"
  unfolding wakeup1_def procs_update_map by (rule sim_map) (simp add: wake_def acc)

lemma same_wakeup [sim]: "same e T (wakeup c)"
  unfolding wakeup_def wakeup_steps_def by (intro sim; simp)

lemma same_procdump [sim]: "same e T (procdump stk)"
  unfolding procdump_def by (rule sim_kget_bind) (simp add: kfor_map cong: if_cong, intro sim; simp)

lemma first_idx_bare: "(\<And>p. P (bare_proc p) = P p) \<Longrightarrow> first_idx P (map bare_proc ps) = first_idx P ps"
  by (induction ps) simp_all

lemma same_kill [sim]: "same e T (kill pid)"
  unfolding kill_def
  by (intro sim_kseq sim_kget_bind same_acq) (auto simp: first_idx_bare acc dest!: first_idx_less intro!: sim)

text \<open>Environments: what the rest of the system does during a sleep.\<close>

definition env_ok :: "bool \<Rightarrow> (unit, 'z pt_scheme) K \<Rightarrow> (unit, 'z pt_scheme) K \<Rightarrow> bool" where
  "env_ok e m m' \<longleftrightarrow> sim e {} m m'"

abbreviation envs :: "bool \<Rightarrow> (unit, 'z pt_scheme) K list \<Rightarrow> (unit, 'z pt_scheme) K list \<Rightarrow> bool" where
  "envs e \<equiv> list_all2 (env_ok e)"

lemma sim_weaken: "simr R e T' m m' \<Longrightarrow> T' \<subseteq> T \<Longrightarrow> simr R e T m m'"
  by (auto simp: simr_def)

lemma same_resume [sim]:
  "i < NPROC \<Longrightarrow> i \<in> T \<Longrightarrow> same e T (kmod (\<lambda>s :: 'z pt_scheme. upd_proc i (\<lambda>p. p\<lparr>p_state := RUNNING\<rparr>) s\<lparr>curproc := Some i\<rparr>))"
proof (rule sim_kmod)
  fix s :: "'z pt_scheme"
  assume i: "i < NPROC" "i \<in> T" and s: "typed s" "T \<subseteq> ticketed (procs s)"
  let ?u = "upd_proc i (\<lambda>p. p\<lparr>p_state := RUNNING\<rparr>) s"
  have p: "1 \<le> p_tickets (procs s ! i)" "proc_typed (procs s ! i)" using i s typed_nth by (auto simp: ticketed_def)
  have u: "typed ?u" "ticketed (procs s) \<subseteq> ticketed (procs ?u)"
    by (rule typed_upd [OF s(1) i(1)]; use p in \<open>simp add: acc\<close>)+
  then have "typed (?u\<lparr>curproc := Some i\<rparr>)"
    using i s(2) by (auto simp: typed_def table_typed_def)
  then show "typed (?u\<lparr>curproc := Some i\<rparr>) \<and> ticketed (procs s) \<subseteq> ticketed (procs (?u\<lparr>curproc := Some i\<rparr>)) \<and>
    (e \<longrightarrow> upd_proc i (\<lambda>p. p\<lparr>p_state := RUNNING\<rparr>) (bare s)\<lparr>curproc := Some i\<rparr> = bare (?u\<lparr>curproc := Some i\<rparr>))"
    using u bare_upd [of i s "\<lambda>p. p\<lparr>p_state := RUNNING\<rparr>" "\<lambda>p. p\<lparr>p_state := RUNNING\<rparr>"] i s
    by (simp add: bare_proc_def) (simp add: bare_def)
qed

lemma sim_ksleep_env [sim]:
  assumes "env_ok e n n'"
  shows "sim e T (ksleep_env n c lk) (ksleep_env n' c lk)"
  unfolding ksleep_env_def
  by (intro sim_on_sleep) (intro sim sim_weaken [OF assms [unfolded env_ok_def]]; simp add: acc)+

lemma sim_ksleep_in: "envs e es es' \<Longrightarrow> simr (envs e) e T (ksleep_in es c lk) (ksleep_in es' c lk)"
  unfolding ksleep_in_def by (cases es; cases es') (auto intro!: sim)

lemma same_irqs [sim]:
  assumes "i < NPROC" "i \<in> T" and m: "sim e {} m m'"
  shows "sim e T (irqs n m c i) (irqs n m' c i)"
proof (induction n)
  case 0
  show ?case using assms unfolding irqs.simps [of 0] by (intro sim; simp add: acc)
next
  case (Suc n)
  then show ?case using assms unfolding irqs.simps [of "Suc n"] by (intro sim sim_weaken [OF m]; simp add: acc)
qed

lemma same_sleep_until [sim]: "sim e {} m m' \<Longrightarrow> sim e T (sleep_until n m c lk) (sleep_until n m' c lk)"
  unfolding sleep_until_def by (intro sim_on_sleep) (intro sim; simp add: acc)+

section \<open>Pages and page tables\<close>

lemma same_kfree [sim]:
  "same e T (kfree v)" "same e T kalloc"
  unfolding kfree_def kalloc_def
  by (intro sim sim_kmod; simp add: acc)+

lemma same_freerange [sim]: "same e T (freerange vstart vend)"
  unfolding freerange_def by (intro sim sim_kmod; simp add: acc)

lemma same_kinit1 [sim]:
  "same e T (kinit1 vstart vend)" "same e T (kinit2 vstart vend)" "same e T kalloc_opt"
  unfolding kinit1_def kinit2_def kalloc_opt_def
  by (intro sim sim_kmod; simp add: acc)+

lemma same_load [sim]:
  "same e T (load a)" "same e T (store a v)" "same e T (kmemset d c n)" "same e T (kmemmove d s n)"
  unfolding load_def store_def kmemset_def kmemmove_def
  by (intro sim sim_kmod; simp add: acc)+

lemma same_walkpgdir [sim]: "same e T (walkpgdir pgdir va alloc)"
  unfolding walkpgdir_def by (intro sim sim_kmod; simp add: acc)

lemma same_map_turn [sim]: "same e T (map_turn pgdir lst perm x)"
  unfolding map_turn_def by (intro sim sim_kmod; simp add: acc)

lemma same_mappages [sim]: "same e T (mappages pgdir va sz pa perm)"
  unfolding mappages_def by (intro sim sim_kmod; simp add: acc)

lemma same_map_kmap [sim]: "same e T (map_kmap pgdir ks)"
  by (induction ks) (auto intro!: sim)

lemma same_setupkvm [sim]: "same e T setupkvm"
  unfolding setupkvm_def by (intro sim sim_kmod; simp add: acc)

lemma same_kvmalloc [sim]:
  "same e T kvmalloc" "same e T (inituvm pgdir code)" "same e T (deallocuvm pgdir oldsz newsz)"
  unfolding kvmalloc_def inituvm_def deallocuvm_def
  by (intro sim sim_kmod; simp add: acc)+

lemma same_allocuvm [sim]:
  "same e T (allocuvm pgdir oldsz newsz)" "same e T (freevm pgdir)" "same e T (clearpteu pgdir uva)"
  unfolding allocuvm_def freevm_def clearpteu_def
  by (intro sim sim_kmod; simp add: acc)+

lemma same_copyuvm [sim]:
  "same e T (copyuvm pgdir sz)" "same e T (uva2ka pgdir uva)"
  unfolding copyuvm_def uva2ka_def
  by (intro sim sim_kmod; simp add: acc)+

lemma same_copyout [sim]: "same e T (copyout pgdir va bs)"
  unfolding copyout_def by (intro sim sim_kmod; simp add: acc)

section \<open>Disk, buffers and log\<close>

declare upd_buf_def [acc]

lemma same_idewait [sim]: "same e T (idewait checkerr)"
  unfolding idewait_def by (intro sim sim_kmod; simp add: acc)

lemma same_ideinit [sim]:
  "same e T (ideinit poll)" "same e T (idestart b)"
  unfolding ideinit_def idestart_def
  by (intro sim sim_kmod; simp add: acc)+

lemma same_ideintr [sim]: "same e T ideintr"
  unfolding ideintr_def by (intro sim sim_kmod; simp add: acc)

lemma same_ide_wait [sim]: "same e T (ide_wait b)"
  unfolding ide_wait_def by (intro sim sim_kmod; simp add: acc)

lemma same_iderw [sim]: "same e T (iderw b)"
  unfolding iderw_def by (intro sim sim_kmod; simp add: acc)

lemma same_binit [sim]:
  "same e T binit" "same e T (bget dev blockno)"
  unfolding binit_def bget_def
  by (intro sim sim_kmod; simp add: acc)+

lemma same_bread [sim]:
  "same e T (bread dev blockno)" "same e T (bwrite b)" "same e T (brelse b)" "same e T (buf_data b)"
  "same e T (set_data b d)"
  unfolding bread_def bwrite_def brelse_def buf_data_def set_data_def
  by (intro sim sim_kmod; simp add: acc)+

lemma same_readsb [sim]:
  "same e T (readsb dev)" "same e T (install_turn dev lb home)"
  unfolding readsb_def install_turn_def
  by (intro sim sim_kmod; simp add: acc)+

lemma same_install_trans [sim]:
  "same e T install_trans" "same e T read_head" "same e T write_head"
  unfolding install_trans_def read_head_def write_head_def
  by (intro sim sim_kmod; simp add: acc)+

lemma same_recover_from_log [sim]: "same e T recover_from_log"
  unfolding recover_from_log_def by (intro sim sim_kmod; simp add: acc)

lemma same_initlog [sim]:
  "same e T (initlog dev)" "same e T begin_op" "same e T (write_turn dev lb home)"
  unfolding initlog_def begin_op_def write_turn_def
  by (intro sim sim_kmod; simp add: acc)+

lemma same_write_log [sim]: "same e T write_log"
  unfolding write_log_def by (intro sim sim_kmod; simp add: acc)

lemma same_commit [sim]: "same e T commit"
  unfolding commit_def by (intro sim sim_kmod; simp add: acc)

lemma same_end_op [sim]:
  "same e T end_op" "same e T (log_write b)"
  unfolding end_op_def log_write_def
  by (intro sim sim_kmod; simp add: acc)+

section \<open>Inodes and directories\<close>

declare upd_inode_def [acc] upd_d_def [acc]

lemma same_bzero [sim]: "same e T (bzero dev bno)"
  unfolding bzero_def by (intro sim sim_kmod; simp add: acc)

lemma same_balloc_turn [sim]: "same e T (balloc_turn dev b)"
  unfolding balloc_turn_def by (intro sim sim_kmod; simp add: acc)

lemma same_balloc [sim]:
  "same e T (balloc dev)" "same e T (bfree dev b)" "same e T (iinit dev)" "same e T (iget dev inum)"
  "same e T (idup i)"
  unfolding balloc_def bfree_def iinit_def iget_def idup_def
  by (intro sim sim_kmod; simp add: acc)+

lemma same_ialloc_turn [sim]: "same e T (ialloc_turn dev type inum)"
  unfolding ialloc_turn_def by (intro sim sim_kmod; simp add: acc)

lemma same_ialloc [sim]:
  "same e T (ialloc dev type)" "same e T (iupdate i)" "same e T (ilock p)" "same e T (iunlock p)"
  "same e T (bmap i bn)"
  unfolding ialloc_def iupdate_def ilock_def iunlock_def bmap_def
  by (intro sim sim_kmod; simp add: acc)+

lemma same_itrunc [sim]: "same e T (itrunc i)"
  unfolding itrunc_def by (intro sim sim_kmod; simp add: acc)

lemma same_iput [sim]: "same e T (iput i)"
  unfolding iput_def by (intro sim sim_kmod; simp add: acc)

lemma same_iunlockput [sim]:
  "same e T (iunlockput i)" "same e T (stati i)"
  unfolding iunlockput_def stati_def
  by (intro sim sim_kmod; simp add: acc)+

section \<open>The console, directories and paths\<close>

lemma same_kill_line [sim]: "same e T kill_line"
  unfolding kill_line_def by (intro sim sim_kmod; simp add: acc)

lemma same_input_key [sim]: "same e T (input_key c)"
  unfolding input_key_def by (intro sim sim_kmod; simp add: acc)

lemma same_consoleintr [sim]: "same e T (consoleintr frames keys)"
  unfolding consoleintr_def by (intro sim sim_kmod; simp add: acc)

lemma same_kbdintr [sim]:
  "same e T (kbdintr frames data)" "same e T (uartintr frames data)" "same e T (uartinit lsr)"
  "same e T (consolewrite ip buf n)" "same e T consoleinit"
  unfolding kbdintr_def uartintr_def uartinit_def consolewrite_def consoleinit_def
  by (intro sim sim_kmod; simp add: acc)+

lemma sim_cons_wait [sim]: "envs e es es' \<Longrightarrow> simr (rel_option (envs e)) e T (cons_wait es ip) (cons_wait es' ip)"
proof (induction es es' arbitrary: T rule: list_all2_induct)
  case Nil
  show ?case unfolding cons_wait.simps [of "[]"] by (intro sim; simp add: acc)
next
  case (Cons m es m' es')
  then show ?case unfolding cons_wait.simps [of "m # es"] cons_wait.simps [of "m' # es'"] list.case by (intro sim; simp add: acc)
qed

lemma sim_relopt:
  "rel_option Q x x' \<Longrightarrow> simr R e T m m' \<Longrightarrow> (\<And>y y'. Q y y' \<Longrightarrow> simr R e T (f y) (f' y')) \<Longrightarrow>
   simr R e T (case x of None \<Rightarrow> m | Some y \<Rightarrow> f y) (case x' of None \<Rightarrow> m' | Some y \<Rightarrow> f' y)"
  by (cases x; cases x') simp_all

lemma sim_cons_read [sim]: "envs e es es' \<Longrightarrow> sim e T (cons_read es ip target n dst) (cons_read es' ip target n dst)"
proof (induction n arbitrary: es es' dst)
  case (Suc n)
  show ?case unfolding cons_read.simps
    by (rule sim_bindr [OF sim_cons_wait [OF Suc.prems]], erule sim_relopt) (intro sim sim_kmod Suc.IH; simp add: acc)+
qed (simp add: sim_kret)

lemma sim_consoleread [sim]: "envs e es es' \<Longrightarrow> sim e T (consoleread es ip n) (consoleread es' ip n)"
  unfolding consoleread_def by (intro sim sim_kmod; simp add: acc)

lemma sim_readfn [sim]: "simr R e T m m' \<Longrightarrow> simr R e T (case x of Consoleread \<Rightarrow> m) (case x of Consoleread \<Rightarrow> m')"
  by (cases x) simp

lemma sim_writefn [sim]: "simr R e T m m' \<Longrightarrow> simr R e T (case x of Consolewrite \<Rightarrow> m) (case x of Consolewrite \<Rightarrow> m')"
  by (cases x) simp

lemma same_read_pieces [sim]: "same e T (read_pieces i ps dst)"
  by (induction ps arbitrary: dst) (auto intro!: sim simp: acc)

lemma sim_readi [sim]: "envs e es es' \<Longrightarrow> sim e T (readi es i off n) (readi es' i off n)"
  unfolding readi_def by (intro sim sim_kmod; simp add: acc)

lemmas same_readi [sim] = sim_readi [of e "[]" "[]" for e, simplified]

lemma same_write_piece [sim]: "same e T (write_piece i off src)"
  unfolding write_piece_def by (intro sim sim_kmod; simp add: acc)

lemma same_writei [sim]:
  "same e T (writei i src off n)" "same e T (read_dirent i off)"
  unfolding writei_def read_dirent_def
  by (intro sim sim_kmod; simp add: acc)+

lemma same_dirlookup_turn [sim]: "same e T (dirlookup_turn i name off)"
  unfolding dirlookup_turn_def by (intro sim sim_kmod; simp add: acc)

lemma same_dirlookup [sim]:
  "same e T (dirlookup i name)" "same e T (free_dirent i off)"
  unfolding dirlookup_def free_dirent_def
  by (intro sim sim_kmod; simp add: acc)+

lemma same_dirlink [sim]: "same e T (dirlink i name inum)"
  unfolding dirlink_def by (intro sim sim_kmod; simp add: acc)

lemma same_namex_walk [sim]: "same e T (namex_walk path parent name i)"
proof (induction path arbitrary: name i rule: length_induct)
  case (1 path)
  then show ?case
    unfolding namex_walk.simps [of path] by (intro sim 1 [rule_format]; simp add: acc skipelem_shorter)
qed

lemma same_namex [sim]: "same e T (namex path parent)"
  unfolding namex_def by (intro sim sim_kmod; simp add: acc)

lemma same_namei [sim]:
  "same e T (namei path)" "same e T (nameiparent path)"
  unfolding namei_def nameiparent_def
  by (intro sim sim_kmod; simp add: acc)+

section \<open>Open files and pipes\<close>

lemma sim_ftype [sim]:
  "simr R e T m m' \<Longrightarrow> simr R e T n n' \<Longrightarrow> simr R e T k k' \<Longrightarrow>
   simr R e T (case x of FD_NONE \<Rightarrow> m | FD_PIPE \<Rightarrow> n | FD_INODE \<Rightarrow> k) (case x of FD_NONE \<Rightarrow> m' | FD_PIPE \<Rightarrow> n' | FD_INODE \<Rightarrow> k')"
  by (cases x) simp_all

declare upd_file_def [acc] upd_pipe_def [acc]

lemma same_pipe_get [sim]: "same e T (pipe_get p)"
  unfolding pipe_get_def by (intro sim sim_kmod; simp add: acc)

lemma same_pipeclose [sim]: "same e T (pipeclose p writable)"
  unfolding pipeclose_def by (intro sim sim_kmod; simp add: acc)

lemma sim_pipe_full [sim]: "envs e es es' \<Longrightarrow> simr (rel_option (envs e)) e T (pipe_full es p) (pipe_full es' p)"
proof (induction es es' arbitrary: T rule: list_all2_induct)
  case Nil
  show ?case unfolding pipe_full.simps [of "[]"] by (intro sim; simp add: acc)
next
  case (Cons m es m' es')
  then show ?case unfolding pipe_full.simps [of "m # es"] pipe_full.simps [of "m' # es'"] list.case by (intro sim; simp add: acc)
qed

lemma sim_pipe_put [sim]: "envs e es es' \<Longrightarrow> sim e T (pipe_put es p cs) (pipe_put es' p cs)"
proof (induction cs arbitrary: es es')
  case (Cons c cs)
  show ?case unfolding pipe_put.simps
    by (rule sim_bindr [OF sim_pipe_full [OF Cons.prems]], erule sim_relopt) (intro sim sim_kmod Cons.IH; simp add: acc)+
qed (simp add: sim_kret)

lemma sim_pipewrite [sim]: "envs e es es' \<Longrightarrow> sim e T (pipewrite es p src n) (pipewrite es' p src n)"
  unfolding pipewrite_def by (intro sim sim_kmod; simp add: acc)

lemma sim_pipe_empty [sim]: "envs e es es' \<Longrightarrow> simr (=) e T (pipe_empty es p) (pipe_empty es' p)"
proof (induction es es' arbitrary: T rule: list_all2_induct)
  case Nil
  show ?case unfolding pipe_empty.simps [of "[]"] by (intro sim; simp add: acc)
next
  case (Cons m es m' es')
  then show ?case unfolding pipe_empty.simps [of "m # es"] pipe_empty.simps [of "m' # es'"] list.case by (intro sim; simp add: acc)
qed

lemma same_pipe_take [sim]: "same e T (pipe_take p n dst)"
  by (induction n arbitrary: dst) (auto intro!: sim sim_kmod simp: acc)

lemma sim_piperead [sim]: "envs e es es' \<Longrightarrow> sim e T (piperead es p n) (piperead es' p n)"
  unfolding piperead_def by (intro sim sim_kmod; simp add: acc)

lemma same_fileinit [sim]:
  "same e T fileinit" "same e T filealloc" "same e T (filedup i)" "same e T (fileclose i)"
  "same e T (filestat i)"
  unfolding fileinit_def filealloc_def filedup_def fileclose_def filestat_def
  by (intro sim sim_kmod; simp add: acc)+

lemma sim_fileread [sim]: "envs e es es' \<Longrightarrow> sim e T (fileread es i n) (fileread es' i n)"
  unfolding fileread_def by (intro sim sim_kmod; simp add: acc)

lemma same_write_chunk [sim]: "same e T (write_chunk i ip src n1)"
  unfolding write_chunk_def by (intro sim sim_kmod; simp add: acc)

lemma same_write_chunks [sim]: "same e T (write_chunks i ip src n k)"
proof (induction i ip src n k rule: write_chunks.induct)
  case (1 i ip src n k)
  show ?case unfolding write_chunks.simps [of i ip src n k] by (intro sim 1; simp)
qed

lemma sim_filewrite [sim]: "envs e es es' \<Longrightarrow> sim e T (filewrite es i src n) (filewrite es' i src n)"
  unfolding filewrite_def by (intro sim sim_kmod; simp add: acc)

lemma same_close_opt [sim]: "same e T (close_opt f)"
  unfolding close_opt_def by (intro sim sim_kmod; simp add: acc)

lemma same_pipealloc [sim]: "same e T pipealloc"
  unfolding pipealloc_def by (intro sim sim_kmod; simp add: acc)

section \<open>System calls on files, and exec\<close>

declare upa_def [acc]

lemma same_uload [sim]:
  "same e T (uload va)" "same e T (ustore va b)"
  unfolding uload_def ustore_def
  by (intro sim sim_kmod; simp add: acc)+

lemma same_uloads [sim]: "same e T (uloads va n)"
  by (induction n arbitrary: va) (auto intro!: sim)

lemma same_ustores [sim]: "same e T (ustores va bs)"
  by (induction bs arbitrary: va) (auto intro!: sim)

lemma same_fetch_chars [sim]: "same e T (fetch_chars n a bs)"
  by (induction n arbitrary: a bs) (auto intro!: sim)

lemma sim_or_fail [sim]:
  "sim e T m m' \<Longrightarrow> (\<And>x. sim e T (f x) (f' x)) \<Longrightarrow> sim e T (or_fail m f) (or_fail m' f')"
  unfolding or_fail_def by (intro sim; simp)

lemma sim_op_fail [sim]:
  "sim e T m m' \<Longrightarrow> (\<And>x. sim e T (f x) (f' x)) \<Longrightarrow> sim e T (op_fail m f) (op_fail m' f')"
  unfolding op_fail_def by (intro sim; simp)

lemma same_uload32 [sim]:
  "same e T (uload32 va)" "same e T (ustore32 va w)"
  unfolding uload32_def ustore32_def
  by (intro sim sim_kmod; simp add: acc)+

lemma same_fetchint [sim]:
  "same e T (fetchint addr)" "same e T (fetchstr addr)"
  unfolding fetchint_def fetchstr_def
  by (intro sim sim_kmod; simp add: acc)+

lemma same_argint [sim]: "same e T (argint n)"
  unfolding argint_def by (intro sim sim_kmod; simp add: acc)

lemma same_argptr [sim]:
  "same e T (argptr n size')" "same e T (argstr n)"
  unfolding argptr_def argstr_def
  by (intro sim sim_kmod; simp add: acc)+

lemma same_argfd [sim]:
  "same e T (argfd n)" "same e T (fdalloc f)" "same e T (fdclear fd)"
  unfolding argfd_def fdalloc_def fdclear_def
  by (intro sim sim_kmod; simp add: acc)+

lemma same_sys_dup [sim]:
  "same e T sys_dup" "same e T sys_close" "same e T sys_fstat" "same e T (inode_of i)"
  "same e T (add_nlink k i)"
  unfolding sys_dup_def sys_close_def sys_fstat_def inode_of_def add_nlink_def
  by (intro sim sim_kmod; simp add: acc)+

lemma same_sys_link [sim]:
  "same e T sys_link" "same e T (entry_used dp off)"
  unfolding sys_link_def entry_used_def
  by (intro sim sim_kmod; simp add: acc)+

lemma same_isdirempty [sim]: "same e T (isdirempty dp)"
  unfolding isdirempty_def by (intro sim sim_kmod; simp add: acc)

lemma same_sys_unlink [sim]:
  "same e T sys_unlink" "same e T (create path type major minor)" "same e T (open_file ip omode)"
  unfolding sys_unlink_def create_def open_file_def
  by (intro sim sim_kmod; simp add: acc)+

lemma same_sys_open [sim]:
  "same e T sys_open" "same e T sys_mkdir" "same e T sys_mknod" "same e T sys_chdir" "same e T sys_pipe"
  unfolding sys_open_def sys_mkdir_def sys_mknod_def sys_chdir_def sys_pipe_def
  by (intro sim sim_kmod; simp add: acc)+

lemma sim_sys_read [sim]: "envs e es es' \<Longrightarrow> sim e T (sys_read es) (sys_read es')"
  unfolding sys_read_def by (intro sim sim_kmod; simp add: acc)

lemma sim_sys_write [sim]: "envs e es es' \<Longrightarrow> sim e T (sys_write es) (sys_write es')"
  unfolding sys_write_def by (intro sim sim_kmod; simp add: acc)

lemma same_loaduvm [sim]: "same e T (loaduvm pgdir addr ip offset sz)"
  unfolding loaduvm_def by (intro sim sim_kmod; simp add: acc)

lemma same_load_segs [sim]: "same e T (load_segs pgdir ip n off sz)"
  by (induction n arbitrary: off sz) (auto intro!: sim simp: Let_def)

lemma same_push_args [sim]: "same e T (push_args pgdir as sp us)"
  by (induction as arbitrary: sp us) (auto intro!: sim simp: Let_def)

lemma same_exec_commit [sim]: "same e T (exec_commit path pgdir sz entry sp)"
  unfolding exec_commit_def by (intro sim sim_kmod; simp add: acc)

lemma same_exec_stack [sim]: "same e T (exec_stack path argv pgdir entry sz)"
  unfolding exec_stack_def by (intro sim sim_kmod; simp add: acc)

lemma same_exec [sim]: "same e T (exec path argv)"
  unfolding exec_def by (intro sim sim_kmod; simp add: acc)

lemma same_fetch_argv [sim]: "same e T (fetch_argv n a as)"
  by (induction n arbitrary: a as) (auto intro!: sim)

lemma same_sys_exec [sim]: "same e T sys_exec"
  unfolding sys_exec_def by (intro sim sim_kmod; simp add: acc)

section \<open>System calls on processes\<close>

lemma nth_bare: "typed s \<Longrightarrow> i < NPROC \<Longrightarrow> procs (bare s) ! i = bare_proc (procs s ! i)"
  by simp

lemma zombie_child_bare: "zombie_child i (procs (bare s)) = zombie_child i (procs s)"
  by (simp add: zombie_child_def first_idx_bare)

lemma childless_bare: "(\<forall>p \<in> set (procs (bare s)). p_parent p \<noteq> Some i) = (\<forall>p \<in> set (procs s). p_parent p \<noteq> Some i)"
  by simp

lemmas reads = nth_bare bare_sel(2-6) bare_proc_sel zombie_child_bare childless_bare prod.case

lemma same_growproc [sim]: "same e T (growproc n)"
  unfolding growproc_def
  by (intro sim_with_proc sim_kget_bind) (simp only: reads, intro sim; simp add: acc)

lemma same_dup_files [sim]: "i < NPROC \<Longrightarrow> k < NPROC \<Longrightarrow> same e T (dup_files i k)"
  unfolding dup_files_def by (intro sim sim_kmod; simp add: acc)

lemma same_close_files [sim]: "i < NPROC \<Longrightarrow> same e T (close_files i)"
  unfolding close_files_def by (intro sim sim_kmod; simp add: acc)

lemma same_wake_on [sim]: "same e T (wake_on q)"
  unfolding wake_on_def by (intro sim sim_map; simp add: acc)

lemma same_pass_child [sim]: "k < NPROC \<Longrightarrow> same e T (pass_child i k :: (unit, 'z kern_scheme) K)"
  unfolding pass_child_def
proof (rule sim_kget_bind)
  fix s :: "'z kern_scheme"
  assume k: "k < NPROC" and s: "typed s" "T \<subseteq> ticketed (procs s)"
  then have "\<forall>q. initproc s = Some q \<longrightarrow> q < NPROC" by (simp add: typed_def table_typed_def)
  with k s show "sim e T (case (procs s ! k, initproc s) of (p, ini) \<Rightarrow> kwhen (p_parent p = Some i)
      (kseq (kmod (upd_proc k (\<lambda>p. p\<lparr>p_parent := ini\<rparr>))) (kwhen (p_state p = ZOMBIE) (wake_on ini))))
    (case (procs (bare s) ! k, initproc (bare s)) of (p, ini) \<Rightarrow> kwhen (p_parent p = Some i)
      (kseq (kmod (upd_proc k (\<lambda>p. p\<lparr>p_parent := ini\<rparr>))) (kwhen (p_state p = ZOMBIE) (wake_on ini))))"
    by (simp only: reads, intro sim; simp add: acc)
qed

lemma same_reap [sim]: "k < NPROC \<Longrightarrow> same e T (reap k)"
  unfolding reap_def
  by (rule sim_kget_bind) (simp only: reads, intro sim; simp add: acc)

lemma sim_wait_loop:
  "envs e es es' \<Longrightarrow> i < NPROC \<Longrightarrow>
   simr (\<lambda>r r'. r = r' \<and> (\<forall>k. r = Some k \<longrightarrow> k < NPROC)) e T (wait_loop es i) (wait_loop es' i)"
proof (induction es es' arbitrary: T rule: list_all2_induct)
  case Nil
  then show ?case unfolding wait_loop.simps [of "[]"]
    by (intro sim_kget_bind) (simp only: reads nth_map typed_length, intro sim; auto simp: zombie_child_def dest!: first_idx_less)
next
  case (Cons m es m' es')
  then show ?case unfolding wait_loop.simps [of "m # es"] wait_loop.simps [of "m' # es'"] list.case
    by (intro sim_kget_bind) (simp only: reads nth_map typed_length, intro sim; auto simp: zombie_child_def dest!: first_idx_less)
qed

lemma sim_wait [sim]: "envs e es es' \<Longrightarrow> sim e T (wait es) (wait es')"
  unfolding wait_def
  by (intro sim_kseq sim_with_proc same_acq, rule sim_bindr [OF sim_wait_loop]) (auto intro!: sim)

lemma same_sys_kill [sim]:
  "same e T sys_kill" "same e T sys_getpid" "same e T sys_sbrk"
  unfolding sys_kill_def sys_getpid_def sys_sbrk_def
  by (intro sim sim_kmod; simp add: acc)+

lemma sim_sleep_loop [sim]: "envs e es es' \<Longrightarrow> simr (=) e T (sleep_loop es t0 n) (sleep_loop es' t0 n)"
proof (induction es es' arbitrary: T rule: list_all2_induct)
  case Nil
  show ?case unfolding sleep_loop.simps [of "[]"] by (intro sim; simp add: acc)
next
  case (Cons m es m' es')
  then show ?case unfolding sleep_loop.simps [of "m # es"] sleep_loop.simps [of "m' # es'"] list.case by (intro sim; simp add: acc)
qed

lemma sim_sys_sleep [sim]: "envs e es es' \<Longrightarrow> sim e T (sys_sleep es) (sys_sleep es')"
  unfolding sys_sleep_def by (intro sim sim_kmod; simp add: acc)

lemma same_sys_uptime [sim]:
  "same e T sys_uptime" "same e T (set_eax r)"
  unfolding sys_uptime_def set_eax_def
  by (intro sim sim_kmod; simp add: acc)+

end
