(* ===== verification/Homework1.thy ===== *)
theory Homework1
  imports Typed
begin

text \<open>
  The kernel of homework 1, where it differs from that of homework 3: kernel/proc.c, kernel/trap.c and
  kernel/syscall.c of homework-1-sort have neither tickets nor the times of a process, nor the system
  call \<open>wait_stat\<close>. \<open>trap_matches\<close> compares the two: on every trap but
  a call of \<open>wait_stat\<close>, the kernel of homework 3 does what that of
  homework 1 does, seen without the fields and the table that homework 3 added.
\<close>

unbundle bit_operations_syntax

section \<open>The kernel of homework 1\<close>

definition allocproc_hw1 :: "u32 \<Rightarrow> (nat option, 'z kern_scheme) K" where
  "allocproc_hw1 fk = kseq (acq LPtable) (kbind (kget procs) (\<lambda>ps.
     case first_idx (\<lambda>p. p_state p = UNUSED) ps of
       None \<Rightarrow> kseq (rel LPtable) (kret None)
     | Some i \<Rightarrow> kseq (kblock
         [kmod (\<lambda>s. upd_proc i (\<lambda>p. p\<lparr>p_state := EMBRYO, p_pid := nextpid s\<rparr>) s),
          kmod (\<lambda>s. s\<lparr>nextpid := s32 (nextpid s + 1)\<rparr>),
          rel LPtable])
        (kbind kalloc (\<lambda>k.
          if k = 0 then kseq (kmod (upd_proc i (\<lambda>p. p\<lparr>p_kstack := 0, p_state := UNUSED\<rparr>))) (kret None)
          else kseq (kmod (upd_proc i (\<lambda>p. p\<lparr>p_kstack := k, p_context := zero_context\<lparr>c_eip := fk\<rparr>\<rparr>)))
            (kret (Some i))))))"

definition userinit_hw1 :: "u32 \<Rightarrow> u8 list \<Rightarrow> (unit, 'z kern_scheme) K" where
  "userinit_hw1 fk initcode = kbind (allocproc_hw1 fk) (\<lambda>p. kseq (kmod (initproc_update (\<lambda>_. p))) (case p of
     None \<Rightarrow> kundef
   | Some i \<Rightarrow> kbind setupkvm (\<lambda>pgdir. kseq (kmod (upd_proc i (\<lambda>p. p\<lparr>p_pgdir := pgdir\<rparr>)))
      (if pgdir = 0 then kpanic ''userinit: out of memory?''
       else kseq (kblock
         [inituvm pgdir initcode,
          kmod (upd_proc i (\<lambda>p. p\<lparr>p_sz := PGSIZE, p_tf := user_tf, p_name := ''initcode''\<rparr>))])
        (kbind (namei [47]) (\<lambda>cwd. kmod (upd_proc i (\<lambda>p. p\<lparr>p_cwd := cwd, p_state := RUNNABLE\<rparr>))))))))"

definition fork_hw1 :: "u32 \<Rightarrow> (int, 'z kern_scheme) K" where
  "fork_hw1 fk = kbind (allocproc_hw1 fk) (\<lambda>r. case r of
     None \<Rightarrow> kret (- 1)
   | Some np \<Rightarrow> with_proc (\<lambda>i. kbind (kget (\<lambda>s. procs s ! i)) (\<lambda>p. kbind (copyuvm (p_pgdir p) (p_sz p)) (\<lambda>d.
       kseq (kmod (upd_proc np (\<lambda>p. p\<lparr>p_pgdir := d\<rparr>)))
       (if d = 0 then kbind (kget (\<lambda>s. p_kstack (procs s ! np))) (\<lambda>k. kseq (kblock
         [kfree k, kmod (upd_proc np (\<lambda>p. p\<lparr>p_kstack := 0, p_state := UNUSED\<rparr>))]) (kret (- 1)))
        else kseq (kblock
         [kmod (\<lambda>s. upd_proc np (\<lambda>q. let p = procs s ! i in q\<lparr>p_sz := p_sz p, p_parent := Some i,
             p_tf := (p_tf p)\<lparr>tf_eax := 0\<rparr>\<rparr>) s),
          dup_files i np,
          kbind (kget (\<lambda>s. p_cwd (procs s ! i))) (\<lambda>cwd. case cwd of None \<Rightarrow> kundef
            | Some c \<Rightarrow> kbind (idup c) (\<lambda>c. kmod (upd_proc np (\<lambda>q. q\<lparr>p_cwd := Some c\<rparr>)))),
          kmod (\<lambda>s. upd_proc np (\<lambda>q. q\<lparr>p_name := take 15 (p_name (procs s ! i))\<rparr>) s)])
         (kbind (kget (\<lambda>s. p_pid (procs s ! np))) (\<lambda>pid. kseq (kblock
           [acq LPtable, kmod (upd_proc np (\<lambda>q. q\<lparr>p_state := RUNNABLE\<rparr>)), rel LPtable])
           (kret pid))))))))"

definition exit_tail_hw1 :: "nat \<Rightarrow> ('a, 'z kern_scheme) K" where
  "exit_tail_hw1 i = kseq (kblock
     [acq LPtable,
      kbind (kget (\<lambda>s. p_parent (procs s ! i))) wake_on,
      kbind (kget (\<lambda>s. length (procs s))) (\<lambda>n. kfor [0..<n] (pass_child i)),
      kmod (upd_proc i (\<lambda>p. p\<lparr>p_state := ZOMBIE\<rparr>)),
      sched]) (\<lambda>s. Sleep (ChProc i) s)"

definition exit_proc_hw1 :: "('a, 'z kern_scheme) K" where
  "exit_proc_hw1 = kbind (kget (\<lambda>s. (curproc s, initproc s))) (\<lambda>(p, ini).
     if p = ini then kpanic ''init exiting''
     else with_proc (\<lambda>i. kseq (kblock
       [close_files i,
        begin_op,
        kbind (kget (\<lambda>s. p_cwd (procs s ! i))) (\<lambda>cwd. case cwd of None \<Rightarrow> kundef | Some c \<Rightarrow> iput c),
        end_op,
        kmod (upd_proc i (\<lambda>p. p\<lparr>p_cwd := None\<rparr>))])
       (exit_tail_hw1 i)))"

definition syscalls_hw1 :: "'z kern_scheme outside \<Rightarrow> (int, 'z kern_scheme) K list" where
  "syscalls_hw1 x =
     [fork_hw1 (o_forkret x), exit_proc_hw1, wait (o_envs x), sys_pipe, sys_read (o_envs x), sys_kill, sys_exec, sys_fstat,
      sys_chdir, sys_dup, sys_getpid, sys_sbrk, sys_sleep (o_envs x), sys_uptime, sys_open, sys_write (o_envs x),
      sys_mknod, sys_unlink, sys_link, sys_mkdir, sys_close]"

definition syscall_hw1 :: "'z kern_scheme outside \<Rightarrow> (unit, 'z kern_scheme) K" where
  "syscall_hw1 x = with_proc (\<lambda>i. kbind (kget (\<lambda>s. procs s ! i)) (\<lambda>p. let num = sint (tf_eax (p_tf p)) in
     if 0 < num \<and> num < 22 then kbind (syscalls_hw1 x ! (nat num - 1)) set_eax
     else kseq (cprintf ''%d %s: unknown sys call %d\<newline>'' [AInt (p_pid p), AStr (Some (p_name p)), AInt num])
       (set_eax (- 1))))"

definition timer_tick_hw1 :: "(unit, 'z kern_scheme) K" where
  "timer_tick_hw1 = kblock
     [acq LTicks,
      kmod (\<lambda>s. s\<lparr>ticks := ticks s + 1\<rparr>),
      wakeup ChTicks,
      rel LTicks]"

definition exit_if_killed_hw1 :: "(unit, 'z kern_scheme) K" where
  "exit_if_killed_hw1 = kbind (kget (\<lambda>s. case curproc s of None \<Rightarrow> False | Some i \<Rightarrow> p_killed (procs s ! i))) (\<lambda>killed.
     if killed then exit_proc_hw1 else kret ())"

definition device_trap_hw1 :: "'z kern_scheme outside \<Rightarrow> trapframe \<Rightarrow> (unit, 'z kern_scheme) K" where
  "device_trap_hw1 x tf = (let no = unat (tf_trapno tf) in
     if no = T_IRQ0 + IRQ_TIMER then kseq (kwhen (o_cpu x = 0) timer_tick_hw1) lapiceoi
     else if no = T_IRQ0 + IRQ_IDE then kseq ideintr lapiceoi
     else if no = T_IRQ0 + IRQ_IDE + 1 then kret ()
     else if no = T_IRQ0 + IRQ_KBD then kseq (kbdintr (o_frames x) (o_kbd x)) lapiceoi
     else if no = T_IRQ0 + IRQ_COM1 then kseq (uartintr (o_frames x) (o_uart x)) lapiceoi
     else if no = T_IRQ0 + 7 \<or> no = T_IRQ0 + IRQ_SPURIOUS then
       kseq (cprintf ''cpu%d: spurious interrupt at %x:%x\<newline>'' [AInt (int (o_cpu x)), AInt (uint (tf_cs tf)), AInt (uint (tf_eip tf))]) lapiceoi
     else bad_trap x tf)"

definition trap_hw1 :: "'z kern_scheme outside \<Rightarrow> trapframe \<Rightarrow> (unit, 'z kern_scheme) K" where
  "trap_hw1 x tf =
     (if unat (tf_trapno tf) = T_SYSCALL then with_proc (\<lambda>i. kblock
        [exit_if_killed_hw1,
         kmod (upd_proc i (\<lambda>p. p\<lparr>p_tf := tf\<rparr>)),
         syscall_hw1 x,
         exit_if_killed_hw1])
      else kblock
        [device_trap_hw1 x tf,
         kwhen (in_user tf) exit_if_killed_hw1,
         kbind (kget (\<lambda>s. case curproc s of None \<Rightarrow> False | Some i \<Rightarrow> p_state (procs s ! i) = RUNNING)) (\<lambda>running.
           kwhen (running \<and> unat (tf_trapno tf) = T_IRQ0 + IRQ_TIMER) (yield_cpu_hw1 (o_yield x))),
         kwhen (in_user tf) exit_if_killed_hw1])"

section \<open>Making a process\<close>

text \<open>What \<open>allocproc\<close> has done to the entry it found when it gives up the lock.\<close>

definition embryo_hw1 :: "nat \<Rightarrow> 'z kern_scheme \<Rightarrow> 'z kern_scheme" where
  "embryo_hw1 k s = s\<lparr>procs := (procs s)[k := (procs s ! k)\<lparr>p_state := EMBRYO, p_pid := nextpid s\<rparr>],
     nextpid := s32 (nextpid s + 1)\<rparr>"

lemma embryo_moves:
  assumes s: "typed s" and k: "k < NPROC"
  shows "typed (embryo k s) \<and> ticketed (procs s) \<subseteq> ticketed (procs (embryo k s)) \<and> k \<in> ticketed (procs (embryo k s)) \<and>
    embryo_hw1 k (bare s) = bare (embryo k s)"
proof -
  have l: "length (procs s) = NPROC" "length (random_int s) = 256" using s by (simp_all add: typed_def table_typed_def)
  define r where "r = fst (next_random (random_int s)) mod 999 + 1"
  have r: "1 \<le> r" "r \<le> 999"
    using pos_mod_bound [of 999 "fst (next_random (random_int s))"] by (simp_all add: r_def)
  have rs: "set (snd (next_random (random_int s))) = set (random_int s)" "length (snd (next_random (random_int s))) = 256"
    using next_random_rotate [OF l(2)] l(2) by simp_all
  define p where "p = (procs s ! k)\<lparr>p_state := EMBRYO, p_pid := nextpid s, p_tickets := r\<rparr>"
  have e: "embryo k s = s\<lparr>nextpid := s32 (nextpid s + 1), random_int := snd (next_random (random_int s)), procs := (procs s)[k := p]\<rparr>"
    by (simp add: embryo_def p_def r_def)
  have p: "proc_typed p" "1 \<le> p_tickets p"
    using typed_nth [OF s k] r s by (simp_all add: p_def proc_typed_def typed_def table_typed_def)
  have t: "ticketed (procs s) \<subseteq> ticketed ((procs s)[k := p])" "k \<in> ticketed ((procs s)[k := p])"
    using p l k by (auto simp: ticketed_def nth_list_update)
  moreover have all: "\<forall>q \<in> set ((procs s)[k := p]). proc_typed q"
    using set_update_subset_insert [of "procs s" k p] s p by (auto simp: typed_def table_typed_def)
  have "typed (embryo k s)"
    using s rs l t all unfolding e by (auto simp: typed_def table_typed_def s32_ok_simps)
  moreover have "(bare_proc (procs s ! k))\<lparr>p_state := EMBRYO, p_pid := nextpid s\<rparr> = bare_proc p"
    by (simp add: p_def bare_proc_def)
  then have "embryo_hw1 k (bare s) = bare (embryo k s)"
    unfolding e using l k by (simp add: embryo_hw1_def bare_def map_update)
  ultimately show ?thesis by (simp add: e)
qed

lemma sim_kmod_grow:
  fixes f :: "'z pt_scheme \<Rightarrow> 'z pt_scheme"
  assumes "\<And>s. typed s \<Longrightarrow> T \<subseteq> ticketed (procs s) \<Longrightarrow> typed (f s) \<and> ticketed (procs s) \<subseteq> ticketed (procs (f s)) \<and>
      T' \<subseteq> ticketed (procs (f s)) \<and> g (bare s) = bare (f s)"
    and "simr R e T' m m'"
  shows "simr R e T (kseq (kmod f) m) (kseq (kmod g) m')"
  unfolding simr_def
proof (intro allI impI)
  fix s :: "'z pt_scheme"
  assume s: "typed s" "T \<subseteq> ticketed (procs s)"
  note f = assms(1) [OF s]
  then have "matches R e (f s) (m (f s)) (m' (bare (f s)))" by (intro simD [OF assms(2)]) simp_all
  then show "matches R e s (kseq (kmod f) m s) (kseq (kmod g) m' (bare s))"
    using f matches_trans [of s "f s"] by (simp add: moved_def)
qed

text \<open>The first half of \<open>allocproc\<close> in one step.\<close>

lemma allocproc_found:
  "i < length (procs s) \<Longrightarrow> kseq (kblock
     [kmod (\<lambda>s. upd_proc i (\<lambda>p. p\<lparr>p_state := EMBRYO, p_pid := nextpid s\<rparr>) s),
      kmod (\<lambda>s. s\<lparr>nextpid := s32 (nextpid s + 1)\<rparr>),
      kbind get_random (\<lambda>r. kmod (upd_proc i (\<lambda>p. p\<lparr>p_tickets := r mod 999 + 1\<rparr>))),
      rel LPtable]) m s = kseq (kmod (embryo i)) (kseq (rel LPtable) m) s"
  "i < length (procs s) \<Longrightarrow> kseq (kblock
     [kmod (\<lambda>s. upd_proc i (\<lambda>p. p\<lparr>p_state := EMBRYO, p_pid := nextpid s\<rparr>) s),
      kmod (\<lambda>s. s\<lparr>nextpid := s32 (nextpid s + 1)\<rparr>),
      rel LPtable]) m s = kseq (kmod (embryo_hw1 i)) (kseq (rel LPtable) m) s"
  by (simp_all add: kseq_def kbind_def embryo_def embryo_hw1_def upd_proc_def get_random_def Let_def split_beta)

lemma sim_at:
  assumes "simr R e T n n'" "\<And>s. typed s \<Longrightarrow> m s = n s" "\<And>s. typed s \<Longrightarrow> m' (bare s) = n' (bare s)"
  shows "simr R e T m m'"
  using assms by (simp add: simr_def)

lemma sim_found:
  fixes m :: "('a, 'z kern_scheme) K" and m' :: "('b, 'z kern_scheme) K"
  assumes i: "i < NPROC" and m: "simr R e (insert i T) m m'"
  shows "simr R e T (kseq (kblock
     [kmod (\<lambda>s. upd_proc i (\<lambda>p. p\<lparr>p_state := EMBRYO, p_pid := nextpid s\<rparr>) s),
      kmod (\<lambda>s. s\<lparr>nextpid := s32 (nextpid s + 1)\<rparr>),
      kbind get_random (\<lambda>r. kmod (upd_proc i (\<lambda>p. p\<lparr>p_tickets := r mod 999 + 1\<rparr>))),
      rel LPtable]) m) (kseq (kblock
     [kmod (\<lambda>s. upd_proc i (\<lambda>p. p\<lparr>p_state := EMBRYO, p_pid := nextpid s\<rparr>) s),
      kmod (\<lambda>s. s\<lparr>nextpid := s32 (nextpid s + 1)\<rparr>),
      rel LPtable]) m')"
proof (rule sim_at)
  show "simr R e T (kseq (kmod (embryo i)) (kseq (rel LPtable) m)) (kseq (kmod (embryo_hw1 i)) (kseq (rel LPtable) m'))"
    by (rule sim_kmod_grow [where T' = "insert i T"]) (use embryo_moves [OF _ i] m in \<open>auto intro: sim\<close>)
qed (simp_all only: allocproc_found bare_sel length_map typed_length i)

lemma kbind_option:
  "kbind (case x of None \<Rightarrow> m | Some y \<Rightarrow> f y) n = (case x of None \<Rightarrow> kbind m n | Some y \<Rightarrow> kbind (f y) n)"
  by (cases x) simp_all

lemma kbind_cond: "kbind (if b then m else m') n = (if b then kbind m n else kbind m' n)"
  by simp

lemma first_unused_bare:
  "first_idx (\<lambda>p. p_state p = UNUSED) (procs (bare s)) = first_idx (\<lambda>p. p_state p = UNUSED) (procs s)"
  by (simp add: first_idx_bare)

lemma sim_allocproc:
  assumes none: "simr R e T (n None) (n' None)"
    and some: "\<And>k. k < NPROC \<Longrightarrow> simr R e (insert k T) (n (Some k)) (n' (Some k))"
  shows "simr R e T (kbind (allocproc fk) n) (kbind (allocproc_hw1 fk) n')"
  unfolding allocproc_def allocproc_hw1_def kbind_seq kbind_assoc kbind_option kbind_cond kbind_kret
proof (intro sim_kseq same_acq sim_kget_bind, simp only: first_unused_bare, rule sim_option, goal_cases)
  case 1
  show ?case by (intro sim none)
next
  case (2 s i)
  from first_idx_less [OF 2(3)] have "i < NPROC" using 2(1) by simp
  then show ?case
    by - (rule sim_found, assumption, intro sim some sim_weaken [OF none]; simp add: acc subset_insertI)
qed

lemma sim_fork [sim]: "sim e T (fork fk) (fork_hw1 fk)"
  unfolding fork_def fork_hw1_def
proof (rule sim_allocproc, goal_cases)
  case 1
  show ?case by (simp add: sim_kret)
next
  case (2 k)
  then show ?case unfolding option.case
    by (intro sim_with_proc sim_kget_bind) (simp only: reads, intro sim; simp add: acc Let_def)
qed

lemma same_pass_children: "same e T (kbind (kget (\<lambda>s. length (procs s))) (\<lambda>n. kfor [0..<n] (pass_child i)))"
  by (rule sim_kget_bind) (simp, intro sim; simp)

lemma sim_exit_tail [sim]: "i < NPROC \<Longrightarrow> simr R e (insert i T) (exit_tail i) (exit_tail_hw1 i)"
  unfolding exit_tail_def exit_tail_hw1_def
  by (intro sim_kseq sim_kblock_Cons same_pass_children) (simp | intro sim; simp add: acc)+

lemma sim_exit_proc [sim]: "simr R e T exit_proc exit_proc_hw1"
  unfolding exit_proc_def exit_proc_hw1_def
  by (rule sim_kget_bind) (simp only: reads, intro sim; simp add: acc)

lemma sim_any: "simr R False T m m'' \<Longrightarrow> simr R False T m m'"
  by (rule simr_any) simp_all

lemma sim_kget_any: "(\<And>v. simr R False T (n v) (n v)) \<Longrightarrow> simr R False T (kbind (kget f) n) m"
  by (rule sim_any [of _ _ _ "kbind (kget f) n"], rule sim_kget_bind, rule sim_any)

lemma sim_wait_stat: "envs False es es' \<Longrightarrow> sim False T (wait_stat es) (wait_stat es')"
  unfolding wait_stat_def
proof (intro sim_kseq sim_with_proc same_acq, rule sim_bindr [OF sim_wait_loop], goal_cases)
  case (3 i r r')
  then show ?case
    by (elim conjE, simp only:) (intro sim_option sim_kget_any; intro sim; simp add: acc)
qed

lemma sim_sys_wait_stat: "envs False es es' \<Longrightarrow> sim False T (sys_wait_stat es) (sys_wait_stat es')"
  unfolding sys_wait_stat_def by (intro sim sim_wait_stat; simp)

text \<open>A step that homework 1 does not have.\<close>

lemma sim_left:
  fixes m :: "('a, 'z pt_scheme) K"
  assumes "\<And>s. typed s \<Longrightarrow> T \<subseteq> ticketed (procs s) \<Longrightarrow> \<exists>a u. m s = Ok a u \<and> moved s u \<and> bare u = bare s"
    and "simr R e T n n'"
  shows "simr R e T (kseq m n) n'"
  unfolding simr_def
proof (intro allI impI)
  fix s :: "'z pt_scheme"
  assume s: "typed s" "T \<subseteq> ticketed (procs s)"
  then obtain a u where u: "m s = Ok a u" "moved s u" "bare u = bare s" using assms(1) by blast
  then have "matches R e u (n u) (n' (bare u))"
    using s by (intro simD [OF assms(2)]) (auto simp: moved_def)
  then show "matches R e s (kseq m n s) (n' (bare s))"
    using u matches_trans by (simp add: kseq_def kbind_def)
qed

lemma count_time_typed: "proc_typed p \<Longrightarrow> proc_step p (count_time p) \<and> bare_proc (count_time p) = bare_proc p"
  by (cases "p_state p") (simp_all add: count_time_def acc)

lemma charge_invisible:
  assumes s: "typed s"
  shows "\<exists>a u. kbind (kget curproc) (\<lambda>p. case p of None \<Rightarrow> kret () | Some i \<Rightarrow> kmod (upd_proc i count_time)) s = Ok a u \<and>
    moved s u \<and> bare u = bare s"
proof (cases "curproc s")
  case (Some i)
  then have "i \<in> ticketed (procs s)" using s typed_cur by blast
  then have i: "i < NPROC" using s by (simp add: ticketed_def)
  note p = count_time_typed [OF typed_nth [OF s i]]
  have "bare (upd_proc i count_time s) = bare s"
    using p i s by (simp add: upd_proc_def bare_def map_update list_update_same_conv)
  with typed_upd [OF s i, of count_time] p Some show ?thesis by (simp add: moved_def)
qed (use s in simp)

lemma sim_timer_tick [sim]: "sim e T timer_tick timer_tick_hw1"
  unfolding timer_tick_def timer_tick_hw1_def kblock.simps
  by (intro sim_kseq same_acq same_wakeup sim_left charge_invisible sim_kmod) (simp_all add: acc)

lemma sim_yield [sim]: "env_ok e (kmod f) (kmod f') \<Longrightarrow> sim e T (yield_cpu f) (yield_cpu_hw1 f')"
  unfolding yield_cpu_def yield_cpu_hw1_def env_ok_def
  by (intro sim; (erule sim_weaken)?; simp add: acc)

lemma sim_exit_if_killed [sim]: "sim e T exit_if_killed exit_if_killed_hw1"
  unfolding exit_if_killed_def exit_if_killed_hw1_def
  by (intro sim; auto dest!: typed_cur simp: ticketed_mem split: option.split)

section \<open>Traps\<close>

lemma sim_bool:
  "(b \<Longrightarrow> simr R e T m m') \<Longrightarrow> (\<not> b \<Longrightarrow> simr R e T n n') \<Longrightarrow>
   simr R e T (case b of True \<Rightarrow> m | False \<Rightarrow> n) (case b of True \<Rightarrow> m' | False \<Rightarrow> n')"
  by (cases b) simp_all

text \<open>The same outside, seen by the two kernels.\<close>

definition outside_ok :: "bool \<Rightarrow> 'z kern_scheme outside \<Rightarrow> 'z kern_scheme outside \<Rightarrow> bool" where
  "outside_ok e x x' \<longleftrightarrow> envs e (o_envs x) (o_envs x') \<and> env_ok e (kmod (o_yield x)) (kmod (o_yield x')) \<and>
     o_forkret x = o_forkret x' \<and> o_cpu x = o_cpu x' \<and> o_cr2 x = o_cr2 x' \<and> o_kbd x = o_kbd x' \<and>
     o_uart x = o_uart x' \<and> o_frames x = o_frames x'"

lemma outside_eq:
  "outside_ok e x x' \<Longrightarrow> o_forkret x = o_forkret x'" "outside_ok e x x' \<Longrightarrow> o_cpu x = o_cpu x'"
  "outside_ok e x x' \<Longrightarrow> o_cr2 x = o_cr2 x'" "outside_ok e x x' \<Longrightarrow> o_kbd x = o_kbd x'"
  "outside_ok e x x' \<Longrightarrow> o_uart x = o_uart x'" "outside_ok e x x' \<Longrightarrow> o_frames x = o_frames x'"
  by (simp_all add: outside_ok_def)

lemma sim_bad_trap:
  assumes "outside_ok e x x'"
  shows "sim e T (bad_trap x tf) (bad_trap x' tf)"
  unfolding bad_trap_def outside_eq [OF assms]
  by (rule sim_curproc; simp only: prod.case option.case; (intro sim_bool sim_kget_bind)?)
    (simp only: reads, intro sim; simp add: acc | intro sim; simp)+

lemma sim_device_trap:
  assumes "outside_ok e x x'"
  shows "sim e T (device_trap x tf) (device_trap_hw1 x' tf)"
  unfolding device_trap_def device_trap_hw1_def outside_eq [OF assms]
  by (intro sim sim_bad_trap assms; simp)

lemma sim_syscalls:
  assumes "outside_ok e x x'" and "j < 21"
  shows "sim e T (syscalls x ! j) (syscalls_hw1 x' ! j)"
proof -
  have "envs e (o_envs x) (o_envs x')" using assms(1) by (simp add: outside_ok_def)
  then have "list_all2 (sim e T) (take 21 (syscalls x)) (syscalls_hw1 x')"
    unfolding syscalls_def syscalls_hw1_def outside_eq [OF assms(1)]
    by (simp add: sim)
  moreover have "length (syscalls x) = 22" by (simp add: syscalls_def)
  ultimately show ?thesis using assms(2) list_all2_nthD [of "sim e T" "take 21 (syscalls x)" "syscalls_hw1 x'" j] by simp
qed

lemma syscall_matches:
  assumes x: "outside_ok e x x'" and s: "typed s" and num: "\<And>i. curproc s = Some i \<Longrightarrow> e \<Longrightarrow> tf_eax (p_tf (procs s ! i)) \<noteq> 22"
  shows "matches (=) e s (syscall x s) (syscall_hw1 x' (bare s))"
proof (cases "curproc s")
  case (Some i)
  then have i: "i \<in> ticketed (procs s)" using s typed_cur by blast
  then have "i < NPROC" using s by (simp add: ticketed_def)
  define p where "p = procs s ! i"
  define num where "num = sint (tf_eax (p_tf p))"
  define bad :: "(unit, 'a kern_scheme) K" where "bad = kseq
    (cprintf ''%d %s: unknown sys call %d\<newline>'' [AInt (p_pid p), AStr (Some (p_name p)), AInt num]) (set_eax (- 1))"
  have run: "syscall x s = (if 0 < num \<and> num < 23 then kbind (syscalls x ! (nat num - 1)) set_eax s else bad s)"
    "syscall_hw1 x' (bare s) = (if 0 < num \<and> num < 22 then kbind (syscalls_hw1 x' ! (nat num - 1)) set_eax (bare s) else bad (bare s))"
    using \<open>i < NPROC\<close> s Some by (simp_all add: syscall_def syscall_hw1_def with_proc_def Let_def p_def num_def bad_def)
  have T: "{} \<subseteq> ticketed (procs s)" by simp
  consider "0 < num" "num < 22" | "num = 22" | "\<not> (0 < num \<and> num < 23)" by linarith
  then show ?thesis
  proof cases
    case 1
    have "sim e {} (kbind (syscalls x ! (nat num - 1)) set_eax) (kbind (syscalls_hw1 x' ! (nat num - 1)) set_eax)"
      by (intro sim_kbind sim_syscalls [OF x] same_sys_uptime) (use 1 in simp)
    then show ?thesis using 1 simD [OF _ s T] by (simp add: run)
  next
    case 2
    then have "word_of_int (sint (tf_eax (p_tf p))) = (22 :: u32)" by (simp add: num_def)
    then have e: "\<not> e" using num [OF Some] by (auto simp: p_def)
    have "sim False {} (syscalls x ! 21) (sys_wait_stat (o_envs x'))"
      using x e by (simp add: syscalls_def outside_ok_def sim_sys_wait_stat)
    then have "sim False {} (kbind (syscalls x ! 21) set_eax) (syscall_hw1 x')"
      by (rule sim_any [OF sim_kbind [OF _ same_sys_uptime(2)]])
    then show ?thesis using 2 simD [OF _ s T] e by (simp add: run(1))
  next
    case 3
    have "same e {} bad" unfolding bad_def by (intro sim; simp)
    then show ?thesis using 3 simD [OF _ s T] by (auto simp add: run)
  qed
qed (simp add: syscall_def syscall_hw1_def with_proc_def matches_def)

lemma exit_proc_gone: "exit_proc s \<noteq> Ok a u"
  by (auto simp: exit_proc_def exit_tail_def with_proc_def kseq_def kbind_def split: res.splits option.splits)

lemma exit_if_killed_returns: "exit_if_killed s = Ok a u \<Longrightarrow> u = s"
  by (auto simp: exit_if_killed_def exit_proc_gone split: if_splits option.splits)

lemma matches_seq:
  assumes "matches Q e s (m s) (m' (bare s))"
    and "\<And>a u. m s = Ok a u \<Longrightarrow> moved s u \<Longrightarrow> matches R e u (n u) (n' (bare u))"
  shows "matches R e s (kseq m n s) (kseq m' n' (bare s))"
  unfolding kseq_def using assms by (intro matches_bind [where m = m and m' = m' and Q = Q])

lemma trap_syscall:
  assumes x: "outside_ok e x x'" and s: "typed s" and num: "e \<Longrightarrow> tf_eax tf \<noteq> 22" and i: "i < NPROC" "curproc s = Some i"
  shows "matches (=) e s (kseq (kmod (upd_proc i (\<lambda>p. p\<lparr>p_tf := tf\<rparr>))) (kseq (syscall x) exit_if_killed) s)
    (kseq (kmod (upd_proc i (\<lambda>p. p\<lparr>p_tf := tf\<rparr>))) (kseq (syscall_hw1 x') exit_if_killed_hw1) (bare s))"
proof (rule matches_seq)
  have "same e {} (kmod (upd_proc i (\<lambda>p. p\<lparr>p_tf := tf\<rparr>)))" by (intro sim; simp add: acc i)
  then show "matches (=) e s (kmod (upd_proc i (\<lambda>p. p\<lparr>p_tf := tf\<rparr>)) s) (kmod (upd_proc i (\<lambda>p. p\<lparr>p_tf := tf\<rparr>)) (bare s))"
    by (rule simD) (simp_all add: s)
next
  fix a u
  assume u: "kmod (upd_proc i (\<lambda>p. p\<lparr>p_tf := tf\<rparr>)) s = Ok a u" "moved s u"
  then have t: "typed u" "curproc u = Some i" "p_tf (procs u ! i) = tf" using i s by (auto simp: moved_def)
  show "matches (=) e u (kseq (syscall x) exit_if_killed u) (kseq (syscall_hw1 x') exit_if_killed_hw1 (bare u))"
  proof (rule matches_seq)
    show "matches (=) e u (syscall x u) (syscall_hw1 x' (bare u))"
      by (rule syscall_matches [OF x t(1)]) (use t num in simp)
  next
    fix a v
    assume "moved u v"
    then show "matches (=) e v (exit_if_killed v) (exit_if_killed_hw1 (bare v))"
      by (intro simD [OF sim_exit_if_killed [where T = "{}"]]) (simp_all add: moved_def)
  qed
qed

lemma sim_interrupt:
  assumes x: "outside_ok e x x'"
  shows "sim e T (kblock
        [device_trap x tf,
         kwhen (in_user tf) exit_if_killed,
         kbind (kget (\<lambda>s. case curproc s of None \<Rightarrow> False | Some i \<Rightarrow> p_state (procs s ! i) = RUNNING)) (\<lambda>running.
           kwhen (running \<and> unat (tf_trapno tf) = T_IRQ0 + IRQ_TIMER) (yield_cpu (o_yield x))),
         kwhen (in_user tf) exit_if_killed])
       (kblock
        [device_trap_hw1 x' tf,
         kwhen (in_user tf) exit_if_killed_hw1,
         kbind (kget (\<lambda>s. case curproc s of None \<Rightarrow> False | Some i \<Rightarrow> p_state (procs s ! i) = RUNNING)) (\<lambda>running.
           kwhen (running \<and> unat (tf_trapno tf) = T_IRQ0 + IRQ_TIMER) (yield_cpu_hw1 (o_yield x'))),
         kwhen (in_user tf) exit_if_killed_hw1])"
  by (intro sim sim_device_trap x; (simp split: option.split)?)
    (use x in \<open>auto simp: outside_ok_def ticketed_mem dest!: typed_cur\<close>)

lemma trap_matches:
  assumes x: "outside_ok e x x'" and s: "typed s" and num: "e \<Longrightarrow> unat (tf_trapno tf) = T_SYSCALL \<Longrightarrow> tf_eax tf \<noteq> 22"
  shows "matches (=) e s (trap x tf s) (trap_hw1 x' tf (bare s))"
proof (cases "unat (tf_trapno tf) = T_SYSCALL")
  case False
  show ?thesis
    using simD [OF sim_interrupt [OF x, where T = "{}" and tf = tf] s] False by (simp add: trap_def trap_hw1_def)
next
  case True
  show ?thesis
  proof (cases "curproc s")
    case None
    then show ?thesis using True by (simp add: trap_def trap_hw1_def with_proc_def matches_def)
  next
    case (Some i)
    then have i: "i < NPROC" "curproc s = Some i" using s typed_cur [OF s Some] by (auto simp: ticketed_def)
    have "matches (=) e s
      (kseq exit_if_killed (kseq (kmod (upd_proc i (\<lambda>p. p\<lparr>p_tf := tf\<rparr>))) (kseq (syscall x) exit_if_killed)) s)
      (kseq exit_if_killed_hw1 (kseq (kmod (upd_proc i (\<lambda>p. p\<lparr>p_tf := tf\<rparr>))) (kseq (syscall_hw1 x') exit_if_killed_hw1)) (bare s))"
    proof (rule matches_seq)
      show "matches (=) e s (exit_if_killed s) (exit_if_killed_hw1 (bare s))"
        by (rule simD [OF sim_exit_if_killed [where T = "{}"] s]) simp
    next
      fix a u
      assume "exit_if_killed s = Ok a u"
      then have "u = s" by (rule exit_if_killed_returns)
      then show "matches (=) e u (kseq (kmod (upd_proc i (\<lambda>p. p\<lparr>p_tf := tf\<rparr>))) (kseq (syscall x) exit_if_killed) u)
        (kseq (kmod (upd_proc i (\<lambda>p. p\<lparr>p_tf := tf\<rparr>))) (kseq (syscall_hw1 x') exit_if_killed_hw1) (bare u))"
        using trap_syscall [OF x s _ i] num True by simp
    qed
    then show ?thesis using True Some by (simp add: trap_def trap_hw1_def with_proc_def)
  qed
qed

lemma same_set_cur: "i \<in> T \<Longrightarrow> same e T (kmod (curproc_update (\<lambda>_. Some i)))"
  by (rule sim_kmod) (auto simp: typed_def table_typed_def bare_def)

lemma same_clear_cur: "same e T (kmod (curproc_update (\<lambda>_. None)))"
  by (rule sim_kmod) (auto simp: typed_def table_typed_def bare_def)

lemma same_set_init: "(\<And>i. p = Some i \<Longrightarrow> i < NPROC) \<Longrightarrow> same e T (kmod (initproc_update (\<lambda>_. p)))"
  by (rule sim_kmod) (auto simp: typed_def table_typed_def bare_def)

lemma sim_userinit: "sim e T (userinit fk code) (userinit_hw1 fk code)"
  unfolding userinit_def userinit_hw1_def
  by (rule sim_allocproc; simp only: option.case; intro sim same_set_init; simp add: acc)

section \<open>The scheduler\<close>

lemma sim_entry:
  fixes n :: "proc \<Rightarrow> ('a, 'z pt_scheme) K"
  assumes i: "i < NPROC" and unused: "\<And>p. p_state p = UNUSED \<Longrightarrow> simr R e T (n p) (n' (bare_proc p))"
    and used: "\<And>p. p_state p \<noteq> UNUSED \<Longrightarrow> simr R e (insert i T) (n p) (n' (bare_proc p))"
  shows "simr R e T (kbind (kget (\<lambda>s. procs s ! i)) n) (kbind (kget (\<lambda>s. procs s ! i)) n')"
  unfolding simr_def
proof (intro allI impI)
  fix s :: "'z pt_scheme"
  assume s: "typed s" "T \<subseteq> ticketed (procs s)"
  have "p_state (procs s ! i) \<noteq> UNUSED \<Longrightarrow> insert i T \<subseteq> ticketed (procs s)"
    using typed_nth [OF s(1) i] i s by (auto simp: proc_typed_def ticketed_mem)
  then have "matches R e s (n (procs s ! i) s) (n' (bare_proc (procs s ! i)) (bare s))"
    using simD [OF unused s] simD [OF used s(1)] by blast
  then show "matches R e s (kbind (kget (\<lambda>s. procs s ! i)) n s) (kbind (kget (\<lambda>s. procs s ! i)) n' (bare s))"
    using nth_bare [OF s(1) i] by simp
qed

lemma env_sim: "env_ok e m m' \<Longrightarrow> sim e T m m'"
  unfolding env_ok_def by (erule sim_weaken) simp

lemma same_dispatch:
  assumes "i < NPROC" and r: "env_ok e (kmod (run i)) (kmod (run i))"
  shows "same e (insert i T) (dispatch run i)"
  unfolding dispatch_def using assms(1)
  by (intro sim same_set_cur same_clear_cur env_sim [OF r]; simp add: acc)

lemma sim_diag: "simr R False T m m \<Longrightarrow> simr R False T m m'"
  by (rule simr_any) simp_all

lemma same_lottery_scan:
  assumes run: "\<And>i. env_ok False (kmod (run i)) (kmod (run i))"
  shows "set is \<subseteq> {..<NPROC} \<Longrightarrow> same False T (lottery_scan run w is c found)"
proof (induction "is" arbitrary: T c found)
  case (Cons i js)
  then have i: "i < NPROC" "set js \<subseteq> {..<NPROC}" by simp_all
  show ?case unfolding lottery_scan.simps
    by (rule sim_entry [OF i(1)]; rule sim_diag; intro sim Cons.IH i(2) same_dispatch i run; simp)
qed (simp add: sim_kret)

lemma same_get_random: "same False T get_random"
  unfolding get_random_def
proof (rule sim_kget_bind)
  fix s :: "'b pt_scheme"
  assume "typed s"
  then have l: "length (random_int s) = 256" "\<forall>r \<in> set (random_int s). 0 \<le> r \<and> s32_ok r"
    by (simp_all add: typed_def table_typed_def)
  obtain r a where n: "next_random (random_int s) = (r, a)" by (cases "next_random (random_int s)")
  then have "length a = 256" "set a = set (random_int s)" using next_random_rotate [OF l(1)] l(1) by auto
  then have "same False T (kmod (random_int_update (\<lambda>_. a)))"
    using l(2) by (intro sim_kmod) (auto simp: typed_def table_typed_def)
  then show "sim False T
      (let (rand, a') = next_random (random_int s) in kseq (kmod (random_int_update (\<lambda>_. a'))) (kret rand))
      (let (rand, a') = next_random (random_int (bare s)) in kseq (kmod (random_int_update (\<lambda>_. a'))) (kret rand))"
    unfolding n prod.case Let_def by - (rule sim_diag, intro sim; simp)
qed

lemma same_draw_winner: "same False T draw_winner"
  unfolding draw_winner_def get_total_tickets_def
  by (intro sim_kbind same_get_random sim_kget_any) (intro sim; simp)

lemma same_lottery_passes:
  assumes run: "\<And>i. env_ok False (kmod (run i)) (kmod (run i))" "env_ok False (kmod irq) (kmod irq)"
  shows "same False T (lottery_passes n run irq w cf)"
proof (induction n arbitrary: cf)
  case (Suc n)
  show ?case unfolding lottery_passes.simps lottery_pass_def
    by (intro sim env_sim [OF run(2)] same_lottery_scan [OF run(1)] Suc.IH) auto
qed (simp add: sim_kret)

lemma same_scheduler:
  assumes run: "\<And>i. env_ok False (kmod (run i)) (kmod (run i))" "env_ok False (kmod irq) (kmod irq)"
  shows "same False T (scheduler n run irq)"
  unfolding scheduler_def by (intro sim same_draw_winner same_lottery_passes run)

section \<open>The process table keeps its type\<close>

text \<open>What a part of the system is allowed to do to the table while others run.\<close>

definition stays :: "('a, 'z pt_scheme) K \<Rightarrow> bool" where
  "stays m \<longleftrightarrow> (\<forall>s. typed s \<longrightarrow> (case m s of Ok a u \<Rightarrow> moved s u | Sleep c u \<Rightarrow> moved s u | _ \<Rightarrow> True))"

lemma matches_stays:
  "matches R False s r r' \<Longrightarrow> case r of Ok a u \<Rightarrow> moved s u | Sleep c u \<Rightarrow> moved s u | _ \<Rightarrow> True"
  by (auto simp: matches_def split: res.splits)

lemma sim_stays: "simr R False {} m m' \<Longrightarrow> stays m"
  unfolding stays_def by (blast intro: matches_stays simD)

lemma stays_env: "stays m \<longleftrightarrow> env_ok False m m"
proof
  assume "stays m"
  then show "env_ok False m m"
    by (auto simp: stays_def env_ok_def simr_def matches_def split: res.splits)
qed (simp add: env_ok_def sim_stays)

lemma trap_stays:
  assumes "\<forall>m \<in> set (o_envs x). stays m" and "stays (kmod (o_yield x))"
  shows "stays (trap x tf)"
proof -
  have x: "outside_ok False x x"
    using assms by (simp add: outside_ok_def stays_env list_all2_same)
  have "sim False {} (trap x tf) (trap_hw1 x tf)"
    unfolding simr_def by (intro allI impI trap_matches [OF x]) simp_all
  then show ?thesis by (rule sim_stays)
qed

lemma typed_tickets_ok: "typed s \<Longrightarrow> tickets_ok (procs s) \<and> length (random_int s) = 256"
  by (auto simp: typed_def table_typed_def tickets_ok_def proc_typed_def)

definition typed_res :: "('a, 'z pt_scheme) res \<Rightarrow> bool" where
  "typed_res r \<longleftrightarrow> (case r of Ok a u \<Rightarrow> typed u \<and> tickets_ok (procs u) | Sleep c u \<Rightarrow> typed u \<and> tickets_ok (procs u) | _ \<Rightarrow> True)"

lemma stays_typed_res: "stays m \<Longrightarrow> typed s \<Longrightarrow> typed_res (m s)"
  unfolding stays_def typed_res_def
  by (drule spec [of _ s]) (auto simp: moved_def typed_tickets_ok split: res.splits)

text \<open>
  C6. The types of the process table: there are 64 entries, each with 16 descriptors, a name of at most 15
  characters and a parent in the table; a number that C keeps in an \<open>int\<close> is one; every entry in use
  has between 1 and 999 tickets; \<open>proc\<close> and \<open>initproc\<close> point into the table. The creation of the first
  process, every trap (a system call, an interrupt, a fault) and any number of turns of the
  scheduler, whether they return or end in the scheduler, leave a typed table typed, if what runs during
  their sleeps and switches does; so the tickets are in order whenever the lottery is drawn.
\<close>

theorem kernel_typed:
  assumes "typed s"
    and "\<forall>m \<in> set (o_envs x). stays m" "stays (kmod (o_yield x))"
    and "\<forall>i. stays (kmod (run i))" "stays (kmod irq)"
  shows "typed_res (userinit fk code s) \<and> typed_res (trap x tf s) \<and> typed_res (scheduler n run irq s)"
  by (intro conjI stays_typed_res [OF _ assms(1)] trap_stays [OF assms(2,3)] sim_stays [OF sim_userinit]
      sim_stays [OF same_scheduler]) (use assms(4,5) in \<open>simp_all add: stays_env\<close>)

definition some_outside :: "kern outside" where
  "some_outside = \<lparr>o_envs = [kmod (\<lambda>s. s\<lparr>ticks := ticks s + 1\<rparr>)], o_yield = (\<lambda>s. s\<lparr>ticks := ticks s + 1\<rparr>), o_forkret = 0x80105000,
     o_cpu = 0, o_cr2 = 0, o_kbd = [], o_uart = [], o_frames = (\<lambda>_. 0)\<rparr>"

definition full_table :: kern where
  "full_table = (up_kern (zero_proc\<lparr>p_state := RUNNING, p_pid := 7, p_tickets := 5\<rparr> # replicate 63 zero_proc))
     \<lparr>initproc := Some 0, nextpid := 8, random_int := random_table\<rparr>"

lemma full_table_typed: "typed full_table"
  by (simp add: typed_def table_typed_def full_table_def ticketed_def proc_typed_def zero_proc_def NPROC_def NOFILE_def s32_ok_def
      boot_random) (simp add: random_table_def)

lemma typed_ticks: "typed (s\<lparr>ticks := t\<rparr>) = typed s"
  by (simp add: typed_def)

lemma stays_tick: "stays (kmod (\<lambda>s. s\<lparr>ticks := ticks s + 1\<rparr>))" "stays (kmod id)"
  by (simp_all add: stays_def moved_def typed_ticks)

lemma kernel_typed_witness:
  "typed_res (userinit 0x80105000 [] full_table) \<and> typed_res (trap some_outside (user_tf\<lparr>tf_trapno := 64, tf_eax := 11\<rparr>) full_table) \<and>
   typed_res (scheduler 3 (\<lambda>i s. s\<lparr>ticks := ticks s + 1\<rparr>) id full_table)"
  by (rule kernel_typed) (simp_all add: full_table_typed some_outside_def stays_tick [simplified])

section \<open>Homework 3 refines homework 1\<close>

definition bare_res :: "('a, 'z pt_scheme) res \<Rightarrow> ('a, 'z pt_scheme) res" where
  "bare_res r = (case r of
     Ok a u \<Rightarrow> Ok a (bare u) | Sleep c u \<Rightarrow> Sleep c (bare u) | Panic p \<Rightarrow> Panic p | Hang \<Rightarrow> Hang | Undef \<Rightarrow> Undef)"

lemma matches_bare: "matches (=) True s r r' \<Longrightarrow> r' = bare_res r"
  by (auto simp: matches_def bare_res_def split: res.splits)

text \<open>
  A trap of one kernel is an admissible environment for a sleep in the other, so the traps that happen during
  a sleep may have sleeps with traps in them, to any depth.
\<close>

lemma trap_env_ok:
  "outside_ok e x x' \<Longrightarrow> (e \<Longrightarrow> unat (tf_trapno tf) = T_SYSCALL \<Longrightarrow> tf_eax tf \<noteq> 22) \<Longrightarrow> env_ok e (trap x tf) (trap_hw1 x' tf)"
  by (simp add: env_ok_def simr_def trap_matches)

text \<open>
  C7. The kernel of homework 3 does what that of homework 1 does: from a typed state, a trap that is not
  the new system call \<open>wait_stat\<close> has, with the times, the tickets and the random numbers left out, the
  very outcome it has in homework 1: the same result, the same panic, or the same sleep, with the same
  memory, disk, files, devices and processes.
\<close>

theorem trap_as_homework1:
  assumes "typed s" and "outside_ok True x x'"
    and "unat (tf_trapno tf) = T_SYSCALL \<Longrightarrow> tf_eax tf \<noteq> 22"
  shows "trap_hw1 x' tf (bare s) = bare_res (trap x tf s)"
  by (rule matches_bare, rule trap_matches) (use assms in auto)

lemma outside_tick: "outside_ok True some_outside some_outside"
  by (simp add: outside_ok_def some_outside_def env_ok_def simr_def matches_def bare_def moved_def typed_ticks)

lemma trap_as_homework1_witness:
  "\<exists>u. trap some_outside (user_tf\<lparr>tf_trapno := 64, tf_eax := 11\<rparr>) full_table = Ok () u \<and>
     trap_hw1 some_outside (user_tf\<lparr>tf_trapno := 64, tf_eax := 11\<rparr>) (bare full_table) = Ok () (bare u) \<and>
     tf_eax (p_tf (procs u ! 0)) = 7"
proof -
  have "\<exists>u. trap some_outside (user_tf\<lparr>tf_trapno := 64, tf_eax := 11\<rparr>) full_table = Ok () u \<and> tf_eax (p_tf (procs u ! 0)) = 7"
    by (simp add: trap_def T_SYSCALL_def with_proc_def exit_if_killed_def kbind_def kseq_def full_table_def zero_proc_def
        syscall_def syscalls_def sys_getpid_def set_eax_def upd_proc_def)
  with trap_as_homework1 [OF full_table_typed outside_tick, of "user_tf\<lparr>tf_trapno := 64, tf_eax := 11\<rparr>"]
  show ?thesis by (auto simp: bare_res_def)
qed

end
