(* ===== verification/Usertests.thy ===== *)
theory Usertests
  imports Umalloc Printf Exec
begin

text \<open>
  user/usertests.c, the test suite that runs as a user program. A test makes system calls, compares what
  they return with what it expects, and ends the process with a message at the first surprise. The
  buffer \<open>buf\<close> is passed along and returned; a test that reads until its input ends is given the number
  of turns it may take. A child of \<open>fork\<close> runs the branch for the result 0 to its end.
\<close>

unbundle bit_operations_syntax

section \<open>Calls and checks\<close>

fun ublock :: "(unit, 's) U list \<Rightarrow> (unit, 's) U" where
  "ublock [] = Ret ()"
| "ublock (m # ms) = useq m (ublock ms)"

fun ufold :: "'x list \<Rightarrow> ('x \<Rightarrow> 'b \<Rightarrow> ('b, 's) U) \<Rightarrow> 'b \<Rightarrow> ('b, 's) U" where
  "ufold [] body b = Ret b"
| "ufold (x # xs) body b = ubind (body x b) (ufold xs body)"

definition only :: "('a, 's) U \<Rightarrow> (unit, 's) U" where
  "only m = useq m (Ret ())"

definition announce :: "'s os \<Rightarrow> string \<Rightarrow> (unit, 's) U" where
  "announce os msg = printf os 1 msg []"

definition fail :: "'s os \<Rightarrow> string \<Rightarrow> uarg list \<Rightarrow> ('a, 's) U" where
  "fail os msg args = useq (printf os 1 msg args) uexit"

text \<open>A call whose result must not be bad.\<close>

definition check :: "'s os \<Rightarrow> ('a, 's) U \<Rightarrow> ('a \<Rightarrow> bool) \<Rightarrow> string \<Rightarrow> (unit, 's) U" where
  "check os call bad msg = ubind call (\<lambda>r. uwhen (bad r) (fail os msg []))"

text \<open>\<open>open\<close> that has to succeed.\<close>

definition opened :: "'s os \<Rightarrow> string \<Rightarrow> u32 \<Rightarrow> string \<Rightarrow> (int, 's) U" where
  "opened os nm flags msg = ubind (os_open os (lit nm) flags) (\<lambda>fd. if fd < 0 then fail os msg [] else Ret fd)"

text \<open>\<open>fork\<close> that has to succeed; the child runs the argument.\<close>

definition forked :: "'s os \<Rightarrow> (unit, 's) U \<Rightarrow> string \<Rightarrow> (int, 's) U" where
  "forked os child msg = ubind (os_fork os child) (\<lambda>pid. if pid < 0 then fail os msg [] else Ret pid)"

text \<open>\<open>read(fd, buf, n)\<close> and a \<open>write\<close> of the first bytes of the buffer.\<close>

definition read_buf :: "'s os \<Rightarrow> int \<Rightarrow> nat \<Rightarrow> u8 list \<Rightarrow> (int \<times> u8 list, 's) U" where
  "read_buf os fd n buf = ubind (os_read os fd n) (\<lambda>(cc, got). Ret (cc, put_bytes 0 (take (nat cc) got) buf))"

definition write_buf :: "'s os \<Rightarrow> int \<Rightarrow> u8 list \<Rightarrow> nat \<Rightarrow> (int, 's) U" where
  "write_buf os fd buf n = os_write os fd (take n buf)"

definition RW :: u32 where "RW = O_CREATE OR O_RDWR"

section \<open>Transactions around iput\<close>

definition iputtest :: "'s os \<Rightarrow> (unit, 's) U" where
  "iputtest os = ublock
     [announce os ''iput test\<newline>'',
      check os (os_mkdir os (lit ''iputdir'')) (\<lambda>r. r < 0) ''mkdir failed\<newline>'',
      check os (os_chdir os (lit ''iputdir'')) (\<lambda>r. r < 0) ''chdir iputdir failed\<newline>'',
      check os (os_unlink os (lit ''../iputdir'')) (\<lambda>r. r < 0) ''unlink ../iputdir failed\<newline>'',
      check os (os_chdir os (lit ''/'')) (\<lambda>r. r < 0) ''chdir / failed\<newline>'',
      announce os ''iput test ok\<newline>'']"

definition exitiputtest :: "'s os \<Rightarrow> (unit, 's) U" where
  "exitiputtest os = ublock
     [announce os ''exitiput test\<newline>'',
      only (forked os (ublock
        [check os (os_mkdir os (lit ''iputdir'')) (\<lambda>r. r < 0) ''mkdir failed\<newline>'',
         check os (os_chdir os (lit ''iputdir'')) (\<lambda>r. r < 0) ''child chdir failed\<newline>'',
         check os (os_unlink os (lit ''../iputdir'')) (\<lambda>r. r < 0) ''unlink ../iputdir failed\<newline>'',
         uexit]) ''fork failed\<newline>''),
      only (os_wait os),
      announce os ''exitiput test ok\<newline>'']"

definition openiputtest :: "'s os \<Rightarrow> (unit, 's) U" where
  "openiputtest os = ublock
     [announce os ''openiput test\<newline>'',
      check os (os_mkdir os (lit ''oidir'')) (\<lambda>r. r < 0) ''mkdir oidir failed\<newline>'',
      only (forked os (ublock
        [check os (os_open os (lit ''oidir'') O_RDWR) (\<lambda>fd. 0 \<le> fd) ''open directory for write succeeded\<newline>'', uexit])
        ''fork failed\<newline>''),
      only (os_sleep os 1),
      check os (os_unlink os (lit ''oidir'')) (\<lambda>r. r \<noteq> 0) ''unlink failed\<newline>'',
      only (os_wait os),
      announce os ''openiput test ok\<newline>'']"

section \<open>Simple file system tests\<close>

definition opentest :: "'s os \<Rightarrow> (unit, 's) U" where
  "opentest os = useq (announce os ''open test\<newline>'') (ubind (opened os ''echo'' 0 ''open echo failed!\<newline>'') (\<lambda>fd. ublock
     [only (os_close os fd),
      check os (os_open os (lit ''doesnotexist'') 0) (\<lambda>fd. 0 \<le> fd) ''open doesnotexist succeeded!\<newline>'',
      announce os ''open test ok\<newline>'']))"

definition writetest :: "'s os \<Rightarrow> u8 list \<Rightarrow> (u8 list, 's) U" where
  "writetest os buf = useq (announce os ''small file test\<newline>'')
     (ubind (opened os ''small'' RW ''error: creat small failed!\<newline>'') (\<lambda>fd. useq (ublock
       [announce os ''creat small succeeded; ok\<newline>'',
        ufor [0..<100] (\<lambda>i. ublock
          [ubind (os_write os fd (replicate 10 97)) (\<lambda>r.
             uwhen (r \<noteq> 10) (fail os ''error: write aa %d new file failed\<newline>'' [UWord (of_nat i)])),
           ubind (os_write os fd (replicate 10 98)) (\<lambda>r.
             uwhen (r \<noteq> 10) (fail os ''error: write bb %d new file failed\<newline>'' [UWord (of_nat i)]))]),
        announce os ''writes ok\<newline>'',
        only (os_close os fd)])
     (ubind (opened os ''small'' O_RDONLY ''error: open small failed!\<newline>'') (\<lambda>fd.
       useq (announce os ''open small succeeded ok\<newline>'') (ubind (read_buf os fd 2000 buf) (\<lambda>(i, buf). useq (ublock
         [if i = 2000 then announce os ''read succeeded ok\<newline>'' else fail os ''read failed\<newline>'' [],
          only (os_close os fd),
          check os (os_unlink os (lit ''small'')) (\<lambda>r. r < 0) ''unlink small failed\<newline>'',
          announce os ''small file test ok\<newline>'']) (Ret buf)))))))"

text \<open>The first word of the buffer.\<close>

definition buf_int :: "u8 list \<Rightarrow> u32" where
  "buf_int buf = of_nat (get_le 4 buf 0)"

definition big_write :: "'s os \<Rightarrow> int \<Rightarrow> nat \<Rightarrow> u8 list \<Rightarrow> (u8 list, 's) U" where
  "big_write os fd i buf = (let buf = put_bytes 0 (le_bytes 4 i) buf in
     useq (ubind (write_buf os fd buf 512) (\<lambda>r.
       uwhen (r \<noteq> 512) (fail os ''error: write big file failed\<newline>'' [UWord (of_nat i)]))) (Ret buf))"

definition big_read :: "'s os \<Rightarrow> int \<Rightarrow> nat \<times> u8 list \<Rightarrow> (nat \<times> u8 list + u8 list, 's) U" where
  "big_read os fd = (\<lambda>(n, buf). ubind (read_buf os fd 512 buf) (\<lambda>(i, buf).
     if i = 0 then (if n = MAXFILE - 1 then fail os ''read only %d blocks from big'' [UWord (of_nat n)] else Ret (Inr buf))
     else if i \<noteq> 512 then fail os ''read failed %d\<newline>'' [UWord (of_int i)]
     else if buf_int buf \<noteq> of_nat n then
       fail os ''read content of block %d is %d\<newline>'' [UWord (of_nat n), UWord (buf_int buf)]
     else Ret (Inl (n + 1, buf))))"

definition writetest1 :: "nat \<Rightarrow> 's os \<Rightarrow> u8 list \<Rightarrow> (u8 list, 's) U" where
  "writetest1 k os buf = useq (announce os ''big files test\<newline>'')
     (ubind (opened os ''big'' RW ''error: creat big failed!\<newline>'') (\<lambda>fd. ubind (ufold [0..<MAXFILE] (big_write os fd) buf)
     (\<lambda>buf. useq (only (os_close os fd)) (ubind (opened os ''big'' O_RDONLY ''error: open big failed!\<newline>'') (\<lambda>fd.
     ubind (uloop k (big_read os fd) (0, buf)) (\<lambda>buf. useq (ublock
       [only (os_close os fd),
        check os (os_unlink os (lit ''big'')) (\<lambda>r. r < 0) ''unlink big failed\<newline>'',
        announce os ''big files ok\<newline>'']) (Ret buf)))))))"

text \<open>A name of two characters: a letter and \<open>'0' + i\<close>.\<close>

definition name2 :: "u8 \<Rightarrow> nat \<Rightarrow> cstr" where
  "name2 c i = [c, 48 + of_nat i]"

definition createtest :: "'s os \<Rightarrow> (unit, 's) U" where
  "createtest os = ublock
     [announce os ''many creates, followed by unlink test\<newline>'',
      ufor [0..<52] (\<lambda>i. ubind (os_open os (name2 97 i) RW) (\<lambda>fd. only (os_close os fd))),
      ufor [0..<52] (\<lambda>i. only (os_unlink os (name2 97 i))),
      announce os ''many creates, followed by unlink; ok\<newline>'']"

definition dirtest :: "'s os \<Rightarrow> (unit, 's) U" where
  "dirtest os = ublock
     [announce os ''mkdir test\<newline>'',
      check os (os_mkdir os (lit ''dir0'')) (\<lambda>r. r < 0) ''mkdir failed\<newline>'',
      check os (os_chdir os (lit ''dir0'')) (\<lambda>r. r < 0) ''chdir dir0 failed\<newline>'',
      check os (os_chdir os (lit ''..'')) (\<lambda>r. r < 0) ''chdir .. failed\<newline>'',
      check os (os_unlink os (lit ''dir0'')) (\<lambda>r. r < 0) ''unlink dir0 failed\<newline>'',
      announce os ''mkdir test ok\<newline>'']"

definition exectest :: "'s os \<Rightarrow> (unit, 's) U" where
  "exectest os = ublock
     [announce os ''exec test\<newline>'',
      check os (os_exec os (lit ''echo'') [lit ''echo'', lit ''ALL'', lit ''TESTS'', lit ''PASSED'']) (\<lambda>r. r < 0)
        ''exec echo failed\<newline>'']"

section \<open>Pipes and processes\<close>

definition pipe1_child :: "'s os \<Rightarrow> int \<Rightarrow> int \<Rightarrow> u8 list \<Rightarrow> (unit, 's) U" where
  "pipe1_child os p0 p1 buf = useq (only (os_close os p0))
     (useq (ufold [0..<5] (\<lambda>n buf. let buf = put_bytes 0 (map of_nat [1033 * n..<1033 * (n + 1)]) buf in
        useq (check os (write_buf os p1 buf 1033) (\<lambda>r. r \<noteq> 1033) ''pipe1 oops 1\<newline>'') (Ret buf)) buf)
      uexit)"

text \<open>A turn of the reader: \<open>seq\<close>, \<open>total\<close>, \<open>cc\<close> and the buffer. \<open>Inl\<close> of the result is the early return.\<close>

definition pipe1_turn :: "'s os \<Rightarrow> int \<Rightarrow> nat \<times> int \<times> nat \<times> u8 list \<Rightarrow>
    (nat \<times> int \<times> nat \<times> u8 list + (u8 list + int \<times> u8 list), 's) U" where
  "pipe1_turn os p0 = (\<lambda>(sq, tot, cc, buf). ubind (read_buf os p0 cc buf) (\<lambda>(n, buf).
     if n \<le> 0 then Ret (Inr (Inr (tot, buf)))
     else if take (nat n) buf \<noteq> map of_nat [sq..<sq + nat n] then useq (announce os ''pipe1 oops 2\<newline>'') (Ret (Inr (Inl buf)))
     else Ret (Inl (sq + nat n, s32 (tot + n), if 8192 < cc * 2 then 8192 else cc * 2, buf))))"

definition pipe1 :: "nat \<Rightarrow> 's os \<Rightarrow> u8 list \<Rightarrow> (u8 list, 's) U" where
  "pipe1 k os buf = ubind (os_pipe os) (\<lambda>(r, p0, p1).
     if r \<noteq> 0 then fail os ''pipe() failed\<newline>'' []
     else ubind (os_fork os (pipe1_child os p0 p1 buf)) (\<lambda>pid.
       if pid \<le> 0 then fail os ''fork() failed\<newline>'' []
       else useq (only (os_close os p1)) (ubind (uloop k (pipe1_turn os p0) (0, 0, 1, buf)) (\<lambda>res. case res of
         Inl buf \<Rightarrow> Ret buf
       | Inr (tot, buf) \<Rightarrow> useq (ublock
           [uwhen (tot \<noteq> 5 * 1033) (fail os ''pipe1 oops 3 total %d\<newline>'' [UWord (of_int tot)]),
            only (os_close os p0),
            only (os_wait os),
            announce os ''pipe1 ok\<newline>'']) (Ret buf)))))"

text \<open>The children of \<open>preempt\<close> loop for ever.\<close>

definition preempt :: "'s os \<Rightarrow> u8 list \<Rightarrow> (u8 list, 's) U" where
  "preempt os buf = useq (announce os ''preempt: '')
     (ubind (os_fork os uspin) (\<lambda>pid1. ubind (os_fork os uspin) (\<lambda>pid2. ubind (os_pipe os) (\<lambda>(r, p0, p1).
     ubind (os_fork os (ublock
       [only (os_close os p0),
        ubind (os_write os p1 (lit ''x'')) (\<lambda>r. uwhen (r \<noteq> 1) (announce os ''preempt write error'')),
        only (os_close os p1),
        uspin])) (\<lambda>pid3.
     useq (only (os_close os p1)) (ubind (read_buf os p0 8192 buf) (\<lambda>(n, buf).
       if n \<noteq> 1 then useq (announce os ''preempt read error'') (Ret buf)
       else useq (ublock
         [only (os_close os p0),
          announce os ''kill... '',
          only (os_kill os pid1), only (os_kill os pid2), only (os_kill os pid3),
          announce os ''wait... '',
          only (os_wait os), only (os_wait os), only (os_wait os),
          announce os ''preempt ok\<newline>'']) (Ret buf))))))))"

definition exitwait_turn :: "'s os \<Rightarrow> nat \<Rightarrow> (nat + unit, 's) U" where
  "exitwait_turn os i =
     (if i < 100 then ubind (os_fork os uexit) (\<lambda>pid.
        if pid < 0 then useq (announce os ''fork failed\<newline>'') (Ret (Inr ()))
        else ubind (os_wait os) (\<lambda>r. if r \<noteq> pid then useq (announce os ''wait wrong pid\<newline>'') (Ret (Inr ())) else Ret (Inl (i + 1))))
      else useq (announce os ''exitwait ok\<newline>'') (Ret (Inr ())))"

definition exitwait :: "'s os \<Rightarrow> (unit, 's) U" where
  "exitwait os = uloop 101 (exitwait_turn os) 0"

section \<open>Two processes and one file\<close>

definition sharedfd_write :: "'s os \<Rightarrow> int \<Rightarrow> u8 \<Rightarrow> nat \<Rightarrow> (nat + unit, 's) U" where
  "sharedfd_write os fd c i =
     (if i < 1000 then ubind (os_write os fd (memset_u c 10)) (\<lambda>r.
        if r \<noteq> 10 then useq (announce os ''fstests: write sharedfd failed\<newline>'') (Ret (Inr ())) else Ret (Inl (i + 1)))
      else Ret (Inr ()))"

text \<open>All ten bytes of the local buffer are counted after every read.\<close>

definition sharedfd_read :: "'s os \<Rightarrow> int \<Rightarrow> int \<times> int \<times> u8 list \<Rightarrow> (int \<times> int \<times> u8 list + int \<times> int, 's) U" where
  "sharedfd_read os fd = (\<lambda>(nc, np, b). ubind (read_buf os fd 10 b) (\<lambda>(n, b).
     if n \<le> 0 then Ret (Inr (nc, np))
     else Ret (Inl (s32 (nc + int (count_list b 99)), s32 (np + int (count_list b 112)), b))))"

definition sharedfd :: "nat \<Rightarrow> 's os \<Rightarrow> (unit, 's) U" where
  "sharedfd k os = useq (announce os ''sharedfd test\<newline>'') (useq (only (os_unlink os (lit ''sharedfd'')))
     (ubind (os_open os (lit ''sharedfd'') RW) (\<lambda>fd.
       if fd < 0 then announce os ''fstests: cannot open sharedfd for writing''
       else useq (only (os_fork os (useq (uloop 1001 (sharedfd_write os fd 99) 0) uexit)))
         (useq (uloop 1001 (sharedfd_write os fd 112) 0) (useq (only (os_wait os)) (useq (only (os_close os fd))
         (ubind (os_open os (lit ''sharedfd'') 0) (\<lambda>fd.
           if fd < 0 then announce os ''fstests: cannot open sharedfd for reading\<newline>''
           else ubind (uloop k (sharedfd_read os fd) (0, 0, memset_u 112 10)) (\<lambda>(nc, np). ublock
             [only (os_close os fd),
              only (os_unlink os (lit ''sharedfd'')),
              if nc = 10000 \<and> np = 10000 then announce os ''sharedfd ok\<newline>''
              else fail os ''sharedfd oops %d %d\<newline>'' [UWord (of_int nc), UWord (of_int np)]])))))))))"

section \<open>Four processes and four files\<close>

definition fourfiles_child :: "'s os \<Rightarrow> cstr \<Rightarrow> nat \<Rightarrow> u8 list \<Rightarrow> (unit, 's) U" where
  "fourfiles_child os fname j buf = ubind (os_open os fname RW) (\<lambda>fd.
     if fd < 0 then fail os ''create failed\<newline>'' []
     else (let buf = put_bytes 0 (memset_u (48 + of_nat j) 512) buf in
       useq (ufor [0..<12] (\<lambda>i. ubind (write_buf os fd buf 500) (\<lambda>n.
           uwhen (n \<noteq> 500) (fail os ''write failed %d\<newline>'' [UWord (of_int n)])))) uexit))"

definition fourfiles_read :: "'s os \<Rightarrow> int \<Rightarrow> nat \<Rightarrow> int \<times> u8 list \<Rightarrow> (int \<times> u8 list + int \<times> u8 list, 's) U" where
  "fourfiles_read os fd i = (\<lambda>(tot, buf). ubind (read_buf os fd 8192 buf) (\<lambda>(n, buf).
     if n \<le> 0 then Ret (Inr (tot, buf))
     else if \<exists>c \<in> set (take (nat n) buf). c \<noteq> 48 + of_nat i then fail os ''wrong char\<newline>'' []
     else Ret (Inl (s32 (tot + n), buf))))"

definition fourfiles :: "nat \<Rightarrow> 's os \<Rightarrow> u8 list \<Rightarrow> (u8 list, 's) U" where
  "fourfiles k os buf = (let names = [lit ''f0'', lit ''f1'', lit ''f2'', lit ''f3''] in
     useq (ublock
       [announce os ''fourfiles test\<newline>'',
        ufor [0..<4] (\<lambda>j. useq (only (os_unlink os (names ! j)))
          (only (forked os (fourfiles_child os (names ! j) j buf) ''fork failed\<newline>''))),
        ufor [0..<4] (\<lambda>j. only (os_wait os))])
     (ubind (ufold [0..<2] (\<lambda>i buf. ubind (os_open os (names ! i) 0) (\<lambda>fd.
        ubind (uloop k (fourfiles_read os fd i) (0, buf)) (\<lambda>(tot, buf). useq (ublock
          [only (os_close os fd),
           uwhen (tot \<noteq> 12 * 500) (fail os ''wrong length %d\<newline>'' [UWord (of_int tot)]),
           only (os_unlink os (names ! i))]) (Ret buf)))) buf)
     (\<lambda>buf. useq (announce os ''fourfiles ok\<newline>'') (Ret buf))))"

definition createdelete_child :: "'s os \<Rightarrow> nat \<Rightarrow> (unit, 's) U" where
  "createdelete_child os j = useq (ufor [0..<20] (\<lambda>i. ublock
     [ubind (os_open os (name2 (112 + of_nat j) i) RW) (\<lambda>fd.
        if fd < 0 then fail os ''create failed\<newline>'' [] else only (os_close os fd)),
      uwhen (0 < i \<and> i mod 2 = 0)
        (check os (os_unlink os (name2 (112 + of_nat j) (i div 2))) (\<lambda>r. r < 0) ''unlink failed\<newline>'')])) uexit"

definition createdelete_look :: "'s os \<Rightarrow> nat \<Rightarrow> nat \<Rightarrow> (unit, 's) U" where
  "createdelete_look os i j = (let name = name2 (112 + of_nat j) i in ubind (os_open os name 0) (\<lambda>fd.
     if (i = 0 \<or> 10 \<le> i) \<and> fd < 0 then fail os ''oops createdelete %s didn't exist\<newline>'' [UStr name]
     else if (1 \<le> i \<and> i < 10) \<and> 0 \<le> fd then fail os ''oops createdelete %s did exist\<newline>'' [UStr name]
     else uwhen (0 \<le> fd) (only (os_close os fd))))"

definition createdelete :: "'s os \<Rightarrow> (unit, 's) U" where
  "createdelete os = ublock
     [announce os ''createdelete test\<newline>'',
      ufor [0..<4] (\<lambda>j. only (forked os (createdelete_child os j) ''fork failed\<newline>'')),
      ufor [0..<4] (\<lambda>j. only (os_wait os)),
      ufor [0..<20] (\<lambda>i. ufor [0..<4] (createdelete_look os i)),
      ufor [0..<20] (\<lambda>i. ufor [0..<4] (\<lambda>j. only (os_unlink os (name2 (112 + of_nat i) i)))),
      announce os ''createdelete ok\<newline>'']"

section \<open>Links\<close>

definition unlinkread :: "'s os \<Rightarrow> u8 list \<Rightarrow> (u8 list, 's) U" where
  "unlinkread os buf = useq (announce os ''unlinkread test\<newline>'')
     (ubind (opened os ''unlinkread'' RW ''create unlinkread failed\<newline>'') (\<lambda>fd.
     useq (only (os_write os fd (lit ''hello''))) (useq (only (os_close os fd))
     (ubind (opened os ''unlinkread'' O_RDWR ''open unlinkread failed\<newline>'') (\<lambda>fd.
     useq (check os (os_unlink os (lit ''unlinkread'')) (\<lambda>r. r \<noteq> 0) ''unlink unlinkread failed\<newline>'')
     (ubind (os_open os (lit ''unlinkread'') RW) (\<lambda>fd1.
     useq (only (os_write os fd1 (lit ''yyy''))) (useq (only (os_close os fd1))
     (ubind (read_buf os fd 8192 buf) (\<lambda>(n, buf). useq (ublock
       [uwhen (n \<noteq> 5) (fail os ''unlinkread read failed'' []),
        uwhen (buf ! 0 \<noteq> 104) (fail os ''unlinkread wrong data\<newline>'' []),
        check os (write_buf os fd buf 10) (\<lambda>r. r \<noteq> 10) ''unlinkread write failed\<newline>'',
        only (os_close os fd),
        only (os_unlink os (lit ''unlinkread'')),
        announce os ''unlinkread ok\<newline>'']) (Ret buf)))))))))))"

definition linktest :: "'s os \<Rightarrow> u8 list \<Rightarrow> (u8 list, 's) U" where
  "linktest os buf = useq (ublock
     [announce os ''linktest\<newline>'',
      only (os_unlink os (lit ''lf1'')),
      only (os_unlink os (lit ''lf2'')),
      ubind (opened os ''lf1'' RW ''create lf1 failed\<newline>'') (\<lambda>fd. ublock
        [check os (os_write os fd (lit ''hello'')) (\<lambda>r. r \<noteq> 5) ''write lf1 failed\<newline>'',
         only (os_close os fd)]),
      check os (os_link os (lit ''lf1'') (lit ''lf2'')) (\<lambda>r. r < 0) ''link lf1 lf2 failed\<newline>'',
      only (os_unlink os (lit ''lf1'')),
      check os (os_open os (lit ''lf1'') 0) (\<lambda>fd. 0 \<le> fd) ''unlinked lf1 but it is still there!\<newline>''])
     (ubind (opened os ''lf2'' 0 ''open lf2 failed\<newline>'') (\<lambda>fd. ubind (read_buf os fd 8192 buf) (\<lambda>(n, buf). useq (ublock
       [uwhen (n \<noteq> 5) (fail os ''read lf2 failed\<newline>'' []),
        only (os_close os fd),
        check os (os_link os (lit ''lf2'') (lit ''lf2'')) (\<lambda>r. 0 \<le> r) ''link lf2 lf2 succeeded! oops\<newline>'',
        only (os_unlink os (lit ''lf2'')),
        check os (os_link os (lit ''lf2'') (lit ''lf1'')) (\<lambda>r. 0 \<le> r) ''link non-existant succeeded! oops\<newline>'',
        check os (os_link os (lit ''.'') (lit ''lf1'')) (\<lambda>r. 0 \<le> r) ''link . lf1 succeeded! oops\<newline>'',
        announce os ''linktest ok\<newline>'']) (Ret buf))))"

text \<open>What a process does with the \<open>i\<close>-th file; \<open>child\<close> says that it is the child of the turn.\<close>

definition concreate_make :: "'s os \<Rightarrow> nat \<Rightarrow> bool \<Rightarrow> (unit, 's) U" where
  "concreate_make os i child = (let f = name2 67 i in
     if \<not> child \<and> i mod 3 = 1 then only (os_link os (lit ''C0'') f)
     else if child \<and> i mod 5 = 1 then only (os_link os (lit ''C0'') f)
     else ubind (os_open os f RW) (\<lambda>fd.
       if fd < 0 then fail os ''concreate create %s failed\<newline>'' [UStr f] else only (os_close os fd)))"

text \<open>A turn of the listing: the entry read last, which names were seen, and how many.\<close>

definition concreate_list :: "'s os \<Rightarrow> int \<Rightarrow> u8 list \<times> bool list \<times> nat \<Rightarrow> (u8 list \<times> bool list \<times> nat + nat, 's) U" where
  "concreate_list os fd = (\<lambda>(de, fa, n). ubind (read_buf os fd 16 de) (\<lambda>(r, de).
     if r \<le> 0 then Ret (Inr n)
     else if de_inum de = 0 then Ret (Inl (de, fa, n))
     else if de_name de ! 0 = 67 \<and> de_name de ! 2 = 0 then
       (let i = sint (de_name de ! 1) - 48 in
        if i < 0 \<or> 40 \<le> i then fail os ''concreate weird file %s\<newline>'' [UStr (upto0 (de_name de))]
        else if fa ! nat i then fail os ''concreate duplicate file %s\<newline>'' [UStr (upto0 (de_name de))]
        else Ret (Inl (de, fa[nat i := True], n + 1)))
     else Ret (Inl (de, fa, n))))"

definition concreate_mix :: "'s os \<Rightarrow> nat \<Rightarrow> bool \<Rightarrow> (unit, 's) U" where
  "concreate_mix os i child = (let f = name2 67 i in
     if (i mod 3 = 0 \<and> child) \<or> (i mod 3 = 1 \<and> \<not> child)
     then ufor [0..<4] (\<lambda>_. ubind (os_open os f 0) (\<lambda>fd. only (os_close os fd)))
     else ufor [0..<4] (\<lambda>_. only (os_unlink os f)))"

definition concreate :: "nat \<Rightarrow> 's os \<Rightarrow> (unit, 's) U" where
  "concreate k os = ublock
     [announce os ''concreate test\<newline>'',
      ufor [0..<40] (\<lambda>i. ublock
        [only (os_unlink os (name2 67 i)),
         only (os_fork os (useq (concreate_make os i True) uexit)),
         concreate_make os i False,
         only (os_wait os)]),
      ubind (os_open os (lit ''.'') 0) (\<lambda>fd.
        ubind (uloop k (concreate_list os fd) (replicate 16 0, replicate 40 False, 0)) (\<lambda>n. ublock
          [only (os_close os fd),
           uwhen (n \<noteq> 40) (fail os ''concreate not enough files in directory listing\<newline>'' [])])),
      ufor [0..<40] (\<lambda>i. ublock
        [only (forked os (useq (concreate_mix os i True) uexit) ''fork failed\<newline>''),
         concreate_mix os i False,
         only (os_wait os)]),
      announce os ''concreate ok\<newline>'']"

definition linkunlink_turn :: "'s os \<Rightarrow> nat \<Rightarrow> u32 \<Rightarrow> (u32, 's) U" where
  "linkunlink_turn os i x = (let x = x * 1103515245 + 12345 in useq
     (if x mod 3 = 0 then ubind (os_open os (lit ''x'') RW) (\<lambda>fd. only (os_close os fd))
      else if x mod 3 = 1 then only (os_link os (lit ''cat'') (lit ''x''))
      else only (os_unlink os (lit ''x''))) (Ret x))"

definition linkunlink :: "'s os \<Rightarrow> (unit, 's) U" where
  "linkunlink os = ublock
     [announce os ''linkunlink test\<newline>'',
      only (os_unlink os (lit ''x'')),
      only (forked os (useq (ufold [0..<100] (linkunlink_turn os) 97) uexit) ''fork failed\<newline>''),
      only (ufold [0..<100] (linkunlink_turn os) 1),
      only (os_wait os),
      announce os ''linkunlink ok\<newline>'']"

section \<open>Directories\<close>

definition bigdir_name :: "nat \<Rightarrow> cstr" where
  "bigdir_name i = [120, 48 + of_nat (i div 64), 48 + of_nat (i mod 64)]"

definition bigdir :: "'s os \<Rightarrow> (unit, 's) U" where
  "bigdir os = ublock
     [announce os ''bigdir test\<newline>'',
      only (os_unlink os (lit ''bd'')),
      ubind (opened os ''bd'' O_CREATE ''bigdir create failed\<newline>'') (\<lambda>fd. only (os_close os fd)),
      ufor [0..<500] (\<lambda>i. check os (os_link os (lit ''bd'') (bigdir_name i)) (\<lambda>r. r \<noteq> 0) ''bigdir link failed\<newline>''),
      only (os_unlink os (lit ''bd'')),
      ufor [0..<500] (\<lambda>i. check os (os_unlink os (bigdir_name i)) (\<lambda>r. r \<noteq> 0) ''bigdir unlink failed''),
      announce os ''bigdir ok\<newline>'']"

text \<open>Making \<open>dd/ff\<close>, \<open>dd/dd/ff\<close> and a second name for the latter, and moving around.\<close>

definition subdir_make :: "'s os \<Rightarrow> u8 list \<Rightarrow> (u8 list, 's) U" where
  "subdir_make os buf = useq (ublock
     [announce os ''subdir test\<newline>'',
      only (os_unlink os (lit ''ff'')),
      check os (os_mkdir os (lit ''dd'')) (\<lambda>r. r \<noteq> 0) ''subdir mkdir dd failed\<newline>'',
      ubind (opened os ''dd/ff'' RW ''create dd/ff failed\<newline>'') (\<lambda>fd.
        useq (only (os_write os fd (lit ''ff''))) (only (os_close os fd))),
      check os (os_unlink os (lit ''dd'')) (\<lambda>r. 0 \<le> r) ''unlink dd (non-empty dir) succeeded!\<newline>'',
      check os (os_mkdir os (lit ''/dd/dd'')) (\<lambda>r. r \<noteq> 0) ''subdir mkdir dd/dd failed\<newline>'',
      ubind (opened os ''dd/dd/ff'' RW ''create dd/dd/ff failed\<newline>'') (\<lambda>fd.
        useq (only (os_write os fd (lit ''FF''))) (only (os_close os fd)))])
     (ubind (opened os ''dd/dd/../ff'' 0 ''open dd/dd/../ff failed\<newline>'') (\<lambda>fd. ubind (read_buf os fd 8192 buf) (\<lambda>(cc, buf).
     useq (ublock
       [uwhen (cc \<noteq> 2 \<or> buf ! 0 \<noteq> 102) (fail os ''dd/dd/../ff wrong content\<newline>'' []),
        only (os_close os fd),
        check os (os_link os (lit ''dd/dd/ff'') (lit ''dd/dd/ffff'')) (\<lambda>r. r \<noteq> 0) ''link dd/dd/ff dd/dd/ffff failed\<newline>'',
        check os (os_unlink os (lit ''dd/dd/ff'')) (\<lambda>r. r \<noteq> 0) ''unlink dd/dd/ff failed\<newline>'',
        check os (os_open os (lit ''dd/dd/ff'') O_RDONLY) (\<lambda>fd. 0 \<le> fd) ''open (unlinked) dd/dd/ff succeeded\<newline>'',
        check os (os_chdir os (lit ''dd'')) (\<lambda>r. r \<noteq> 0) ''chdir dd failed\<newline>'',
        check os (os_chdir os (lit ''dd/../../dd'')) (\<lambda>r. r \<noteq> 0) ''chdir dd/../../dd failed\<newline>'',
        check os (os_chdir os (lit ''dd/../../../dd'')) (\<lambda>r. r \<noteq> 0) ''chdir dd/../../dd failed\<newline>'',
        check os (os_chdir os (lit ''./..'')) (\<lambda>r. r \<noteq> 0) ''chdir ./.. failed\<newline>'']) (Ret buf))))"

text \<open>Calls that must fail.\<close>

definition subdir_refused :: "'s os \<Rightarrow> (unit, 's) U" where
  "subdir_refused os = ublock
     [check os (os_open os (lit ''dd/dd/ff'') O_RDONLY) (\<lambda>fd. 0 \<le> fd) ''open (unlinked) dd/dd/ff succeeded!\<newline>'',
      check os (os_open os (lit ''dd/ff/ff'') RW) (\<lambda>fd. 0 \<le> fd) ''create dd/ff/ff succeeded!\<newline>'',
      check os (os_open os (lit ''dd/xx/ff'') RW) (\<lambda>fd. 0 \<le> fd) ''create dd/xx/ff succeeded!\<newline>'',
      check os (os_open os (lit ''dd'') O_CREATE) (\<lambda>fd. 0 \<le> fd) ''create dd succeeded!\<newline>'',
      check os (os_open os (lit ''dd'') O_RDWR) (\<lambda>fd. 0 \<le> fd) ''open dd rdwr succeeded!\<newline>'',
      check os (os_open os (lit ''dd'') O_WRONLY) (\<lambda>fd. 0 \<le> fd) ''open dd wronly succeeded!\<newline>'',
      check os (os_link os (lit ''dd/ff/ff'') (lit ''dd/dd/xx'')) (\<lambda>r. r = 0) ''link dd/ff/ff dd/dd/xx succeeded!\<newline>'',
      check os (os_link os (lit ''dd/xx/ff'') (lit ''dd/dd/xx'')) (\<lambda>r. r = 0) ''link dd/xx/ff dd/dd/xx succeeded!\<newline>'',
      check os (os_link os (lit ''dd/ff'') (lit ''dd/dd/ffff'')) (\<lambda>r. r = 0) ''link dd/ff dd/dd/ffff succeeded!\<newline>'',
      check os (os_mkdir os (lit ''dd/ff/ff'')) (\<lambda>r. r = 0) ''mkdir dd/ff/ff succeeded!\<newline>'',
      check os (os_mkdir os (lit ''dd/xx/ff'')) (\<lambda>r. r = 0) ''mkdir dd/xx/ff succeeded!\<newline>'',
      check os (os_mkdir os (lit ''dd/dd/ffff'')) (\<lambda>r. r = 0) ''mkdir dd/dd/ffff succeeded!\<newline>'',
      check os (os_unlink os (lit ''dd/xx/ff'')) (\<lambda>r. r = 0) ''unlink dd/xx/ff succeeded!\<newline>'',
      check os (os_unlink os (lit ''dd/ff/ff'')) (\<lambda>r. r = 0) ''unlink dd/ff/ff succeeded!\<newline>'',
      check os (os_chdir os (lit ''dd/ff'')) (\<lambda>r. r = 0) ''chdir dd/ff succeeded!\<newline>'',
      check os (os_chdir os (lit ''dd/xx'')) (\<lambda>r. r = 0) ''chdir dd/xx succeeded!\<newline>'']"

definition subdir :: "'s os \<Rightarrow> u8 list \<Rightarrow> (u8 list, 's) U" where
  "subdir os buf = ubind (subdir_make os buf) (\<lambda>buf. ubind (opened os ''dd/dd/ffff'' 0 ''open dd/dd/ffff failed\<newline>'') (\<lambda>fd.
     ubind (read_buf os fd 8192 buf) (\<lambda>(n, buf). useq (ublock
       [uwhen (n \<noteq> 2) (fail os ''read dd/dd/ffff wrong len\<newline>'' []),
        only (os_close os fd),
        subdir_refused os,
        check os (os_unlink os (lit ''dd/dd/ffff'')) (\<lambda>r. r \<noteq> 0) ''unlink dd/dd/ff failed\<newline>'',
        check os (os_unlink os (lit ''dd/ff'')) (\<lambda>r. r \<noteq> 0) ''unlink dd/ff failed\<newline>'',
        check os (os_unlink os (lit ''dd'')) (\<lambda>r. r = 0) ''unlink non-empty dd succeeded!\<newline>'',
        check os (os_unlink os (lit ''dd/dd'')) (\<lambda>r. r < 0) ''unlink dd/dd failed\<newline>'',
        check os (os_unlink os (lit ''dd'')) (\<lambda>r. r < 0) ''unlink dd failed\<newline>'',
        announce os ''subdir ok\<newline>'']) (Ret buf))))"

definition fourteen :: "'s os \<Rightarrow> (unit, 's) U" where
  "fourteen os = ublock
     [announce os ''fourteen test\<newline>'',
      check os (os_mkdir os (lit ''12345678901234'')) (\<lambda>r. r \<noteq> 0) ''mkdir 12345678901234 failed\<newline>'',
      check os (os_mkdir os (lit ''12345678901234/123456789012345'')) (\<lambda>r. r \<noteq> 0)
        ''mkdir 12345678901234/123456789012345 failed\<newline>'',
      ubind (opened os ''123456789012345/123456789012345/123456789012345'' O_CREATE
        ''create 123456789012345/123456789012345/123456789012345 failed\<newline>'') (\<lambda>fd. only (os_close os fd)),
      ubind (opened os ''12345678901234/12345678901234/12345678901234'' 0
        ''open 12345678901234/12345678901234/12345678901234 failed\<newline>'') (\<lambda>fd. only (os_close os fd)),
      check os (os_mkdir os (lit ''12345678901234/12345678901234'')) (\<lambda>r. r = 0)
        ''mkdir 12345678901234/12345678901234 succeeded!\<newline>'',
      check os (os_mkdir os (lit ''123456789012345/12345678901234'')) (\<lambda>r. r = 0)
        ''mkdir 12345678901234/123456789012345 succeeded!\<newline>'',
      announce os ''fourteen ok\<newline>'']"

definition rmdot :: "'s os \<Rightarrow> (unit, 's) U" where
  "rmdot os = ublock
     [announce os ''rmdot test\<newline>'',
      check os (os_mkdir os (lit ''dots'')) (\<lambda>r. r \<noteq> 0) ''mkdir dots failed\<newline>'',
      check os (os_chdir os (lit ''dots'')) (\<lambda>r. r \<noteq> 0) ''chdir dots failed\<newline>'',
      check os (os_unlink os (lit ''.'')) (\<lambda>r. r = 0) ''rm . worked!\<newline>'',
      check os (os_unlink os (lit ''..'')) (\<lambda>r. r = 0) ''rm .. worked!\<newline>'',
      check os (os_chdir os (lit ''/'')) (\<lambda>r. r \<noteq> 0) ''chdir / failed\<newline>'',
      check os (os_unlink os (lit ''dots/.'')) (\<lambda>r. r = 0) ''unlink dots/. worked!\<newline>'',
      check os (os_unlink os (lit ''dots/..'')) (\<lambda>r. r = 0) ''unlink dots/.. worked!\<newline>'',
      check os (os_unlink os (lit ''dots'')) (\<lambda>r. r \<noteq> 0) ''unlink dots failed!\<newline>'',
      announce os ''rmdot ok\<newline>'']"

definition dirfile :: "'s os \<Rightarrow> (unit, 's) U" where
  "dirfile os = ublock
     [announce os ''dir vs file\<newline>'',
      ubind (opened os ''dirfile'' O_CREATE ''create dirfile failed\<newline>'') (\<lambda>fd. only (os_close os fd)),
      check os (os_chdir os (lit ''dirfile'')) (\<lambda>r. r = 0) ''chdir dirfile succeeded!\<newline>'',
      check os (os_open os (lit ''dirfile/xx'') 0) (\<lambda>fd. 0 \<le> fd) ''create dirfile/xx succeeded!\<newline>'',
      check os (os_open os (lit ''dirfile/xx'') O_CREATE) (\<lambda>fd. 0 \<le> fd) ''create dirfile/xx succeeded!\<newline>'',
      check os (os_mkdir os (lit ''dirfile/xx'')) (\<lambda>r. r = 0) ''mkdir dirfile/xx succeeded!\<newline>'',
      check os (os_unlink os (lit ''dirfile/xx'')) (\<lambda>r. r = 0) ''unlink dirfile/xx succeeded!\<newline>'',
      check os (os_link os (lit ''README'') (lit ''dirfile/xx'')) (\<lambda>r. r = 0) ''link to dirfile/xx succeeded!\<newline>'',
      check os (os_unlink os (lit ''dirfile'')) (\<lambda>r. r \<noteq> 0) ''unlink dirfile failed!\<newline>'',
      check os (os_open os (lit ''.'') O_RDWR) (\<lambda>fd. 0 \<le> fd) ''open . for writing succeeded!\<newline>'',
      ubind (os_open os (lit ''.'') 0) (\<lambda>fd. useq
        (check os (os_write os fd (lit ''x'')) (\<lambda>r. 0 < r) ''write . succeeded!\<newline>'') (only (os_close os fd))),
      announce os ''dir vs file OK\<newline>'']"

definition iref :: "'s os \<Rightarrow> (unit, 's) U" where
  "iref os = ublock
     [announce os ''empty file name\<newline>'',
      ufor [0..<51] (\<lambda>i. ublock
        [check os (os_mkdir os (lit ''irefd'')) (\<lambda>r. r \<noteq> 0) ''mkdir irefd failed\<newline>'',
         check os (os_chdir os (lit ''irefd'')) (\<lambda>r. r \<noteq> 0) ''chdir irefd failed\<newline>'',
         only (os_mkdir os []),
         only (os_link os (lit ''README'') []),
         ubind (os_open os [] O_CREATE) (\<lambda>fd. uwhen (0 \<le> fd) (only (os_close os fd))),
         ubind (os_open os (lit ''xx'') O_CREATE) (\<lambda>fd. uwhen (0 \<le> fd) (only (os_close os fd))),
         only (os_unlink os (lit ''xx''))]),
      only (os_chdir os (lit ''/'')),
      announce os ''empty file name OK\<newline>'']"

section \<open>Large files\<close>

definition bigwrite :: "'s os \<Rightarrow> u8 list \<Rightarrow> (unit, 's) U" where
  "bigwrite os buf = ublock
     [announce os ''bigwrite test\<newline>'',
      only (os_unlink os (lit ''bigwrite'')),
      ufor (filter (\<lambda>sz. sz < 12 * 512) (map (\<lambda>j. 499 + 471 * j) [0..<13])) (\<lambda>sz.
        ubind (opened os ''bigwrite'' RW ''cannot create bigwrite\<newline>'') (\<lambda>fd. ublock
          [ufor [0..<2] (\<lambda>i. ubind (write_buf os fd buf sz) (\<lambda>cc.
             uwhen (cc \<noteq> int sz) (fail os ''write(%d) ret %d\<newline>'' [UWord (of_nat sz), UWord (of_int cc)]))),
           only (os_close os fd),
           only (os_unlink os (lit ''bigwrite''))])),
      announce os ''bigwrite ok\<newline>'']"

definition bigfile_read :: "'s os \<Rightarrow> int \<Rightarrow> nat \<times> int \<times> u8 list \<Rightarrow> (nat \<times> int \<times> u8 list + int \<times> u8 list, 's) U" where
  "bigfile_read os fd = (\<lambda>(i, tot, buf). ubind (read_buf os fd 300 buf) (\<lambda>(cc, buf).
     if cc < 0 then fail os ''read bigfile failed\<newline>'' []
     else if cc = 0 then Ret (Inr (tot, buf))
     else if cc \<noteq> 300 then fail os ''short read bigfile\<newline>'' []
     else if sint (buf ! 0) \<noteq> int (i div 2) \<or> sint (buf ! 299) \<noteq> int (i div 2) then fail os ''read bigfile wrong data\<newline>'' []
     else Ret (Inl (i + 1, s32 (tot + cc), buf))))"

definition bigfile :: "nat \<Rightarrow> 's os \<Rightarrow> u8 list \<Rightarrow> (u8 list, 's) U" where
  "bigfile k os buf = useq (announce os ''bigfile test\<newline>'') (useq (only (os_unlink os (lit ''bigfile'')))
     (ubind (opened os ''bigfile'' RW ''cannot create bigfile'') (\<lambda>fd.
     ubind (ufold [0..<20] (\<lambda>i buf. let buf = put_bytes 0 (memset_u (of_nat i) 600) buf in
       useq (check os (write_buf os fd buf 600) (\<lambda>r. r \<noteq> 600) ''write bigfile failed\<newline>'') (Ret buf)) buf) (\<lambda>buf.
     useq (only (os_close os fd)) (ubind (opened os ''bigfile'' 0 ''cannot open bigfile\<newline>'') (\<lambda>fd.
     ubind (uloop k (bigfile_read os fd) (0, 0, buf)) (\<lambda>(tot, buf). useq (ublock
       [only (os_close os fd),
        uwhen (tot \<noteq> 20 * 600) (fail os ''read bigfile wrong total\<newline>'' []),
        only (os_unlink os (lit ''bigfile'')),
        announce os ''bigfile test ok\<newline>'']) (Ret buf))))))))"

text \<open>What happens when the file system is full; nothing calls it.\<close>

definition fsfull_name :: "nat \<Rightarrow> cstr" where
  "fsfull_name n = [102, 48 + of_nat (n div 1000), 48 + of_nat (n mod 1000 div 100), 48 + of_nat (n mod 100 div 10),
     48 + of_nat (n mod 10)]"

definition fsfull_write :: "'s os \<Rightarrow> int \<Rightarrow> u8 list \<Rightarrow> int \<Rightarrow> (int + int, 's) U" where
  "fsfull_write os fd buf tot = ubind (write_buf os fd buf 512) (\<lambda>cc.
     if cc < 512 then Ret (Inr tot) else Ret (Inl (s32 (tot + cc))))"

definition fsfull_turn :: "nat \<Rightarrow> 's os \<Rightarrow> u8 list \<Rightarrow> nat \<Rightarrow> (nat + nat, 's) U" where
  "fsfull_turn k os buf n = useq (printf os 1 ''writing %s\<newline>'' [UStr (fsfull_name n)])
     (ubind (os_open os (fsfull_name n) RW) (\<lambda>fd.
       if fd < 0 then useq (printf os 1 ''open %s failed\<newline>'' [UStr (fsfull_name n)]) (Ret (Inr n))
       else ubind (uloop k (fsfull_write os fd buf) 0) (\<lambda>tot. useq (ublock
         [printf os 1 ''wrote %d bytes\<newline>'' [UWord (of_int tot)],
          only (os_close os fd)]) (Ret (if tot = 0 then Inr n else Inl (n + 1))))))"

definition fsfull :: "nat \<Rightarrow> 's os \<Rightarrow> u8 list \<Rightarrow> (unit, 's) U" where
  "fsfull k os buf = useq (announce os ''fsfull test\<newline>'') (ubind (uloop k (fsfull_turn k os buf) 0) (\<lambda>n. ublock
     [ufor (rev [0..<n + 1]) (\<lambda>i. only (os_unlink os (fsfull_name i))),
      announce os ''fsfull test finished\<newline>'']))"

section \<open>Processes and memory\<close>

definition forktest_turn :: "'s os \<Rightarrow> nat \<Rightarrow> (nat + nat, 's) U" where
  "forktest_turn os n = (if n < 1000 then ubind (os_fork os uexit) (\<lambda>pid. Ret (if pid < 0 then Inr n else Inl (n + 1)))
     else Ret (Inr n))"

definition forktest_u :: "'s os \<Rightarrow> (unit, 's) U" where
  "forktest_u os = useq (announce os ''fork test\<newline>'') (ubind (uloop 1001 (forktest_turn os) 0) (\<lambda>n. ublock
     [uwhen (n = 1000) (fail os ''fork claimed to work 1000 times!\<newline>'' []),
      ufor [0..<n] (\<lambda>_. check os (os_wait os) (\<lambda>r. r < 0) ''wait stopped early\<newline>''),
      check os (os_wait os) (\<lambda>r. r \<noteq> - 1) ''wait got too many\<newline>'',
      announce os ''fork test OK\<newline>'']))"

text \<open>
  The tests of memory also work on the process itself: its memory, the list of \<open>malloc\<close>, and where the
  memory ends. An access beyond that end is a page fault, and the kernel kills the process.
\<close>

definition on_heap :: "('a, heap) U \<Rightarrow> ('a, 's \<times> heap) U" where
  "on_heap m = (\<lambda>(w, h). case m h of Ret a h \<Rightarrow> Ret a (w, h) | Exit h \<Rightarrow> Exit (w, h) | Spin \<Rightarrow> Spin | Wild \<Rightarrow> Wild)"

definition load_byte :: "u32 \<Rightarrow> (u8, heap) U" where
  "load_byte a h = (if a < hp_brk h then Ret (hp_mem h a) h else Exit h)"

definition store_byte :: "u32 \<Rightarrow> u8 \<Rightarrow> (unit, heap) U" where
  "store_byte a v h = (if a < hp_brk h then Ret () (h\<lparr>hp_mem := (hp_mem h)(a := v)\<rparr>) else Exit h)"

text \<open>The child takes all memory there is, in a list of blocks, gives it back, and asks for a large block.\<close>

definition mem_take :: "(u32 \<Rightarrow> (u32, heap) U) \<Rightarrow> u32 \<Rightarrow> (u32 + u32, heap) U" where
  "mem_take sbrk m1 = ubind (malloc sbrk 10001) (\<lambda>m2.
     if m2 = 0 then Ret (Inr m1) else (\<lambda>h. Ret (Inl m2) (h\<lparr>hp_mem := st32 m2 m1 (hp_mem h)\<rparr>)))"

definition mem_give :: "u32 \<Rightarrow> (u32 + unit, heap) U" where
  "mem_give m1 h = (if m1 = 0 then Ret (Inr ()) else let m2 = ld32 (hp_mem h) m1 in useq (free m1) (Ret (Inl m2))) h"

definition mem_child :: "nat \<Rightarrow> (u32 \<Rightarrow> (u32, heap) U) \<Rightarrow> ('s \<times> heap) os \<Rightarrow> int \<Rightarrow> (unit, 's \<times> heap) U" where
  "mem_child k sbrk os ppid = ubind (on_heap (uloop k (mem_take sbrk) 0)) (\<lambda>m1.
     useq (on_heap (uloop k mem_give m1)) (ubind (on_heap (malloc sbrk (1024 * 20))) (\<lambda>m1. ublock
       [uwhen (m1 = 0) (ublock [announce os ''couldn't allocate mem?!!\<newline>'', only (os_kill os ppid), uexit]),
        on_heap (free m1),
        announce os ''mem ok\<newline>'',
        uexit])))"

definition mem_test :: "nat \<Rightarrow> (u32 \<Rightarrow> (u32, heap) U) \<Rightarrow> ('s \<times> heap) os \<Rightarrow> (unit, 's \<times> heap) U" where
  "mem_test k sbrk os = useq (announce os ''mem test\<newline>'') (ubind (os_getpid os) (\<lambda>ppid.
     useq (only (os_fork os (mem_child k sbrk os ppid))) (only (os_wait os))))"

definition BIG :: u32 where "BIG = 100 * 1024 * 1024"

text \<open>Growing by single bytes, also after a \<open>fork\<close>.\<close>

definition sbrk_bytes :: "(u32 \<Rightarrow> (u32, 's \<times> heap) U) \<Rightarrow> ('s \<times> heap) os \<Rightarrow> (unit, 's \<times> heap) U" where
  "sbrk_bytes sb os = ubind (sb 0) (\<lambda>a. ubind (ufold [0..<5000] (\<lambda>i a. ubind (sb 1) (\<lambda>b.
       if b \<noteq> a then fail os ''sbrk test failed %d %x %x\<newline>'' [UWord (of_nat i), UWord a, UWord b]
       else useq (on_heap (store_byte b 1)) (Ret (b + 1)))) a) (\<lambda>a.
     let again = useq (only (sb 1)) (check os (sb 1) (\<lambda>c. c \<noteq> a + 1) ''sbrk test failed post-fork\<newline>'')
     in ublock [only (forked os (useq again uexit) ''sbrk test fork failed\<newline>''), again, only (os_wait os)]))"

text \<open>Growing to 100 megabytes, giving a page back and getting it again, empty.\<close>

definition sbrk_pages :: "(u32 \<Rightarrow> (u32, 's \<times> heap) U) \<Rightarrow> ('s \<times> heap) os \<Rightarrow> (unit, 's \<times> heap) U" where
  "sbrk_pages sb os = ublock
     [ubind (sb 0) (\<lambda>a. check os (sb (BIG - a)) (\<lambda>p. p \<noteq> a)
        ''sbrk test failed to grow big address space; enough phys mem?\<newline>''),
      on_heap (store_byte (BIG - 1) 99),
      ubind (sb 0) (\<lambda>a. useq (check os (sb (- 4096)) (\<lambda>c. c = - 1) ''sbrk could not deallocate\<newline>'') (ubind (sb 0) (\<lambda>c.
        uwhen (c \<noteq> a - 4096)
          (fail os ''sbrk deallocation produced wrong address, a %x c %x\<newline>'' [UWord a, UWord c])))),
      ubind (sb 0) (\<lambda>a. ubind (sb 4096) (\<lambda>c. let wrong = fail os ''sbrk re-allocation failed, a %x c %x\<newline>'' [UWord a, UWord c] in
        if c \<noteq> a then wrong else ubind (sb 0) (\<lambda>d. uwhen (d \<noteq> a + 4096) wrong))),
      check os (on_heap (load_byte (BIG - 1))) (\<lambda>v. v = 99) ''sbrk de-allocation didn't really deallocate\<newline>'']"

text \<open>Reading the kernel's memory must kill the child.\<close>

definition sbrk_kernel :: "('s \<times> heap) os \<Rightarrow> (unit, 's \<times> heap) U" where
  "sbrk_kernel os = ufor (map (\<lambda>j. KERNBASE + 50000 * of_nat j) [0..<40]) (\<lambda>a. ubind (os_getpid os) (\<lambda>ppid. ublock
     [only (forked os (ubind (on_heap (load_byte a)) (\<lambda>v. ublock
        [printf os 1 ''oops could read %x = %x\<newline>'' [UWord a, UWord (scast v)], only (os_kill os ppid), uexit])) ''fork failed\<newline>''),
      only (os_wait os)]))"

fun umap :: "'x list \<Rightarrow> ('x \<Rightarrow> ('y, 's) U) \<Rightarrow> ('y list, 's) U" where
  "umap [] f = Ret []"
| "umap (x # xs) f = ubind (f x) (\<lambda>y. ubind (umap xs f) (\<lambda>ys. Ret (y # ys)))"

text \<open>Ten children take as much as they can and wait to be killed; then there has to be a page left.\<close>

definition sbrk_greedy :: "nat \<Rightarrow> (u32 \<Rightarrow> (u32, 's \<times> heap) U) \<Rightarrow> ('s \<times> heap) os \<Rightarrow> (unit, 's \<times> heap) U" where
  "sbrk_greedy k sb os = ubind (os_pipe os) (\<lambda>(r, p0, p1). if r \<noteq> 0 then fail os ''pipe() failed\<newline>'' []
     else ubind (umap [0..<10] (\<lambda>i. ubind (os_fork os (ublock
         [ubind (sb 0) (\<lambda>b. only (sb (BIG - b))),
          only (os_write os p1 (lit ''x'')),
          uloop k (\<lambda>_. useq (only (os_sleep os 1000)) (Ret (Inl ()))) ()]))
       (\<lambda>pid. useq (uwhen (pid \<noteq> - 1) (only (os_read os p0 1))) (Ret pid)))) (\<lambda>pids.
     ubind (sb 4096) (\<lambda>c. ublock
       [ufor pids (\<lambda>pid. uwhen (pid \<noteq> - 1) (useq (only (os_kill os pid)) (only (os_wait os)))),
        uwhen (c = - 1) (fail os ''failed sbrk leaked memory\<newline>'' [])])))"

definition sbrktest :: "nat \<Rightarrow> (u32 \<Rightarrow> (u32, heap) U) \<Rightarrow> ('s \<times> heap) os \<Rightarrow> (unit, 's \<times> heap) U" where
  "sbrktest k sbrk os = (let sb = (\<lambda>n. on_heap (sbrk n)) in
     useq (announce os ''sbrk test\<newline>'') (ubind (sb 0) (\<lambda>oldbrk. ublock
       [sbrk_bytes sb os,
        sbrk_pages sb os,
        ubind (sb 0) (\<lambda>a. ubind (sb 0) (\<lambda>b. ubind (sb (- (b - oldbrk))) (\<lambda>c.
          uwhen (c \<noteq> a) (fail os ''sbrk downsize failed, a %x c %x\<newline>'' [UWord a, UWord c])))),
        sbrk_kernel os,
        sbrk_greedy k sb os,
        ubind (sb 0) (\<lambda>a. uwhen (oldbrk < a) (ubind (sb 0) (\<lambda>b. only (sb (- (b - oldbrk)))))),
        announce os ''sbrk test OK\<newline>''])))"

section \<open>Bad addresses and arguments\<close>

text \<open>The call of \<open>sleep\<close> with the stack pointer at \<open>p\<close>: the kernel fetches the argument from \<open>p + 4\<close>.\<close>

definition validateint :: "('s \<times> heap) os \<Rightarrow> u32 \<Rightarrow> (unit, 's \<times> heap) U" where
  "validateint os p = (\<lambda>(w, h).
     if hp_brk h \<le> p + 4 \<or> hp_brk h < p + 4 + 4 then Ret () (w, h)
     else only (os_sleep os (sint (ld32 (hp_mem h) (p + 4)))) (w, h))"

text \<open>The string at an address, if it ends within the memory of the process; otherwise a call that takes it fails.\<close>

definition string_at :: "heap \<Rightarrow> u32 \<Rightarrow> cstr option" where
  "string_at h p = map_option (\<lambda>e. map (\<lambda>a. hp_mem h (of_nat a)) [unat p..<e])
     (find (\<lambda>a. hp_mem h (of_nat a) = 0) [unat p..<unat (hp_brk h)])"

definition link_at :: "('s \<times> heap) os \<Rightarrow> cstr \<Rightarrow> u32 \<Rightarrow> (int, 's \<times> heap) U" where
  "link_at os old p = (\<lambda>(w, h). case string_at h p of None \<Rightarrow> Ret (- 1) (w, h) | Some new \<Rightarrow> os_link os old new (w, h))"

definition validatetest :: "('s \<times> heap) os \<Rightarrow> (unit, 's \<times> heap) U" where
  "validatetest os = ublock
     [announce os ''validate test\<newline>'',
      ufor (filter (\<lambda>p. p \<le> 1100 * 1024) (map (\<lambda>j. 4096 * of_nat j) [0..<277])) (\<lambda>p. ubind
        (os_fork os (useq (validateint os p) uexit)) (\<lambda>pid. ublock
          [only (os_sleep os 0),
           only (os_sleep os 0),
           only (os_kill os pid),
           only (os_wait os),
           check os (link_at os (lit ''nosuchfile'') p) (\<lambda>r. r \<noteq> - 1) ''link should not succeed\<newline>''])),
      announce os ''validate ok\<newline>'']"

text \<open>The static array \<open>uninit\<close>, which nothing writes, is an argument.\<close>

definition bsstest :: "u8 list \<Rightarrow> 's os \<Rightarrow> (unit, 's) U" where
  "bsstest uninit os = ublock
     [announce os ''bss test\<newline>'',
      uwhen (\<exists>c \<in> set uninit. c \<noteq> 0) (fail os ''bss test failed\<newline>'' []),
      announce os ''bss test ok\<newline>'']"

definition bigargtest :: "'s os \<Rightarrow> (unit, 's) U" where
  "bigargtest os = ublock
     [only (os_unlink os (lit ''bigarg-ok'')),
      only (forked os (ublock
        [announce os ''bigarg test\<newline>'',
         only (os_exec os (lit ''echo'') (replicate (MAXARG - 1) (lit ''bigargs test: failed\<newline>'' @ replicate 199 32))),
         announce os ''bigarg test ok\<newline>'',
         ubind (os_open os (lit ''bigarg-ok'') O_CREATE) (\<lambda>fd. only (os_close os fd)),
         uexit]) ''bigargtest: fork failed\<newline>''),
      only (os_wait os),
      ubind (opened os ''bigarg-ok'' 0 ''bigarg test failed!\<newline>'') (\<lambda>fd. only (os_close os fd)),
      only (os_unlink os (lit ''bigarg-ok''))]"

text \<open>The generator \<open>rand\<close>, which nothing calls; the result is also the new \<open>randstate\<close>.\<close>

definition rand :: "u32 \<Rightarrow> u32" where
  "rand randstate = randstate * 1664525 + 1013904223"

section \<open>The suite\<close>

definition usertests_main :: "nat \<Rightarrow> (u32 \<Rightarrow> (u32, heap) U) \<Rightarrow> u8 list \<Rightarrow> u8 list \<Rightarrow> ('s \<times> heap) os \<Rightarrow> (unit, 's \<times> heap) U" where
  "usertests_main k sbrk uninit buf os = useq (ublock
     [announce os ''usertests starting\<newline>'',
      check os (os_open os (lit ''usertests.ran'') 0) (\<lambda>fd. 0 \<le> fd) ''already ran user tests -- rebuild fs.img\<newline>'',
      ubind (os_open os (lit ''usertests.ran'') O_CREATE) (\<lambda>fd. only (os_close os fd)),
      createdelete os, linkunlink os, concreate k os]) (ubind (fourfiles k os buf) (\<lambda>buf. useq (ublock
     [sharedfd k os,
      bigargtest os, bigwrite os buf, bigargtest os, bsstest uninit os, sbrktest k sbrk os, validatetest os,
      opentest os]) (ubind (writetest os buf) (\<lambda>buf. ubind (writetest1 k os buf) (\<lambda>buf. useq (ublock
     [createtest os,
      openiputtest os, exitiputtest os, iputtest os,
      mem_test k sbrk os]) (ubind (pipe1 k os buf) (\<lambda>buf. ubind (preempt os buf) (\<lambda>buf. useq (ublock
     [exitwait os,
      rmdot os, fourteen os]) (ubind (bigfile k os buf) (\<lambda>buf. ubind (subdir os buf) (\<lambda>buf.
      ubind (linktest os buf) (\<lambda>buf. ubind (unlinkread os buf) (\<lambda>buf. ublock
     [dirfile os, iref os, forktest_u os, bigdir os, exectest os,
      uexit])))))))))))))"

section \<open>What createdelete leaves behind\<close>

lemma useq_Ret_iff: "useq m n s = Ret b t \<longleftrightarrow> (\<exists>a u. m s = Ret a u \<and> n u = Ret b t)"
  by (simp add: useq_def ubind_def split: ures.splits)

lemma useq_unit_iff: "useq (m :: (unit, 's) U) n s = Ret b t \<longleftrightarrow> (\<exists>u. m s = Ret () u \<and> n u = Ret b t)"
  by (simp add: useq_Ret_iff)

lemma ubind_Ret_iff: "ubind m f s = Ret b t \<longleftrightarrow> (\<exists>a u. m s = Ret a u \<and> f a u = Ret b t)"
  by (simp add: ubind_def split: ures.splits)

lemma fail_no_Ret: "fail os msg args s \<noteq> Ret a t"
  by (simp add: fail_def useq_Ret_iff)

lemma ufor_split:
  assumes "ufor [0..<n] b s = Ret () t" and "i < n"
  shows "\<exists>u v. ufor [0..<i] b s = Ret () u \<and> b i u = Ret () v"
proof -
  have "[0..<n] = [0..<i] @ i # [Suc i..<n]" using assms(2) upt_add_eq_append [of 0 i "n - i"] by (simp add: upt_conv_Cons)
  then show ?thesis using assms(1) by (auto simp: ufor_append useq_Ret_iff)
qed

text \<open>The test up to the look at the name of turn \<open>i\<close>, \<open>j\<close> in its third loop: all children have been waited for.\<close>

definition createdelete_upto :: "'s os \<Rightarrow> nat \<Rightarrow> nat \<Rightarrow> (unit, 's) U" where
  "createdelete_upto os i j = ublock
     [announce os ''createdelete test\<newline>'',
      ufor [0..<4] (\<lambda>j. only (forked os (createdelete_child os j) ''fork failed\<newline>'')),
      ufor [0..<4] (\<lambda>j. only (os_wait os)),
      ufor [0..<i] (\<lambda>i. ufor [0..<4] (createdelete_look os i)),
      ufor [0..<j] (createdelete_look os i)]"

lemma look_Ret:
  assumes "createdelete_look os i j u = Ret () v"
  shows "\<exists>fd w. os_open os (name2 (112 + of_nat j) i) 0 u = Ret fd w \<and> (0 \<le> fd \<longleftrightarrow> i = 0 \<or> 10 \<le> i)"
proof -
  obtain fd w where o: "os_open os (name2 (112 + of_nat j) i) 0 u = Ret fd w"
    and r: "(if (i = 0 \<or> 10 \<le> i) \<and> fd < 0 then fail os ''oops createdelete %s didn't exist\<newline>'' [UStr (name2 (112 + of_nat j) i)]
      else if (1 \<le> i \<and> i < 10) \<and> 0 \<le> fd then fail os ''oops createdelete %s did exist\<newline>'' [UStr (name2 (112 + of_nat j) i)]
      else uwhen (0 \<le> fd) (only (os_close os fd))) w = Ret () v"
    using assms unfolding createdelete_look_def Let_def ubind_Ret_iff by blast
  have "\<not> ((i = 0 \<or> 10 \<le> i) \<and> fd < 0)" "\<not> ((1 \<le> i \<and> i < 10) \<and> 0 \<le> fd)"
    using r by (auto simp: fail_no_Ret split: if_splits)
  then have "0 \<le> fd \<longleftrightarrow> i = 0 \<or> 10 \<le> i" by linarith
  then show ?thesis using o by blast
qed

text \<open>What a test prints does not depend on the other calls of the system.\<close>

lemma printf_other [simp]: "printf (os\<lparr>os_unlink := f\<rparr>) = printf os"
proof (intro ext)
  fix fd fmt ap s
  have p: "putc (os\<lparr>os_unlink := f\<rparr>) = putc os" by (intro ext) (simp add: putc_def)
  have pi: "printint_u (os\<lparr>os_unlink := f\<rparr>) = printint_u os" by (intro ext) (simp add: printint_u_def p)
  have "printf_go (os\<lparr>os_unlink := f\<rparr>) fd pc l ap = printf_go os fd pc l ap" for pc l ap
    by (induction l arbitrary: pc ap) (simp_all only: printf_go.simps p pi)
  then show "printf (os\<lparr>os_unlink := f\<rparr>) fd fmt ap s = printf os fd fmt ap s" by (simp add: printf_def)
qed

lemma fail_other [simp]: "fail (os\<lparr>os_unlink := f\<rparr>) = fail os"
  by (intro ext) (simp add: fail_def)

text \<open>The names left over.\<close>

definition left_over :: "cstr list" where
  "left_over = filter (\<lambda>n. n \<noteq> name2 112 0) (concat (map (\<lambda>j. map (name2 (112 + of_nat j)) (0 # [10..<20])) [0..<4]))"

lemma left_over_count: "length left_over = 43" "distinct left_over"
  by (simp_all add: left_over_def name2_def upt_rec)

lemma left_over_not:
  "j < 4 \<Longrightarrow> 0 < i \<Longrightarrow> i < 10 \<Longrightarrow> name2 (112 + of_nat j) i \<notin> set left_over"
  "i < 20 \<Longrightarrow> name2 (112 + of_nat i) i \<notin> set left_over"
proof -
  have u8: "(of_nat a :: u8) = of_nat b \<longleftrightarrow> a = b" if "a < 20" "b < 20" for a b :: nat
    using that by (simp add: word_unat_eq_iff unat_of_nat)
  have eq: "name2 (112 + of_nat a) b = name2 (112 + of_nat c) d \<longleftrightarrow> a = c \<and> b = d"
    if "a < 20" "b < 20" "c < 20" "d < 20" for a b c d :: nat
    using u8 [OF that(1,3)] u8 [OF that(2,4)] by (simp add: name2_def)
  have l: "set left_over = (\<Union>j < 4. name2 (112 + of_nat j) ` insert 0 {10..<20}) - {name2 112 0}"
    by (simp only: left_over_def set_filter set_concat set_map set_upt image_image list.set lessThan_atLeast0) blast
  have mem: "\<exists>k b. k < 4 \<and> (b = 0 \<or> 10 \<le> b \<and> b < 20) \<and> n = name2 (112 + of_nat k) b \<and> n \<noteq> name2 112 0"
    if "n \<in> set left_over" for n
    using that unfolding l by (elim DiffE UN_E imageE) (simp only: insert_iff atLeastLessThan_iff lessThan_iff singleton_iff, blast)
  show "name2 (112 + of_nat j) i \<notin> set left_over" if "j < 4" "0 < i" "i < 10"
  proof
    assume "name2 (112 + of_nat j) i \<in> set left_over"
    then obtain k b where "k < 4" "b = 0 \<or> 10 \<le> b \<and> b < 20" "name2 (112 + of_nat j) i = name2 (112 + of_nat k) b"
      using mem by blast
    then show False using eq [of j i k b] that by linarith
  qed
  show "name2 (112 + of_nat i) i \<notin> set left_over" if i: "i < 20"
  proof
    assume "name2 (112 + of_nat i) i \<in> set left_over"
    then obtain k b where k: "k < 4" "b = 0 \<or> 10 \<le> b \<and> b < 20" "name2 (112 + of_nat i) i = name2 (112 + of_nat k) b"
      "name2 (112 + of_nat i) i \<noteq> name2 112 0" using mem by blast
    then have "i = k \<and> i = b" using eq [of i i k b] i by linarith
    then have "i = 0" using k(1,2) by linarith
    then show False using k(4) by simp
  qed
qed

lemma ufor_cong: "(\<And>x. x \<in> set xs \<Longrightarrow> b x = c x) \<Longrightarrow> ufor xs b = ufor xs c"
  by (induction xs) simp_all

text \<open>No process of the test removes a file that is left over, so that what \<open>unlink\<close> does to them makes no difference.\<close>

lemma createdelete_blind:
  assumes f: "\<And>n. n \<notin> set left_over \<Longrightarrow> f n = os_unlink os n"
  shows "createdelete (os\<lparr>os_unlink := f\<rparr>) = createdelete os"
proof -
  let ?os = "os\<lparr>os_unlink := f\<rparr>"
  have say: "announce ?os = announce os" by (intro ext) (simp add: announce_def)
  have half: "f (name2 (112 + of_nat j) (i div 2)) = os_unlink os (name2 (112 + of_nat j) (i div 2))"
    if "j < 4" "i < 20" "0 < i" "i mod 2 = 0" for i j
    by (rule f, rule left_over_not(1)) (use that in auto)
  have child: "createdelete_child ?os j = createdelete_child os j" if j: "j < 4" for j
    unfolding createdelete_child_def
    by (intro arg_cong2 [where f = useq] refl ufor_cong) (simp add: check_def half j uwhen_def cong: if_cong)
  have look: "createdelete_look ?os = createdelete_look os" by (intro ext) (simp add: createdelete_look_def Let_def cong: if_cong)
  have forks: "ufor [0..<4] (\<lambda>j. only (forked ?os (createdelete_child ?os j) ''fork failed\<newline>'')) =
      ufor [0..<4] (\<lambda>j. only (forked os (createdelete_child os j) ''fork failed\<newline>''))"
    by (rule ufor_cong) (simp add: child forked_def cong: if_cong)
  have clean: "ufor [0..<20] (\<lambda>i. ufor [0..<4] (\<lambda>j. only (os_unlink ?os (name2 (112 + of_nat i) i)))) =
      ufor [0..<20] (\<lambda>i. ufor [0..<4] (\<lambda>j. only (os_unlink os (name2 (112 + of_nat i) i))))"
    by (rule ufor_cong) (simp add: f left_over_not(2) del: upt_Suc)
  have wait: "os_wait ?os = os_wait os" by simp
  show ?thesis unfolding createdelete_def say forks look clean wait ..
qed

text \<open>
  C35. \<open>createdelete\<close> succeeds without cleaning up, on every system: when it returns, it has gone through
  all its loops and printed \<open>createdelete ok\<close> last; before that, with all children waited for, it has opened every name of the
  four letters with a digit 0 or from 10 on, and has failed to open those in between; and
  of the 44 names that exist it has asked to remove at most one. The other 43 no process of the test removes: the
  whole run is the same whatever \<open>unlink\<close> does to them. The last loop takes the letter from
  the wrong variable.
\<close>

theorem createdelete_leaves:
  assumes ret: "createdelete os s = Ret () t"
  shows "(\<exists>u v. createdelete_upto os 20 0 s = Ret () u \<and>
      ufor [0..<20] (\<lambda>i. ufor [0..<4] (\<lambda>j. only (os_unlink os (name2 (112 + of_nat i) i)))) u = Ret () v \<and>
      announce os ''createdelete ok\<newline>'' v = Ret () t) \<and>
    (\<forall>i < 20. \<forall>j < 4. \<exists>u fd w. createdelete_upto os i j s = Ret () u \<and>
      os_open os (name2 (112 + of_nat j) i) 0 u = Ret fd w \<and> (0 \<le> fd \<longleftrightarrow> i = 0 \<or> 10 \<le> i)) \<and>
    (\<forall>f. (\<forall>n. n \<notin> set left_over \<longrightarrow> f n = os_unlink os n) \<longrightarrow> createdelete (os\<lparr>os_unlink := f\<rparr>) = createdelete os) \<and>
    length left_over = 43 \<and> distinct left_over"
proof -
  let ?look = "\<lambda>i. ufor [0..<4] (createdelete_look os i)"
  obtain a b c d e where run: "announce os ''createdelete test\<newline>'' s = Ret () a"
    "ufor [0..<4] (\<lambda>j. only (forked os (createdelete_child os j) ''fork failed\<newline>'')) a = Ret () b"
    "ufor [0..<4] (\<lambda>j. only (os_wait os)) b = Ret () c" "ufor [0..<20] ?look c = Ret () d"
    and clean: "ufor [0..<20] (\<lambda>i. ufor [0..<4] (\<lambda>j. only (os_unlink os (name2 (112 + of_nat i) i)))) d = Ret () e"
    and ok: "announce os ''createdelete ok\<newline>'' e = Ret () t"
    using ret unfolding createdelete_def ublock.simps useq_unit_iff ures.inject by blast
  have "\<exists>u fd w. createdelete_upto os i j s = Ret () u \<and>
      os_open os (name2 (112 + of_nat j) i) 0 u = Ret fd w \<and> (0 \<le> fd \<longleftrightarrow> i = 0 \<or> 10 \<le> i)" if ij: "i < 20" "j < 4" for i j
  proof -
    obtain u v where u: "ufor [0..<i] ?look c = Ret () u" "?look i u = Ret () v" using ufor_split [OF run(4) ij(1)] by blast
    obtain w x where w: "ufor [0..<j] (createdelete_look os i) u = Ret () w" "createdelete_look os i j w = Ret () x"
      using ufor_split [OF u(2) ij(2)] by blast
    have "createdelete_upto os i j s = Ret () w"
      unfolding createdelete_upto_def ublock.simps useq_unit_iff ures.inject using run(1-3) u(1) w(1) by blast
    then show ?thesis using look_Ret [OF w(2)] by blast
  qed
  note opens = this
  have "createdelete_upto os 20 0 s = Ret () d"
    unfolding createdelete_upto_def ublock.simps useq_unit_iff ures.inject upt_0 ufor.simps(1) using run by blast
  then show ?thesis using clean ok opens createdelete_blind [of _ os] left_over_count by blast
qed

text \<open>A system on which the test returns: the digit of a name says whether it can be opened.\<close>

definition kept_os :: "streams os" where
  "kept_os = file_os\<lparr>os_fork := (\<lambda>_. Ret 2), os_wait := Ret 2, os_close := (\<lambda>_. Ret 0), os_unlink := (\<lambda>_. Ret 0),
     os_open := (\<lambda>n flags. Ret (if n ! 1 = 48 \<or> 58 \<le> n ! 1 then 3 else - 1))\<rparr>"

definition returns :: "(unit, 's) U \<Rightarrow> bool" where
  "returns m \<longleftrightarrow> (\<forall>s. \<exists>t. m s = Ret () t)"

lemma returns_Ret: "returns (Ret ())"
  by (simp add: returns_def)

lemma returns_useq: "returns m \<Longrightarrow> returns n \<Longrightarrow> returns (useq m n)"
  unfolding returns_def useq_unit_iff by blast

lemma returns_ufor: "(\<And>x. x \<in> set xs \<Longrightarrow> returns (b x)) \<Longrightarrow> returns (ufor xs b)"
  by (induction xs) (simp_all add: returns_Ret returns_useq)

lemma returns_announce:
  assumes "\<And>c. c \<in> set (lit msg) \<Longrightarrow> c \<noteq> 0 \<and> c \<noteq> 37"
  shows "returns (announce kept_os msg)"
proof -
  have "returns (putc kept_os 1 c)" for c by (simp add: returns_def putc_def kept_os_def file_os_def useq_Ret_iff)
  then show ?thesis
    using printf_go_text [of "lit msg" kept_os 1 "[]" "[]"] assms returns_ufor [of "lit msg" "putc kept_os 1"]
    by (simp add: announce_def printf_def)
qed

lemma returns_createdelete: "returns (createdelete kept_os)"
proof -
  have say: "returns (announce kept_os ''createdelete test\<newline>'')" "returns (announce kept_os ''createdelete ok\<newline>'')"
    by (rule returns_announce, auto simp: lit_def)+
  have calls: "returns (only (forked kept_os child msg))" "returns (only (os_wait kept_os))" "returns (only (os_unlink kept_os n))" for child msg n
    by (simp_all add: returns_def only_def forked_def kept_os_def)
  have look: "returns (createdelete_look kept_os i j)" if i: "i < 20" for i j
  proof -
    have "unat (48 + of_nat i :: u8) = 48 + i" using i by (simp add: unat_word_ariths unat_of_nat)
    then have "(48 + of_nat i :: u8) = 48 \<longleftrightarrow> i = 0" "(58 :: u8) \<le> 48 + of_nat i \<longleftrightarrow> 10 \<le> i"
      by (simp_all add: word_unat_eq_iff word_le_nat_alt)
    then show ?thesis
      by (simp add: returns_def createdelete_look_def kept_os_def name2_def uwhen_def only_def)
  qed
  show ?thesis unfolding createdelete_def ublock.simps useq_unit_right
    by (intro returns_useq say returns_ufor calls look) simp
qed

theorem createdelete_leaves_witness:
  "\<exists>u t. createdelete kept_os \<lparr>w_in = (\<lambda>_. []), w_out = []\<rparr> = Ret () t \<and> announce kept_os ''createdelete ok\<newline>'' u = Ret () t \<and>
    createdelete (kept_os\<lparr>os_unlink := (\<lambda>n. if n \<in> set left_over then Ret (- 1) else Ret 0)\<rparr>) \<lparr>w_in = (\<lambda>_. []), w_out = []\<rparr> = Ret () t"
proof -
  obtain t where t: "createdelete kept_os \<lparr>w_in = (\<lambda>_. []), w_out = []\<rparr> = Ret () t"
    using returns_createdelete by (auto simp: returns_def)
  note P = createdelete_leaves [OF t]
  let ?f = "\<lambda>n. if n \<in> set left_over then Ret (- 1) else Ret 0 :: (int, streams) U"
  have "os_unlink kept_os = (\<lambda>_. Ret 0)" by (simp add: kept_os_def)
  then have "\<forall>n. n \<notin> set left_over \<longrightarrow> ?f n = os_unlink kept_os n" by simp
  then have same: "createdelete (kept_os\<lparr>os_unlink := ?f\<rparr>) = createdelete kept_os"
    using conjunct1 [OF conjunct2 [OF conjunct2 [OF P]], rule_format, of ?f] by simp
  obtain u where u: "announce kept_os ''createdelete ok\<newline>'' u = Ret () t"
    using conjunct1 [OF P] by (elim exE conjE)
  show ?thesis unfolding same by (intro exI conjI, rule t, rule u, rule t)
qed

end
