(* ===== verification/Wakeup.thy ===== *)
theory Wakeup
  imports Ptable
begin

text \<open>
  \<open>sleep\<close> against \<open>wakeup\<close> on several CPUs, proc.c of homework 3. In Ptable a routine runs on one
  CPU with nobody else moving, so that the order of \<open>acquire(&ptable.lock)\<close> and \<open>release(lk)\<close> in
  \<open>sleep\<close> cannot be seen. Here every CPU has a list of calls still to make, the memory is shared, and
  a step is the next call of any one CPU. A CPU has its own \<open>proc\<close> and its own list of held locks;
  a call that takes a lock another CPU holds is not possible yet (that CPU spins in \<open>acquire\<close>,
  Spinlock), and a call inside a critical section is one step.
\<close>

section \<open>CPUs that share the memory\<close>

record 's mp =
  wmem :: 's
  wheld :: "nat \<Rightarrow> lockid list"
  wproc :: "nat \<Rightarrow> nat option"
  wpc :: "nat \<Rightarrow> nat"

text \<open>The state as the code on CPU \<open>d\<close> sees it.\<close>

definition seen_by :: "nat \<Rightarrow> 'z pt_scheme mp \<Rightarrow> 'z pt_scheme" where
  "seen_by d w = (wmem w)\<lparr>held := wheld w d, curproc := wproc w d\<rparr>"

inductive mp_step :: "(nat \<Rightarrow> (unit, 'z pt_scheme) K list) \<Rightarrow> 'z pt_scheme mp \<Rightarrow> 'z pt_scheme mp \<Rightarrow> bool"
  for prog where
  call: "wpc w d < length (prog d) \<Longrightarrow> (prog d ! wpc w d) (seen_by d w) = Ok () t \<Longrightarrow>
    \<forall>e. e \<noteq> d \<longrightarrow> set (held t) \<inter> set (wheld w e) = {} \<Longrightarrow>
    mp_step prog w (w\<lparr>wmem := t, wheld := (wheld w)(d := held t), wproc := (wproc w)(d := curproc t),
      wpc := (wpc w)(d := wpc w d + 1)\<rparr>)"

text \<open>
  CPU 0 is in \<open>sleep(c, lk)\<close> for process \<open>i\<close>; after the switch the scheduler gives \<open>ptable.lock\<close>
  back. Each of the CPUs 1 to \<open>n\<close> runs a critical section of its lock with \<open>wakeup\<close> in it, as the
  interrupt handlers and the pipes do; under \<open>ptable.lock\<close> itself that is \<open>wakeup1\<close>, as in \<open>exit\<close>.
\<close>

definition waker :: "lockid \<Rightarrow> chan \<Rightarrow> (unit, 'z pt_scheme) K list" where
  "waker l ch = kwhen (l \<noteq> LPtable) (acq l) # wakeup_steps ch @ [kwhen (l \<noteq> LPtable) (rel l)]"

definition sleep_progs :: "chan \<Rightarrow> lockid \<Rightarrow> nat \<Rightarrow> nat \<Rightarrow> (nat \<Rightarrow> lockid) \<Rightarrow> (nat \<Rightarrow> chan)
    \<Rightarrow> nat \<Rightarrow> (unit, 'z pt_scheme) K list" where
  "sleep_progs c lk i n l ch d = (case d of
     0 \<Rightarrow> ksleep_steps c lk i @ [rel LPtable]
   | Suc k \<Rightarrow> if k < n then waker (l k) (ch k) else [])"

definition sleep_world :: "'z pt_scheme \<Rightarrow> lockid \<Rightarrow> (nat \<Rightarrow> nat option) \<Rightarrow> 'z pt_scheme mp" where
  "sleep_world s lk g = \<lparr>wmem = s, wheld = (\<lambda>d. if d = 0 then [lk] else []), wproc = g, wpc = (\<lambda>_. 0)\<rparr>"

section \<open>The locks each CPU holds at each point\<close>

definition hold :: "lockid \<Rightarrow> nat \<Rightarrow> (nat \<Rightarrow> lockid) \<Rightarrow> nat \<Rightarrow> nat \<Rightarrow> lockid list" where
  "hold lk n l d p = (case d of
     0 \<Rightarrow> if p = 0 then [lk] else if p = 1 \<and> lk \<noteq> LPtable then [LPtable, lk] else if p < 5 then [LPtable] else []
   | Suc k \<Rightarrow> if k < n then (if p = 2 \<or> p = 3 then [LPtable] else []) @
       (if 0 < p \<and> p < 5 \<and> l k \<noteq> LPtable then [l k] else []) else [])"

text \<open>What the third call of each CPU does to the process table; the others do nothing to it.\<close>

definition effect :: "chan \<Rightarrow> nat \<Rightarrow> (nat \<Rightarrow> chan) \<Rightarrow> nat \<Rightarrow> nat \<Rightarrow> proc list \<Rightarrow> proc list" where
  "effect c i ch d p ps = (if p \<noteq> 2 then ps else case d of
     0 \<Rightarrow> ps[i := (ps ! i)\<lparr>p_chan := Some c, p_state := SLEEPING\<rparr>]
   | Suc k \<Rightarrow> map (wake (ch k)) ps)"

lemma five: "p < 5 \<Longrightarrow> p = 0 \<or> p = 1 \<or> p = 2 \<or> p = 3 \<or> p = (4 :: nat)"
  by linarith

lemma length_progs: "length (sleep_progs c lk i n l ch d) = (if d \<le> n then 5 else 0)"
  by (simp add: sleep_progs_def ksleep_steps_def waker_def wakeup_steps_def split: nat.split)

lemma sleeper_call:
  assumes "p < 5" and "wheld w 0 = hold lk n l 0 p" and "wproc w 0 = Some i"
    and "p = 3 \<Longrightarrow> p_state (procs (wmem w) ! i) \<noteq> RUNNING"
  shows "(sleep_progs c lk i n l ch 0 ! p) (seen_by 0 w) =
    Ok () (seen_by 0 w\<lparr>held := hold lk n l 0 (p + 1), procs := effect c i ch 0 p (procs (wmem w))\<rparr>)"
  using five [OF assms(1)] assms(2-)
  by (elim disjE) (simp_all add: sleep_progs_def ksleep_steps_def hold_def seen_by_def effect_def acq_apply
    rel_apply sched_apply upd_proc_def)

lemma waker_call:
  assumes "p < 5" and "k < n" and "wheld w (Suc k) = hold lk n l (Suc k) p"
  shows "(sleep_progs c lk i n l ch (Suc k) ! p) (seen_by (Suc k) w) =
    Ok () (seen_by (Suc k) w\<lparr>held := hold lk n l (Suc k) (p + 1), procs := effect c i ch (Suc k) p (procs (wmem w))\<rparr>)"
  using five [OF assms(1)] assms(2-)
  by (elim disjE) (simp_all add: sleep_progs_def waker_def wakeup_steps_def hold_def seen_by_def effect_def acq_apply
    rel_apply wakeup1_def)

lemma cpu_call:
  assumes "d \<le> n" "wpc w d < 5" and "wheld w d = hold lk n l d (wpc w d)" and "wproc w 0 = Some i"
    and "wpc w 0 = 3 \<Longrightarrow> p_state (procs (wmem w) ! i) \<noteq> RUNNING"
  shows "(sleep_progs c lk i n l ch d ! wpc w d) (seen_by d w) =
    Ok () (seen_by d w\<lparr>held := hold lk n l d (wpc w d + 1), procs := effect c i ch d (wpc w d) (procs (wmem w))\<rparr>)"
proof (cases d)
  case 0
  show ?thesis unfolding 0 by (rule sleeper_call) (use assms 0 in simp_all)
next
  case (Suc k)
  then have "k < n" using assms(1) by simp
  then show ?thesis using assms(2,3) by (simp only: Suc waker_call)
qed

section \<open>The invariant\<close>

text \<open>
  Locks are held by one CPU; a waker under the sleeper's lock is not past its \<open>acquire\<close> of
  \<open>ptable.lock\<close> while the process is still on its way to sleep; and the table is the first one
  with the sleeps and wakeups so far.
\<close>

definition woken :: "nat \<Rightarrow> (nat \<Rightarrow> chan) \<Rightarrow> (nat \<Rightarrow> nat) \<Rightarrow> chan \<Rightarrow> bool" where
  "woken n ch pc c \<longleftrightarrow> (\<exists>k < n. 3 \<le> pc (Suc k) \<and> ch k = c)"

definition roused :: "(chan \<Rightarrow> bool) \<Rightarrow> proc \<Rightarrow> proc" where
  "roused W p = (if p_state p = SLEEPING \<and> (\<exists>c. p_chan p = Some c \<and> W c) then p\<lparr>p_state := RUNNABLE\<rparr> else p)"

definition sleep_pc :: "lockid \<Rightarrow> nat \<Rightarrow> (nat \<Rightarrow> lockid) \<Rightarrow> (nat \<Rightarrow> nat) \<Rightarrow> bool" where
  "sleep_pc lk n l pc \<longleftrightarrow> (\<forall>d. pc d \<le> (if d \<le> n then 5 else 0)) \<and>
     (\<forall>d e. d \<noteq> e \<longrightarrow> set (hold lk n l d (pc d)) \<inter> set (hold lk n l e (pc e)) = {}) \<and>
     (\<forall>k < n. l k = lk \<longrightarrow> pc 0 < 3 \<longrightarrow> pc (Suc k) \<le> 1)"

definition sleep_table :: "chan \<Rightarrow> lockid \<Rightarrow> nat \<Rightarrow> nat \<Rightarrow> (nat \<Rightarrow> lockid) \<Rightarrow> (nat \<Rightarrow> chan) \<Rightarrow> proc list
    \<Rightarrow> (nat \<Rightarrow> nat) \<Rightarrow> proc list \<Rightarrow> bool" where
  "sleep_table c lk i n l ch ps pc qs \<longleftrightarrow> length qs = length ps \<and>
     (\<forall>j < length ps. j \<noteq> i \<longrightarrow> qs ! j = roused (woken n ch pc) (ps ! j)) \<and>
     (if pc 0 < 3 then qs ! i = ps ! i
      else p_chan (qs ! i) = Some c \<and> (p_state (qs ! i) = SLEEPING \<or> p_state (qs ! i) = RUNNABLE) \<and>
        (p_state (qs ! i) = RUNNABLE \<longrightarrow> woken n ch pc c) \<and>
        (p_state (qs ! i) = SLEEPING \<longrightarrow> (\<forall>k < n. l k = lk \<longrightarrow> ch k = c \<longrightarrow> pc (Suc k) < 3)))"

definition sleep_inv :: "chan \<Rightarrow> lockid \<Rightarrow> nat \<Rightarrow> nat \<Rightarrow> (nat \<Rightarrow> lockid) \<Rightarrow> (nat \<Rightarrow> chan) \<Rightarrow> 'z pt_scheme
    \<Rightarrow> (nat \<Rightarrow> nat option) \<Rightarrow> 'z pt_scheme mp \<Rightarrow> bool" where
  "sleep_inv c lk i n l ch s g w \<longleftrightarrow>
     g 0 = Some i \<and> i < length (procs s) \<and> p_state (procs s ! i) = RUNNING \<and>
     wproc w = g \<and> (\<forall>d. wheld w d = hold lk n l d (wpc w d)) \<and> sleep_pc lk n l (wpc w) \<and>
     sleep_table c lk i n l ch (procs s) (wpc w) (procs (wmem w))"

definition sleep_start :: "lockid \<Rightarrow> nat \<Rightarrow> 'z pt_scheme \<Rightarrow> (nat \<Rightarrow> nat option) \<Rightarrow> 'z pt_scheme mp \<Rightarrow> bool" where
  "sleep_start lk i s g w \<longleftrightarrow> w = sleep_world s lk g \<and>
     g 0 = Some i \<and> i < length (procs s) \<and> p_state (procs s ! i) = RUNNING"

lemma roused_wake: "wake c (roused W p) = roused (\<lambda>d. W d \<or> d = c) p"
  by (auto simp: roused_def wake_def)

lemma woken_other: "d = 0 \<or> pc d \<noteq> 2 \<Longrightarrow> woken n ch (pc(d := Suc (pc d))) = woken n ch pc"
proof (rule ext)
  fix c assume d: "d = 0 \<or> pc d \<noteq> 2"
  have "3 \<le> (pc(d := Suc (pc d))) (Suc k) \<longleftrightarrow> 3 \<le> pc (Suc k)" for k using d by auto
  then show "woken n ch (pc(d := Suc (pc d))) c = woken n ch pc c" by (simp only: woken_def)
qed

lemma woken_wake:
  assumes "k < n" "pc (Suc k) = 2"
  shows "woken n ch (pc(Suc k := 3)) = (\<lambda>c. woken n ch pc c \<or> c = ch k)"
proof (rule ext)
  fix c
  have "3 \<le> (pc(Suc k := 3)) (Suc j) \<longleftrightarrow> 3 \<le> pc (Suc j) \<or> j = k" for j by auto
  then show "woken n ch (pc(Suc k := 3)) c = (woken n ch pc c \<or> c = ch k)"
    using assms(1) by (auto simp only: woken_def)
qed

lemma sleep_pc_step:
  assumes inv: "sleep_pc lk n l pc" and d: "d \<le> n" "pc d < 5"
    and free: "\<And>e. e \<noteq> d \<Longrightarrow> set (hold lk n l d (pc d + 1)) \<inter> set (hold lk n l e (pc e)) = {}"
  shows "sleep_pc lk n l (pc(d := pc d + 1))"
  unfolding sleep_pc_def
proof (intro conjI allI impI)
  fix e
  have "pc e \<le> (if e \<le> n then 5 else 0)" using inv unfolding sleep_pc_def by blast
  then show "(pc(d := pc d + 1)) e \<le> (if e \<le> n then 5 else 0)" using d by (cases "e \<le> n") auto
next
  fix e f assume "e \<noteq> (f :: nat)"
  then show "set (hold lk n l e ((pc(d := pc d + 1)) e)) \<inter> set (hold lk n l f ((pc(d := pc d + 1)) f)) = {}"
    using inv free [of e] free [of f] by (cases "e = d"; cases "f = d") (auto simp: sleep_pc_def)
next
  fix k assume k: "k < n" "l k = lk" "(pc(d := pc d + 1)) 0 < 3"
  then have old: "pc (Suc k) \<le> 1" using inv by (cases "d = 0") (auto simp: sleep_pc_def)
  have "\<not> pc (Suc k) = 1" if "d = Suc k"
  proof
    assume one: "pc (Suc k) = 1"
    have "LPtable \<notin> set (hold lk n l 0 (pc 0))" using free [of 0] that one k(1) by (auto simp: hold_def)
    moreover have "lk \<notin> set (hold lk n l 0 (pc 0))" using free [of 0] that one k(1,2) by (auto simp: hold_def)
    ultimately show False using k(3) that by (auto simp: hold_def split: if_splits)
  qed
  then show "(pc(d := pc d + 1)) (Suc k) \<le> 1" using old by auto
qed

lemma sleep_table_step:
  assumes tab: "sleep_table c lk i n l ch ps pc qs" and inv: "sleep_pc lk n l pc" and d: "d \<le> n"
    and i: "i < length ps" "p_state (ps ! i) = RUNNING"
  shows "sleep_table c lk i n l ch ps (pc(d := pc d + 1)) (effect c i ch d (pc d) qs)"
proof (cases "pc d = 2")
  case False
  then have w: "woken n ch (pc(d := Suc (pc d))) = woken n ch pc" by (intro woken_other) simp
  have three: "Suc (pc d) < 3 \<longleftrightarrow> pc d < 3" using False by linarith
  have up: "(pc(d := Suc (pc d))) e < 3 \<longleftrightarrow> pc e < 3" for e using three by simp
  have "sleep_table c lk i n l ch ps (pc(d := Suc (pc d))) qs = sleep_table c lk i n l ch ps pc qs"
    by (simp only: sleep_table_def w up)
  then show ?thesis using tab False by (simp add: effect_def)
next
  case two: True
  show ?thesis
  proof (cases d)
    case 0
    have p0: "pc 0 = 2" using two 0 by simp
    have w: "woken n ch (pc(0 := 3)) = woken n ch pc" using woken_other [of 0 pc n ch] p0 by simp
    have "pc (Suc k) \<le> 1" if "k < n" "l k = lk" for k
      using inv that p0 unfolding sleep_pc_def by simp
    then have early: "\<forall>k < n. l k = lk \<longrightarrow> ch k = c \<longrightarrow> (pc(0 := 3)) (Suc k) < 3" by fastforce
    have len: "length qs = length ps" and others: "\<forall>j < length ps. j \<noteq> i \<longrightarrow> qs ! j = roused (woken n ch pc) (ps ! j)"
      using tab unfolding sleep_table_def by blast+
    have "sleep_table c lk i n l ch ps (pc(0 := 3)) (qs[i := (qs ! i)\<lparr>p_chan := Some c, p_state := SLEEPING\<rparr>])"
      unfolding sleep_table_def w using early len others i(1) by simp
    then show ?thesis using p0 by (simp add: 0 effect_def)
  next
    case (Suc k)
    then have k: "k < n" and pk: "pc (Suc k) = 2" using d two by auto
    have w: "woken n ch (pc(Suc k := 3)) = (\<lambda>c. woken n ch pc c \<or> c = ch k)"
      by (rule woken_wake [where pc = pc]) (fact k pk)+
    have same: "wake (ch k) (ps ! i) = ps ! i" using i by (simp add: wake_def)
    have len: "length qs = length ps" and others: "\<forall>j < length ps. j \<noteq> i \<longrightarrow> qs ! j = roused (woken n ch pc) (ps ! j)"
      using tab unfolding sleep_table_def by blast+
    have "if pc 0 < 3 then wake (ch k) (qs ! i) = ps ! i
      else p_chan (qs ! i) = Some c \<and> (p_state (wake (ch k) (qs ! i)) = SLEEPING \<or> p_state (wake (ch k) (qs ! i)) = RUNNABLE) \<and>
        (p_state (wake (ch k) (qs ! i)) = RUNNABLE \<longrightarrow> woken n ch pc c \<or> c = ch k) \<and>
        (p_state (wake (ch k) (qs ! i)) = SLEEPING \<longrightarrow> (\<forall>m < n. l m = lk \<longrightarrow> ch m = c \<longrightarrow> (pc(Suc k := 3)) (Suc m) < 3))"
      using tab same unfolding sleep_table_def by (auto simp: wake_state split: if_splits)
    then have "sleep_table c lk i n l ch ps (pc(Suc k := 3)) (map (wake (ch k)) qs)"
      unfolding sleep_table_def w
      using len others i(1) by (simp add: roused_wake fun_upd_other [of 0 "Suc k"] del: fun_upd_apply)
    then show ?thesis using pk by (simp add: Suc effect_def)
  qed
qed

lemma sleep_step_inv:
  assumes inv: "sleep_inv c lk i n l ch s g w" and "mp_step (sleep_progs c lk i n l ch) w v"
  shows "sleep_inv c lk i n l ch s g v"
  using assms(2)
proof (cases rule: mp_step.cases)
  case (call d t)
  then have d: "d \<le> n" "wpc w d < 5" by (auto simp: length_progs split: if_splits)
  have run: "(sleep_progs c lk i n l ch d ! wpc w d) (seen_by d w) =
    Ok () (seen_by d w\<lparr>held := hold lk n l d (wpc w d + 1), procs := effect c i ch d (wpc w d) (procs (wmem w))\<rparr>)"
    by (rule cpu_call [OF d]) (use inv in \<open>auto simp: sleep_inv_def sleep_table_def\<close>)
  then have t: "held t = hold lk n l d (wpc w d + 1)" "curproc t = wproc w d"
    "procs t = effect c i ch d (wpc w d) (procs (wmem w))"
    using call(3) by (auto simp: seen_by_def)
  have pc: "sleep_pc lk n l ((wpc w)(d := wpc w d + 1))"
    by (rule sleep_pc_step [where pc = "wpc w"]) (use d inv call(4) t(1) in \<open>auto simp: sleep_inv_def\<close>)
  have "sleep_table c lk i n l ch (procs s) ((wpc w)(d := wpc w d + 1)) (procs t)"
    unfolding t(3) by (rule sleep_table_step) (use inv d in \<open>auto simp: sleep_inv_def\<close>)
  then show ?thesis using inv pc t unfolding call(1) by (auto simp: sleep_inv_def)
qed

lemma sleep_start_inv: "sleep_start lk i s g w \<Longrightarrow> sleep_inv c lk i n l ch s g w"
  by (auto simp: sleep_start_def sleep_world_def sleep_inv_def sleep_pc_def sleep_table_def hold_def
    woken_def roused_def split: nat.split)

interpretation sleeping: transition_system "sleep_start lk i s g" "mp_step (sleep_progs c lk i n l ch)"
  "sleep_inv c lk i n l ch s g"
  by unfold_locales (erule sleep_start_inv, rule sleep_step_inv)

section \<open>Progress\<close>

lemma hold_next:
  assumes "d \<le> n" and "p < 5" and "d = 0 \<or> p \<noteq> 0"
  shows "set (hold lk n l d (p + 1)) \<subseteq> insert LPtable (set (hold lk n l d p))"
proof (cases d)
  case 0
  then show ?thesis using assms(2) by (auto simp: hold_def)
next
  case (Suc k)
  then show ?thesis using assms by (auto simp: hold_def)
qed

lemma hold_ptable:
  assumes "LPtable \<in> set (hold lk n l d p)"
  shows "d \<le> n \<and> p < 5 \<and> (d = 0 \<or> p \<noteq> 0)"
  using assms by (cases d) (auto simp: hold_def split: if_splits)

lemma hold_ended: "5 \<le> p \<Longrightarrow> hold lk n l d p = []"
  by (cases d) (auto simp: hold_def)

lemma sleep_enabled:
  assumes inv: "sleep_inv c lk i n l ch s g w" and d: "d \<le> n" "wpc w d < 5"
    and free: "\<And>e. e \<noteq> d \<Longrightarrow> set (hold lk n l d (wpc w d + 1)) \<inter> set (hold lk n l e (wpc w e)) = {}"
  shows "\<exists>v. mp_step (sleep_progs c lk i n l ch) w v"
proof -
  have run: "(sleep_progs c lk i n l ch d ! wpc w d) (seen_by d w) =
    Ok () (seen_by d w\<lparr>held := hold lk n l d (wpc w d + 1), procs := effect c i ch d (wpc w d) (procs (wmem w))\<rparr>)"
    by (rule cpu_call [OF d]) (use inv in \<open>auto simp: sleep_inv_def sleep_table_def\<close>)
  show ?thesis
    by (rule exI, rule mp_step.call [of w d _ "seen_by d w\<lparr>held := hold lk n l d (wpc w d + 1), procs := effect c i ch d (wpc w d) (procs (wmem w))\<rparr>"])
      (use run free d inv in \<open>auto simp: length_progs sleep_inv_def\<close>)
qed

lemma sleep_progress:
  assumes inv: "sleep_inv c lk i n l ch s g w" and d: "d \<le> n" "wpc w d < 5"
  shows "\<exists>v. mp_step (sleep_progs c lk i n l ch) w v"
proof -
  have apart: "set (hold lk n l a (wpc w a)) \<inter> set (hold lk n l e (wpc w e)) = {}" if "e \<noteq> a" for a e
    using inv that unfolding sleep_inv_def sleep_pc_def by blast
  have go: "\<exists>v. mp_step (sleep_progs c lk i n l ch) w v"
    if a: "a \<le> n" "wpc w a < 5" "a = 0 \<or> wpc w a \<noteq> 0"
      and nobody: "\<And>e. e \<noteq> a \<Longrightarrow> LPtable \<notin> set (hold lk n l e (wpc w e))" for a
    by (rule sleep_enabled [OF inv a(1,2)])
      (use hold_next [OF a, of lk l] apart [of _ a] nobody in blast)
  show ?thesis
  proof (cases "\<exists>a. LPtable \<in> set (hold lk n l a (wpc w a))")
    case True
    then obtain a where a: "LPtable \<in> set (hold lk n l a (wpc w a))" by blast
    then have "LPtable \<notin> set (hold lk n l e (wpc w e))" if "e \<noteq> a" for e using apart [OF that] by blast
    then show ?thesis using hold_ptable [OF a] by (intro go [of a]) auto
  next
    case nobody: False
    show ?thesis
    proof (cases "\<exists>a \<le> n. wpc w a < 5 \<and> (a = 0 \<or> wpc w a \<noteq> 0)")
      case True
      then show ?thesis using go nobody by blast
    next
      case idle: False
      have "hold lk n l e (wpc w e) = []" for e
      proof (cases "wpc w e < 5 \<and> e \<le> n")
        case True
        then have "\<not> (e = 0 \<or> wpc w e \<noteq> 0)" using idle by blast
        then show ?thesis by (cases e) (simp_all add: hold_def)
      next
        case False
        then show ?thesis by (cases e) (auto simp: hold_def)
      qed
      then show ?thesis by (intro sleep_enabled [OF inv d]) simp
    qed
  qed
qed

text \<open>A bounded property of naturals that holds of 0 holds of a largest one.\<close>

lemma longest:
  fixes P :: "nat \<Rightarrow> bool"
  assumes "P 0" and "\<And>m. P m \<Longrightarrow> m \<le> b"
  shows "\<exists>m. P m \<and> (\<forall>k. P k \<longrightarrow> k \<le> m)"
  using GreatestI_nat [of P 0 b] Greatest_le_nat [of P _ b] assms by blast

lemma sleep_steps_counted:
  assumes "(mp_step (sleep_progs c lk i n l ch) ^^ m) w v"
  shows "(\<Sum>d \<le> n. wpc v d) = (\<Sum>d \<le> n. wpc w d) + m"
  using assms
proof (induction m arbitrary: v)
  case (Suc m)
  then obtain u where u: "(mp_step (sleep_progs c lk i n l ch) ^^ m) w u" and "mp_step (sleep_progs c lk i n l ch) u v" by auto
  from this(2) obtain d where d: "d \<le> n" and v: "wpc v = (wpc u)(d := wpc u d + 1)"
    by (cases rule: mp_step.cases) (auto simp: length_progs split: if_splits)
  have "(\<Sum>e \<le> n. wpc v e) = (\<Sum>e \<le> n. wpc u e + (if e = d then 1 else 0))"
    by (rule sum.cong) (auto simp: v)
  then show ?case using Suc.IH [OF u] d by (simp add: sum.distrib)
qed simp

text \<open>
  C16. No wakeup is lost, however the steps of the CPUs interleave. Process \<open>i\<close> runs on CPU 0 and
  calls \<open>sleep(c, lk)\<close> with just \<open>lk\<close> held; \<open>n\<close> other CPUs each run a critical section of a lock with
  a \<open>wakeup\<close> in it. Every run of \<open>m\<close> steps has at most \<open>5 (n + 1)\<close> of them; no call in it panics; and it can
  go on until all are done. Then no lock is held; if some \<open>wakeup\<close> of \<open>c\<close> was under \<open>lk\<close> the process
  is RUNNABLE, and if none was for \<open>c\<close> it sleeps on \<open>c\<close>; another process has changed
  just if it slept on a channel of the wakeups, and is RUNNABLE now. (With \<open>lk\<close> released before
  \<open>ptable.lock\<close> is taken a \<open>wakeup\<close> fits in between, and the process sleeps for ever.)
\<close>

lemma no_lost_wakeup:
  fixes s :: "'z pt_scheme"
  assumes me: "g 0 = Some i" "i < length (procs s)" "p_state (procs s ! i) = RUNNING"
    and run: "(mp_step (sleep_progs c lk i n l ch) ^^ m) (sleep_world s lk g) v"
  shows "m \<le> 5 * (n + 1) \<and>
    (\<forall>d. wpc v d < length (sleep_progs c lk i n l ch d) \<longrightarrow>
      (\<exists>t. (sleep_progs c lk i n l ch d ! wpc v d) (seen_by d v) = Ok () t)) \<and>
    ((\<exists>u. mp_step (sleep_progs c lk i n l ch) v u) \<or>
     (\<forall>d. wpc v d = length (sleep_progs c lk i n l ch d) \<and> wheld v d = []) \<and>
     ((\<exists>k < n. l k = lk \<and> ch k = c) \<longrightarrow> p_state (procs (wmem v) ! i) = RUNNABLE) \<and>
     ((\<forall>k < n. ch k \<noteq> c) \<longrightarrow> p_state (procs (wmem v) ! i) = SLEEPING \<and> p_chan (procs (wmem v) ! i) = Some c) \<and>
     (\<forall>j < length (procs s). j \<noteq> i \<longrightarrow> procs (wmem v) ! j =
       (if p_state (procs s ! j) = SLEEPING \<and> (\<exists>k < n. p_chan (procs s ! j) = Some (ch k))
        then (procs s ! j)\<lparr>p_state := RUNNABLE\<rparr> else procs s ! j)))"
proof -
  have "sleep_start lk i s g (sleep_world s lk g)" using me by (simp add: sleep_start_def)
  from sleeping.reachable_inv [OF this relpowp_imp_rtranclp [OF run]]
  have inv: "sleep_inv c lk i n l ch s g v" .
  then have pc: "wpc v d \<le> (if d \<le> n then 5 else 0)" and tab: "sleep_table c lk i n l ch (procs s) (wpc v) (procs (wmem v))"
    and hl: "wheld v d = hold lk n l d (wpc v d)" for d unfolding sleep_inv_def sleep_pc_def by blast+
  have count: "m = (\<Sum>d \<le> n. wpc v d)" using sleep_steps_counted [OF run] by (simp add: sleep_world_def)
  have "wpc v d \<le> 5" for d using pc [of d] by (cases "d \<le> n") auto
  then have "(\<Sum>d \<le> n. wpc v d) \<le> (\<Sum>d \<le> n. 5)" by (rule sum_mono)
  then have steps: "m \<le> 5 * (n + 1)" by (simp add: count)
  have calls: "\<exists>t. (sleep_progs c lk i n l ch d ! wpc v d) (seen_by d v) = Ok () t"
    if "wpc v d < length (sleep_progs c lk i n l ch d)" for d
    using cpu_call [of d n v lk l i c ch] that inv
    by (auto simp: length_progs sleep_inv_def sleep_table_def split: if_splits)
  show ?thesis
  proof (cases "\<exists>d \<le> n. wpc v d < 5")
    case True
    then show ?thesis using sleep_progress [OF inv] steps calls by blast
  next
    case False
    then have over: "wpc v d = (if d \<le> n then 5 else 0)" for d using pc [of d] by (auto split: if_splits)
    have "hold lk n l d (wpc v d) = []" for d by (cases d) (auto simp: over hold_def)
    moreover have "woken n ch (wpc v) e \<longleftrightarrow> (\<exists>k < n. ch k = e)" for e
      by (auto simp: woken_def over Suc_le_eq)
    ultimately show ?thesis using steps calls tab
      by (auto simp: sleep_table_def over length_progs hl roused_def)
  qed
qed

text \<open>
  Process 0 goes to sleep on the ticks while CPU 1 runs the timer's wakeup: some run cannot go on
  (the longest), and after it both sleepers are RUNNABLE.
\<close>

lemma no_lost_wakeup_witness:
  "\<exists>m v. (mp_step (sleep_progs ChTicks LTicks 0 1 (\<lambda>_. LTicks) (\<lambda>_. ChTicks)) ^^ m)
      (sleep_world (boot_pt\<lparr>procs := [zero_proc\<lparr>p_state := RUNNING\<rparr>,
        zero_proc\<lparr>p_state := SLEEPING, p_chan := Some ChTicks\<rparr>]\<rparr>) LTicks (\<lambda>_. Some 0)) v \<and>
    p_state (procs (wmem v) ! 0) = RUNNABLE \<and> p_state (procs (wmem v) ! 1) = RUNNABLE"
proof -
  let ?s = "boot_pt\<lparr>procs := [zero_proc\<lparr>p_state := RUNNING\<rparr>, zero_proc\<lparr>p_state := SLEEPING, p_chan := Some ChTicks\<rparr>]\<rparr>"
  let ?P = "sleep_progs ChTicks LTicks 0 1 (\<lambda>_. LTicks) (\<lambda>_. ChTicks)"
  let ?w = "sleep_world ?s LTicks (\<lambda>_. Some 0)"
  let ?run = "\<lambda>m v. (mp_step ?P ^^ m) ?w v"
  note ends = no_lost_wakeup [where g = "\<lambda>_. Some 0" and i = 0 and s = ?s and c = ChTicks and lk = LTicks
    and n = 1 and l = "\<lambda>_. LTicks" and ch = "\<lambda>_. ChTicks"]
  have s: "(\<lambda>_. Some 0) (0 :: nat) = Some (0 :: nat)" "0 < length (procs ?s)" "p_state (procs ?s ! 0) = RUNNING" by simp_all
  have few: "m \<le> 10" if some: "\<exists>v. ?run m v" for m
  proof -
    obtain v where "?run m v" using some by blast
    from ends [OF s this] show ?thesis by (auto dest: conjunct1)
  qed
  have "\<exists>v. ?run 0 v" by simp
  from longest [of "\<lambda>m. \<exists>v. ?run m v", OF this few] obtain m where
    m: "\<exists>v. ?run m v" and most: "\<And>k. \<exists>v. ?run k v \<Longrightarrow> k \<le> m" by blast
  from m obtain v where v: "?run m v" by blast
  have "\<not> (\<exists>u. mp_step ?P v u)"
  proof
    assume "\<exists>u. mp_step ?P v u"
    then have "\<exists>u. ?run (Suc m) u" using v by auto
    from most [OF this] show False by simp
  qed
  with ends [OF s v] have "p_state (procs (wmem v) ! 0) = RUNNABLE" "p_state (procs (wmem v) ! 1) = RUNNABLE"
    by auto
  with v show ?thesis by blast
qed

end
