(* ===== verification/Spec2Isabelle.thy ===== *)
theory Spec2Isabelle
  imports Prelude Spinlock Cprintf Ptable Cmem Kalloc Vm Trap Grep Sort Sh Umalloc Prle Mkfs Mp Bootmain Homework1 Usertests Wakeup
begin

text \<open>
  A verification library for the C programs of a course on operating systems: the xv6 kernel with a
  system call \<open>wait_stat\<close> and a lottery scheduler (homework-3-lottery-scheduling), its user programs
  and \<open>mkfs\<close>, the \<open>sort\<close> program and the kernel of homework 1, and two run-length encoders for the
  host (homework-4-run-length-encodinng-RLE). Paths below are under src/; where no homework is named
  they are under src/homework-3-lottery-scheduling/.

  \<^bold>\<open>The program.\<close> The boot loader (kernel/bootmain.c) loads the kernel; \<open>main\<close> (kernel/main.c)
  finds the processors and the interrupt controllers, sets up every table and enters the scheduler.
  From then on the kernel runs when a process traps: \<open>trap\<close> serves the device interrupts and hands
  system calls to \<open>syscall\<close>, which calls the file calls (sysfile.c), the process calls (sysproc.c,
  proc.c) and \<open>exec\<close>. Files lie in layers: open files and pipes over inodes, directories and
  paths, these over the block allocator, the log, the buffer cache and the disk driver. Below
  everything are the page allocator, the page tables, the process table with \<open>sleep\<close> and
  \<open>wakeup\<close>, and the spin locks.

  \<^bold>\<open>State and outcomes.\<close> The state of the kernel is one record, built by extension in the
  order of the theories: \<open>kst\<close> (the locks held), \<open>irqc\<close> (interrupt controllers), the console, the
  process table, memory, the page allocator, the disk, buffers, log, inodes, console input, files,
  and \<open>kern\<close>. An operation of a layer is polymorphic in the layers above it, so it runs unchanged
  on the whole kernel. An operation is a function from the state to an outcome (Prelude): \<open>Ok\<close> a
  result and a state, \<open>Panic\<close>, \<open>Sleep\<close> on a channel (the CPU is back in the scheduler), \<open>Hang\<close>, or
  \<open>Undef\<close>. Every \<open>panic\<close>, early return and null pointer of the source is such an outcome. Table
  entries are named by their index, pages by their address, memory is a byte per 32-bit address.
  The code runs on one CPU at a time between switches; what other processes and interrupts do
  during a sleep is an environment, an argument of the operations that may sleep and come back.
  Several CPUs at once are modelled where the code is about them: the spin lock (Spinlock), and
  \<open>sleep\<close> against \<open>wakeup\<close> (Wakeup).

  \<^bold>\<open>The theories\<close>, each with its part of the source and what its lemmas show.
  \<^item> Prelude: outcomes and combinators (\<open>kbind\<close>, \<open>kseq\<close>, \<open>kfor\<close>, \<open>kloop\<close>), a
    total-correctness predicate transformer \<open>wp\<close>, the frame predicate \<open>keeps\<close>, C integers, table
    scans, the locale \<open>transition_system\<close>.
  \<^item> Spinlock (spinlock.c): \<open>pushcli\<close> and \<open>popcli\<close> nest, to any depth that an \<open>int\<close> counts; with any number of CPUs stepping through
    the atomic points of \<open>acquire\<close> and \<open>release\<close>, a lock has one owner. The locale \<open>mutex\<close> is what
    the rest of the kernel assumes of locks; it is interpreted by the real lock on one CPU and by the
    list of held locks that the other theories use.
  \<^item> Irq (picirq.c, timer.c, ioapic.c, lapic.c) and Cprintf (output half of console.c, uart.c): which
    interrupt lines are open; the screen and what \<open>cprintf\<close> prints.
  \<^item> Ptable (proc.c, with the schedulers of both homeworks): the random table is a rotation; what the
    lottery picks and how it degenerates into a round robin; sleep and wakeup on one CPU.
  \<^item> Wakeup (\<open>sleep\<close>, \<open>wakeup\<close> and \<open>wakeup1\<close> of proc.c): the calls that these routines make, run by any number of CPUs
    over shared memory in any order the locks allow; no wakeup under the sleeper's lock is lost.
  \<^item> Cmem (string.c), Kalloc (kalloc.c), Vm (vm.c): memory functions against list operations; the
    free list refines a list of pages (locale \<open>allocator\<close>); mapping a page changes the translation of
    that page only.
  \<^item> Ide (ide.c), Bio (bio.c), Log (log.c), Txn: the disk queue; the buffer cache against the content
    of the device (locale \<open>block_layer\<close>, with the laws of \<open>aside\<close> for what other layers leave
    alone); crash safety of commit and recovery; the transaction contract \<open>txn_layer\<close> on which the
    file system rests, also for a transaction that has paid for some blocks in advance (\<open>TXA\<close>).
  \<^item> Codec (locale \<open>field_store\<close>), Inode and Fs (fs.c): little-endian fields in blocks; block
    allocation, the reference counts of the inode cache up to the last one, which frees the blocks of
    the inode (locale \<open>fs_layer\<close>), an inode survives being written and read
    back; reading after writing, directories, path elements.
  \<^item> Ring (locale \<open>bounded_queue\<close>), Input (input half of console.c, kbd.c, uart.c) and File (file.c,
    pipe.c): the keyboard line discipline refines a line editor; a pipe is a bounded queue and is
    freed exactly when both ends are closed.
  \<^item> Proc (rest of proc.c), Syscall, Sysfile, Exec, Trap (syscall.c, sysfile.c, sysproc.c, exec.c,
    trap.c): fork fails cleanly, a parent that waits learns of an exit, the bounds \<open>argptr\<close> checks,
    what the clock counts.
  \<^item> Typed and Homework1 (kernel/proc.c, kernel/trap.c and kernel/syscall.c of homework-1-sort): the
    types of the process table, kept by every trap, by the first process and by the scheduler; a trap
    of this kernel, seen without times, tickets and random numbers, is that of homework 1.
  \<^item> Ulib (ulib.c and the interface \<open>os\<close> of user programs), Printf, Utils (the small programs), Grep,
    Sort (homework-1-sort/user/sort.c), Sh, Umalloc: printed numbers are read back; grep decides the
    language of its pattern; sort sorts what is read in whole words; the shell's parser inverts a printer; the heap of \<open>malloc\<close>
    and \<open>free\<close> stays a list of disjoint blocks.
  \<^item> Usertests (usertests.c): the test suite over the same interface; what its \<open>createdelete\<close> checks,
    and which of its files it never removes, on any system.
  \<^item> Mkfs (mkfs/mkfs.c): the image it builds contains every file under its name.
  \<^item> Mp (mp.c, the rest of ioapic.c and lapic.c, \<open>seginit\<close>, main.c) and Bootmain (bootmain.c): the
    table walk ends or runs out of the tables exactly as stated; the clock is read consistently; the
    kernel's segments are in memory at the jump.
  \<^item> Rle, Prle (rle.c, prle.c of homework 4): decoding inverts the encoder; where the threaded
    encoder agrees with it.

  \<^bold>\<open>Bounds and fuel.\<close> A loop whose number of turns is a count of the code is structural
  recursion. \<open>kloop\<close> takes the number of turns it may make and is \<open>Hang\<close> beyond it: the loops of
  \<open>freerange\<close> and \<open>loaduvm\<close> get 1048577, one more than there are pages in 32 bits of address, and
  \<open>copyout\<close>, which may start and end inside a page, one more than that; erasing an input line gets
  one more than its characters; waiting for the disk gets one more than there are buffers to be
  served first. The walk of \<open>malloc\<close> along its list is \<open>while_option\<close>, shown to end on the lists
  that \<open>malloc\<close> and \<open>free\<close> keep. The shell's parser is given fuel
  from the length of its line, and the round trip shows that it is enough. Programs that read to the end of their input
  (cat, wc, grep, sort) are given a number of reads, and the lemmas show that one more than the number of
  chunks is enough. The loop of \<open>cmostime\<close> is given turns, and \<open>cmostime_returns\<close> shows how many
  suffice. The loops of the boot loader that poll the drive may run for ever; they are
  \<open>partial_function (option)\<close>, and \<open>bootmain_loads\<close> proves that they return. The scheduler is the
  first \<open>n\<close> turns of its endless loop. A kernel loop that sleeps takes the list of environments
  that run during its sleeps; with none left its outcome is \<open>Sleep\<close>.

  \<^bold>\<open>Not modelled.\<close> The assembly: vectors.S, trapasm.S, swtch.S, entry.S, entryother.S, bootasm.S,
  usys.S, initcode.S and the calculator of homework-2-x86-calculator. The switch between processes is
  an argument (the environments above), and so is the code of the first process. Except for the files
  named in this header, the files of homework 1 are copies of those of homework 3, so that the models
  stand for both. x86.h (inline assembly) has its effects inside the operations that use it; defs.h,
  types.h, asm.h and user.h declare names. Inputs and images (numbers.txt, the texts of homework 4,
  the binaries of homework 2) are data. From outside the repository come the C library of the host (in
  Mkfs, Rle and Prle) and the hardware's answers, which are arguments.
\<close>

end
